(* ===== verification/Prelude.thy ===== *)
theory Prelude
  imports Main "HOL-Library.Word" "HOL-Library.Sublist"
begin

text \<open>
  What the component theories share: the machine types of the C++ code as words, byte
  strings (the contents of a \<^verbatim>\<open>Slice\<close> or a \<^verbatim>\<open>std::string\<close>) as lists of 8-bit words,
  the collections of rewrite rules the components fill, and generic lemmas on lists and
  words. Nothing here models code.
\<close>

unbundle bit_operations_syntax

section \<open>Types\<close>

type_synonym byte = "8 word"
type_synonym bytes = "8 word list"
type_synonym u32 = "32 word"
type_synonym u64 = "64 word"

text \<open>A string literal of the source, as the bytes of its characters.\<close>

definition str :: "string \<Rightarrow> bytes" where
  "str s = map of_char s"

section \<open>Collections\<close>

named_theorems roundtrip \<open>decoding what was encoded gives it back\<close>
named_theorems enc_length \<open>the length of an encoding\<close>
named_theorems inv_intro \<open>an operation keeps an invariant\<close>

section \<open>Lists\<close>

lemma take_append_exact [simp]: "length xs = n \<Longrightarrow> take n (xs @ ys) = xs"
  by simp

lemma drop_append_exact [simp]: "length xs = n \<Longrightarrow> drop n (xs @ ys) = ys"
  by simp

lemma length_ge_append: "n \<le> length xs \<longleftrightarrow> (\<exists>as bs. xs = as @ bs \<and> length as = n)"
proof
  assume "n \<le> length xs"
  then have "xs = take n xs @ drop n xs \<and> length (take n xs) = n" by simp
  then show "\<exists>as bs. xs = as @ bs \<and> length as = n" by blast
qed auto

lemma prefix_append2: "prefix x (a @ b) \<Longrightarrow> prefix x (a @ b @ c)"
  by (metis append.assoc prefix_prefix)

lemma prefix_append3: "prefix x (a @ b @ c) \<Longrightarrow> prefix x (a @ b @ c @ d)"
  by (metis append.assoc prefix_prefix)

lemma while_split:
  assumes "\<forall>x\<in>set A. P x" and "\<forall>x\<in>set B. \<not> P x"
  shows "takeWhile P (A @ B) = A" and "dropWhile P (A @ B) = B"
proof -
  have "takeWhile P B = []" "dropWhile P B = B" using assms(2) by (cases B; simp)+
  then show "takeWhile P (A @ B) = A" "dropWhile P (A @ B) = B"
    using assms(1) by (induction A) auto
qed

lemma before_takeWhile: "m < length (takeWhile P xs) \<Longrightarrow> P (xs ! m)"
proof (induction xs arbitrary: m)
  case (Cons x xs)
  then show ?case by (cases m) (auto split: if_splits)
qed simp

lemma length_Suc_conv_ex: "length xs = Suc n \<longleftrightarrow> (\<exists>y ys. xs = y # ys \<and> length ys = n)"
  by (cases xs) auto

lemma str_Nil [simp]: "str [] = []"
  by (simp add: str_def)

lemma length_str [simp]: "length (str s) = length s"
  by (simp add: str_def)

section \<open>Words\<close>

lemma word_eq_bitI: "(\<And>n. n < LENGTH('a) \<Longrightarrow> bit x n = bit y n) \<Longrightarrow> x = y"
  for x y :: "'a::len word"
  by (rule bit_word_eqI)

lemma unat_lt_iff: "unat x < unat y \<longleftrightarrow> x < y" for x y :: "'a::len word"
  by (simp add: word_less_nat_alt)

lemma unat_byte_bound [simp]: "unat (b :: byte) < 256"
  using unsigned_less [of b] by simp

lemma unat_u32_bound: "unat (w :: u32) < 2 ^ 32"
  using unsigned_less [of w] by simp

lemma unat_u64_bound: "unat (w :: u64) < 2 ^ 64"
  using unsigned_less [of w] by simp

lemma unat_drop_bit_word: "unat (drop_bit n w) = unat w div 2 ^ n" for w :: "'a::len word"
  by (simp only: unat_drop_bit_eq drop_bit_nat_def)

lemma unat_of_nat_lt: "n < 2 ^ LENGTH('a) \<Longrightarrow> unat (of_nat n :: 'a::len word) = n"
  by (simp add: unsigned_of_nat take_bit_nat_eq_self)

lemma u32_nat: "n < 2 ^ 32 \<Longrightarrow> unat (of_nat n :: u32) = n"
  by (rule unat_of_nat_lt) simp

lemma u32_less: "m < 2 ^ 32 \<Longrightarrow> n < 2 ^ 32 \<Longrightarrow> (of_nat m :: u32) < of_nat n \<longleftrightarrow> m < n"
  by (simp only: word_less_nat_alt u32_nat)

lemma u32_le: "m < 2 ^ 32 \<Longrightarrow> n < 2 ^ 32 \<Longrightarrow> (of_nat m :: u32) \<le> of_nat n \<longleftrightarrow> m \<le> n"
  by (simp only: word_le_nat_alt u32_nat)

lemma mid_nat: "l \<le> r \<Longrightarrow> r < 2 ^ 30 \<Longrightarrow> (of_nat l + of_nat r + 1) div 2 = (of_nat ((l + r + 1) div 2) :: u32)"
proof -
  assume b: "l \<le> r" "r < 2 ^ 30"
  then have "unat (of_nat (l + r + 1) :: u32) = l + r + 1" by (intro u32_nat) simp
  moreover have "unat (of_nat ((l + r + 1) div 2) :: u32) = (l + r + 1) div 2" using b by (intro u32_nat) simp
  ultimately have "(of_nat (l + r + 1) :: u32) div 2 = of_nat ((l + r + 1) div 2)"
    by (simp add: word_unat_eq_iff unat_div del: of_nat_add)
  then show ?thesis by (simp add: add.commute add.left_commute)
qed

lemma pred_less: "0 < w \<Longrightarrow> w - 1 < w" for w :: "'a::len word"
proof -
  assume "0 < w"
  then have "w \<noteq> 0" by auto
  then have "unat (w - 1) = unat w - 1" "0 < unat w" by (simp_all add: unat_minus_one unat_gt_0)
  then show ?thesis by (simp add: word_less_nat_alt)
qed

lemma unat_plus_1: "x < y \<Longrightarrow> unat (x + 1) = unat x + 1" for x y :: "'a::len word"
proof -
  assume "x < y"
  then have "unat x + 1 \<le> unat y" by (simp add: word_less_nat_alt)
  also have "unat y < 2 ^ LENGTH('a)" by (rule unsigned_less)
  finally show ?thesis by (simp add: unat_word_ariths)
qed

lemma unat_ucast_up: "LENGTH('a) \<le> LENGTH('b) \<Longrightarrow> unat (ucast v :: 'b::len word) = unat v"
  for v :: "'a::len word"
proof -
  assume "LENGTH('a) \<le> LENGTH('b)"
  then have "(2::nat) ^ LENGTH('a) \<le> 2 ^ LENGTH('b)" by (rule power_increasing) simp
  with unsigned_less [of v] have "unat v < 2 ^ LENGTH('b)" by (rule less_le_trans)
  then have "take_bit LENGTH('b) (unat v) = unat v" by (rule take_bit_nat_eq_self)
  then show ?thesis by (simp add: unsigned_ucast_eq)
qed

lemma and_255_byte: "ucast (x AND 255) = (ucast x :: byte)" for x :: "'a::len word"
proof -
  have "(255 :: 'a word) = mask 8" by (simp add: mask_eq_exp_minus_1)
  then have "x AND 255 = take_bit 8 x" by (simp add: take_bit_eq_mask)
  then show ?thesis by (auto intro!: bit_word_eqI simp: bit_simps)
qed

lemma and_127_low: "x AND 127 = take_bit 7 x" for x :: "'a::len word"
proof -
  have "(127 :: 'a word) = mask 7" by (simp add: mask_eq_exp_minus_1)
  then show ?thesis by (simp add: take_bit_eq_mask)
qed

lemma and_128_bit: "x AND 128 \<noteq> 0 \<longleftrightarrow> bit x 7" for x :: "'a::len word"
  using and_exp_eq_0_iff_not_bit [of x 7] by simp

lemma not_bit_7: "unat x < 128 \<Longrightarrow> \<not> bit x 7" for x :: "'a::len word"
proof -
  assume "unat x < 128"
  then have "take_bit 7 x = x" by (simp add: word_unat_eq_iff unsigned_take_bit_eq take_bit_nat_def)
  then show ?thesis by (metis bit_take_bit_iff less_irrefl)
qed

lemma bit_128: "bit (128 :: 'a::len word) n \<longleftrightarrow> n = 7 \<and> 7 < LENGTH('a)"
  using bit_exp_iff [of 7 n, where 'a = "'a word"] by auto

lemma unat_ge_128: "v \<ge> 128 \<longleftrightarrow> unat v \<ge> 128" for v :: u64
  by (simp add: word_le_nat_alt)

lemma bit_128_int: "bit (128 :: int) n \<longleftrightarrow> n = 7"
  using bit_exp_iff [of 7 n, where 'a = int] by auto

lemma take_bit_or_drop_bit: "take_bit n v OR push_bit n (drop_bit n v) = v" for v :: "'a::len word"
proof (rule bit_word_eqI)
  fix k show "bit (take_bit n v OR push_bit n (drop_bit n v)) k = bit v k"
    by (cases "k < n") (auto simp: bit_simps dest: bit_imp_le_length)
qed

lemma xor_cancel_left [simp]: "a XOR (a XOR b) = b" for a b :: "'a::len word"
  by (simp flip: xor.assoc)

lemma xor_cancel_iff [simp]: "a XOR c = b XOR c \<longleftrightarrow> a = b" for a b c :: "'a::len word"
  by (metis xor.assoc xor_self_eq xor.right_neutral)

lemma xor_cancel_iff_left [simp]: "c XOR a = c XOR b \<longleftrightarrow> a = b" for a b c :: "'a::len word"
  by (metis xor_cancel_left)

end
