(* ===== verification/Coding.thy ===== *)
theory Coding
  imports Prelude
begin

text \<open>
  \<^verbatim>\<open>util/coding.cc\<close> and the inline functions of \<^verbatim>\<open>util/coding.h\<close>: fixed-width
  little-endian integers, base-128 varints and length-prefixed slices. A buffer the code
  writes through a \<^verbatim>\<open>char*\<close> is the list of the bytes written; a pointer into an input
  bounded by \<^verbatim>\<open>limit\<close> is the list of the bytes from it to the limit, and a
  \<^verbatim>\<open>nullptr\<close> result is \<open>None\<close>. The lemmas are the round trips, the lengths and the
  agreement of the two byte orders and of the unrolled and the looping varint encoders.
\<close>

section \<open>Byte order\<close>

text \<open>The bytes of a word, least significant first, and the word they stand for.\<close>

fun le_bytes :: "nat \<Rightarrow> 'a::len word \<Rightarrow> bytes" where
  "le_bytes 0 w = []"
| "le_bytes (Suc n) w = ucast w # le_bytes n (drop_bit 8 w)"

fun le_word :: "bytes \<Rightarrow> 'a::len word" where
  "le_word [] = 0"
| "le_word (b # bs) = ucast b OR push_bit 8 (le_word bs)"

text \<open>
  \<^verbatim>\<open>memcpy\<close> to or from an integer copies its object representation, which depends on
  the byte order of the machine.
\<close>

definition host_bytes :: "bool \<Rightarrow> nat \<Rightarrow> 'a::len word \<Rightarrow> bytes" where
  "host_bytes little n w = (if little then le_bytes n w else rev (le_bytes n w))"

definition host_word :: "bool \<Rightarrow> bytes \<Rightarrow> 'a::len word" where
  "host_word little bs = (if little then le_word bs else le_word (rev bs))"

text \<open>\<^verbatim>\<open>port::kLittleEndian\<close>; the build defines \<^verbatim>\<open>LEVELDB_IS_BIG_ENDIAN=0\<close>.\<close>

definition kLittleEndian :: bool where
  "kLittleEndian = (\<not> False)"

section \<open>Fixed-width integers\<close>

definition EncodeFixed32_on :: "bool \<Rightarrow> u32 \<Rightarrow> bytes" where
  "EncodeFixed32_on little value =
     (if little then host_bytes little 4 value
      else [ucast (value AND 0xff), ucast (drop_bit 8 value AND 0xff),
            ucast (drop_bit 16 value AND 0xff), ucast (drop_bit 24 value AND 0xff)])"

definition EncodeFixed64_on :: "bool \<Rightarrow> u64 \<Rightarrow> bytes" where
  "EncodeFixed64_on little value =
     (if little then host_bytes little 8 value
      else [ucast (value AND 0xff), ucast (drop_bit 8 value AND 0xff),
            ucast (drop_bit 16 value AND 0xff), ucast (drop_bit 24 value AND 0xff),
            ucast (drop_bit 32 value AND 0xff), ucast (drop_bit 40 value AND 0xff),
            ucast (drop_bit 48 value AND 0xff), ucast (drop_bit 56 value AND 0xff)])"

definition EncodeFixed32 :: "u32 \<Rightarrow> bytes" where
  "EncodeFixed32 = EncodeFixed32_on kLittleEndian"

definition EncodeFixed64 :: "u64 \<Rightarrow> bytes" where
  "EncodeFixed64 = EncodeFixed64_on kLittleEndian"

definition PutFixed32 :: "bytes \<Rightarrow> u32 \<Rightarrow> bytes" where
  "PutFixed32 dst value = dst @ EncodeFixed32 value"

definition PutFixed64 :: "bytes \<Rightarrow> u64 \<Rightarrow> bytes" where
  "PutFixed64 dst value = dst @ EncodeFixed64 value"

text \<open>
  The decoders read 4 or 8 bytes from a pointer with no bounds check: every caller has
  to make sure that so many bytes are there.
\<close>

definition DecodeFixed32_on :: "bool \<Rightarrow> bytes \<Rightarrow> u32" where
  "DecodeFixed32_on little ptr =
     (if little then host_word little (take 4 ptr)
      else ucast (ptr ! 0) OR push_bit 8 (ucast (ptr ! 1)) OR
           push_bit 16 (ucast (ptr ! 2)) OR push_bit 24 (ucast (ptr ! 3)))"

definition DecodeFixed64_on :: "bool \<Rightarrow> bytes \<Rightarrow> u64" where
  "DecodeFixed64_on little ptr =
     (if little then host_word little (take 8 ptr)
      else (let lo = ucast (DecodeFixed32_on little ptr);
                hi = ucast (DecodeFixed32_on little (drop 4 ptr))
            in push_bit 32 hi OR lo))"

definition DecodeFixed32 :: "bytes \<Rightarrow> u32" where
  "DecodeFixed32 = DecodeFixed32_on kLittleEndian"

definition DecodeFixed64 :: "bytes \<Rightarrow> u64" where
  "DecodeFixed64 = DecodeFixed64_on kLittleEndian"

section \<open>Varints\<close>

definition EncodeVarint32 :: "u32 \<Rightarrow> bytes" where
  "EncodeVarint32 v =
     (let B = 128 in
      if v < push_bit 7 1 then [ucast v]
      else if v < push_bit 14 1 then [ucast (v OR B), ucast (drop_bit 7 v)]
      else if v < push_bit 21 1 then
        [ucast (v OR B), ucast (drop_bit 7 v OR B), ucast (drop_bit 14 v)]
      else if v < push_bit 28 1 then
        [ucast (v OR B), ucast (drop_bit 7 v OR B), ucast (drop_bit 14 v OR B),
         ucast (drop_bit 21 v)]
      else
        [ucast (v OR B), ucast (drop_bit 7 v OR B), ucast (drop_bit 14 v OR B),
         ucast (drop_bit 21 v OR B), ucast (drop_bit 28 v)])"

definition PutVarint32 :: "bytes \<Rightarrow> u32 \<Rightarrow> bytes" where
  "PutVarint32 dst v = dst @ EncodeVarint32 v"

function EncodeVarint64 :: "u64 \<Rightarrow> bytes" where
  "EncodeVarint64 v =
     (if v \<ge> 128 then ucast (v OR 128) # EncodeVarint64 (drop_bit 7 v) else [ucast v])"
  by pat_completeness auto
termination
  by (relation "measure unat") (auto simp: unat_drop_bit_word word_le_nat_alt)

declare EncodeVarint64.simps [simp del]

definition PutVarint64 :: "bytes \<Rightarrow> u64 \<Rightarrow> bytes" where
  "PutVarint64 dst v = dst @ EncodeVarint64 v"

definition PutLengthPrefixedSlice :: "bytes \<Rightarrow> bytes \<Rightarrow> bytes" where
  "PutLengthPrefixedSlice dst value =
     (let dst' = PutVarint32 dst (of_nat (length value)) in dst' @ value)"

function VarintLength_loop :: "u64 \<Rightarrow> nat \<Rightarrow> nat" where
  "VarintLength_loop v len =
     (if v \<ge> 128 then VarintLength_loop (drop_bit 7 v) (len + 1) else len)"
  by pat_completeness auto
termination
  by (relation "measure (\<lambda>(v, len). unat v)") (auto simp: unat_drop_bit_word word_le_nat_alt)

declare VarintLength_loop.simps [simp del]

definition VarintLength :: "u64 \<Rightarrow> nat" where
  "VarintLength v = VarintLength_loop v 1"

text \<open>
  The decoding loops: \<open>shift\<close> and \<open>result\<close> are the loop variables, the list is the input
  between \<open>p\<close> and \<open>limit\<close>. The result holds the value and the input left.
\<close>

fun GetVarint32_loop :: "nat \<Rightarrow> u32 \<Rightarrow> bytes \<Rightarrow> (u32 \<times> bytes) option" where
  "GetVarint32_loop shift result [] = None"
| "GetVarint32_loop shift result (b # p) =
     (if shift \<le> 28 then
        let byte = (ucast b :: u32) in
        if byte AND 128 \<noteq> 0
        then GetVarint32_loop (shift + 7) (result OR push_bit shift (byte AND 127)) p
        else Some (result OR push_bit shift byte, p)
      else None)"

definition GetVarint32PtrFallback :: "bytes \<Rightarrow> (u32 \<times> bytes) option" where
  "GetVarint32PtrFallback p = GetVarint32_loop 0 0 p"

definition GetVarint32Ptr :: "bytes \<Rightarrow> (u32 \<times> bytes) option" where
  "GetVarint32Ptr p =
     (case p of
        b # p' \<Rightarrow> (let result = (ucast b :: u32) in
                   if result AND 128 = 0 then Some (result, p') else GetVarint32PtrFallback p)
      | [] \<Rightarrow> GetVarint32PtrFallback p)"

definition GetVarint32 :: "bytes \<Rightarrow> (u32 \<times> bytes) option" where
  "GetVarint32 input =
     (case GetVarint32Ptr input of None \<Rightarrow> None | Some (value, q) \<Rightarrow> Some (value, q))"

fun GetVarint64_loop :: "nat \<Rightarrow> u64 \<Rightarrow> bytes \<Rightarrow> (u64 \<times> bytes) option" where
  "GetVarint64_loop shift result [] = None"
| "GetVarint64_loop shift result (b # p) =
     (if shift \<le> 63 then
        let byte = (ucast b :: u64) in
        if byte AND 128 \<noteq> 0
        then GetVarint64_loop (shift + 7) (result OR push_bit shift (byte AND 127)) p
        else Some (result OR push_bit shift byte, p)
      else None)"

definition GetVarint64Ptr :: "bytes \<Rightarrow> (u64 \<times> bytes) option" where
  "GetVarint64Ptr p = GetVarint64_loop 0 0 p"

definition GetVarint64 :: "bytes \<Rightarrow> (u64 \<times> bytes) option" where
  "GetVarint64 input =
     (case GetVarint64Ptr input of None \<Rightarrow> None | Some (value, q) \<Rightarrow> Some (value, q))"

text \<open>
  The two overloads of \<^verbatim>\<open>GetLengthPrefixedSlice\<close>. The one on a \<^verbatim>\<open>Slice*\<close> has
  already consumed the length when it fails for want of data, so it returns the input left
  in both cases.
\<close>

definition GetLengthPrefixedSlicePtr :: "bytes \<Rightarrow> (bytes \<times> bytes) option" where
  "GetLengthPrefixedSlicePtr p =
     (case GetVarint32Ptr p of
        None \<Rightarrow> None
      | Some (len, p') \<Rightarrow>
          if unat len > length p' then None
          else Some (take (unat len) p', drop (unat len) p'))"

definition GetLengthPrefixedSlice :: "bytes \<Rightarrow> bytes option \<times> bytes" where
  "GetLengthPrefixedSlice input =
     (case GetVarint32 input of
        None \<Rightarrow> (None, input)
      | Some (len, input') \<Rightarrow>
          if length input' \<ge> unat len
          then (Some (take (unat len) input'), drop (unat len) input')
          else (None, input'))"

section \<open>Fixed-width integers decode\<close>

lemma length_le_bytes [simp]: "length (le_bytes n w) = n"
  by (induction n arbitrary: w) auto

lemma le_word_le_bytes: "le_word (le_bytes n w) = take_bit (8 * n) (w :: 'a::len word)"
proof (induction n arbitrary: w)
  case (Suc n)
  show ?case
    by (rule bit_word_eqI) (auto simp: Suc bit_simps)
qed simp

lemma le_word_le_bytes_full [simp]:
  "8 * n = LENGTH('a) \<Longrightarrow> le_word (le_bytes n w) = w" for w :: "'a::len word"
  by (simp add: le_word_le_bytes take_bit_word_eq_self)

lemma EncodeFixed32_on_le: "EncodeFixed32_on little v = le_bytes 4 v"
  by (simp add: EncodeFixed32_on_def host_bytes_def numeral_eq_Suc and_255_byte drop_bit_drop_bit)

lemma EncodeFixed64_on_le: "EncodeFixed64_on little v = le_bytes 8 v"
  by (simp add: EncodeFixed64_on_def host_bytes_def numeral_eq_Suc and_255_byte drop_bit_drop_bit)

lemma bit_le_word:
  "bit (le_word bs :: 'a::len word) k \<longleftrightarrow>
     k < LENGTH('a) \<and> k div 8 < length bs \<and> bit (bs ! (k div 8)) (k mod 8)"
proof (induction bs arbitrary: k)
  case (Cons b bs)
  show ?case
  proof (cases "k < 8")
    case True
    then show ?thesis by (auto simp: bit_simps)
  next
    case False
    then obtain m where k: "k = 8 + m" by (metis le_Suc_ex not_less)
    have "(8 + m) div 8 = Suc (m div 8)" by simp
    then show ?thesis by (auto simp: k Cons bit_simps dest: bit_imp_le_length)
  qed
qed simp

lemma DecodeFixed32_on_le:
  assumes "length p \<ge> 4" shows "DecodeFixed32_on little p = le_word (take 4 p)"
proof -
  from assms obtain a b c d r where p: "p = a # b # c # d # r"
    by (auto simp: numeral_eq_Suc Suc_le_length_iff)
  show ?thesis
    by (cases little; rule bit_word_eqI)
      (auto simp: p DecodeFixed32_on_def host_word_def bit_simps)
qed

lemma DecodeFixed64_on_le:
  assumes "length p \<ge> 8" shows "DecodeFixed64_on little p = le_word (take 8 p)"
proof (cases little)
  case False
  have "push_bit 32 (ucast (le_word (take 4 (drop 4 p)) :: u32)) OR ucast (le_word (take 4 p) :: u32)
    = (le_word (take 8 p) :: u64)" (is "?l = ?r")
  proof (rule bit_word_eqI)
    fix k assume k: "k < LENGTH(64)"
    show "bit ?l k = bit ?r k"
    proof (cases "k < 32")
      case True
      then have "k div 8 < 4" by auto
      with True assms show ?thesis by (auto simp: bit_simps bit_le_word)
    next
      case False
      then obtain m where m: "k = 32 + m" by (metis le_Suc_ex not_less)
      with k have "m div 8 < 4" by auto
      moreover have "(m + 32) div 8 = 4 + m div 8" "(m + 32) mod 8 = m mod 8" by presburger+
      ultimately show ?thesis using m k assms by (auto simp: bit_simps bit_le_word add.commute)
    qed
  qed
  with False assms show ?thesis
    by (simp add: DecodeFixed64_on_def DecodeFixed32_on_le Let_def)
qed (simp add: DecodeFixed64_on_def host_word_def)

lemma bit_varint_byte:
  "bit (ucast (ucast (v OR 128) :: byte) :: 'a::len word) n \<longleftrightarrow>
    n < LENGTH('a) \<and> n < 8 \<and> (bit v n \<or> n = 7)" for v :: u64
  by (auto simp: bit_unsigned_iff bit_or_iff bit_128 bit_128_int)

lemma take_varint_byte:
  "take_bit 7 (ucast (ucast (v OR 128) :: byte)) = (take_bit 7 (ucast v) :: 'b::len word)" for v :: u64
  by (rule bit_word_eqI) (simp add: bit_take_bit_iff bit_varint_byte, auto simp: bit_unsigned_iff)

lemma small_varint_byte:
  fixes v :: u64
  assumes "unat v < 128"
  shows "\<not> bit (ucast (ucast v :: byte) :: 'a::len word) 7"
    and "ucast (ucast v :: byte) = (ucast v :: 'a::len word)"
    and "\<not> bit v 7"
    and "\<not> bit (ucast v :: 'a word) 7"
proof -
  have *: "take_bit 7 v = v"
    using assms by (simp add: word_unat_eq_iff unsigned_take_bit_eq take_bit_nat_def)
  have b: "n < 7" if "bit v n" for n
    using that by (metis * bit_take_bit_iff)
  show "\<not> bit (ucast (ucast v :: byte) :: 'a::len word) 7"
    using b [of 7] by (auto simp: bit_unsigned_iff)
  show "\<not> bit (ucast v :: 'a word) 7" using b [of 7] by (auto simp: bit_unsigned_iff)
  show "\<not> bit v 7" using b [of 7] by blast
  show "ucast (ucast v :: byte) = (ucast v :: 'a::len word)"
    by (rule bit_word_eqI) (auto simp: bit_unsigned_iff dest: b)
qed

lemma varint_shrink:
  fixes v :: u64
  assumes "v \<ge> 128" and "unat v < 2 ^ k"
  shows "7 < k" and "unat (drop_bit 7 v) < 2 ^ (k - 7)"
proof -
  have lt: "(2::nat) ^ 7 < 2 ^ k \<or> (2::nat) ^ 7 = 2 ^ k - 0 \<and> False"
    using assms by (simp add: unat_ge_128)
  show k: "7 < k"
  proof (rule ccontr)
    assume "\<not> 7 < k"
    then have "(2::nat) ^ k \<le> 2 ^ 7" by (intro power_increasing) auto
    with lt show False by simp
  qed
  then obtain m where "k = 7 + m" by (metis le_Suc_ex less_imp_le)
  with assms(2) show "unat (drop_bit 7 v) < 2 ^ (k - 7)"
    by (simp add: unat_drop_bit_word power_add less_mult_imp_div_less mult.commute)
qed

lemma varint_join:
  "push_bit shift (take_bit 7 (ucast v)) OR push_bit (shift + 7) (ucast (drop_bit 7 v))
    = (push_bit shift (ucast v) :: 'a::len word)" for v :: u64
proof (rule bit_word_eqI)
  fix k assume "k < LENGTH('a)"
  have "k = shift + 7 + (k - (shift + 7))" if "shift + 7 \<le> k" using that by simp
  then show "bit (push_bit shift (take_bit 7 (ucast v)) OR push_bit (shift + 7) (ucast (drop_bit 7 v)) :: 'a word) k
    = bit (push_bit shift (ucast v) :: 'a word) k"
    by (cases "k < shift + 7") (auto simp: bit_simps add.commute)
qed

lemma GetVarint64_loop_encode:
  "shift \<le> 63 \<Longrightarrow> unat v < 2 ^ (64 - shift) \<Longrightarrow>
    GetVarint64_loop shift result (EncodeVarint64 v @ rest) = Some (result OR push_bit shift v, rest)"
proof (induction v arbitrary: shift result rule: EncodeVarint64.induct)
  case (1 v)
  show ?case
  proof (cases "v \<ge> 128")
    case True
    note sm = varint_shrink [OF True 1(3)]
    then have "shift + 7 \<le> 63" "unat (drop_bit 7 v) < 2 ^ (64 - (shift + 7))" by auto
    note IH = 1(1) [OF True this]
    show ?thesis
      using True 1(2) varint_join [of shift v, where 'a = 64]
      by (simp add: EncodeVarint64.simps [of v] Let_def and_128_bit and_127_low
          bit_varint_byte take_varint_byte IH or.assoc)
  next
    case False
    then have "unat v < 128" by (simp add: unat_ge_128)
    then show ?thesis using False 1(2)
      by (simp add: EncodeVarint64.simps [of v] Let_def and_128_bit small_varint_byte)
  qed
qed

lemma GetVarint32_loop_encode:
  "7 dvd shift \<Longrightarrow> shift \<le> 28 \<Longrightarrow> unat v < 2 ^ (32 - shift) \<Longrightarrow>
    GetVarint32_loop shift result (EncodeVarint64 v @ rest)
      = Some (result OR push_bit shift (ucast v), rest)"
proof (induction v arbitrary: shift result rule: EncodeVarint64.induct)
  case (1 v)
  show ?case
  proof (cases "v \<ge> 128")
    case True
    note sm = varint_shrink [OF True 1(4)]
    from sm(1) \<open>7 dvd shift\<close> have "7 dvd shift + 7" "shift + 7 \<le> 28" by presburger+
    moreover have "unat (drop_bit 7 v) < 2 ^ (32 - (shift + 7))" using sm(2) by simp
    ultimately have IH: "GetVarint32_loop (shift + 7) r (EncodeVarint64 (drop_bit 7 v) @ rest)
        = Some (r OR push_bit (shift + 7) (ucast (drop_bit 7 v)), rest)" for r
      by (rule 1(1) [OF True])
    show ?thesis
      using True 1(3) varint_join [of shift v, where 'a = 32]
      by (simp add: EncodeVarint64.simps [of v] Let_def and_128_bit and_127_low
          bit_varint_byte take_varint_byte IH or.assoc)
  next
    case False
    then have "unat v < 128" by (simp add: unat_ge_128)
    then show ?thesis using False 1(3)
      by (simp add: EncodeVarint64.simps [of v] Let_def and_128_bit small_varint_byte)
  qed
qed

lemma EncodeVarint32_eq_64: "EncodeVarint32 v = EncodeVarint64 (ucast v)"
proof -
  have u: "unat (ucast v :: u64) = unat v" for v :: u32
    by (simp add: unsigned_ucast_eq take_bit_nat_eq_self unat_u32_bound [THEN less_trans])
  have ge: "ucast v \<ge> (128::u64) \<longleftrightarrow> unat v \<ge> 128" for v :: u32
    by (simp add: word_le_nat_alt u)
  have dr: "drop_bit k (ucast v :: u64) = ucast (drop_bit k v)" for v :: u32 and k
    by (rule bit_word_eqI) (auto simp: bit_simps dest: bit_imp_le_length)
  have b: "(ucast (ucast x OR (128::u64)) :: byte) = ucast (x OR 128)" for x :: u32
    by (rule bit_word_eqI) (auto simp: bit_unsigned_iff bit_or_iff bit_128 bit_128_int)
  have c: "(ucast (ucast x :: u64) :: byte) = ucast x" for x :: u32
    by (rule bit_word_eqI) (auto simp: bit_unsigned_iff)
  have E: "EncodeVarint64 (ucast x) = (if unat x \<ge> 128
    then ucast (x OR 128) # EncodeVarint64 (ucast (drop_bit 7 x)) else [ucast x])" for x :: u32
    by (subst EncodeVarint64.simps) (simp only: ge dr b c)
  have d: "drop_bit m (drop_bit n x) = drop_bit (n + m) x" for x :: u32 and m n
    by (simp add: add.commute)
  show ?thesis
    unfolding EncodeVarint32_def Let_def
    using unat_u32_bound [of v]
    by (simp add: E d unat_drop_bit_word word_less_nat_alt less_eq_div_iff_mult_less_eq
        not_less not_le div_less_iff_less_mult)
qed

section \<open>Round trips, lengths and prefixes\<close>

lemma EncodeFixed32_le: "EncodeFixed32 v = le_bytes 4 v"
  by (simp add: EncodeFixed32_def EncodeFixed32_on_le)

lemma EncodeFixed64_le: "EncodeFixed64 v = le_bytes 8 v"
  by (simp add: EncodeFixed64_def EncodeFixed64_on_le)

lemma length_EncodeFixed [simp]:
  "length (EncodeFixed32 v) = 4" "length (EncodeFixed64 w) = 8"
  by (simp_all add: EncodeFixed32_le EncodeFixed64_le)

lemma DecodeFixed_le:
  "4 \<le> length p \<Longrightarrow> DecodeFixed32 p = le_word (take 4 p)"
  "8 \<le> length p \<Longrightarrow> DecodeFixed64 p = le_word (take 8 p)"
  by (simp_all add: DecodeFixed32_def DecodeFixed64_def DecodeFixed32_on_le DecodeFixed64_on_le)

lemma DecodeFixed32_Encode [simp, roundtrip]: "DecodeFixed32 (EncodeFixed32 v @ rest) = v"
  by (simp add: DecodeFixed_le EncodeFixed32_le)

lemma DecodeFixed64_Encode [simp, roundtrip]: "DecodeFixed64 (EncodeFixed64 v @ rest) = v"
  by (simp add: DecodeFixed_le EncodeFixed64_le)

lemma DecodeFixed32_Encode' [simp, roundtrip]: "DecodeFixed32 (EncodeFixed32 v) = v"
  using DecodeFixed32_Encode [of v "[]"] by simp

lemma DecodeFixed64_Encode' [simp, roundtrip]: "DecodeFixed64 (EncodeFixed64 v) = v"
  using DecodeFixed64_Encode [of v "[]"] by simp

lemma DecodeFixed32_append: "4 \<le> length p \<Longrightarrow> DecodeFixed32 (p @ q) = DecodeFixed32 p"
  by (simp add: DecodeFixed_le)

lemma GetVarint32_eq_loop: "GetVarint32 p = GetVarint32_loop 0 0 p"
  by (cases p) (auto simp: GetVarint32_def GetVarint32Ptr_def GetVarint32PtrFallback_def Let_def
      split: option.splits)

lemma GetVarint32Ptr_eq: "GetVarint32Ptr p = GetVarint32 p"
  by (auto simp: GetVarint32_def split: option.splits)

lemma GetVarint64_eq_loop: "GetVarint64 p = GetVarint64_loop 0 0 p"
  by (auto simp: GetVarint64_def GetVarint64Ptr_def split: option.splits)

lemma GetVarint32_Encode [simp, roundtrip]: "GetVarint32 (EncodeVarint32 v @ rest) = Some (v, rest)"
proof -
  have "unat (ucast v :: u64) < 2 ^ (32 - 0)"
    using unat_u32_bound [of v]
    by (simp add: unsigned_ucast_eq take_bit_nat_eq_self unat_u32_bound [THEN less_trans])
  moreover have "ucast (ucast v :: u64) = v"
    by (rule bit_word_eqI) (auto simp: bit_unsigned_iff)
  ultimately show ?thesis
    using GetVarint32_loop_encode [of 0 "ucast v" 0 rest]
    by (simp add: GetVarint32_eq_loop EncodeVarint32_eq_64)
qed

lemma GetVarint64_Encode [simp, roundtrip]: "GetVarint64 (EncodeVarint64 v @ rest) = Some (v, rest)"
  using GetVarint64_loop_encode [of 0 v 0 rest] unat_u64_bound [of v]
  by (simp add: GetVarint64_eq_loop)

lemma VarintLength_loop_eq: "VarintLength_loop v len + 1 = len + length (EncodeVarint64 v)"
proof (induction v len rule: VarintLength_loop.induct)
  case (1 v len)
  then show ?case
    by (subst VarintLength_loop.simps, subst EncodeVarint64.simps) simp
qed

lemma VarintLength_eq: "VarintLength v = length (EncodeVarint64 v)"
  using VarintLength_loop_eq [of v 1] by (simp add: VarintLength_def)

lemma length_EncodeVarint64_le: "unat v < 2 ^ (7 * Suc n) \<Longrightarrow> length (EncodeVarint64 v) \<le> Suc n"
proof (induction n arbitrary: v)
  case 0
  then show ?case by (simp add: EncodeVarint64.simps [of v] unat_ge_128)
next
  case (Suc n)
  show ?case
  proof (cases "v \<ge> 128")
    case True
    from varint_shrink(2) [OF this Suc.prems] have "unat (drop_bit 7 v) < 2 ^ (7 * Suc n)" by simp
    with True Suc.IH show ?thesis by (subst EncodeVarint64.simps) simp
  qed (simp add: EncodeVarint64.simps [of v])
qed

lemma length_EncodeVarint64_bound: "length (EncodeVarint64 v) \<le> 10"
  using length_EncodeVarint64_le [of v 9] less_trans [OF unat_u64_bound [of v], of "2 ^ 70"] by simp

lemma length_EncodeVarint32_bound: "length (EncodeVarint32 v) \<le> 5"
  by (simp add: EncodeVarint32_def Let_def)

lemma EncodeVarint64_nonempty [simp]: "EncodeVarint64 v \<noteq> []"
  by (simp add: EncodeVarint64.simps [of v])

lemma GetVarint64_loop_truncated:
  "n < length (EncodeVarint64 v) \<Longrightarrow> GetVarint64_loop shift result (take n (EncodeVarint64 v)) = None"
proof (induction v arbitrary: n shift result rule: EncodeVarint64.induct)
  case (1 v)
  show ?case
  proof (cases n)
    case (Suc m)
    with 1(2) have big: "v \<ge> 128" by (auto simp: EncodeVarint64.simps [of v] split: if_splits)
    with Suc 1(2) have "m < length (EncodeVarint64 (drop_bit 7 v))"
      by (simp add: EncodeVarint64.simps [of v])
    from 1(1) [OF big this] big Suc show ?thesis
      by (simp add: EncodeVarint64.simps [of v] Let_def and_128_bit bit_varint_byte)
  qed simp
qed

lemma GetVarint32_loop_truncated:
  "n < length (EncodeVarint64 v) \<Longrightarrow> GetVarint32_loop shift result (take n (EncodeVarint64 v)) = None"
proof (induction v arbitrary: n shift result rule: EncodeVarint64.induct)
  case (1 v)
  show ?case
  proof (cases n)
    case (Suc m)
    with 1(2) have big: "v \<ge> 128" by (auto simp: EncodeVarint64.simps [of v] split: if_splits)
    with Suc 1(2) have "m < length (EncodeVarint64 (drop_bit 7 v))"
      by (simp add: EncodeVarint64.simps [of v])
    from 1(1) [OF big this] big Suc show ?thesis
      by (simp add: EncodeVarint64.simps [of v] Let_def and_128_bit bit_varint_byte)
  qed simp
qed

lemma GetLengthPrefixedSlice_Put [simp, roundtrip]:
  "length s < 2 ^ 32 \<Longrightarrow>
    GetLengthPrefixedSlice (PutLengthPrefixedSlice [] s @ rest) = (Some s, rest)"
  by (simp add: GetLengthPrefixedSlice_def PutLengthPrefixedSlice_def PutVarint32_def
      unat_of_nat_lt Let_def)

lemma PutLengthPrefixedSlice_append:
  "PutLengthPrefixedSlice dst s = dst @ PutLengthPrefixedSlice [] s"
  by (simp add: PutLengthPrefixedSlice_def PutVarint32_def Let_def)

lemma GetVarint32_loop_less: "GetVarint32_loop sh r p = Some (v, q) \<Longrightarrow> length q < length p"
  by (induction sh r p rule: GetVarint32_loop.induct) (auto simp: Let_def split: if_splits)

lemma GetVarint64_loop_less: "GetVarint64_loop sh r p = Some (v, q) \<Longrightarrow> length q < length p"
  by (induction sh r p rule: GetVarint64_loop.induct) (auto simp: Let_def split: if_splits)

section \<open>Properties\<close>

text \<open>The fixed-width encodings are byte-order neutral: what a machine of either
  byte order encodes, a machine of either byte order decodes to the same number, whatever
  follows it in the buffer.\<close>

theorem fixed_roundtrip:
  "DecodeFixed32_on reader (EncodeFixed32_on writer v @ rest) = v \<and>
   DecodeFixed64_on reader (EncodeFixed64_on writer w @ rest) = w"
  by (simp add: DecodeFixed32_on_le DecodeFixed64_on_le EncodeFixed32_on_le EncodeFixed64_on_le)

text \<open>C36. Varints: decoding an encoding followed by anything gives the number and exactly
  what followed; the unrolled 32-bit encoder writes the same bytes as the 64-bit loop;
  \<^verbatim>\<open>VarintLength\<close> is the number of bytes written, at most the 5 and 10 bytes of the
  callers' stack buffers.\<close>

theorem varint_roundtrip:
  "GetVarint32 (EncodeVarint32 v @ rest) = Some (v, rest) \<and>
   GetVarint64 (EncodeVarint64 w @ rest) = Some (w, rest) \<and>
   EncodeVarint32 v = EncodeVarint64 (ucast v) \<and>
   VarintLength w = length (EncodeVarint64 w) \<and>
   length (EncodeVarint32 v) \<le> 5 \<and> length (EncodeVarint64 w) \<le> 10"
  using length_EncodeVarint32_bound length_EncodeVarint64_bound
  by (simp add: EncodeVarint32_eq_64 VarintLength_eq flip: EncodeVarint32_eq_64)

text \<open>A varint cut short is rejected, never misread: no proper prefix of an encoding
  decodes.\<close>

theorem varint_truncated:
  assumes "n < length (EncodeVarint32 v)" and "m < length (EncodeVarint64 w)"
  shows "GetVarint32 (take n (EncodeVarint32 v)) = None \<and>
    GetVarint64 (take m (EncodeVarint64 w)) = None"
  using assms GetVarint32_loop_truncated [of n "ucast v"] GetVarint64_loop_truncated [of m w]
  by (simp_all add: GetVarint32_eq_loop GetVarint64_eq_loop EncodeVarint32_eq_64)

theorem varint_truncated_witness:
  "GetVarint32 (take 1 (EncodeVarint32 300)) = None \<and> GetVarint64 (take 1 (EncodeVarint64 300)) = None"
proof -
  have "1 < length (EncodeVarint32 300)" "1 < length (EncodeVarint64 300)"
    by (simp_all add: EncodeVarint32_def EncodeVarint64.simps)
  then show ?thesis by (rule varint_truncated)
qed

end
