(* ===== verification/Logging.thy ===== *)
theory Logging
  imports Prelude
begin

text \<open>
  \<^verbatim>\<open>util/logging.cc\<close>: decimal numbers and escaped strings. \<open>dec\<close> and \<open>hex2\<close> are
  what \<^verbatim>\<open>snprintf\<close> writes for \<^verbatim>\<open>%llu\<close> and \<^verbatim>\<open>%02x\<close>; a call with a buffer of
  \<open>n\<close> bytes keeps at most \<open>n - 1\<close> of them. Characters are compared as the code does:
  as unsigned bytes in the parser, as signed ones in the escaping.
\<close>

section \<open>The code\<close>

fun dec :: "nat \<Rightarrow> bytes" where
  "dec n = (if n < 10 then [of_nat (48 + n)] else dec (n div 10) @ [of_nat (48 + n mod 10)])"

declare dec.simps [simp del]

definition hex_digit :: "nat \<Rightarrow> byte" where
  "hex_digit d = (if d < 10 then of_nat (48 + d) else of_nat (87 + d))"

definition hex2 :: "byte \<Rightarrow> bytes" where
  "hex2 c = [hex_digit (unat c div 16), hex_digit (unat c mod 16)]"

definition AppendNumberTo :: "bytes \<Rightarrow> u64 \<Rightarrow> bytes" where
  "AppendNumberTo s num = (let buf = take 29 (dec (unat num)) in s @ buf)"

fun AppendEscapedStringTo :: "bytes \<Rightarrow> bytes \<Rightarrow> bytes" where
  "AppendEscapedStringTo s [] = s"
| "AppendEscapedStringTo s (c # value) =
     (if sint c \<ge> 32 \<and> sint c \<le> 126 then AppendEscapedStringTo (s @ [c]) value
      else AppendEscapedStringTo (s @ take 9 (str [CHR 0x5C, CHR ''x''] @ hex2 c)) value)"

definition NumberToString :: "u64 \<Rightarrow> bytes" where
  "NumberToString num = AppendNumberTo [] num"

definition EscapeString :: "bytes \<Rightarrow> bytes" where
  "EscapeString value = AppendEscapedStringTo [] value"

definition kMaxUint64 :: u64 where
  "kMaxUint64 = - 1"

text \<open>
  The loop of \<^verbatim>\<open>ConsumeDecimalNumber\<close> over the input left: \<open>None\<close> is the early
  return on overflow, otherwise the value, the input left and the digits consumed.
\<close>

fun ConsumeDecimal_loop :: "u64 \<Rightarrow> nat \<Rightarrow> bytes \<Rightarrow> (u64 \<times> bytes \<times> nat) option" where
  "ConsumeDecimal_loop value n [] = Some (value, [], n)"
| "ConsumeDecimal_loop value n (ch # current) =
     (if ch < 48 \<or> ch > 57 then Some (value, ch # current, n)
      else if value > kMaxUint64 div 10 \<or>
              (value = kMaxUint64 div 10 \<and> ch > 48 + ucast (kMaxUint64 mod 10)) then None
      else ConsumeDecimal_loop (value * 10 + (ucast ch - 48)) (n + 1) current)"

text \<open>The result, the input afterwards, and the value if it was stored.\<close>

definition ConsumeDecimalNumber :: "bytes \<Rightarrow> bool \<times> bytes \<times> u64 option" where
  "ConsumeDecimalNumber input =
     (case ConsumeDecimal_loop 0 0 input of
        None \<Rightarrow> (False, input, None)
      | Some (value, current, digits_consumed) \<Rightarrow>
          (digits_consumed \<noteq> 0, drop digits_consumed input, Some value))"

section \<open>Decimal numbers\<close>

definition is_digit :: "byte \<Rightarrow> bool" where
  "is_digit c \<longleftrightarrow> 48 \<le> c \<and> c \<le> 57"

definition digit_val :: "byte \<Rightarrow> nat" where
  "digit_val c = unat c - 48"

text \<open>The number a string of digits stands for.\<close>

definition dec_val :: "nat \<Rightarrow> bytes \<Rightarrow> nat" where
  "dec_val = foldl (\<lambda>v c. 10 * v + digit_val c)"

lemma dec_val_simps [simp]:
  "dec_val v [] = v" "dec_val v (c # cs) = dec_val (10 * v + digit_val c) cs"
  by (simp_all add: dec_val_def)

lemma dec_val_append: "dec_val v (xs @ ys) = dec_val (dec_val v xs) ys"
  by (simp add: dec_val_def)

lemma is_digit_unat: "is_digit c \<longleftrightarrow> 48 \<le> unat c \<and> unat c \<le> 57"
  by (simp add: is_digit_def word_le_nat_alt)

lemma digit_char: "d < 10 \<Longrightarrow> is_digit (of_nat (48 + d)) \<and> digit_val (of_nat (48 + d)) = d"
proof -
  assume "d < 10"
  then have "unat (of_nat (48 + d) :: byte) = 48 + d"
    by (intro unat_of_nat_lt) simp
  with \<open>d < 10\<close> show ?thesis by (simp add: is_digit_unat digit_val_def del: of_nat_add)
qed

lemma dec_digits: "\<forall>c \<in> set (dec n). is_digit c"
proof (induction n rule: dec.induct)
  case (1 n)
  then show ?case
    using digit_char [of n] digit_char [of "n mod 10"]
    by (subst dec.simps) (auto simp del: of_nat_add)
qed

lemma dec_val_dec: "dec_val 0 (dec n) = n"
proof (induction n rule: dec.induct)
  case (1 n)
  then show ?case
    using digit_char [of n] digit_char [of "n mod 10"]
    by (subst dec.simps) (auto simp: dec_val_append simp del: of_nat_add)
qed

lemma dec_nonempty [simp]: "dec n \<noteq> []"
  by (subst dec.simps) simp

lemma length_dec: "n < 10 ^ Suc k \<Longrightarrow> length (dec n) \<le> Suc k"
proof (induction k arbitrary: n)
  case 0
  then show ?case by (subst dec.simps) simp
next
  case (Suc k)
  then have "n div 10 < 10 ^ Suc k" by auto
  from Suc.IH [OF this] show ?case by (subst dec.simps) simp
qed

lemma NumberToString_dec: "NumberToString num = dec (unat num)"
proof -
  have "unat num < 10 ^ Suc 19" using unat_u64_bound [of num] by simp
  then have "length (dec (unat num)) \<le> 29" using length_dec by fastforce
  then show ?thesis by (simp add: NumberToString_def AppendNumberTo_def)
qed

lemma dec_val_mono: "v \<le> dec_val v cs"
proof (induction cs arbitrary: v)
  case (Cons c cs)
  have "v \<le> 10 * v + digit_val c" by simp
  also have "\<dots> \<le> dec_val (10 * v + digit_val c) cs" by (rule Cons.IH)
  finally show ?case by simp
qed simp

text \<open>The overflow test is exact: the next digit is accepted iff the number still fits.\<close>

lemma ConsumeDecimal_loop_step:
  assumes "is_digit ch"
  shows "ConsumeDecimal_loop value n (ch # current) =
    (if 10 * unat value + digit_val ch < 2 ^ 64
     then ConsumeDecimal_loop (of_nat (10 * unat value + digit_val ch)) (n + 1) current else None)"
proof -
  have d: "48 \<le> unat ch" "unat ch \<le> 57" using assms by (simp_all add: is_digit_unat)
  have nb: "\<not> (ch < 48 \<or> ch > 57)" using d by (simp add: word_less_nat_alt)
  have "(ucast ch :: u64) - 48 = of_nat (digit_val ch)"
    using d by (simp add: digit_val_def of_nat_diff)
  then have v: "value * 10 + (ucast ch - 48) = of_nat (10 * unat value + digit_val ch)"
    by (simp add: mult.commute)
  have m: "kMaxUint64 div 10 = 1844674407370955161" "kMaxUint64 mod 10 = 5"
    by (simp_all add: kMaxUint64_def)
  have "(value > kMaxUint64 div 10 \<or> (value = kMaxUint64 div 10 \<and> ch > 48 + ucast (kMaxUint64 mod 10)))
    \<longleftrightarrow> \<not> 10 * unat value + digit_val ch < 2 ^ 64"
    using d unat_u64_bound [of "value"]
    by (auto simp: m digit_val_def word_less_nat_alt word_unat_eq_iff)
  then show ?thesis using nb v by (simp add: mult.commute)
qed

lemma ConsumeDecimal_loop_digits:
  "(\<forall>c \<in> set ds. is_digit c) \<Longrightarrow> (rest \<noteq> [] \<Longrightarrow> \<not> is_digit (hd rest)) \<Longrightarrow>
    ConsumeDecimal_loop value n (ds @ rest) =
    (if dec_val (unat value) ds < 2 ^ 64
     then Some (of_nat (dec_val (unat value) ds), rest, n + length ds) else None)"
proof (induction ds arbitrary: "value" n)
  case Nil
  then show ?case
    using unat_u64_bound [of "value"] by (cases rest) (auto simp: is_digit_def)
next
  case (Cons c ds)
  let ?v = "10 * unat value + digit_val c"
  show ?case
  proof (cases "?v < 2 ^ 64")
    case True
    then have "unat (of_nat ?v :: u64) = ?v" by (intro unat_of_nat_lt) simp
    with Cons True show ?thesis
      by (simp add: ConsumeDecimal_loop_step del: ConsumeDecimal_loop.simps of_nat_add of_nat_mult)
  next
    case False
    with Cons.prems dec_val_mono [of "?v" ds] show ?thesis
      by (simp add: ConsumeDecimal_loop_step del: ConsumeDecimal_loop.simps)
  qed
qed

lemma ConsumeDecimalNumber_digits:
  assumes "\<forall>c \<in> set ds. is_digit c" and "rest \<noteq> [] \<Longrightarrow> \<not> is_digit (hd rest)" and "ds \<noteq> []"
  shows "ConsumeDecimalNumber (ds @ rest) =
    (if dec_val 0 ds < 2 ^ 64 then (True, rest, Some (of_nat (dec_val 0 ds)))
     else (False, ds @ rest, None))"
  using ConsumeDecimal_loop_digits [OF assms(1,2), of 0 0] assms(3)
  by (simp add: ConsumeDecimalNumber_def)

lemma ConsumeDecimalNumber_NumberToString [roundtrip]:
  assumes "rest \<noteq> [] \<Longrightarrow> \<not> is_digit (hd rest)"
  shows "ConsumeDecimalNumber (NumberToString num @ rest) = (True, rest, Some num)"
  using ConsumeDecimalNumber_digits [OF dec_digits assms dec_nonempty]
  using unat_u64_bound [of num] by (simp add: NumberToString_dec dec_val_dec)

section \<open>Properties\<close>

text \<open>\<^verbatim>\<open>ConsumeDecimalNumber\<close> reads a run of digits as its decimal value exactly
  when the value fits in 64 bits, consuming all of it; otherwise it fails and leaves the
  input and the result untouched. On a printed number it returns the number.\<close>

theorem ConsumeDecimalNumber_exact:
  assumes "\<forall>c \<in> set ds. is_digit c" and "ds \<noteq> []" and "rest = [] \<or> \<not> is_digit (hd rest)"
  shows "ConsumeDecimalNumber (ds @ rest) =
      (if dec_val 0 ds < 2 ^ 64 then (True, rest, Some (of_nat (dec_val 0 ds)))
       else (False, ds @ rest, None)) \<and>
    ConsumeDecimalNumber (NumberToString num @ rest) = (True, rest, Some num)"
  using ConsumeDecimalNumber_digits [OF assms(1) _ assms(2), of rest]
    ConsumeDecimalNumber_NumberToString [of rest num] assms(3) by auto

theorem ConsumeDecimalNumber_exact_witness:
  "ConsumeDecimalNumber ([52, 50] @ [46]) =
      (if dec_val 0 [52, 50] < 2 ^ 64 then (True, [46], Some (of_nat (dec_val 0 [52, 50])))
       else (False, [52, 50] @ [46], None)) \<and>
    ConsumeDecimalNumber (NumberToString 7 @ [46]) = (True, [46], Some 7)"
  by (rule ConsumeDecimalNumber_exact) (simp_all add: is_digit_def)

end
