(* ===== verification/Status.thy ===== *)
theory Status
  imports Coding Logging
begin

text \<open>
  \<^verbatim>\<open>util/status.cc\<close>: an operation's result. A status is the array \<^verbatim>\<open>state_\<close>, here
  an optional byte string: \<open>None\<close> is the null pointer of success, \<open>Some\<close> the message
  length (4 bytes, host order), the code (1 byte) and the message.
\<close>

section \<open>The code\<close>

type_synonym status = "bytes option"

datatype Code = kOk | kNotFound | kCorruption | kNotSupported | kInvalidArgument | kIOError

fun code_num :: "Code \<Rightarrow> byte" where
  "code_num kOk = 0"
| "code_num kNotFound = 1"
| "code_num kCorruption = 2"
| "code_num kNotSupported = 3"
| "code_num kInvalidArgument = 4"
| "code_num kIOError = 5"

definition CopyState :: "bytes \<Rightarrow> bytes" where
  "CopyState state =
     (let size = (host_word kLittleEndian (take 4 state) :: u32)
      in take (unat (size + 5)) state)"

definition Status_new :: "Code \<Rightarrow> bytes \<Rightarrow> bytes \<Rightarrow> status" where
  "Status_new c msg msg2 =
     (let len1 = (of_nat (length msg) :: u32);
          len2 = (of_nat (length msg2) :: u32);
          size = len1 + (if len2 \<noteq> 0 then 2 + len2 else 0)
      in Some (host_bytes kLittleEndian 4 size @ [code_num c] @ take (unat len1) msg @
               (if len2 \<noteq> 0 then str '': '' @ take (unat len2) msg2 else [])))"

definition Status_OK :: status where
  "Status_OK = None"

definition ok :: "status \<Rightarrow> bool" where
  "ok s \<longleftrightarrow> s = None"

definition code :: "status \<Rightarrow> byte" where
  "code s = (case s of None \<Rightarrow> code_num kOk | Some st \<Rightarrow> st ! 4)"

definition NotFound :: "bytes \<Rightarrow> status" where
  "NotFound msg = Status_new kNotFound msg []"

definition Corruption :: "string \<Rightarrow> status" where
  "Corruption msg = Status_new kCorruption (str msg) []"

definition InvalidArgument :: "bytes \<Rightarrow> bytes \<Rightarrow> status" where
  "InvalidArgument msg msg2 = Status_new kInvalidArgument msg msg2"

definition NotSupported :: "bytes \<Rightarrow> status" where
  "NotSupported msg = Status_new kNotSupported msg []"

definition IOError :: "bytes \<Rightarrow> bytes \<Rightarrow> status" where
  "IOError msg msg2 = Status_new kIOError msg msg2"

definition IsNotFound :: "status \<Rightarrow> bool" where
  "IsNotFound s \<longleftrightarrow> code s = code_num kNotFound"

definition IsCorruption :: "status \<Rightarrow> bool" where
  "IsCorruption s \<longleftrightarrow> code s = code_num kCorruption"

text \<open>What \<^verbatim>\<open>%d\<close> prints for a signed byte.\<close>

definition print_int :: "int \<Rightarrow> bytes" where
  "print_int i = (if i < 0 then str ''-'' @ dec (nat (- i)) else dec (nat i))"

definition ToString :: "status \<Rightarrow> bytes" where
  "ToString s =
     (case s of
        None \<Rightarrow> str ''OK''
      | Some state \<Rightarrow>
          let c = code s;
              type =
                (if c = code_num kOk then str ''OK''
                 else if c = code_num kNotFound then str ''NotFound: ''
                 else if c = code_num kCorruption then str ''Corruption: ''
                 else if c = code_num kNotSupported then str ''Not implemented: ''
                 else if c = code_num kInvalidArgument then str ''Invalid argument: ''
                 else if c = code_num kIOError then str ''IO error: ''
                 else take 29 (str ''Unknown code('' @ print_int (sint c) @ str ''): ''));
              len = (host_word kLittleEndian (take 4 state) :: u32)
          in type @ take (unat len) (drop 5 state))"

section \<open>Lemmas\<close>

text \<open>The message a status carries.\<close>

definition full_message :: "bytes \<Rightarrow> bytes \<Rightarrow> bytes" where
  "full_message msg msg2 = (if msg2 = [] then msg else msg @ str '': '' @ msg2)"

text \<open>The label each code is printed with.\<close>

fun code_label :: "Code \<Rightarrow> bytes" where
  "code_label kOk = str ''OK''"
| "code_label kNotFound = str ''NotFound: ''"
| "code_label kCorruption = str ''Corruption: ''"
| "code_label kNotSupported = str ''Not implemented: ''"
| "code_label kInvalidArgument = str ''Invalid argument: ''"
| "code_label kIOError = str ''IO error: ''"

lemma host_word_bytes [simp]: "host_word little (host_bytes little 4 w) = (w :: u32)"
  by (simp add: host_word_def host_bytes_def)

lemma length_host_bytes [simp]: "length (host_bytes little n w) = n"
  by (simp add: host_bytes_def)

lemma Status_new_layout:
  assumes "length msg + length msg2 + 2 < 2 ^ 32"
  shows "Status_new c msg msg2 =
    Some (host_bytes kLittleEndian 4 (of_nat (length (full_message msg msg2)) :: u32) @ [code_num c] @
          full_message msg msg2)"
proof -
  have 1: "unat (of_nat (length msg) :: u32) = length msg"
    and 2: "unat (of_nat (length msg2) :: u32) = length msg2"
    using assms by (simp_all add: unat_of_nat_lt)
  have 3: "(of_nat (length msg2) :: u32) = 0 \<longleftrightarrow> msg2 = []"
    unfolding unat_eq_zero [symmetric] 2 by simp
  show ?thesis
  proof (cases "msg2 = []")
    case True
    then show ?thesis by (simp add: Status_new_def Let_def 1 full_message_def)
  next
    case False
    have "(of_nat (length (full_message msg msg2)) :: u32) =
      of_nat (length msg) + (2 + of_nat (length msg2))"
      using False by (simp add: full_message_def)
    with False 3 show ?thesis
      by (simp add: Status_new_def Let_def 1 2 full_message_def ac_simps)
  qed
qed

lemma code_Status_new [simp]: "code (Status_new c msg msg2) = code_num c"
  by (simp add: code_def Status_new_def Let_def nth_append)

lemma not_ok_Status_new [simp]: "\<not> ok (Status_new c msg msg2)"
  by (simp add: ok_def Status_new_def Let_def)

lemma ok_Status_OK [simp]: "ok Status_OK"
  by (simp add: ok_def Status_OK_def)

lemma not_ok_errors [simp]:
  "\<not> ok (Corruption m)" "\<not> ok (NotFound b)" "\<not> ok (InvalidArgument b b2)"
  "\<not> ok (IOError b b2)" "\<not> ok (NotSupported b)"
  by (simp_all add: Corruption_def NotFound_def InvalidArgument_def IOError_def NotSupported_def)

lemma Corruption_ne_OK [simp]: "Corruption m \<noteq> Status_OK" "Status_OK \<noteq> Corruption m"
  using not_ok_errors(1) ok_Status_OK by metis+

lemma code_num_inj: "code_num c = code_num d \<longleftrightarrow> c = d"
  by (cases c; cases d) auto

section \<open>Properties\<close>

text \<open>A status keeps the code it was made with and its whole message: copying gives
  an identical array, and printing gives the code's label followed by the two message
  parts joined by a colon and a space, when their lengths fit the 32-bit length field.\<close>

theorem Status_keeps_code_and_message:
  assumes "length msg + length msg2 + 7 < 2 ^ 32"
  shows "code (Status_new c msg msg2) = code_num c \<and>
    map_option CopyState (Status_new c msg msg2) = Status_new c msg msg2 \<and>
    ToString (Status_new c msg msg2) = code_label c @ full_message msg msg2"
proof -
  let ?m = "full_message msg msg2"
  have len: "unat (of_nat (length ?m) :: u32) = length ?m"
    "unat (of_nat (length ?m) + 5 :: u32) = length ?m + 5"
    using assms unat_of_nat_lt [of "length ?m + 5", where 'a = 32]
    by (simp_all add: full_message_def unat_of_nat_lt)
  from assms have L: "Status_new c msg msg2 =
    Some (host_bytes kLittleEndian 4 (of_nat (length ?m) :: u32) @ [code_num c] @ ?m)"
    by (intro Status_new_layout) simp
  have "code (Status_new c msg msg2) = code_num c" by simp
  moreover have "map_option CopyState (Status_new c msg msg2) = Status_new c msg msg2"
    by (simp add: L CopyState_def Let_def len)
  moreover have "ToString (Status_new c msg msg2) = code_label c @ ?m"
    using code_Status_new [of c msg msg2] unfolding ToString_def L
    by (cases c) (simp_all add: len Let_def)
  ultimately show ?thesis by blast
qed

theorem Status_keeps_code_and_message_witness:
  "code (Status_new kCorruption [1] [2]) = code_num kCorruption \<and>
    map_option CopyState (Status_new kCorruption [1] [2]) = Status_new kCorruption [1] [2] \<and>
    ToString (Status_new kCorruption [1] [2]) = code_label kCorruption @ full_message [1] [2]"
  by (rule Status_keeps_code_and_message) simp

end
