(* ===== verification/File_Api.thy ===== *)
theory File_Api
  imports Status
begin

text \<open>
  The file interfaces of \<^verbatim>\<open>include/leveldb/env.h\<close> that the log and the tables are
  written against: \<^verbatim>\<open>WritableFile\<close> and \<^verbatim>\<open>SequentialFile\<close>. An abstract class is the
  record of its virtual methods over a state of type \<open>'f\<close>; the laws its clients rely on
  are a locale. The implementations of \<^verbatim>\<open>util/env_posix.cc\<close> are interpretations of
  both (theory \<open>Env_Posix\<close>).
\<close>

section \<open>The interfaces\<close>

record 'f WritableFile =
  wAppend :: "'f \<Rightarrow> bytes \<Rightarrow> status \<times> 'f"
  wClose :: "'f \<Rightarrow> status \<times> 'f"
  wFlush :: "'f \<Rightarrow> status \<times> 'f"
  wSync :: "'f \<Rightarrow> status \<times> 'f"

record 's SequentialFile =
  sRead :: "'s \<Rightarrow> nat \<Rightarrow> status \<times> bytes \<times> 's"
  sSkip :: "'s \<Rightarrow> u64 \<Rightarrow> status \<times> 's"

section \<open>Their contracts\<close>

text \<open>
  \<open>contents\<close> is everything appended so far, \<open>durable\<close> what has left the process, and
  \<open>clean\<close> says that nothing is buffered. A failed call may lose the buffer, but what it
  leaves behind is a prefix of what a successful one would have written.
\<close>

locale writable_file =
  fixes ops :: "'f WritableFile"
    and contents :: "'f \<Rightarrow> bytes"
    and durable :: "'f \<Rightarrow> bytes"
    and clean :: "'f \<Rightarrow> bool"
  assumes append_ok: "wAppend ops f d = (s, f') \<Longrightarrow> ok s \<Longrightarrow> contents f' = contents f @ d"
    and append_durable: "wAppend ops f d = (s, f') \<Longrightarrow>
      prefix (durable f) (durable f') \<and> prefix (durable f') (contents f @ d)"
    and append_small: "wAppend ops f d = (s, f') \<Longrightarrow> clean f \<Longrightarrow> length d \<le> 6 \<Longrightarrow> ok s"
    and flush_ok: "wFlush ops f = (s, f') \<Longrightarrow> ok s \<Longrightarrow> contents f' = contents f \<and> clean f'"
    and flush_durable: "wFlush ops f = (s, f') \<Longrightarrow>
      prefix (durable f) (durable f') \<and> prefix (durable f') (contents f)"
    and clean_durable: "clean f \<Longrightarrow> durable f = contents f"
    and durable_prefix: "prefix (durable f) (contents f)"

text \<open>\<open>rest\<close> is what is left to read, \<open>reliable\<close> that no read will fail.\<close>

locale sequential_file =
  fixes ops :: "'s SequentialFile"
    and rest :: "'s \<Rightarrow> bytes"
    and reliable :: "'s \<Rightarrow> bool"
  assumes read_reliable: "reliable f \<Longrightarrow> sRead ops f n = (s, d, f') \<Longrightarrow>
      ok s \<and> d = take n (rest f) \<and> rest f' = drop n (rest f) \<and> reliable f'"
    and skip_reliable: "reliable f \<Longrightarrow> sSkip ops f m = (s, f') \<Longrightarrow> ok s \<Longrightarrow>
      rest f' = drop (unat m) (rest f) \<and> reliable f'"
begin

lemma read_eq: "reliable f \<Longrightarrow> \<exists>s f'. sRead ops f n = (s, take n (rest f), f') \<and> ok s \<and>
    rest f' = drop n (rest f) \<and> reliable f'"
  using read_reliable by (cases "sRead ops f n") auto

end

end
