(* ===== verification/Env_Posix.thy ===== *)
theory Env_Posix
  imports File_Api
begin

text \<open>
  The file classes of \<^verbatim>\<open>util/env_posix.cc\<close>. The kernel is modelled by what it answers:
  a file descriptor holds the file's bytes, the read offset and the outcomes the coming
  system calls will have (a transfer of at most so many bytes, or an \<^verbatim>\<open>errno\<close>); when the
  list is used up every call succeeds in full. \<open>fd_synced\<close> is how many of the bytes the kernel
  has confirmed to be on the disk; the others may be lost when the machine stops. Any finite sequence of short writes,
  interruptions and failures is such a list, which is why the retry loops terminate.
  \<^verbatim>\<open>strerror\<close> is an argument. The build defines \<^verbatim>\<open>HAVE_FULLFSYNC=1\<close>.
\<close>

section \<open>System calls\<close>

datatype outcome = Transfer nat | Errno nat

definition EINTR :: nat where "EINTR = 4"
definition ENOENT :: nat where "ENOENT = 2"
definition EINVAL :: nat where "EINVAL = 22"

record Fd =
  fd_data :: bytes
  fd_pos :: nat
  fd_answers :: "outcome list"
  fd_synced :: nat

definition sys_write :: "Fd \<Rightarrow> bytes \<Rightarrow> outcome \<times> Fd" where
  "sys_write fd d =
     (case fd_answers fd of
        [] \<Rightarrow> (Transfer (length d), fd\<lparr>fd_data := fd_data fd @ d\<rparr>)
      | Transfer k # as \<Rightarrow>
          (Transfer (min k (length d)), fd\<lparr>fd_data := fd_data fd @ take (min k (length d)) d, fd_answers := as\<rparr>)
      | Errno e # as \<Rightarrow> (Errno e, fd\<lparr>fd_answers := as\<rparr>))"

text \<open>\<^verbatim>\<open>read\<close> and \<^verbatim>\<open>pread\<close> give all the bytes asked for, up to the end of the file,
  as the kernel does for regular files; they may also fail.\<close>

definition sys_read :: "Fd \<Rightarrow> nat \<Rightarrow> outcome \<times> bytes \<times> Fd" where
  "sys_read fd n =
     (case fd_answers fd of
        Errno e # as \<Rightarrow> (Errno e, [], fd\<lparr>fd_answers := as\<rparr>)
      | as \<Rightarrow>
          let d = take n (drop (fd_pos fd) (fd_data fd))
          in (Transfer (length d), d, fd\<lparr>fd_pos := fd_pos fd + length d, fd_answers := tl as\<rparr>))"

definition sys_pread :: "Fd \<Rightarrow> nat \<Rightarrow> u64 \<Rightarrow> outcome \<times> bytes \<times> Fd" where
  "sys_pread fd n off =
     (case fd_answers fd of
        Errno e # as \<Rightarrow> (Errno e, [], fd\<lparr>fd_answers := as\<rparr>)
      | as \<Rightarrow>
          let d = take n (drop (unat off) (fd_data fd))
          in (Transfer (length d), d, fd\<lparr>fd_answers := tl as\<rparr>))"

text \<open>A call that moves no data: \<^verbatim>\<open>lseek\<close>, \<^verbatim>\<open>fcntl\<close>, \<^verbatim>\<open>fsync\<close>, \<^verbatim>\<open>open\<close>, \<^verbatim>\<open>close\<close>.\<close>

definition sys_call :: "Fd \<Rightarrow> nat option \<times> Fd" where
  "sys_call fd =
     (case fd_answers fd of
        Errno e # as \<Rightarrow> (Some e, fd\<lparr>fd_answers := as\<rparr>)
      | as \<Rightarrow> (None, fd\<lparr>fd_answers := tl as\<rparr>))"

lemma sys_write_result:
  "sys_write fd d = (r, fd') \<Longrightarrow>
    (\<exists>k. r = Transfer k \<and> k \<le> length d \<and> fd_data fd' = fd_data fd @ take k d) \<or>
    (\<exists>e. r = Errno e \<and> fd_data fd' = fd_data fd)"
  by (auto simp: sys_write_def split: list.splits outcome.splits)

lemma sys_write_measure:
  "sys_write fd d = (Transfer k, fd') \<Longrightarrow> d \<noteq> [] \<Longrightarrow>
    length (fd_answers fd') + (length d - k) < length (fd_answers fd) + length d"
  "sys_write fd d = (Errno e, fd') \<Longrightarrow> length (fd_answers fd') < length (fd_answers fd)"
  by (auto simp: sys_write_def split: list.splits outcome.splits)

section \<open>The code\<close>

definition kWritableFileBufferSize :: nat where
  "kWritableFileBufferSize = 65536"

definition PosixError :: "(nat \<Rightarrow> bytes) \<Rightarrow> bytes \<Rightarrow> nat \<Rightarrow> status" where
  "PosixError strerror context error_number =
     (if error_number = ENOENT then Status_new kNotFound context (strerror error_number)
      else IOError context (strerror error_number))"

subsection \<open>\<^verbatim>\<open>Limiter\<close>\<close>

text \<open>\<^verbatim>\<open>fetch_sub\<close> and \<^verbatim>\<open>fetch_add\<close> are separate atomic steps.\<close>

type_synonym Limiter = "32 word"

definition Limiter_fetch_sub :: "Limiter \<Rightarrow> Limiter \<times> Limiter" where
  "Limiter_fetch_sub l = (l, l - 1)"

definition Limiter_fetch_add :: "Limiter \<Rightarrow> Limiter" where
  "Limiter_fetch_add l = l + 1"

definition Limiter_Acquire :: "Limiter \<Rightarrow> bool \<times> Limiter" where
  "Limiter_Acquire l =
     (let (old_acquires_allowed, l) = Limiter_fetch_sub l in
      if 0 <s old_acquires_allowed then (True, l)
      else (False, Limiter_fetch_add l))"

definition Limiter_Release :: "Limiter \<Rightarrow> Limiter" where
  "Limiter_Release l = Limiter_fetch_add l"

subsection \<open>\<^verbatim>\<open>PosixSequentialFile\<close>\<close>

function seq_Read :: "(nat \<Rightarrow> bytes) \<Rightarrow> bytes \<Rightarrow> Fd \<Rightarrow> nat \<Rightarrow> status \<times> bytes \<times> Fd" where
  "seq_Read strerror filename fd n =
     (case sys_read fd n of
        (Errno e, d, fd') \<Rightarrow>
          if e = EINTR then seq_Read strerror filename fd' n
          else (PosixError strerror filename e, [], fd')
      | (Transfer k, d, fd') \<Rightarrow> (Status_OK, d, fd'))"
  by pat_completeness auto
termination
  by (relation "measure (\<lambda>(_, _, fd, _). length (fd_answers fd))")
    (auto simp: sys_read_def Let_def split: list.splits outcome.splits)

declare seq_Read.simps [simp del]

definition seq_Skip :: "(nat \<Rightarrow> bytes) \<Rightarrow> bytes \<Rightarrow> Fd \<Rightarrow> u64 \<Rightarrow> status \<times> Fd" where
  "seq_Skip strerror filename fd n =
     (case sys_call fd of
        (Some e, fd') \<Rightarrow> (PosixError strerror filename e, fd')
      | (None, fd') \<Rightarrow> (Status_OK, fd'\<lparr>fd_pos := fd_pos fd' + unat n\<rparr>))"

definition PosixSequentialFile :: "(nat \<Rightarrow> bytes) \<Rightarrow> bytes \<Rightarrow> Fd SequentialFile" where
  "PosixSequentialFile strerror filename =
     \<lparr>sRead = seq_Read strerror filename, sSkip = seq_Skip strerror filename\<rparr>"

subsection \<open>\<^verbatim>\<open>PosixRandomAccessFile\<close> and \<^verbatim>\<open>PosixMmapReadableFile\<close>\<close>

text \<open>Without a permanent descriptor the file is opened and closed on every read.\<close>

definition random_Read ::
  "(nat \<Rightarrow> bytes) \<Rightarrow> bytes \<Rightarrow> bool \<Rightarrow> Fd \<Rightarrow> u64 \<Rightarrow> nat \<Rightarrow> status \<times> bytes \<times> Fd" where
  "random_Read strerror filename has_permanent_fd fd offset n =
     (let (open_error, fd) = (if has_permanent_fd then (None, fd) else sys_call fd) in
      case open_error of
        Some e \<Rightarrow> (PosixError strerror filename e, [], fd)
      | None \<Rightarrow>
          let (r, d, fd) = sys_pread fd n offset;
              st = (case r of Errno e \<Rightarrow> PosixError strerror filename e | Transfer k \<Rightarrow> Status_OK);
              fd = (if has_permanent_fd then fd else snd (sys_call fd))
          in (st, d, fd))"

definition mmap_Read :: "(nat \<Rightarrow> bytes) \<Rightarrow> bytes \<Rightarrow> bytes \<Rightarrow> u64 \<Rightarrow> u64 \<Rightarrow> status \<times> bytes" where
  "mmap_Read strerror filename region offset n =
     (if offset + n > of_nat (length region) then (PosixError strerror filename EINVAL, [])
      else (Status_OK, take (unat n) (drop (unat offset) region)))"

subsection \<open>\<^verbatim>\<open>PosixWritableFile\<close>\<close>

text \<open>\<open>pw_buf\<close> is \<^verbatim>\<open>buf_[0, pos_ - 1]\<close>; \<open>pw_open\<close> says that \<^verbatim>\<open>fd_\<close> is not -1.\<close>

record PosixWritable =
  pw_buf :: bytes
  pw_fd :: Fd
  pw_open :: bool
  pw_is_manifest :: bool
  pw_filename :: bytes
  pw_dirname :: bytes

definition rfind_slash :: "bytes \<Rightarrow> nat option" where
  "rfind_slash f =
     (if 47 \<in> set f then Some (length f - 1 - length (takeWhile (\<lambda>c. c \<noteq> 47) (rev f))) else None)"

definition Dirname :: "bytes \<Rightarrow> bytes" where
  "Dirname filename =
     (case rfind_slash filename of None \<Rightarrow> str ''.'' | Some i \<Rightarrow> take i filename)"

definition Basename :: "bytes \<Rightarrow> bytes" where
  "Basename filename =
     (case rfind_slash filename of None \<Rightarrow> filename | Some i \<Rightarrow> drop (i + 1) filename)"

definition IsManifest :: "bytes \<Rightarrow> bool" where
  "IsManifest filename = (take 8 (Basename filename) = str ''MANIFEST'')"

definition PosixWritable_new :: "bytes \<Rightarrow> Fd \<Rightarrow> PosixWritable" where
  "PosixWritable_new filename fd =
     \<lparr>pw_buf = [], pw_fd = fd, pw_open = True, pw_is_manifest = IsManifest filename,
      pw_filename = filename, pw_dirname = Dirname filename\<rparr>"

function write_loop :: "(nat \<Rightarrow> bytes) \<Rightarrow> bytes \<Rightarrow> Fd \<Rightarrow> bytes \<Rightarrow> status \<times> Fd" where
  "write_loop strerror filename fd data =
     (if data \<noteq> [] then
        (case sys_write fd data of
           (Errno e, fd') \<Rightarrow>
             if e = EINTR then write_loop strerror filename fd' data
             else (PosixError strerror filename e, fd')
         | (Transfer k, fd') \<Rightarrow> write_loop strerror filename fd' (drop k data))
      else (Status_OK, fd))"
  by pat_completeness auto
termination
  by (relation "measure (\<lambda>(_, _, fd, d). length (fd_answers fd) + length d)")
    (auto dest!: sys_write_measure [OF sym] sys_write_measure(2) [OF sym])

declare write_loop.simps [simp del]

definition WriteUnbuffered :: "(nat \<Rightarrow> bytes) \<Rightarrow> PosixWritable \<Rightarrow> bytes \<Rightarrow> status \<times> PosixWritable" where
  "WriteUnbuffered strerror f d =
     (let (s, fd) = write_loop strerror (pw_filename f) (pw_fd f) d in (s, f\<lparr>pw_fd := fd\<rparr>))"

definition FlushBuffer :: "(nat \<Rightarrow> bytes) \<Rightarrow> PosixWritable \<Rightarrow> status \<times> PosixWritable" where
  "FlushBuffer strerror f =
     (let (s, f) = WriteUnbuffered strerror f (pw_buf f) in (s, f\<lparr>pw_buf := []\<rparr>))"

definition pw_Append :: "(nat \<Rightarrow> bytes) \<Rightarrow> PosixWritable \<Rightarrow> bytes \<Rightarrow> status \<times> PosixWritable" where
  "pw_Append strerror f data =
     (let copy_size = min (length data) (kWritableFileBufferSize - length (pw_buf f));
          f = f\<lparr>pw_buf := pw_buf f @ take copy_size data\<rparr>;
          write_data = drop copy_size data
      in if write_data = [] then (Status_OK, f)
         else
           let (st, f) = FlushBuffer strerror f in
           if \<not> ok st then (st, f)
           else if length write_data < kWritableFileBufferSize
           then (Status_OK, f\<lparr>pw_buf := write_data\<rparr>)
           else WriteUnbuffered strerror f write_data)"

definition pw_Close :: "(nat \<Rightarrow> bytes) \<Rightarrow> PosixWritable \<Rightarrow> status \<times> PosixWritable" where
  "pw_Close strerror f =
     (let (st, f) = FlushBuffer strerror f;
          (close_error, fd) = sys_call (pw_fd f);
          st = (case close_error of
                  Some e \<Rightarrow> if ok st then PosixError strerror (pw_filename f) e else st
                | None \<Rightarrow> st)
      in (st, f\<lparr>pw_fd := fd, pw_open := False\<rparr>))"

text \<open>A call that the kernel answers with success, \<^verbatim>\<open>fcntl(F_FULLFSYNC)\<close> or \<^verbatim>\<open>fsync\<close>, leaves every byte of
  the file on the disk; one that fails promises nothing.\<close>

definition sys_sync :: "Fd \<Rightarrow> nat option \<times> Fd" where
  "sys_sync fd =
     (let (e, fd) = sys_call fd
      in (e, case e of None \<Rightarrow> fd\<lparr>fd_synced := length (fd_data fd)\<rparr> | Some _ \<Rightarrow> fd))"

definition SyncFd :: "(nat \<Rightarrow> bytes) \<Rightarrow> Fd \<Rightarrow> bytes \<Rightarrow> status \<times> Fd" where
  "SyncFd strerror fd fd_path =
     (let (full_error, fd) = sys_sync fd in
      if full_error = None then (Status_OK, fd)
      else
        let (sync_error, fd) = sys_sync fd in
        case sync_error of
          None \<Rightarrow> (Status_OK, fd)
        | Some e \<Rightarrow> (PosixError strerror fd_path e, fd))"

text \<open>The directory is a file of its own; only the answers of the kernel are shared.\<close>

definition SyncDirIfManifest :: "(nat \<Rightarrow> bytes) \<Rightarrow> PosixWritable \<Rightarrow> status \<times> PosixWritable" where
  "SyncDirIfManifest strerror f =
     (if \<not> pw_is_manifest f then (Status_OK, f)
      else
        let (open_error, fd) = sys_call (pw_fd f) in
        case open_error of
          Some e \<Rightarrow> (PosixError strerror (pw_dirname f) e, f\<lparr>pw_fd := fd\<rparr>)
        | None \<Rightarrow>
            let dir = \<lparr>fd_data = [], fd_pos = 0, fd_answers = fd_answers fd, fd_synced = 0\<rparr>;
                (st, dir) = SyncFd strerror dir (pw_dirname f);
                (_, dir) = sys_call dir
            in (st, f\<lparr>pw_fd := fd\<lparr>fd_answers := fd_answers dir\<rparr>\<rparr>))"

definition pw_Sync :: "(nat \<Rightarrow> bytes) \<Rightarrow> PosixWritable \<Rightarrow> status \<times> PosixWritable" where
  "pw_Sync strerror f =
     (let (st, f) = SyncDirIfManifest strerror f in
      if \<not> ok st then (st, f)
      else
        let (st, f) = FlushBuffer strerror f in
        if \<not> ok st then (st, f)
        else let (st, fd) = SyncFd strerror (pw_fd f) (pw_filename f) in (st, f\<lparr>pw_fd := fd\<rparr>))"

definition PosixWritableFile :: "(nat \<Rightarrow> bytes) \<Rightarrow> PosixWritable WritableFile" where
  "PosixWritableFile strerror =
     \<lparr>wAppend = pw_Append strerror, wClose = pw_Close strerror, wFlush = FlushBuffer strerror,
      wSync = pw_Sync strerror\<rparr>"

subsection \<open>The lock table\<close>

type_synonym PosixLockTable = "bytes set"

definition LockTable_Insert :: "PosixLockTable \<Rightarrow> bytes \<Rightarrow> bool \<times> PosixLockTable" where
  "LockTable_Insert t fname = (fname \<notin> t, insert fname t)"

definition LockTable_Remove :: "PosixLockTable \<Rightarrow> bytes \<Rightarrow> PosixLockTable" where
  "LockTable_Remove t fname = t - {fname}"

section \<open>Writing\<close>

lemma not_ok_PosixError [simp]: "\<not> ok (PosixError se c e)"
  by (simp add: PosixError_def)

lemma write_loop_spec:
  "write_loop se fn fd d = (s, fd') \<Longrightarrow>
    prefix (fd_data fd) (fd_data fd') \<and> prefix (fd_data fd') (fd_data fd @ d) \<and>
    (ok s \<longrightarrow> fd_data fd' = fd_data fd @ d)"
proof (induction se fn fd d arbitrary: s fd' rule: write_loop.induct)
  case (1 se fn fd d)
  show ?case
  proof (cases "d = []")
    case True
    with "1.prems" show ?thesis by (simp add: write_loop.simps)
  next
    case False
    obtain r fd1 where w: "sys_write fd d = (r, fd1)" by (cases "sys_write fd d")
    show ?thesis
    proof (cases r)
      case (Errno e)
      with sys_write_result [OF w] have e: "fd_data fd1 = fd_data fd" by auto
      show ?thesis
      proof (cases "e = EINTR")
        case True
        then have "write_loop se fn fd1 d = (s, fd')"
          using "1.prems" False w Errno by (simp add: write_loop.simps [of se fn fd d])
        from "1.IH"(2) [OF False w [symmetric] Errno True this] e show ?thesis by simp
      next
        case neq: False
        then show ?thesis
          using "1.prems" False w Errno e by (auto simp: write_loop.simps [of se fn fd d])
      qed
    next
      case (Transfer k)
      with sys_write_result [OF w] have e: "fd_data fd1 = fd_data fd @ take k d" by auto
      have "write_loop se fn fd1 (drop k d) = (s, fd')"
        using "1.prems" False w Transfer by (simp add: write_loop.simps [of se fn fd d])
      from "1.IH"(1) [OF False w [symmetric] Transfer this] e show ?thesis
        by (auto intro: prefix_order.trans [rotated])
    qed
  qed
qed

lemma WriteUnbuffered_spec:
  assumes "WriteUnbuffered se f d = (s, f')"
  shows "prefix (fd_data (pw_fd f)) (fd_data (pw_fd f'))"
    and "prefix (fd_data (pw_fd f')) (fd_data (pw_fd f) @ d)"
    and "ok s \<Longrightarrow> fd_data (pw_fd f') = fd_data (pw_fd f) @ d"
    and "pw_buf f' = pw_buf f"
  using assms write_loop_spec [of se "pw_filename f" "pw_fd f" d]
  by (auto simp: WriteUnbuffered_def split: prod.splits)

lemma FlushBuffer_spec:
  assumes "FlushBuffer se f = (s, f')"
  shows "prefix (fd_data (pw_fd f)) (fd_data (pw_fd f'))"
    and "prefix (fd_data (pw_fd f')) (fd_data (pw_fd f) @ pw_buf f)"
    and "ok s \<Longrightarrow> fd_data (pw_fd f') = fd_data (pw_fd f) @ pw_buf f"
    and "pw_buf f' = []"
proof -
  obtain f1 where w: "WriteUnbuffered se f (pw_buf f) = (s, f1)" and f': "f' = f1\<lparr>pw_buf := []\<rparr>"
    using assms by (cases "WriteUnbuffered se f (pw_buf f)") (simp add: FlushBuffer_def)
  note spec = WriteUnbuffered_spec [OF w]
  show "prefix (fd_data (pw_fd f)) (fd_data (pw_fd f'))" using spec(1) by (simp add: f')
  show "prefix (fd_data (pw_fd f')) (fd_data (pw_fd f) @ pw_buf f)" using spec(2) by (simp add: f')
  show "fd_data (pw_fd f') = fd_data (pw_fd f) @ pw_buf f" if "ok s" using spec(3) [OF that] by (simp add: f')
  show "pw_buf f' = []" by (simp add: f')
qed

lemma pw_Append_cases:
  assumes "pw_Append se f d = (s, f')"
  obtains (buffered) "s = Status_OK" "f' = f\<lparr>pw_buf := pw_buf f @ d\<rparr>"
    | (failed) n where "FlushBuffer se (f\<lparr>pw_buf := pw_buf f @ take n d\<rparr>) = (s, f')" "\<not> ok s"
    | (small) f1 n st where "FlushBuffer se (f\<lparr>pw_buf := pw_buf f @ take n d\<rparr>) = (st, f1)" "ok st"
        "s = Status_OK" "f' = f1\<lparr>pw_buf := drop n d\<rparr>"
    | (large) f1 n st where "FlushBuffer se (f\<lparr>pw_buf := pw_buf f @ take n d\<rparr>) = (st, f1)" "ok st"
        "WriteUnbuffered se f1 (drop n d) = (s, f')"
proof -
  define n where "n = min (length d) (kWritableFileBufferSize - length (pw_buf f))"
  define g where "g = f\<lparr>pw_buf := pw_buf f @ take n d\<rparr>"
  obtain st f1 where fl: "FlushBuffer se g = (st, f1)" by (cases "FlushBuffer se g")
  have A: "pw_Append se f d =
    (if drop n d = [] then (Status_OK, g)
     else if \<not> ok st then (st, f1)
     else if length (drop n d) < kWritableFileBufferSize then (Status_OK, f1\<lparr>pw_buf := drop n d\<rparr>)
     else WriteUnbuffered se f1 (drop n d))"
    unfolding pw_Append_def Let_def n_def [symmetric] g_def [symmetric] fl by simp
  show ?thesis
  proof (cases "drop n d = []")
    case True
    with assms show ?thesis by (intro buffered) (simp_all add: A g_def)
  next
    case False
    then have A': "(s, f') =
      (if \<not> ok st then (st, f1)
       else if length (drop n d) < kWritableFileBufferSize then (Status_OK, f1\<lparr>pw_buf := drop n d\<rparr>)
       else WriteUnbuffered se f1 (drop n d))"
      using A assms by simp
    show ?thesis
    proof (cases "ok st")
      case st: True
      note fl' = fl [unfolded g_def] st
      show ?thesis
      proof (cases "length (drop n d) < kWritableFileBufferSize")
        case True
        with A' st show ?thesis by (intro small [OF fl']) simp_all
      next
        case False
        with A' st show ?thesis by (intro large [OF fl']) simp_all
      qed
    next
      case False
      then show ?thesis using A' failed [of n] fl by (simp add: g_def)
    qed
  qed
qed

lemma pw_Append_spec:
  assumes a: "pw_Append se f d = (s, f')"
  shows "prefix (fd_data (pw_fd f)) (fd_data (pw_fd f')) \<and>
    prefix (fd_data (pw_fd f')) (fd_data (pw_fd f) @ pw_buf f @ d) \<and>
    (ok s \<longrightarrow> fd_data (pw_fd f') @ pw_buf f' = fd_data (pw_fd f) @ pw_buf f @ d)"
  using a
proof (cases rule: pw_Append_cases)
  case (failed n)
  note fl = FlushBuffer_spec [OF failed(1), simplified]
  have "prefix (fd_data (pw_fd f) @ pw_buf f @ take n d) (fd_data (pw_fd f) @ pw_buf f @ d)"
    by (simp add: take_is_prefix)
  with fl(1,2) failed(2) show ?thesis by (blast intro: prefix_order.trans)
next
  case (small f1 n st)
  note fl = FlushBuffer_spec [OF small(1), simplified]
  from fl(3) [OF small(2)] show ?thesis using small(4) by (simp add: take_is_prefix)
next
  case (large f1 n st)
  note fl = FlushBuffer_spec [OF large(1), simplified]
  note wr = WriteUnbuffered_spec [OF large(3)]
  have e: "fd_data (pw_fd f1) = fd_data (pw_fd f) @ pw_buf f @ take n d" by (rule fl(3) [OF large(2)])
  have "prefix (fd_data (pw_fd f)) (fd_data (pw_fd f1))" by (simp add: e)
  with wr(1) have "prefix (fd_data (pw_fd f)) (fd_data (pw_fd f'))" by (blast intro: prefix_order.trans)
  moreover have "prefix (fd_data (pw_fd f')) (fd_data (pw_fd f) @ pw_buf f @ d)"
    using wr(2) by (simp add: e)
  moreover have "fd_data (pw_fd f') @ pw_buf f' = fd_data (pw_fd f) @ pw_buf f @ d" if "ok s"
    using wr(3) [OF that] wr(4) fl(4) by (simp add: e)
  ultimately show ?thesis by blast
qed simp

lemma pw_Append_small:
  "pw_buf f = [] \<Longrightarrow> length d \<le> 6 \<Longrightarrow> pw_Append se f d = (Status_OK, f\<lparr>pw_buf := d\<rparr>)"
  by (simp add: pw_Append_def kWritableFileBufferSize_def min_absorb1)

text \<open>Everything appended, what is on disk, and the buffer being empty.\<close>

definition pw_contents :: "PosixWritable \<Rightarrow> bytes" where
  "pw_contents f = fd_data (pw_fd f) @ pw_buf f"

interpretation posix_writable: writable_file "PosixWritableFile se" pw_contents
    "\<lambda>f. fd_data (pw_fd f)" "\<lambda>f. pw_buf f = []" for se
proof unfold_locales
  fix f f' :: PosixWritable and d s
  assume "wAppend (PosixWritableFile se) f d = (s, f')"
  then have a: "pw_Append se f d = (s, f')" by (simp add: PosixWritableFile_def)
  note spec = pw_Append_spec [OF a]
  show "pw_contents f' = pw_contents f @ d" if "ok s" using spec that by (simp add: pw_contents_def)
  show "prefix (fd_data (pw_fd f)) (fd_data (pw_fd f')) \<and>
      prefix (fd_data (pw_fd f')) (pw_contents f @ d)"
    using spec by (simp add: pw_contents_def)
  show "ok s" if "pw_buf f = []" "length d \<le> 6" using a pw_Append_small [OF that, of se] by simp
next
  fix f f' :: PosixWritable and s
  assume "wFlush (PosixWritableFile se) f = (s, f')"
  then have a: "FlushBuffer se f = (s, f')" by (simp add: PosixWritableFile_def)
  note spec = FlushBuffer_spec [OF a]
  show "pw_contents f' = pw_contents f \<and> pw_buf f' = []" if "ok s"
    using spec(3) [OF that] spec(4) by (simp add: pw_contents_def)
  show "prefix (fd_data (pw_fd f)) (fd_data (pw_fd f')) \<and>
      prefix (fd_data (pw_fd f')) (pw_contents f)"
    using spec(1,2) by (simp add: pw_contents_def)
qed (simp_all add: pw_contents_def)

section \<open>Reading\<close>

text \<open>A descriptor whose coming calls fail at most by being interrupted.\<close>

fun benign :: "outcome \<Rightarrow> bool" where
  "benign (Transfer k) = True"
| "benign (Errno e) = (e = EINTR)"

definition fd_reliable :: "Fd \<Rightarrow> bool" where
  "fd_reliable fd \<longleftrightarrow> 
    list_all benign (fd_answers fd)"

lemma seq_Read_reliable:
  "seq_Read se fn fd n = (s, d, fd') \<Longrightarrow> fd_reliable fd \<Longrightarrow>
    s = Status_OK \<and> d = take n (drop (fd_pos fd) (fd_data fd)) \<and>
    drop (fd_pos fd') (fd_data fd') = drop n (drop (fd_pos fd) (fd_data fd)) \<and> fd_reliable fd'"
proof (induction se fn fd n arbitrary: s d fd' rule: seq_Read.induct)
  case (1 se fn fd n)
  let ?r = "drop (fd_pos fd) (fd_data fd)"
  have D: "drop (fd_pos fd + length (take n ?r)) (fd_data fd) = drop n ?r"
    by (simp add: min_def add.commute)
  have ok: ?case if "sys_read fd n = (Transfer (length (take n ?r)), take n ?r,
      fd\<lparr>fd_pos := fd_pos fd + length (take n ?r), fd_answers := as\<rparr>)" "fd_reliable (fd\<lparr>fd_answers := as\<rparr>)" for as
    using "1.prems" that D by (subst (asm) seq_Read.simps) (auto simp: fd_reliable_def)
  show ?case
  proof (cases "fd_answers fd")
    case Nil
    then show ?thesis by (intro ok [of "[]"]) (simp_all add: sys_read_def Let_def fd_reliable_def)
  next
    case (Cons a as)
    show ?thesis
    proof (cases a)
      case (Transfer k)
      then show ?thesis using Cons "1.prems"(2)
        by (intro ok [of as]) (simp_all add: sys_read_def Let_def fd_reliable_def)
    next
      case (Errno e)
      then have e: "e = EINTR" "fd_reliable (fd\<lparr>fd_answers := as\<rparr>)"
        using Cons "1.prems"(2) by (simp_all add: fd_reliable_def)
      have r: "sys_read fd n = (Errno e, [], fd\<lparr>fd_answers := as\<rparr>)"
        using Cons Errno by (simp add: sys_read_def)
      with "1.prems"(1) e(1) have "seq_Read se fn (fd\<lparr>fd_answers := as\<rparr>) n = (s, d, fd')"
        by (subst (asm) seq_Read.simps) simp
      from "1.IH" [OF r [symmetric] refl refl e(1) this e(2)] show ?thesis by simp
    qed
  qed
qed

interpretation posix_sequential: sequential_file "PosixSequentialFile se fn"
    "\<lambda>fd. drop (fd_pos fd) (fd_data fd)" fd_reliable for se fn
proof unfold_locales
  fix f f' :: Fd and n s d
  assume "fd_reliable f" "sRead (PosixSequentialFile se fn) f n = (s, d, f')"
  then show "ok s \<and> d = take n (drop (fd_pos f) (fd_data f)) \<and>
      drop (fd_pos f') (fd_data f') = drop n (drop (fd_pos f) (fd_data f)) \<and> fd_reliable f'"
    using seq_Read_reliable [of se fn f n s d f'] by (simp add: PosixSequentialFile_def)
next
  fix f f' :: Fd and m s
  assume a: "fd_reliable f" "sSkip (PosixSequentialFile se fn) f m = (s, f')" "ok s"
  obtain e fd where c: "sys_call f = (e, fd)" by (cases "sys_call f")
  then have "fd_reliable fd" "fd_data fd = fd_data f" "fd_pos fd = fd_pos f"
    using a(1) by (auto simp: sys_call_def fd_reliable_def split: list.splits outcome.splits)
  moreover have "f' = fd\<lparr>fd_pos := fd_pos fd + unat m\<rparr>"
    using a(2,3) c by (cases e) (auto simp: PosixSequentialFile_def seq_Skip_def)
  ultimately show "drop (fd_pos f') (fd_data f') = drop (unat m) (drop (fd_pos f) (fd_data f)) \<and> fd_reliable f'"
    by (simp add: fd_reliable_def add.commute)
qed

section \<open>Writing that succeeds\<close>

lemma write_loop_reliable:
  "write_loop se fn fd d = (s, fd') \<Longrightarrow> fd_reliable fd \<Longrightarrow> ok s \<and> fd_reliable fd'"
proof (induction se fn fd d arbitrary: s fd' rule: write_loop.induct)
  case (1 se fn fd d)
  show ?case
  proof (cases "d = []")
    case True
    then show ?thesis using "1.prems" by (simp add: write_loop.simps)
  next
    case False
    obtain r fd1 where w: "sys_write fd d = (r, fd1)" by fastforce
    then have fd1: "fd_reliable fd1" "benign r"
      using "1.prems"(2) by (auto simp: sys_write_def fd_reliable_def split: list.splits outcome.splits)
    show ?thesis
    proof (cases r)
      case (Transfer k)
      then show ?thesis using "1.IH"(1) [OF False w [symmetric] Transfer _ fd1(1)] "1.prems"(1) False w
        by (simp add: write_loop.simps [of se fn fd d])
    next
      case (Errno e)
      then have e: "e = EINTR" using fd1(2) by simp
      show ?thesis using "1.IH"(2) [OF False w [symmetric] Errno e _ fd1(1)] "1.prems"(1) False w Errno e
        by (simp add: write_loop.simps [of se fn fd d])
    qed
  qed
qed

text \<open>Appending and flushing put nothing on the disk for certain.\<close>

lemma write_loop_synced: "write_loop se fn fd d = (s, fd') \<Longrightarrow> fd_synced fd' = fd_synced fd"
proof (induction se fn fd d arbitrary: s fd' rule: write_loop.induct)
  case (1 se fn fd d)
  show ?case
  proof (cases "d = []")
    case True
    with "1.prems" show ?thesis by (simp add: write_loop.simps)
  next
    case False
    obtain r fd1 where w: "sys_write fd d = (r, fd1)" by fastforce
    then have fd1: "fd_synced fd1 = fd_synced fd" by (auto simp: sys_write_def split: list.splits outcome.splits)
    show ?thesis
    proof (cases r)
      case (Transfer k)
      then show ?thesis using "1.IH"(1) [OF False w [symmetric] Transfer] "1.prems"(1) False w fd1
        by (simp add: write_loop.simps [of se fn fd d])
    next
      case (Errno e)
      then show ?thesis using "1.IH"(2) [OF False w [symmetric] Errno] "1.prems"(1) False w fd1
        by (cases "e = EINTR") (auto simp: write_loop.simps [of se fn fd d])
    qed
  qed
qed

lemma writable_synced:
  "pw_Append se f d = (s, f') \<Longrightarrow> fd_synced (pw_fd f') = fd_synced (pw_fd f)"
  "FlushBuffer se f = (s, f') \<Longrightarrow> fd_synced (pw_fd f') = fd_synced (pw_fd f)"
  by (auto simp: pw_Append_def FlushBuffer_def WriteUnbuffered_def Let_def dest!: write_loop_synced split: if_splits prod.splits)

text \<open>No append or flush fails while the kernel's answers are benign.\<close>

lemma writable_reliable:
  "fd_reliable (pw_fd f) \<Longrightarrow> wAppend (PosixWritableFile se) f d = (s, f') \<Longrightarrow> ok s \<and> fd_reliable (pw_fd f')"
  "fd_reliable (pw_fd f) \<Longrightarrow> wFlush (PosixWritableFile se) f = (s, f') \<Longrightarrow> ok s \<and> fd_reliable (pw_fd f')"
  using write_loop_reliable
  by (fastforce simp: PosixWritableFile_def pw_Append_def FlushBuffer_def WriteUnbuffered_def Let_def split: if_splits prod.splits)+

end
