(* ===== verification/Log_Writer.thy ===== *)
theory Log_Writer
  imports Crc32c Env_Posix
begin

text \<open>
  \<^verbatim>\<open>db/log_format.h\<close> and \<^verbatim>\<open>db/log_writer.cc\<close>: the write-ahead log. A record is cut
  into fragments so that no fragment crosses a 32 KB block boundary; each fragment has a
  7-byte header (masked crc of type and payload, length, type). The destination file is any
  \<open>WritableFile\<close>. The lemmas give the bytes a record turns into (\<open>frag_image\<close>), for a
  destination that keeps the contract \<open>writable_file\<close>.

  Checksums do not depend on the address of the data (theory \<open>Crc32c\<close>), so addresses are 0.
\<close>

section \<open>The code\<close>

datatype RecordType = kZeroType | kFullType | kFirstType | kMiddleType | kLastType

fun rt_num :: "RecordType \<Rightarrow> nat" where
  "rt_num kZeroType = 0"
| "rt_num kFullType = 1"
| "rt_num kFirstType = 2"
| "rt_num kMiddleType = 3"
| "rt_num kLastType = 4"

definition kMaxRecordType :: nat where
  "kMaxRecordType = rt_num kLastType"

definition kBlockSize :: nat where
  "kBlockSize = 32768"

definition kHeaderSize :: nat where
  "kHeaderSize = 4 + 2 + 1"

record 'f Writer =
  lw_dest :: 'f
  lw_block_offset :: nat
  lw_type_crc :: "u32 list"

definition InitTypeCrc :: "u32 list" where
  "InitTypeCrc = map (\<lambda>i. crc_Value 0 [of_nat i]) [0..<kMaxRecordType + 1]"

definition Writer_new :: "'f \<Rightarrow> 'f Writer" where
  "Writer_new d = \<lparr>lw_dest = d, lw_block_offset = 0, lw_type_crc = InitTypeCrc\<rparr>"

definition Writer_resume :: "'f \<Rightarrow> u64 \<Rightarrow> 'f Writer" where
  "Writer_resume d dest_length =
     \<lparr>lw_dest = d, lw_block_offset = unat (dest_length mod of_nat kBlockSize), lw_type_crc = InitTypeCrc\<rparr>"

definition EmitPhysicalRecord ::
  "'f WritableFile \<Rightarrow> 'f Writer \<Rightarrow> RecordType \<Rightarrow> bytes \<Rightarrow> status \<times> 'f Writer" where
  "EmitPhysicalRecord ops w t ptr =
     (let len = length ptr;
          crc = Mask (Extend 0 (lw_type_crc w ! rt_num t) ptr);
          buf = EncodeFixed32 crc @ [of_nat (len mod 256), of_nat (len div 256), of_nat (rt_num t)];
          (s, f) = wAppend ops (lw_dest w) buf;
          (s, f) = (if ok s then
                      let (s, f) = wAppend ops f ptr
                      in if ok s then wFlush ops f else (s, f)
                    else (s, f))
      in (s, w\<lparr>lw_dest := f, lw_block_offset := lw_block_offset w + kHeaderSize + len\<rparr>))"

text \<open>
  The part of the loop body before the physical record: switch to a new block when no
  header fits. The status of the append that fills the trailer is not looked at.
\<close>

definition StartBlock :: "'f WritableFile \<Rightarrow> 'f Writer \<Rightarrow> 'f Writer" where
  "StartBlock ops w =
     (let leftover = kBlockSize - lw_block_offset w in
      if leftover < kHeaderSize then
        let f = (if leftover > 0 then snd (wAppend ops (lw_dest w) (replicate leftover 0)) else lw_dest w)
        in w\<lparr>lw_dest := f, lw_block_offset := 0\<rparr>
      else w)"

definition fragment_type :: "bool \<Rightarrow> bool \<Rightarrow> RecordType" where
  "fragment_type isbegin isend =
     (if isbegin \<and> isend then kFullType else if isbegin then kFirstType
      else if isend then kLastType else kMiddleType)"

lemma StartBlock_offset:
  "lw_block_offset (StartBlock ops w) =
    (if kBlockSize - lw_block_offset w < kHeaderSize then 0 else lw_block_offset w)"
  by (simp add: StartBlock_def Let_def)

lemma EmitPhysicalRecord_offset:
  "EmitPhysicalRecord ops w t p = (s, w') \<Longrightarrow>
    lw_block_offset w' = lw_block_offset w + kHeaderSize + length p \<and> lw_type_crc w' = lw_type_crc w"
  by (auto simp: EmitPhysicalRecord_def Let_def split: prod.splits)

function AddRecord_loop ::
  "'f WritableFile \<Rightarrow> 'f Writer \<Rightarrow> bool \<Rightarrow> bytes \<Rightarrow> status \<times> 'f Writer" where
  "AddRecord_loop ops w isbegin ptr =
     (let left = length ptr;
          w1 = StartBlock ops w;
          avail = kBlockSize - lw_block_offset w1 - kHeaderSize;
          fragment_length = (if left < avail then left else avail);
          isend = (left = fragment_length);
          (s, w2) = EmitPhysicalRecord ops w1 (fragment_type isbegin isend) (take fragment_length ptr);
          ptr' = drop fragment_length ptr
      in if ok s \<and> length ptr' > 0 then AddRecord_loop ops w2 False ptr' else (s, w2))"
  by pat_completeness auto
termination
proof (relation "measure (\<lambda>(_, w, _, p). 2 * length p + (if kBlockSize - lw_block_offset w = kHeaderSize then 1 else 0))",
    goal_cases)
  case (2 ops w b p left w1 avail fl e res s w2 p')
  from 2(6,7) have "EmitPhysicalRecord ops w1 (fragment_type b e) (take fl p) = (s, w2)" by simp
  from EmitPhysicalRecord_offset [OF this]
  have o2: "lw_block_offset w2 = lw_block_offset w1 + kHeaderSize + min (length p) fl" by simp
  have o1: "lw_block_offset w1 = (if kBlockSize - lw_block_offset w < kHeaderSize then 0 else lw_block_offset w)"
    using 2(2) by (simp add: StartBlock_offset)
  show ?case
    using 2(1,3,4,8,9) o1 o2 by (auto simp: kBlockSize_def kHeaderSize_def split: if_splits)
qed simp

declare AddRecord_loop.simps [simp del]

definition AddRecord :: "'f WritableFile \<Rightarrow> 'f Writer \<Rightarrow> bytes \<Rightarrow> status \<times> 'f Writer" where
  "AddRecord ops w data = AddRecord_loop ops w True data"

section \<open>The format\<close>

text \<open>What a log looks like, with no reference to the writer: a fragment's bytes, how a
  record is fragmented from an offset in a block, and where in a block it ends.\<close>

definition phys :: "RecordType \<Rightarrow> bytes \<Rightarrow> bytes" where
  "phys t d =
     EncodeFixed32 (Mask (crc32c_spec 0 (of_nat (rt_num t) # d))) @
     [of_nat (length d mod 256), of_nat (length d div 256), of_nat (rt_num t)] @ d"

definition pad :: "nat \<Rightarrow> bytes" where
  "pad o1 = (if kBlockSize - o1 < kHeaderSize then replicate (kBlockSize - o1) 0 else [])"

definition start :: "nat \<Rightarrow> nat" where
  "start o1 = (if kBlockSize - o1 < kHeaderSize then 0 else o1)"

definition room :: "nat \<Rightarrow> nat" where
  "room o1 = kBlockSize - start o1 - kHeaderSize"

function frags :: "nat \<Rightarrow> bool \<Rightarrow> bytes \<Rightarrow> (RecordType \<times> bytes) list" where
  "frags o1 b d =
     (if length d \<le> room o1 then [(fragment_type b True, d)]
      else (fragment_type b False, take (room o1) d) # frags kBlockSize False (drop (room o1) d))"
  by pat_completeness auto
termination
  by (relation "measure (\<lambda>(o1, _, d). 2 * length d + (if room o1 = 0 then 1 else 0))")
    (auto simp: room_def start_def kBlockSize_def kHeaderSize_def)

declare frags.simps [simp del]

fun frag_image :: "nat \<Rightarrow> (RecordType \<times> bytes) list \<Rightarrow> bytes" where
  "frag_image o1 [] = []"
| "frag_image o1 ((t, d) # fs) = pad o1 @ phys t d @ frag_image (start o1 + kHeaderSize + length d) fs"

fun after :: "nat \<Rightarrow> (RecordType \<times> bytes) list \<Rightarrow> nat" where
  "after o1 [] = o1"
| "after o1 ((t, d) # fs) = after (start o1 + kHeaderSize + length d) fs"

definition record_image :: "nat \<Rightarrow> bytes \<Rightarrow> bytes" where
  "record_image o1 d = frag_image o1 (frags o1 True d)"

definition record_end :: "nat \<Rightarrow> bytes \<Rightarrow> nat" where
  "record_end o1 d = after o1 (frags o1 True d)"

fun log_image :: "nat \<Rightarrow> bytes list \<Rightarrow> bytes" where
  "log_image o1 [] = []"
| "log_image o1 (r # rs) = record_image o1 r @ log_image (record_end o1 r) rs"

fun log_end :: "nat \<Rightarrow> bytes list \<Rightarrow> nat" where
  "log_end o1 [] = o1"
| "log_end o1 (r # rs) = log_end (record_end o1 r) rs"

lemma start_room: "o1 \<le> kBlockSize \<Longrightarrow> start o1 + kHeaderSize + room o1 = kBlockSize"
  by (simp add: start_def room_def kBlockSize_def kHeaderSize_def)

lemma room_bound: "room o1 \<le> 65535"
  by (simp add: room_def kBlockSize_def)

lemma after_bound: "o1 \<le> kBlockSize \<Longrightarrow> after o1 (frags o1 b d) \<le> kBlockSize"
proof (induction o1 b d rule: frags.induct)
  case (1 o1 b d)
  show ?case
  proof (cases "length d \<le> room o1")
    case True
    with start_room [OF "1.prems"] show ?thesis by (simp add: frags.simps [of o1 b d])
  next
    case False
    with start_room [OF "1.prems"] "1.IH" [OF False] show ?thesis
      by (simp add: frags.simps [of o1 b d] min_absorb1 add.assoc)
  qed
qed

lemma record_end_bound: "o1 \<le> kBlockSize \<Longrightarrow> record_end o1 d \<le> kBlockSize"
  by (simp add: record_end_def after_bound)

lemma log_image_append: "log_image o1 (rs @ rs') = log_image o1 rs @ log_image (log_end o1 rs) rs'"
  by (induction rs arbitrary: o1) simp_all

lemma log_end_append: "log_end o1 (rs @ rs') = log_end (log_end o1 rs) rs'"
  by (induction rs arbitrary: o1) simp_all

section \<open>The writer and its file\<close>

text \<open>The writer only appends and flushes: what no append and no flush breaks holds on, whatever fails.\<close>

lemma StartBlock_keeps:
  assumes "\<And>f d s f'. wAppend ops f d = (s, f') \<Longrightarrow> P f \<Longrightarrow> P f'" "P (lw_dest w)"
  shows "P (lw_dest (StartBlock ops w))"
  using assms(1) [of "lw_dest w" _ "fst (wAppend ops (lw_dest w) _)", OF prod.collapse [symmetric] assms(2)] assms(2)
  by (simp add: StartBlock_def Let_def)

lemma EmitPhysicalRecord_keeps:
  assumes a: "\<And>f d s f'. wAppend ops f d = (s, f') \<Longrightarrow> P f \<Longrightarrow> P f'" and fl: "\<And>f s f'. wFlush ops f = (s, f') \<Longrightarrow> P f \<Longrightarrow> P f'"
    and "P (lw_dest w)" "EmitPhysicalRecord ops w t p = (s, w')"
  shows "P (lw_dest w')"
proof -
  let ?buf = "EncodeFixed32 (Mask (Extend 0 (lw_type_crc w ! rt_num t) p)) @ [of_nat (length p mod 256), of_nat (length p div 256), of_nat (rt_num t)]"
  obtain s1 f1 where 1: "wAppend ops (lw_dest w) ?buf = (s1, f1)" by fastforce
  obtain s2 f2 where 2: "wAppend ops f1 p = (s2, f2)" by fastforce
  obtain s3 f3 where 3: "wFlush ops f2 = (s3, f3)" by fastforce
  have "P f1" by (rule a [OF 1 assms(3)])
  moreover from this have "P f2" by (rule a [OF 2])
  moreover from this have "P f3" by (rule fl [OF 3])
  moreover have "lw_dest w' = (if ok s1 then if ok s2 then f3 else f2 else f1)"
    using assms(4) unfolding EmitPhysicalRecord_def Let_def 1 prod.case 2 3 by (auto split: if_splits)
  ultimately show ?thesis by simp
qed

lemma AddRecord_loop_keeps:
  assumes a: "\<And>f d s f'. wAppend ops f d = (s, f') \<Longrightarrow> P f \<Longrightarrow> P f'" and fl: "\<And>f s f'. wFlush ops f = (s, f') \<Longrightarrow> P f \<Longrightarrow> P f'"
  shows "AddRecord_loop ops w b p = (s, w') \<Longrightarrow> P (lw_dest w) \<Longrightarrow> P (lw_dest w')"
proof (induction ops' \<equiv> ops w b p arbitrary: s w' rule: AddRecord_loop.induct)
  case (1 w b p)
  let ?w1 = "StartBlock ops w"
  define n where "n = (if length p < kBlockSize - lw_block_offset ?w1 - kHeaderSize then length p else kBlockSize - lw_block_offset ?w1 - kHeaderSize)"
  obtain s2 w2 where e: "EmitPhysicalRecord ops ?w1 (fragment_type b (length p = n)) (take n p) = (s2, w2)" by fastforce
  have "P (lw_dest ?w1)" by (rule StartBlock_keeps) (use a "1.prems"(2) in blast)+
  then have k: "P (lw_dest w2)" by (rule EmitPhysicalRecord_keeps [rotated 2, OF _ e]) (use a fl in blast)+
  have loop: "(s, w') = (if ok s2 \<and> length (drop n p) > 0 then AddRecord_loop ops w2 False (drop n p) else (s2, w2))"
    using "1.prems"(1) by (subst (asm) AddRecord_loop.simps) (simp only: Let_def n_def [symmetric] e prod.case)
  show ?case
  proof (cases "ok s2 \<and> length (drop n p) > 0")
    case False
    then have "w' = w2" using loop by (metis snd_conv)
    then show ?thesis using k by simp
  next
    case True
    then have rec: "AddRecord_loop ops w2 False (drop n p) = (s, w')" using loop by (simp del: length_drop)
    show ?thesis by (rule "1.hyps" [OF refl refl refl n_def refl refl e [symmetric] refl True rec k])
  qed
qed

lemma AddRecord_keeps:
  assumes "AddRecord ops w d = (s, w')" "P (lw_dest w)"
    and "\<And>f d s f'. wAppend ops f d = (s, f') \<Longrightarrow> P f \<Longrightarrow> P f'" "\<And>f s f'. wFlush ops f = (s, f') \<Longrightarrow> P f \<Longrightarrow> P f'"
  shows "P (lw_dest w')"
  by (rule AddRecord_loop_keeps [where P = P, rotated 2, OF assms(1) [unfolded AddRecord_def] assms(2)]) (use assms(3,4) in blast)+

section \<open>The writer writes the format\<close>

lemma InitTypeCrc_nth: "InitTypeCrc ! rt_num t = crc32c_spec 0 [of_nat (rt_num t)]"
  by (cases t) (simp_all add: InitTypeCrc_def crc_Value_def Extend_spec kMaxRecordType_def nth_append)

definition writer_ready :: "'f Writer \<Rightarrow> bool" where
  "writer_ready w \<longleftrightarrow> lw_type_crc w = InitTypeCrc \<and> lw_block_offset w \<le> kBlockSize"

lemma writer_ready_new [inv_intro]: "writer_ready (Writer_new f)"
  by (simp add: writer_ready_def Writer_new_def)

lemma writer_ready_resume [inv_intro]: "writer_ready (Writer_resume f n)"
proof -
  have "unat (n mod of_nat kBlockSize :: u64) < kBlockSize"
    by (simp add: unat_mod kBlockSize_def)
  then show ?thesis by (simp add: writer_ready_def Writer_resume_def)
qed

context writable_file
begin

lemma EmitPhysicalRecord_writes:
  assumes e: "EmitPhysicalRecord ops w t p = (s, w')" and crc: "lw_type_crc w = InitTypeCrc"
  shows "(ok s \<longrightarrow> contents (lw_dest w') = contents (lw_dest w) @ phys t p \<and> clean (lw_dest w')) \<and>
    prefix (durable (lw_dest w)) (durable (lw_dest w')) \<and>
    prefix (durable (lw_dest w')) (contents (lw_dest w) @ phys t p)"
proof -
  let ?c = "contents (lw_dest w)"
  let ?buf = "EncodeFixed32 (Mask (Extend 0 (lw_type_crc w ! rt_num t) p)) @
      [of_nat (length p mod 256), of_nat (length p div 256), of_nat (rt_num t)]"
  have phys: "phys t p = ?buf @ p"
    by (simp add: phys_def crc InitTypeCrc_nth Extend_spec flip: crc32c_spec_append)
  obtain s1 f1 where a1: "wAppend ops (lw_dest w) ?buf = (s1, f1)"
    by (cases "wAppend ops (lw_dest w) ?buf")
  obtain s2 f2 where a2: "wAppend ops f1 p = (s2, f2)" by (cases "wAppend ops f1 p")
  obtain s3 f3 where a3: "wFlush ops f2 = (s3, f3)" by (cases "wFlush ops f2")
  note d = append_durable [OF a1] append_durable [OF a2] flush_durable [OF a3]
  have res: "s = (if ok s1 then if ok s2 then s3 else s2 else s1)"
      "lw_dest w' = (if ok s1 then if ok s2 then f3 else f2 else f1)"
  proof -
    have "EmitPhysicalRecord ops w t p =
      (let (s, f) = (if ok s1 then if ok s2 then (s3, f3) else (s2, f2) else (s1, f1))
       in (s, w\<lparr>lw_dest := f, lw_block_offset := lw_block_offset w + kHeaderSize + length p\<rparr>))"
      unfolding EmitPhysicalRecord_def Let_def a1 prod.case a2 a3 by (simp only: if_distrib prod.case)
    with e show "s = (if ok s1 then if ok s2 then s3 else s2 else s1)"
      "lw_dest w' = (if ok s1 then if ok s2 then f3 else f2 else f1)" by (auto split: if_splits)
  qed
  note ext = prefix_append2 [of _ ?c ?buf p]
  show ?thesis
  proof (cases "ok s1")
    case False
    with res d(1) ext show ?thesis by (auto simp: phys)
  next
    case ok1: True
    note c1 = append_ok [OF a1 ok1]
    show ?thesis
    proof (cases "ok s2")
      case False
      with ok1 res d c1 show ?thesis by (auto simp: phys intro: prefix_order.trans)
    next
      case ok2: True
      note c2 = append_ok [OF a2 ok2]
      from ok1 ok2 res d c1 c2 flush_ok [OF a3] show ?thesis
        by (auto simp: phys intro: prefix_order.trans)
    qed
  qed
qed

lemma StartBlock_writes:
  assumes "clean (lw_dest w)"
  shows "contents (lw_dest (StartBlock ops w)) = contents (lw_dest w) @ pad (lw_block_offset w) \<and>
    prefix (durable (lw_dest w)) (durable (lw_dest (StartBlock ops w))) \<and>
    lw_block_offset (StartBlock ops w) = start (lw_block_offset w) \<and>
    lw_type_crc (StartBlock ops w) = lw_type_crc w"
proof -
  let ?l = "kBlockSize - lw_block_offset w"
  obtain s f where a: "wAppend ops (lw_dest w) (replicate ?l 0) = (s, f)"
    by (cases "wAppend ops (lw_dest w) (replicate ?l 0)")
  have "contents f = contents (lw_dest w) @ replicate ?l 0" if "?l < kHeaderSize"
    using append_ok [OF a append_small [OF a assms]] that by (simp add: kHeaderSize_def)
  with a append_durable [OF a] show ?thesis
    by (auto simp: StartBlock_def Let_def pad_def start_def)
qed

lemma AddRecord_loop_writes:
  "AddRecord_loop ops w b p = (s, w') \<Longrightarrow> writer_ready w \<Longrightarrow> clean (lw_dest w) \<Longrightarrow>
    (ok s \<longrightarrow> contents (lw_dest w') = contents (lw_dest w) @ frag_image (lw_block_offset w) (frags (lw_block_offset w) b p) \<and>
      clean (lw_dest w') \<and> writer_ready w' \<and>
      lw_block_offset w' = after (lw_block_offset w) (frags (lw_block_offset w) b p)) \<and>
    prefix (durable (lw_dest w)) (durable (lw_dest w')) \<and>
    prefix (durable (lw_dest w')) (contents (lw_dest w) @ frag_image (lw_block_offset w) (frags (lw_block_offset w) b p))"
proof (induction ops' \<equiv> ops w b p arbitrary: s w' rule: AddRecord_loop.induct)
  case (1 w b p)
  let ?o = "lw_block_offset w"
  let ?w1 = "StartBlock ops w"
  let ?n = "if length p < room ?o then length p else room ?o"
  let ?fin = "length p = ?n"
  note sb = StartBlock_writes [OF "1.prems"(3)]
  have avail: "kBlockSize - lw_block_offset ?w1 - kHeaderSize = room ?o" using sb by (simp add: room_def)
  have n: "?n \<le> length p" "?n \<le> room ?o" "?fin \<longleftrightarrow> length p \<le> room ?o" by auto
  have off: "?o \<le> kBlockSize" using "1.prems"(2) by (simp add: writer_ready_def)
  obtain s2 w2 where e: "EmitPhysicalRecord ops ?w1 (fragment_type b ?fin) (take ?n p) = (s2, w2)"
    by (cases "EmitPhysicalRecord ops ?w1 (fragment_type b ?fin) (take ?n p)")
  have crc: "lw_type_crc ?w1 = InitTypeCrc" using sb "1.prems"(2) by (simp add: writer_ready_def)
  note emit = EmitPhysicalRecord_writes [OF e crc]
  note emit_o = EmitPhysicalRecord_offset [OF e]
  have o2: "lw_block_offset w2 = start ?o + kHeaderSize + ?n" using emit_o sb n(1) by (simp add: min_absorb1)
  have ready2: "writer_ready w2"
    using emit_o crc o2 n(2) start_room [OF off] by (simp add: writer_ready_def)
  have loop: "(s, w') = (if ok s2 \<and> length (drop ?n p) > 0
      then AddRecord_loop ops w2 False (drop ?n p) else (s2, w2))"
    using "1.prems"(1) unfolding AddRecord_loop.simps [of ops w b p] Let_def avail e by simp
  show ?case
  proof (cases "length p \<le> room ?o")
    case True
    then have "?n = length p" by simp
    with True loop emit sb o2 ready2 show ?thesis
      by (auto simp: frags.simps [of ?o b p])
  next
    case False
    then have n_eq: "?n = room ?o" and nend: "(length p = room ?o) = False" and left: "length (drop ?n p) > 0" by auto
    have f: "frags ?o b p = (fragment_type b False, take (room ?o) p) # frags kBlockSize False (drop (room ?o) p)"
      using False by (simp add: frags.simps [of ?o b p])
    have o2': "lw_block_offset w2 = kBlockSize" using o2 n_eq start_room [OF off] by simp
    have img: "frag_image ?o (frags ?o b p) = pad ?o @ phys (fragment_type b False) (take (room ?o) p) @
        frag_image kBlockSize (frags kBlockSize False (drop (room ?o) p))"
      using False start_room [OF off] by (simp add: f min_absorb1)
    have aft: "after ?o (frags ?o b p) = after kBlockSize (frags kBlockSize False (drop (room ?o) p))"
      using False start_room [OF off] by (simp add: f min_absorb1)
    show ?thesis
    proof (cases "ok s2")
      case nok: False
      then have "s = s2" "w' = w2" using loop by simp_all
      have "prefix (durable (lw_dest w2)) (contents (lw_dest w) @ pad ?o @
          phys (fragment_type b False) (take (room ?o) p))"
        using emit sb unfolding n_eq nend by simp
      then have "prefix (durable (lw_dest w2)) (contents (lw_dest w) @ frag_image ?o (frags ?o b p))"
        unfolding img by (rule prefix_append3)
      moreover have "prefix (durable (lw_dest w)) (durable (lw_dest w2))"
        using emit sb by (blast intro: prefix_order.trans)
      ultimately show ?thesis using nok \<open>s = s2\<close> \<open>w' = w2\<close> by simp
    next
      case okk: True
      then have rec: "AddRecord_loop ops w2 False (drop ?n p) = (s, w')" using loop left by simp
      from okk emit have w2: "contents (lw_dest w2) = contents (lw_dest ?w1) @ phys (fragment_type b False) (take (room ?o) p)"
          "clean (lw_dest w2)" unfolding n_eq nend by simp_all
      have IH: "(ok s \<longrightarrow> contents (lw_dest w') = contents (lw_dest w2) @ frag_image (lw_block_offset w2) (frags (lw_block_offset w2) False (drop ?n p)) \<and>
          clean (lw_dest w') \<and> writer_ready w' \<and>
          lw_block_offset w' = after (lw_block_offset w2) (frags (lw_block_offset w2) False (drop ?n p))) \<and>
        prefix (durable (lw_dest w2)) (durable (lw_dest w')) \<and>
        prefix (durable (lw_dest w')) (contents (lw_dest w2) @ frag_image (lw_block_offset w2) (frags (lw_block_offset w2) False (drop ?n p)))"
        by (rule "1.hyps" [OF refl refl _ _ refl _ refl _ _ rec ready2 w2(2)])
          (use avail e okk left in auto)
      have "prefix (durable (lw_dest w)) (durable (lw_dest w2))"
        using sb emit by (blast intro: prefix_order.trans)
      with IH w2(1) sb show ?thesis unfolding img aft o2' n_eq
        by (auto intro: prefix_order.trans)
    qed
  qed
qed

lemma AddRecord_writes:
  assumes "AddRecord ops w d = (s, w')" and "writer_ready w" and "clean (lw_dest w)"
  shows "ok s \<Longrightarrow> contents (lw_dest w') = contents (lw_dest w) @ record_image (lw_block_offset w) d \<and>
      clean (lw_dest w') \<and> writer_ready w' \<and> lw_block_offset w' = record_end (lw_block_offset w) d"
    and "prefix (durable (lw_dest w)) (durable (lw_dest w'))"
    and "prefix (durable (lw_dest w')) (contents (lw_dest w) @ record_image (lw_block_offset w) d)"
  using AddRecord_loop_writes [OF assms(1) [unfolded AddRecord_def] assms(2,3)]
  by (auto simp: record_image_def record_end_def)

end

end
