(* ===== verification/Log_Reader.thy ===== *)
theory Log_Reader
  imports Log_Writer
begin

text \<open>
  \<^verbatim>\<open>db/log_reader.cc\<close>: reading the log back. The reader takes the file a block at a
  time, checks each fragment and joins fragments to records; a fragment cut off by the end
  of the file is the end of the log, not a corruption. The file is any \<open>SequentialFile\<close>;
  the calls of \<^verbatim>\<open>reporter_->Corruption\<close> are recorded in the state.
  \<^verbatim>\<open>ReadRecord\<close> loops until the file ends, so it is a partial function; the lemmas show
  that it returns on every log image and on every truncation of one.
\<close>

section \<open>The code\<close>

record 's Reader =
  lr_file :: 's
  lr_reporter :: bool
  lr_checksum :: bool
  lr_buffer :: bytes
  lr_eof :: bool
  lr_last_record_offset :: u64
  lr_end_of_buffer_offset :: u64
  lr_initial_offset :: u64
  lr_resyncing :: bool
  lr_reports :: "(nat \<times> status) list"

definition Reader_new :: "'s \<Rightarrow> bool \<Rightarrow> bool \<Rightarrow> u64 \<Rightarrow> 's Reader" where
  "Reader_new file reporter checksum initial_offset =
     \<lparr>lr_file = file, lr_reporter = reporter, lr_checksum = checksum, lr_buffer = [],
      lr_eof = False, lr_last_record_offset = 0, lr_end_of_buffer_offset = 0,
      lr_initial_offset = initial_offset, lr_resyncing = (initial_offset > 0), lr_reports = []\<rparr>"

definition kEof :: u32 where
  "kEof = of_nat kMaxRecordType + 1"

definition kBadRecord :: u32 where
  "kBadRecord = of_nat kMaxRecordType + 2"

definition ReportDrop :: "'s Reader \<Rightarrow> u64 \<Rightarrow> status \<Rightarrow> 's Reader" where
  "ReportDrop r n reason =
     (if lr_reporter r \<and>
         lr_end_of_buffer_offset r - of_nat (length (lr_buffer r)) - n \<ge> lr_initial_offset r
      then r\<lparr>lr_reports := lr_reports r @ [(unat n, reason)]\<rparr> else r)"

definition ReportCorruption :: "'s Reader \<Rightarrow> u64 \<Rightarrow> bytes \<Rightarrow> 's Reader" where
  "ReportCorruption r n reason = ReportDrop r n (Status_new kCorruption reason [])"

definition SkipToInitialBlock :: "'s SequentialFile \<Rightarrow> 's Reader \<Rightarrow> bool \<times> 's Reader" where
  "SkipToInitialBlock ops r =
     (let offset_in_block = lr_initial_offset r mod of_nat kBlockSize;
          block_start_location = lr_initial_offset r - offset_in_block;
          block_start_location =
            (if offset_in_block > of_nat kBlockSize - 6 then block_start_location + of_nat kBlockSize
             else block_start_location);
          r = r\<lparr>lr_end_of_buffer_offset := block_start_location\<rparr>
      in if block_start_location > 0 then
           let (skip_status, f) = sSkip ops (lr_file r) block_start_location;
               r = r\<lparr>lr_file := f\<rparr>
           in if \<not> ok skip_status then (False, ReportDrop r block_start_location skip_status)
              else (True, r)
         else (True, r))"

text \<open>
  The end of \<^verbatim>\<open>ReadPhysicalRecord\<close>, after the buffer was found to hold a header. The
  result is the type, the payload (\<open>result\<close> unless the code sets it) and the reader.
\<close>

definition ParsePhysicalRecord :: "'s Reader \<Rightarrow> bytes \<Rightarrow> u32 \<times> bytes \<times> 's Reader" where
  "ParsePhysicalRecord r result =
     (let header = lr_buffer r;
          a = (ucast (header ! 4) :: u32) AND 0xff;
          b = (ucast (header ! 5) :: u32) AND 0xff;
          type = (scast (header ! 6) :: u32);
          len = unat (a OR push_bit 8 b)
      in if kHeaderSize + len > length (lr_buffer r) then
           let drop_size = length (lr_buffer r);
               r = r\<lparr>lr_buffer := []\<rparr>
           in if \<not> lr_eof r
              then (kBadRecord, result, ReportCorruption r (of_nat drop_size) (str ''bad record length''))
              else (kEof, result, r)
         else if type = of_nat (rt_num kZeroType) \<and> len = 0 then
           (kBadRecord, result, r\<lparr>lr_buffer := []\<rparr>)
         else if lr_checksum r \<and>
             crc_Value 0 (take (1 + len) (drop 6 header)) \<noteq> Unmask (DecodeFixed32 header) then
           let drop_size = length (lr_buffer r);
               r = r\<lparr>lr_buffer := []\<rparr>
           in (kBadRecord, result, ReportCorruption r (of_nat drop_size) (str ''checksum mismatch''))
         else
           let r = r\<lparr>lr_buffer := drop (kHeaderSize + len) (lr_buffer r)\<rparr>
           in if lr_end_of_buffer_offset r - of_nat (length (lr_buffer r)) - of_nat kHeaderSize -
                 of_nat len < lr_initial_offset r
              then (kBadRecord, [], r)
              else (type, take len (drop kHeaderSize header), r))"

function ReadPhysicalRecord ::
  "'s SequentialFile \<Rightarrow> 's Reader \<Rightarrow> bytes \<Rightarrow> u32 \<times> bytes \<times> 's Reader" where
  "ReadPhysicalRecord ops r result =
     (if length (lr_buffer r) < kHeaderSize then
        if \<not> lr_eof r then
          let (status, buf, f) = sRead ops (lr_file r) kBlockSize;
              r' = r\<lparr>lr_file := f, lr_buffer := buf,
                     lr_end_of_buffer_offset := lr_end_of_buffer_offset r + of_nat (length buf)\<rparr>
          in if \<not> ok status then
               let r' = ReportDrop (r'\<lparr>lr_buffer := []\<rparr>) (of_nat kBlockSize) status
               in (kEof, result, r'\<lparr>lr_eof := True\<rparr>)
             else if length buf < kBlockSize then ReadPhysicalRecord ops (r'\<lparr>lr_eof := True\<rparr>) result
             else ReadPhysicalRecord ops r' result
        else (kEof, result, r\<lparr>lr_buffer := []\<rparr>)
      else ParsePhysicalRecord r result)"
  by pat_completeness auto
termination
  by (relation "measure (\<lambda>(_, r, _). if length (lr_buffer r) < kHeaderSize \<and> \<not> lr_eof r then 1 else 0)")
    (auto simp: kBlockSize_def kHeaderSize_def)

declare ReadPhysicalRecord.simps [simp del]

text \<open>The message for a type that is none of those known: \<^verbatim>\<open>"unknown record type %u"\<close>
  printed into 40 bytes.\<close>

definition unknown_type_message :: "u32 \<Rightarrow> bytes" where
  "unknown_type_message t = take 39 (str ''unknown record type '' @ dec (unat t))"

text \<open>
  \<open>frag\<close> is the slice \<^verbatim>\<open>fragment\<close>, \<open>pro\<close> the prospective record offset; the result is
  what \<^verbatim>\<open>ReadRecord\<close> returns, the record, the scratch string and the reader.
\<close>

partial_function (option) ReadRecord_loop ::
  "'s SequentialFile \<Rightarrow> 's Reader \<Rightarrow> bytes \<Rightarrow> bytes \<Rightarrow> bool \<Rightarrow> u64 \<Rightarrow>
    (bool \<times> bytes \<times> bytes \<times> 's Reader) option" where
  "ReadRecord_loop ops r frag scratch in_fragmented_record pro =
     (let (record_type, frag, r) = ReadPhysicalRecord ops r frag;
          physical_record_offset =
            lr_end_of_buffer_offset r - of_nat (length (lr_buffer r)) - of_nat kHeaderSize -
            of_nat (length frag);
          resync = lr_resyncing r;
          r = (if resync \<and> record_type \<noteq> of_nat (rt_num kMiddleType)
               then r\<lparr>lr_resyncing := False\<rparr> else r)
      in if resync \<and> (record_type = of_nat (rt_num kMiddleType) \<or> record_type = of_nat (rt_num kLastType))
         then ReadRecord_loop ops r frag scratch in_fragmented_record pro
         else if record_type = of_nat (rt_num kFullType) then
           let r = (if in_fragmented_record \<and> scratch \<noteq> []
                    then ReportCorruption r (of_nat (length scratch)) (str ''partial record without end(1)'')
                    else r)
           in Some (True, frag, [], r\<lparr>lr_last_record_offset := physical_record_offset\<rparr>)
         else if record_type = of_nat (rt_num kFirstType) then
           let r = (if in_fragmented_record \<and> scratch \<noteq> []
                    then ReportCorruption r (of_nat (length scratch)) (str ''partial record without end(2)'')
                    else r)
           in ReadRecord_loop ops r frag frag True physical_record_offset
         else if record_type = of_nat (rt_num kMiddleType) then
           if \<not> in_fragmented_record then
             ReadRecord_loop ops
               (ReportCorruption r (of_nat (length frag)) (str ''missing start of fragmented record(1)''))
               frag scratch in_fragmented_record pro
           else ReadRecord_loop ops r frag (scratch @ frag) in_fragmented_record pro
         else if record_type = of_nat (rt_num kLastType) then
           if \<not> in_fragmented_record then
             ReadRecord_loop ops
               (ReportCorruption r (of_nat (length frag)) (str ''missing start of fragmented record(2)''))
               frag scratch in_fragmented_record pro
           else Some (True, scratch @ frag, scratch @ frag, r\<lparr>lr_last_record_offset := pro\<rparr>)
         else if record_type = kEof then
           Some (False, [], (if in_fragmented_record then [] else scratch), r)
         else if record_type = kBadRecord then
           if in_fragmented_record then
             ReadRecord_loop ops
               (ReportCorruption r (of_nat (length scratch)) (str ''error in middle of record''))
               frag [] False pro
           else ReadRecord_loop ops r frag scratch in_fragmented_record pro
         else
           ReadRecord_loop ops
             (ReportCorruption r
               (of_nat (length frag + (if in_fragmented_record then length scratch else 0)))
               (unknown_type_message record_type))
             frag [] False pro)"

definition ReadRecord ::
  "'s SequentialFile \<Rightarrow> 's Reader \<Rightarrow> bytes \<Rightarrow> bytes \<Rightarrow>
    (bool \<times> bytes \<times> bytes \<times> 's Reader) option" where
  "ReadRecord ops r rec scratch =
     (let (found, r) =
            (if lr_last_record_offset r < lr_initial_offset r then SkipToInitialBlock ops r
             else (True, r))
      in if \<not> found then Some (False, rec, scratch, r)
         else ReadRecord_loop ops r [] [] False 0)"

text \<open>The loop of a log's readers, as in \<^verbatim>\<open>DBImpl::RecoverLogFile\<close> and
  \<^verbatim>\<open>VersionSet::Recover\<close>: the records read until \<^verbatim>\<open>ReadRecord\<close> returns false, with
  their offsets, and the reader then.\<close>

partial_function (option) read_records ::
  "'s SequentialFile \<Rightarrow> 's Reader \<Rightarrow> bytes \<Rightarrow> bytes \<Rightarrow> ((bytes \<times> u64) list \<times> 's Reader) option" where
  "read_records ops r rec scratch =
     Option.bind (ReadRecord ops r rec scratch) (\<lambda>(found, rec, scratch, r).
       if found then
         Option.bind (read_records ops r rec scratch) (\<lambda>(rest, r').
           Some ((rec, lr_last_record_offset r) # rest, r'))
       else Some ([], r))"

section \<open>One fragment\<close>

text \<open>The fields of a reader that reading does not change, in the state the theorems are
  about: reading from the start, not resynchronising.\<close>

definition quiet :: "'s Reader \<Rightarrow> 's Reader \<Rightarrow> bool" where
  "quiet r r' \<longleftrightarrow> lr_reports r' = lr_reports r \<and> lr_initial_offset r' = lr_initial_offset r \<and>
     lr_resyncing r' = lr_resyncing r \<and> lr_last_record_offset r' = lr_last_record_offset r"

lemma quiet_simps [simp]:
  "quiet r r" "quiet r (r'\<lparr>lr_buffer := x\<rparr>) = quiet r r'" "quiet r (r'\<lparr>lr_eof := y\<rparr>) = quiet r r'"
  "quiet r (r'\<lparr>lr_file := f\<rparr>) = quiet r r'" "quiet r (r'\<lparr>lr_end_of_buffer_offset := n\<rparr>) = quiet r r'"
  by (simp_all add: quiet_def)

lemma quiet_trans: "quiet r r' \<Longrightarrow> quiet r' r'' \<Longrightarrow> quiet r r''"
  by (simp add: quiet_def)

lemma length_phys [simp]: "length (phys t d) = kHeaderSize + length d"
  by (simp add: phys_def kHeaderSize_def)

lemma unat_byte_mod: "unat (of_nat (n mod 256) :: byte) = n mod 256"
  by (simp add: unat_of_nat_lt)

lemma fragment_length_bytes:
  assumes "n < 65536"
  shows "unat (((ucast (of_nat (n mod 256) :: byte) :: u32) AND 0xff) OR
    push_bit 8 ((ucast (of_nat (n div 256) :: byte) :: u32) AND 0xff)) = n"
proof -
  let ?a = "of_nat (n mod 256) :: byte" and ?b = "of_nat (n div 256) :: byte"
  have m: "(ucast x :: u32) AND 0xff = ucast x" for x :: byte
  proof -
    have "(0xff :: u32) = mask 8" by (simp add: mask_eq_exp_minus_1)
    moreover have "(ucast x :: u32) AND mask 8 = ucast x"
      by (rule bit_word_eqI) (auto simp: bit_simps dest: bit_imp_le_length)
    ultimately show ?thesis by (simp only:)
  qed
  have "(ucast ?a :: u32) AND push_bit 8 (ucast ?b) = 0"
    by (rule bit_word_eqI) (auto simp: bit_simps dest: bit_imp_le_length)
  then have "(ucast ?a :: u32) OR push_bit 8 (ucast ?b) = ucast ?a + push_bit 8 (ucast ?b)"
    by (simp add: disjunctive_add_eq_or)
  moreover have "unat (ucast ?a :: u32) = n mod 256" "unat (ucast ?b :: u32) = n div 256"
    using assms by (simp_all add: unat_ucast_up unat_of_nat_lt)
  ultimately show ?thesis
    using assms by (simp add: m push_bit_eq_mult unat_word_ariths)
qed

lemma phys_header:
  assumes "length d \<le> 65535" and "buf = phys t d @ x"
  shows "unat (((ucast (buf ! 4) :: u32) AND 0xff) OR push_bit 8 ((ucast (buf ! 5) :: u32) AND 0xff)) = length d"
    and "(scast (buf ! 6) :: u32) = of_nat (rt_num t)"
    and "take (1 + length d) (drop 6 buf) = of_nat (rt_num t) # d"
    and "DecodeFixed32 buf = Mask (crc32c_spec 0 (of_nat (rt_num t) # d))"
    and "take (length d) (drop kHeaderSize buf) = d"
proof -
  obtain c1 c2 c3 c4 where c: "EncodeFixed32 (Mask (crc32c_spec 0 (of_nat (rt_num t) # d))) = [c1, c2, c3, c4]"
    by (simp add: EncodeFixed32_le numeral_eq_Suc)
  have b: "buf = [c1, c2, c3, c4, of_nat (length d mod 256), of_nat (length d div 256), of_nat (rt_num t)] @ d @ x"
    using assms(2) by (simp add: phys_def c)
  show "unat (((ucast (buf ! 4) :: u32) AND 0xff) OR push_bit 8 ((ucast (buf ! 5) :: u32) AND 0xff)) = length d"
    using fragment_length_bytes [of "length d"] assms(1) by (simp add: b)
  show "(scast (buf ! 6) :: u32) = of_nat (rt_num t)" by (cases t) (simp_all add: b)
  show "take (1 + length d) (drop 6 buf) = of_nat (rt_num t) # d" by (simp add: b)
  have "DecodeFixed32 buf = DecodeFixed32 (EncodeFixed32 (Mask (crc32c_spec 0 (of_nat (rt_num t) # d))) @
      drop 4 buf)" by (simp add: c b)
  then show "DecodeFixed32 buf = Mask (crc32c_spec 0 (of_nat (rt_num t) # d))"
    by (simp add: DecodeFixed32_append)
  show "take (length d) (drop kHeaderSize buf) = d" by (simp add: b kHeaderSize_def)
qed

lemma Parse_phys:
  assumes "length d \<le> 65535" and b: "lr_buffer r = phys t d @ x" and "lr_initial_offset r = 0"
    and "t \<noteq> kZeroType"
  shows "ParsePhysicalRecord r res = (of_nat (rt_num t), d, r\<lparr>lr_buffer := x\<rparr>)"
proof -
  note h = phys_header [OF assms(1) b]
  have t: "(of_nat (rt_num t) :: u32) \<noteq> of_nat (rt_num kZeroType)" using assms(4) by (cases t) simp_all
  have len: "\<not> kHeaderSize + length d > length (lr_buffer r)" by (simp add: b)
  show ?thesis
    unfolding ParsePhysicalRecord_def Let_def h
    using t len assms(3) by (simp add: crc_Value_def Extend_spec b)
qed

lemma Parse_truncated:
  assumes "length d \<le> 65535" and "strict_prefix (lr_buffer r) (phys t d)"
    and "kHeaderSize \<le> length (lr_buffer r)" and "lr_eof r"
  shows "ParsePhysicalRecord r res = (kEof, res, r\<lparr>lr_buffer := []\<rparr>)"
proof -
  obtain x where x: "phys t d = lr_buffer r @ x" "x \<noteq> []"
    using assms(2) by (auto simp: strict_prefix_def prefix_def)
  note h = phys_header [OF assms(1) refl, of t "[]"]
  have "lr_buffer r ! 4 = phys t d ! 4" "lr_buffer r ! 5 = phys t d ! 5"
    using assms(3) by (simp_all add: x nth_append kHeaderSize_def)
  then have len: "unat (((ucast (lr_buffer r ! 4) :: u32) AND 0xff) OR
      push_bit 8 ((ucast (lr_buffer r ! 5) :: u32) AND 0xff)) = length d"
    using h(1) by simp
  have "length (phys t d) = length (lr_buffer r) + length x" by (simp only: x(1) length_append)
  then have "length (lr_buffer r) < kHeaderSize + length d" using x(2) by simp
  then show ?thesis
    unfolding ParsePhysicalRecord_def Let_def len using assms(4) by simp
qed

section \<open>Reading an image\<close>

text \<open>
  \<open>parsing r o1 R p\<close>: the reader has \<open>R\<close> left, which starts at offset \<open>o1\<close> of a block and at
  offset \<open>p\<close> of the file, and its buffer holds the rest of that block. \<open>between\<close> is the
  same between two fragments, where a whole block is not read ahead.
\<close>

text \<open>The records whose bytes are all within the first \<open>n\<close> bytes of an image, each with
  the offset in the file of its first fragment.\<close>

fun complete :: "nat \<Rightarrow> nat \<Rightarrow> bytes list \<Rightarrow> nat \<Rightarrow> (bytes \<times> u64) list" where
  "complete p o1 [] n = []"
| "complete p o1 (d # rs) n =
     (if n < length (record_image o1 d) then []
      else (d, of_nat (p + length (pad o1))) #
        complete (p + length (record_image o1 d)) (record_end o1 d) rs (n - length (record_image o1 d)))"

lemma complete_all:
  "length (log_image o1 rs) \<le> n \<Longrightarrow> map fst (complete p o1 rs n) = rs"
  by (induction rs arbitrary: p o1 n) auto

lemma complete_prefix: "prefix (map fst (complete p o1 rs n)) rs"
  by (induction rs arbitrary: p o1 n) auto

lemma complete_at_least:
  "length (log_image o1 rs) \<le> n \<Longrightarrow> prefix rs (map fst (complete p o1 (rs @ rs') n))"
  by (induction rs arbitrary: p o1 n) auto

context sequential_file
begin

definition parsing :: "'s Reader \<Rightarrow> nat \<Rightarrow> bytes \<Rightarrow> nat \<Rightarrow> bool" where
  "parsing r o1 R p \<longleftrightarrow>
     reliable (lr_file r) \<and> R = lr_buffer r @ rest (lr_file r) \<and>
     (lr_eof r \<longrightarrow> rest (lr_file r) = [] \<and> length R \<le> kBlockSize - o1) \<and>
     (\<not> lr_eof r \<longrightarrow> length (lr_buffer r) = kBlockSize - o1) \<and>
     lr_end_of_buffer_offset r = of_nat (p + length (lr_buffer r)) \<and>
     lr_initial_offset r = 0 \<and> \<not> lr_resyncing r"

definition between :: "'s Reader \<Rightarrow> nat \<Rightarrow> bytes \<Rightarrow> nat \<Rightarrow> bool" where
  "between r o1 R p \<longleftrightarrow> parsing r (if o1 = 0 \<and> \<not> lr_eof r then kBlockSize else o1) R p"

lemma between_new:
  "reliable f \<Longrightarrow> between (Reader_new f rep chk 0) 0 (rest f) 0"
  by (simp add: between_def parsing_def Reader_new_def)

lemma refill:
  assumes b: "between r o1 R p" and o1: "o1 \<le> kBlockSize"
  obtains (eof) r' where "ReadPhysicalRecord ops r res = (kEof, res, r')" "quiet r r'"
      "length (drop (length (pad o1)) R) < kHeaderSize"
    | (fragment) r1 where "ReadPhysicalRecord ops r res = ParsePhysicalRecord r1 res" "quiet r r1"
      "parsing r1 (start o1) (drop (length (pad o1)) R) (p + length (pad o1))"
      "kHeaderSize \<le> length (lr_buffer r1)"
proof (cases "length (lr_buffer r) < kHeaderSize")
  case False
  have "\<not> kBlockSize - o1 < kHeaderSize \<and> \<not> (o1 = 0 \<and> \<not> lr_eof r)"
    using b False by (auto simp: between_def parsing_def kBlockSize_def kHeaderSize_def split: if_splits)
  then have "pad o1 = []" "start o1 = o1" "parsing r o1 R p"
    using b by (auto simp: pad_def start_def between_def)
  with False show ?thesis by (intro fragment [of r]) (simp_all add: ReadPhysicalRecord.simps [of ops r res])
next
  case short: True
  show ?thesis
  proof (cases "lr_eof r")
    case True
    with b have "R = lr_buffer r" by (simp add: between_def parsing_def)
    with short True show ?thesis
      by (intro eof [of "r\<lparr>lr_buffer := []\<rparr>"])
        (simp_all add: ReadPhysicalRecord.simps [of ops r res] kHeaderSize_def)
  next
    case more: False
    let ?o = "if o1 = 0 then kBlockSize else o1"
    from b more have P: "reliable (lr_file r)" "R = lr_buffer r @ rest (lr_file r)"
        "length (lr_buffer r) = kBlockSize - ?o" "lr_initial_offset r = 0" "\<not> lr_resyncing r"
        "lr_end_of_buffer_offset r = of_nat (p + length (lr_buffer r))"
      by (auto simp: between_def parsing_def)
    have pad: "length (pad o1) = length (lr_buffer r)" and start: "start o1 = 0"
      using short P(3) o1 by (auto simp: pad_def start_def kBlockSize_def kHeaderSize_def split: if_splits)
    have R: "drop (length (pad o1)) R = rest (lr_file r)" using P(2) pad by simp
    obtain s f' where rd: "sRead ops (lr_file r) kBlockSize = (s, take kBlockSize (rest (lr_file r)), f')"
        and f': "ok s" "rest f' = drop kBlockSize (rest (lr_file r))" "reliable f'"
      using read_eq [OF P(1)] by blast
    let ?buf = "take kBlockSize (rest (lr_file r))"
    let ?r1 = "r\<lparr>lr_file := f', lr_buffer := ?buf,
        lr_end_of_buffer_offset := lr_end_of_buffer_offset r + of_nat (length ?buf)\<rparr>"
    define r1 where "r1 = (if length ?buf < kBlockSize then ?r1\<lparr>lr_eof := True\<rparr> else ?r1)"
    have q: "quiet r r1" by (simp add: r1_def)
    have step: "ReadPhysicalRecord ops r res = ReadPhysicalRecord ops r1 res"
      unfolding ReadPhysicalRecord.simps [of ops r res] Let_def rd prod.case r1_def
      using short more f'(1) by simp
    have par: "parsing r1 0 (rest (lr_file r)) (p + length (pad o1))"
      using more P f' pad by (auto simp: parsing_def r1_def)
    show ?thesis
    proof (cases "length (lr_buffer r1) < kHeaderSize")
      case False
      with step par q R start show ?thesis
        by (intro fragment [of r1]) (simp_all add: ReadPhysicalRecord.simps [of ops r1 res])
    next
      case True
      then have len: "length (rest (lr_file r)) < kHeaderSize" and e: "lr_eof r1"
        by (auto simp: r1_def kBlockSize_def kHeaderSize_def split: if_splits)
      have "ReadPhysicalRecord ops r1 res = (kEof, res, r1\<lparr>lr_buffer := []\<rparr>)"
        using True e by (simp add: ReadPhysicalRecord.simps [of ops r1 res])
      with step q R len show ?thesis by (intro eof [of "r1\<lparr>lr_buffer := []\<rparr>"]) simp_all
    qed
  qed
qed

lemma read_fragment:
  assumes b: "between r o1 (pad o1 @ phys t d @ X) p" and o1: "o1 \<le> kBlockSize"
    and d: "length d \<le> room o1" and t: "t \<noteq> kZeroType"
  obtains r' where "ReadPhysicalRecord ops r res = (of_nat (rt_num t), d, r')" "quiet r r'"
    "between r' (start o1 + kHeaderSize + length d) X (p + length (pad o1) + kHeaderSize + length d)"
  using b o1
proof (cases rule: refill [where res = res])
  case (fragment r1)
  have fit: "kHeaderSize + length d \<le> kBlockSize - start o1"
    using d start_room [OF o1] by simp
  from fragment(3) have P: "parsing r1 (start o1) (phys t d @ X) (p + length (pad o1))" by simp
  then have buf: "lr_buffer r1 @ rest (lr_file r1) = phys t d @ X" by (simp add: parsing_def)
  have "kHeaderSize + length d \<le> length (lr_buffer r1)"
  proof (cases "lr_eof r1")
    case True
    with P have "lr_buffer r1 = phys t d @ X" by (simp add: parsing_def)
    then show ?thesis by simp
  qed (use P fit in \<open>simp add: parsing_def\<close>)
  then have "take (length (phys t d)) (lr_buffer r1) = phys t d"
    using arg_cong [OF buf, of "take (length (phys t d))"] by simp
  then obtain x where x: "lr_buffer r1 = phys t d @ x" "X = x @ rest (lr_file r1)"
    using buf by (metis append.assoc append_take_drop_id same_append_eq)
  have "ParsePhysicalRecord r1 res = (of_nat (rt_num t), d, r1\<lparr>lr_buffer := x\<rparr>)"
    using Parse_phys [OF _ x(1) _ t] d room_bound [of o1] P by (simp add: parsing_def)
  moreover have "between (r1\<lparr>lr_buffer := x\<rparr>) (start o1 + kHeaderSize + length d) X
      (p + length (pad o1) + kHeaderSize + length d)"
    using P x fit by (auto simp: between_def parsing_def kHeaderSize_def)
  ultimately show ?thesis using fragment(1,2) that by simp
qed (simp add: kHeaderSize_def)

lemma read_truncated:
  assumes b: "between r o1 Y p" and o1: "o1 \<le> kBlockSize"
    and d: "length d \<le> room o1" and Y: "strict_prefix Y (pad o1 @ phys t d)"
  obtains r' where "ReadPhysicalRecord ops r res = (kEof, res, r')" "quiet r r'"
  using b o1
proof (cases rule: refill [where res = res])
  case (fragment r1)
  let ?Y = "drop (length (pad o1)) Y"
  have ne: "?Y \<noteq> []" using fragment(3,4) by (auto simp: parsing_def kHeaderSize_def)
  have Y': "strict_prefix ?Y (phys t d)"
  proof -
    from Y obtain z where z: "pad o1 @ phys t d = Y @ z" "z \<noteq> []" by (auto simp: strict_prefix_def prefix_def)
    then have "phys t d = ?Y @ z"
      using ne by (metis append_eq_conv_conj drop_append diff_is_0_eq drop_0 drop_eq_Nil linorder_le_cases)
    with z(2) show ?thesis by (auto simp: strict_prefix_def)
  qed
  then have len: "length ?Y < kHeaderSize + length d" using prefix_length_less by force
  have fit: "kHeaderSize + length d \<le> kBlockSize - start o1" using d start_room [OF o1] by simp
  from fragment(3) len fit have e: "lr_eof r1" "lr_buffer r1 = ?Y" by (auto simp: parsing_def)
  have "ParsePhysicalRecord r1 res = (kEof, res, r1\<lparr>lr_buffer := []\<rparr>)"
    using Parse_truncated [of d r1 t res] Y' e fragment(4) d room_bound [of o1] by simp
  with fragment(1,2) that show ?thesis by simp
qed (use that in blast)

text \<open>One turn of the loop, by the type of the fragment read.\<close>

lemma loop_turn:
  assumes "ReadPhysicalRecord ops r fr = (ty, d, r')" and "\<not> lr_resyncing r'"
  shows "ty = of_nat (rt_num kFullType) \<Longrightarrow>
      ReadRecord_loop ops r fr sc False pro = Some (True, d, [], r'\<lparr>lr_last_record_offset :=
        lr_end_of_buffer_offset r' - of_nat (length (lr_buffer r')) - of_nat kHeaderSize - of_nat (length d)\<rparr>)"
    and "ty = of_nat (rt_num kFirstType) \<Longrightarrow>
      ReadRecord_loop ops r fr sc False pro = ReadRecord_loop ops r' d d True
        (lr_end_of_buffer_offset r' - of_nat (length (lr_buffer r')) - of_nat kHeaderSize - of_nat (length d))"
    and "ty = of_nat (rt_num kMiddleType) \<Longrightarrow>
      ReadRecord_loop ops r fr sc True pro = ReadRecord_loop ops r' d (sc @ d) True pro"
    and "ty = of_nat (rt_num kLastType) \<Longrightarrow>
      ReadRecord_loop ops r fr sc True pro = Some (True, sc @ d, sc @ d, r'\<lparr>lr_last_record_offset := pro\<rparr>)"
    and "ty = kEof \<Longrightarrow>
      ReadRecord_loop ops r fr sc infrag pro = Some (False, [], (if infrag then [] else sc), r')"
  by (simp_all add: ReadRecord_loop.simps [of ops r fr] assms Let_def kEof_def kMaxRecordType_def)

lemma between_not_resyncing: "between r o1 R p \<Longrightarrow> \<not> lr_resyncing r"
  by (simp add: between_def parsing_def)

lemma between_last: "between r o1 R p \<Longrightarrow> between (r\<lparr>lr_last_record_offset := n\<rparr>) o1 R p"
  by (auto simp: between_def parsing_def)

lemma fragment_offset:
  assumes "between r' o1 X (p + n + kHeaderSize + m)"
  shows "lr_end_of_buffer_offset r' - of_nat (length (lr_buffer r')) - of_nat kHeaderSize - of_nat m =
    of_nat (p + n)"
  using assms by (simp add: between_def parsing_def)

lemma fragment_type_not_zero: "fragment_type b e \<noteq> kZeroType"
  by (simp add: fragment_type_def)

lemma loop_reads_record:
  "between r o1 (frag_image o1 (frags o1 b d) @ X) p \<Longrightarrow> o1 \<le> kBlockSize \<Longrightarrow>
    \<exists>r' sc'. ReadRecord_loop ops r fr sc (\<not> b) pro =
      Some (True, (if b then d else sc @ d), sc',
        r'\<lparr>lr_last_record_offset := (if b then of_nat (p + length (pad o1)) else pro)\<rparr>) \<and>
      between r' (after o1 (frags o1 b d)) X (p + length (frag_image o1 (frags o1 b d))) \<and>
      lr_reports r' = lr_reports r"
proof (induction o1 b d arbitrary: r p fr sc pro rule: frags.induct)
  case (1 o1 b d)
  show ?case
  proof (cases "length d \<le> room o1")
    case True
    then have f: "frags o1 b d = [(fragment_type b True, d)]" by (simp add: frags.simps [of o1])
    from "1.prems"(1) have b: "between r o1 (pad o1 @ phys (fragment_type b True) d @ X) p" by (simp add: f)
    from b "1.prems"(2) True fragment_type_not_zero
    obtain r' where r': "ReadPhysicalRecord ops r fr = (of_nat (rt_num (fragment_type b True)), d, r')"
        "quiet r r'" "between r' (start o1 + kHeaderSize + length d) X (p + length (pad o1) + kHeaderSize + length d)"
      by (rule read_fragment)
    note turn = loop_turn [OF r'(1) between_not_resyncing [OF r'(3)]]
    have pos: "after o1 (frags o1 b d) = start o1 + kHeaderSize + length d"
        "p + length (frag_image o1 (frags o1 b d)) = p + length (pad o1) + kHeaderSize + length d"
      by (simp_all add: f)
    have rep: "lr_reports r' = lr_reports r" using r'(2) by (simp add: quiet_def)
    show ?thesis
    proof (cases b)
      case True
      have "ReadRecord_loop ops r fr sc False pro =
          Some (True, d, [], r'\<lparr>lr_last_record_offset := of_nat (p + length (pad o1))\<rparr>)"
        using turn(1) [of sc pro] True by (simp add: fragment_type_def fragment_offset [OF r'(3)] del: of_nat_add)
      with r'(3) rep True show ?thesis unfolding pos by auto
    next
      case False
      have "ReadRecord_loop ops r fr sc True pro =
          Some (True, sc @ d, sc @ d, r'\<lparr>lr_last_record_offset := pro\<rparr>)"
        using turn(4) [of sc pro] False by (simp add: fragment_type_def)
      with r'(3) rep False show ?thesis unfolding pos by auto
    qed
  next
    case False
    let ?d1 = "take (room o1) d" and ?d2 = "drop (room o1) d"
    let ?rest = "frag_image kBlockSize (frags kBlockSize False ?d2)"
    have len: "length ?d1 = room o1" using False by simp
    have f: "frags o1 b d = (fragment_type b False, ?d1) # frags kBlockSize False ?d2"
      using False by (simp add: frags.simps [of o1])
    have block: "start o1 + kHeaderSize + length ?d1 = kBlockSize"
      unfolding len by (rule start_room [OF "1.prems"(2)])
    have img: "frag_image o1 (frags o1 b d) = pad o1 @ phys (fragment_type b False) ?d1 @ ?rest"
      using block by (simp add: f)
    from "1.prems"(1) have b: "between r o1 (pad o1 @ phys (fragment_type b False) ?d1 @ ?rest @ X) p"
      by (simp add: img)
    from b "1.prems"(2) eq_imp_le [OF len] fragment_type_not_zero
    obtain r' where r': "ReadPhysicalRecord ops r fr = (of_nat (rt_num (fragment_type b False)), ?d1, r')"
        "quiet r r'" "between r' (start o1 + kHeaderSize + length ?d1) (?rest @ X)
          (p + length (pad o1) + kHeaderSize + length ?d1)"
      by (rule read_fragment)
    note turn = loop_turn [OF r'(1) between_not_resyncing [OF r'(3)]]
    define sc1 where "sc1 = (if b then ?d1 else sc @ ?d1)"
    define pro1 where "pro1 = (if b then of_nat (p + length (pad o1)) else pro)"
    have step: "ReadRecord_loop ops r fr sc (\<not> b) pro = ReadRecord_loop ops r' ?d1 sc1 True pro1"
      using turn(2) [of sc pro] turn(3) [of sc pro] fragment_offset [OF r'(3)]
      by (cases b) (simp_all add: fragment_type_def sc1_def pro1_def)
    from "1.IH" [OF False r'(3) [unfolded block] order.refl, of ?d1 sc1 pro1]
    obtain r2 sc2 where r2: "ReadRecord_loop ops r' ?d1 sc1 True pro1 =
          Some (True, sc1 @ ?d2, sc2, r2\<lparr>lr_last_record_offset := pro1\<rparr>)"
        "between r2 (after kBlockSize (frags kBlockSize False ?d2)) X
          (p + length (pad o1) + kHeaderSize + length ?d1 + length ?rest)"
        "lr_reports r2 = lr_reports r'"
      by auto
    have aft: "after o1 (frags o1 b d) = after kBlockSize (frags kBlockSize False ?d2)"
      unfolding f using block by simp
    have pos: "p + length (frag_image o1 (frags o1 b d)) =
        p + length (pad o1) + kHeaderSize + length ?d1 + length ?rest"
      by (simp add: img)
    have rec: "(if b then d else sc @ d) = sc1 @ ?d2" by (simp add: sc1_def)
    have rep: "lr_reports r2 = lr_reports r" using r2(3) r'(2) by (simp add: quiet_def)
    show ?thesis unfolding aft pos step rec pro1_def [symmetric] using r2(1,2) rep by blast
  qed
qed

lemma loop_reads_truncated:
  "between r o1 Y p \<Longrightarrow> strict_prefix Y (frag_image o1 (frags o1 b d)) \<Longrightarrow> o1 \<le> kBlockSize \<Longrightarrow>
    \<exists>r' sc'. ReadRecord_loop ops r fr sc (\<not> b) pro = Some (False, [], sc', r') \<and> lr_reports r' = lr_reports r"
proof (induction o1 b d arbitrary: r p fr sc pro Y rule: frags.induct)
  case (1 o1 b d)
  have stop: ?case if d1: "length d1 \<le> room o1" and Y: "strict_prefix Y (pad o1 @ phys t d1)" for d1 t
  proof -
    from "1.prems"(1,3) d1 Y obtain r' where r': "ReadPhysicalRecord ops r fr = (kEof, fr, r')" "quiet r r'"
      by (rule read_truncated)
    have "\<not> lr_resyncing r'" using between_not_resyncing [OF "1.prems"(1)] r'(2) by (simp add: quiet_def)
    from loop_turn(5) [OF r'(1) this, of sc "\<not> b" pro] r'(2) show ?thesis by (simp add: quiet_def)
  qed
  show ?case
  proof (cases "length d \<le> room o1")
    case True
    with "1.prems"(2) show ?thesis by (intro stop [OF True]) (simp add: frags.simps [of o1])
  next
    case False
    let ?d1 = "take (room o1) d" and ?d2 = "drop (room o1) d"
    let ?t = "fragment_type b False"
    let ?rest = "frag_image kBlockSize (frags kBlockSize False ?d2)"
    have len: "length ?d1 = room o1" using False by simp
    have f: "frags o1 b d = (?t, ?d1) # frags kBlockSize False ?d2"
      using False by (simp add: frags.simps [of o1])
    have block: "start o1 + kHeaderSize + length ?d1 = kBlockSize"
      unfolding len by (rule start_room [OF "1.prems"(3)])
    have img: "frag_image o1 (frags o1 b d) = (pad o1 @ phys ?t ?d1) @ ?rest"
      using block by (simp add: f)
    show ?thesis
    proof (cases "strict_prefix Y (pad o1 @ phys ?t ?d1)")
      case True
      then show ?thesis by (intro stop [of ?d1 ?t]) (simp_all add: len)
    next
      case full: False
      from "1.prems"(2) have Y0: "prefix Y ((pad o1 @ phys ?t ?d1) @ ?rest)" "Y \<noteq> (pad o1 @ phys ?t ?d1) @ ?rest"
        by (simp_all add: img strict_prefix_def)
      from Y0(1) full obtain Z where Y: "Y = (pad o1 @ phys ?t ?d1) @ Z" "prefix Z ?rest"
        unfolding prefix_append by (auto simp: strict_prefix_def)
      with Y0(2) have Z: "strict_prefix Z ?rest" by (auto simp: strict_prefix_def)
      from "1.prems"(1) have b: "between r o1 (pad o1 @ phys ?t ?d1 @ Z) p" by (simp add: Y)
      from b "1.prems"(3) eq_imp_le [OF len] fragment_type_not_zero
      obtain r' where r': "ReadPhysicalRecord ops r fr = (of_nat (rt_num ?t), ?d1, r')" "quiet r r'"
          "between r' (start o1 + kHeaderSize + length ?d1) Z (p + length (pad o1) + kHeaderSize + length ?d1)"
        by (rule read_fragment)
      note turn = loop_turn [OF r'(1) between_not_resyncing [OF r'(3)]]
      define sc1 where "sc1 = (if b then ?d1 else sc @ ?d1)"
      define pro1 where "pro1 = (if b then of_nat (p + length (pad o1)) else pro)"
      have step: "ReadRecord_loop ops r fr sc (\<not> b) pro = ReadRecord_loop ops r' ?d1 sc1 True pro1"
        using turn(2) [of sc pro] turn(3) [of sc pro] fragment_offset [OF r'(3)]
        by (cases b) (simp_all add: fragment_type_def sc1_def pro1_def)
      from "1.IH" [OF False r'(3) [unfolded block] Z order.refl, of ?d1 sc1 pro1] r'(2) step
      show ?thesis by (auto simp: quiet_def)
    qed
  qed
qed

lemma ReadRecord_from_start:
  "between r o1 R p \<Longrightarrow> ReadRecord ops r rec sc = ReadRecord_loop ops r [] [] False 0"
  by (simp add: ReadRecord_def between_def parsing_def)

lemma read_all_reads:
  "between r o1 (take n (log_image o1 rs)) p \<Longrightarrow> o1 \<le> kBlockSize \<Longrightarrow>
    \<exists>r'. read_records ops r rec sc = Some (complete p o1 rs n, r') \<and> lr_reports r' = lr_reports r"
proof (induction rs arbitrary: r p n o1 rec sc)
  case Nil
  have "strict_prefix [] (frag_image o1 (frags o1 True []))"
    by (simp add: frags.simps phys_def strict_prefix_def)
  from loop_reads_truncated [OF Nil(1) [simplified] this Nil(2), of "[]" "[]" 0]
  show ?case using ReadRecord_from_start [OF Nil(1)] by (auto simp: read_records.simps [of ops r])
next
  case (Cons d rs)
  show ?case
  proof (cases "n < length (record_image o1 d)")
    case True
    then have tk: "take n (log_image o1 (d # rs)) = take n (record_image o1 d)" by simp
    have "strict_prefix (take n (record_image o1 d)) (frag_image o1 (frags o1 True d))"
      using True by (auto simp: strict_prefix_def take_is_prefix record_image_def)
    from loop_reads_truncated [OF Cons.prems(1) [unfolded tk] this Cons.prems(2), of "[]" "[]" 0]
    show ?thesis
      using ReadRecord_from_start [OF Cons.prems(1)] True by (auto simp: read_records.simps [of ops r])
  next
    case False
    let ?m = "n - length (record_image o1 d)"
    let ?X = "take ?m (log_image (record_end o1 d) rs)"
    have tk: "take n (log_image o1 (d # rs)) = frag_image o1 (frags o1 True d) @ ?X"
      using False by (simp add: record_image_def)
    from loop_reads_record [OF Cons.prems(1) [unfolded tk] Cons.prems(2), of "[]" "[]" 0]
    obtain r' sc' where r': "ReadRecord_loop ops r [] [] False 0 =
          Some (True, d, sc', r'\<lparr>lr_last_record_offset := of_nat (p + length (pad o1))\<rparr>)"
        "between r' (record_end o1 d) ?X (p + length (record_image o1 d))" "lr_reports r' = lr_reports r"
      by (auto simp: record_end_def record_image_def)
    let ?r = "r'\<lparr>lr_last_record_offset := of_nat (p + length (pad o1))\<rparr>"
    from Cons.IH [OF between_last [OF r'(2)] record_end_bound [OF Cons.prems(2)],
        of "of_nat (p + length (pad o1))" d sc']
    obtain r2 where "read_records ops ?r d sc' =
          Some (complete (p + length (record_image o1 d)) (record_end o1 d) rs ?m, r2)"
        "lr_reports r2 = lr_reports ?r" by blast
    then show ?thesis
      using ReadRecord_from_start [OF Cons.prems(1)] r' False by (auto simp: read_records.simps [of ops r])
  qed
qed

end

end
