(* ===== verification/Log_Recovery.thy ===== *)
theory Log_Recovery
  imports Log_Reader
begin

text \<open>
  Writer and reader together, on the files of \<^verbatim>\<open>util/env_posix.cc\<close>: what the log
  guarantees when every write succeeds, when a write fails, and when the file is cut off
  at any byte.
\<close>

section \<open>Writing several records\<close>

text \<open>A run of calls of the writer, with the status of each. A client may go on after one that failed,
  as \<^verbatim>\<open>DBImpl::Write\<close> does.\<close>

fun AddRecords :: "'f WritableFile \<Rightarrow> 'f Writer \<Rightarrow> bytes list \<Rightarrow> status list \<times> 'f Writer" where
  "AddRecords ops w [] = ([], w)"
| "AddRecords ops w (d # ds) =
     (let (s, w) = AddRecord ops w d; (ss, w) = AddRecords ops w ds in (s # ss, w))"

text \<open>The records before the first failure.\<close>

definition accepted :: "status list \<Rightarrow> nat" where
  "accepted ss = length (takeWhile ok ss)"

context writable_file
begin

lemma AddRecord_grows: "AddRecord ops w d = (s, w') \<Longrightarrow> prefix (durable (lw_dest w)) (durable (lw_dest w'))"
  by (erule AddRecord_keeps [where P = "\<lambda>f. prefix (durable (lw_dest w)) (durable f)"])
    (use append_durable flush_durable prefix_order.trans in blast)+

lemma AddRecords_grows: "AddRecords ops w ds = (ss, w') \<Longrightarrow> prefix (durable (lw_dest w)) (durable (lw_dest w')) \<and> length ss = length ds"
proof (induction ds arbitrary: w w' ss)
  case (Cons d ds)
  obtain s1 w1 where 1: "AddRecord ops w d = (s1, w1)" by fastforce
  obtain ss2 w2 where 2: "AddRecords ops w1 ds = (ss2, w2)" by fastforce
  from AddRecord_grows [OF 1] Cons.IH [OF 2] Cons.prems show ?case by (auto simp: 1 2 intro: prefix_order.trans)
qed simp

lemma AddRecords_writes:
  "AddRecords ops w ds = (ss, w') \<Longrightarrow> writer_ready w \<Longrightarrow> clean (lw_dest w) \<Longrightarrow>
    prefix (contents (lw_dest w) @ log_image (lw_block_offset w) (take (accepted ss) ds)) (durable (lw_dest w')) \<and>
    (accepted ss = length ds \<longrightarrow> contents (lw_dest w') = contents (lw_dest w) @ log_image (lw_block_offset w) ds \<and>
      clean (lw_dest w') \<and> writer_ready w' \<and> lw_block_offset w' = log_end (lw_block_offset w) ds) \<and>
    (length ds \<le> accepted ss + 1 \<longrightarrow> prefix (durable (lw_dest w')) (contents (lw_dest w) @ log_image (lw_block_offset w) ds))"
proof (induction ds arbitrary: w w' ss)
  case Nil
  then show ?case by (simp add: accepted_def clean_durable)
next
  case (Cons d ds)
  obtain s1 w1 where a: "AddRecord ops w d = (s1, w1)" by fastforce
  obtain ss2 w2 where r: "AddRecords ops w1 ds = (ss2, w2)" by fastforce
  have e: "ss = s1 # ss2" "w' = w2" using Cons.prems(1) by (simp_all add: a r)
  note aw = AddRecord_writes [OF a Cons.prems(2,3)] and g = AddRecords_grows [OF r]
  show ?case
  proof (cases "ok s1")
    case True
    note ok1 = aw(1) [OF True]
    have "accepted ss = Suc (accepted ss2)" using True by (simp add: e accepted_def)
    then show ?thesis using Cons.IH [OF r] ok1 by (simp add: e)
  next
    case False
    then have acc: "accepted ss = 0" by (simp add: e accepted_def)
    have "prefix (contents (lw_dest w)) (durable (lw_dest w'))"
      using aw(2) g e(2) clean_durable [OF Cons.prems(3)] by (auto intro: prefix_order.trans)
    moreover have "prefix (durable (lw_dest w')) (contents (lw_dest w) @ log_image (lw_block_offset w) [d])" if "ds = []"
      using aw(3) r that e(2) by simp
    ultimately show ?thesis by (simp add: acc)
  qed
qed

end

section \<open>Properties\<close>

text \<open>C7. The write-ahead log on POSIX files: records are added to a new log one after the other, also after a call that
  failed, and the kernel answers the writes as it likes. The file then starts with the whole image of the records
  accepted before the first failure, whatever came later. When every call succeeded it is the image of the log; when only
  the last one failed it is a prefix of it.\<close>

theorem log_written:
  assumes "AddRecords (PosixWritableFile se) (Writer_new (PosixWritable_new fname fd)) ds = (ss, w)"
    and "fd_data fd = []"
  shows "length ss = length ds \<and>
    prefix (log_image 0 (take (accepted ss) ds)) (fd_data (pw_fd (lw_dest w))) \<and>
    (accepted ss = length ds \<longrightarrow> fd_data (pw_fd (lw_dest w)) = log_image 0 ds) \<and>
    (length ds \<le> accepted ss + 1 \<longrightarrow> prefix (fd_data (pw_fd (lw_dest w))) (log_image 0 ds))"
proof -
  have "writer_ready (Writer_new (PosixWritable_new fname fd))" by (rule writer_ready_new)
  from posix_writable.AddRecords_writes [OF assms(1) this] posix_writable.AddRecords_grows [OF assms(1)] assms(2)
  show ?thesis by (auto simp: Writer_new_def PosixWritable_new_def pw_contents_def)
qed

theorem log_written_witness:
  "let fd = \<lparr>fd_data = [], fd_pos = 0, fd_answers = [Transfer 8, Errno EINTR, Transfer 3, Errno 28], fd_synced = 0\<rparr>;
      (ss, w) = AddRecords (PosixWritableFile (\<lambda>_. [])) (Writer_new (PosixWritable_new [] fd)) [[1], [2], [3]]
    in length ss = 3 \<and> prefix (log_image 0 (take (accepted ss) [[1], [2], [3]])) (fd_data (pw_fd (lw_dest w)))"
proof -
  let ?fd = "\<lparr>fd_data = [], fd_pos = 0, fd_answers = [Transfer 8, Errno EINTR, Transfer 3, Errno 28], fd_synced = 0\<rparr>"
  obtain ss w where a: "AddRecords (PosixWritableFile (\<lambda>_. [])) (Writer_new (PosixWritable_new [] ?fd)) [[1], [2], [3]] = (ss, w)" by fastforce
  from log_written [OF a] show ?thesis by (simp add: Let_def a del: AddRecords.simps take.simps take_Cons_numeral)
qed

text \<open>C6. Recovery: reading a log image that was cut off at any byte returns, in order and
  with their file offsets, exactly the records that are complete in what is left, and
  reports no corruption. The file's reads may be interrupted any number of times.\<close>

theorem log_recovery:
  assumes "fd_data fd = take n (log_image 0 ds)" and "fd_pos fd = 0" and "fd_reliable fd"
  shows "\<exists>r'. read_records (PosixSequentialFile se fname) (Reader_new fd rep chk 0) rec sc =
      Some (complete 0 0 ds n, r') \<and> lr_reports r' = [] \<and>
      prefix (map fst (complete 0 0 ds n)) ds \<and>
      (\<forall>ds1 ds2. ds = ds1 @ ds2 \<and> length (log_image 0 ds1) \<le> n \<longrightarrow>
        prefix ds1 (map fst (complete 0 0 ds n)))"
proof -
  have "posix_sequential.between (Reader_new fd rep chk 0) 0 (take n (log_image 0 ds)) 0"
    using posix_sequential.between_new [OF assms(3), of rep chk] assms(1,2) by simp
  from posix_sequential.read_all_reads [OF this, of se fname rec sc]
  show ?thesis using complete_prefix complete_at_least by (auto simp: Reader_new_def)
qed

theorem log_recovery_witness:
  "\<exists>r'. read_records (PosixSequentialFile (\<lambda>_. []) [])
      (Reader_new \<lparr>fd_data = take 9 (log_image 0 [[1], [2]]), fd_pos = 0, fd_answers = [Errno EINTR], fd_synced = 0\<rparr>
        True True 0) [] [] = Some (complete 0 0 [[1], [2]] 9, r') \<and>
      lr_reports r' = [] \<and> prefix (map fst (complete 0 0 [[1], [2]] 9)) [[1], [2]] \<and>
      (\<forall>ds1 ds2. [[1], [2]] = ds1 @ ds2 \<and> length (log_image 0 ds1) \<le> 9 \<longrightarrow>
        prefix ds1 (map fst (complete 0 0 [[1], [2]] 9)))"
  by (rule log_recovery) (simp_all add: fd_reliable_def)

end
