(* ===== verification/Comparator.thy ===== *)
theory Comparator
  imports Prelude "HOL-Library.List_Lexorder"
begin

text \<open>
  \<^verbatim>\<open>util/comparator.cc\<close> and \<^verbatim>\<open>Slice::compare\<close> of \<^verbatim>\<open>slice.h\<close>: the bytewise order of
  keys, and the two functions that shorten the keys stored in an index block. The locale
  \<open>comparator\<close> is the interface \<^verbatim>\<open>Comparator\<close> as its users rely on it: a total
  order, a separator between two keys, a successor of a key. The order on byte strings is
  the lexicographic order the library puts on lists.
\<close>

section \<open>The code\<close>

fun memcmp :: "bytes \<Rightarrow> bytes \<Rightarrow> int" where
  "memcmp (a # as) (b # bs) = (if a = b then memcmp as bs else if a < b then -1 else 1)"
| "memcmp _ _ = 0"

definition slice_compare :: "bytes \<Rightarrow> bytes \<Rightarrow> int" where
  "slice_compare a b =
     (let min_len = (if length a < length b then length a else length b);
          r = memcmp (take min_len a) (take min_len b)
      in if r = 0 then
           if length a < length b then -1 else if length a > length b then 1 else r
         else r)"

definition Bytewise_Compare :: "bytes \<Rightarrow> bytes \<Rightarrow> int" where
  "Bytewise_Compare a b = slice_compare a b"

text \<open>The length of the common prefix: the loop that counts \<^verbatim>\<open>diff_index\<close> up.\<close>

function prefix_loop :: "bytes \<Rightarrow> bytes \<Rightarrow> nat \<Rightarrow> nat" where
  "prefix_loop start limit diff_index =
     (if diff_index < min (length start) (length limit) \<and> start ! diff_index = limit ! diff_index
      then prefix_loop start limit (diff_index + 1) else diff_index)"
  by pat_completeness auto
termination
  by (relation "measure (\<lambda>(s, l, i). length s - i)") auto

declare prefix_loop.simps [simp del]

definition Bytewise_FindShortestSeparator :: "bytes \<Rightarrow> bytes \<Rightarrow> bytes" where
  "Bytewise_FindShortestSeparator start limit =
     (let min_length = min (length start) (length limit);
          diff_index = prefix_loop start limit 0
      in if diff_index \<ge> min_length then start
         else
           let diff_byte = start ! diff_index in
           if diff_byte < 0xff \<and> unat diff_byte + 1 < unat (limit ! diff_index)
           then take (diff_index + 1) (start[diff_index := start ! diff_index + 1])
           else start)"

fun successor_loop :: "bytes \<Rightarrow> nat \<Rightarrow> nat \<Rightarrow> bytes" where
  "successor_loop key 0 i = key"
| "successor_loop key (Suc left) i =
     (let byte = key ! i in
      if byte \<noteq> 0xff then take (i + 1) (key[i := byte + 1]) else successor_loop key left (i + 1))"

definition Bytewise_FindShortSuccessor :: "bytes \<Rightarrow> bytes" where
  "Bytewise_FindShortSuccessor key = successor_loop key (length key) 0"

section \<open>The interface\<close>

text \<open>A three-way comparison that orders the valid keys.\<close>

locale comparison =
  fixes valid :: "'k \<Rightarrow> bool"
    and Compare :: "'k \<Rightarrow> 'k \<Rightarrow> int"
  assumes refl: "valid a \<Longrightarrow> Compare a a = 0"
    and antisym: "valid a \<Longrightarrow> valid b \<Longrightarrow> Compare a b < 0 \<longleftrightarrow> 0 < Compare b a"
    and trans: "valid a \<Longrightarrow> valid b \<Longrightarrow> valid c \<Longrightarrow> Compare a b \<le> 0 \<Longrightarrow> Compare b c \<le> 0 \<Longrightarrow> Compare a c \<le> 0"
begin

lemma le_or_ge: "valid a \<Longrightarrow> valid b \<Longrightarrow> Compare a b \<le> 0 \<or> Compare b a \<le> 0"
  using antisym [of a b] by linarith

lemma eq_sym: "valid a \<Longrightarrow> valid b \<Longrightarrow> Compare a b = 0 \<longleftrightarrow> Compare b a = 0"
  using antisym [of a b] antisym [of b a] by linarith

lemma less_trans:
  assumes "valid a" "valid b" "valid c" "Compare a b < 0" "Compare b c \<le> 0"
  shows "Compare a c < 0"
proof (rule ccontr)
  assume "\<not> Compare a c < 0"
  then have "Compare c a \<le> 0" using assms(1,3) antisym [of a c] by simp
  with assms have "Compare b a \<le> 0" using trans [of b c a] by blast
  with assms show False using antisym [of a b] by linarith
qed

lemma less_trans':
  assumes "valid a" "valid b" "valid c" "Compare a b \<le> 0" "Compare b c < 0"
  shows "Compare a c < 0"
proof (rule ccontr)
  assume "\<not> Compare a c < 0"
  then have "Compare c a \<le> 0" using assms(1,3) antisym [of a c] by simp
  with assms have "Compare c b \<le> 0" using trans [of c a b] by blast
  with assms show False using antisym [of b c] by linarith
qed

end

text \<open>The interface \<^verbatim>\<open>Comparator\<close>: a comparison and the two functions that shorten keys.\<close>

locale comparator = comparison valid Compare
  for valid :: "bytes \<Rightarrow> bool"
    and Compare :: "bytes \<Rightarrow> bytes \<Rightarrow> int" +
  fixes FindShortestSeparator :: "bytes \<Rightarrow> bytes \<Rightarrow> bytes"
    and FindShortSuccessor :: "bytes \<Rightarrow> bytes"
  assumes sep: "valid s \<Longrightarrow> valid l \<Longrightarrow> Compare s l < 0 \<Longrightarrow>
      valid (FindShortestSeparator s l) \<and> Compare s (FindShortestSeparator s l) \<le> 0 \<and>
      Compare (FindShortestSeparator s l) l < 0"
    and sep_eq: "valid s \<Longrightarrow> valid l \<Longrightarrow> Compare s l = 0 \<Longrightarrow> FindShortestSeparator s l = s"
    and succ: "valid s \<Longrightarrow> valid (FindShortSuccessor s) \<and> Compare s (FindShortSuccessor s) \<le> 0"
begin

text \<open>What the index of a table relies on: a key at or before the last key of a block is
  at or before the separator, a key of the next block is after it.\<close>

lemma separator_separates:
  assumes "valid s" "valid l" "Compare s l < 0" "valid k"
  shows "Compare k s \<le> 0 \<Longrightarrow> Compare k (FindShortestSeparator s l) \<le> 0"
    and "Compare l k \<le> 0 \<Longrightarrow> Compare (FindShortestSeparator s l) k < 0"
  using sep [OF assms(1-3)] trans [OF assms(4,1), of "FindShortestSeparator s l"]
    less_trans [of "FindShortestSeparator s l" l k] assms by blast+

end

section \<open>The bytewise order is the lexicographic one\<close>

lemma memcmp_values: "memcmp a b \<in> {-1, 0, 1}"
  by (induction a b rule: memcmp.induct) auto

lemma slice_compare_Cons:
  "slice_compare (a # as) (b # bs) = (if a = b then slice_compare as bs else if a < b then -1 else 1)"
  by (simp add: slice_compare_def Let_def)

lemma slice_compare_Nil [simp]:
  "slice_compare [] [] = 0" "slice_compare [] (b # bs) = -1" "slice_compare (a # as) [] = 1"
  by (simp_all add: slice_compare_def Let_def)

lemma slice_compare_eq:
  "slice_compare a b = (if a = b then 0 else if a < b then -1 else 1)"
proof (induction a arbitrary: b)
  case Nil
  then show ?case by (cases b) auto
next
  case (Cons x a)
  then show ?case by (cases b) (auto simp: slice_compare_Cons)
qed

lemma Bytewise_Compare_eq:
  "Bytewise_Compare a b = (if a = b then 0 else if a < b then -1 else 1)"
  by (simp add: Bytewise_Compare_def slice_compare_eq)

lemma Bytewise_Compare_iff [simp]:
  "Bytewise_Compare a b < 0 \<longleftrightarrow> a < b" "Bytewise_Compare a b = 0 \<longleftrightarrow> a = b"
  "0 < Bytewise_Compare a b \<longleftrightarrow> b < a" "Bytewise_Compare a b \<le> 0 \<longleftrightarrow> a \<le> b"
  "0 \<le> Bytewise_Compare a b \<longleftrightarrow> b \<le> a"
  by (auto simp: Bytewise_Compare_eq)

section \<open>Shortening\<close>

lemma prefix_loop_spec:
  assumes "i \<le> min (length s) (length l)" and "take i s = take i l"
  shows "i \<le> prefix_loop s l i \<and> prefix_loop s l i \<le> min (length s) (length l) \<and>
    take (prefix_loop s l i) s = take (prefix_loop s l i) l \<and>
    (prefix_loop s l i < min (length s) (length l) \<longrightarrow> s ! prefix_loop s l i \<noteq> l ! prefix_loop s l i)"
  using assms
proof (induction s l i rule: prefix_loop.induct)
  case (1 s l i)
  show ?case
  proof (cases "i < min (length s) (length l) \<and> s ! i = l ! i")
    case True
    then have "take (i + 1) s = take (i + 1) l"
      using "1.prems" by (simp add: take_Suc_conv_app_nth)
    with True "1.IH" show ?thesis by (subst (1 2 3 4 5 6 7) prefix_loop.simps) auto
  next
    case False
    with "1.prems" show ?thesis by (subst (1 2 3 4 5 6 7) prefix_loop.simps) auto
  qed
qed

lemmas prefix_loop_0 = prefix_loop_spec [of 0, simplified]

lemma byte_succ_less: "b < 0xff \<Longrightarrow> b < b + 1" for b :: byte
  by (simp add: word_less_nat_alt unat_word_ariths)

lemma lex_append_less: "(p @ x # xs < p @ y # ys) \<longleftrightarrow> (x < y \<or> x = y \<and> xs < ys)"
  for p :: bytes
  by (induction p) auto

lemma separator_shape:
  assumes "Bytewise_FindShortestSeparator s l \<noteq> s"
  obtains p b c sr lr where "s = p @ b # sr" "l = p @ c # lr" "b < 0xff" "b + 1 < c"
    "Bytewise_FindShortestSeparator s l = p @ [b + 1]"
proof -
  let ?i = "prefix_loop s l 0"
  have i: "?i < min (length s) (length l)" "s ! ?i < 0xff"
      "unat (s ! ?i) + 1 < unat (l ! ?i)"
      "Bytewise_FindShortestSeparator s l = take (?i + 1) (s[?i := s ! ?i + 1])"
    using assms by (auto simp: Bytewise_FindShortestSeparator_def Let_def split: if_splits)
  have eq: "take ?i s = take ?i l" using prefix_loop_0 by blast
  show ?thesis
  proof
    show "s = take ?i s @ s ! ?i # drop (Suc ?i) s" using i(1) by (simp add: id_take_nth_drop)
    show "l = take ?i s @ l ! ?i # drop (Suc ?i) l" using i(1) eq by (simp add: id_take_nth_drop)
    show "s ! ?i + 1 < l ! ?i"
      using i(2,3) by (simp add: word_less_nat_alt unat_word_ariths)
    show "Bytewise_FindShortestSeparator s l = take ?i s @ [s ! ?i + 1]"
      using i(1,4) by (simp add: take_Suc_conv_app_nth)
  qed (use i in simp)
qed

lemma separator_bounds:
  assumes "s < l"
  shows "s \<le> Bytewise_FindShortestSeparator s l \<and> Bytewise_FindShortestSeparator s l < l \<and>
    length (Bytewise_FindShortestSeparator s l) \<le> length s"
proof (cases "Bytewise_FindShortestSeparator s l = s")
  case False
  then obtain p b c sr lr where *: "s = p @ b # sr" "l = p @ c # lr" "b < 0xff" "b + 1 < c"
    "Bytewise_FindShortestSeparator s l = p @ [b + 1]" by (rule separator_shape)
  have "s < p @ [b + 1]" using byte_succ_less [OF *(3)] *(1) by (simp add: lex_append_less)
  then show ?thesis using *(1,2,4,5) by (simp add: lex_append_less less_imp_le)
qed (use assms in simp)

lemma successor_loop_bounds:
  "i + left = length key \<Longrightarrow>
    key \<le> successor_loop key left i \<and> length (successor_loop key left i) \<le> length key"
proof (induction left arbitrary: i)
  case (Suc left)
  show ?case
  proof (cases "key ! i = 0xff")
    case False
    have i: "i < length key" using Suc.prems by simp
    have "key ! i < 0xff"
      using False unat_byte_bound [of "key ! i"]
      by (simp add: word_less_nat_alt word_unat_eq_iff nat_less_le)
    then have lt: "key ! i < key ! i + 1" by (rule byte_succ_less)
    have "key = take i key @ key ! i # drop (Suc i) key" using i by (simp add: id_take_nth_drop)
    moreover have "successor_loop key (Suc left) i = take i key @ [key ! i + 1]"
      using False i by (simp add: Let_def take_Suc_conv_app_nth)
    ultimately have "key < successor_loop key (Suc left) i" using lt by (metis lex_append_less)
    then show ?thesis
      using \<open>successor_loop key (Suc left) i = _\<close> i by simp
  next
    case True
    with Suc show ?thesis by (simp add: Let_def)
  qed
qed simp

lemma successor_bounds:
  "key \<le> Bytewise_FindShortSuccessor key \<and> length (Bytewise_FindShortSuccessor key) \<le> length key"
  by (simp add: Bytewise_FindShortSuccessor_def successor_loop_bounds)

lemma separator_same: "Bytewise_FindShortestSeparator s s = s"
  by (rule ccontr) (auto elim!: separator_shape simp: word_less_nat_alt unat_word_ariths)

interpretation bytewise: comparator "\<lambda>_. True" Bytewise_Compare Bytewise_FindShortestSeparator
    Bytewise_FindShortSuccessor
  by unfold_locales (auto simp: separator_bounds successor_bounds separator_same)

section \<open>Properties\<close>

text \<open>The bytewise comparator orders keys lexicographically as unsigned bytes;
  \<^verbatim>\<open>FindShortestSeparator\<close> gives a key no longer than the first that separates every
  key up to it from every key from the second on, and \<^verbatim>\<open>FindShortSuccessor\<close> a key no
  longer than its argument and not before it.\<close>

theorem Bytewise_shortening:
  assumes "Bytewise_Compare s l < 0"
  shows "s < l \<and> length (Bytewise_FindShortestSeparator s l) \<le> length s \<and>
    (\<forall>k. (k \<le> s \<longrightarrow> Bytewise_Compare k (Bytewise_FindShortestSeparator s l) \<le> 0) \<and>
         (l \<le> k \<longrightarrow> Bytewise_Compare (Bytewise_FindShortestSeparator s l) k < 0)) \<and>
    length (Bytewise_FindShortSuccessor s) \<le> length s \<and>
    Bytewise_Compare s (Bytewise_FindShortSuccessor s) \<le> 0"
  using assms separator_bounds [of s l] successor_bounds [of s]
    bytewise.separator_separates [of s l] by simp

theorem Bytewise_shortening_witness:
  "[1, 2, 3 :: byte] < [1, 9] \<and>
    length (Bytewise_FindShortestSeparator [1, 2, 3] [1, 9]) \<le> length [1, 2, 3 :: byte] \<and>
    (\<forall>k. (k \<le> [1, 2, 3] \<longrightarrow> Bytewise_Compare k (Bytewise_FindShortestSeparator [1, 2, 3] [1, 9]) \<le> 0) \<and>
         ([1, 9] \<le> k \<longrightarrow> Bytewise_Compare (Bytewise_FindShortestSeparator [1, 2, 3] [1, 9]) k < 0)) \<and>
    length (Bytewise_FindShortSuccessor [1, 2, 3]) \<le> length [1, 2, 3 :: byte] \<and>
    Bytewise_Compare [1, 2, 3] (Bytewise_FindShortSuccessor [1, 2, 3]) \<le> 0"
  by (rule Bytewise_shortening) simp

end
