(* ===== verification/Random_Gen.thy ===== *)
theory Random_Gen
  imports Prelude
begin

text \<open>
  \<^verbatim>\<open>util/random.h\<close>: the generator that heights in the skip list and the sampling of reads draw from. It
  computes a product modulo \<open>2\<^sup>3\<^sup>1 - 1\<close> by shifting; its seeds never leave the range where it does not get stuck.
\<close>

section \<open>The code\<close>

definition Random_new :: "u32 \<Rightarrow> u32" where
  "Random_new s =
     (let seed = s AND 0x7fffffff in if seed = 0 \<or> seed = 2147483647 then 1 else seed)"

definition Random_Next :: "u32 \<Rightarrow> u32" where
  "Random_Next seed =
     (let product = (ucast seed :: u64) * 16807;
          seed = (ucast (drop_bit 31 product + (product AND 2147483647)) :: u32)
      in if seed > 2147483647 then seed - 2147483647 else seed)"

definition Random_Uniform :: "u32 \<Rightarrow> u32 \<Rightarrow> u32 \<times> u32" where
  "Random_Uniform seed n = (let seed = Random_Next seed in (seed mod n, seed))"

definition Random_OneIn :: "u32 \<Rightarrow> u32 \<Rightarrow> bool \<times> u32" where
  "Random_OneIn seed n = (let seed = Random_Next seed in (seed mod n = 0, seed))"

definition Random_Skewed :: "u32 \<Rightarrow> u32 \<Rightarrow> u32 \<times> u32" where
  "Random_Skewed seed max_log = (let (base, seed) = Random_Uniform seed (max_log + 1) in Random_Uniform seed (push_bit (unat base) 1))"

section \<open>What it computes\<close>

definition seed_ok :: "u32 \<Rightarrow> bool" where
  "seed_ok s \<longleftrightarrow> 0 < unat s \<and> unat s < 2147483647"

lemma Random_new_ok: "seed_ok (Random_new s)"
proof -
  have m: "(0x7fffffff :: u32) = mask 31" by (simp add: mask_eq_exp_minus_1)
  have "unat (s AND mask 31) = take_bit 31 (unat s)" by (simp only: take_bit_eq_mask [symmetric] unsigned_take_bit_eq)
  then have "unat (s AND mask 31) < 2 ^ 31" by (simp only: take_bit_nat_less_exp)
  then have u: "unat (s AND 0x7fffffff) < 2147483648" unfolding m by simp
  have "unat (s AND 0x7fffffff) \<noteq> 0" if "s AND 0x7fffffff \<noteq> 0" using that by (simp add: unsigned_eq_0_iff)
  moreover have "unat (s AND 0x7fffffff) \<noteq> 2147483647" if "s AND 0x7fffffff \<noteq> 2147483647"
    using that by (simp add: word_unat_eq_iff)
  ultimately show ?thesis using u by (auto simp: Random_new_def seed_ok_def Let_def)
qed

lemma not_stuck: "seed_ok s \<Longrightarrow> \<not> (2147483647 :: nat) dvd unat s * 16807"
proof
  assume s: "seed_ok s" and "(2147483647 :: nat) dvd unat s * 16807"
  then have "(2147483647 :: nat) dvd unat s * 16807 * 1407677000" by (simp only: dvd_mult2)
  also have "unat s * 16807 * 1407677000 = unat s + 2147483647 * (unat s * 11017)" by simp
  finally have "(2147483647 :: nat) dvd unat s" by (simp only: dvd_add_left_iff dvd_triv_left)
  then show False using s by (auto simp: seed_ok_def dest: dvd_imp_le)
qed

lemma unat_Random_Next:
  assumes "seed_ok s"
  shows "unat (Random_Next s) = unat s * 16807 mod 2147483647"
proof -
  let ?p = "(ucast s :: u64) * 16807" and ?n = "unat s * 16807"
  have n: "?n < 2147483647 * 16807" using assms by (simp add: seed_ok_def)
  have p: "unat ?p = ?n" using n by (simp add: unat_word_ariths unat_ucast_up)
  have hi: "unat (drop_bit 31 ?p) = ?n div 2147483648" by (simp add: unat_drop_bit_word p)
  have m: "(2147483647 :: u64) = mask 31" by (simp add: mask_eq_exp_minus_1)
  have lo: "unat (?p AND 2147483647) = ?n mod 2147483648"
    unfolding m take_bit_eq_mask [symmetric] unsigned_take_bit_eq p take_bit_nat_def by simp
  let ?q = "?n div 2147483648" and ?r = "?n mod 2147483648"
  have q: "?q < 16807" using n by (simp add: less_mult_imp_div_less)
  have r: "?r < 2147483648" by simp
  have sum: "unat (drop_bit 31 ?p + (?p AND 2147483647)) = ?q + ?r"
    using q r hi lo by (simp add: unat_word_ariths)
  have x: "unat (ucast (drop_bit 31 ?p + (?p AND 2147483647)) :: u32) = ?q + ?r"
    using q r by (simp add: unsigned_ucast_eq sum take_bit_nat_eq_self)
  have e: "?n = ?q * 2147483648 + ?r" by simp
  then have mod: "?n mod 2147483647 = (?q + ?r) mod 2147483647"
  proof -
    have "?q * 2147483648 + ?r = (?q + ?r) + ?q * 2147483647" by simp
    then show ?thesis using e by (metis mod_mult_self1)
  qed
  have nz: "?q + ?r \<noteq> 2147483647"
  proof
    assume "?q + ?r = 2147483647"
    with mod have "?n mod 2147483647 = 0" by simp
    then show False using not_stuck [OF assms] by (simp add: dvd_eq_mod_eq_0)
  qed
  let ?x = "ucast (drop_bit 31 ?p + (?p AND 2147483647)) :: u32"
  have gt: "?x > 2147483647 \<longleftrightarrow> 2147483647 < ?q + ?r" using x by (simp add: word_less_nat_alt)
  show ?thesis
  proof (cases "2147483647 < ?q + ?r")
    case True
    have "(2147483647 :: u32) \<le> ?x" using True x by (simp add: word_le_nat_alt)
    then have "unat (?x - 2147483647) = ?q + ?r - 2147483647" using x by (simp add: unat_sub)
    moreover have "(?q + ?r) mod 2147483647 = ?q + ?r - 2147483647"
    proof -
      have sub: "2147483647 < x + y \<Longrightarrow> x < 16807 \<Longrightarrow> y < 2147483648 \<Longrightarrow> (x + y) mod 2147483647 = x + y - 2147483647" for x y :: nat
        by (simp add: le_mod_geq)
      show ?thesis by (rule sub [OF True q r])
    qed
    ultimately show ?thesis using gt True mod by (simp add: Random_Next_def Let_def)
  next
    case False
    then have "(?q + ?r) mod 2147483647 = ?q + ?r" using nz by simp
    then show ?thesis using gt False mod x by (simp add: Random_Next_def Let_def)
  qed
qed

lemma Random_Next_ok: "seed_ok s \<Longrightarrow> seed_ok (Random_Next s)"
proof -
  assume s: "seed_ok s"
  from not_stuck [OF s] show ?thesis using unat_Random_Next [OF s] by (simp add: seed_ok_def dvd_eq_mod_eq_0)
qed

text \<open>Of two numbers drawn one after the other, at most one is a multiple of \<open>2\<^sup>2\<^sup>1\<close>.\<close>

lemma Random_Next_not_both:
  assumes "seed_ok s" "unat s mod 2097152 = 0"
  shows "unat (Random_Next s) mod 2097152 \<noteq> 0"
proof -
  obtain k where k: "unat s = 2097152 * k" using assms(2) by auto
  have k2: "0 < k" "k < 1024" using assms(1) k by (simp_all add: seed_ok_def)
  let ?q = "k * 16807 div 1024" and ?r = "k * 16807 mod 1024"
  have "unat s * 16807 = ?q * 2147483648 + ?r * 2097152"
  proof -
    have shift: "x = q * 1024 + r \<Longrightarrow> 2097152 * x = q * 2147483648 + r * 2097152" for x q r :: nat by simp
    have "2097152 * (k * 16807) = ?q * 2147483648 + ?r * 2097152" by (rule shift) (simp only: div_mult_mod_eq)
    then show ?thesis unfolding k by (simp only: mult.assoc)
  qed
  also have "\<dots> = (?q + ?r * 2097152) + ?q * 2147483647" by simp
  finally have "unat s * 16807 mod 2147483647 = (?q + ?r * 2097152) mod 2147483647" by (simp only: mod_mult_self1)
  moreover have "?q < 16807" using k2 by (simp add: less_mult_imp_div_less)
  moreover have "?r \<le> 1023" by simp
  ultimately have e: "unat (Random_Next s) = ?q + ?r * 2097152" using unat_Random_Next [OF assms(1)] by simp
  have "0 < ?q" using k2(1) by (simp add: div_greater_zero_iff)
  with \<open>?q < 16807\<close> show ?thesis unfolding e by simp
qed

section \<open>Properties\<close>

text \<open>From every seed that the constructor allows, the generator computes the product with 16807 modulo
  \<open>2\<^sup>3\<^sup>1 - 1\<close> exactly, in spite of the shortcut, and its next seed is again one that is allowed: never 0 and
  never the modulus, where it would be stuck.\<close>

theorem Random_Next_computes:
  "(let seed = (Random_Next ^^ n) (Random_new s) in
    unat (Random_Next seed) = unat seed * 16807 mod (2 ^ 31 - 1) \<and> 0 < unat seed \<and> unat seed < 2 ^ 31 - 1)"
proof -
  have "seed_ok ((Random_Next ^^ n) (Random_new s))" by (induction n) (simp_all add: Random_new_ok Random_Next_ok)
  with unat_Random_Next [OF this] show ?thesis by (simp add: seed_ok_def)
qed

end
