(* ===== verification/Skip_List.thy ===== *)
theory Skip_List
  imports Comparator Random_Gen
begin

text \<open>
  \<^verbatim>\<open>db/skiplist.h\<close>: the ordered table of a
  memtable. Nodes live in a store, a pointer is an index into it and \<open>None\<close> is
  \<^verbatim>\<open>nullptr\<close>; each node has its key and its array of links. The invariant \<open>skip_inv\<close>
  says that the links of every level form the sorted sublist of the nodes of that height.
  The searches follow links, so they are partial functions; under the invariant they return.
\<close>

section \<open>The code\<close>

definition kMaxHeight :: nat where
  "kMaxHeight = 12"

record 'k Node =
  sn_key :: 'k
  sn_next :: "nat option list"

record 'k SkipList =
  sl_nodes :: "'k Node list"
  sl_head :: nat
  sl_max_height :: nat
  sl_rnd :: u32

definition node :: "'k SkipList \<Rightarrow> nat \<Rightarrow> 'k Node" where
  "node s x = sl_nodes s ! x"

definition skip_key :: "'k SkipList \<Rightarrow> nat \<Rightarrow> 'k" where
  "skip_key s x = sn_key (node s x)"

definition skip_next :: "'k SkipList \<Rightarrow> nat \<Rightarrow> nat \<Rightarrow> nat option" where
  "skip_next s x n = sn_next (node s x) ! n"

definition skip_set_next :: "'k SkipList \<Rightarrow> nat \<Rightarrow> nat \<Rightarrow> nat option \<Rightarrow> 'k SkipList" where
  "skip_set_next s x n y =
     s\<lparr>sl_nodes := (sl_nodes s)[x := (node s x)\<lparr>sn_next := (sn_next (node s x))[n := y]\<rparr>]\<rparr>"

text \<open>A new node's links are not initialised; the caller sets them all.\<close>

definition skip_new_node :: "'k SkipList \<Rightarrow> 'k \<Rightarrow> nat \<Rightarrow> nat \<times> 'k SkipList" where
  "skip_new_node s key height =
     (length (sl_nodes s),
      s\<lparr>sl_nodes := sl_nodes s @ [\<lparr>sn_key = key, sn_next = replicate height None\<rparr>]\<rparr>)"

definition SkipList_new :: "'k \<Rightarrow> 'k SkipList" where
  "SkipList_new any_key =
     (let s = \<lparr>sl_nodes = [], sl_head = 0, sl_max_height = 1, sl_rnd = Random_new 0xdeadbeef\<rparr>;
          (head, s) = skip_new_node s any_key kMaxHeight;
          s = s\<lparr>sl_head := head\<rparr>
      in foldl (\<lambda>s i. skip_set_next s (sl_head s) i None) s [0..<kMaxHeight])"

fun RandomHeight_loop :: "nat \<Rightarrow> nat \<Rightarrow> u32 \<Rightarrow> nat \<times> u32" where
  "RandomHeight_loop 0 height rnd = (height, rnd)"
| "RandomHeight_loop (Suc left) height rnd =
     (let rnd = Random_Next rnd in
      if rnd mod 4 = 0 then RandomHeight_loop left (height + 1) rnd else (height, rnd))"

text \<open>The loop runs while \<^verbatim>\<open>height < kMaxHeight\<close>, so at most \<^verbatim>\<open>kMaxHeight - 1\<close> times.\<close>

definition RandomHeight :: "u32 \<Rightarrow> nat \<times> u32" where
  "RandomHeight rnd = RandomHeight_loop (kMaxHeight - 1) 1 rnd"

definition KeyIsAfterNode :: "('k \<Rightarrow> 'k \<Rightarrow> int) \<Rightarrow> 'k SkipList \<Rightarrow> 'k \<Rightarrow> nat option \<Rightarrow> bool" where
  "KeyIsAfterNode cmp s key n =
     (case n of None \<Rightarrow> False | Some n \<Rightarrow> cmp (skip_key s n) key < 0)"

text \<open>\<open>prev\<close> is the array the caller passes; a null pointer is an array nobody reads.\<close>

partial_function (option) FindGreaterOrEqual_loop ::
  "('k \<Rightarrow> 'k \<Rightarrow> int) \<Rightarrow> 'k SkipList \<Rightarrow> 'k \<Rightarrow> nat \<Rightarrow> nat \<Rightarrow> nat list \<Rightarrow> (nat option \<times> nat list) option"
where
  "FindGreaterOrEqual_loop cmp s key x level prev =
     (let next = skip_next s x level in
      if KeyIsAfterNode cmp s key next then FindGreaterOrEqual_loop cmp s key (the next) level prev
      else
        let prev = prev[level := x] in
        if level = 0 then Some (next, prev)
        else FindGreaterOrEqual_loop cmp s key x (level - 1) prev)"

definition FindGreaterOrEqual ::
  "('k \<Rightarrow> 'k \<Rightarrow> int) \<Rightarrow> 'k SkipList \<Rightarrow> 'k \<Rightarrow> nat list \<Rightarrow> (nat option \<times> nat list) option" where
  "FindGreaterOrEqual cmp s key prev =
     FindGreaterOrEqual_loop cmp s key (sl_head s) (sl_max_height s - 1) prev"

partial_function (option) FindLessThan_loop ::
  "('k \<Rightarrow> 'k \<Rightarrow> int) \<Rightarrow> 'k SkipList \<Rightarrow> 'k \<Rightarrow> nat \<Rightarrow> nat \<Rightarrow> nat option" where
  "FindLessThan_loop cmp s key x level =
     (let next = skip_next s x level in
      if next = None \<or> cmp (skip_key s (the next)) key \<ge> 0 then
        if level = 0 then Some x else FindLessThan_loop cmp s key x (level - 1)
      else FindLessThan_loop cmp s key (the next) level)"

definition FindLessThan :: "('k \<Rightarrow> 'k \<Rightarrow> int) \<Rightarrow> 'k SkipList \<Rightarrow> 'k \<Rightarrow> nat option" where
  "FindLessThan cmp s key = FindLessThan_loop cmp s key (sl_head s) (sl_max_height s - 1)"

partial_function (option) FindLast_loop :: "'k SkipList \<Rightarrow> nat \<Rightarrow> nat \<Rightarrow> nat option" where
  "FindLast_loop s x level =
     (case skip_next s x level of
        None \<Rightarrow> if level = 0 then Some x else FindLast_loop s x (level - 1)
      | Some next \<Rightarrow> FindLast_loop s next level)"

definition FindLast :: "'k SkipList \<Rightarrow> nat option" where
  "FindLast s = FindLast_loop s (sl_head s) (sl_max_height s - 1)"

definition skip_link :: "nat \<Rightarrow> nat list \<Rightarrow> 'k SkipList \<Rightarrow> nat \<Rightarrow> 'k SkipList" where
  "skip_link x prev s i =
     (let s = skip_set_next s x i (skip_next s (prev ! i) i) in skip_set_next s (prev ! i) i (Some x))"

text \<open>\<^verbatim>\<open>prev[kMaxHeight]\<close> is not initialised in the code. The search writes the slots below \<^verbatim>\<open>max_height_\<close> and the
  loop the rest of those below \<^verbatim>\<open>height\<close>, so what the slots hold before, here the head, is never read.\<close>

definition skip_Insert :: "('k \<Rightarrow> 'k \<Rightarrow> int) \<Rightarrow> 'k SkipList \<Rightarrow> 'k \<Rightarrow> 'k SkipList option" where
  "skip_Insert cmp s key =
     (case FindGreaterOrEqual cmp s key (replicate kMaxHeight (sl_head s)) of
        None \<Rightarrow> None
      | Some (x, prev) \<Rightarrow>
          let (height, rnd) = RandomHeight (sl_rnd s);
              s = s\<lparr>sl_rnd := rnd\<rparr>;
              grown = height > sl_max_height s;
              prev = (if grown
                      then foldl (\<lambda>p i. p[i := sl_head s]) prev [sl_max_height s..<height] else prev);
              s = (if grown then s\<lparr>sl_max_height := height\<rparr> else s);
              (x, s) = skip_new_node s key height
          in Some (foldl (skip_link x prev) s [0..<height]))"

definition skip_Contains :: "('k \<Rightarrow> 'k \<Rightarrow> int) \<Rightarrow> 'k SkipList \<Rightarrow> 'k \<Rightarrow> bool option" where
  "skip_Contains cmp s key =
     (case FindGreaterOrEqual cmp s key [] of
        None \<Rightarrow> None
      | Some (x, _) \<Rightarrow> Some (case x of None \<Rightarrow> False | Some x \<Rightarrow> cmp key (skip_key s x) = 0))"

text \<open>An iterator is the node it stands on.\<close>

definition skip_iter_Valid :: "nat option \<Rightarrow> bool" where
  "skip_iter_Valid it \<longleftrightarrow> it \<noteq> None"

definition skip_iter_Next :: "'k SkipList \<Rightarrow> nat option \<Rightarrow> nat option" where
  "skip_iter_Next s it = skip_next s (the it) 0"

definition skip_iter_Prev :: "('k \<Rightarrow> 'k \<Rightarrow> int) \<Rightarrow> 'k SkipList \<Rightarrow> nat option \<Rightarrow> nat option option" where
  "skip_iter_Prev cmp s it =
     (case FindLessThan cmp s (skip_key s (the it)) of
        None \<Rightarrow> None | Some x \<Rightarrow> Some (if x = sl_head s then None else Some x))"

definition skip_iter_Seek :: "('k \<Rightarrow> 'k \<Rightarrow> int) \<Rightarrow> 'k SkipList \<Rightarrow> 'k \<Rightarrow> nat option option" where
  "skip_iter_Seek cmp s target = map_option fst (FindGreaterOrEqual cmp s target [])"

definition skip_iter_SeekToFirst :: "'k SkipList \<Rightarrow> nat option" where
  "skip_iter_SeekToFirst s = skip_next s (sl_head s) 0"

definition skip_iter_SeekToLast :: "'k SkipList \<Rightarrow> nat option option" where
  "skip_iter_SeekToLast s =
     (case FindLast s of None \<Rightarrow> None | Some x \<Rightarrow> Some (if x = sl_head s then None else Some x))"

section \<open>Links\<close>

definition skip_height :: "'k SkipList \<Rightarrow> nat \<Rightarrow> nat" where
  "skip_height s x = length (sn_next (node s x))"

text \<open>The nodes that follow \<open>x\<close> on level \<open>l\<close>, and the nodes of a list that reach level \<open>l\<close>.\<close>

fun chain :: "'k SkipList \<Rightarrow> nat \<Rightarrow> nat \<Rightarrow> nat list \<Rightarrow> bool" where
  "chain s l x [] = (skip_next s x l = None)"
| "chain s l x (y # ys) = (skip_next s x l = Some y \<and> chain s l y ys)"

definition at_level :: "'k SkipList \<Rightarrow> nat \<Rightarrow> nat list \<Rightarrow> nat list" where
  "at_level s l ns = filter (\<lambda>n. l < skip_height s n) ns"

lemma at_level_append [simp]: "at_level s l (A @ B) = at_level s l A @ at_level s l B"
  by (simp add: at_level_def)

lemma at_level_simps [simp]:
  "at_level s l [] = []"
  "at_level s l (x # xs) = (if l < skip_height s x then x # at_level s l xs else at_level s l xs)"
  by (simp_all add: at_level_def)

lemma set_at_level: "set (at_level s l ns) = {n \<in> set ns. l < skip_height s n}"
  by (auto simp: at_level_def)

lemma chain_suffix: "chain s l h ys \<Longrightarrow> h # ys = us @ x # vs \<Longrightarrow> chain s l x vs"
proof (induction ys arbitrary: h us)
  case Nil
  then show ?case by (cases us) auto
next
  case (Cons y ys)
  then show ?case by (cases us) auto
qed

lemma chain_cong:
  "(\<And>y. y \<in> set (x # ys) \<Longrightarrow> skip_next s' y l = skip_next s y l) \<Longrightarrow> chain s' l x ys = chain s l x ys"
  by (induction ys arbitrary: x) auto

lemma chain_insert:
  assumes "chain s l h (as @ bs)" and "x \<notin> set (h # as @ bs)" and "distinct (h # as @ bs)"
    and "skip_next s' x l = skip_next s (last (h # as)) l"
    and "skip_next s' (last (h # as)) l = Some x"
    and "\<And>y. y \<noteq> x \<Longrightarrow> y \<noteq> last (h # as) \<Longrightarrow> skip_next s' y l = skip_next s y l"
  shows "chain s' l h (as @ x # bs)"
  using assms
proof (induction as arbitrary: h)
  case Nil
  show ?case
  proof (cases bs)
    case (Cons b bs')
    have "chain s' l b bs' = chain s l b bs'"
    proof (rule chain_cong)
      fix y assume "y \<in> set (b # bs')"
      then have "y \<noteq> x" "y \<noteq> last [h]" using Nil.prems(2,3) Cons by auto
      then show "skip_next s' y l = skip_next s y l" by (rule Nil.prems(6))
    qed
    with Nil Cons show ?thesis by simp
  qed (use Nil in simp)
next
  case (Cons a as)
  have l: "last (h # a # as) = last (a # as)" by simp
  have h: "h \<noteq> last (a # as)" using Cons.prems(3) by (metis append_Cons distinct.simps(2) in_set_conv_decomp l last_in_set list.distinct(1) set_append UnI1)
  have "chain s' l a (as @ x # bs)"
    using Cons.prems by (intro Cons.IH) (simp_all add: l)
  moreover have "skip_next s' h l = Some a" using Cons.prems h by (simp add: l)
  ultimately show ?case by simp
qed

lemma node_set_next:
  "node (skip_set_next s x n y) z =
    (if z = x \<and> x < length (sl_nodes s) then (node s x)\<lparr>sn_next := (sn_next (node s x))[n := y]\<rparr> else node s z)"
  by (auto simp: skip_set_next_def node_def nth_list_update list_update_beyond)

lemma skip_set_next_simps [simp]:
  "length (sl_nodes (skip_set_next s x n y)) = length (sl_nodes s)"
  "skip_key (skip_set_next s x n y) z = skip_key s z"
  "skip_height (skip_set_next s x n y) z = skip_height s z"
  "sl_head (skip_set_next s x n y) = sl_head s"
  "sl_max_height (skip_set_next s x n y) = sl_max_height s"
  by (simp_all add: skip_key_def skip_height_def node_set_next) (simp_all add: skip_set_next_def)

lemma skip_next_set_next:
  "x < length (sl_nodes s) \<Longrightarrow> n < skip_height s x \<Longrightarrow>
    skip_next (skip_set_next s x n y) x' n' = (if x' = x \<and> n' = n then y else skip_next s x' n')"
  by (simp add: skip_next_def node_set_next skip_height_def nth_list_update)

section \<open>The invariant and the searches\<close>

text \<open>The last node of a level before the key, where the search leaves the level.\<close>

definition pred_at :: "'k SkipList \<Rightarrow> nat list \<Rightarrow> nat \<Rightarrow> nat" where
  "pred_at s A l = last (sl_head s # at_level s l A)"

definition first_of :: "'a list \<Rightarrow> 'a option" where
  "first_of xs = (case xs of [] \<Rightarrow> None | x # _ \<Rightarrow> Some x)"

lemma chain_first: "chain s l x ys \<Longrightarrow> skip_next s x l = first_of ys"
  by (cases ys) (simp_all add: first_of_def)

lemma pred_at_lower:
  obtains us vs where "sl_head s # at_level s l A = us @ pred_at s A (Suc l) # vs"
proof -
  have "set (at_level s (Suc l) A) \<subseteq> set (at_level s l A)" by (auto simp: set_at_level)
  then have "set (sl_head s # at_level s (Suc l) A) \<subseteq> set (sl_head s # at_level s l A)" by auto
  then have "pred_at s A (Suc l) \<in> set (sl_head s # at_level s l A)"
    unfolding pred_at_def by (metis last_in_set list.distinct(1) subsetD)
  then show ?thesis using that by (metis split_list)
qed

context comparison
begin

definition skip_inv :: "'k SkipList \<Rightarrow> nat list \<Rightarrow> bool" where
  "skip_inv s ns \<longleftrightarrow>
     sl_head s < length (sl_nodes s) \<and> skip_height s (sl_head s) = kMaxHeight \<and>
     distinct (sl_head s # ns) \<and> 1 \<le> sl_max_height s \<and> sl_max_height s \<le> kMaxHeight \<and>
     (\<forall>n\<in>set ns. n < length (sl_nodes s) \<and> 0 < skip_height s n \<and>
        skip_height s n \<le> sl_max_height s \<and> valid (skip_key s n)) \<and>
     sorted_wrt (\<lambda>a b. Compare (skip_key s a) (skip_key s b) < 0) ns \<and>
     (\<forall>l<kMaxHeight. chain s l (sl_head s) (at_level s l ns))"

text \<open>A sorted list of nodes, cut at a key.\<close>

definition cut :: "'k SkipList \<Rightarrow> 'k \<Rightarrow> nat list \<Rightarrow> nat list \<Rightarrow> bool" where
  "cut s k A B \<longleftrightarrow> (\<forall>a\<in>set A. Compare (skip_key s a) k < 0) \<and> (\<forall>b\<in>set B. \<not> Compare (skip_key s b) k < 0)"

lemma cut_exists:
  assumes "skip_inv s ns" and "valid k"
  obtains A B where "ns = A @ B" "cut s k A B"
proof -
  let ?P = "\<lambda>n. Compare (skip_key s n) k < 0"
  have "\<not> ?P b" if b: "b \<in> set (dropWhile ?P ns)" for b
  proof -
    from b obtain c C where c: "dropWhile ?P ns = c # C" by (rule list.set_cases)
    from c [unfolded dropWhile_eq_Cons_conv]
    have nc: "\<not> ?P c" and ns: "ns = takeWhile ?P ns @ c # C" by blast+
    show ?thesis
    proof (cases "b = c")
      case False
      then have "b \<in> set C" using that c by simp
      moreover have "sorted_wrt (\<lambda>a b. Compare (skip_key s a) (skip_key s b) < 0) (takeWhile ?P ns @ c # C)"
        using assms(1) ns by (simp add: skip_inv_def)
      ultimately have less: "Compare (skip_key s c) (skip_key s b) < 0"
        by (simp add: sorted_wrt_append)
      have "b \<in> set ns" "c \<in> set ns" using \<open>b \<in> set C\<close> by (subst ns, simp)+
      then have v: "valid (skip_key s b)" "valid (skip_key s c)"
        using assms(1) by (simp_all add: skip_inv_def)
      show ?thesis using less_trans' [OF v(2,1) assms(2)] less nc by fastforce
    qed (use nc in simp)
  qed
  moreover have "?P a" if "a \<in> set (takeWhile ?P ns)" for a using set_takeWhileD [OF that] by blast
  ultimately have "cut s k (takeWhile ?P ns) (dropWhile ?P ns)" unfolding cut_def by blast
  from that [OF takeWhile_dropWhile_id [symmetric] this] show ?thesis .
qed

lemma skip_walk:
  assumes "skip_inv s (A @ B)" and "l < kMaxHeight" and "sl_head s # at_level s l A = us @ x # vs"
  shows "skip_next s x l = first_of (vs @ at_level s l B)"
proof -
  have "chain s l (sl_head s) (at_level s l A @ at_level s l B)"
    using assms(1,2) by (simp add: skip_inv_def)
  moreover have "sl_head s # at_level s l A @ at_level s l B = us @ x # vs @ at_level s l B"
    using assms(3) by (metis append_Cons append_assoc)
  ultimately have "chain s l x (vs @ at_level s l B)" by (rule chain_suffix)
  then show ?thesis by (rule chain_first)
qed

lemma walk_cases:
  assumes "skip_inv s (A @ B)" and "cut s k A B" and "l < kMaxHeight"
    and "sl_head s # at_level s l A = us @ x # vs"
  obtains (more) v vs' where "vs = v # vs'" "skip_next s x l = Some v" "Compare (skip_key s v) k < 0"
    | (stop) "vs = []" "x = pred_at s A l" "skip_next s x l = first_of (at_level s l B)"
      "\<And>n. skip_next s x l = Some n \<Longrightarrow> \<not> Compare (skip_key s n) k < 0"
proof (cases vs)
  case Nil
  have "x = pred_at s A l" unfolding pred_at_def using assms(4) Nil by simp
  moreover have n: "skip_next s x l = first_of (at_level s l B)"
    using skip_walk [OF assms(1,3,4)] Nil by simp
  moreover have "\<not> Compare (skip_key s n) k < 0" if "skip_next s x l = Some n" for n
  proof -
    have "n \<in> set (at_level s l B)" using n that by (auto simp: first_of_def split: list.splits)
    then show ?thesis using assms(2) by (simp add: cut_def set_at_level)
  qed
  ultimately show ?thesis using Nil stop by blast
next
  case (Cons v vs')
  have "v \<in> set (at_level s l A)" using assms(4) Cons by (cases us) auto
  then have "Compare (skip_key s v) k < 0" using assms(2) by (simp add: cut_def set_at_level)
  moreover have "skip_next s x l = Some v" using skip_walk [OF assms(1,3,4)] Cons by (simp add: first_of_def)
  ultimately show ?thesis using Cons more by blast
qed

lemma FindGreaterOrEqual_level:
  assumes inv: "skip_inv s (A @ B)" "cut s k A B" "l < kMaxHeight"
  shows "sl_head s # at_level s l A = us @ x # vs \<Longrightarrow>
    FindGreaterOrEqual_loop Compare s k x l prev =
      (if l = 0 then Some (first_of (at_level s 0 B), prev[0 := pred_at s A 0])
       else FindGreaterOrEqual_loop Compare s k (pred_at s A l) (l - 1) (prev[l := pred_at s A l]))"
proof (induction vs arbitrary: us x)
  case Nil
  from inv Nil show ?case
    unfolding FindGreaterOrEqual_loop.simps [of Compare s k x l prev]
    by (cases rule: walk_cases) (auto simp: KeyIsAfterNode_def Let_def split: option.splits)
next
  case (Cons v vs)
  have "sl_head s # at_level s l A = (us @ [x]) @ v # vs" using Cons.prems by simp
  note IH = Cons.IH [OF this]
  from inv Cons.prems show ?case
    unfolding FindGreaterOrEqual_loop.simps [of Compare s k x l prev]
    by (cases rule: walk_cases) (auto simp: KeyIsAfterNode_def IH)
qed

lemma FindGreaterOrEqual_levels:
  assumes inv: "skip_inv s (A @ B)" "cut s k A B"
  shows "l < kMaxHeight \<Longrightarrow> sl_head s # at_level s l A = us @ x # vs \<Longrightarrow>
    \<exists>prev'. FindGreaterOrEqual_loop Compare s k x l prev = Some (first_of (at_level s 0 B), prev') \<and>
      length prev' = length prev \<and>
      (\<forall>i<length prev. prev' ! i = (if i \<le> l then pred_at s A i else prev ! i))"
proof (induction l arbitrary: us x vs prev)
  case 0
  then show ?case
    using FindGreaterOrEqual_level [OF inv 0] by (auto simp: nth_list_update)
next
  case (Suc l)
  obtain us' vs' where "sl_head s # at_level s l A = us' @ pred_at s A (Suc l) # vs'"
    by (rule pred_at_lower)
  from Suc.IH [OF _ this, of "prev[Suc l := pred_at s A (Suc l)]"] Suc.prems(1)
  obtain prev' where "FindGreaterOrEqual_loop Compare s k (pred_at s A (Suc l)) l
        (prev[Suc l := pred_at s A (Suc l)]) = Some (first_of (at_level s 0 B), prev')"
      "length prev' = length prev"
      "\<forall>i<length prev. prev' ! i = (if i \<le> l then pred_at s A i else prev[Suc l := pred_at s A (Suc l)] ! i)"
    by auto
  then show ?case
    using FindGreaterOrEqual_level [OF inv Suc.prems]
    by (auto simp: nth_list_update le_Suc_eq)
qed

lemma at_level_0: "skip_inv s (A @ B) \<Longrightarrow> at_level s 0 A = A \<and> at_level s 0 B = B"
  by (auto simp: skip_inv_def at_level_def intro!: filter_True)

lemma FindGreaterOrEqual_spec:
  assumes inv: "skip_inv s (A @ B)" "cut s k A B"
  shows "\<exists>prev'. FindGreaterOrEqual Compare s k prev = Some (first_of B, prev') \<and>
      length prev' = length prev \<and>
      (\<forall>i<length prev. prev' ! i = (if i < sl_max_height s then pred_at s A i else prev ! i))"
proof -
  have m: "sl_max_height s - 1 < kMaxHeight" "1 \<le> sl_max_height s" using inv(1) by (auto simp: skip_inv_def)
  have "i \<le> sl_max_height s - 1 \<longleftrightarrow> i < sl_max_height s" for i using m(2) by auto
  with FindGreaterOrEqual_levels [OF inv m(1), of "[]"] at_level_0 [OF inv(1)] show ?thesis
    by (simp add: FindGreaterOrEqual_def)
qed

lemma FindLessThan_levels:
  assumes inv: "skip_inv s (A @ B)" "cut s k A B"
  shows "l < kMaxHeight \<Longrightarrow> sl_head s # at_level s l A = us @ x # vs \<Longrightarrow>
    FindLessThan_loop Compare s k x l = Some (pred_at s A 0)"
proof (induction l arbitrary: us x vs)
  case 0
  then show ?case
  proof (induction vs arbitrary: us x)
    case Nil
    from inv Nil show ?case
      unfolding FindLessThan_loop.simps [of Compare s k x 0]
      by (cases rule: walk_cases) (auto simp: Let_def)
  next
    case (Cons v vs)
    have "sl_head s # at_level s 0 A = (us @ [x]) @ v # vs" using Cons.prems by simp
    note IH = Cons.IH [OF Cons.prems(1) this]
    from inv Cons.prems show ?case
      unfolding FindLessThan_loop.simps [of Compare s k x 0]
      by (cases rule: walk_cases) (auto simp: Let_def IH)
  qed
next
  case (Suc l)
  obtain us' vs' where low: "sl_head s # at_level s l A = us' @ pred_at s A (Suc l) # vs'"
    by (rule pred_at_lower)
  have down: "FindLessThan_loop Compare s k (pred_at s A (Suc l)) l = Some (pred_at s A 0)"
    using Suc.IH [OF _ low] Suc.prems(1) by simp
  from Suc.prems show ?case
  proof (induction vs arbitrary: us x)
    case Nil
    from inv Nil show ?case
      unfolding FindLessThan_loop.simps [of Compare s k x "Suc l"]
      by (cases rule: walk_cases) (use down in \<open>auto simp: Let_def\<close>)
  next
    case (Cons v vs)
    have "sl_head s # at_level s (Suc l) A = (us @ [x]) @ v # vs" using Cons.prems by simp
    note IH = Cons.IH [OF Cons.prems(1) this]
    from inv Cons.prems show ?case
      unfolding FindLessThan_loop.simps [of Compare s k x "Suc l"]
      by (cases rule: walk_cases) (auto simp: Let_def IH)
  qed
qed

lemma FindLessThan_spec:
  assumes inv: "skip_inv s (A @ B)" "cut s k A B"
  shows "FindLessThan Compare s k = Some (last (sl_head s # A))"
proof -
  have "sl_max_height s - 1 < kMaxHeight" using inv(1) by (auto simp: skip_inv_def)
  from FindLessThan_levels [OF inv this, of "[]"] at_level_0 [OF inv(1)] show ?thesis
    by (simp add: FindLessThan_def pred_at_def)
qed

lemma FindLast_levels:
  assumes inv: "skip_inv s ns"
  shows "l < kMaxHeight \<Longrightarrow> sl_head s # at_level s l ns = us @ x # vs \<Longrightarrow>
    FindLast_loop s x l = Some (pred_at s ns 0)"
proof (induction l arbitrary: us x vs)
  case 0
  note next0 = skip_walk [of s ns "[]", simplified, OF inv 0(1)]
  from 0 show ?case
  proof (induction vs arbitrary: us x)
    case Nil
    with next0 [OF Nil(2)] show ?case
      by (simp add: FindLast_loop.simps [of s x] pred_at_def first_of_def)
  next
    case (Cons v vs)
    have "sl_head s # at_level s 0 ns = (us @ [x]) @ v # vs" using Cons.prems by simp
    with Cons.IH [OF Cons.prems(1) this] next0 [OF Cons.prems(2)] show ?case
      by (simp add: FindLast_loop.simps [of s x] first_of_def)
  qed
next
  case (Suc l)
  obtain us' vs' where low: "sl_head s # at_level s l ns = us' @ pred_at s ns (Suc l) # vs'"
    by (rule pred_at_lower)
  have down: "FindLast_loop s (pred_at s ns (Suc l)) l = Some (pred_at s ns 0)"
    using Suc.IH [OF _ low] Suc.prems(1) by simp
  note next1 = skip_walk [of s ns "[]", simplified, OF inv Suc.prems(1)]
  from Suc.prems show ?case
  proof (induction vs arbitrary: us x)
    case Nil
    then have "x = pred_at s ns (Suc l)" by (simp add: pred_at_def)
    with next1 [OF Nil(2)] down show ?case
      unfolding FindLast_loop.simps [of s x "Suc l"] by (simp add: first_of_def)
  next
    case (Cons v vs)
    have "sl_head s # at_level s (Suc l) ns = (us @ [x]) @ v # vs" using Cons.prems by simp
    with Cons.IH [OF Cons.prems(1) this] next1 [OF Cons.prems(2)] show ?case
      by (simp add: FindLast_loop.simps [of s x] first_of_def)
  qed
qed

lemma FindLast_spec:
  assumes inv: "skip_inv s ns"
  shows "FindLast s = Some (last (sl_head s # ns))"
proof -
  have "sl_max_height s - 1 < kMaxHeight" using inv by (auto simp: skip_inv_def)
  from FindLast_levels [OF inv this, of "[]"] at_level_0 [of s ns "[]"] inv show ?thesis
    by (simp add: FindLast_def pred_at_def)
qed

end

section \<open>Insertion\<close>

lemma RandomHeight_loop_bounds:
  "fst (RandomHeight_loop left h rnd) \<le> h + left \<and> h \<le> fst (RandomHeight_loop left h rnd)"
  by (induction left h rnd rule: RandomHeight_loop.induct) (auto simp: Let_def Suc_le_eq less_imp_le)

lemma RandomHeight_bounds:
  "RandomHeight rnd = (h, rnd') \<Longrightarrow> 1 \<le> h \<and> h \<le> kMaxHeight"
  using RandomHeight_loop_bounds [of "kMaxHeight - 1" 1 rnd] by (simp add: RandomHeight_def kMaxHeight_def)

lemma foldl_update_nth:
  "j < length p \<Longrightarrow> (foldl (\<lambda>p i. p[i := v]) p is) ! j = (if j \<in> set is then v else p ! j)"
  "length (foldl (\<lambda>p i. p[i := v]) p is) = length p"
  by (induction "is" arbitrary: p) (auto simp: nth_list_update)

text \<open>Linking the new node \<open>x\<close> in, level by level: after the levels below \<open>j\<close> are done,
  their chains hold \<open>x\<close> and the others are unchanged.\<close>

lemma skip_link_simps [simp]:
  "length (sl_nodes (skip_link x prev s i)) = length (sl_nodes s)"
  "skip_key (skip_link x prev s i) z = skip_key s z"
  "skip_height (skip_link x prev s i) z = skip_height s z"
  "sl_head (skip_link x prev s i) = sl_head s"
  "sl_max_height (skip_link x prev s i) = sl_max_height s"
  by (simp_all add: skip_link_def)

lemma at_level_link [simp]: "at_level (skip_link x prev s i) l ns = at_level s l ns"
  by (simp add: at_level_def)

lemma skip_next_link:
  assumes "x < length (sl_nodes s)" "i < skip_height s x" "prev ! i < length (sl_nodes s)"
    "i < skip_height s (prev ! i)" "prev ! i \<noteq> x"
  shows "skip_next (skip_link x prev s i) y l =
    (if l \<noteq> i then skip_next s y l
     else if y = x then skip_next s (prev ! i) i else if y = prev ! i then Some x else skip_next s y l)"
  using assms by (auto simp: skip_link_def skip_next_set_next)

lemma link_levels:
  assumes x: "x < length (sl_nodes s)" "x \<notin> set (sl_head s # A @ B)" "distinct (sl_head s # A @ B)"
    and nodes: "\<forall>n\<in>set (sl_head s # A @ B). n < length (sl_nodes s)"
    and head: "skip_height s (sl_head s) = kMaxHeight"
    and chains: "\<forall>l<kMaxHeight. chain s l (sl_head s) (at_level s l (A @ B))"
    and prev: "\<forall>i < skip_height s x. prev ! i = pred_at s A i"
    and hx: "skip_height s x \<le> kMaxHeight"
  shows "j \<le> skip_height s x \<Longrightarrow>
    (let s' = foldl (skip_link x prev) s [0..<j] in
      length (sl_nodes s') = length (sl_nodes s) \<and> sl_head s' = sl_head s \<and>
      sl_max_height s' = sl_max_height s \<and>
      (\<forall>n. skip_key s' n = skip_key s n \<and> skip_height s' n = skip_height s n) \<and>
      (\<forall>l<kMaxHeight. chain s' l (sl_head s)
        (at_level s l A @ (if l < j then x # at_level s l B else at_level s l B))))"
proof (induction j)
  case 0
  then show ?case using chains by simp
next
  case (Suc j)
  define s1 where "s1 = foldl (skip_link x prev) s [0..<j]"
  from Suc have IH: "length (sl_nodes s1) = length (sl_nodes s)" "sl_head s1 = sl_head s"
      "sl_max_height s1 = sl_max_height s" "\<And>n. skip_key s1 n = skip_key s n"
      "\<And>n. skip_height s1 n = skip_height s n"
      "\<And>l. l < kMaxHeight \<Longrightarrow> chain s1 l (sl_head s)
        (at_level s l A @ (if l < j then x # at_level s l B else at_level s l B))"
    by (simp_all add: s1_def Let_def)
  let ?p = "pred_at s A j"
  have p: "prev ! j = ?p" using prev Suc.prems by simp
  have jx: "j < skip_height s x" "j < kMaxHeight" using Suc.prems hx by simp_all
  have pin: "?p \<in> set (sl_head s # at_level s j A)"
    unfolding pred_at_def by (rule last_in_set) simp
  then have p_ok: "?p \<in> set (sl_head s # A @ B)" "j < skip_height s ?p"
    using jx(2) head by (auto simp: set_at_level)
  then have ne: "?p \<noteq> x" "?p < length (sl_nodes s)" using x(2) nodes by auto
  have next': "skip_next (skip_link x prev s1 j) y l =
      (if l \<noteq> j then skip_next s1 y l
       else if y = x then skip_next s1 ?p j else if y = ?p then Some x else skip_next s1 y l)" for y l
    using skip_next_link [of x s1 j prev y l] x(1) jx(1) p p_ok(2) ne IH by simp
  have "chain (skip_link x prev s1 j) l (sl_head s)
        (at_level s l A @ (if l < Suc j then x # at_level s l B else at_level s l B))" if l: "l < kMaxHeight" for l
  proof (cases "l = j")
    case False
    have "chain (skip_link x prev s1 j) l (sl_head s) ys = chain s1 l (sl_head s) ys" for ys
      by (rule chain_cong) (simp add: next' False)
    with IH(6) [OF l] False show ?thesis by (auto simp: less_Suc_eq)
  next
    case True
    have "chain (skip_link x prev s1 j) j (sl_head s) (at_level s j A @ x # at_level s j B)"
    proof (rule chain_insert)
      show "chain s1 j (sl_head s) (at_level s j A @ at_level s j B)" using IH(6) [OF jx(2)] by simp
      show "x \<notin> set (sl_head s # at_level s j A @ at_level s j B)" using x(2) by (auto simp: set_at_level)
      show "distinct (sl_head s # at_level s j A @ at_level s j B)"
        using x(3) by (auto simp: set_at_level at_level_def)
    qed (simp_all only: next' flip: pred_at_def, simp_all add: ne)
    with True show ?thesis by simp
  qed
  with IH show ?case by (simp add: s1_def [symmetric] Let_def)
qed

lemma skip_new_node_simps:
  assumes "skip_new_node s k h = (x, s')"
  shows "x = length (sl_nodes s)" "length (sl_nodes s') = Suc (length (sl_nodes s))"
    "skip_key s' x = k" "skip_height s' x = h"
    "sl_head s' = sl_head s" "sl_max_height s' = sl_max_height s"
    "y < length (sl_nodes s) \<Longrightarrow> skip_key s' y = skip_key s y"
    "y < length (sl_nodes s) \<Longrightarrow> skip_height s' y = skip_height s y"
    "y < length (sl_nodes s) \<Longrightarrow> skip_next s' y l = skip_next s y l"
  using assms by (auto simp: skip_new_node_def skip_key_def skip_height_def skip_next_def node_def nth_append)

lemma clear_links:
  "sl_nodes s = [\<lparr>sn_key = k0, sn_next = replicate h None\<rparr>] \<Longrightarrow> sl_head s = 0 \<Longrightarrow>
    foldl (\<lambda>s i. skip_set_next s (sl_head s) i None) s is = s"
proof (induction "is")
  case (Cons i "is")
  have "(replicate h None)[i := None] = replicate h (None :: nat option)"
    by (cases "i < h") (simp_all add: list_update_same_conv list_update_beyond)
  then have "skip_set_next s (sl_head s) i None = s"
    using Cons.prems by (simp add: skip_set_next_def node_def)
  with Cons show ?case by simp
qed simp

lemma SkipList_new_eq:
  "SkipList_new k0 = \<lparr>sl_nodes = [\<lparr>sn_key = k0, sn_next = replicate kMaxHeight None\<rparr>], sl_head = 0,
    sl_max_height = 1, sl_rnd = Random_new 0xdeadbeef\<rparr>"
  unfolding SkipList_new_def skip_new_node_def Let_def prod.case
  by (subst clear_links [of _ k0 kMaxHeight]) simp_all

context comparison
begin

text \<open>The list of the keys in the table.\<close>

definition skip_abs :: "'k SkipList \<Rightarrow> 'k list \<Rightarrow> bool" where
  "skip_abs s ks \<longleftrightarrow> (\<exists>ns. skip_inv s ns \<and> map (skip_key s) ns = ks)"

lemma skip_inv_new: "skip_inv (SkipList_new k0) []"
  by (simp add: skip_inv_def SkipList_new_eq node_def kMaxHeight_def skip_height_def skip_next_def)

lemma skip_Insert_inv:
  assumes inv: "skip_inv s (A @ B)" "cut s k A B" and k: "valid k"
    and new: "\<forall>n\<in>set (A @ B). Compare (skip_key s n) k \<noteq> 0"
  obtains s' x where "skip_Insert Compare s k = Some s'" "skip_inv s' (A @ x # B)" "skip_key s' x = k"
    "\<forall>n\<in>set (A @ B). skip_key s' n = skip_key s n"
proof -
  let ?h0 = "sl_head s"
  obtain prev where find: "FindGreaterOrEqual Compare s k (replicate kMaxHeight ?h0) = Some (first_of B, prev)"
      and prev: "length prev = kMaxHeight" "\<And>i. i < kMaxHeight \<Longrightarrow> prev ! i = (if i < sl_max_height s then pred_at s A i else ?h0)"
    using FindGreaterOrEqual_spec [OF inv, of "replicate kMaxHeight ?h0"] by auto
  obtain h rnd where rnd: "RandomHeight (sl_rnd s) = (h, rnd)" by (cases "RandomHeight (sl_rnd s)")
  note hb = RandomHeight_bounds [OF rnd]
  define prev1 where "prev1 = (if h > sl_max_height s
      then foldl (\<lambda>p i. p[i := ?h0]) prev [sl_max_height s..<h] else prev)"
  define s1 where "s1 = (if h > sl_max_height s then s\<lparr>sl_rnd := rnd, sl_max_height := h\<rparr> else s\<lparr>sl_rnd := rnd\<rparr>)"
  obtain x s2 where nn: "skip_new_node s1 k h = (x, s2)" by (cases "skip_new_node s1 k h")
  note n2 = skip_new_node_simps [OF nn]
  define s3 where "s3 = foldl (skip_link x prev1) s2 [0..<h]"
  have ins: "skip_Insert Compare s k = Some s3"
  proof -
    have "s1 = (if h > sl_max_height s then (s\<lparr>sl_rnd := rnd\<rparr>)\<lparr>sl_max_height := h\<rparr> else s\<lparr>sl_rnd := rnd\<rparr>)"
      by (simp add: s1_def)
    with nn show ?thesis by (simp add: skip_Insert_def find rnd Let_def s3_def prev1_def)
  qed
  have s1: "sl_nodes s1 = sl_nodes s" "sl_head s1 = ?h0" "sl_max_height s1 = max (sl_max_height s) h"
    by (simp_all add: s1_def)
  then have s1k: "skip_key s1 = skip_key s" "skip_height s1 = skip_height s" "skip_next s1 = skip_next s"
    by (simp_all add: fun_eq_iff skip_key_def skip_height_def skip_next_def node_def)
  from inv(1) have I: "?h0 < length (sl_nodes s)" "skip_height s ?h0 = kMaxHeight" "distinct (?h0 # A @ B)"
      "1 \<le> sl_max_height s" "sl_max_height s \<le> kMaxHeight"
      "\<And>n. n \<in> set (A @ B) \<Longrightarrow> n < length (sl_nodes s) \<and> 0 < skip_height s n \<and>
        skip_height s n \<le> sl_max_height s \<and> valid (skip_key s n)"
      "sorted_wrt (\<lambda>a b. Compare (skip_key s a) (skip_key s b) < 0) (A @ B)"
      "\<And>l. l < kMaxHeight \<Longrightarrow> chain s l ?h0 (at_level s l (A @ B))"
    by (simp_all add: skip_inv_def)
  have old: "n < length (sl_nodes s)" if "n \<in> set (?h0 # A @ B)" for n using that I(1,6) by auto
  have lev: "at_level s2 l C = at_level s l C" if "set C \<subseteq> set (A @ B)" for l C
  proof -
    have "skip_height s2 n = skip_height s n" if "n \<in> set C" for n
      using n2(8) [of n] old [of n] that \<open>set C \<subseteq> _\<close> s1 s1k by auto
    then show ?thesis unfolding at_level_def by (auto intro: filter_cong)
  qed
  have pred: "pred_at s2 A i = pred_at s A i" for i using lev [of A] n2(5) s1 by (simp add: pred_at_def)
  have prev1: "prev1 ! i = pred_at s2 A i" if "i < h" for i
  proof (cases "i < sl_max_height s")
    case True
    then show ?thesis using prev that hb foldl_update_nth(1) [of i prev]
      by (auto simp: prev1_def pred)
  next
    case False
    have "at_level s i A = []" using I(6) False by (force simp: at_level_def filter_empty_conv)
    then have "pred_at s2 A i = ?h0" unfolding pred by (simp add: pred_at_def)
    moreover have "prev1 ! i = ?h0"
      using False that hb prev by (simp add: prev1_def foldl_update_nth)
    ultimately show ?thesis by simp
  qed
  have "let s' = foldl (skip_link x prev1) s2 [0..<h] in
      length (sl_nodes s') = length (sl_nodes s2) \<and> sl_head s' = sl_head s2 \<and>
      sl_max_height s' = sl_max_height s2 \<and>
      (\<forall>n. skip_key s' n = skip_key s2 n \<and> skip_height s' n = skip_height s2 n) \<and>
      (\<forall>l<kMaxHeight. chain s' l (sl_head s2)
        (at_level s2 l A @ (if l < h then x # at_level s2 l B else at_level s2 l B)))"
  proof (rule link_levels)
    show "x < length (sl_nodes s2)" using n2 by simp
    show "x \<notin> set (sl_head s2 # A @ B)" using n2(1,5) s1 old by fastforce
    show "distinct (sl_head s2 # A @ B)" using n2(5) s1 I(3) by simp
    show "\<forall>n\<in>set (sl_head s2 # A @ B). n < length (sl_nodes s2)" using n2(2,5) s1 old by fastforce
    show "skip_height s2 (sl_head s2) = kMaxHeight" using n2(5) n2(8) [of ?h0] s1 s1k I(1,2) by simp
    show "\<forall>l<kMaxHeight. chain s2 l (sl_head s2) (at_level s2 l (A @ B))"
    proof (intro allI impI)
      fix l assume l: "l < kMaxHeight"
      have "chain s2 l ?h0 (at_level s l (A @ B)) = chain s l ?h0 (at_level s l (A @ B))"
      proof (rule chain_cong)
        fix y assume "y \<in> set (?h0 # at_level s l (A @ B))"
        then have "y < length (sl_nodes s1)" using old s1 by (auto simp: set_at_level)
        from n2(9) [OF this] show "skip_next s2 y l = skip_next s y l" by (simp add: s1k)
      qed
      with I(8) [OF l] show "chain s2 l (sl_head s2) (at_level s2 l (A @ B))"
        using n2(5) s1 lev [of "A @ B" l] by simp
    qed
    show "\<forall>i < skip_height s2 x. prev1 ! i = pred_at s2 A i" using prev1 n2(4) by simp
    show "skip_height s2 x \<le> kMaxHeight" "h \<le> skip_height s2 x" using n2(4) hb by simp_all
  qed
  then have L: "length (sl_nodes s3) = length (sl_nodes s2)" "sl_head s3 = sl_head s2"
      "sl_max_height s3 = sl_max_height s2" "\<And>n. skip_key s3 n = skip_key s2 n"
      "\<And>n. skip_height s3 n = skip_height s2 n"
      "\<And>l. l < kMaxHeight \<Longrightarrow> chain s3 l (sl_head s2)
        (at_level s2 l A @ (if l < h then x # at_level s2 l B else at_level s2 l B))"
    by (simp_all add: s3_def [symmetric] Let_def)
  have keys: "skip_key s3 n = skip_key s n" "skip_height s3 n = skip_height s n" if "n \<in> set (A @ B)" for n
    using L(4,5) n2(7,8) [of n] old [of n] that s1 s1k by simp_all
  have kx: "skip_key s3 x = k" "skip_height s3 x = h" using L(4,5) n2(3,4) by simp_all
  have lev3: "at_level s3 l C = at_level s2 l C" for l C by (simp add: at_level_def L(5))
  have less: "Compare (skip_key s a) k < 0" if "a \<in> set A" for a using inv(2) that by (simp add: cut_def)
  have greater: "Compare k (skip_key s b) < 0" if "b \<in> set B" for b
  proof -
    have "\<not> Compare (skip_key s b) k < 0" "Compare (skip_key s b) k \<noteq> 0"
      using inv(2) that new by (simp_all add: cut_def)
    then show ?thesis using antisym [of k "skip_key s b"] k I(6) [of b] that by simp
  qed
  have "skip_inv s3 (A @ x # B)"
    unfolding skip_inv_def
  proof (intro conjI)
    show "sl_head s3 < length (sl_nodes s3)" using L(1,2) n2(2,5) s1 I(1) by simp
    show "skip_height s3 (sl_head s3) = kMaxHeight"
      using L(2,5) n2(5) n2(8) [of ?h0] s1 s1k I(1,2) by simp
    have "x \<notin> set (?h0 # A @ B)" using n2(1) s1 old by fastforce
    then show "distinct (sl_head s3 # A @ x # B)" using L(2) n2(5) s1 I(3) by auto
    show "1 \<le> sl_max_height s3" "sl_max_height s3 \<le> kMaxHeight" using L(3) n2(6) s1 I(4,5) hb by auto
    show "\<forall>n\<in>set (A @ x # B). n < length (sl_nodes s3) \<and> 0 < skip_height s3 n \<and>
        skip_height s3 n \<le> sl_max_height s3 \<and> valid (skip_key s3 n)"
    proof
      fix n assume "n \<in> set (A @ x # B)"
      then consider "n = x" | "n \<in> set (A @ B)" by auto
      then show "n < length (sl_nodes s3) \<and> 0 < skip_height s3 n \<and>
          skip_height s3 n \<le> sl_max_height s3 \<and> valid (skip_key s3 n)"
      proof cases
        case 1
        then show ?thesis using kx k hb L(1,3) n2(1,2,6) s1 by simp
      next
        case 2
        then show ?thesis using I(6) [OF 2] keys [OF 2] L(1,3) n2(2,6) s1 by (auto simp: max_def)
      qed
    qed
    show "sorted_wrt (\<lambda>a b. Compare (skip_key s3 a) (skip_key s3 b) < 0) (A @ x # B)"
    proof -
      have "sorted_wrt (\<lambda>a b. Compare (skip_key s3 a) (skip_key s3 b) < 0) (A @ B)"
        using sorted_wrt_mono_rel [OF _ I(7)] keys by simp
      then show ?thesis using less greater keys kx(1) by (auto simp: sorted_wrt_append)
    qed
    show "\<forall>l<kMaxHeight. chain s3 l (sl_head s3) (at_level s3 l (A @ x # B))"
    proof (intro allI impI)
      fix l assume "l < kMaxHeight"
      from L(6) [OF this] show "chain s3 l (sl_head s3) (at_level s3 l (A @ x # B))"
        by (simp only: lev3 [symmetric] L(2) at_level_append at_level_simps kx(2))
    qed
  qed
  then show ?thesis using that [OF ins _ kx(1)] keys by blast
qed

lemma cut_takeWhile:
  assumes "cut s k A B"
  shows "takeWhile (\<lambda>x. Compare x k < 0) (map (skip_key s) (A @ B)) = map (skip_key s) A"
    and "dropWhile (\<lambda>x. Compare x k < 0) (map (skip_key s) (A @ B)) = map (skip_key s) B"
proof -
  have 1: "\<forall>x\<in>set (map (skip_key s) A). Compare x k < 0" using assms by (simp add: cut_def)
  have 2: "\<forall>x\<in>set (map (skip_key s) B). \<not> Compare x k < 0" using assms by (simp add: cut_def)
  show "takeWhile (\<lambda>x. Compare x k < 0) (map (skip_key s) (A @ B)) = map (skip_key s) A"
    unfolding map_append by (rule while_split(1) [OF 1 2])
  show "dropWhile (\<lambda>x. Compare x k < 0) (map (skip_key s) (A @ B)) = map (skip_key s) B"
    unfolding map_append by (rule while_split(2) [OF 1 2])
qed

lemma skip_Contains_spec:
  assumes "skip_abs s ks" and "valid k"
  shows "skip_Contains Compare s k = Some (\<exists>x\<in>set ks. Compare k x = 0)"
proof -
  from assms(1) obtain ns where ns: "skip_inv s ns" "map (skip_key s) ns = ks" by (auto simp: skip_abs_def)
  obtain A B where AB: "ns = A @ B" "cut s k A B" by (rule cut_exists [OF ns(1) assms(2)])
  have v: "valid (skip_key s n)" if "n \<in> set ns" for n using ns(1) that by (simp add: skip_inv_def)
  have srt: "sorted_wrt (\<lambda>a b. Compare (skip_key s a) (skip_key s b) < 0) (A @ B)"
    using ns(1) AB(1) by (simp add: skip_inv_def)
  have noA: "Compare k (skip_key s a) \<noteq> 0" if "a \<in> set A" for a
    using AB that v eq_sym [OF assms(2), of "skip_key s a"] by (auto simp: cut_def)
  show ?thesis
  proof (cases B)
    case Nil
    then show ?thesis
      using FindGreaterOrEqual_spec [OF ns(1) [unfolded AB(1)] AB(2), of "[]"] noA ns(2) AB(1)
      by (auto simp: skip_Contains_def first_of_def)
  next
    case (Cons b B')
    have vb: "valid (skip_key s b)" using v Cons AB(1) by simp
    have rest: "Compare k (skip_key s n) \<noteq> 0" if "n \<in> set B'" for n
    proof -
      have lt: "Compare (skip_key s b) (skip_key s n) < 0" using srt that Cons by (simp add: sorted_wrt_append)
      have vn: "valid (skip_key s n)" using v that Cons AB(1) by simp
      have "Compare k (skip_key s b) \<le> 0"
        using AB(2) Cons le_or_ge [OF assms(2) vb] antisym [OF vb assms(2)] by (fastforce simp: cut_def)
      from less_trans' [OF assms(2) vb vn this lt] show ?thesis by simp
    qed
    then have "(\<exists>x\<in>set ks. Compare k x = 0) \<longleftrightarrow> Compare k (skip_key s b) = 0"
      using noA ns(2) AB(1) Cons by auto
    then show ?thesis
      using FindGreaterOrEqual_spec [OF ns(1) [unfolded AB(1)] AB(2), of "[]"] Cons
      by (auto simp: skip_Contains_def first_of_def)
  qed
qed

end

section \<open>The interface of an ordered table\<close>

text \<open>What a memtable needs: insertion of a key that is not there, and the first key at or
  after a target. \<open>holds s ks\<close> says that \<open>ks\<close> are the keys of \<open>s\<close>, in order.\<close>

locale ordered_table = comparison valid Compare
  for valid :: "'k \<Rightarrow> bool" and Compare :: "'k \<Rightarrow> 'k \<Rightarrow> int" +
  fixes holds :: "'s \<Rightarrow> 'k list \<Rightarrow> bool"
    and insert_key :: "'s \<Rightarrow> 'k \<Rightarrow> 's option"
    and seek :: "'s \<Rightarrow> 'k \<Rightarrow> 'i option option"
    and key_at :: "'s \<Rightarrow> 'i \<Rightarrow> 'k"
  assumes holds_sorted: "holds s ks \<Longrightarrow>
      sorted_wrt (\<lambda>a b. Compare a b < 0) ks \<and> (\<forall>k\<in>set ks. valid k)"
    and insert_holds: "holds s ks \<Longrightarrow> valid k \<Longrightarrow> \<forall>x\<in>set ks. Compare x k \<noteq> 0 \<Longrightarrow>
      \<exists>s'. insert_key s k = Some s' \<and>
        holds s' (takeWhile (\<lambda>x. Compare x k < 0) ks @ k # dropWhile (\<lambda>x. Compare x k < 0) ks)"
    and seek_holds: "holds s ks \<Longrightarrow> valid k \<Longrightarrow>
      \<exists>it. seek s k = Some it \<and>
        map_option (key_at s) it = first_of (dropWhile (\<lambda>x. Compare x k < 0) ks)"
begin

lemma insert_set:
  assumes "holds s ks" "valid k" "\<forall>x\<in>set ks. Compare x k \<noteq> 0"
  obtains s' ks' where "insert_key s k = Some s'" "holds s' ks'" "set ks' = insert k (set ks)"
proof -
  obtain s' where s': "insert_key s k = Some s'"
      "holds s' (takeWhile (\<lambda>x. Compare x k < 0) ks @ k # dropWhile (\<lambda>x. Compare x k < 0) ks)"
    using insert_holds [OF assms] by blast
  have "set (takeWhile (\<lambda>x. Compare x k < 0) ks) \<union> set (dropWhile (\<lambda>x. Compare x k < 0) ks) = set ks"
    by (metis set_append takeWhile_dropWhile_id)
  then have "set (takeWhile (\<lambda>x. Compare x k < 0) ks @ k # dropWhile (\<lambda>x. Compare x k < 0) ks) = insert k (set ks)"
    by auto
  with s' show ?thesis by (rule that)
qed

text \<open>Seeking finds the least key that is not before the target.\<close>

lemma seek_least:
  assumes "holds s ks" "valid k"
  obtains (none) "seek s k = Some None" "\<forall>x\<in>set ks. Compare x k < 0"
    | (found) it where "seek s k = Some (Some it)" "key_at s it \<in> set ks" "\<not> Compare (key_at s it) k < 0"
      "\<forall>x\<in>set ks. \<not> Compare x k < 0 \<longrightarrow> Compare (key_at s it) x \<le> 0"
proof -
  let ?P = "\<lambda>x. Compare x k < 0"
  note srt = holds_sorted [OF assms(1)]
  obtain it where it: "seek s k = Some it" "map_option (key_at s) it = first_of (dropWhile ?P ks)"
    using seek_holds [OF assms] by blast
  show ?thesis
  proof (cases "dropWhile ?P ks")
    case Nil
    then have "\<forall>x\<in>set ks. ?P x" unfolding dropWhile_eq_Nil_conv .
    moreover have "it = None" using it(2) Nil by (simp only: first_of_def list.case option.map_disc_iff)
    ultimately show ?thesis using none it(1) by blast
  next
    case (Cons y ys)
    then obtain i where i: "it = Some i" "key_at s i = y"
      using it(2) by (auto simp only: first_of_def list.case map_option_eq_Some)
    from Cons [unfolded dropWhile_eq_Cons_conv] have ks: "ks = takeWhile ?P ks @ y # ys" "\<not> ?P y" by blast+
    have "Compare y x \<le> 0" if "x \<in> set ks" "\<not> ?P x" for x
    proof -
      have "x \<notin> set (takeWhile ?P ks)" using that(2) set_takeWhileD by metis
      moreover have "x \<in> set (takeWhile ?P ks @ y # ys)" using that(1) ks(1) by metis
      ultimately have "x = y \<or> x \<in> set ys" by auto
      moreover have "sorted_wrt (\<lambda>a b. Compare a b < 0) (takeWhile ?P ks @ y # ys)" using srt ks(1) by metis
      moreover have "y \<in> set ks" by (subst ks(1)) simp
      ultimately show ?thesis using srt by (auto simp: sorted_wrt_append refl less_imp_le)
    qed
    moreover have "y \<in> set ks" by (subst ks(1)) simp
    ultimately show ?thesis using found [of i] it(1) i ks(2) by blast
  qed
qed

end

context comparison
begin

lemma skip_ordered_table:
  "ordered_table valid Compare skip_abs (skip_Insert Compare) (skip_iter_Seek Compare) skip_key"
proof unfold_locales
  fix s ks assume "skip_abs s ks"
  then show "sorted_wrt (\<lambda>a b. Compare a b < 0) ks \<and> (\<forall>k\<in>set ks. valid k)"
    by (auto simp: skip_abs_def skip_inv_def sorted_wrt_map)
next
  fix s ks k assume a: "skip_abs s ks" "valid k" "\<forall>x\<in>set ks. Compare x k \<noteq> 0"
  then obtain ns where ns: "skip_inv s ns" "map (skip_key s) ns = ks" by (auto simp: skip_abs_def)
  obtain A B where AB: "ns = A @ B" "cut s k A B" by (rule cut_exists [OF ns(1) a(2)])
  have new: "\<forall>n\<in>set (A @ B). Compare (skip_key s n) k \<noteq> 0" using a(3) ns(2) AB(1) by auto
  obtain s' x where s': "skip_Insert Compare s k = Some s'" "skip_inv s' (A @ x # B)" "skip_key s' x = k"
      "\<forall>n\<in>set (A @ B). skip_key s' n = skip_key s n"
    by (rule skip_Insert_inv [OF ns(1) [unfolded AB(1)] AB(2) a(2) new])
  have "map (skip_key s') (A @ x # B) = map (skip_key s) A @ k # map (skip_key s) B" using s'(3,4) by simp
  then show "\<exists>s'. skip_Insert Compare s k = Some s' \<and>
      skip_abs s' (takeWhile (\<lambda>x. Compare x k < 0) ks @ k # dropWhile (\<lambda>x. Compare x k < 0) ks)"
    using s'(1,2) cut_takeWhile [OF AB(2)] ns(2) AB(1) unfolding skip_abs_def by metis
next
  fix s ks k assume a: "skip_abs s ks" "valid k"
  then obtain ns where ns: "skip_inv s ns" "map (skip_key s) ns = ks" by (auto simp: skip_abs_def)
  obtain A B where AB: "ns = A @ B" "cut s k A B" by (rule cut_exists [OF ns(1) a(2)])
  have "map_option (skip_key s) (first_of B) = first_of (map (skip_key s) B)"
    by (cases B) (simp_all add: first_of_def)
  moreover have "dropWhile (\<lambda>x. Compare x k < 0) ks = map (skip_key s) B"
    using cut_takeWhile(2) [OF AB(2)] ns(2) AB(1) by metis
  ultimately show "\<exists>it. skip_iter_Seek Compare s k = Some it \<and>
      map_option (skip_key s) it = first_of (dropWhile (\<lambda>x. Compare x k < 0) ks)"
    using FindGreaterOrEqual_spec [OF ns(1) [unfolded AB(1)] AB(2), of "[]"]
    by (auto simp: skip_iter_Seek_def)
qed

end

sublocale comparison \<subseteq> skip: ordered_table valid Compare skip_abs "skip_Insert Compare"
    "skip_iter_Seek Compare" skip_key
  by (rule skip_ordered_table)

section \<open>Properties\<close>

fun skip_Inserts :: "('k \<Rightarrow> 'k \<Rightarrow> int) \<Rightarrow> 'k SkipList \<Rightarrow> 'k list \<Rightarrow> 'k SkipList option" where
  "skip_Inserts cmp s [] = Some s"
| "skip_Inserts cmp s (k # ks) = Option.bind (skip_Insert cmp s k) (\<lambda>s. skip_Inserts cmp s ks)"

lemma skip_Inserts_set:
  "bytewise.skip_abs s old \<Longrightarrow> distinct ks \<Longrightarrow> set ks \<inter> set old = {} \<Longrightarrow>
    \<exists>s' ks'. skip_Inserts Bytewise_Compare s ks = Some s' \<and> bytewise.skip_abs s' ks' \<and>
      set ks' = set ks \<union> set old"
proof (induction ks arbitrary: s old)
  case (Cons k ks)
  have "\<forall>x\<in>set old. Bytewise_Compare x k \<noteq> 0" using Cons.prems(3) by auto
  from bytewise.skip.insert_set [OF Cons.prems(1) TrueI this]
  obtain s1 old1 where 1: "skip_Insert Bytewise_Compare s k = Some s1" "bytewise.skip_abs s1 old1"
      "set old1 = insert k (set old)" by blast
  from Cons.IH [OF 1(2)] 1(3) Cons.prems(2,3) show ?case by (auto simp: 1(1))
qed auto

text \<open>C10. The skip list is a sorted set, whatever heights its generator draws: inserting
  distinct keys always returns, the level-0 links from the head then visit exactly those keys
  in increasing order, \<^verbatim>\<open>Contains\<close> decides membership, and \<^verbatim>\<open>SeekToLast\<close> finds
  the last key.\<close>

theorem skip_list_sorted_set:
  assumes "distinct ks"
  shows "\<exists>s ns. skip_Inserts Bytewise_Compare (SkipList_new k0) ks = Some s \<and>
    chain s 0 (sl_head s) ns \<and> map (skip_key s) ns = sorted_list_of_set (set ks) \<and>
    (\<forall>k. skip_Contains Bytewise_Compare s k = Some (k \<in> set ks)) \<and>
    skip_iter_SeekToLast s = Some (if ns = [] then None else Some (last ns))"
proof -
  have "bytewise.skip_abs (SkipList_new k0) []" using bytewise.skip_inv_new by (auto simp: bytewise.skip_abs_def)
  from skip_Inserts_set [OF this assms] obtain s ks' where s: "skip_Inserts Bytewise_Compare (SkipList_new k0) ks = Some s"
      "bytewise.skip_abs s ks'" "set ks' = set ks" by auto
  then obtain ns where ns: "bytewise.skip_inv s ns" "map (skip_key s) ns = ks'"
    by (auto simp: bytewise.skip_abs_def)
  have "chain s 0 (sl_head s) (at_level s 0 ns)" using ns(1) by (simp add: bytewise.skip_inv_def kMaxHeight_def)
  then have "chain s 0 (sl_head s) ns" using bytewise.at_level_0 [of s ns "[]"] ns(1) by simp
  moreover have "ks' = sorted_list_of_set (set ks)"
  proof -
    have "sorted_wrt (<) ks'" using bytewise.skip.holds_sorted [OF s(2)] by simp
    then show ?thesis
      by (metis s(3) sorted_list_of_set.idem_if_sorted_distinct strict_sorted_iff)
  qed
  moreover have "skip_Contains Bytewise_Compare s k = Some (k \<in> set ks)" for k
    using bytewise.skip_Contains_spec [OF s(2), of k] s(3) by (auto simp: Bex_def)
  moreover have "sl_head s \<notin> set ns" using ns(1) by (simp add: bytewise.skip_inv_def)
  then have "ns \<noteq> [] \<Longrightarrow> last ns \<noteq> sl_head s" by (metis last_in_set)
  then have "skip_iter_SeekToLast s = Some (if ns = [] then None else Some (last ns))"
    using bytewise.FindLast_spec [OF ns(1)]
    by (cases "ns = []") (auto simp: skip_iter_SeekToLast_def)
  ultimately show ?thesis using s(1) ns(2) by metis
qed

theorem skip_list_sorted_set_witness:
  "\<exists>s ns. skip_Inserts Bytewise_Compare (SkipList_new []) [[2], [1], [3, 1]] = Some s \<and>
    chain s 0 (sl_head s) ns \<and> map (skip_key s) ns = sorted_list_of_set (set [[2], [1], [3, 1]]) \<and>
    (\<forall>k. skip_Contains Bytewise_Compare s k = Some (k \<in> set [[2], [1], [3, 1]])) \<and>
    skip_iter_SeekToLast s = Some (if ns = [] then None else Some (last ns))"
  by (rule skip_list_sorted_set) simp

end
