(* ===== verification/Db_Format.thy ===== *)
theory Db_Format
  imports Coding Comparator Logging
begin

text \<open>
  \<^verbatim>\<open>db/dbformat.cc\<close> and \<^verbatim>\<open>db/dbformat.h\<close>: internal keys. An internal key is the user
  key followed by 8 bytes that pack the sequence number and the value type; internal keys
  are ordered by increasing user key, then by decreasing packed number. The user comparator
  and the user filter policy, which the code holds by pointer, are arguments.
\<close>

section \<open>The code\<close>

datatype ValueType = kTypeDeletion | kTypeValue

fun vt_num :: "ValueType \<Rightarrow> byte" where
  "vt_num kTypeDeletion = 0x0"
| "vt_num kTypeValue = 0x1"

definition kValueTypeForSeek :: ValueType where
  "kValueTypeForSeek = kTypeValue"

definition kMaxSequenceNumber :: u64 where
  "kMaxSequenceNumber = push_bit 56 1 - 1"

record ParsedInternalKey =
  user_key :: bytes
  sequence :: u64
  vtype :: ValueType

definition PackSequenceAndType :: "u64 \<Rightarrow> ValueType \<Rightarrow> u64" where
  "PackSequenceAndType seq t = push_bit 8 seq OR ucast (vt_num t)"

definition AppendInternalKey :: "bytes \<Rightarrow> ParsedInternalKey \<Rightarrow> bytes" where
  "AppendInternalKey result key =
     (let result = result @ user_key key
      in PutFixed64 result (PackSequenceAndType (sequence key) (vtype key)))"

definition InternalKey :: "bytes \<Rightarrow> u64 \<Rightarrow> ValueType \<Rightarrow> bytes" where
  "InternalKey u s t = AppendInternalKey [] \<lparr>user_key = u, sequence = s, vtype = t\<rparr>"

definition ExtractUserKey :: "bytes \<Rightarrow> bytes" where
  "ExtractUserKey internal_key = take (length internal_key - 8) internal_key"

text \<open>The packed number of an internal key, which the comparator and the parser read.\<close>

definition key_num :: "bytes \<Rightarrow> u64" where
  "key_num key = DecodeFixed64 (drop (length key - 8) key)"

definition ParseInternalKey :: "bytes \<Rightarrow> ParsedInternalKey option" where
  "ParseInternalKey internal_key =
     (let n = length internal_key in
      if n < 8 then None
      else let num = DecodeFixed64 (drop (n - 8) internal_key);
               c = (ucast (num AND 0xff) :: byte)
           in if c \<le> vt_num kTypeValue
              then Some \<lparr>user_key = take (n - 8) internal_key, sequence = drop_bit 8 num,
                         vtype = (if c = vt_num kTypeValue then kTypeValue else kTypeDeletion)\<rparr>
              else None)"

text \<open>\<^verbatim>\<open>DebugString\<close> of a parsed key prints through a buffer of 50 bytes.\<close>

definition Parsed_DebugString :: "ParsedInternalKey \<Rightarrow> bytes" where
  "Parsed_DebugString k =
     (let buf = take 49 ([39] @ str '' @ '' @ dec (unat (sequence k)) @ str '' : '' @
                         dec (unat (vt_num (vtype k))))
      in [39] @ EscapeString (user_key k) @ buf)"

definition InternalKey_DebugString :: "bytes \<Rightarrow> bytes" where
  "InternalKey_DebugString rep =
     (case ParseInternalKey rep of
        Some parsed \<Rightarrow> Parsed_DebugString parsed
      | None \<Rightarrow> str ''(bad)'' @ EscapeString rep)"

definition IKC_Compare :: "(bytes \<Rightarrow> bytes \<Rightarrow> int) \<Rightarrow> bytes \<Rightarrow> bytes \<Rightarrow> int" where
  "IKC_Compare user_compare akey bkey =
     (let r = user_compare (ExtractUserKey akey) (ExtractUserKey bkey) in
      if r = 0 then
        let anum = DecodeFixed64 (drop (length akey - 8) akey);
            bnum = DecodeFixed64 (drop (length bkey - 8) bkey)
        in if anum > bnum then -1 else if anum < bnum then 1 else r
      else r)"

definition IKC_FindShortestSeparator ::
  "(bytes \<Rightarrow> bytes \<Rightarrow> int) \<Rightarrow> (bytes \<Rightarrow> bytes \<Rightarrow> bytes) \<Rightarrow> bytes \<Rightarrow> bytes \<Rightarrow> bytes" where
  "IKC_FindShortestSeparator user_compare user_sep start limit =
     (let user_start = ExtractUserKey start;
          user_limit = ExtractUserKey limit;
          tmp = user_sep user_start user_limit
      in if length tmp < length user_start \<and> user_compare user_start tmp < 0
         then PutFixed64 tmp (PackSequenceAndType kMaxSequenceNumber kValueTypeForSeek)
         else start)"

definition IKC_FindShortSuccessor ::
  "(bytes \<Rightarrow> bytes \<Rightarrow> int) \<Rightarrow> (bytes \<Rightarrow> bytes) \<Rightarrow> bytes \<Rightarrow> bytes" where
  "IKC_FindShortSuccessor user_compare user_succ key =
     (let ukey = ExtractUserKey key;
          tmp = user_succ ukey
      in if length tmp < length ukey \<and> user_compare ukey tmp < 0
         then PutFixed64 tmp (PackSequenceAndType kMaxSequenceNumber kValueTypeForSeek)
         else key)"

definition InternalFilter_CreateFilter ::
  "(bytes list \<Rightarrow> bytes \<Rightarrow> bytes) \<Rightarrow> bytes list \<Rightarrow> bytes \<Rightarrow> bytes" where
  "InternalFilter_CreateFilter user_create keys dst = user_create (map ExtractUserKey keys) dst"

definition InternalFilter_KeyMayMatch :: "(bytes \<Rightarrow> bytes \<Rightarrow> bool) \<Rightarrow> bytes \<Rightarrow> bytes \<Rightarrow> bool" where
  "InternalFilter_KeyMayMatch user_match key f = user_match (ExtractUserKey key) f"

text \<open>
  A lookup key: one buffer that serves as a memtable key, an internal key and a user key;
  the three pointers \<^verbatim>\<open>start_\<close>, \<^verbatim>\<open>kstart_\<close> and \<^verbatim>\<open>end_\<close> are offsets into it.
\<close>

record LookupKey =
  lk_space :: bytes
  lk_start :: nat
  lk_kstart :: nat
  lk_end :: nat

definition LookupKey_new :: "bytes \<Rightarrow> u64 \<Rightarrow> LookupKey" where
  "LookupKey_new ukey s =
     (let usize = length ukey;
          dst = EncodeVarint32 (of_nat (usize + 8));
          kstart = length dst;
          dst = dst @ ukey;
          dst = dst @ EncodeFixed64 (PackSequenceAndType s kValueTypeForSeek)
      in \<lparr>lk_space = dst, lk_start = 0, lk_kstart = kstart, lk_end = length dst\<rparr>)"

definition memtable_key :: "LookupKey \<Rightarrow> bytes" where
  "memtable_key k = take (lk_end k - lk_start k) (drop (lk_start k) (lk_space k))"

definition internal_key :: "LookupKey \<Rightarrow> bytes" where
  "internal_key k = take (lk_end k - lk_kstart k) (drop (lk_kstart k) (lk_space k))"

definition lookup_user_key :: "LookupKey \<Rightarrow> bytes" where
  "lookup_user_key k = take (lk_end k - lk_kstart k - 8) (drop (lk_kstart k) (lk_space k))"

section \<open>Packing\<close>

lemma InternalKey_eq: "InternalKey u s t = u @ EncodeFixed64 (PackSequenceAndType s t)"
  by (simp add: InternalKey_def AppendInternalKey_def PutFixed64_def Let_def)

lemma length_InternalKey [simp]: "length (InternalKey u s t) = length u + 8"
  by (simp add: InternalKey_eq)

lemma ExtractUserKey_InternalKey [simp, roundtrip]: "ExtractUserKey (InternalKey u s t) = u"
  by (simp add: ExtractUserKey_def InternalKey_eq)

lemma ExtractUserKey_append [simp]: "ExtractUserKey (u @ EncodeFixed64 n) = u"
  by (simp add: ExtractUserKey_def)

lemma key_num_InternalKey [simp]: "key_num (InternalKey u s t) = PackSequenceAndType s t"
  by (simp add: key_num_def InternalKey_eq)

lemma key_num_append [simp]: "key_num (u @ EncodeFixed64 n) = n"
  by (simp add: key_num_def)

lemma kMaxSequenceNumber_eq: "kMaxSequenceNumber = mask 56"
  by (simp add: kMaxSequenceNumber_def mask_eq_exp_minus_1 push_bit_eq_mult)

lemma seq_bound_iff: "s \<le> kMaxSequenceNumber \<longleftrightarrow> unat s < 2 ^ 56"
  by (simp add: word_le_nat_alt kMaxSequenceNumber_def push_bit_eq_mult less_Suc_eq_le flip: less_Suc_eq_le)

lemma unat_vt_num: "unat (vt_num t) = (case t of kTypeDeletion \<Rightarrow> 0 | kTypeValue \<Rightarrow> 1)"
  by (cases t) simp_all

lemma unat_Pack:
  assumes "s \<le> kMaxSequenceNumber"
  shows "unat (PackSequenceAndType s t) = unat s * 256 + unat (vt_num t)"
proof -
  have v: "unat (ucast (vt_num t) :: u64) = unat (vt_num t)" by (simp add: unat_ucast_up)
  have "push_bit 8 s AND ucast (vt_num t) = 0"
    by (rule bit_word_eqI) (auto simp: bit_simps dest: bit_imp_le_length)
  then have "PackSequenceAndType s t = push_bit 8 s + ucast (vt_num t)"
    by (simp add: PackSequenceAndType_def disjunctive_add_eq_or)
  moreover have "unat (push_bit 8 s) = unat s * 256"
    using assms by (simp add: seq_bound_iff push_bit_eq_mult unat_word_ariths)
  ultimately show ?thesis
    using assms v by (cases t) (simp_all add: unat_word_ariths seq_bound_iff)
qed

lemma Pack_less_iff:
  assumes "s \<le> kMaxSequenceNumber" "s' \<le> kMaxSequenceNumber"
  shows "PackSequenceAndType s t < PackSequenceAndType s' t' \<longleftrightarrow>
    s < s' \<or> s = s' \<and> vt_num t < vt_num t'"
  using assms
  by (cases t; cases t') (auto simp: word_less_nat_alt unat_Pack word_unat_eq_iff)

lemma drop_bit_Pack [simp]:
  "s \<le> kMaxSequenceNumber \<Longrightarrow> drop_bit 8 (PackSequenceAndType s t) = s"
  using unat_byte_bound [of "vt_num t"]
  by (simp add: word_unat_eq_iff unat_drop_bit_word unat_Pack)

lemma low_byte_Pack [simp]: "(ucast (PackSequenceAndType s t AND 0xff) :: byte) = vt_num t"
  unfolding and_255_byte
  by (rule bit_word_eqI) (auto simp: PackSequenceAndType_def bit_simps)

lemma Pack_and_255 [simp]: "PackSequenceAndType s t AND 0xff = ucast (vt_num t)"
proof -
  have "(0xff :: u64) = mask 8" by (simp add: mask_eq_exp_minus_1)
  moreover have "PackSequenceAndType s t AND mask 8 = ucast (vt_num t)"
    unfolding PackSequenceAndType_def
    by (rule bit_word_eqI) (auto simp: bit_simps dest: bit_imp_le_length)
  ultimately show ?thesis by (simp only:)
qed

lemma ParseInternalKey_InternalKey [roundtrip]:
  "s \<le> kMaxSequenceNumber \<Longrightarrow>
    ParseInternalKey (InternalKey u s t) = Some \<lparr>user_key = u, sequence = s, vtype = t\<rparr>"
  by (cases t) (simp_all add: ParseInternalKey_def Let_def InternalKey_eq)

section \<open>The internal key comparator is a comparator\<close>

lemma IKC_Compare_num:
  "IKC_Compare uc a b =
    (let r = uc (ExtractUserKey a) (ExtractUserKey b) in
     if r = 0 then if key_num a > key_num b then -1 else if key_num a < key_num b then 1 else 0
     else r)"
  by (simp add: IKC_Compare_def key_num_def Let_def)

lemma IKC_Compare_le:
  "IKC_Compare uc a b \<le> 0 \<longleftrightarrow>
    (let r = uc (ExtractUserKey a) (ExtractUserKey b) in r < 0 \<or> r = 0 \<and> key_num b \<le> key_num a)"
  by (auto simp: IKC_Compare_num Let_def)

lemma IKC_Compare_less:
  "IKC_Compare uc a b < 0 \<longleftrightarrow>
    (let r = uc (ExtractUserKey a) (ExtractUserKey b) in r < 0 \<or> r = 0 \<and> key_num b < key_num a)"
  by (auto simp: IKC_Compare_num Let_def)

text \<open>Appending the largest packed number to a user key gives its first internal key.\<close>

definition first_key :: "bytes \<Rightarrow> bytes" where
  "first_key u = PutFixed64 u (PackSequenceAndType kMaxSequenceNumber kValueTypeForSeek)"

lemma first_key_simps [simp]:
  "ExtractUserKey (first_key u) = u" "length (first_key u) = length u + 8"
  by (simp_all add: first_key_def PutFixed64_def)

context comparator
begin

definition ivalid :: "bytes \<Rightarrow> bool" where
  "ivalid k \<longleftrightarrow> 8 \<le> length k \<and> valid (ExtractUserKey k)"

lemma internal_trans:
  assumes "valid (ExtractUserKey a)" "valid (ExtractUserKey b)" "valid (ExtractUserKey c)"
    and "IKC_Compare Compare a b \<le> 0" "IKC_Compare Compare b c \<le> 0"
  shows "IKC_Compare Compare a c \<le> 0"
proof -
  let ?a = "ExtractUserKey a" and ?b = "ExtractUserKey b" and ?c = "ExtractUserKey c"
  have ab: "Compare ?a ?b < 0 \<or> Compare ?a ?b = 0 \<and> key_num b \<le> key_num a"
    and bc: "Compare ?b ?c < 0 \<or> Compare ?b ?c = 0 \<and> key_num c \<le> key_num b"
    using assms(4,5) by (simp_all add: IKC_Compare_le Let_def)
  have "Compare ?a ?c \<le> 0" using ab bc trans [OF assms(1-3)] by fastforce
  moreover have "Compare ?a ?c < 0" if "Compare ?a ?b < 0 \<or> Compare ?b ?c < 0"
    using that ab bc less_trans [OF assms(1-3)] less_trans' [OF assms(1-3)] by fastforce
  ultimately show ?thesis using ab bc by (auto simp: IKC_Compare_le Let_def)
qed

lemma internal_comparator:
  "comparator ivalid (IKC_Compare Compare) (IKC_FindShortestSeparator Compare FindShortestSeparator)
    (IKC_FindShortSuccessor Compare FindShortSuccessor)"
proof unfold_locales
  fix a assume "ivalid a"
  then show "IKC_Compare Compare a a = 0" by (simp add: IKC_Compare_num ivalid_def refl)
next
  fix a b assume "ivalid a" "ivalid b"
  then show "(IKC_Compare Compare a b < 0) = (0 < IKC_Compare Compare b a)"
    using antisym [of "ExtractUserKey a" "ExtractUserKey b"] eq_sym [of "ExtractUserKey a" "ExtractUserKey b"]
    by (auto simp: IKC_Compare_num ivalid_def Let_def split: if_splits)
next
  fix a b c
  assume "ivalid a" "ivalid b" "ivalid c"
    and "IKC_Compare Compare a b \<le> 0" "IKC_Compare Compare b c \<le> 0"
  then show "IKC_Compare Compare a c \<le> 0" by (intro internal_trans [of a b c]) (auto simp: ivalid_def)
next
  fix s l assume v: "ivalid s" "ivalid l" and less: "IKC_Compare Compare s l < 0"
  let ?s = "ExtractUserKey s" and ?l = "ExtractUserKey l"
  let ?t = "FindShortestSeparator ?s ?l"
  have vu: "valid ?s" "valid ?l" using v by (simp_all add: ivalid_def)
  show "ivalid (IKC_FindShortestSeparator Compare FindShortestSeparator s l) \<and>
      IKC_Compare Compare s (IKC_FindShortestSeparator Compare FindShortestSeparator s l) \<le> 0 \<and>
      IKC_Compare Compare (IKC_FindShortestSeparator Compare FindShortestSeparator s l) l < 0"
  proof (cases "length ?t < length ?s \<and> Compare ?s ?t < 0")
    case True
    then have r: "IKC_FindShortestSeparator Compare FindShortestSeparator s l = first_key ?t"
      by (simp add: IKC_FindShortestSeparator_def first_key_def Let_def)
    have "Compare ?s ?l \<noteq> 0" using True sep_eq [OF vu] by auto
    then have "Compare ?s ?l < 0" using less by (auto simp: IKC_Compare_less Let_def)
    from sep [OF vu this] True show ?thesis
      by (simp add: r ivalid_def IKC_Compare_le IKC_Compare_less Let_def)
  next
    case False
    then have "IKC_FindShortestSeparator Compare FindShortestSeparator s l = s"
      by (auto simp: IKC_FindShortestSeparator_def Let_def)
    then show ?thesis using v vu less by (simp add: IKC_Compare_le refl)
  qed
next
  fix s l assume v: "ivalid s" "ivalid l" and eq: "IKC_Compare Compare s l = 0"
  then have "Compare (ExtractUserKey s) (ExtractUserKey l) = 0"
    by (auto simp: IKC_Compare_num Let_def split: if_splits)
  then show "IKC_FindShortestSeparator Compare FindShortestSeparator s l = s"
    using v by (auto simp: IKC_FindShortestSeparator_def Let_def sep_eq ivalid_def)
next
  fix s assume v: "ivalid s"
  let ?s = "ExtractUserKey s"
  let ?t = "FindShortSuccessor ?s"
  have vu: "valid ?s" using v by (simp add: ivalid_def)
  show "ivalid (IKC_FindShortSuccessor Compare FindShortSuccessor s) \<and>
      IKC_Compare Compare s (IKC_FindShortSuccessor Compare FindShortSuccessor s) \<le> 0"
  proof (cases "length ?t < length ?s \<and> Compare ?s ?t < 0")
    case True
    then have "IKC_FindShortSuccessor Compare FindShortSuccessor s = first_key ?t"
      by (simp add: IKC_FindShortSuccessor_def first_key_def Let_def)
    with True succ [OF vu] show ?thesis by (simp add: ivalid_def IKC_Compare_le Let_def)
  next
    case False
    then have "IKC_FindShortSuccessor Compare FindShortSuccessor s = s"
      by (auto simp: IKC_FindShortSuccessor_def Let_def)
    then show ?thesis using v vu by (simp add: IKC_Compare_le refl)
  qed
qed

end

text \<open>The comparator of a database with the default user comparator.\<close>

abbreviation icmp :: "bytes \<Rightarrow> bytes \<Rightarrow> int" where
  "icmp \<equiv> IKC_Compare Bytewise_Compare"

interpretation internal: comparator "\<lambda>k. 8 \<le> length k" icmp
    "IKC_FindShortestSeparator Bytewise_Compare Bytewise_FindShortestSeparator"
    "IKC_FindShortSuccessor Bytewise_Compare Bytewise_FindShortSuccessor"
  using bytewise.internal_comparator by (simp add: bytewise.ivalid_def [abs_def])

section \<open>Lookup keys\<close>

lemma LookupKey_parts [simp]:
  "memtable_key (LookupKey_new u s) =
    EncodeVarint32 (of_nat (length u + 8)) @ InternalKey u s kValueTypeForSeek"
  "internal_key (LookupKey_new u s) = InternalKey u s kValueTypeForSeek"
  "lookup_user_key (LookupKey_new u s) = u"
  by (simp_all add: memtable_key_def internal_key_def lookup_user_key_def LookupKey_new_def
      Let_def InternalKey_eq)

text \<open>A sequence number sees exactly the entries at or after its lookup key.\<close>

lemma icmp_InternalKey:
  assumes "s \<le> kMaxSequenceNumber" "s' \<le> kMaxSequenceNumber"
  shows "icmp (InternalKey u s t) (InternalKey u' s' t') \<le> 0 \<longleftrightarrow>
    u < u' \<or> u = u' \<and> (s' < s \<or> s = s' \<and> vt_num t' \<le> vt_num t)"
proof -
  have "PackSequenceAndType s' t' \<le> PackSequenceAndType s t \<longleftrightarrow>
      s' < s \<or> s = s' \<and> vt_num t' \<le> vt_num t"
    using Pack_less_iff [OF assms, of t t'] by (auto simp: not_less [symmetric])
  then show ?thesis by (auto simp: IKC_Compare_le Let_def)
qed

section \<open>Properties\<close>

text \<open>C31. Internal keys: parsing gives back the user key, sequence number and type that
  were packed; keys are ordered by increasing user key, decreasing sequence number, and a
  lookup key at sequence number \<open>s\<close> sorts at or before an entry of its user key exactly
  when the entry is not newer than \<open>s\<close>.\<close>

theorem InternalKey_order:
  assumes "s \<le> kMaxSequenceNumber" and "s' \<le> kMaxSequenceNumber"
  shows "ParseInternalKey (InternalKey u s t) = Some \<lparr>user_key = u, sequence = s, vtype = t\<rparr> \<and>
    (icmp (InternalKey u s t) (InternalKey u' s' t') \<le> 0 \<longleftrightarrow>
      u < u' \<or> u = u' \<and> (s' < s \<or> s = s' \<and> vt_num t' \<le> vt_num t)) \<and>
    (icmp (internal_key (LookupKey_new u s)) (InternalKey u s' t') \<le> 0 \<longleftrightarrow> s' \<le> s)"
proof -
  have "vt_num t' \<le> vt_num kValueTypeForSeek" by (cases t') (simp_all add: kValueTypeForSeek_def)
  then show ?thesis
    using icmp_InternalKey [OF assms] ParseInternalKey_InternalKey [OF assms(1)] by (auto simp: le_less)
qed

theorem InternalKey_order_witness:
  "ParseInternalKey (InternalKey [1] 5 kTypeValue) =
      Some \<lparr>user_key = [1], sequence = 5, vtype = kTypeValue\<rparr> \<and>
    (icmp (InternalKey [1] 5 kTypeValue) (InternalKey [2] 9 kTypeDeletion) \<le> 0 \<longleftrightarrow>
      [1 :: byte] < [2] \<or> [1 :: byte] = [2] \<and> ((9 :: u64) < 5 \<or> (5 :: u64) = 9 \<and>
        vt_num kTypeDeletion \<le> vt_num kTypeValue)) \<and>
    (icmp (internal_key (LookupKey_new [1] 5)) (InternalKey [1] 9 kTypeDeletion) \<le> 0 \<longleftrightarrow> (9 :: u64) \<le> 5)"
  by (rule InternalKey_order) (simp_all add: kMaxSequenceNumber_def)

text \<open>Shortening internal keys for an index keeps the internal order: the separator of
  two keys stays between them and the successor does not fall before its key.\<close>

theorem InternalKey_shortening:
  assumes "8 \<le> length s" and "8 \<le> length l" and "icmp s l < 0"
  shows "(let sep = IKC_FindShortestSeparator Bytewise_Compare Bytewise_FindShortestSeparator s l;
      succ = IKC_FindShortSuccessor Bytewise_Compare Bytewise_FindShortSuccessor s
    in icmp s sep \<le> 0 \<and> icmp sep l < 0 \<and> icmp s succ \<le> 0 \<and> 8 \<le> length sep \<and> 8 \<le> length succ)"
  using internal.sep [OF assms] internal.succ [OF assms(1)] by (simp add: Let_def)

theorem InternalKey_shortening_witness:
  "let s = InternalKey [1, 2, 3] 5 kTypeValue; l = InternalKey [1, 9] 7 kTypeValue;
      sep = IKC_FindShortestSeparator Bytewise_Compare Bytewise_FindShortestSeparator s l;
      succ = IKC_FindShortSuccessor Bytewise_Compare Bytewise_FindShortSuccessor s
    in icmp s sep \<le> 0 \<and> icmp sep l < 0 \<and> icmp s succ \<le> 0 \<and> 8 \<le> length sep \<and> 8 \<le> length succ"
  unfolding Let_def [of "InternalKey [1, 2, 3] 5 kTypeValue"] Let_def [of "InternalKey [1, 9] 7 kTypeValue"]
  by (rule InternalKey_shortening) (simp_all add: IKC_Compare_less)

end
