(* ===== verification/Mem_Table.thy ===== *)
theory Mem_Table
  imports Skip_List Db_Format Status
begin

text \<open>
  \<^verbatim>\<open>db/memtable.cc\<close>: the in-memory table of recent writes. An entry is one buffer (internal
  key and value, both length-prefixed) and the skip list orders the buffers by their internal
  keys; a \<^verbatim>\<open>const char*\<close> into a buffer is the list of the bytes from it on. The buffers
  never change, so the arena that holds them is not part of the state. The comparison of
  entries is an interpretation of \<open>comparison\<close>, which gives the table as an \<open>ordered_table\<close>.
\<close>

section \<open>The code\<close>

text \<open>The slice at a pointer and the pointer behind it.\<close>

definition mem_GetLengthPrefixedSlice :: "bytes \<Rightarrow> bytes \<times> bytes" where
  "mem_GetLengthPrefixedSlice data =
     (case GetVarint32Ptr (take 5 data) of
        None \<Rightarrow> ([], [])
      | Some (len, q) \<Rightarrow>
          let p = drop (length (take 5 data) - length q) data
          in (take (unat len) p, drop (unat len) p))"

definition mem_KeyComparator :: "(bytes \<Rightarrow> bytes \<Rightarrow> int) \<Rightarrow> bytes \<Rightarrow> bytes \<Rightarrow> int" where
  "mem_KeyComparator cmp aptr bptr =
     (let a = fst (mem_GetLengthPrefixedSlice aptr);
          b = fst (mem_GetLengthPrefixedSlice bptr)
      in cmp a b)"

definition EncodeKey :: "bytes \<Rightarrow> bytes" where
  "EncodeKey target = PutVarint32 [] (of_nat (length target)) @ target"

record MemTable =
  mt_refs :: int
  mt_table :: "bytes SkipList"

definition MemTable_new :: MemTable where
  "MemTable_new = \<lparr>mt_refs = 0, mt_table = SkipList_new []\<rparr>"

definition MemTable_Ref :: "MemTable \<Rightarrow> MemTable" where
  "MemTable_Ref m = m\<lparr>mt_refs := mt_refs m + 1\<rparr>"

text \<open>\<open>None\<close>: the table deleted itself.\<close>

definition MemTable_Unref :: "MemTable \<Rightarrow> MemTable option" where
  "MemTable_Unref m =
     (let m = m\<lparr>mt_refs := mt_refs m - 1\<rparr> in if mt_refs m \<le> 0 then None else Some m)"

definition mem_entry :: "u64 \<Rightarrow> ValueType \<Rightarrow> bytes \<Rightarrow> bytes \<Rightarrow> bytes" where
  "mem_entry s type key val =
     (let key_size = length key;
          val_size = length val;
          internal_key_size = key_size + 8
      in EncodeVarint32 (of_nat internal_key_size) @ key @
         EncodeFixed64 (push_bit 8 s OR ucast (vt_num type)) @
         EncodeVarint32 (of_nat val_size) @ val)"

text \<open>The user comparator of the table, here and below.\<close>

definition MemTable_Add ::
  "(bytes \<Rightarrow> bytes \<Rightarrow> int) \<Rightarrow> MemTable \<Rightarrow> u64 \<Rightarrow> ValueType \<Rightarrow> bytes \<Rightarrow> bytes \<Rightarrow> MemTable option" where
  "MemTable_Add user m s type key val =
     (let buf = mem_entry s type key val
      in map_option (\<lambda>t. m\<lparr>mt_table := t\<rparr>)
           (skip_Insert (mem_KeyComparator (IKC_Compare user)) (mt_table m) buf))"

text \<open>The result: what is returned, \<^verbatim>\<open>*value\<close> and \<^verbatim>\<open>*s\<close> afterwards.\<close>

definition MemTable_Get ::
  "(bytes \<Rightarrow> bytes \<Rightarrow> int) \<Rightarrow> MemTable \<Rightarrow> LookupKey \<Rightarrow> bytes \<Rightarrow> status \<Rightarrow> (bool \<times> bytes \<times> status) option" where
  "MemTable_Get user m key val s =
     (case skip_iter_Seek (mem_KeyComparator (IKC_Compare user)) (mt_table m) (memtable_key key) of
        None \<Rightarrow> None
      | Some iter \<Rightarrow> Some
          (if skip_iter_Valid iter then
             let entry = skip_key (mt_table m) (the iter) in
             case GetVarint32Ptr (take 5 entry) of
               None \<Rightarrow> (False, val, s)
             | Some (key_length, q) \<Rightarrow>
                 let key_ptr = drop (length (take 5 entry) - length q) entry in
                 if user (take (unat key_length - 8) key_ptr) (lookup_user_key key) = 0 then
                   let tag = DecodeFixed64 (drop (unat key_length - 8) key_ptr);
                       ty = tag AND 0xff
                   in if ty = ucast (vt_num kTypeValue) then
                        (True, fst (mem_GetLengthPrefixedSlice (drop (unat key_length) key_ptr)), s)
                      else if ty = ucast (vt_num kTypeDeletion) then (True, val, NotFound [])
                      else (False, val, s)
                 else (False, val, s)
           else (False, val, s)))"

text \<open>The iterator over a memtable is the skip list's, with decoded keys and values.\<close>

definition mem_iter_key :: "MemTable \<Rightarrow> nat \<Rightarrow> bytes" where
  "mem_iter_key m it = fst (mem_GetLengthPrefixedSlice (skip_key (mt_table m) it))"

definition mem_iter_value :: "MemTable \<Rightarrow> nat \<Rightarrow> bytes" where
  "mem_iter_value m it =
     fst (mem_GetLengthPrefixedSlice (snd (mem_GetLengthPrefixedSlice (skip_key (mt_table m) it))))"

definition mem_iter_Seek ::
  "(bytes \<Rightarrow> bytes \<Rightarrow> int) \<Rightarrow> MemTable \<Rightarrow> bytes \<Rightarrow> nat option option" where
  "mem_iter_Seek user m k =
     skip_iter_Seek (mem_KeyComparator (IKC_Compare user)) (mt_table m) (EncodeKey k)"

section \<open>Entries\<close>

lemma take_5_prefix:
  "\<exists>r. take 5 (EncodeVarint32 v @ rest) = EncodeVarint32 v @ r \<and>
    drop (length (take 5 (EncodeVarint32 v @ rest)) - length r) (EncodeVarint32 v @ rest) = rest"
  using length_EncodeVarint32_bound [of v]
  by (intro exI [of _ "take (5 - length (EncodeVarint32 v)) rest"]) simp

lemma mem_varint:
  obtains q where "GetVarint32Ptr (take 5 (EncodeVarint32 v @ rest)) = Some (v, q)"
    "drop (length (take 5 (EncodeVarint32 v @ rest)) - length q) (EncodeVarint32 v @ rest) = rest"
  using take_5_prefix [of v rest] by (auto simp: GetVarint32Ptr_eq)

lemma mem_GetLengthPrefixedSlice_encoded:
  "length k < 2 ^ 32 \<Longrightarrow> mem_GetLengthPrefixedSlice (EncodeVarint32 (of_nat (length k)) @ k @ rest) = (k, rest)"
proof -
  assume k: "length k < 2 ^ 32"
  let ?e = "EncodeVarint32 (of_nat (length k)) @ k @ rest"
  obtain q where q: "GetVarint32Ptr (take 5 ?e) = Some (of_nat (length k), q)"
      "drop (length (take 5 ?e) - length q) ?e = k @ rest"
    by (rule mem_varint)
  show ?thesis
    unfolding mem_GetLengthPrefixedSlice_def q option.case prod.case Let_def using k
    by (simp add: unat_of_nat_lt)
qed

lemma mem_entry_eq:
  "mem_entry s t k v = EncodeVarint32 (of_nat (length (InternalKey k s t))) @ InternalKey k s t @
    EncodeVarint32 (of_nat (length v)) @ v"
  by (simp add: mem_entry_def InternalKey_eq PackSequenceAndType_def Let_def)

text \<open>The buffers the table compares: a length-prefixed internal key, and more or nothing.\<close>

definition is_entry :: "bytes \<Rightarrow> bool" where
  "is_entry e \<longleftrightarrow> 8 \<le> length (fst (mem_GetLengthPrefixedSlice e))"

lemma is_entry_mem_entry [simp]: "length k + 8 < 2 ^ 32 \<Longrightarrow> is_entry (mem_entry s t k v)"
  unfolding is_entry_def mem_entry_eq by (subst mem_GetLengthPrefixedSlice_encoded) simp_all

interpretation mem: comparison is_entry "mem_KeyComparator icmp"
proof unfold_locales
  fix a b c
  let ?k = "\<lambda>e. fst (mem_GetLengthPrefixedSlice e)"
  assume a: "is_entry a"
  then show "mem_KeyComparator icmp a a = 0"
    using internal.refl [of "?k a"] by (simp add: mem_KeyComparator_def is_entry_def)
  assume b: "is_entry b"
  show "(mem_KeyComparator icmp a b < 0) = (0 < mem_KeyComparator icmp b a)"
    using internal.antisym [of "?k a" "?k b"] a b by (simp add: mem_KeyComparator_def is_entry_def)
  assume "is_entry c" "mem_KeyComparator icmp a b \<le> 0" "mem_KeyComparator icmp b c \<le> 0"
  then show "mem_KeyComparator icmp a c \<le> 0"
    using internal.trans [of "?k a" "?k b" "?k c"] a b by (simp add: mem_KeyComparator_def is_entry_def)
qed

section \<open>The newest entry\<close>

text \<open>The specification: what was added, and the newest entry of a user key that a snapshot
  sees.\<close>

record Entry =
  e_seq :: u64
  e_type :: ValueType
  e_key :: bytes
  e_value :: bytes

definition entry_bytes :: "Entry \<Rightarrow> bytes" where
  "entry_bytes e = mem_entry (e_seq e) (e_type e) (e_key e) (e_value e)"

fun newest :: "Entry list \<Rightarrow> bytes \<Rightarrow> u64 \<Rightarrow> Entry option" where
  "newest [] u s = None"
| "newest (e # es) u s =
     (let r = newest es u s in
      if e_key e = u \<and> e_seq e \<le> s \<and> (case r of None \<Rightarrow> True | Some e' \<Rightarrow> e_seq e' < e_seq e)
      then Some e else r)"

lemma newest_None: "newest es u s = None \<longleftrightarrow> (\<forall>e\<in>set es. e_key e = u \<longrightarrow> s < e_seq e)"
  by (induction es) (auto simp: Let_def not_le split: option.splits)

lemma newest_max:
  "newest es u s = Some e \<Longrightarrow> \<forall>c\<in>set es. e_key c = u \<longrightarrow> e_seq c \<le> s \<longrightarrow> e_seq c \<le> e_seq e"
proof (induction es arbitrary: e)
  case (Cons a es)
  show ?case
  proof (cases "newest es u s")
    case None
    with Cons.prems show ?thesis
      using newest_None [of es u s] by (auto simp: Let_def split: if_splits)
  next
    case (Some e')
    note old = Cons.IH [OF Some]
    show ?thesis
    proof (cases "e_key a = u \<and> e_seq a \<le> s \<and> e_seq e' < e_seq a")
      case True
      then have "e = a" using Cons.prems Some by (simp add: Let_def)
      then show ?thesis using True old by (auto dest: order.strict_trans1 less_imp_le)
    next
      case False
      then have "e = e'" using Cons.prems Some by (auto simp: Let_def split: if_splits)
      then show ?thesis using False old by (auto simp: not_less)
    qed
  qed
qed simp

lemma newest_Some: "newest es u s = Some e \<Longrightarrow> e \<in> set es \<and> e_key e = u \<and> e_seq e \<le> s"
  by (induction es) (auto simp: Let_def split: if_splits)

lemma newest_unique:
  assumes "distinct (map e_seq es)" and "e \<in> set es" "e_key e = u" "e_seq e \<le> s"
    and "\<forall>e'\<in>set es. e_key e' = u \<longrightarrow> e_seq e' \<le> s \<longrightarrow> e_seq e' \<le> e_seq e"
  shows "newest es u s = Some e"
proof (cases "newest es u s")
  case None
  with assms(2-4) show ?thesis by (auto simp: newest_None)
next
  case (Some e')
  note n = newest_Some [OF Some]
  then have "e_seq e' = e_seq e" using assms(2-5) newest_max [OF Some] by force
  with assms(1,2) n have "e' = e" by (auto simp: distinct_map inj_on_def)
  with Some show ?thesis by simp
qed

text \<open>Entries the format can hold.\<close>

definition entry_ok :: "Entry \<Rightarrow> bool" where
  "entry_ok e \<longleftrightarrow> e_seq e \<le> kMaxSequenceNumber \<and> length (e_key e) + 8 < 2 ^ 32 \<and> length (e_value e) < 2 ^ 32"

lemma is_entry_bytes: "entry_ok e \<Longrightarrow> is_entry (entry_bytes e)"
  by (simp add: entry_ok_def entry_bytes_def)

lemma slice_entry_bytes:
  "entry_ok e \<Longrightarrow> mem_GetLengthPrefixedSlice (entry_bytes e) =
    (InternalKey (e_key e) (e_seq e) (e_type e), EncodeVarint32 (of_nat (length (e_value e))) @ e_value e)"
  unfolding entry_bytes_def mem_entry_eq
  by (rule mem_GetLengthPrefixedSlice_encoded) (simp add: entry_ok_def)

lemma slice_memtable_key:
  "length u + 8 < 2 ^ 32 \<Longrightarrow>
    mem_GetLengthPrefixedSlice (memtable_key (LookupKey_new u s)) = (InternalKey u s kValueTypeForSeek, [])"
  using mem_GetLengthPrefixedSlice_encoded [of "InternalKey u s kValueTypeForSeek" "[]"] by simp

lemma compare_entries:
  assumes "entry_ok e" "entry_ok e'"
  shows "mem_KeyComparator icmp (entry_bytes e) (entry_bytes e') \<le> 0 \<longleftrightarrow>
    e_key e < e_key e' \<or> e_key e = e_key e' \<and>
      (e_seq e' < e_seq e \<or> e_seq e = e_seq e' \<and> vt_num (e_type e') \<le> vt_num (e_type e))"
  using assms icmp_InternalKey [of "e_seq e" "e_seq e'"]
  by (simp add: mem_KeyComparator_def slice_entry_bytes entry_ok_def)

lemma entries_differ:
  assumes "entry_ok e" "entry_ok e'" "e_seq e \<noteq> e_seq e'"
  shows "mem_KeyComparator icmp (entry_bytes e) (entry_bytes e') \<noteq> 0"
  using compare_entries [OF assms(1,2)] compare_entries [OF assms(2,1)] assms(3)
    mem.eq_sym [OF is_entry_bytes is_entry_bytes, OF assms(1,2)] by auto

lemma compare_target:
  assumes "entry_ok e" "s \<le> kMaxSequenceNumber" "length u + 8 < 2 ^ 32"
  shows "mem_KeyComparator icmp (entry_bytes e) (memtable_key (LookupKey_new u s)) < 0 \<longleftrightarrow>
    \<not> (u < e_key e \<or> u = e_key e \<and> e_seq e \<le> s)"
proof -
  let ?t = "memtable_key (LookupKey_new u s)"
  have t: "is_entry ?t" using slice_memtable_key [OF assms(3), of s] by (simp add: is_entry_def)
  have "vt_num (e_type e) \<le> vt_num kValueTypeForSeek" by (cases "e_type e") (simp_all add: kValueTypeForSeek_def)
  then have "mem_KeyComparator icmp ?t (entry_bytes e) \<le> 0 \<longleftrightarrow> u < e_key e \<or> u = e_key e \<and> e_seq e \<le> s"
    using assms icmp_InternalKey [of s "e_seq e" u kValueTypeForSeek "e_key e" "e_type e"]
      slice_memtable_key [OF assms(3), of s]
    by (auto simp: mem_KeyComparator_def slice_entry_bytes entry_ok_def le_less)
  then show ?thesis using mem.antisym [OF is_entry_bytes [OF assms(1)] t] by linarith
qed

section \<open>The table refines its history\<close>

fun MemTable_Adds :: "MemTable \<Rightarrow> Entry list \<Rightarrow> MemTable option" where
  "MemTable_Adds m [] = Some m"
| "MemTable_Adds m (e # es) =
     Option.bind (MemTable_Add Bytewise_Compare m (e_seq e) (e_type e) (e_key e) (e_value e))
       (\<lambda>m. MemTable_Adds m es)"

text \<open>The table holds the entries of a history.\<close>

definition mem_rep :: "MemTable \<Rightarrow> Entry list \<Rightarrow> bool" where
  "mem_rep m es \<longleftrightarrow> (\<forall>e\<in>set es. entry_ok e) \<and> distinct (map e_seq es) \<and>
     (\<exists>ks. mem.skip_abs (mt_table m) ks \<and> set ks = entry_bytes ` set es)"

lemma mem_rep_new [inv_intro]: "mem_rep MemTable_new []"
  using mem.skip_inv_new by (auto simp: mem_rep_def MemTable_new_def mem.skip_abs_def)

lemma mem_rep_Add:
  assumes "mem_rep m es" "entry_ok e" "e_seq e \<notin> set (map e_seq es)"
  shows "\<exists>m'. MemTable_Add Bytewise_Compare m (e_seq e) (e_type e) (e_key e) (e_value e) = Some m' \<and>
    mem_rep m' (es @ [e])"
proof -
  obtain ks where ks: "mem.skip_abs (mt_table m) ks" "set ks = entry_bytes ` set es"
    using assms(1) by (auto simp: mem_rep_def)
  have "\<forall>x\<in>set ks. mem_KeyComparator icmp x (entry_bytes e) \<noteq> 0"
  proof
    fix x assume "x \<in> set ks"
    then obtain c where c: "c \<in> set es" "x = entry_bytes c" using ks(2) by auto
    then have "e_seq c \<in> set (map e_seq es)" "entry_ok c" using assms(1) by (auto simp: mem_rep_def)
    then have "entry_ok c" "e_seq c \<noteq> e_seq e" using assms(3) by metis+
    with c(2) entries_differ [OF _ assms(2)] show "mem_KeyComparator icmp x (entry_bytes e) \<noteq> 0" by simp
  qed
  from mem.skip.insert_set [OF ks(1) is_entry_bytes [OF assms(2)] this]
  obtain t ks' where t: "skip_Insert (mem_KeyComparator icmp) (mt_table m) (entry_bytes e) = Some t"
      "mem.skip_abs t ks'" "set ks' = insert (entry_bytes e) (set ks)" by blast
  have "MemTable_Add Bytewise_Compare m (e_seq e) (e_type e) (e_key e) (e_value e) = Some (m\<lparr>mt_table := t\<rparr>)"
    using t(1) by (simp add: MemTable_Add_def entry_bytes_def)
  moreover have "mem_rep (m\<lparr>mt_table := t\<rparr>) (es @ [e])"
    using assms t(2,3) ks(2) by (auto simp: mem_rep_def)
  ultimately show ?thesis by blast
qed

lemma mem_rep_Adds:
  "mem_rep m es0 \<Longrightarrow> \<forall>e\<in>set es. entry_ok e \<Longrightarrow> distinct (map e_seq (es0 @ es)) \<Longrightarrow>
    \<exists>m'. MemTable_Adds m es = Some m' \<and> mem_rep m' (es0 @ es)"
proof (induction es arbitrary: m es0)
  case (Cons e es)
  from Cons.prems have ok: "entry_ok e" "e_seq e \<notin> set (map e_seq es0)" by auto
  from mem_rep_Add [OF Cons.prems(1) ok] obtain m1 where
    "MemTable_Add Bytewise_Compare m (e_seq e) (e_type e) (e_key e) (e_value e) = Some m1"
    "mem_rep m1 (es0 @ [e])" by blast
  with Cons.IH [of m1 "es0 @ [e]"] Cons.prems show ?case by auto
qed simp

text \<open>What \<^verbatim>\<open>Get\<close> answers from an entry.\<close>

definition get_answer :: "Entry option \<Rightarrow> bytes \<Rightarrow> status \<Rightarrow> bool \<times> bytes \<times> status" where
  "get_answer r v st =
     (case r of
        None \<Rightarrow> (False, v, st)
      | Some e \<Rightarrow> (case e_type e of kTypeValue \<Rightarrow> (True, e_value e, st) | kTypeDeletion \<Rightarrow> (True, v, NotFound [])))"

lemma MemTable_Get_at:
  assumes "skip_iter_Seek (mem_KeyComparator icmp) (mt_table m) (memtable_key (LookupKey_new u s)) = Some (Some it)"
    and "skip_key (mt_table m) it = entry_bytes e" and "entry_ok e"
  shows "MemTable_Get Bytewise_Compare m (LookupKey_new u s) v st =
    Some (get_answer (if e_key e = u then Some e else None) v st)"
proof -
  let ?ik = "InternalKey (e_key e) (e_seq e) (e_type e)"
  let ?rest = "EncodeVarint32 (of_nat (length (e_value e))) @ e_value e"
  have eb: "entry_bytes e = EncodeVarint32 (of_nat (length ?ik)) @ ?ik @ ?rest"
    by (simp add: entry_bytes_def mem_entry_eq)
  obtain q where q: "GetVarint32Ptr (take 5 (entry_bytes e)) = Some (of_nat (length ?ik), q)"
      "drop (length (take 5 (entry_bytes e)) - length q) (entry_bytes e) = ?ik @ ?rest"
    unfolding eb by (rule mem_varint)
  have len: "unat (of_nat (length ?ik) :: u32) = length (e_key e) + 8"
    unfolding length_InternalKey by (rule unat_of_nat_lt) (use assms(3) in \<open>simp add: entry_ok_def\<close>)
  have key: "take (length (e_key e) + 8 - 8) (?ik @ ?rest) = e_key e" by (simp add: InternalKey_eq)
  have tag: "DecodeFixed64 (drop (length (e_key e) + 8 - 8) (?ik @ ?rest)) = PackSequenceAndType (e_seq e) (e_type e)"
    by (simp add: InternalKey_eq)
  have val: "fst (mem_GetLengthPrefixedSlice (drop (length (e_key e) + 8) (?ik @ ?rest))) = e_value e"
    using mem_GetLengthPrefixedSlice_encoded [of "e_value e" "[]"] assms(3) by (simp add: entry_ok_def)
  show ?thesis
    unfolding MemTable_Get_def assms(1) option.case Let_def skip_iter_Valid_def option.sel assms(2) q prod.case
      len key tag val
    by (cases "e_type e") (simp_all add: get_answer_def)
qed

lemma MemTable_Get_spec:
  assumes rep: "mem_rep m es" and s: "s \<le> kMaxSequenceNumber" and u: "length u + 8 < 2 ^ 32"
  shows "MemTable_Get Bytewise_Compare m (LookupKey_new u s) v st = Some (get_answer (newest es u s) v st)"
proof -
  let ?t = "memtable_key (LookupKey_new u s)"
  obtain ks where ks: "mem.skip_abs (mt_table m) ks" "set ks = entry_bytes ` set es"
    using rep by (auto simp: mem_rep_def)
  have ok: "entry_ok e" if "e \<in> set es" for e using rep that by (simp add: mem_rep_def)
  have t: "is_entry ?t" using slice_memtable_key [OF u, of s] by (simp add: is_entry_def)
  from ks(1) t show ?thesis
  proof (cases rule: mem.skip.seek_least)
    case none
    then have "newest es u s = None"
      using ks(2) ok compare_target [OF _ s u] by (auto simp: newest_None not_le)
    with none(1) show ?thesis by (simp add: MemTable_Get_def skip_iter_Valid_def get_answer_def)
  next
    case (found it)
    then obtain e where e: "e \<in> set es" "skip_key (mt_table m) it = entry_bytes e" using ks(2) by auto
    have at: "u < e_key e \<or> u = e_key e \<and> e_seq e \<le> s"
      using found(3) e(2) compare_target [OF ok [OF e(1)] s u] by simp
    have least: "e_key e < e_key c \<or> e_key e = e_key c \<and> e_seq c \<le> e_seq e"
      if "c \<in> set es" "e_key c = u" "e_seq c \<le> s" for c
    proof -
      have "mem_KeyComparator icmp (entry_bytes e) (entry_bytes c) \<le> 0"
        using found(4) e(2) ks(2) that compare_target [OF ok [OF that(1)] s u] by auto
      then show ?thesis using compare_entries [OF ok [OF e(1)] ok [OF that(1)]] by auto
    qed
    have "newest es u s = (if e_key e = u then Some e else None)"
    proof (cases "e_key e = u")
      case True
      then have "newest es u s = Some e"
        using at least e(1) rep by (intro newest_unique) (auto simp: mem_rep_def)
      with True show ?thesis by simp
    next
      case False
      then have "u < e_key e" using at by simp
      then have "\<not> (c \<in> set es \<and> e_key c = u \<and> e_seq c \<le> s)" for c
        using least [of c] False by (auto dest: less_asym)
      with False show ?thesis by (auto simp: newest_None not_le)
    qed
    with MemTable_Get_at [OF found(1) e(2) ok [OF e(1)], of v st] show ?thesis by simp
  qed
qed

section \<open>Properties\<close>

text \<open>C9. A memtable refines the history of its additions: adding entries with distinct
  sequence numbers to a new table always succeeds, and \<^verbatim>\<open>Get\<close> for a key at a snapshot
  answers from the newest entry of that key that the snapshot sees: its value, or
  \<^verbatim>\<open>NotFound\<close> when it is a deletion, or nothing when there is none.\<close>

theorem MemTable_Get_newest:
  assumes "\<forall>e\<in>set es. entry_ok e" and "distinct (map e_seq es)"
    and "s \<le> kMaxSequenceNumber" and "length u + 8 < 2 ^ 32"
  shows "\<exists>m. MemTable_Adds MemTable_new es = Some m \<and>
    MemTable_Get Bytewise_Compare m (LookupKey_new u s) v st = Some (get_answer (newest es u s) v st)"
  using mem_rep_Adds [OF mem_rep_new assms(1)] assms(2) MemTable_Get_spec [OF _ assms(3,4)] by auto

theorem MemTable_Get_newest_witness:
  "let es = [\<lparr>e_seq = 1, e_type = kTypeValue, e_key = [7], e_value = [1]\<rparr>,
        \<lparr>e_seq = 2, e_type = kTypeDeletion, e_key = [7], e_value = []\<rparr>]
   in \<exists>m. MemTable_Adds MemTable_new es = Some m \<and>
    MemTable_Get Bytewise_Compare m (LookupKey_new [7] 1) [] Status_OK =
      Some (get_answer (newest es [7] 1) [] Status_OK)"
  unfolding Let_def
  by (rule MemTable_Get_newest) (simp_all add: entry_ok_def kMaxSequenceNumber_def)

end
