(* ===== verification/Write_Batch.thy ===== *)
theory Write_Batch
  imports Mem_Table
begin

text \<open>
  \<^verbatim>\<open>db/write_batch.cc\<close>: a batch of updates as one byte string (8 bytes sequence number,
  4 bytes count, the records), the loop that replays it into a handler, and the handler that
  adds the records to a memtable under consecutive sequence numbers. The memtable uses the
  default user comparator. The lemmas give the bytes of a batch and what replaying them does.
\<close>

section \<open>The code\<close>

definition kHeader :: nat where
  "kHeader = 12"

type_synonym WriteBatch = bytes

definition WriteBatch_Clear :: WriteBatch where
  "WriteBatch_Clear = replicate kHeader 0"

definition WriteBatch_ApproximateSize :: "WriteBatch \<Rightarrow> nat" where
  "WriteBatch_ApproximateSize rep = length rep"

definition Batch_Count :: "WriteBatch \<Rightarrow> u32" where
  "Batch_Count rep = DecodeFixed32 (drop 8 rep)"

definition Batch_SetCount :: "WriteBatch \<Rightarrow> u32 \<Rightarrow> WriteBatch" where
  "Batch_SetCount rep n = take 8 rep @ EncodeFixed32 n @ drop 12 rep"

definition Batch_Sequence :: "WriteBatch \<Rightarrow> u64" where
  "Batch_Sequence rep = DecodeFixed64 rep"

definition Batch_SetSequence :: "WriteBatch \<Rightarrow> u64 \<Rightarrow> WriteBatch" where
  "Batch_SetSequence rep seq = EncodeFixed64 seq @ drop 8 rep"

definition WriteBatch_Put :: "WriteBatch \<Rightarrow> bytes \<Rightarrow> bytes \<Rightarrow> WriteBatch" where
  "WriteBatch_Put rep key val =
     (let rep = Batch_SetCount rep (Batch_Count rep + 1);
          rep = rep @ [vt_num kTypeValue];
          rep = PutLengthPrefixedSlice rep key
      in PutLengthPrefixedSlice rep val)"

definition WriteBatch_Delete :: "WriteBatch \<Rightarrow> bytes \<Rightarrow> WriteBatch" where
  "WriteBatch_Delete rep key =
     (let rep = Batch_SetCount rep (Batch_Count rep + 1);
          rep = rep @ [vt_num kTypeDeletion]
      in PutLengthPrefixedSlice rep key)"

definition Batch_Append :: "WriteBatch \<Rightarrow> WriteBatch \<Rightarrow> WriteBatch" where
  "Batch_Append dst src =
     (let dst = Batch_SetCount dst (Batch_Count dst + Batch_Count src) in dst @ drop kHeader src)"

definition Batch_SetContents :: "WriteBatch \<Rightarrow> bytes \<Rightarrow> WriteBatch" where
  "Batch_SetContents rep contents = contents"

text \<open>\<^verbatim>\<open>WriteBatch::Handler\<close>: its methods over a state; \<open>None\<close> is a call that does
  not return.\<close>

record 'h Handler =
  hPut :: "'h \<Rightarrow> bytes \<Rightarrow> bytes \<Rightarrow> 'h option"
  hDelete :: "'h \<Rightarrow> bytes \<Rightarrow> 'h option"

lemma GetLengthPrefixedSlice_shrinks: "length (snd (GetLengthPrefixedSlice input)) \<le> length input"
proof -
  have 1: "GetVarint32_loop sh r p = Some (v, q) \<Longrightarrow> length q \<le> length p" for sh r p v q
    by (induction sh r p rule: GetVarint32_loop.induct) (auto simp: Let_def split: if_splits)
  then have "GetVarint32 input = Some (v, q) \<Longrightarrow> length q \<le> length input" for v q
    by (simp add: GetVarint32_eq_loop)
  then show ?thesis by (fastforce simp: GetLengthPrefixedSlice_def split: option.splits prod.splits)
qed

text \<open>The loop: \<open>found\<close> and the input left; the result is an early return's status, or
  none when the input is used up, with \<open>found\<close>.\<close>

function Iterate_loop ::
  "'h Handler \<Rightarrow> 'h \<Rightarrow> int \<Rightarrow> bytes \<Rightarrow> (status option \<times> int \<times> 'h) option" where
  "Iterate_loop ops h found [] = Some (None, found, h)"
| "Iterate_loop ops h found (tag # input) =
     (let found = found + 1 in
      if tag = vt_num kTypeValue then
        (case GetLengthPrefixedSlice input of
           (None, input) \<Rightarrow> Some (Some (Corruption ''bad WriteBatch Put''), found, h)
         | (Some key, input) \<Rightarrow>
             (case GetLengthPrefixedSlice input of
                (None, input) \<Rightarrow> Some (Some (Corruption ''bad WriteBatch Put''), found, h)
              | (Some val, input) \<Rightarrow>
                  (case hPut ops h key val of
                     None \<Rightarrow> None | Some h \<Rightarrow> Iterate_loop ops h found input)))
      else if tag = vt_num kTypeDeletion then
        (case GetLengthPrefixedSlice input of
           (None, input) \<Rightarrow> Some (Some (Corruption ''bad WriteBatch Delete''), found, h)
         | (Some key, input) \<Rightarrow>
             (case hDelete ops h key of
                None \<Rightarrow> None | Some h \<Rightarrow> Iterate_loop ops h found input))
      else Some (Some (Corruption ''unknown WriteBatch tag''), found, h))"
  by pat_completeness auto
termination
proof (relation "measure (\<lambda>(_, _, _, input). length input)", goal_cases)
  case (2 ops h found tag input f r1 in1 k r2 in2 v h')
  then show ?case
    using GetLengthPrefixedSlice_shrinks [of input] GetLengthPrefixedSlice_shrinks [of in1]
    by (metis (no_types, lifting) case_prod_conv in_measure le_imp_less_Suc le_trans length_Cons snd_conv)
next
  case (3 ops h found tag input f r1 in1 k h')
  then show ?case
    using GetLengthPrefixedSlice_shrinks [of input]
    by (metis (no_types, lifting) case_prod_conv in_measure le_imp_less_Suc length_Cons snd_conv)
qed simp

declare Iterate_loop.simps(2) [simp del]

definition WriteBatch_Iterate :: "'h Handler \<Rightarrow> WriteBatch \<Rightarrow> 'h \<Rightarrow> (status \<times> 'h) option" where
  "WriteBatch_Iterate ops rep h =
     (if length rep < kHeader then Some (Corruption ''malformed WriteBatch (too small)'', h)
      else
        case Iterate_loop ops h 0 (drop kHeader rep) of
          None \<Rightarrow> None
        | Some (Some s, found, h) \<Rightarrow> Some (s, h)
        | Some (None, found, h) \<Rightarrow>
            if found \<noteq> sint (Batch_Count rep) then Some (Corruption ''WriteBatch has wrong count'', h)
            else Some (Status_OK, h))"

record MemTableInserter =
  ins_sequence :: u64
  ins_mem :: MemTable

definition Inserter_Put :: "MemTableInserter \<Rightarrow> bytes \<Rightarrow> bytes \<Rightarrow> MemTableInserter option" where
  "Inserter_Put h key val =
     map_option (\<lambda>m. h\<lparr>ins_mem := m, ins_sequence := ins_sequence h + 1\<rparr>)
       (MemTable_Add Bytewise_Compare (ins_mem h) (ins_sequence h) kTypeValue key val)"

definition Inserter_Delete :: "MemTableInserter \<Rightarrow> bytes \<Rightarrow> MemTableInserter option" where
  "Inserter_Delete h key =
     map_option (\<lambda>m. h\<lparr>ins_mem := m, ins_sequence := ins_sequence h + 1\<rparr>)
       (MemTable_Add Bytewise_Compare (ins_mem h) (ins_sequence h) kTypeDeletion key [])"

definition Batch_InsertInto :: "WriteBatch \<Rightarrow> MemTable \<Rightarrow> (status \<times> MemTable) option" where
  "Batch_InsertInto rep m =
     (let inserter = \<lparr>ins_sequence = Batch_Sequence rep, ins_mem = m\<rparr>
      in map_option (\<lambda>(s, h). (s, ins_mem h))
           (WriteBatch_Iterate \<lparr>hPut = Inserter_Put, hDelete = Inserter_Delete\<rparr> rep inserter))"

section \<open>The bytes of a batch\<close>

text \<open>The specification: a batch is a sequence number and a list of updates.\<close>

datatype Update = UPut bytes bytes | UDelete bytes

fun batch_apply :: "WriteBatch \<Rightarrow> Update \<Rightarrow> WriteBatch" where
  "batch_apply rep (UPut k v) = WriteBatch_Put rep k v"
| "batch_apply rep (UDelete k) = WriteBatch_Delete rep k"

fun update_bytes :: "Update \<Rightarrow> bytes" where
  "update_bytes (UPut k v) = vt_num kTypeValue # PutLengthPrefixedSlice [] k @ PutLengthPrefixedSlice [] v"
| "update_bytes (UDelete k) = vt_num kTypeDeletion # PutLengthPrefixedSlice [] k"

definition batch_bytes :: "u64 \<Rightarrow> Update list \<Rightarrow> WriteBatch" where
  "batch_bytes seq us = EncodeFixed64 seq @ EncodeFixed32 (of_nat (length us)) @ concat (map update_bytes us)"

fun update_ok :: "Update \<Rightarrow> bool" where
  "update_ok (UPut k v) = (length k < 2 ^ 32 \<and> length v < 2 ^ 32)"
| "update_ok (UDelete k) = (length k < 2 ^ 32)"

lemma WriteBatch_Clear_bytes: "WriteBatch_Clear = batch_bytes 0 []"
  by (simp add: WriteBatch_Clear_def batch_bytes_def kHeader_def EncodeFixed32_le EncodeFixed64_le numeral_eq_Suc)

lemma Batch_fields [simp]:
  "Batch_Count (batch_bytes seq us) = of_nat (length us)"
  "Batch_Sequence (batch_bytes seq us) = seq"
  "Batch_SetSequence (batch_bytes seq us) seq' = batch_bytes seq' us"
  "drop kHeader (batch_bytes seq us) = concat (map update_bytes us)"
  "\<not> length (batch_bytes seq us) < kHeader"
  by (simp_all add: Batch_Count_def Batch_Sequence_def Batch_SetSequence_def batch_bytes_def kHeader_def)

lemma Batch_SetCount_bytes:
  "Batch_SetCount (batch_bytes seq us) n = EncodeFixed64 seq @ EncodeFixed32 n @ concat (map update_bytes us)"
  by (simp add: Batch_SetCount_def batch_bytes_def)

lemma batch_apply_bytes [simp]: "batch_apply (batch_bytes seq us) u = batch_bytes seq (us @ [u])"
  by (cases u)
    (simp_all add: WriteBatch_Put_def WriteBatch_Delete_def Let_def Batch_SetCount_bytes batch_bytes_def [of seq "us @ _"]
      PutLengthPrefixedSlice_append [of "_ @ _"] PutLengthPrefixedSlice_append [of "_ # _"] add.commute)

lemma batch_build: "foldl batch_apply (batch_bytes seq us) us' = batch_bytes seq (us @ us')"
  by (induction us' arbitrary: us) simp_all

lemma Batch_Append_bytes:
  "Batch_Append (batch_bytes seq us) (batch_bytes seq' us') = batch_bytes seq (us @ us')"
  by (simp add: Batch_Append_def Batch_SetCount_bytes Let_def) (simp add: batch_bytes_def)

section \<open>Replaying a batch\<close>

fun handle :: "'h Handler \<Rightarrow> 'h \<Rightarrow> Update list \<Rightarrow> 'h option" where
  "handle ops h [] = Some h"
| "handle ops h (UPut k v # us) = Option.bind (hPut ops h k v) (\<lambda>h. handle ops h us)"
| "handle ops h (UDelete k # us) = Option.bind (hDelete ops h k) (\<lambda>h. handle ops h us)"

lemma Iterate_loop_updates:
  "\<forall>u\<in>set us. update_ok u \<Longrightarrow>
    Iterate_loop ops h found (concat (map update_bytes us)) =
      map_option (\<lambda>h. (None, found + int (length us), h)) (handle ops h us)"
proof (induction us arbitrary: h found)
  case (Cons u us)
  show ?case
  proof (cases u)
    case (UPut k v)
    with Cons show ?thesis
      by (cases "hPut ops h k v") (auto simp: Iterate_loop.simps(2) Let_def add.assoc)
  next
    case (UDelete k)
    with Cons show ?thesis
      by (cases "hDelete ops h k") (auto simp: Iterate_loop.simps(2) Let_def add.assoc)
  qed
qed simp

lemma Iterate_updates:
  assumes "\<forall>u\<in>set us. update_ok u" and "length us < 2 ^ 31"
  shows "WriteBatch_Iterate ops (batch_bytes seq us) h = map_option (Pair Status_OK) (handle ops h us)"
proof -
  have "sint (of_nat (length us) :: u32) = int (length us)"
    using assms(2) by (simp add: signed_of_nat signed_take_bit_eq_if_positive take_bit_int_eq_self bit_iff_odd)
  then show ?thesis
    using Iterate_loop_updates [OF assms(1), of ops h 0]
    by (cases "handle ops h us") (simp_all add: WriteBatch_Iterate_def)
qed

text \<open>The entries a batch adds: consecutive sequence numbers from the batch's own.\<close>

fun numbered :: "u64 \<Rightarrow> Update list \<Rightarrow> Entry list" where
  "numbered seq [] = []"
| "numbered seq (UPut k v # us) = \<lparr>e_seq = seq, e_type = kTypeValue, e_key = k, e_value = v\<rparr> # numbered (seq + 1) us"
| "numbered seq (UDelete k # us) = \<lparr>e_seq = seq, e_type = kTypeDeletion, e_key = k, e_value = []\<rparr> # numbered (seq + 1) us"

lemma handle_inserter:
  "handle \<lparr>hPut = Inserter_Put, hDelete = Inserter_Delete\<rparr> h us =
    map_option (\<lambda>m. \<lparr>ins_sequence = ins_sequence h + of_nat (length us), ins_mem = m\<rparr>)
      (MemTable_Adds (ins_mem h) (numbered (ins_sequence h) us))"
proof (induction us arbitrary: h)
  case Nil
  show ?case by simp
next
  case (Cons u us)
  show ?case
  proof (cases u)
    case (UPut k v)
    with Cons show ?thesis
      by (cases "MemTable_Add Bytewise_Compare (ins_mem h) (ins_sequence h) kTypeValue k v")
        (simp_all add: Inserter_Put_def ac_simps)
  next
    case (UDelete k)
    with Cons show ?thesis
      by (cases "MemTable_Add Bytewise_Compare (ins_mem h) (ins_sequence h) kTypeDeletion k []")
        (simp_all add: Inserter_Delete_def ac_simps)
  qed
qed

lemma InsertInto_adds:
  assumes "\<forall>u\<in>set us. update_ok u" and "length us < 2 ^ 31"
  shows "Batch_InsertInto (batch_bytes seq us) m =
    map_option (Pair Status_OK) (MemTable_Adds m (numbered seq us))"
  by (simp add: Iterate_updates [OF assms] Batch_InsertInto_def handle_inserter Let_def option.map_comp comp_def)

lemma numbered_seqs:
  "unat seq + length us < 2 ^ 64 \<Longrightarrow> map (\<lambda>e. unat (e_seq e)) (numbered seq us) = [unat seq..<unat seq + length us]"
proof (induction us arbitrary: seq)
  case (Cons u us)
  have s: "unat (seq + 1) = Suc (unat seq)" using Cons.prems by (simp add: unat_word_ariths)
  have "map (\<lambda>e. unat (e_seq e)) (numbered (seq + 1) us) = [Suc (unat seq)..<Suc (unat seq) + length us]"
    using Cons.IH [of "seq + 1"] Cons.prems by (simp add: s)
  moreover have "[unat seq..<unat seq + length (u # us)] = unat seq # [Suc (unat seq)..<Suc (unat seq) + length us]"
    by (simp add: upt_conv_Cons del: upt_Suc)
  ultimately show ?case by (cases u) (simp_all del: upt_Suc)
qed simp

lemma numbered_distinct:
  assumes "unat seq + length us < 2 ^ 64" shows "distinct (map e_seq (numbered seq us))"
proof -
  have "distinct (map unat (map e_seq (numbered seq us)))" by (simp add: o_def numbered_seqs [OF assms])
  then show ?thesis unfolding distinct_map [of unat] by blast
qed

text \<open>Updates small enough for the 32-bit lengths of an entry.\<close>

fun update_small :: "Update \<Rightarrow> bool" where
  "update_small (UPut k v) = (length k + 8 < 2 ^ 32 \<and> length v < 2 ^ 32)"
| "update_small (UDelete k) = (length k + 8 < 2 ^ 32)"

lemma update_small_ok: "update_small u \<Longrightarrow> update_ok u"
  by (cases u) auto

lemma numbered_ok:
  "\<forall>u\<in>set us. update_small u \<Longrightarrow> unat seq + length us \<le> 2 ^ 56 \<Longrightarrow> \<forall>e\<in>set (numbered seq us). entry_ok e"
proof (induction us arbitrary: seq)
  case (Cons u us)
  have b: "unat seq < 2 ^ 56" using Cons.prems(2) by simp
  then have "unat (seq + 1) = Suc (unat seq)" by (simp add: unat_word_ariths)
  then have "\<forall>e\<in>set (numbered (seq + 1) us). entry_ok e" using Cons.IH [of "seq + 1"] Cons.prems by simp
  then show ?case using Cons.prems b by (cases u) (auto simp: entry_ok_def seq_bound_iff)
qed simp

section \<open>Properties\<close>

text \<open>C8. Applying a batch: a batch built from any updates and given a sequence number is
  inserted into a new memtable with status OK, and a later \<^verbatim>\<open>Get\<close> answers from the
  newest update of the key that the snapshot sees, update \<open>i\<close> having sequence number
  \<open>seq + i\<close>.\<close>

theorem WriteBatch_applied:
  assumes "\<forall>u\<in>set us. update_small u" and "length us < 2 ^ 31" and "unat seq + length us \<le> 2 ^ 56"
    and "s \<le> kMaxSequenceNumber" and "length k + 8 < 2 ^ 32"
  shows "\<exists>m. Batch_InsertInto (Batch_SetSequence (foldl batch_apply WriteBatch_Clear us) seq) MemTable_new =
      Some (Status_OK, m) \<and>
    MemTable_Get Bytewise_Compare m (LookupKey_new k s) v st =
      Some (get_answer (newest (numbered seq us) k s) v st)"
proof -
  have ok: "\<forall>u\<in>set us. update_ok u" using assms(1) update_small_ok by blast
  have d: "distinct (map e_seq (numbered seq us))" using assms(3) by (intro numbered_distinct) simp
  obtain m where m: "MemTable_Adds MemTable_new (numbered seq us) = Some m" "mem_rep m (numbered seq us)"
    using mem_rep_Adds [OF mem_rep_new numbered_ok [OF assms(1,3)]] d by auto
  have "Batch_SetSequence (foldl batch_apply WriteBatch_Clear us) seq = batch_bytes seq us"
    by (simp add: WriteBatch_Clear_bytes batch_build)
  with InsertInto_adds [OF ok assms(2), of seq MemTable_new] m MemTable_Get_spec [OF m(2) assms(4,5)]
  show ?thesis by simp
qed

theorem WriteBatch_applied_witness:
  "\<exists>m. Batch_InsertInto (Batch_SetSequence (foldl batch_apply WriteBatch_Clear [UPut [1] [2], UDelete [1]]) 7)
      MemTable_new = Some (Status_OK, m) \<and>
    MemTable_Get Bytewise_Compare m (LookupKey_new [1] 7) [] None =
      Some (get_answer (newest (numbered 7 [UPut [1] [2], UDelete [1]]) [1] 7) [] None)"
  by (rule WriteBatch_applied) (simp_all add: kMaxSequenceNumber_def)

text \<open>C35. Replaying a batch into any handler calls it with exactly the updates of the batch,
  in order; appending one batch to another is replaying the two; and a batch whose count
  field is wrong is reported as corrupt after its updates were replayed.\<close>

theorem WriteBatch_replay:
  assumes "\<forall>u\<in>set (us @ us'). update_ok u" and "length us + length us' < 2 ^ 31"
  shows "WriteBatch_Iterate ops (Batch_Append (foldl batch_apply WriteBatch_Clear us)
        (foldl batch_apply WriteBatch_Clear us')) h =
      map_option (Pair Status_OK) (handle ops h (us @ us')) \<and>
    (sint n \<noteq> int (length us) \<longrightarrow>
      WriteBatch_Iterate ops (Batch_SetCount (foldl batch_apply WriteBatch_Clear us) n) h =
        map_option (Pair (Corruption ''WriteBatch has wrong count'')) (handle ops h us))"
proof -
  have "WriteBatch_Iterate ops (batch_bytes 0 (us @ us')) h = map_option (Pair Status_OK) (handle ops h (us @ us'))"
    using assms by (intro Iterate_updates) auto
  moreover have "WriteBatch_Iterate ops (Batch_SetCount (batch_bytes 0 us) n) h =
      map_option (Pair (Corruption ''WriteBatch has wrong count'')) (handle ops h us)"
    if "sint n \<noteq> int (length us)"
    using Iterate_loop_updates [of us ops h 0] assms(1) that
    by (cases "handle ops h us")
      (simp_all add: WriteBatch_Iterate_def Batch_SetCount_bytes kHeader_def Batch_Count_def)
  ultimately show ?thesis by (simp add: WriteBatch_Clear_bytes batch_build Batch_Append_bytes)
qed

theorem WriteBatch_replay_witness:
  "let ops = \<lparr>hPut = (\<lambda>h k v. Some (h @ [k, v])), hDelete = (\<lambda>h k. Some (h @ [k]))\<rparr> in
    WriteBatch_Iterate ops (Batch_Append (foldl batch_apply WriteBatch_Clear [UPut [1] [2]])
        (foldl batch_apply WriteBatch_Clear [UDelete [3]])) [] =
      map_option (Pair Status_OK) (handle ops [] ([UPut [1] [2]] @ [UDelete [3]])) \<and>
    (sint (5 :: u32) \<noteq> int (length [UPut [1] [2]]) \<longrightarrow>
      WriteBatch_Iterate ops (Batch_SetCount (foldl batch_apply WriteBatch_Clear [UPut [1] [2]]) 5) [] =
        map_option (Pair (Corruption ''WriteBatch has wrong count'')) (handle ops [] [UPut [1] [2]]))"
  unfolding Let_def by (rule WriteBatch_replay) simp_all

end
