(* ===== verification/Hash.thy ===== *)
theory Hash
  imports Coding
begin

text \<open>
  \<^verbatim>\<open>util/hash.cc\<close>: the 32-bit hash of a byte string. The loop takes four bytes at a
  time, the \<^verbatim>\<open>switch\<close> falls through its cases for the 1 to 3 bytes left.
\<close>

definition hash_m :: u32 where
  "hash_m = 0xc6a4a793"

text \<open>One iteration of the \<^verbatim>\<open>while\<close> loop on the word \<^verbatim>\<open>w\<close>.\<close>

definition hash_mix :: "u32 \<Rightarrow> u32 \<Rightarrow> u32" where
  "hash_mix h w = (let h = (h + w) * hash_m in h XOR drop_bit 16 h)"

fun hash_loop :: "u32 \<Rightarrow> bytes \<Rightarrow> u32 \<times> bytes" where
  "hash_loop h (a # b # c # d # data) = hash_loop (hash_mix h (DecodeFixed32 [a, b, c, d])) data"
| "hash_loop h data = (h, data)"

definition hash_finish :: "u32 \<Rightarrow> u32" where
  "hash_finish h = (let h = h * hash_m in h XOR drop_bit 24 h)"

definition hash_rest :: "u32 \<Rightarrow> bytes \<Rightarrow> u32" where
  "hash_rest h data =
     (case data of
        [a, b, c] \<Rightarrow>
          (let h = h + push_bit 16 (ucast c); h = h + push_bit 8 (ucast b); h = h + ucast a
           in hash_finish h)
      | [a, b] \<Rightarrow> (let h = h + push_bit 8 (ucast b); h = h + ucast a in hash_finish h)
      | [a] \<Rightarrow> (let h = h + ucast a in hash_finish h)
      | _ \<Rightarrow> h)"

text \<open>\<^verbatim>\<open>n * m\<close> is a 64-bit product, cut to 32 bits when it is combined into \<^verbatim>\<open>h\<close>.\<close>

definition Hash :: "bytes \<Rightarrow> u32 \<Rightarrow> u32" where
  "Hash data seed =
     (let n = (of_nat (length data) :: u64);
          h = ucast (ucast seed XOR (n * ucast hash_m));
          (h, rest) = hash_loop h data
      in hash_rest h rest)"

lemma hash_loop_rest: "length (snd (hash_loop h data)) < 4"
  by (induction h data rule: hash_loop.induct) auto

end
