(* ===== verification/Bloom.thy ===== *)
theory Bloom
  imports Hash
begin

text \<open>
  \<^verbatim>\<open>util/bloom.cc\<close>: the Bloom filter policy. A policy is its two fields; the filter is
  the bit array followed by the number of probes. The constructor's floating-point product
  \<^verbatim>\<open>bits_per_key * 0.69\<close> is truncated and then forced into 1..30: for a number of
  bits below 44 the exact product is at least a hundredth away from every integer it is not
  equal to, and from 44 on it is above 30, so the exact rational product gives the same
  \<^verbatim>\<open>k_\<close>.
\<close>

section \<open>The code\<close>

record bloom_policy =
  bp_bits_per_key :: nat
  bp_k :: nat

definition BloomHash :: "bytes \<Rightarrow> u32" where
  "BloomHash key = Hash key 0xbc9f1d34"

definition BloomFilterPolicy :: "nat \<Rightarrow> bloom_policy" where
  "BloomFilterPolicy bits_per_key =
     (let k = bits_per_key * 69 div 100;
          k = (if k < 1 then 1 else k);
          k = (if k > 30 then 30 else k)
      in \<lparr>bp_bits_per_key = bits_per_key, bp_k = k\<rparr>)"

definition bloom_delta :: "u32 \<Rightarrow> u32" where
  "bloom_delta h = drop_bit 17 h OR push_bit 15 h"

text \<open>
  The inner loops over the probes: \<open>j\<close> iterations left, \<open>array\<close> the bytes of the filter,
  \<open>bits\<close> its number of bits.
\<close>

fun set_probes :: "nat \<Rightarrow> u32 \<Rightarrow> u32 \<Rightarrow> nat \<Rightarrow> bytes \<Rightarrow> bytes" where
  "set_probes 0 h delta bits array = array"
| "set_probes (Suc j) h delta bits array =
     (let bitpos = unat h mod bits;
          array = array[bitpos div 8 := array ! (bitpos div 8) OR push_bit (bitpos mod 8) 1]
      in set_probes j (h + delta) delta bits array)"

fun test_probes :: "nat \<Rightarrow> u32 \<Rightarrow> u32 \<Rightarrow> nat \<Rightarrow> bytes \<Rightarrow> bool" where
  "test_probes 0 h delta bits array = True"
| "test_probes (Suc j) h delta bits array =
     (let bitpos = unat h mod bits in
      if array ! (bitpos div 8) AND push_bit (bitpos mod 8) 1 = 0 then False
      else test_probes j (h + delta) delta bits array)"

fun add_keys :: "nat \<Rightarrow> nat \<Rightarrow> bytes list \<Rightarrow> bytes \<Rightarrow> bytes" where
  "add_keys k bits [] array = array"
| "add_keys k bits (key # keys) array =
     (let h = BloomHash key; delta = bloom_delta h
      in add_keys k bits keys (set_probes k h delta bits array))"

text \<open>
  \<open>size_t\<close> is 64 bits wide, so the product of the number of keys and the bits per key is
  taken modulo \<open>2 ^ 64\<close>, as is the sum that rounds it up to bytes.
\<close>

definition bloom_bytes :: "bloom_policy \<Rightarrow> nat \<Rightarrow> nat" where
  "bloom_bytes p n =
     (let bits = (n * bp_bits_per_key p) mod 2 ^ 64;
          bits = (if bits < 64 then 64 else bits)
      in ((bits + 7) mod 2 ^ 64) div 8)"

definition Bloom_CreateFilter :: "bloom_policy \<Rightarrow> bytes list \<Rightarrow> bytes \<Rightarrow> bytes" where
  "Bloom_CreateFilter p keys dst =
     (let bytes = bloom_bytes p (length keys);
          bits = bytes * 8;
          array = add_keys (bp_k p) bits keys (replicate bytes 0)
      in dst @ array @ [of_nat (bp_k p)])"

text \<open>\<^verbatim>\<open>char\<close> is signed: a last byte of 128 or more becomes a huge \<^verbatim>\<open>size_t\<close>.\<close>

definition Bloom_KeyMayMatch :: "bytes \<Rightarrow> bytes \<Rightarrow> bool" where
  "Bloom_KeyMayMatch key bloom_filter =
     (let len = length bloom_filter in
      if len < 2 then False
      else
        let bits = (len - 1) * 8;
            k = unat (scast (bloom_filter ! (len - 1)) :: u64)
        in if k > 30 then True
           else let h = BloomHash key; delta = bloom_delta h
                in test_probes k h delta bits bloom_filter)"

section \<open>No false negatives\<close>

text \<open>Setting a bit keeps the bits that are set; \<open>le_bits\<close> is the order that gives.\<close>

definition le_bits :: "bytes \<Rightarrow> bytes \<Rightarrow> bool" where
  "le_bits a b \<longleftrightarrow> length a = length b \<and> (\<forall>i < length a. a ! i OR b ! i = b ! i)"

lemma le_bits_refl [simp]: "le_bits a a"
  by (simp add: le_bits_def)

lemma le_bits_trans: "le_bits a b \<Longrightarrow> le_bits b c \<Longrightarrow> le_bits a c"
  unfolding le_bits_def
proof safe
  fix i
  assume l: "length a = length b" "length b = length c" "i < length a"
    and ab: "\<forall>i < length a. a ! i OR b ! i = b ! i" and bc: "\<forall>i < length b. b ! i OR c ! i = c ! i"
  have "a ! i OR c ! i = (a ! i OR b ! i) OR c ! i" using bc l by (simp add: or.assoc)
  also have "\<dots> = c ! i" using ab bc l by simp
  finally show "a ! i OR c ! i = c ! i" .
qed simp

lemma le_bits_update: "le_bits a (a[i := a ! i OR x])"
proof -
  have "a ! j OR a[i := a ! i OR x] ! j = a[i := a ! i OR x] ! j" if "j < length a" for j
    using that by (cases "j = i") simp_all
  then show ?thesis by (simp add: le_bits_def)
qed

lemma set_probes_le: "le_bits a (set_probes j h d bits a)"
proof (induction j arbitrary: h a)
  case (Suc j)
  show ?case unfolding set_probes.simps Let_def
    by (rule le_bits_trans [OF le_bits_update Suc])
qed simp

lemma length_set_probes [simp]: "length (set_probes j h d bits a) = length a"
  using set_probes_le by (metis le_bits_def)

lemma add_keys_le: "le_bits a (add_keys k bits keys a)"
  by (induction keys arbitrary: a) (auto simp: Let_def intro: le_bits_trans set_probes_le)

lemma length_add_keys [simp]: "length (add_keys k bits keys a) = length a"
  using add_keys_le by (metis le_bits_def)

lemma bit_test_mono:
  assumes "le_bits a b" "i < length a" "a ! i AND m \<noteq> 0"
  shows "b ! i AND m \<noteq> 0"
proof
  assume "b ! i AND m = 0"
  moreover have "b ! i = a ! i OR b ! i" using assms(1,2) by (simp add: le_bits_def)
  ultimately have "(a ! i AND m) OR (b ! i AND m) = 0" by (metis bit.conj_disj_distrib2)
  with \<open>b ! i AND m = 0\<close> assms(3) show False by simp
qed

lemma test_probes_mono:
  assumes "le_bits a b" "0 < bits" "bits \<le> 8 * length a"
  shows "test_probes j h d bits a \<Longrightarrow> test_probes j h d bits (b @ rest)"
proof (induction j arbitrary: h)
  case (Suc j)
  let ?i = "unat h mod bits div 8"
  have "unat h mod bits < 8 * length a"
    using assms(2,3) by (meson less_le_trans mod_less_divisor)
  then have i: "?i < length a" by (simp add: less_mult_imp_div_less mult.commute)
  with assms(1) have "(b @ rest) ! ?i = b ! ?i" by (simp add: nth_append le_bits_def)
  then show ?case
    using Suc bit_test_mono [OF assms(1) i] by (auto simp: Let_def split: if_splits)
qed simp

lemma set_probes_test:
  assumes "0 < bits" "bits \<le> 8 * length a"
  shows "test_probes j h d bits (set_probes j h d bits a)"
  using assms
proof (induction j arbitrary: h a)
  case (Suc j)
  let ?p = "unat h mod bits"
  let ?a = "a[?p div 8 := a ! (?p div 8) OR push_bit (?p mod 8) 1]"
  let ?b = "set_probes j (h + d) d bits ?a"
  have "?p < 8 * length a" using Suc.prems by (meson less_le_trans mod_less_divisor)
  then have i: "?p div 8 < length ?a" by (simp add: less_mult_imp_div_less mult.commute)
  have m: "push_bit (?p mod 8) 1 \<noteq> (0 :: byte)"
    using bit_push_bit_iff [of "?p mod 8" "1 :: byte" "?p mod 8"] by force
  have "?a ! (?p div 8) AND push_bit (?p mod 8) 1 = push_bit (?p mod 8) 1"
    using i by (simp add: bit.conj_disj_distrib2)
  with m have "?b ! (?p div 8) AND push_bit (?p mod 8) 1 \<noteq> 0"
    by (intro bit_test_mono [OF set_probes_le i]) simp
  moreover have "test_probes j (h + d) d bits ?b" using Suc by simp
  ultimately show ?case by (simp add: Let_def)
qed simp

lemma add_keys_test:
  assumes "0 < bits" "bits \<le> 8 * length a" "key \<in> set keys"
  shows "test_probes k (BloomHash key) (bloom_delta (BloomHash key)) bits
    (add_keys k bits keys a @ rest)"
  using assms
proof (induction keys arbitrary: a)
  case (Cons x keys)
  let ?s = "set_probes k (BloomHash x) (bloom_delta (BloomHash x)) bits a"
  show ?case
  proof (cases "key = x")
    case True
    have "test_probes k (BloomHash x) (bloom_delta (BloomHash x)) bits ?s"
      using Cons.prems by (intro set_probes_test) auto
    with True show ?thesis
      using Cons.prems test_probes_mono [OF add_keys_le] by (simp add: Let_def)
  next
    case False
    with Cons show ?thesis by (simp add: Let_def)
  qed
qed simp

lemma k_bounds: "1 \<le> bp_k (BloomFilterPolicy b)" "bp_k (BloomFilterPolicy b) \<le> 30"
  by (simp_all add: BloomFilterPolicy_def Let_def)

lemma bits_per_key_policy [simp]: "bp_bits_per_key (BloomFilterPolicy b) = b"
  by (simp add: BloomFilterPolicy_def Let_def)

lemma bloom_bytes_pos:
  assumes "n * bp_bits_per_key p < 2 ^ 64 - 7" shows "8 \<le> bloom_bytes p n"
  using assms by (auto simp: bloom_bytes_def Let_def)

lemma CreateFilter_KeyMayMatch:
  assumes "key \<in> set keys" and "length keys * bits_per_key < 2 ^ 64 - 7"
  shows "\<exists>f. Bloom_CreateFilter (BloomFilterPolicy bits_per_key) keys dst = dst @ f \<and>
    Bloom_KeyMayMatch key f"
proof -
  let ?p = "BloomFilterPolicy bits_per_key"
  let ?n = "bloom_bytes ?p (length keys)"
  let ?a = "add_keys (bp_k ?p) (?n * 8) keys (replicate ?n 0)"
  have n: "8 \<le> ?n" using assms(2) by (intro bloom_bytes_pos) simp
  have len: "length (?a @ [of_nat (bp_k ?p)]) = ?n + 1" by simp
  have last: "(?a @ [of_nat (bp_k ?p)]) ! (?n + 1 - 1) = of_nat (bp_k ?p)"
    by (simp add: nth_append)
  have k: "unat (scast (of_nat (bp_k ?p) :: byte) :: u64) = bp_k ?p"
  proof -
    have "sint (of_nat (bp_k ?p) :: byte) = int (bp_k ?p)"
      using k_bounds [of bits_per_key]
      by (simp add: sint_uint unsigned_of_nat take_bit_nat_eq_self signed_take_bit_int_eq_self)
    then show ?thesis
      using k_bounds [of bits_per_key]
      by (simp add: scast_eq unat_of_nat_lt flip: of_nat_of_int_iff)
  qed
  have "test_probes (bp_k ?p) (BloomHash key) (bloom_delta (BloomHash key)) (?n * 8)
      (?a @ [of_nat (bp_k ?p)])"
    using n assms(1) by (intro add_keys_test) auto
  then have "Bloom_KeyMayMatch key (?a @ [of_nat (bp_k ?p)])"
    using n k k_bounds [of bits_per_key]
    unfolding Bloom_KeyMayMatch_def len last Let_def by simp
  then show ?thesis by (auto simp: Bloom_CreateFilter_def Let_def)
qed

section \<open>The interface\<close>

text \<open>\<^verbatim>\<open>include/leveldb/filter_policy.h\<close>: a policy appends a filter for some keys, and the filter
  matches each of them; \<open>fits\<close> bounds the number of keys.\<close>

locale filter_policy =
  fixes create :: "bytes list \<Rightarrow> bytes \<Rightarrow> bytes" and matches :: "bytes \<Rightarrow> bytes \<Rightarrow> bool" and fits :: "nat \<Rightarrow> bool"
  assumes create_matches: "key \<in> set keys \<Longrightarrow> fits (length keys) \<Longrightarrow> \<exists>f. create keys dst = dst @ f \<and> matches key f"
begin

lemma create_all:
  assumes "keys \<noteq> []" "fits (length keys)"
  obtains f where "create keys dst = dst @ f" "\<And>key. key \<in> set keys \<Longrightarrow> matches key f"
proof -
  obtain f where f: "create keys dst = dst @ f"
    using create_matches [OF hd_in_set [OF assms(1)] assms(2)] by blast
  show thesis
  proof (rule that [OF f])
    fix key assume "key \<in> set keys"
    from create_matches [OF this assms(2), of dst] f show "matches key f" by auto
  qed
qed

end

interpretation bloom: filter_policy "Bloom_CreateFilter (BloomFilterPolicy bits_per_key)" Bloom_KeyMayMatch
  "\<lambda>n. n * bits_per_key < 2 ^ 64 - 7" for bits_per_key
  by unfold_locales (rule CreateFilter_KeyMayMatch)

section \<open>Properties\<close>

text \<open>C32. The Bloom filter has no false negatives: a filter made for a set of keys,
  appended to any buffer, matches each of the keys.\<close>

theorem Bloom_no_false_negatives:
  assumes "key \<in> set keys" and "length keys * bits_per_key < 2 ^ 64 - 7"
  shows "Bloom_KeyMayMatch key
    (drop (length dst) (Bloom_CreateFilter (BloomFilterPolicy bits_per_key) keys dst))"
  using CreateFilter_KeyMayMatch [OF assms, of dst] by auto

theorem Bloom_no_false_negatives_witness:
  "Bloom_KeyMayMatch [7] (drop (length [1 :: byte]) (Bloom_CreateFilter (BloomFilterPolicy 10) [[5], [7]] [1]))"
  by (rule Bloom_no_false_negatives) simp_all

end
