(* ===== verification/Block_Builder.thy ===== *)
theory Block_Builder
  imports Comparator Coding
begin

text \<open>
  \<^verbatim>\<open>table/block_builder.cc\<close>: blocks of prefix-compressed entries with restart points. The
  lemmas describe the bytes of a finished block as a list of entries with shared prefixes
  (\<open>block_layout\<close>) and show that the builder keeps it; theory \<open>Block\<close> reads such blocks.
\<close>

section \<open>The code\<close>

record BlockBuilder =
  bb_interval :: int
  bb_buffer :: bytes
  bb_restarts :: "u32 list"
  bb_counter :: int
  bb_finished :: bool
  bb_last_key :: bytes

text \<open>\<open>interval\<close> is \<^verbatim>\<open>options->block_restart_interval\<close>.\<close>

definition BlockBuilder_new :: "int \<Rightarrow> BlockBuilder" where
  "BlockBuilder_new interval =
     \<lparr>bb_interval = interval, bb_buffer = [], bb_restarts = [0], bb_counter = 0,
      bb_finished = False, bb_last_key = []\<rparr>"

definition bb_Reset :: "BlockBuilder \<Rightarrow> BlockBuilder" where
  "bb_Reset b =
     b\<lparr>bb_buffer := [], bb_restarts := [0], bb_counter := 0, bb_finished := False, bb_last_key := []\<rparr>"

definition bb_CurrentSizeEstimate :: "BlockBuilder \<Rightarrow> nat" where
  "bb_CurrentSizeEstimate b = length (bb_buffer b) + length (bb_restarts b) * 4 + 4"

definition bb_empty :: "BlockBuilder \<Rightarrow> bool" where
  "bb_empty b \<longleftrightarrow> bb_buffer b = []"

definition bb_Finish :: "BlockBuilder \<Rightarrow> bytes \<times> BlockBuilder" where
  "bb_Finish b =
     (let buf = foldl PutFixed32 (bb_buffer b) (bb_restarts b);
          buf = PutFixed32 buf (of_nat (length (bb_restarts b)))
      in (buf, b\<lparr>bb_buffer := buf, bb_finished := True\<rparr>))"

text \<open>The loop that finds how much to share: \<^verbatim>\<open>shared\<close> runs up to the shorter length.\<close>

function shared_loop :: "bytes \<Rightarrow> bytes \<Rightarrow> nat \<Rightarrow> nat" where
  "shared_loop last_key_piece key shared =
     (let min_length = min (length last_key_piece) (length key) in
      if shared < min_length \<and> last_key_piece ! shared = key ! shared
      then shared_loop last_key_piece key (shared + 1) else shared)"
  by pat_completeness auto
termination
  by (relation "measure (\<lambda>(l, k, i). min (length l) (length k) - i)") auto

declare shared_loop.simps [simp del]

definition bb_Add :: "BlockBuilder \<Rightarrow> bytes \<Rightarrow> bytes \<Rightarrow> BlockBuilder" where
  "bb_Add b key val =
     (let last_key_piece = bb_last_key b;
          sharing = bb_counter b < bb_interval b;
          shared = (if sharing then shared_loop last_key_piece key 0 else 0);
          restarts = (if sharing then bb_restarts b
                      else bb_restarts b @ [of_nat (length (bb_buffer b))]);
          counter = (if sharing then bb_counter b else 0);
          non_shared = length key - shared;
          buf = PutVarint32 (bb_buffer b) (of_nat shared);
          buf = PutVarint32 buf (of_nat non_shared);
          buf = PutVarint32 buf (of_nat (length val));
          buf = buf @ take non_shared (drop shared key);
          buf = buf @ val;
          last_key = take shared (bb_last_key b) @ take non_shared (drop shared key)
      in b\<lparr>bb_buffer := buf, bb_restarts := restarts, bb_counter := counter + 1, bb_last_key := last_key\<rparr>)"

section \<open>The layout of a block\<close>

text \<open>An entry is the length of the shared prefix, the key and the value.\<close>

type_synonym item = "nat \<times> bytes \<times> bytes"

fun item_key :: "item \<Rightarrow> bytes" where "item_key (sh, k, v) = k"
fun item_value :: "item \<Rightarrow> bytes" where "item_value (sh, k, v) = v"
fun item_kv :: "item \<Rightarrow> bytes \<times> bytes" where "item_kv (sh, k, v) = (k, v)"

fun item_bytes :: "item \<Rightarrow> bytes" where
  "item_bytes (sh, k, v) =
     EncodeVarint32 (of_nat sh) @ EncodeVarint32 (of_nat (length k - sh)) @
     EncodeVarint32 (of_nat (length v)) @ drop sh k @ v"

definition items_bytes :: "item list \<Rightarrow> bytes" where
  "items_bytes its = concat (map item_bytes its)"

text \<open>Where entry \<open>i\<close> starts.\<close>

definition item_off :: "item list \<Rightarrow> nat \<Rightarrow> nat" where
  "item_off its i = length (items_bytes (take i its))"

fun shares :: "bytes \<Rightarrow> item \<Rightarrow> bool" where
  "shares prev (sh, k, v) \<longleftrightarrow> sh \<le> length prev \<and> sh \<le> length k \<and> take sh k = take sh prev"

text \<open>\<open>rs\<close> are the entries at the restart points: they share nothing.\<close>

definition items_ok :: "item list \<Rightarrow> nat list \<Rightarrow> bool" where
  "items_ok its rs \<longleftrightarrow>
     (\<forall>i<length its. shares (if i = 0 then [] else item_key (its ! (i - 1))) (its ! i)) \<and>
     rs \<noteq> [] \<and> hd rs = 0 \<and> sorted_wrt (<) rs \<and>
     (\<forall>r\<in>set rs. r < length its \<and> fst (its ! r) = 0 \<or> r = 0 \<and> its = [])"

definition restart_bytes :: "item list \<Rightarrow> nat list \<Rightarrow> bytes" where
  "restart_bytes its rs = concat (map (\<lambda>r. EncodeFixed32 (of_nat (item_off its r))) rs)"

definition block_layout :: "item list \<Rightarrow> nat list \<Rightarrow> bytes" where
  "block_layout its rs = items_bytes its @ restart_bytes its rs @ EncodeFixed32 (of_nat (length rs))"

lemma items_bytes_simps [simp]:
  "items_bytes [] = []" "items_bytes (i # its) = item_bytes i @ items_bytes its"
  "items_bytes (its @ its') = items_bytes its @ items_bytes its'"
  by (simp_all add: items_bytes_def)

lemma item_off_0 [simp]: "item_off its 0 = 0"
  by (simp add: item_off_def)

lemma item_off_Suc: "i < length its \<Longrightarrow> item_off its (Suc i) = item_off its i + length (item_bytes (its ! i))"
  by (simp add: item_off_def take_Suc_conv_app_nth)

lemma item_off_all: "item_off its (length its) = length (items_bytes its)"
  by (simp add: item_off_def)

lemma item_off_append: "i \<le> length its \<Longrightarrow> item_off (its @ its') i = item_off its i"
  by (simp add: item_off_def)

lemma item_bytes_min: "3 \<le> length (item_bytes it)"
proof -
  have 1: "1 \<le> length (EncodeVarint32 v)" for v :: u32
    by (simp add: EncodeVarint32_def Let_def)
  obtain sh k v where "it = (sh, k, v)" by (cases it)
  then show ?thesis using 1 [of "of_nat sh"] 1 [of "of_nat (length k - sh)"] 1 [of "of_nat (length v)"] by simp
qed

lemma item_off_mono: "i \<le> j \<Longrightarrow> item_off its i \<le> item_off its j"
proof -
  assume "i \<le> j"
  then have "take j its = take i its @ take (j - i) (drop i its)" by (metis le_add_diff_inverse take_add)
  then show ?thesis by (simp add: item_off_def)
qed

lemma item_off_less: "i < j \<Longrightarrow> j \<le> length its \<Longrightarrow> item_off its i < item_off its j"
proof -
  assume "i < j" "j \<le> length its"
  then have "item_off its (Suc i) \<le> item_off its j" "item_off its i < item_off its (Suc i)"
    using item_off_mono [of "Suc i" j its] item_off_Suc [of i its] item_bytes_min [of "its ! i"] by auto
  then show ?thesis by simp
qed

lemma items_bytes_split:
  "i < length its \<Longrightarrow> drop (item_off its i) (items_bytes its) = item_bytes (its ! i) @ items_bytes (drop (Suc i) its)"
proof -
  assume i: "i < length its"
  have "its = take i its @ its ! i # drop (Suc i) its" using i by (rule id_take_nth_drop)
  then have "items_bytes its = items_bytes (take i its) @ item_bytes (its ! i) @ items_bytes (drop (Suc i) its)"
    by (metis items_bytes_simps(2,3))
  then show ?thesis by (simp add: item_off_def)
qed

lemma length_restart_bytes [simp]: "length (restart_bytes its rs) = 4 * length rs"
  by (induction rs) (simp_all add: restart_bytes_def)

lemma restart_bytes_nth:
  "r < length rs \<Longrightarrow> drop (4 * r) (restart_bytes its rs) =
    EncodeFixed32 (of_nat (item_off its (rs ! r))) @ restart_bytes its (drop (Suc r) rs)"
proof (induction rs arbitrary: r)
  case (Cons a rs)
  show ?case
  proof (cases r)
    case 0
    then show ?thesis by (simp add: restart_bytes_def)
  next
    case (Suc m)
    with Cons show ?thesis by (simp add: restart_bytes_def)
  qed
qed simp

section \<open>The builder builds it\<close>

lemma shared_loop_eq: "shared_loop l k i = prefix_loop l k i"
  by (induction l k i rule: shared_loop.induct) (simp add: shared_loop.simps prefix_loop.simps Let_def)

lemma shared_loop_shares: "shares l (shared_loop l k 0, k, v)"
  using prefix_loop_0 [of l k] by (auto simp: shared_loop_eq)

text \<open>A builder with entries \<open>its\<close> and restart entries \<open>rs\<close>.\<close>

definition bb_rep :: "BlockBuilder \<Rightarrow> item list \<Rightarrow> nat list \<Rightarrow> bool" where
  "bb_rep b its rs \<longleftrightarrow> items_ok its rs \<and> bb_buffer b = items_bytes its \<and>
     bb_restarts b = map (\<lambda>r. of_nat (item_off its r)) rs \<and>
     bb_last_key b = (if its = [] then [] else item_key (last its)) \<and> 0 < bb_interval b \<and>
     (its = [] \<longrightarrow> bb_counter b = 0)"

lemma bb_rep_new [inv_intro]: "0 < n \<Longrightarrow> bb_rep (BlockBuilder_new n) [] [0]"
  by (simp add: bb_rep_def items_ok_def BlockBuilder_new_def)

lemma bb_rep_Reset [inv_intro]: "bb_rep b its rs \<Longrightarrow> bb_rep (bb_Reset b) [] [0]"
  by (simp add: bb_rep_def items_ok_def bb_Reset_def)

lemma items_ok_snoc:
  assumes ok: "items_ok its rs" and sh: "shares (if its = [] then [] else item_key (last its)) it"
    and rs': "rs' = rs \<and> (its = [] \<longrightarrow> fst it = 0) \<or> rs' = rs @ [length its] \<and> its \<noteq> [] \<and> fst it = 0"
  shows "items_ok (its @ [it]) rs'"
proof -
  have s: "shares (if i = 0 then [] else item_key ((its @ [it]) ! (i - 1))) ((its @ [it]) ! i)"
    if "i < Suc (length its)" for i
  proof (cases "i < length its")
    case True
    then show ?thesis using ok by (auto simp: items_ok_def nth_append)
  next
    case False
    then have "i = length its" using that by simp
    then show ?thesis using sh by (cases "its = []") (simp_all add: nth_append last_conv_nth)
  qed
  have bound: "r \<le> length its" if "r \<in> set rs" for r using ok that by (auto simp: items_ok_def)
  have old: "r < length (its @ [it]) \<and> fst ((its @ [it]) ! r) = 0" if "r \<in> set rs" "its = [] \<longrightarrow> fst it = 0" for r
    using ok that by (fastforce simp: items_ok_def nth_append)
  have new: "its \<noteq> [] \<Longrightarrow> r < length its" if "r \<in> set rs" for r using ok that by (auto simp: items_ok_def)
  from ok have rs: "rs \<noteq> []" "hd rs = 0" "sorted_wrt (<) rs" by (simp_all add: items_ok_def)
  from rs' show ?thesis
  proof
    assume "rs' = rs \<and> (its = [] \<longrightarrow> fst it = 0)"
    with s old rs show ?thesis by (auto simp: items_ok_def)
  next
    assume r: "rs' = rs @ [length its] \<and> its \<noteq> [] \<and> fst it = 0"
    have "sorted_wrt (<) (rs @ [length its])" using rs(3) new r by (simp add: sorted_wrt_append)
    with s old rs r show ?thesis by (auto simp: items_ok_def)
  qed
qed

lemma bb_rep_Add:
  assumes rep: "bb_rep b its rs"
  obtains sh rs' where "bb_rep (bb_Add b k v) (its @ [(sh, k, v)]) rs'" "length rs' \<le> Suc (length rs)"
proof -
  let ?last = "if its = [] then [] else item_key (last its)"
  let ?sharing = "bb_counter b < bb_interval b"
  define sh where "sh = (if ?sharing then shared_loop ?last k 0 else 0)"
  define rs' where "rs' = (if ?sharing then rs else rs @ [length its])"
  from rep have ok: "items_ok its rs" and last: "bb_last_key b = ?last" and buf: "bb_buffer b = items_bytes its"
    and res: "bb_restarts b = map (\<lambda>r. of_nat (item_off its r)) rs" and pos: "0 < bb_interval b"
    and cnt: "its = [] \<longrightarrow> bb_counter b = 0"
    by (simp_all add: bb_rep_def)
  have shares: "shares ?last (sh, k, v)"
    using shared_loop_shares [of ?last k v] by (auto simp: sh_def)
  have ok': "items_ok (its @ [(sh, k, v)]) rs'"
  proof (rule items_ok_snoc [OF ok shares])
    have "its = [] \<longrightarrow> sh = 0" using shares by auto
    then show "rs' = rs \<and> (its = [] \<longrightarrow> fst (sh, k, v) = 0) \<or>
        rs' = rs @ [length its] \<and> its \<noteq> [] \<and> fst (sh, k, v) = 0"
      using cnt pos by (auto simp: rs'_def sh_def)
  qed
  have len: "sh \<le> length k" "take sh k = take sh ?last" using shares by auto
  have key: "take sh ?last @ take (length k - sh) (drop sh k) = k" using len by (metis append_take_drop_id length_drop take_all order.refl)
  have bound: "r \<le> length its" if "r \<in> set rs" for r using ok that by (auto simp: items_ok_def)
  have off: "item_off (its @ [(sh, k, v)]) r = item_off its r" if "r \<in> set rs" for r
    by (rule item_off_append [OF bound [OF that]])
  have add: "bb_Add b k v = b\<lparr>bb_buffer := items_bytes (its @ [(sh, k, v)]),
      bb_restarts := (if ?sharing then bb_restarts b else bb_restarts b @ [of_nat (length (bb_buffer b))]),
      bb_counter := (if ?sharing then bb_counter b else 0) + 1, bb_last_key := k\<rparr>"
    using key by (simp add: bb_Add_def Let_def last buf PutVarint32_def flip: sh_def)
  have "bb_restarts (bb_Add b k v) = map (\<lambda>r. of_nat (item_off (its @ [(sh, k, v)]) r)) rs'"
  proof (cases ?sharing)
    case True
    then show ?thesis using off by (simp add: add rs'_def res)
  next
    case False
    have "item_off (its @ [(sh, k, v)]) (length its) = length (items_bytes its)"
      by (simp add: item_off_append item_off_all)
    with False show ?thesis using off by (simp add: add rs'_def res buf)
  qed
  with ok' pos have "bb_rep (bb_Add b k v) (its @ [(sh, k, v)]) rs'"
    by (simp add: bb_rep_def add)
  then show ?thesis using that by (simp add: rs'_def)
qed

lemma bb_Finish_layout: "bb_rep b its rs \<Longrightarrow> fst (bb_Finish b) = block_layout its rs"
proof -
  assume rep: "bb_rep b its rs"
  have "foldl PutFixed32 d (map (\<lambda>r. of_nat (item_off its r)) rs) = d @ restart_bytes its rs" for d
    by (induction rs arbitrary: d) (simp_all add: restart_bytes_def PutFixed32_def)
  with rep show ?thesis by (simp add: bb_Finish_def bb_rep_def block_layout_def PutFixed32_def Let_def)
qed

text \<open>A whole block: entries added one by one to a new builder, then finished.\<close>

definition build_block :: "int \<Rightarrow> (bytes \<times> bytes) list \<Rightarrow> bytes" where
  "build_block interval kvs =
     fst (bb_Finish (foldl (\<lambda>b (k, v). bb_Add b k v) (BlockBuilder_new interval) kvs))"

lemma bb_rep_adds:
  "bb_rep b its rs \<Longrightarrow> \<exists>its' rs'. bb_rep (foldl (\<lambda>b (k, v). bb_Add b k v) b kvs) (its @ its') rs' \<and>
    map item_kv its' = kvs \<and> length rs' \<le> length rs + length kvs"
proof (induction kvs arbitrary: b its rs)
  case Nil
  then show ?case by (intro exI [of _ "[]"] exI [of _ rs]) simp
next
  case (Cons kv kvs)
  obtain k v where kv: "kv = (k, v)" by (cases kv)
  obtain sh rs1 where 1: "bb_rep (bb_Add b k v) (its @ [(sh, k, v)]) rs1" "length rs1 \<le> Suc (length rs)"
    by (rule bb_rep_Add [OF Cons.prems])
  from Cons.IH [OF 1(1)] obtain its' rs' where
    "bb_rep (foldl (\<lambda>b (k, v). bb_Add b k v) (bb_Add b k v) kvs) ((its @ [(sh, k, v)]) @ its') rs'"
    "map item_kv its' = kvs" "length rs' \<le> length rs1 + length kvs" by blast
  with 1(2) show ?case by (intro exI [of _ "(sh, k, v) # its'"] exI [of _ rs']) (simp add: kv)
qed

lemma build_block_layout:
  assumes "0 < interval"
  obtains its rs where "build_block interval kvs = block_layout its rs" "items_ok its rs" "map item_kv its = kvs"
    "length rs \<le> Suc (length kvs)"
proof -
  from bb_rep_adds [OF bb_rep_new [OF assms], of kvs] obtain its rs where
    "bb_rep (foldl (\<lambda>b (k, v). bb_Add b k v) (BlockBuilder_new interval) kvs) its rs"
    "map item_kv its = kvs" "length rs \<le> Suc (length kvs)" by auto
  then show ?thesis using that [of its rs] bb_Finish_layout by (auto simp: build_block_def bb_rep_def)
qed

lemma length_item_bytes: "length (item_bytes it) \<le> 15 + length (item_key it) + length (item_value it)"
proof -
  obtain sh k v where "it = (sh, k, v)" by (cases it)
  then show ?thesis
    using length_EncodeVarint32_bound [of "of_nat sh"] length_EncodeVarint32_bound [of "of_nat (length k - sh)"]
      length_EncodeVarint32_bound [of "of_nat (length v)"] by simp
qed

text \<open>Prefix compression never costs more than 19 bytes an entry.\<close>

lemma build_block_length:
  assumes "0 < interval"
  shows "length (build_block interval kvs) \<le> sum_list (map (\<lambda>(k, v). 19 + length k + length v) kvs) + 8"
proof -
  obtain its rs where l: "build_block interval kvs = block_layout its rs" "map item_kv its = kvs"
    "length rs \<le> Suc (length kvs)" by (rule build_block_layout [OF assms])
  have "length (items_bytes its) + 4 * length its \<le> sum_list (map (\<lambda>(k, v). 19 + length k + length v) (map item_kv its))"
  proof (induction its)
    case (Cons it its)
    then show ?case using length_item_bytes [of it] by (cases it) (simp del: item_bytes.simps)
  qed simp
  moreover have "length its = length kvs" using l(2) by auto
  ultimately show ?thesis using l by (simp add: block_layout_def)
qed

end
