(* ===== verification/Iterators.thy ===== *)
theory Iterators
  imports Comparator Status
begin

text \<open>
  The interface \<^verbatim>\<open>include/leveldb/iterator.h\<close> that blocks, tables, merges and the database
  share, with \<^verbatim>\<open>table/iterator.cc\<close> (the empty iterator, cleanup functions) and
  \<^verbatim>\<open>table/iterator_wrapper.h\<close>. An iterator class is the record of its methods over a state;
  a method that moves may fail to return (\<open>None\<close>). The contract \<open>sorted_iterator\<close> says what
  standing at a position of a sorted list of key-value pairs means.
\<close>

section \<open>The interface\<close>

record 'it IteratorOps =
  itValid :: "'it \<Rightarrow> bool"
  itSeekToFirst :: "'it \<Rightarrow> 'it option"
  itSeekToLast :: "'it \<Rightarrow> 'it option"
  itSeek :: "'it \<Rightarrow> bytes \<Rightarrow> 'it option"
  itNext :: "'it \<Rightarrow> 'it option"
  itPrev :: "'it \<Rightarrow> 'it option"
  itKey :: "'it \<Rightarrow> bytes"
  itValue :: "'it \<Rightarrow> bytes"
  itStatus :: "'it \<Rightarrow> status"

text \<open>\<^verbatim>\<open>RegisterCleanup\<close>: the first function goes to the embedded head node, later ones
  are put right behind it; the destructor runs the head, then the others.\<close>

definition RegisterCleanup :: "'f list \<Rightarrow> 'f \<Rightarrow> 'f list" where
  "RegisterCleanup nodes func =
     (case nodes of [] \<Rightarrow> [func] | head # rest \<Rightarrow> head # func # rest)"

definition Iterator_destroy :: "('s \<Rightarrow> 'f \<Rightarrow> 's) \<Rightarrow> 'f list \<Rightarrow> 's \<Rightarrow> 's" where
  "Iterator_destroy run nodes s = foldl run s nodes"

text \<open>\<^verbatim>\<open>EmptyIterator\<close>: its state is its status.\<close>

definition EmptyIterator :: "status IteratorOps" where
  "EmptyIterator =
     \<lparr>itValid = (\<lambda>s. False), itSeekToFirst = (\<lambda>s. Some s), itSeekToLast = (\<lambda>s. Some s),
      itSeek = (\<lambda>s t. Some s), itNext = (\<lambda>s. Some s), itPrev = (\<lambda>s. Some s),
      itKey = (\<lambda>s. []), itValue = (\<lambda>s. []), itStatus = (\<lambda>s. s)\<rparr>"

definition NewEmptyIterator :: status where
  "NewEmptyIterator = Status_OK"

definition NewErrorIterator :: "status \<Rightarrow> status" where
  "NewErrorIterator st = st"

text \<open>\<^verbatim>\<open>IteratorWrapper\<close> caches \<^verbatim>\<open>Valid()\<close> and \<^verbatim>\<open>key()\<close> of the iterator it owns.\<close>

record 'it Wrapper =
  wr_iter :: "'it option"
  wr_valid :: bool
  wr_key :: bytes

definition wr_Update :: "'it IteratorOps \<Rightarrow> 'it Wrapper \<Rightarrow> 'it Wrapper" where
  "wr_Update ops w =
     (case wr_iter w of
        None \<Rightarrow> w
      | Some it \<Rightarrow>
          let w = w\<lparr>wr_valid := itValid ops it\<rparr>
          in if wr_valid w then w\<lparr>wr_key := itKey ops it\<rparr> else w)"

definition wr_Set :: "'it IteratorOps \<Rightarrow> 'it Wrapper \<Rightarrow> 'it option \<Rightarrow> 'it Wrapper" where
  "wr_Set ops w it =
     (let w = w\<lparr>wr_iter := it\<rparr>
      in case it of None \<Rightarrow> w\<lparr>wr_valid := False\<rparr> | Some _ \<Rightarrow> wr_Update ops w)"

definition Wrapper_new :: "'it IteratorOps \<Rightarrow> 'it option \<Rightarrow> 'it Wrapper" where
  "Wrapper_new ops it = wr_Set ops \<lparr>wr_iter = None, wr_valid = False, wr_key = []\<rparr> it"

text \<open>The methods that move: move the iterator, then \<^verbatim>\<open>Update\<close>.\<close>

definition wr_move :: "'it IteratorOps \<Rightarrow> ('it \<Rightarrow> 'it option) \<Rightarrow> 'it Wrapper \<Rightarrow> 'it Wrapper option" where
  "wr_move ops step w =
     (case wr_iter w of
        None \<Rightarrow> None
      | Some it \<Rightarrow> map_option (\<lambda>it. wr_Update ops (w\<lparr>wr_iter := Some it\<rparr>)) (step it))"

definition wr_Next :: "'it IteratorOps \<Rightarrow> 'it Wrapper \<Rightarrow> 'it Wrapper option" where
  "wr_Next ops w = wr_move ops (itNext ops) w"

definition wr_Prev :: "'it IteratorOps \<Rightarrow> 'it Wrapper \<Rightarrow> 'it Wrapper option" where
  "wr_Prev ops w = wr_move ops (itPrev ops) w"

definition wr_Seek :: "'it IteratorOps \<Rightarrow> 'it Wrapper \<Rightarrow> bytes \<Rightarrow> 'it Wrapper option" where
  "wr_Seek ops w k = wr_move ops (\<lambda>it. itSeek ops it k) w"

definition wr_SeekToFirst :: "'it IteratorOps \<Rightarrow> 'it Wrapper \<Rightarrow> 'it Wrapper option" where
  "wr_SeekToFirst ops w = wr_move ops (itSeekToFirst ops) w"

definition wr_SeekToLast :: "'it IteratorOps \<Rightarrow> 'it Wrapper \<Rightarrow> 'it Wrapper option" where
  "wr_SeekToLast ops w = wr_move ops (itSeekToLast ops) w"

definition wr_value :: "'it IteratorOps \<Rightarrow> 'it Wrapper \<Rightarrow> bytes" where
  "wr_value ops w = itValue ops (the (wr_iter w))"

definition wr_status :: "'it IteratorOps \<Rightarrow> 'it Wrapper \<Rightarrow> status" where
  "wr_status ops w = itStatus ops (the (wr_iter w))"

text \<open>A client that reads everything from where the iterator stands.\<close>

partial_function (option) iter_all :: "'it IteratorOps \<Rightarrow> 'it \<Rightarrow> (bytes \<times> bytes) list option" where
  "iter_all ops it =
     (if itValid ops it then
        Option.bind (itNext ops it) (\<lambda>it'.
          Option.bind (iter_all ops it') (\<lambda>rest. Some ((itKey ops it, itValue ops it) # rest)))
      else Some [])"

text \<open>And one that reads backwards.\<close>

partial_function (option) iter_back :: "'it IteratorOps \<Rightarrow> 'it \<Rightarrow> (bytes \<times> bytes) list option" where
  "iter_back ops it =
     (if itValid ops it then
        Option.bind (itPrev ops it) (\<lambda>it'.
          Option.bind (iter_back ops it') (\<lambda>rest. Some ((itKey ops it, itValue ops it) # rest)))
      else Some [])"

text \<open>Any sequence of moves, of an iterator and of a cursor on a list; \<open>None\<close> is a step from nowhere.\<close>

datatype Move = First | Last | SeekTo bytes | Forth | Back

fun run_moves :: "'it IteratorOps \<Rightarrow> Move list \<Rightarrow> 'it \<Rightarrow> 'it option" where
  "run_moves ops [] it = Some it"
| "run_moves ops (mv # mvs) it =
     Option.bind (case mv of First \<Rightarrow> itSeekToFirst ops it | Last \<Rightarrow> itSeekToLast ops it | SeekTo t \<Rightarrow> itSeek ops it t
       | Forth \<Rightarrow> itNext ops it | Back \<Rightarrow> itPrev ops it) (run_moves ops mvs)"

fun run_cursor :: "(bytes \<Rightarrow> bytes \<Rightarrow> int) \<Rightarrow> (bytes \<times> bytes) list \<Rightarrow> Move list \<Rightarrow> nat \<Rightarrow> nat option" where
  "run_cursor cmp kvs [] i = Some i"
| "run_cursor cmp kvs (First # mvs) i = run_cursor cmp kvs mvs 0"
| "run_cursor cmp kvs (Last # mvs) i = run_cursor cmp kvs mvs (length kvs - 1)"
| "run_cursor cmp kvs (SeekTo t # mvs) i = run_cursor cmp kvs mvs (length (takeWhile (\<lambda>kv. cmp (fst kv) t < 0) kvs))"
| "run_cursor cmp kvs (Forth # mvs) i = (if i < length kvs then run_cursor cmp kvs mvs (Suc i) else None)"
| "run_cursor cmp kvs (Back # mvs) i =
     (if i < length kvs then run_cursor cmp kvs mvs (if i = 0 then length kvs else i - 1) else None)"

text \<open>What a client sees: the entry the iterator stands on, if any.\<close>

definition seen :: "'it IteratorOps \<Rightarrow> 'it \<Rightarrow> (bytes \<times> bytes) option" where
  "seen ops it = (if itValid ops it then Some (itKey ops it, itValue ops it) else None)"

section \<open>The contract\<close>

text \<open>\<open>sits it kvs i\<close>: the iterator runs over \<open>kvs\<close> and stands at entry \<open>i\<close>, or nowhere
  when \<open>i\<close> is the length.\<close>

locale sorted_iterator = comparison valid Compare
  for valid :: "bytes \<Rightarrow> bool" and Compare :: "bytes \<Rightarrow> bytes \<Rightarrow> int" +
  fixes ops :: "'it IteratorOps"
    and sits :: "'it \<Rightarrow> (bytes \<times> bytes) list \<Rightarrow> nat \<Rightarrow> bool"
  assumes sits_sorted: "sits it kvs i \<Longrightarrow>
      sorted_wrt (\<lambda>a b. Compare (fst a) (fst b) < 0) kvs \<and> (\<forall>kv\<in>set kvs. valid (fst kv)) \<and> i \<le> length kvs"
    and sits_valid: "sits it kvs i \<Longrightarrow> (itValid ops it \<longleftrightarrow> i < length kvs) \<and> ok (itStatus ops it)"
    and sits_entry: "sits it kvs i \<Longrightarrow> i < length kvs \<Longrightarrow> (itKey ops it, itValue ops it) = kvs ! i"
    and first: "sits it kvs i \<Longrightarrow> \<exists>it'. itSeekToFirst ops it = Some it' \<and> sits it' kvs 0"
    and last: "sits it kvs i \<Longrightarrow> \<exists>it'. itSeekToLast ops it = Some it' \<and> sits it' kvs (length kvs - 1)"
    and seek: "sits it kvs i \<Longrightarrow> valid t \<Longrightarrow> \<exists>it'. itSeek ops it t = Some it' \<and>
      sits it' kvs (length (takeWhile (\<lambda>kv. Compare (fst kv) t < 0) kvs))"
    and "next": "sits it kvs i \<Longrightarrow> i < length kvs \<Longrightarrow> \<exists>it'. itNext ops it = Some it' \<and> sits it' kvs (Suc i)"
    and prev: "sits it kvs i \<Longrightarrow> i < length kvs \<Longrightarrow>
      \<exists>it'. itPrev ops it = Some it' \<and> sits it' kvs (if i = 0 then length kvs else i - 1)"
begin

lemma iter_all_drop: "sits it kvs i \<Longrightarrow> iter_all ops it = Some (drop i kvs)"
proof (induction "length kvs - i" arbitrary: it i)
  case 0
  then show ?case using sits_valid [OF 0(2)] by (simp add: iter_all.simps [of ops it])
next
  case (Suc n)
  then have i: "i < length kvs" by simp
  obtain it' where it': "itNext ops it = Some it'" "sits it' kvs (Suc i)" using "next" [OF Suc.prems i] by blast
  have "iter_all ops it' = Some (drop (Suc i) kvs)" using Suc.hyps(1) [OF _ it'(2)] Suc.hyps(2) by simp
  then show ?case
    using sits_valid [OF Suc.prems] sits_entry [OF Suc.prems i] i it'(1)
    by (simp add: iter_all.simps [of ops it] Cons_nth_drop_Suc)
qed

lemma iter_back_take: "sits it kvs i \<Longrightarrow> i < length kvs \<Longrightarrow> iter_back ops it = Some (rev (take (Suc i) kvs))"
proof (induction i arbitrary: it)
  case 0
  obtain it' where it': "itPrev ops it = Some it'" "sits it' kvs (length kvs)" using prev [OF 0] by auto
  have e: "iter_back ops it' = Some []" using sits_valid [OF it'(2)] by (simp add: iter_back.simps [of ops it'])
  have "take (Suc 0) kvs = [kvs ! 0]" using 0(2) by (cases kvs) auto
  then show ?case
    using sits_valid [OF 0(1)] sits_entry [OF 0] 0(2) it'(1) e by (simp add: iter_back.simps [of ops it])
next
  case (Suc i)
  obtain it' where it': "itPrev ops it = Some it'" "sits it' kvs i" using prev [OF Suc.prems] by auto
  have "iter_back ops it' = Some (rev (take (Suc i) kvs))" using Suc.IH [OF it'(2)] Suc.prems(2) by simp
  then show ?case
    using sits_valid [OF Suc.prems(1)] sits_entry [OF Suc.prems] Suc.prems(2) it'(1)
    by (simp add: iter_back.simps [of ops it] take_Suc_conv_app_nth [of "Suc i"])
qed

text \<open>The whole list, from either side, and what is left after a seek.\<close>

lemma scan_all:
  assumes "sits it kvs i"
  shows "Option.bind (itSeekToFirst ops it) (iter_all ops) = Some kvs"
    and "Option.bind (itSeekToLast ops it) (iter_back ops) = Some (rev kvs)"
proof -
  show "Option.bind (itSeekToFirst ops it) (iter_all ops) = Some kvs"
    using first [OF assms] iter_all_drop [of _ kvs 0] by auto
  obtain it' where it': "itSeekToLast ops it = Some it'" "sits it' kvs (length kvs - 1)" using last [OF assms] by blast
  show "Option.bind (itSeekToLast ops it) (iter_back ops) = Some (rev kvs)"
  proof (cases kvs)
    case Nil
    then show ?thesis using it' sits_valid [OF it'(2)] by (simp add: iter_back.simps [of ops it'])
  next
    case Cons
    then show ?thesis using it' iter_back_take [OF it'(2)] by simp
  qed
qed

lemma seek_scan:
  assumes "sits it kvs i" "valid t"
  shows "Option.bind (itSeek ops it t) (iter_all ops) = Some (dropWhile (\<lambda>kv. Compare (fst kv) t < 0) kvs)"
  using seek [OF assms] iter_all_drop by (fastforce simp: dropWhile_eq_drop)

text \<open>Whatever the moves, the iterator shows what the cursor stands on.\<close>

lemma moves_follow:
  assumes "sits it kvs i" "run_cursor Compare kvs mvs i = Some j" "\<And>t. SeekTo t \<in> set mvs \<Longrightarrow> valid t"
  shows "\<exists>it'. run_moves ops mvs it = Some it' \<and> sits it' kvs j \<and> ok (itStatus ops it') \<and>
    seen ops it' = (if j < length kvs then Some (kvs ! j) else None)"
  using assms
proof (induction mvs arbitrary: it i)
  case Nil
  then show ?case using sits_valid [OF Nil(1)] sits_entry [OF Nil(1)] by (auto simp: seen_def)
next
  case (Cons mv mvs)
  have v: "\<And>t. SeekTo t \<in> set mvs \<Longrightarrow> valid t" using Cons.prems(3) by simp
  have "\<exists>it' i'. (case mv of First \<Rightarrow> itSeekToFirst ops it | Last \<Rightarrow> itSeekToLast ops it | SeekTo t \<Rightarrow> itSeek ops it t
       | Forth \<Rightarrow> itNext ops it | Back \<Rightarrow> itPrev ops it) = Some it' \<and> sits it' kvs i' \<and> run_cursor Compare kvs mvs i' = Some j"
  proof (cases mv)
    case First
    then show ?thesis using first [OF Cons.prems(1)] Cons.prems(2) by auto
  next
    case Last
    then show ?thesis using last [OF Cons.prems(1)] Cons.prems(2) by auto
  next
    case (SeekTo t)
    then show ?thesis using seek [OF Cons.prems(1), of t] Cons.prems(2,3) by auto
  next
    case Forth
    then show ?thesis using "next" [OF Cons.prems(1)] Cons.prems(2) by (auto split: if_splits)
  next
    case Back
    then show ?thesis using prev [OF Cons.prems(1)] Cons.prems(2) by (auto split: if_splits)
  qed
  then obtain it' i' where it': "sits it' kvs i'" "run_cursor Compare kvs mvs i' = Some j"
    "run_moves ops (mv # mvs) it = run_moves ops mvs it'" by auto
  from Cons.IH [OF it'(1,2) v] it'(3) show ?case by simp
qed

text \<open>Seeking: the first entry at or after the target.\<close>

lemma seek_first_ge:
  assumes "sits it kvs i" "valid t" and "itSeek ops it t = Some it'" "itValid ops it'"
  shows "0 \<le> Compare (itKey ops it') t"
    and "\<And>kv. kv \<in> set kvs \<Longrightarrow> 0 \<le> Compare (fst kv) t \<Longrightarrow> Compare (itKey ops it') (fst kv) \<le> 0"
proof -
  let ?P = "\<lambda>kv. Compare (fst kv) t < 0"
  let ?n = "length (takeWhile ?P kvs)"
  have s: "sits it' kvs ?n" using seek [OF assms(1,2)] assms(3) by auto
  then have n: "?n < length kvs" using sits_valid [OF s] assms(4) by simp
  have k: "itKey ops it' = fst (kvs ! ?n)" using sits_entry [OF s n] by (metis fst_conv)
  show "0 \<le> Compare (itKey ops it') t" using nth_length_takeWhile [OF n] by (simp add: k)
  fix kv assume kv: "kv \<in> set kvs" "0 \<le> Compare (fst kv) t"
  then obtain j where j: "j < length kvs" "kvs ! j = kv" by (auto simp: in_set_conv_nth)
  have "\<not> j < ?n"
  proof
    assume jn: "j < ?n"
    then have "takeWhile ?P kvs ! j = kv" using j by (simp only: takeWhile_nth)
    with nth_mem [OF jn] have "kv \<in> set (takeWhile ?P kvs)" by (simp only:)
    then have "?P kv" using set_takeWhileD [of kv ?P kvs] by simp
    with kv(2) show False by simp
  qed
  note srt = sits_sorted [OF s]
  show "Compare (itKey ops it') (fst kv) \<le> 0"
  proof (cases "j = ?n")
    case True
    then show ?thesis using k j kv(1) srt by (auto simp: refl)
  next
    case False
    with \<open>\<not> j < ?n\<close> have "Compare (fst (kvs ! ?n)) (fst (kvs ! j)) < 0"
      using srt j(1) by (auto simp: sorted_wrt_iff_nth_less)
    then show ?thesis using k j(2) by simp
  qed
qed

text \<open>A wrapped iterator that stands at a position.\<close>

definition wr_sits :: "'it Wrapper \<Rightarrow> (bytes \<times> bytes) list \<Rightarrow> nat \<Rightarrow> bool" where
  "wr_sits w kvs p \<longleftrightarrow> (\<exists>it. wr_iter w = Some it \<and> sits it kvs p) \<and> wr_valid w = (p < length kvs) \<and>
     (p < length kvs \<longrightarrow> wr_key w = fst (kvs ! p))"

lemma wr_Update_sits: "sits it kvs p \<Longrightarrow> wr_sits (wr_Update ops (w\<lparr>wr_iter := Some it\<rparr>)) kvs p"
proof -
  assume s: "sits it kvs p"
  have "itKey ops it = fst (kvs ! p)" if "p < length kvs" using sits_entry [OF s that] by (metis fst_conv)
  then show ?thesis using s sits_valid [OF s] by (auto simp: wr_sits_def wr_Update_def Let_def)
qed

lemma Wrapper_new_sits: "sits it kvs p \<Longrightarrow> wr_sits (Wrapper_new ops (Some it)) kvs p"
  using wr_Update_sits [of it kvs p "\<lparr>wr_iter = None, wr_valid = False, wr_key = []\<rparr>"] by (simp add: Wrapper_new_def wr_Set_def)

lemma wr_move_sits:
  assumes "wr_sits w kvs p" "\<And>it. sits it kvs p \<Longrightarrow> \<exists>it'. step it = Some it' \<and> sits it' kvs q"
  shows "\<exists>w'. wr_move ops step w = Some w' \<and> wr_sits w' kvs q"
proof -
  obtain it where it: "wr_iter w = Some it" "sits it kvs p" using assms(1) by (auto simp: wr_sits_def)
  from assms(2) [OF it(2)] show ?thesis by (auto simp: wr_move_def it(1) intro: wr_Update_sits)
qed

lemma wr_moves:
  assumes "wr_sits w kvs p"
  shows "\<exists>w'. wr_SeekToFirst ops w = Some w' \<and> wr_sits w' kvs 0"
    and "\<exists>w'. wr_SeekToLast ops w = Some w' \<and> wr_sits w' kvs (length kvs - 1)"
    and "valid t \<Longrightarrow> \<exists>w'. wr_Seek ops w t = Some w' \<and> wr_sits w' kvs (length (takeWhile (\<lambda>kv. Compare (fst kv) t < 0) kvs))"
    and "p < length kvs \<Longrightarrow> \<exists>w'. wr_Next ops w = Some w' \<and> wr_sits w' kvs (Suc p)"
    and "p < length kvs \<Longrightarrow> \<exists>w'. wr_Prev ops w = Some w' \<and> wr_sits w' kvs (if p = 0 then length kvs else p - 1)"
  unfolding wr_SeekToFirst_def wr_SeekToLast_def wr_Seek_def wr_Next_def wr_Prev_def
  by (rule wr_move_sits [OF assms]; use first last seek "next" prev in blast)+

end

text \<open>The empty iterator runs over nothing.\<close>

interpretation empty_iter: sorted_iterator "\<lambda>_. True" Bytewise_Compare EmptyIterator
    "\<lambda>s kvs i. ok s \<and> kvs = [] \<and> i = 0"
  by unfold_locales (auto simp: EmptyIterator_def)

end
