(* ===== verification/Block.thy ===== *)
theory Block
  imports Block_Builder Iterators
begin

text \<open>
  \<^verbatim>\<open>table/block.cc\<close>: reading a block. A pointer into the block bounded by the restart array
  is the list of the bytes up to it; the slice \<^verbatim>\<open>value_\<close> is an offset into the block and
  a length. Offsets are kept in 32 bits as in the code. The loops over entries follow data
  that may be corrupt, so the searches are partial functions; on a block of the builder they
  return, which makes the block iterator an interpretation of \<open>sorted_iterator\<close>.
\<close>

section \<open>The code\<close>

text \<open>\<open>bl_size\<close> is 0 for a block that is too small for its restart array.\<close>

record Block =
  bl_data :: bytes
  bl_size :: nat
  bl_restart_offset :: u32

definition NumRestarts :: "bytes \<Rightarrow> nat \<Rightarrow> u32" where
  "NumRestarts data sz = DecodeFixed32 (drop (sz - 4) data)"

definition Block_new :: "bytes \<Rightarrow> Block" where
  "Block_new contents =
     (let sz = length contents in
      if sz < 4 then \<lparr>bl_data = contents, bl_size = 0, bl_restart_offset = 0\<rparr>
      else
        let max_restarts_allowed = (sz - 4) div 4 in
        if unat (NumRestarts contents sz) > max_restarts_allowed
        then \<lparr>bl_data = contents, bl_size = 0, bl_restart_offset = 0\<rparr>
        else \<lparr>bl_data = contents, bl_size = sz,
              bl_restart_offset = of_nat (sz - unat (1 + NumRestarts contents sz) * 4)\<rparr>)"

text \<open>The three numbers and the input behind them.\<close>

definition DecodeEntry :: "bytes \<Rightarrow> (u32 \<times> u32 \<times> u32 \<times> bytes) option" where
  "DecodeEntry p =
     (if length p < 3 then None
      else
        let shared = (ucast (p ! 0) :: u32);
            non_shared = (ucast (p ! 1) :: u32);
            value_length = (ucast (p ! 2) :: u32);
            decoded =
              (if (shared OR non_shared OR value_length) < 128
               then Some (shared, non_shared, value_length, drop 3 p)
               else
                 case GetVarint32Ptr p of
                   None \<Rightarrow> None
                 | Some (shared, p) \<Rightarrow>
                     (case GetVarint32Ptr p of
                        None \<Rightarrow> None
                      | Some (non_shared, p) \<Rightarrow>
                          (case GetVarint32Ptr p of
                             None \<Rightarrow> None
                           | Some (value_length, p) \<Rightarrow> Some (shared, non_shared, value_length, p))))
        in case decoded of
             None \<Rightarrow> None
           | Some (shared, non_shared, value_length, p) \<Rightarrow>
               if (of_nat (length p) :: u32) < non_shared + value_length then None
               else Some (shared, non_shared, value_length, p))"

record Iter =
  bi_data :: bytes
  bi_restarts :: u32
  bi_num_restarts :: u32
  bi_current :: u32
  bi_restart_index :: u32
  bi_key :: bytes
  bi_value :: "nat \<times> nat"
  bi_status :: status

definition Iter_new :: "bytes \<Rightarrow> u32 \<Rightarrow> u32 \<Rightarrow> Iter" where
  "Iter_new data restarts num_restarts =
     \<lparr>bi_data = data, bi_restarts = restarts, bi_num_restarts = num_restarts, bi_current = restarts,
      bi_restart_index = num_restarts, bi_key = [], bi_value = (0, 0), bi_status = Status_OK\<rparr>"

definition NextEntryOffset :: "Iter \<Rightarrow> u32" where
  "NextEntryOffset it = of_nat (fst (bi_value it) + snd (bi_value it))"

definition GetRestartPoint :: "Iter \<Rightarrow> u32 \<Rightarrow> u32" where
  "GetRestartPoint it index = DecodeFixed32 (drop (unat (bi_restarts it) + unat index * 4) (bi_data it))"

definition SeekToRestartPoint :: "Iter \<Rightarrow> u32 \<Rightarrow> Iter" where
  "SeekToRestartPoint it index =
     (let it = it\<lparr>bi_key := [], bi_restart_index := index\<rparr>;
          offset = GetRestartPoint it index
      in it\<lparr>bi_value := (unat offset, 0)\<rparr>)"

definition bi_Valid :: "Iter \<Rightarrow> bool" where
  "bi_Valid it \<longleftrightarrow> bi_current it < bi_restarts it"

definition bi_value_slice :: "Iter \<Rightarrow> bytes" where
  "bi_value_slice it = take (snd (bi_value it)) (drop (fst (bi_value it)) (bi_data it))"

definition CorruptionError :: "Iter \<Rightarrow> Iter" where
  "CorruptionError it =
     it\<lparr>bi_current := bi_restarts it, bi_restart_index := bi_num_restarts it,
        bi_status := Corruption ''bad entry in block'', bi_key := [], bi_value := (0, 0)\<rparr>"

text \<open>The loop at the end of \<^verbatim>\<open>ParseNextKey\<close>.\<close>

function advance_restart :: "Iter \<Rightarrow> Iter" where
  "advance_restart it =
     (if bi_restart_index it + 1 < bi_num_restarts it \<and>
         GetRestartPoint it (bi_restart_index it + 1) < bi_current it
      then advance_restart (it\<lparr>bi_restart_index := bi_restart_index it + 1\<rparr>) else it)"
  by pat_completeness auto
termination
proof (relation "measure (\<lambda>it. unat (bi_num_restarts it) - unat (bi_restart_index it + 1))", goal_cases)
  case (2 it)
  then have l: "bi_restart_index it + 1 < bi_num_restarts it" by simp
  from unat_plus_1 [OF this] l show ?case by (simp add: word_less_nat_alt add.assoc)
qed simp

declare advance_restart.simps [simp del]

text \<open>After the 32-bit wrap-around in the check of \<^verbatim>\<open>DecodeEntry\<close> (theory \<open>Block_Safety\<close>) the code would read
  the key behind the block; here such bytes are missing from it. The same holds of \<open>mid_key\<close> in \<^verbatim>\<open>Seek\<close>.\<close>

definition ParseNextKey :: "Iter \<Rightarrow> bool \<times> Iter" where
  "ParseNextKey it =
     (let it = it\<lparr>bi_current := NextEntryOffset it\<rparr>;
          p = unat (bi_current it);
          limit = unat (bi_restarts it)
      in if p \<ge> limit then
           (False, it\<lparr>bi_current := bi_restarts it, bi_restart_index := bi_num_restarts it\<rparr>)
         else
           case DecodeEntry (drop p (take limit (bi_data it))) of
             None \<Rightarrow> (False, CorruptionError it)
           | Some (shared, non_shared, value_length, q) \<Rightarrow>
               if length (bi_key it) < unat shared then (False, CorruptionError it)
               else
                 let off = limit - length q;
                     it = it\<lparr>bi_key := take (unat shared) (bi_key it) @
                                        take (unat non_shared) (drop off (bi_data it)),
                             bi_value := (off + unat non_shared, unat value_length)\<rparr>
                 in (True, advance_restart it))"

definition bi_Next :: "Iter \<Rightarrow> Iter" where
  "bi_Next it = snd (ParseNextKey it)"

text \<open>\<^verbatim>\<open>Prev\<close>: back to a restart point before the current entry, then forward.\<close>

partial_function (option) bi_Prev_back :: "Iter \<Rightarrow> u32 \<Rightarrow> (bool \<times> Iter) option" where
  "bi_Prev_back it original =
     (if GetRestartPoint it (bi_restart_index it) \<ge> original then
        if bi_restart_index it = 0 then
          Some (False, it\<lparr>bi_current := bi_restarts it, bi_restart_index := bi_num_restarts it\<rparr>)
        else bi_Prev_back (it\<lparr>bi_restart_index := bi_restart_index it - 1\<rparr>) original
      else Some (True, it))"

partial_function (option) bi_scan :: "Iter \<Rightarrow> u32 \<Rightarrow> Iter option" where
  "bi_scan it bound =
     (let (more, it) = ParseNextKey it in
      if more \<and> NextEntryOffset it < bound then bi_scan it bound else Some it)"

definition bi_Prev :: "Iter \<Rightarrow> Iter option" where
  "bi_Prev it =
     (let original = bi_current it in
      case bi_Prev_back it original of
        None \<Rightarrow> None
      | Some (found, it) \<Rightarrow>
          if found then bi_scan (SeekToRestartPoint it (bi_restart_index it)) original else Some it)"

text \<open>The binary search: \<open>None\<close> inside is the early return with a corruption.\<close>

partial_function (option) bi_search ::
  "(bytes \<Rightarrow> bytes \<Rightarrow> int) \<Rightarrow> Iter \<Rightarrow> bytes \<Rightarrow> u32 \<Rightarrow> u32 \<Rightarrow> u32 option option" where
  "bi_search cmp it target left right =
     (if left < right then
        let mid = (left + right + 1) div 2;
            region_offset = GetRestartPoint it mid
        in case DecodeEntry (drop (unat region_offset) (take (unat (bi_restarts it)) (bi_data it))) of
             None \<Rightarrow> Some None
           | Some (shared, non_shared, value_length, q) \<Rightarrow>
               if shared \<noteq> 0 then Some None
               else
                 let mid_key = take (unat non_shared)
                       (drop (unat (bi_restarts it) - length q) (bi_data it))
                 in if cmp mid_key target < 0 then bi_search cmp it target mid right
                    else bi_search cmp it target left (mid - 1)
      else Some (Some left))"

partial_function (option) bi_linear :: "(bytes \<Rightarrow> bytes \<Rightarrow> int) \<Rightarrow> Iter \<Rightarrow> bytes \<Rightarrow> Iter option" where
  "bi_linear cmp it target =
     (let (more, it) = ParseNextKey it in
      if \<not> more then Some it
      else if cmp (bi_key it) target \<ge> 0 then Some it
      else bi_linear cmp it target)"

definition bi_Seek :: "(bytes \<Rightarrow> bytes \<Rightarrow> int) \<Rightarrow> Iter \<Rightarrow> bytes \<Rightarrow> Iter option" where
  "bi_Seek cmp it target =
     (case bi_search cmp it target 0 (bi_num_restarts it - 1) of
        None \<Rightarrow> None
      | Some None \<Rightarrow> Some (CorruptionError it)
      | Some (Some left) \<Rightarrow> bi_linear cmp (SeekToRestartPoint it left) target)"

definition bi_SeekToFirst :: "Iter \<Rightarrow> Iter" where
  "bi_SeekToFirst it = snd (ParseNextKey (SeekToRestartPoint it 0))"

definition bi_SeekToLast :: "Iter \<Rightarrow> Iter option" where
  "bi_SeekToLast it = bi_scan (SeekToRestartPoint it (bi_num_restarts it - 1)) (bi_restarts it)"

datatype BlockIterator = Empty status | Positioned Iter

definition Block_NewIterator :: "Block \<Rightarrow> BlockIterator" where
  "Block_NewIterator b =
     (if bl_size b < 4 then Empty (NewErrorIterator (Corruption ''bad block contents''))
      else
        let num_restarts = NumRestarts (bl_data b) (bl_size b) in
        if num_restarts = 0 then Empty NewEmptyIterator
        else Positioned (Iter_new (bl_data b) (bl_restart_offset b) num_restarts))"

definition Block_Iter :: "(bytes \<Rightarrow> bytes \<Rightarrow> int) \<Rightarrow> Iter IteratorOps" where
  "Block_Iter cmp =
     \<lparr>itValid = bi_Valid, itSeekToFirst = (\<lambda>it. Some (bi_SeekToFirst it)),
      itSeekToLast = bi_SeekToLast, itSeek = bi_Seek cmp, itNext = (\<lambda>it. Some (bi_Next it)),
      itPrev = bi_Prev, itKey = bi_key, itValue = bi_value_slice, itStatus = bi_status\<rparr>"

end
