(* ===== verification/Block_Reader.thy ===== *)
theory Block_Reader
  imports Block Db_Format
begin

text \<open>
  The block iterator on a block of the builder: what each of its loops does, as a position in
  the list of entries. The result is an interpretation of \<open>sorted_iterator\<close> by \<open>Block_Iter\<close>,
  for the bytewise and for the internal key comparator.
\<close>

section \<open>Decoding an entry\<close>

lemma DecodeEntry_fast:
  assumes "(ucast a OR ucast b OR ucast c :: u32) < 128"
  shows "GetVarint32Ptr (a # p) = Some (ucast a, p)" and "GetVarint32Ptr (b # p) = Some (ucast b, p)"
    and "GetVarint32Ptr (c # p) = Some (ucast c, p)"
proof -
  have "\<not> bit (ucast a OR ucast b OR ucast c :: u32) 7"
    using assms by (intro not_bit_7) (simp add: word_less_nat_alt)
  then have "\<not> bit (ucast a :: u32) 7" "\<not> bit (ucast b :: u32) 7" "\<not> bit (ucast c :: u32) 7"
    by (simp_all add: bit_or_iff)
  then show "GetVarint32Ptr (a # p) = Some (ucast a, p)" "GetVarint32Ptr (b # p) = Some (ucast b, p)"
    "GetVarint32Ptr (c # p) = Some (ucast c, p)"
    using and_128_bit [of "ucast a :: u32"] and_128_bit [of "ucast b :: u32"] and_128_bit [of "ucast c :: u32"]
    by (simp_all add: GetVarint32Ptr_def Let_def)
qed

text \<open>The fast path is the general one.\<close>

lemma DecodeEntry_slow:
  "DecodeEntry p =
     (if length p < 3 then None
      else
        case GetVarint32 p of None \<Rightarrow> None
        | Some (shared, p) \<Rightarrow>
            (case GetVarint32 p of None \<Rightarrow> None
             | Some (non_shared, p) \<Rightarrow>
                 (case GetVarint32 p of None \<Rightarrow> None
                  | Some (value_length, p) \<Rightarrow>
                      if (of_nat (length p) :: u32) < non_shared + value_length then None
                      else Some (shared, non_shared, value_length, p))))"
proof (cases "length p < 3")
  case False
  then obtain a b c r where p: "p = a # b # c # r"
    by (auto simp: numeral_eq_Suc not_less Suc_le_length_iff)
  show ?thesis
  proof (cases "(ucast a OR ucast b OR ucast c :: u32) < 128")
    case True
    from DecodeEntry_fast [OF True] show ?thesis
      using True by (simp add: DecodeEntry_def p Let_def GetVarint32Ptr_eq)
  next
    case False
    then show ?thesis
      by (simp add: DecodeEntry_def p Let_def GetVarint32Ptr_eq del: not_less split: option.splits prod.splits)
  qed
qed (simp add: DecodeEntry_def)

lemma DecodeEntry_item:
  assumes "sh \<le> length k" "length (item_bytes (sh, k, v) @ rest) < 2 ^ 32"
  shows "DecodeEntry (item_bytes (sh, k, v) @ rest) =
    Some (of_nat sh, of_nat (length k - sh), of_nat (length v), drop sh k @ v @ rest)"
proof -
  let ?a = "length k - sh" and ?b = "length v"
  have len: "?a + ?b + length rest < 2 ^ 32" using assms by simp
  then have "\<not> (of_nat (?a + ?b + length rest) :: u32) < of_nat (?a + ?b)"
    by (subst u32_less) simp_all
  then show ?thesis
    using item_bytes_min [of "(sh, k, v)"] by (simp add: DecodeEntry_slow add.assoc)
qed


section \<open>Positions\<close>

lemma item_key_bound: "items_ok its rs \<Longrightarrow> i < length its \<Longrightarrow> length (item_key (its ! i)) \<le> item_off its (Suc i)"
proof (induction i)
  case 0
  obtain s k v where e: "its ! 0 = (s, k, v)" by (cases "its ! 0")
  have "s = 0" using 0 e by (force simp: items_ok_def)
  then show ?case using 0 e by (simp add: item_off_Suc)
next
  case (Suc i)
  obtain s k v where e: "its ! Suc i = (s, k, v)" by (cases "its ! Suc i")
  have "s \<le> length (item_key (its ! i))" using Suc.prems e by (fastforce simp: items_ok_def)
  then show ?case using Suc e by (simp add: item_off_Suc)
qed

text \<open>An iterator of a block of the builder.\<close>

definition on_block :: "Iter \<Rightarrow> item list \<Rightarrow> nat list \<Rightarrow> bool" where
  "on_block it its rs \<longleftrightarrow>
     bi_data it = block_layout its rs \<and> bi_restarts it = of_nat (length (items_bytes its)) \<and>
     bi_num_restarts it = of_nat (length rs) \<and> items_ok its rs \<and> length (block_layout its rs) < 2 ^ 32 \<and>
     bi_status it = Status_OK"

text \<open>\<open>before it its i\<close>: the next entry parsed is \<open>i\<close>; \<open>stands it its i\<close>: at entry \<open>i\<close>.\<close>

definition before :: "Iter \<Rightarrow> item list \<Rightarrow> nat list \<Rightarrow> nat \<Rightarrow> bool" where
  "before it its rs i \<longleftrightarrow> on_block it its rs \<and> i \<le> length its \<and>
     fst (bi_value it) + snd (bi_value it) = item_off its i \<and> unat (bi_restart_index it) < length rs \<and>
     (i < length its \<longrightarrow> shares (bi_key it) (its ! i))"

definition stands :: "Iter \<Rightarrow> item list \<Rightarrow> nat list \<Rightarrow> nat \<Rightarrow> bool" where
  "stands it its rs i \<longleftrightarrow> before it its rs (Suc i) \<and> i < length its \<and> bi_current it = of_nat (item_off its i) \<and>
     bi_key it = item_key (its ! i) \<and> bi_value_slice it = item_value (its ! i)"

definition nowhere :: "Iter \<Rightarrow> item list \<Rightarrow> nat list \<Rightarrow> bool" where
  "nowhere it its rs \<longleftrightarrow> on_block it its rs \<and> bi_current it = bi_restarts it"

lemma on_block_bounds:
  assumes "on_block it its rs"
  shows "length (items_bytes its) < 2 ^ 32" "length rs < 2 ^ 30" "item_off its i < 2 ^ 32" "rs \<noteq> []"
    "unat (bi_restarts it) = length (items_bytes its)" "unat (bi_num_restarts it) = length rs"
proof -
  from assms have len: "length (items_bytes its) + 4 * length rs + 4 < 2 ^ 32"
    by (simp add: on_block_def block_layout_def)
  have off: "item_off its i \<le> length (items_bytes its)"
    using arg_cong [OF items_bytes_simps(3) [of "take i its" "drop i its"], of length]
    by (simp add: item_off_def del: items_bytes_simps)
  from len off show "length (items_bytes its) < 2 ^ 32" "length rs < 2 ^ 30" "item_off its i < 2 ^ 32" by simp_all
  with assms show "rs \<noteq> []" "unat (bi_restarts it) = length (items_bytes its)" "unat (bi_num_restarts it) = length rs"
    by (simp_all add: on_block_def items_ok_def u32_nat)
qed

lemma NextEntryOffset_before: "before it its rs i \<Longrightarrow> NextEntryOffset it = of_nat (item_off its i)"
  by (simp add: before_def NextEntryOffset_def flip: of_nat_add)

lemma GetRestartPoint_eq:
  assumes "on_block it its rs" "unat r < length rs"
  shows "GetRestartPoint it r = of_nat (item_off its (rs ! unat r))"
proof -
  have "drop (unat (bi_restarts it) + unat r * 4) (block_layout its rs) =
      drop (4 * unat r) (restart_bytes its rs) @ EncodeFixed32 (of_nat (length rs))"
    using assms by (simp add: block_layout_def on_block_bounds(5) [OF assms(1)] mult.commute)
  then show ?thesis
    using assms restart_bytes_nth [OF assms(2), of its] by (simp add: GetRestartPoint_def on_block_def)
qed

lemma advance_restart_facts:
  "on_block it its rs \<Longrightarrow> unat (bi_restart_index it) < length rs \<Longrightarrow>
    \<exists>r. advance_restart it = it\<lparr>bi_restart_index := r\<rparr> \<and> unat r < length rs"
proof (induction it rule: advance_restart.induct)
  case (1 it)
  show ?case
  proof (cases "bi_restart_index it + 1 < bi_num_restarts it \<and>
      GetRestartPoint it (bi_restart_index it + 1) < bi_current it")
    case True
    let ?it = "it\<lparr>bi_restart_index := bi_restart_index it + 1\<rparr>"
    have "unat (bi_restart_index it + 1) < length rs"
      using True on_block_bounds(6) [OF 1(2)] by (simp add: word_less_nat_alt)
    then obtain r where "advance_restart ?it = ?it\<lparr>bi_restart_index := r\<rparr>" "unat r < length rs"
      using 1(1) [OF True] 1(2) by (auto simp: on_block_def)
    then show ?thesis using True by (auto simp: advance_restart.simps [of it])
  next
    case False
    then show ?thesis using 1(3) by (intro exI [of _ "bi_restart_index it"]) (simp add: advance_restart.simps [of it] del: de_Morgan_conj)
  qed
qed

lemma ParseNextKey_end:
  assumes "before it its rs (length its)"
  shows "\<exists>it'. ParseNextKey it = (False, it') \<and> nowhere it' its rs"
proof -
  have on: "on_block it its rs" using assms by (simp add: before_def)
  have "NextEntryOffset it = of_nat (length (items_bytes its))"
    using NextEntryOffset_before [OF assms] by (simp add: item_off_all)
  then have "unat (NextEntryOffset it) = length (items_bytes its)"
    using on_block_bounds(1) [OF on] by (simp only: u32_nat)
  then show ?thesis using on_block_bounds(5) [OF on] on by (auto simp: ParseNextKey_def nowhere_def on_block_def)
qed

lemma DecodeEntry_at:
  assumes on: "on_block it its rs" and i: "i < length its" and e: "its ! i = (s, k, v)" and s: "s \<le> length k"
  obtains q where
    "DecodeEntry (drop (item_off its i) (take (unat (bi_restarts it)) (bi_data it))) =
      Some (of_nat s, of_nat (length k - s), of_nat (length v), q)"
    and "take (length k - s) (drop (length (items_bytes its) - length q) (bi_data it)) = drop s k"
    and "take (length v) (drop (length (items_bytes its) - length q + (length k - s)) (bi_data it)) = v"
    and "length (items_bytes its) - length q + (length k - s) + length v = item_off its (Suc i)"
    and "s < 2 ^ 32" "length k - s < 2 ^ 32" "length v < 2 ^ 32"
proof -
  note bd = on_block_bounds [OF on]
  let ?rest = "items_bytes (drop (Suc i) its)"
  let ?q = "drop s k @ v @ ?rest"
  have le: "item_off its i \<le> length (items_bytes its)"
    using item_off_mono [of i "length its" its] i by (simp add: item_off_all)
  have inp: "drop (item_off its i) (take (unat (bi_restarts it)) (bi_data it)) = item_bytes (s, k, v) @ ?rest"
    using on bd(5) items_bytes_split [OF i] le by (simp add: on_block_def block_layout_def e)
  have "length (item_bytes (s, k, v) @ ?rest) = length (items_bytes its) - item_off its i"
    using arg_cong [OF items_bytes_split [OF i], of length] by (simp add: e)
  then have "length (item_bytes (s, k, v) @ ?rest) < 2 ^ 32" using bd(1) by simp
  from DecodeEntry_item [OF s this] have dec:
    "DecodeEntry (drop (item_off its i) (take (unat (bi_restarts it)) (bi_data it))) =
      Some (of_nat s, of_nat (length k - s), of_nat (length v), ?q)"
    by (simp only: inp)
  define pre where "pre = items_bytes (take i its) @ EncodeVarint32 (of_nat s) @
    EncodeVarint32 (of_nat (length k - s)) @ EncodeVarint32 (of_nat (length v))"
  define suf where "suf = restart_bytes its rs @ EncodeFixed32 (of_nat (length rs))"
  have all: "items_bytes its = pre @ ?q"
    using id_take_nth_drop [OF i] e by (metis append.assoc item_bytes.simps items_bytes_simps(2,3) pre_def)
  have data: "bi_data it = pre @ drop s k @ v @ ?rest @ suf"
    using on by (simp add: on_block_def block_layout_def all suf_def)
  have off: "length (items_bytes its) - length ?q = length pre"
    by (simp add: all)
  have "items_bytes (take (Suc i) its) = pre @ drop s k @ v"
    by (simp add: take_Suc_conv_app_nth i e pre_def)
  then have next_off: "length pre + (length k - s) + length v = item_off its (Suc i)"
    by (simp add: item_off_def)
  have "s < 2 ^ 32" "length k - s < 2 ^ 32" "length v < 2 ^ 32"
    using next_off bd(3) [of "Suc i"] s item_key_bound [OF _ i] on by (fastforce simp: on_block_def e)+
  then show ?thesis
    by (rule that [OF dec, unfolded off, rotated 3]) (simp_all add: next_off, simp_all add: data)
qed

lemma ParseNextKey_entry:
  assumes b: "before it its rs i" and i: "i < length its"
  shows "\<exists>it'. ParseNextKey it = (True, it') \<and> stands it' its rs i"
proof -
  have on: "on_block it its rs" and r: "unat (bi_restart_index it) < length rs"
    and sh: "shares (bi_key it) (its ! i)" using b i by (simp_all add: before_def)
  note bd = on_block_bounds [OF on]
  obtain s k v where e: "its ! i = (s, k, v)" by (cases "its ! i")
  from sh have s: "s \<le> length (bi_key it)" "s \<le> length k" "take s k = take s (bi_key it)" by (simp_all add: e)
  have p: "unat (NextEntryOffset it) = item_off its i"
    using NextEntryOffset_before [OF b] bd(3) [of i] by (simp only: u32_nat)
  have less: "item_off its i < length (items_bytes its)"
    using item_off_less [OF i, of its] by (simp add: item_off_all)
  obtain q where q: "DecodeEntry (drop (item_off its i) (take (unat (bi_restarts it)) (bi_data it))) =
      Some (of_nat s, of_nat (length k - s), of_nat (length v), q)"
    and piece: "take (length k - s) (drop (length (items_bytes its) - length q) (bi_data it)) = drop s k"
    and slice_v: "take (length v) (drop (length (items_bytes its) - length q + (length k - s)) (bi_data it)) = v"
    and next_off: "length (items_bytes its) - length q + (length k - s) + length v = item_off its (Suc i)"
    and small: "s < 2 ^ 32" "length k - s < 2 ^ 32" "length v < 2 ^ 32"
    by (rule DecodeEntry_at [OF on i e s(2)])
  let ?it = "it\<lparr>bi_current := of_nat (item_off its i), bi_key := k,
    bi_value := (length (items_bytes its) - length q + (length k - s), length v)\<rparr>"
  have key: "take s (bi_key it) @ drop s k = k" using s by (metis append_take_drop_id)
  have parse: "ParseNextKey it = (True, advance_restart ?it)"
    using less NextEntryOffset_before [OF b] p
    by (simp add: ParseNextKey_def Let_def bd(5) q [unfolded bd(5)] u32_nat [OF small(1)]
        u32_nat [OF small(2)] u32_nat [OF small(3)] leD [OF s(1)] piece key del: of_nat_diff)
  have "on_block ?it its rs" "unat (bi_restart_index ?it) < length rs" using on r by (simp_all add: on_block_def)
  then obtain r' where r': "advance_restart ?it = ?it\<lparr>bi_restart_index := r'\<rparr>" "unat r' < length rs"
    using advance_restart_facts by blast
  have "shares k (its ! Suc i)" if "Suc i < length its"
    using on that e by (fastforce simp: on_block_def items_ok_def)
  then have "stands (?it\<lparr>bi_restart_index := r'\<rparr>) its rs i"
    using on r' i next_off slice_v by (simp add: stands_def before_def on_block_def e bi_value_slice_def)
  then show ?thesis using parse r' by simp
qed

section \<open>Scans\<close>

lemma stands_before: "stands it its rs i \<Longrightarrow> before it its rs (Suc i)"
  by (simp add: stands_def)

lemma before_on: "before it its rs i \<Longrightarrow> on_block it its rs"
  by (simp add: before_def)

lemma NextEntryOffset_less:
  assumes "stands it its rs i" "j \<le> length its"
  shows "NextEntryOffset it < of_nat (item_off its j) \<longleftrightarrow> Suc i < j"
proof -
  note on = before_on [OF stands_before [OF assms(1)]]
  have i: "Suc i \<le> length its" using assms(1) by (simp add: stands_def)
  have "item_off its (Suc i) < item_off its j \<longleftrightarrow> Suc i < j"
    using item_off_less [of "Suc i" j its] item_off_mono [of j "Suc i" its] assms(2) by (metis leD not_le)
  then show ?thesis
    using NextEntryOffset_before [OF stands_before [OF assms(1)]]
    by (simp only: u32_less [OF on_block_bounds(3) [OF on] on_block_bounds(3) [OF on]])
qed

text \<open>\<open>bi_scan\<close> stops at the last entry before entry \<open>j\<close>.\<close>

lemma bi_scan_stands:
  "before it its rs i \<Longrightarrow> i < j \<Longrightarrow> j \<le> length its \<Longrightarrow>
    \<exists>it'. bi_scan it (of_nat (item_off its j)) = Some it' \<and> stands it' its rs (j - 1)"
proof (induction "j - i" arbitrary: it i)
  case (Suc n)
  then obtain it' where it': "ParseNextKey it = (True, it')" "stands it' its rs i"
    using ParseNextKey_entry [OF Suc(3)] by auto
  show ?case
  proof (cases "Suc i < j")
    case True
    have n: "n = j - Suc i" using Suc.hyps(2) by simp
    obtain it'' where "bi_scan it' (of_nat (item_off its j)) = Some it''" "stands it'' its rs (j - 1)"
      using Suc.hyps(1) [OF n stands_before [OF it'(2)] True Suc.prems(3)] by blast
    then show ?thesis
      using it' True by (simp add: bi_scan.simps [of it] NextEntryOffset_less [OF it'(2) Suc(5)])
  next
    case False
    then have "j - 1 = i" using Suc(4) by simp
    then show ?thesis
      using it' False by (simp add: bi_scan.simps [of it] NextEntryOffset_less [OF it'(2) Suc(5)])
  qed
qed simp

lemma bi_scan_empty:
  "before it [] rs 0 \<Longrightarrow> \<exists>it'. bi_scan it b = Some it' \<and> nowhere it' [] rs"
  using ParseNextKey_end [of it "[]" rs] by (auto simp: bi_scan.simps [of it])

lemma SeekToRestartPoint_before:
  assumes "on_block it its rs" "unat r < length rs"
  shows "before (SeekToRestartPoint it r) its rs (rs ! unat r)"
proof -
  have m: "rs ! unat r \<in> set rs" using assms(2) by simp
  have ok: "items_ok its rs" using assms(1) by (simp add: on_block_def)
  have on: "on_block (it\<lparr>bi_key := [], bi_restart_index := r\<rparr>) its rs" using assms(1) by (simp add: on_block_def)
  have z: "shares [] (its ! (rs ! unat r))" if "rs ! unat r < length its"
  proof -
    have "fst (its ! (rs ! unat r)) = 0" using ok m that by (force simp: items_ok_def)
    then show ?thesis by (cases "its ! (rs ! unat r)") simp
  qed
  have le: "rs ! unat r \<le> length its" using ok m by (force simp: items_ok_def)
  show ?thesis
    using on assms(2) z le
    by (simp add: before_def SeekToRestartPoint_def Let_def GetRestartPoint_eq [OF on assms(2)]
        u32_nat [OF on_block_bounds(3) [OF assms(1)]] on_block_def)
qed

lemma restart_0: "on_block it its rs \<Longrightarrow> rs ! 0 = 0 \<and> 0 < length rs"
  by (cases rs) (auto simp: on_block_def items_ok_def)

section \<open>Moving\<close>

lemma bi_SeekToFirst_moves:
  assumes "on_block it its rs"
  shows "if its = [] then nowhere (bi_SeekToFirst it) its rs else stands (bi_SeekToFirst it) its rs 0"
proof -
  have b: "before (SeekToRestartPoint it 0) its rs 0"
    using SeekToRestartPoint_before [OF assms, of 0] restart_0 [OF assms] by simp
  show ?thesis
    using ParseNextKey_end [of "SeekToRestartPoint it 0" its rs] ParseNextKey_entry [OF b] b
    by (cases its) (auto simp: bi_SeekToFirst_def)
qed

lemma bi_Next_moves:
  assumes "stands it its rs i"
  shows "if Suc i = length its then nowhere (bi_Next it) its rs else stands (bi_Next it) its rs (Suc i)"
proof -
  note b = stands_before [OF assms]
  have "Suc i \<le> length its" using assms by (simp add: stands_def)
  then show ?thesis
    using ParseNextKey_end [of it its rs] ParseNextKey_entry [OF b] b by (auto simp: bi_Next_def)
qed

lemma bi_SeekToLast_moves:
  assumes on: "on_block it its rs"
  shows "\<exists>it'. bi_SeekToLast it = Some it' \<and>
    (if its = [] then nowhere it' its rs else stands it' its rs (length its - 1))"
proof -
  note bd = on_block_bounds [OF on]
  have r: "unat (bi_num_restarts it - 1) < length rs"
    using bd(4,6) by (subst unat_minus_one) auto
  note b = SeekToRestartPoint_before [OF on r]
  have m: "rs ! unat (bi_num_restarts it - 1) \<in> set rs" using r by simp
  have ok: "items_ok its rs" and R: "bi_restarts it = of_nat (item_off its (length its))"
    using on by (simp_all add: on_block_def item_off_all)
  show ?thesis
  proof (cases "its = []")
    case True
    then have "rs ! unat (bi_num_restarts it - 1) = 0" using ok m by (force simp: items_ok_def)
    then show ?thesis using True bi_scan_empty b by (simp add: bi_SeekToLast_def)
  next
    case False
    then have "rs ! unat (bi_num_restarts it - 1) < length its" using ok m by (force simp: items_ok_def)
    from bi_scan_stands [OF b this] False show ?thesis by (simp add: bi_SeekToLast_def R)
  qed
qed


lemma bi_Prev_back_finds:
  "on_block it its rs \<Longrightarrow> unat (bi_restart_index it) < length rs \<Longrightarrow> i < length its \<Longrightarrow>
    \<exists>r. unat r < length rs \<and> bi_Prev_back it (of_nat (item_off its i)) =
      (if i = 0 then Some (False, it\<lparr>bi_current := bi_restarts it, bi_restart_index := bi_num_restarts it\<rparr>)
       else Some (True, it\<lparr>bi_restart_index := r\<rparr>)) \<and> (i \<noteq> 0 \<longrightarrow> rs ! unat r < i)"
proof (induction "unat (bi_restart_index it)" arbitrary: it)
  case (0 it)
  let ?r = "bi_restart_index it"
  note bd = on_block_bounds(3) [OF 0(2)]
  have g: "GetRestartPoint it ?r = 0"
    using GetRestartPoint_eq [OF 0(2,3)] restart_0 [OF 0(2)] by (simp flip: 0(1))
  have "(of_nat (item_off its i) :: u32) \<le> 0 \<longleftrightarrow> i = 0"
    using u32_le [OF bd [of i], of 0] item_off_less [of 0 i its] 0(4) by (cases "i = 0") auto
  moreover have "?r = 0" using 0(1) by (simp add: unat_eq_0)
  ultimately show ?case
    using g restart_0 [OF 0(2)] 0(3) by (intro exI [of _ ?r]) (auto simp: bi_Prev_back.simps [of it])
next
  case (Suc n it)
  let ?r = "bi_restart_index it"
  note bd = on_block_bounds(3) [OF Suc(3)]
  have g: "GetRestartPoint it ?r = of_nat (item_off its (rs ! unat ?r))" by (rule GetRestartPoint_eq [OF Suc(3,4)])
  have le: "rs ! unat ?r \<le> length its"
    using Suc(3) nth_mem [OF Suc(4)] by (force simp: on_block_def items_ok_def)
  have c: "of_nat (item_off its i) \<le> (of_nat (item_off its (rs ! unat ?r)) :: u32) \<longleftrightarrow> i \<le> rs ! unat ?r"
    unfolding u32_le [OF bd bd]
    using item_off_mono [of i "rs ! unat ?r" its] item_off_less [of "rs ! unat ?r" i its] Suc(5)
    by (metis leD less_imp_le_nat not_le)
  show ?case
  proof (cases "i \<le> rs ! unat ?r")
    case True
    let ?it = "it\<lparr>bi_restart_index := ?r - 1\<rparr>"
    have nz: "?r \<noteq> 0" using Suc(2) by auto
    have n: "unat (?r - 1) = n" using Suc(2) nz by (simp add: unat_minus_one)
    have "on_block ?it its rs" using Suc(3) by (simp add: on_block_def)
    with Suc(1) [of ?it] n Suc(2,4,5) obtain r where "unat r < length rs" "bi_Prev_back ?it (of_nat (item_off its i)) =
      (if i = 0 then Some (False, ?it\<lparr>bi_current := bi_restarts ?it, bi_restart_index := bi_num_restarts ?it\<rparr>)
       else Some (True, ?it\<lparr>bi_restart_index := r\<rparr>))" "i \<noteq> 0 \<longrightarrow> rs ! unat r < i" by auto
    then show ?thesis using g c True nz by (intro exI [of _ r]) (simp add: bi_Prev_back.simps [of it])
  next
    case False
    then show ?thesis using g c Suc(4) by (intro exI [of _ ?r]) (simp add: bi_Prev_back.simps [of it])
  qed
qed

lemma bi_Prev_moves:
  assumes s: "stands it its rs i"
  shows "\<exists>it'. bi_Prev it = Some it' \<and> (if i = 0 then nowhere it' its rs else stands it' its rs (i - 1))"
proof -
  from s have on: "on_block it its rs" and r: "unat (bi_restart_index it) < length rs" and i: "i < length its"
    and c: "bi_current it = of_nat (item_off its i)" by (simp_all add: stands_def before_def)
  from bi_Prev_back_finds [OF on r i] obtain r' where r': "unat r' < length rs" "bi_Prev_back it (of_nat (item_off its i)) =
      (if i = 0 then Some (False, it\<lparr>bi_current := bi_restarts it, bi_restart_index := bi_num_restarts it\<rparr>)
       else Some (True, it\<lparr>bi_restart_index := r'\<rparr>))" "i \<noteq> 0 \<longrightarrow> rs ! unat r' < i" by auto
  show ?thesis
  proof (cases "i = 0")
    case True
    then show ?thesis using r' on by (simp add: bi_Prev_def c nowhere_def on_block_def)
  next
    case False
    have "on_block (it\<lparr>bi_restart_index := r'\<rparr>) its rs" using on by (simp add: on_block_def)
    from bi_scan_stands [OF SeekToRestartPoint_before [OF this r'(1)], of i] r' False i show ?thesis
      by (simp add: bi_Prev_def c)
  qed
qed


section \<open>Seeking\<close>

text \<open>The entry at a restart point, as the binary search reads it.\<close>

lemma restart_entry:
  assumes on: "on_block it its rs" and r: "unat r < length rs" and ne: "its \<noteq> []"
  obtains n vl q where
    "DecodeEntry (drop (unat (GetRestartPoint it r)) (take (unat (bi_restarts it)) (bi_data it))) = Some (0, n, vl, q)"
    and "take (unat n) (drop (unat (bi_restarts it) - length q) (bi_data it)) = item_key (its ! (rs ! unat r))"
proof -
  let ?i = "rs ! unat r"
  note bd = on_block_bounds [OF on]
  have ok: "items_ok its rs" using on by (simp add: on_block_def)
  have m: "?i \<in> set rs" using r by simp
  have i: "?i < length its" and z: "fst (its ! ?i) = 0" using ok m ne by (auto simp: items_ok_def)
  obtain k v where e: "its ! ?i = (0, k, v)" using z by (cases "its ! ?i") simp
  have g: "unat (GetRestartPoint it r) = item_off its ?i"
    using GetRestartPoint_eq [OF on r] bd(3) by (simp only: u32_nat)
  obtain q where "DecodeEntry (drop (item_off its ?i) (take (unat (bi_restarts it)) (bi_data it))) =
      Some (of_nat 0, of_nat (length k - 0), of_nat (length v), q)"
    and "take (length k - 0) (drop (length (items_bytes its) - length q) (bi_data it)) = drop 0 k"
    and "length k - 0 < 2 ^ 32"
    by (rule DecodeEntry_at [OF on i e]) auto
  then show ?thesis by (intro that [of "of_nat (length k)" "of_nat (length v)" q]) (simp_all add: g e bd(5) u32_nat)
qed

definition sorted_keys :: "(bytes \<Rightarrow> bool) \<Rightarrow> (bytes \<Rightarrow> bytes \<Rightarrow> int) \<Rightarrow> (bytes \<times> bytes) list \<Rightarrow> bool" where
  "sorted_keys valid cmp kvs \<longleftrightarrow>
     sorted_wrt (\<lambda>a b. cmp (fst a) (fst b) < 0) kvs \<and> (\<forall>kv\<in>set kvs. valid (fst kv))"

lemma bi_search_finds:
  "on_block it its rs \<Longrightarrow> l \<le> r \<Longrightarrow> r < length rs \<Longrightarrow> l = 0 \<or> cmp (item_key (its ! (rs ! l))) t < 0 \<Longrightarrow>
    \<exists>m. bi_search cmp it t (of_nat l) (of_nat r) = Some (Some (of_nat m)) \<and> m < length rs \<and>
      (m = 0 \<or> cmp (item_key (its ! (rs ! m))) t < 0)"
proof (induction "r - l" arbitrary: l r rule: less_induct)
  case less
  note on = less(2)
  have r: "r < 2 ^ 30" using less(4) on_block_bounds(2) [OF on] by simp
  have cmp32: "(of_nat l :: u32) < of_nat r \<longleftrightarrow> l < r" using less(3) r by (intro u32_less) simp_all
  show ?case
  proof (cases "l < r")
    case False
    then have "bi_search cmp it t (of_nat l) (of_nat r) = Some (Some (of_nat l))"
      using cmp32 by (simp add: bi_search.simps)
    then show ?thesis using less(3,4,5) by (intro exI [of _ l]) simp
  next
    case True
    define mid where "mid = (l + r + 1) div 2"
    have mid: "l < mid" "mid \<le> r" using True by (simp_all add: mid_def)
    have half: "(of_nat l + of_nat r + 1) div 2 = (of_nat mid :: u32)"
      unfolding mid_def by (rule mid_nat [OF less(3) r])
    have u: "unat (of_nat mid :: u32) = mid" using mid r by (intro u32_nat) simp
    have "2 \<le> length rs" using mid less(4) by simp
    then have ne: "its \<noteq> []" using on by (cases rs; cases "tl rs") (auto simp: on_block_def items_ok_def)
    obtain n vl q where dec: "DecodeEntry (drop (unat (GetRestartPoint it (of_nat mid)))
        (take (unat (bi_restarts it)) (bi_data it))) = Some (0, n, vl, q)"
      and key: "take (unat n) (drop (unat (bi_restarts it) - length q) (bi_data it)) = item_key (its ! (rs ! mid))"
      using restart_entry [OF on _ ne, of "of_nat mid"] u mid less(4) by auto
    have step: "bi_search cmp it t (of_nat l) (of_nat r) =
        (if cmp (item_key (its ! (rs ! mid))) t < 0 then bi_search cmp it t (of_nat mid) (of_nat r)
         else bi_search cmp it t (of_nat l) (of_nat (mid - 1)))"
      using True cmp32 dec key mid by (subst bi_search.simps) (simp add: half Let_def of_nat_diff)
    show ?thesis
    proof (cases "cmp (item_key (its ! (rs ! mid))) t < 0")
      case True
      then show ?thesis using less(1) [of r mid] step on mid less(4) by auto
    next
      case False
      then show ?thesis using less(1) [of "mid - 1" l] step on mid less(4,5) by auto
    qed
  qed
qed

text \<open>The linear search stops at the first entry from \<open>i\<close> on that is not before the target.\<close>

lemma bi_linear_finds:
  "before it its rs i \<Longrightarrow>
    \<exists>it'. bi_linear cmp it t = Some it' \<and>
      (let j = i + length (takeWhile (\<lambda>e. cmp (item_key e) t < 0) (drop i its)) in
       if j < length its then stands it' its rs j else nowhere it' its rs)"
proof (induction "length its - i" arbitrary: it i)
  case 0
  then have "i = length its" by (simp add: before_def)
  then show ?case using ParseNextKey_end [of it its rs] 0(2) by (auto simp: bi_linear.simps [of _ it])
next
  case (Suc n)
  then have i: "i < length its" by simp
  obtain it' where it': "ParseNextKey it = (True, it')" "stands it' its rs i"
    using ParseNextKey_entry [OF Suc(3) i] by blast
  have k: "bi_key it' = item_key (its ! i)" using it'(2) by (simp add: stands_def)
  have d: "drop i its = its ! i # drop (Suc i) its" using i by (rule Cons_nth_drop_Suc [symmetric])
  show ?case
  proof (cases "cmp (item_key (its ! i)) t < 0")
    case True
    have n: "n = length its - Suc i" using Suc.hyps(2) by simp
    from Suc.hyps(1) [OF n stands_before [OF it'(2)]] show ?thesis
      using True it' k by (simp add: bi_linear.simps [of _ it] d Let_def)
  next
    case False
    then show ?thesis using it' k i by (simp add: bi_linear.simps [of _ it] d Let_def)
  qed
qed

context comparison
begin

lemma takeWhile_from:
  assumes "sorted_wrt (\<lambda>a b. Compare (f a) (f b) < 0) xs" "\<forall>x\<in>set xs. valid (f x)" "valid t"
    and "i \<le> length xs" "i = 0 \<or> i < length xs \<and> Compare (f (xs ! i)) t < 0"
  shows "i + length (takeWhile (\<lambda>x. Compare (f x) t < 0) (drop i xs)) = length (takeWhile (\<lambda>x. Compare (f x) t < 0) xs)"
proof -
  have "\<forall>x\<in>set (take i xs). Compare (f x) t < 0"
  proof
    fix x assume "x \<in> set (take i xs)"
    then obtain j where j: "j < i" "j < length xs" "x = xs ! j" by (auto simp: in_set_conv_nth)
    then have i: "i < length xs" "Compare (f (xs ! i)) t < 0" using assms(5) by auto
    then have "Compare (f (xs ! j)) (f (xs ! i)) < 0" using assms(1) j by (simp add: sorted_wrt_iff_nth_less)
    with i j assms(2,3) show "Compare (f x) t < 0"
      using less_trans [of "f (xs ! j)" "f (xs ! i)" t] by auto
  qed
  then have "takeWhile (\<lambda>x. Compare (f x) t < 0) (take i xs @ drop i xs) =
      take i xs @ takeWhile (\<lambda>x. Compare (f x) t < 0) (drop i xs)" by (intro takeWhile_append2) blast
  then show ?thesis using assms(4) by (metis append_take_drop_id length_append length_take min.absorb2)
qed


end

context comparator
begin

definition bi_sits :: "Iter \<Rightarrow> (bytes \<times> bytes) list \<Rightarrow> nat \<Rightarrow> bool" where
  "bi_sits it kvs i \<longleftrightarrow> sorted_keys valid Compare kvs \<and>
     (\<exists>its rs. kvs = map item_kv its \<and> on_block it its rs \<and>
        (if i < length its then stands it its rs i else i = length its \<and> nowhere it its rs))"

lemma item_kv_eq: "item_kv e = (item_key e, item_value e)"
  by (cases e) simp

lemma item_kv_fst: "fst (item_kv e) = item_key e"
  by (cases e) simp

lemma bi_sitsI:
  "sorted_keys valid Compare (map item_kv its) \<Longrightarrow>
    (if i < length its then stands it its rs i else i = length its \<and> nowhere it its rs) \<Longrightarrow>
    bi_sits it (map item_kv its) i"
  unfolding bi_sits_def by (intro conjI exI [of _ its] exI [of _ rs]) (auto simp: nowhere_def stands_def before_def split: if_splits)

lemma bi_Seek_moves:
  assumes on: "on_block it its rs" and srt: "sorted_keys valid Compare (map item_kv its)" and t: "valid t"
  shows "\<exists>it'. bi_Seek Compare it t = Some it' \<and>
    bi_sits it' (map item_kv its) (length (takeWhile (\<lambda>kv. Compare (fst kv) t < 0) (map item_kv its)))"
proof -
  note bd = on_block_bounds [OF on]
  have srt': "sorted_wrt (\<lambda>a b. Compare (item_key a) (item_key b) < 0) its" "\<forall>e\<in>set its. valid (item_key e)"
    using srt by (simp_all add: sorted_keys_def sorted_wrt_map item_kv_fst)
  have n: "bi_num_restarts it - 1 = of_nat (length rs - 1)"
    using on bd(4) by (simp add: on_block_def of_nat_diff Suc_leI)
  have "length rs - 1 < length rs" using bd(4) by simp
  from bi_search_finds [OF on, of 0 "length rs - 1" Compare t] this n obtain m where m:
    "bi_search Compare it t 0 (bi_num_restarts it - 1) = Some (Some (of_nat m))" "m < length rs"
    "m = 0 \<or> Compare (item_key (its ! (rs ! m))) t < 0" by auto
  have um: "unat (of_nat m :: u32) = m" using m(2) bd(2) by (intro u32_nat) simp
  have b: "before (SeekToRestartPoint it (of_nat m)) its rs (rs ! m)"
    using SeekToRestartPoint_before [OF on, of "of_nat m"] um m(2) by simp
  have "rs ! m \<in> set rs" using m(2) by simp
  then have le: "rs ! m \<le> length its" "rs ! m < length its \<or> rs ! m = 0" using on by (fastforce simp: on_block_def items_ok_def)+
  have z: "rs ! m = 0 \<or> rs ! m < length its \<and> Compare (item_key (its ! (rs ! m))) t < 0"
    using m(3) le restart_0 [OF on] by auto
  have tw: "length (takeWhile (\<lambda>kv. Compare (fst kv) t < 0) (map item_kv its)) =
      rs ! m + length (takeWhile (\<lambda>e. Compare (item_key e) t < 0) (drop (rs ! m) its))"
    using takeWhile_from [OF srt' t le(1) z] by (simp add: takeWhile_map item_kv_fst comp_def)
  have bound: "length (takeWhile (\<lambda>kv. Compare (fst kv) t < 0) (map item_kv its)) \<le> length its"
    by (metis length_map length_takeWhile_le)
  from bi_linear_finds [OF b, of Compare t] obtain it' where
    "bi_linear Compare (SeekToRestartPoint it (of_nat m)) t = Some it'"
    and s: "let j = rs ! m + length (takeWhile (\<lambda>e. Compare (item_key e) t < 0) (drop (rs ! m) its)) in
       if j < length its then stands it' its rs j else nowhere it' its rs" by blast
  moreover have "bi_sits it' (map item_kv its) (length (takeWhile (\<lambda>kv. Compare (fst kv) t < 0) (map item_kv its)))"
    using s bound by (intro bi_sitsI [OF srt]) (auto simp: tw Let_def split: if_splits)
  ultimately show ?thesis using m(1) by (simp add: bi_Seek_def)
qed

lemma block_sorted_iterator: "sorted_iterator valid Compare (Block_Iter Compare) bi_sits"
proof (unfold_locales, goal_cases)
  case (1 it kvs i)
  then show ?case by (auto simp: bi_sits_def sorted_keys_def split: if_splits)
next
  case (2 it kvs i)
  then obtain its rs where k: "kvs = map item_kv its" "on_block it its rs"
    "if i < length its then stands it its rs i else i = length its \<and> nowhere it its rs" by (auto simp: bi_sits_def)
  have "i < length its \<Longrightarrow> of_nat (item_off its i) < (of_nat (length (items_bytes its)) :: u32)"
    using on_block_bounds(1,3) [OF k(2)] item_off_less [of i "length its" its] by (simp add: u32_less item_off_all)
  with k show ?case
    by (auto simp: Block_Iter_def bi_Valid_def stands_def nowhere_def on_block_def ok_Status_OK split: if_splits)
next
  case (3 it kvs i)
  then show ?case by (auto simp: bi_sits_def Block_Iter_def stands_def item_kv_eq split: if_splits)
next
  case (4 it kvs i)
  then obtain its rs where k: "kvs = map item_kv its" "on_block it its rs" "sorted_keys valid Compare (map item_kv its)"
    by (auto simp: bi_sits_def)
  show ?case using bi_SeekToFirst_moves [OF k(2)] bi_sitsI [OF k(3), of 0 "bi_SeekToFirst it" rs]
    by (auto simp: Block_Iter_def k(1) split: if_splits)
next
  case (5 it kvs i)
  then obtain its rs where k: "kvs = map item_kv its" "on_block it its rs" "sorted_keys valid Compare (map item_kv its)"
    by (auto simp: bi_sits_def)
  from bi_SeekToLast_moves [OF k(2)] obtain it' where it': "bi_SeekToLast it = Some it'"
    "if its = [] then nowhere it' its rs else stands it' its rs (length its - 1)" by blast
  have "bi_sits it' kvs (length kvs - 1)"
    using it'(2) bi_sitsI [OF k(3), of "length its - 1" it' rs] by (cases its) (auto simp: k(1))
  then show ?case using it'(1) by (simp add: Block_Iter_def)
next
  case (6 it kvs i t)
  then obtain its rs where k: "kvs = map item_kv its" "on_block it its rs" "sorted_keys valid Compare (map item_kv its)"
    by (auto simp: bi_sits_def)
  show ?case using bi_Seek_moves [OF k(2,3) 6(2)] by (simp add: Block_Iter_def k(1))
next
  case (7 it kvs i)
  then obtain its rs where k: "kvs = map item_kv its" "sorted_keys valid Compare (map item_kv its)" "stands it its rs i"
    by (auto simp: bi_sits_def split: if_splits)
  show ?case using bi_Next_moves [OF k(3)] 7(2) bi_sitsI [OF k(2), of "Suc i" "bi_Next it" rs]
    by (auto simp: Block_Iter_def k(1) split: if_splits)
next
  case (8 it kvs i)
  then obtain its rs where k: "kvs = map item_kv its" "sorted_keys valid Compare (map item_kv its)" "stands it its rs i"
    by (auto simp: bi_sits_def split: if_splits)
  from bi_Prev_moves [OF k(3)] obtain it' where it': "bi_Prev it = Some it'"
    "if i = 0 then nowhere it' its rs else stands it' its rs (i - 1)" by blast
  have "bi_sits it' kvs (if i = 0 then length kvs else i - 1)"
    unfolding k(1) by (rule bi_sitsI [OF k(2), of _ it' rs]) (use it'(2) 8(2) k(1) in \<open>auto split: if_splits\<close>)
  then show ?case using it'(1) by (simp add: Block_Iter_def)
qed

end

interpretation block: sorted_iterator "\<lambda>_. True" Bytewise_Compare "Block_Iter Bytewise_Compare" bytewise.bi_sits
  by (rule bytewise.block_sorted_iterator)

interpretation internal_block: sorted_iterator "\<lambda>k. 8 \<le> length k" icmp "Block_Iter icmp" internal.bi_sits
  by (rule internal.block_sorted_iterator)


section \<open>Opening a block\<close>

lemma block_opens:
  assumes ok: "items_ok its rs" and len: "length (block_layout its rs) < 2 ^ 32"
  shows "\<exists>it. Block_NewIterator (Block_new (block_layout its rs)) = Positioned it \<and> nowhere it its rs"
proof -
  let ?c = "block_layout its rs" and ?R = "length (items_bytes its)" and ?n = "length rs"
  have L: "length ?c = ?R + 4 * ?n + 4" by (simp add: block_layout_def)
  have n: "0 < ?n" "?n + 1 < 2 ^ 32" using ok len L by (simp_all add: items_ok_def)
  have un: "unat (of_nat ?n :: u32) = ?n" "unat (of_nat (?n + 1) :: u32) = ?n + 1"
    by (rule u32_nat; use n(2) in simp)+
  have "drop (length ?c - 4) ?c = EncodeFixed32 (of_nat ?n)" by (simp add: block_layout_def)
  then have num: "NumRestarts ?c (length ?c) = of_nat ?n" by (simp add: NumRestarts_def)
  have nz: "(of_nat ?n :: u32) \<noteq> 0" using un(1) n(1) by (metis unat_0 less_irrefl)
  have off: "length ?c - unat (1 + of_nat ?n :: u32) * 4 = ?R"
    using un(2) L by (simp add: add.commute)
  have "\<not> (length ?c - 4) div 4 < ?n" using L by simp
  then have new: "Block_new ?c = \<lparr>bl_data = ?c, bl_size = length ?c, bl_restart_offset = of_nat ?R\<rparr>"
    using L off by (simp add: Block_new_def Let_def num [unfolded L] un(1))
  have "Block_NewIterator (Block_new ?c) = Positioned (Iter_new ?c (of_nat ?R) (of_nat ?n))"
    using L nz by (simp add: Block_NewIterator_def new num [unfolded L] Let_def)
  then show ?thesis using ok len by (simp add: nowhere_def on_block_def Iter_new_def)
qed

text \<open>The iterator over a block: its methods from the point where \<^verbatim>\<open>NewIterator\<close> leaves it.\<close>

definition read_block :: "(bytes \<Rightarrow> bytes \<Rightarrow> int) \<Rightarrow> (Iter \<Rightarrow> 'r option) \<Rightarrow> bytes \<Rightarrow> 'r option" where
  "read_block cmp f contents =
     (case Block_NewIterator (Block_new contents) of Empty _ \<Rightarrow> None | Positioned it \<Rightarrow> f it)"

context comparator
begin

lemma built_block_sits:
  assumes "0 < interval" "length (build_block interval kvs) < 2 ^ 32" "sorted_keys valid Compare kvs"
  obtains it where "Block_NewIterator (Block_new (build_block interval kvs)) = Positioned it" "bi_sits it kvs (length kvs)"
proof -
  obtain its rs where l: "build_block interval kvs = block_layout its rs" "items_ok its rs" "map item_kv its = kvs"
    by (rule build_block_layout [OF assms(1)])
  obtain it where it: "Block_NewIterator (Block_new (block_layout its rs)) = Positioned it" "nowhere it its rs"
    using block_opens [OF l(2)] assms(2) l(1) by auto
  have "bi_sits it (map item_kv its) (length its)"
    using assms(3) it(2) l(3) by (intro bi_sitsI [where rs = rs]) auto
  then show ?thesis using that [of it] it(1) l(1,3) by auto
qed

end

section \<open>Properties\<close>

text \<open>C12. A block of keys added in increasing order, read back: iterating forwards from the
  first entry gives exactly the pairs that were added, backwards from the last gives them in
  reverse, whatever the restart interval; every move returns.\<close>

theorem block_roundtrip:
  assumes "0 < interval" and "length (build_block interval kvs) < 2 ^ 32"
    and "sorted_wrt (\<lambda>a b. Bytewise_Compare (fst a) (fst b) < 0) kvs"
  shows "read_block Bytewise_Compare
      (\<lambda>it. Option.bind (itSeekToFirst (Block_Iter Bytewise_Compare) it) (iter_all (Block_Iter Bytewise_Compare)))
      (build_block interval kvs) = Some kvs \<and>
    read_block Bytewise_Compare
      (\<lambda>it. Option.bind (itSeekToLast (Block_Iter Bytewise_Compare) it) (iter_back (Block_Iter Bytewise_Compare)))
      (build_block interval kvs) = Some (rev kvs)"
proof -
  have "sorted_keys (\<lambda>_. True) Bytewise_Compare kvs" using assms(3) by (simp add: sorted_keys_def)
  from bytewise.built_block_sits [OF assms(1,2) this] obtain it where
    it: "Block_NewIterator (Block_new (build_block interval kvs)) = Positioned it" "bytewise.bi_sits it kvs (length kvs)"
    by blast
  from block.scan_all [OF it(2)] it(1) show ?thesis by (simp add: read_block_def)
qed

theorem block_roundtrip_witness:
  "let kvs = [([1], [9]), ([1, 2], []), ([2], [7, 7])] in
    read_block Bytewise_Compare
      (\<lambda>it. Option.bind (itSeekToFirst (Block_Iter Bytewise_Compare) it) (iter_all (Block_Iter Bytewise_Compare)))
      (build_block 2 kvs) = Some kvs \<and>
    read_block Bytewise_Compare
      (\<lambda>it. Option.bind (itSeekToLast (Block_Iter Bytewise_Compare) it) (iter_back (Block_Iter Bytewise_Compare)))
      (build_block 2 kvs) = Some (rev kvs)"
  unfolding Let_def by (rule block_roundtrip) (simp, rule le_less_trans [OF build_block_length], simp, simp, code_simp)

text \<open>C13. Seeking in a block of internal keys: the binary search over the restart points and the
  linear scan behind it end at the first entry at or after the target, so that what can be read
  from there is the rest of the entries; the iterator is not valid when there is none.\<close>

theorem block_seek:
  assumes "0 < interval" and "length (build_block interval kvs) < 2 ^ 32" and "8 \<le> length t"
    and "sorted_wrt (\<lambda>a b. icmp (fst a) (fst b) < 0) kvs" and "\<forall>kv\<in>set kvs. 8 \<le> length (fst kv)"
  shows "read_block icmp
      (\<lambda>it. Option.bind (itSeek (Block_Iter icmp) it t) (iter_all (Block_Iter icmp)))
      (build_block interval kvs) = Some (dropWhile (\<lambda>kv. icmp (fst kv) t < 0) kvs)"
proof -
  have "sorted_keys (\<lambda>k. 8 \<le> length k) icmp kvs" using assms(4,5) by (simp add: sorted_keys_def)
  from internal.built_block_sits [OF assms(1,2) this] obtain it where
    it: "Block_NewIterator (Block_new (build_block interval kvs)) = Positioned it" "internal.bi_sits it kvs (length kvs)"
    by blast
  from internal_block.seek_scan [OF it(2) assms(3)] it(1) show ?thesis by (simp add: read_block_def)
qed

theorem block_seek_witness:
  "read_block icmp (\<lambda>it. Option.bind (itSeek (Block_Iter icmp) it (InternalKey [2] 5 kTypeValue)) (iter_all (Block_Iter icmp)))
     (build_block 2 [(InternalKey [1] 3 kTypeValue, [9]), (InternalKey [2] 7 kTypeDeletion, []),
        (InternalKey [2] 4 kTypeValue, [8])]) =
   Some (dropWhile (\<lambda>kv. icmp (fst kv) (InternalKey [2] 5 kTypeValue) < 0)
     [(InternalKey [1] 3 kTypeValue, [9]), (InternalKey [2] 7 kTypeDeletion, []), (InternalKey [2] 4 kTypeValue, [8])])"
  by (rule block_seek) (simp, rule le_less_trans [OF build_block_length], simp, simp, simp, simp add: IKC_Compare_less PackSequenceAndType_def, simp)

end
