(* ===== verification/Block_Safety.thy ===== *)
theory Block_Safety
  imports Block
begin

text \<open>
  Reading a block of any contents, as a table file may hold after a crash or with checksums
  not verified. What \<^verbatim>\<open>DecodeEntry\<close> accepts lies in the block up to the wrap-around of its length
  check; as long as no entry exploits that, every method of the block iterator returns, restart
  points are only read inside the restart array, and keys and values inside the block. An entry that
  exploits it makes the code read behind the block, which is outside the model.
\<close>

section \<open>Decoding\<close>

lemma GetVarint32Ptr_shrinks: "GetVarint32Ptr p = Some (v, q) \<Longrightarrow> length q < length p"
  by (simp add: GetVarint32Ptr_eq GetVarint32_eq_loop GetVarint32_loop_less)

lemma DecodeEntry_shrinks:
  assumes "DecodeEntry p = Some (s, n, v, q)"
  shows "length q + 3 \<le> length p" and "n + v \<le> of_nat (length q)"
proof -
  show "length q + 3 \<le> length p"
    using assms
    by (fastforce simp: DecodeEntry_def Let_def dest: GetVarint32Ptr_shrinks split: if_splits option.splits prod.splits)
  show "n + v \<le> of_nat (length q)"
    using assms by (auto simp: DecodeEntry_def Let_def not_less split: if_splits option.splits prod.splits)
qed

section \<open>One parse\<close>

text \<open>No entry, wherever one is looked for before the restart array, has lengths that only fit after
  wrapping around.\<close>

definition entries_inside :: "bytes \<Rightarrow> nat \<Rightarrow> bool" where
  "entries_inside c limit \<longleftrightarrow>
     (\<forall>p<limit. case DecodeEntry (drop p (take limit c)) of
        None \<Rightarrow> True | Some (shared, non_shared, value_length, q) \<Rightarrow> unat non_shared + unat value_length \<le> length q)"

text \<open>An iterator over the block \<open>c\<close>.\<close>

definition bi_over :: "bytes \<Rightarrow> Iter \<Rightarrow> bool" where
  "bi_over c it \<longleftrightarrow> bi_data it = c \<and> length c < 2 ^ 32 \<and> 0 < unat (bi_num_restarts it) \<and>
     unat (bi_restarts it) + 4 * unat (bi_num_restarts it) + 4 = length c \<and> entries_inside c (unat (bi_restarts it))"

definition bi_inv :: "bytes \<Rightarrow> Iter \<Rightarrow> bool" where
  "bi_inv c it \<longleftrightarrow> bi_over c it \<and> bi_current it \<le> bi_restarts it \<and>
     (bi_Valid it \<longrightarrow> bi_restart_index it < bi_num_restarts it \<and> fst (bi_value it) + snd (bi_value it) \<le> unat (bi_restarts it))"

lemma bi_over_update [simp]:
  "bi_over c (it\<lparr>bi_current := x\<rparr>) = bi_over c it" "bi_over c (it\<lparr>bi_restart_index := i\<rparr>) = bi_over c it"
  "bi_over c (it\<lparr>bi_key := k\<rparr>) = bi_over c it" "bi_over c (it\<lparr>bi_value := v\<rparr>) = bi_over c it"
  "bi_over c (it\<lparr>bi_status := st\<rparr>) = bi_over c it"
  by (simp_all add: bi_over_def)

lemma advance_restart_index:
  "bi_restart_index it < bi_num_restarts it \<Longrightarrow>
    \<exists>r. advance_restart it = it\<lparr>bi_restart_index := r\<rparr> \<and> r < bi_num_restarts it"
proof (induction it rule: advance_restart.induct)
  case (1 it)
  show ?case
  proof (cases "bi_restart_index it + 1 < bi_num_restarts it \<and>
      GetRestartPoint it (bi_restart_index it + 1) < bi_current it")
    case True
    let ?it = "it\<lparr>bi_restart_index := bi_restart_index it + 1\<rparr>"
    obtain r where "advance_restart ?it = ?it\<lparr>bi_restart_index := r\<rparr>" "r < bi_num_restarts it"
      using 1(1) [OF True] True by auto
    then show ?thesis using True by (auto simp: advance_restart.simps [of it])
  next
    case False
    then show ?thesis using 1(2) by (intro exI [of _ "bi_restart_index it"]) (simp add: advance_restart.simps [of it] del: de_Morgan_conj)
  qed
qed

lemma bi_over_CorruptionError [inv_intro]: "bi_over c it \<Longrightarrow> bi_inv c (CorruptionError it)"
  by (simp add: bi_inv_def bi_Valid_def CorruptionError_def bi_over_def)

lemma ParseNextKey_inv:
  assumes o: "bi_over c it" and r: "bi_restart_index it < bi_num_restarts it" and p: "ParseNextKey it = (found, it')"
  shows "bi_inv c it' \<and> bi_restarts it' = bi_restarts it \<and> bi_num_restarts it' = bi_num_restarts it \<and>
    (found \<longrightarrow> bi_restart_index it' < bi_num_restarts it' \<and>
      NextEntryOffset it < NextEntryOffset it' \<and> NextEntryOffset it' \<le> bi_restarts it')"
proof -
  let ?it = "it\<lparr>bi_current := NextEntryOffset it\<rparr>"
  let ?p = "unat (NextEntryOffset it)" and ?limit = "unat (bi_restarts it)"
  have corrupt: "bi_inv c (CorruptionError ?it)" by (rule bi_over_CorruptionError) (simp add: o)
  show ?thesis
  proof (cases "?limit \<le> ?p")
    case True
    then show ?thesis using p o by (auto simp: ParseNextKey_def bi_inv_def bi_Valid_def)
  next
    case False
    show ?thesis
    proof (cases "DecodeEntry (drop ?p (take ?limit (bi_data it)))")
      case None
      then show ?thesis using p False corrupt by (auto simp: ParseNextKey_def Let_def CorruptionError_def)
    next
      case (Some d)
      obtain s n v q where d: "d = (s, n, v, q)" by (cases d)
      show ?thesis
      proof (cases "length (bi_key it) < unat s")
        case True
        then show ?thesis using p False Some d corrupt by (auto simp: ParseNextKey_def Let_def CorruptionError_def)
      next
        case short: False
        let ?off = "?limit - length q"
        let ?it2 = "?it\<lparr>bi_key := take (unat s) (bi_key it) @ take (unat n) (drop ?off (bi_data it)),
          bi_value := (?off + unat n, unat v)\<rparr>"
        obtain i where i: "advance_restart ?it2 = ?it2\<lparr>bi_restart_index := i\<rparr>" "i < bi_num_restarts it"
          using advance_restart_index [of ?it2] r by auto
        have it': "found" "it' = ?it2\<lparr>bi_restart_index := i\<rparr>"
          using p False Some d short i(1) by (auto simp: ParseNextKey_def Let_def)
        have len: "?limit \<le> length (bi_data it)" using o by (simp add: bi_over_def)
        have q: "length q + 3 \<le> ?limit - ?p" "n + v \<le> of_nat (length q)"
          using DecodeEntry_shrinks [OF Some [unfolded d]] len by simp_all
        have lim: "?limit < 2 ^ 32" by (rule unat_u32_bound)
        have le: "?off + unat (n + v) \<le> ?limit"
          using q lim by (simp add: word_le_nat_alt u32_nat)
        have "unat n + unat v \<le> length q"
          using o False Some by (auto simp: bi_over_def entries_inside_def d not_le)
        then have inside: "?off + unat n + unat v \<le> ?limit" using q by linarith
        have "NextEntryOffset it' = of_nat (?off + unat (n + v))"
          by (simp add: it' NextEntryOffset_def)
        then have "unat (NextEntryOffset it') = ?off + unat (n + v)"
          using le lim by (simp only: u32_nat le_less_trans)
        then show ?thesis
          using it' i(2) q(1) le False o inside by (auto simp: bi_inv_def word_less_nat_alt word_le_nat_alt)
      qed
    qed
  qed
qed

section \<open>The loops return\<close>

lemma bi_scan_returns:
  "bi_over c it \<Longrightarrow> bi_restart_index it < bi_num_restarts it \<Longrightarrow>
    \<exists>it'. bi_scan it b = Some it' \<and> bi_inv c it' \<and> bi_num_restarts it' = bi_num_restarts it"
proof (induction "unat (bi_restarts it) - unat (NextEntryOffset it)" arbitrary: it rule: less_induct)
  case less
  obtain found it' where p: "ParseNextKey it = (found, it')" by (cases "ParseNextKey it")
  note P = ParseNextKey_inv [OF less(2,3) p]
  show ?case
  proof (cases "found \<and> NextEntryOffset it' < b")
    case True
    then have "unat (bi_restarts it') - unat (NextEntryOffset it') < unat (bi_restarts it) - unat (NextEntryOffset it)"
      using P by (auto simp: word_less_nat_alt word_le_nat_alt)
    from less(1) [OF this] P True show ?thesis by (auto simp: bi_scan.simps [of it] p bi_inv_def)
  next
    case False
    then show ?thesis using P by (auto simp: bi_scan.simps [of it] p)
  qed
qed

lemma bi_linear_returns:
  "bi_over c it \<Longrightarrow> bi_restart_index it < bi_num_restarts it \<Longrightarrow>
    \<exists>it'. bi_linear cmp it t = Some it' \<and> bi_inv c it'"
proof (induction "unat (bi_restarts it) - unat (NextEntryOffset it)" arbitrary: it rule: less_induct)
  case less
  obtain found it' where p: "ParseNextKey it = (found, it')" by (cases "ParseNextKey it")
  note P = ParseNextKey_inv [OF less(2,3) p]
  show ?case
  proof (cases "found \<and> \<not> 0 \<le> cmp (bi_key it') t")
    case True
    then have "unat (bi_restarts it') - unat (NextEntryOffset it') < unat (bi_restarts it) - unat (NextEntryOffset it)"
      using P by (auto simp: word_less_nat_alt word_le_nat_alt)
    from less(1) [OF this] P True show ?thesis by (auto simp: bi_linear.simps [of _ it] p bi_inv_def)
  next
    case False
    then show ?thesis using P by (auto simp: bi_linear.simps [of _ it] p)
  qed
qed

lemma bi_Prev_back_returns:
  "\<exists>found r. bi_Prev_back it b = Some (if found then (True, it\<lparr>bi_restart_index := r\<rparr>)
      else (False, it\<lparr>bi_current := bi_restarts it, bi_restart_index := bi_num_restarts it\<rparr>)) \<and> r \<le> bi_restart_index it"
proof (induction "unat (bi_restart_index it)" arbitrary: it)
  case 0
  then have z: "bi_restart_index it = 0" by (simp add: unat_eq_0)
  show ?case
    by (intro exI [of _ "GetRestartPoint it (bi_restart_index it) < b"] exI [of _ 0])
      (auto simp: bi_Prev_back.simps [of it] z not_less)
next
  case (Suc n)
  let ?r = "bi_restart_index it"
  have nz: "?r \<noteq> 0" using Suc(2) by auto
  show ?case
  proof (cases "b \<le> GetRestartPoint it ?r")
    case True
    have "n = unat (bi_restart_index (it\<lparr>bi_restart_index := ?r - 1\<rparr>))"
      using Suc(2) nz by (simp add: unat_minus_one)
    from Suc(1) [OF this] obtain found r where
      *: "bi_Prev_back (it\<lparr>bi_restart_index := ?r - 1\<rparr>) b = Some (if found then (True, it\<lparr>bi_restart_index := r\<rparr>)
      else (False, it\<lparr>bi_current := bi_restarts it, bi_restart_index := bi_num_restarts it\<rparr>))" "r \<le> ?r - 1"
      by (simp del: if_split cong: if_cong) blast
    have "?r - 1 \<le> ?r" using nz by (simp add: word_le_nat_alt unat_minus_one)
    then show ?thesis using True nz * by (intro exI [of _ found] exI [of _ r]) (auto simp: bi_Prev_back.simps [of it])
  next
    case False
    then show ?thesis by (intro exI [of _ True] exI [of _ ?r]) (simp add: bi_Prev_back.simps [of it])
  qed
qed

lemma bi_search_returns:
  "l \<le> r \<Longrightarrow> r < 2 ^ 30 \<Longrightarrow> \<exists>res. bi_search cmp it t (of_nat l) (of_nat r) = Some res \<and>
    (\<forall>m. res = Some m \<longrightarrow> unat m \<le> r)"
proof (induction "r - l" arbitrary: l r rule: less_induct)
  case less
  have cmp32: "(of_nat l :: u32) < of_nat r \<longleftrightarrow> l < r" using less(2,3) by (intro u32_less) simp_all
  show ?case
  proof (cases "l < r")
    case False
    then have "bi_search cmp it t (of_nat l) (of_nat r) = Some (Some (of_nat l))"
      using cmp32 by (simp add: bi_search.simps)
    moreover have "unat (of_nat l :: u32) = l" using less(2,3) by (intro u32_nat) simp
    ultimately show ?thesis using less(2) by simp
  next
    case True
    define mid where "mid = (l + r + 1) div 2"
    have mid: "l < mid" "mid \<le> r" using True by (simp_all add: mid_def)
    have half: "(of_nat l + of_nat r + 1) div 2 = (of_nat mid :: u32)"
      unfolding mid_def by (rule mid_nat [OF less(2,3)])
    have d: "r - mid < r - l" "mid - 1 - l < r - l" "l \<le> mid - 1" "mid - 1 < 2 ^ 30" using mid less(3) by auto
    from less(1) [OF d(1) mid(2) less(3)] less(1) [OF d(2,3,4)] mid obtain a b where
      ab: "bi_search cmp it t (of_nat mid) (of_nat r) = Some a" "\<forall>m. a = Some m \<longrightarrow> unat m \<le> r"
      "bi_search cmp it t (of_nat l) (of_nat mid - 1) = Some b" "\<forall>m. b = Some m \<longrightarrow> unat m \<le> mid - 1"
      by (auto simp: of_nat_diff)
    show ?thesis using True cmp32 ab mid
      by (subst bi_search.simps) (fastforce simp: half Let_def split: option.splits prod.splits)
  qed
qed


section \<open>Any use of the iterator\<close>

text \<open>What a client can do with an iterator: \<^verbatim>\<open>Next\<close> and \<^verbatim>\<open>Prev\<close> are for valid ones.\<close>

inductive bi_reach :: "bytes \<Rightarrow> Iter \<Rightarrow> bool" for c where
  opened: "Block_NewIterator (Block_new c) = Positioned it \<Longrightarrow> bi_reach c it"
| to_first: "bi_reach c it \<Longrightarrow> bi_reach c (bi_SeekToFirst it)"
| to_last: "bi_reach c it \<Longrightarrow> bi_SeekToLast it = Some it' \<Longrightarrow> bi_reach c it'"
| sought: "bi_reach c it \<Longrightarrow> bi_Seek cmp it t = Some it' \<Longrightarrow> bi_reach c it'"
| forward: "bi_reach c it \<Longrightarrow> bi_Valid it \<Longrightarrow> bi_reach c (bi_Next it)"
| backward: "bi_reach c it \<Longrightarrow> bi_Valid it \<Longrightarrow> bi_Prev it = Some it' \<Longrightarrow> bi_reach c it'"

lemma SeekToRestartPoint_over:
  "bi_over c it \<Longrightarrow> bi_over c (SeekToRestartPoint it r)"
  "bi_restart_index (SeekToRestartPoint it r) = r" "bi_num_restarts (SeekToRestartPoint it r) = bi_num_restarts it"
  by (simp_all add: SeekToRestartPoint_def Let_def)

lemma bi_inv_over: "bi_inv c it \<Longrightarrow> bi_over c it"
  by (simp add: bi_inv_def)

lemma num_restarts_small: "bi_over c it \<Longrightarrow> unat (bi_num_restarts it) < 2 ^ 30 \<and> 0 < bi_num_restarts it"
  by (auto simp: bi_over_def word_less_nat_alt)

lemma bi_Seek_inv [inv_intro]: "bi_over c it \<Longrightarrow> \<exists>it'. bi_Seek cmp it t = Some it' \<and> bi_inv c it'"
proof -
  assume o: "bi_over c it"
  let ?n = "bi_num_restarts it"
  note n = num_restarts_small [OF o]
  then have n1: "?n - 1 = of_nat (unat ?n - 1)" by (simp add: of_nat_diff word_less_nat_alt Suc_leI)
  have small: "unat ?n - 1 < 2 ^ 30" by (rule less_imp_diff_less) (use n in blast)
  obtain res where res: "bi_search cmp it t 0 (?n - 1) = Some res" "\<And>m. res = Some m \<Longrightarrow> unat m \<le> unat ?n - 1"
    using bi_search_returns [OF le0 small, of cmp it t] by (auto simp: n1 simp del: of_nat_diff)
  show ?thesis
  proof (cases res)
    case None
    then show ?thesis using res(1) bi_over_CorruptionError [OF o] by (simp add: bi_Seek_def)
  next
    case (Some m)
    then have "m < ?n" using res(2) n by (fastforce simp: word_less_nat_alt)
    with bi_linear_returns [of c "SeekToRestartPoint it m" cmp t] o show ?thesis
      using res(1) Some by (simp add: bi_Seek_def SeekToRestartPoint_over)
  qed
qed

lemma bi_SeekToLast_inv [inv_intro]: "bi_over c it \<Longrightarrow> \<exists>it'. bi_SeekToLast it = Some it' \<and> bi_inv c it'"
proof -
  assume o: "bi_over c it"
  have "bi_num_restarts it - 1 < bi_num_restarts it"
    using num_restarts_small [OF o] by (simp add: pred_less)
  with bi_scan_returns [of c "SeekToRestartPoint it (bi_num_restarts it - 1)" "bi_restarts it"] o
  show ?thesis by (auto simp: bi_SeekToLast_def SeekToRestartPoint_over)
qed

lemma bi_SeekToFirst_inv [inv_intro]: "bi_over c it \<Longrightarrow> bi_inv c (bi_SeekToFirst it)"
proof -
  assume o: "bi_over c it"
  obtain found it' where p: "ParseNextKey (SeekToRestartPoint it 0) = (found, it')" by fastforce
  show ?thesis
    using ParseNextKey_inv [OF SeekToRestartPoint_over(1) [OF o] _ p] num_restarts_small [OF o] p
    by (simp add: bi_SeekToFirst_def SeekToRestartPoint_over)
qed

lemma bi_Next_inv [inv_intro]: "bi_inv c it \<Longrightarrow> bi_Valid it \<Longrightarrow> bi_inv c (bi_Next it)"
proof -
  assume o: "bi_inv c it" "bi_Valid it"
  obtain found it' where p: "ParseNextKey it = (found, it')" by fastforce
  show ?thesis using ParseNextKey_inv [OF bi_inv_over [OF o(1)] _ p] o p by (auto simp: bi_Next_def bi_inv_def)
qed

lemma bi_Prev_inv [inv_intro]:
  assumes o: "bi_inv c it" "bi_Valid it" shows "\<exists>it'. bi_Prev it = Some it' \<and> bi_inv c it'"
proof -
  obtain found r where b: "bi_Prev_back it (bi_current it) = Some (if found then (True, it\<lparr>bi_restart_index := r\<rparr>)
      else (False, it\<lparr>bi_current := bi_restarts it, bi_restart_index := bi_num_restarts it\<rparr>))" "r \<le> bi_restart_index it"
    using bi_Prev_back_returns by blast
  show ?thesis
  proof (cases found)
    case False
    then show ?thesis using b(1) o(1) by (simp add: bi_Prev_def bi_inv_def bi_Valid_def)
  next
    case True
    let ?it = "SeekToRestartPoint (it\<lparr>bi_restart_index := r\<rparr>) r"
    have "r < bi_num_restarts it" using b(2) o by (auto simp: bi_inv_def)
    then have "\<exists>it'. bi_scan ?it (bi_current it) = Some it' \<and> bi_inv c it'"
      using bi_scan_returns [of c ?it "bi_current it"] o(1) by (auto simp: SeekToRestartPoint_over bi_inv_over)
    then show ?thesis using b(1) True by (simp add: bi_Prev_def)
  qed
qed

definition block_inside :: "bytes \<Rightarrow> bool" where
  "block_inside c \<longleftrightarrow> entries_inside c (unat (bl_restart_offset (Block_new c)))"

lemma opened_inv: "length c < 2 ^ 32 \<Longrightarrow> block_inside c \<Longrightarrow> Block_NewIterator (Block_new c) = Positioned it \<Longrightarrow> bi_inv c it"
proof -
  assume len: "length c < 2 ^ 32" and inside: "block_inside c" and op: "Block_NewIterator (Block_new c) = Positioned it"
  let ?n = "NumRestarts c (length c)"
  have b: "4 \<le> length c" "unat ?n \<le> (length c - 4) div 4" "?n \<noteq> 0"
    and it: "it = Iter_new c (of_nat (length c - unat (1 + ?n) * 4)) ?n"
    using op by (auto simp: Block_NewIterator_def Block_new_def Let_def split: if_splits)
  have "bl_restart_offset (Block_new c) = of_nat (length c - unat (1 + ?n) * 4)"
    using b by (simp add: Block_new_def Let_def)
  then have e: "entries_inside c (unat (of_nat (length c - unat (1 + ?n) * 4) :: u32))" using inside by (simp only: block_inside_def)
  have n: "unat (1 + ?n) = unat ?n + 1"
  proof -
    have "unat ?n + 1 < 2 ^ 32" using b(2) len by simp
    then show ?thesis by (simp add: unat_word_ariths)
  qed
  have "unat (of_nat (length c - unat (1 + ?n) * 4) :: u32) = length c - (unat ?n + 1) * 4"
    using len by (subst u32_nat) (simp_all add: n)
  then show ?thesis
    using b len e by (simp add: it bi_inv_def bi_over_def Iter_new_def bi_Valid_def unat_gt_0)
qed

lemma bi_reach_inv: "bi_reach c it \<Longrightarrow> length c < 2 ^ 32 \<Longrightarrow> block_inside c \<Longrightarrow> bi_inv c it"
proof (induction rule: bi_reach.induct)
  case (opened it)
  then show ?case using opened_inv by blast
next
  case (to_last it it')
  then show ?case using bi_SeekToLast_inv [OF bi_inv_over] by fastforce
next
  case (sought it cmp t it')
  then show ?case using bi_Seek_inv [OF bi_inv_over, of c it cmp t] by fastforce
next
  case (backward it it')
  then show ?case using bi_Prev_inv by fastforce
qed (auto intro: inv_intro bi_inv_over)

section \<open>Properties\<close>

text \<open>C30. On a block of any contents shorter than 4 GB in which no entry has lengths that wrap around 32 bits (one
  that does makes the code read behind the block), however the iterator was moved before, every move returns, whatever the
  comparator does; a valid iterator stands before the restart array and inside a restart interval, so that the array is
  only read within its bounds, and its value lies in the block.\<close>

theorem Block_moves_return:
  assumes "length c < 2 ^ 32" and "block_inside c" and "bi_reach c it"
  shows "(\<exists>it'. bi_Seek cmp it t = Some it') \<and> (\<exists>it'. bi_SeekToLast it = Some it') \<and>
    (bi_Valid it \<longrightarrow> (\<exists>it'. bi_Prev it = Some it') \<and> bi_restart_index it < bi_num_restarts it \<and>
      fst (bi_value it) + snd (bi_value it) \<le> unat (bi_restarts it)) \<and>
    bi_current it \<le> bi_restarts it \<and> unat (bi_restarts it) + 4 * unat (bi_num_restarts it) + 4 = length c"
proof -
  note inv = bi_reach_inv [OF assms(3,1,2)]
  note o = bi_inv_over [OF inv]
  from bi_Seek_inv [OF o, of cmp t] bi_SeekToLast_inv [OF o] bi_Prev_inv [OF inv] inv o show ?thesis
    by (auto simp: bi_inv_def bi_over_def)
qed

theorem Block_moves_return_witness:
  "let c = [0, 1, 1, 5, 6, 0, 0, 0, 0, 1, 0, 0, 0]; it = bi_SeekToFirst (Iter_new c 5 1) in
    bi_Valid it \<and> bi_value_slice it = [6] \<and> (\<exists>it'. bi_Seek Bytewise_Compare it [3] = Some it') \<and> (\<exists>it'. bi_SeekToLast it = Some it') \<and>
    (\<exists>it'. bi_Prev it = Some it') \<and> fst (bi_value it) + snd (bi_value it) \<le> unat (bi_restarts it)"
proof -
  let ?c = "[0, 1, 1, 5, 6, 0, 0, 0, 0, 1, 0, 0, 0] :: bytes" let ?it = "bi_SeekToFirst (Iter_new ?c 5 1)"
  have "Block_NewIterator (Block_new ?c) = Positioned (Iter_new ?c 5 1)" by code_simp
  then have r: "bi_reach ?c ?it" by (rule bi_reach.to_first [OF bi_reach.opened])
  have o: "unat (bl_restart_offset (Block_new ?c)) = 5" by code_simp
  have "list_all (\<lambda>p. case DecodeEntry (drop p (take 5 ?c)) of None \<Rightarrow> True | Some (s, n, v, q) \<Rightarrow> unat n + unat v \<le> length q) [0, 1, 2, 3, 4]"
    by code_simp
  moreover have "p < 5 \<Longrightarrow> p \<in> set [0, 1, 2, 3, 4]" for p :: nat by auto
  ultimately have "block_inside ?c" unfolding block_inside_def o entries_inside_def list_all_iff by blast
  from Block_moves_return [OF _ this r, of Bytewise_Compare "[3]"]
  have "(\<exists>it'. bi_Seek Bytewise_Compare ?it [3] = Some it') \<and> (\<exists>it'. bi_SeekToLast ?it = Some it') \<and>
    (bi_Valid ?it \<longrightarrow> (\<exists>it'. bi_Prev ?it = Some it') \<and> fst (bi_value ?it) + snd (bi_value ?it) \<le> unat (bi_restarts ?it))" by simp
  moreover have "bi_Valid ?it \<and> bi_value_slice ?it = [6]" by code_simp
  ultimately show ?thesis by (simp only: Let_def)
qed

text \<open>C40. \<^verbatim>\<open>DecodeEntry\<close> consumes at least three bytes and only accepts lengths whose sum, taken
  in 32 bits, fits in what is left; the sum itself may not fit, as the example shows: an entry
  with a key part of 4 GB less one is accepted in front of a single byte.\<close>

theorem DecodeEntry_bounds:
  "(DecodeEntry p = Some (s, n, v, q) \<longrightarrow> length q + 3 \<le> length p \<and>
     (length p < 2 ^ 32 \<longrightarrow> (unat n + unat v) mod 2 ^ 32 \<le> length q)) \<and>
   (\<exists>n q. DecodeEntry [0, 0xff, 0xff, 0xff, 0xff, 0x0f, 2, 7] = Some (0, n, 2, q) \<and> length q < unat n)"
proof
  show "DecodeEntry p = Some (s, n, v, q) \<longrightarrow> length q + 3 \<le> length p \<and>
     (length p < 2 ^ 32 \<longrightarrow> (unat n + unat v) mod 2 ^ 32 \<le> length q)"
  proof (intro impI conjI)
    assume d: "DecodeEntry p = Some (s, n, v, q)"
    show "length q + 3 \<le> length p" by (rule DecodeEntry_shrinks(1) [OF d])
    assume l: "length p < 2 ^ 32"
    have "unat (n + v) \<le> unat (of_nat (length q) :: u32)" using DecodeEntry_shrinks(2) [OF d] by (simp add: word_le_nat_alt)
    then show "(unat n + unat v) mod 2 ^ 32 \<le> length q"
      using l DecodeEntry_shrinks(1) [OF d] by (simp add: u32_nat unat_word_ariths)
  qed
  have "DecodeEntry [0, 0xff, 0xff, 0xff, 0xff, 0x0f, 2, 7] = Some (0, 0xffffffff, 2, [7])" by code_simp
  then show "\<exists>n q. DecodeEntry [0, 0xff, 0xff, 0xff, 0xff, 0x0f, 2, 7] = Some (0, n, 2, q) \<and> length q < unat n"
    by auto
qed

theorem DecodeEntry_bounds_witness:
  "(let p = [0, 1, 1, 5, 6] in DecodeEntry p = Some (0, 1, 1, [5, 6]) \<and>
    length [5 :: byte, 6] + 3 \<le> length p \<and> (unat (1 :: u32) + unat (1 :: u32)) mod 2 ^ 32 \<le> length [5 :: byte, 6])"
proof -
  have "DecodeEntry [0, 1, 1, 5, 6] = Some (0, 1, 1, [5, 6])" by code_simp
  with DecodeEntry_bounds [of "[0, 1, 1, 5, 6]" 0 1 1 "[5, 6]"] show ?thesis by (simp add: Let_def)
qed

end
