(* ===== verification/Version_Edit.thy ===== *)
theory Version_Edit
  imports Db_Format Status "HOL-Library.Product_Lexorder"
begin

text \<open>
  \<^verbatim>\<open>db/version_edit.cc\<close> and \<^verbatim>\<open>db/version_edit.h\<close>: the changes to the set of table files, as
  they are written to the manifest. The set \<^verbatim>\<open>deleted_files_\<close> is the strictly increasing list
  of its elements, which is the order in which it is iterated.
\<close>

section \<open>The code\<close>

text \<open>\<^verbatim>\<open>config::kNumLevels\<close> of \<^verbatim>\<open>db/dbformat.h\<close>.\<close>

definition kNumLevels :: nat where
  "kNumLevels = 7"

record FileMetaData =
  fm_refs :: int
  fm_allowed_seeks :: int
  fm_number :: u64
  fm_file_size :: u64
  fm_smallest :: bytes
  fm_largest :: bytes

text \<open>The constructor leaves the number unset: it is an argument here.\<close>

definition FileMetaData_new :: "u64 \<Rightarrow> FileMetaData" where
  "FileMetaData_new number =
     \<lparr>fm_refs = 0, fm_allowed_seeks = 2 ^ 30, fm_number = number, fm_file_size = 0, fm_smallest = [], fm_largest = []\<rparr>"

record VersionEdit =
  ve_comparator :: bytes
  ve_log_number :: u64
  ve_prev_log_number :: u64
  ve_next_file_number :: u64
  ve_last_sequence :: u64
  ve_has_comparator :: bool
  ve_has_log_number :: bool
  ve_has_prev_log_number :: bool
  ve_has_next_file_number :: bool
  ve_has_last_sequence :: bool
  ve_compact_pointers :: "(int \<times> bytes) list"
  ve_deleted_files :: "(int \<times> u64) list"
  ve_new_files :: "(int \<times> FileMetaData) list"

datatype Tag = kComparator | kLogNumber | kNextFileNumber | kLastSequence | kCompactPointer | kDeletedFile
  | kNewFile | kPrevLogNumber

fun tag_num :: "Tag \<Rightarrow> u32" where
  "tag_num kComparator = 1"
| "tag_num kLogNumber = 2"
| "tag_num kNextFileNumber = 3"
| "tag_num kLastSequence = 4"
| "tag_num kCompactPointer = 5"
| "tag_num kDeletedFile = 6"
| "tag_num kNewFile = 7"
| "tag_num kPrevLogNumber = 9"

text \<open>\<^verbatim>\<open>Clear\<close> does not touch \<^verbatim>\<open>compact_pointers_\<close>.\<close>

definition VersionEdit_Clear :: "VersionEdit \<Rightarrow> VersionEdit" where
  "VersionEdit_Clear e =
     e\<lparr>ve_comparator := [], ve_log_number := 0, ve_prev_log_number := 0, ve_last_sequence := 0,
       ve_next_file_number := 0, ve_has_comparator := False, ve_has_log_number := False,
       ve_has_prev_log_number := False, ve_has_next_file_number := False, ve_has_last_sequence := False,
       ve_deleted_files := [], ve_new_files := []\<rparr>"

definition VersionEdit_new :: VersionEdit where
  "VersionEdit_new = VersionEdit_Clear
     \<lparr>ve_comparator = [], ve_log_number = 0, ve_prev_log_number = 0, ve_next_file_number = 0,
      ve_last_sequence = 0, ve_has_comparator = False, ve_has_log_number = False, ve_has_prev_log_number = False,
      ve_has_next_file_number = False, ve_has_last_sequence = False, ve_compact_pointers = [],
      ve_deleted_files = [], ve_new_files = []\<rparr>"

definition SetComparatorName :: "VersionEdit \<Rightarrow> bytes \<Rightarrow> VersionEdit" where
  "SetComparatorName e name = e\<lparr>ve_has_comparator := True, ve_comparator := name\<rparr>"

definition SetLogNumber :: "VersionEdit \<Rightarrow> u64 \<Rightarrow> VersionEdit" where
  "SetLogNumber e num = e\<lparr>ve_has_log_number := True, ve_log_number := num\<rparr>"

definition SetPrevLogNumber :: "VersionEdit \<Rightarrow> u64 \<Rightarrow> VersionEdit" where
  "SetPrevLogNumber e num = e\<lparr>ve_has_prev_log_number := True, ve_prev_log_number := num\<rparr>"

definition SetNextFile :: "VersionEdit \<Rightarrow> u64 \<Rightarrow> VersionEdit" where
  "SetNextFile e num = e\<lparr>ve_has_next_file_number := True, ve_next_file_number := num\<rparr>"

definition SetLastSequence :: "VersionEdit \<Rightarrow> u64 \<Rightarrow> VersionEdit" where
  "SetLastSequence e seq = e\<lparr>ve_has_last_sequence := True, ve_last_sequence := seq\<rparr>"

definition SetCompactPointer :: "VersionEdit \<Rightarrow> int \<Rightarrow> bytes \<Rightarrow> VersionEdit" where
  "SetCompactPointer e level key = e\<lparr>ve_compact_pointers := ve_compact_pointers e @ [(level, key)]\<rparr>"

definition AddFile :: "VersionEdit \<Rightarrow> int \<Rightarrow> u64 \<Rightarrow> u64 \<Rightarrow> bytes \<Rightarrow> bytes \<Rightarrow> VersionEdit" where
  "AddFile e level file file_size smallest largest =
     (let f = (FileMetaData_new file)\<lparr>fm_file_size := file_size, fm_smallest := smallest, fm_largest := largest\<rparr>
      in e\<lparr>ve_new_files := ve_new_files e @ [(level, f)]\<rparr>)"

definition VersionEdit_DeleteFile :: "VersionEdit \<Rightarrow> int \<Rightarrow> u64 \<Rightarrow> VersionEdit" where
  "VersionEdit_DeleteFile e level file = e\<lparr>ve_deleted_files := insort_insert (level, file) (ve_deleted_files e)\<rparr>"

definition put_compact_pointer :: "bytes \<Rightarrow> int \<times> bytes \<Rightarrow> bytes" where
  "put_compact_pointer dst p =
     (let dst = PutVarint32 dst (tag_num kCompactPointer);
          dst = PutVarint32 dst (of_int (fst p))
      in PutLengthPrefixedSlice dst (snd p))"

definition put_deleted_file :: "bytes \<Rightarrow> int \<times> u64 \<Rightarrow> bytes" where
  "put_deleted_file dst p =
     (let dst = PutVarint32 dst (tag_num kDeletedFile);
          dst = PutVarint32 dst (of_int (fst p))
      in PutVarint64 dst (snd p))"

definition put_new_file :: "bytes \<Rightarrow> int \<times> FileMetaData \<Rightarrow> bytes" where
  "put_new_file dst p =
     (let f = snd p;
          dst = PutVarint32 dst (tag_num kNewFile);
          dst = PutVarint32 dst (of_int (fst p));
          dst = PutVarint64 dst (fm_number f);
          dst = PutVarint64 dst (fm_file_size f);
          dst = PutLengthPrefixedSlice dst (fm_smallest f)
      in PutLengthPrefixedSlice dst (fm_largest f))"

definition VersionEdit_EncodeTo :: "VersionEdit \<Rightarrow> bytes \<Rightarrow> bytes" where
  "VersionEdit_EncodeTo e dst =
     (let dst = (if ve_has_comparator e
                 then PutLengthPrefixedSlice (PutVarint32 dst (tag_num kComparator)) (ve_comparator e) else dst);
          dst = (if ve_has_log_number e
                 then PutVarint64 (PutVarint32 dst (tag_num kLogNumber)) (ve_log_number e) else dst);
          dst = (if ve_has_prev_log_number e
                 then PutVarint64 (PutVarint32 dst (tag_num kPrevLogNumber)) (ve_prev_log_number e) else dst);
          dst = (if ve_has_next_file_number e
                 then PutVarint64 (PutVarint32 dst (tag_num kNextFileNumber)) (ve_next_file_number e) else dst);
          dst = (if ve_has_last_sequence e
                 then PutVarint64 (PutVarint32 dst (tag_num kLastSequence)) (ve_last_sequence e) else dst);
          dst = foldl put_compact_pointer dst (ve_compact_pointers e);
          dst = foldl put_deleted_file dst (ve_deleted_files e)
      in foldl put_new_file dst (ve_new_files e))"

text \<open>The parsers return the input left. What a failing one leaves behind is never read: the
  loop stops.\<close>

definition GetSlice :: "bytes \<Rightarrow> (bytes \<times> bytes) option" where
  "GetSlice input =
     (case GetLengthPrefixedSlice input of (Some s, input) \<Rightarrow> Some (s, input) | (None, _) \<Rightarrow> None)"

definition GetInternalKey :: "bytes \<Rightarrow> (bytes \<times> bytes) option" where
  "GetInternalKey input = GetSlice input"

definition GetLevel :: "bytes \<Rightarrow> (int \<times> bytes) option" where
  "GetLevel input =
     (case GetVarint32 input of
        None \<Rightarrow> None
      | Some (v, input) \<Rightarrow> if unat v < kNumLevels then Some (uint v, input) else None)"

text \<open>One round of the loop after the tag: \<open>Inl\<close> is the message.\<close>

definition decode_field :: "u32 \<Rightarrow> VersionEdit \<Rightarrow> bytes \<Rightarrow> string + (VersionEdit \<times> bytes)" where
  "decode_field tag e input =
     (if tag = tag_num kComparator then
        (case GetSlice input of
           Some (s, input) \<Rightarrow> Inr (e\<lparr>ve_comparator := s, ve_has_comparator := True\<rparr>, input)
         | None \<Rightarrow> Inl ''comparator name'')
      else if tag = tag_num kLogNumber then
        (case GetVarint64 input of
           Some (n, input) \<Rightarrow> Inr (e\<lparr>ve_log_number := n, ve_has_log_number := True\<rparr>, input)
         | None \<Rightarrow> Inl ''log number'')
      else if tag = tag_num kPrevLogNumber then
        (case GetVarint64 input of
           Some (n, input) \<Rightarrow> Inr (e\<lparr>ve_prev_log_number := n, ve_has_prev_log_number := True\<rparr>, input)
         | None \<Rightarrow> Inl ''previous log number'')
      else if tag = tag_num kNextFileNumber then
        (case GetVarint64 input of
           Some (n, input) \<Rightarrow> Inr (e\<lparr>ve_next_file_number := n, ve_has_next_file_number := True\<rparr>, input)
         | None \<Rightarrow> Inl ''next file number'')
      else if tag = tag_num kLastSequence then
        (case GetVarint64 input of
           Some (n, input) \<Rightarrow> Inr (e\<lparr>ve_last_sequence := n, ve_has_last_sequence := True\<rparr>, input)
         | None \<Rightarrow> Inl ''last sequence number'')
      else if tag = tag_num kCompactPointer then
        (case GetLevel input of
           None \<Rightarrow> Inl ''compaction pointer''
         | Some (level, input) \<Rightarrow>
             (case GetInternalKey input of
                Some (key, input) \<Rightarrow> Inr (e\<lparr>ve_compact_pointers := ve_compact_pointers e @ [(level, key)]\<rparr>, input)
              | None \<Rightarrow> Inl ''compaction pointer''))
      else if tag = tag_num kDeletedFile then
        (case GetLevel input of
           None \<Rightarrow> Inl ''deleted file''
         | Some (level, input) \<Rightarrow>
             (case GetVarint64 input of
                Some (number, input) \<Rightarrow>
                  Inr (e\<lparr>ve_deleted_files := insort_insert (level, number) (ve_deleted_files e)\<rparr>, input)
              | None \<Rightarrow> Inl ''deleted file''))
      else if tag = tag_num kNewFile then
        (case Option.bind (GetLevel input) (\<lambda>(level, input).
              Option.bind (GetVarint64 input) (\<lambda>(number, input).
              Option.bind (GetVarint64 input) (\<lambda>(file_size, input).
              Option.bind (GetInternalKey input) (\<lambda>(smallest, input).
              Option.bind (GetInternalKey input) (\<lambda>(largest, input).
                Some (level, (FileMetaData_new number)\<lparr>fm_file_size := file_size, fm_smallest := smallest,
                        fm_largest := largest\<rparr>, input)))))) of
           Some (level, f, input) \<Rightarrow> Inr (e\<lparr>ve_new_files := ve_new_files e @ [(level, f)]\<rparr>, input)
         | None \<Rightarrow> Inl ''new-file entry'')
      else Inl ''unknown tag'')"

lemma parsers_shrink:
  "GetVarint32 p = Some (v, q) \<Longrightarrow> length q < length p"
  "GetVarint64 p = Some (w, q) \<Longrightarrow> length q < length p"
  "GetLevel p = Some (l, q) \<Longrightarrow> length q < length p"
  "GetSlice p = Some (s, q) \<Longrightarrow> length q < length p"
  "GetInternalKey p = Some (s, q) \<Longrightarrow> length q < length p"
proof -
  show 32: "length q < length p" if "GetVarint32 p = Some (v, q)" for p v q
    using that by (simp add: GetVarint32_eq_loop GetVarint32_loop_less)
  show "GetVarint64 p = Some (w, q) \<Longrightarrow> length q < length p"
    by (simp add: GetVarint64_eq_loop GetVarint64_loop_less)
  show "GetLevel p = Some (l, q) \<Longrightarrow> length q < length p"
    by (auto simp: GetLevel_def dest: 32 split: option.splits if_splits)
  show slice: "GetSlice p = Some (s, q) \<Longrightarrow> length q < length p"
    by (fastforce simp: GetSlice_def GetLengthPrefixedSlice_def dest: 32 split: option.splits if_splits prod.splits)
  show "GetInternalKey p = Some (s, q) \<Longrightarrow> length q < length p"
    unfolding GetInternalKey_def by (rule slice)
qed

lemma decode_field_shrinks: "decode_field tag e p = Inr (e', q) \<Longrightarrow> length q < length p"
  by (auto simp: decode_field_def Option.bind_eq_Some_conv
      dest!: parsers_shrink split: if_splits option.splits)

function decode_loop :: "VersionEdit \<Rightarrow> bytes \<Rightarrow> VersionEdit \<times> string option \<times> bytes" where
  "decode_loop e input =
     (case GetVarint32 input of
        None \<Rightarrow> (e, None, input)
      | Some (tag, input) \<Rightarrow>
          (case decode_field tag e input of
             Inl msg \<Rightarrow> (e, Some msg, input)
           | Inr (e, input) \<Rightarrow> decode_loop e input))"
  by pat_completeness auto
termination
  by (relation "measure (length \<circ> snd)") (auto dest!: parsers_shrink(1) decode_field_shrinks)

declare decode_loop.simps [simp del]

definition VersionEdit_DecodeFrom :: "VersionEdit \<Rightarrow> bytes \<Rightarrow> status \<times> VersionEdit" where
  "VersionEdit_DecodeFrom e src =
     (case decode_loop (VersionEdit_Clear e) src of
        (e, msg, input) \<Rightarrow>
          let msg = (if msg = None \<and> input \<noteq> [] then Some ''invalid tag'' else msg)
          in (case msg of
                None \<Rightarrow> Status_OK
              | Some m \<Rightarrow> Status_new kCorruption (str ''VersionEdit'') (str m), e))"

definition VersionEdit_DebugString :: "VersionEdit \<Rightarrow> bytes" where
  "VersionEdit_DebugString e =
     (let nl = [10];
          r = str ''VersionEdit {'';
          r = (if ve_has_comparator e then r @ nl @ str ''  Comparator: '' @ ve_comparator e else r);
          r = (if ve_has_log_number e then AppendNumberTo (r @ nl @ str ''  LogNumber: '') (ve_log_number e) else r);
          r = (if ve_has_prev_log_number e
               then AppendNumberTo (r @ nl @ str ''  PrevLogNumber: '') (ve_prev_log_number e) else r);
          r = (if ve_has_next_file_number e
               then AppendNumberTo (r @ nl @ str ''  NextFile: '') (ve_next_file_number e) else r);
          r = (if ve_has_last_sequence e
               then AppendNumberTo (r @ nl @ str ''  LastSeq: '') (ve_last_sequence e) else r);
          r = foldl (\<lambda>r (level, key). AppendNumberTo (r @ nl @ str ''  CompactPointer: '') (of_int level) @
                str '' '' @ InternalKey_DebugString key) r (ve_compact_pointers e);
          r = foldl (\<lambda>r (level, number). AppendNumberTo (AppendNumberTo (r @ nl @ str ''  DeleteFile: '') (of_int level) @
                str '' '') number) r (ve_deleted_files e);
          r = foldl (\<lambda>r (level, f). AppendNumberTo (AppendNumberTo (AppendNumberTo (r @ nl @ str ''  AddFile: '') (of_int level) @
                str '' '') (fm_number f) @ str '' '') (fm_file_size f) @ str '' '' @
                InternalKey_DebugString (fm_smallest f) @ str '' .. '' @ InternalKey_DebugString (fm_largest f))
              r (ve_new_files e)
      in r @ nl @ str ''}'' @ nl)"


section \<open>Encoding, field by field\<close>

lemma put_append:
  "put_compact_pointer dst c = dst @ put_compact_pointer [] c"
  "put_deleted_file dst d = dst @ put_deleted_file [] d"
  "put_new_file dst n = dst @ put_new_file [] n"
  by (simp_all add: put_compact_pointer_def put_deleted_file_def put_new_file_def PutVarint32_def PutVarint64_def
      PutLengthPrefixedSlice_def Let_def)

lemma foldl_put: "(\<And>d x. f d x = d @ f [] x) \<Longrightarrow> foldl f dst xs = dst @ concat (map (f []) xs)"
proof (induction xs arbitrary: dst)
  case (Cons x xs)
  from Cons(1) [of "f dst x", OF Cons(2)] show ?case by (simp add: Cons(2) [of dst x])
qed simp

lemma GetSlice_Put [roundtrip]:
  "length s < 2 ^ 32 \<Longrightarrow> GetSlice (EncodeVarint32 (of_nat (length s)) @ s @ rest) = Some (s, rest)"
  using GetLengthPrefixedSlice_Put [of s rest]
  by (simp add: GetSlice_def PutLengthPrefixedSlice_def PutVarint32_def Let_def)

definition level_ok :: "int \<Rightarrow> bool" where
  "level_ok l \<longleftrightarrow> 0 \<le> l \<and> l < int kNumLevels"

lemma GetLevel_Put [roundtrip]: "level_ok l \<Longrightarrow> GetLevel (EncodeVarint32 (of_int l) @ rest) = Some (l, rest)"
proof -
  assume l: "level_ok l"
  then have "uint (of_int l :: u32) = l"
    by (simp add: level_ok_def kNumLevels_def uint_word_of_int_eq take_bit_int_eq_self)
  moreover from this have "unat (of_int l :: u32) = nat l" by (metis unat_eq_nat_uint)
  ultimately show ?thesis using l by (simp add: GetLevel_def level_ok_def nat_less_iff)
qed

definition file_ok :: "FileMetaData \<Rightarrow> bool" where
  "file_ok f \<longleftrightarrow> fm_refs f = 0 \<and> fm_allowed_seeks f = 2 ^ 30 \<and> length (fm_smallest f) < 2 ^ 32 \<and> length (fm_largest f) < 2 ^ 32"

text \<open>Edits as the setters make them, with lengths that fit the 32-bit prefixes.\<close>

definition edit_ok :: "VersionEdit \<Rightarrow> bool" where
  "edit_ok e \<longleftrightarrow> length (ve_comparator e) < 2 ^ 32 \<and>
     (\<not> ve_has_comparator e \<longrightarrow> ve_comparator e = []) \<and> (\<not> ve_has_log_number e \<longrightarrow> ve_log_number e = 0) \<and>
     (\<not> ve_has_prev_log_number e \<longrightarrow> ve_prev_log_number e = 0) \<and>
     (\<not> ve_has_next_file_number e \<longrightarrow> ve_next_file_number e = 0) \<and>
     (\<not> ve_has_last_sequence e \<longrightarrow> ve_last_sequence e = 0) \<and>
     (\<forall>(l, k)\<in>set (ve_compact_pointers e). level_ok l \<and> length k < 2 ^ 32) \<and>
     (\<forall>(l, n)\<in>set (ve_deleted_files e). level_ok l) \<and> sorted_wrt (<) (ve_deleted_files e) \<and>
     (\<forall>(l, f)\<in>set (ve_new_files e). level_ok l \<and> file_ok f)"

lemma decode_tag: "decode_loop e (EncodeVarint32 tag @ inp) =
    (case decode_field tag e inp of Inl msg \<Rightarrow> (e, Some msg, inp) | Inr (e, inp) \<Rightarrow> decode_loop e inp)"
  by (simp add: decode_loop.simps [of e])

lemma decode_compact_pointer:
  "level_ok (fst p) \<Longrightarrow> length (snd p) < 2 ^ 32 \<Longrightarrow> decode_loop e (put_compact_pointer [] p @ rest) =
    decode_loop (e\<lparr>ve_compact_pointers := ve_compact_pointers e @ [p]\<rparr>) rest"
  by (simp add: put_compact_pointer_def PutVarint32_def PutLengthPrefixedSlice_def Let_def decode_tag decode_field_def
      GetLevel_Put GetInternalKey_def GetSlice_Put del: One_nat_def)

lemma decode_deleted_file:
  "level_ok (fst p) \<Longrightarrow> decode_loop e (put_deleted_file [] p @ rest) =
    decode_loop (e\<lparr>ve_deleted_files := insort_insert p (ve_deleted_files e)\<rparr>) rest"
  by (simp add: put_deleted_file_def PutVarint32_def PutVarint64_def Let_def decode_tag decode_field_def GetLevel_Put)

lemma decode_new_file:
  "level_ok (fst p) \<Longrightarrow> file_ok (snd p) \<Longrightarrow> decode_loop e (put_new_file [] p @ rest) =
    decode_loop (e\<lparr>ve_new_files := ve_new_files e @ [p]\<rparr>) rest"
  by (cases p; cases "snd p") (simp add: put_new_file_def PutVarint32_def PutVarint64_def PutLengthPrefixedSlice_def Let_def decode_tag
      decode_field_def GetLevel_Put GetInternalKey_def GetSlice_Put file_ok_def FileMetaData_new_def)

lemma decode_compact_pointers:
  "\<forall>(l, k)\<in>set ps. level_ok l \<and> length k < 2 ^ 32 \<Longrightarrow>
    decode_loop e (concat (map (put_compact_pointer []) ps) @ rest) =
    decode_loop (e\<lparr>ve_compact_pointers := ve_compact_pointers e @ ps\<rparr>) rest"
  by (induction ps arbitrary: e) (auto simp: decode_compact_pointer)

lemma insort_insert_last: "sorted_wrt (<) (xs @ [x]) \<Longrightarrow> insort_insert x xs = xs @ [x]" for x :: "'a::linorder"
proof -
  assume s: "sorted_wrt (<) (xs @ [x])"
  then have "sorted xs" "\<forall>y\<in>set xs. y < x"
    by (auto simp: sorted_wrt_append strict_sorted_iff)
  then show ?thesis by (auto simp: insort_insert_key_def intro!: sorted_insort_is_snoc)
qed

lemma decode_deleted_files:
  "\<forall>(l, n)\<in>set ps. level_ok l \<Longrightarrow> sorted_wrt (<) (ve_deleted_files e @ ps) \<Longrightarrow>
    decode_loop e (concat (map (put_deleted_file []) ps) @ rest) =
    decode_loop (e\<lparr>ve_deleted_files := ve_deleted_files e @ ps\<rparr>) rest"
proof (induction ps arbitrary: e)
  case (Cons p ps)
  have "insort_insert p (ve_deleted_files e) = ve_deleted_files e @ [p]"
    using Cons.prems(2) by (intro insort_insert_last) (auto simp: sorted_wrt_append)
  with Cons show ?case by (auto simp: decode_deleted_file)
qed simp

lemma decode_new_files:
  "\<forall>(l, f)\<in>set ps. level_ok l \<and> file_ok f \<Longrightarrow>
    decode_loop e (concat (map (put_new_file []) ps) @ rest) =
    decode_loop (e\<lparr>ve_new_files := ve_new_files e @ ps\<rparr>) rest"
  by (induction ps arbitrary: e) (auto simp: decode_new_file)

lemma decode_end: "decode_loop e [] = (e, None, [])"
  by (simp add: decode_loop.simps [of e] GetVarint32_eq_loop)

text \<open>The setters make such edits.\<close>

lemma set_insort_insert [simp]: "set (insort_insert x xs) = insert x (set xs)" for x :: "'a::linorder"
  by (auto simp: insort_insert_key_def set_insort_key)

lemma sorted_insort_insert: "sorted_wrt (<) xs \<Longrightarrow> sorted_wrt (<) (insort_insert x xs)" for x :: "'a::linorder"
  by (auto simp: strict_sorted_iff insort_insert_key_def sorted_insort distinct_insort)

lemma edit_ok_setters [inv_intro]:
  "edit_ok VersionEdit_new"
  "edit_ok e \<Longrightarrow> length name < 2 ^ 32 \<Longrightarrow> edit_ok (SetComparatorName e name)"
  "edit_ok e \<Longrightarrow> edit_ok (SetLogNumber e num)"
  "edit_ok e \<Longrightarrow> edit_ok (SetPrevLogNumber e num)"
  "edit_ok e \<Longrightarrow> edit_ok (SetNextFile e num)"
  "edit_ok e \<Longrightarrow> edit_ok (SetLastSequence e num)"
  "edit_ok e \<Longrightarrow> level_ok l \<Longrightarrow> length key < 2 ^ 32 \<Longrightarrow> edit_ok (SetCompactPointer e l key)"
  "edit_ok e \<Longrightarrow> level_ok l \<Longrightarrow> edit_ok (VersionEdit_DeleteFile e l num)"
  "edit_ok e \<Longrightarrow> level_ok l \<Longrightarrow> length a < 2 ^ 32 \<Longrightarrow> length b < 2 ^ 32 \<Longrightarrow> edit_ok (AddFile e l num sz a b)"
  by (simp_all add: edit_ok_def VersionEdit_new_def VersionEdit_Clear_def SetComparatorName_def SetLogNumber_def
      SetPrevLogNumber_def SetNextFile_def SetLastSequence_def SetCompactPointer_def VersionEdit_DeleteFile_def
      AddFile_def Let_def file_ok_def FileMetaData_new_def sorted_insort_insert)

lemma VersionEdit_Clear_ok [inv_intro]: "ve_compact_pointers e = [] \<Longrightarrow> edit_ok (VersionEdit_Clear e)"
  by (simp add: edit_ok_def VersionEdit_Clear_def)

section \<open>Properties\<close>

lemma decode_encode:
  assumes "edit_ok e"
  shows "VersionEdit_DecodeFrom e0 (VersionEdit_EncodeTo e []) =
    (Status_OK, e\<lparr>ve_compact_pointers := ve_compact_pointers e0 @ ve_compact_pointers e\<rparr>)"
proof -
  let ?c = "if ve_has_comparator e then EncodeVarint32 (tag_num kComparator) @
    EncodeVarint32 (of_nat (length (ve_comparator e))) @ ve_comparator e else []"
  let ?n = "\<lambda>b t v. if b then EncodeVarint32 (tag_num t) @ EncodeVarint64 v else []"
  let ?lists = "concat (map (put_compact_pointer []) (ve_compact_pointers e)) @
      concat (map (put_deleted_file []) (ve_deleted_files e)) @ concat (map (put_new_file []) (ve_new_files e))"
  have enc: "VersionEdit_EncodeTo e [] = ?c @ ?n (ve_has_log_number e) kLogNumber (ve_log_number e) @
      ?n (ve_has_prev_log_number e) kPrevLogNumber (ve_prev_log_number e) @
      ?n (ve_has_next_file_number e) kNextFileNumber (ve_next_file_number e) @
      ?n (ve_has_last_sequence e) kLastSequence (ve_last_sequence e) @ ?lists"
    by (simp add: VersionEdit_EncodeTo_def Let_def PutVarint32_def PutVarint64_def PutLengthPrefixedSlice_def
        foldl_put [of put_compact_pointer, OF put_append(1)] foldl_put [of put_deleted_file, OF put_append(2)]
        foldl_put [of put_new_file, OF put_append(3)])
  have lists: "decode_loop a ?lists = (a\<lparr>ve_compact_pointers := ve_compact_pointers a @ ve_compact_pointers e,
      ve_deleted_files := ve_deleted_files e, ve_new_files := ve_new_files e\<rparr>, None, [])"
    if "ve_deleted_files a = []" "ve_new_files a = []" for a
    using assms that by (simp add: edit_ok_def decode_compact_pointers decode_deleted_files
        decode_new_files [where rest = "[]", simplified] decode_end)
  have "decode_loop (VersionEdit_Clear e0) (VersionEdit_EncodeTo e []) =
      (e\<lparr>ve_compact_pointers := ve_compact_pointers e0 @ ve_compact_pointers e\<rparr>, None, [])"
    using assms by (simp add: enc decode_tag decode_field_def GetSlice_Put edit_ok_def lists VersionEdit_Clear_def
        del: append.assoc)
  then show ?thesis by (simp add: VersionEdit_DecodeFrom_def Let_def)
qed

text \<open>C22. Version edits: decoding the encoding of an edit, into any edit object, succeeds and gives
  back every field, except that the compaction pointers the object held before stay in front of
  the decoded ones, because \<^verbatim>\<open>Clear\<close> does not drop them.\<close>

theorem VersionEdit_roundtrip:
  assumes "edit_ok e"
  shows "VersionEdit_DecodeFrom e0 (VersionEdit_EncodeTo e []) =
    (Status_OK, e\<lparr>ve_compact_pointers := ve_compact_pointers e0 @ ve_compact_pointers e\<rparr>)"
  by (rule decode_encode [OF assms])

theorem VersionEdit_roundtrip_witness:
  "let e = AddFile (VersionEdit_DeleteFile (SetCompactPointer (SetLogNumber VersionEdit_new 7) 2 [9]) 1 5) 3 8 100 [1] [2];
       e0 = SetCompactPointer VersionEdit_new 0 [4]
   in VersionEdit_DecodeFrom e0 (VersionEdit_EncodeTo e []) =
    (Status_OK, e\<lparr>ve_compact_pointers := ve_compact_pointers e0 @ ve_compact_pointers e\<rparr>)"
  unfolding Let_def
  by (rule VersionEdit_roundtrip) (intro inv_intro; simp add: level_ok_def kNumLevels_def)

end
