(* ===== verification/Env_Api.thy ===== *)
theory Env_Api
  imports File_Api
begin

text \<open>
  The part of the interface \<^verbatim>\<open>Env\<close> of \<^verbatim>\<open>include/leveldb/env.h\<close> that deals with files, and
  its clients in \<^verbatim>\<open>util/env.cc\<close>. An environment is the record of its virtual methods over a
  state \<open>'w\<close>, with the methods of its file classes over \<open>'f\<close> and \<open>'s\<close>; \<^verbatim>\<open>delete\<close> of a file
  object is a method too, since the destructors act. A result pointer is \<open>None\<close> when the call
  failed. The locale \<open>file_env\<close> is the contract: what the named files hold after each call.
\<close>

section \<open>The interface\<close>

record ('w, 'f, 's) Env =
  eNewSequentialFile :: "'w \<Rightarrow> bytes \<Rightarrow> status \<times> 's option \<times> 'w"
  eNewWritableFile :: "'w \<Rightarrow> bytes \<Rightarrow> status \<times> 'f option \<times> 'w"
  eDeleteFile :: "'w \<Rightarrow> bytes \<Rightarrow> status \<times> 'w"
  eRenameFile :: "'w \<Rightarrow> bytes \<Rightarrow> bytes \<Rightarrow> status \<times> 'w"
  eWritable :: "'f WritableFile"
  eSequential :: "'s SequentialFile"
  eDeleteWritable :: "'w \<Rightarrow> 'f \<Rightarrow> 'w"
  eDeleteSequential :: "'w \<Rightarrow> 's \<Rightarrow> 'w"

section \<open>\<^verbatim>\<open>util/env.cc\<close>\<close>

definition DoWriteStringToFile ::
  "('w, 'f, 's) Env \<Rightarrow> 'w \<Rightarrow> bytes \<Rightarrow> bytes \<Rightarrow> bool \<Rightarrow> status \<times> 'w" where
  "DoWriteStringToFile env w data fname should_sync =
     (case eNewWritableFile env w fname of
        (s, file, w) \<Rightarrow>
          if \<not> ok s then (s, w)
          else
            let (s, file) = wAppend (eWritable env) (the file) data;
                (s, file) = (if ok s \<and> should_sync then wSync (eWritable env) file else (s, file));
                (s, file) = (if ok s then wClose (eWritable env) file else (s, file));
                w = eDeleteWritable env w file;
                w = (if \<not> ok s then snd (eDeleteFile env w fname) else w)
            in (s, w))"

definition WriteStringToFile :: "('w, 'f, 's) Env \<Rightarrow> 'w \<Rightarrow> bytes \<Rightarrow> bytes \<Rightarrow> status \<times> 'w" where
  "WriteStringToFile env w data fname = DoWriteStringToFile env w data fname False"

definition WriteStringToFileSync :: "('w, 'f, 's) Env \<Rightarrow> 'w \<Rightarrow> bytes \<Rightarrow> bytes \<Rightarrow> status \<times> 'w" where
  "WriteStringToFileSync env w data fname = DoWriteStringToFile env w data fname True"

definition kBufferSize :: nat where
  "kBufferSize = 8192"

partial_function (option) read_all :: "'s SequentialFile \<Rightarrow> 's \<Rightarrow> bytes \<Rightarrow> (status \<times> bytes \<times> 's) option" where
  "read_all ops file data =
     (let (s, fragment, file) = sRead ops file kBufferSize in
      if \<not> ok s then Some (s, data, file)
      else
        let data = data @ fragment
        in if fragment = [] then Some (s, data, file) else read_all ops file data)"

definition ReadFileToString :: "('w, 'f, 's) Env \<Rightarrow> 'w \<Rightarrow> bytes \<Rightarrow> (status \<times> bytes \<times> 'w) option" where
  "ReadFileToString env w fname =
     (case eNewSequentialFile env w fname of
        (s, file, w) \<Rightarrow>
          if \<not> ok s then Some (s, [], w)
          else map_option (\<lambda>(s, data, file). (s, data, eDeleteSequential env w file))
                 (read_all (eSequential env) (the file) []))"

section \<open>The contract\<close>

text \<open>\<open>files\<close> is the contents of every file by name, \<open>path\<close> and \<open>written\<close> what a writable file
  object was opened for and what was appended to it.\<close>

locale file_env =
  fixes E :: "('w, 'f, 's) Env"
    and files :: "'w \<Rightarrow> bytes \<rightharpoonup> bytes"
    and path :: "'f \<Rightarrow> bytes"
    and written :: "'f \<Rightarrow> bytes"
    and closed :: "'f \<Rightarrow> bool"
  assumes new_writable: "eNewWritableFile E w n = (s, h, w') \<Longrightarrow>
      (if ok s then (\<exists>f. h = Some f \<and> path f = n \<and> written f = []) \<and> files w' = (files w)(n \<mapsto> [])
       else files w' = files w)"
    and append: "wAppend (eWritable E) f d = (s, f') \<Longrightarrow>
      path f' = path f \<and> (ok s \<longrightarrow> written f' = written f @ d)"
    and sync: "wSync (eWritable E) f = (s, f') \<Longrightarrow> path f' = path f \<and> (ok s \<longrightarrow> written f' = written f)"
    and close: "wClose (eWritable E) f = (s, f') \<Longrightarrow>
      path f' = path f \<and> (ok s \<longrightarrow> written f' = written f \<and> closed f')"
    and delete_writable: "\<exists>d. files (eDeleteWritable E w f) = (files w)(path f \<mapsto> d) \<and> (closed f \<longrightarrow> d = written f)"
    and delete_file: "eDeleteFile E w n = (s, w') \<Longrightarrow> files w' = (if ok s then (files w)(n := None) else files w)"
    and rename: "eRenameFile E w a b = (s, w') \<Longrightarrow>
      (if ok s then files w a \<noteq> None \<and> files w' = (files w)(a := None, b := files w a) else files w' = files w)"
begin

text \<open>Writing a file changes no other file; when it succeeds the file holds the data.\<close>

lemma write_string:
  assumes "DoWriteStringToFile E w d n sync = (s, w')"
  shows "(\<forall>m. m \<noteq> n \<longrightarrow> files w' m = files w m) \<and> (ok s \<longrightarrow> files w' n = Some d)"
proof -
  obtain s0 h w0 where n: "eNewWritableFile E w n = (s0, h, w0)" by (cases "eNewWritableFile E w n")
  show ?thesis
  proof (cases "ok s0")
    case False
    then show ?thesis using assms n new_writable [OF n] by (simp add: DoWriteStringToFile_def)
  next
    case True
    with new_writable [OF n] obtain f where f: "h = Some f" "path f = n" "written f = []"
      "files w0 = (files w)(n \<mapsto> [])" by auto
    obtain s1 f1 where a: "wAppend (eWritable E) f d = (s1, f1)" by fastforce
    obtain s2 f2 where sy: "(if ok s1 \<and> sync then wSync (eWritable E) f1 else (s1, f1)) = (s2, f2)" by fastforce
    obtain s3 f3 where c: "(if ok s2 then wClose (eWritable E) f2 else (s2, f2)) = (s3, f3)" by fastforce
    let ?w3 = "eDeleteWritable E w0 f3"
    obtain s4 w4 where del: "eDeleteFile E ?w3 n = (s4, w4)" by fastforce
    have r: "s = s3" "w' = (if ok s3 then ?w3 else w4)"
      using assms n True f(1) a sy c del by (auto simp: DoWriteStringToFile_def Let_def split: if_splits)
    have 1: "path f1 = n" "ok s1 \<longrightarrow> written f1 = d" using append [OF a] f by auto
    have 2: "path f2 = n" "ok s2 \<longrightarrow> written f2 = d"
      using 1 sync [of f1 s2 f2] sy by (auto split: if_splits)
    have 3: "path f3 = n" "ok s3 \<longrightarrow> written f3 = d \<and> closed f3"
      using 2 close [of f2 s3 f3] c by (auto split: if_splits)
    obtain d' where d': "files ?w3 = (files w0)(n \<mapsto> d')" "closed f3 \<longrightarrow> d' = written f3"
      using delete_writable [of w0 f3] 3(1) by auto
    show ?thesis using r 3 d' f(4) delete_file [OF del] by auto
  qed
qed

end

text \<open>Reading a file to its end.\<close>

context sequential_file
begin

lemma read_all_reliable:
  "reliable f \<Longrightarrow> \<exists>s f'. read_all ops f data = Some (s, data @ rest f, f') \<and> ok s \<and> reliable f'"
proof (induction "length (rest f)" arbitrary: f data rule: less_induct)
  case less
  from read_eq [OF less(2), of kBufferSize] obtain s f' where
    r: "sRead ops f kBufferSize = (s, take kBufferSize (rest f), f')" "ok s"
    "rest f' = drop kBufferSize (rest f)" "reliable f'" by blast
  show ?case
  proof (cases "rest f = []")
    case True
    then show ?thesis using r by (simp add: read_all.simps [of ops f])
  next
    case False
    then have "length (rest f') < length (rest f)" "take kBufferSize (rest f) \<noteq> []"
      by (simp_all add: r(3) kBufferSize_def)
    from less(1) [OF this(1) r(4), of "data @ take kBufferSize (rest f)"] this(2) r show ?thesis
      by (simp add: read_all.simps [of ops f])
  qed
qed

end

end
