(* ===== verification/Posix_Env.thy ===== *)
theory Posix_Env
  imports Env_Posix Env_Api
begin

text \<open>
  The class \<^verbatim>\<open>PosixEnv\<close> of \<^verbatim>\<open>util/env_posix.cc\<close>. The world is the files by name, the answers the
  kernel will give to the coming calls, the locks of the process and the limiters. While a file
  object is open its descriptor carries the answers; deleting the object gives them back and
  makes its bytes the contents of the file. The environment interprets \<open>file_env\<close>. The
  background thread is a step relation of its own.
\<close>

section \<open>The world\<close>

text \<open>\<open>w_fcntl\<close> are the files on which this process holds the kernel's record lock.\<close>

record World =
  w_files :: "bytes \<rightharpoonup> bytes"
  w_dirs :: "bytes set"
  w_answers :: "outcome list"
  w_locks :: PosixLockTable
  w_fcntl :: "bytes set"
  w_mmap_limiter :: Limiter
  w_fd_limiter :: Limiter

definition EEXIST :: nat where "EEXIST = 17"

definition world_call :: "World \<Rightarrow> nat option \<times> World" where
  "world_call w =
     (case w_answers w of
        Errno e # as \<Rightarrow> (Some e, w\<lparr>w_answers := as\<rparr>)
      | as \<Rightarrow> (None, w\<lparr>w_answers := tl as\<rparr>))"

text \<open>A call on a file that has to exist.\<close>

definition world_call_on :: "World \<Rightarrow> bytes \<Rightarrow> nat option \<times> World" where
  "world_call_on w filename =
     (let (e, w) = world_call w in (if e = None \<and> w_files w filename = None then Some ENOENT else e, w))"

text \<open>Of the bytes a file has when it is opened, none count as synced: who wrote them may not have.\<close>

definition open_fd :: "World \<Rightarrow> bytes \<Rightarrow> Fd" where
  "open_fd w d = \<lparr>fd_data = d, fd_pos = 0, fd_answers = w_answers w, fd_synced = 0\<rparr>"

text \<open>POSIX: closing any descriptor of a file drops the record locks the process has on it.\<close>

definition sys_close :: "World \<Rightarrow> bytes \<Rightarrow> World" where
  "sys_close w filename = (let (_, w) = world_call w in w\<lparr>w_fcntl := w_fcntl w - {filename}\<rparr>)"

section \<open>The code\<close>

subsection \<open>Files\<close>

definition seq_file_ops :: "(nat \<Rightarrow> bytes) \<Rightarrow> (bytes \<times> Fd) SequentialFile" where
  "seq_file_ops strerror =
     \<lparr>sRead = (\<lambda>(fn, fd) n. let (s, d, fd) = seq_Read strerror fn fd n in (s, d, (fn, fd))),
      sSkip = (\<lambda>(fn, fd) n. let (s, fd) = seq_Skip strerror fn fd n in (s, (fn, fd)))\<rparr>"

definition NewSequentialFile ::
  "(nat \<Rightarrow> bytes) \<Rightarrow> World \<Rightarrow> bytes \<Rightarrow> status \<times> (bytes \<times> Fd) option \<times> World" where
  "NewSequentialFile strerror w filename =
     (let (e, w) = world_call_on w filename in
      case e of
        Some e \<Rightarrow> (PosixError strerror filename e, None, w)
      | None \<Rightarrow> (Status_OK, Some (filename, open_fd w (the (w_files w filename))), w))"

definition delete_SequentialFile :: "World \<Rightarrow> bytes \<times> Fd \<Rightarrow> World" where
  "delete_SequentialFile w f = sys_close (w\<lparr>w_answers := fd_answers (snd f)\<rparr>) (fst f)"

definition NewWritableFile ::
  "(nat \<Rightarrow> bytes) \<Rightarrow> World \<Rightarrow> bytes \<Rightarrow> status \<times> PosixWritable option \<times> World" where
  "NewWritableFile strerror w filename =
     (let (e, w) = world_call w in
      case e of
        Some e \<Rightarrow> (PosixError strerror filename e, None, w)
      | None \<Rightarrow>
          (Status_OK, Some (PosixWritable_new filename (open_fd w [])), w\<lparr>w_files := (w_files w)(filename \<mapsto> [])\<rparr>))"

definition NewAppendableFile ::
  "(nat \<Rightarrow> bytes) \<Rightarrow> World \<Rightarrow> bytes \<Rightarrow> status \<times> PosixWritable option \<times> World" where
  "NewAppendableFile strerror w filename =
     (let (e, w) = world_call w in
      case e of
        Some e \<Rightarrow> (PosixError strerror filename e, None, w)
      | None \<Rightarrow>
          let d = (case w_files w filename of None \<Rightarrow> [] | Some d \<Rightarrow> d)
          in (Status_OK, Some (PosixWritable_new filename (open_fd w d)), w\<lparr>w_files := (w_files w)(filename \<mapsto> d)\<rparr>))"

text \<open>The destructor closes a file that was not closed, ignoring errors.\<close>

definition delete_WritableFile :: "(nat \<Rightarrow> bytes) \<Rightarrow> World \<Rightarrow> PosixWritable \<Rightarrow> World" where
  "delete_WritableFile strerror w f =
     (let f = (if pw_open f then snd (pw_Close strerror f) else f)
      in w\<lparr>w_answers := fd_answers (pw_fd f), w_files := (w_files w)(pw_filename f \<mapsto> fd_data (pw_fd f)),
           w_fcntl := w_fcntl w - {pw_filename f}\<rparr>)"

definition FileExists :: "World \<Rightarrow> bytes \<Rightarrow> bool \<times> World" where
  "FileExists w filename = (let (e, w) = world_call_on w filename in (e = None, w))"

definition Env_DeleteFile :: "(nat \<Rightarrow> bytes) \<Rightarrow> World \<Rightarrow> bytes \<Rightarrow> status \<times> World" where
  "Env_DeleteFile strerror w filename =
     (let (e, w) = world_call_on w filename in
      case e of
        Some e \<Rightarrow> (PosixError strerror filename e, w)
      | None \<Rightarrow> (Status_OK, w\<lparr>w_files := (w_files w)(filename := None)\<rparr>))"

definition CreateDir :: "(nat \<Rightarrow> bytes) \<Rightarrow> World \<Rightarrow> bytes \<Rightarrow> status \<times> World" where
  "CreateDir strerror w dirname =
     (let (e, w) = world_call w;
          e = (if e = None \<and> dirname \<in> w_dirs w then Some EEXIST else e)
      in case e of
           Some e \<Rightarrow> (PosixError strerror dirname e, w)
         | None \<Rightarrow> (Status_OK, w\<lparr>w_dirs := insert dirname (w_dirs w)\<rparr>))"

text \<open>That the directory is not empty is one of the errors the kernel may answer.\<close>

definition DeleteDir :: "(nat \<Rightarrow> bytes) \<Rightarrow> World \<Rightarrow> bytes \<Rightarrow> status \<times> World" where
  "DeleteDir strerror w dirname =
     (let (e, w) = world_call w;
          e = (if e = None \<and> dirname \<notin> w_dirs w then Some ENOENT else e)
      in case e of
           Some e \<Rightarrow> (PosixError strerror dirname e, w)
         | None \<Rightarrow> (Status_OK, w\<lparr>w_dirs := w_dirs w - {dirname}\<rparr>))"

definition GetFileSize :: "(nat \<Rightarrow> bytes) \<Rightarrow> World \<Rightarrow> bytes \<Rightarrow> status \<times> u64 \<times> World" where
  "GetFileSize strerror w filename =
     (let (e, w) = world_call_on w filename in
      case e of
        Some e \<Rightarrow> (PosixError strerror filename e, 0, w)
      | None \<Rightarrow> (Status_OK, of_nat (length (the (w_files w filename))), w))"

definition RenameFile :: "(nat \<Rightarrow> bytes) \<Rightarrow> World \<Rightarrow> bytes \<Rightarrow> bytes \<Rightarrow> status \<times> World" where
  "RenameFile strerror w from_name to_name =
     (let (e, w) = world_call_on w from_name in
      case e of
        Some e \<Rightarrow> (PosixError strerror from_name e, w)
      | None \<Rightarrow> (Status_OK, w\<lparr>w_files := (w_files w)(from_name := None, to_name := w_files w from_name)\<rparr>))"

text \<open>\<^verbatim>\<open>NewRandomAccessFile\<close>: a mapped file while the limiter allows, otherwise \<^verbatim>\<open>pread\<close>.
  Mapping nothing is refused by the kernel with \<^verbatim>\<open>EINVAL\<close>.\<close>

datatype RandomFile = Pread bytes bool Fd | Mmap bytes bytes

definition PosixRandomAccessFile_new :: "World \<Rightarrow> bytes \<Rightarrow> Fd \<Rightarrow> RandomFile \<times> World" where
  "PosixRandomAccessFile_new w filename fd =
     (let (has_permanent_fd, l) = Limiter_Acquire (w_fd_limiter w);
          w = w\<lparr>w_fd_limiter := l\<rparr>;
          w = (if has_permanent_fd then w else sys_close w filename)
      in (Pread filename has_permanent_fd fd, w))"

definition NewRandomAccessFile ::
  "(nat \<Rightarrow> bytes) \<Rightarrow> World \<Rightarrow> bytes \<Rightarrow> status \<times> RandomFile option \<times> World" where
  "NewRandomAccessFile strerror w filename =
     (let (e, w) = world_call_on w filename in
      case e of
        Some e \<Rightarrow> (PosixError strerror filename e, None, w)
      | None \<Rightarrow>
          let (acquired, l) = Limiter_Acquire (w_mmap_limiter w);
              w = w\<lparr>w_mmap_limiter := l\<rparr>
          in if \<not> acquired then
               let (f, w) = PosixRandomAccessFile_new w filename (open_fd w (the (w_files w filename)))
               in (Status_OK, Some f, w)
             else
               let (st, file_size, w) = GetFileSize strerror w filename;
                   (st, f, w) =
                     (if ok st then
                        let (e, w) = world_call w;
                            e = (if e = None \<and> file_size = 0 then Some EINVAL else e)
                        in case e of
                             None \<Rightarrow> (st, Some (Mmap filename (take (unat file_size) (the (w_files w filename)))), w)
                           | Some e \<Rightarrow> (PosixError strerror filename e, None, w)
                      else (st, None, w));
                   w = sys_close w filename;
                   w = (if \<not> ok st then w\<lparr>w_mmap_limiter := Limiter_Release (w_mmap_limiter w)\<rparr> else w)
               in (st, f, w))"

definition RandomFile_Read ::
  "(nat \<Rightarrow> bytes) \<Rightarrow> RandomFile \<Rightarrow> u64 \<Rightarrow> u64 \<Rightarrow> status \<times> bytes \<times> RandomFile" where
  "RandomFile_Read strerror f offset n =
     (case f of
        Pread filename has_fd fd \<Rightarrow>
          let (st, d, fd) = random_Read strerror filename has_fd fd offset (unat n)
          in (st, d, Pread filename has_fd fd)
      | Mmap filename region \<Rightarrow>
          let (st, d) = mmap_Read strerror filename region offset n in (st, d, Mmap filename region))"

definition delete_RandomAccessFile :: "World \<Rightarrow> RandomFile \<Rightarrow> World" where
  "delete_RandomAccessFile w f =
     (case f of
        Pread filename has_fd fd \<Rightarrow>
          if has_fd then
            let w = sys_close (w\<lparr>w_answers := fd_answers fd\<rparr>) filename
            in w\<lparr>w_fd_limiter := Limiter_Release (w_fd_limiter w)\<rparr>
          else w\<lparr>w_answers := fd_answers fd\<rparr>
      | Mmap filename region \<Rightarrow>
          let (_, w) = world_call w in w\<lparr>w_mmap_limiter := Limiter_Release (w_mmap_limiter w)\<rparr>)"

definition PosixEnv :: "(nat \<Rightarrow> bytes) \<Rightarrow> (World, PosixWritable, bytes \<times> Fd) Env" where
  "PosixEnv strerror =
     \<lparr>eNewSequentialFile = NewSequentialFile strerror, eNewWritableFile = NewWritableFile strerror,
      eDeleteFile = Env_DeleteFile strerror, eRenameFile = RenameFile strerror,
      eWritable = PosixWritableFile strerror, eSequential = seq_file_ops strerror,
      eDeleteWritable = delete_WritableFile strerror, eDeleteSequential = delete_SequentialFile\<rparr>"

subsection \<open>Locks\<close>

text \<open>\<^verbatim>\<open>LockOrUnlock\<close>: a lock another process holds is one of the errors of the call.\<close>

definition LockOrUnlock :: "World \<Rightarrow> bytes \<Rightarrow> bool \<Rightarrow> nat option \<times> World" where
  "LockOrUnlock w filename lock =
     (let (e, w) = world_call w in
      case e of
        Some e \<Rightarrow> (Some e, w)
      | None \<Rightarrow> (None, w\<lparr>w_fcntl := (if lock then insert filename (w_fcntl w) else w_fcntl w - {filename})\<rparr>))"

text \<open>The lock object is the name of its file.\<close>

definition LockFile :: "(nat \<Rightarrow> bytes) \<Rightarrow> World \<Rightarrow> bytes \<Rightarrow> status \<times> bytes option \<times> World" where
  "LockFile strerror w filename =
     (let (e, w) = world_call w in
      case e of
        Some e \<Rightarrow> (PosixError strerror filename e, None, w)
      | None \<Rightarrow>
          let w = w\<lparr>w_files := (w_files w)(filename := (case w_files w filename of None \<Rightarrow> Some [] | x \<Rightarrow> x))\<rparr>;
              (inserted, locks) = LockTable_Insert (w_locks w) filename;
              w = w\<lparr>w_locks := locks\<rparr>
          in if \<not> inserted
             then (IOError (str ''lock '' @ filename) (str ''already held by process''), None, sys_close w filename)
             else
               let (e, w) = LockOrUnlock w filename True in
               case e of
                 Some lock_errno \<Rightarrow>
                   let w = sys_close w filename
                   in (PosixError strerror (str ''lock '' @ filename) lock_errno, None,
                       w\<lparr>w_locks := LockTable_Remove (w_locks w) filename\<rparr>)
               | None \<Rightarrow> (Status_OK, Some filename, w))"

definition UnlockFile :: "(nat \<Rightarrow> bytes) \<Rightarrow> World \<Rightarrow> bytes \<Rightarrow> status \<times> World" where
  "UnlockFile strerror w lock =
     (let (e, w) = LockOrUnlock w lock False in
      case e of
        Some e \<Rightarrow> (PosixError strerror (str ''unlock '' @ lock) e, w)
      | None \<Rightarrow>
          let w = w\<lparr>w_locks := LockTable_Remove (w_locks w) lock\<rparr> in (Status_OK, sys_close w lock))"

section \<open>It is an environment\<close>

lemma world_call_files [simp]:
  "world_call w = (e, w') \<Longrightarrow> w_files w' = w_files w \<and> w_locks w' = w_locks w \<and> w_fcntl w' = w_fcntl w"
  by (auto simp: world_call_def split: list.splits outcome.splits)

lemma world_call_on_files:
  "world_call_on w n = (e, w') \<Longrightarrow> w_files w' = w_files w \<and> (e = None \<longrightarrow> w_files w n \<noteq> None)"
  by (auto simp: world_call_on_def Let_def split: prod.splits if_splits)

lemma pw_Close_spec:
  assumes "pw_Close se f = (s, f')"
  shows "pw_filename f' = pw_filename f" and "ok s \<Longrightarrow> fd_data (pw_fd f') = pw_contents f" and "\<not> pw_open f'"
    and "pw_buf f' = []"
proof -
  obtain s1 f1 where fl: "FlushBuffer se f = (s1, f1)" by fastforce
  obtain e fd where c: "sys_call (pw_fd f1) = (e, fd)" by fastforce
  have d: "fd_data fd = fd_data (pw_fd f1)" using c by (auto simp: sys_call_def split: list.splits outcome.splits)
  have f': "f' = f1\<lparr>pw_fd := fd, pw_open := False\<rparr>"
    and s: "ok s \<Longrightarrow> ok s1" using assms fl c by (auto simp: pw_Close_def Let_def split: option.splits if_splits)
  have n: "pw_filename f1 = pw_filename f"
    using fl by (auto simp: FlushBuffer_def WriteUnbuffered_def Let_def split: prod.splits)
  show "pw_filename f' = pw_filename f" "\<not> pw_open f'" using n by (simp_all add: f')
  show "ok s \<Longrightarrow> fd_data (pw_fd f') = pw_contents f"
    using FlushBuffer_spec(3) [OF fl] s by (simp add: f' d pw_contents_def)
  show "pw_buf f' = []" using FlushBuffer_spec(4) [OF fl] by (simp add: f')
qed

lemma pw_filename_kept:
  "FlushBuffer se f = (s, f') \<Longrightarrow> pw_filename f' = pw_filename f"
  "WriteUnbuffered se f d = (s, f') \<Longrightarrow> pw_filename f' = pw_filename f"
  by (auto simp: FlushBuffer_def WriteUnbuffered_def Let_def split: prod.splits)

lemma pw_Append_filename: "pw_Append se f d = (s, f') \<Longrightarrow> pw_filename f' = pw_filename f"
  by (erule pw_Append_cases) (auto dest!: pw_filename_kept)


lemma sys_call_data: "sys_call fd = (e, fd') \<Longrightarrow> fd_data fd' = fd_data fd"
  by (auto simp: sys_call_def split: list.splits outcome.splits)

lemma sys_sync_data:
  assumes "sys_sync fd = (e, fd')"
  shows "fd_data fd' = fd_data fd \<and> (e = None \<longrightarrow> fd_synced fd' = length (fd_data fd)) \<and>
    (fd_synced fd \<le> length (fd_data fd) \<longrightarrow> fd_synced fd \<le> fd_synced fd' \<and> fd_synced fd' \<le> length (fd_data fd))"
proof -
  obtain e1 fd1 where c: "sys_call fd = (e1, fd1)" by fastforce
  then have "fd_data fd1 = fd_data fd" "fd_synced fd1 = fd_synced fd"
    by (auto simp: sys_call_def split: list.splits outcome.splits)
  then show ?thesis using assms c by (cases e1) (auto simp: sys_sync_def)
qed

lemma SyncFd_spec:
  assumes "SyncFd se fd p = (s, fd')"
  shows "fd_data fd' = fd_data fd \<and> (ok s \<longrightarrow> fd_synced fd' = length (fd_data fd)) \<and>
    (fd_synced fd \<le> length (fd_data fd) \<longrightarrow> fd_synced fd \<le> fd_synced fd' \<and> fd_synced fd' \<le> length (fd_data fd))"
proof -
  obtain e1 fd1 where 1: "sys_sync fd = (e1, fd1)" by fastforce
  obtain e2 fd2 where 2: "sys_sync fd1 = (e2, fd2)" by fastforce
  have "(s, fd') = (if e1 = None then (Status_OK, fd1) else case e2 of None \<Rightarrow> (Status_OK, fd2) | Some e \<Rightarrow> (PosixError se p e, fd2))"
    using assms by (auto simp: SyncFd_def 1 2)
  then show ?thesis using sys_sync_data [OF 1] sys_sync_data [OF 2] by (cases "e1 = None"; cases e2) auto
qed

lemma SyncFd_data: "SyncFd se fd p = (s, fd') \<Longrightarrow> fd_data fd' = fd_data fd"
  using SyncFd_spec by blast

lemma SyncDirIfManifest_kept:
  "SyncDirIfManifest se f = (s, f') \<Longrightarrow>
    pw_filename f' = pw_filename f \<and> pw_buf f' = pw_buf f \<and> fd_data (pw_fd f') = fd_data (pw_fd f) \<and>
    fd_synced (pw_fd f') = fd_synced (pw_fd f)"
  by (auto simp: SyncDirIfManifest_def Let_def sys_call_def split: prod.splits if_splits option.splits list.splits outcome.splits)

lemma pw_Sync_spec:
  assumes "pw_Sync se f = (s, f')"
  shows "pw_filename f' = pw_filename f \<and> (ok s \<longrightarrow> pw_contents f' = pw_contents f)"
proof -
  obtain s1 f1 where d: "SyncDirIfManifest se f = (s1, f1)" by fastforce
  obtain s2 f2 where fl: "FlushBuffer se f1 = (s2, f2)" by fastforce
  obtain s3 fd where y: "SyncFd se (pw_fd f2) (pw_filename f2) = (s3, fd)" by fastforce
  have e: "(s, f') = (if \<not> ok s1 then (s1, f1) else if \<not> ok s2 then (s2, f2) else (s3, f2\<lparr>pw_fd := fd\<rparr>))"
    using assms by (simp add: pw_Sync_def d fl y cong: if_cong)
  note kept = SyncDirIfManifest_kept [OF d] pw_filename_kept(1) [OF fl] SyncFd_data [OF y]
  show ?thesis
  proof (cases "ok s1 \<and> ok s2")
    case True
    then show ?thesis using e kept FlushBuffer_spec(3,4) [OF fl] by (simp add: pw_contents_def)
  next
    case False
    then show ?thesis using e kept by (auto split: if_splits)
  qed
qed

interpretation posix_env: file_env "PosixEnv se" w_files pw_filename pw_contents "\<lambda>f. \<not> pw_open f \<and> pw_buf f = []" for se
proof (unfold_locales, goal_cases)
  case (1 w n s h w')
  obtain e w1 where c: "world_call w = (e, w1)" by fastforce
  have r: "(s, h, w') = (case e of Some e \<Rightarrow> (PosixError se n e, None, w1)
      | None \<Rightarrow> (Status_OK, Some (PosixWritable_new n (open_fd w1 [])), w1\<lparr>w_files := (w_files w1)(n \<mapsto> [])\<rparr>))"
    using 1 by (simp add: PosixEnv_def NewWritableFile_def c)
  show ?case
  proof (cases e)
    case None
    then have "s = Status_OK" "h = Some (PosixWritable_new n (open_fd w1 []))" "w_files w' = (w_files w)(n \<mapsto> [])"
      using r world_call_files [OF c] by simp_all
    then show ?thesis by (simp add: PosixWritable_new_def pw_contents_def open_fd_def)
  next
    case Some
    then show ?thesis using r world_call_files [OF c] by simp
  qed
next
  case (2 f d s f')
  then have a: "pw_Append se f d = (s, f')" by (simp add: PosixEnv_def PosixWritableFile_def)
  show ?case using pw_Append_spec [OF a] pw_Append_filename [OF a] by (simp add: pw_contents_def)
next
  case (3 f s f')
  then show ?case using pw_Sync_spec [of se f s f'] by (simp add: PosixEnv_def PosixWritableFile_def)
next
  case (4 f s f')
  then have "pw_Close se f = (s, f')" by (simp add: PosixEnv_def PosixWritableFile_def)
  from pw_Close_spec [OF this] show ?case by (simp add: pw_contents_def)
next
  case (5 w f)
  obtain s f' where c: "pw_Close se f = (s, f')" by fastforce
  show ?case using pw_Close_spec(1) [OF c] c
    by (cases "pw_open f") (auto simp: PosixEnv_def delete_WritableFile_def Let_def pw_contents_def)
next
  case (6 w n s w')
  obtain e w1 where c: "world_call_on w n = (e, w1)" by fastforce
  show ?case
    using 6 world_call_on_files [OF c] by (cases e) (auto simp: PosixEnv_def Env_DeleteFile_def Let_def c)
next
  case (7 w a b s w')
  obtain e w1 where c: "world_call_on w a = (e, w1)" by fastforce
  show ?case
    using 7 world_call_on_files [OF c] by (cases e) (auto simp: PosixEnv_def RenameFile_def Let_def c)
qed

text \<open>The sequential file class with its name.\<close>

interpretation posix_seq_file: sequential_file "seq_file_ops se" "\<lambda>(fn, fd). drop (fd_pos fd) (fd_data fd)"
    "\<lambda>(fn, fd). fd_reliable fd" for se
proof (unfold_locales, goal_cases)
  case (1 f n s d f')
  then show ?case
    using posix_sequential.read_reliable [of "snd f" se "fst f" n s d "snd f'"]
    by (cases f; cases f') (auto simp: seq_file_ops_def PosixSequentialFile_def Let_def split: prod.splits)
next
  case (2 f m s f')
  then show ?case
    using posix_sequential.skip_reliable [of "snd f" se "fst f" m s "snd f'"]
    by (cases f; cases f') (auto simp: seq_file_ops_def PosixSequentialFile_def Let_def split: prod.splits)
qed

text \<open>A world whose coming calls fail at most by being interrupted while reading.\<close>

definition world_reliable :: "World \<Rightarrow> bool" where
  "world_reliable w \<longleftrightarrow> w_answers w = [] \<or> (\<exists>k as. w_answers w = Transfer k # as \<and> list_all benign as)"

lemma ReadFileToString_reliable:
  assumes "world_reliable w" "w_files w n = Some d"
  shows "\<exists>s w'. ReadFileToString (PosixEnv se) w n = Some (s, d, w') \<and> ok s \<and> w_files w' = w_files w"
proof -
  obtain as where c: "world_call w = (None, w\<lparr>w_answers := as\<rparr>)" "list_all benign as"
    using assms(1) by (auto simp: world_reliable_def world_call_def)
  let ?fd = "open_fd (w\<lparr>w_answers := as\<rparr>) d"
  have n: "eNewSequentialFile (PosixEnv se) w n = (Status_OK, Some (n, ?fd), w\<lparr>w_answers := as\<rparr>)"
    using c(1) assms(2) by (simp add: PosixEnv_def NewSequentialFile_def world_call_on_def)
  have "fd_reliable ?fd" using c(2) by (simp add: fd_reliable_def open_fd_def)
  then obtain s f' where r: "read_all (seq_file_ops se) (n, ?fd) [] = Some (s, d, f')" "ok s"
    using posix_seq_file.read_all_reliable [of "(n, ?fd)" se "[]"] by (auto simp: open_fd_def)
  have "w_files (delete_SequentialFile (w\<lparr>w_answers := as\<rparr>) f') = w_files w"
    by (auto simp: delete_SequentialFile_def sys_close_def Let_def dest!: world_call_files split: prod.splits)
  then show ?thesis using n r by (cases f', simp add: ReadFileToString_def, simp add: PosixEnv_def)
qed

section \<open>The background thread\<close>

text \<open>\<open>Idle\<close> is about to take the mutex, \<open>Waiting\<close> is inside \<^verbatim>\<open>Wait\<close>. Each step is one critical
  section; \<open>bg_done\<close> is what has been run.\<close>

datatype 'job bg_thread = Unstarted | Idle | Waiting | Running 'job

record 'job Background =
  bg_thread :: "'job bg_thread"
  bg_queue :: "'job list"
  bg_done :: "'job list"

definition Background_new :: "'job Background" where
  "Background_new = \<lparr>bg_thread = Unstarted, bg_queue = [], bg_done = []\<rparr>"

definition Schedule :: "'job Background \<Rightarrow> 'job \<Rightarrow> 'job Background" where
  "Schedule b job =
     (let b = (if bg_thread b = Unstarted then b\<lparr>bg_thread := Idle\<rparr> else b);
          b = (if bg_queue b = [] \<and> bg_thread b = Waiting then b\<lparr>bg_thread := Idle\<rparr> else b)
      in b\<lparr>bg_queue := bg_queue b @ [job]\<rparr>)"

text \<open>One critical section of \<^verbatim>\<open>BackgroundThreadMain\<close>, or the call of the function; \<open>None\<close> when
  the thread does not exist or sleeps.\<close>

definition bg_step :: "'job Background \<Rightarrow> 'job Background option" where
  "bg_step b =
     (case bg_thread b of
        Unstarted \<Rightarrow> None
      | Waiting \<Rightarrow> None
      | Idle \<Rightarrow>
          (case bg_queue b of
             [] \<Rightarrow> Some (b\<lparr>bg_thread := Waiting\<rparr>)
           | job # queue \<Rightarrow> Some (b\<lparr>bg_thread := Running job, bg_queue := queue\<rparr>))
      | Running job \<Rightarrow> Some (b\<lparr>bg_thread := Idle, bg_done := bg_done b @ [job]\<rparr>))"

inductive bg_reach :: "'job list \<Rightarrow> 'job Background \<Rightarrow> bool" where
  bg_new: "bg_reach [] Background_new"
| bg_schedule: "bg_reach jobs b \<Longrightarrow> bg_reach (jobs @ [job]) (Schedule b job)"
| bg_thread_step: "bg_reach jobs b \<Longrightarrow> bg_step b = Some b' \<Longrightarrow> bg_reach jobs b'"

fun running :: "'job bg_thread \<Rightarrow> 'job list" where
  "running (Running job) = [job]"
| "running _ = []"

text \<open>The jobs scheduled are the ones run, the running one and the queue, in this order; nobody
  sleeps while there is work.\<close>

lemma bg_invariant:
  "bg_reach jobs b \<Longrightarrow> jobs = bg_done b @ running (bg_thread b) @ bg_queue b \<and>
    (bg_thread b = Waiting \<or> bg_thread b = Unstarted \<longrightarrow> bg_queue b = [])"
proof (induction rule: bg_reach.induct)
  case (bg_schedule jobs b job)
  then show ?case by (cases "bg_thread b") (auto simp: Schedule_def Let_def)
next
  case (bg_thread_step jobs b b')
  then show ?case by (auto simp: bg_step_def split: bg_thread.splits list.splits)
qed (simp add: Background_new_def)

text \<open>Running the thread alone.\<close>

fun bg_run :: "nat \<Rightarrow> 'job Background \<Rightarrow> 'job Background" where
  "bg_run 0 b = b"
| "bg_run (Suc n) b = (case bg_step b of None \<Rightarrow> b | Some b' \<Rightarrow> bg_run n b')"

lemma bg_run_drains:
  "bg_queue b = [] \<or> bg_thread b \<noteq> Waiting \<and> bg_thread b \<noteq> Unstarted \<Longrightarrow>
    \<exists>n. n \<le> 2 * length (bg_queue b) + 1 \<and>
      bg_done (bg_run n b) = bg_done b @ running (bg_thread b) @ bg_queue b"
proof (induction "bg_queue b" arbitrary: b)
  case Nil
  show ?case
  proof (cases "bg_thread b")
    case (Running job)
    then show ?thesis using Nil by (intro exI [of _ 1]) (simp add: bg_step_def)
  qed (use Nil in \<open>intro exI [of _ 0], simp\<close>)+
next
  case (Cons job q)
  have q: "bg_queue b = job # q" using Cons(2) by simp
  show ?case
  proof (cases "bg_thread b")
    case Idle
    let ?b = "b\<lparr>bg_thread := Running job, bg_queue := q\<rparr>"
    from Cons(1) [of ?b] obtain n where n: "n \<le> 2 * length q + 1" "bg_done (bg_run n ?b) = bg_done b @ job # q" by auto
    then show ?thesis using Idle by (intro exI [of _ "Suc n"]) (simp add: bg_step_def q)
  next
    case (Running j)
    let ?b = "b\<lparr>bg_thread := Running job, bg_queue := q, bg_done := bg_done b @ [j]\<rparr>"
    from Cons(1) [of ?b] obtain n where n: "n \<le> 2 * length q + 1" "bg_done (bg_run n ?b) = bg_done b @ j # job # q" by auto
    have s: "bg_step b = Some (b\<lparr>bg_thread := Idle, bg_done := bg_done b @ [j]\<rparr>)"
      using Running by (simp add: bg_step_def)
    have "bg_step (b\<lparr>bg_thread := Idle, bg_done := bg_done b @ [j]\<rparr>) = Some ?b"
      by (simp add: bg_step_def q)
    with s have r: "bg_run (Suc (Suc n)) b = bg_run n ?b" by simp
    have "bg_done (bg_run (Suc (Suc n)) b) = bg_done b @ j # job # q" unfolding r by (rule n(2))
    moreover have "bg_done b @ running (bg_thread b) @ bg_queue b = bg_done b @ j # job # q"
      using Running q by simp
    moreover have "Suc (Suc n) \<le> 2 * length (bg_queue b) + 1" using n(1) q by simp
    ultimately show ?thesis by metis
  qed (use Cons(3) q in auto)
qed

section \<open>Limiters under concurrency\<close>

text \<open>Threads take and give back resources through the atomic steps of \<^verbatim>\<open>Limiter\<close>. \<open>held\<close>
  counts the holders, \<open>failing\<close> the threads between the two steps of a refused \<^verbatim>\<open>Acquire\<close>.\<close>

inductive limiter_reach :: "nat \<Rightarrow> nat \<Rightarrow> Limiter \<Rightarrow> nat \<Rightarrow> nat \<Rightarrow> bool" for limit threads where
  l_new: "limiter_reach limit threads (of_nat limit) 0 0"
| l_granted: "limiter_reach limit threads l held failing \<Longrightarrow> Limiter_fetch_sub l = (old, l') \<Longrightarrow> 0 <s old \<Longrightarrow>
    limiter_reach limit threads l' (held + 1) failing"
| l_refused: "limiter_reach limit threads l held failing \<Longrightarrow> failing < threads \<Longrightarrow>
    Limiter_fetch_sub l = (old, l') \<Longrightarrow> \<not> 0 <s old \<Longrightarrow> limiter_reach limit threads l' held (failing + 1)"
| l_restored: "limiter_reach limit threads l held (Suc failing) \<Longrightarrow>
    limiter_reach limit threads (Limiter_fetch_add l) held failing"
| l_released: "limiter_reach limit threads l (Suc held) failing \<Longrightarrow>
    limiter_reach limit threads (Limiter_Release l) held failing"


lemma sint_of_int_u32: "- (2 ^ 31) \<le> x \<Longrightarrow> x < 2 ^ 31 \<Longrightarrow> sint (of_int x :: 32 word) = x"
  by (simp add: signed_of_int signed_take_bit_int_eq_self)

lemma limiter_invariant:
  "limiter_reach limit threads l held failing \<Longrightarrow> limit + threads < 2 ^ 31 \<Longrightarrow>
    l = of_int (int limit - int held - int failing) \<and> failing \<le> threads \<and> held \<le> limit"
proof (induction rule: limiter_reach.induct)
  case (l_granted l held failing old l')
  let ?x = "int limit - int held - int failing"
  have "sint (of_int ?x :: 32 word) = ?x" by (rule sint_of_int_u32) (use l_granted in simp_all)
  moreover have "l = of_int ?x" using l_granted by blast
  ultimately have "sint l = ?x" by (simp only:)
  then have "0 < ?x" using l_granted(2,3) by (simp add: Limiter_fetch_sub_def word_sless_alt)
  moreover have "l' = l - 1" using l_granted(2) by (auto simp: Limiter_fetch_sub_def)
  ultimately show ?case using l_granted by auto
next
  case (l_refused l held failing old l')
  then have "l' = l - 1" "l = of_int (int limit - int held - int failing)" "held \<le> limit" "failing < threads"
    by (auto simp: Limiter_fetch_sub_def)
  then show ?case by simp
next
  case (l_restored l held failing)
  then show ?case by (simp add: Limiter_fetch_add_def)
next
  case (l_released l held failing)
  then show ?case by (simp add: Limiter_Release_def Limiter_fetch_add_def)
qed simp

section \<open>Locks\<close>

lemma sys_close_kept [simp]:
  "w_locks (sys_close w n) = w_locks w" "w_fcntl (sys_close w n) = w_fcntl w - {n}" "w_files (sys_close w n) = w_files w"
  by (auto simp: sys_close_def Let_def dest!: world_call_files split: prod.splits)

lemma LockFile_held:
  assumes "n \<in> w_locks w" "LockFile se w n = (s, l, w')"
  shows "\<not> ok s \<and> l = None \<and> n \<in> w_locks w' \<and> (w_answers w = [] \<longrightarrow> n \<notin> w_fcntl w')"
proof -
  obtain e w1 where c: "world_call w = (e, w1)" by fastforce
  from world_call_files [OF c] assms(1) have n: "n \<in> w_locks w1" by simp
  show ?thesis
  proof (cases e)
    case None
    then show ?thesis using assms(2) n by (auto simp: LockFile_def c LockTable_Insert_def Let_def IOError_def)
  next
    case (Some x)
    have "w_answers w \<noteq> []" using c Some by (auto simp: world_call_def)
    then show ?thesis using assms(2) n Some by (auto simp: LockFile_def c)
  qed
qed

lemma UnlockFile_locks:
  assumes "UnlockFile se w n = (s, w')"
  shows "if ok s then w_locks w' = w_locks w - {n} \<and> w_fcntl w' = w_fcntl w - {n} else w_locks w' = w_locks w"
proof -
  obtain e1 w1 where c: "world_call w = (e1, w1)" by fastforce
  show ?thesis using assms world_call_files [OF c]
    by (cases e1) (auto simp: UnlockFile_def LockOrUnlock_def LockTable_Remove_def c Let_def)
qed

lemma LockFile_free:
  assumes "LockFile se w n = (s, l, w')" "ok s"
  shows "n \<notin> w_locks w \<and> l = Some n \<and> w_locks w' = insert n (w_locks w) \<and> n \<in> w_fcntl w'"
proof -
  have free: "n \<notin> w_locks w" using LockFile_held [OF _ assms(1)] assms(2) by blast
  obtain e w1 where c: "world_call w = (e, w1)" by fastforce
  have e: "e = None" using assms by (cases e) (auto simp: LockFile_def c)
  let ?w2 = "w1\<lparr>w_files := (w_files w1)(n := (case w_files w1 n of None \<Rightarrow> Some [] | x \<Rightarrow> x)), w_locks := insert n (w_locks w1)\<rparr>"
  obtain e3 w3 where l: "world_call ?w2 = (e3, w3)" by fastforce
  from world_call_files [OF c] world_call_files [OF l] have k: "w_locks w1 = w_locks w" "w_locks w3 = insert n (w_locks w)"
    by simp_all
  obtain e4 w4 where lo: "LockOrUnlock ?w2 n True = (e4, w4)" by fastforce
  have "n \<notin> w_locks w1" using free k by simp
  then have r: "(s, l, w') = (case e4 of
      Some x \<Rightarrow> (PosixError se (str ''lock '' @ n) x, None, (sys_close w4 n)\<lparr>w_locks := w_locks (sys_close w4 n) - {n}\<rparr>)
    | None \<Rightarrow> (Status_OK, Some n, w4))"
    using assms(1) e by (simp add: LockFile_def c LockTable_Insert_def LockTable_Remove_def Let_def lo cong: option.case_cong)
  have e4: "e4 = None" using r assms(2) by (cases e4) auto
  then have "e3 = None" "w4 = w3\<lparr>w_fcntl := insert n (w_fcntl w3)\<rparr>"
    using lo by (auto simp: LockOrUnlock_def l Let_def split: option.splits)
  then show ?thesis using r e4 free k by simp
qed

text \<open>The lock table after any attempt: a failing one puts back what it found.\<close>

lemma LockFile_locks:
  assumes "LockFile se w n = (s, l, w')"
  shows "w_locks w' = (if ok s then insert n (w_locks w) else w_locks w)"
proof -
  obtain e w1 where c: "world_call w = (e, w1)" by fastforce
  let ?w2 = "w1\<lparr>w_files := (w_files w1)(n := (case w_files w1 n of None \<Rightarrow> Some [] | x \<Rightarrow> x)), w_locks := insert n (w_locks w1)\<rparr>"
  obtain e3 w3 where l: "world_call ?w2 = (e3, w3)" by fastforce
  have k: "w_locks w1 = w_locks w" "w_locks w3 = insert n (w_locks w)" using world_call_files [OF c] world_call_files [OF l] by simp_all
  have lo: "LockOrUnlock ?w2 n True = (e3, case e3 of None \<Rightarrow> w3\<lparr>w_fcntl := insert n (w_fcntl w3)\<rparr> | Some _ \<Rightarrow> w3)"
    by (cases e3) (simp_all add: LockOrUnlock_def l)
  show ?thesis
  proof (cases "n \<in> w_locks w1")
    case True
    then show ?thesis using assms k(1)
      by (cases e) (auto simp: LockFile_def c LockTable_Insert_def Let_def IOError_def insert_absorb)
  next
    case False
    show ?thesis
    proof (cases e)
      case None
      let ?w4 = "case e3 of None \<Rightarrow> w3\<lparr>w_fcntl := insert n (w_fcntl w3)\<rparr> | Some _ \<Rightarrow> w3"
      have "(s, l, w') = (case e3 of
          Some x \<Rightarrow> (PosixError se (str ''lock '' @ n) x, None, (sys_close ?w4 n)\<lparr>w_locks := w_locks (sys_close ?w4 n) - {n}\<rparr>)
        | None \<Rightarrow> (Status_OK, Some n, ?w4))"
        using assms False None by (simp add: LockFile_def c LockTable_Insert_def LockTable_Remove_def Let_def lo cong: option.case_cong)
      then show ?thesis using k False by (cases e3) simp_all
    next
      case (Some x)
      then show ?thesis using assms k(1) by (auto simp: LockFile_def c)
    qed
  qed
qed

lemma LockFile_calm:
  assumes "n \<notin> w_locks w" "w_answers w = []" "LockFile se w n = (s, l, w')"
  shows "ok s \<and> l = Some n"
  using assms by (auto simp: LockFile_def world_call_def LockTable_Insert_def LockOrUnlock_def Let_def)

text \<open>What the process may do with its locks, in any order, on any files.\<close>

datatype LockStep = DoLock bytes | DoUnlock bytes

fun lock_step :: "(nat \<Rightarrow> bytes) \<Rightarrow> LockStep \<Rightarrow> World \<Rightarrow> World" where
  "lock_step strerror (DoLock n) w = snd (snd (LockFile strerror w n))"
| "lock_step strerror (DoUnlock n) w = snd (UnlockFile strerror w n)"

lemma lock_step_locks: "n \<in> w_locks w \<Longrightarrow> a \<noteq> DoUnlock n \<Longrightarrow> n \<in> w_locks (lock_step se a w)"
proof (cases a)
  case (DoLock m)
  obtain s l w' where "LockFile se w m = (s, l, w')" by (metis prod_cases3)
  then show "n \<in> w_locks w \<Longrightarrow> n \<in> w_locks (lock_step se a w)" using LockFile_locks by (fastforce simp: DoLock)
next
  case (DoUnlock m)
  obtain s w' where "UnlockFile se w m = (s, w')" by fastforce
  from UnlockFile_locks [OF this] this show "n \<in> w_locks w \<Longrightarrow> a \<noteq> DoUnlock n \<Longrightarrow> n \<in> w_locks (lock_step se a w)"
    by (auto simp: DoUnlock split: if_splits)
qed

lemma lock_steps_locks:
  "n \<in> w_locks w \<Longrightarrow> DoUnlock n \<notin> set as \<Longrightarrow> n \<in> w_locks (fold (lock_step se) as w)"
proof (induction as arbitrary: w)
  case (Cons a as)
  have "n \<in> w_locks (lock_step se a w)" by (rule lock_step_locks) (use Cons.prems in auto)
  then show ?case using Cons by simp
qed simp

section \<open>Properties\<close>

text \<open>C20. The background thread: for any interleaving of \<^verbatim>\<open>Schedule\<close> with the critical sections
  of the thread, what has been run is a prefix of what was scheduled, in order; the thread only
  sleeps while the queue is empty (a signal is never lost); and left alone it has run everything
  scheduled after at most two steps for each queued job and one more.\<close>

theorem Background_runs_all:
  assumes "bg_reach jobs b"
  shows "prefix (bg_done b) jobs \<and> (bg_thread b = Waiting \<longrightarrow> bg_queue b = []) \<and>
    (\<exists>n. n \<le> 2 * length (bg_queue b) + 1 \<and> bg_done (bg_run n b) = jobs)"
proof -
  note inv = bg_invariant [OF assms]
  then have "prefix (bg_done b) jobs" by (metis prefixI)
  moreover obtain n where "n \<le> 2 * length (bg_queue b) + 1" "bg_done (bg_run n b) = bg_done b @ running (bg_thread b) @ bg_queue b"
    using bg_run_drains [of b] inv by blast
  ultimately show ?thesis using inv by auto
qed

theorem Background_runs_all_witness:
  "let b = Schedule (Schedule Background_new (1 :: nat)) 2 in
    prefix (bg_done b) [1, 2] \<and> (bg_thread b = Waiting \<longrightarrow> bg_queue b = []) \<and>
    (\<exists>n. n \<le> 2 * length (bg_queue b) + 1 \<and> bg_done (bg_run n b) = [1, 2])"
  unfolding Let_def
  by (rule Background_runs_all)
    (use bg_schedule [OF bg_schedule [OF bg_new, of "1 :: nat"], of 2] in simp)

text \<open>However many threads race, a limiter never hands out more than its limit, as long as
  the limit and the number of threads together stay below the range of \<^verbatim>\<open>int\<close>; its counter is
  then exactly what is free, less the threads that are about to undo a refused request.\<close>

theorem Limiter_bounds:
  assumes "limit + threads < 2 ^ 31" and "limiter_reach limit threads l held failing"
  shows "held \<le> limit \<and> sint l = int limit - int held - int failing \<and> (fst (Limiter_Acquire l) \<longrightarrow> held < limit)"
proof -
  note inv = limiter_invariant [OF assms(2,1)]
  let ?x = "int limit - int held - int failing"
  have "sint (of_int ?x :: 32 word) = ?x" by (rule sint_of_int_u32) (use inv assms(1) in simp_all)
  then have s: "sint l = ?x" using inv by (simp only:)
  then have "held < limit" if "0 <s l" using that by (simp add: word_sless_alt)
  then show ?thesis using inv s by (simp add: Limiter_Acquire_def Limiter_fetch_sub_def Let_def)
qed

theorem Limiter_bounds_witness:
  "sint (0 :: Limiter) = int 1 - int 1 - int 0 \<and> \<not> fst (Limiter_Acquire 0)"
proof -
  have b: "1 + 5 < (2 :: nat) ^ 31" by simp
  have "limiter_reach 1 5 (1 - 1) (0 + 1) 0"
    by (rule l_granted [of 1 5 1 0 0 1]) (use l_new [of 1 5] in \<open>simp_all add: Limiter_fetch_sub_def word_sless_alt\<close>)
  then have "limiter_reach 1 5 0 1 0" by simp
  from Limiter_bounds [OF b this] show ?thesis by simp
qed

text \<open>C33. A lock that was taken is held against the process itself: whatever files are locked and unlocked
  after it, in any order and with any failures, every attempt to lock the file again fails and gives no
  lock object, until \<^verbatim>\<open>UnlockFile\<close> has succeeded on it; after that the file can be locked again. The failing
  attempt closes a second descriptor of the file, with which the kernel drops the lock the process
  had against others.\<close>

theorem LockFile_excludes:
  assumes "LockFile se w n = (s, l, w1)" and "ok s" and "DoUnlock n \<notin> set as"
    and "w2 = fold (lock_step se) as w1" and "LockFile se w2 n = (s3, l3, w3)" and "UnlockFile se w2 n = (s4, w4)"
    and "LockFile se w4 n = (s5, l5, w5)"
  shows "n \<notin> w_locks w \<and> l = Some n \<and> n \<in> w_fcntl w1 \<and>
    \<not> ok s3 \<and> l3 = None \<and> n \<in> w_locks w3 \<and> (w_answers w2 = [] \<longrightarrow> n \<notin> w_fcntl w3) \<and>
    (if ok s4 then n \<notin> w_fcntl w4 \<and> (w_answers w4 = [] \<longrightarrow> ok s5 \<and> l5 = Some n) else \<not> ok s5 \<and> l5 = None)"
proof -
  note f = LockFile_free [OF assms(1,2)]
  have h: "n \<in> w_locks w2" unfolding assms(4) by (rule lock_steps_locks [OF _ assms(3)]) (use f in simp)
  note u = UnlockFile_locks [OF assms(6)]
  show ?thesis
  proof (cases "ok s4")
    case True
    then show ?thesis using f LockFile_held [OF h assms(5)] u LockFile_calm [OF _ _ assms(7)] by auto
  next
    case False
    then show ?thesis using f LockFile_held [OF h assms(5)] u LockFile_held [OF _ assms(7)] h by simp
  qed
qed

text \<open>A mapped file is read inside its region as long as offset and length do not wrap around
  in 64 bits; when they do, the check passes and the slice lies outside.\<close>

theorem mmap_Read_bounds:
  "(unat offset + unat n < 2 ^ 64 \<longrightarrow> length region < 2 ^ 64 \<longrightarrow>
     (ok (fst (mmap_Read se fn region offset n)) \<longleftrightarrow> unat offset + unat n \<le> length region) \<and>
     (ok (fst (mmap_Read se fn region offset n)) \<longrightarrow>
       snd (mmap_Read se fn region offset n) = take (unat n) (drop (unat offset) region))) \<and>
   ok (fst (mmap_Read se fn [7] (- 1) 2))"
proof -
  have "unat (offset + n) = unat offset + unat n" if "unat offset + unat n < 2 ^ 64"
    using that by (simp add: unat_word_ariths)
  moreover have "unat (of_nat (length region) :: u64) = length region" if "length region < 2 ^ 64"
    using that by (simp add: unat_of_nat_lt)
  ultimately show ?thesis by (auto simp: mmap_Read_def word_less_nat_alt)
qed

theorem mmap_Read_bounds_witness:
  "ok (fst (mmap_Read (\<lambda>_. []) [] [7, 8, 9] 1 2)) \<and> snd (mmap_Read (\<lambda>_. []) [] [7, 8, 9] 1 2) = [8, 9]"
  using mmap_Read_bounds [of 1 2 "[7, 8, 9]" "\<lambda>_. []" "[]"] by simp

text \<open>C34. What \<^verbatim>\<open>WriteStringToFile\<close> wrote with success, synced or not, \<^verbatim>\<open>ReadFileToString\<close> reads
  back, if the kernel then only interrupts calls; no other file is touched either way.\<close>

theorem file_string_roundtrip:
  assumes "DoWriteStringToFile (PosixEnv se) w d n sync = (s, w')"
  shows "(\<forall>m. m \<noteq> n \<longrightarrow> w_files w' m = w_files w m) \<and>
    (ok s \<and> world_reliable w' \<longrightarrow> (\<exists>s2 w2. ReadFileToString (PosixEnv se) w' n = Some (s2, d, w2) \<and> ok s2))"
  using posix_env.write_string [OF assms] ReadFileToString_reliable by blast

definition calm_world :: World where
  "calm_world = \<lparr>w_files = Map.empty, w_dirs = {}, w_answers = [], w_locks = {}, w_fcntl = {},
     w_mmap_limiter = 1000, w_fd_limiter = 50\<rparr>"

theorem LockFile_excludes_witness:
  "let se = (\<lambda>_. []); w1 = snd (snd (LockFile se calm_world [1])); w2 = fold (lock_step se) [DoLock [2], DoLock [1], DoUnlock [2]] w1;
       w4 = snd (UnlockFile se w2 [1])
   in \<not> ok (fst (LockFile se w2 [1])) \<and> ok (fst (UnlockFile se w2 [1])) \<and> ok (fst (LockFile se w4 [1]))"
proof -
  let ?se = "\<lambda>_. []" let ?w1 = "snd (snd (LockFile ?se calm_world [1]))" let ?as = "[DoLock [2], DoLock [1], DoUnlock [2]]"
  let ?w2 = "fold (lock_step ?se) ?as ?w1" let ?w4 = "snd (UnlockFile ?se ?w2 [1])"
  note d = LockFile_def UnlockFile_def calm_world_def world_call_def LockTable_Insert_def LockTable_Remove_def LockOrUnlock_def sys_close_def Let_def
  have e: "LockFile ?se w n = (fst (LockFile ?se w n), fst (snd (LockFile ?se w n)), snd (snd (LockFile ?se w n)))" for w n by simp
  have "ok (fst (LockFile ?se calm_world [1]))" "DoUnlock [1] \<notin> set ?as" by (simp_all add: d)
  from LockFile_excludes [OF e this refl e prod.collapse [symmetric] e]
  have x: "\<not> ok (fst (LockFile ?se ?w2 [1]))"
    "ok (fst (UnlockFile ?se ?w2 [1])) \<Longrightarrow> w_answers ?w4 = [] \<Longrightarrow> ok (fst (LockFile ?se ?w4 [1]))" by (auto split: if_splits)
  moreover have "ok (fst (UnlockFile ?se ?w2 [1]))" "w_answers ?w4 = []" by (simp_all add: d)
  ultimately show ?thesis by (simp only: Let_def) blast
qed


theorem file_string_roundtrip_witness:
  "let se = (\<lambda>_. []); (s, w') = DoWriteStringToFile (PosixEnv se) calm_world [1, 2] [9] True in
    (\<forall>m. m \<noteq> [9] \<longrightarrow> w_files w' m = w_files calm_world m) \<and>
    (ok s \<and> world_reliable w' \<longrightarrow> (\<exists>s2 w2. ReadFileToString (PosixEnv se) w' [9] = Some (s2, [1, 2], w2) \<and> ok s2))"
proof -
  obtain s w' where 1: "DoWriteStringToFile (PosixEnv (\<lambda>_. [])) calm_world [1, 2] [9] True = (s, w')" by fastforce
  from file_string_roundtrip [OF this] show ?thesis by (simp add: 1)
qed

end
