(* ===== verification/Filename.thy ===== *)
theory Filename
  imports Posix_Env Logging
begin

text \<open>
  \<^verbatim>\<open>db/filename.cc\<close>: the names of a database's files and the step that makes a new manifest
  current. \<open>pad6\<close> is what \<^verbatim>\<open>%06llu\<close> prints; the buffers of 100 bytes keep 99.
\<close>

section \<open>The code\<close>

datatype FileType = kLogFile | kDBLockFile | kTableFile | kDescriptorFile | kCurrentFile | kTempFile | kInfoLogFile

definition pad6 :: "u64 \<Rightarrow> bytes" where
  "pad6 number = (let d = dec (unat number) in replicate (6 - length d) 48 @ d)"

definition MakeFileName :: "bytes \<Rightarrow> u64 \<Rightarrow> bytes \<Rightarrow> bytes" where
  "MakeFileName dbname number extension =
     (let buf = take 99 (str ''/'' @ pad6 number @ str ''.'' @ extension) in dbname @ buf)"

definition LogFileName :: "bytes \<Rightarrow> u64 \<Rightarrow> bytes" where
  "LogFileName dbname number = MakeFileName dbname number (str ''log'')"

definition TableFileName :: "bytes \<Rightarrow> u64 \<Rightarrow> bytes" where
  "TableFileName dbname number = MakeFileName dbname number (str ''ldb'')"

definition SSTTableFileName :: "bytes \<Rightarrow> u64 \<Rightarrow> bytes" where
  "SSTTableFileName dbname number = MakeFileName dbname number (str ''sst'')"

definition DescriptorFileName :: "bytes \<Rightarrow> u64 \<Rightarrow> bytes" where
  "DescriptorFileName dbname number =
     (let buf = take 99 (str ''/MANIFEST-'' @ pad6 number) in dbname @ buf)"

definition CurrentFileName :: "bytes \<Rightarrow> bytes" where
  "CurrentFileName dbname = dbname @ str ''/CURRENT''"

definition LockFileName :: "bytes \<Rightarrow> bytes" where
  "LockFileName dbname = dbname @ str ''/LOCK''"

definition TempFileName :: "bytes \<Rightarrow> u64 \<Rightarrow> bytes" where
  "TempFileName dbname number = MakeFileName dbname number (str ''dbtmp'')"

definition InfoLogFileName :: "bytes \<Rightarrow> bytes" where
  "InfoLogFileName dbname = dbname @ str ''/LOG''"

definition OldInfoLogFileName :: "bytes \<Rightarrow> bytes" where
  "OldInfoLogFileName dbname = dbname @ str ''/LOG.old''"

definition ParseFileName :: "bytes \<Rightarrow> (u64 \<times> FileType) option" where
  "ParseFileName rest =
     (if rest = str ''CURRENT'' then Some (0, kCurrentFile)
      else if rest = str ''LOCK'' then Some (0, kDBLockFile)
      else if rest = str ''LOG'' \<or> rest = str ''LOG.old'' then Some (0, kInfoLogFile)
      else if take 9 rest = str ''MANIFEST-'' then
        (case ConsumeDecimalNumber (drop 9 rest) of
           (found, rest, num) \<Rightarrow>
             if \<not> found then None
             else if rest \<noteq> [] then None
             else Some (the num, kDescriptorFile))
      else
        (case ConsumeDecimalNumber rest of
           (found, extension, num) \<Rightarrow>
             if \<not> found then None
             else if extension = str ''.log'' then Some (the num, kLogFile)
             else if extension = str ''.sst'' \<or> extension = str ''.ldb'' then Some (the num, kTableFile)
             else if extension = str ''.dbtmp'' then Some (the num, kTempFile)
             else None))"

definition SetCurrentFile :: "('w, 'f, 's) Env \<Rightarrow> 'w \<Rightarrow> bytes \<Rightarrow> u64 \<Rightarrow> status \<times> 'w" where
  "SetCurrentFile env w dbname descriptor_number =
     (let manifest = DescriptorFileName dbname descriptor_number;
          contents = drop (length dbname + 1) manifest;
          tmp = TempFileName dbname descriptor_number;
          (s, w) = WriteStringToFileSync env w (contents @ [10]) tmp;
          (s, w) = (if ok s then eRenameFile env w tmp (CurrentFileName dbname) else (s, w));
          w = (if \<not> ok s then snd (eDeleteFile env w tmp) else w)
      in (s, w))"

section \<open>Names parse\<close>

lemma dec_val_zeros: "dec_val 0 (replicate n 48 @ ds) = dec_val 0 ds"
  by (induction n) (simp_all add: digit_val_def)

lemma pad6_digits: "\<forall>c\<in>set (pad6 n). is_digit c" "pad6 n \<noteq> []" "dec_val 0 (pad6 n) = unat n" "length (pad6 n) \<le> 20"
proof -
  have "unat n < 10 ^ Suc 19" using unat_u64_bound [of n] by simp
  then have "length (dec (unat n)) \<le> Suc 19" by (rule length_dec)
  then show "length (pad6 n) \<le> 20" by (simp add: pad6_def Let_def)
  show "\<forall>c\<in>set (pad6 n). is_digit c" using dec_digits [of "unat n"] by (auto simp: pad6_def Let_def is_digit_def)
  show "pad6 n \<noteq> []" "dec_val 0 (pad6 n) = unat n" by (simp_all add: pad6_def Let_def dec_val_zeros dec_val_dec)
qed

lemma Consume_pad6: "rest = [] \<or> \<not> is_digit (hd rest) \<Longrightarrow> ConsumeDecimalNumber (pad6 n @ rest) = (True, rest, Some n)"
  using ConsumeDecimalNumber_digits [OF pad6_digits(1) _ pad6_digits(2), of rest n] unat_u64_bound [of n]
  by (auto simp: pad6_digits(3))

lemma hd_pad6: "is_digit (hd (pad6 n @ xs))"
  using pad6_digits(1,2) [of n] by (cases "pad6 n") auto

lemma str_Cons: "str (c # cs) = of_char c # str cs"
  by (simp add: str_def)

lemma pad6_not_name:
  assumes "\<not> is_digit (of_char c)"
  shows "pad6 n @ xs \<noteq> str (c # cs)" and "take (Suc k) (pad6 n @ xs) \<noteq> str (c # cs)"
proof -
  obtain d ds where "pad6 n = d # ds" "is_digit d" using pad6_digits(1,2) [of n] by (cases "pad6 n") auto
  then show "pad6 n @ xs \<noteq> str (c # cs)" "take (Suc k) (pad6 n @ xs) \<noteq> str (c # cs)"
    using assms by (auto simp: str_Cons)
qed

lemma base_names:
  "drop (Suc (length db)) (MakeFileName db n s) = take 98 (pad6 n @ str ''.'' @ s)"
  "drop (Suc (length db)) (DescriptorFileName db n) = str ''MANIFEST-'' @ pad6 n"
  using pad6_digits(4) [of n] by (simp_all add: MakeFileName_def DescriptorFileName_def str_Cons)

lemma base_made: "length s \<le> 10 \<Longrightarrow> drop (Suc (length db)) (MakeFileName db n s) = pad6 n @ str ''.'' @ s"
  using pad6_digits(4) [of n] by (simp add: base_names(1))

lemma ParseFileName_pad6:
  "ParseFileName (pad6 n @ str ''.'' @ s) =
    (if s = str ''log'' then Some (n, kLogFile) else if s = str ''sst'' \<or> s = str ''ldb'' then Some (n, kTableFile)
     else if s = str ''dbtmp'' then Some (n, kTempFile) else None)"
proof -
  have p: "\<not> is_digit (of_char CHR ''C'')" "\<not> is_digit (of_char CHR ''L'')" "\<not> is_digit (of_char CHR ''M'')"
    by (simp_all add: is_digit_def)
  have c: "ConsumeDecimalNumber (pad6 n @ str ''.'' @ s) = (True, str ''.'' @ s, Some n)"
    by (rule Consume_pad6) (simp add: str_Cons is_digit_def)
  let ?x = "pad6 n @ str ''.'' @ s"
  have "?x \<noteq> str ''CURRENT''" "?x \<noteq> str ''LOCK''" "?x \<noteq> str ''LOG''" "?x \<noteq> str ''LOG.old''"
    using pad6_not_name(1) p by blast+
  moreover have "take 9 ?x \<noteq> str ''MANIFEST-''"
  proof -
    have "Suc 8 = 9" by simp
    then show ?thesis using pad6_not_name(2) [OF p(3), where k = 8] by (simp only:) blast
  qed
  moreover have "(str ''.'' @ s = str ''.log'') = (s = str ''log'')" "(str ''.'' @ s = str ''.sst'') = (s = str ''sst'')"
    "(str ''.'' @ s = str ''.ldb'') = (s = str ''ldb'')" "(str ''.'' @ s = str ''.dbtmp'') = (s = str ''dbtmp'')"
    by (simp_all add: str_Cons)
  ultimately show ?thesis by (simp only: ParseFileName_def c if_False prod.case simp_thms option.sel)
qed

section \<open>Making a manifest current\<close>

lemma names_differ: "TempFileName db n \<noteq> CurrentFileName db"
proof
  assume "TempFileName db n = CurrentFileName db"
  then have "drop (Suc (length db)) (TempFileName db n) = drop (Suc (length db)) (CurrentFileName db)" by (simp only:)
  moreover have "drop (Suc (length db)) (TempFileName db n) = pad6 n @ str ''.'' @ str ''dbtmp''"
    unfolding TempFileName_def by (rule base_made) simp
  moreover have "drop (Suc (length db)) (CurrentFileName db) = str ''CURRENT''" by (simp add: CurrentFileName_def str_Cons)
  ultimately have "pad6 n @ str ''.'' @ str ''dbtmp'' = str ''CURRENT''" by (simp only:)
  then show False using pad6_not_name(1) [of "CHR ''C''"] by (simp add: is_digit_def)
qed

context file_env
begin

lemma SetCurrentFile_atomic:
  assumes "SetCurrentFile E w db n = (s, w')"
  shows "files w' (CurrentFileName db) =
      (if ok s then Some (str ''MANIFEST-'' @ pad6 n @ [10]) else files w (CurrentFileName db)) \<and>
    (\<forall>m. m \<noteq> CurrentFileName db \<longrightarrow> m \<noteq> TempFileName db n \<longrightarrow> files w' m = files w m) \<and>
    (ok s \<longrightarrow> files w' (TempFileName db n) = None)"
proof -
  let ?tmp = "TempFileName db n" and ?cur = "CurrentFileName db" and ?d = "str ''MANIFEST-'' @ pad6 n @ [10]"
  obtain s1 w1 where 1: "WriteStringToFileSync E w ?d ?tmp = (s1, w1)" by fastforce
  obtain s2 w2 where 2: "(if ok s1 then eRenameFile E w1 ?tmp ?cur else (s1, w1)) = (s2, w2)" by fastforce
  obtain s3 w3 where 3: "eDeleteFile E w2 ?tmp = (s3, w3)" by fastforce
  have r: "s = s2" "w' = (if ok s2 then w2 else w3)"
    using assms 1 2 3 by (auto simp: SetCurrentFile_def base_names(2) Let_def split: if_splits)
  have w1: "\<forall>m. m \<noteq> ?tmp \<longrightarrow> files w1 m = files w m" "ok s1 \<longrightarrow> files w1 ?tmp = Some ?d"
    using write_string [OF 1 [unfolded WriteStringToFileSync_def]] by blast+
  have w2: "if ok s2 then ok s1 \<and> files w2 = (files w1)(?tmp := None, ?cur := files w1 ?tmp) else files w2 = files w1"
  proof (cases "ok s1")
    case True
    then show ?thesis using rename [of w1 ?tmp ?cur s2 w2] 2 by (auto split: if_splits)
  next
    case False
    then show ?thesis using 2 by auto
  qed
  show ?thesis
  proof (cases "ok s2")
    case True
    then show ?thesis using r w1 w2 names_differ [of db n] by simp
  next
    case False
    then show ?thesis using r w1 w2 names_differ [of db n] delete_file [OF 3] by auto
  qed
qed

end

section \<open>Properties\<close>

text \<open>C37. File names: every name the database makes parses back to its kind and number, for all
  64-bit numbers, padded or not.\<close>

theorem ParseFileName_roundtrip:
  "(let base = drop (length db + 1) in
    ParseFileName (base (LogFileName db n)) = Some (n, kLogFile) \<and>
    ParseFileName (base (TableFileName db n)) = Some (n, kTableFile) \<and>
    ParseFileName (base (SSTTableFileName db n)) = Some (n, kTableFile) \<and>
    ParseFileName (base (TempFileName db n)) = Some (n, kTempFile) \<and>
    ParseFileName (base (DescriptorFileName db n)) = Some (n, kDescriptorFile) \<and>
    ParseFileName (base (CurrentFileName db)) = Some (0, kCurrentFile) \<and>
    ParseFileName (base (LockFileName db)) = Some (0, kDBLockFile) \<and>
    ParseFileName (base (InfoLogFileName db)) = Some (0, kInfoLogFile) \<and>
    ParseFileName (base (OldInfoLogFileName db)) = Some (0, kInfoLogFile))"
proof -
  have m: "ParseFileName (str ''MANIFEST-'' @ pad6 n) = Some (n, kDescriptorFile)"
    using Consume_pad6 [of "[]" n] by (simp add: ParseFileName_def str_Cons)
  have suc: "length db + 1 = Suc (length db)" by simp
  have c: "drop (Suc (length db)) (db @ str (CHR ''/'' # x)) = str x" for x by (simp add: str_Cons)
  have "str ''LOCK'' \<noteq> str ''CURRENT''" "str ''LOG'' \<noteq> str ''CURRENT''" "str ''LOG'' \<noteq> str ''LOCK''"
    "str ''LOG.old'' \<noteq> str ''CURRENT''" "str ''LOG.old'' \<noteq> str ''LOCK''" by (simp_all add: str_Cons)
  then have "ParseFileName (str ''CURRENT'') = Some (0, kCurrentFile)" "ParseFileName (str ''LOCK'') = Some (0, kDBLockFile)"
    "ParseFileName (str ''LOG'') = Some (0, kInfoLogFile)" "ParseFileName (str ''LOG.old'') = Some (0, kInfoLogFile)"
    by (simp_all add: ParseFileName_def)
  moreover have "str ''sst'' \<noteq> str ''log''" "str ''ldb'' \<noteq> str ''log''" "str ''dbtmp'' \<noteq> str ''log''"
    "str ''dbtmp'' \<noteq> str ''sst''" "str ''dbtmp'' \<noteq> str ''ldb''" by (simp_all add: str_Cons)
  ultimately show ?thesis
    unfolding Let_def LogFileName_def TableFileName_def SSTTableFileName_def TempFileName_def CurrentFileName_def
      LockFileName_def InfoLogFileName_def OldInfoLogFileName_def suc c base_names(2)
    by (simp add: base_made ParseFileName_pad6 m del: drop_append)
qed

text \<open>C19. \<^verbatim>\<open>SetCurrentFile\<close> is atomic, whatever the kernel answers: afterwards \<^verbatim>\<open>CURRENT\<close> holds the
  name of the new manifest if it succeeded and exactly what it held before if not; it never holds
  part of a name, and no other file but the temporary one is touched.\<close>

theorem SetCurrentFile_all_or_nothing:
  assumes "SetCurrentFile (PosixEnv se) w db n = (s, w')"
  shows "w_files w' (CurrentFileName db) =
      (if ok s then Some (str ''MANIFEST-'' @ pad6 n @ [10]) else w_files w (CurrentFileName db)) \<and>
    (\<forall>m. m \<noteq> CurrentFileName db \<longrightarrow> m \<noteq> TempFileName db n \<longrightarrow> w_files w' m = w_files w m) \<and>
    (ok s \<longrightarrow> w_files w' (TempFileName db n) = None)"
  by (rule posix_env.SetCurrentFile_atomic [OF assms])

theorem SetCurrentFile_all_or_nothing_witness:
  "let (s, w') = SetCurrentFile (PosixEnv (\<lambda>_. [])) calm_world [100] 5 in
    w_files w' (CurrentFileName [100]) =
      (if ok s then Some (str ''MANIFEST-'' @ pad6 5 @ [10]) else w_files calm_world (CurrentFileName [100])) \<and>
    (\<forall>m. m \<noteq> CurrentFileName [100] \<longrightarrow> m \<noteq> TempFileName [100] 5 \<longrightarrow> w_files w' m = w_files calm_world m) \<and>
    (ok s \<longrightarrow> w_files w' (TempFileName [100] 5) = None)"
proof -
  obtain s w' where 1: "SetCurrentFile (PosixEnv (\<lambda>_. [])) calm_world [100] 5 = (s, w')" by fastforce
  from SetCurrentFile_all_or_nothing [OF this] show ?thesis by (simp add: 1)
qed

end
