(* ===== verification/Lru_Cache.thy ===== *)
theory Lru_Cache
  imports Hash Prelude "HOL-Library.Multiset"
begin

text \<open>
  \<^verbatim>\<open>util/cache.cc\<close>: the LRU cache. A pointer to an entry is a number; the links of the circular
  lists are two functions \<open>lc_next\<close> and \<open>lc_prev\<close>, with 0 and 1 the dummy heads \<^verbatim>\<open>lru_\<close> and
  \<^verbatim>\<open>in_use_\<close>; a chain of the hash table is the list of its entries. Calls of the deleter are
  logged. Charges, usage and capacity are \<^verbatim>\<open>size_t\<close>, 64 bits that wrap around. The code's \<^verbatim>\<open>refs\<close>,
  \<^verbatim>\<open>length_\<close> and \<^verbatim>\<open>elems_\<close> have 32 bits and are natural numbers here: the two agree while a cache has fewer
  than 2 to the 31 entries and its clients hold fewer than 2 to the 32 handles, less two.
\<close>

section \<open>The code\<close>

record 'v LRUHandle =
  h_value :: 'v
  h_charge :: u64
  h_key :: bytes
  h_in_cache :: bool
  h_refs :: nat
  h_hash :: u32

record HandleTable =
  ht_length :: nat
  ht_elems :: nat
  ht_list :: "nat list list"

record 'v LRUCache =
  lc_capacity :: u64
  lc_usage :: u64
  lc_nodes :: "nat \<rightharpoonup> 'v LRUHandle"
  lc_next :: "nat \<Rightarrow> nat"
  lc_prev :: "nat \<Rightarrow> nat"
  lc_table :: HandleTable
  lc_fresh :: nat
  lc_deleted :: "(nat \<times> bytes \<times> 'v) list"

text \<open>The entry behind a pointer.\<close>

definition entry :: "'v LRUCache \<Rightarrow> nat \<Rightarrow> 'v LRUHandle" where
  "entry c e = the (lc_nodes c e)"

subsection \<open>\<^verbatim>\<open>HandleTable\<close>\<close>

definition bucket :: "nat \<Rightarrow> u32 \<Rightarrow> nat" where
  "bucket len hash = unat (hash AND (of_nat len - 1))"

text \<open>A slot is a bucket and a position in its chain, the end included.\<close>

definition FindPointer :: "(nat \<rightharpoonup> 'v LRUHandle) \<Rightarrow> HandleTable \<Rightarrow> bytes \<Rightarrow> u32 \<Rightarrow> nat \<times> nat" where
  "FindPointer nodes t key hash =
     (let i = bucket (ht_length t) hash
      in (i, length (takeWhile (\<lambda>e. h_hash (the (nodes e)) \<noteq> hash \<or> key \<noteq> h_key (the (nodes e))) (ht_list t ! i))))"

definition slot :: "HandleTable \<Rightarrow> nat \<times> nat \<Rightarrow> nat option" where
  "slot t p = (let chain = ht_list t ! fst p in if snd p < length chain then Some (chain ! snd p) else None)"

definition ht_Lookup :: "(nat \<rightharpoonup> 'v LRUHandle) \<Rightarrow> HandleTable \<Rightarrow> bytes \<Rightarrow> u32 \<Rightarrow> nat option" where
  "ht_Lookup nodes t key hash = slot t (FindPointer nodes t key hash)"

text \<open>The length starts at 4, so it is never 0.\<close>

function resize_length :: "nat \<Rightarrow> nat \<Rightarrow> nat" where
  "resize_length elems new_length =
     (if 0 < new_length \<and> new_length < elems then resize_length elems (2 * new_length) else new_length)"
  by pat_completeness auto
termination by (relation "measure (\<lambda>(n, l). n - l)") auto

declare resize_length.simps [simp del]

definition rehash :: "(nat \<rightharpoonup> 'v LRUHandle) \<Rightarrow> nat \<Rightarrow> nat list list \<Rightarrow> nat \<Rightarrow> nat list list" where
  "rehash nodes new_length new_list h =
     (let i = bucket new_length (h_hash (the (nodes h))) in new_list[i := h # new_list ! i])"

definition Resize :: "(nat \<rightharpoonup> 'v LRUHandle) \<Rightarrow> HandleTable \<Rightarrow> HandleTable" where
  "Resize nodes t =
     (let new_length = resize_length (ht_elems t) 4;
          new_list = foldl (rehash nodes new_length) (replicate new_length []) (concat (ht_list t))
      in t\<lparr>ht_list := new_list, ht_length := new_length\<rparr>)"

definition HandleTable_new :: HandleTable where
  "HandleTable_new = Resize (Map.empty :: nat \<rightharpoonup> unit LRUHandle) \<lparr>ht_length = 0, ht_elems = 0, ht_list = []\<rparr>"

definition ht_Insert :: "(nat \<rightharpoonup> 'v LRUHandle) \<Rightarrow> HandleTable \<Rightarrow> nat \<Rightarrow> nat option \<times> HandleTable" where
  "ht_Insert nodes t h =
     (let (i, j) = FindPointer nodes t (h_key (the (nodes h))) (h_hash (the (nodes h)));
          old = slot t (i, j);
          chain = ht_list t ! i
      in case old of
           Some _ \<Rightarrow> (old, t\<lparr>ht_list := (ht_list t)[i := chain[j := h]]\<rparr>)
         | None \<Rightarrow>
             let t = t\<lparr>ht_list := (ht_list t)[i := chain @ [h]], ht_elems := ht_elems t + 1\<rparr>
             in (old, if ht_elems t > ht_length t then Resize nodes t else t))"

definition ht_Remove :: "(nat \<rightharpoonup> 'v LRUHandle) \<Rightarrow> HandleTable \<Rightarrow> bytes \<Rightarrow> u32 \<Rightarrow> nat option \<times> HandleTable" where
  "ht_Remove nodes t key hash =
     (let (i, j) = FindPointer nodes t key hash;
          result = slot t (i, j);
          chain = ht_list t ! i
      in case result of
           None \<Rightarrow> (None, t)
         | Some _ \<Rightarrow>
             (result, t\<lparr>ht_list := (ht_list t)[i := take j chain @ drop (j + 1) chain], ht_elems := ht_elems t - 1\<rparr>))"

subsection \<open>\<^verbatim>\<open>LRUCache\<close>\<close>

definition LRU_Remove :: "'v LRUCache \<Rightarrow> nat \<Rightarrow> 'v LRUCache" where
  "LRU_Remove c e =
     (let c = c\<lparr>lc_prev := (lc_prev c)(lc_next c e := lc_prev c e)\<rparr>
      in c\<lparr>lc_next := (lc_next c)(lc_prev c e := lc_next c e)\<rparr>)"

definition LRU_Append :: "'v LRUCache \<Rightarrow> nat \<Rightarrow> nat \<Rightarrow> 'v LRUCache" where
  "LRU_Append c list e =
     (let c = c\<lparr>lc_next := (lc_next c)(e := list)\<rparr>;
          c = c\<lparr>lc_prev := (lc_prev c)(e := lc_prev c list)\<rparr>;
          c = c\<lparr>lc_next := (lc_next c)(lc_prev c e := e)\<rparr>
      in c\<lparr>lc_prev := (lc_prev c)(lc_next c e := e)\<rparr>)"

definition lru_head :: nat where "lru_head = 0"
definition in_use_head :: nat where "in_use_head = 1"

definition LRUCache_new :: "u64 \<Rightarrow> 'v LRUCache" where
  "LRUCache_new capacity =
     \<lparr>lc_capacity = capacity, lc_usage = 0, lc_nodes = Map.empty, lc_next = (\<lambda>e. e), lc_prev = (\<lambda>e. e),
      lc_table = HandleTable_new, lc_fresh = 2, lc_deleted = []\<rparr>"

definition update_entry :: "'v LRUCache \<Rightarrow> nat \<Rightarrow> ('v LRUHandle \<Rightarrow> 'v LRUHandle) \<Rightarrow> 'v LRUCache" where
  "update_entry c e f = c\<lparr>lc_nodes := (lc_nodes c)(e \<mapsto> f (entry c e))\<rparr>"

definition Ref :: "'v LRUCache \<Rightarrow> nat \<Rightarrow> 'v LRUCache" where
  "Ref c e =
     (let c = (if h_refs (entry c e) = 1 \<and> h_in_cache (entry c e)
               then LRU_Append (LRU_Remove c e) in_use_head e else c)
      in update_entry c e (\<lambda>h. h\<lparr>h_refs := h_refs h + 1\<rparr>))"

definition Unref :: "'v LRUCache \<Rightarrow> nat \<Rightarrow> 'v LRUCache" where
  "Unref c e =
     (let c = update_entry c e (\<lambda>h. h\<lparr>h_refs := h_refs h - 1\<rparr>) in
      if h_refs (entry c e) = 0 then
        c\<lparr>lc_deleted := lc_deleted c @ [(e, h_key (entry c e), h_value (entry c e))], lc_nodes := (lc_nodes c)(e := None)\<rparr>
      else if h_in_cache (entry c e) \<and> h_refs (entry c e) = 1
      then LRU_Append (LRU_Remove c e) lru_head e
      else c)"

definition FinishErase :: "'v LRUCache \<Rightarrow> nat option \<Rightarrow> 'v LRUCache" where
  "FinishErase c p =
     (case p of
        None \<Rightarrow> c
      | Some e \<Rightarrow>
          let c = LRU_Remove c e;
              c = update_entry c e (\<lambda>h. h\<lparr>h_in_cache := False\<rparr>);
              c = c\<lparr>lc_usage := lc_usage c - h_charge (entry c e)\<rparr>
          in Unref c e)"

definition lc_Lookup :: "'v LRUCache \<Rightarrow> bytes \<Rightarrow> u32 \<Rightarrow> nat option \<times> 'v LRUCache" where
  "lc_Lookup c key hash =
     (let e = ht_Lookup (lc_nodes c) (lc_table c) key hash
      in (e, case e of None \<Rightarrow> c | Some e \<Rightarrow> Ref c e))"

definition lc_Release :: "'v LRUCache \<Rightarrow> nat \<Rightarrow> 'v LRUCache" where
  "lc_Release c handle = Unref c handle"

definition lc_Erase :: "'v LRUCache \<Rightarrow> bytes \<Rightarrow> u32 \<Rightarrow> 'v LRUCache" where
  "lc_Erase c key hash =
     (let (e, t) = ht_Remove (lc_nodes c) (lc_table c) key hash in FinishErase (c\<lparr>lc_table := t\<rparr>) e)"

text \<open>One round of the loops that drop the oldest unused entry.\<close>

definition drop_oldest :: "'v LRUCache \<Rightarrow> 'v LRUCache" where
  "drop_oldest c =
     (let old = entry c (lc_next c lru_head) in lc_Erase c (h_key old) (h_hash old))"

partial_function (option) evict_loop :: "'v LRUCache \<Rightarrow> 'v LRUCache option" where
  "evict_loop c =
     (if lc_usage c > lc_capacity c \<and> lc_next c lru_head \<noteq> lru_head then evict_loop (drop_oldest c) else Some c)"

partial_function (option) lc_Prune :: "'v LRUCache \<Rightarrow> 'v LRUCache option" where
  "lc_Prune c = (if lc_next c lru_head \<noteq> lru_head then lc_Prune (drop_oldest c) else Some c)"

definition lc_Insert :: "'v LRUCache \<Rightarrow> bytes \<Rightarrow> u32 \<Rightarrow> 'v \<Rightarrow> u64 \<Rightarrow> (nat \<times> 'v LRUCache) option" where
  "lc_Insert c key hash val charge =
     (let e = lc_fresh c;
          h = \<lparr>h_value = val, h_charge = charge, h_key = key, h_in_cache = False, h_refs = 1, h_hash = hash\<rparr>;
          c = c\<lparr>lc_nodes := (lc_nodes c)(e \<mapsto> h), lc_fresh := e + 1\<rparr>;
          c = (if lc_capacity c > 0 then
                 let c = update_entry c e (\<lambda>h. h\<lparr>h_refs := h_refs h + 1, h_in_cache := True\<rparr>);
                     c = LRU_Append c in_use_head e;
                     c = c\<lparr>lc_usage := lc_usage c + charge\<rparr>;
                     (old, t) = ht_Insert (lc_nodes c) (lc_table c) e
                 in FinishErase (c\<lparr>lc_table := t\<rparr>) old
               else c)
      in map_option (Pair e) (evict_loop c))"

text \<open>The destructor, when no handle is held.\<close>

partial_function (option) LRUCache_destroy :: "'v LRUCache \<Rightarrow> nat \<Rightarrow> 'v LRUCache option" where
  "LRUCache_destroy c e =
     (if e \<noteq> lru_head then
        let next_e = lc_next c e
        in LRUCache_destroy (Unref (update_entry c e (\<lambda>h. h\<lparr>h_in_cache := False\<rparr>)) e) next_e
      else Some c)"

subsection \<open>\<^verbatim>\<open>ShardedLRUCache\<close>\<close>

definition kNumShardBits :: nat where "kNumShardBits = 4"
definition kNumShards :: nat where "kNumShards = push_bit kNumShardBits 1"

record 'v ShardedLRUCache =
  sc_shard :: "'v LRUCache list"
  sc_last_id :: u64

definition HashSlice :: "bytes \<Rightarrow> u32" where
  "HashSlice s = Hash s 0"

definition Shard :: "u32 \<Rightarrow> nat" where
  "Shard hash = unat (drop_bit (32 - kNumShardBits) hash)"

definition ShardedLRUCache_new :: "u64 \<Rightarrow> 'v ShardedLRUCache" where
  "ShardedLRUCache_new capacity =
     (let per_shard = (capacity + (of_nat kNumShards - 1)) div of_nat kNumShards
      in \<lparr>sc_shard = replicate kNumShards (LRUCache_new per_shard), sc_last_id = 0\<rparr>)"

text \<open>A handle is a pointer into the memory of a shard.\<close>

definition sc_Insert :: "'v ShardedLRUCache \<Rightarrow> bytes \<Rightarrow> 'v \<Rightarrow> u64 \<Rightarrow> ((nat \<times> nat) \<times> 'v ShardedLRUCache) option" where
  "sc_Insert c key val charge =
     (let hash = HashSlice key; s = Shard hash
      in map_option (\<lambda>(e, shard). ((s, e), c\<lparr>sc_shard := (sc_shard c)[s := shard]\<rparr>))
           (lc_Insert (sc_shard c ! s) key hash val charge))"

definition sc_Lookup :: "'v ShardedLRUCache \<Rightarrow> bytes \<Rightarrow> (nat \<times> nat) option \<times> 'v ShardedLRUCache" where
  "sc_Lookup c key =
     (let hash = HashSlice key; s = Shard hash;
          (e, shard) = lc_Lookup (sc_shard c ! s) key hash
      in (map_option (Pair s) e, c\<lparr>sc_shard := (sc_shard c)[s := shard]\<rparr>))"

definition sc_Release :: "'v ShardedLRUCache \<Rightarrow> nat \<times> nat \<Rightarrow> 'v ShardedLRUCache" where
  "sc_Release c handle =
     (let h = entry (sc_shard c ! fst handle) (snd handle); s = Shard (h_hash h)
      in c\<lparr>sc_shard := (sc_shard c)[s := lc_Release (sc_shard c ! s) (snd handle)]\<rparr>)"

definition sc_Erase :: "'v ShardedLRUCache \<Rightarrow> bytes \<Rightarrow> 'v ShardedLRUCache" where
  "sc_Erase c key =
     (let hash = HashSlice key; s = Shard hash
      in c\<lparr>sc_shard := (sc_shard c)[s := lc_Erase (sc_shard c ! s) key hash]\<rparr>)"

definition sc_Value :: "'v ShardedLRUCache \<Rightarrow> nat \<times> nat \<Rightarrow> 'v" where
  "sc_Value c handle = h_value (entry (sc_shard c ! fst handle) (snd handle))"

definition sc_NewId :: "'v ShardedLRUCache \<Rightarrow> u64 \<times> 'v ShardedLRUCache" where
  "sc_NewId c = (let c = c\<lparr>sc_last_id := sc_last_id c + 1\<rparr> in (sc_last_id c, c))"

definition sc_Prune :: "'v ShardedLRUCache \<Rightarrow> 'v ShardedLRUCache option" where
  "sc_Prune c =
     map_option (\<lambda>shards. c\<lparr>sc_shard := shards\<rparr>)
       (foldr (\<lambda>s rest. case lc_Prune s of None \<Rightarrow> None | Some s \<Rightarrow> map_option (Cons s) rest) (sc_shard c) (Some []))"

definition sc_TotalCharge :: "'v ShardedLRUCache \<Rightarrow> u64" where
  "sc_TotalCharge c = foldl (\<lambda>total s. total + lc_usage s) 0 (sc_shard c)"

end
