(* ===== verification/Lru_Table.thy ===== *)
theory Lru_Table
  imports Lru_Cache
begin

text \<open>
  The two data structures of the cache against what they stand for: the circular lists against
  sequences, the hash table against the set of entries it holds.
\<close>

section \<open>Circular lists\<close>

definition linked :: "(nat \<Rightarrow> nat) \<Rightarrow> (nat \<Rightarrow> nat) \<Rightarrow> nat \<Rightarrow> nat \<Rightarrow> bool" where
  "linked nx pv a b \<longleftrightarrow> nx a = b \<and> pv b = a"

text \<open>From the head \<open>h\<close> the links run through \<open>xs\<close> and back.\<close>

definition ring :: "(nat \<Rightarrow> nat) \<Rightarrow> (nat \<Rightarrow> nat) \<Rightarrow> nat \<Rightarrow> nat list \<Rightarrow> bool" where
  "ring nx pv h xs \<longleftrightarrow> distinct (h # xs) \<and> successively (linked nx pv) (h # xs @ [h])"

lemma successively_mono_tl:
  "successively P (h # xs) \<Longrightarrow> (\<And>a b. a \<in> set (h # xs) \<Longrightarrow> b \<in> set xs \<Longrightarrow> P a b \<Longrightarrow> Q a b) \<Longrightarrow> successively Q (h # xs)"
proof (induction xs arbitrary: h)
  case (Cons x xs)
  from Cons.prems have "P h x" "successively P (x # xs)" by simp_all
  with Cons.IH [of x] Cons.prems(2) show ?case by simp
qed simp

lemma ring_empty: "nx h = h \<Longrightarrow> pv h = h \<Longrightarrow> ring nx pv h []"
  by (simp add: ring_def linked_def)

lemma ring_next_head: "ring nx pv h xs \<Longrightarrow> nx h = hd (xs @ [h])"
  by (cases xs) (auto simp: ring_def linked_def)

lemma ring_cong:
  "ring nx pv h xs \<Longrightarrow> (\<And>a. a \<in> set (h # xs) \<Longrightarrow> nx' a = nx a \<and> pv' a = pv a) \<Longrightarrow> ring nx' pv' h xs"
  unfolding ring_def by (auto elim!: successively_mono simp: linked_def simp del: successively_Cons)

lemma ring_remove:
  assumes r: "ring nx pv h (xs @ e # ys)"
  shows "ring (nx(pv e := nx e)) (pv(nx e := pv e)) h (xs @ ys)"
    and "pv e = last (h # xs)" and "nx e = hd (ys @ [h])"
proof -
  let ?P = "linked nx pv" and ?Q = "linked (nx(pv e := nx e)) (pv(nx e := pv e))"
  let ?l = "last (h # xs)" and ?m = "hd (ys @ [h])"
  have d: "distinct (h # xs @ e # ys)" using r by (simp add: ring_def)
  have s: "successively ?P (h # xs)" "?P ?l e" "?P e ?m" "successively ?P (ys @ [h])"
    using r by (auto simp: ring_def successively_append_iff successively_Cons split: if_splits)
  then show l: "pv e = ?l" and m: "nx e = ?m" by (simp_all add: linked_def)
  have q: "?Q a b" if "?P a b" "a \<noteq> e" "b \<noteq> e" for a b
    using that s(2,3) by (auto simp: linked_def l m)
  have "successively ?Q (h # xs)" "successively ?Q (ys @ [h])"
    using s(1,4) d by (auto intro!: successively_mono [OF _ q])
  moreover have "?Q ?l ?m" by (simp add: linked_def l m)
  ultimately show "ring (nx(pv e := nx e)) (pv(nx e := pv e)) h (xs @ ys)"
    using d by (auto simp: ring_def successively_append_iff successively_Cons split: if_splits)
qed

lemma ring_append:
  assumes r: "ring nx pv h xs" and e: "e \<notin> set (h # xs)"
  shows "ring (nx(e := h, pv h := e)) (pv(e := pv h, h := e)) h (xs @ [e])" and "pv h = last (h # xs)"
proof -
  let ?P = "linked nx pv" and ?Q = "linked (nx(e := h, pv h := e)) (pv(e := pv h, h := e))"
  have d: "distinct (h # xs)" using r by (simp add: ring_def)
  have "successively ?P ((h # xs) @ [h])" using r by (simp add: ring_def)
  then have s: "successively ?P (h # xs)" "?P (last (h # xs)) h"
    unfolding successively_append_iff by simp_all
  then show l: "pv h = last (h # xs)" by (simp add: linked_def)
  have q: "?Q a b" if "?P a b" "a \<noteq> e" "b \<noteq> e" "b \<noteq> h" for a b
    using that s(2) by (auto simp: linked_def l)
  have "successively ?Q (h # xs)"
    using s(1) by (rule successively_mono_tl) (use q d e in auto)
  moreover have "?Q (last (h # xs)) e" "?Q e h" using e by (auto simp: linked_def l)
  ultimately show "ring (nx(e := h, pv h := e)) (pv(e := pv h, h := e)) h (xs @ [e])"
    using d e by (auto simp: ring_def successively_append_iff successively_Cons split: if_splits)
qed

section \<open>The hash table\<close>

definition match :: "(nat \<rightharpoonup> 'v LRUHandle) \<Rightarrow> bytes \<Rightarrow> u32 \<Rightarrow> nat \<Rightarrow> bool" where
  "match nodes key hash e \<longleftrightarrow> h_hash (the (nodes e)) = hash \<and> h_key (the (nodes e)) = key"

definition in_buckets :: "(nat \<rightharpoonup> 'v LRUHandle) \<Rightarrow> nat list list \<Rightarrow> bool" where
  "in_buckets nodes l \<longleftrightarrow> (\<exists>k. length l = 2 ^ k) \<and>
     (\<forall>i<length l. \<forall>e\<in>set (l ! i). bucket (length l) (h_hash (the (nodes e))) = i)"

definition table_ok :: "(nat \<rightharpoonup> 'v LRUHandle) \<Rightarrow> HandleTable \<Rightarrow> nat set \<Rightarrow> bool" where
  "table_ok nodes t S \<longleftrightarrow> finite S \<and> ht_length t = length (ht_list t) \<and> in_buckets nodes (ht_list t) \<and>
     mset (concat (ht_list t)) = mset_set S \<and> ht_elems t = card S \<and>
     (\<forall>e\<in>S. \<forall>e'\<in>S. match nodes (h_key (the (nodes e))) (h_hash (the (nodes e))) e' \<longrightarrow> e = e')"

lemma table_okI:
  assumes "finite S" "ht_length t = length (ht_list t)" "in_buckets nodes (ht_list t)"
    "mset (concat (ht_list t)) = mset_set S" "ht_elems t = card S"
    and "\<And>x y. x \<in> S \<Longrightarrow> y \<in> S \<Longrightarrow> match nodes (h_key (the (nodes x))) (h_hash (the (nodes x))) y \<Longrightarrow> x = y"
  shows "table_ok nodes t S"
  unfolding table_ok_def using assms by blast

lemma bucket_less: "bucket (2 ^ k) hash < 2 ^ k"
proof -
  have "(of_nat (2 ^ k) - 1 :: u32) = mask k" by (simp add: mask_eq_exp_minus_1)
  then have "bucket (2 ^ k) hash = unat (take_bit k hash)" by (simp add: bucket_def take_bit_eq_mask)
  also have "\<dots> < 2 ^ k" by (simp add: unsigned_take_bit_eq)
  finally show ?thesis .
qed

lemma mset_concat_update:
  "i < length l \<Longrightarrow> mset (concat (l[i := ys])) + mset (l ! i) = mset (concat l) + mset ys"
proof -
  assume i: "i < length l"
  have "l = take i l @ l ! i # drop (Suc i) l" using i by (rule id_take_nth_drop)
  then have "mset (concat l) = mset (concat (take i l)) + mset (l ! i) + mset (concat (drop (Suc i) l))"
    by (metis append.assoc concat.simps(2) concat_append mset_append)
  then show ?thesis using i by (simp add: upd_conv_take_nth_drop)
qed

lemma mset_swap: "A + C = B + C' \<Longrightarrow> add_mset e C' = add_mset h C \<Longrightarrow> add_mset e A = add_mset h B"
  by (metis add_right_cancel union_mset_add_mset_left union_mset_add_mset_right)

lemma set_of_mset: "mset xs = mset_set S \<Longrightarrow> finite S \<Longrightarrow> set xs = S"
  by (metis finite_set_mset_mset_set set_mset_mset)

lemma table_ok_cong:
  assumes "table_ok nodes t S" "\<And>e. e \<in> S \<Longrightarrow> h_hash (the (nodes' e)) = h_hash (the (nodes e)) \<and> h_key (the (nodes' e)) = h_key (the (nodes e))"
  shows "table_ok nodes' t S"
proof -
  have "set (concat (ht_list t)) = S" by (rule set_of_mset) (use assms(1) in \<open>simp_all add: table_ok_def\<close>)
  then have "e \<in> S" if "i < length (ht_list t)" "e \<in> set (ht_list t ! i)" for i e
    using that nth_mem [OF that(1)] by auto
  then have "in_buckets nodes' (ht_list t)"
    using assms by (simp add: table_ok_def in_buckets_def)
  then show ?thesis using assms by (auto simp: table_ok_def match_def)
qed


lemma table_set: "table_ok nodes t S \<Longrightarrow> set (concat (ht_list t)) = S"
  by (rule set_of_mset) (simp_all add: table_ok_def)

lemma table_distinct: "table_ok nodes t S \<Longrightarrow> distinct (concat (ht_list t))"
proof -
  assume t: "table_ok nodes t S"
  then have "finite S" by (simp add: table_ok_def)
  then obtain ys where ys: "set ys = S" "distinct ys" using finite_distinct_list by blast
  from mset_set_set [OF ys(2)] have "mset_set S = mset ys" by (simp only: ys(1))
  then have "mset (concat (ht_list t)) = mset ys" using t by (simp add: table_ok_def)
  from mset_eq_imp_distinct_iff [OF this] ys show ?thesis by simp
qed

lemma chain_in:
  assumes "table_ok nodes t S" "i < length (ht_list t)"
  shows "set (ht_list t ! i) \<subseteq> S" and "distinct (ht_list t ! i)"
proof -
  show "set (ht_list t ! i) \<subseteq> S" using table_set [OF assms(1)] nth_mem [OF assms(2)] by auto
  show "distinct (ht_list t ! i)" using table_distinct [OF assms(1)] nth_mem [OF assms(2)] by (auto simp: distinct_concat_iff)
qed

text \<open>What \<open>FindPointer\<close> finds.\<close>

lemma FindPointer_spec:
  assumes t: "table_ok nodes t S"
  obtains i j where "FindPointer nodes t key hash = (i, j)" "i < length (ht_list t)" "j \<le> length (ht_list t ! i)"
    and "\<And>e. e \<in> S \<Longrightarrow> match nodes key hash e \<Longrightarrow> e \<in> set (ht_list t ! i)"
    and "j < length (ht_list t ! i) \<Longrightarrow> match nodes key hash (ht_list t ! i ! j)"
    and "j = length (ht_list t ! i) \<Longrightarrow> \<forall>e\<in>S. \<not> match nodes key hash e"
    and "bucket (ht_length t) hash = i"
proof -
  let ?i = "bucket (ht_length t) hash"
  let ?P = "\<lambda>e. h_hash (the (nodes e)) \<noteq> hash \<or> key \<noteq> h_key (the (nodes e))"
  let ?chain = "ht_list t ! ?i"
  let ?j = "length (takeWhile ?P ?chain)"
  have b: "ht_length t = length (ht_list t)" "in_buckets nodes (ht_list t)" using t by (simp_all add: table_ok_def)
  then have i: "?i < length (ht_list t)" using bucket_less by (auto simp: in_buckets_def)
  have inc: "e \<in> set ?chain" if "e \<in> S" "match nodes key hash e" for e
  proof -
    have "e \<in> set (concat (ht_list t))" using that(1) by (simp only: table_set [OF t])
    then obtain chain where "chain \<in> set (ht_list t)" "e \<in> set chain" by auto
    then obtain m where m: "m < length (ht_list t)" "e \<in> set (ht_list t ! m)" by (metis in_set_conv_nth)
    then have "bucket (length (ht_list t)) (h_hash (the (nodes e))) = m" using b(2) by (simp add: in_buckets_def)
    then show ?thesis using m(2) that(2) b(1) by (simp add: match_def)
  qed
  have "match nodes key hash (?chain ! ?j)" if "?j < length ?chain"
    using nth_length_takeWhile [OF that] by (simp add: match_def)
  moreover have "\<forall>e\<in>S. \<not> match nodes key hash e" if "?j = length ?chain"
  proof -
    have "takeWhile ?P ?chain = take ?j ?chain" by (rule takeWhile_eq_take)
    also have "\<dots> = ?chain" using that by simp
    finally have "takeWhile ?P ?chain = ?chain" .
    then have "\<forall>e\<in>set ?chain. ?P e" by (simp add: takeWhile_eq_all_conv)
    then show ?thesis using inc by (auto simp: match_def)
  qed
  ultimately show ?thesis
  proof (rule that [of ?i ?j, rotated 4])
    show "FindPointer nodes t key hash = (?i, ?j)" by (simp add: FindPointer_def Let_def)
    show "?j \<le> length ?chain" by (rule length_takeWhile_le)
  qed (use i inc in blast)+
qed

lemma ht_Lookup_spec:
  assumes t: "table_ok nodes t S"
  shows "ht_Lookup nodes t key hash = Some e \<longleftrightarrow> e \<in> S \<and> match nodes key hash e"
    and "ht_Lookup nodes t key hash = None \<longleftrightarrow> (\<forall>e\<in>S. \<not> match nodes key hash e)"
proof -
  obtain i j where f: "FindPointer nodes t key hash = (i, j)" "i < length (ht_list t)" "j \<le> length (ht_list t ! i)"
    "\<And>e. e \<in> S \<Longrightarrow> match nodes key hash e \<Longrightarrow> e \<in> set (ht_list t ! i)"
    "j < length (ht_list t ! i) \<Longrightarrow> match nodes key hash (ht_list t ! i ! j)"
    "j = length (ht_list t ! i) \<Longrightarrow> \<forall>e\<in>S. \<not> match nodes key hash e" by (rule FindPointer_spec [OF t]) blast
  have uniq: "e = e'" if "e \<in> S" "e' \<in> S" "match nodes key hash e" "match nodes key hash e'" for e e'
    using t that by (auto simp: table_ok_def match_def)
  have m: "ht_list t ! i ! j \<in> S" if "j < length (ht_list t ! i)"
    using chain_in(1) [OF t f(2)] nth_mem [OF that] by blast
  show "ht_Lookup nodes t key hash = Some e \<longleftrightarrow> e \<in> S \<and> match nodes key hash e"
    using f(3,5,6) m uniq by (auto simp: ht_Lookup_def f(1) slot_def Let_def)
  show "ht_Lookup nodes t key hash = None \<longleftrightarrow> (\<forall>e\<in>S. \<not> match nodes key hash e)"
    using f(3,5,6) m by (auto simp: ht_Lookup_def f(1) slot_def Let_def)
qed

section \<open>Growing\<close>

lemma resize_length_power: "\<exists>k. resize_length n (2 ^ m) = 2 ^ k"
proof (induction n "2 ^ m :: nat" arbitrary: m rule: resize_length.induct)
  case (1 n)
  show ?case
  proof (cases "2 ^ m < n")
    case True
    then show ?thesis using 1 [of "Suc m"] by (simp add: resize_length.simps [of n "2 ^ m"])
  next
    case False
    then show ?thesis by (auto simp: resize_length.simps [of n "2 ^ m"])
  qed
qed

lemma rehash_all:
  "in_buckets nodes l \<Longrightarrow> length l = len \<Longrightarrow>
    in_buckets nodes (foldl (rehash nodes len) l es) \<and> length (foldl (rehash nodes len) l es) = len \<and> mset (concat (foldl (rehash nodes len) l es)) = mset (concat l) + mset es"
proof (induction es arbitrary: l)
  case (Cons e es)
  let ?i = "bucket len (h_hash (the (nodes e)))"
  have i: "?i < length l" using Cons.prems bucket_less by (auto simp: in_buckets_def)
  have b: "in_buckets nodes (rehash nodes len l e)"
    using Cons.prems i by (auto simp: in_buckets_def rehash_def Let_def nth_list_update)
  have "mset (concat (rehash nodes len l e)) + mset (l ! ?i) = mset (concat l) + mset (e # l ! ?i)"
    unfolding rehash_def Let_def by (rule mset_concat_update [OF i])
  then have m: "mset (concat (rehash nodes len l e)) = add_mset e (mset (concat l))" by simp
  have len: "length (rehash nodes len l e) = len" using Cons.prems(2) by (simp add: rehash_def Let_def)
  from Cons.IH [OF b len] show ?case by (simp add: m)
qed simp

lemma Resize_ok: "table_ok nodes t S \<Longrightarrow> table_ok nodes (Resize nodes t) S"
proof -
  assume t: "table_ok nodes t S"
  let ?n = "resize_length (ht_elems t) 4"
  obtain k where k: "?n = 2 ^ k" using resize_length_power [of "ht_elems t" 2] by auto
  have "concat (replicate ?n []) = []" by (simp add: concat_eq_Nil_conv)
  moreover have "in_buckets nodes (replicate ?n [])" by (auto simp: in_buckets_def k)
  ultimately show ?thesis
    using t rehash_all [of nodes "replicate ?n []" ?n "concat (ht_list t)"]
    by (simp add: table_ok_def Resize_def Let_def)
qed

section \<open>Inserting and removing\<close>

lemma in_buckets_update:
  "in_buckets nodes l \<Longrightarrow> (\<And>e. e \<in> set chain \<Longrightarrow> bucket (length l) (h_hash (the (nodes e))) = i) \<Longrightarrow> in_buckets nodes (l[i := chain])"
  unfolding in_buckets_def by (metis length_list_update nth_list_update_eq nth_list_update_neq)

lemma ht_Remove_ok:
  assumes t: "table_ok nodes t S"
  shows "fst (ht_Remove nodes t key hash) = ht_Lookup nodes t key hash"
    and "table_ok nodes (snd (ht_Remove nodes t key hash)) (S - set_option (ht_Lookup nodes t key hash))"
proof -
  obtain i j where f: "FindPointer nodes t key hash = (i, j)" "i < length (ht_list t)" "j \<le> length (ht_list t ! i)"
    by (rule FindPointer_spec [OF t])
  show "fst (ht_Remove nodes t key hash) = ht_Lookup nodes t key hash"
    by (simp add: ht_Remove_def ht_Lookup_def f(1) Let_def split: option.split)
  show "table_ok nodes (snd (ht_Remove nodes t key hash)) (S - set_option (ht_Lookup nodes t key hash))"
  proof (cases "ht_Lookup nodes t key hash")
    case None
    then show ?thesis using t by (simp add: ht_Remove_def ht_Lookup_def f(1))
  next
    case (Some e)
    let ?chain = "ht_list t ! i"
    have j: "j < length ?chain" "e = ?chain ! j"
      using Some by (auto simp: ht_Lookup_def f(1) slot_def Let_def split: if_splits)
    let ?new = "take j ?chain @ drop (j + 1) ?chain"
    have ch: "?chain = take j ?chain @ e # drop (Suc j) ?chain" using j by (simp add: id_take_nth_drop)
    then have "mset ?chain = mset (take j ?chain @ e # drop (Suc j) ?chain)" by (rule arg_cong)
    then have "mset ?chain = add_mset e (mset ?new)" by simp
    then have m: "add_mset e (mset (concat ((ht_list t)[i := ?new]))) = mset (concat (ht_list t))"
      using mset_concat_update [OF f(2), of ?new] by simp
    have eS: "e \<in> S" using ht_Lookup_spec(1) [OF t] Some by blast
    then have "mset (concat ((ht_list t)[i := ?new])) = mset_set (S - {e})"
      using m t by (metis add_mset_remove_trivial mset_set_Diff empty_subsetI insert_subset mset_set.insert mset_set_empty_iff
          table_ok_def mset_set.remove)
    moreover have "in_buckets nodes ((ht_list t)[i := ?new])"
      using t f(2) by (intro in_buckets_update) (auto simp: table_ok_def in_buckets_def dest!: in_set_takeD in_set_dropD)
    ultimately show ?thesis
      using t eS Some j by (auto simp: ht_Remove_def f(1) slot_def Let_def table_ok_def)
  qed
qed

lemma ht_Insert_ok:
  assumes t: "table_ok nodes t S" and h: "h \<notin> S"
  defines "old \<equiv> ht_Lookup nodes t (h_key (the (nodes h))) (h_hash (the (nodes h)))"
  shows "fst (ht_Insert nodes t h) = old"
    and "table_ok nodes (snd (ht_Insert nodes t h)) (insert h (S - set_option old))"
proof -
  let ?k = "h_key (the (nodes h))" and ?x = "h_hash (the (nodes h))"
  obtain i j where f: "FindPointer nodes t ?k ?x = (i, j)" "i < length (ht_list t)" "j \<le> length (ht_list t ! i)"
    "bucket (ht_length t) ?x = i" by (rule FindPointer_spec [OF t])
  let ?chain = "ht_list t ! i"
  have s: "slot t (i, j) = old" by (simp add: old_def ht_Lookup_def f(1))
  show "fst (ht_Insert nodes t h) = old" by (simp add: ht_Insert_def f(1) s Let_def split: option.split)
  have len: "ht_length t = length (ht_list t)" and fin: "finite S" using t by (simp_all add: table_ok_def)
  have others: "\<forall>e\<in>S - set_option old. \<not> match nodes ?k ?x e"
    using ht_Lookup_spec(1) [OF t, of ?k ?x] by (auto simp: old_def)
  have uniq: "\<forall>e\<in>insert h (S - set_option old). \<forall>e'\<in>insert h (S - set_option old).
      match nodes (h_key (the (nodes e))) (h_hash (the (nodes e))) e' \<longrightarrow> e = e'"
    using others t by (auto simp: table_ok_def match_def)
  show "table_ok nodes (snd (ht_Insert nodes t h)) (insert h (S - set_option old))"
  proof (cases old)
    case (Some e)
    have j: "j < length ?chain" "e = ?chain ! j"
      using Some s by (auto simp: slot_def Let_def split: if_splits)
    have eS: "e \<in> S" using ht_Lookup_spec(1) [OF t] Some by (auto simp: old_def)
    have "mset (concat ((ht_list t)[i := ?chain[j := h]])) + mset ?chain = mset (concat (ht_list t)) + mset (?chain[j := h])"
      by (rule mset_concat_update [OF f(2)])
    moreover have "add_mset e (mset (?chain[j := h])) = add_mset h (mset ?chain)"
      using j by (simp add: mset_update)
    ultimately have "add_mset e (mset (concat ((ht_list t)[i := ?chain[j := h]]))) = add_mset h (mset (concat (ht_list t)))"
      by (rule mset_swap)
    also have "\<dots> = add_mset e (add_mset h (mset_set (S - {e})))"
      using t eS fin by (simp add: table_ok_def mset_set.remove)
    finally have m: "mset (concat ((ht_list t)[i := ?chain[j := h]])) = mset_set (insert h (S - {e}))"
      using h fin by simp
    have "in_buckets nodes ((ht_list t)[i := ?chain[j := h]])"
      using t f(2,4) len by (intro in_buckets_update)
        (auto simp: table_ok_def in_buckets_def dest!: set_update_subset_insert [THEN subsetD])
    moreover have c: "card (insert h (S - {e})) = card S"
    proof -
      have "0 < card S" using eS fin by (auto simp: card_gt_0_iff)
      then show ?thesis using h eS fin by simp
    qed
    have "table_ok nodes (t\<lparr>ht_list := (ht_list t)[i := ?chain[j := h]]\<rparr>) (insert h (S - {e}))"
    proof (rule table_okI)
      show "x = y" if "x \<in> insert h (S - {e})" "y \<in> insert h (S - {e})"
        "match nodes (h_key (the (nodes x))) (h_hash (the (nodes x))) y" for x y
        using uniq that unfolding Some option.set by blast
    qed (use t m c fin calculation in \<open>simp_all add: table_ok_def\<close>)
    then show ?thesis by (simp add: ht_Insert_def f(1) s Let_def Some)
  next
    case None
    have "mset (concat ((ht_list t)[i := ?chain @ [h]])) = add_mset h (mset_set S)"
      using mset_concat_update [OF f(2), of "?chain @ [h]"] t by (simp add: table_ok_def)
    moreover have "in_buckets nodes ((ht_list t)[i := ?chain @ [h]])"
      using t f(2,4) len by (intro in_buckets_update) (auto simp: table_ok_def in_buckets_def)
    ultimately have "table_ok nodes (t\<lparr>ht_list := (ht_list t)[i := ?chain @ [h]], ht_elems := ht_elems t + 1\<rparr>) (insert h S)"
      using t h fin uniq None by (simp add: table_ok_def)
    from this Resize_ok [OF this] show ?thesis using None s by (simp add: ht_Insert_def f(1) Let_def)
  qed
qed

lemma table_ok_new: "table_ok nodes HandleTable_new {}"
proof -
  have "table_ok (Map.empty :: nat \<rightharpoonup> unit LRUHandle) HandleTable_new {}"
  proof -
    have "resize_length 0 4 = 4" by (simp add: resize_length.simps)
    moreover have "in_buckets (Map.empty :: nat \<rightharpoonup> unit LRUHandle) (replicate 4 [])"
      by (auto simp: in_buckets_def intro: exI [of _ 2])
    moreover have "concat (replicate 4 []) = ([] :: nat list)" by (simp add: concat_eq_Nil_conv)
    ultimately show ?thesis by (simp add: HandleTable_new_def Resize_def Let_def table_ok_def)
  qed
  then show ?thesis by (rule table_ok_cong) simp
qed

end
