(* ===== verification/Lru_Invariant.thy ===== *)
theory Lru_Invariant
  imports Lru_Table
begin

text \<open>
  The invariant of the cache, kept by every operation: the two circular lists and the hash table
  hold exactly the cached entries, split by whether a client holds them; reference counts are
  exact; the usage is the sum of the charges; and each entry that is gone was given to its
  deleter once. The multiset \<open>held\<close> is what clients hold, one for each handle.
\<close>

section \<open>The lists\<close>

definition rings :: "'v LRUCache \<Rightarrow> nat list \<Rightarrow> nat list \<Rightarrow> bool" where
  "rings c L U \<longleftrightarrow> ring (lc_next c) (lc_prev c) lru_head L \<and> ring (lc_next c) (lc_prev c) in_use_head U \<and>
     set L \<inter> set U = {} \<and> (\<forall>e\<in>set L \<union> set U. 2 \<le> e)"

lemma rings_heads:
  assumes "rings c L U"
  shows "lru_head \<notin> set L \<union> set U" "in_use_head \<notin> set L \<union> set U" "lru_head \<noteq> in_use_head"
proof -
  have two: "2 \<le> e" if "e \<in> set L \<union> set U" for e using assms that by (simp add: rings_def)
  from two [of 0] two [of 1]
  show "lru_head \<notin> set L \<union> set U" "in_use_head \<notin> set L \<union> set U" "lru_head \<noteq> in_use_head"
    by (auto simp: lru_head_def in_use_head_def)
qed

lemma LRU_frame [simp]:
  "lc_nodes (LRU_Remove c e) = lc_nodes c" "lc_table (LRU_Remove c e) = lc_table c"
  "lc_usage (LRU_Remove c e) = lc_usage c" "lc_capacity (LRU_Remove c e) = lc_capacity c"
  "lc_fresh (LRU_Remove c e) = lc_fresh c" "lc_deleted (LRU_Remove c e) = lc_deleted c"
  "lc_nodes (LRU_Append c l e) = lc_nodes c" "lc_table (LRU_Append c l e) = lc_table c"
  "lc_usage (LRU_Append c l e) = lc_usage c" "lc_capacity (LRU_Append c l e) = lc_capacity c"
  "lc_fresh (LRU_Append c l e) = lc_fresh c" "lc_deleted (LRU_Append c l e) = lc_deleted c"
  by (simp_all add: LRU_Remove_def LRU_Append_def Let_def)

lemma ring_remove1:
  assumes "ring nx pv h xs" "e \<in> set xs"
  shows "ring (nx(pv e := nx e)) (pv(nx e := pv e)) h (remove1 e xs)"
    and "pv e \<in> set (h # xs) - {e}" and "nx e \<in> set (h # xs) - {e}"
proof -
  obtain as bs where x: "xs = as @ e # bs" using assms(2) by (auto simp: in_set_conv_decomp)
  have d: "distinct (h # as @ e # bs)" using assms(1) by (simp add: ring_def x)
  note r = ring_remove [OF assms(1) [unfolded x]]
  have "remove1 e xs = as @ bs" using d by (simp add: x remove1_append)
  with r(1) show "ring (nx(pv e := nx e)) (pv(nx e := pv e)) h (remove1 e xs)" by simp
  have "last (h # as) \<in> set (h # as)" "hd (bs @ [h]) \<in> set (bs @ [h])"
    by (rule last_in_set, simp) (cases bs; simp)
  with d show "pv e \<in> set (h # xs) - {e}" "nx e \<in> set (h # xs) - {e}" unfolding r(2,3) by (auto simp: x)
qed

lemma rings_remove:
  assumes r: "rings c L U" and e: "e \<in> set L \<union> set U"
  shows "rings (LRU_Remove c e) (remove1 e L) (remove1 e U)"
proof -
  let ?nx = "lc_next c" and ?pv = "lc_prev c"
  note heads = rings_heads [OF r]
  have ne: "?nx e \<noteq> e"
    using e ring_remove1(3) [of ?nx ?pv lru_head L e] ring_remove1(3) [of ?nx ?pv in_use_head U e] r
    by (auto simp: rings_def)
  have nx: "lc_next (LRU_Remove c e) = ?nx(?pv e := ?nx e)" and pv: "lc_prev (LRU_Remove c e) = ?pv(?nx e := ?pv e)"
    using ne by (simp_all add: LRU_Remove_def Let_def)
  have d: "set (lru_head # L) \<inter> set (in_use_head # U) = {}" using r heads by (auto simp: rings_def)
  from e show ?thesis
  proof
    assume L: "e \<in> set L"
    note q = ring_remove1 [OF _ L, of ?nx ?pv lru_head]
    have "ring (lc_next (LRU_Remove c e)) (lc_prev (LRU_Remove c e)) in_use_head U"
      by (rule ring_cong [of ?nx ?pv]) (use r q(2,3) d in \<open>auto simp: rings_def nx pv\<close>)
    moreover have "e \<notin> set U" using L r by (auto simp: rings_def)
    ultimately show ?thesis
      using r q(1) set_remove1_subset [of e L] set_remove1_subset [of e U] by (simp add: rings_def nx pv remove1_idem) blast
  next
    assume U: "e \<in> set U"
    note q = ring_remove1 [OF _ U, of ?nx ?pv in_use_head]
    have "ring (lc_next (LRU_Remove c e)) (lc_prev (LRU_Remove c e)) lru_head L"
      by (rule ring_cong [of ?nx ?pv]) (use r q(2,3) d in \<open>auto simp: rings_def nx pv\<close>)
    moreover have "e \<notin> set L" using U r by (auto simp: rings_def)
    ultimately show ?thesis
      using r q(1) set_remove1_subset [of e L] set_remove1_subset [of e U] by (simp add: rings_def nx pv remove1_idem) blast
  qed
qed

lemma LRU_Append_links:
  "e \<noteq> l \<Longrightarrow> lc_next (LRU_Append c l e) = (lc_next c)(e := l, lc_prev c l := e) \<or> lc_prev c l = e"
  "e \<noteq> l \<Longrightarrow> lc_prev c l \<noteq> e \<Longrightarrow> lc_prev (LRU_Append c l e) = (lc_prev c)(e := lc_prev c l, l := e)"
  by (auto simp: LRU_Append_def Let_def)

lemma rings_append:
  assumes r: "rings c L U" and e: "e \<notin> set L \<union> set U" "2 \<le> e"
  shows "rings (LRU_Append c lru_head e) (L @ [e]) U" and "rings (LRU_Append c in_use_head e) L (U @ [e])"
proof -
  let ?nx = "lc_next c" and ?pv = "lc_prev c"
  have heads: "lru_head \<notin> set L \<union> set U" "in_use_head \<notin> set L \<union> set U" "lru_head \<noteq> in_use_head"
    "e \<noteq> lru_head" "e \<noteq> in_use_head"
    using rings_heads [OF r] e(2) by (simp_all add: lru_head_def in_use_head_def)
  have rL: "ring ?nx ?pv lru_head L" and rU: "ring ?nx ?pv in_use_head U" using r by (simp_all add: rings_def)
  have d: "set (lru_head # L) \<inter> set (in_use_head # U) = {}" using r heads by (auto simp: rings_def)
  have eL: "e \<notin> set (lru_head # L)" and eU: "e \<notin> set (in_use_head # U)" using e(1) heads by auto
  note aL = ring_append [OF rL eL] and aU = ring_append [OF rU eU]
  have pL: "?pv lru_head \<in> set (lru_head # L)" unfolding aL(2) by (rule last_in_set) simp
  have pU: "?pv in_use_head \<in> set (in_use_head # U)" unfolding aU(2) by (rule last_in_set) simp
  have neL: "?pv lru_head \<noteq> e" using pL eL by blast
  have neU: "?pv in_use_head \<noteq> e" using pU eU by blast
  have lL: "lc_next (LRU_Append c lru_head e) = ?nx(e := lru_head, ?pv lru_head := e)"
    "lc_prev (LRU_Append c lru_head e) = ?pv(e := ?pv lru_head, lru_head := e)"
    using LRU_Append_links [of e lru_head c] neL heads by blast+
  have lU: "lc_next (LRU_Append c in_use_head e) = ?nx(e := in_use_head, ?pv in_use_head := e)"
    "lc_prev (LRU_Append c in_use_head e) = ?pv(e := ?pv in_use_head, in_use_head := e)"
    using LRU_Append_links [of e in_use_head c] neU heads by blast+
  have "ring (lc_next (LRU_Append c lru_head e)) (lc_prev (LRU_Append c lru_head e)) in_use_head U"
    by (rule ring_cong [OF rU]) (use pL eU d heads in \<open>auto simp: lL\<close>)
  then show "rings (LRU_Append c lru_head e) (L @ [e]) U"
    using r e aL(1) by (simp add: rings_def lL)
  have "ring (lc_next (LRU_Append c in_use_head e)) (lc_prev (LRU_Append c in_use_head e)) lru_head L"
    by (rule ring_cong [OF rL]) (use pU eL d heads in \<open>auto simp: lU\<close>)
  then show "rings (LRU_Append c in_use_head e) L (U @ [e])"
    using r e aU(1) by (simp add: rings_def lU)
qed

lemma rings_cong: "rings c L U \<Longrightarrow> lc_next c' = lc_next c \<Longrightarrow> lc_prev c' = lc_prev c \<Longrightarrow> rings c' L U"
  by (simp add: rings_def)


section \<open>The invariant\<close>

definition cached :: "'v LRUCache \<Rightarrow> nat set" where
  "cached c = {e. \<exists>h. lc_nodes c e = Some h \<and> h_in_cache h}"

definition refs_ok :: "'v LRUCache \<Rightarrow> nat multiset \<Rightarrow> bool" where
  "refs_ok c held \<longleftrightarrow>
     (\<forall>e h. lc_nodes c e = Some h \<longrightarrow> h_refs h = count held e + of_bool (h_in_cache h) \<and> 0 < h_refs h)"

definition cache_mid :: "'v LRUCache \<Rightarrow> nat multiset \<Rightarrow> nat list \<Rightarrow> nat list \<Rightarrow> nat set \<Rightarrow> bool" where
  "cache_mid c held L U T \<longleftrightarrow>
     rings c L U \<and>
     refs_ok c held \<and>
     set_mset held \<subseteq> dom (lc_nodes c) \<and>
     set L = cached c - set_mset held \<and> set U = cached c \<inter> set_mset held \<and>
     lc_usage c = (\<Sum>e\<in>cached c. h_charge (entry c e)) \<and>
     table_ok (lc_nodes c) (lc_table c) T \<and>
     2 \<le> lc_fresh c \<and> distinct (map fst (lc_deleted c)) \<and> set (map fst (lc_deleted c)) \<inter> dom (lc_nodes c) = {} \<and>
     set (map fst (lc_deleted c)) \<union> dom (lc_nodes c) = {2..<lc_fresh c}"

definition cache_ok :: "'v LRUCache \<Rightarrow> nat multiset \<Rightarrow> nat list \<Rightarrow> nat list \<Rightarrow> bool" where
  "cache_ok c held L U \<longleftrightarrow> cache_mid c held L U (cached c)"

text \<open>Reference counts change: what the lists and the rest then are.\<close>

lemma entry_update [simp]:
  "entry (update_entry c e f) x = (if x = e then f (entry c e) else entry c x)"
  "lc_next (update_entry c e f) = lc_next c" "lc_prev (update_entry c e f) = lc_prev c"
  "lc_table (update_entry c e f) = lc_table c" "lc_usage (update_entry c e f) = lc_usage c"
  "lc_capacity (update_entry c e f) = lc_capacity c" "lc_fresh (update_entry c e f) = lc_fresh c"
  "lc_deleted (update_entry c e f) = lc_deleted c"
  by (simp_all add: entry_def update_entry_def)

lemma entry_frame [simp]: "entry (LRU_Remove c e) x = entry c x" "entry (LRU_Append c l e) x = entry c x"
  by (simp_all add: entry_def)

lemma cached_frame [simp]: "cached (LRU_Remove c e) = cached c" "cached (LRU_Append c l e) = cached c"
  by (simp_all add: cached_def)

lemma cached_dom: "cached c \<subseteq> dom (lc_nodes c)"
  by (auto simp: cached_def)

lemma cached_update:
  "e \<in> dom (lc_nodes c) \<Longrightarrow>
    cached (update_entry c e f) = (if h_in_cache (f (entry c e)) then insert e (cached c) else cached c - {e})"
  by (auto simp: cached_def update_entry_def entry_def)

lemma cached_iff: "lc_nodes c e = Some h \<Longrightarrow> e \<in> cached c \<longleftrightarrow> h_in_cache h"
  by (simp add: cached_def)

lemma in_dom: "e \<in> dom (lc_nodes c) \<Longrightarrow> lc_nodes c e = Some (entry c e)"
  by (auto simp: entry_def)

lemma sum_charge_cong:
  "A = B \<Longrightarrow> (\<And>e. e \<in> B \<Longrightarrow> h_charge (entry c e) = h_charge (entry c' e)) \<Longrightarrow>
    (\<Sum>e\<in>A. h_charge (entry c e)) = (\<Sum>e\<in>B. h_charge (entry c' e))"
  by (rule sum.cong)

lemma cached_refs:
  "lc_nodes c' = (lc_nodes c)(e \<mapsto> (entry c e)\<lparr>h_refs := n\<rparr>) \<Longrightarrow> e \<in> dom (lc_nodes c) \<Longrightarrow> cached c' = cached c"
  by (auto simp: cached_def entry_def)

text \<open>A change of the reference count of one entry, the lists adjusted to match.\<close>

lemma refs_change:
  assumes m: "cache_mid c held L U T" and e: "e \<in> dom (lc_nodes c)" and T: "T \<subseteq> dom (lc_nodes c)"
    and refs: "n = count held' e + of_bool (h_in_cache (entry c e))" "0 < n"
    and other: "\<And>x. x \<noteq> e \<Longrightarrow> count held' x = count held x"
    and c': "lc_nodes c' = (lc_nodes c)(e \<mapsto> (entry c e)\<lparr>h_refs := n\<rparr>)" "lc_table c' = lc_table c" "lc_usage c' = lc_usage c"
      "lc_fresh c' = lc_fresh c" "lc_deleted c' = lc_deleted c"
    and rings: "rings c' L' U'" "set L' = cached c - set_mset held'" "set U' = cached c \<inter> set_mset held'"
  shows "cache_mid c' held' L' U' T"
proof -
  have ca: "cached c' = cached c" by (rule cached_refs [OF c'(1) e])
  have ch: "h_charge (entry c' x) = h_charge (entry c x)" for x by (simp add: entry_def c'(1))
  have "table_ok (lc_nodes c') (lc_table c) T"
    by (rule table_ok_cong [where nodes = "lc_nodes c"]) (use m in \<open>simp_all add: cache_mid_def c'(1) entry_def\<close>)
  moreover have "dom (lc_nodes c') = dom (lc_nodes c)" using e by (auto simp: c'(1))
  moreover have "set_mset held' \<subseteq> dom (lc_nodes c)"
  proof
    fix x assume x: "x \<in># held'"
    show "x \<in> dom (lc_nodes c)"
    proof (cases "x = e")
      case False
      then have "x \<in># held" using x other [OF False] by (simp flip: count_greater_zero_iff)
      then show ?thesis using m by (auto simp: cache_mid_def)
    qed (use e in simp)
  qed
  moreover have "refs_ok c' held'"
    unfolding refs_ok_def
  proof (intro allI impI)
    fix x h assume that: "lc_nodes c' x = Some h"
    show "h_refs h = count held' x + of_bool (h_in_cache h) \<and> 0 < h_refs h"
  proof (cases "x = e")
    case True
    then show ?thesis using that refs by (auto simp: c'(1))
  next
    case False
    have "refs_ok c held" using m by (simp add: cache_mid_def)
    moreover have "lc_nodes c x = Some h" using that False by (simp add: c'(1))
    ultimately show ?thesis unfolding other [OF False] refs_ok_def by blast
  qed
  qed
  ultimately show ?thesis
    using m rings by (simp add: cache_mid_def ca c'(2-5) ch)
qed


lemma mid_entry:
  assumes "cache_mid c held L U T" "e \<in> dom (lc_nodes c)"
  shows "h_refs (entry c e) = count held e + of_bool (h_in_cache (entry c e))" "0 < h_refs (entry c e)"
    and "h_in_cache (entry c e) \<longleftrightarrow> e \<in> cached c"
proof -
  have "refs_ok c held" using assms(1) by (simp add: cache_mid_def)
  then show "h_refs (entry c e) = count held e + of_bool (h_in_cache (entry c e))" "0 < h_refs (entry c e)"
    using in_dom [OF assms(2)] unfolding refs_ok_def by blast+
  show "h_in_cache (entry c e) \<longleftrightarrow> e \<in> cached c" using in_dom [OF assms(2)] by (simp add: cached_iff)
qed

lemma mid_lists: "cache_mid c held L U T \<Longrightarrow> set L = cached c - set_mset held \<and> set U = cached c \<inter> set_mset held"
  by (simp add: cache_mid_def)

lemma mid_distinct: "cache_mid c held L U T \<Longrightarrow> distinct L \<and> distinct U"
  by (simp add: cache_mid_def rings_def ring_def)

lemma finite_cached: "cache_mid c held L U T \<Longrightarrow> finite (cached c)"
proof -
  assume m: "cache_mid c held L U T"
  have "cached c = set L \<union> set U" using mid_lists [OF m] by auto
  then show ?thesis by simp
qed

text \<open>Taking a handle of a cached entry.\<close>

lemma Ref_frame:
  "lc_nodes (Ref c e) = (lc_nodes c)(e \<mapsto> (entry c e)\<lparr>h_refs := h_refs (entry c e) + 1\<rparr>)"
  "lc_capacity (Ref c e) = lc_capacity c" "lc_usage (Ref c e) = lc_usage c" "lc_table (Ref c e) = lc_table c"
  "lc_fresh (Ref c e) = lc_fresh c" "lc_deleted (Ref c e) = lc_deleted c"
  by (simp_all add: Ref_def Let_def update_entry_def)

lemma Ref_ok:
  assumes m: "cache_mid c held L U T" and e: "e \<in> cached c" and T: "T \<subseteq> dom (lc_nodes c)"
  shows "\<exists>L' U'. cache_mid (Ref c e) (add_mset e held) L' U' T"
proof -
  have d: "e \<in> dom (lc_nodes c)" using e cached_dom by blast
  note f = mid_entry [OF m d] and s = mid_lists [OF m] and dist = mid_distinct [OF m]
  have r: "rings c L U" using m by (simp add: cache_mid_def)
  have inc: "h_in_cache (entry c e)" using f(3) e by simp
  show ?thesis
  proof (cases "e \<in># held")
    case True
    then have "h_refs (entry c e) \<noteq> 1" using f(1) inc by (simp flip: count_greater_zero_iff)
    then have R: "Ref c e = update_entry c e (\<lambda>h. h\<lparr>h_refs := h_refs h + 1\<rparr>)" by (simp add: Ref_def Let_def)
    have "cache_mid (Ref c e) (add_mset e held) L U T"
      by (rule refs_change [OF m d T, of "h_refs (entry c e) + 1"])
        (use f inc True s r in \<open>auto simp: R update_entry_def intro: rings_cong\<close>)
    then show ?thesis by blast
  next
    case False
    then have one: "h_refs (entry c e) = 1" using f(1) inc by (simp add: not_in_iff)
    have eL: "e \<in> set L" "e \<notin> set U" using s False e by auto
    let ?c = "LRU_Append (LRU_Remove c e) in_use_head e"
    have R: "Ref c e = update_entry ?c e (\<lambda>h. h\<lparr>h_refs := h_refs h + 1\<rparr>)" using one inc by (simp add: Ref_def Let_def)
    have "rings (LRU_Remove c e) (remove1 e L) (remove1 e U)" by (rule rings_remove [OF r]) (use eL in blast)
    then have r1: "rings (LRU_Remove c e) (remove1 e L) U" using eL(2) by (simp add: remove1_idem)
    have two: "2 \<le> e" using r eL(1) by (simp add: rings_def)
    have "rings ?c (remove1 e L) (U @ [e])"
      by (rule rings_append(2) [OF r1 _ two]) (use eL dist in auto)
    then have "cache_mid (Ref c e) (add_mset e held) (remove1 e L) (U @ [e]) T"
      by (intro refs_change [OF m d T, of "h_refs (entry c e) + 1"])
        (use f inc False s r eL dist e in \<open>auto simp: R update_entry_def entry_def intro: rings_cong\<close>)
    then show ?thesis by blast
  qed
qed


text \<open>Giving a handle back. The last reference frees the entry.\<close>

lemma Unref_nodes:
  assumes "h_refs (entry c e) \<noteq> 1"
  shows "lc_nodes (Unref c e) = (lc_nodes c)(e \<mapsto> (entry c e)\<lparr>h_refs := h_refs (entry c e) - 1\<rparr>) \<or> h_refs (entry c e) = 0"
    and "lc_deleted (Unref c e) = lc_deleted c \<or> h_refs (entry c e) = 0"
  using assms by (simp_all add: Unref_def Let_def update_entry_def entry_def)

lemma Unref_frame [simp]:
  "lc_table (Unref c e) = lc_table c" "lc_usage (Unref c e) = lc_usage c" "lc_capacity (Unref c e) = lc_capacity c"
  "lc_fresh (Unref c e) = lc_fresh c"
  by (simp_all add: Unref_def Let_def)

lemma Unref_free:
  assumes "h_refs (entry c e) = 1"
  shows "lc_nodes (Unref c e) = (lc_nodes c)(e := None)" "lc_next (Unref c e) = lc_next c" "lc_prev (Unref c e) = lc_prev c"
    "lc_deleted (Unref c e) = lc_deleted c @ [(e, h_key (entry c e), h_value (entry c e))]"
  using assms by (simp_all add: Unref_def Let_def) (simp add: update_entry_def)

lemma free_mid:
  assumes m: "cache_mid c (add_mset e held) L U T" and e: "e \<notin># held" "e \<notin> cached c" and T: "T \<subseteq> cached c"
  shows "cache_mid (Unref c e) held L U T"
proof -
  have d: "e \<in> dom (lc_nodes c)" using m by (simp add: cache_mid_def)
  have one: "h_refs (entry c e) = 1"
    using mid_entry [OF m d] e by (simp add: not_in_iff)
  note u = Unref_free [OF one]
  have nodes: "lc_nodes (Unref c e) x = (if x = e then None else lc_nodes c x)" for x by (simp add: u(1))
  have ca: "cached (Unref c e) = cached c" using e(2) by (auto simp: cached_def nodes)
  have en: "entry (Unref c e) x = entry c x" if "x \<noteq> e" for x using that by (simp add: entry_def nodes)
  have dom: "dom (lc_nodes (Unref c e)) = dom (lc_nodes c) - {e}" by (simp add: u(1))
  have "(\<Sum>x\<in>cached (Unref c e). h_charge (entry (Unref c e) x)) = (\<Sum>x\<in>cached c. h_charge (entry c x))"
  proof (rule sum_charge_cong [OF ca])
    fix x assume "x \<in> cached c"
    then have "x \<noteq> e" using e(2) by blast
    then show "h_charge (entry (Unref c e) x) = h_charge (entry c x)" by (simp add: en)
  qed
  moreover have "table_ok (lc_nodes (Unref c e)) (lc_table c) T"
    by (rule table_ok_cong [where nodes = "lc_nodes c"]) (use m T e(2) nodes in \<open>auto simp: cache_mid_def\<close>)
  moreover have "refs_ok (Unref c e) held" unfolding refs_ok_def
  proof (intro allI impI)
    fix x h assume "lc_nodes (Unref c e) x = Some h"
    then have x: "x \<noteq> e" "lc_nodes c x = Some h" by (simp_all add: nodes split: if_splits)
    have "refs_ok c (add_mset e held)" using m by (simp add: cache_mid_def)
    then have "h_refs h = count (add_mset e held) x + of_bool (h_in_cache h) \<and> 0 < h_refs h"
      using x(2) unfolding refs_ok_def by blast
    moreover have eq: "count (add_mset e held) x = count held x" using x(1) by simp
    ultimately show "h_refs h = count held x + of_bool (h_in_cache h) \<and> 0 < h_refs h" unfolding eq by blast
  qed
  moreover have "rings (Unref c e) L U" by (rule rings_cong [of c]) (use m u in \<open>simp_all add: cache_mid_def\<close>)
  moreover have "distinct (map fst (lc_deleted (Unref c e)))" "set (map fst (lc_deleted (Unref c e))) = insert e (set (map fst (lc_deleted c)))"
    using m d by (auto simp: cache_mid_def u(4))
  moreover have "set_mset held \<subseteq> dom (lc_nodes c) - {e}" "set L = cached c - set_mset held" "set U = cached c \<inter> set_mset held"
    using m e by (auto simp: cache_mid_def)
  ultimately show ?thesis
    using m d unfolding cache_mid_def ca dom Unref_frame
    by (intro conjI) (simp_all, blast+)
qed

lemma Unref_ok:
  assumes m: "cache_mid c (add_mset e held) L U T" and T: "T \<subseteq> cached c"
  shows "\<exists>L' U'. cache_mid (Unref c e) held L' U' T \<and> cached (Unref c e) = cached c"
proof -
  have d: "e \<in> dom (lc_nodes c)" using m by (simp add: cache_mid_def)
  note f = mid_entry [OF m d] and s = mid_lists [OF m] and dist = mid_distinct [OF m]
  have r: "rings c L U" using m by (simp add: cache_mid_def)
  have Td: "T \<subseteq> dom (lc_nodes c)" using T cached_dom by blast
  consider "e \<in># held" | "e \<notin># held" "e \<in> cached c" | "e \<notin># held" "e \<notin> cached c" by blast
  then show ?thesis
  proof cases
    case 1
    then have two: "h_refs (entry c e) \<ge> 2" "h_in_cache (entry c e) \<Longrightarrow> h_refs (entry c e) \<ge> 3"
      using f(1) by (simp_all flip: count_greater_zero_iff)
    then have R: "Unref c e = update_entry c e (\<lambda>h. h\<lparr>h_refs := h_refs h - 1\<rparr>)" by (auto simp: Unref_def Let_def)
    have "cache_mid (Unref c e) held L U T"
      by (rule refs_change [OF m d Td, of "h_refs (entry c e) - 1"])
        (use f two 1 s r in \<open>auto simp: R update_entry_def insert_absorb intro: rings_cong\<close>)
    moreover have "cached (Unref c e) = cached c"
      by (rule cached_refs [OF _ d, of _ "h_refs (entry c e) - 1"]) (simp add: R update_entry_def)
    ultimately show ?thesis by blast
  next
    case 2
    then have two: "h_refs (entry c e) = 2" "h_in_cache (entry c e)" using f by (simp_all add: not_in_iff)
    have eU: "e \<in> set U" "e \<notin> set L" using s 2 by auto
    let ?u = "update_entry c e (\<lambda>h. h\<lparr>h_refs := h_refs h - 1\<rparr>)"
    have R: "Unref c e = LRU_Append (LRU_Remove ?u e) lru_head e" using two by (simp add: Unref_def Let_def)
    have "rings ?u L U" by (rule rings_cong [OF r]) simp_all
    then have "rings (LRU_Remove ?u e) (remove1 e L) (remove1 e U)" by (rule rings_remove) (use eU in blast)
    then have r1: "rings (LRU_Remove ?u e) L (remove1 e U)" using eU(2) by (simp add: remove1_idem)
    have le: "2 \<le> e" using r eU(1) by (simp add: rings_def)
    have rr: "rings (Unref c e) (L @ [e]) (remove1 e U)"
      unfolding R by (rule rings_append(1) [OF r1 _ le]) (use eU dist in auto)
    have nodes: "lc_nodes (Unref c e) = (lc_nodes c)(e \<mapsto> (entry c e)\<lparr>h_refs := h_refs (entry c e) - 1\<rparr>)"
      by (simp add: R update_entry_def)
    have "cache_mid (Unref c e) held (L @ [e]) (remove1 e U) T"
      by (rule refs_change [OF m d Td _ _ _ nodes _ _ _ _ rr])
        (use two 2 s eU dist in \<open>auto simp: R\<close>)
    moreover have "cached (Unref c e) = cached c" by (rule cached_refs [OF nodes d])
    ultimately show ?thesis by blast
  next
    case 3
    have "cache_mid (Unref c e) held L U T" by (rule free_mid [OF m 3 T])
    moreover have "cached (Unref c e) = cached c"
    proof -
      have "h_refs (entry c e) = 1" using f 3 by (simp add: not_in_iff)
      from Unref_free(1) [OF this] show ?thesis using 3(2) by (auto simp: cached_def)
    qed
    ultimately show ?thesis by blast
  qed
qed


section \<open>Erasing\<close>

text \<open>An entry the hash table no longer holds is taken off its list and given up.\<close>

lemma take_off:
  assumes m: "cache_mid c held L U (cached c - {e})" and e: "e \<in> cached c"
  defines "c1 \<equiv> update_entry (LRU_Remove c e) e (\<lambda>h. h\<lparr>h_in_cache := False\<rparr>)"
  defines "c2 \<equiv> c1\<lparr>lc_usage := lc_usage c1 - h_charge (entry c1 e)\<rparr>"
  shows "cache_ok c2 (add_mset e held) (remove1 e L) (remove1 e U)" and "cached c2 = cached c - {e}"
proof -
  have d: "e \<in> dom (lc_nodes c)" using e cached_dom by blast
  have r: "rings c L U" using m by (simp add: cache_mid_def)
  note f = mid_entry [OF m d] and s = mid_lists [OF m] and dist = mid_distinct [OF m]
  have nodes: "lc_nodes c2 = (lc_nodes c)(e \<mapsto> (entry c e)\<lparr>h_in_cache := False\<rparr>)" by (simp add: c2_def c1_def update_entry_def)
  have en: "entry c2 x = (if x = e then (entry c e)\<lparr>h_in_cache := False\<rparr> else entry c x)" for x
    by (simp add: entry_def nodes)
  show ca: "cached c2 = cached c - {e}" by (auto simp: cached_def nodes)
  have "set L \<union> set U = cached c" using s by auto
  with e have eLU: "e \<in> set L \<union> set U" by simp
  have "rings (LRU_Remove c e) (remove1 e L) (remove1 e U)" by (rule rings_remove [OF r eLU])
  then have "rings c2 (remove1 e L) (remove1 e U)" by (rule rings_cong) (simp_all add: c2_def c1_def)
  moreover have "refs_ok c2 (add_mset e held)" unfolding refs_ok_def
  proof (intro allI impI)
    fix x h assume x: "lc_nodes c2 x = Some h"
    show "h_refs h = count (add_mset e held) x + of_bool (h_in_cache h) \<and> 0 < h_refs h"
    proof (cases "x = e")
      case True
      then show ?thesis using x f e by (auto simp: nodes)
    next
      case False
      have "refs_ok c held" using m by (simp add: cache_mid_def)
      moreover have "lc_nodes c x = Some h" using x False by (simp add: nodes)
      moreover have "count (add_mset e held) x = count held x" using False by simp
      ultimately show ?thesis unfolding refs_ok_def by metis
    qed
  qed
  moreover have "set_mset (add_mset e held) \<subseteq> dom (lc_nodes c)" using m d by (simp add: cache_mid_def)
  moreover have "set (remove1 e L) = cached c2 - set_mset (add_mset e held)" "set (remove1 e U) = cached c2 \<inter> set_mset (add_mset e held)"
    using s dist by (auto simp: ca)
  moreover have "lc_usage c2 = (\<Sum>x\<in>cached c2. h_charge (entry c2 x))"
  proof -
    have "lc_usage c2 = (\<Sum>x\<in>cached c. h_charge (entry c x)) - h_charge (entry c e)"
      using m by (simp add: c2_def c1_def cache_mid_def)
    also have "\<dots> = (\<Sum>x\<in>cached c - {e}. h_charge (entry c x))"
      using finite_cached [OF m] e by (simp add: sum.remove [of _ e])
    also have "\<dots> = (\<Sum>x\<in>cached c2. h_charge (entry c2 x))"
      by (rule sum_charge_cong [OF ca [symmetric]]) (simp add: en ca)
    finally show ?thesis .
  qed
  moreover have "table_ok (lc_nodes c2) (lc_table c2) (cached c2)"
  proof -
    have "lc_table c2 = lc_table c" by (simp add: c2_def c1_def)
    then show ?thesis unfolding ca
      using table_ok_cong [of "lc_nodes c" "lc_table c" "cached c - {e}" "lc_nodes c2"] m by (simp add: cache_mid_def nodes)
  qed
  moreover have "dom (lc_nodes c2) = dom (lc_nodes c)" using d by (auto simp: nodes)
  moreover have "lc_fresh c2 = lc_fresh c" "lc_deleted c2 = lc_deleted c" by (simp_all add: c2_def c1_def)
  ultimately show "cache_ok c2 (add_mset e held) (remove1 e L) (remove1 e U)"
    using m by (simp add: cache_ok_def cache_mid_def)
qed

lemma FinishErase_ok:
  assumes m: "cache_mid c held L U (cached c - set_option p)" and p: "\<And>e. p = Some e \<Longrightarrow> e \<in> cached c"
  shows "\<exists>L' U'. cache_ok (FinishErase c p) held L' U' \<and> cached (FinishErase c p) = cached c - set_option p"
proof (cases p)
  case None
  then show ?thesis using m by (auto simp: FinishErase_def cache_ok_def)
next
  case (Some e)
  let ?c1 = "update_entry (LRU_Remove c e) e (\<lambda>h. h\<lparr>h_in_cache := False\<rparr>)"
  let ?c2 = "?c1\<lparr>lc_usage := lc_usage ?c1 - h_charge (entry ?c1 e)\<rparr>"
  have m': "cache_mid c held L U (cached c - {e})" and e: "e \<in> cached c" using m p Some by simp_all
  note t = take_off [OF m' e]
  have "\<exists>L' U'. cache_mid (Unref ?c2 e) held L' U' (cached ?c2) \<and> cached (Unref ?c2 e) = cached ?c2"
    using t(1) unfolding cache_ok_def by (rule Unref_ok) simp
  moreover have "FinishErase c p = Unref ?c2 e" by (simp add: FinishErase_def Some Let_def)
  ultimately show ?thesis using t(2) Some by (simp add: cache_ok_def)
qed

lemma FinishErase_frame [simp]:
  "lc_table (FinishErase c p) = lc_table c" "lc_capacity (FinishErase c p) = lc_capacity c" "lc_fresh (FinishErase c p) = lc_fresh c"
  by (simp_all add: FinishErase_def Let_def split: option.split)

text \<open>What is left of an entry that stays.\<close>

lemma ok_table: "cache_ok c held L U \<Longrightarrow> table_ok (lc_nodes c) (lc_table c) (cached c)"
  by (simp add: cache_ok_def cache_mid_def)

lemma table_only [simp]:
  "rings (c\<lparr>lc_table := t\<rparr>) = rings c" "refs_ok (c\<lparr>lc_table := t\<rparr>) = refs_ok c" 
  by (intro ext, simp add: rings_def refs_ok_def)+

lemma cached_table_only [simp]: "cached (c\<lparr>lc_table := t\<rparr>) = cached c" "entry (c\<lparr>lc_table := t\<rparr>) e = entry c e"
  by (simp_all add: cached_def entry_def)

lemma mid_table_only:
  "cache_mid c held L U T \<Longrightarrow> table_ok (lc_nodes c) t T' \<Longrightarrow> cache_mid (c\<lparr>lc_table := t\<rparr>) held L U T'"
  by (simp add: cache_mid_def)

lemma lc_Erase_ok:
  assumes c: "cache_ok c held L U" and e_def: "e = ht_Lookup (lc_nodes c) (lc_table c) key hash"
  shows "\<exists>L' U'. cache_ok (lc_Erase c key hash) held L' U' \<and> cached (lc_Erase c key hash) = cached c - set_option e"
proof -
  note t = ok_table [OF c]
  obtain t' where r: "ht_Remove (lc_nodes c) (lc_table c) key hash = (e, t')"
    using ht_Remove_ok(1) [OF t, of key hash] by (cases "ht_Remove (lc_nodes c) (lc_table c) key hash") (simp add: e_def)
  have "table_ok (lc_nodes c) t' (cached c - set_option e)" using ht_Remove_ok(2) [OF t, of key hash] by (simp add: r e_def)
  then have "cache_mid (c\<lparr>lc_table := t'\<rparr>) held L U (cached (c\<lparr>lc_table := t'\<rparr>) - set_option e)"
    using c unfolding cache_ok_def by (auto simp: cached_def intro!: mid_table_only)
  moreover have "x \<in> cached (c\<lparr>lc_table := t'\<rparr>)" if "e = Some x" for x
    using that ht_Lookup_spec(1) [OF t] by (auto simp: e_def cached_def)
  ultimately have "\<exists>L' U'. cache_ok (FinishErase (c\<lparr>lc_table := t'\<rparr>) e) held L' U' \<and>
      cached (FinishErase (c\<lparr>lc_table := t'\<rparr>) e) = cached (c\<lparr>lc_table := t'\<rparr>) - set_option e"
    by (rule FinishErase_ok)
  moreover have "lc_Erase c key hash = FinishErase (c\<lparr>lc_table := t'\<rparr>) e" by (simp add: lc_Erase_def r)
  moreover have "cached (c\<lparr>lc_table := t'\<rparr>) = cached c" by (simp add: cached_def)
  ultimately show ?thesis by simp
qed


text \<open>The oldest unused entry.\<close>

lemma oldest:
  assumes c: "cache_ok c held L U"
  shows "lc_next c lru_head = lru_head \<longleftrightarrow> L = []"
    and "L \<noteq> [] \<Longrightarrow> lc_next c lru_head \<in> cached c - set_mset held"
proof -
  have r: "rings c L U" and s: "set L = cached c - set_mset held" using c by (simp_all add: cache_ok_def cache_mid_def)
  have n: "lc_next c lru_head = hd (L @ [lru_head])" by (rule ring_next_head [of _ "lc_prev c"]) (use r in \<open>simp add: rings_def\<close>)
  show "lc_next c lru_head = lru_head \<longleftrightarrow> L = []" using n rings_heads(1) [OF r] by (cases L) auto
  show "L \<noteq> [] \<Longrightarrow> lc_next c lru_head \<in> cached c - set_mset held" unfolding s [symmetric] using n by (cases L) auto
qed

lemma Lookup_self: "cache_ok c held L U \<Longrightarrow> e \<in> cached c \<Longrightarrow>
    ht_Lookup (lc_nodes c) (lc_table c) (h_key (entry c e)) (h_hash (entry c e)) = Some e"
  by (subst ht_Lookup_spec(1) [OF ok_table]) (simp_all add: match_def entry_def)

lemma drop_oldest_ok:
  assumes c: "cache_ok c held L U" and L: "L \<noteq> []"
  shows "\<exists>L' U'. cache_ok (drop_oldest c) held L' U' \<and> cached (drop_oldest c) = cached c - {lc_next c lru_head} \<and>
    lc_next c lru_head \<in> cached c - set_mset held"
proof -
  let ?e = "lc_next c lru_head"
  have e: "?e \<in> cached c - set_mset held" by (rule oldest(2) [OF c L])
  then have "Some ?e = ht_Lookup (lc_nodes c) (lc_table c) (h_key (entry c ?e)) (h_hash (entry c ?e))"
    using Lookup_self [OF c] by simp
  from lc_Erase_ok [OF c this] e show ?thesis by (simp add: drop_oldest_def Let_def)
qed

lemma capacity_frame [simp]: "lc_capacity (drop_oldest c) = lc_capacity c" "lc_fresh (drop_oldest c) = lc_fresh c"
  by (simp_all add: drop_oldest_def lc_Erase_def Let_def case_prod_unfold)

text \<open>The loops that evict end. What they drop is not held.\<close>

lemma evict_loop_ok:
  "cache_ok c held L U \<Longrightarrow>
    \<exists>c' L' U'. evict_loop c = Some c' \<and> cache_ok c' held L' U' \<and> (lc_usage c' \<le> lc_capacity c' \<or> L' = []) \<and>
      cached c \<inter> set_mset held \<subseteq> cached c' \<and> cached c' \<subseteq> cached c \<and>
      (lc_usage c \<le> lc_capacity c \<longrightarrow> c' = c) \<and> lc_capacity c' = lc_capacity c"
proof (induction "card (cached c)" arbitrary: c L U rule: less_induct)
  case less
  note c = less.prems
  show ?case
  proof (cases "lc_usage c > lc_capacity c \<and> L \<noteq> []")
    case False
    then have "evict_loop c = Some c" using oldest(1) [OF c] by (subst evict_loop.simps) auto
    moreover have "lc_usage c \<le> lc_capacity c \<or> L = []" using False by auto
    ultimately show ?thesis using c by (intro exI [of _ c] exI [of _ L] exI [of _ U]) simp
  next
    case True
    then have step: "evict_loop c = evict_loop (drop_oldest c)" using oldest(1) [OF c] by (subst evict_loop.simps) simp
    obtain L' U' where d: "cache_ok (drop_oldest c) held L' U'" "cached (drop_oldest c) = cached c - {lc_next c lru_head}"
      "lc_next c lru_head \<in> cached c - set_mset held" using drop_oldest_ok [OF c] True by blast
    have fin: "finite (cached c)" using c unfolding cache_ok_def by (rule finite_cached)
    have "card (cached (drop_oldest c)) < card (cached c)"
      using fin d(3) unfolding d(2) by (intro psubset_card_mono) auto
    from less.hyps [OF this d(1)] obtain c' L' U' where
      n: "evict_loop (drop_oldest c) = Some c'" "cache_ok c' held L' U'" "lc_usage c' \<le> lc_capacity c' \<or> L' = []"
        "cached (drop_oldest c) \<inter> set_mset held \<subseteq> cached c'" "cached c' \<subseteq> cached (drop_oldest c)"
        "lc_capacity c' = lc_capacity (drop_oldest c)" by blast
    show ?thesis
    proof (intro exI conjI)
      show "evict_loop c = Some c'" using step n(1) by simp
      show "cached c \<inter> set_mset held \<subseteq> cached c'" "cached c' \<subseteq> cached c" using n(4,5) d(2,3) by auto
      show "lc_usage c \<le> lc_capacity c \<longrightarrow> c' = c" using True by (auto simp: leD)
    qed (use n in simp_all)
  qed
qed

lemma Prune_ok:
  "cache_ok c held L U \<Longrightarrow>
    \<exists>c' U'. lc_Prune c = Some c' \<and> cache_ok c' held [] U' \<and> cached c' = cached c \<inter> set_mset held"
proof (induction "card (cached c)" arbitrary: c L U rule: less_induct)
  case less
  note c = less.prems
  show ?case
  proof (cases "L = []")
    case True
    then have "lc_Prune c = Some c" using oldest(1) [OF c] by (subst lc_Prune.simps) auto
    moreover have "cached c = cached c \<inter> set_mset held"
      using c True by (auto simp: cache_ok_def cache_mid_def)
    ultimately show ?thesis using c True by blast
  next
    case False
    then have step: "lc_Prune c = lc_Prune (drop_oldest c)" using oldest(1) [OF c] by (subst lc_Prune.simps) simp
    obtain L' U' where d: "cache_ok (drop_oldest c) held L' U'" "cached (drop_oldest c) = cached c - {lc_next c lru_head}"
      "lc_next c lru_head \<in> cached c - set_mset held" using drop_oldest_ok [OF c False] by blast
    have fin: "finite (cached c)" using c unfolding cache_ok_def by (rule finite_cached)
    have "card (cached (drop_oldest c)) < card (cached c)"
      using fin d(3) unfolding d(2) by (intro psubset_card_mono) auto
    from less.hyps [OF this d(1)] d(2,3) step show ?thesis by auto
  qed
qed

end
