(* ===== verification/Lru_Properties.thy ===== *)
theory Lru_Properties
  imports Lru_Invariant
begin

text \<open>
  What the LRU cache promises: every sequence of calls keeps the invariant, an insertion returns
  and leaves the cache within its capacity unless only held entries are left, and a lookup finds
  what was last inserted.
\<close>

section \<open>What an entry keeps\<close>

definition payload :: "'v LRUHandle \<Rightarrow> bytes \<times> u32 \<times> 'v \<times> u64" where
  "payload h = (h_key h, h_hash h, h_value h, h_charge h)"

definition stays :: "'v LRUCache \<Rightarrow> 'v LRUCache \<Rightarrow> bool" where
  "stays c c' \<longleftrightarrow> (\<forall>e h. lc_nodes c' e = Some h \<longrightarrow> (\<exists>h0. lc_nodes c e = Some h0 \<and> payload h = payload h0))"

lemma staysD:
  "stays c c' \<Longrightarrow> x \<in> dom (lc_nodes c') \<Longrightarrow> \<exists>h0. lc_nodes c x = Some h0 \<and> payload (entry c' x) = payload h0"
  using in_dom [of x c'] unfolding stays_def by blast

lemma stays_refl: "stays c c"
  by (simp add: stays_def)

lemma stays_trans: "stays a b \<Longrightarrow> stays b c \<Longrightarrow> stays a c"
  unfolding stays_def by metis

lemma stays_update: "e \<in> dom (lc_nodes c) \<Longrightarrow> payload (f (entry c e)) = payload (entry c e) \<Longrightarrow> stays c (update_entry c e f)"
  by (auto simp: stays_def update_entry_def entry_def)

lemma stays_nodes: "lc_nodes c' = lc_nodes c \<Longrightarrow> stays c c'"
  by (simp add: stays_def)

lemma stays_Unref: "e \<in> dom (lc_nodes c) \<Longrightarrow> stays c (Unref c e)"
  by (auto simp: stays_def Unref_def Let_def update_entry_def entry_def payload_def split: if_splits)

lemma stays_FinishErase:
  assumes "\<And>e. p = Some e \<Longrightarrow> e \<in> dom (lc_nodes c)"
  shows "stays c (FinishErase c p)"
proof (cases p)
  case (Some e)
  let ?c = "update_entry (LRU_Remove c e) e (\<lambda>h. h\<lparr>h_in_cache := False\<rparr>)"
  let ?d = "?c\<lparr>lc_usage := lc_usage ?c - h_charge (entry ?c e)\<rparr>"
  have e: "e \<in> dom (lc_nodes c)" using assms Some by simp
  have "stays c ?c" using e by (auto simp: stays_def update_entry_def entry_def payload_def)
  moreover have "stays ?c ?d" by (rule stays_nodes) simp
  moreover have "stays ?d (Unref ?d e)" by (rule stays_Unref) (simp add: update_entry_def)
  ultimately have "stays c (Unref ?d e)" by (blast intro: stays_trans)
  then show ?thesis by (simp add: FinishErase_def Some Let_def)
qed (simp add: FinishErase_def stays_refl)

lemma stays_Erase:
  assumes "cache_ok c held L U"
  shows "stays c (lc_Erase c key hash)"
proof -
  note t = ok_table [OF assms]
  obtain p t' where r: "ht_Remove (lc_nodes c) (lc_table c) key hash = (p, t')" by (rule prod.exhaust)
  have "e \<in> dom (lc_nodes c)" if "p = Some e" for e
  proof -
    have "ht_Lookup (lc_nodes c) (lc_table c) key hash = Some e" using ht_Remove_ok(1) [OF t, of key hash] r that by simp
    then show ?thesis using ht_Lookup_spec(1) [OF t] cached_dom by blast
  qed
  then have "stays (c\<lparr>lc_table := t'\<rparr>) (FinishErase (c\<lparr>lc_table := t'\<rparr>) p)" by (intro stays_FinishErase) simp
  then show ?thesis by (simp add: lc_Erase_def r stays_def)
qed

lemma stays_evict_loop:
  assumes "evict_loop c = Some c'" "cache_ok c held L U"
  shows "stays c c'"
proof -
  have "\<forall>L U. cache_ok c held L U \<longrightarrow> stays c c'"
  proof (rule evict_loop.raw_induct [OF _ assms(1), where P = "\<lambda>c c'. \<forall>L U. cache_ok c held L U \<longrightarrow> stays c c'"])
    fix loop :: "'a LRUCache \<Rightarrow> 'a LRUCache option" and c c'
    assume 1: "\<And>c c'. loop c = Some c' \<Longrightarrow> \<forall>L U. cache_ok c held L U \<longrightarrow> stays c c'"
      "(if lc_usage c > lc_capacity c \<and> lc_next c lru_head \<noteq> lru_head then loop (drop_oldest c) else Some c) = Some c'"
    show "\<forall>L U. cache_ok c held L U \<longrightarrow> stays c c'"
    proof (intro allI impI)
      fix L U assume c: "cache_ok c held L U"
      show "stays c c'"
      proof (cases "lc_usage c > lc_capacity c \<and> lc_next c lru_head \<noteq> lru_head")
        case True
        then obtain L' U' where "cache_ok (drop_oldest c) held L' U'" using drop_oldest_ok [OF c] oldest(1) [OF c] by blast
        then have "stays (drop_oldest c) c'" using 1 True by simp blast
        moreover have "stays c (drop_oldest c)" unfolding drop_oldest_def Let_def by (rule stays_Erase [OF c])
        ultimately show ?thesis by (rule stays_trans [rotated])
      qed (use 1(2) in \<open>auto simp: stays_refl\<close>)
    qed
  qed
  then show ?thesis using assms(2) by blast
qed

section \<open>Inserting\<close>

definition new_handle :: "bytes \<Rightarrow> u32 \<Rightarrow> 'v \<Rightarrow> u64 \<Rightarrow> bool \<Rightarrow> 'v LRUHandle" where
  "new_handle key hash val charge b =
     \<lparr>h_value = val, h_charge = charge, h_key = key, h_in_cache = b, h_refs = 1 + of_bool b, h_hash = hash\<rparr>"

text \<open>A fresh entry, cached (and linked) or not, not yet in the hash table.\<close>

lemma fresh_ok:
  assumes c: "cache_ok c held L U" and e: "e = lc_fresh c"
    and c': "lc_nodes c' = (lc_nodes c)(e \<mapsto> new_handle key hash val charge b)" "lc_table c' = lc_table c"
      "lc_usage c' = lc_usage c + (if b then charge else 0)" "lc_fresh c' = e + 1" "lc_deleted c' = lc_deleted c"
      "rings c' L (if b then U @ [e] else U)"
  shows "cache_mid c' (add_mset e held) L (if b then U @ [e] else U) (cached c)"
    and "cached c' = (if b then insert e (cached c) else cached c)" and "e \<notin> dom (lc_nodes c)"
proof -
  have m: "cache_mid c held L U (cached c)" using c by (simp add: cache_ok_def)
  have dom: "set (map fst (lc_deleted c)) \<union> dom (lc_nodes c) = {2..<e}" and two: "2 \<le> e"
    using m unfolding e by (simp_all add: cache_mid_def)
  from dom have "e \<notin> set (map fst (lc_deleted c)) \<union> dom (lc_nodes c)" by simp
  then have new: "e \<notin> dom (lc_nodes c)" "e \<notin> set (map fst (lc_deleted c))" by simp_all
  show "e \<notin> dom (lc_nodes c)" by (rule new)
  then have nc: "e \<notin> cached c" using cached_dom by blast
  have nh: "e \<notin># held" using m new by (auto simp: cache_mid_def)
  show ca: "cached c' = (if b then insert e (cached c) else cached c)"
    using new by (auto simp: cached_def c'(1) new_handle_def)
  have en: "entry c' x = (if x = e then new_handle key hash val charge b else entry c x)" for x
    by (simp add: entry_def c'(1))
  have "refs_ok c' (add_mset e held)" unfolding refs_ok_def
  proof (intro allI impI)
    fix x h assume x: "lc_nodes c' x = Some h"
    show "h_refs h = count (add_mset e held) x + of_bool (h_in_cache h) \<and> 0 < h_refs h"
    proof (cases "x = e")
      case True
      then show ?thesis using x nh by (auto simp: c'(1) new_handle_def not_in_iff)
    next
      case False
      have "refs_ok c held" using m by (simp add: cache_mid_def)
      moreover have "lc_nodes c x = Some h" using x False by (simp add: c'(1))
      moreover have eq: "count (add_mset e held) x = count held x" using False by simp
      ultimately show ?thesis unfolding eq refs_ok_def by blast
    qed
  qed
  moreover have "lc_usage c' = (\<Sum>x\<in>cached c'. h_charge (entry c' x))"
  proof -
    have "(\<Sum>x\<in>cached c. h_charge (entry c' x)) = lc_usage c"
    proof (subst sum_charge_cong [OF HOL.refl, of "cached c" c' c])
      show "h_charge (entry c' x) = h_charge (entry c x)" if "x \<in> cached c" for x using that nc by (auto simp: en)
    qed (use m in \<open>simp add: cache_mid_def\<close>)
    then show ?thesis using nc finite_cached [OF m] by (simp add: ca c'(3) en new_handle_def)
  qed
  moreover have "table_ok (lc_nodes c') (lc_table c') (cached c)"
    unfolding c'(2) by (rule table_ok_cong [OF ok_table [OF c]]) (use nc in \<open>auto simp: c'(1)\<close>)
  moreover have "set L = cached c' - set_mset (add_mset e held)" "set (if b then U @ [e] else U) = cached c' \<inter> set_mset (add_mset e held)"
    using mid_lists [OF m] nc nh by (auto simp: ca)
  moreover have "set_mset (add_mset e held) \<subseteq> dom (lc_nodes c')" using m by (auto simp: cache_mid_def c'(1))
  moreover have "distinct (map fst (lc_deleted c'))" "set (map fst (lc_deleted c')) \<inter> dom (lc_nodes c') = {}"
    using m new by (auto simp: cache_mid_def c'(1,5))
  moreover have "set (map fst (lc_deleted c')) \<union> dom (lc_nodes c') = {2..<lc_fresh c'}"
  proof -
    have "set (map fst (lc_deleted c')) \<union> dom (lc_nodes c') = insert e {2..<e}" using dom by (auto simp: c'(1,5))
    also have "\<dots> = {2..<lc_fresh c'}" using two by (auto simp: c'(4))
    finally show ?thesis .
  qed
  ultimately show "cache_mid c' (add_mset e held) L (if b then U @ [e] else U) (cached c)"
    using c'(6) two unfolding cache_mid_def c'(4) by (intro conjI) simp_all
qed


lemma lc_Insert_ok:
  assumes c: "cache_ok c held L U"
  defines "e \<equiv> lc_fresh c"
  obtains c' L' U' where "lc_Insert c key hash val charge = Some (e, c')" "cache_ok c' (add_mset e held) L' U'"
    "lc_usage c' \<le> lc_capacity c' \<or> L' = []" "lc_capacity c' = lc_capacity c"
    "e \<in> cached c' \<longleftrightarrow> 0 < lc_capacity c" "cached c' \<subseteq> insert e (cached c)" "e \<notin> dom (lc_nodes c)"
    "payload (entry c' e) = (key, hash, val, charge)"
    "\<And>x. x \<noteq> e \<Longrightarrow> x \<in> dom (lc_nodes c') \<Longrightarrow> x \<in> dom (lc_nodes c) \<and> payload (entry c' x) = payload (entry c x)"
proof -
  note result = that
  have r: "rings c L U" using c by (simp add: cache_ok_def cache_mid_def)
  have loop: thesis
    if c1: "cache_ok c1 (add_mset e held) L1 U1" and cap: "lc_capacity c1 = lc_capacity c"
      and ins: "lc_Insert c key hash val charge = map_option (Pair e) (evict_loop c1)"
      and inc: "e \<in> cached c1 \<longleftrightarrow> 0 < lc_capacity c" "cached c1 \<subseteq> insert e (cached c)" and new: "e \<notin> dom (lc_nodes c)"
      and st: "stays (c\<lparr>lc_nodes := (lc_nodes c)(e \<mapsto> new_handle key hash val charge b)\<rparr>) c1" for c1 L1 U1 b
  proof -
    obtain c' L' U' where l: "evict_loop c1 = Some c'" "cache_ok c' (add_mset e held) L' U'"
      "lc_usage c' \<le> lc_capacity c' \<or> L' = []" "cached c1 \<inter> set_mset (add_mset e held) \<subseteq> cached c'" "cached c' \<subseteq> cached c1"
      "lc_capacity c' = lc_capacity c1" using evict_loop_ok [OF c1] by blast
    have st': "stays (c\<lparr>lc_nodes := (lc_nodes c)(e \<mapsto> new_handle key hash val charge b)\<rparr>) c'"
      by (rule stays_trans [OF st stays_evict_loop [OF l(1) c1]])
    have s: "\<exists>h0. ((lc_nodes c)(e \<mapsto> new_handle key hash val charge b)) x = Some h0 \<and> payload (entry c' x) = payload h0"
      if "x \<in> dom (lc_nodes c')" for x using staysD [OF st' that] by simp
    have e': "e \<in> dom (lc_nodes c')" using l(2) by (simp add: cache_ok_def cache_mid_def)
    show thesis
    proof (rule result)
      show "lc_Insert c key hash val charge = Some (e, c')" using ins l(1) by simp
      show "e \<in> cached c' \<longleftrightarrow> 0 < lc_capacity c" using l(4,5) inc by auto
      show "cached c' \<subseteq> insert e (cached c)" using l(5) inc by blast
      show "payload (entry c' e) = (key, hash, val, charge)" using s [OF e'] by (simp add: payload_def new_handle_def)
      show "x \<in> dom (lc_nodes c) \<and> payload (entry c' x) = payload (entry c x)" if "x \<noteq> e" "x \<in> dom (lc_nodes c')" for x
        using s [OF that(2)] that(1) by (auto simp: entry_def)
    qed (use l cap new in simp_all)
  qed
  show thesis
  proof (cases "0 < lc_capacity c")
    case False
    let ?c = "c\<lparr>lc_nodes := (lc_nodes c)(e \<mapsto> new_handle key hash val charge False), lc_fresh := e + 1\<rparr>"
    have r': "rings ?c L (if False then U @ [e] else U)" using r by (simp add: rings_def)
    note f = fresh_ok [OF c, of e ?c key hash val charge False, OF _ _ _ _ _ _ r']
    show thesis
    proof (rule loop)
      show "cache_ok ?c (add_mset e held) L U" using f(1,2) by (simp add: cache_ok_def e_def)
      show "lc_Insert c key hash val charge = map_option (Pair e) (evict_loop ?c)"
        using False by (simp add: lc_Insert_def Let_def e_def new_handle_def)
      show "e \<notin> dom (lc_nodes c)" using f(3) by (simp add: e_def)
      then show "e \<in> cached ?c \<longleftrightarrow> 0 < lc_capacity c" "cached ?c \<subseteq> insert e (cached c)"
        using f(2) False cached_dom by (auto simp: e_def)
    qed (simp_all add: stays_def)
  next
    case True
    let ?n = "new_handle key hash val charge True"
    let ?fresh = "c\<lparr>lc_nodes := (lc_nodes c)(e \<mapsto> new_handle key hash val charge False), lc_fresh := e + 1\<rparr>"
    let ?linked = "LRU_Append (update_entry ?fresh e (\<lambda>h. h\<lparr>h_refs := h_refs h + 1, h_in_cache := True\<rparr>)) in_use_head e"
    let ?c = "?linked\<lparr>lc_usage := lc_usage ?linked + charge\<rparr>"
    have nodes: "lc_nodes ?c = (lc_nodes c)(e \<mapsto> ?n)" by (simp add: update_entry_def entry_def new_handle_def)
    have m: "cache_mid c held L U (cached c)" using c by (simp add: cache_ok_def)
    have two: "2 \<le> e" using m unfolding e_def by (simp add: cache_mid_def)
    have "e \<notin> dom (lc_nodes c)" using m by (auto simp: cache_mid_def e_def)
    moreover have "set L \<union> set U = cached c" using mid_lists [OF m] by auto
    ultimately have eLU: "e \<notin> set L \<union> set U" using cached_dom by blast
    have "rings (update_entry ?fresh e (\<lambda>h. h\<lparr>h_refs := h_refs h + 1, h_in_cache := True\<rparr>)) L U"
      using r by (simp add: rings_def)
    from rings_append(2) [OF this eLU two] have "rings ?linked L (U @ [e])" .
    then have "rings ?c L (if True then U @ [e] else U)" by (simp add: rings_def)
    note f = fresh_ok [OF c _ nodes _ _ _ _ this]
    have f': "cache_mid ?c (add_mset e held) L (U @ [e]) (cached c)" "cached ?c = insert e (cached c)" "e \<notin> dom (lc_nodes c)"
      using f by (simp_all add: e_def)
    have t: "table_ok (lc_nodes ?c) (lc_table ?c) (cached c)" using f'(1) by (simp add: cache_mid_def)
    have nc: "e \<notin> cached c" using f'(3) cached_dom by blast
    obtain p t' where i: "ht_Insert (lc_nodes ?c) (lc_table ?c) e = (p, t')" by (rule prod.exhaust)
    note pl = ht_Insert_ok(1) [OF t nc, unfolded i fst_conv]
    have p2: "x \<in> cached c" if "p = Some x" for x
      using iffD1 [OF ht_Lookup_spec(1) [OF t], OF pl [symmetric, unfolded that]] by blast
    with nc have p: "p \<noteq> Some e" "\<And>x. p = Some x \<Longrightarrow> x \<in> cached c" by blast+
    have "table_ok (lc_nodes ?c) t' (insert e (cached c - set_option p))"
      using ht_Insert_ok [OF t nc] unfolding i by simp
    also have "insert e (cached c - set_option p) = cached ?c - set_option p" using f'(2) p nc by auto
    finally have "cache_mid (?c\<lparr>lc_table := t'\<rparr>) (add_mset e held) L (U @ [e]) (cached ?c - set_option p)"
      by (rule mid_table_only [OF f'(1)])
    then have "\<exists>L' U'. cache_ok (FinishErase (?c\<lparr>lc_table := t'\<rparr>) p) (add_mset e held) L' U' \<and>
        cached (FinishErase (?c\<lparr>lc_table := t'\<rparr>) p) = cached (?c\<lparr>lc_table := t'\<rparr>) - set_option p"
      by (intro FinishErase_ok) (use p f'(2) in \<open>auto simp del: LRU_frame\<close>)
    then obtain L1 U1 where fe: "cache_ok (FinishErase (?c\<lparr>lc_table := t'\<rparr>) p) (add_mset e held) L1 U1"
      "cached (FinishErase (?c\<lparr>lc_table := t'\<rparr>) p) = cached ?c - set_option p" unfolding cached_table_only by blast
    show thesis
    proof (rule loop [OF fe(1), where b = True])
      show "lc_Insert c key hash val charge = map_option (Pair e) (evict_loop (FinishErase (?c\<lparr>lc_table := t'\<rparr>) p))"
        using True i by (simp add: lc_Insert_def Let_def new_handle_def e_def)
      have "e' \<in> dom (lc_nodes (?c\<lparr>lc_table := t'\<rparr>))" if "p = Some e'" for e'
        using p(2) [OF that] cached_dom nodes by auto
      then have "stays (?c\<lparr>lc_table := t'\<rparr>) (FinishErase (?c\<lparr>lc_table := t'\<rparr>) p)" by (rule stays_FinishErase)
      moreover have "stays (c\<lparr>lc_nodes := (lc_nodes c)(e \<mapsto> ?n)\<rparr>) (?c\<lparr>lc_table := t'\<rparr>)"
        by (rule stays_nodes) (use nodes in simp)
      ultimately show "stays (c\<lparr>lc_nodes := (lc_nodes c)(e \<mapsto> ?n)\<rparr>) (FinishErase (?c\<lparr>lc_table := t'\<rparr>) p)"
        by (rule stays_trans [rotated])
    qed (use fe(2) f' p True in auto)
  qed
qed


section \<open>Every sequence of calls\<close>

text \<open>The caches that calls of the client lead to, with the handles it holds.\<close>

inductive lru_reach :: "'v LRUCache \<Rightarrow> nat multiset \<Rightarrow> bool" where
  Created: "lru_reach (LRUCache_new capacity) {#}"
| Inserted: "lru_reach c held \<Longrightarrow> lc_Insert c key hash val charge = Some (e, c') \<Longrightarrow> lru_reach c' (add_mset e held)"
| Looked_up: "lru_reach c held \<Longrightarrow> lc_Lookup c key hash = (Some e, c') \<Longrightarrow> lru_reach c' (add_mset e held)"
| Missed: "lru_reach c held \<Longrightarrow> lc_Lookup c key hash = (None, c') \<Longrightarrow> lru_reach c' held"
| Released: "lru_reach c held \<Longrightarrow> e \<in># held \<Longrightarrow> lru_reach (lc_Release c e) (held - {#e#})"
| Erased: "lru_reach c held \<Longrightarrow> lru_reach (lc_Erase c key hash) held"
| Pruned: "lru_reach c held \<Longrightarrow> lc_Prune c = Some c' \<Longrightarrow> lru_reach c' held"

lemma cache_ok_new: "cache_ok (LRUCache_new capacity) {#} [] []"
  by (simp add: cache_ok_def cache_mid_def LRUCache_new_def rings_def refs_ok_def cached_def ring_empty table_ok_new)

lemma Lookup_ok:
  assumes c: "cache_ok c held L U" and l: "lc_Lookup c key hash = (Some e, c')"
  shows "\<exists>L U. cache_ok c' (add_mset e held) L U"
proof -
  have e: "ht_Lookup (lc_nodes c) (lc_table c) key hash = Some e" "c' = Ref c e"
    using l by (auto simp: lc_Lookup_def Let_def split: option.splits)
  then have ec: "e \<in> cached c" using ht_Lookup_spec(1) [OF ok_table [OF c]] by blast
  have m: "cache_mid c held L U (cached c)" using c by (simp add: cache_ok_def)
  have "e \<in> dom (lc_nodes c)" using ec cached_dom by blast
  with Ref_frame(1) have "cached (Ref c e) = cached c" by (rule cached_refs)
  then show ?thesis using Ref_ok [OF m ec cached_dom] by (simp add: e(2) cache_ok_def)
qed

lemma Release_ok:
  assumes c: "cache_ok c held L U" and e: "e \<in># held"
  shows "\<exists>L U. cache_ok (lc_Release c e) (held - {#e#}) L U"
proof -
  have "cache_mid c (add_mset e (held - {#e#})) L U (cached c)" using c e by (simp add: cache_ok_def)
  from Unref_ok [OF this] show ?thesis by (auto simp: lc_Release_def cache_ok_def)
qed

lemma reach_ok: "lru_reach c held \<Longrightarrow> \<exists>L U. cache_ok c held L U"
proof (induction rule: lru_reach.induct)
  case (Created capacity)
  show ?case using cache_ok_new by blast
next
  case (Inserted c held key hash val charge e c')
  then obtain L U where c: "cache_ok c held L U" by blast
  show ?case by (rule lc_Insert_ok [OF c, of key hash val charge]) (use Inserted.hyps(2) in auto)
next
  case (Looked_up c held key hash e c')
  then show ?case using Lookup_ok by blast
next
  case (Missed c held key hash c')
  then show ?case by (auto simp: lc_Lookup_def Let_def split: option.splits)
next
  case (Released c held e)
  then show ?case using Release_ok by blast
next
  case (Erased c held key hash)
  then show ?case using lc_Erase_ok [OF _ HOL.refl] by blast
next
  case (Pruned c held c')
  then obtain L U where c: "cache_ok c held L U" by blast
  from Prune_ok [OF c] Pruned.hyps(2) show ?case by auto
qed

lemma Lookup_iff:
  assumes "cache_ok c held L U"
  shows "fst (lc_Lookup c key hash) = Some e \<longleftrightarrow> e \<in> cached c \<and> h_hash (entry c e) = hash \<and> h_key (entry c e) = key"
  using ht_Lookup_spec(1) [OF ok_table [OF assms]] by (simp add: lc_Lookup_def Let_def match_def entry_def)

text \<open>The same calls, each with room left in the 32-bit counters: fewer entries than \<^verbatim>\<open>elems_\<close> and the doubling of
  \<^verbatim>\<open>length_\<close> can count, and fewer handles held than \<^verbatim>\<open>refs\<close> can.\<close>

definition counters_fit :: "'v LRUCache \<Rightarrow> nat multiset \<Rightarrow> bool" where
  "counters_fit c held \<longleftrightarrow> card (dom (lc_nodes c)) + 1 < 2 ^ 31 \<and> size held + 2 < 2 ^ 32"

inductive lru_within :: "'v LRUCache \<Rightarrow> nat multiset \<Rightarrow> bool" where
  "lru_within (LRUCache_new capacity) {#}"
| "lru_within c held \<Longrightarrow> counters_fit c held \<Longrightarrow> lc_Insert c key hash val charge = Some (e, c') \<Longrightarrow> lru_within c' (add_mset e held)"
| "lru_within c held \<Longrightarrow> counters_fit c held \<Longrightarrow> lc_Lookup c key hash = (Some e, c') \<Longrightarrow> lru_within c' (add_mset e held)"
| "lru_within c held \<Longrightarrow> lc_Lookup c key hash = (None, c') \<Longrightarrow> lru_within c' held"
| "lru_within c held \<Longrightarrow> e \<in># held \<Longrightarrow> lru_within (lc_Release c e) (held - {#e#})"
| "lru_within c held \<Longrightarrow> lru_within (lc_Erase c key hash) held"
| "lru_within c held \<Longrightarrow> lc_Prune c = Some c' \<Longrightarrow> lru_within c' held"

lemma within_reach: "lru_within c held \<Longrightarrow> lru_reach c held"
  by (induction rule: lru_within.induct) (auto intro: lru_reach.intros)

text \<open>The numbers of entries and of handles after each call.\<close>

lemma reach_cards:
  assumes "lru_reach c held"
  shows "finite (dom (lc_nodes c))" "ht_elems (lc_table c) = card (cached c)"
proof -
  obtain L U where "cache_ok c held L U" using reach_ok [OF assms] by blast
  then have m: "cache_mid c held L U (cached c)" by (simp add: cache_ok_def)
  have "dom (lc_nodes c) \<subseteq> {2..<lc_fresh c}" using m by (auto simp: cache_mid_def)
  then show "finite (dom (lc_nodes c))" by (rule finite_subset) simp
  have "table_ok (lc_nodes c) (lc_table c) (cached c)" using m by (simp add: cache_mid_def)
  then show "ht_elems (lc_table c) = card (cached c)" by (simp add: table_ok_def)
qed

lemma stays_Prune:
  assumes "lc_Prune c = Some c'" "cache_ok c held L U"
  shows "stays c c'"
proof -
  have "\<forall>L U. cache_ok c held L U \<longrightarrow> stays c c'"
  proof (rule lc_Prune.raw_induct [OF _ assms(1), where P = "\<lambda>c c'. \<forall>L U. cache_ok c held L U \<longrightarrow> stays c c'"])
    fix loop :: "'a LRUCache \<Rightarrow> 'a LRUCache option" and c c'
    assume 1: "\<And>c c'. loop c = Some c' \<Longrightarrow> \<forall>L U. cache_ok c held L U \<longrightarrow> stays c c'"
      "(if lc_next c lru_head \<noteq> lru_head then loop (drop_oldest c) else Some c) = Some c'"
    show "\<forall>L U. cache_ok c held L U \<longrightarrow> stays c c'"
    proof (intro allI impI)
      fix L U assume c: "cache_ok c held L U"
      show "stays c c'"
      proof (cases "lc_next c lru_head \<noteq> lru_head")
        case True
        then obtain L' U' where "cache_ok (drop_oldest c) held L' U'" using drop_oldest_ok [OF c] oldest(1) [OF c] by blast
        then have "stays (drop_oldest c) c'" using 1 True by simp blast
        moreover have "stays c (drop_oldest c)" unfolding drop_oldest_def Let_def by (rule stays_Erase [OF c])
        ultimately show ?thesis by (rule stays_trans [rotated])
      qed (use 1(2) in \<open>auto simp: stays_refl\<close>)
    qed
  qed
  then show ?thesis using assms(2) by blast
qed

lemma stays_card: "stays c c' \<Longrightarrow> finite (dom (lc_nodes c)) \<Longrightarrow> card (dom (lc_nodes c')) \<le> card (dom (lc_nodes c))"
  by (rule card_mono) (auto simp: stays_def)

lemma within_bounds:
  "lru_within c held \<Longrightarrow> card (dom (lc_nodes c)) < 2 ^ 31 \<and> size held + 1 < 2 ^ 32"
proof (induction rule: lru_within.induct)
  case (1 capacity)
  show ?case by (simp add: LRUCache_new_def)
next
  case (2 c held key hash val charge e c')
  obtain L U where c: "cache_ok c held L U" using reach_ok [OF within_reach [OF 2(1)]] by blast
  have "dom (lc_nodes c') \<subseteq> insert e (dom (lc_nodes c))"
    by (rule lc_Insert_ok [OF c, of key hash val charge]) (use 2(3) in auto)
  moreover have "finite (dom (lc_nodes c))" by (rule reach_cards [OF within_reach [OF 2(1)]])
  ultimately have "card (dom (lc_nodes c')) \<le> Suc (card (dom (lc_nodes c)))"
    using card_mono [of "insert e (dom (lc_nodes c))" "dom (lc_nodes c')"] card_insert_if [of "dom (lc_nodes c)" e] by (simp split: if_splits)
  then show ?case using 2(2) by (simp add: counters_fit_def)
next
  case (3 c held key hash e c')
  obtain L U where "cache_ok c held L U" using reach_ok [OF within_reach [OF 3(1)]] by blast
  moreover have e: "ht_Lookup (lc_nodes c) (lc_table c) key hash = Some e" "c' = Ref c e"
    using 3(3) by (auto simp: lc_Lookup_def Let_def split: option.splits)
  ultimately have "e \<in> dom (lc_nodes c)" using ht_Lookup_spec(1) [OF ok_table] cached_dom by blast
  then have "dom (lc_nodes c') = dom (lc_nodes c)" by (auto simp: e(2) Ref_frame)
  then show ?case using 3(2) by (simp add: counters_fit_def)
next
  case (4 c held key hash c')
  then show ?case by (auto simp: lc_Lookup_def Let_def split: option.splits)
next
  case (5 c held e)
  note r = within_reach [OF 5(1)]
  obtain L U where "cache_ok c held L U" using reach_ok [OF r] by blast
  then have "e \<in> dom (lc_nodes c)" using 5(2) by (auto simp: cache_ok_def cache_mid_def)
  moreover have "size held - 1 \<le> size held" by simp
  ultimately show ?case using stays_card [OF stays_Unref reach_cards(1) [OF r]] 5
    by (fastforce simp: lc_Release_def size_Diff_singleton intro: le_less_trans)
next
  case (6 c held key hash)
  note r = within_reach [OF 6(1)]
  obtain L U where "cache_ok c held L U" using reach_ok [OF r] by blast
  from stays_card [OF stays_Erase [OF this] reach_cards(1) [OF r]] 6 show ?case by (auto intro: le_less_trans)
next
  case (7 c held c')
  note r = within_reach [OF 7(1)]
  obtain L U where "cache_ok c held L U" using reach_ok [OF r] by blast
  from stays_card [OF stays_Prune [OF 7(2) this] reach_cards(1) [OF r]] 7 show ?case by (auto intro: le_less_trans)
qed

text \<open>C14. In every cache that calls can lead to, its 32-bit counters never full, each handle a client holds is of a
  live entry; an entry's reference count is the number of handles to it, plus one while the cache holds it, is
  never 0, and fits its counter, as the number of entries of the hash table does; the usage is the sum of the charges of
  the cached entries in \<^verbatim>\<open>size_t\<close> arithmetic, the exact sum if that is below 2 to the 64; the entries given to the
  deleter were given once and are exactly those allocated and no longer live.\<close>

theorem lru_counts:
  assumes "lru_within c held"
  shows "(\<forall>e. lc_nodes c e = None \<longrightarrow> e \<notin># held) \<and>
    (\<forall>e h. lc_nodes c e = Some h \<longrightarrow> h_refs h = count held e + of_bool (h_in_cache h) \<and> 0 < h_refs h \<and> h_refs h < 2 ^ 32) \<and>
    ht_elems (lc_table c) = card (cached c) \<and> ht_elems (lc_table c) < 2 ^ 31 \<and>
    lc_usage c = (\<Sum>e\<in>cached c. h_charge (entry c e)) \<and>
    ((\<Sum>e\<in>cached c. unat (h_charge (entry c e))) < 2 ^ 64 \<longrightarrow> unat (lc_usage c) = (\<Sum>e\<in>cached c. unat (h_charge (entry c e)))) \<and>
    distinct (map fst (lc_deleted c)) \<and> set (map fst (lc_deleted c)) = {2..<lc_fresh c} - dom (lc_nodes c)"
proof -
  note r = within_reach [OF assms] and b = within_bounds [OF assms]
  obtain L U where "cache_ok c held L U" using reach_ok [OF r] by blast
  then have m: "cache_mid c held L U (cached c)" by (simp add: cache_ok_def)
  have "refs_ok c held" using m by (simp add: cache_mid_def)
  then have "h_refs h = count held e + of_bool (h_in_cache h) \<and> 0 < h_refs h" if "lc_nodes c e = Some h" for e h
    using that unfolding refs_ok_def by blast
  moreover have "count held e + of_bool (h_in_cache h) < 2 ^ 32" for e and h :: "'a LRUHandle"
    using b count_le_size [of held e] by (cases "h_in_cache h") simp_all
  ultimately have refs: "h_refs h = count held e + of_bool (h_in_cache h) \<and> 0 < h_refs h \<and> h_refs h < 2 ^ 32" if "lc_nodes c e = Some h" for e h
    using that by metis
  have u: "lc_usage c = (\<Sum>e\<in>cached c. h_charge (entry c e))" using m by (simp add: cache_mid_def)
  define total where "total = (\<Sum>e\<in>cached c. unat (h_charge (entry c e)))"
  have "lc_usage c = of_nat total" by (simp add: u total_def)
  then have "total < 2 ^ 64 \<longrightarrow> unat (lc_usage c) = total" by (simp add: unat_of_nat_lt)
  note exact = this [unfolded total_def]
  have el: "ht_elems (lc_table c) = card (cached c)" by (rule reach_cards [OF r])
  also have "\<dots> \<le> card (dom (lc_nodes c))" by (rule card_mono [OF reach_cards(1) [OF r] cached_dom])
  finally have "ht_elems (lc_table c) < 2 ^ 31" using b by simp
  moreover have "set (map fst (lc_deleted c)) = {2..<lc_fresh c} - dom (lc_nodes c)" using m unfolding cache_mid_def by blast
  moreover have "e \<notin># held" if "lc_nodes c e = None" for e using m that by (auto simp: cache_mid_def)
  moreover have "distinct (map fst (lc_deleted c))" using m unfolding cache_mid_def by blast
  ultimately show ?thesis using refs u exact el by blast
qed

lemma lc_Insert_ends:
  assumes "lru_reach c held"
  shows "\<exists>e c'. lc_Insert c key hash val charge = Some (e, c') \<and> lru_reach c' (add_mset e held) \<and>
    (lc_usage c' \<le> lc_capacity c' \<or> cached c' \<subseteq> set_mset (add_mset e held)) \<and> lc_capacity c' = lc_capacity c"
proof -
  obtain L U where c: "cache_ok c held L U" using reach_ok [OF assms] by blast
  show ?thesis
  proof (rule lc_Insert_ok [OF c, of key hash val charge])
    fix c' L' U'
    assume i: "lc_Insert c key hash val charge = Some (lc_fresh c, c')" "cache_ok c' (add_mset (lc_fresh c) held) L' U'"
      "lc_usage c' \<le> lc_capacity c' \<or> L' = []" "lc_capacity c' = lc_capacity c"
    have "cached c' \<subseteq> set_mset (add_mset (lc_fresh c) held)" if "L' = []"
      using i(2) that by (auto simp: cache_ok_def cache_mid_def)
    with i lru_reach.Inserted [OF assms i(1)] show ?thesis by blast
  qed
qed


lemma Insert_finds:
  assumes "lru_reach c held" "0 < lc_capacity c" "lc_Insert c key hash val charge = Some (e, c')"
  shows "fst (lc_Lookup c' key hash) = Some e \<and> h_value (entry c' e) = val \<and>
    (\<forall>key' hash' x. (key', hash') \<noteq> (key, hash) \<and> fst (lc_Lookup c' key' hash') = Some x \<longrightarrow>
      fst (lc_Lookup c key' hash') = Some x \<and> h_value (entry c' x) = h_value (entry c x))"
proof -
  obtain L U where c: "cache_ok c held L U" using reach_ok [OF assms(1)] by blast
  show ?thesis
  proof (rule lc_Insert_ok [OF c, of key hash val charge])
    fix c2 L' U'
    assume i: "lc_Insert c key hash val charge = Some (lc_fresh c, c2)" "cache_ok c2 (add_mset (lc_fresh c) held) L' U'"
      "lc_fresh c \<in> cached c2 \<longleftrightarrow> 0 < lc_capacity c" "cached c2 \<subseteq> insert (lc_fresh c) (cached c)"
      "payload (entry c2 (lc_fresh c)) = (key, hash, val, charge)"
      "\<And>x. x \<noteq> lc_fresh c \<Longrightarrow> x \<in> dom (lc_nodes c2) \<Longrightarrow> x \<in> dom (lc_nodes c) \<and> payload (entry c2 x) = payload (entry c x)"
    have e: "e = lc_fresh c" "c' = c2" using i(1) assms(3) by simp_all
    note look = Lookup_iff [OF i(2) [folded e]] and look0 = Lookup_iff [OF c]
    have new: "h_key (entry c' e) = key" "h_hash (entry c' e) = hash" "h_value (entry c' e) = val"
      using i(5) by (simp_all add: e payload_def)
    have "fst (lc_Lookup c key' hash') = Some x \<and> h_value (entry c' x) = h_value (entry c x)"
      if "(key', hash') \<noteq> (key, hash)" "fst (lc_Lookup c' key' hash') = Some x" for key' hash' x
    proof -
      have x: "x \<in> cached c'" "h_hash (entry c' x) = hash'" "h_key (entry c' x) = key'" using that(2) look by blast+
      then have "x \<noteq> e" using that(1) new by auto
      moreover have "x \<in> dom (lc_nodes c')" using x(1) cached_dom by blast
      ultimately have "payload (entry c' x) = payload (entry c x)" using i(6) [of x] by (simp add: e)
      moreover have "x \<in> cached c" using x(1) i(4) \<open>x \<noteq> e\<close> by (auto simp: e)
      ultimately show ?thesis using x look0 by (simp add: payload_def)
    qed
    then show ?thesis using look i(3) assms(2) new by (auto simp: e)
  qed
qed

text \<open>C16. A lookup finds what was last inserted under its key and hash, with its value; what a lookup
  of another key finds after an insertion, it found before, with the same value.
\<close>

theorem Insert_Lookup:
  assumes "lru_reach c held" "0 < lc_capacity c" "lc_Insert c key hash val charge = Some (e, c')"
  shows "fst (lc_Lookup c' key hash) = Some e \<and> h_value (entry c' e) = val \<and>
    (\<forall>key' hash' x. (key', hash') \<noteq> (key, hash) \<and> fst (lc_Lookup c' key' hash') = Some x \<longrightarrow>
      fst (lc_Lookup c key' hash') = Some x \<and> h_value (entry c' x) = h_value (entry c x))"
  using assms by (rule Insert_finds)


text \<open>A first insertion, for the witnesses.\<close>

lemma first_insert:
  assumes "0 < cap"
  shows "\<exists>c'. lc_Insert (LRUCache_new cap) key hash val charge = Some (2, c') \<and> lru_reach c' {#2#} \<and> cached c' = {2} \<and>
    payload (entry c' 2) = (key, hash, val, charge)"
proof (rule lc_Insert_ok [OF cache_ok_new [of cap], of key hash val charge])
  fix c' L' U'
  have f: "lc_fresh (LRUCache_new cap) = 2" "lc_capacity (LRUCache_new cap) = cap" "cached (LRUCache_new cap) = {}"
    by (simp_all add: LRUCache_new_def cached_def)
  assume i: "lc_Insert (LRUCache_new cap) key hash val charge = Some (lc_fresh (LRUCache_new cap), c')"
    "lc_fresh (LRUCache_new cap) \<in> cached c' \<longleftrightarrow> 0 < lc_capacity (LRUCache_new cap)"
    "cached c' \<subseteq> insert (lc_fresh (LRUCache_new cap)) (cached (LRUCache_new cap))"
    "payload (entry c' (lc_fresh (LRUCache_new cap))) = (key, hash, val, charge)"
  have "lru_reach c' {#2#}" using lru_reach.Inserted [OF lru_reach.Created i(1)] by (simp add: f)
  then show ?thesis using i assms by (auto simp: f)
qed

theorem lru_counts_witness:
  "\<exists>c'. lc_Insert (LRUCache_new 8) [1] 7 True 3 = Some (2, c') \<and> unat (lc_usage c') = 3 \<and> h_refs (entry c' 2) = 2"
proof -
  obtain c' where c: "lc_Insert (LRUCache_new 8) [1] 7 True 3 = Some (2, c')" "lru_reach c' {#2#}" "cached c' = {2}"
    "payload (entry c' 2) = ([1], 7, True, 3)" using first_insert [of 8 "[1]" 7 True 3] by auto
  obtain h where h: "lc_nodes c' 2 = Some h" "h_in_cache h" using c(3) by (auto simp: cached_def)
  have "counters_fit (LRUCache_new 8 :: bool LRUCache) {#}" by (simp add: counters_fit_def LRUCache_new_def)
  from lru_within.intros(2) [OF lru_within.intros(1) this c(1)] have "lru_within c' {#2#}" by simp
  from lru_counts [OF this] c h show ?thesis by (auto simp: payload_def entry_def)
qed


theorem Insert_Lookup_witness:
  "\<exists>e c'. lc_Insert (LRUCache_new 8) [1] 7 True 3 = Some (e, c') \<and> fst (lc_Lookup c' [1] 7) = Some e \<and>
    fst (lc_Lookup c' [2] 7) = None"
proof -
  obtain c' where c: "lc_Insert (LRUCache_new 8) [1] 7 True 3 = Some (2, c')" using first_insert [of 8 "[1]" 7 True 3] by auto
  have cap: "0 < lc_capacity (LRUCache_new 8 :: bool LRUCache)" by (simp add: LRUCache_new_def)
  note l = Insert_Lookup [OF lru_reach.Created [of 8] cap c]
  have "fst (lc_Lookup (LRUCache_new 8 :: bool LRUCache) [2] 7) = None"
    using ht_Lookup_spec(2) [OF table_ok_new, of Map.empty "[2]" 7] by (simp add: lc_Lookup_def LRUCache_new_def Let_def)
  then have "fst (lc_Lookup c' [2] 7) \<noteq> Some x" for x using l by auto
  then have "fst (lc_Lookup c' [2] 7) = None" by auto
  with c l show ?thesis by blast
qed


section \<open>The sharded cache\<close>

text \<open>Sixteen caches that calls lead to, each able to hold something.\<close>

definition sharded_ok :: "'v ShardedLRUCache \<Rightarrow> bool" where
  "sharded_ok c \<longleftrightarrow> length (sc_shard c) = kNumShards \<and>
     (\<forall>s\<in>set (sc_shard c). 0 < lc_capacity s \<and> (\<exists>held. lru_reach s held))"

lemma Shard_less: "Shard hash < kNumShards"
proof -
  have u: "unat hash < 2 ^ 32" using unsigned_less [of hash] by simp
  then have "unat hash div 2 ^ 28 < 16" by (simp add: div_less_iff_less_mult)
  moreover have "Shard hash = drop_bit 28 (unat hash)"
    by (simp only: Shard_def kNumShardBits_def unsigned_drop_bit_eq) (simp add: take_bit_nat_eq_self [OF u])
  ultimately show ?thesis by (simp add: kNumShards_def kNumShardBits_def drop_bit_eq_div push_bit_eq_mult)
qed

text \<open>A capacity within 15 of 2 to the 64 wraps around and leaves shards of capacity 0.\<close>

lemma sharded_ok_new:
  assumes "0 < capacity" "unat capacity + 15 < 2 ^ 64"
  shows "sharded_ok (ShardedLRUCache_new capacity)"
proof -
  let ?shard = "(capacity + 15) div 16"
  have "unat (capacity + 15) = unat capacity + 15" using assms(2) by (simp add: unat_word_ariths)
  then have "unat ?shard = (unat capacity + 15) div 16" by (simp add: unat_div)
  moreover have "0 < unat capacity" using assms(1) by (simp add: word_less_nat_alt)
  ultimately have "0 < ?shard" by (simp add: word_less_nat_alt)
  then show ?thesis
    by (auto simp: sharded_ok_def ShardedLRUCache_new_def Let_def LRUCache_new_def kNumShards_def kNumShardBits_def push_bit_eq_mult
        intro: lru_reach.Created [unfolded LRUCache_new_def])
qed

text \<open>Inserting into the sharded cache returns a handle; a lookup of the key then finds that
  handle and the value inserted, and releasing the handle reaches the shard it lives in.
\<close>

theorem sc_Insert_Lookup:
  assumes "sharded_ok c"
  shows "\<exists>h c'. sc_Insert c key val charge = Some (h, c') \<and> sharded_ok c' \<and> fst (sc_Lookup c' key) = Some h \<and>
    sc_Value c' h = val \<and> Shard (h_hash (entry (sc_shard c' ! fst h) (snd h))) = fst h"
proof -
  let ?hash = "HashSlice key" let ?s = "Shard ?hash"
  have len: "?s < length (sc_shard c)" using assms Shard_less by (simp add: sharded_ok_def)
  then have "sc_shard c ! ?s \<in> set (sc_shard c)" by simp
  then obtain held where r: "lru_reach (sc_shard c ! ?s) held" "0 < lc_capacity (sc_shard c ! ?s)"
    using assms unfolding sharded_ok_def by blast
  obtain e d where i: "lc_Insert (sc_shard c ! ?s) key ?hash val charge = Some (e, d)" "lru_reach d (add_mset e held)"
    "lc_capacity d = lc_capacity (sc_shard c ! ?s)" using lc_Insert_ends [OF r(1)] by blast
  have l: "fst (lc_Lookup d key ?hash) = Some e" "h_value (entry d e) = val"
    using Insert_finds [OF r i(1)] by simp_all
  let ?c = "c\<lparr>sc_shard := (sc_shard c)[?s := d]\<rparr>"
  obtain L U where d: "cache_ok d (add_mset e held) L U" using reach_ok [OF i(2)] by blast
  have "h_hash (entry d e) = ?hash" using l(1) Lookup_iff [OF d] by blast
  moreover have "sharded_ok ?c" unfolding sharded_ok_def
  proof (intro conjI ballI)
    show "length (sc_shard ?c) = kNumShards" using assms by (simp add: sharded_ok_def)
    fix x assume "x \<in> set (sc_shard ?c)"
    then have "x = d \<or> x \<in> set (sc_shard c)" using set_update_subset_insert [of "sc_shard c" ?s d] by auto
    then show "0 < lc_capacity x" "\<exists>held. lru_reach x held" using i(2,3) r(2) assms unfolding sharded_ok_def by auto
  qed
  moreover have "sc_Insert c key val charge = Some ((?s, e), ?c)" by (simp add: sc_Insert_def Let_def i(1))
  moreover have "fst (sc_Lookup ?c key) = Some (?s, e)"
    using l(1) len by (simp add: sc_Lookup_def Let_def case_prod_unfold)
  ultimately show ?thesis using l(2) len by (intro exI [of _ "(?s, e)"] exI [of _ ?c]) (simp add: sc_Value_def)
qed

theorem sc_Insert_Lookup_witness:
  "\<exists>h c'. sc_Insert (ShardedLRUCache_new 100) [1] True 3 = Some (h, c') \<and> fst (sc_Lookup c' [1]) = Some h \<and> sc_Value c' h"
  using sc_Insert_Lookup [OF sharded_ok_new [of 100], of "[1]" True 3] by auto

end
