(* ===== verification/Arena.thy ===== *)
theory Arena
  imports Prelude
begin

text \<open>
  \<^verbatim>\<open>util/arena.cc\<close>: the bump allocator under the memtable. An address is a natural number; sizes are
  \<^verbatim>\<open>size_t\<close>, whose sums wrap at 2 to the 64. The allocator behind \<^verbatim>\<open>new char[]\<close> is a function of the blocks handed out so far and the size asked
  for. The lemmas at the end say what a client may rely on: the regions it was given lie inside
  blocks of the arena, do not overlap, and are aligned when it asked for that.
\<close>

type_synonym region = "nat \<times> nat"
type_synonym new_char = "region list \<Rightarrow> nat \<Rightarrow> nat"

section \<open>The code\<close>

record Arena =
  alloc_ptr :: nat
  alloc_bytes_remaining :: nat
  blocks :: "region list"
  memory_usage :: nat

definition Arena_new :: Arena where
  "Arena_new = \<lparr>alloc_ptr = 0, alloc_bytes_remaining = 0, blocks = [], memory_usage = 0\<rparr>"

definition arena_kBlockSize :: nat where "arena_kBlockSize = 4096"

definition AllocateNewBlock :: "new_char \<Rightarrow> Arena \<Rightarrow> nat \<Rightarrow> nat \<times> Arena" where
  "AllocateNewBlock new a block_bytes =
     (let r = new (blocks a) block_bytes
      in (r, a\<lparr>blocks := blocks a @ [(r, block_bytes)], memory_usage := (memory_usage a + (block_bytes + 8)) mod 2 ^ 64\<rparr>))"

definition AllocateFallback :: "new_char \<Rightarrow> Arena \<Rightarrow> nat \<Rightarrow> nat \<times> Arena" where
  "AllocateFallback new a bytes =
     (if bytes > arena_kBlockSize div 4 then AllocateNewBlock new a bytes
      else
        let (p, a) = AllocateNewBlock new a arena_kBlockSize;
            a = a\<lparr>alloc_ptr := p, alloc_bytes_remaining := arena_kBlockSize\<rparr>;
            r = alloc_ptr a
        in (r, a\<lparr>alloc_ptr := alloc_ptr a + bytes, alloc_bytes_remaining := alloc_bytes_remaining a - bytes\<rparr>))"

definition Allocate :: "new_char \<Rightarrow> Arena \<Rightarrow> nat \<Rightarrow> nat \<times> Arena" where
  "Allocate new a bytes =
     (if bytes \<le> alloc_bytes_remaining a then
        (alloc_ptr a, a\<lparr>alloc_ptr := alloc_ptr a + bytes, alloc_bytes_remaining := alloc_bytes_remaining a - bytes\<rparr>)
      else AllocateFallback new a bytes)"

definition AllocateAligned :: "new_char \<Rightarrow> Arena \<Rightarrow> nat \<Rightarrow> nat \<times> Arena" where
  "AllocateAligned new a bytes =
     (let align = 8;
          current_mod = alloc_ptr a AND (align - 1);
          slop = (if current_mod = 0 then 0 else align - current_mod);
          needed = (bytes + slop) mod 2 ^ 64
      in if needed \<le> alloc_bytes_remaining a then
           (alloc_ptr a + slop,
            a\<lparr>alloc_ptr := alloc_ptr a + needed, alloc_bytes_remaining := alloc_bytes_remaining a - needed\<rparr>)
         else AllocateFallback new a bytes)"

definition arena_MemoryUsage :: "Arena \<Rightarrow> nat" where
  "arena_MemoryUsage a = memory_usage a"

section \<open>Regions\<close>

definition disjoint_regions :: "region \<Rightarrow> region \<Rightarrow> bool" where
  "disjoint_regions r s \<longleftrightarrow> fst r + snd r \<le> fst s \<or> fst s + snd s \<le> fst r"

definition inside :: "region \<Rightarrow> region \<Rightarrow> bool" where
  "inside r b \<longleftrightarrow> fst b \<le> fst r \<and> fst r + snd r \<le> fst b + snd b"

text \<open>What \<^verbatim>\<open>new char[]\<close> guarantees: memory of its own, aligned for every type of at most 8 bytes.\<close>

definition new_char_ok :: "new_char \<Rightarrow> bool" where
  "new_char_ok new \<longleftrightarrow> (\<forall>bs n. new bs n mod 8 = 0 \<and> (\<forall>b\<in>set bs. disjoint_regions (new bs n, n) b))"

lemma disjoint_sym: "disjoint_regions r s \<longleftrightarrow> disjoint_regions s r"
  by (auto simp: disjoint_regions_def)

lemma disjoint_inside: "disjoint_regions b c \<Longrightarrow> inside r b \<Longrightarrow> inside s c \<Longrightarrow> disjoint_regions r s"
  by (auto simp: disjoint_regions_def inside_def)

text \<open>The regions given out, oldest first, and the rest of the current block.\<close>

definition arena_ok :: "Arena \<Rightarrow> region list \<Rightarrow> bool" where
  "arena_ok a rs \<longleftrightarrow>
     (\<forall>r\<in>set rs. \<exists>b\<in>set (blocks a). inside r b) \<and> pairwise disjoint_regions (set rs) \<and> distinct rs \<and>
     (alloc_bytes_remaining a = 0 \<or>
       (\<exists>b\<in>set (blocks a). inside (alloc_ptr a, alloc_bytes_remaining a) b) \<and>
       (\<forall>r\<in>set rs. disjoint_regions (alloc_ptr a, alloc_bytes_remaining a) r)) \<and>
     memory_usage a = (\<Sum>b\<leftarrow>blocks a. snd b + 8) mod 2 ^ 64"

text \<open>The calls of a client, with the regions it was given. No request comes so close to 2 to the 64 bytes that
  aligning it wraps: the check would pass and the region lie outside its block.\<close>

inductive arena_reach :: "new_char \<Rightarrow> Arena \<Rightarrow> region list \<Rightarrow> bool" for new where
  Fresh: "arena_reach new Arena_new []"
| Allocated: "arena_reach new a rs \<Longrightarrow> 0 < n \<Longrightarrow> n < 2 ^ 64 \<Longrightarrow> Allocate new a n = (p, a') \<Longrightarrow> arena_reach new a' (rs @ [(p, n)])"
| Aligned: "arena_reach new a rs \<Longrightarrow> 0 < n \<Longrightarrow> n + 7 < 2 ^ 64 \<Longrightarrow> AllocateAligned new a n = (p, a') \<Longrightarrow> arena_reach new a' (rs @ [(p, n)])"

lemma arena_ok_extend:
  assumes ok: "arena_ok a rs" and n: "0 < snd r"
    and b: "blocks a' = blocks a @ bs" "memory_usage a' = (memory_usage a + (\<Sum>b\<leftarrow>bs. snd b + 8)) mod 2 ^ 64"
    and r: "\<exists>b\<in>set (blocks a'). inside r b" "\<forall>s\<in>set rs. disjoint_regions r s"
    and free: "alloc_bytes_remaining a' = 0 \<or>
       (\<exists>b\<in>set (blocks a'). inside (alloc_ptr a', alloc_bytes_remaining a') b) \<and>
       (\<forall>s\<in>set (rs @ [r]). disjoint_regions (alloc_ptr a', alloc_bytes_remaining a') s)"
  shows "arena_ok a' (rs @ [r])"
proof -
  have "r \<notin> set rs"
  proof
    assume "r \<in> set rs"
    with r(2) have "disjoint_regions r r" by blast
    with n show False by (auto simp: disjoint_regions_def)
  qed
  moreover have "pairwise disjoint_regions (insert r (set rs))"
    using ok r(2) by (auto simp: arena_ok_def pairwise_insert disjoint_sym)
  moreover have "\<forall>s\<in>set (rs @ [r]). \<exists>b\<in>set (blocks a'). inside s b" using ok r(1) b(1) by (auto simp: arena_ok_def)
  moreover have "memory_usage a' = (\<Sum>b\<leftarrow>blocks a'. snd b + 8) mod 2 ^ 64"
    using ok b by (simp add: arena_ok_def mod_add_left_eq)
  ultimately show ?thesis using ok free b unfolding arena_ok_def by simp
qed

text \<open>Cutting a piece off the current block.\<close>

lemma cut_ok:
  assumes ok: "arena_ok a rs" and n: "0 < n" "slop + n \<le> alloc_bytes_remaining a"
  shows "arena_ok (a\<lparr>alloc_ptr := alloc_ptr a + (n + slop), alloc_bytes_remaining := alloc_bytes_remaining a - (n + slop)\<rparr>)
    (rs @ [(alloc_ptr a + slop, n)])"
proof -
  let ?free = "(alloc_ptr a, alloc_bytes_remaining a)" and ?r = "(alloc_ptr a + slop, n)"
  let ?rest = "(alloc_ptr a + (n + slop), alloc_bytes_remaining a - (n + slop))"
  from ok n obtain b where b: "b \<in> set (blocks a)" "inside ?free b" and d: "\<forall>s\<in>set rs. disjoint_regions ?free s"
    by (auto simp: arena_ok_def)
  have i: "inside ?r ?free" "inside ?rest ?free" "disjoint_regions ?rest ?r"
    using n by (auto simp: inside_def disjoint_regions_def)
  have t: "inside ?r b" "inside ?rest b" using i b(2) by (auto simp: inside_def)
  have s: "inside x x" for x by (simp add: inside_def)
  have m: "memory_usage a mod 2 ^ 64 = memory_usage a" using ok by (simp add: arena_ok_def)
  show ?thesis
    by (rule arena_ok_extend [OF ok, where bs = "[]"])
      (use n b t i d m in \<open>auto intro: disjoint_inside [OF _ _ s]\<close>)
qed

lemma AllocateFallback_ok:
  assumes new: "new_char_ok new" and ok: "arena_ok a rs" and n: "0 < n" and a: "AllocateFallback new a n = (p, a')"
  shows "arena_ok a' (rs @ [(p, n)]) \<and> p mod 8 = 0"
proof -
  have fresh: "\<forall>s\<in>set rs. disjoint_regions (new (blocks a) m, m) s" for m
  proof
    fix s assume "s \<in> set rs"
    then obtain b where b: "b \<in> set (blocks a)" "inside s b" using ok by (auto simp: arena_ok_def)
    have "disjoint_regions (new (blocks a) m, m) b" using new b(1) by (auto simp: new_char_ok_def)
    then show "disjoint_regions (new (blocks a) m, m) s" by (rule disjoint_inside) (use b in \<open>simp_all add: inside_def\<close>)
  qed
  show ?thesis
  proof (cases "n > arena_kBlockSize div 4")
    case True
    let ?r = "(new (blocks a) n, n)"
    have a': "a' = a\<lparr>blocks := blocks a @ [?r], memory_usage := (memory_usage a + (n + 8)) mod 2 ^ 64\<rparr>" "p = new (blocks a) n"
      using a True by (auto simp: AllocateFallback_def AllocateNewBlock_def Let_def)
    have "disjoint_regions (alloc_ptr a, alloc_bytes_remaining a) ?r"
      if "b \<in> set (blocks a)" "inside (alloc_ptr a, alloc_bytes_remaining a) b" for b
    proof -
      have "disjoint_regions ?r b" using new that(1) by (auto simp: new_char_ok_def)
      then show ?thesis using that(2) by (auto simp: disjoint_regions_def inside_def)
    qed
    then have "arena_ok a' (rs @ [?r])"
      by (intro arena_ok_extend [OF ok, where bs = "[?r]"])
        (use n fresh ok in \<open>auto simp: a' inside_def arena_ok_def\<close>)
    then show ?thesis using new by (simp add: a' new_char_ok_def)
  next
    case False
    let ?p = "new (blocks a) arena_kBlockSize"
    let ?a = "a\<lparr>blocks := blocks a @ [(?p, arena_kBlockSize)], memory_usage := (memory_usage a + (arena_kBlockSize + 8)) mod 2 ^ 64,
      alloc_ptr := ?p, alloc_bytes_remaining := arena_kBlockSize\<rparr>"
    have a': "a' = ?a\<lparr>alloc_ptr := alloc_ptr ?a + (n + 0), alloc_bytes_remaining := alloc_bytes_remaining ?a - (n + 0)\<rparr>" "p = ?p"
      using a False by (auto simp: AllocateFallback_def AllocateNewBlock_def Let_def)
    have "arena_ok ?a rs"
      using ok fresh [of arena_kBlockSize] by (auto simp: arena_ok_def inside_def mod_add_left_eq)
    from cut_ok [OF this n, of 0] False have "arena_ok a' (rs @ [(alloc_ptr ?a + 0, n)])"
      unfolding a'(1) by (simp add: arena_kBlockSize_def)
    then show ?thesis using new by (simp add: a'(2) new_char_ok_def)
  qed
qed

lemma slop_aligned: "((p :: nat) + (if p AND 7 = 0 then 0 else 8 - (p AND 7))) mod 8 = 0"
proof -
  have m: "p AND 7 = p mod 8" using take_bit_eq_mask [of 3 p] by (simp add: take_bit_eq_mod mask_eq_exp_minus_1)
  show ?thesis unfolding m by presburger
qed

lemma AllocateAligned_ok:
  assumes new: "new_char_ok new" and ok: "arena_ok a rs" and n: "0 < n" "n + 7 < 2 ^ 64" and a: "AllocateAligned new a n = (p, a')"
  shows "arena_ok a' (rs @ [(p, n)]) \<and> p mod 8 = 0"
proof -
  define slop where "slop = (if alloc_ptr a AND (8 - 1) = 0 then 0 else 8 - (alloc_ptr a AND (8 - 1)))"
  have "(n + slop) mod 2 ^ 64 = n + slop" using n(2) by (intro mod_less) (auto simp: slop_def)
  then have e: "(p, a') = (if n + slop \<le> alloc_bytes_remaining a then
      (alloc_ptr a + slop, a\<lparr>alloc_ptr := alloc_ptr a + (n + slop), alloc_bytes_remaining := alloc_bytes_remaining a - (n + slop)\<rparr>)
    else AllocateFallback new a n)"
    using a [symmetric] unfolding AllocateAligned_def Let_def slop_def [symmetric] by simp
  show ?thesis
  proof (cases "n + slop \<le> alloc_bytes_remaining a")
    case True
    have "slop = (if alloc_ptr a AND 7 = 0 then 0 else 8 - (alloc_ptr a AND 7))" by (simp add: slop_def)
    with True show ?thesis using cut_ok [OF ok n(1), of slop] e slop_aligned [of "alloc_ptr a"] by (simp add: add.commute)
  next
    case False
    then have "AllocateFallback new a n = (p, a')" using e by simp
    from AllocateFallback_ok [OF new ok n(1) this] show ?thesis .
  qed
qed

lemma Allocate_ok:
  assumes new: "new_char_ok new" and ok: "arena_ok a rs" and n: "0 < n" and a: "Allocate new a n = (p, a')"
  shows "arena_ok a' (rs @ [(p, n)])"
  using AllocateFallback_ok [OF new ok n, of p a'] cut_ok [OF ok n, of 0] a
  by (auto simp: Allocate_def split: if_splits)

lemma arena_reach_ok: "arena_reach new a rs \<Longrightarrow> new_char_ok new \<Longrightarrow> arena_ok a rs"
proof (induction rule: arena_reach.induct)
  case Fresh
  show ?case by (simp add: arena_ok_def Arena_new_def)
qed (blast intro: Allocate_ok AllocateAligned_ok [THEN conjunct1])+

text \<open>C39. Whatever a client allocates, in pieces smaller than 2 to the 64 less 7 bytes, the regions it holds lie in blocks of the arena and do not
  overlap, the next region is aligned to 8 bytes when that is asked for, and the memory usage
  reported is what the blocks and their pointers take, in \<^verbatim>\<open>size_t\<close> arithmetic.\<close>

theorem arena_regions:
  assumes "arena_reach new a rs" and "new_char_ok new"
  shows "pairwise disjoint_regions (set rs) \<and> (\<forall>r\<in>set rs. \<exists>b\<in>set (blocks a). inside r b) \<and>
    (\<forall>n. 0 < n \<longrightarrow> n + 7 < 2 ^ 64 \<longrightarrow> fst (AllocateAligned new a n) mod 8 = 0) \<and>
    arena_MemoryUsage a = (\<Sum>b\<leftarrow>blocks a. snd b + 8) mod 2 ^ 64"
proof -
  note ok = arena_reach_ok [OF assms]
  have "fst (AllocateAligned new a n) mod 8 = 0" if "0 < n" "n + 7 < 2 ^ 64" for n
    using AllocateAligned_ok [OF assms(2) ok that] by (cases "AllocateAligned new a n") auto
  then show ?thesis using ok by (simp add: arena_ok_def arena_MemoryUsage_def)
qed

text \<open>An allocator that hands out addresses past everything before.\<close>

definition bump :: new_char where
  "bump bs n = 8 * (\<Sum>b\<leftarrow>bs. fst b + snd b + 1)"

lemma bump_ok: "new_char_ok bump"
proof -
  have "fst b + snd b \<le> 8 * (\<Sum>b\<leftarrow>bs. fst b + snd b + 1)" if "b \<in> set bs" for b and bs :: "region list"
    using member_le_sum_list [of "fst b + snd b + 1" "map (\<lambda>b. fst b + snd b + 1) bs"] that by auto
  then show ?thesis by (auto simp: new_char_ok_def bump_def disjoint_regions_def)
qed

theorem arena_regions_witness:
  "pairwise disjoint_regions {(0, 3), (8, 16), (32776, 5000)} \<and>
    arena_MemoryUsage (snd (Allocate bump (snd (AllocateAligned bump (snd (Allocate bump Arena_new 3)) 16)) 5000)) = 9112"
proof -
  note d = Allocate_def AllocateAligned_def AllocateFallback_def AllocateNewBlock_def bump_def Arena_new_def arena_kBlockSize_def Let_def
  let ?a1 = "snd (Allocate bump Arena_new 3)" let ?a2 = "snd (AllocateAligned bump ?a1 16)" let ?a3 = "snd (Allocate bump ?a2 5000)"
  have "arena_reach bump ?a1 ([] @ [(0, 3)])" by (rule arena_reach.Allocated [OF arena_reach.Fresh]) (simp_all add: d)
  then have "arena_reach bump ?a2 (([] @ [(0, 3)]) @ [(8, 16)])" by (rule arena_reach.Aligned) (simp_all add: d)
  then have "arena_reach bump ?a3 ((([] @ [(0, 3)]) @ [(8, 16)]) @ [(32776, 5000)])" by (rule arena_reach.Allocated) (simp_all add: d)
  from arena_regions [OF this bump_ok] show ?thesis by (simp add: d insert_commute)
qed

end
