(* ===== verification/Table_Format.thy ===== *)
theory Table_Format
  imports Crc32c Posix_Env
begin

text \<open>
  \<^verbatim>\<open>table/format.cc\<close>: block handles, the footer of a table file, and reading a block with its
  trailer; with it the interface \<^verbatim>\<open>RandomAccessFile\<close> of \<^verbatim>\<open>include/leveldb/env.h\<close> and the stubs of
  \<^verbatim>\<open>port/port_stdcxx.h\<close> that stand for Snappy in a build without it.
\<close>

section \<open>The code\<close>

subsection \<open>Compression\<close>

text \<open>\<^verbatim>\<open>HAVE_SNAPPY\<close> is not defined: each function only returns false.\<close>

definition Snappy_Compress :: "bytes \<Rightarrow> bytes option" where
  "Snappy_Compress input = None"

definition Snappy_GetUncompressedLength :: "bytes \<Rightarrow> nat option" where
  "Snappy_GetUncompressedLength input = None"

definition Snappy_Uncompress :: "bytes \<Rightarrow> nat \<Rightarrow> bytes option" where
  "Snappy_Uncompress input ulength = None"

datatype CompressionType = kNoCompression | kSnappyCompression

definition compression_num :: "CompressionType \<Rightarrow> byte" where
  "compression_num t = (case t of kNoCompression \<Rightarrow> 0 | kSnappyCompression \<Rightarrow> 1)"

subsection \<open>Handles and the footer\<close>

record BlockHandle =
  bh_offset :: u64
  bh_size :: u64

definition BlockHandle_new :: BlockHandle where
  "BlockHandle_new = \<lparr>bh_offset = NOT 0, bh_size = NOT 0\<rparr>"

definition kMaxEncodedLength :: nat where "kMaxEncodedLength = 10 + 10"

text \<open>Encoding asserts that both fields have been set, which is its precondition.\<close>

definition handle_set :: "BlockHandle \<Rightarrow> bool" where
  "handle_set h \<longleftrightarrow> bh_offset h \<noteq> NOT 0 \<and> bh_size h \<noteq> NOT 0"

definition BlockHandle_EncodeTo :: "BlockHandle \<Rightarrow> bytes \<Rightarrow> bytes" where
  "BlockHandle_EncodeTo h dst = PutVarint64 (PutVarint64 dst (bh_offset h)) (bh_size h)"

text \<open>The status, the handle and what is left of the input. A failure may have set the offset.\<close>

definition BlockHandle_DecodeFrom :: "BlockHandle \<Rightarrow> bytes \<Rightarrow> status \<times> BlockHandle \<times> bytes" where
  "BlockHandle_DecodeFrom h input =
     (case GetVarint64 input of
        None \<Rightarrow> (Corruption ''bad block handle'', h, input)
      | Some (off, input) \<Rightarrow>
          let h = h\<lparr>bh_offset := off\<rparr>
          in case GetVarint64 input of
               None \<Rightarrow> (Corruption ''bad block handle'', h, input)
             | Some (sz, input) \<Rightarrow> (Status_OK, h\<lparr>bh_size := sz\<rparr>, input))"

record Footer =
  metaindex_handle :: BlockHandle
  index_handle :: BlockHandle

definition kEncodedLength :: nat where "kEncodedLength = 2 * kMaxEncodedLength + 8"
definition kTableMagicNumber :: u64 where "kTableMagicNumber = 0xdb4775248b80fb57"
definition kBlockTrailerSize :: nat where "kBlockTrailerSize = 5"

text \<open>\<^verbatim>\<open>std::string::resize\<close> cuts or fills with zero bytes.\<close>

definition resize :: "bytes \<Rightarrow> nat \<Rightarrow> bytes" where
  "resize s n = take n s @ replicate (n - length s) 0"

definition Footer_EncodeTo :: "Footer \<Rightarrow> bytes \<Rightarrow> bytes" where
  "Footer_EncodeTo f dst =
     (let dst = BlockHandle_EncodeTo (metaindex_handle f) dst;
          dst = BlockHandle_EncodeTo (index_handle f) dst;
          dst = resize dst (2 * kMaxEncodedLength);
          dst = PutFixed32 dst (ucast (kTableMagicNumber AND 0xffffffff))
      in PutFixed32 dst (ucast (drop_bit 32 kTableMagicNumber)))"

text \<open>\<^verbatim>\<open>Footer::DecodeFrom\<close> does not look at the size of its input: the caller has to give it at least
  \<open>kEncodedLength\<close> bytes. What it reads behind a shorter input is not specified; here such bytes are 0.\<close>

definition Footer_DecodeFrom :: "bytes \<Rightarrow> status \<times> Footer \<times> bytes" where
  "Footer_DecodeFrom input =
     (let magic_ptr = kEncodedLength - 8;
          magic_lo = DecodeFixed32 (drop magic_ptr input);
          magic_hi = DecodeFixed32 (drop (magic_ptr + 4) input);
          magic = push_bit 32 (ucast magic_hi) OR ucast magic_lo;
          f = \<lparr>metaindex_handle = BlockHandle_new, index_handle = BlockHandle_new\<rparr>
      in if magic \<noteq> kTableMagicNumber then (Corruption ''not an sstable (bad magic number)'', f, input)
         else
           let (result, h, rest) = BlockHandle_DecodeFrom (metaindex_handle f) input;
               f = f\<lparr>metaindex_handle := h\<rparr>
           in if \<not> ok result then (result, f, rest)
              else
                let (result, h, rest) = BlockHandle_DecodeFrom (index_handle f) rest;
                    f = f\<lparr>index_handle := h\<rparr>
                in if \<not> ok result then (result, f, rest) else (result, f, drop (magic_ptr + 8) input))"

subsection \<open>\<^verbatim>\<open>RandomAccessFile\<close>\<close>

text \<open>A read gives its status, the data, whether that lies in the caller's scratch buffer, and the
  file after it.\<close>

record 'r RandomAccessFile =
  rRead :: "'r \<Rightarrow> u64 \<Rightarrow> u64 \<Rightarrow> status \<times> bytes \<times> bool \<times> 'r"

definition Posix_RandomAccessFile :: "(nat \<Rightarrow> bytes) \<Rightarrow> RandomFile RandomAccessFile" where
  "Posix_RandomAccessFile strerror =
     \<lparr>rRead = (\<lambda>f off n. let (s, d, f') = RandomFile_Read strerror f off n
                          in (s, d, (case f of Pread _ _ _ \<Rightarrow> True | Mmap _ _ \<Rightarrow> False), f'))\<rparr>"

subsection \<open>\<^verbatim>\<open>ReadBlock\<close>\<close>

record BlockContents =
  bc_data :: bytes
  bc_cachable :: bool
  bc_heap_allocated :: bool

text \<open>\<open>n + kBlockTrailerSize\<close> wraps in 64 bits. Near the largest sizes the code then reads past
  what it got; here such bytes are missing from the list.\<close>

definition ReadBlock :: "'r RandomAccessFile \<Rightarrow> 'r \<Rightarrow> bool \<Rightarrow> BlockHandle \<Rightarrow> status \<times> BlockContents \<times> 'r" where
  "ReadBlock ops file verify_checksums h =
     (let r = \<lparr>bc_data = [], bc_cachable = False, bc_heap_allocated = False\<rparr>;
          n = bh_size h;
          (s, data, in_buf, file) = rRead ops file (bh_offset h) (n + of_nat kBlockTrailerSize)
      in if \<not> ok s then (s, r, file)
         else if length data \<noteq> unat (n + of_nat kBlockTrailerSize) then (Corruption ''truncated block read'', r, file)
         else if verify_checksums \<and>
             crc_Value 0 (take (unat n + 1) data) \<noteq> Unmask (DecodeFixed32 (drop (unat n + 1) data))
         then (Corruption ''block checksum mismatch'', r, file)
         else
           let t = data ! unat n; data = take (unat n) data in
           if t = compression_num kNoCompression then
             (Status_OK, (if \<not> in_buf then r\<lparr>bc_data := data, bc_heap_allocated := False, bc_cachable := False\<rparr>
                          else r\<lparr>bc_data := data, bc_heap_allocated := True, bc_cachable := True\<rparr>), file)
           else if t = compression_num kSnappyCompression then
             (case Snappy_GetUncompressedLength data of
                None \<Rightarrow> (Corruption ''corrupted compressed block contents'', r, file)
              | Some ulength \<Rightarrow>
                  (case Snappy_Uncompress data ulength of
                     None \<Rightarrow> (Corruption ''corrupted compressed block contents'', r, file)
                   | Some ubuf \<Rightarrow> (Status_OK, r\<lparr>bc_data := ubuf, bc_heap_allocated := True, bc_cachable := True\<rparr>, file)))
           else (Corruption ''bad block type'', r, file))"

section \<open>Random access\<close>

text \<open>What a table relies on: while a file is \<open>steady\<close>, a read inside it returns its bytes.\<close>

locale random_file =
  fixes ops :: "'r RandomAccessFile" and contents :: "'r \<Rightarrow> bytes" and steady :: "'r \<Rightarrow> bool"
  assumes read_steady: "steady f \<Longrightarrow> unat off + unat n \<le> length (contents f) \<Longrightarrow> length (contents f) < 2 ^ 64 \<Longrightarrow>
    \<exists>s b f'. rRead ops f off n = (s, take (unat n) (drop (unat off) (contents f)), b, f') \<and> ok s \<and>
      steady f' \<and> contents f' = contents f"

definition random_contents :: "RandomFile \<Rightarrow> bytes" where
  "random_contents f = (case f of Pread _ _ fd \<Rightarrow> fd_data fd | Mmap _ region \<Rightarrow> region)"

definition random_steady :: "RandomFile \<Rightarrow> bool" where
  "random_steady f = (case f of Pread _ _ fd \<Rightarrow> \<forall>e. Errno e \<notin> set (fd_answers fd) | Mmap _ _ \<Rightarrow> True)"

lemma steady_calls:
  assumes "\<forall>e. Errno e \<notin> set (fd_answers fd)"
  shows "sys_call fd = (None, fd\<lparr>fd_answers := tl (fd_answers fd)\<rparr>)"
    and "sys_pread fd n off = (Transfer (length (take n (drop (unat off) (fd_data fd)))), take n (drop (unat off) (fd_data fd)),
      fd\<lparr>fd_answers := tl (fd_answers fd)\<rparr>)"
    and "\<forall>e. Errno e \<notin> set (tl (fd_answers fd))"
  using assms by (auto simp: sys_call_def sys_pread_def Let_def split: list.splits outcome.splits)
    (cases "fd_answers fd"; auto)+

interpretation posix_random: random_file "Posix_RandomAccessFile se" random_contents random_steady for se
proof unfold_locales
  fix f :: RandomFile and off n :: u64
  assume s: "random_steady f" and b: "unat off + unat n \<le> length (random_contents f)" "length (random_contents f) < 2 ^ 64"
  show "\<exists>s b f'. rRead (Posix_RandomAccessFile se) f off n = (s, take (unat n) (drop (unat off) (random_contents f)), b, f') \<and>
    ok s \<and> random_steady f' \<and> random_contents f' = random_contents f"
  proof (cases f)
    case (Pread fn has fd)
    have a: "\<forall>e. Errno e \<notin> set (fd_answers fd)" using s by (simp add: Pread random_steady_def)
    let ?fd = "if has then fd else fd\<lparr>fd_answers := tl (fd_answers fd)\<rparr>"
    have a': "\<forall>e. Errno e \<notin> set (fd_answers ?fd)" using a steady_calls(3) [OF a] by simp
    have a'': "\<forall>e. Errno e \<notin> set (fd_answers (?fd\<lparr>fd_answers := tl (fd_answers ?fd)\<rparr>))" using steady_calls(3) [OF a'] by simp
    show ?thesis
      using steady_calls(1,2) [OF a] steady_calls(1-3) [OF a'] steady_calls(1,3) [OF a'']
      by (cases has) (auto simp: Posix_RandomAccessFile_def RandomFile_Read_def Pread random_Read_def Let_def
          random_contents_def random_steady_def)
  next
    case (Mmap fn region)
    have l: "unat off + unat n \<le> length region" "length region < 2 ^ 64" using b by (simp_all add: Mmap random_contents_def)
    have "unat (off + n) = unat off + unat n" using l by (simp add: unat_word_ariths)
    moreover have "unat (of_nat (length region) :: u64) = length region" using l(2) by (simp add: unat_of_nat_lt)
    ultimately have "\<not> off + n > of_nat (length region)" using l(1) by (simp add: word_less_nat_alt not_less)
    then show ?thesis
      by (auto simp: Posix_RandomAccessFile_def RandomFile_Read_def Mmap mmap_Read_def random_contents_def random_steady_def Let_def)
  qed
qed


section \<open>Handles and footers come back\<close>

lemma BlockHandle_roundtrip:
  "BlockHandle_DecodeFrom h0 (BlockHandle_EncodeTo h [] @ rest) = (Status_OK, h, rest)"
  by (simp add: BlockHandle_DecodeFrom_def BlockHandle_EncodeTo_def PutVarint64_def)

lemma BlockHandle_EncodeTo_append: "BlockHandle_EncodeTo h dst = dst @ BlockHandle_EncodeTo h []"
  by (simp add: BlockHandle_EncodeTo_def PutVarint64_def)

lemma length_BlockHandle: "length (BlockHandle_EncodeTo h []) \<le> kMaxEncodedLength"
  using length_EncodeVarint64_bound [of "bh_offset h"] length_EncodeVarint64_bound [of "bh_size h"]
  by (simp add: BlockHandle_EncodeTo_def PutVarint64_def kMaxEncodedLength_def)

lemma Footer_layout:
  obtains pad where "Footer_EncodeTo f [] = BlockHandle_EncodeTo (metaindex_handle f) [] @ BlockHandle_EncodeTo (index_handle f) [] @ pad @
      EncodeFixed32 0x8b80fb57 @ EncodeFixed32 0xdb477524"
    and "length (BlockHandle_EncodeTo (metaindex_handle f) [] @ BlockHandle_EncodeTo (index_handle f) [] @ pad) = 40"
proof -
  let ?m = "BlockHandle_EncodeTo (metaindex_handle f) []" and ?i = "BlockHandle_EncodeTo (index_handle f) []"
  have len: "length (?m @ ?i) \<le> 40"
    using length_BlockHandle [of "metaindex_handle f"] length_BlockHandle [of "index_handle f"] by (simp add: kMaxEncodedLength_def)
  then have r: "resize (?m @ ?i) 40 = (?m @ ?i) @ replicate (40 - length (?m @ ?i)) 0" by (simp add: resize_def)
  show thesis
  proof (rule that)
    show "Footer_EncodeTo f [] = ?m @ ?i @ replicate (40 - length (?m @ ?i)) 0 @ EncodeFixed32 0x8b80fb57 @ EncodeFixed32 0xdb477524"
      using r by (simp add: Footer_EncodeTo_def Let_def BlockHandle_EncodeTo_append [of "index_handle f" ?m] kMaxEncodedLength_def
          PutFixed32_def kTableMagicNumber_def)
    show "length (?m @ ?i @ replicate (40 - length (?m @ ?i)) 0) = 40" using len by simp
  qed
qed

lemma Footer_Decode: "Footer_DecodeFrom (Footer_EncodeTo f [] @ rest) = (Status_OK, f, rest)"
proof -
  obtain pad where e: "Footer_EncodeTo f [] = BlockHandle_EncodeTo (metaindex_handle f) [] @ BlockHandle_EncodeTo (index_handle f) [] @ pad @
      EncodeFixed32 0x8b80fb57 @ EncodeFixed32 0xdb477524"
    and l: "length (BlockHandle_EncodeTo (metaindex_handle f) [] @ BlockHandle_EncodeTo (index_handle f) [] @ pad) = 40"
    by (rule Footer_layout)
  let ?x = "BlockHandle_EncodeTo (metaindex_handle f) [] @ BlockHandle_EncodeTo (index_handle f) [] @ pad"
  let ?in = "Footer_EncodeTo f [] @ rest"
  have i: "?in = ?x @ EncodeFixed32 0x8b80fb57 @ EncodeFixed32 0xdb477524 @ rest" by (simp add: e)
  have d40: "drop 40 ?in = EncodeFixed32 0x8b80fb57 @ EncodeFixed32 0xdb477524 @ rest" unfolding i by (rule drop_append_exact [OF l])
  have dd: "drop 44 xs = drop 4 (drop 40 xs)" "drop 48 xs = drop 8 (drop 40 xs)" for xs :: bytes by simp_all
  have d: "DecodeFixed32 (drop 40 ?in) = 0x8b80fb57" "DecodeFixed32 (drop 44 ?in) = 0xdb477524" "drop 48 ?in = rest"
    unfolding dd d40 by simp_all
  have magic: "push_bit 32 (ucast (0xdb477524 :: u32)) OR ucast (0x8b80fb57 :: u32) = kTableMagicNumber"
    by (simp add: kTableMagicNumber_def)
  have parts: "?in = BlockHandle_EncodeTo (metaindex_handle f) [] @ BlockHandle_EncodeTo (index_handle f) [] @
      (pad @ EncodeFixed32 0x8b80fb57 @ EncodeFixed32 0xdb477524 @ rest)" by (simp add: e)
  have h: "BlockHandle_DecodeFrom h0 ?in = (Status_OK, metaindex_handle f, BlockHandle_EncodeTo (index_handle f) [] @
      (pad @ EncodeFixed32 0x8b80fb57 @ EncodeFixed32 0xdb477524 @ rest))" for h0
    unfolding parts by (rule BlockHandle_roundtrip)
  show ?thesis
    using d magic by (simp add: Footer_DecodeFrom_def Let_def kEncodedLength_def kMaxEncodedLength_def h BlockHandle_roundtrip
        del: push_bit_numeral drop_append length_append)
qed

section \<open>Reading a stored block\<close>

text \<open>A block as the builder stores it: its bytes, the type, and the masked checksum of both.\<close>

definition stored_block :: "CompressionType \<Rightarrow> bytes \<Rightarrow> bytes" where
  "stored_block t d = d @ [compression_num t] @ EncodeFixed32 (Mask (crc_Value 0 (d @ [compression_num t])))"

lemma length_stored_block: "length (stored_block t d) = length d + kBlockTrailerSize"
  by (simp add: stored_block_def kBlockTrailerSize_def)

context random_file begin

lemma ReadBlock_at:
  assumes "steady f" "contents f = pre @ body @ EncodeFixed32 m @ post" "length (contents f) < 2 ^ 64"
    and "unat (bh_offset h) = length pre" "length body = unat (bh_size h) + 1"
  obtains b f' where "ReadBlock ops f verify h =
      (if verify \<and> crc_Value 0 body \<noteq> Unmask m
       then (Corruption ''block checksum mismatch'', \<lparr>bc_data = [], bc_cachable = False, bc_heap_allocated = False\<rparr>, f')
       else if last body = compression_num kNoCompression
       then (Status_OK, \<lparr>bc_data = butlast body, bc_cachable = b, bc_heap_allocated = b\<rparr>, f')
       else (Corruption (if last body = 1 then ''corrupted compressed block contents'' else ''bad block type''),
         \<lparr>bc_data = [], bc_cachable = False, bc_heap_allocated = False\<rparr>, f'))"
    and "steady f'" "contents f' = contents f"
proof -
  let ?n = "bh_size h"
  have lt: "unat ?n + 5 < 2 ^ 64" using assms(2,3,5) by simp
  then have n5: "unat (?n + of_nat kBlockTrailerSize) = unat ?n + 5" by (simp add: kBlockTrailerSize_def unat_word_ariths)
  have "unat (bh_offset h) + unat (?n + of_nat kBlockTrailerSize) \<le> length (contents f)" using assms(2,4,5) n5 by simp
  from read_steady [OF assms(1) this assms(3)] obtain s b f' where
    r: "rRead ops f (bh_offset h) (?n + of_nat kBlockTrailerSize) =
        (s, take (unat ?n + 5) (drop (unat (bh_offset h)) (contents f)), b, f')" "ok s" "steady f'" "contents f' = contents f"
    unfolding n5 by blast
  let ?d = "body @ EncodeFixed32 m"
  have d: "take (unat ?n + 5) (drop (unat (bh_offset h)) (contents f)) = ?d" using assms(2,4,5) by simp
  have t: "take (unat ?n + 1) ?d = body" "drop (unat ?n + 1) ?d = EncodeFixed32 m" "length ?d = unat ?n + 5" using assms(5) by simp_all
  have ne: "body \<noteq> []" using assms(5) by auto
  have l: "?d ! unat ?n = last body" "take (unat ?n) ?d = butlast body"
    using assms(5) ne by (simp_all add: nth_append last_conv_nth butlast_conv_take)
  show thesis
    by (rule that [of f' b])
      (use r(2-4) t l in \<open>simp_all add: ReadBlock_def r(1) d n5 Let_def Snappy_GetUncompressedLength_def compression_num_def del: length_append take_append drop_append\<close>)
qed

lemma ReadBlock_stored:
  assumes "steady f" "contents f = pre @ stored_block kNoCompression d @ post" "length (contents f) < 2 ^ 64"
    and "unat (bh_offset h) = length pre" "unat (bh_size h) = length d"
  shows "\<exists>b f'. ReadBlock ops f verify h = (Status_OK, \<lparr>bc_data = d, bc_cachable = b, bc_heap_allocated = b\<rparr>, f') \<and>
    steady f' \<and> contents f' = contents f"
proof -
  let ?body = "d @ [compression_num kNoCompression]"
  have c: "contents f = pre @ ?body @ EncodeFixed32 (Mask (crc_Value 0 ?body)) @ post" using assms(2) by (simp add: stored_block_def)
  have l: "length ?body = unat (bh_size h) + 1" using assms(5) by simp
  obtain b f' where "ReadBlock ops f verify h = (Status_OK, \<lparr>bc_data = d, bc_cachable = b, bc_heap_allocated = b\<rparr>, f')"
    "steady f'" "contents f' = contents f"
    by (rule ReadBlock_at [OF assms(1) c assms(3,4) l, of verify]) (simp add: compression_num_def)
  then show ?thesis by blast
qed

lemma ReadBlock_burst:
  assumes "steady f" "contents f = pre @ (xs @ zs @ ws) @ EncodeFixed32 (Mask (crc_Value 0 (xs @ ys @ ws))) @ post"
    and "length (contents f) < 2 ^ 64" "unat (bh_offset h) = length pre" "length (xs @ ys @ ws) = unat (bh_size h) + 1"
    and "length ys = length zs" "length ys \<le> 4" "ys \<noteq> zs"
  shows "fst (ReadBlock ops f True h) = Corruption ''block checksum mismatch''"
proof -
  have l: "length (xs @ zs @ ws) = unat (bh_size h) + 1" using assms(5,6) by simp
  have "crc_Value 0 (xs @ zs @ ws) \<noteq> crc_Value 0 (xs @ ys @ ws)"
    using Extend_burst [OF assms(6-8), of 0 0 xs ws 0] by (simp add: crc_Value_def)
  then show ?thesis using ReadBlock_at [OF assms(1-4) l, of True] by (metis Unmask_Mask fst_conv)
qed

end

section \<open>Properties\<close>

text \<open>The magic number determines its halves.\<close>

lemma halves: "ucast (push_bit 32 (ucast hi :: u64) OR ucast lo) = (lo :: u32)"
  "ucast (drop_bit 32 (push_bit 32 (ucast hi :: u64) OR ucast lo)) = (hi :: u32)"
  by (rule bit_word_eqI; auto simp: bit_simps dest: bit_imp_le_length)+

text \<open>C38. The footer of a table: handles that have been set come back, with what follows the footer, and the encoding always
  has the length the reader looks for at the end of a file; an input of at least that length whose magic number is wrong in any
  way is refused.\<close>

theorem Footer_roundtrip:
  assumes "handle_set (metaindex_handle f)" "handle_set (index_handle f)" and "kEncodedLength \<le> length bad"
  shows "Footer_DecodeFrom (Footer_EncodeTo f [] @ rest) = (Status_OK, f, rest) \<and> length (Footer_EncodeTo f []) = kEncodedLength \<and>
   (DecodeFixed32 (drop 40 bad) \<noteq> 0x8b80fb57 \<or> DecodeFixed32 (drop 44 bad) \<noteq> 0xdb477524 \<longrightarrow>
     fst (Footer_DecodeFrom bad) = Corruption ''not an sstable (bad magic number)'')"
proof (intro conjI impI)
  show "Footer_DecodeFrom (Footer_EncodeTo f [] @ rest) = (Status_OK, f, rest)" by (rule Footer_Decode)
  show "length (Footer_EncodeTo f []) = kEncodedLength"
    by (rule Footer_layout [of f]) (simp add: kEncodedLength_def kMaxEncodedLength_def)
  let ?lo = "DecodeFixed32 (drop 40 bad)" and ?hi = "DecodeFixed32 (drop 44 bad)"
  assume "?lo \<noteq> 0x8b80fb57 \<or> ?hi \<noteq> 0xdb477524"
  moreover have "?lo = ucast kTableMagicNumber \<and> ?hi = ucast (drop_bit 32 kTableMagicNumber)"
    if "push_bit 32 (ucast ?hi) OR ucast ?lo = kTableMagicNumber"
    unfolding that [symmetric] by (simp only: halves)
  moreover have "(ucast kTableMagicNumber :: u32) = 0x8b80fb57" "(ucast (drop_bit 32 kTableMagicNumber) :: u32) = 0xdb477524"
    by (simp_all add: kTableMagicNumber_def)
  ultimately have "push_bit 32 (ucast ?hi) OR ucast ?lo \<noteq> kTableMagicNumber" by auto
  then show "fst (Footer_DecodeFrom bad) = Corruption ''not an sstable (bad magic number)''"
    by (simp add: Footer_DecodeFrom_def Let_def kEncodedLength_def kMaxEncodedLength_def)
qed

theorem Footer_roundtrip_witness:
  "Footer_DecodeFrom (Footer_EncodeTo \<lparr>metaindex_handle = \<lparr>bh_offset = 5, bh_size = 8\<rparr>, index_handle = \<lparr>bh_offset = 300, bh_size = 20\<rparr>\<rparr> [] @ [1]) =
      (Status_OK, \<lparr>metaindex_handle = \<lparr>bh_offset = 5, bh_size = 8\<rparr>, index_handle = \<lparr>bh_offset = 300, bh_size = 20\<rparr>\<rparr>, [1]) \<and>
    fst (Footer_DecodeFrom (replicate 48 0)) = Corruption ''not an sstable (bad magic number)''"
proof -
  have "DecodeFixed32 (drop 40 (replicate 48 0)) \<noteq> 0x8b80fb57" by code_simp
  moreover have "handle_set \<lparr>bh_offset = 5, bh_size = 8\<rparr>" "handle_set \<lparr>bh_offset = 300, bh_size = 20\<rparr>" by (simp_all add: handle_set_def)
  moreover have "kEncodedLength \<le> length (replicate 48 (0 :: byte))" by (simp add: kEncodedLength_def kMaxEncodedLength_def)
  ultimately show ?thesis
    using Footer_roundtrip [of "\<lparr>metaindex_handle = \<lparr>bh_offset = 5, bh_size = 8\<rparr>, index_handle = \<lparr>bh_offset = 300, bh_size = 20\<rparr>\<rparr>" "replicate 48 0" "[1]"] by simp
qed

text \<open>C21. A block stored by the builder is read back from a file of \<^verbatim>\<open>PosixEnv\<close> that answers every
  call, by \<^verbatim>\<open>pread\<close> or mapped; when at most four consecutive bytes of the block or its type were changed,
  a reader that verifies checksums reports it.\<close>

theorem ReadBlock_stored_or_damaged:
  assumes "random_steady f" "length (random_contents f) < 2 ^ 64" "unat (bh_offset h) = length pre"
    and "xs @ ys @ ws = d @ [compression_num kNoCompression]" "unat (bh_size h) = length d" "length ys = length zs" "length ys \<le> 4"
    and "random_contents f = pre @ (xs @ zs @ ws) @ EncodeFixed32 (Mask (crc_Value 0 (xs @ ys @ ws))) @ post"
  shows "if ys = zs
    then \<exists>b f'. ReadBlock (Posix_RandomAccessFile se) f verify h =
        (Status_OK, \<lparr>bc_data = d, bc_cachable = b, bc_heap_allocated = b\<rparr>, f') \<and>
      random_steady f' \<and> random_contents f' = random_contents f
    else fst (ReadBlock (Posix_RandomAccessFile se) f True h) = Corruption ''block checksum mismatch''"
proof (cases "ys = zs")
  case True
  then have "random_contents f = pre @ stored_block kNoCompression d @ post"
    using assms(4,8) by (simp add: stored_block_def)
  from posix_random.ReadBlock_stored [OF assms(1) this assms(2,3,5), of se verify] True show ?thesis by simp
next
  case False
  have "length (xs @ ys @ ws) = unat (bh_size h) + 1" unfolding assms(4) by (simp add: assms(5))
  from posix_random.ReadBlock_burst [OF assms(1,8,2,3) this assms(6,7) False] False show ?thesis by simp
qed

theorem ReadBlock_stored_or_damaged_witness:
  "fst (ReadBlock (Posix_RandomAccessFile (\<lambda>_. [])) (Mmap [1] ([9] @ ([] @ [8, 7] @ [0]) @
      EncodeFixed32 (Mask (crc_Value 0 ([] @ [5, 6] @ [0]))) @ [])) True \<lparr>bh_offset = 1, bh_size = 2\<rparr>) =
    Corruption ''block checksum mismatch''"
proof -
  let ?f = "Mmap [1] ([9] @ ([] @ [8, 7] @ [0]) @ EncodeFixed32 (Mask (crc_Value 0 ([] @ [5, 6] @ [0]))) @ [])"
  have "if [5, 6] = [8, 7 :: byte]
    then \<exists>b f'. ReadBlock (Posix_RandomAccessFile (\<lambda>_. [])) ?f True \<lparr>bh_offset = 1, bh_size = 2\<rparr> =
        (Status_OK, \<lparr>bc_data = [5, 6], bc_cachable = b, bc_heap_allocated = b\<rparr>, f') \<and>
      random_steady f' \<and> random_contents f' = random_contents ?f
    else fst (ReadBlock (Posix_RandomAccessFile (\<lambda>_. [])) ?f True \<lparr>bh_offset = 1, bh_size = 2\<rparr>) = Corruption ''block checksum mismatch''"
    by (rule ReadBlock_stored_or_damaged [where pre = "[9]" and xs = "[]" and ws = "[0]" and post = "[]"])
      (simp_all add: random_steady_def random_contents_def compression_num_def)
  then show ?thesis by simp
qed

end
