(* ===== verification/Filter_Block.thy ===== *)
theory Filter_Block
  imports Bloom Db_Format
begin

text \<open>
  \<^verbatim>\<open>table/filter_block.cc\<close>: the filters of a table, one for each 2 KB of file offsets, and their
  reader. The policy is a parameter, what it promises the locale \<open>filter_policy\<close>; the policy on
  internal keys satisfies it whenever the user's does.
\<close>

section \<open>The code\<close>

definition kFilterBaseLg :: nat where "kFilterBaseLg = 11"
definition kFilterBase :: nat where "kFilterBase = push_bit kFilterBaseLg 1"

record FilterBlockBuilder =
  fb_keys :: bytes
  fb_start :: "nat list"
  fb_result :: bytes
  fb_filter_offsets :: "u32 list"

definition FilterBlockBuilder_new :: FilterBlockBuilder where
  "FilterBlockBuilder_new = \<lparr>fb_keys = [], fb_start = [], fb_result = [], fb_filter_offsets = []\<rparr>"

definition fb_AddKey :: "FilterBlockBuilder \<Rightarrow> bytes \<Rightarrow> FilterBlockBuilder" where
  "fb_AddKey b key = b\<lparr>fb_start := fb_start b @ [length (fb_keys b)], fb_keys := fb_keys b @ key\<rparr>"

text \<open>\<^verbatim>\<open>CreateFilter\<close> takes the number of its keys as an \<^verbatim>\<open>int\<close>: with 2 to the 31 keys or more for one filter it would
  see a number of its own, and only the keys up to that.\<close>

definition GenerateFilter :: "(bytes list \<Rightarrow> bytes \<Rightarrow> bytes) \<Rightarrow> FilterBlockBuilder \<Rightarrow> FilterBlockBuilder" where
  "GenerateFilter create b =
     (let num_keys = length (fb_start b) in
      if num_keys = 0 then b\<lparr>fb_filter_offsets := fb_filter_offsets b @ [of_nat (length (fb_result b))]\<rparr>
      else
        let start = fb_start b @ [length (fb_keys b)];
            tmp_keys = map (\<lambda>i. let base = start ! i; len = start ! (i + 1) - start ! i
                                in take len (drop base (fb_keys b))) [0..<num_keys];
            b = b\<lparr>fb_filter_offsets := fb_filter_offsets b @ [of_nat (length (fb_result b))]\<rparr>;
            n = sint (of_nat num_keys :: 32 word);
            b = b\<lparr>fb_result := create (take (nat n) tmp_keys) (fb_result b)\<rparr>
        in b\<lparr>fb_keys := [], fb_start := []\<rparr>)"

text \<open>Each filter adds an offset, so the loop of \<^verbatim>\<open>StartBlock\<close> ends.\<close>

lemma length_GenerateFilter [simp]:
  "length (fb_filter_offsets (GenerateFilter create b)) = length (fb_filter_offsets b) + 1"
  by (simp add: GenerateFilter_def Let_def)

function fb_StartBlock_loop :: "(bytes list \<Rightarrow> bytes \<Rightarrow> bytes) \<Rightarrow> nat \<Rightarrow> FilterBlockBuilder \<Rightarrow> FilterBlockBuilder" where
  "fb_StartBlock_loop create filter_index b =
     (if filter_index > length (fb_filter_offsets b) then fb_StartBlock_loop create filter_index (GenerateFilter create b)
      else b)"
  by pat_completeness auto
termination by (relation "measure (\<lambda>(c, i, b). i - length (fb_filter_offsets b))") auto

declare fb_StartBlock_loop.simps [simp del]

definition fb_StartBlock :: "(bytes list \<Rightarrow> bytes \<Rightarrow> bytes) \<Rightarrow> FilterBlockBuilder \<Rightarrow> u64 \<Rightarrow> FilterBlockBuilder" where
  "fb_StartBlock create b block_offset =
     (let filter_index = unat block_offset div kFilterBase in fb_StartBlock_loop create filter_index b)"

definition fb_Finish :: "(bytes list \<Rightarrow> bytes \<Rightarrow> bytes) \<Rightarrow> FilterBlockBuilder \<Rightarrow> bytes \<times> FilterBlockBuilder" where
  "fb_Finish create b =
     (let b = (if fb_start b \<noteq> [] then GenerateFilter create b else b);
          array_offset = of_nat (length (fb_result b)) :: u32;
          r = foldl PutFixed32 (fb_result b) (fb_filter_offsets b);
          r = PutFixed32 r array_offset;
          r = r @ [of_nat kFilterBaseLg]
      in (r, b\<lparr>fb_result := r\<rparr>))"

text \<open>The reader: \<^verbatim>\<open>data_\<close> is the contents or null, \<^verbatim>\<open>offset_\<close> a position in it. \<^verbatim>\<open>base_lg_\<close> is
  a \<^verbatim>\<open>char\<close> widened to 64 bits. Shifting by 64 or more, which only a corrupt block asks for, is
  undefined; here it shifts everything out.\<close>

record FilterBlockReader =
  fr_data :: bytes
  fr_offset :: nat
  fr_num :: nat
  fr_base_lg :: u64

definition FilterBlockReader_new :: "bytes \<Rightarrow> FilterBlockReader" where
  "FilterBlockReader_new contents =
     (let r = \<lparr>fr_data = [], fr_offset = 0, fr_num = 0, fr_base_lg = 0\<rparr>; n = length contents in
      if n < 5 then r
      else
        let r = r\<lparr>fr_base_lg := scast (contents ! (n - 1))\<rparr>;
            last_word = unat (DecodeFixed32 (drop (n - 5) contents))
        in if last_word > n - 5 then r
           else r\<lparr>fr_data := contents, fr_offset := last_word, fr_num := (n - 5 - last_word) div 4\<rparr>)"

definition fr_KeyMayMatch :: "(bytes \<Rightarrow> bytes \<Rightarrow> bool) \<Rightarrow> FilterBlockReader \<Rightarrow> u64 \<Rightarrow> bytes \<Rightarrow> bool" where
  "fr_KeyMayMatch matches r block_offset key =
     (let index = unat (drop_bit (unat (fr_base_lg r)) block_offset) in
      if index < fr_num r then
        let start = unat (DecodeFixed32 (drop (fr_offset r + index * 4) (fr_data r)));
            limit = unat (DecodeFixed32 (drop (fr_offset r + index * 4 + 4) (fr_data r)))
        in if start \<le> limit \<and> limit \<le> fr_offset r then matches key (take (limit - start) (drop start (fr_data r)))
           else if start = limit then False
           else True
      else True)"

section \<open>The layout of a filter block\<close>

definition filter_at :: "bytes list \<Rightarrow> nat \<Rightarrow> u32" where
  "filter_at fs i = of_nat (length (concat (take i fs)))"

definition filter_layout :: "bytes list \<Rightarrow> bytes" where
  "filter_layout fs = concat fs @ concat (map (\<lambda>i. EncodeFixed32 (filter_at fs i)) [0..<length fs]) @
     EncodeFixed32 (filter_at fs (length fs)) @ [11]"

lemma filter_at_append: "i \<le> length fs \<Longrightarrow> filter_at (fs @ gs) i = filter_at fs i"
  by (simp add: filter_at_def)

lemma concat_fixed_length: "length (concat (map (\<lambda>i. EncodeFixed32 (g i)) xs)) = 4 * length xs"
  by (induction xs) simp_all

lemma concat_fixed_nth:
  "i < n \<Longrightarrow> DecodeFixed32 (drop (4 * i) (concat (map (\<lambda>i. EncodeFixed32 (g i)) [0..<n]) @ rest)) = g i"
proof -
  assume i: "i < n"
  let ?e = "\<lambda>i. EncodeFixed32 (g i)"
  obtain k where n: "n = i + Suc k" using less_imp_Suc_add [OF i] by auto
  have "[0..<n] = [0..<i] @ [i..<n]" unfolding n by (rule upt_add_eq_append) simp
  also have "[i..<n] = i # [Suc i..<n]" by (rule upt_conv_Cons [OF i])
  finally have "[0..<n] = [0..<i] @ i # [Suc i..<n]" .
  then have "concat (map ?e [0..<n]) @ rest = concat (map ?e [0..<i]) @ ?e i @ concat (map ?e [Suc i..<n]) @ rest" by simp
  moreover have "length (concat (map ?e [0..<i])) = 4 * i" by (simp add: concat_fixed_length)
  ultimately show ?thesis by (simp only: drop_append_exact DecodeFixed32_Encode)
qed

text \<open>What the reader finds in a block laid out like this.\<close>

lemma fr_KeyMayMatch_layout:
  assumes size: "length (filter_layout fs) < 2 ^ 32"
  shows "fr_KeyMayMatch matches (FilterBlockReader_new (filter_layout fs)) off key =
    (let i = unat off div kFilterBase in i < length fs \<longrightarrow> matches key (fs ! i))"
proof -
  let ?c = "filter_layout fs" and ?d = "concat fs" and ?N = "length fs"
  let ?offs = "concat (map (\<lambda>i. EncodeFixed32 (filter_at fs i)) [0..<?N])"
  let ?tl = "EncodeFixed32 (filter_at fs ?N) @ [11]"
  have c: "?c = ?d @ ?offs @ ?tl" by (simp add: filter_layout_def)
  have lo: "length ?offs = 4 * ?N" by (simp add: concat_fixed_length)
  have n: "length ?c = length ?d + 4 * ?N + 5" by (simp add: c lo)
  have le: "length (concat (take i fs)) \<le> length ?d" for i
    by (metis append_take_drop_id concat_append length_append le_add1)
  have at: "unat (filter_at fs i) = length (concat (take i fs))" for i
    unfolding filter_at_def by (rule u32_nat) (use le [of i] size n in linarith)
  have "?c ! (length ?c - 1) = 11" using n by (simp add: c nth_append lo)
  moreover have "drop (length ?c - 5) ?c = ?tl" by (simp add: n) (simp add: c lo)
  moreover have "scast (11 :: byte) = (11 :: u64)" by simp
  ultimately have r: "FilterBlockReader_new ?c = \<lparr>fr_data = ?c, fr_offset = length ?d, fr_num = ?N, fr_base_lg = 11\<rparr>"
    using n at [of ?N] by (simp add: FilterBlockReader_new_def Let_def)
  have idx: "unat (drop_bit (unat (11 :: u64)) off) = unat off div kFilterBase"
    by (simp add: unat_drop_bit_word kFilterBase_def kFilterBaseLg_def push_bit_eq_mult)
  show ?thesis
  proof (cases "unat off div kFilterBase < ?N")
    case False
    then show ?thesis using idx by (simp add: fr_KeyMayMatch_def r Let_def)
  next
    case True
    let ?i = "unat off div kFilterBase"
    have "drop (length ?d + ?i * 4) ?c = drop (4 * ?i) (?offs @ ?tl)" by (simp add: c mult.commute)
    then have start: "DecodeFixed32 (drop (length ?d + ?i * 4) ?c) = filter_at fs ?i"
      by (simp only: concat_fixed_nth [OF True])
    have "drop (length ?d + ?i * 4 + 4) ?c = drop (4 * (?i + 1)) (?offs @ ?tl)" by (simp add: c algebra_simps)
    moreover have "DecodeFixed32 (drop (4 * (?i + 1)) (?offs @ ?tl)) = filter_at fs (?i + 1)"
    proof (cases "?i + 1 < ?N")
      case True
      then show ?thesis by (rule concat_fixed_nth)
    next
      case False
      then have N: "?i + 1 = ?N" using True by simp
      have "drop (4 * ?N) (?offs @ ?tl) = ?tl" by (rule drop_append_exact [OF lo])
      then show ?thesis unfolding N by simp
    qed
    ultimately have limit: "DecodeFixed32 (drop (length ?d + ?i * 4 + 4) ?c) = filter_at fs (?i + 1)" by (simp only:)
    let ?s = "length (concat (take ?i fs))"
    have t: "take (?i + 1) fs = take ?i fs @ [fs ! ?i]" using True by (simp add: take_Suc_conv_app_nth)
    have "concat (take ?i fs @ fs ! ?i # drop (Suc ?i) fs) = ?d" by (simp only: id_take_nth_drop [OF True, symmetric])
    then have "?d = concat (take ?i fs) @ fs ! ?i @ concat (drop (Suc ?i) fs)" by simp
    then have "?c = concat (take ?i fs) @ fs ! ?i @ (concat (drop (Suc ?i) fs) @ ?offs @ ?tl)" by (simp only: c append.assoc)
    then have "drop ?s ?c = fs ! ?i @ (concat (drop (Suc ?i) fs) @ ?offs @ ?tl)" by (simp only: drop_append_exact)
    then have part: "take (length (fs ! ?i)) (drop ?s ?c) = fs ! ?i" by (simp only: take_append_exact)
    have len: "length (concat (take (?i + 1) fs)) = ?s + length (fs ! ?i)" unfolding t by simp
    then have b: "?s + length (fs ! ?i) \<le> length ?d" using le [of "?i + 1"] by simp
    have "fr_KeyMayMatch matches (FilterBlockReader_new ?c) off key \<longleftrightarrow>
      matches key (take (?s + length (fs ! ?i) - ?s) (drop ?s ?c))"
      using True b by (simp only: fr_KeyMayMatch_def Let_def r FilterBlockReader.simps idx start limit at len if_True le_add1 simp_thms)
    then show ?thesis using True part by (simp only: Let_def add_diff_cancel_left' simp_thms)
  qed
qed


section \<open>The builder\<close>

text \<open>The builder holds the filters \<open>fs\<close> already made and the keys \<open>pending\<close> for the next one.\<close>

definition fb_rep :: "FilterBlockBuilder \<Rightarrow> bytes list \<Rightarrow> bytes list \<Rightarrow> bool" where
  "fb_rep b fs pending \<longleftrightarrow> fb_keys b = concat pending \<and>
     fb_start b = map (\<lambda>i. length (concat (take i pending))) [0..<length pending] \<and>
     fb_result b = concat fs \<and> fb_filter_offsets b = map (filter_at fs) [0..<length fs]"

lemma fb_rep_new: "fb_rep FilterBlockBuilder_new [] []"
  by (simp add: fb_rep_def FilterBlockBuilder_new_def)

lemma starts_snoc:
  "map (\<lambda>i. length (concat (take i (xs @ [x])))) [0..<length xs] = map (\<lambda>i. length (concat (take i xs))) [0..<length xs]"
  by simp

lemma fb_rep_AddKey: "fb_rep b fs pending \<Longrightarrow> fb_rep (fb_AddKey b key) fs (pending @ [key])"
  by (simp add: fb_rep_def fb_AddKey_def)

lemma fb_rep_AddKeys: "fb_rep b fs pending \<Longrightarrow> fb_rep (foldl fb_AddKey b keys) fs (pending @ keys)"
proof (induction keys arbitrary: b pending)
  case (Cons k keys)
  from Cons.IH [OF fb_rep_AddKey [OF Cons.prems, of k]] show ?case by simp
qed simp

text \<open>\<^verbatim>\<open>GenerateFilter\<close> cuts the flattened keys where they were joined.\<close>

lemma cut_keys:
  "map (\<lambda>i. let base = (map (\<lambda>i. length (concat (take i ks))) [0..<length ks] @ [length (concat ks)]) ! i;
        len = (map (\<lambda>i. length (concat (take i ks))) [0..<length ks] @ [length (concat ks)]) ! (i + 1) - base
      in take len (drop base (concat ks))) [0..<length ks] = ks"
proof -
  let ?s = "map (\<lambda>i. length (concat (take i ks))) [0..<length ks] @ [length (concat ks)]"
  have s: "?s ! i = length (concat (take i ks))" if "i \<le> length ks" for i
    using that by (cases "i = length ks") (simp_all add: nth_append)
  show ?thesis
  proof (rule nth_equalityI)
    fix i assume "i < length (map (\<lambda>i. let base = ?s ! i; len = ?s ! (i + 1) - base in take len (drop base (concat ks))) [0..<length ks])"
    then have i: "i < length ks" by simp
    have "concat (take i ks @ ks ! i # drop (Suc i) ks) = concat ks" by (simp only: id_take_nth_drop [OF i, symmetric])
    then have d: "drop (length (concat (take i ks))) (concat ks) = ks ! i @ concat (drop (Suc i) ks)"
      by (metis append.assoc append_eq_conv_conj concat.simps(2) concat_append)
    have "take (Suc i) ks = take i ks @ [ks ! i]" using i by (rule take_Suc_conv_app_nth)
    then have "?s ! (i + 1) - ?s ! i = length (ks ! i)" using s [of i] s [of "i + 1"] i by simp
    then show "map (\<lambda>i. let base = ?s ! i; len = ?s ! (i + 1) - base in take len (drop base (concat ks))) [0..<length ks] ! i = ks ! i"
      using i d s [of i] by (simp add: Let_def)
  qed simp
qed

lemma offsets_snoc: "map (filter_at (fs @ [f])) [0..<length fs] = map (filter_at fs) [0..<length fs]"
  by (simp add: filter_at_append)

lemma filter_at_all: "filter_at (fs @ gs) (length fs) = of_nat (length (concat fs))"
  by (simp add: filter_at_def)

lemma int_keys: "length xs < 2 ^ 31 \<Longrightarrow> take (nat (sint (of_nat (length xs) :: 32 word))) xs = xs"
proof -
  assume l: "length xs < 2 ^ 31"
  have "sint (of_nat (length xs) :: 32 word) = int (length xs)"
    using l signed_of_int [where 'a = int and 'b = 32, of "int (length xs)"] by (simp add: signed_take_bit_int_eq_self)
  then show ?thesis by simp
qed

lemma GenerateFilter_rep:
  assumes r: "fb_rep b fs pending" and small: "length pending < 2 ^ 31" and f: "pending \<noteq> [] \<Longrightarrow> create pending (concat fs) = concat fs @ f" "pending = [] \<Longrightarrow> f = []"
  shows "fb_rep (GenerateFilter create b) (fs @ [f]) []"
proof (cases "pending = []")
  case True
  then show ?thesis using r f by (simp add: fb_rep_def GenerateFilter_def Let_def offsets_snoc filter_at_all)
next
  case False
  have "fb_start b \<noteq> []" "length (fb_start b) = length pending" using r False by (simp_all add: fb_rep_def)
  then show ?thesis using r f False cut_keys [of pending] int_keys [OF small]
    by (simp add: fb_rep_def GenerateFilter_def Let_def offsets_snoc filter_at_all)
qed

lemma foldl_PutFixed32: "foldl PutFixed32 dst ws = dst @ concat (map EncodeFixed32 ws)"
  by (induction ws arbitrary: dst) (simp_all add: PutFixed32_def)

lemma fb_Finish_layout:
  assumes "fb_rep b fs []"
  shows "fst (fb_Finish create b) = filter_layout fs"
proof -
  have "fb_start b = []" using assms by (simp add: fb_rep_def)
  then show ?thesis
    using assms by (simp add: fb_Finish_def Let_def fb_rep_def foldl_PutFixed32 filter_layout_def PutFixed32_def filter_at_def
        comp_def kFilterBaseLg_def)
qed

text \<open>The calls of the table builder: the keys of each data block after \<^verbatim>\<open>StartBlock\<close> with its offset.\<close>

definition fb_block :: "(bytes list \<Rightarrow> bytes \<Rightarrow> bytes) \<Rightarrow> FilterBlockBuilder \<Rightarrow> u64 \<times> bytes list \<Rightarrow> FilterBlockBuilder" where
  "fb_block create b p = foldl fb_AddKey (fb_StartBlock create b (fst p)) (snd p)"

definition build_filter :: "(bytes list \<Rightarrow> bytes \<Rightarrow> bytes) \<Rightarrow> (u64 \<times> bytes list) list \<Rightarrow> bytes" where
  "build_filter create bl = fst (fb_Finish create (foldl (fb_block create) FilterBlockBuilder_new bl))"

abbreviation base_of :: "u64 \<Rightarrow> nat" where "base_of off \<equiv> unat off div kFilterBase"

section \<open>No false negatives\<close>

context filter_policy begin

text \<open>Every key added so far is matched by the filter of its block, or waits for it.\<close>

definition fb_inv :: "FilterBlockBuilder \<Rightarrow> (u64 \<times> bytes) list \<Rightarrow> nat \<Rightarrow> bool" where
  "fb_inv b added i \<longleftrightarrow> (\<exists>fs pending. fb_rep b fs pending \<and> length fs = i \<and> length pending \<le> length added \<and>
     (\<forall>(off, key) \<in> set added. base_of off < i \<and> matches key (fs ! base_of off) \<or> base_of off = i \<and> key \<in> set pending) \<and>
     (pending \<noteq> [] \<longrightarrow> (\<exists>(off, key) \<in> set added. base_of off = i)))"

lemma inv_GenerateFilter:
  assumes i: "fb_inv b added i" and fits: "\<forall>n\<le>length added. fits n" "length added < 2 ^ 31"
  shows "fb_inv (GenerateFilter create b) added (i + 1)"
proof -
  obtain fs pending where r: "fb_rep b fs pending" "length fs = i" "length pending \<le> length added"
    "\<forall>(off, key) \<in> set added. base_of off < i \<and> matches key (fs ! base_of off) \<or> base_of off = i \<and> key \<in> set pending"
    using i unfolding fb_inv_def by blast
  obtain f where f: "pending \<noteq> [] \<Longrightarrow> create pending (concat fs) = concat fs @ f" "pending = [] \<Longrightarrow> f = []"
    "\<And>key. key \<in> set pending \<Longrightarrow> matches key f"
  proof (cases "pending = []")
    case False
    then show ?thesis using create_all [of pending "concat fs"] fits r(3) that by metis
  qed (use that [of "[]"] in simp)
  have "fb_rep (GenerateFilter create b) (fs @ [f]) []" by (rule GenerateFilter_rep [OF r(1)]) (use f(1,2) r(3) fits(2) in auto)
  moreover have "base_of off < i + 1 \<and> matches key ((fs @ [f]) ! base_of off)" if "(off, key) \<in> set added" for off key
    using r(2,4) f(3) that by (auto simp: nth_append)
  ultimately show ?thesis unfolding fb_inv_def using r(2)
    by (intro exI [of _ "fs @ [f]"] exI [of _ "[]"]) auto
qed

lemma inv_StartBlock:
  "fb_inv b added i \<Longrightarrow> \<forall>n\<le>length added. fits n \<Longrightarrow> length added < 2 ^ 31 \<Longrightarrow> i \<le> j \<Longrightarrow> fb_inv (fb_StartBlock_loop create j b) added j"
proof (induction "j - i" arbitrary: b i)
  case 0
  then have "length (fb_filter_offsets b) = j" by (auto simp: fb_inv_def fb_rep_def)
  then show ?case using 0 by (simp add: fb_StartBlock_loop.simps)
next
  case (Suc n)
  then have "length (fb_filter_offsets b) < j" by (auto simp: fb_inv_def fb_rep_def)
  moreover have "fb_inv (fb_StartBlock_loop create j (GenerateFilter create b)) added j"
    by (rule Suc.hyps(1) [OF _ inv_GenerateFilter]) (use Suc in auto)
  ultimately show ?case by (simp add: fb_StartBlock_loop.simps [of _ _ b])
qed

lemma inv_AddKeys:
  assumes i: "fb_inv b added (base_of off)"
  shows "fb_inv (foldl fb_AddKey b keys) (added @ map (Pair off) keys) (base_of off)"
proof -
  obtain fs pending where r: "fb_rep b fs pending" "length fs = base_of off" "length pending \<le> length added"
    "\<forall>(o', key) \<in> set added. base_of o' < base_of off \<and> matches key (fs ! base_of o') \<or> base_of o' = base_of off \<and> key \<in> set pending"
    "pending \<noteq> [] \<longrightarrow> (\<exists>(o', key) \<in> set added. base_of o' = base_of off)"
    using i unfolding fb_inv_def by blast
  show ?thesis unfolding fb_inv_def
    by (intro exI [of _ fs] exI [of _ "pending @ keys"] conjI) (use fb_rep_AddKeys [OF r(1)] r(2-5) in \<open>auto simp: neq_Nil_conv\<close>)
qed

text \<open>The filter block of a table matches every key it was built from at the offset of its block.\<close>

lemma build_filter_matches:
  assumes sorted: "sorted (map (base_of \<circ> fst) bl)" and fits: "\<forall>n\<le>length (concat (map snd bl)). fits n" "length (concat (map snd bl)) < 2 ^ 31"
    and size: "length (build_filter create bl) < 2 ^ 32"
    and key: "(off, keys) \<in> set bl" "key \<in> set keys"
  shows "fr_KeyMayMatch matches (FilterBlockReader_new (build_filter create bl)) off key"
proof -
  let ?added = "\<lambda>bl. concat (map (\<lambda>(off, keys). map (Pair off) keys) bl)"
  have len: "length (?added bl) = length (concat (map snd bl))" for bl :: "(u64 \<times> bytes list) list"
    by (induction bl) auto
  have "\<exists>i. fb_inv (foldl (fb_block create) FilterBlockBuilder_new bl) (?added bl) i \<and> (\<forall>p\<in>set bl. base_of (fst p) \<le> i) \<and>
      (bl \<noteq> [] \<longrightarrow> i = base_of (fst (last bl)))"
    using sorted fits
  proof (induction bl rule: rev_induct)
    case Nil
    have "fb_inv FilterBlockBuilder_new [] 0"
      unfolding fb_inv_def by (intro exI [of _ "[]"]) (simp add: fb_rep_new)
    then show ?case by (intro exI [of _ 0]) simp
  next
    case (snoc p bl)
    obtain off ks where p: "p = (off, ks)" by (rule prod.exhaust)
    from snoc.prems have s: "sorted (map (base_of \<circ> fst) bl)" "\<forall>q\<in>set bl. base_of (fst q) \<le> base_of off"
      by (auto simp: sorted_append p comp_def)
    have ft: "\<forall>n\<le>length (concat (map snd bl)). fits n" "length (concat (map snd bl)) < 2 ^ 31" using snoc.prems(2,3) by simp_all
    from snoc.IH [OF s(1) ft] obtain i where i: "fb_inv (foldl (fb_block create) FilterBlockBuilder_new bl) (?added bl) i"
      "\<forall>p\<in>set bl. base_of (fst p) \<le> i" "bl \<noteq> [] \<longrightarrow> i = base_of (fst (last bl))" by blast
    have step: "fb_block create b p = foldl fb_AddKey (fb_StartBlock_loop create (base_of off) b) ks" for b
      by (simp add: p fb_block_def fb_StartBlock_def)
    show ?case
    proof (cases "bl = []")
      case True
      have "fb_inv FilterBlockBuilder_new [] 0"
        unfolding fb_inv_def by (intro exI [of _ "[]"]) (simp add: fb_rep_new)
      then have "fb_inv (fb_StartBlock_loop create (base_of off) FilterBlockBuilder_new) [] (base_of off)"
        by (rule inv_StartBlock) (use ft in \<open>auto simp: True\<close>)
      from inv_AddKeys [OF this, of ks] show ?thesis
        by (intro exI [of _ "base_of off"]) (simp add: True step, simp add: p)
    next
      case False
      then have "i \<le> base_of off" using i(3) s(2) by auto
      have "fb_inv (fb_StartBlock_loop create (base_of off) (foldl (fb_block create) FilterBlockBuilder_new bl)) (?added bl) (base_of off)"
        by (rule inv_StartBlock [OF i(1)]) (use ft \<open>i \<le> base_of off\<close> in \<open>simp_all add: len\<close>)
      from inv_AddKeys [OF this, of ks] show ?thesis
        by (intro exI [of _ "base_of off"]) (simp add: step, use s(2) in \<open>auto simp: p\<close>)
    qed
  qed
  then obtain i where i: "fb_inv (foldl (fb_block create) FilterBlockBuilder_new bl) (?added bl) i" by blast
  let ?b = "foldl (fb_block create) FilterBlockBuilder_new bl"
  have added: "(off, key) \<in> set (?added bl)" using key by force
  have done': "\<exists>fs. fst (fb_Finish create ?b) = filter_layout fs \<and> base_of off < length fs \<and> matches key (fs ! base_of off)"
  proof (cases "fb_start ?b = []")
    case True
    obtain fs pending where r: "fb_rep ?b fs pending" "length fs = i"
      "\<forall>(off, key) \<in> set (?added bl). base_of off < i \<and> matches key (fs ! base_of off) \<or> base_of off = i \<and> key \<in> set pending"
      using i unfolding fb_inv_def by blast
    have "pending = []" using r(1) True by (simp add: fb_rep_def)
    then have "base_of off < length fs \<and> matches key (fs ! base_of off)" using bspec [OF r(3) added] r(2) by simp
    moreover have "fst (fb_Finish create ?b) = filter_layout fs" by (rule fb_Finish_layout) (use r(1) \<open>pending = []\<close> in simp)
    ultimately show ?thesis by blast
  next
    case False
    let ?g = "GenerateFilter create ?b"
    have "fb_inv ?g (?added bl) (i + 1)" by (rule inv_GenerateFilter [OF i]) (use fits in \<open>simp_all only: len\<close>)
    then obtain fs pending where r: "fb_rep ?g fs pending" "length fs = i + 1"
      "\<forall>(off, key) \<in> set (?added bl). base_of off < i + 1 \<and> matches key (fs ! base_of off) \<or> base_of off = i + 1 \<and> key \<in> set pending"
      unfolding fb_inv_def by blast
    have g: "fb_start ?g = []" using False by (simp add: GenerateFilter_def Let_def)
    then have "pending = []" using r(1) by (simp add: fb_rep_def)
    moreover have "fst (fb_Finish create ?b) = fst (fb_Finish create ?g)" using False g by (simp add: fb_Finish_def)
    moreover have "base_of off < length fs \<and> matches key (fs ! base_of off)" using bspec [OF r(3) added] r(2) \<open>pending = []\<close> by simp
    moreover have "fst (fb_Finish create ?g) = filter_layout fs" by (rule fb_Finish_layout) (use r(1) \<open>pending = []\<close> in simp)
    ultimately show ?thesis by (simp only:) blast
  qed
  then show ?thesis using size fr_KeyMayMatch_layout by (auto simp: build_filter_def Let_def)
qed

text \<open>The policy the database gives the table: the user's on the user part of the keys.\<close>

lemma internal_policy:
  "filter_policy (InternalFilter_CreateFilter create) (InternalFilter_KeyMayMatch matches) fits"
proof unfold_locales
  fix key :: bytes and keys :: "bytes list" and dst :: bytes
  assume "key \<in> set keys" "fits (length keys)"
  then show "\<exists>f. InternalFilter_CreateFilter create keys dst = dst @ f \<and> InternalFilter_KeyMayMatch matches key f"
    using create_matches [of "ExtractUserKey key" "map ExtractUserKey keys" dst]
    by (simp add: InternalFilter_CreateFilter_def InternalFilter_KeyMayMatch_def)
qed

end

interpretation internal_bloom: filter_policy "InternalFilter_CreateFilter (Bloom_CreateFilter (BloomFilterPolicy bits_per_key))"
  "InternalFilter_KeyMayMatch Bloom_KeyMayMatch" "\<lambda>n. n * bits_per_key < 2 ^ 64 - 7" for bits_per_key
  by (rule bloom.internal_policy)

text \<open>C18. The filter block of a table never hides a key: when the keys of each data block were added
  after \<^verbatim>\<open>StartBlock\<close> with the block's offset, a lookup of one of them, or of any version of its user
  key, at that offset may match. The keys must be fewer than an \<^verbatim>\<open>int\<close> counts and the filter block shorter than 4 GB.\<close>

theorem filter_block_no_false_negatives:
  assumes "sorted (map (base_of \<circ> fst) bl)" and "length (concat (map snd bl)) * bits_per_key < 2 ^ 64 - 7" and "length (concat (map snd bl)) < 2 ^ 31"
    and "length (build_filter (InternalFilter_CreateFilter (Bloom_CreateFilter (BloomFilterPolicy bits_per_key))) bl) < 2 ^ 32"
    and "(off, keys) \<in> set bl" "key \<in> set keys" "ExtractUserKey key' = ExtractUserKey key"
  shows "fr_KeyMayMatch (InternalFilter_KeyMayMatch Bloom_KeyMayMatch) (FilterBlockReader_new
    (build_filter (InternalFilter_CreateFilter (Bloom_CreateFilter (BloomFilterPolicy bits_per_key))) bl)) off key'"
proof -
  let ?create = "InternalFilter_CreateFilter (Bloom_CreateFilter (BloomFilterPolicy bits_per_key))"
  let ?match = "InternalFilter_KeyMayMatch Bloom_KeyMayMatch"
  have "\<forall>n\<le>length (concat (map snd bl)). n * bits_per_key < 2 ^ 64 - 7"
    using assms(2) mult_le_mono1 le_less_trans by blast
  from internal_bloom.build_filter_matches [OF assms(1) this assms(3-6)]
  have "fr_KeyMayMatch ?match (FilterBlockReader_new (build_filter ?create bl)) off key" .
  moreover have "?match key = ?match key'" by (rule ext) (simp add: InternalFilter_KeyMayMatch_def assms(7))
  ultimately show ?thesis by (simp only: fr_KeyMayMatch_def)
qed

theorem filter_block_no_false_negatives_witness:
  "fr_KeyMayMatch (InternalFilter_KeyMayMatch Bloom_KeyMayMatch) (FilterBlockReader_new
    (build_filter (InternalFilter_CreateFilter (Bloom_CreateFilter (BloomFilterPolicy 10)))
      [(0, [[7, 1, 0, 0, 0, 0, 0, 0, 0]]), (4100, [[8, 1, 0, 0, 0, 0, 0, 0, 0]])])) 4100 [8, 1, 9, 0, 0, 0, 0, 0, 0]"
proof (rule filter_block_no_false_negatives [where keys = "[[8, 1, 0, 0, 0, 0, 0, 0, 0]]" and key = "[8, 1, 0, 0, 0, 0, 0, 0, 0]"])
  let ?bl = "[(0, [[7, 1, 0, 0, 0, 0, 0, 0, 0]]), (4100, [[8, 1, 0, 0, 0, 0, 0, 0, 0]])] :: (u64 \<times> bytes list) list"
  show "length (build_filter (InternalFilter_CreateFilter (Bloom_CreateFilter (BloomFilterPolicy 10))) ?bl) < 2 ^ 32"
    by (simp add: build_filter_def fb_block_def fb_StartBlock_def fb_StartBlock_loop.simps kFilterBase_def kFilterBaseLg_def FilterBlockBuilder_new_def
        fb_AddKey_def GenerateFilter_def Let_def fb_Finish_def InternalFilter_CreateFilter_def Bloom_CreateFilter_def bloom_bytes_def
        PutFixed32_def BloomFilterPolicy_def)
qed (simp_all add: kFilterBase_def kFilterBaseLg_def ExtractUserKey_def)

end
