(* ===== verification/Options.thy ===== *)
theory Options
  imports Table_Format Filter_Block
begin

text \<open>
  \<^verbatim>\<open>include/leveldb/options.h\<close> and \<^verbatim>\<open>util/options.cc\<close>, with the objects that options point to:
  a \<^verbatim>\<open>Comparator\<close> and a \<^verbatim>\<open>FilterPolicy\<close> are the records of their methods. A comparator also has
  its address, since the code compares pointers. The environment, the logger and the block cache
  are not fields: what they do is state of the operations that use them.
\<close>

section \<open>Comparators and filter policies\<close>

record Comparator =
  cmp_address :: nat
  cmp_Name :: bytes
  cmp_Compare :: "bytes \<Rightarrow> bytes \<Rightarrow> int"
  cmp_FindShortestSeparator :: "bytes \<Rightarrow> bytes \<Rightarrow> bytes"
  cmp_FindShortSuccessor :: "bytes \<Rightarrow> bytes"

definition BytewiseComparator :: Comparator where
  "BytewiseComparator =
     \<lparr>cmp_address = 1, cmp_Name = str ''leveldb.BytewiseComparator'', cmp_Compare = Bytewise_Compare,
      cmp_FindShortestSeparator = Bytewise_FindShortestSeparator, cmp_FindShortSuccessor = Bytewise_FindShortSuccessor\<rparr>"

definition InternalKeyComparator :: "nat \<Rightarrow> Comparator \<Rightarrow> Comparator" where
  "InternalKeyComparator address c =
     \<lparr>cmp_address = address, cmp_Name = str ''leveldb.InternalKeyComparator'', cmp_Compare = IKC_Compare (cmp_Compare c),
      cmp_FindShortestSeparator = IKC_FindShortestSeparator (cmp_Compare c) (cmp_FindShortestSeparator c),
      cmp_FindShortSuccessor = IKC_FindShortSuccessor (cmp_Compare c) (cmp_FindShortSuccessor c)\<rparr>"

record FilterPolicy =
  fp_Name :: bytes
  fp_CreateFilter :: "bytes list \<Rightarrow> bytes \<Rightarrow> bytes"
  fp_KeyMayMatch :: "bytes \<Rightarrow> bytes \<Rightarrow> bool"

definition NewBloomFilterPolicy :: "nat \<Rightarrow> FilterPolicy" where
  "NewBloomFilterPolicy bits_per_key =
     \<lparr>fp_Name = str ''leveldb.BuiltinBloomFilter2'',
      fp_CreateFilter = Bloom_CreateFilter (BloomFilterPolicy bits_per_key), fp_KeyMayMatch = Bloom_KeyMayMatch\<rparr>"

definition InternalFilterPolicy :: "FilterPolicy \<Rightarrow> FilterPolicy" where
  "InternalFilterPolicy p =
     \<lparr>fp_Name = fp_Name p, fp_CreateFilter = InternalFilter_CreateFilter (fp_CreateFilter p),
      fp_KeyMayMatch = InternalFilter_KeyMayMatch (fp_KeyMayMatch p)\<rparr>"

section \<open>Options\<close>

record Options =
  opt_comparator :: Comparator
  opt_create_if_missing :: bool
  opt_error_if_exists :: bool
  opt_paranoid_checks :: bool
  opt_write_buffer_size :: nat
  opt_max_open_files :: int
  opt_block_size :: nat
  opt_block_restart_interval :: int
  opt_max_file_size :: nat
  opt_compression :: CompressionType
  opt_reuse_logs :: bool
  opt_filter_policy :: "FilterPolicy option"

definition Options_new :: Options where
  "Options_new =
     \<lparr>opt_comparator = BytewiseComparator, opt_create_if_missing = False, opt_error_if_exists = False,
      opt_paranoid_checks = False, opt_write_buffer_size = 4 * 1024 * 1024, opt_max_open_files = 1000,
      opt_block_size = 4 * 1024, opt_block_restart_interval = 16, opt_max_file_size = 2 * 1024 * 1024,
      opt_compression = kSnappyCompression, opt_reuse_logs = False, opt_filter_policy = None\<rparr>"

record ReadOptions =
  ro_verify_checksums :: bool
  ro_fill_cache :: bool
  ro_snapshot :: "u64 option"

definition ReadOptions_new :: ReadOptions where
  "ReadOptions_new = \<lparr>ro_verify_checksums = False, ro_fill_cache = True, ro_snapshot = None\<rparr>"

record WriteOptions =
  wo_sync :: bool

definition WriteOptions_new :: WriteOptions where
  "WriteOptions_new = \<lparr>wo_sync = False\<rparr>"

text \<open>The options of a database's tables: keys are internal keys.\<close>

abbreviation icmp_comparator :: Comparator where
  "icmp_comparator \<equiv> InternalKeyComparator 2 BytewiseComparator"

lemma icmp_comparator_simps [simp]:
  "cmp_Compare icmp_comparator = icmp"
  "cmp_FindShortestSeparator icmp_comparator = IKC_FindShortestSeparator Bytewise_Compare Bytewise_FindShortestSeparator"
  "cmp_FindShortSuccessor icmp_comparator = IKC_FindShortSuccessor Bytewise_Compare Bytewise_FindShortSuccessor"
  by (simp_all add: InternalKeyComparator_def BytewiseComparator_def)

end
