(* ===== verification/Two_Level.thy ===== *)
theory Two_Level
  imports Iterators "HOL-Library.Multiset"
begin

text \<open>
  \<^verbatim>\<open>table/two_level_iterator.cc\<close>: an iterator over an index whose values name blocks, each opened
  by a function when it is reached. Opening and closing blocks acts on a world (files and caches), so
  the state of the iterator is paired with one; iterators over the blocks may act on it too. The
  contract \<open>world_iterator\<close> is \<open>sorted_iterator\<close> in a world that keeps count of what is held, and the
  two-level iterator gives it again for the concatenation of the blocks, so that it can be nested.
\<close>

section \<open>The code\<close>

text \<open>The class of the index, the class of the blocks, the function that opens a block (with its
  argument and options), and the destructor of an iterator over a block.\<close>

record ('i, 'd, 'w) TwoLevelFns =
  tf_index :: "'i IteratorOps"
  tf_data :: "('d \<times> 'w) IteratorOps"
  tf_block :: "'w \<Rightarrow> bytes \<Rightarrow> ('d \<times> 'w) option"
  tf_delete :: "'d \<Rightarrow> 'w \<Rightarrow> 'w"

record ('i, 'd) TwoLevelIterator =
  tl_status :: status
  tl_index :: "'i Wrapper"
  tl_data :: "'d Wrapper"
  tl_handle :: bytes

text \<open>The wrapper of the block iterator, put into a world and taken out again.\<close>

definition wr_in :: "'d Wrapper \<Rightarrow> 'w \<Rightarrow> ('d \<times> 'w) Wrapper" where
  "wr_in wr w = \<lparr>wr_iter = map_option (\<lambda>d. (d, w)) (wr_iter wr), wr_valid = wr_valid wr, wr_key = wr_key wr\<rparr>"

definition wr_out :: "('d \<times> 'w) Wrapper \<Rightarrow> 'd Wrapper" where
  "wr_out wr = \<lparr>wr_iter = map_option fst (wr_iter wr), wr_valid = wr_valid wr, wr_key = wr_key wr\<rparr>"

definition TwoLevelIterator_new :: "('i, 'd, 'w) TwoLevelFns \<Rightarrow> 'i \<Rightarrow> ('i, 'd) TwoLevelIterator" where
  "TwoLevelIterator_new F index_iter =
     \<lparr>tl_status = Status_OK, tl_index = Wrapper_new (tf_index F) (Some index_iter),
      tl_data = \<lparr>wr_iter = None, wr_valid = False, wr_key = []\<rparr>, tl_handle = []\<rparr>"

definition tl_SaveError :: "('i, 'd) TwoLevelIterator \<Rightarrow> status \<Rightarrow> ('i, 'd) TwoLevelIterator" where
  "tl_SaveError t s = (if ok (tl_status t) \<and> \<not> ok s then t\<lparr>tl_status := s\<rparr> else t)"

text \<open>\<^verbatim>\<open>IteratorWrapper::Set\<close> deletes the iterator it holds first.\<close>

definition SetDataIterator ::
  "('i, 'd, 'w) TwoLevelFns \<Rightarrow> ('i, 'd) TwoLevelIterator \<times> 'w \<Rightarrow> 'd option \<Rightarrow> ('i, 'd) TwoLevelIterator \<times> 'w" where
  "SetDataIterator F s data_iter =
     (case s of (t, w) \<Rightarrow>
        let t = (case wr_iter (tl_data t) of None \<Rightarrow> t | Some old \<Rightarrow> tl_SaveError t (itStatus (tf_data F) (old, w)));
            w = (case wr_iter (tl_data t) of None \<Rightarrow> w | Some old \<Rightarrow> tf_delete F old w)
        in (t\<lparr>tl_data := wr_out (wr_Set (tf_data F) (wr_in (tl_data t) w) (map_option (\<lambda>d. (d, w)) data_iter))\<rparr>, w))"

definition InitDataBlock ::
  "('i, 'd, 'w) TwoLevelFns \<Rightarrow> ('i, 'd) TwoLevelIterator \<times> 'w \<Rightarrow> (('i, 'd) TwoLevelIterator \<times> 'w) option" where
  "InitDataBlock F s =
     (case s of (t, w) \<Rightarrow>
        if \<not> wr_valid (tl_index t) then Some (SetDataIterator F (t, w) None)
        else
          let handle = wr_value (tf_index F) (tl_index t) in
          if wr_iter (tl_data t) \<noteq> None \<and> slice_compare handle (tl_handle t) = 0 then Some (t, w)
          else
            case tf_block F w handle of
              None \<Rightarrow> None
            | Some (iter, w) \<Rightarrow> Some (SetDataIterator F (t\<lparr>tl_handle := handle\<rparr>, w) (Some iter)))"

text \<open>A move of the block iterator, when there is one.\<close>

definition data_move ::
  "(('d \<times> 'w) Wrapper \<Rightarrow> ('d \<times> 'w) Wrapper option) \<Rightarrow> ('i, 'd) TwoLevelIterator \<times> 'w \<Rightarrow> (('i, 'd) TwoLevelIterator \<times> 'w) option" where
  "data_move move s =
     (case s of (t, w) \<Rightarrow>
        map_option (\<lambda>wr. (t\<lparr>tl_data := wr_out wr\<rparr>, snd (the (wr_iter wr)))) (move (wr_in (tl_data t) w)))"

definition if_data ::
  "(('d \<times> 'w) Wrapper \<Rightarrow> ('d \<times> 'w) Wrapper option) \<Rightarrow> ('i, 'd) TwoLevelIterator \<times> 'w \<Rightarrow> (('i, 'd) TwoLevelIterator \<times> 'w) option" where
  "if_data move s = (if wr_iter (tl_data (fst s)) \<noteq> None then data_move move s else Some s)"

definition index_move ::
  "('i Wrapper \<Rightarrow> 'i Wrapper option) \<Rightarrow> ('i, 'd) TwoLevelIterator \<times> 'w \<Rightarrow> (('i, 'd) TwoLevelIterator \<times> 'w) option" where
  "index_move move s = map_option (\<lambda>i. ((fst s)\<lparr>tl_index := i\<rparr>, snd s)) (move (tl_index (fst s)))"

text \<open>What every change of block does: move the index, open the block, and go to an entry of it.\<close>

definition change_block ::
  "('i, 'd, 'w) TwoLevelFns \<Rightarrow> ('i Wrapper \<Rightarrow> 'i Wrapper option) \<Rightarrow> (('d \<times> 'w) Wrapper \<Rightarrow> ('d \<times> 'w) Wrapper option) \<Rightarrow>
     ('i, 'd) TwoLevelIterator \<times> 'w \<Rightarrow> (('i, 'd) TwoLevelIterator \<times> 'w) option" where
  "change_block F imove move s =
     Option.bind (index_move imove s) (\<lambda>s. Option.bind (InitDataBlock F s) (if_data move))"

partial_function (option) SkipEmptyDataBlocksForward ::
  "('i, 'd, 'w) TwoLevelFns \<Rightarrow> ('i, 'd) TwoLevelIterator \<times> 'w \<Rightarrow> (('i, 'd) TwoLevelIterator \<times> 'w) option" where
  "SkipEmptyDataBlocksForward F s =
     (if wr_iter (tl_data (fst s)) = None \<or> \<not> wr_valid (tl_data (fst s)) then
        if \<not> wr_valid (tl_index (fst s)) then Some (SetDataIterator F s None)
        else
          Option.bind (change_block F (wr_Next (tf_index F)) (wr_SeekToFirst (tf_data F)) s) (SkipEmptyDataBlocksForward F)
      else Some s)"

partial_function (option) SkipEmptyDataBlocksBackward ::
  "('i, 'd, 'w) TwoLevelFns \<Rightarrow> ('i, 'd) TwoLevelIterator \<times> 'w \<Rightarrow> (('i, 'd) TwoLevelIterator \<times> 'w) option" where
  "SkipEmptyDataBlocksBackward F s =
     (if wr_iter (tl_data (fst s)) = None \<or> \<not> wr_valid (tl_data (fst s)) then
        if \<not> wr_valid (tl_index (fst s)) then Some (SetDataIterator F s None)
        else
          Option.bind (change_block F (wr_Prev (tf_index F)) (wr_SeekToLast (tf_data F)) s) (SkipEmptyDataBlocksBackward F)
      else Some s)"

definition tl_Seek where
  "tl_Seek F s target =
     Option.bind (change_block F (\<lambda>i. wr_Seek (tf_index F) i target) (\<lambda>d. wr_Seek (tf_data F) d target) s)
       (SkipEmptyDataBlocksForward F)"

definition tl_SeekToFirst where
  "tl_SeekToFirst F s =
     Option.bind (change_block F (wr_SeekToFirst (tf_index F)) (wr_SeekToFirst (tf_data F)) s) (SkipEmptyDataBlocksForward F)"

definition tl_SeekToLast where
  "tl_SeekToLast F s =
     Option.bind (change_block F (wr_SeekToLast (tf_index F)) (wr_SeekToLast (tf_data F)) s) (SkipEmptyDataBlocksBackward F)"

definition tl_Next where
  "tl_Next F s = Option.bind (data_move (wr_Next (tf_data F)) s) (SkipEmptyDataBlocksForward F)"

definition tl_Prev where
  "tl_Prev F s = Option.bind (data_move (wr_Prev (tf_data F)) s) (SkipEmptyDataBlocksBackward F)"

definition tl_Valid :: "('i, 'd) TwoLevelIterator \<times> 'w \<Rightarrow> bool" where
  "tl_Valid s \<longleftrightarrow> wr_valid (tl_data (fst s))"

definition tl_key :: "('i, 'd) TwoLevelIterator \<times> 'w \<Rightarrow> bytes" where
  "tl_key s = wr_key (tl_data (fst s))"

definition tl_value :: "('i, 'd, 'w) TwoLevelFns \<Rightarrow> ('i, 'd) TwoLevelIterator \<times> 'w \<Rightarrow> bytes" where
  "tl_value F s = wr_value (tf_data F) (wr_in (tl_data (fst s)) (snd s))"

definition TwoLevel_status :: "('i, 'd, 'w) TwoLevelFns \<Rightarrow> ('i, 'd) TwoLevelIterator \<times> 'w \<Rightarrow> status" where
  "TwoLevel_status F s =
     (let i = wr_status (tf_index F) (tl_index (fst s)); data = wr_in (tl_data (fst s)) (snd s) in
      if \<not> ok i then i
      else if wr_iter data \<noteq> None \<and> \<not> ok (wr_status (tf_data F) data) then wr_status (tf_data F) data
      else tl_status (fst s))"

definition TwoLevel_Iter :: "('i, 'd, 'w) TwoLevelFns \<Rightarrow> (('i, 'd) TwoLevelIterator \<times> 'w) IteratorOps" where
  "TwoLevel_Iter F =
     \<lparr>itValid = tl_Valid, itSeekToFirst = tl_SeekToFirst F, itSeekToLast = tl_SeekToLast F, itSeek = tl_Seek F,
      itNext = tl_Next F, itPrev = tl_Prev F, itKey = tl_key, itValue = tl_value F, itStatus = TwoLevel_status F\<rparr>"

text \<open>The destructor deletes the block iterator it still has; the index iterator holds nothing.\<close>

definition TwoLevel_delete :: "('i, 'd, 'w) TwoLevelFns \<Rightarrow> ('i, 'd) TwoLevelIterator \<Rightarrow> 'w \<Rightarrow> 'w" where
  "TwoLevel_delete F t w = (case wr_iter (tl_data t) of None \<Rightarrow> w | Some d \<Rightarrow> tf_delete F d w)"

section \<open>The contracts\<close>

text \<open>\<open>hold d\<close> is what an iterator holds of the world, \<open>wok w H\<close> that the world is sound while \<open>H\<close> is
  held. The iterator moves in any sound world, and leaves it sound.\<close>

locale world_iterator = comparison valid Compare
  for valid :: "bytes \<Rightarrow> bool" and Compare :: "bytes \<Rightarrow> bytes \<Rightarrow> int" +
  fixes ops :: "('d \<times> 'w) IteratorOps"
    and wsits :: "'d \<Rightarrow> (bytes \<times> bytes) list \<Rightarrow> nat \<Rightarrow> bool"
    and wok :: "'w \<Rightarrow> 'h multiset \<Rightarrow> bool"
    and hold :: "'d \<Rightarrow> 'h multiset"
  assumes in_world: "sorted_iterator valid Compare ops
    (\<lambda>p kvs i. wsits (fst p) kvs i \<and> wok (snd p) (H + hold (fst p)))"
begin

sublocale pair: sorted_iterator valid Compare ops "\<lambda>p kvs i. wsits (fst p) kvs i \<and> wok (snd p) (H + hold (fst p))" for H
  by (rule in_world)

text \<open>The wrapper of such an iterator, without its world.\<close>

definition dsits :: "'d Wrapper \<Rightarrow> (bytes \<times> bytes) list \<Rightarrow> nat \<Rightarrow> bool" where
  "dsits wr kvs j \<longleftrightarrow> (\<exists>d. wr_iter wr = Some d \<and> wsits d kvs j) \<and> wr_valid wr = (j < length kvs) \<and>
     (j < length kvs \<longrightarrow> wr_key wr = fst (kvs ! j))"

definition dhold :: "'d Wrapper \<Rightarrow> 'h multiset" where
  "dhold wr = (case wr_iter wr of None \<Rightarrow> {#} | Some d \<Rightarrow> hold d)"

lemma wr_sits_in:
  "wr_iter wr \<noteq> None \<Longrightarrow> pair.wr_sits H (wr_in wr w) kvs j \<longleftrightarrow> dsits wr kvs j \<and> wok w (H + dhold wr)"
  by (auto simp: pair.wr_sits_def wr_in_def dsits_def dhold_def)

lemma wr_sits_out:
  "pair.wr_sits H wr kvs j \<Longrightarrow> dsits (wr_out wr) kvs j \<and> wok (snd (the (wr_iter wr))) (H + dhold (wr_out wr))"
  by (auto simp: pair.wr_sits_def wr_out_def dsits_def dhold_def)

end

text \<open>An index over blocks: \<open>blk h\<close> is the list of entries of the block with handle \<open>h\<close>, \<open>handle_ok\<close> the
  handles that can be opened.\<close>

locale two_level = world_iterator valid Compare "tf_data F" wsits wok hold +
  index: sorted_iterator valid Compare "tf_index F" isits
  for valid :: "bytes \<Rightarrow> bool" and Compare :: "bytes \<Rightarrow> bytes \<Rightarrow> int"
    and F :: "('i, 'd, 'w) TwoLevelFns"
    and isits :: "'i \<Rightarrow> (bytes \<times> bytes) list \<Rightarrow> nat \<Rightarrow> bool"
    and wsits :: "'d \<Rightarrow> (bytes \<times> bytes) list \<Rightarrow> nat \<Rightarrow> bool"
    and wok :: "'w \<Rightarrow> 'h multiset \<Rightarrow> bool"
    and hold :: "'d \<Rightarrow> 'h multiset" +
  fixes blk :: "bytes \<Rightarrow> (bytes \<times> bytes) list" and handle_ok :: "bytes \<Rightarrow> bool"
  assumes opens: "wok w H \<Longrightarrow> handle_ok h \<Longrightarrow>
      \<exists>d w' j. tf_block F w h = Some (d, w') \<and> wsits d (blk h) j \<and> wok w' (H + hold d)"
    and closes: "wsits d kvs j \<Longrightarrow> wok w (H + hold d) \<Longrightarrow> wok (tf_delete F d w) H"
begin

text \<open>The entries behind an index, and how the index divides them.\<close>

definition entries :: "(bytes \<times> bytes) list \<Rightarrow> (bytes \<times> bytes) list" where
  "entries ivs = concat (map (\<lambda>iv. blk (snd iv)) ivs)"

definition divides :: "(bytes \<times> bytes) list \<Rightarrow> bool" where
  "divides ivs \<longleftrightarrow> (\<forall>iv\<in>set ivs. handle_ok (snd iv)) \<and>
     (\<forall>m<length ivs. \<forall>kv\<in>set (blk (snd (ivs ! m))). valid (fst kv) \<and> Compare (fst kv) (fst (ivs ! m)) \<le> 0) \<and>
     (\<forall>m n. m < n \<longrightarrow> n < length ivs \<longrightarrow> (\<forall>kv\<in>set (blk (snd (ivs ! n))). Compare (fst (ivs ! m)) (fst kv) < 0))"

definition off :: "(bytes \<times> bytes) list \<Rightarrow> nat \<Rightarrow> nat" where
  "off ivs n = length (entries (take n ivs))"

lemma in_entries:
  "kv \<in> set (entries (take n ivs)) \<Longrightarrow> \<exists>m<n. m < length ivs \<and> kv \<in> set (blk (snd (ivs ! m)))"
  "kv \<in> set (entries (drop n ivs)) \<Longrightarrow> \<exists>m\<ge>n. m < length ivs \<and> kv \<in> set (blk (snd (ivs ! m)))"
proof -
  assume "kv \<in> set (entries (take n ivs))"
  then obtain iv where "iv \<in> set (take n ivs)" "kv \<in> set (blk (snd iv))" by (auto simp: entries_def)
  then show "\<exists>m<n. m < length ivs \<and> kv \<in> set (blk (snd (ivs ! m)))" by (auto simp: in_set_conv_nth [of _ "take n ivs"])
next
  assume "kv \<in> set (entries (drop n ivs))"
  then obtain iv where iv: "iv \<in> set (drop n ivs)" "kv \<in> set (blk (snd iv))" by (auto simp: entries_def)
  from iv(1) obtain m where "m < length ivs - n" "ivs ! (n + m) = iv" by (auto simp: in_set_conv_nth [of _ "drop n ivs"])
  with iv(2) show "\<exists>m\<ge>n. m < length ivs \<and> kv \<in> set (blk (snd (ivs ! m)))" by (intro exI [of _ "n + m"]) auto
qed

text \<open>Whatever the block iterator stands on, it is one over the block of the handle remembered.\<close>

definition loaded :: "('i, 'd) TwoLevelIterator \<Rightarrow> bool" where
  "loaded t \<longleftrightarrow> ok (tl_status t) \<and>
     (case wr_iter (tl_data t) of None \<Rightarrow> \<not> wr_valid (tl_data t)
      | Some d \<Rightarrow> handle_ok (tl_handle t) \<and> (\<exists>j. dsits (tl_data t) (blk (tl_handle t)) j))"

text \<open>The index stands at block \<open>n\<close>, and the block iterator, if there is a block, at its entry \<open>j\<close>.\<close>

definition at_entry :: "('i, 'd) TwoLevelIterator \<Rightarrow> (bytes \<times> bytes) list \<Rightarrow> nat \<Rightarrow> nat \<Rightarrow> bool" where
  "at_entry t ivs n j \<longleftrightarrow> index.wr_sits (tl_index t) ivs n \<and> loaded t \<and>
     (if n < length ivs then tl_handle t = snd (ivs ! n) \<and> dsits (tl_data t) (blk (tl_handle t)) j
      else n = length ivs \<and> j = 0 \<and> wr_iter (tl_data t) = None)"

definition tl_sits :: "('i, 'd) TwoLevelIterator \<Rightarrow> (bytes \<times> bytes) list \<Rightarrow> nat \<Rightarrow> bool" where
  "tl_sits t kvs i \<longleftrightarrow> (\<exists>ivs n j. kvs = entries ivs \<and> divides ivs \<and> at_entry t ivs n j \<and>
     (if n < length ivs then j < length (blk (snd (ivs ! n))) \<and> i = off ivs n + j else i = length kvs))"

definition tl_hold :: "('i, 'd) TwoLevelIterator \<Rightarrow> 'h multiset" where
  "tl_hold t = dhold (tl_data t)"

lemma off_Suc: "n < length ivs \<Longrightarrow> off ivs (Suc n) = off ivs n + length (blk (snd (ivs ! n)))"
  by (simp add: off_def entries_def take_Suc_conv_app_nth)

lemma off_0 [simp]: "off ivs 0 = 0"
  by (simp add: off_def entries_def)

lemma off_all: "off ivs (length ivs) = length (entries ivs)"
  by (simp add: off_def)

lemma off_le: "off ivs n \<le> length (entries ivs)"
proof -
  have "entries ivs = entries (take n ivs) @ entries (drop n ivs)"
    by (metis append_take_drop_id concat_append entries_def map_append)
  then show ?thesis by (simp add: off_def)
qed

lemma entries_split: "n < length ivs \<Longrightarrow> entries ivs = entries (take n ivs) @ blk (snd (ivs ! n)) @ entries (drop (Suc n) ivs)"
proof -
  assume n: "n < length ivs"
  have "entries (take n ivs @ ivs ! n # drop (Suc n) ivs) = entries (take n ivs) @ blk (snd (ivs ! n)) @ entries (drop (Suc n) ivs)"
    by (simp add: entries_def)
  then show ?thesis by (simp only: id_take_nth_drop [OF n, symmetric])
qed

lemma entries_nth: "n < length ivs \<Longrightarrow> j < length (blk (snd (ivs ! n))) \<Longrightarrow> entries ivs ! (off ivs n + j) = blk (snd (ivs ! n)) ! j"
  by (simp add: entries_split [of n ivs] off_def nth_append)

lemma off_bound: "n < length ivs \<Longrightarrow> j < length (blk (snd (ivs ! n))) \<Longrightarrow> off ivs n + j < length (entries ivs)"
  by (simp add: entries_split [of n ivs] off_def)

subsection \<open>Loading a block\<close>

lemma old_status:
  assumes "loaded t" "wok w (H + tl_hold t)" "wr_iter (tl_data t) = Some d"
  shows "ok (itStatus (tf_data F) (d, w))" "wok (tf_delete F d w) H"
proof -
  obtain j where j: "wsits d (blk (tl_handle t)) j" using assms(1,3) by (auto simp: loaded_def dsits_def)
  have w: "wok w (H + hold d)" using assms(2,3) by (simp add: tl_hold_def dhold_def)
  show "ok (itStatus (tf_data F) (d, w))" using pair.sits_valid [of "(d, w)" _ j H] j w by simp
  show "wok (tf_delete F d w) H" by (rule closes [OF j w])
qed

lemma set_data_none:
  assumes "loaded t" "wok w (H + tl_hold t)"
  shows "\<exists>w' dat. SetDataIterator F (t, w) None = (t\<lparr>tl_data := dat\<rparr>, w') \<and> wr_iter dat = None \<and> \<not> wr_valid dat \<and> wok w' H"
proof (cases "wr_iter (tl_data t)")
  case None
  then show ?thesis using assms
    by (auto simp: SetDataIterator_def wr_Set_def wr_in_def wr_out_def tl_hold_def dhold_def)
next
  case (Some d)
  show ?thesis using old_status [OF assms Some] Some
    by (auto simp: SetDataIterator_def wr_Set_def wr_in_def wr_out_def tl_SaveError_def)
qed

lemma set_data_some:
  assumes "loaded t" "wok w (H + hold d + tl_hold t)" "wsits d kvs j"
  shows "\<exists>w' dat. SetDataIterator F (t, w) (Some d) = (t\<lparr>tl_data := dat\<rparr>, w') \<and> dsits dat kvs j \<and> wok w' (H + dhold dat)"
proof -
  have set: "dsits (wr_out (wr_Set (tf_data F) (wr_in wr w') (Some (d, w')))) kvs j \<and>
      dhold (wr_out (wr_Set (tf_data F) (wr_in wr w') (Some (d, w')))) = hold d" if "wok w' (H + hold d)" for wr w'
  proof -
    have "pair.wr_sits H (wr_Set (tf_data F) (wr_in wr w') (Some (d, w'))) kvs j"
      unfolding wr_Set_def Let_def option.case by (rule pair.wr_Update_sits) (use assms(3) that in simp)
    from wr_sits_out [OF this] show ?thesis
      by (auto simp: wr_Set_def wr_Update_def Let_def wr_out_def dhold_def)
  qed
  show ?thesis
  proof (cases "wr_iter (tl_data t)")
    case None
    then have w: "wok w (H + hold d)" using assms(2) by (simp add: tl_hold_def dhold_def)
    show ?thesis using set [OF w, of "tl_data t"] w None by (auto simp: SetDataIterator_def)
  next
    case (Some old)
    note o = old_status [OF assms(1,2) Some]
    show ?thesis using set [OF o(2), of "tl_data t"] o Some by (auto simp: SetDataIterator_def tl_SaveError_def Let_def)
  qed
qed

lemma index_value: "index.wr_sits i ivs n \<Longrightarrow> n < length ivs \<Longrightarrow> wr_value (tf_index F) i = snd (ivs ! n)"
proof -
  assume a: "index.wr_sits i ivs n" "n < length ivs"
  then obtain it where it: "wr_iter i = Some it" "isits it ivs n" by (auto simp: index.wr_sits_def)
  from index.sits_entry [OF this(2) a(2)] have "itValue (tf_index F) it = snd (ivs ! n)" by (metis snd_conv)
  then show "wr_value (tf_index F) i = snd (ivs ! n)" by (simp add: wr_value_def it(1))
qed

lemma init_block:
  assumes i: "index.wr_sits (tl_index t) ivs n" and l: "loaded t" and d: "divides ivs" and w: "wok w (H + tl_hold t)"
  shows "\<exists>t' w' j. InitDataBlock F (t, w) = Some (t', w') \<and> at_entry t' ivs n j \<and> wok w' (H + tl_hold t')"
proof (cases "n < length ivs")
  case False
  then have "\<not> wr_valid (tl_index t)" "n = length ivs" using i index.sits_sorted by (fastforce simp: index.wr_sits_def)+
  moreover from set_data_none [OF l w] obtain w' dat where
    "SetDataIterator F (t, w) None = (t\<lparr>tl_data := dat\<rparr>, w')" "wr_iter dat = None" "\<not> wr_valid dat" "wok w' H" by blast
  ultimately show ?thesis using i l
    by (auto simp: InitDataBlock_def at_entry_def tl_hold_def dhold_def loaded_def)
next
  case True
  then have v: "wr_valid (tl_index t)" using i by (simp add: index.wr_sits_def)
  note val = index_value [OF i True]
  let ?h = "snd (ivs ! n)"
  have h: "handle_ok ?h" using d nth_mem [OF True] by (auto simp: divides_def)
  show ?thesis
  proof (cases "wr_iter (tl_data t) \<noteq> None \<and> slice_compare ?h (tl_handle t) = 0")
    case same: True
    then have "tl_handle t = ?h" by (auto simp: slice_compare_eq split: if_splits)
    moreover obtain j where "dsits (tl_data t) (blk (tl_handle t)) j" using l same by (auto simp: loaded_def)
    ultimately show ?thesis using same v val i l w True by (auto simp: InitDataBlock_def at_entry_def)
  next
    case False
    from opens [OF w h] obtain d w1 j where o: "tf_block F w ?h = Some (d, w1)" "wsits d (blk ?h) j"
      "wok w1 (H + tl_hold t + hold d)" by blast
    let ?t = "t\<lparr>tl_handle := ?h\<rparr>"
    have "wok w1 (H + hold d + tl_hold t)" using o(3) by (simp add: ac_simps)
    moreover have "\<exists>w' dat. SetDataIterator F (?t, w1) (Some d) = (?t\<lparr>tl_data := dat\<rparr>, w') \<and> dsits dat (blk ?h) j \<and> wok w' (H + dhold dat)"
    proof -
      obtain w' dat where r: "SetDataIterator F (t, w1) (Some d) = (t\<lparr>tl_data := dat\<rparr>, w')" "dsits dat (blk ?h) j" "wok w' (H + dhold dat)"
        using set_data_some [OF l \<open>wok w1 (H + hold d + tl_hold t)\<close> o(2)] by blast
      have "SetDataIterator F (?t, w1) (Some d) = ((fst (SetDataIterator F (t, w1) (Some d)))\<lparr>tl_handle := ?h\<rparr>, snd (SetDataIterator F (t, w1) (Some d)))"
        by (auto simp: SetDataIterator_def tl_SaveError_def Let_def split: option.splits)
      with r show ?thesis by (intro exI [of _ w'] exI [of _ dat]) simp
    qed
    then obtain w' dat where r: "SetDataIterator F (?t, w1) (Some d) = (?t\<lparr>tl_data := dat\<rparr>, w')" "dsits dat (blk ?h) j" "wok w' (H + dhold dat)"
      by blast
    have "InitDataBlock F (t, w) = Some (SetDataIterator F (?t, w1) (Some d))"
      using v val False o(1) by (auto simp: InitDataBlock_def)
    moreover have "wr_iter dat \<noteq> None" using r(2) by (auto simp: dsits_def)
    then have "at_entry (?t\<lparr>tl_data := dat\<rparr>) ivs n j"
      using i l True h r(2) by (auto simp: at_entry_def loaded_def)
    ultimately show ?thesis using r by (auto simp: tl_hold_def)
  qed
qed

text \<open>Moves of the two iterators.\<close>

lemma data_moves:
  assumes "dsits (tl_data t) kvs j" "wok w (H + tl_hold t)"
    and "\<And>wr. pair.wr_sits H wr kvs j \<Longrightarrow> \<exists>wr'. move wr = Some wr' \<and> pair.wr_sits H wr' kvs k"
  shows "\<exists>dat w'. data_move move (t, w) = Some (t\<lparr>tl_data := dat\<rparr>, w') \<and> dsits dat kvs k \<and> wok w' (H + dhold dat)"
proof -
  have "wr_iter (tl_data t) \<noteq> None" using assms(1) by (auto simp: dsits_def)
  from wr_sits_in [OF this] assms(1,2) have "pair.wr_sits H (wr_in (tl_data t) w) kvs j" by (simp add: tl_hold_def)
  from assms(3) [OF this] obtain wr' where "move (wr_in (tl_data t) w) = Some wr'" "pair.wr_sits H wr' kvs k" by blast
  with wr_sits_out [OF this(2)] show ?thesis by (auto simp: data_move_def)
qed

lemma entry_data_moves:
  assumes "at_entry t ivs n j" "n < length ivs" "wok w (H + tl_hold t)"
    and "\<And>wr. pair.wr_sits H wr (blk (snd (ivs ! n))) j \<Longrightarrow> \<exists>wr'. move wr = Some wr' \<and> pair.wr_sits H wr' (blk (snd (ivs ! n))) k"
  shows "\<exists>t' w'. data_move move (t, w) = Some (t', w') \<and> at_entry t' ivs n k \<and> wok w' (H + tl_hold t')"
proof -
  have h: "tl_handle t = snd (ivs ! n)" "dsits (tl_data t) (blk (snd (ivs ! n))) j" "loaded t" "index.wr_sits (tl_index t) ivs n"
    using assms(1,2) by (auto simp: at_entry_def)
  then have "handle_ok (tl_handle t)" by (auto simp: loaded_def dsits_def)
  with data_moves [OF h(2) assms(3,4)] h assms(2) show ?thesis
    by (fastforce simp: at_entry_def loaded_def tl_hold_def dsits_def)
qed

text \<open>The index goes to block \<open>n\<close>, then the block iterator, if there is one, to entry \<open>k n\<close>.\<close>

lemma go_to_block:
  assumes i: "index_move imove (t, w) = Some (t\<lparr>tl_index := i'\<rparr>, w)" "index.wr_sits i' ivs n"
    and l: "loaded t" "divides ivs" "wok w (H + tl_hold t)"
    and m: "\<And>wr j. n < length ivs \<Longrightarrow> pair.wr_sits H wr (blk (snd (ivs ! n))) j \<Longrightarrow>
      \<exists>wr'. move wr = Some wr' \<and> pair.wr_sits H wr' (blk (snd (ivs ! n))) k"
    and k: "n = length ivs \<Longrightarrow> k = 0"
  shows "\<exists>s. change_block F imove move (t, w) = Some s \<and> at_entry (fst s) ivs n k \<and> wok (snd s) (H + tl_hold (fst s))"
proof -
  let ?t = "t\<lparr>tl_index := i'\<rparr>"
  have t: "index.wr_sits (tl_index ?t) ivs n" "loaded ?t" "wok w (H + tl_hold ?t)" using i l by (simp_all add: loaded_def tl_hold_def cong: option.case_cong)
  from init_block [OF t(1,2) l(2) t(3)] obtain t1 w1 j where
    1: "InitDataBlock F (?t, w) = Some (t1, w1)" "at_entry t1 ivs n j" "wok w1 (H + tl_hold t1)" by blast
  show ?thesis
  proof (cases "n < length ivs")
    case True
    have "\<exists>t' w'. data_move move (t1, w1) = Some (t', w') \<and> at_entry t' ivs n k \<and> wok w' (H + tl_hold t')"
      by (rule entry_data_moves [OF 1(2) True 1(3)]) (rule m [OF True])
    then obtain t2 w2 where
      2: "data_move move (t1, w1) = Some (t2, w2)" "at_entry t2 ivs n k" "wok w2 (H + tl_hold t2)" by blast
    have "wr_iter (tl_data t1) \<noteq> None" using 1(2) True by (auto simp: at_entry_def dsits_def)
    then show ?thesis using i(1) 1(1) 2 by (intro exI [of _ "(t2, w2)"]) (simp add: change_block_def if_data_def)
  next
    case False
    then have "n = length ivs" "wr_iter (tl_data t1) = None" "j = 0" using 1(2) by (simp_all add: at_entry_def)
    then show ?thesis using i(1) 1 k by (intro exI [of _ "(t1, w1)"]) (simp add: change_block_def if_data_def)
  qed
qed

subsection \<open>Skipping empty blocks\<close>

lemma at_entryD:
  "at_entry t ivs n j \<Longrightarrow> n < length ivs \<Longrightarrow>
    wr_iter (tl_data t) \<noteq> None \<and> (wr_valid (tl_data t) \<longleftrightarrow> j < length (blk (snd (ivs ! n)))) \<and>
    tl_handle t = snd (ivs ! n) \<and> dsits (tl_data t) (blk (snd (ivs ! n))) j \<and> wr_valid (tl_index t)"
  "at_entry t ivs n j \<Longrightarrow> \<not> n < length ivs \<Longrightarrow>
    n = length ivs \<and> j = 0 \<and> wr_iter (tl_data t) = None \<and> \<not> wr_valid (tl_data t) \<and> \<not> wr_valid (tl_index t)"
  "at_entry t ivs n j \<Longrightarrow> loaded t \<and> index.wr_sits (tl_index t) ivs n"
  by (auto simp: at_entry_def loaded_def index.wr_sits_def dsits_def)

lemma at_entry_le: "at_entry t ivs n j \<Longrightarrow> n < length ivs \<Longrightarrow> wok w (H + tl_hold t) \<Longrightarrow> j \<le> length (blk (snd (ivs ! n)))"
proof -
  assume a: "at_entry t ivs n j" "n < length ivs" "wok w (H + tl_hold t)"
  from at_entryD(1) [OF a(1,2)] obtain d where "wr_iter (tl_data t) = Some d" "wsits d (blk (snd (ivs ! n))) j"
    by (auto simp: dsits_def)
  then show ?thesis using pair.sits_sorted [of "(d, w)" _ j H] a(3) by (simp add: tl_hold_def dhold_def)
qed

lemma tl_sitsI:
  assumes "at_entry t ivs n j" "divides ivs" "n < length ivs \<Longrightarrow> j < length (blk (snd (ivs ! n)))"
  shows "tl_sits t (entries ivs) (off ivs n + j)"
  unfolding tl_sits_def using assms at_entryD(2) [OF assms(1)]
  by (intro exI [of _ ivs] exI [of _ n] exI [of _ j]) (auto simp: off_all)

text \<open>Running off a block on either side.\<close>

lemma leave_index:
  assumes "at_entry t ivs n j" "\<not> n < length ivs" "divides ivs" "wok w (H + tl_hold t)"
  shows "\<exists>s. Some (SetDataIterator F (t, w) None) = Some s \<and> tl_sits (fst s) (entries ivs) (length (entries ivs)) \<and>
    wok (snd s) (H + tl_hold (fst s))"
proof -
  note a = at_entryD(2) [OF assms(1,2)] at_entryD(3) [OF assms(1)]
  from set_data_none [OF _ assms(4)] a obtain w' dat where
    r: "SetDataIterator F (t, w) None = (t\<lparr>tl_data := dat\<rparr>, w')" "wr_iter dat = None" "\<not> wr_valid dat" "wok w' H" by blast
  have "at_entry (t\<lparr>tl_data := dat\<rparr>) ivs n 0"
    using a r assms(2) by (auto simp: at_entry_def loaded_def)
  from tl_sitsI [OF this assms(3)] a assms(2) have "tl_sits (t\<lparr>tl_data := dat\<rparr>) (entries ivs) (length (entries ivs))"
    by (simp add: off_all)
  then show ?thesis using r by (simp add: tl_hold_def dhold_def)
qed

lemma index_steps:
  "\<exists>i'. imove (tl_index t) = Some i' \<and> index.wr_sits i' ivs n \<Longrightarrow>
    \<exists>i'. index_move imove (t, w) = Some (t\<lparr>tl_index := i'\<rparr>, w) \<and> index.wr_sits i' ivs n"
  by (auto simp: index_move_def)

lemma skip_forward:
  assumes "at_entry t ivs n j" "divides ivs" "wok w (H + tl_hold t)"
  shows "\<exists>s. SkipEmptyDataBlocksForward F (t, w) = Some s \<and> tl_sits (fst s) (entries ivs) (off ivs n + j) \<and>
    wok (snd s) (H + tl_hold (fst s))"
  using assms
proof (induction "length ivs - n" arbitrary: n j t w)
  case 0
  then have n: "\<not> n < length ivs" by simp
  note a = at_entryD(2) [OF 0(2) n]
  show ?case using leave_index [OF 0(2) n 0(3,4)] a by (simp add: SkipEmptyDataBlocksForward.simps [of F "(t, w)"] off_all)
next
  case (Suc k)
  then have n: "n < length ivs" by simp
  note a = at_entryD(1) [OF Suc(3) n] at_entryD(3) [OF Suc(3)]
  show ?case
  proof (cases "j < length (blk (snd (ivs ! n)))")
    case True
    then show ?thesis using a tl_sitsI [OF Suc(3,4)] Suc(5)
      by (intro exI [of _ "(t, w)"]) (auto simp: SkipEmptyDataBlocksForward.simps [of F "(t, w)"])
  next
    case False
    then have j: "off ivs n + j = off ivs (Suc n) + 0" using at_entry_le [OF Suc(3) n Suc(5)] n by (simp add: off_Suc)
    from a have "index.wr_sits (tl_index t) ivs n" by blast
    from index_steps [where imove = "wr_Next (tf_index F)" and w = w, OF index.wr_moves(4) [OF this n]] obtain i' where
      i': "index_move (wr_Next (tf_index F)) (t, w) = Some (t\<lparr>tl_index := i'\<rparr>, w)" "index.wr_sits i' ivs (Suc n)" by blast
    have l: "loaded t" using a by blast
    have "\<exists>s. change_block F (wr_Next (tf_index F)) (wr_SeekToFirst (tf_data F)) (t, w) = Some s \<and>
        at_entry (fst s) ivs (Suc n) 0 \<and> wok (snd s) (H + tl_hold (fst s))"
      by (rule go_to_block [OF i' l Suc(4,5)]) (rule pair.wr_moves(1), assumption, simp)
    moreover have "SkipEmptyDataBlocksForward F (t, w) =
        Option.bind (change_block F (wr_Next (tf_index F)) (wr_SeekToFirst (tf_data F)) (t, w)) (SkipEmptyDataBlocksForward F)"
      using False a by (simp add: SkipEmptyDataBlocksForward.simps [of F "(t, w)"])
    ultimately obtain s where s: "SkipEmptyDataBlocksForward F (t, w) = SkipEmptyDataBlocksForward F s"
      "at_entry (fst s) ivs (Suc n) 0" "wok (snd s) (H + tl_hold (fst s))" by auto
    from Suc.hyps(1) [OF _ s(2) Suc(4) s(3)] Suc(2) s(1) j show ?thesis by (cases s) simp
  qed
qed

lemma skip_backward:
  assumes "at_entry t ivs n j" "divides ivs" "wok w (H + tl_hold t)"
    and "n < length ivs \<Longrightarrow> i = (if j < length (blk (snd (ivs ! n))) then off ivs n + j
      else if off ivs n = 0 then length (entries ivs) else off ivs n - 1)"
    and "\<not> n < length ivs \<Longrightarrow> i = length (entries ivs)"
  shows "\<exists>s. SkipEmptyDataBlocksBackward F (t, w) = Some s \<and> tl_sits (fst s) (entries ivs) i \<and> wok (snd s) (H + tl_hold (fst s))"
  using assms
proof (induction n arbitrary: j t w i rule: less_induct)
  case (less n)
  show ?case
  proof (cases "n < length ivs")
    case out: False
    note a = at_entryD(2) [OF less(2) out]
    show ?thesis using leave_index [OF less(2) out less(3,4)] a less(6) [OF out]
      by (simp add: SkipEmptyDataBlocksBackward.simps [of F "(t, w)"])
  next
    case n: True
    note a = at_entryD(1) [OF less(2) n] at_entryD(3) [OF less(2)]
    show ?thesis
    proof (cases "j < length (blk (snd (ivs ! n)))")
      case True
      then show ?thesis using a tl_sitsI [OF less(2,3)] less(4) less(5) [OF n]
        by (intro exI [of _ "(t, w)"]) (auto simp: SkipEmptyDataBlocksBackward.simps [of F "(t, w)"])
    next
      case False
      let ?n = "if n = 0 then length ivs else n - 1"
      let ?k = "if n = 0 then 0 else length (blk (snd (ivs ! (n - 1)))) - 1"
      from a have "index.wr_sits (tl_index t) ivs n" by blast
      from index_steps [where imove = "wr_Prev (tf_index F)" and w = w, OF index.wr_moves(5) [OF this n]] obtain i' where
        i': "index_move (wr_Prev (tf_index F)) (t, w) = Some (t\<lparr>tl_index := i'\<rparr>, w)" "index.wr_sits i' ivs ?n" by blast
      have l: "loaded t" using a by blast
      have m: "\<exists>wr'. wr_SeekToLast (tf_data F) wr = Some wr' \<and> pair.wr_sits H wr' (blk (snd (ivs ! ?n))) ?k"
        if "?n < length ivs" "pair.wr_sits H wr (blk (snd (ivs ! ?n))) j" for wr j
        using that pair.wr_moves(2) [OF that(2)] by (simp split: if_splits)
      have "\<exists>s. change_block F (wr_Prev (tf_index F)) (wr_SeekToLast (tf_data F)) (t, w) = Some s \<and>
          at_entry (fst s) ivs ?n ?k \<and> wok (snd s) (H + tl_hold (fst s))"
        by (rule go_to_block [OF i' l less(3,4)]) (rule m, assumption, assumption, use n in \<open>simp split: if_splits\<close>)
      moreover have "SkipEmptyDataBlocksBackward F (t, w) =
          Option.bind (change_block F (wr_Prev (tf_index F)) (wr_SeekToLast (tf_data F)) (t, w)) (SkipEmptyDataBlocksBackward F)"
        using False a by (simp add: SkipEmptyDataBlocksBackward.simps [of F "(t, w)"])
      ultimately obtain s where s: "SkipEmptyDataBlocksBackward F (t, w) = SkipEmptyDataBlocksBackward F s"
        "at_entry (fst s) ivs ?n ?k" "wok (snd s) (H + tl_hold (fst s))" by auto
      show ?thesis
      proof (cases "n = 0")
        case True
        obtain t' w' where s': "s = (t', w')" by (rule prod.exhaust)
        have "\<not> ?n < length ivs" using True by simp
        with leave_index [OF s(2) _ less(3) s(3)] at_entryD(2) [OF s(2)] less(5) [OF n] False True s(1)
        show ?thesis by (simp add: s' SkipEmptyDataBlocksBackward.simps [of F "(t', w')"])
      next
        case nz: False
        then have k: "?n = n - 1" "n - 1 < n" "n - 1 < length ivs" "Suc (n - 1) = n" using n by simp_all
        let ?L = "length (blk (snd (ivs ! (n - 1))))"
        have o: "off ivs n = off ivs (n - 1) + ?L" using off_Suc [OF k(3)] k(4) by simp
        have "i = (if ?k < ?L then off ivs (n - 1) + ?k else if off ivs (n - 1) = 0 then length (entries ivs) else off ivs (n - 1) - 1)"
          using less(5) [OF n] False nz o by auto
        from less(1) [OF k(2) _ less(3), of "fst s" ?k "snd s" i] s(2,3) k(1,3) this s(1) show ?thesis by simp
      qed
    qed
  qed
qed

subsection \<open>The moves\<close>

lemma tl_sitsE:
  assumes "tl_sits t kvs i" "wok w (H + tl_hold t)"
  obtains ivs n j where "kvs = entries ivs" "divides ivs" "at_entry t ivs n j" "loaded t" "index.wr_sits (tl_index t) ivs n"
    and "n < length ivs \<Longrightarrow> j < length (blk (snd (ivs ! n))) \<and> i = off ivs n + j \<and> i < length kvs"
    and "\<not> n < length ivs \<Longrightarrow> i = length kvs"
proof -
  obtain ivs n j where k: "kvs = entries ivs" "divides ivs" "at_entry t ivs n j"
    "if n < length ivs then j < length (blk (snd (ivs ! n))) \<and> i = off ivs n + j else i = length kvs"
    using assms(1) unfolding tl_sits_def by blast
  show thesis
    by (rule that [OF k(1-3)]) (use at_entryD(3) [OF k(3)] k(4) off_bound in \<open>auto simp: k(1) split: if_splits\<close>)
qed

lemma tl_SeekToFirst_moves:
  assumes "tl_sits t kvs i" "wok w (H + tl_hold t)"
  shows "\<exists>s. tl_SeekToFirst F (t, w) = Some s \<and> tl_sits (fst s) kvs 0 \<and> wok (snd s) (H + tl_hold (fst s))"
proof -
  obtain ivs n j where k: "kvs = entries ivs" "divides ivs" "loaded t" "index.wr_sits (tl_index t) ivs n"
    by (rule tl_sitsE [OF assms])
  from index_steps [where imove = "wr_SeekToFirst (tf_index F)" and w = w, OF index.wr_moves(1) [OF k(4)]] obtain i' where
    i': "index_move (wr_SeekToFirst (tf_index F)) (t, w) = Some (t\<lparr>tl_index := i'\<rparr>, w)" "index.wr_sits i' ivs 0" by blast
  have "\<exists>s. change_block F (wr_SeekToFirst (tf_index F)) (wr_SeekToFirst (tf_data F)) (t, w) = Some s \<and>
      at_entry (fst s) ivs 0 0 \<and> wok (snd s) (H + tl_hold (fst s))"
    by (rule go_to_block [OF i' k(3,2) assms(2)]) (rule pair.wr_moves(1), assumption, simp)
  then obtain s where s: "tl_SeekToFirst F (t, w) = SkipEmptyDataBlocksForward F s" "at_entry (fst s) ivs 0 0" "wok (snd s) (H + tl_hold (fst s))"
    by (auto simp: tl_SeekToFirst_def)
  from skip_forward [OF s(2) k(2) s(3)] s(1) k(1) show ?thesis by simp
qed

lemma tl_SeekToLast_moves:
  assumes "tl_sits t kvs i" "wok w (H + tl_hold t)"
  shows "\<exists>s. tl_SeekToLast F (t, w) = Some s \<and> tl_sits (fst s) kvs (length kvs - 1) \<and> wok (snd s) (H + tl_hold (fst s))"
proof -
  obtain ivs n j where k: "kvs = entries ivs" "divides ivs" "loaded t" "index.wr_sits (tl_index t) ivs n"
    by (rule tl_sitsE [OF assms])
  let ?n = "length ivs - 1" and ?k = "if ivs = [] then 0 else length (blk (snd (ivs ! (length ivs - 1)))) - 1"
  from index_steps [where imove = "wr_SeekToLast (tf_index F)" and w = w, OF index.wr_moves(2) [OF k(4)]] obtain i' where
    i': "index_move (wr_SeekToLast (tf_index F)) (t, w) = Some (t\<lparr>tl_index := i'\<rparr>, w)" "index.wr_sits i' ivs ?n" by blast
  have m: "\<exists>wr'. wr_SeekToLast (tf_data F) wr = Some wr' \<and> pair.wr_sits H wr' (blk (snd (ivs ! ?n))) ?k"
    if "?n < length ivs" "pair.wr_sits H wr (blk (snd (ivs ! ?n))) j" for wr j
    using that pair.wr_moves(2) [OF that(2)] by (auto split: if_splits)
  have "\<exists>s. change_block F (wr_SeekToLast (tf_index F)) (wr_SeekToLast (tf_data F)) (t, w) = Some s \<and>
      at_entry (fst s) ivs ?n ?k \<and> wok (snd s) (H + tl_hold (fst s))"
    by (rule go_to_block [OF i' k(3,2) assms(2)]) (rule m, assumption, assumption, cases ivs, simp, simp)
  then obtain s where s: "tl_SeekToLast F (t, w) = SkipEmptyDataBlocksBackward F s" "at_entry (fst s) ivs ?n ?k" "wok (snd s) (H + tl_hold (fst s))"
    by (auto simp: tl_SeekToLast_def)
  have "\<exists>s'. SkipEmptyDataBlocksBackward F (fst s, snd s) = Some s' \<and> tl_sits (fst s') (entries ivs) (length (entries ivs) - 1) \<and>
    wok (snd s') (H + tl_hold (fst s'))"
  proof (rule skip_backward [OF s(2) k(2) s(3)])
    assume n: "?n < length ivs"
    then have "Suc ?n = length ivs" by simp
    with off_Suc [OF n] off_all [of ivs] have "length (entries ivs) = off ivs ?n + length (blk (snd (ivs ! ?n)))" by simp
    then show "length (entries ivs) - 1 = (if ?k < length (blk (snd (ivs ! ?n))) then off ivs ?n + ?k
      else if off ivs ?n = 0 then length (entries ivs) else off ivs ?n - 1)"
      using n by (cases "length (blk (snd (ivs ! ?n)))") auto
  next
    assume "\<not> ?n < length ivs"
    then show "length (entries ivs) - 1 = length (entries ivs)" by (cases ivs) (simp_all add: entries_def)
  qed
  then show ?thesis using s(1) k(1) by simp
qed

lemma seek_position:
  assumes d: "divides ivs" and srt: "sorted_wrt (\<lambda>a b. Compare (fst a) (fst b) < 0) ivs" "\<forall>iv\<in>set ivs. valid (fst iv)" and t: "valid t"
  defines "n \<equiv> length (takeWhile (\<lambda>kv. Compare (fst kv) t < 0) ivs)"
  shows "length (takeWhile (\<lambda>kv. Compare (fst kv) t < 0) (entries ivs)) =
    off ivs n + (if n < length ivs then length (takeWhile (\<lambda>kv. Compare (fst kv) t < 0) (blk (snd (ivs ! n)))) else 0)"
proof -
  let ?P = "\<lambda>kv. Compare (fst kv) t < 0"
  have nle: "n \<le> length ivs" by (simp add: n_def length_takeWhile_le)
  have before: "\<forall>kv\<in>set (entries (take n ivs)). ?P kv"
  proof
    fix kv assume "kv \<in> set (entries (take n ivs))"
    then obtain m where m: "m < n" "m < length ivs" "kv \<in> set (blk (snd (ivs ! m)))"
      using in_entries(1) by blast
    have "?P (ivs ! m)" using m(1) unfolding n_def by (rule before_takeWhile)
    moreover have "valid (fst kv)" "Compare (fst kv) (fst (ivs ! m)) \<le> 0" using d m(2,3) by (auto simp: divides_def)
    ultimately show "?P kv" using less_trans' [of "fst kv" "fst (ivs ! m)" t] srt(2) m(2) t by simp
  qed
  show ?thesis
  proof (cases "n < length ivs")
    case False
    then have "n = length ivs" using nle by simp
    then have "takeWhile ?P (entries ivs) = entries ivs" using before by (simp add: takeWhile_eq_all_conv)
    then show ?thesis using \<open>n = length ivs\<close> by (simp only: off_all less_irrefl if_False add_0_right)
  next
    case True
    have nP: "\<not> ?P (ivs ! n)" using True unfolding n_def by (rule nth_length_takeWhile)
    have after: "\<forall>kv\<in>set (entries (drop (Suc n) ivs)). \<not> ?P kv"
    proof
      fix kv assume "kv \<in> set (entries (drop (Suc n) ivs))"
      then obtain m where m: "n < m" "m < length ivs" "kv \<in> set (blk (snd (ivs ! m)))"
        using in_entries(2) by (metis Suc_le_lessD)
      have "Compare (fst (ivs ! n)) (fst kv) < 0" "valid (fst kv)" using d m by (auto simp: divides_def)
      moreover have "valid (fst (ivs ! n))" using srt(2) True by simp
      ultimately show "\<not> ?P kv" using nP t less_trans [of "fst (ivs ! n)" "fst kv" t] by auto
    qed
    have "takeWhile ?P (entries ivs) = entries (take n ivs) @ takeWhile ?P (blk (snd (ivs ! n)) @ entries (drop (Suc n) ivs))"
      using before by (simp add: entries_split [OF True])
    moreover have "takeWhile ?P (blk (snd (ivs ! n)) @ entries (drop (Suc n) ivs)) = takeWhile ?P (blk (snd (ivs ! n)))"
    proof (cases "\<forall>kv\<in>set (blk (snd (ivs ! n))). ?P kv")
      case True
      then show ?thesis using while_split(1) [OF True after] by (simp add: takeWhile_eq_all_conv [THEN iffD2])
    next
      case False
      then show ?thesis by (auto simp: takeWhile_append1)
    qed
    ultimately show ?thesis using True by (simp add: off_def)
  qed
qed

lemma tl_Seek_moves:
  assumes "tl_sits t kvs i" "wok w (H + tl_hold t)" "valid k"
  shows "\<exists>s. tl_Seek F (t, w) k = Some s \<and> tl_sits (fst s) kvs (length (takeWhile (\<lambda>kv. Compare (fst kv) k < 0) kvs)) \<and>
    wok (snd s) (H + tl_hold (fst s))"
proof -
  obtain ivs n j where iv: "kvs = entries ivs" "divides ivs" "loaded t" "index.wr_sits (tl_index t) ivs n"
    by (rule tl_sitsE [OF assms(1,2)])
  let ?P = "\<lambda>kv. Compare (fst kv) k < 0"
  let ?n = "length (takeWhile ?P ivs)"
  let ?k = "if ?n < length ivs then length (takeWhile ?P (blk (snd (ivs ! ?n)))) else 0"
  from index_steps [where imove = "\<lambda>i. wr_Seek (tf_index F) i k" and w = w, OF index.wr_moves(3) [OF iv(4) assms(3)]] obtain i' where
    i': "index_move (\<lambda>i. wr_Seek (tf_index F) i k) (t, w) = Some (t\<lparr>tl_index := i'\<rparr>, w)" "index.wr_sits i' ivs ?n" by blast
  have m: "\<exists>wr'. wr_Seek (tf_data F) wr k = Some wr' \<and> pair.wr_sits H wr' (blk (snd (ivs ! ?n))) ?k"
    if "?n < length ivs" "pair.wr_sits H wr (blk (snd (ivs ! ?n))) j" for wr j
    using that pair.wr_moves(3) [OF that(2) assms(3)] by simp
  have "\<exists>s. change_block F (\<lambda>i. wr_Seek (tf_index F) i k) (\<lambda>d. wr_Seek (tf_data F) d k) (t, w) = Some s \<and>
      at_entry (fst s) ivs ?n ?k \<and> wok (snd s) (H + tl_hold (fst s))"
    by (rule go_to_block [OF i' iv(3,2) assms(2)]) (rule m, assumption, assumption, simp)
  then obtain s where s: "tl_Seek F (t, w) k = SkipEmptyDataBlocksForward F s" "at_entry (fst s) ivs ?n ?k" "wok (snd s) (H + tl_hold (fst s))"
    by (auto simp: tl_Seek_def)
  have "sorted_wrt (\<lambda>a b. Compare (fst a) (fst b) < 0) ivs" "\<forall>iv\<in>set ivs. valid (fst iv)"
    using iv(4) index.sits_sorted by (fastforce simp: index.wr_sits_def)+
  from seek_position [OF iv(2) this assms(3)] skip_forward [OF s(2) iv(2) s(3)] s(1) iv(1) show ?thesis by (simp only: prod.collapse)
qed

lemma tl_Next_moves:
  assumes "tl_sits t kvs i" "wok w (H + tl_hold t)" "i < length kvs"
  shows "\<exists>s. tl_Next F (t, w) = Some s \<and> tl_sits (fst s) kvs (Suc i) \<and> wok (snd s) (H + tl_hold (fst s))"
proof -
  obtain ivs n j where k: "kvs = entries ivs" "divides ivs" "at_entry t ivs n j" "n < length ivs"
    "j < length (blk (snd (ivs ! n)))" "i = off ivs n + j"
    by (rule tl_sitsE [OF assms(1,2)]) (use assms(3) in fastforce)
  have "\<exists>t' w'. data_move (wr_Next (tf_data F)) (t, w) = Some (t', w') \<and> at_entry t' ivs n (Suc j) \<and> wok w' (H + tl_hold t')"
    by (rule entry_data_moves [OF k(3,4) assms(2)]) (use pair.wr_moves(4) k(5) in blast)
  then obtain t' w' where m: "data_move (wr_Next (tf_data F)) (t, w) = Some (t', w')" "at_entry t' ivs n (Suc j)" "wok w' (H + tl_hold t')"
    by blast
  from skip_forward [OF m(2) k(2) m(3)] m(1) k(1,6) show ?thesis by (simp add: tl_Next_def)
qed

lemma tl_Prev_moves:
  assumes "tl_sits t kvs i" "wok w (H + tl_hold t)" "i < length kvs"
  shows "\<exists>s. tl_Prev F (t, w) = Some s \<and> tl_sits (fst s) kvs (if i = 0 then length kvs else i - 1) \<and> wok (snd s) (H + tl_hold (fst s))"
proof -
  obtain ivs n j where k: "kvs = entries ivs" "divides ivs" "at_entry t ivs n j" "n < length ivs"
    "j < length (blk (snd (ivs ! n)))" "i = off ivs n + j"
    by (rule tl_sitsE [OF assms(1,2)]) (use assms(3) in fastforce)
  let ?j = "if j = 0 then length (blk (snd (ivs ! n))) else j - 1"
  have "\<exists>t' w'. data_move (wr_Prev (tf_data F)) (t, w) = Some (t', w') \<and> at_entry t' ivs n ?j \<and> wok w' (H + tl_hold t')"
    by (rule entry_data_moves [OF k(3,4) assms(2)]) (use pair.wr_moves(5) k(5) in blast)
  then obtain t' w' where m: "data_move (wr_Prev (tf_data F)) (t, w) = Some (t', w')" "at_entry t' ivs n ?j" "wok w' (H + tl_hold t')"
    by blast
  have "\<exists>s. SkipEmptyDataBlocksBackward F (t', w') = Some s \<and> tl_sits (fst s) (entries ivs) (if i = 0 then length kvs else i - 1) \<and>
    wok (snd s) (H + tl_hold (fst s))"
    by (rule skip_backward [OF m(2) k(2) m(3)]) (use k in \<open>auto split: if_splits\<close>)
  then show ?thesis using m(1) k(1) by (simp add: tl_Prev_def)
qed

lemma block_sorted:
  assumes "wok w H" "handle_ok h"
  shows "sorted_wrt (\<lambda>a b. Compare (fst a) (fst b) < 0) (blk h)"
proof -
  obtain d w' j where "wsits d (blk h) j" "wok w' (H + hold d)" using opens [OF assms] by blast
  then show ?thesis using pair.sits_sorted [of "(d, w')" "blk h" j H] by simp
qed

lemma entries_sorted:
  assumes "divides ivs" "\<forall>iv\<in>set ivs. valid (fst iv)" "wok w H"
  shows "sorted_wrt (\<lambda>a b. Compare (fst a) (fst b) < 0) (entries ivs) \<and> (\<forall>kv\<in>set (entries ivs). valid (fst kv))"
proof -
  have v: "\<forall>kv\<in>set (entries ivs). valid (fst kv)"
  proof
    fix kv assume "kv \<in> set (entries ivs)"
    then obtain m where "m < length ivs" "kv \<in> set (blk (snd (ivs ! m)))" using in_entries(2) [of kv 0 ivs] by auto
    then show "valid (fst kv)" using assms(1) by (simp add: divides_def)
  qed
  have "n \<le> length ivs \<Longrightarrow> sorted_wrt (\<lambda>a b. Compare (fst a) (fst b) < 0) (entries (take n ivs))" for n
  proof (induction n)
    case (Suc n)
    then have n: "n < length ivs" by simp
    have h: "handle_ok (snd (ivs ! n))" using assms(1) n by (simp add: divides_def)
    have "Compare (fst a) (fst b) < 0" if a: "a \<in> set (entries (take n ivs))" and b: "b \<in> set (blk (snd (ivs ! n)))" for a b
    proof -
      obtain m where m: "m < n" "m < length ivs" "a \<in> set (blk (snd (ivs ! m)))" using in_entries(1) [OF a] by blast
      have "valid (fst a)" "Compare (fst a) (fst (ivs ! m)) \<le> 0" "Compare (fst (ivs ! m)) (fst b) < 0" "valid (fst b)"
        using assms(1) m n b unfolding divides_def by blast+
      then show ?thesis using less_trans' [of "fst a" "fst (ivs ! m)" "fst b"] assms(2) m(2) by simp
    qed
    moreover have "entries (take (Suc n) ivs) = entries (take n ivs) @ blk (snd (ivs ! n))"
      using n by (simp add: entries_def take_Suc_conv_app_nth)
    ultimately show ?case using Suc block_sorted [OF assms(3) h] by (simp add: sorted_wrt_append)
  qed (simp add: entries_def)
  from this [of "length ivs"] v show ?thesis by simp
qed

text \<open>What the iterator shows.\<close>

lemma tl_shows:
  assumes "tl_sits t kvs i" "wok w (H + tl_hold t)"
  shows "tl_Valid (t, w) \<longleftrightarrow> i < length kvs" "i \<le> length kvs" "ok (TwoLevel_status F (t, w))"
    and "i < length kvs \<Longrightarrow> (tl_key (t, w), tl_value F (t, w)) = kvs ! i"
proof -
  obtain ivs n j where k: "kvs = entries ivs" "divides ivs" "at_entry t ivs n j" "loaded t" "index.wr_sits (tl_index t) ivs n"
    "n < length ivs \<Longrightarrow> j < length (blk (snd (ivs ! n))) \<and> i = off ivs n + j \<and> i < length kvs"
    "\<not> n < length ivs \<Longrightarrow> i = length kvs" by (rule tl_sitsE [OF assms]) blast
  show "tl_Valid (t, w) \<longleftrightarrow> i < length kvs" "i \<le> length kvs"
    using k at_entryD(1,2) [OF k(3)] by (cases "n < length ivs"; simp add: tl_Valid_def)+
  have i: "ok (wr_status (tf_index F) (tl_index t))"
    using k(5) index.sits_valid by (auto simp: index.wr_sits_def wr_status_def)
  have d: "ok (wr_status (tf_data F) (wr_in (tl_data t) w))" if "wr_iter (wr_in (tl_data t) w) \<noteq> None"
    using old_status(1) [OF k(4) assms(2)] that by (auto simp: wr_status_def wr_in_def)
  show "ok (TwoLevel_status F (t, w))" using i d k(4) by (auto simp: TwoLevel_status_def Let_def loaded_def)
  show "(tl_key (t, w), tl_value F (t, w)) = kvs ! i" if "i < length kvs"
  proof -
    from that k(6,7) have n: "n < length ivs" "j < length (blk (snd (ivs ! n)))" "i = off ivs n + j" by auto
    note a = at_entryD(1) [OF k(3) n(1)]
    then obtain d where d: "wr_iter (tl_data t) = Some d" "wsits d (blk (snd (ivs ! n))) j" "wr_key (tl_data t) = fst (blk (snd (ivs ! n)) ! j)"
      using n(2) by (auto simp: dsits_def)
    have "(itKey (tf_data F) (d, w), itValue (tf_data F) (d, w)) = blk (snd (ivs ! n)) ! j"
      using pair.sits_entry [of "(d, w)" "blk (snd (ivs ! n))" j H] d n(2) assms(2) by (simp add: tl_hold_def dhold_def)
    then have "itValue (tf_data F) (d, w) = snd (blk (snd (ivs ! n)) ! j)" by (metis snd_conv)
    then show ?thesis using d n entries_nth [OF n(1,2)] k(1) by (simp add: tl_key_def tl_value_def wr_value_def wr_in_def)
  qed
qed

text \<open>The two-level iterator keeps the contract, in the same world.\<close>

lemma two_level_sorted_iterator:
  "sorted_iterator valid Compare (TwoLevel_Iter F) (\<lambda>p kvs i. tl_sits (fst p) kvs i \<and> wok (snd p) (H + tl_hold (fst p)))"
proof (unfold_locales, goal_cases)
  case (1 p kvs i)
  then obtain ivs n where k: "kvs = entries ivs" "divides ivs" "index.wr_sits (tl_index (fst p)) ivs n"
    using tl_sitsE [of "fst p" kvs i "snd p" H] by metis
  have "\<forall>iv\<in>set ivs. valid (fst iv)" using k(3) index.sits_sorted by (fastforce simp: index.wr_sits_def)
  from entries_sorted [OF k(2) this] 1 tl_shows(2) k(1) show ?case by metis
next
  case (2 p kvs i)
  then show ?case using tl_shows(1,3) [of "fst p" kvs i "snd p" H] by (simp add: TwoLevel_Iter_def)
next
  case (3 p kvs i)
  then show ?case using tl_shows(4) [of "fst p" kvs i "snd p" H] by (simp add: TwoLevel_Iter_def)
next
  case (4 p kvs i)
  then show ?case using tl_SeekToFirst_moves [of "fst p" kvs i "snd p" H] by (auto simp: TwoLevel_Iter_def)
next
  case (5 p kvs i)
  then show ?case using tl_SeekToLast_moves [of "fst p" kvs i "snd p" H] by (auto simp: TwoLevel_Iter_def)
next
  case (6 p kvs i t)
  then show ?case using tl_Seek_moves [of "fst p" kvs i "snd p" H t] by (auto simp: TwoLevel_Iter_def)
next
  case (7 p kvs i)
  then show ?case using tl_Next_moves [of "fst p" kvs i "snd p" H] by (auto simp: TwoLevel_Iter_def)
next
  case (8 p kvs i)
  then show ?case using tl_Prev_moves [of "fst p" kvs i "snd p" H] by (auto simp: TwoLevel_Iter_def)
qed

lemma two_level_world_iterator: "world_iterator valid Compare (TwoLevel_Iter F) tl_sits wok tl_hold"
  by (intro world_iterator.intro world_iterator_axioms.intro two_level_sorted_iterator) (rule comparison_axioms)

lemma TwoLevel_delete_ok: "tl_sits t kvs i \<Longrightarrow> wok w (H + tl_hold t) \<Longrightarrow> wok (TwoLevel_delete F t w) H"
proof -
  assume a: "tl_sits t kvs i" "wok w (H + tl_hold t)"
  then have "loaded t" by (rule tl_sitsE)
  from old_status(2) [OF this a(2)] a(2) show ?thesis
    by (auto simp: TwoLevel_delete_def tl_hold_def dhold_def split: option.splits)
qed

text \<open>A new iterator stands nowhere.\<close>

lemma TwoLevelIterator_new_sits:
  assumes "isits it ivs (length ivs)" "divides ivs"
  shows "tl_sits (TwoLevelIterator_new F it) (entries ivs) (length (entries ivs))" "tl_hold (TwoLevelIterator_new F it) = {#}"
proof -
  have "at_entry (TwoLevelIterator_new F it) ivs (length ivs) 0"
    using index.Wrapper_new_sits [OF assms(1)]
    by (simp add: at_entry_def TwoLevelIterator_new_def loaded_def ok_Status_OK)
  from tl_sitsI [OF this assms(2)] show "tl_sits (TwoLevelIterator_new F it) (entries ivs) (length (entries ivs))" by (simp add: off_all)
  show "tl_hold (TwoLevelIterator_new F it) = {#}" by (simp add: tl_hold_def dhold_def TwoLevelIterator_new_def)
qed

end

end
