(* ===== verification/Cache_Api.thy ===== *)
theory Cache_Api
  imports Lru_Properties
begin

text \<open>
  The interface \<^verbatim>\<open>include/leveldb/cache.h\<close> that tables and the table cache are written against: the
  record of its methods, with the contract of a cache that is shared by clients who know which values
  they put under their keys. The sharded LRU cache is its interpretation.
\<close>

section \<open>The interface\<close>

record ('c, 'h, 'v) Cache =
  caInsert :: "'c \<Rightarrow> bytes \<Rightarrow> 'v \<Rightarrow> u64 \<Rightarrow> ('h \<times> 'c) option"
  caLookup :: "'c \<Rightarrow> bytes \<Rightarrow> 'h option \<times> 'c"
  caRelease :: "'c \<Rightarrow> 'h \<Rightarrow> 'c"
  caValue :: "'c \<Rightarrow> 'h \<Rightarrow> 'v"
  caErase :: "'c \<Rightarrow> bytes \<Rightarrow> 'c"
  caNewId :: "'c \<Rightarrow> u64 \<times> 'c"

definition ShardedLRU :: "('v ShardedLRUCache, nat \<times> nat, 'v) Cache" where
  "ShardedLRU = \<lparr>caInsert = sc_Insert, caLookup = sc_Lookup, caRelease = sc_Release, caValue = sc_Value,
     caErase = sc_Erase, caNewId = sc_NewId\<rparr>"

text \<open>\<open>cok P c H\<close>: the cache is sound, \<open>H\<close> are the handles that are held, and every value in it is one that
  \<open>P\<close> allows under its key.\<close>

locale shared_cache =
  fixes ops :: "('c, 'h, 'v) Cache" and cok :: "(bytes \<Rightarrow> 'v \<Rightarrow> bool) \<Rightarrow> 'c \<Rightarrow> 'h multiset \<Rightarrow> bool"
  assumes lookup_ok: "cok P c H \<Longrightarrow> caLookup ops c key = (r, c') \<Longrightarrow>
      (case r of None \<Rightarrow> cok P c' H | Some h \<Rightarrow> cok P c' (add_mset h H) \<and> P key (caValue ops c' h))"
    and insert_ok: "cok P c H \<Longrightarrow> P key v \<Longrightarrow>
      \<exists>h c'. caInsert ops c key v charge = Some (h, c') \<and> cok P c' (add_mset h H) \<and> caValue ops c' h = v"
    and release_ok: "cok P c (add_mset h H) \<Longrightarrow> cok P (caRelease ops c h) H"
    and erase_ok: "cok P c H \<Longrightarrow> cok P (caErase ops c key) H"
    and newid_ok: "cok P c H \<Longrightarrow> cok P (snd (caNewId ops c)) H"
    and weaken: "cok P c H \<Longrightarrow> (\<And>k v. P k v \<Longrightarrow> P' k v) \<Longrightarrow> cok P' c H"

section \<open>One shard\<close>

definition shard_ok :: "(bytes \<Rightarrow> 'v \<Rightarrow> bool) \<Rightarrow> nat \<Rightarrow> 'v LRUCache \<Rightarrow> nat multiset \<Rightarrow> bool" where
  "shard_ok P s c held \<longleftrightarrow> (\<exists>L U. cache_ok c held L U) \<and>
     (\<forall>e h. lc_nodes c e = Some h \<longrightarrow> Shard (h_hash h) = s \<and> h_hash h = HashSlice (h_key h) \<and> P (h_key h) (h_value h))"

lemma shard_ok_stays:
  "shard_ok P s c held \<Longrightarrow> stays c c' \<Longrightarrow> \<exists>L U. cache_ok c' held' L U \<Longrightarrow> shard_ok P s c' held'"
  unfolding shard_ok_def stays_def payload_def by (metis (no_types, lifting) prod.inject)

lemma stays_Ref: "e \<in> dom (lc_nodes c) \<Longrightarrow> stays c (Ref c e)"
proof -
  assume "e \<in> dom (lc_nodes c)"
  then obtain h where "lc_nodes c e = Some h" by blast
  then show ?thesis by (simp add: stays_def Ref_def Let_def update_entry_def entry_def payload_def)
qed

lemma shard_Lookup:
  assumes s: "shard_ok P s c held" and l: "lc_Lookup c key hash = (r, c')"
  shows "case r of None \<Rightarrow> shard_ok P s c' held
    | Some e \<Rightarrow> shard_ok P s c' (add_mset e held) \<and> h_key (entry c' e) = key \<and> P key (h_value (entry c' e))"
proof (cases r)
  case None
  then have "c' = c" using l by (auto simp: lc_Lookup_def Let_def)
  with None s show ?thesis by simp
next
  case (Some e)
  obtain L U where c: "cache_ok c held L U" using s by (auto simp: shard_ok_def)
  have e: "e \<in> cached c" "h_key (entry c e) = key" using Lookup_iff [OF c, of key hash e] l Some by simp_all
  have c': "c' = Ref c e" using l Some by (auto simp: lc_Lookup_def Let_def)
  have d: "e \<in> dom (lc_nodes c)" using e(1) cached_dom by blast
  have st: "stays c c'" unfolding c' by (rule stays_Ref [OF d])
  have ok: "shard_ok P s c' (add_mset e held)" by (rule shard_ok_stays [OF s st]) (use Lookup_ok [OF c] l Some in blast)
  then obtain L' U' where "cache_ok c' (add_mset e held) L' U'" by (auto simp: shard_ok_def)
  then have d': "e \<in> dom (lc_nodes c')" by (simp add: cache_ok_def cache_mid_def)
  from staysD [OF st this] have "payload (entry c' e) = payload (entry c e)" by (auto simp: entry_def)
  then have "h_key (entry c' e) = key" using e(2) by (simp add: payload_def)
  moreover have "P (h_key (entry c' e)) (h_value (entry c' e))" using ok d' unfolding shard_ok_def by (metis domD entry_def option.sel)
  ultimately show ?thesis using ok Some by simp
qed

lemma shard_Insert:
  assumes s: "shard_ok P s c held" and p: "P key val" "Shard hash = s" "hash = HashSlice key"
  shows "\<exists>e c'. lc_Insert c key hash val charge = Some (e, c') \<and> shard_ok P s c' (add_mset e held) \<and> h_value (entry c' e) = val"
proof -
  obtain L U where c: "cache_ok c held L U" using s by (auto simp: shard_ok_def)
  show ?thesis
  proof (rule lc_Insert_ok [OF c, of key hash val charge])
    fix c' L' U'
    assume i: "lc_Insert c key hash val charge = Some (lc_fresh c, c')" "cache_ok c' (add_mset (lc_fresh c) held) L' U'"
      "payload (entry c' (lc_fresh c)) = (key, hash, val, charge)"
      "\<And>x. x \<noteq> lc_fresh c \<Longrightarrow> x \<in> dom (lc_nodes c') \<Longrightarrow> x \<in> dom (lc_nodes c) \<and> payload (entry c' x) = payload (entry c x)"
    have "Shard (h_hash h) = s \<and> h_hash h = HashSlice (h_key h) \<and> P (h_key h) (h_value h)" if e: "lc_nodes c' e = Some h" for e h
    proof (cases "e = lc_fresh c")
      case True
      then show ?thesis using i(3) p e by (auto simp: payload_def entry_def)
    next
      case False
      moreover have "e \<in> dom (lc_nodes c')" using e by blast
      ultimately have "e \<in> dom (lc_nodes c) \<and> payload (entry c' e) = payload (entry c e)" by (rule i(4))
      with e obtain h0 where "lc_nodes c e = Some h0" "payload h = payload h0" by (auto simp: entry_def)
      with s show ?thesis unfolding shard_ok_def payload_def by (metis prod.inject)
    qed
    with i(2) have "shard_ok P s c' (add_mset (lc_fresh c) held)" unfolding shard_ok_def by blast
    with i(1,3) show ?thesis by (auto simp: payload_def)
  qed
qed

lemma shard_Release:
  assumes "shard_ok P s c held" "e \<in># held"
  shows "shard_ok P s (lc_Release c e) (held - {#e#})"
proof -
  obtain L U where c: "cache_ok c held L U" using assms(1) by (auto simp: shard_ok_def)
  have "e \<in> dom (lc_nodes c)" using c assms(2) by (auto simp: cache_ok_def cache_mid_def)
  from stays_Unref [OF this] show ?thesis
    by (intro shard_ok_stays [OF assms(1)] Release_ok [OF c assms(2)]) (simp add: lc_Release_def)
qed

lemma shard_Erase: "shard_ok P s c held \<Longrightarrow> shard_ok P s (lc_Erase c key hash) held"
proof -
  assume s: "shard_ok P s c held"
  then obtain L U where c: "cache_ok c held L U" by (auto simp: shard_ok_def)
  show ?thesis by (rule shard_ok_stays [OF s stays_Erase [OF c]]) (use lc_Erase_ok [OF c HOL.refl] in blast)
qed

section \<open>All shards\<close>

text \<open>A handle is a shard and an address in it.\<close>

definition held_in :: "(nat \<times> nat) multiset \<Rightarrow> nat \<Rightarrow> nat multiset" where
  "held_in H s = image_mset snd (filter_mset (\<lambda>h. fst h = s) H)"

definition sc_ok :: "(bytes \<Rightarrow> 'v \<Rightarrow> bool) \<Rightarrow> 'v ShardedLRUCache \<Rightarrow> (nat \<times> nat) multiset \<Rightarrow> bool" where
  "sc_ok P c H \<longleftrightarrow> length (sc_shard c) = kNumShards \<and> (\<forall>h\<in>#H. fst h < kNumShards) \<and>
     (\<forall>s<kNumShards. shard_ok P s (sc_shard c ! s) (held_in H s))"

lemma held_in_add: "held_in (add_mset (s, e) H) s' = (if s' = s then add_mset e (held_in H s) else held_in H s')"
  by (simp add: held_in_def)

lemma sc_ok_update:
  assumes "sc_ok P c H" "s < kNumShards" "shard_ok P s d (held_in H' s)"
    and "\<And>s'. s' \<noteq> s \<Longrightarrow> held_in H' s' = held_in H s'" "\<forall>h\<in>#H'. fst h < kNumShards"
  shows "sc_ok P (c\<lparr>sc_shard := (sc_shard c)[s := d]\<rparr>) H'"
  using assms unfolding sc_ok_def by (simp add: nth_list_update)

lemma sc_Lookup_ok:
  assumes c: "sc_ok P c H" and l: "sc_Lookup c key = (r, c')"
  shows "case r of None \<Rightarrow> sc_ok P c' H | Some h \<Rightarrow> sc_ok P c' (add_mset h H) \<and> P key (sc_Value c' h)"
proof -
  let ?s = "Shard (HashSlice key)"
  have s: "?s < kNumShards" by (rule Shard_less)
  obtain e d where ed: "lc_Lookup (sc_shard c ! ?s) key (HashSlice key) = (e, d)" by fastforce
  have r: "r = map_option (Pair ?s) e" "c' = c\<lparr>sc_shard := (sc_shard c)[?s := d]\<rparr>" using l ed by (simp_all add: sc_Lookup_def Let_def)
  have "shard_ok P ?s (sc_shard c ! ?s) (held_in H ?s)" using c s by (simp add: sc_ok_def)
  note sl = shard_Lookup [OF this ed]
  have len: "?s < length (sc_shard c)" using c s by (simp add: sc_ok_def)
  show ?thesis
  proof (cases e)
    case None
    then show ?thesis using sl r sc_ok_update [OF c s, of d H] c by (simp add: sc_ok_def)
  next
    case (Some e)
    then show ?thesis using sl r sc_ok_update [OF c s, of d "add_mset (?s, e) H"] c s len
      by (auto simp: held_in_add sc_Value_def sc_ok_def [of P c])
  qed
qed

lemma sc_Insert_ok:
  assumes c: "sc_ok P c H" and p: "P key val"
  shows "\<exists>h c'. sc_Insert c key val charge = Some (h, c') \<and> sc_ok P c' (add_mset h H) \<and> sc_Value c' h = val"
proof -
  let ?s = "Shard (HashSlice key)"
  have s: "?s < kNumShards" by (rule Shard_less)
  have "shard_ok P ?s (sc_shard c ! ?s) (held_in H ?s)" using c s by (simp add: sc_ok_def)
  from shard_Insert [OF this p HOL.refl HOL.refl, of charge] obtain e d where
    i: "lc_Insert (sc_shard c ! ?s) key (HashSlice key) val charge = Some (e, d)" "shard_ok P ?s d (add_mset e (held_in H ?s))"
    "h_value (entry d e) = val" by blast
  have "sc_ok P (c\<lparr>sc_shard := (sc_shard c)[?s := d]\<rparr>) (add_mset (?s, e) H)"
    by (rule sc_ok_update [OF c s]) (use i(2) c s in \<open>simp_all add: held_in_add sc_ok_def\<close>)
  then show ?thesis using i c s by (simp add: sc_Insert_def Let_def sc_Value_def sc_ok_def)
qed

lemma sc_Release_ok:
  assumes c: "sc_ok P c (add_mset h H)"
  shows "sc_ok P (sc_Release c h) H"
proof -
  obtain s e where h: "h = (s, e)" by fastforce
  have s: "s < kNumShards" using c by (simp add: sc_ok_def h)
  have sh: "shard_ok P s (sc_shard c ! s) (add_mset e (held_in H s))" using c s by (auto simp: sc_ok_def h held_in_add)
  then obtain L U where "cache_ok (sc_shard c ! s) (add_mset e (held_in H s)) L U" by (auto simp: shard_ok_def)
  then have "e \<in> dom (lc_nodes (sc_shard c ! s))" by (simp add: cache_ok_def cache_mid_def)
  then have "Shard (h_hash (entry (sc_shard c ! s) e)) = s" using sh in_dom unfolding shard_ok_def by blast
  then have "sc_Release c h = c\<lparr>sc_shard := (sc_shard c)[s := lc_Release (sc_shard c ! s) e]\<rparr>" by (simp add: sc_Release_def h)
  moreover have "shard_ok P s (lc_Release (sc_shard c ! s) e) (held_in H s)" using shard_Release [OF sh, of e] by simp
  then have "sc_ok P (c\<lparr>sc_shard := (sc_shard c)[s := lc_Release (sc_shard c ! s) e]\<rparr>) H"
    by (rule sc_ok_update [OF c s]) (use c in \<open>simp_all add: h held_in_add sc_ok_def\<close>)
  ultimately show ?thesis by simp
qed

lemma sc_Erase_ok:
  assumes c: "sc_ok P c H"
  shows "sc_ok P (sc_Erase c key) H"
proof -
  let ?s = "Shard (HashSlice key)"
  have s: "?s < kNumShards" by (rule Shard_less)
  have "shard_ok P ?s (sc_shard c ! ?s) (held_in H ?s)" using c s by (simp add: sc_ok_def)
  from sc_ok_update [OF c s shard_Erase [OF this]] c show ?thesis by (simp add: sc_Erase_def Let_def sc_ok_def [of P c])
qed

lemma sc_ok_new: "sc_ok P (ShardedLRUCache_new capacity) {#}"
  using cache_ok_new by (auto simp: sc_ok_def shard_ok_def held_in_def ShardedLRUCache_new_def Let_def LRUCache_new_def)

interpretation sharded_lru: shared_cache ShardedLRU sc_ok
proof (unfold_locales, goal_cases)
  case (1 P c H key r c')
  then show ?case using sc_Lookup_ok [of P c H key r c'] by (simp add: ShardedLRU_def cong: option.case_cong)
next
  case (2 P c H key v charge)
  then show ?case using sc_Insert_ok [of P c H key v charge] by (simp add: ShardedLRU_def)
next
  case (3 P c h H)
  then show ?case using sc_Release_ok [of P c h H] by (simp add: ShardedLRU_def)
next
  case (4 P c H key)
  then show ?case using sc_Erase_ok [of P c H key] by (simp add: ShardedLRU_def)
next
  case (5 P c H)
  then show ?case by (simp add: ShardedLRU_def sc_NewId_def Let_def sc_ok_def)
next
  case (6 P c H P')
  then show ?case unfolding sc_ok_def shard_ok_def by blast
qed

end
