(* ===== verification/Table.thy ===== *)
theory Table
  imports Options Block_Reader Two_Level Cache_Api
begin

text \<open>
  \<^verbatim>\<open>table/table.cc\<close>: reading table files. Files and the block cache are a world that the calls
  act on: open files by their address, and the cache if the options name one. The iterator that runs over
  a block owns what its cleanup function gives back when it is deleted.
\<close>

section \<open>The world\<close>

record ('r, 'c) World =
  w_file :: "nat \<Rightarrow> 'r"
  w_block_cache :: "'c option"

text \<open>The calls on an open file change its state in the world.\<close>

definition w_Read :: "'r RandomAccessFile \<Rightarrow> ('r, 'c) World \<Rightarrow> nat \<Rightarrow> u64 \<Rightarrow> u64 \<Rightarrow> status \<times> bytes \<times> ('r, 'c) World" where
  "w_Read rops w f off n =
     (let (s, d, _, file) = rRead rops (w_file w f) off n in (s, d, w\<lparr>w_file := (w_file w)(f := file)\<rparr>))"

definition w_ReadBlock ::
  "'r RandomAccessFile \<Rightarrow> ('r, 'c) World \<Rightarrow> nat \<Rightarrow> bool \<Rightarrow> BlockHandle \<Rightarrow> status \<times> BlockContents \<times> ('r, 'c) World" where
  "w_ReadBlock rops w f verify_checksums h =
     (let (s, contents, file) = ReadBlock rops (w_file w f) verify_checksums h
      in (s, contents, w\<lparr>w_file := (w_file w)(f := file)\<rparr>))"

section \<open>Iterators over blocks\<close>

text \<open>\<^verbatim>\<open>Block::NewIterator\<close> gives an iterator of one of two classes; their methods are virtual.\<close>

definition block_ops :: "(bytes \<Rightarrow> bytes \<Rightarrow> int) \<Rightarrow> BlockIterator IteratorOps" where
  "block_ops cmp =
     (let move = (\<lambda>on_empty on_iter it. case it of Empty s \<Rightarrow> map_option Empty (on_empty s) | Positioned it \<Rightarrow> map_option Positioned (on_iter it))
      in \<lparr>itValid = (\<lambda>it. case it of Empty s \<Rightarrow> itValid EmptyIterator s | Positioned it \<Rightarrow> itValid (Block_Iter cmp) it),
          itSeekToFirst = move (itSeekToFirst EmptyIterator) (itSeekToFirst (Block_Iter cmp)),
          itSeekToLast = move (itSeekToLast EmptyIterator) (itSeekToLast (Block_Iter cmp)),
          itSeek = (\<lambda>it t. move (\<lambda>s. itSeek EmptyIterator s t) (\<lambda>it. itSeek (Block_Iter cmp) it t) it),
          itNext = move (itNext EmptyIterator) (itNext (Block_Iter cmp)),
          itPrev = move (itPrev EmptyIterator) (itPrev (Block_Iter cmp)),
          itKey = (\<lambda>it. case it of Empty s \<Rightarrow> itKey EmptyIterator s | Positioned it \<Rightarrow> itKey (Block_Iter cmp) it),
          itValue = (\<lambda>it. case it of Empty s \<Rightarrow> itValue EmptyIterator s | Positioned it \<Rightarrow> itValue (Block_Iter cmp) it),
          itStatus = (\<lambda>it. case it of Empty s \<Rightarrow> itStatus EmptyIterator s | Positioned it \<Rightarrow> itStatus (Block_Iter cmp) it)\<rparr>)"

datatype 'h Cleanup = DeleteBlock | ReleaseBlock 'h

record 'h OwnedIterator =
  oi_iter :: BlockIterator
  oi_cleanup :: "'h Cleanup list"

text \<open>Deleting a block frees memory; releasing it gives its handle back to the cache.\<close>

definition run_cleanup :: "('c, 'h, Block) Cache \<Rightarrow> ('r, 'c) World \<Rightarrow> 'h Cleanup \<Rightarrow> ('r, 'c) World" where
  "run_cleanup cops w f =
     (case f of DeleteBlock \<Rightarrow> w
      | ReleaseBlock h \<Rightarrow> w\<lparr>w_block_cache := map_option (\<lambda>c. caRelease cops c h) (w_block_cache w)\<rparr>)"

definition delete_owned :: "('c, 'h, Block) Cache \<Rightarrow> 'h OwnedIterator \<Rightarrow> ('r, 'c) World \<Rightarrow> ('r, 'c) World" where
  "delete_owned cops it w = Iterator_destroy (run_cleanup cops) (oi_cleanup it) w"

text \<open>Its methods are those of the block iterator, and leave the world alone.\<close>

definition owned_ops :: "(bytes \<Rightarrow> bytes \<Rightarrow> int) \<Rightarrow> ('h OwnedIterator \<times> 'w) IteratorOps" where
  "owned_ops cmp =
     (let b = block_ops cmp; move = (\<lambda>step (it, w). map_option (\<lambda>i. (it\<lparr>oi_iter := i\<rparr>, w)) (step (oi_iter it)))
      in \<lparr>itValid = (\<lambda>(it, w). itValid b (oi_iter it)), itSeekToFirst = move (itSeekToFirst b), itSeekToLast = move (itSeekToLast b),
          itSeek = (\<lambda>p t. move (\<lambda>it. itSeek b it t) p), itNext = move (itNext b), itPrev = move (itPrev b),
          itKey = (\<lambda>(it, w). itKey b (oi_iter it)), itValue = (\<lambda>(it, w). itValue b (oi_iter it)),
          itStatus = (\<lambda>(it, w). itStatus b (oi_iter it))\<rparr>)"

section \<open>Tables\<close>

record Table =
  tab_options :: Options
  tab_file :: nat
  tab_cache_id :: u64
  tab_filter :: "FilterBlockReader option"
  tab_metaindex_handle :: BlockHandle
  tab_index_block :: Block

definition ReadFilter ::
  "'r RandomAccessFile \<Rightarrow> ('r, 'c) World \<Rightarrow> Table \<Rightarrow> bytes \<Rightarrow> Table \<times> ('r, 'c) World" where
  "ReadFilter rops w t filter_handle_value =
     (let (s, filter_handle, v) = BlockHandle_DecodeFrom BlockHandle_new filter_handle_value in
      if \<not> ok s then (t, w)
      else
        let (s, block, w) = w_ReadBlock rops w (tab_file t) (opt_paranoid_checks (tab_options t)) filter_handle in
        if \<not> ok s then (t, w)
        else (t\<lparr>tab_filter := Some (FilterBlockReader_new (bc_data block))\<rparr>, w))"

text \<open>\<open>None\<close> stands for a seek in the metaindex that does not return.\<close>

definition ReadMeta ::
  "'r RandomAccessFile \<Rightarrow> ('r, 'c) World \<Rightarrow> Table \<Rightarrow> Footer \<Rightarrow> (Table \<times> ('r, 'c) World) option" where
  "ReadMeta rops w t footer =
     (case opt_filter_policy (tab_options t) of
        None \<Rightarrow> Some (t, w)
      | Some policy \<Rightarrow>
          let (s, contents, w) = w_ReadBlock rops w (tab_file t) (opt_paranoid_checks (tab_options t)) (metaindex_handle footer) in
          if \<not> ok s then Some (t, w)
          else
            let meta = Block_new (bc_data contents);
                b = block_ops (cmp_Compare BytewiseComparator);
                key = str ''filter.'' @ fp_Name policy
            in map_option (\<lambda>iter.
                 if itValid b iter \<and> itKey b iter = key then ReadFilter rops w t (itValue b iter) else (t, w))
               (itSeek b (Block_NewIterator meta) key))"

definition Table_Open ::
  "'r RandomAccessFile \<Rightarrow> ('c, 'h, Block) Cache \<Rightarrow> ('r, 'c) World \<Rightarrow> Options \<Rightarrow> nat \<Rightarrow> u64 \<Rightarrow>
     (status \<times> Table option \<times> ('r, 'c) World) option" where
  "Table_Open rops cops w options file sz =
     (if sz < of_nat kEncodedLength then Some (Corruption ''file is too short to be an sstable'', None, w)
      else
        let (s, footer_input, w) = w_Read rops w file (sz - of_nat kEncodedLength) (of_nat kEncodedLength) in
        if \<not> ok s then Some (s, None, w)
        else
          let (s, footer, footer_input) = Footer_DecodeFrom footer_input in
          if \<not> ok s then Some (s, None, w)
          else
            let (s, index_block_contents, w) = w_ReadBlock rops w file (opt_paranoid_checks options) (index_handle footer) in
            if \<not> ok s then Some (s, None, w)
            else
              let (cache_id, cache) =
                    (case w_block_cache w of None \<Rightarrow> (0, None) | Some c \<Rightarrow> let (i, c) = caNewId cops c in (i, Some c));
                  t = \<lparr>tab_options = options, tab_file = file, tab_cache_id = cache_id, tab_filter = None,
                       tab_metaindex_handle = metaindex_handle footer, tab_index_block = Block_new (bc_data index_block_contents)\<rparr>
              in map_option (\<lambda>(t, w). (s, Some t, w)) (ReadMeta rops (w\<lparr>w_block_cache := cache\<rparr>) t footer))"

subsection \<open>\<^verbatim>\<open>BlockReader\<close>\<close>

definition cache_key :: "u64 \<Rightarrow> u64 \<Rightarrow> bytes" where
  "cache_key cache_id off = EncodeFixed64 cache_id @ EncodeFixed64 off"

text \<open>The block, the handle if it is in the cache, and the status.\<close>

definition block_of ::
  "'r RandomAccessFile \<Rightarrow> ('r, 'c) World \<Rightarrow> Table \<Rightarrow> ReadOptions \<Rightarrow> BlockHandle \<Rightarrow> status \<times> (Block \<times> bool) option \<times> ('r, 'c) World" where
  "block_of rops w t options handle =
     (let (s, contents, w) = w_ReadBlock rops w (tab_file t) (ro_verify_checksums options) handle
      in (s, if ok s then Some (Block_new (bc_data contents), bc_cachable contents) else None, w))"

definition find_block ::
  "'r RandomAccessFile \<Rightarrow> ('c, 'h, Block) Cache \<Rightarrow> ('r, 'c) World \<Rightarrow> Table \<Rightarrow> ReadOptions \<Rightarrow> BlockHandle \<Rightarrow>
     (status \<times> Block option \<times> 'h option \<times> ('r, 'c) World) option" where
  "find_block rops cops w t options handle =
     (case w_block_cache w of
        None \<Rightarrow> let (s, block, w) = block_of rops w t options handle in Some (s, map_option fst block, None, w)
      | Some c \<Rightarrow>
          let key = cache_key (tab_cache_id t) (bh_offset handle); (cache_handle, c) = caLookup cops c key in
          case cache_handle of
            Some h \<Rightarrow> Some (Status_OK, Some (caValue cops c h), Some h, w\<lparr>w_block_cache := Some c\<rparr>)
          | None \<Rightarrow>
              let (s, block, w) = block_of rops (w\<lparr>w_block_cache := Some c\<rparr>) t options handle in
              case block of
                None \<Rightarrow> Some (s, None, None, w)
              | Some (block, cachable) \<Rightarrow>
                  if cachable \<and> ro_fill_cache options then
                    map_option (\<lambda>(h, c). (s, Some block, Some h, w\<lparr>w_block_cache := Some c\<rparr>))
                      (caInsert cops c key block (of_nat (bl_size block)))
                  else Some (s, Some block, None, w))"

definition BlockReader ::
  "'r RandomAccessFile \<Rightarrow> ('c, 'h, Block) Cache \<Rightarrow> Table \<Rightarrow> ReadOptions \<Rightarrow> ('r, 'c) World \<Rightarrow> bytes \<Rightarrow>
     ('h OwnedIterator \<times> ('r, 'c) World) option" where
  "BlockReader rops cops t options w index_value =
     (let (s, handle, input) = BlockHandle_DecodeFrom BlockHandle_new index_value in
      map_option (\<lambda>(s, block, cache_handle, w).
          (case block of
             Some b \<Rightarrow> \<lparr>oi_iter = Block_NewIterator b,
                        oi_cleanup = RegisterCleanup [] (case cache_handle of None \<Rightarrow> DeleteBlock | Some h \<Rightarrow> ReleaseBlock h)\<rparr>
           | None \<Rightarrow> \<lparr>oi_iter = Empty (NewErrorIterator s), oi_cleanup = []\<rparr>, w))
        (if ok s then find_block rops cops w t options handle else Some (s, None, None, w)))"

subsection \<open>Iterating and looking up\<close>

abbreviation tab_cmp :: "Table \<Rightarrow> bytes \<Rightarrow> bytes \<Rightarrow> int" where
  "tab_cmp t \<equiv> cmp_Compare (opt_comparator (tab_options t))"

definition Table_fns ::
  "'r RandomAccessFile \<Rightarrow> ('c, 'h, Block) Cache \<Rightarrow> Table \<Rightarrow> ReadOptions \<Rightarrow>
     (BlockIterator, 'h OwnedIterator, ('r, 'c) World) TwoLevelFns" where
  "Table_fns rops cops t options =
     \<lparr>tf_index = block_ops (tab_cmp t), tf_data = owned_ops (tab_cmp t), tf_block = BlockReader rops cops t options,
      tf_delete = delete_owned cops\<rparr>"

definition Table_NewIterator ::
  "'r RandomAccessFile \<Rightarrow> ('c, 'h, Block) Cache \<Rightarrow> Table \<Rightarrow> ReadOptions \<Rightarrow> (BlockIterator, 'h OwnedIterator) TwoLevelIterator" where
  "Table_NewIterator rops cops t options =
     TwoLevelIterator_new (Table_fns rops cops t options) (Block_NewIterator (tab_index_block t))"

text \<open>\<^verbatim>\<open>InternalGet\<close> calls \<^verbatim>\<open>handle_result\<close> at most once, with a key and a value: the result says with what.\<close>

definition InternalGet ::
  "'r RandomAccessFile \<Rightarrow> ('c, 'h, Block) Cache \<Rightarrow> ('r, 'c) World \<Rightarrow> Table \<Rightarrow> ReadOptions \<Rightarrow> bytes \<Rightarrow>
     (status \<times> (bytes \<times> bytes) option \<times> ('r, 'c) World) option" where
  "InternalGet rops cops w t options k =
     (let b = block_ops (tab_cmp t); d = owned_ops (tab_cmp t) in
      Option.bind (itSeek b (Block_NewIterator (tab_index_block t)) k) (\<lambda>iiter.
        map_option (\<lambda>(s, call, w). (if ok s then itStatus b iiter else s, call, w))
         (if itValid b iiter then
            let (hs, handle, v) = BlockHandle_DecodeFrom BlockHandle_new (itValue b iiter) in
            if (case tab_filter t of None \<Rightarrow> False | Some reader \<Rightarrow> ok hs \<and>
                  \<not> fr_KeyMayMatch (fp_KeyMayMatch (the (opt_filter_policy (tab_options t)))) reader (bh_offset handle) k)
            then Some (Status_OK, None, w)
            else
              Option.bind (BlockReader rops cops t options w (itValue b iiter)) (\<lambda>p.
                map_option (\<lambda>(it, w).
                    (itStatus d (it, w), if itValid d (it, w) then Some (itKey d (it, w), itValue d (it, w)) else None,
                     delete_owned cops it w))
                  (itSeek d p k))
          else Some (Status_OK, None, w))))"

definition ApproximateOffsetOf :: "Table \<Rightarrow> bytes \<Rightarrow> u64 option" where
  "ApproximateOffsetOf t key =
     (let b = block_ops (tab_cmp t) in
      map_option (\<lambda>index_iter.
          if itValid b index_iter then
            let (s, handle, input) = BlockHandle_DecodeFrom BlockHandle_new (itValue b index_iter) in
            if ok s then bh_offset handle else bh_offset (tab_metaindex_handle t)
          else bh_offset (tab_metaindex_handle t))
        (itSeek b (Block_NewIterator (tab_index_block t)) key))"

end
