(* ===== verification/Table_Builder.thy ===== *)
theory Table_Builder
  imports Options Block_Reader
begin

text \<open>
  \<^verbatim>\<open>table/table_builder.cc\<close>: writing a table file. The file is any \<open>WritableFile\<close>. The lemmas
  give the bytes of a finished table (\<open>table_image\<close>) for the blocks the entries were divided into,
  and show that a table that was finished with a good status has them; a bad status is never lost.
\<close>

section \<open>The code\<close>

text \<open>The buffer \<^verbatim>\<open>compressed_output\<close> is empty between calls; the filter block builder keeps the
  policy it was made with.\<close>

record 'f TableBuilder =
  tb_options :: Options
  tb_file :: 'f
  tb_offset :: u64
  tb_status :: status
  tb_data_block :: BlockBuilder
  tb_index_block :: BlockBuilder
  tb_last_key :: bytes
  tb_num_entries :: "64 word"
  tb_closed :: bool
  tb_filter_block :: "(FilterPolicy \<times> FilterBlockBuilder) option"
  tb_pending_index_entry :: bool
  tb_pending_handle :: BlockHandle

definition TableBuilder_new :: "Options \<Rightarrow> 'f \<Rightarrow> 'f TableBuilder" where
  "TableBuilder_new options file =
     (let r = \<lparr>tb_options = options, tb_file = file, tb_offset = 0, tb_status = Status_OK,
                tb_data_block = BlockBuilder_new (opt_block_restart_interval options), tb_index_block = BlockBuilder_new 1,
                tb_last_key = [], tb_num_entries = 0, tb_closed = False,
                tb_filter_block = map_option (\<lambda>p. (p, FilterBlockBuilder_new)) (opt_filter_policy options),
                tb_pending_index_entry = False, tb_pending_handle = BlockHandle_new\<rparr>
      in r\<lparr>tb_filter_block := map_option (\<lambda>(p, b). (p, fb_StartBlock (fp_CreateFilter p) b 0)) (tb_filter_block r)\<rparr>)"

text \<open>The block builders read their interval through a pointer to the options.\<close>

definition tb_ChangeOptions :: "'f TableBuilder \<Rightarrow> Options \<Rightarrow> status \<times> 'f TableBuilder" where
  "tb_ChangeOptions r options =
     (if cmp_address (opt_comparator options) \<noteq> cmp_address (opt_comparator (tb_options r))
      then (InvalidArgument (str ''changing comparator while building table'') [], r)
      else (Status_OK, r\<lparr>tb_options := options,
              tb_data_block := (tb_data_block r)\<lparr>bb_interval := opt_block_restart_interval options\<rparr>,
              tb_index_block := (tb_index_block r)\<lparr>bb_interval := 1\<rparr>\<rparr>))"

definition WriteRawBlock ::
  "'f WritableFile \<Rightarrow> 'f TableBuilder \<Rightarrow> bytes \<Rightarrow> CompressionType \<Rightarrow> BlockHandle \<times> 'f TableBuilder" where
  "WriteRawBlock ops r block_contents type =
     (let handle = \<lparr>bh_offset = tb_offset r, bh_size = of_nat (length block_contents)\<rparr>;
          (s, file) = wAppend ops (tb_file r) block_contents;
          r = r\<lparr>tb_status := s, tb_file := file\<rparr>
      in if \<not> ok (tb_status r) then (handle, r)
         else
           let crc = crc_Value 0 block_contents;
               crc = Extend 0 crc [compression_num type];
               trailer = [compression_num type] @ EncodeFixed32 (Mask crc);
               (s, file) = wAppend ops (tb_file r) trailer;
               r = r\<lparr>tb_status := s, tb_file := file\<rparr>
           in if \<not> ok (tb_status r) then (handle, r)
              else (handle, r\<lparr>tb_offset := tb_offset r + of_nat (length block_contents + kBlockTrailerSize)\<rparr>))"

text \<open>The block to write is finished, stored compressed if that saves an eighth of it, and reset.\<close>

definition WriteBlock :: "'f WritableFile \<Rightarrow> 'f TableBuilder \<Rightarrow> BlockBuilder \<Rightarrow> BlockBuilder \<times> BlockHandle \<times> 'f TableBuilder" where
  "WriteBlock ops r block =
     (let (raw, block) = bb_Finish block;
          (block_contents, type) =
            (case opt_compression (tb_options r) of
               kNoCompression \<Rightarrow> (raw, kNoCompression)
             | kSnappyCompression \<Rightarrow>
                 (case Snappy_Compress raw of
                    Some compressed \<Rightarrow>
                      if length compressed < length raw - length raw div 8 then (compressed, kSnappyCompression)
                      else (raw, kNoCompression)
                  | None \<Rightarrow> (raw, kNoCompression)));
          (handle, r) = WriteRawBlock ops r block_contents type
      in (bb_Reset block, handle, r))"

definition tb_Flush :: "'f WritableFile \<Rightarrow> 'f TableBuilder \<Rightarrow> 'f TableBuilder" where
  "tb_Flush ops r =
     (if \<not> ok (tb_status r) then r
      else if bb_empty (tb_data_block r) then r
      else
        let (block, handle, r) = WriteBlock ops r (tb_data_block r);
            r = r\<lparr>tb_data_block := block, tb_pending_handle := handle\<rparr>;
            r = (if ok (tb_status r) then
                   let r = r\<lparr>tb_pending_index_entry := True\<rparr>;
                       (s, file) = wFlush ops (tb_file r)
                   in r\<lparr>tb_status := s, tb_file := file\<rparr>
                 else r)
        in r\<lparr>tb_filter_block := map_option (\<lambda>(p, b). (p, fb_StartBlock (fp_CreateFilter p) b (tb_offset r))) (tb_filter_block r)\<rparr>)"

text \<open>The index entry of the block written last, under a key that the caller chose.\<close>

definition add_index_entry :: "'f TableBuilder \<Rightarrow> bytes \<Rightarrow> 'f TableBuilder" where
  "add_index_entry r key =
     r\<lparr>tb_last_key := key, tb_index_block := bb_Add (tb_index_block r) key (BlockHandle_EncodeTo (tb_pending_handle r) []),
       tb_pending_index_entry := False\<rparr>"

definition tb_Add :: "'f WritableFile \<Rightarrow> 'f TableBuilder \<Rightarrow> bytes \<Rightarrow> bytes \<Rightarrow> 'f TableBuilder" where
  "tb_Add ops r key val =
     (if \<not> ok (tb_status r) then r
      else
        let r = (if tb_pending_index_entry r
                 then add_index_entry r (cmp_FindShortestSeparator (opt_comparator (tb_options r)) (tb_last_key r) key)
                 else r);
            r = r\<lparr>tb_filter_block := map_option (\<lambda>(p, b). (p, fb_AddKey b key)) (tb_filter_block r)\<rparr>;
            r = r\<lparr>tb_last_key := key, tb_num_entries := tb_num_entries r + 1, tb_data_block := bb_Add (tb_data_block r) key val\<rparr>;
            estimated_block_size = bb_CurrentSizeEstimate (tb_data_block r)
        in if estimated_block_size \<ge> opt_block_size (tb_options r) then tb_Flush ops r else r)"

text \<open>\<^verbatim>\<open>Finish\<close>: the filter block, the metaindex block, the index block and the footer.\<close>

definition write_filter :: "'f WritableFile \<Rightarrow> 'f TableBuilder \<Rightarrow> BlockHandle \<times> 'f TableBuilder" where
  "write_filter ops r =
     (case tb_filter_block r of
        Some (p, b) \<Rightarrow>
          if ok (tb_status r) then
            let (c, b) = fb_Finish (fp_CreateFilter p) b
            in WriteRawBlock ops (r\<lparr>tb_filter_block := Some (p, b)\<rparr>) c kNoCompression
          else (BlockHandle_new, r)
      | None \<Rightarrow> (BlockHandle_new, r))"

definition write_metaindex :: "'f WritableFile \<Rightarrow> 'f TableBuilder \<Rightarrow> BlockHandle \<Rightarrow> BlockHandle \<times> 'f TableBuilder" where
  "write_metaindex ops r filter_block_handle =
     (if \<not> ok (tb_status r) then (BlockHandle_new, r)
      else
        let b = BlockBuilder_new (opt_block_restart_interval (tb_options r));
            b = (case tb_filter_block r of
                   Some _ \<Rightarrow> bb_Add b (str ''filter.'' @ fp_Name (the (opt_filter_policy (tb_options r))))
                               (BlockHandle_EncodeTo filter_block_handle [])
                 | None \<Rightarrow> b);
            (_, handle, r) = WriteBlock ops r b
        in (handle, r))"

definition write_index :: "'f WritableFile \<Rightarrow> 'f TableBuilder \<Rightarrow> BlockHandle \<times> 'f TableBuilder" where
  "write_index ops r =
     (if \<not> ok (tb_status r) then (BlockHandle_new, r)
      else
        let r = (if tb_pending_index_entry r
                 then add_index_entry r (cmp_FindShortSuccessor (opt_comparator (tb_options r)) (tb_last_key r)) else r);
            (block, handle, r) = WriteBlock ops r (tb_index_block r)
        in (handle, r\<lparr>tb_index_block := block\<rparr>))"

definition write_footer :: "'f WritableFile \<Rightarrow> 'f TableBuilder \<Rightarrow> BlockHandle \<Rightarrow> BlockHandle \<Rightarrow> 'f TableBuilder" where
  "write_footer ops r metaindex index =
     (if \<not> ok (tb_status r) then r
      else
        let footer_encoding = Footer_EncodeTo \<lparr>metaindex_handle = metaindex, index_handle = index\<rparr> [];
            (s, file) = wAppend ops (tb_file r) footer_encoding;
            r = r\<lparr>tb_status := s, tb_file := file\<rparr>
        in if ok (tb_status r) then r\<lparr>tb_offset := tb_offset r + of_nat (length footer_encoding)\<rparr> else r)"

definition tb_Finish :: "'f WritableFile \<Rightarrow> 'f TableBuilder \<Rightarrow> status \<times> 'f TableBuilder" where
  "tb_Finish ops r =
     (let r = (tb_Flush ops r)\<lparr>tb_closed := True\<rparr>;
          (filter_block_handle, r) = write_filter ops r;
          (metaindex_block_handle, r) = write_metaindex ops r filter_block_handle;
          (index_block_handle, r) = write_index ops r;
          r = write_footer ops r metaindex_block_handle index_block_handle
      in (tb_status r, r))"

definition tb_Abandon :: "'f TableBuilder \<Rightarrow> 'f TableBuilder" where
  "tb_Abandon r = r\<lparr>tb_closed := True\<rparr>"

definition tb_NumEntries :: "'f TableBuilder \<Rightarrow> u64" where
  "tb_NumEntries r = tb_num_entries r"

definition tb_FileSize :: "'f TableBuilder \<Rightarrow> u64" where
  "tb_FileSize r = tb_offset r"

text \<open>A whole table: entries added to a new builder, then finished.\<close>

definition write_table :: "'f WritableFile \<Rightarrow> Options \<Rightarrow> 'f \<Rightarrow> (bytes \<times> bytes) list \<Rightarrow> status \<times> 'f TableBuilder" where
  "write_table ops opts f kvs = tb_Finish ops (foldl (\<lambda>r (k, v). tb_Add ops r k v) (TableBuilder_new opts f) kvs)"

section \<open>The bytes of a table\<close>

type_synonym kvs = "(bytes \<times> bytes) list"

text \<open>The data blocks one after another, where each lies, and what the index says of them.\<close>

definition data_area :: "int \<Rightarrow> kvs list \<Rightarrow> bytes" where
  "data_area n bs = concat (map (\<lambda>b. stored_block kNoCompression (build_block n b)) bs)"

definition area_handle :: "int \<Rightarrow> kvs list \<Rightarrow> kvs \<Rightarrow> BlockHandle" where
  "area_handle n bs b = \<lparr>bh_offset = of_nat (length (data_area n bs)), bh_size = of_nat (length (build_block n b))\<rparr>"

definition index_key :: "Comparator \<Rightarrow> kvs list \<Rightarrow> nat \<Rightarrow> bytes" where
  "index_key c bs i =
     (if Suc i < length bs then cmp_FindShortestSeparator c (fst (last (bs ! i))) (fst (hd (bs ! Suc i)))
      else cmp_FindShortSuccessor c (fst (last (bs ! i))))"

definition index_entry :: "Comparator \<Rightarrow> int \<Rightarrow> kvs list \<Rightarrow> nat \<Rightarrow> bytes \<times> bytes" where
  "index_entry c n bs i = (index_key c bs i, BlockHandle_EncodeTo (area_handle n (take i bs) (bs ! i)) [])"

definition index_entries :: "Comparator \<Rightarrow> int \<Rightarrow> kvs list \<Rightarrow> kvs" where
  "index_entries c n bs = map (index_entry c n bs) [0..<length bs]"

text \<open>The calls the filter block sees: the keys of each block at its offset.\<close>

definition filter_blocks :: "int \<Rightarrow> kvs list \<Rightarrow> (u64 \<times> bytes list) list" where
  "filter_blocks n bs = map (\<lambda>i. (of_nat (length (data_area n (take i bs))), map fst (bs ! i))) [0..<length bs]"

definition filter_state :: "FilterPolicy \<Rightarrow> int \<Rightarrow> kvs list \<Rightarrow> kvs \<Rightarrow> FilterBlockBuilder" where
  "filter_state p n bs cur =
     fb_block (fp_CreateFilter p) (foldl (fb_block (fp_CreateFilter p)) FilterBlockBuilder_new (filter_blocks n bs))
       (of_nat (length (data_area n bs)), map fst cur)"

definition filter_contents :: "FilterPolicy \<Rightarrow> int \<Rightarrow> kvs list \<Rightarrow> bytes" where
  "filter_contents p n bs = build_filter (fp_CreateFilter p) (filter_blocks n bs @ [(of_nat (length (data_area n bs)), [])])"

text \<open>The parts behind the data blocks.\<close>

definition raw_handle :: "bytes \<Rightarrow> bytes \<Rightarrow> BlockHandle" where
  "raw_handle front c = \<lparr>bh_offset = of_nat (length front), bh_size = of_nat (length c)\<rparr>"

definition with_filter :: "Options \<Rightarrow> kvs list \<Rightarrow> bytes" where
  "with_filter opts bs =
     (let d = data_area (opt_block_restart_interval opts) bs in
      case opt_filter_policy opts of
        None \<Rightarrow> d
      | Some p \<Rightarrow> d @ stored_block kNoCompression (filter_contents p (opt_block_restart_interval opts) bs))"

definition meta_entries :: "Options \<Rightarrow> kvs list \<Rightarrow> kvs" where
  "meta_entries opts bs =
     (case opt_filter_policy opts of
        None \<Rightarrow> []
      | Some p \<Rightarrow> [(str ''filter.'' @ fp_Name p,
          BlockHandle_EncodeTo (raw_handle (data_area (opt_block_restart_interval opts) bs)
            (filter_contents p (opt_block_restart_interval opts) bs)) [])])"

definition meta_block :: "Options \<Rightarrow> kvs list \<Rightarrow> bytes" where
  "meta_block opts bs = build_block (opt_block_restart_interval opts) (meta_entries opts bs)"

definition index_block :: "Options \<Rightarrow> kvs list \<Rightarrow> bytes" where
  "index_block opts bs = build_block 1 (index_entries (opt_comparator opts) (opt_block_restart_interval opts) bs)"

definition with_meta :: "Options \<Rightarrow> kvs list \<Rightarrow> bytes" where
  "with_meta opts bs = with_filter opts bs @ stored_block kNoCompression (meta_block opts bs)"

definition with_index :: "Options \<Rightarrow> kvs list \<Rightarrow> bytes" where
  "with_index opts bs = with_meta opts bs @ stored_block kNoCompression (index_block opts bs)"

definition table_footer :: "Options \<Rightarrow> kvs list \<Rightarrow> Footer" where
  "table_footer opts bs = \<lparr>metaindex_handle = raw_handle (with_filter opts bs) (meta_block opts bs),
     index_handle = raw_handle (with_meta opts bs) (index_block opts bs)\<rparr>"

definition table_image :: "Options \<Rightarrow> kvs list \<Rightarrow> bytes" where
  "table_image opts bs = with_index opts bs @ Footer_EncodeTo (table_footer opts bs) []"

lemma data_area_snoc: "data_area n (bs @ [b]) = data_area n bs @ stored_block kNoCompression (build_block n b)"
  by (simp add: data_area_def)

lemma filter_blocks_snoc:
  "filter_blocks n (bs @ [b]) = filter_blocks n bs @ [(of_nat (length (data_area n bs)), map fst b)]"
  by (simp add: filter_blocks_def nth_append)

lemma filter_state_start:
  "fb_StartBlock (fp_CreateFilter p) (filter_state p n bs cur) (of_nat (length (data_area n (bs @ [cur])))) =
    filter_state p n (bs @ [cur]) []"
  by (simp add: filter_state_def filter_blocks_snoc fb_block_def)

lemma filter_state_add: "fb_AddKey (filter_state p n bs cur) k = filter_state p n bs (cur @ [(k, v)])"
  by (simp add: filter_state_def fb_block_def)

lemma filter_state_finish: "fst (fb_Finish (fp_CreateFilter p) (filter_state p n bs [])) = filter_contents p n bs"
  by (simp add: filter_state_def filter_contents_def build_filter_def fb_block_def)

lemma index_entry_cong:
  "i < length bs \<Longrightarrow> Suc i < length (bs @ cs) \<Longrightarrow> i < length bs \<Longrightarrow>
    hd ((bs @ cs) ! Suc i) = hd ((bs @ cs') ! Suc i) \<Longrightarrow> Suc i < length (bs @ cs') \<Longrightarrow>
    index_entry c n (bs @ cs) i = index_entry c n (bs @ cs') i"
  by (simp add: index_entry_def index_key_def nth_append)

abbreviation add_all :: "BlockBuilder \<Rightarrow> kvs \<Rightarrow> BlockBuilder" where
  "add_all \<equiv> foldl (\<lambda>b (k, v). bb_Add b k v)"

lemma add_all_Finish: "fst (bb_Finish (add_all (BlockBuilder_new n) kvs)) = build_block n kvs"
  by (simp add: build_block_def)

lemma bb_Add_interval [simp]: "bb_interval (bb_Add b k v) = bb_interval b"
  by (simp add: bb_Add_def Let_def)

lemma add_all_interval [simp]: "bb_interval (add_all b kvs) = bb_interval b"
  by (induction kvs arbitrary: b) (auto simp: case_prod_unfold)

lemma BlockBuilder_new_interval [simp]: "bb_interval (BlockBuilder_new n) = n"
  by (simp add: BlockBuilder_new_def)

lemma bb_Finish_Reset [simp]: "bb_Reset (snd (bb_Finish b)) = BlockBuilder_new (bb_interval b)"
  by (simp add: bb_Finish_def bb_Reset_def BlockBuilder_new_def Let_def)

lemma bb_Add_grows: "length (bb_buffer b) < length (bb_buffer (bb_Add b k v))"
proof -
  have "0 < length (EncodeVarint32 w)" for w by (simp add: EncodeVarint32_def Let_def)
  then show ?thesis by (simp add: bb_Add_def Let_def PutVarint32_def)
qed

lemma add_all_empty: "bb_empty (add_all (BlockBuilder_new n) kvs) \<longleftrightarrow> kvs = []"
proof (cases kvs rule: rev_cases)
  case (snoc kvs' kv)
  then show ?thesis using bb_Add_grows [of "add_all (BlockBuilder_new n) kvs'" "fst kv" "snd kv"]
    by (auto simp: bb_empty_def case_prod_unfold)
qed (simp add: bb_empty_def BlockBuilder_new_def)

lemma WriteBlock_eq:
  "WriteBlock ops r block =
    (let (h, r') = WriteRawBlock ops r (fst (bb_Finish block)) kNoCompression in (BlockBuilder_new (bb_interval block), h, r'))"
proof -
  have "bb_Reset (snd (bb_Finish block)) = BlockBuilder_new (bb_interval block)" by simp
  moreover obtain raw b where "bb_Finish block = (raw, b)" by (cases "bb_Finish block")
  ultimately show ?thesis
    by (simp add: WriteBlock_def Snappy_Compress_def Let_def split: CompressionType.splits prod.splits)
qed

text \<open>A bad status stays: nothing more is written.\<close>

lemma sticky [simp]:
  "\<not> ok (tb_status r) \<Longrightarrow> tb_Flush ops r = r"
  "\<not> ok (tb_status r) \<Longrightarrow> tb_Add ops r k v = r"
  "\<not> ok (tb_status r) \<Longrightarrow> write_filter ops r = (BlockHandle_new, r)"
  "\<not> ok (tb_status r) \<Longrightarrow> write_metaindex ops r h = (BlockHandle_new, r)"
  "\<not> ok (tb_status r) \<Longrightarrow> write_index ops r = (BlockHandle_new, r)"
  "\<not> ok (tb_status r) \<Longrightarrow> write_footer ops r h h' = r"
  by (simp_all add: tb_Flush_def tb_Add_def write_filter_def write_metaindex_def write_index_def write_footer_def
      split: option.splits prod.splits)

lemma sticky_Finish: "\<not> ok (tb_status r) \<Longrightarrow> tb_Finish ops r = (tb_status r, r\<lparr>tb_closed := True\<rparr>)"
  by (simp add: tb_Finish_def)

section \<open>What the builder writes\<close>

context writable_file begin

lemma WriteRawBlock_ok:
  assumes "WriteRawBlock ops r c t = (h, r')" "ok (tb_status r')"
  shows "contents (tb_file r') = contents (tb_file r) @ stored_block t c \<and>
    r' = r\<lparr>tb_status := tb_status r', tb_file := tb_file r', tb_offset := tb_offset r + of_nat (length c + kBlockTrailerSize)\<rparr> \<and>
    h = \<lparr>bh_offset = tb_offset r, bh_size = of_nat (length c)\<rparr>"
proof -
  obtain s1 f1 where 1: "wAppend ops (tb_file r) c = (s1, f1)" by fastforce
  let ?t = "[compression_num t] @ EncodeFixed32 (Mask (Extend 0 (crc_Value 0 c) [compression_num t]))"
  obtain s2 f2 where 2: "wAppend ops f1 ?t = (s2, f2)" by fastforce
  have ok: "ok s1" "ok s2" "r' = r\<lparr>tb_status := s2, tb_file := f2, tb_offset := tb_offset r + of_nat (length c + kBlockTrailerSize)\<rparr>"
    "h = \<lparr>bh_offset = tb_offset r, bh_size = of_nat (length c)\<rparr>"
    using assms 1 2 by (auto simp: WriteRawBlock_def Let_def split: if_splits)
  have "Extend 0 (crc_Value 0 c) [compression_num t] = crc_Value 0 (c @ [compression_num t])" by (rule Extend_append)
  with append_ok [OF 1 ok(1)] append_ok [OF 2 ok(2)] ok(3,4) show ?thesis by (simp add: stored_block_def)
qed

text \<open>The blocks written, and the entries waiting for the next one.\<close>

definition tb_inv :: "Options \<Rightarrow> kvs list \<Rightarrow> kvs \<Rightarrow> 'f TableBuilder \<Rightarrow> bool" where
  "tb_inv opts bs cur r \<longleftrightarrow>
     (let n = opt_block_restart_interval opts; c = opt_comparator opts in
      tb_options r = opts \<and> contents (tb_file r) = data_area n bs \<and> tb_offset r = of_nat (length (data_area n bs)) \<and>
      (\<forall>b\<in>set bs. b \<noteq> []) \<and> tb_data_block r = add_all (BlockBuilder_new n) cur \<and>
      tb_pending_index_entry r = (cur = [] \<and> bs \<noteq> []) \<and>
      (bs \<noteq> [] \<longrightarrow> tb_pending_handle r = area_handle n (butlast bs) (last bs)) \<and>
      tb_index_block r = add_all (BlockBuilder_new 1)
        (map (index_entry c n (bs @ [cur])) [0..<(if cur = [] then length bs - 1 else length bs)]) \<and>
      tb_last_key r = (if cur \<noteq> [] then fst (last cur) else if bs \<noteq> [] then fst (last (last bs)) else []) \<and>
      tb_filter_block r = map_option (\<lambda>p. (p, filter_state p n bs cur)) (opt_filter_policy opts))"

lemma TableBuilder_new_inv: "contents f = [] \<Longrightarrow> tb_inv opts [] [] (TableBuilder_new opts f)"
  by (simp add: tb_inv_def TableBuilder_new_def Let_def data_area_def filter_state_def filter_blocks_def fb_block_def
      option.map_comp comp_def)

lemma index_entries_more:
  "map (index_entry c n (bs @ [b])) [0..<length bs] = map (index_entry c n (bs @ b # bs')) [0..<length bs]"
  by (intro map_cong refl index_entry_cong) (auto simp: nth_append)

lemma tb_Flush_inv:
  assumes i: "tb_inv opts bs cur r" and c: "cur \<noteq> []" and k: "ok (tb_status (tb_Flush ops r))" "ok (tb_status r)"
  shows "tb_inv opts (bs @ [cur]) [] (tb_Flush ops r)"
proof -
  let ?n = "opt_block_restart_interval opts"
  have e: "\<not> bb_empty (tb_data_block r)" using i c by (simp add: tb_inv_def Let_def add_all_empty)
  have raw: "fst (bb_Finish (tb_data_block r)) = build_block ?n cur" "bb_interval (tb_data_block r) = ?n"
    using i by (simp_all add: tb_inv_def Let_def add_all_Finish)
  obtain h r1 where w: "WriteRawBlock ops r (build_block ?n cur) kNoCompression = (h, r1)" by fastforce
  obtain s f where fl: "wFlush ops (tb_file r1) = (s, f)" by fastforce
  let ?fb = "\<lambda>r. map_option (\<lambda>(p, b). (p, fb_StartBlock (fp_CreateFilter p) b (tb_offset r))) (tb_filter_block r)"
  let ?r2 = "r1\<lparr>tb_data_block := BlockBuilder_new ?n, tb_pending_handle := h\<rparr>"
  have r: "tb_Flush ops r = (let r = (if ok (tb_status ?r2) then ?r2\<lparr>tb_pending_index_entry := True, tb_status := s, tb_file := f\<rparr> else ?r2)
      in r\<lparr>tb_filter_block := ?fb r\<rparr>)"
    using e k(2) fl by (simp add: tb_Flush_def WriteBlock_eq raw w Let_def)
  then have ok1: "ok (tb_status r1)" "ok s" using k(1) by (auto simp: Let_def split: if_splits)
  note w1 = WriteRawBlock_ok [OF w ok1(1)]
  have f: "contents f = contents (tb_file r1)" using flush_ok [OF fl ok1(2)] by simp
  have off: "tb_offset r1 = of_nat (length (data_area ?n (bs @ [cur])))"
  proof -
    have "tb_offset r1 = tb_offset r + of_nat (length (build_block ?n cur) + kBlockTrailerSize)"
      by (subst conjunct1 [OF conjunct2 [OF w1]]) simp
    then show ?thesis using i by (simp add: tb_inv_def Let_def data_area_snoc length_stored_block)
  qed
  have same: "tb_options r1 = tb_options r" "tb_index_block r1 = tb_index_block r" "tb_last_key r1 = tb_last_key r"
    "tb_filter_block r1 = tb_filter_block r"
    by (subst conjunct1 [OF conjunct2 [OF w1]], simp)+
  have fb: "?fb r1 = map_option (\<lambda>p. (p, filter_state p ?n (bs @ [cur]) [])) (opt_filter_policy opts)"
    using i filter_state_start [of _ ?n bs cur] by (cases "opt_filter_policy opts") (auto simp: tb_inv_def Let_def off same(4))
  show ?thesis using i c w1 f off same fb ok1
    by (auto simp: r tb_inv_def Let_def data_area_snoc area_handle_def index_entries_more [of _ _ bs cur "[[]]"])
qed

lemma tb_Add_inv:
  assumes i: "tb_inv opts bs cur r" and k: "ok (tb_status (tb_Add ops r k v))"
  shows "\<exists>bs' cur'. tb_inv opts bs' cur' (tb_Add ops r k v) \<and> concat bs' @ cur' = concat bs @ cur @ [(k, v)] \<and> ok (tb_status r)"
proof -
  let ?n = "opt_block_restart_interval opts" and ?c = "opt_comparator opts"
  have okr: "ok (tb_status r)" using k by (cases "ok (tb_status r)") simp_all
  let ?r1 = "if tb_pending_index_entry r
      then add_index_entry r (cmp_FindShortestSeparator (opt_comparator (tb_options r)) (tb_last_key r) k) else r"
  let ?r2 = "?r1\<lparr>tb_filter_block := map_option (\<lambda>(p, b). (p, fb_AddKey b k)) (tb_filter_block ?r1)\<rparr>"
  let ?r3 = "?r2\<lparr>tb_last_key := k, tb_num_entries := tb_num_entries ?r2 + 1, tb_data_block := bb_Add (tb_data_block ?r2) k v\<rparr>"
  have r: "tb_Add ops r k v = (if bb_CurrentSizeEstimate (tb_data_block ?r3) \<ge> opt_block_size (tb_options ?r3) then tb_Flush ops ?r3 else ?r3)"
    using okr by (simp add: tb_Add_def Let_def)
  have idx: "tb_index_block ?r3 = add_all (BlockBuilder_new 1) (map (index_entry ?c ?n (bs @ [cur @ [(k, v)]])) [0..<length bs])"
  proof (cases "cur = [] \<and> bs \<noteq> []")
    case True
    then obtain l where l: "length bs = Suc l" by (cases bs) auto
    have b: "bs ! l = last bs" "take l bs = butlast bs" using True l by (simp_all add: last_conv_nth butlast_conv_take)
    have p: "map (index_entry ?c ?n (bs @ [[(k, v)]])) [0..<l] = map (index_entry ?c ?n (bs @ [[]])) [0..<l]"
      by (intro map_cong refl index_entry_cong) (auto simp: nth_append l)
    have e: "index_entry ?c ?n (bs @ [[(k, v)]]) l = (cmp_FindShortestSeparator ?c (fst (last (last bs))) k,
        BlockHandle_EncodeTo (area_handle ?n (butlast bs) (last bs)) [])"
      using l b by (simp add: index_entry_def index_key_def nth_append)
    show ?thesis using i True by (simp add: tb_inv_def Let_def add_index_entry_def l p e)
  next
    case False
    then have "map (index_entry ?c ?n (bs @ [cur @ [(k, v)]])) [0..<length bs] = map (index_entry ?c ?n (bs @ [cur])) [0..<length bs]"
      by (intro map_cong refl index_entry_cong) (auto simp: nth_append)
    moreover have "tb_index_block r = add_all (BlockBuilder_new 1) (map (index_entry ?c ?n (bs @ [cur])) [0..<length bs])"
      "\<not> tb_pending_index_entry r" using i False by (auto simp: tb_inv_def Let_def)
    ultimately show ?thesis by (simp del: map_eq_conv)
  qed
  have fb: "tb_filter_block ?r3 = map_option (\<lambda>p. (p, filter_state p ?n bs (cur @ [(k, v)]))) (opt_filter_policy opts)"
    using i filter_state_add [of _ ?n bs cur k v] by (cases "opt_filter_policy opts") (auto simp: tb_inv_def Let_def add_index_entry_def)
  have inv: "tb_inv opts bs (cur @ [(k, v)]) ?r3" and ok3: "ok (tb_status ?r3)"
    using i idx fb okr by (auto simp: tb_inv_def Let_def add_index_entry_def)
  show ?thesis
  proof (cases "bb_CurrentSizeEstimate (tb_data_block ?r3) \<ge> opt_block_size (tb_options ?r3)")
    case True
    then have e: "tb_Add ops r k v = tb_Flush ops ?r3" using r by simp
    have "ok (tb_status (tb_Flush ops ?r3))" using k e by simp
    from tb_Flush_inv [OF inv _ this ok3] e okr show ?thesis
      by (intro exI [of _ "bs @ [cur @ [(k, v)]]"] exI [of _ "[]"]) simp
  next
    case False
    then show ?thesis using r inv okr by (intro exI [of _ bs] exI [of _ "cur @ [(k, v)]"]) simp
  qed
qed

lemma tb_Adds_inv:
  assumes "tb_inv opts bs cur r" "ok (tb_status (foldl (\<lambda>r (k, v). tb_Add ops r k v) r kvs))"
  shows "\<exists>bs' cur'. tb_inv opts bs' cur' (foldl (\<lambda>r (k, v). tb_Add ops r k v) r kvs) \<and> concat bs' @ cur' = concat bs @ cur @ kvs"
  using assms(2)
proof (induction kvs rule: rev_induct)
  case Nil
  then show ?case using assms(1) by auto
next
  case (snoc kv kvs)
  let ?r = "foldl (\<lambda>r (k, v). tb_Add ops r k v) r kvs"
  have k: "ok (tb_status (tb_Add ops ?r (fst kv) (snd kv)))" using snoc.prems by (simp add: case_prod_unfold)
  then have "ok (tb_status ?r)" by (cases "ok (tb_status ?r)") simp_all
  then obtain bs' cur' where i: "tb_inv opts bs' cur' ?r" "concat bs' @ cur' = concat bs @ cur @ kvs" using snoc.IH by blast
  from tb_Add_inv [OF i(1) k] obtain bs'' cur'' where
    "tb_inv opts bs'' cur'' (tb_Add ops ?r (fst kv) (snd kv))" "concat bs'' @ cur'' = concat bs' @ cur' @ [(fst kv, snd kv)]" by blast
  then show ?case using i(2) by (intro exI [of _ bs''] exI [of _ cur'']) (simp add: case_prod_unfold)
qed

text \<open>The parts that \<^verbatim>\<open>Finish\<close> writes.\<close>

lemma write_filter_ok:
  assumes "write_filter ops r = (h, r')" "ok (tb_status r')" "tb_inv opts bs [] r"
  shows "ok (tb_status r) \<and> contents (tb_file r') = with_filter opts bs \<and> tb_offset r' = of_nat (length (with_filter opts bs)) \<and>
    tb_options r' = opts \<and> tb_index_block r' = tb_index_block r \<and> tb_pending_index_entry r' = tb_pending_index_entry r \<and>
    tb_last_key r' = tb_last_key r \<and> tb_pending_handle r' = tb_pending_handle r \<and>
    (tb_filter_block r' = None \<longleftrightarrow> opt_filter_policy opts = None) \<and>
    (\<forall>p. opt_filter_policy opts = Some p \<longrightarrow>
      h = raw_handle (data_area (opt_block_restart_interval opts) bs) (filter_contents p (opt_block_restart_interval opts) bs))"
proof (cases "opt_filter_policy opts")
  case None
  then show ?thesis using assms by (simp add: write_filter_def tb_inv_def Let_def with_filter_def)
next
  case (Some p)
  let ?n = "opt_block_restart_interval opts"
  have f: "tb_filter_block r = Some (p, filter_state p ?n bs [])" using assms(3) Some by (simp add: tb_inv_def Let_def)
  have okr: "ok (tb_status r)" using assms(1,2) f by (cases "ok (tb_status r)") simp_all
  obtain b where b: "fb_Finish (fp_CreateFilter p) (filter_state p ?n bs []) = (filter_contents p ?n bs, b)"
    using filter_state_finish [of p ?n bs] by (metis prod.collapse)
  have w: "WriteRawBlock ops (r\<lparr>tb_filter_block := Some (p, b)\<rparr>) (filter_contents p ?n bs) kNoCompression = (h, r')"
    using assms(1) f okr b by (simp add: write_filter_def)
  note w1 = WriteRawBlock_ok [OF w assms(2)]
  have same: "tb_options r' = tb_options r" "tb_index_block r' = tb_index_block r" "tb_last_key r' = tb_last_key r"
    "tb_filter_block r' = Some (p, b)" "tb_pending_index_entry r' = tb_pending_index_entry r" "tb_pending_handle r' = tb_pending_handle r"
    "tb_offset r' = tb_offset r + of_nat (length (filter_contents p ?n bs) + kBlockTrailerSize)"
    by (subst conjunct1 [OF conjunct2 [OF w1]], simp)+
  show ?thesis using assms(3) w1 same okr Some by (auto simp: tb_inv_def Let_def with_filter_def raw_handle_def length_stored_block)
qed

lemma write_metaindex_ok:
  assumes "write_metaindex ops r fh = (h, r')" "ok (tb_status r')"
    and "contents (tb_file r) = with_filter opts bs" "tb_offset r = of_nat (length (with_filter opts bs))" "tb_options r = opts"
    and "tb_filter_block r = None \<longleftrightarrow> opt_filter_policy opts = None"
    and "\<And>p. opt_filter_policy opts = Some p \<Longrightarrow>
      fh = raw_handle (data_area (opt_block_restart_interval opts) bs) (filter_contents p (opt_block_restart_interval opts) bs)"
  shows "ok (tb_status r) \<and> contents (tb_file r') = with_meta opts bs \<and> tb_offset r' = of_nat (length (with_meta opts bs)) \<and>
    tb_options r' = opts \<and> tb_index_block r' = tb_index_block r \<and> tb_pending_index_entry r' = tb_pending_index_entry r \<and>
    tb_last_key r' = tb_last_key r \<and> tb_pending_handle r' = tb_pending_handle r \<and>
    h = raw_handle (with_filter opts bs) (meta_block opts bs)"
proof -
  have okr: "ok (tb_status r)" using assms(1,2) by (cases "ok (tb_status r)") simp_all
  have "(case tb_filter_block r of
      Some _ \<Rightarrow> bb_Add (BlockBuilder_new (opt_block_restart_interval opts)) (str ''filter.'' @ fp_Name (the (opt_filter_policy opts)))
        (BlockHandle_EncodeTo fh [])
    | None \<Rightarrow> BlockBuilder_new (opt_block_restart_interval opts)) =
      add_all (BlockBuilder_new (opt_block_restart_interval opts)) (meta_entries opts bs)"
    using assms(6,7) by (auto simp: meta_entries_def split: option.splits)
  then have w: "WriteRawBlock ops r (meta_block opts bs) kNoCompression = (h, r')"
    using assms(1,5) okr by (simp add: write_metaindex_def WriteBlock_eq Let_def add_all_Finish meta_block_def cong: option.case_cong split: prod.splits)
  note w1 = WriteRawBlock_ok [OF w assms(2)]
  have same: "tb_options r' = tb_options r" "tb_index_block r' = tb_index_block r" "tb_last_key r' = tb_last_key r"
    "tb_pending_index_entry r' = tb_pending_index_entry r" "tb_pending_handle r' = tb_pending_handle r"
    "tb_offset r' = tb_offset r + of_nat (length (meta_block opts bs) + kBlockTrailerSize)"
    by (subst conjunct1 [OF conjunct2 [OF w1]], simp)+
  show ?thesis using assms(3-5) w1 same okr by (auto simp: with_meta_def raw_handle_def length_stored_block)
qed

lemma write_index_ok:
  assumes "write_index ops r = (h, r')" "ok (tb_status r')"
    and "contents (tb_file r) = with_meta opts bs" "tb_offset r = of_nat (length (with_meta opts bs))" "tb_options r = opts"
    and i: "tb_inv opts bs [] r0" "tb_index_block r = tb_index_block r0" "tb_pending_index_entry r = tb_pending_index_entry r0"
      "tb_last_key r = tb_last_key r0" "tb_pending_handle r = tb_pending_handle r0"
  shows "ok (tb_status r) \<and> contents (tb_file r') = with_index opts bs \<and> tb_offset r' = of_nat (length (with_index opts bs)) \<and>
    h = raw_handle (with_meta opts bs) (index_block opts bs)"
proof -
  let ?n = "opt_block_restart_interval opts" and ?c = "opt_comparator opts"
  have okr: "ok (tb_status r)" using assms(1,2) by (cases "ok (tb_status r)") simp_all
  let ?r1 = "if tb_pending_index_entry r then add_index_entry r (cmp_FindShortSuccessor ?c (tb_last_key r)) else r"
  have idx: "tb_index_block ?r1 = add_all (BlockBuilder_new 1) (index_entries ?c ?n bs)"
  proof (cases "bs = []")
    case True
    then show ?thesis using i by (simp add: tb_inv_def Let_def index_entries_def)
  next
    case False
    then obtain l where l: "length bs = Suc l" by (cases bs) auto
    have b: "bs ! l = last bs" "take l bs = butlast bs" using False l by (simp_all add: last_conv_nth butlast_conv_take)
    have p: "map (index_entry ?c ?n bs) [0..<l] = map (index_entry ?c ?n (bs @ [[]])) [0..<l]"
      using index_entry_cong [of _ bs "[]" "[[]]" ?c ?n] l by (intro map_cong refl) (auto simp: nth_append)
    have e: "index_entry ?c ?n bs l = (cmp_FindShortSuccessor ?c (fst (last (last bs))),
        BlockHandle_EncodeTo (area_handle ?n (butlast bs) (last bs)) [])"
      using l b by (simp add: index_entry_def index_key_def)
    show ?thesis using i False by (simp add: tb_inv_def Let_def add_index_entry_def index_entries_def l p e)
  qed
  obtain h1 r1 where w: "WriteRawBlock ops ?r1 (index_block opts bs) kNoCompression = (h1, r1)" by fastforce
  have raw: "fst (bb_Finish (tb_index_block ?r1)) = index_block opts bs" unfolding idx by (simp add: add_all_Finish index_block_def)
  have r': "h = h1" "r' = r1\<lparr>tb_index_block := BlockBuilder_new (bb_interval (tb_index_block ?r1))\<rparr>"
    using assms(1,5) okr w raw by (auto simp: write_index_def WriteBlock_eq Let_def)
  then have "ok (tb_status r1)" using assms(2) by simp
  note w1 = WriteRawBlock_ok [OF w this]
  have "tb_offset r1 = tb_offset r + of_nat (length (index_block opts bs) + kBlockTrailerSize)"
    by (subst conjunct1 [OF conjunct2 [OF w1]]) (simp add: add_index_entry_def)
  then show ?thesis using assms(3,4) w1 okr r' by (simp add: with_index_def raw_handle_def length_stored_block add_index_entry_def)
qed

text \<open>A table finished with a good status.\<close>

lemma tb_Finish_ok:
  assumes i: "tb_inv opts bs cur r" and f: "tb_Finish ops r = (s, r')" and k: "ok s"
  shows "\<exists>bs'. concat bs' = concat bs @ cur \<and> (\<forall>b\<in>set bs'. b \<noteq> []) \<and> contents (tb_file r') = table_image opts bs' \<and>
    tb_FileSize r' = of_nat (length (table_image opts bs')) \<and> ok (tb_status r)"
proof -
  let ?r0 = "(tb_Flush ops r)\<lparr>tb_closed := True\<rparr>"
  obtain fh r1 where 1: "write_filter ops ?r0 = (fh, r1)" by fastforce
  obtain mh r2 where 2: "write_metaindex ops r1 fh = (mh, r2)" by fastforce
  obtain ih r3 where 3: "write_index ops r2 = (ih, r3)" by fastforce
  have r': "r' = write_footer ops r3 mh ih" "s = tb_status r'" using f 1 2 3 by (auto simp: tb_Finish_def Let_def)
  have ok3: "ok (tb_status r3)" using k r' by (cases "ok (tb_status r3)") simp_all
  then have ok2: "ok (tb_status r2)" using 3 by (cases "ok (tb_status r2)") simp_all
  then have ok1: "ok (tb_status r1)" using 2 by (cases "ok (tb_status r1)") simp_all
  then have ok0: "ok (tb_status (tb_Flush ops r))" using 1 by (cases "ok (tb_status (tb_Flush ops r))") auto
  then have okr: "ok (tb_status r)" by (cases "ok (tb_status r)") simp_all
  obtain bs' where bs': "tb_inv opts bs' [] (tb_Flush ops r)" "concat bs' = concat bs @ cur"
  proof (cases "cur = []")
    case True
    then have "bb_empty (tb_data_block r)" using i True add_all_empty [of _ "[]"] by (simp add: tb_inv_def Let_def)
    then have "tb_Flush ops r = r" by (simp add: tb_Flush_def)
    then show ?thesis using that i True by simp
  next
    case False
    from tb_Flush_inv [OF i False ok0 okr] that show ?thesis by simp
  qed
  then have i0: "tb_inv opts bs' [] ?r0" by (simp add: tb_inv_def Let_def)
  note w1 = write_filter_ok [OF 1 ok1 i0]
  have w2: "ok (tb_status r1) \<and> contents (tb_file r2) = with_meta opts bs' \<and> tb_offset r2 = of_nat (length (with_meta opts bs')) \<and>
    tb_options r2 = opts \<and> tb_index_block r2 = tb_index_block r1 \<and> tb_pending_index_entry r2 = tb_pending_index_entry r1 \<and>
    tb_last_key r2 = tb_last_key r1 \<and> tb_pending_handle r2 = tb_pending_handle r1 \<and>
    mh = raw_handle (with_filter opts bs') (meta_block opts bs')"
    by (rule write_metaindex_ok [OF 2 ok2]) (use w1 in auto)
  have w3: "ok (tb_status r2) \<and> contents (tb_file r3) = with_index opts bs' \<and> tb_offset r3 = of_nat (length (with_index opts bs')) \<and>
    ih = raw_handle (with_meta opts bs') (index_block opts bs')"
    by (rule write_index_ok [OF 3 ok3 _ _ _ i0]) (use w1 w2 in auto)
  obtain s4 f4 where 4: "wAppend ops (tb_file r3) (Footer_EncodeTo (table_footer opts bs') []) = (s4, f4)" by fastforce
  have foot: "Footer_EncodeTo \<lparr>metaindex_handle = mh, index_handle = ih\<rparr> [] = Footer_EncodeTo (table_footer opts bs') []"
    using w2 w3 by (simp add: table_footer_def)
  have "ok s4" using k ok3 r' 4 foot by (auto simp: write_footer_def Let_def split: if_splits)
  with append_ok [OF 4 this] w3 ok3 r' 4 foot have "contents (tb_file r') = table_image opts bs'"
    "tb_offset r' = of_nat (length (table_image opts bs'))"
    by (simp_all add: write_footer_def Let_def table_image_def)
  moreover have "\<forall>b\<in>set bs'. b \<noteq> []" using bs'(1) by (simp add: tb_inv_def Let_def)
  ultimately show ?thesis using bs'(2) okr by (auto simp: tb_FileSize_def)
qed

lemma write_table_ok:
  assumes "write_table ops opts f kvs = (s, r)" "ok s" "contents f = []"
  shows "\<exists>bs. concat bs = kvs \<and> (\<forall>b\<in>set bs. b \<noteq> []) \<and> contents (tb_file r) = table_image opts bs \<and>
    tb_FileSize r = of_nat (length (table_image opts bs))"
proof -
  let ?r = "foldl (\<lambda>r (k, v). tb_Add ops r k v) (TableBuilder_new opts f) kvs"
  have f: "tb_Finish ops ?r = (s, r)" using assms(1) by (simp add: write_table_def)
  have "ok (tb_status ?r)"
  proof (rule ccontr)
    assume "\<not> ok (tb_status ?r)"
    from sticky_Finish [OF this] f assms(2) this show False by simp
  qed
  from tb_Adds_inv [OF TableBuilder_new_inv [OF assms(3)] this] obtain bs cur where
    i: "tb_inv opts bs cur ?r" "concat bs @ cur = kvs" by auto
  from tb_Finish_ok [OF i(1) f assms(2)] i(2) show ?thesis by auto
qed

end

section \<open>When the builder succeeds\<close>

text \<open>A file on which no append or flush fails, in any state that the calls lead to.\<close>

locale reliable_file =
  fixes ops :: "'f WritableFile" and good :: "'f \<Rightarrow> bool"
  assumes append_good: "good f \<Longrightarrow> wAppend ops f d = (s, f') \<Longrightarrow> ok s \<and> good f'"
    and flush_good: "good f \<Longrightarrow> wFlush ops f = (s, f') \<Longrightarrow> ok s \<and> good f'"
begin

definition builder_good :: "'f TableBuilder \<Rightarrow> bool" where
  "builder_good r \<longleftrightarrow> ok (tb_status r) \<and> good (tb_file r)"

lemma WriteRawBlock_good: "good (tb_file r) \<Longrightarrow> builder_good (snd (WriteRawBlock ops r c t))"
  by (auto simp: WriteRawBlock_def Let_def builder_good_def split: prod.splits dest: append_good)

lemma WriteBlock_good: "good (tb_file r) \<Longrightarrow> builder_good (snd (snd (WriteBlock ops r b)))"
  using WriteRawBlock_good [of r] by (auto simp: WriteBlock_eq Let_def split: prod.splits)

lemma tb_Flush_good: "builder_good r \<Longrightarrow> builder_good (tb_Flush ops r)"
  using WriteBlock_good [of r "tb_data_block r"]
  by (auto simp: tb_Flush_def Let_def builder_good_def split: prod.splits dest: flush_good)

lemma tb_Add_good: "builder_good r \<Longrightarrow> builder_good (tb_Add ops r k v)"
  by (auto simp: tb_Add_def add_index_entry_def Let_def intro!: tb_Flush_good) (auto simp: builder_good_def)

lemma write_parts_good:
  assumes "builder_good r"
  shows "builder_good (snd (write_filter ops r))" "builder_good (snd (write_metaindex ops r h))"
    "builder_good (snd (write_index ops r))" "builder_good (write_footer ops r h h')"
proof -
  have g: "ok (tb_status r)" "good (tb_file r)" using assms by (simp_all add: builder_good_def)
  show "builder_good (snd (write_filter ops r))"
    using assms g by (auto simp: write_filter_def split: option.splits prod.splits intro!: WriteRawBlock_good [where r = "r\<lparr>tb_filter_block := x\<rparr>" for x, simplified])
  show "builder_good (snd (write_metaindex ops r h))"
    using g WriteBlock_good [of r] by (simp add: write_metaindex_def Let_def case_prod_unfold)
  let ?r = "if tb_pending_index_entry r
      then add_index_entry r (cmp_FindShortSuccessor (opt_comparator (tb_options r)) (tb_last_key r)) else r"
  have "good (tb_file ?r)" using g by (simp add: add_index_entry_def)
  from WriteBlock_good [OF this, of "tb_index_block ?r"] g(1)
  show "builder_good (snd (write_index ops r))" by (auto simp: write_index_def Let_def builder_good_def split: prod.splits)
  show "builder_good (write_footer ops r h h')"
    using g by (auto simp: write_footer_def Let_def builder_good_def split: prod.splits dest: append_good)
qed

lemma write_table_good:
  assumes "good f"
  shows "ok (fst (write_table ops opts f kvs))"
proof -
  let ?r = "foldl (\<lambda>r (k, v). tb_Add ops r k v) (TableBuilder_new opts f) kvs"
  have "builder_good ?r"
  proof (induction kvs rule: rev_induct)
    case Nil
    then show ?case using assms by (simp add: TableBuilder_new_def builder_good_def Let_def)
  next
    case (snoc kv kvs)
    then show ?case by (simp add: case_prod_unfold tb_Add_good)
  qed
  from tb_Flush_good [OF this] have 0: "builder_good ((tb_Flush ops ?r)\<lparr>tb_closed := True\<rparr>)" by (simp add: builder_good_def)
  obtain fh r1 where 1: "write_filter ops ((tb_Flush ops ?r)\<lparr>tb_closed := True\<rparr>) = (fh, r1)" by fastforce
  obtain mh r2 where 2: "write_metaindex ops r1 fh = (mh, r2)" by fastforce
  obtain ih r3 where 3: "write_index ops r2 = (ih, r3)" by fastforce
  have g1: "builder_good r1" using write_parts_good(1) [OF 0] 1 by simp
  have g2: "builder_good r2" using write_parts_good(2) [OF g1, of fh] 2 by simp
  have g3: "builder_good r3" using write_parts_good(3) [OF g2] 3 by simp
  show ?thesis using write_parts_good(4) [OF g3, of mh ih] 1 2 3 by (simp add: write_table_def tb_Finish_def builder_good_def Let_def)
qed

end

interpretation posix_reliable: reliable_file "PosixWritableFile se" "\<lambda>f. fd_reliable (pw_fd f)" for se
  by unfold_locales (rule writable_reliable; assumption)+

section \<open>Properties\<close>

text \<open>What a builder that failed once does with further entries.\<close>

lemma sticky_Adds: "\<not> ok (tb_status r) \<Longrightarrow> foldl (\<lambda>r (k, v). tb_Add ops r k v) r kvs = r"
  by (induction kvs) (simp_all add: case_prod_unfold)

text \<open>C17. A table written to a POSIX file: whatever the kernel answers, if \<^verbatim>\<open>Finish\<close> returns a good status then the
  entries were divided into nonempty blocks, in order, the file's contents are the image of a table with these blocks
  (data blocks, filter block, metaindex, index and footer, each with its checksum) and \<^verbatim>\<open>FileSize\<close> is its length; and
  the status of \<^verbatim>\<open>Finish\<close> is bad if some \<^verbatim>\<open>Add\<close> left a bad one. It is good when the kernel only interrupts
  calls or writes less than it was asked to.\<close>

theorem table_file_written:
  assumes "write_table (PosixWritableFile se) opts (PosixWritable_new fname fd) kvs = (s, r)" and "fd_data fd = []"
  shows "(fd_reliable fd \<longrightarrow> ok s) \<and> (ok s \<longrightarrow> (\<exists>bs. concat bs = kvs \<and> (\<forall>b\<in>set bs. b \<noteq> []) \<and> pw_contents (tb_file r) = table_image opts bs \<and>
      tb_FileSize r = of_nat (length (table_image opts bs)))) \<and>
    (\<forall>n. \<not> ok (tb_status (foldl (\<lambda>r (k, v). tb_Add (PosixWritableFile se) r k v)
        (TableBuilder_new opts (PosixWritable_new fname fd)) (take n kvs))) \<longrightarrow> \<not> ok s)"
proof (intro conjI allI impI)
  assume "fd_reliable fd"
  then show "ok s" using posix_reliable.write_table_good [of "PosixWritable_new fname fd" se opts kvs] assms(1)
    by (simp add: PosixWritable_new_def)
next
  assume "ok s"
  with posix_writable.write_table_ok [OF assms(1)] assms(2)
  show "\<exists>bs. concat bs = kvs \<and> (\<forall>b\<in>set bs. b \<noteq> []) \<and> pw_contents (tb_file r) = table_image opts bs \<and>
      tb_FileSize r = of_nat (length (table_image opts bs))"
    by (simp add: PosixWritable_new_def pw_contents_def)
next
  fix n
  let ?r = "\<lambda>kvs. foldl (\<lambda>r (k, v). tb_Add (PosixWritableFile se) r k v) (TableBuilder_new opts (PosixWritable_new fname fd)) kvs"
  assume bad: "\<not> ok (tb_status (?r (take n kvs)))"
  have "?r kvs = foldl (\<lambda>r (k, v). tb_Add (PosixWritableFile se) r k v) (?r (take n kvs)) (drop n kvs)"
    by (simp add: foldl_append [symmetric])
  also have "\<dots> = ?r (take n kvs)" by (rule sticky_Adds [OF bad])
  finally show "\<not> ok s" using assms(1) bad sticky_Finish [OF bad, of "PosixWritableFile se"] by (simp add: write_table_def)
qed

theorem table_file_written_witness:
  "\<exists>bs. concat bs = [([97], [98]), ([100], [])] \<and> (\<forall>b\<in>set bs. b \<noteq> []) \<and>
    pw_contents (tb_file (snd (write_table (PosixWritableFile (\<lambda>_. [])) (Options_new\<lparr>opt_block_size := 1\<rparr>)
      (PosixWritable_new [] \<lparr>fd_data = [], fd_pos = 0, fd_answers = [Transfer 1, Errno EINTR], fd_synced = 0\<rparr>) [([97], [98]), ([100], [])]))) =
    table_image (Options_new\<lparr>opt_block_size := 1\<rparr>) bs"
proof -
  let ?fd = "\<lparr>fd_data = [], fd_pos = 0, fd_answers = [Transfer 1, Errno EINTR], fd_synced = 0\<rparr>" and ?o = "Options_new\<lparr>opt_block_size := 1\<rparr>"
  let ?w = "write_table (PosixWritableFile (\<lambda>_. [])) ?o (PosixWritable_new [] ?fd) [([97], [98]), ([100], [])]"
  have "fd_reliable ?fd" by (simp add: fd_reliable_def)
  then show ?thesis using table_file_written [OF prod.collapse [symmetric], of ?fd "\<lambda>_. []" ?o "[]" "[([97], [98]), ([100], [])]"] by auto
qed

end
