(* ===== verification/Table_Reader.thy ===== *)
theory Table_Reader
  imports Table Table_Builder
begin

text \<open>
  What reading a table that the builder wrote gives: the iterator of the table is a \<open>sorted_iterator\<close> in
  any sound world, whether blocks come from the file or the cache, and a lookup finds the first entry
  at or after its key within the block that can hold it. Every handle of the cache is given back.
\<close>

section \<open>Iterators over blocks\<close>

text \<open>What an iterator must give back.\<close>

definition oi_hold :: "'h OwnedIterator \<Rightarrow> 'h multiset" where
  "oi_hold it = mset (concat (map (\<lambda>c. case c of DeleteBlock \<Rightarrow> [] | ReleaseBlock h \<Rightarrow> [h]) (oi_cleanup it)))"

lemma oi_hold_iter [simp]: "oi_hold (it\<lparr>oi_iter := i\<rparr>) = oi_hold it"
  by (simp add: oi_hold_def)

context comparator begin

definition block_sits :: "BlockIterator \<Rightarrow> (bytes \<times> bytes) list \<Rightarrow> nat \<Rightarrow> bool" where
  "block_sits it kvs i = (case it of Empty s \<Rightarrow> False | Positioned it \<Rightarrow> bi_sits it kvs i)"

lemma block_ops_sorted_iterator: "sorted_iterator valid Compare (block_ops Compare) block_sits"
proof (unfold_locales, goal_cases)
  case (1 it kvs i)
  then show ?case using sorted_iterator.sits_sorted [OF block_sorted_iterator] by (auto simp: block_sits_def split: BlockIterator.splits)
  next
  case (2 it kvs i)
  then show ?case using sorted_iterator.sits_valid [OF block_sorted_iterator] by (auto simp: block_sits_def block_ops_def Let_def split: BlockIterator.splits)
  next
  case (3 it kvs i)
  then show ?case using sorted_iterator.sits_entry [OF block_sorted_iterator] by (auto simp: block_sits_def block_ops_def Let_def split: BlockIterator.splits)
  next
  case (4 it kvs i)
  then show ?case using sorted_iterator.first [OF block_sorted_iterator] by (fastforce simp: block_sits_def block_ops_def Let_def split: BlockIterator.splits)
  next
  case (5 it kvs i)
  then show ?case using sorted_iterator.last [OF block_sorted_iterator] by (fastforce simp: block_sits_def block_ops_def Let_def split: BlockIterator.splits)
  next
  case (6 it kvs i t)
  then show ?case using sorted_iterator.seek [OF block_sorted_iterator] by (fastforce simp: block_sits_def block_ops_def Let_def split: BlockIterator.splits)
  next
  case (7 it kvs i)
  then show ?case using sorted_iterator.next [OF block_sorted_iterator] by (fastforce simp: block_sits_def block_ops_def Let_def split: BlockIterator.splits)
  next
  case (8 it kvs i)
  then show ?case using sorted_iterator.prev [OF block_sorted_iterator] by (fastforce simp: block_sits_def block_ops_def Let_def split: BlockIterator.splits)
qed

definition owned_sits :: "'h OwnedIterator \<Rightarrow> (bytes \<times> bytes) list \<Rightarrow> nat \<Rightarrow> bool" where
  "owned_sits it kvs i = block_sits (oi_iter it) kvs i"

lemma owned_world_iterator: "world_iterator valid Compare (owned_ops Compare) owned_sits wok oi_hold"
proof (unfold_locales, goal_cases)
  case (1 H p kvs i)
  then show ?case using sorted_iterator.sits_sorted [OF block_ops_sorted_iterator] by (auto simp: owned_sits_def)
  next
  case (2 H p kvs i)
  then show ?case using sorted_iterator.sits_valid [OF block_ops_sorted_iterator] by (auto simp: owned_sits_def owned_ops_def Let_def split: prod.splits)
  next
  case (3 H p kvs i)
  then show ?case using sorted_iterator.sits_entry [OF block_ops_sorted_iterator] by (auto simp: owned_sits_def owned_ops_def Let_def split: prod.splits)
  next
  case (4 H p kvs i)
  then show ?case using sorted_iterator.first [OF block_ops_sorted_iterator] by (fastforce simp: owned_sits_def owned_ops_def Let_def split: prod.splits)
  next
  case (5 H p kvs i)
  then show ?case using sorted_iterator.last [OF block_ops_sorted_iterator] by (fastforce simp: owned_sits_def owned_ops_def Let_def split: prod.splits)
  next
  case (6 H p kvs i t)
  then show ?case using sorted_iterator.seek [OF block_ops_sorted_iterator] by (fastforce simp: owned_sits_def owned_ops_def Let_def split: prod.splits)
  next
  case (7 H p kvs i)
  then show ?case using sorted_iterator.next [OF block_ops_sorted_iterator] by (fastforce simp: owned_sits_def owned_ops_def Let_def split: prod.splits)
  next
  case (8 H p kvs i)
  then show ?case using sorted_iterator.prev [OF block_ops_sorted_iterator] by (fastforce simp: owned_sits_def owned_ops_def Let_def split: prod.splits)
qed

end

section \<open>Sound worlds\<close>

text \<open>\<open>S\<close> gives the contents of the files that must stay readable, \<open>T\<close> for each cache id in use the blocks of
  its table by offset.\<close>

definition known :: "(u64 \<rightharpoonup> (u64 \<rightharpoonup> bytes)) \<Rightarrow> bytes \<Rightarrow> Block \<Rightarrow> bool" where
  "known T key blk \<longleftrightarrow> (\<exists>i m off d. T i = Some m \<and> m off = Some d \<and> key = cache_key i off \<and> blk = Block_new d)"

lemma cache_key_inj [simp]: "cache_key i off = cache_key i' off' \<longleftrightarrow> i = i' \<and> off = off'"
proof
  assume e: "cache_key i off = cache_key i' off'"
  have "DecodeFixed64 (take 8 (cache_key i off)) = i" "DecodeFixed64 (drop 8 (cache_key i off)) = off" for i off
    by (simp_all add: cache_key_def)
  with e show "i = i' \<and> off = off'" by metis
qed simp

lemma known_cache_key: "known T (cache_key i off) blk \<longleftrightarrow> (\<exists>m d. T i = Some m \<and> m off = Some d \<and> blk = Block_new d)"
  by (auto simp: known_def)

locale table_world = files: random_file rops contents steady + cache: shared_cache cops cok
  for rops :: "'r RandomAccessFile" and contents :: "'r \<Rightarrow> bytes" and steady :: "'r \<Rightarrow> bool"
    and cops :: "('c, 'h, Block) Cache" and cok :: "(bytes \<Rightarrow> Block \<Rightarrow> bool) \<Rightarrow> 'c \<Rightarrow> 'h multiset \<Rightarrow> bool"
begin

definition world_ok :: "(nat \<rightharpoonup> bytes) \<Rightarrow> (u64 \<rightharpoonup> (u64 \<rightharpoonup> bytes)) \<Rightarrow> ('r, 'c) World \<Rightarrow> 'h multiset \<Rightarrow> bool" where
  "world_ok S T w H \<longleftrightarrow> (\<forall>f img. S f = Some img \<longrightarrow> steady (w_file w f) \<and> contents (w_file w f) = img) \<and>
     (case w_block_cache w of None \<Rightarrow> H = {#} | Some c \<Rightarrow> cok (known T) c H)"

lemma world_ok_file:
  "world_ok S T w H \<Longrightarrow> S f = Some img \<Longrightarrow> steady fl \<Longrightarrow> contents fl = img \<Longrightarrow>
    world_ok S T (w\<lparr>w_file := (w_file w)(f := fl)\<rparr>) H"
  by (auto simp: world_ok_def)

lemma w_ReadBlock_ok:
  assumes w: "world_ok S T w H" and f: "S f = Some img" "length img < 2 ^ 64"
    and b: "img = pre @ stored_block kNoCompression d @ post" "bh_offset h = of_nat (length pre)" "bh_size h = of_nat (length d)"
  shows "\<exists>b w'. w_ReadBlock rops w f verify h = (Status_OK, \<lparr>bc_data = d, bc_cachable = b, bc_heap_allocated = b\<rparr>, w') \<and>
    world_ok S T w' H \<and> w_block_cache w' = w_block_cache w"
proof -
  have c: "steady (w_file w f)" "contents (w_file w f) = img" using w f(1) by (simp_all add: world_ok_def)
  have l: "length pre < 2 ^ 64" "length d < 2 ^ 64" using b(1) f(2) by (simp_all add: length_stored_block)
  have "unat (bh_offset h) = length pre" "unat (bh_size h) = length d" using b(2,3) l by (simp_all add: unat_of_nat_lt)
  from files.ReadBlock_stored [OF c(1) _ _ this, of post verify] obtain x fl where
    r: "ReadBlock rops (w_file w f) verify h = (Status_OK, \<lparr>bc_data = d, bc_cachable = x, bc_heap_allocated = x\<rparr>, fl)"
    "steady fl" "contents fl = img" using c(2) b(1) f(2) by auto
  show ?thesis using r world_ok_file [OF w f(1) r(2,3)] by (simp add: w_ReadBlock_def)
qed

lemma w_Read_ok:
  assumes w: "world_ok S T w H" and f: "S f = Some img" "length img < 2 ^ 64" and b: "unat off + unat n \<le> length img"
  shows "\<exists>s w'. w_Read rops w f off n = (s, take (unat n) (drop (unat off) img), w') \<and> ok s \<and>
    world_ok S T w' H \<and> w_block_cache w' = w_block_cache w"
proof -
  have c: "steady (w_file w f)" "contents (w_file w f) = img" using w f(1) by (simp_all add: world_ok_def)
  from files.read_steady [OF c(1), of off n] b f(2) c(2) obtain s x fl where
    r: "rRead rops (w_file w f) off n = (s, take (unat n) (drop (unat off) img), x, fl)" "ok s" "steady fl" "contents fl = img" by auto
  show ?thesis using r world_ok_file [OF w f(1) r(3,4)] by (simp add: w_Read_def)
qed

text \<open>Opening a block of a table, and giving it back.\<close>

lemma BlockReader_ok:
  assumes w: "world_ok S T w H" and t: "T (tab_cache_id t) = Some m" "m (bh_offset h) = Some d"
    and f: "S (tab_file t) = Some img" "length img < 2 ^ 64" "img = pre @ stored_block kNoCompression d @ post"
    and h: "bh_offset h = of_nat (length pre)" "bh_size h = of_nat (length d)"
    and dec: "BlockHandle_DecodeFrom BlockHandle_new value = (Status_OK, h, rest)"
  shows "\<exists>it w'. BlockReader rops cops t options w value = Some (it, w') \<and> oi_iter it = Block_NewIterator (Block_new d) \<and>
    world_ok S T w' (H + oi_hold it)"
proof -
  let ?v = "ro_verify_checksums options" and ?key = "cache_key (tab_cache_id t) (bh_offset h)"
  have found: "\<exists>c_h w'. find_block rops cops w t options h = Some (Status_OK, Some (Block_new d), c_h, w') \<and>
      world_ok S T w' (H + (case c_h of None \<Rightarrow> {#} | Some x \<Rightarrow> {#x#}))"
  proof (cases "w_block_cache w")
    case None
    from w_ReadBlock_ok [OF w f h, of ?v] obtain x w' where
      "w_ReadBlock rops w (tab_file t) ?v h = (Status_OK, \<lparr>bc_data = d, bc_cachable = x, bc_heap_allocated = x\<rparr>, w')" "world_ok S T w' H" by blast
    then show ?thesis using None by (simp add: find_block_def block_of_def ok_Status_OK)
  next
    case (Some c)
    have c: "cok (known T) c H" using w Some by (simp add: world_ok_def)
    obtain r c1 where l: "caLookup cops c ?key = (r, c1)" by fastforce
    note lo = cache.lookup_ok [OF c l]
    show ?thesis
    proof (cases r)
      case hit: (Some x)
      then have "cok (known T) c1 (add_mset x H)" "known T ?key (caValue cops c1 x)" using lo by simp_all
      moreover from this(2) have "caValue cops c1 x = Block_new d" using t by (auto simp: known_cache_key)
      ultimately show ?thesis using w Some l hit by (simp add: find_block_def world_ok_def)
    next
      case miss: None
      then have c1: "cok (known T) c1 H" using lo by simp
      let ?w = "w\<lparr>w_block_cache := Some c1\<rparr>"
      have "world_ok S T ?w H" using w c1 by (simp add: world_ok_def)
      from w_ReadBlock_ok [OF this f h, of ?v] obtain x w' where
        r: "w_ReadBlock rops ?w (tab_file t) ?v h = (Status_OK, \<lparr>bc_data = d, bc_cachable = x, bc_heap_allocated = x\<rparr>, w')"
        "world_ok S T w' H" "w_block_cache w' = Some c1" by auto
      have "known T ?key (Block_new d)" using t by (simp add: known_cache_key)
      from cache.insert_ok [OF c1 this, of "of_nat (bl_size (Block_new d))"] obtain y c2 where
        i: "caInsert cops c1 ?key (Block_new d) (of_nat (bl_size (Block_new d))) = Some (y, c2)" "cok (known T) c2 (add_mset y H)" by blast
      have "world_ok S T (w'\<lparr>w_block_cache := Some c2\<rparr>) (add_mset y H)" using r(2) i(2) by (simp add: world_ok_def)
      then show ?thesis using Some l miss r i by (simp add: find_block_def block_of_def ok_Status_OK)
    qed
  qed
  then obtain c_h w' where
    "find_block rops cops w t options h = Some (Status_OK, Some (Block_new d), c_h, w')"
    "world_ok S T w' (H + (case c_h of None \<Rightarrow> {#} | Some x \<Rightarrow> {#x#}))" by blast
  then show ?thesis
    by (cases c_h) (auto simp: BlockReader_def dec ok_Status_OK RegisterCleanup_def oi_hold_def)
qed

lemma run_cleanup_ok:
  "world_ok S T w (H + mset (case c of DeleteBlock \<Rightarrow> [] | ReleaseBlock h \<Rightarrow> [h])) \<Longrightarrow> world_ok S T (run_cleanup cops w c) H"
  by (cases c) (auto simp: run_cleanup_def world_ok_def split: option.splits intro: cache.release_ok)

lemma delete_owned_ok: "world_ok S T w (H + oi_hold it) \<Longrightarrow> world_ok S T (delete_owned cops it w) H"
proof -
  have "world_ok S T w (H + mset (concat (map (\<lambda>c. case c of DeleteBlock \<Rightarrow> [] | ReleaseBlock h \<Rightarrow> [h]) cs))) \<Longrightarrow>
    world_ok S T (foldl (run_cleanup cops) w cs) H" for cs
  proof (induction cs arbitrary: w)
    case (Cons c cs)
    let ?H = "H + mset (concat (map (\<lambda>c. case c of DeleteBlock \<Rightarrow> [] | ReleaseBlock h \<Rightarrow> [h]) cs))"
    have "world_ok S T w (?H + mset (case c of DeleteBlock \<Rightarrow> [] | ReleaseBlock h \<Rightarrow> [h]))" using Cons.prems by (simp add: ac_simps)
    from Cons.IH [OF run_cleanup_ok [OF this]] show ?case by simp
  qed simp
  then show "world_ok S T w (H + oi_hold it) \<Longrightarrow> world_ok S T (delete_owned cops it w) H"
    by (simp add: delete_owned_def Iterator_destroy_def oi_hold_def)
qed

end

section \<open>The parts of an image\<close>

text \<open>Where a block starts, and the handle that the index gives for it.\<close>

definition block_pos :: "int \<Rightarrow> kvs list \<Rightarrow> nat \<Rightarrow> nat" where
  "block_pos n bs i = length (data_area n (take i bs))"

definition block_handle :: "int \<Rightarrow> kvs list \<Rightarrow> nat \<Rightarrow> BlockHandle" where
  "block_handle n bs i = area_handle n (take i bs) (bs ! i)"

lemma block_handle_simps [simp]:
  "bh_offset (block_handle n bs i) = of_nat (block_pos n bs i)"
  "bh_size (block_handle n bs i) = of_nat (length (build_block n (bs ! i)))"
  by (simp_all add: block_handle_def block_pos_def area_handle_def)

lemma data_area_at:
  "i < length bs \<Longrightarrow> data_area n bs = data_area n (take i bs) @ stored_block kNoCompression (build_block n (bs ! i)) @ data_area n (drop (Suc i) bs)"
  unfolding data_area_def by (subst id_take_nth_drop [of i bs]) simp_all

lemma block_pos_less: "i < j \<Longrightarrow> j \<le> length bs \<Longrightarrow> block_pos n bs i < block_pos n bs j"
proof (induction j)
  case (Suc j)
  then have "block_pos n bs (Suc j) = block_pos n bs j + length (build_block n (bs ! j)) + kBlockTrailerSize"
    by (simp add: block_pos_def take_Suc_conv_app_nth data_area_snoc length_stored_block)
  moreover have "block_pos n bs i \<le> block_pos n bs j" using Suc by (cases "i = j") auto
  ultimately show ?case by (simp add: kBlockTrailerSize_def)
qed simp

lemma block_pos_le: "i \<le> length bs \<Longrightarrow> block_pos n bs i \<le> length (data_area n bs)"
  using block_pos_less [of i "length bs" bs n] by (cases "i = length bs") (auto simp: block_pos_def)

text \<open>The blocks of an image by offset.\<close>

definition image_blocks :: "int \<Rightarrow> kvs list \<Rightarrow> u64 \<rightharpoonup> bytes" where
  "image_blocks n bs = map_of (map (\<lambda>i. (of_nat (block_pos n bs i), build_block n (bs ! i))) [0..<length bs])"

lemma u64_pos: "length (data_area n bs) < 2 ^ 64 \<Longrightarrow> i \<le> length bs \<Longrightarrow> unat (of_nat (block_pos n bs i) :: u64) = block_pos n bs i"
  using block_pos_le [of i bs n] by (simp add: unat_of_nat_lt)

lemma u64_pos_inj:
  assumes "length (data_area n bs) < 2 ^ 64"
  shows "inj_on (\<lambda>i. of_nat (block_pos n bs i) :: u64) {0..<length bs}"
proof (rule inj_onI)
  fix i j assume "i \<in> {0..<length bs}" "j \<in> {0..<length bs}" and e: "(of_nat (block_pos n bs i) :: u64) = of_nat (block_pos n bs j)"
  then have l: "i < length bs" "j < length bs" by auto
  have "block_pos n bs i = block_pos n bs j" using arg_cong [OF e, of unat] l by (simp add: u64_pos [OF assms])
  then show "i = j" using block_pos_less [of i j bs n] block_pos_less [of j i bs n] l by (cases i j rule: linorder_cases) auto
qed

lemma image_blocks_at:
  assumes "length (data_area n bs) < 2 ^ 64" "i < length bs"
  shows "image_blocks n bs (of_nat (block_pos n bs i)) = Some (build_block n (bs ! i))"
  unfolding image_blocks_def using assms u64_pos_inj [OF assms(1)]
  by (subst map_of_eq_Some_iff) (auto simp: comp_def distinct_map)

text \<open>The entries behind an index value.\<close>

definition handle_block :: "int \<Rightarrow> kvs list \<Rightarrow> bytes \<Rightarrow> kvs" where
  "handle_block n bs h =
     (case map_of (map (\<lambda>i. (BlockHandle_EncodeTo (block_handle n bs i) [], bs ! i)) [0..<length bs]) h of
        Some b \<Rightarrow> b | None \<Rightarrow> [])"

definition table_handle :: "int \<Rightarrow> kvs list \<Rightarrow> bytes \<Rightarrow> bool" where
  "table_handle n bs h \<longleftrightarrow> (\<exists>i<length bs. h = BlockHandle_EncodeTo (block_handle n bs i) [])"

lemma Handle_inj: "BlockHandle_EncodeTo h [] = BlockHandle_EncodeTo h' [] \<Longrightarrow> h = h'"
  using BlockHandle_roundtrip [of BlockHandle_new h "[]"] BlockHandle_roundtrip [of BlockHandle_new h' "[]"] by simp

lemma handle_block_at:
  assumes "length (data_area n bs) < 2 ^ 64" "i < length bs"
  shows "handle_block n bs (BlockHandle_EncodeTo (block_handle n bs i) []) = bs ! i"
proof -
  have "inj_on (\<lambda>i. BlockHandle_EncodeTo (block_handle n bs i) []) {0..<length bs}"
  proof (rule inj_onI)
    fix i j assume a: "i \<in> {0..<length bs}" "j \<in> {0..<length bs}"
      "BlockHandle_EncodeTo (block_handle n bs i) [] = BlockHandle_EncodeTo (block_handle n bs j) []"
    then have "bh_offset (block_handle n bs i) = bh_offset (block_handle n bs j)" using Handle_inj by metis
    then show "i = j" using inj_onD [OF u64_pos_inj [OF assms(1)]] a by simp
  qed
  then have "map_of (map (\<lambda>i. (BlockHandle_EncodeTo (block_handle n bs i) [], bs ! i)) [0..<length bs])
      (BlockHandle_EncodeTo (block_handle n bs i) []) = Some (bs ! i)"
    using assms(2) by (subst map_of_eq_Some_iff) (auto simp: comp_def distinct_map)
  then show ?thesis by (simp add: handle_block_def)
qed

lemma index_entries_nth:
  "i < length bs \<Longrightarrow> index_entries c n bs ! i = (index_key c bs i, BlockHandle_EncodeTo (block_handle n bs i) [])"
  by (simp add: index_entries_def index_entry_def block_handle_def)

lemma length_index_entries [simp]: "length (index_entries c n bs) = length bs"
  by (simp add: index_entries_def)

lemma in_concat_take: "a \<in> set (bs ! i) \<Longrightarrow> i < j \<Longrightarrow> j \<le> length bs \<Longrightarrow> a \<in> set (concat (take j bs))"
  using nth_mem [of i "take j bs"] by (auto intro!: bexI [of _ "bs ! i"])

lemma concat_at: "j < length bs \<Longrightarrow> concat bs = concat (take j bs) @ bs ! j @ concat (drop (Suc j) bs)"
  by (subst id_take_nth_drop [of j bs]) simp_all

context comparator begin

text \<open>The tables that the database writes and can read back: not empty of blocks' entries, sorted, and below 4 GB.\<close>

definition good_table :: "Options \<Rightarrow> kvs list \<Rightarrow> bool" where
  "good_table opts bs \<longleftrightarrow>
     cmp_Compare (opt_comparator opts) = Compare \<and> cmp_FindShortestSeparator (opt_comparator opts) = FindShortestSeparator \<and>
     cmp_FindShortSuccessor (opt_comparator opts) = FindShortSuccessor \<and> 0 < opt_block_restart_interval opts \<and>
     sorted_keys valid Compare (concat bs) \<and> (\<forall>b\<in>set bs. b \<noteq> []) \<and> length (table_image opts bs) < 2 ^ 32"

lemma good_block:
  assumes "good_table opts bs" "i < length bs"
  shows "sorted_keys valid Compare (bs ! i)" "bs ! i \<noteq> []"
  using assms concat_at [of i bs] nth_mem [OF assms(2)]
  by (auto simp: good_table_def sorted_keys_def sorted_wrt_append simp del: nth_mem)

lemma good_order:
  assumes "good_table opts bs" "i < j" "j < length bs" "a \<in> set (bs ! i)" "b \<in> set (bs ! j)"
  shows "Compare (fst a) (fst b) < 0"
  using assms concat_at [of j bs] in_concat_take [of a bs i j]
  by (auto simp: good_table_def sorted_keys_def sorted_wrt_append)

lemma good_last: 
  assumes "good_table opts bs" "i < length bs" "a \<in> set (bs ! i)"
  shows "Compare (fst a) (fst (last (bs ! i))) \<le> 0" "valid (fst a)"
proof -
  note s = good_block [OF assms(1,2)]
  show v: "valid (fst a)" using s(1) assms(3) by (simp add: sorted_keys_def)
  obtain k where k: "k < length (bs ! i)" "bs ! i ! k = a" using assms(3) by (auto simp: in_set_conv_nth)
  show "Compare (fst a) (fst (last (bs ! i))) \<le> 0"
  proof (cases "Suc k = length (bs ! i)")
    case True
    then have "last (bs ! i) = a" using k s(2) by (metis diff_Suc_1 last_conv_nth)
    then show ?thesis using refl [OF v] by simp
  next
    case False
    then have "Compare (fst (bs ! i ! k)) (fst (bs ! i ! (length (bs ! i) - 1))) < 0"
      using s(1) k sorted_wrt_nth_less [of "\<lambda>a b. Compare (fst a) (fst b) < 0" "bs ! i" k "length (bs ! i) - 1"] False by (simp add: sorted_keys_def less_diff_conv)
    then show ?thesis using k s(2) by (simp add: last_conv_nth)
  qed
qed

text \<open>The keys of the index separate the blocks.\<close>

lemma index_key_separates:
  assumes g: "good_table opts bs" and i: "i < length bs"
  shows "valid (index_key (opt_comparator opts) bs i)"
    and "a \<in> set (bs ! i) \<Longrightarrow> Compare (fst a) (index_key (opt_comparator opts) bs i) \<le> 0"
    and "i < j \<Longrightarrow> j < length bs \<Longrightarrow> b \<in> set (bs ! j) \<Longrightarrow> Compare (index_key (opt_comparator opts) bs i) (fst b) < 0"
proof -
  let ?k = "index_key (opt_comparator opts) bs i" and ?l = "fst (last (bs ! i))"
  have c: "cmp_FindShortestSeparator (opt_comparator opts) = FindShortestSeparator"
    "cmp_FindShortSuccessor (opt_comparator opts) = FindShortSuccessor" using g by (simp_all add: good_table_def)
  have l: "last (bs ! i) \<in> set (bs ! i)" "valid ?l" using good_block(2) [OF g i] good_last(2) [OF g i] by simp_all
  have k: "valid ?k \<and> Compare ?l ?k \<le> 0"
  proof (cases "Suc i < length bs")
    case True
    have h: "hd (bs ! Suc i) \<in> set (bs ! Suc i)" using good_block(2) [OF g True] by simp
    have "Compare ?l (fst (hd (bs ! Suc i))) < 0" by (rule good_order [OF g _ True l(1) h]) simp
    from sep [OF l(2) good_last(2) [OF g True h] this] True c show ?thesis by (simp add: index_key_def)
  next
    case False
    with succ [OF l(2)] c show ?thesis by (simp add: index_key_def)
  qed
  then show "valid ?k" by simp
  show "Compare (fst a) ?k \<le> 0" if "a \<in> set (bs ! i)"
    using good_last [OF g i that] k trans [of "fst a" ?l ?k] l(2) by blast
  show "Compare ?k (fst b) < 0" if "i < j" "j < length bs" "b \<in> set (bs ! j)"
  proof -
    have n: "Suc i < length bs" using that by simp
    have h: "hd (bs ! Suc i) \<in> set (bs ! Suc i)" using good_block(2) [OF g n] by simp
    note vh = good_last(2) [OF g n h] and vb = good_last(2) [OF g that(2,3)]
    have "Compare ?l (fst (hd (bs ! Suc i))) < 0" by (rule good_order [OF g _ n l(1) h]) simp
    from sep [OF l(2) vh this] n c have 1: "Compare ?k (fst (hd (bs ! Suc i))) < 0" by (simp add: index_key_def)
    have "Compare (fst (hd (bs ! Suc i))) (fst b) \<le> 0"
    proof (cases "j = Suc i")
      case True
      obtain x xs where x: "bs ! Suc i = x # xs" using good_block(2) [OF g n] by (cases "bs ! Suc i") auto
      then show ?thesis using good_block(1) [OF g n] that(3) True refl [OF vh] by (auto simp: sorted_keys_def)
    next
      case False
      then have "Suc i < j" using that(1) by simp
      from good_order [OF g this that(2) h that(3)] show ?thesis by simp
    qed
    with less_trans [OF _ vh vb 1] k show ?thesis by blast
  qed
qed

lemma index_sorted: "good_table opts bs \<Longrightarrow> sorted_keys valid Compare (index_entries (opt_comparator opts) n bs)"
proof -
  assume g: "good_table opts bs"
  have "Compare (index_key (opt_comparator opts) bs i) (index_key (opt_comparator opts) bs j) < 0" if "i < j" "j < length bs" for i j
  proof -
    have l: "last (bs ! j) \<in> set (bs ! j)" using good_block(2) [OF g that(2)] by simp
    have i: "i < length bs" using that by simp
    show ?thesis
      using index_key_separates(1,3) [OF g i] index_key_separates(1,2) [OF g that(2)] good_last(2) [OF g that(2) l] that l less_trans by blast
  qed
  then show ?thesis using index_key_separates(1) [OF g]
    by (auto simp: sorted_keys_def sorted_wrt_iff_nth_less index_entries_nth in_set_conv_nth [of _ "index_entries (opt_comparator opts) n bs"])
qed

end

text \<open>Where the parts of an image lie.\<close>

lemma image_data: "i < length bs \<Longrightarrow> \<exists>post. table_image opts bs = data_area (opt_block_restart_interval opts) (take i bs) @
    stored_block kNoCompression (build_block (opt_block_restart_interval opts) (bs ! i)) @ post"
  using data_area_at [of i bs "opt_block_restart_interval opts"]
  by (auto simp: table_image_def with_index_def with_meta_def with_filter_def Let_def split: option.split)

lemma image_filter: "opt_filter_policy opts = Some p \<Longrightarrow> \<exists>post. table_image opts bs = data_area (opt_block_restart_interval opts) bs @
    stored_block kNoCompression (filter_contents p (opt_block_restart_interval opts) bs) @ post"
  by (simp add: table_image_def with_index_def with_meta_def with_filter_def Let_def)

lemma image_meta: "\<exists>post. table_image opts bs = with_filter opts bs @ stored_block kNoCompression (meta_block opts bs) @ post"
  by (simp add: table_image_def with_index_def with_meta_def)

lemma image_index: "\<exists>post. table_image opts bs = with_meta opts bs @ stored_block kNoCompression (index_block opts bs) @ post"
  by (simp add: table_image_def with_index_def)

lemma Footer_length [simp]: "length (Footer_EncodeTo f []) = 48"
  by (rule Footer_layout [of f]) simp

lemma part_length: "img = pre @ stored_block t d @ post \<Longrightarrow> length pre \<le> length img \<and> length d \<le> length img"
  by (simp add: length_stored_block)

lemma data_area_small: "length (table_image opts bs) < 2 ^ 32 \<Longrightarrow> length (data_area (opt_block_restart_interval opts) bs) < 2 ^ 32"
  by (auto simp: table_image_def with_index_def with_meta_def with_filter_def Let_def split: option.splits)

section \<open>Tables in a world\<close>

locale table_reader = table_world rops contents steady cops cok + comparator valid Compare FindShortestSeparator FindShortSuccessor
  for rops :: "'r RandomAccessFile" and contents :: "'r \<Rightarrow> bytes" and steady :: "'r \<Rightarrow> bool"
    and cops :: "('c, 'h, Block) Cache" and cok :: "(bytes \<Rightarrow> Block \<Rightarrow> bool) \<Rightarrow> 'c \<Rightarrow> 'h multiset \<Rightarrow> bool"
    and valid :: "bytes \<Rightarrow> bool" and Compare :: "bytes \<Rightarrow> bytes \<Rightarrow> int"
    and FindShortestSeparator :: "bytes \<Rightarrow> bytes \<Rightarrow> bytes" and FindShortSuccessor :: "bytes \<Rightarrow> bytes"
begin

text \<open>The table read from the image of \<open>bs\<close>.\<close>

definition reads_image :: "Options \<Rightarrow> kvs list \<Rightarrow> Table \<Rightarrow> bool" where
  "reads_image opts bs t \<longleftrightarrow> tab_options t = opts \<and> tab_index_block t = Block_new (index_block opts bs) \<and>
     tab_metaindex_handle t = raw_handle (with_filter opts bs) (meta_block opts bs) \<and>
     tab_filter t = map_option (\<lambda>p. FilterBlockReader_new (filter_contents p (opt_block_restart_interval opts) bs)) (opt_filter_policy opts)"

definition serves :: "(nat \<rightharpoonup> bytes) \<Rightarrow> (u64 \<rightharpoonup> (u64 \<rightharpoonup> bytes)) \<Rightarrow> Options \<Rightarrow> kvs list \<Rightarrow> Table \<Rightarrow> bool" where
  "serves S T opts bs t \<longleftrightarrow> good_table opts bs \<and> reads_image opts bs t \<and> S (tab_file t) = Some (table_image opts bs) \<and>
     T (tab_cache_id t) = Some (image_blocks (opt_block_restart_interval opts) bs)"

lemma opens_block:
  assumes s: "serves S T opts bs t" and w: "world_ok S T w H" and i: "i < length bs"
  shows "\<exists>d w'. BlockReader rops cops t options w (BlockHandle_EncodeTo (block_handle (opt_block_restart_interval opts) bs i) []) = Some (d, w') \<and>
    owned_sits d (bs ! i) (length (bs ! i)) \<and> world_ok S T w' (H + oi_hold d)"
proof -
  let ?n = "opt_block_restart_interval opts"
  let ?h = "block_handle ?n bs i" and ?d = "build_block ?n (bs ! i)"
  have g: "good_table opts bs" using s by (simp add: serves_def)
  then have small: "length (table_image opts bs) < 2 ^ 32" "0 < ?n" by (simp_all add: good_table_def)
  obtain post where img: "table_image opts bs = data_area ?n (take i bs) @ stored_block kNoCompression ?d @ post" using image_data [OF i] by blast
  have d: "length ?d < 2 ^ 32" using part_length [OF img] small(1) by linarith
  have m: "image_blocks ?n bs (bh_offset ?h) = Some ?d"
    using image_blocks_at [OF _ i, of ?n] data_area_small [OF small(1)] by simp
  have t: "T (tab_cache_id t) = Some (image_blocks ?n bs)" "S (tab_file t) = Some (table_image opts bs)" using s by (simp_all add: serves_def)
  have dec: "BlockHandle_DecodeFrom BlockHandle_new (BlockHandle_EncodeTo ?h []) = (Status_OK, ?h, [])"
    using BlockHandle_roundtrip [of BlockHandle_new ?h "[]"] by simp
  have big: "length (table_image opts bs) < 2 ^ 64" using small(1) by simp
  have off: "bh_offset ?h = of_nat (length (data_area ?n (take i bs)))" "bh_size ?h = of_nat (length ?d)" by (simp_all add: block_pos_def)
  from BlockReader_ok [OF w t(1) m t(2) big img off dec, of options] obtain it w' where
    r: "BlockReader rops cops t options w (BlockHandle_EncodeTo ?h []) = Some (it, w')" "oi_iter it = Block_NewIterator (Block_new ?d)"
    "world_ok S T w' (H + oi_hold it)" by blast
  from built_block_sits [OF small(2) d good_block(1) [OF g i]] obtain b where
    "Block_NewIterator (Block_new ?d) = Positioned b" "bi_sits b (bs ! i) (length (bs ! i))" by blast
  with r show ?thesis by (auto simp: owned_sits_def block_sits_def)
qed

lemma index_sits:
  assumes "good_table opts bs"
  shows "block_sits (Block_NewIterator (Block_new (index_block opts bs)))
    (index_entries (opt_comparator opts) (opt_block_restart_interval opts) bs) (length bs)"
proof -
  obtain post where img: "table_image opts bs = with_meta opts bs @ stored_block kNoCompression (index_block opts bs) @ post" using image_index by blast
  have "length (index_block opts bs) \<le> length (table_image opts bs)" using part_length [OF img] by blast
  then have "length (build_block 1 (index_entries (opt_comparator opts) (opt_block_restart_interval opts) bs)) < 2 ^ 32"
    using assms by (simp add: good_table_def index_block_def)
  from built_block_sits [OF _ this index_sorted [OF assms]] obtain it where
    "Block_NewIterator (Block_new (index_block opts bs)) = Positioned it"
    "bi_sits it (index_entries (opt_comparator opts) (opt_block_restart_interval opts) bs) (length bs)" by (auto simp: index_block_def)
  then show ?thesis by (simp add: block_sits_def)
qed

lemma serves_cmp: "serves S T opts bs t \<Longrightarrow> tab_cmp t = Compare"
  by (simp add: serves_def reads_image_def good_table_def)

lemma table_two_level:
  assumes s: "serves S T opts bs t"
  shows "two_level valid Compare (Table_fns rops cops t options) block_sits owned_sits (world_ok S T) oi_hold
    (handle_block (opt_block_restart_interval opts) bs) (table_handle (opt_block_restart_interval opts) bs)"
proof -
  let ?n = "opt_block_restart_interval opts"
  have g: "good_table opts bs" using s by (simp add: serves_def)
  have small: "length (data_area ?n bs) < 2 ^ 64" using data_area_small [of opts bs] g by (simp add: good_table_def)
  have F: "tf_index (Table_fns rops cops t options) = block_ops Compare" "tf_data (Table_fns rops cops t options) = owned_ops Compare"
    "tf_block (Table_fns rops cops t options) = BlockReader rops cops t options" "tf_delete (Table_fns rops cops t options) = delete_owned cops"
    by (simp_all add: Table_fns_def serves_cmp [OF s])
  show ?thesis unfolding two_level_def two_level_axioms_def F
  proof (intro conjI allI impI)
    show "world_iterator valid Compare (owned_ops Compare) owned_sits (world_ok S T) oi_hold" by (rule owned_world_iterator)
    show "sorted_iterator valid Compare (block_ops Compare) block_sits" by (rule block_ops_sorted_iterator)
    fix w H h assume w: "world_ok S T w H" and "table_handle ?n bs h"
    then obtain i where i: "i < length bs" "h = BlockHandle_EncodeTo (block_handle ?n bs i) []" by (auto simp: table_handle_def)
    from opens_block [OF s w i(1), of options] handle_block_at [OF small i(1)]
    show "\<exists>d w' j. BlockReader rops cops t options w h = Some (d, w') \<and> owned_sits d (handle_block ?n bs h) j \<and> world_ok S T w' (H + oi_hold d)"
      unfolding i(2) by fastforce
  next
    fix d kvs j w H assume "owned_sits d kvs j" "world_ok S T w (H + oi_hold d)"
    then show "world_ok S T (delete_owned cops d w) H" by (blast intro: delete_owned_ok)
  qed
qed

lemma table_divides:
  assumes s: "serves S T opts bs t"
  shows "two_level.divides valid Compare (handle_block (opt_block_restart_interval opts) bs) (table_handle (opt_block_restart_interval opts) bs)
      (index_entries (opt_comparator opts) (opt_block_restart_interval opts) bs)"
    and "two_level.entries (handle_block (opt_block_restart_interval opts) bs)
      (index_entries (opt_comparator opts) (opt_block_restart_interval opts) bs) = concat bs"
proof -
  let ?n = "opt_block_restart_interval opts" and ?c = "opt_comparator opts"
  note tl = table_two_level [OF s, of ReadOptions_new]
  have g: "good_table opts bs" using s by (simp add: serves_def)
  have small: "length (data_area ?n bs) < 2 ^ 64" using data_area_small [of opts bs] g by (simp add: good_table_def)
  have b: "handle_block ?n bs (snd (index_entries ?c ?n bs ! m)) = bs ! m" if "m < length bs" for m
    using handle_block_at [OF small that] that by (simp add: index_entries_nth)
  have "table_handle ?n bs (snd iv)" if "iv \<in> set (index_entries ?c ?n bs)" for iv
    using that by (auto simp: in_set_conv_nth index_entries_nth table_handle_def)
  moreover have "valid (fst kv) \<and> Compare (fst kv) (fst (index_entries ?c ?n bs ! m)) \<le> 0" if "m < length bs" "kv \<in> set (bs ! m)" for m kv
    using index_key_separates(2) [OF g that] good_last(2) [OF g that] that(1) by (simp add: index_entries_nth)
  moreover have "Compare (fst (index_entries ?c ?n bs ! m)) (fst kv) < 0" if "m < k" "k < length bs" "kv \<in> set (bs ! k)" for m k kv
    using index_key_separates(3) [OF g _ that] that by (simp add: index_entries_nth)
  ultimately show "two_level.divides valid Compare (handle_block ?n bs) (table_handle ?n bs) (index_entries ?c ?n bs)"
    unfolding two_level.divides_def [OF tl] by (simp add: b)
  have "map (\<lambda>iv. handle_block ?n bs (snd iv)) (index_entries ?c ?n bs) = bs"
    by (rule nth_equalityI) (simp_all add: b)
  then show "two_level.entries (handle_block ?n bs) (index_entries ?c ?n bs) = concat bs" by (simp add: two_level.entries_def [OF tl])
qed

end

context table_reader begin

subsection \<open>Iterating\<close>

lemma new_iterator_sits:
  assumes s: "serves S T opts bs t"
  shows "two_level.tl_sits valid Compare block_sits owned_sits
      (handle_block (opt_block_restart_interval opts) bs) (table_handle (opt_block_restart_interval opts) bs)
      (Table_NewIterator rops cops t options) (concat bs) (length (concat bs))"
    and "two_level.tl_hold oi_hold (Table_NewIterator rops cops t options) = {#}"
proof -
  note tl = table_two_level [OF s, of options]
  have g: "good_table opts bs" and i: "tab_index_block t = Block_new (index_block opts bs)" using s by (simp_all add: serves_def reads_image_def)
  have "block_sits (Block_NewIterator (tab_index_block t)) (index_entries (opt_comparator opts) (opt_block_restart_interval opts) bs)
      (length (index_entries (opt_comparator opts) (opt_block_restart_interval opts) bs))"
    using index_sits [OF g] i by simp
  note n = two_level.TwoLevelIterator_new_sits [OF tl this table_divides(1) [OF s]]
  from n show "two_level.tl_sits valid Compare block_sits owned_sits
      (handle_block (opt_block_restart_interval opts) bs) (table_handle (opt_block_restart_interval opts) bs)
      (Table_NewIterator rops cops t options) (concat bs) (length (concat bs))"
    "two_level.tl_hold oi_hold (Table_NewIterator rops cops t options) = {#}"
    by (simp_all add: Table_NewIterator_def table_divides(2) [OF s])
qed

lemma table_moves:
  assumes s: "serves S T opts bs t" and w: "world_ok S T w H"
    and c: "run_cursor Compare (concat bs) mvs (length (concat bs)) = Some j" "\<And>k. SeekTo k \<in> set mvs \<Longrightarrow> valid k"
  shows "\<exists>it w'. run_moves (TwoLevel_Iter (Table_fns rops cops t options)) mvs (Table_NewIterator rops cops t options, w) = Some (it, w') \<and>
    ok (itStatus (TwoLevel_Iter (Table_fns rops cops t options)) (it, w')) \<and>
    seen (TwoLevel_Iter (Table_fns rops cops t options)) (it, w') = (if j < length (concat bs) then Some (concat bs ! j) else None) \<and>
    world_ok S T (TwoLevel_delete (Table_fns rops cops t options) it w') H"
proof -
  note tl = table_two_level [OF s, of options]
  note n = new_iterator_sits [OF s, of options]
  from sorted_iterator.moves_follow [OF two_level.two_level_sorted_iterator [OF tl, of H], OF _ c]
  obtain p where p: "run_moves (TwoLevel_Iter (Table_fns rops cops t options)) mvs (Table_NewIterator rops cops t options, w) = Some p"
    "two_level.tl_sits valid Compare block_sits owned_sits
      (handle_block (opt_block_restart_interval opts) bs) (table_handle (opt_block_restart_interval opts) bs) (fst p) (concat bs) j"
    "world_ok S T (snd p) (H + two_level.tl_hold oi_hold (fst p))" "ok (itStatus (TwoLevel_Iter (Table_fns rops cops t options)) p)"
    "seen (TwoLevel_Iter (Table_fns rops cops t options)) p = (if j < length (concat bs) then Some (concat bs ! j) else None)"
    using n w by fastforce
  from two_level.TwoLevel_delete_ok [OF tl p(2,3)] p show ?thesis by (cases p) auto
qed

subsection \<open>Looking up\<close>

text \<open>The first block that can hold a key, and the first entry at or after the key in it.\<close>

definition block_for :: "Options \<Rightarrow> kvs list \<Rightarrow> bytes \<Rightarrow> nat" where
  "block_for opts bs k = length (takeWhile (\<lambda>i. Compare (index_key (opt_comparator opts) bs i) k < 0) [0..<length bs])"

definition first_ge :: "kvs \<Rightarrow> bytes \<Rightarrow> (bytes \<times> bytes) option" where
  "first_ge kvs k = find (\<lambda>kv. 0 \<le> Compare (fst kv) k) kvs"

lemma first_ge_takeWhile:
  "first_ge kvs k = (let i = length (takeWhile (\<lambda>kv. Compare (fst kv) k < 0) kvs) in if i < length kvs then Some (kvs ! i) else None)"
  by (induction kvs) (auto simp: first_ge_def Let_def)

definition filtered :: "Options \<Rightarrow> kvs list \<Rightarrow> bytes \<Rightarrow> bool" where
  "filtered opts bs k \<longleftrightarrow>
     (case opt_filter_policy opts of None \<Rightarrow> False
      | Some p \<Rightarrow> \<not> fr_KeyMayMatch (fp_KeyMayMatch p) (FilterBlockReader_new (filter_contents p (opt_block_restart_interval opts) bs))
          (of_nat (block_pos (opt_block_restart_interval opts) bs (block_for opts bs k))) k)"

lemma index_seek:
  assumes s: "serves S T opts bs t" and k: "valid k"
  shows "\<exists>it. itSeek (block_ops Compare) (Block_NewIterator (tab_index_block t)) k = Some it \<and>
    ok (itStatus (block_ops Compare) it) \<and> (itValid (block_ops Compare) it \<longleftrightarrow> block_for opts bs k < length bs) \<and>
    (block_for opts bs k < length bs \<longrightarrow> itValue (block_ops Compare) it =
      BlockHandle_EncodeTo (block_handle (opt_block_restart_interval opts) bs (block_for opts bs k)) [])"
proof -
  let ?n = "opt_block_restart_interval opts" let ?es = "index_entries (opt_comparator opts) ?n bs"
  note b = block_ops_sorted_iterator
  have g: "good_table opts bs" and i: "tab_index_block t = Block_new (index_block opts bs)" using s by (simp_all add: serves_def reads_image_def)
  have "map fst ?es = map (index_key (opt_comparator opts) bs) [0..<length bs]"
    by (rule nth_equalityI) (simp_all add: index_entries_nth)
  then have "length (takeWhile (\<lambda>x. Compare x k < 0) (map fst ?es)) = length (takeWhile (\<lambda>x. Compare x k < 0) (map (index_key (opt_comparator opts) bs) [0..<length bs]))"
    by (simp only:)
  then have len: "length (takeWhile (\<lambda>kv. Compare (fst kv) k < 0) ?es) = block_for opts bs k"
    by (simp add: takeWhile_map comp_def block_for_def)
  from sorted_iterator.seek [OF b index_sits [OF g] k] obtain it where
    it: "itSeek (block_ops Compare) (Block_NewIterator (tab_index_block t)) k = Some it" "block_sits it ?es (block_for opts bs k)"
    unfolding len i by blast
  have "itValue (block_ops Compare) it = snd (?es ! block_for opts bs k)" if "block_for opts bs k < length bs"
    using sorted_iterator.sits_entry [OF b it(2)] that by (metis length_index_entries snd_conv)
  then show ?thesis using it sorted_iterator.sits_valid [OF b it(2)] by (simp add: index_entries_nth)
qed

lemma InternalGet_ok:
  assumes s: "serves S T opts bs t" and w: "world_ok S T w H" and k: "valid k"
  shows "\<exists>w'. InternalGet rops cops w t options k =
      Some (Status_OK, if block_for opts bs k < length bs \<and> \<not> filtered opts bs k then first_ge (bs ! block_for opts bs k) k else None, w') \<and>
    world_ok S T w' H"
proof -
  let ?n = "opt_block_restart_interval opts" and ?i = "block_for opts bs k"
  let ?h = "block_handle ?n bs ?i"
  note b = block_ops_sorted_iterator
  obtain iit where iit: "itSeek (block_ops Compare) (Block_NewIterator (tab_index_block t)) k = Some iit"
    "ok (itStatus (block_ops Compare) iit)" "itValid (block_ops Compare) iit \<longleftrightarrow> ?i < length bs"
    "?i < length bs \<Longrightarrow> itValue (block_ops Compare) iit = BlockHandle_EncodeTo ?h []"
    using index_seek [OF s k] by blast
  have okOK: "itStatus (block_ops Compare) iit = Status_OK" using iit(2) by (simp add: ok_def Status_OK_def)
  have cmp: "tab_cmp t = Compare" by (rule serves_cmp [OF s])
  show ?thesis
  proof (cases "?i < length bs")
    case False
    then show ?thesis using iit okOK w by (simp add: InternalGet_def cmp Let_def ok_Status_OK)
  next
    case True
    have dec: "BlockHandle_DecodeFrom BlockHandle_new (BlockHandle_EncodeTo ?h []) = (Status_OK, ?h, [])"
      using BlockHandle_roundtrip [of BlockHandle_new ?h "[]"] by simp
    have fil: "(case tab_filter t of None \<Rightarrow> False | Some reader \<Rightarrow> ok Status_OK \<and>
        \<not> fr_KeyMayMatch (fp_KeyMayMatch (the (opt_filter_policy (tab_options t)))) reader (bh_offset ?h) k) \<longleftrightarrow> filtered opts bs k"
      using s by (simp add: serves_def reads_image_def filtered_def ok_Status_OK split: option.split)
    show ?thesis
    proof (cases "filtered opts bs k")
      case f: True
      then show ?thesis using iit okOK w True fil by (simp add: InternalGet_def cmp Let_def dec ok_Status_OK)
    next
      case f: False
      from opens_block [OF s w True, of options] obtain d w1 where
        d: "BlockReader rops cops t options w (BlockHandle_EncodeTo ?h []) = Some (d, w1)" "owned_sits d (bs ! ?i) (length (bs ! ?i))"
        "world_ok S T w1 (H + oi_hold d)" by blast
      note o = world_iterator.in_world [OF owned_world_iterator, of "world_ok S T" H]
      from sorted_iterator.seek [OF o _ k, of "(d, w1)" "bs ! ?i"] d(2,3) obtain d2 w2 where
        d2: "itSeek (owned_ops Compare) (d, w1) k = Some (d2, w2)"
        "owned_sits d2 (bs ! ?i) (length (takeWhile (\<lambda>kv. Compare (fst kv) k < 0) (bs ! ?i)))" "world_ok S T w2 (H + oi_hold d2)" by fastforce
      let ?j = "length (takeWhile (\<lambda>kv. Compare (fst kv) k < 0) (bs ! ?i))"
      have v: "itValid (owned_ops Compare) (d2, w2) \<longleftrightarrow> ?j < length (bs ! ?i)" "ok (itStatus (owned_ops Compare) (d2, w2))"
        using sorted_iterator.sits_valid [OF o, of "(d2, w2)" "bs ! ?i" ?j] d2(2,3) by simp_all
      have e: "?j < length (bs ! ?i) \<Longrightarrow> (itKey (owned_ops Compare) (d2, w2), itValue (owned_ops Compare) (d2, w2)) = bs ! ?i ! ?j"
        using sorted_iterator.sits_entry [OF o, of "(d2, w2)" "bs ! ?i" ?j] d2(2,3) by simp
      have so: "itStatus (owned_ops Compare) (d2, w2) = Status_OK" using v(2) by (simp add: ok_def Status_OK_def)
      have "InternalGet rops cops w t options k = Some (Status_OK, first_ge (bs ! ?i) k, delete_owned cops d2 w2)"
        using iit okOK True f fil d(1) d2(1) v e so
        by (simp add: InternalGet_def cmp Let_def dec first_ge_takeWhile ok_Status_OK)
      with delete_owned_ok [OF d2(3)] True f show ?thesis by simp
    qed
  qed
qed

text \<open>When an entry at or after the key is not beyond the index key of the block for the key, that block has it.\<close>

lemma block_for_first:
  assumes g: "good_table opts bs" and k: "valid k" and i: "block_for opts bs k < length bs"
    and e: "first_ge (bs ! block_for opts bs k) k = Some e"
  shows "first_ge (concat bs) k = Some e"
proof -
  let ?i = "block_for opts bs k"
  have "\<not> 0 \<le> Compare (fst kv) k" if "kv \<in> set (concat (take ?i bs))" for kv
  proof -
    from that obtain m where m: "m < ?i" "m < length bs" "kv \<in> set (bs ! m)" using i by (auto simp: in_set_conv_nth [of _ "take ?i bs"])
    have "Compare (index_key (opt_comparator opts) bs ([0..<length bs] ! m)) k < 0"
      using before_takeWhile [of m "\<lambda>i. Compare (index_key (opt_comparator opts) bs i) k < 0" "[0..<length bs]"] m(1) by (simp add: block_for_def)
    then have 1: "Compare (index_key (opt_comparator opts) bs m) k < 0" using m(2) by simp
    have "Compare (fst kv) k < 0"
      by (rule less_trans' [OF _ index_key_separates(1) [OF g m(2)] k index_key_separates(2) [OF g m(2,3)] 1]) (rule good_last(2) [OF g m(2,3)])
    then show ?thesis by simp
  qed
  then have "find (\<lambda>kv. 0 \<le> Compare (fst kv) k) (concat (take ?i bs)) = None" unfolding find_None_iff by blast
  moreover have "find P (xs @ ys) = (case find P xs of None \<Rightarrow> find P ys | Some x \<Rightarrow> Some x)" for P and xs ys :: kvs
    by (induction xs) auto
  ultimately show ?thesis using e concat_at [OF i] by (simp add: first_ge_def)
qed

lemma block_for_has:
  assumes g: "good_table opts bs" and k: "valid k" and m: "m < length bs" "e \<in> set (bs ! m)" and e: "0 \<le> Compare (fst e) k"
    and near: "\<And>i. i < m \<Longrightarrow> Compare (index_key (opt_comparator opts) bs i) k < 0"
  shows "block_for opts bs k = m" "first_ge (bs ! m) k \<noteq> None"
proof -
  let ?P = "\<lambda>i. Compare (index_key (opt_comparator opts) bs i) k < 0"
  have "\<not> ?P m"
  proof
    assume "?P m"
    from less_trans' [OF good_last(2) [OF g m] index_key_separates(1) [OF g m(1)] k index_key_separates(2) [OF g m] this] e show False by simp
  qed
  have "[0..<length bs] = [0..<m] @ m # [Suc m..<length bs]" 
    using m(1) upt_conv_Cons [of m "length bs"] upt_add_eq_append [of 0 m "length bs - m"] by simp
  then have "takeWhile ?P [0..<length bs] = takeWhile ?P ([0..<m] @ m # [Suc m..<length bs])" by (simp only:)
  also have "\<dots> = [0..<m]" using near \<open>\<not> ?P m\<close> by (subst takeWhile_append2) auto
  finally show "block_for opts bs k = m" by (simp add: block_for_def)
  show "first_ge (bs ! m) k \<noteq> None" using m(2) e unfolding first_ge_def find_None_iff by blast
qed

end

context table_reader begin

subsection \<open>Opening\<close>

lemma ReadFilter_ok:
  assumes w: "world_ok S T w H" and f: "S (tab_file t) = Some (table_image opts bs)" "length (table_image opts bs) < 2 ^ 32"
    and p: "opt_filter_policy opts = Some p"
  shows "\<exists>w'. ReadFilter rops w t (BlockHandle_EncodeTo (raw_handle (data_area (opt_block_restart_interval opts) bs)
      (filter_contents p (opt_block_restart_interval opts) bs)) []) =
    (t\<lparr>tab_filter := Some (FilterBlockReader_new (filter_contents p (opt_block_restart_interval opts) bs))\<rparr>, w') \<and> world_ok S T w' H"
proof -
  let ?n = "opt_block_restart_interval opts"
  let ?h = "raw_handle (data_area ?n bs) (filter_contents p ?n bs)"
  obtain post where img: "table_image opts bs = data_area ?n bs @ stored_block kNoCompression (filter_contents p ?n bs) @ post"
    using image_filter [OF p] by blast
  have "bh_offset ?h = of_nat (length (data_area ?n bs))" "bh_size ?h = of_nat (length (filter_contents p ?n bs))" by (simp_all add: raw_handle_def)
  from w_ReadBlock_ok [OF w f(1) _ img this, of "opt_paranoid_checks (tab_options t)"] f(2) obtain x w' where
    "w_ReadBlock rops w (tab_file t) (opt_paranoid_checks (tab_options t)) ?h =
      (Status_OK, \<lparr>bc_data = filter_contents p ?n bs, bc_cachable = x, bc_heap_allocated = x\<rparr>, w')" "world_ok S T w' H" by auto
  then show ?thesis using BlockHandle_roundtrip [of BlockHandle_new ?h "[]"] by (simp add: ReadFilter_def ok_Status_OK)
qed

lemma ReadMeta_ok:
  assumes w: "world_ok S T w H" and f: "S (tab_file t) = Some (table_image opts bs)" "length (table_image opts bs) < 2 ^ 32"
    and t: "tab_options t = opts" "tab_filter t = None" "0 < opt_block_restart_interval opts"
  shows "\<exists>w'. ReadMeta rops w t (table_footer opts bs) = Some (t\<lparr>tab_filter :=
      map_option (\<lambda>p. FilterBlockReader_new (filter_contents p (opt_block_restart_interval opts) bs)) (opt_filter_policy opts)\<rparr>, w') \<and>
    world_ok S T w' H"
proof (cases "opt_filter_policy opts")
  case None
  then show ?thesis using w t by (simp add: ReadMeta_def)
next
  case (Some p)
  let ?n = "opt_block_restart_interval opts" and ?b = "block_ops Bytewise_Compare"
  let ?h = "raw_handle (with_filter opts bs) (meta_block opts bs)" and ?key = "str ''filter.'' @ fp_Name p"
  let ?v = "BlockHandle_EncodeTo (raw_handle (data_area ?n bs) (filter_contents p ?n bs)) []"
  obtain post where img: "table_image opts bs = with_filter opts bs @ stored_block kNoCompression (meta_block opts bs) @ post" using image_meta by blast
  have hh: "bh_offset ?h = of_nat (length (with_filter opts bs))" "bh_size ?h = of_nat (length (meta_block opts bs))" by (simp_all add: raw_handle_def)
  have foot: "metaindex_handle (table_footer opts bs) = ?h" by (simp add: table_footer_def)
  from w_ReadBlock_ok [OF w f(1) _ img hh, of "opt_paranoid_checks opts"] f(2) obtain x w1 where
    r: "w_ReadBlock rops w (tab_file t) (opt_paranoid_checks opts) ?h =
      (Status_OK, \<lparr>bc_data = meta_block opts bs, bc_cachable = x, bc_heap_allocated = x\<rparr>, w1)" "world_ok S T w1 H" by auto
  have es: "meta_entries opts bs = [(?key, ?v)]" by (simp add: meta_entries_def Some)
  have "length (build_block ?n (meta_entries opts bs)) < 2 ^ 32" using part_length [OF img] f(2) by (simp add: meta_block_def)
  from bytewise.built_block_sits [OF t(3) this] obtain it where
    "Block_NewIterator (Block_new (build_block ?n (meta_entries opts bs))) = Positioned it" "bytewise.bi_sits it (meta_entries opts bs) 1"
    by (auto simp: es sorted_keys_def)
  then have "bytewise.block_sits (Block_NewIterator (Block_new (meta_block opts bs))) [(?key, ?v)] 1"
    by (simp add: bytewise.block_sits_def meta_block_def es)
  note it = this and b = bytewise.block_ops_sorted_iterator
  note seek = sorted_iterator.seek [OF b, of _ _ 1, OF it, of ?key]
  then obtain it' where
    i: "itSeek ?b (Block_NewIterator (Block_new (meta_block opts bs))) ?key = Some it'" "bytewise.block_sits it' [(?key, ?v)] 0" by auto
  have v: "itValid ?b it'" "itKey ?b it' = ?key" "itValue ?b it' = ?v"
    using sorted_iterator.sits_valid [OF b, of _ _ 0, OF i(2)] sorted_iterator.sits_entry [OF b, of _ _ 0, OF i(2)] by simp_all
  from ReadFilter_ok [OF r(2) f Some] obtain w2 where
    "ReadFilter rops w1 t ?v = (t\<lparr>tab_filter := Some (FilterBlockReader_new (filter_contents p ?n bs))\<rparr>, w2)" "world_ok S T w2 H" by blast
  then show ?thesis using r(1) i(1) v t Some by (simp add: ReadMeta_def foot Let_def ok_Status_OK BytewiseComparator_def)
qed

lemma Table_Open_ok:
  assumes w: "world_ok S T w H" and f: "S f = Some (table_image opts bs)" and g: "good_table opts bs"
    and fresh: "\<And>c. w_block_cache w = Some c \<Longrightarrow> T (fst (caNewId cops c)) = None"
    and fresh0: "w_block_cache w = None \<Longrightarrow> T 0 = None"
  shows "\<exists>t w'. Table_Open rops cops w opts f (of_nat (length (table_image opts bs))) = Some (Status_OK, Some t, w') \<and> tab_file t = f \<and>
    T (tab_cache_id t) = None \<and>
    serves S (T(tab_cache_id t \<mapsto> image_blocks (opt_block_restart_interval opts) bs)) opts bs t \<and>
    world_ok S (T(tab_cache_id t \<mapsto> image_blocks (opt_block_restart_interval opts) bs)) w' H"
proof -
  let ?n = "opt_block_restart_interval opts" and ?img = "table_image opts bs"
  have small: "length ?img < 2 ^ 32" and n: "0 < ?n" using g by (simp_all add: good_table_def)
  have l48: "48 \<le> length ?img" by (simp add: table_image_def)
  have sz: "unat (of_nat (length ?img) :: u64) = length ?img" using small by (intro unat_of_nat_lt) simp
  have le: "(48 :: u64) \<le> of_nat (length ?img)" using l48 sz by (simp add: word_le_nat_alt)
  then have sub: "unat (of_nat (length ?img) - 48 :: u64) = length ?img - 48" using sz by (simp add: unat_sub)
  have k48: "of_nat kEncodedLength = (48 :: u64)" by (simp add: kEncodedLength_def kMaxEncodedLength_def)
  have "unat (of_nat (length ?img) - 48 :: u64) + unat (48 :: u64) \<le> length ?img" using sub l48 by simp
  from w_Read_ok [OF w f _ this] small obtain s w1 where
    r1: "w_Read rops w f (of_nat (length ?img) - 48) 48 = (s, take 48 (drop (length ?img - 48) ?img), w1)" "ok s"
    "world_ok S T w1 H" "w_block_cache w1 = w_block_cache w" using sub by auto
  have "drop (length ?img - 48) ?img = Footer_EncodeTo (table_footer opts bs) []" by (simp add: table_image_def)
  then have foot: "Footer_DecodeFrom (take 48 (drop (length ?img - 48) ?img)) = (Status_OK, table_footer opts bs, [])"
    using Footer_Decode [of "table_footer opts bs" "[]"] by simp
  let ?h = "raw_handle (with_meta opts bs) (index_block opts bs)"
  obtain post where img: "?img = with_meta opts bs @ stored_block kNoCompression (index_block opts bs) @ post" using image_index by blast
  have hh: "bh_offset ?h = of_nat (length (with_meta opts bs))" "bh_size ?h = of_nat (length (index_block opts bs))" by (simp_all add: raw_handle_def)
  from w_ReadBlock_ok [OF r1(3) f _ img hh, of "opt_paranoid_checks opts"] small obtain x w2 where
    r2: "w_ReadBlock rops w1 f (opt_paranoid_checks opts) ?h = (Status_OK, \<lparr>bc_data = index_block opts bs, bc_cachable = x, bc_heap_allocated = x\<rparr>, w2)"
    "world_ok S T w2 H" "w_block_cache w2 = w_block_cache w" using r1(4) by auto
  obtain i cache' where new: "(case w_block_cache w of None \<Rightarrow> (0, None) | Some c \<Rightarrow> let (i, c) = caNewId cops c in (i, Some c)) = (i, cache')"
    by fastforce
  have i: "T i = None" using new fresh fresh0 by (fastforce split: option.splits prod.splits)
  let ?T = "T(i \<mapsto> image_blocks ?n bs)"
  have more: "known T k v \<Longrightarrow> known ?T k v" for k v using i by (force simp: known_def)
  have w3: "world_ok S ?T (w2\<lparr>w_block_cache := cache'\<rparr>) H"
  proof (cases "w_block_cache w")
    case None
    then show ?thesis using r2(2,3) new by (simp add: world_ok_def)
  next
    case (Some c)
    then have "cok (known T) c H" using r2(2,3) by (simp add: world_ok_def)
    from cache.weaken [OF cache.newid_ok [OF this] more] have "cok (known ?T) (snd (caNewId cops c)) H" by simp
    moreover have "cache' = Some (snd (caNewId cops c))" using new Some by (simp add: case_prod_unfold Let_def)
    ultimately show ?thesis using r2(2) by (simp add: world_ok_def)
  qed
  let ?t = "\<lparr>tab_options = opts, tab_file = f, tab_cache_id = i, tab_filter = None,
      tab_metaindex_handle = metaindex_handle (table_footer opts bs), tab_index_block = Block_new (index_block opts bs)\<rparr>"
  from ReadMeta_ok [OF w3, of ?t opts bs] f small n obtain w4 where
    r4: "ReadMeta rops (w2\<lparr>w_block_cache := cache'\<rparr>) ?t (table_footer opts bs) = Some (?t\<lparr>tab_filter :=
      map_option (\<lambda>p. FilterBlockReader_new (filter_contents p ?n bs)) (opt_filter_policy opts)\<rparr>, w4)" "world_ok S ?T w4 H" by auto
  have ih: "index_handle (table_footer opts bs) = ?h" "metaindex_handle (table_footer opts bs) = raw_handle (with_filter opts bs) (meta_block opts bs)"
    by (simp_all add: table_footer_def)
  have "\<not> (of_nat (length ?img) :: u64) < 48" using le by simp
  then have "Table_Open rops cops w opts f (of_nat (length ?img)) =
      map_option (\<lambda>(t, w). (Status_OK, Some t, w)) (ReadMeta rops (w2\<lparr>w_block_cache := cache'\<rparr>) ?t (table_footer opts bs))"
    by (simp only: Table_Open_def k48 if_False Let_def r1(1,2) foot r2(1) ih(1) ok_Status_OK prod.case BlockContents.select_convs simp_thms r2(3) new [unfolded Let_def])
  then have "Table_Open rops cops w opts f (of_nat (length ?img)) = Some (Status_OK, Some (?t\<lparr>tab_filter :=
      map_option (\<lambda>p. FilterBlockReader_new (filter_contents p ?n bs)) (opt_filter_policy opts)\<rparr>), w4)"
    unfolding r4(1) by simp
  then show ?thesis using r4(2) i f g ih by (auto simp: serves_def reads_image_def)
qed

end

context table_reader begin

subsection \<open>Offsets\<close>

definition offset_for :: "Options \<Rightarrow> kvs list \<Rightarrow> bytes \<Rightarrow> nat" where
  "offset_for opts bs k =
     (if block_for opts bs k < length bs then block_pos (opt_block_restart_interval opts) bs (block_for opts bs k)
      else length (with_filter opts bs))"

lemma ApproximateOffsetOf_eq:
  assumes s: "serves S T opts bs t" and k: "valid k"
  shows "ApproximateOffsetOf t k = Some (of_nat (offset_for opts bs k))"
proof -
  obtain iit where iit: "itSeek (block_ops Compare) (Block_NewIterator (tab_index_block t)) k = Some iit"
    "itValid (block_ops Compare) iit \<longleftrightarrow> block_for opts bs k < length bs"
    "block_for opts bs k < length bs \<Longrightarrow> itValue (block_ops Compare) iit =
      BlockHandle_EncodeTo (block_handle (opt_block_restart_interval opts) bs (block_for opts bs k)) []"
    using index_seek [OF s k] by blast
  have "BlockHandle_DecodeFrom BlockHandle_new (BlockHandle_EncodeTo h []) = (Status_OK, h, [])" for h
    using BlockHandle_roundtrip [of BlockHandle_new h "[]"] by simp
  moreover have "bh_offset (tab_metaindex_handle t) = of_nat (length (with_filter opts bs))"
    using s by (simp add: serves_def reads_image_def raw_handle_def)
  ultimately show ?thesis using iit by (simp add: ApproximateOffsetOf_def serves_cmp [OF s] Let_def offset_for_def ok_Status_OK)
qed

lemma block_for_mono:
  assumes g: "good_table opts bs" and k: "valid k" "valid k'" "Compare k k' \<le> 0"
  shows "block_for opts bs k \<le> block_for opts bs k'"
proof -
  let ?I = "index_key (opt_comparator opts) bs"
  have "Compare (?I i) k' < 0" if "Compare (?I i) k < 0" "i < length bs" for i
    using less_trans [OF index_key_separates(1) [OF g that(2)] k(1,2) that(1) k(3)] .
  then have "\<forall>i\<in>set [0..<length bs]. Compare (?I i) k < 0 \<longrightarrow> Compare (?I i) k' < 0" by simp
  then have "length (takeWhile (\<lambda>i. Compare (?I i) k < 0) xs) \<le> length (takeWhile (\<lambda>i. Compare (?I i) k' < 0) xs)"
    if "set xs \<subseteq> set [0..<length bs]" for xs using that by (induction xs) auto
  then show ?thesis by (simp add: block_for_def)
qed

lemma offset_for_mono:
  assumes g: "good_table opts bs" and k: "valid k" "valid k'" "Compare k k' \<le> 0"
  shows "offset_for opts bs k \<le> offset_for opts bs k'" "offset_for opts bs k' \<le> length (table_image opts bs)"
proof -
  let ?n = "opt_block_restart_interval opts"
  have data: "length (data_area ?n bs) \<le> length (with_filter opts bs)" by (simp add: with_filter_def Let_def split: option.split)
  have all: "length (with_filter opts bs) \<le> length (table_image opts bs)" by (simp add: table_image_def with_index_def with_meta_def)
  have pos: "block_pos ?n bs i \<le> length (with_filter opts bs)" if "i < length bs" for i
    using block_pos_le [of i bs ?n] that data by simp
  show "offset_for opts bs k' \<le> length (table_image opts bs)"
    using pos [of "block_for opts bs k'"] all by (fastforce simp: offset_for_def)
  have "block_pos ?n bs (block_for opts bs k) \<le> block_pos ?n bs (block_for opts bs k')" if "block_for opts bs k' < length bs"
    using block_for_mono [OF g k] block_pos_less [of "block_for opts bs k" "block_for opts bs k'" bs ?n] that
    by (cases "block_for opts bs k = block_for opts bs k'") auto
  then show "offset_for opts bs k \<le> offset_for opts bs k'" using block_for_mono [OF g k] pos by (auto simp: offset_for_def)
qed

end

end
