(* ===== verification/Table_Properties.thy ===== *)
theory Table_Properties
  imports Table_Reader
begin

text \<open>
  Whole tables of internal keys on POSIX files with the sharded cache: what the builder wrote, the
  reader gives back, by iterating in any direction and by looking keys up through the filter.
\<close>

section \<open>The filter of a table\<close>

text \<open>A table shorter than 4 GB has fewer entries than an \<^verbatim>\<open>int\<close> counts: each takes three bytes or more.\<close>

lemma bb_Add_grows3: "length (bb_buffer b) + 3 \<le> length (bb_buffer (bb_Add b k v))"
proof -
  have e: "0 < length (EncodeVarint32 w)" for w by (simp add: EncodeVarint32_def Let_def)
  obtain w1 w2 w3 xs where "bb_buffer (bb_Add b k v) = bb_buffer b @ EncodeVarint32 w1 @ EncodeVarint32 w2 @ EncodeVarint32 w3 @ xs"
    by (simp add: bb_Add_def Let_def PutVarint32_def)
  moreover have "3 \<le> length (EncodeVarint32 w1) + length (EncodeVarint32 w2) + length (EncodeVarint32 w3)"
    using e [of w1] e [of w2] e [of w3] by linarith
  ultimately show ?thesis by simp
qed

lemma entries_in_block: "3 * length kvs \<le> length (build_block n kvs)"
proof -
  have "length (bb_buffer b) + 3 * length kvs \<le> length (bb_buffer (add_all b kvs))" for b
  proof (induction kvs arbitrary: b)
    case (Cons kv kvs)
    from Cons.IH [of "bb_Add b (fst kv) (snd kv)"] bb_Add_grows3 [of b "fst kv" "snd kv"] show ?case by (simp add: case_prod_unfold)
  qed simp
  from this [of "BlockBuilder_new n"] show ?thesis
    by (simp add: build_block_def bb_Finish_def Let_def foldl_PutFixed32 PutFixed32_def)
qed

lemma few_entries:
  assumes "length (table_image opts bs) < 2 ^ 32"
  shows "length (concat bs) < 2 ^ 31"
proof -
  let ?n = "opt_block_restart_interval opts"
  have "3 * length (concat bs) \<le> length (data_area ?n bs)"
  proof (induction bs)
    case (Cons b bs)
    moreover have "length (build_block ?n b) \<le> length (stored_block kNoCompression (build_block ?n b))" by (simp add: stored_block_def)
    ultimately show ?case using entries_in_block [of b ?n] by (simp add: data_area_def)
  qed simp
  then show ?thesis using data_area_small [OF assms] by simp
qed

context filter_policy begin

lemma filter_contents_matches:
  assumes p: "fp_CreateFilter p = create" and small: "length (table_image opts bs) < 2 ^ 32" "opt_filter_policy opts = Some p"
    and fits: "\<forall>n\<le>length (concat bs). fits n" and e: "i < length bs" "e \<in> set (bs ! i)"
  shows "fr_KeyMayMatch matches (FilterBlockReader_new (filter_contents p (opt_block_restart_interval opts) bs))
    (of_nat (block_pos (opt_block_restart_interval opts) bs i)) (fst e)"
proof -
  let ?n = "opt_block_restart_interval opts"
  let ?bl = "filter_blocks ?n bs @ [(of_nat (length (data_area ?n bs)), [])]"
  have da: "length (data_area ?n bs) < 2 ^ 64" using data_area_small [OF small(1)] by simp
  have offs: "map fst ?bl = map (\<lambda>i. of_nat (block_pos ?n bs i)) [0..<Suc (length bs)]"
    by (simp add: filter_blocks_def block_pos_def comp_def)
  have mono: "block_pos ?n bs i \<le> block_pos ?n bs j" if "i \<le> j" "j \<le> length bs" for i j
    using block_pos_less [of i j bs ?n] that by (cases "i = j") auto
  have "map (base_of \<circ> fst) ?bl = map (\<lambda>i. block_pos ?n bs i div kFilterBase) [0..<Suc (length bs)]"
    unfolding map_map [symmetric] offs by (simp add: u64_pos [OF da] del: upt_Suc)
  moreover have "sorted (map (\<lambda>i. block_pos ?n bs i div kFilterBase) [0..<Suc (length bs)])"
    unfolding sorted_iff_nth_mono by (auto intro!: div_le_mono mono simp del: upt_Suc)
  ultimately have s: "sorted (map (base_of \<circ> fst) ?bl)" by (simp only:)
  have "map snd ?bl = map (\<lambda>b. map fst b) bs @ [[]]"
    by (auto simp: filter_blocks_def comp_def intro!: nth_equalityI)
  then have "length (concat (map snd ?bl)) = length (concat (map (map fst) bs))" by (simp only: concat_append) simp
  then have f: "\<forall>k\<le>length (concat (map snd ?bl)). fits k" "length (concat (map snd ?bl)) < 2 ^ 31"
    using fits few_entries [OF small(1)] by (simp_all add: map_concat [symmetric])
  obtain post where "table_image opts bs = data_area ?n bs @ stored_block kNoCompression (filter_contents p ?n bs) @ post"
    using image_filter [OF small(2)] by blast
  from part_length [OF this] small(1) have l: "length (build_filter create ?bl) < 2 ^ 32" by (simp add: filter_contents_def p)
  have m: "(of_nat (block_pos ?n bs i), map fst (bs ! i)) \<in> set ?bl" using e(1) by (auto simp: filter_blocks_def block_pos_def)
  have k: "fst e \<in> set (map fst (bs ! i))" using e(2) by simp
  from build_filter_matches [OF s f l m k] show ?thesis by (simp add: filter_contents_def p)
qed

end

section \<open>Tables of internal keys\<close>

text \<open>What a separator of internal keys does: it is the key before, or falls before the user key behind.\<close>

lemma internal_sep_cases:
  assumes "icmp s l < 0" "8 \<le> length s" "8 \<le> length l"
  defines "sep \<equiv> IKC_FindShortestSeparator Bytewise_Compare Bytewise_FindShortestSeparator s l"
  shows "sep = s \<or> ExtractUserKey sep < ExtractUserKey l"
proof -
  let ?s = "ExtractUserKey s" and ?l = "ExtractUserKey l"
  have le: "?s \<le> ?l" using assms(1) by (auto simp: IKC_Compare_less)
  show ?thesis
  proof (cases "?s = ?l")
    case True
    then have "Bytewise_FindShortestSeparator ?s ?l = ?s" using bytewise.sep_eq [of ?s ?l] by simp
    then show ?thesis by (simp add: sep_def IKC_FindShortestSeparator_def Let_def)
  next
    case False
    with le have "Bytewise_Compare ?s ?l < 0" by simp
    from bytewise.sep [OF _ _ this] show ?thesis by (auto simp: sep_def IKC_FindShortestSeparator_def PutFixed64_def Let_def)
  qed
qed

interpretation posix_table: table_reader "Posix_RandomAccessFile se" random_contents random_steady ShardedLRU sc_ok
  "\<lambda>k. 8 \<le> length k" icmp "IKC_FindShortestSeparator Bytewise_Compare Bytewise_FindShortestSeparator"
  "IKC_FindShortSuccessor Bytewise_Compare Bytewise_FindShortSuccessor" for se ..

lemma find_in: "find P xs = Some x \<Longrightarrow> x \<in> set xs \<and> P x"
  by (induction xs) (auto split: if_splits)

lemma find_append: "find P (xs @ ys) = (case find P xs of None \<Rightarrow> find P ys | Some x \<Rightarrow> Some x)"
  by (induction xs) auto

text \<open>An entry with the user key looked up is found in the block that the index gives.\<close>

lemma internal_block_for:
  assumes g: "internal.good_table opts bs" and k: "8 \<le> length k"
    and e: "posix_table.first_ge (concat bs) k = Some e" "ExtractUserKey (fst e) = ExtractUserKey k"
  shows "posix_table.block_for opts bs k < length bs" "e \<in> set (bs ! posix_table.block_for opts bs k)"
    "posix_table.first_ge (bs ! posix_table.block_for opts bs k) k = Some e"
proof -
  let ?c = "opt_comparator opts"
  have e': "e \<in> set (concat bs)" "0 \<le> icmp (fst e) k" using find_in e(1) unfolding posix_table.first_ge_def by fast+
  then obtain m where m: "m < length bs" "e \<in> set (bs ! m)" by (auto simp: in_set_conv_nth [of _ bs])
  have before_e: "icmp (fst a) k < 0" if a: "a \<in> set (bs ! i)" "i < m" for a i
  proof (rule ccontr)
    assume "\<not> icmp (fst a) k < 0"
    then have a0: "0 \<le> icmp (fst a) k" by simp
    have lt: "icmp (fst a) (fst e) < 0" by (rule internal.good_order [OF g a(2) m(1) a(1) m(2)])
    have "a \<in> set (concat (take m bs))" by (rule in_concat_take [OF a]) (use m(1) in simp)
    then have "find (\<lambda>kv. 0 \<le> icmp (fst kv) k) (concat (take m bs)) \<noteq> None" using a0 unfolding find_None_iff by blast
    then obtain x where x: "find (\<lambda>kv. 0 \<le> icmp (fst kv) k) (concat (take m bs)) = Some x" by blast
    then have "x \<in> set (concat (take m bs))" using find_in by fast
    then obtain i' where i': "i' < m" "i' < length bs" "x \<in> set (bs ! i')" by (auto simp: in_set_conv_nth [of _ "take m bs"])
    have "x = e" using x e(1) concat_at [OF m(1)] by (simp add: posix_table.first_ge_def find_append)
    then show False using internal.good_order [OF g i'(1) m(1) i'(3) m(2)] internal.good_last(2) [OF g m] internal.refl [of "fst e"] by simp
  qed
  have near: "icmp (index_key ?c bs i) k < 0" if i: "i < m" for i
  proof -
    have il: "Suc i < length bs" using i m(1) by simp
    let ?s = "fst (last (bs ! i))" and ?l = "fst (hd (bs ! Suc i))"
    have n: "bs ! i \<noteq> []" "bs ! Suc i \<noteq> []" using internal.good_block(2) [OF g] il by simp_all
    then have ls: "last (bs ! i) \<in> set (bs ! i)" "hd (bs ! Suc i) \<in> set (bs ! Suc i)" by simp_all
    have sl: "icmp ?s ?l < 0" by (rule internal.good_order [OF g _ il ls]) simp
    have v: "8 \<le> length ?s" "8 \<le> length ?l" using internal.good_last(2) [OF g _ ls(1)] internal.good_last(2) [OF g il ls(2)] il by simp_all
    have key: "index_key ?c bs i = IKC_FindShortestSeparator Bytewise_Compare Bytewise_FindShortestSeparator ?s ?l"
      using g il by (simp add: index_key_def internal.good_table_def)
    from internal_sep_cases [OF sl v] show ?thesis
    proof (elim disjE)
      assume "IKC_FindShortestSeparator Bytewise_Compare Bytewise_FindShortestSeparator ?s ?l = ?s"
      then show ?thesis using before_e [OF ls(1) i] key by simp
    next
      assume u: "ExtractUserKey (IKC_FindShortestSeparator Bytewise_Compare Bytewise_FindShortestSeparator ?s ?l) < ExtractUserKey ?l"
      have "icmp ?l (fst e) \<le> 0"
      proof (cases "Suc i = m")
        case True
        then obtain x xs where x: "bs ! Suc i = x # xs" "e \<in> set (x # xs)" using m(2) by (cases "bs ! m") auto
        then show ?thesis using internal.good_block(1) [OF g il] v(2) internal.refl [of ?l] by (auto simp: sorted_keys_def)
      next
        case False
        then have "Suc i < m" using i by simp
        from internal.good_order [OF g this m(1) ls(2) m(2)] show ?thesis by simp
      qed
      then have "ExtractUserKey ?l \<le> ExtractUserKey (fst e)" by (auto simp: IKC_Compare_le Let_def)
      then have "ExtractUserKey (index_key ?c bs i) < ExtractUserKey k" using u key e(2) by simp
      then show ?thesis by (simp add: IKC_Compare_less)
    qed
  qed
  note b = posix_table.block_for_has [OF g k m e'(2) near]
  show "posix_table.block_for opts bs k < length bs" "e \<in> set (bs ! posix_table.block_for opts bs k)" using b(1) m by simp_all
  obtain x where x: "posix_table.first_ge (bs ! posix_table.block_for opts bs k) k = Some x" using b by auto
  have "posix_table.first_ge (concat bs) k = Some x" by (rule posix_table.block_for_first [OF g k _ x]) (simp add: b(1) m(1))
  with x e(1) show "posix_table.first_ge (bs ! posix_table.block_for opts bs k) k = Some e" by simp
qed

section \<open>Written, opened, read\<close>

text \<open>Nothing in the cache is held by a client.\<close>

definition no_handles :: "('r, 'v ShardedLRUCache) World \<Rightarrow> bool" where
  "no_handles w \<longleftrightarrow> (case w_block_cache w of None \<Rightarrow> True
     | Some c \<Rightarrow> \<forall>shard\<in>set (sc_shard c). \<forall>e h. lc_nodes shard e = Some h \<longrightarrow> h_refs h = 1 \<and> h_in_cache h)"

lemma world_ok_no_handles: "posix_table.world_ok S T w {#} \<Longrightarrow> no_handles w"
proof (cases "w_block_cache w")
  case (Some c)
  assume "posix_table.world_ok S T w {#}"
  then have c: "sc_ok (known T) c {#}" using Some by (simp add: posix_table.world_ok_def)
  have "h_refs h = 1 \<and> h_in_cache h" if s: "shard \<in> set (sc_shard c)" and h: "lc_nodes shard e = Some h" for shard e h
  proof -
    from s obtain i where i: "i < kNumShards" "sc_shard c ! i = shard" using c by (auto simp: sc_ok_def in_set_conv_nth)
    then have "shard_ok (known T) i shard {#}" using c by (auto simp: sc_ok_def held_in_def)
    then have "refs_ok shard {#}" by (auto simp: shard_ok_def cache_ok_def cache_mid_def)
    with h have "h_refs h = of_bool (h_in_cache h) \<and> 0 < h_refs h" unfolding refs_ok_def by fastforce
    then show ?thesis by (cases "h_in_cache h") auto
  qed
  then show ?thesis using Some by (simp add: no_handles_def)
qed (simp add: no_handles_def)

text \<open>A table file of internal keys, as the database writes it, in a world whose cache is new.\<close>

definition table_written ::
  "(nat \<Rightarrow> bytes) \<Rightarrow> Options \<Rightarrow> kvs \<Rightarrow> (RandomFile, Block ShardedLRUCache) World \<Rightarrow> nat \<Rightarrow> u64 \<Rightarrow> bool" where
  "table_written se opts kvs w f sz \<longleftrightarrow>
     (\<exists>fname fd s r. write_table (PosixWritableFile se) opts (PosixWritable_new fname fd) kvs = (s, r) \<and> fd_data fd = [] \<and> ok s \<and>
       random_contents (w_file w f) = pw_contents (tb_file r) \<and> sz = tb_FileSize r \<and> length (pw_contents (tb_file r)) < 2 ^ 32) \<and>
     random_steady (w_file w f) \<and> (w_block_cache w = None \<or> (\<exists>capacity. w_block_cache w = Some (ShardedLRUCache_new capacity))) \<and>
     opt_comparator opts = icmp_comparator \<and> 0 < opt_block_restart_interval opts \<and>
     sorted_wrt (\<lambda>a b. icmp (fst a) (fst b) < 0) kvs \<and> (\<forall>kv\<in>set kvs. 8 \<le> length (fst kv))"

lemma table_opens:
  assumes "table_written se opts kvs w f sz"
  obtains t w1 S T bs where "Table_Open (Posix_RandomAccessFile se) ShardedLRU w opts f sz = Some (Status_OK, Some t, w1)"
    "concat bs = kvs" "posix_table.serves S T opts bs t" "posix_table.world_ok S T w1 {#}" "sz = of_nat (length (table_image opts bs))"
proof -
  obtain fname fd s r where w: "write_table (PosixWritableFile se) opts (PosixWritable_new fname fd) kvs = (s, r)" "fd_data fd = []" "ok s"
      "random_contents (w_file w f) = pw_contents (tb_file r)" "sz = tb_FileSize r" "length (pw_contents (tb_file r)) < 2 ^ 32"
    and o: "random_steady (w_file w f)" "w_block_cache w = None \<or> (\<exists>capacity. w_block_cache w = Some (ShardedLRUCache_new capacity))"
      "opt_comparator opts = icmp_comparator" "0 < opt_block_restart_interval opts"
      "sorted_wrt (\<lambda>a b. icmp (fst a) (fst b) < 0) kvs" "\<forall>kv\<in>set kvs. 8 \<le> length (fst kv)"
    using assms unfolding table_written_def by metis
  have "pw_contents (PosixWritable_new fname fd) = []" by (simp add: PosixWritable_new_def pw_contents_def w(2))
  from posix_writable.write_table_ok [OF w(1,3) this] obtain bs where bs: "concat bs = kvs" "\<forall>b\<in>set bs. b \<noteq> []"
    "pw_contents (tb_file r) = table_image opts bs" "tb_FileSize r = of_nat (length (table_image opts bs))" by blast
  have g: "internal.good_table opts bs" using o w(6) bs by (simp add: internal.good_table_def sorted_keys_def)
  let ?S = "\<lambda>x. if x = f then Some (table_image opts bs) else None"
  have w0: "posix_table.world_ok ?S Map.empty w {#}"
    using o(1,2) w(4) bs(3) sc_ok_new by (auto simp: posix_table.world_ok_def split: option.split)
  from posix_table.Table_Open_ok [OF w0 _ g, of f se] obtain t w1 where
    "Table_Open (Posix_RandomAccessFile se) ShardedLRU w opts f (of_nat (length (table_image opts bs))) = Some (Status_OK, Some t, w1)"
    "posix_table.serves ?S (Map.empty(tab_cache_id t \<mapsto> image_blocks (opt_block_restart_interval opts) bs)) opts bs t"
    "posix_table.world_ok ?S (Map.empty(tab_cache_id t \<mapsto> image_blocks (opt_block_restart_interval opts) bs)) w1 {#}" by auto
  then show thesis using that bs(1,4) w(5) by metis
qed

text \<open>Lookups one after another, in the world each leaves.\<close>

fun InternalGets ::
  "'r RandomAccessFile \<Rightarrow> ('c, 'h, Block) Cache \<Rightarrow> ('r, 'c) World \<Rightarrow> Table \<Rightarrow> ReadOptions \<Rightarrow> bytes list \<Rightarrow>
     ((status \<times> (bytes \<times> bytes) option) list \<times> ('r, 'c) World) option" where
  "InternalGets rops cops w t options [] = Some ([], w)"
| "InternalGets rops cops w t options (k # ks) =
     Option.bind (InternalGet rops cops w t options k) (\<lambda>(s, call, w).
       map_option (\<lambda>(rs, w). ((s, call) # rs, w)) (InternalGets rops cops w t options ks))"

text \<open>What a lookup may answer: the first entry at or after the key, and nothing only if that is not a
  version of its user key.\<close>

definition lookup_answer :: "kvs \<Rightarrow> bytes \<Rightarrow> status \<times> (bytes \<times> bytes) option \<Rightarrow> bool" where
  "lookup_answer kvs k r \<longleftrightarrow> fst r = Status_OK \<and>
     (case find (\<lambda>kv. 0 \<le> icmp (fst kv) k) kvs of
        None \<Rightarrow> snd r = None
      | Some e \<Rightarrow> snd r = Some e \<or> snd r = None \<and> ExtractUserKey (fst e) \<noteq> ExtractUserKey k)"

lemma not_filtered:
  assumes g: "internal.good_table opts bs" and k: "8 \<le> length k"
    and p: "opt_filter_policy opts = None \<or> opt_filter_policy opts = Some (InternalFilterPolicy (NewBloomFilterPolicy bits))"
      "length (concat bs) * bits < 2 ^ 64 - 7"
    and e: "posix_table.first_ge (concat bs) k = Some e" "ExtractUserKey (fst e) = ExtractUserKey k"
  shows "\<not> posix_table.filtered opts bs k"
proof (cases "opt_filter_policy opts")
  case None
  then show ?thesis by (simp add: posix_table.filtered_def)
next
  case (Some q)
  let ?q = "InternalFilterPolicy (NewBloomFilterPolicy bits)" and ?i = "posix_table.block_for opts bs k"
  have q: "q = ?q" using p(1) Some by simp
  note b = internal_block_for [OF g k e]
  have "\<forall>n\<le>length (concat bs). n * bits < 2 ^ 64 - 7" using p(2) mult_le_mono1 le_less_trans by blast
  from internal_bloom.filter_contents_matches [of ?q bits opts bs, OF _ _ _ this b(1,2)] g Some q
  have "fr_KeyMayMatch (InternalFilter_KeyMayMatch Bloom_KeyMayMatch)
    (FilterBlockReader_new (filter_contents ?q (opt_block_restart_interval opts) bs)) (of_nat (block_pos (opt_block_restart_interval opts) bs ?i)) (fst e)"
    by (simp add: InternalFilterPolicy_def NewBloomFilterPolicy_def internal.good_table_def)
  moreover have "InternalFilter_KeyMayMatch Bloom_KeyMayMatch (fst e) = InternalFilter_KeyMayMatch Bloom_KeyMayMatch k"
    by (rule ext) (simp add: InternalFilter_KeyMayMatch_def e(2))
  ultimately have "fr_KeyMayMatch (InternalFilter_KeyMayMatch Bloom_KeyMayMatch)
    (FilterBlockReader_new (filter_contents ?q (opt_block_restart_interval opts) bs)) (of_nat (block_pos (opt_block_restart_interval opts) bs ?i)) k"
    by (simp only: fr_KeyMayMatch_def)
  moreover have "fp_KeyMayMatch ?q = InternalFilter_KeyMayMatch Bloom_KeyMayMatch" by (simp add: InternalFilterPolicy_def NewBloomFilterPolicy_def)
  ultimately show ?thesis using Some q by (simp add: posix_table.filtered_def)
qed

lemma InternalGet_answer:
  assumes s: "posix_table.serves S T opts bs t" and w: "posix_table.world_ok S T w {#}" and k: "8 \<le> length k"
    and p: "opt_filter_policy opts = None \<or> opt_filter_policy opts = Some (InternalFilterPolicy (NewBloomFilterPolicy bits))"
      "length (concat bs) * bits < 2 ^ 64 - 7"
  shows "\<exists>r w'. InternalGet (Posix_RandomAccessFile se) ShardedLRU w t options k = Some (fst r, snd r, w') \<and>
    lookup_answer (concat bs) k r \<and> posix_table.world_ok S T w' {#}"
proof -
  let ?i = "posix_table.block_for opts bs k"
  let ?call = "if ?i < length bs \<and> \<not> posix_table.filtered opts bs k then posix_table.first_ge (bs ! ?i) k else None"
  have g: "internal.good_table opts bs" using s by (simp add: posix_table.serves_def)
  from posix_table.InternalGet_ok [OF s w k, of se options] obtain w' where
    r: "InternalGet (Posix_RandomAccessFile se) ShardedLRU w t options k = Some (Status_OK, ?call, w')" "posix_table.world_ok S T w' {#}" by blast
  have fg: "find (\<lambda>kv. 0 \<le> icmp (fst kv) k) (concat bs) = posix_table.first_ge (concat bs) k" by (simp add: posix_table.first_ge_def)
  have "lookup_answer (concat bs) k (Status_OK, ?call)"
  proof (cases "posix_table.first_ge (concat bs) k")
    case None
    then have "?call = None" using posix_table.block_for_first [OF g k] by (cases "posix_table.first_ge (bs ! ?i) k") auto
    then show ?thesis using None by (simp add: lookup_answer_def fg)
  next
    case (Some e)
    show ?thesis
    proof (cases "ExtractUserKey (fst e) = ExtractUserKey k")
      case True
      then show ?thesis using Some internal_block_for [OF g k Some True] not_filtered [OF g k p Some True] by (simp add: lookup_answer_def fg)
    next
      case False
      have "?call = None \<or> ?call = Some e" using posix_table.block_for_first [OF g k] Some by (cases "posix_table.first_ge (bs ! ?i) k") auto
      then show ?thesis using False Some by (auto simp: lookup_answer_def fg)
    qed
  qed
  with r show ?thesis by (intro exI [of _ "(Status_OK, ?call)"]) auto
qed

lemma InternalGets_answers:
  assumes s: "posix_table.serves S T opts bs t" and w: "posix_table.world_ok S T w {#}" and k: "\<forall>k\<in>set ks. 8 \<le> length k"
    and p: "opt_filter_policy opts = None \<or> opt_filter_policy opts = Some (InternalFilterPolicy (NewBloomFilterPolicy bits))"
      "length (concat bs) * bits < 2 ^ 64 - 7"
  shows "\<exists>rs w'. InternalGets (Posix_RandomAccessFile se) ShardedLRU w t options ks = Some (rs, w') \<and>
    list_all2 (lookup_answer (concat bs)) ks rs \<and> posix_table.world_ok S T w' {#}"
  using w k
proof (induction ks arbitrary: w)
  case (Cons k ks)
  from InternalGet_answer [OF s Cons.prems(1) _ p, of k se options] Cons.prems(2) obtain r w1 where
    r: "InternalGet (Posix_RandomAccessFile se) ShardedLRU w t options k = Some (fst r, snd r, w1)"
    "lookup_answer (concat bs) k r" "posix_table.world_ok S T w1 {#}" by auto
  from Cons.IH [OF r(3)] Cons.prems(2) obtain rs w2 where
    "InternalGets (Posix_RandomAccessFile se) ShardedLRU w1 t options ks = Some (rs, w2)"
    "list_all2 (lookup_answer (concat bs)) ks rs" "posix_table.world_ok S T w2 {#}" by auto
  with r(1,2) show ?case by auto
qed simp

section \<open>Properties\<close>

text \<open>C4. A table of internal keys that was written with a good status, opened again over a file that answers reads, by
  \<^verbatim>\<open>pread\<close> or mapped, with or without a block cache of any capacity: its iterator behaves under every sequence
  of moves as a cursor on the sorted entries that were added, with a good status and every call
  returning; after the iterator is deleted no handle of the cache is held.\<close>

theorem table_iterates:
  assumes "table_written se opts kvs w f sz"
  shows "\<exists>t w1. Table_Open (Posix_RandomAccessFile se) ShardedLRU w opts f sz = Some (Status_OK, Some t, w1) \<and>
    (let ops = TwoLevel_Iter (Table_fns (Posix_RandomAccessFile se) ShardedLRU t options) in
     \<forall>mvs j. run_cursor icmp kvs mvs (length kvs) = Some j \<and> (\<forall>k. SeekTo k \<in> set mvs \<longrightarrow> 8 \<le> length k) \<longrightarrow>
      (\<exists>it w2. run_moves ops mvs (Table_NewIterator (Posix_RandomAccessFile se) ShardedLRU t options, w1) = Some (it, w2) \<and>
        ok (itStatus ops (it, w2)) \<and> seen ops (it, w2) = (if j < length kvs then Some (kvs ! j) else None) \<and>
        no_handles (TwoLevel_delete (Table_fns (Posix_RandomAccessFile se) ShardedLRU t options) it w2)))"
proof -
  obtain t w1 S T bs where t: "Table_Open (Posix_RandomAccessFile se) ShardedLRU w opts f sz = Some (Status_OK, Some t, w1)"
    "concat bs = kvs" "posix_table.serves S T opts bs t" "posix_table.world_ok S T w1 {#}" by (rule table_opens [OF assms])
  show ?thesis using t(1,2) posix_table.table_moves [OF t(3,4), of _ _ se options] world_ok_no_handles
    unfolding Let_def by (intro exI [of _ t] exI [of _ w1]) blast
qed

text \<open>C5. Lookups in such a table, with no filter or a Bloom filter on user keys, one after another: each returns
  with a good status and calls its handler with the first entry at or after the key; it calls nothing only when that entry is of
  another user key or does not exist. No handle of the cache is held afterwards.\<close>

theorem table_lookups:
  assumes "table_written se opts kvs w f sz" and "\<forall>k\<in>set ks. 8 \<le> length k"
    and "opt_filter_policy opts = None \<or> opt_filter_policy opts = Some (InternalFilterPolicy (NewBloomFilterPolicy bits))"
    and "length kvs * bits < 2 ^ 64 - 7"
  shows "\<exists>t w1 rs w2. Table_Open (Posix_RandomAccessFile se) ShardedLRU w opts f sz = Some (Status_OK, Some t, w1) \<and>
    InternalGets (Posix_RandomAccessFile se) ShardedLRU w1 t options ks = Some (rs, w2) \<and>
    list_all2 (lookup_answer kvs) ks rs \<and> no_handles w2"
proof -
  obtain t w1 S T bs where t: "Table_Open (Posix_RandomAccessFile se) ShardedLRU w opts f sz = Some (Status_OK, Some t, w1)"
    "concat bs = kvs" "posix_table.serves S T opts bs t" "posix_table.world_ok S T w1 {#}" by (rule table_opens [OF assms(1)])
  from InternalGets_answers [OF t(3,4) assms(2,3)] assms(4) t(1,2) world_ok_no_handles show ?thesis by metis
qed

text \<open>The offsets that \<^verbatim>\<open>ApproximateOffsetOf\<close> gives for such a table grow with the key and stay within the file, so
  that the size between two keys that is computed from them is never negative and at most the file's.\<close>

theorem table_offsets:
  assumes "table_written se opts kvs w f sz" and "8 \<le> length k" "8 \<le> length k'" "icmp k k' \<le> 0"
  shows "\<exists>t w1 off off'. Table_Open (Posix_RandomAccessFile se) ShardedLRU w opts f sz = Some (Status_OK, Some t, w1) \<and>
    ApproximateOffsetOf t k = Some off \<and> ApproximateOffsetOf t k' = Some off' \<and> off \<le> off' \<and> off' \<le> sz"
proof -
  obtain t w1 S T bs where t: "Table_Open (Posix_RandomAccessFile se) ShardedLRU w opts f sz = Some (Status_OK, Some t, w1)"
    "concat bs = kvs" "posix_table.serves S T opts bs t" "sz = of_nat (length (table_image opts bs))" by (rule table_opens [OF assms(1)])
  then have g: "internal.good_table opts bs" by (simp add: posix_table.serves_def)
  note m = posix_table.offset_for_mono [OF g assms(2-4)]
  have small: "length (table_image opts bs) < 2 ^ 64" using g by (simp add: internal.good_table_def)
  have le: "(of_nat m :: u64) \<le> of_nat n" if "m \<le> n" "n < 2 ^ 64" for m n
  proof -
    have "unat (of_nat m :: u64) = m" "unat (of_nat n :: u64) = n" using that by (simp_all add: unat_of_nat_lt)
    with that(1) show ?thesis by (simp add: word_le_nat_alt)
  qed
  show ?thesis using t(1) posix_table.ApproximateOffsetOf_eq [OF t(3) assms(2)] posix_table.ApproximateOffsetOf_eq [OF t(3) assms(3)]
      le [OF m(1)] le [OF m(2) small] m(2) small t(4) by (intro exI [of _ t] exI [of _ w1]) simp
qed

text \<open>A table with one entry, for the witnesses.\<close>

lemma image_length_one:
  assumes "opt_filter_policy opts = None" "0 < opt_block_restart_interval opts"
  shows "length (table_image opts [[(k, v)]]) \<le> length k + length v + length (cmp_FindShortSuccessor (opt_comparator opts) k) + 145"
proof -
  let ?n = "opt_block_restart_interval opts"
  have "length (build_block ?n [(k, v)]) \<le> 27 + length k + length v" using build_block_length [OF assms(2), of "[(k, v)]"] by simp
  moreover have "length (meta_block opts [[(k, v)]]) \<le> 8"
    using build_block_length [OF assms(2), of "[]"] assms(1) by (simp add: meta_block_def meta_entries_def)
  moreover have "length (index_block opts [[(k, v)]]) \<le> 47 + length (cmp_FindShortSuccessor (opt_comparator opts) k)"
    using build_block_length [of 1 "index_entries (opt_comparator opts) ?n [[(k, v)]]"] length_BlockHandle [of "area_handle ?n [] [(k, v)]"]
    by (simp add: index_block_def index_entries_def index_entry_def index_key_def kMaxEncodedLength_def)
  ultimately show ?thesis
    by (simp add: table_image_def with_index_def with_meta_def with_filter_def assms(1) data_area_def length_stored_block kBlockTrailerSize_def)
qed

abbreviation sample_kv :: "bytes \<times> bytes" where
  "sample_kv \<equiv> (InternalKey [97] 5 kTypeValue, [98])"

abbreviation sample_options :: Options where
  "sample_options \<equiv> Options_new\<lparr>opt_comparator := icmp_comparator\<rparr>"

abbreviation sample_table :: "PosixWritable TableBuilder" where
  "sample_table \<equiv> snd (write_table (PosixWritableFile (\<lambda>_. [])) sample_options
     (PosixWritable_new [] \<lparr>fd_data = [], fd_pos = 0, fd_answers = [], fd_synced = 0\<rparr>) [sample_kv])"

abbreviation sample_world :: "(RandomFile, Block ShardedLRUCache) World" where
  "sample_world \<equiv> \<lparr>w_file = (\<lambda>_. Mmap [] (pw_contents (tb_file sample_table))), w_block_cache = Some (ShardedLRUCache_new 100)\<rparr>"

lemma sample_written: "table_written (\<lambda>_. []) sample_options [sample_kv] sample_world 0 (tb_FileSize sample_table)"
proof -
  let ?fd = "\<lparr>fd_data = [], fd_pos = 0, fd_answers = [], fd_synced = 0\<rparr>"
  let ?t = "write_table (PosixWritableFile (\<lambda>_. [])) sample_options (PosixWritable_new [] ?fd) [sample_kv]"
  have ok: "ok (fst ?t)" by (rule posix_reliable.write_table_good) (simp add: PosixWritable_new_def fd_reliable_def)
  have e: "pw_contents (PosixWritable_new [] ?fd) = []" by (simp add: PosixWritable_new_def pw_contents_def)
  obtain bs where bs: "concat bs = [sample_kv]" "\<forall>b\<in>set bs. b \<noteq> []" "pw_contents (tb_file sample_table) = table_image sample_options bs"
    using posix_writable.write_table_ok [OF prod.collapse [symmetric] ok e] by blast
  obtain b bs' where "bs = b # bs'" "b \<noteq> []" using bs(1,2) by (cases bs) auto
  then have "bs = [[sample_kv]]" using bs(1,2) by (cases bs') (auto simp: append_eq_Cons_conv)
  moreover have "length (cmp_FindShortSuccessor icmp_comparator (fst sample_kv)) \<le> 9"
    by (simp add: IKC_FindShortSuccessor_def Let_def Bytewise_FindShortSuccessor_def PutFixed64_def)
  ultimately have "length (pw_contents (tb_file sample_table)) < 2 ^ 32"
    using image_length_one [of sample_options "fst sample_kv" "[98]"] bs(3) by (simp add: Options_new_def)
  moreover have "?t = (fst ?t, sample_table)" by simp
  ultimately have "\<exists>fname fd s r. write_table (PosixWritableFile (\<lambda>_. [])) sample_options (PosixWritable_new fname fd) [sample_kv] = (s, r) \<and>
       fd_data fd = [] \<and> ok s \<and> random_contents (w_file sample_world 0) = pw_contents (tb_file r) \<and>
       tb_FileSize sample_table = tb_FileSize r \<and> length (pw_contents (tb_file r)) < 2 ^ 32"
    using ok by (intro exI [of _ "[]"] exI [of _ ?fd] exI [of _ "fst ?t"] exI [of _ sample_table])
      (simp add: random_contents_def)
  then show ?thesis unfolding table_written_def by (simp add: random_steady_def Options_new_def) blast
qed

theorem table_iterates_witness:
  "\<exists>t w1 it w2. Table_Open (Posix_RandomAccessFile (\<lambda>_. [])) ShardedLRU sample_world sample_options 0 (tb_FileSize sample_table) =
      Some (Status_OK, Some t, w1) \<and>
    run_moves (TwoLevel_Iter (Table_fns (Posix_RandomAccessFile (\<lambda>_. [])) ShardedLRU t ReadOptions_new)) [First, Forth, Last]
      (Table_NewIterator (Posix_RandomAccessFile (\<lambda>_. [])) ShardedLRU t ReadOptions_new, w1) = Some (it, w2) \<and>
    seen (TwoLevel_Iter (Table_fns (Posix_RandomAccessFile (\<lambda>_. [])) ShardedLRU t ReadOptions_new)) (it, w2) = Some sample_kv"
proof -
  have "run_cursor icmp [sample_kv] [First, Forth, Last] (length [sample_kv]) = Some 0 \<and> (\<forall>k. SeekTo k \<in> set [First, Forth, Last] \<longrightarrow> 8 \<le> length k)"
    by simp
  then show ?thesis using table_iterates [OF sample_written, of ReadOptions_new] unfolding Let_def by fastforce
qed

theorem table_lookups_witness:
  "\<exists>t w1 rs w2. Table_Open (Posix_RandomAccessFile (\<lambda>_. [])) ShardedLRU sample_world sample_options 0 (tb_FileSize sample_table) =
      Some (Status_OK, Some t, w1) \<and>
    InternalGets (Posix_RandomAccessFile (\<lambda>_. [])) ShardedLRU w1 t ReadOptions_new [InternalKey [97] 9 kTypeValue, InternalKey [97] 4 kTypeValue] =
      Some (rs, w2) \<and> map snd rs = [Some sample_kv, None]"
proof -
  let ?ks = "[InternalKey [97] 9 kTypeValue, InternalKey [97] 4 kTypeValue]"
  have a: "\<forall>k\<in>set ?ks. 8 \<le> length k" "opt_filter_policy sample_options = None \<or>
      opt_filter_policy sample_options = Some (InternalFilterPolicy (NewBloomFilterPolicy 10))" "length [sample_kv] * 10 < 2 ^ 64 - 7"
    by (simp_all add: Options_new_def)
  from table_lookups [OF sample_written a, of ReadOptions_new] obtain t w1 rs w2 where
    r: "Table_Open (Posix_RandomAccessFile (\<lambda>_. [])) ShardedLRU sample_world sample_options 0 (tb_FileSize sample_table) = Some (Status_OK, Some t, w1)"
    "InternalGets (Posix_RandomAccessFile (\<lambda>_. [])) ShardedLRU w1 t ReadOptions_new ?ks = Some (rs, w2)"
    "list_all2 (lookup_answer [sample_kv]) ?ks rs" by blast
  have c: "0 \<le> icmp (fst sample_kv) (InternalKey [97] 9 kTypeValue)" "\<not> 0 \<le> icmp (fst sample_kv) (InternalKey [97] 4 kTypeValue)"
    using icmp_InternalKey [of 5 9 "[97]" kTypeValue "[97]" kTypeValue] icmp_InternalKey [of 5 4 "[97]" kTypeValue "[97]" kTypeValue]
    by (simp_all add: IKC_Compare_less not_le kMaxSequenceNumber_def PackSequenceAndType_def IKC_Compare_num)
  then have "map snd rs = [Some sample_kv, None]" using r(3) by (auto simp: list_all2_Cons1 lookup_answer_def)
  with r(1,2) show ?thesis by (intro exI [of _ t] exI [of _ w1] exI [of _ rs] exI [of _ w2] conjI)
qed

theorem table_offsets_witness:
  "\<exists>t w1 off off'. Table_Open (Posix_RandomAccessFile (\<lambda>_. [])) ShardedLRU sample_world sample_options 0 (tb_FileSize sample_table) =
      Some (Status_OK, Some t, w1) \<and>
    ApproximateOffsetOf t (InternalKey [97] 5 kTypeValue) = Some off \<and> ApproximateOffsetOf t (InternalKey [98] 5 kTypeValue) = Some off' \<and>
    off \<le> off' \<and> off' \<le> tb_FileSize sample_table"
  by (rule table_offsets [OF sample_written]) (simp_all add: IKC_Compare_le)

end
