(* ===== verification/Merger.thy ===== *)
theory Merger
  imports Block_Reader
begin

text \<open>
  \<^verbatim>\<open>table/merger.cc\<close>: the iterator that merges several sorted iterators. The children are wrapped
  iterators of one class given by its methods; \<open>current\<close> is the index of the child it stands on.
  Over children that satisfy \<open>sorted_iterator\<close> and hold different keys, the merging iterator
  satisfies it for their merge, whatever mixture of moves and direction changes it makes.
\<close>

section \<open>The code\<close>

datatype Direction = kForward | kReverse

record 'it MergingIterator =
  mi_children :: "'it Wrapper list"
  mi_current :: "nat option"
  mi_direction :: Direction

definition MergingIterator_new :: "'it IteratorOps \<Rightarrow> 'it list \<Rightarrow> 'it MergingIterator" where
  "MergingIterator_new ops children =
     \<lparr>mi_children = map (\<lambda>it. Wrapper_new ops (Some it)) children, mi_current = None, mi_direction = kForward\<rparr>"

definition mi_Valid :: "'it MergingIterator \<Rightarrow> bool" where
  "mi_Valid m = (mi_current m \<noteq> None)"

definition smaller :: "(bytes \<Rightarrow> bytes \<Rightarrow> int) \<Rightarrow> 'it Wrapper list \<Rightarrow> nat option \<Rightarrow> nat \<Rightarrow> nat option" where
  "smaller cmp ws smallest i =
     (let child = ws ! i in
      if wr_valid child then
        case smallest of
          None \<Rightarrow> Some i
        | Some s \<Rightarrow> if cmp (wr_key child) (wr_key (ws ! s)) < 0 then Some i else smallest
      else smallest)"

definition FindSmallest :: "(bytes \<Rightarrow> bytes \<Rightarrow> int) \<Rightarrow> 'it Wrapper list \<Rightarrow> nat option" where
  "FindSmallest cmp ws = foldl (smaller cmp ws) None [0..<length ws]"

definition larger :: "(bytes \<Rightarrow> bytes \<Rightarrow> int) \<Rightarrow> 'it Wrapper list \<Rightarrow> nat option \<Rightarrow> nat \<Rightarrow> nat option" where
  "larger cmp ws largest i =
     (let child = ws ! i in
      if wr_valid child then
        case largest of
          None \<Rightarrow> Some i
        | Some s \<Rightarrow> if cmp (wr_key child) (wr_key (ws ! s)) > 0 then Some i else largest
      else largest)"

definition FindLargest :: "(bytes \<Rightarrow> bytes \<Rightarrow> int) \<Rightarrow> 'it Wrapper list \<Rightarrow> nat option" where
  "FindLargest cmp ws = foldl (larger cmp ws) None (rev [0..<length ws])"

definition mi_SeekToFirst :: "'it IteratorOps \<Rightarrow> (bytes \<Rightarrow> bytes \<Rightarrow> int) \<Rightarrow> 'it MergingIterator \<Rightarrow> 'it MergingIterator option" where
  "mi_SeekToFirst ops cmp m =
     map_option (\<lambda>ws. m\<lparr>mi_children := ws, mi_current := FindSmallest cmp ws, mi_direction := kForward\<rparr>)
       (those (map (wr_SeekToFirst ops) (mi_children m)))"

definition mi_SeekToLast :: "'it IteratorOps \<Rightarrow> (bytes \<Rightarrow> bytes \<Rightarrow> int) \<Rightarrow> 'it MergingIterator \<Rightarrow> 'it MergingIterator option" where
  "mi_SeekToLast ops cmp m =
     map_option (\<lambda>ws. m\<lparr>mi_children := ws, mi_current := FindLargest cmp ws, mi_direction := kReverse\<rparr>)
       (those (map (wr_SeekToLast ops) (mi_children m)))"

definition mi_Seek :: "'it IteratorOps \<Rightarrow> (bytes \<Rightarrow> bytes \<Rightarrow> int) \<Rightarrow> 'it MergingIterator \<Rightarrow> bytes \<Rightarrow> 'it MergingIterator option" where
  "mi_Seek ops cmp m target =
     map_option (\<lambda>ws. m\<lparr>mi_children := ws, mi_current := FindSmallest cmp ws, mi_direction := kForward\<rparr>)
       (those (map (\<lambda>w. wr_Seek ops w target) (mi_children m)))"

definition mi_key :: "'it MergingIterator \<Rightarrow> bytes" where
  "mi_key m = wr_key (mi_children m ! the (mi_current m))"

definition mi_value :: "'it IteratorOps \<Rightarrow> 'it MergingIterator \<Rightarrow> bytes" where
  "mi_value ops m = wr_value ops (mi_children m ! the (mi_current m))"

text \<open>When the direction changes, the other children move to the other side of the key.\<close>

definition put_after :: "'it IteratorOps \<Rightarrow> (bytes \<Rightarrow> bytes \<Rightarrow> int) \<Rightarrow> bytes \<Rightarrow> 'it Wrapper \<Rightarrow> 'it Wrapper option" where
  "put_after ops cmp key child =
     Option.bind (wr_Seek ops child key)
       (\<lambda>child. if wr_valid child \<and> cmp key (wr_key child) = 0 then wr_Next ops child else Some child)"

definition put_before :: "'it IteratorOps \<Rightarrow> bytes \<Rightarrow> 'it Wrapper \<Rightarrow> 'it Wrapper option" where
  "put_before ops key child =
     Option.bind (wr_Seek ops child key)
       (\<lambda>child. if wr_valid child then wr_Prev ops child else wr_SeekToLast ops child)"

definition others :: "('it Wrapper \<Rightarrow> 'it Wrapper option) \<Rightarrow> nat \<Rightarrow> 'it Wrapper list \<Rightarrow> 'it Wrapper list option" where
  "others step c ws = those (map (\<lambda>i. if i = c then Some (ws ! i) else step (ws ! i)) [0..<length ws])"

definition mi_Next :: "'it IteratorOps \<Rightarrow> (bytes \<Rightarrow> bytes \<Rightarrow> int) \<Rightarrow> 'it MergingIterator \<Rightarrow> 'it MergingIterator option" where
  "mi_Next ops cmp m =
     (case mi_current m of
        None \<Rightarrow> None
      | Some c \<Rightarrow>
          Option.bind
            (if mi_direction m \<noteq> kForward then others (put_after ops cmp (mi_key m)) c (mi_children m)
             else Some (mi_children m))
            (\<lambda>ws. map_option
               (\<lambda>w. let ws = ws[c := w]
                    in m\<lparr>mi_children := ws, mi_current := FindSmallest cmp ws, mi_direction := kForward\<rparr>)
               (wr_Next ops (ws ! c))))"

definition mi_Prev :: "'it IteratorOps \<Rightarrow> (bytes \<Rightarrow> bytes \<Rightarrow> int) \<Rightarrow> 'it MergingIterator \<Rightarrow> 'it MergingIterator option" where
  "mi_Prev ops cmp m =
     (case mi_current m of
        None \<Rightarrow> None
      | Some c \<Rightarrow>
          Option.bind
            (if mi_direction m \<noteq> kReverse then others (put_before ops (mi_key m)) c (mi_children m)
             else Some (mi_children m))
            (\<lambda>ws. map_option
               (\<lambda>w. let ws = ws[c := w]
                    in m\<lparr>mi_children := ws, mi_current := FindLargest cmp ws, mi_direction := kReverse\<rparr>)
               (wr_Prev ops (ws ! c))))"

fun first_bad :: "'it IteratorOps \<Rightarrow> 'it Wrapper list \<Rightarrow> status \<Rightarrow> status" where
  "first_bad ops [] status = status"
| "first_bad ops (w # ws) status =
     (let status = wr_status ops w in if \<not> ok status then status else first_bad ops ws status)"

definition mi_status :: "'it IteratorOps \<Rightarrow> 'it MergingIterator \<Rightarrow> status" where
  "mi_status ops m = first_bad ops (mi_children m) Status_OK"

definition Merging_Iter :: "'it IteratorOps \<Rightarrow> (bytes \<Rightarrow> bytes \<Rightarrow> int) \<Rightarrow> 'it MergingIterator IteratorOps" where
  "Merging_Iter ops cmp =
     \<lparr>itValid = mi_Valid, itSeekToFirst = mi_SeekToFirst ops cmp, itSeekToLast = mi_SeekToLast ops cmp,
      itSeek = mi_Seek ops cmp, itNext = mi_Next ops cmp, itPrev = mi_Prev ops cmp,
      itKey = mi_key, itValue = mi_value ops, itStatus = mi_status ops\<rparr>"

datatype 'it Merged = NoChild status | OneChild 'it | Children "'it MergingIterator"

definition NewMergingIterator :: "'it IteratorOps \<Rightarrow> 'it list \<Rightarrow> 'it Merged" where
  "NewMergingIterator ops children =
     (if length children = 0 then NoChild NewEmptyIterator
      else if length children = 1 then OneChild (children ! 0)
      else Children (MergingIterator_new ops children))"

section \<open>Scanning the children\<close>

text \<open>The child that is smallest (or largest) by a margin is found.\<close>

lemma foldl_pick:
  assumes "c \<in> set xs" "\<And>acc. acc = None \<or> acc = Some c \<or> (\<exists>a. acc = Some a \<and> P a) \<Longrightarrow> step acc c = Some c"
    and "\<And>i. i \<in> set xs \<Longrightarrow> i \<noteq> c \<Longrightarrow> step (Some c) i = Some c"
    and "\<And>i acc. i \<in> set xs \<Longrightarrow> i \<noteq> c \<Longrightarrow> acc = None \<or> (\<exists>a. acc = Some a \<and> P a) \<Longrightarrow>
      step acc i = None \<or> (\<exists>a. step acc i = Some a \<and> P a)"
    and "distinct xs"
  shows "foldl step None xs = Some c"
proof -
  obtain as bs where x: "xs = as @ c # bs" using assms(1) by (auto simp: in_set_conv_decomp)
  have c: "c \<notin> set as" "c \<notin> set bs" using assms(5) x by auto
  have keep: "set ys \<subseteq> set xs - {c} \<Longrightarrow> foldl step (Some c) ys = Some c" for ys
    using assms(3) by (induction ys) auto
  have good: "set ys \<subseteq> set xs - {c} \<Longrightarrow> a = None \<or> (\<exists>b. a = Some b \<and> P b) \<Longrightarrow>
      foldl step a ys = None \<or> (\<exists>b. foldl step a ys = Some b \<and> P b)" for ys a
  proof (induction ys arbitrary: a)
    case (Cons y ys)
    have "y \<in> set xs" "y \<noteq> c" using Cons.prems(1) by auto
    from assms(4) [OF this Cons.prems(2)] Cons.IH [of "step a y"] Cons.prems(1) show ?case by simp
  qed simp
  have s: "set as \<subseteq> set xs - {c}" "set bs \<subseteq> set xs - {c}" using c by (auto simp: x)
  have "step (foldl step None as) c = Some c" using good [OF s(1), of None] assms(2) by blast
  then show ?thesis using keep [OF s(2)] by (simp add: x)
qed

lemma foldl_none: "(\<And>i. i \<in> set xs \<Longrightarrow> step None i = None) \<Longrightarrow> foldl step None xs = None"
  by (induction xs) auto

lemma FindSmallest_picks:
  assumes "c < length ws" "wr_valid (ws ! c)"
    and "\<And>j. j < length ws \<Longrightarrow> wr_valid (ws ! j) \<Longrightarrow> j \<noteq> c \<Longrightarrow>
      cmp (wr_key (ws ! c)) (wr_key (ws ! j)) < 0 \<and> \<not> cmp (wr_key (ws ! j)) (wr_key (ws ! c)) < 0"
  shows "FindSmallest cmp ws = Some c"
  unfolding FindSmallest_def
  by (rule foldl_pick [where P = "\<lambda>a. a < length ws \<and> wr_valid (ws ! a) \<and> a \<noteq> c"])
    (use assms in \<open>auto simp: smaller_def Let_def split: option.splits\<close>)

lemma FindLargest_picks:
  assumes "c < length ws" "wr_valid (ws ! c)"
    and "\<And>j. j < length ws \<Longrightarrow> wr_valid (ws ! j) \<Longrightarrow> j \<noteq> c \<Longrightarrow>
      0 < cmp (wr_key (ws ! c)) (wr_key (ws ! j)) \<and> \<not> 0 < cmp (wr_key (ws ! j)) (wr_key (ws ! c))"
  shows "FindLargest cmp ws = Some c"
  unfolding FindLargest_def
  by (rule foldl_pick [where P = "\<lambda>a. a < length ws \<and> wr_valid (ws ! a) \<and> a \<noteq> c"])
    (use assms in \<open>auto simp: larger_def Let_def split: option.splits\<close>)

lemma Find_none:
  assumes "\<And>j. j < length ws \<Longrightarrow> \<not> wr_valid (ws ! j)"
  shows "FindSmallest cmp ws = None" "FindLargest cmp ws = None"
  using assms by (auto simp: FindSmallest_def FindLargest_def smaller_def larger_def intro!: foldl_none)

section \<open>A merge\<close>

text \<open>The merge is a list of pairs labelled with the child they come from.\<close>

type_synonym merge = "(nat \<times> bytes \<times> bytes) list"

definition child_kvs :: "merge \<Rightarrow> nat \<Rightarrow> (bytes \<times> bytes) list" where
  "child_kvs ms j = map snd (filter (\<lambda>p. fst p = j) ms)"

text \<open>How many entries of child \<open>j\<close> come before position \<open>i\<close> of the merge.\<close>

definition taken :: "merge \<Rightarrow> nat \<Rightarrow> nat \<Rightarrow> nat" where
  "taken ms i j = length (child_kvs (take i ms) j)"

text \<open>Where a child stands after a step back from there.\<close>

definition step_back :: "merge \<Rightarrow> nat \<Rightarrow> nat \<Rightarrow> nat" where
  "step_back ms i j = (if taken ms i j = 0 then length (child_kvs ms j) else taken ms i j - 1)"

lemma child_kvs_append [simp]: "child_kvs (a @ b) j = child_kvs a j @ child_kvs b j"
  by (simp add: child_kvs_def)

lemma taken_0 [simp]: "taken ms 0 j = 0"
  by (simp add: taken_def child_kvs_def)

lemma taken_all: "taken ms (length ms) j = length (child_kvs ms j)"
  by (simp add: taken_def)

lemma taken_Suc: "i < length ms \<Longrightarrow> taken ms (Suc i) j = (if fst (ms ! i) = j then taken ms i j + 1 else taken ms i j)"
  by (simp add: taken_def take_Suc_conv_app_nth child_kvs_def)

lemma taken_le: "taken ms i j \<le> length (child_kvs ms j)"
proof -
  have "child_kvs ms j = child_kvs (take i ms) j @ child_kvs (drop i ms) j" by (simp flip: child_kvs_append)
  then show ?thesis by (simp add: taken_def)
qed

lemma child_split:
  assumes "i < length ms"
  shows "child_kvs ms (fst (ms ! i)) ! taken ms i (fst (ms ! i)) = snd (ms ! i)"
    and "taken ms i (fst (ms ! i)) < length (child_kvs ms (fst (ms ! i)))"
proof -
  let ?j = "fst (ms ! i)"
  have "child_kvs ms ?j = child_kvs (take i ms @ ms ! i # drop (Suc i) ms) ?j" by (simp only: id_take_nth_drop [OF assms, symmetric])
  then have "child_kvs ms ?j = child_kvs (take i ms) ?j @ snd (ms ! i) # child_kvs (drop (Suc i) ms) ?j"
    by (simp add: child_kvs_def)
  then show "child_kvs ms ?j ! taken ms i ?j = snd (ms ! i)" "taken ms i ?j < length (child_kvs ms ?j)"
    by (simp_all add: taken_def nth_append)
qed

text \<open>An entry of a child at or after the cut comes at or after that position in the merge.\<close>

lemma taken_mono: "i \<le> i' \<Longrightarrow> taken ms i j \<le> taken ms i' j"
proof -
  assume "i \<le> i'"
  then have "take i' ms = take i ms @ drop i (take i' ms)" by (metis append_take_drop_id min_def take_take)
  then have "child_kvs (take i' ms) j = child_kvs (take i ms) j @ child_kvs (drop i (take i' ms)) j" by (metis child_kvs_append)
  then show ?thesis by (simp add: taken_def)
qed

lemma taken_nth:
  assumes "k < length (child_kvs ms j)"
  obtains l where "l < length ms" "fst (ms ! l) = j" "snd (ms ! l) = child_kvs ms j ! k" "taken ms l j = k"
    and "\<And>i. taken ms i j \<le> k \<Longrightarrow> i \<le> l" "\<And>i. k < taken ms i j \<Longrightarrow> l < i"
proof -
  have "k < taken ms (length ms) j" using assms by (simp add: taken_all)
  then obtain l where l: "l < length ms" "\<forall>i\<le>l. \<not> k < taken ms i j" "k < taken ms (Suc l) j"
    using ex_least_nat_less [of "\<lambda>i. k < taken ms i j" "length ms"] by auto
  have "taken ms l j \<le> k" using l(2) by auto
  with l(1,3) have j: "fst (ms ! l) = j" "taken ms l j = k" using taken_Suc [OF l(1), of j] by (auto split: if_splits)
  show thesis
  proof (rule that [OF l(1) j(1) _ j(2)])
    show "snd (ms ! l) = child_kvs ms j ! k" using child_split(1) [OF l(1)] j by simp
    show "i \<le> l" if "taken ms i j \<le> k" for i
    proof (rule ccontr)
      assume "\<not> i \<le> l"
      then have "taken ms (Suc l) j \<le> taken ms i j" by (intro taken_mono) simp
      with l(3) that show False by simp
    qed
    show "l < i" if "k < taken ms i j" for i using l(2) that by (meson not_le)
  qed
qed

lemma taken_takeWhile:
  assumes "\<And>a b. a < b \<Longrightarrow> b < length ms \<Longrightarrow> P (snd (ms ! b)) \<Longrightarrow> P (snd (ms ! a))"
  shows "taken ms (length (takeWhile P (map snd ms))) j = length (takeWhile P (child_kvs ms j))"
proof -
  let ?Q = "\<lambda>p. P (snd p)"
  let ?A = "takeWhile ?Q ms" and ?B = "dropWhile ?Q ms"
  let ?n = "length ?A"
  have n: "length (takeWhile P (map snd ms)) = ?n" by (simp add: takeWhile_map comp_def)
  have t: "take ?n ms = ?A" by (rule takeWhile_eq_take [symmetric])
  have A: "\<forall>p\<in>set ?A. ?Q p" by (auto dest: set_takeWhileD)
  have B: "\<forall>p\<in>set ?B. \<not> ?Q p"
  proof
    fix p assume "p \<in> set ?B"
    then have "p \<in> set (drop ?n ms)" by (simp add: dropWhile_eq_drop)
    then obtain k where k: "k < length ms - ?n" "p = ms ! (?n + k)" by (auto simp: in_set_conv_nth)
    have n': "?n < length ms" using k(1) by simp
    have nQ: "\<not> ?Q (ms ! ?n)" using n' by (rule nth_length_takeWhile)
    show "\<not> ?Q p"
    proof
      assume "?Q p"
      with nQ k have "0 < k" by (cases k) auto
      moreover have "?n + k < length ms" using k(1) by linarith
      ultimately show False using assms [of ?n "?n + k"] k(2) \<open>?Q p\<close> nQ by auto
    qed
  qed
  have part: "takeWhile P (child_kvs (as @ bs) j) = child_kvs as j"
    if "\<forall>p\<in>set as. P (snd p)" "\<forall>p\<in>set bs. \<not> P (snd p)" for as bs :: merge
    unfolding child_kvs_append by (rule while_split(1)) (use that in \<open>auto simp: child_kvs_def\<close>)
  have "takeWhile P (child_kvs ms j) = child_kvs ?A j" using part [OF A B] by simp
  then show ?thesis unfolding n taken_def t by simp
qed


lemma those_map:
  "(\<And>i. i < length xs \<Longrightarrow> \<exists>w. f (xs ! i) = Some w \<and> Q i w) \<Longrightarrow>
    \<exists>ys. those (map f xs) = Some ys \<and> length ys = length xs \<and> (\<forall>i<length xs. Q i (ys ! i))"
proof (induction xs arbitrary: Q)
  case (Cons x xs)
  obtain w where w: "f x = Some w" "Q 0 w" using Cons.prems [of 0] by auto
  have "\<exists>w. f (xs ! i) = Some w \<and> Q (Suc i) w" if "i < length xs" for i using Cons.prems [of "Suc i"] that by simp
  from Cons.IH [of "\<lambda>i. Q (Suc i)", OF this] obtain ys where
    ys: "those (map f xs) = Some ys" "length ys = length xs" "\<forall>i<length xs. Q (Suc i) (ys ! i)" by blast
  have "Q i ((w # ys) ! i)" if "i < Suc (length xs)" for i using w ys that by (cases i) auto
  then show ?case using w ys by (intro exI [of _ "w # ys"]) simp
qed simp

section \<open>The contract\<close>

definition merge_ok :: "(bytes \<Rightarrow> bool) \<Rightarrow> (bytes \<Rightarrow> bytes \<Rightarrow> int) \<Rightarrow> merge \<Rightarrow> nat \<Rightarrow> bool" where
  "merge_ok valid cmp ms n \<longleftrightarrow> (\<forall>p\<in>set ms. fst p < n \<and> valid (fst (snd p))) \<and>
     sorted_wrt (\<lambda>a b. cmp (fst (snd a)) (fst (snd b)) < 0) ms"

lemma merge_okD:
  assumes "merge_ok valid cmp ms n"
  shows "i < length ms \<Longrightarrow> fst (ms ! i) < n" "i < length ms \<Longrightarrow> valid (fst (snd (ms ! i)))"
    "i < j \<Longrightarrow> j < length ms \<Longrightarrow> cmp (fst (snd (ms ! i))) (fst (snd (ms ! j))) < 0"
  using assms by (auto simp: merge_ok_def sorted_wrt_iff_nth_less)

context sorted_iterator begin

text \<open>All children before the same position of the merge: the smallest is its entry there.\<close>

lemma all_at_taken:
  assumes ms: "merge_ok valid Compare ms (length ws)" and i: "i \<le> length ms"
    and w: "\<And>j. j < length ws \<Longrightarrow> wr_sits (ws ! j) (child_kvs ms j) (taken ms i j)"
  shows "FindSmallest Compare ws = (if i < length ms then Some (fst (ms ! i)) else None)"
proof (cases "i < length ms")
  case True
  note o = merge_okD [OF ms]
  let ?c = "fst (ms ! i)"
  have c: "?c < length ws" by (rule o(1) [OF True])
  have wc: "wr_valid (ws ! ?c)" "wr_key (ws ! ?c) = fst (snd (ms ! i))"
    using w [OF c] child_split [OF True] by (simp_all add: wr_sits_def)
  have "FindSmallest Compare ws = Some ?c"
  proof (rule FindSmallest_picks [OF c wc(1)])
    fix j assume j: "j < length ws" "wr_valid (ws ! j)" "j \<noteq> ?c"
    then have lt: "taken ms i j < length (child_kvs ms j)" and k: "wr_key (ws ! j) = fst (child_kvs ms j ! taken ms i j)"
      using w [OF j(1)] by (simp_all add: wr_sits_def)
    obtain l where l: "l < length ms" "fst (ms ! l) = j" "snd (ms ! l) = child_kvs ms j ! taken ms i j" "i \<le> l"
      by (rule taken_nth [OF lt]) blast
    have "i < l" using l(2,4) j(3) by (cases "i = l") auto
    then have "Compare (fst (snd (ms ! i))) (fst (snd (ms ! l))) < 0" using o(3) l(1) by blast
    then have lt: "Compare (wr_key (ws ! ?c)) (wr_key (ws ! j)) < 0" by (simp only: wc(2) k l(3))
    moreover have "valid (wr_key (ws ! ?c))" "valid (wr_key (ws ! j))" using o(2) [OF True] o(2) [OF l(1)] by (simp_all only: wc(2) k l(3))
    ultimately show "Compare (wr_key (ws ! ?c)) (wr_key (ws ! j)) < 0 \<and> \<not> Compare (wr_key (ws ! j)) (wr_key (ws ! ?c)) < 0"
      using antisym by (meson not_less_iff_gr_or_eq)
  qed
  then show ?thesis using True by simp
next
  case False
  then have "i = length ms" using i by simp
  then have "\<not> wr_valid (ws ! j)" if "j < length ws" for j using w [OF that] by (simp add: wr_sits_def taken_all)
  from Find_none(1) [OF this] show ?thesis using False by simp
qed

text \<open>All children one step back from there: the largest is the entry before.\<close>

lemma all_back:
  assumes ms: "merge_ok valid Compare ms (length ws)" and i: "i \<le> length ms"
    and w: "\<And>j. j < length ws \<Longrightarrow> wr_sits (ws ! j) (child_kvs ms j) (step_back ms i j)"
  shows "FindLargest Compare ws = (if 0 < i then Some (fst (ms ! (i - 1))) else None)"
proof (cases "0 < i")
  case True
  note o = merge_okD [OF ms]
  let ?i = "i - 1"
  let ?c = "fst (ms ! ?i)"
  have il: "?i < length ms" using True i by simp
  have c: "?c < length ws" by (rule o(1) [OF il])
  have "taken ms i ?c = taken ms ?i ?c + 1" using taken_Suc [OF il, of ?c] True by simp
  then have wc: "wr_valid (ws ! ?c)" "wr_key (ws ! ?c) = fst (snd (ms ! ?i))"
    using w [OF c] child_split [OF il] by (simp_all add: wr_sits_def step_back_def)
  have "FindLargest Compare ws = Some ?c"
  proof (rule FindLargest_picks [OF c wc(1)])
    fix j assume j: "j < length ws" "wr_valid (ws ! j)" "j \<noteq> ?c"
    have nz: "taken ms i j \<noteq> 0" using w [OF j(1)] j(2) by (auto simp: wr_sits_def step_back_def split: if_splits)
    then have lt: "taken ms i j - 1 < length (child_kvs ms j)" using taken_le [of ms i j] by simp
    have k: "wr_key (ws ! j) = fst (child_kvs ms j ! (taken ms i j - 1))"
      using w [OF j(1)] lt nz by (simp add: wr_sits_def step_back_def)
    obtain l where l: "l < length ms" "fst (ms ! l) = j" "snd (ms ! l) = child_kvs ms j ! (taken ms i j - 1)"
      "taken ms i j - 1 < taken ms i j \<Longrightarrow> l < i" by (rule taken_nth [OF lt]) blast
    have "l < i" using l(4) nz by simp
    moreover have "l \<noteq> ?i" using l(2) j(3) by auto
    ultimately have "l < ?i" by simp
    then have "Compare (fst (snd (ms ! l))) (fst (snd (ms ! ?i))) < 0" using o(3) il by blast
    then have lt: "Compare (wr_key (ws ! j)) (wr_key (ws ! ?c)) < 0" by (simp only: wc(2) k l(3))
    moreover have "valid (wr_key (ws ! ?c))" "valid (wr_key (ws ! j))" using o(2) [OF il] o(2) [OF l(1)] by (simp_all only: wc(2) k l(3))
    ultimately show "0 < Compare (wr_key (ws ! ?c)) (wr_key (ws ! j)) \<and> \<not> 0 < Compare (wr_key (ws ! j)) (wr_key (ws ! ?c))"
      using antisym by (meson not_less_iff_gr_or_eq)
  qed
  then show ?thesis using True by simp
next
  case False
  then have "\<not> wr_valid (ws ! j)" if "j < length ws" for j using w [OF that] by (simp add: wr_sits_def step_back_def)
  from Find_none(2) [OF this] show ?thesis using False by simp
qed

text \<open>Where the merging iterator stands.\<close>

definition merge_sits :: "'it MergingIterator \<Rightarrow> (bytes \<times> bytes) list \<Rightarrow> nat \<Rightarrow> bool" where
  "merge_sits m kvs i \<longleftrightarrow> (\<exists>ms. kvs = map snd ms \<and> merge_ok valid Compare ms (length (mi_children m)) \<and> i \<le> length ms \<and>
     mi_current m = (if i < length ms then Some (fst (ms ! i)) else None) \<and>
     (\<forall>j<length (mi_children m). \<exists>p. wr_sits (mi_children m ! j) (child_kvs ms j) p \<and>
        (i < length ms \<longrightarrow> p = (if mi_direction m = kForward \<or> j = fst (ms ! i) then taken ms i j else step_back ms i j))))"

lemma forward_sits:
  assumes "merge_ok valid Compare ms (length ws)" "i \<le> length ms"
    and "\<And>j. j < length ws \<Longrightarrow> wr_sits (ws ! j) (child_kvs ms j) (taken ms i j)"
  shows "merge_sits (m\<lparr>mi_children := ws, mi_current := FindSmallest Compare ws, mi_direction := kForward\<rparr>) (map snd ms) i"
  unfolding merge_sits_def using assms all_at_taken [OF assms] by (intro exI [of _ ms]) auto

lemma backward_sits:
  assumes "merge_ok valid Compare ms (length ws)" "i \<le> length ms"
    and "\<And>j. j < length ws \<Longrightarrow> wr_sits (ws ! j) (child_kvs ms j) (step_back ms i j)"
  shows "merge_sits (m\<lparr>mi_children := ws, mi_current := FindLargest Compare ws, mi_direction := kReverse\<rparr>) (map snd ms)
    (if i = 0 then length ms else i - 1)"
proof (cases "i = 0")
  case True
  then show ?thesis
    unfolding merge_sits_def using assms all_back [OF assms] by (intro exI [of _ ms]) auto
next
  case False
  then have i: "i - 1 < length ms" "Suc (i - 1) = i" using assms(2) by simp_all
  have "step_back ms i j = (if j = fst (ms ! (i - 1)) then taken ms (i - 1) j else step_back ms (i - 1) j)" for j
    using taken_Suc [OF i(1), of j] i(2) by (auto simp: step_back_def)
  then show ?thesis
    unfolding merge_sits_def using assms all_back [OF assms] False by (intro exI [of _ ms]) auto
qed

lemma merge_SeekToFirst: "merge_sits m kvs i \<Longrightarrow> \<exists>m'. mi_SeekToFirst ops Compare m = Some m' \<and> merge_sits m' kvs 0"
proof -
  assume "merge_sits m kvs i"
  then obtain ms where ms: "kvs = map snd ms" "merge_ok valid Compare ms (length (mi_children m))"
    "\<And>j. j < length (mi_children m) \<Longrightarrow> \<exists>p. wr_sits (mi_children m ! j) (child_kvs ms j) p" unfolding merge_sits_def by blast
  have "\<exists>w. wr_SeekToFirst ops (mi_children m ! j) = Some w \<and> wr_sits w (child_kvs ms j) 0" if "j < length (mi_children m)" for j
    using ms(3) [OF that] wr_moves(1) by blast
  from those_map [of _ _ "\<lambda>j w. wr_sits w (child_kvs ms j) 0", OF this] obtain ws where
    ws: "those (map (wr_SeekToFirst ops) (mi_children m)) = Some ws" "length ws = length (mi_children m)"
      "\<And>j. j < length ws \<Longrightarrow> wr_sits (ws ! j) (child_kvs ms j) (taken ms 0 j)" by auto
  have "merge_sits (m\<lparr>mi_children := ws, mi_current := FindSmallest Compare ws, mi_direction := kForward\<rparr>) kvs 0"
    unfolding ms(1) by (rule forward_sits) (use ms(2) ws in simp_all)
  then show ?thesis by (simp add: mi_SeekToFirst_def ws(1))
qed

lemma merge_SeekToLast: "merge_sits m kvs i \<Longrightarrow> \<exists>m'. mi_SeekToLast ops Compare m = Some m' \<and> merge_sits m' kvs (length kvs - 1)"
proof -
  assume "merge_sits m kvs i"
  then obtain ms where ms: "kvs = map snd ms" "merge_ok valid Compare ms (length (mi_children m))"
    "\<And>j. j < length (mi_children m) \<Longrightarrow> \<exists>p. wr_sits (mi_children m ! j) (child_kvs ms j) p" unfolding merge_sits_def by blast
  have b: "step_back ms (length ms) j = length (child_kvs ms j) - 1" for j by (simp add: step_back_def taken_all)
  have "\<exists>w. wr_SeekToLast ops (mi_children m ! j) = Some w \<and> wr_sits w (child_kvs ms j) (length (child_kvs ms j) - 1)"
    if "j < length (mi_children m)" for j using ms(3) [OF that] wr_moves(2) by blast
  from those_map [of _ _ "\<lambda>j w. wr_sits w (child_kvs ms j) (length (child_kvs ms j) - 1)", OF this] obtain ws where
    ws: "those (map (wr_SeekToLast ops) (mi_children m)) = Some ws" "length ws = length (mi_children m)"
      "\<And>j. j < length ws \<Longrightarrow> wr_sits (ws ! j) (child_kvs ms j) (step_back ms (length ms) j)" by (auto simp: b)
  have "merge_sits (m\<lparr>mi_children := ws, mi_current := FindLargest Compare ws, mi_direction := kReverse\<rparr>) (map snd ms)
      (if length ms = 0 then length ms else length ms - 1)"
    by (rule backward_sits) (use ms(2) ws in simp_all)
  then show ?thesis by (simp add: mi_SeekToLast_def ws(1) ms(1) split: if_splits)
qed

lemma below_target:
  assumes ms: "merge_ok valid Compare ms n" and t: "valid t"
  shows "taken ms (length (takeWhile (\<lambda>kv. Compare (fst kv) t < 0) (map snd ms))) j =
    length (takeWhile (\<lambda>kv. Compare (fst kv) t < 0) (child_kvs ms j))"
proof (rule taken_takeWhile)
  fix a b assume ab: "a < b" "b < length ms" "Compare (fst (snd (ms ! b))) t < 0"
  note o = merge_okD [OF ms]
  have "Compare (fst (snd (ms ! a))) (fst (snd (ms ! b))) < 0" using o(3) ab by blast
  moreover have "valid (fst (snd (ms ! a)))" "valid (fst (snd (ms ! b)))" using o(2) ab by simp_all
  ultimately show "Compare (fst (snd (ms ! a))) t < 0" using less_trans [of _ "fst (snd (ms ! b))" t] t ab(3) by auto
qed

lemma merge_Seek:
  assumes "merge_sits m kvs i" "valid t"
  shows "\<exists>m'. mi_Seek ops Compare m t = Some m' \<and> merge_sits m' kvs (length (takeWhile (\<lambda>kv. Compare (fst kv) t < 0) kvs))"
proof -
  let ?P = "\<lambda>kv. Compare (fst kv) t < 0"
  from assms(1) obtain ms where ms: "kvs = map snd ms" "merge_ok valid Compare ms (length (mi_children m))"
    "\<And>j. j < length (mi_children m) \<Longrightarrow> \<exists>p. wr_sits (mi_children m ! j) (child_kvs ms j) p" unfolding merge_sits_def by blast
  have "\<exists>w. wr_Seek ops (mi_children m ! j) t = Some w \<and> wr_sits w (child_kvs ms j) (length (takeWhile ?P (child_kvs ms j)))"
    if "j < length (mi_children m)" for j using ms(3) [OF that] wr_moves(3) assms(2) by blast
  from those_map [of _ _ "\<lambda>j w. wr_sits w (child_kvs ms j) (length (takeWhile ?P (child_kvs ms j)))", OF this] obtain ws where
    ws: "those (map (\<lambda>w. wr_Seek ops w t) (mi_children m)) = Some ws" "length ws = length (mi_children m)"
      "\<And>j. j < length ws \<Longrightarrow> wr_sits (ws ! j) (child_kvs ms j) (taken ms (length (takeWhile ?P (map snd ms))) j)"
    by (auto simp: below_target [OF ms(2) assms(2)])
  have "length (takeWhile ?P (map snd ms)) \<le> length ms" by (metis length_map length_takeWhile_le)
  then have "merge_sits (m\<lparr>mi_children := ws, mi_current := FindSmallest Compare ws, mi_direction := kForward\<rparr>)
      (map snd ms) (length (takeWhile ?P (map snd ms)))"
    by (intro forward_sits) (use ms(2) ws in simp_all)
  then show ?thesis by (simp add: mi_Seek_def ws(1) ms(1))
qed

lemma others_map:
  assumes "c < length ws" "Q c (ws ! c)" "\<And>j. j < length ws \<Longrightarrow> j \<noteq> c \<Longrightarrow> \<exists>w. step (ws ! j) = Some w \<and> Q j w"
  shows "\<exists>ys. others step c ws = Some ys \<and> length ys = length ws \<and> (\<forall>j<length ys. Q j (ys ! j))"
proof -
  have "\<exists>w. (\<lambda>i. if i = c then Some (ws ! i) else step (ws ! i)) ([0..<length ws] ! i) = Some w \<and> Q i w"
    if "i < length [0..<length ws]" for i using assms that by auto
  from those_map [of "[0..<length ws]" "\<lambda>i. if i = c then Some (ws ! i) else step (ws ! i)" Q, OF this]
  show ?thesis by (auto simp: others_def)
qed

lemma below_entry:
  assumes ms: "merge_ok valid Compare ms n" and i: "i < length ms"
  shows "length (takeWhile (\<lambda>kv. Compare (fst kv) (fst (snd (ms ! i))) < 0) (map snd ms)) = i"
proof -
  let ?P = "\<lambda>kv. Compare (fst kv) (fst (snd (ms ! i))) < 0"
  note o = merge_okD [OF ms]
  have "?P x" if "x \<in> set (take i (map snd ms))" for x
  proof -
    note mem = that
    obtain k where "k < length (take i (map snd ms))" "take i (map snd ms) ! k = x"
      using mem unfolding in_set_conv_nth by blast
    then have k: "k < i" "x = snd (ms ! k)" using i by simp_all
    show ?thesis using o(3) [OF k(1) i] by (simp add: k(2))
  qed
  moreover have "drop i (map snd ms) = snd (ms ! i) # drop (Suc i) (map snd ms)" using i by (simp add: Cons_nth_drop_Suc [symmetric] drop_map)
  moreover have "\<not> ?P (snd (ms ! i))" using refl [OF o(2) [OF i]] by simp
  ultimately have "takeWhile ?P (take i (map snd ms) @ drop i (map snd ms)) = take i (map snd ms)"
    by (subst takeWhile_append2) auto
  then show ?thesis using i by simp
qed

lemma seek_entry:
  assumes ms: "merge_ok valid Compare ms n" and i: "i < length ms" and w: "wr_sits w (child_kvs ms j) p"
  shows "\<exists>w'. wr_Seek ops w (fst (snd (ms ! i))) = Some w' \<and> wr_sits w' (child_kvs ms j) (taken ms i j)"
  using wr_moves(3) [OF w merge_okD(2) [OF ms i]] below_target [OF ms merge_okD(2) [OF ms i], of j] below_entry [OF ms i] by simp

lemma put_after_sits:
  assumes ms: "merge_ok valid Compare ms n" and i: "i < length ms" and w: "wr_sits w (child_kvs ms j) p" and j: "j \<noteq> fst (ms ! i)"
  shows "\<exists>w'. put_after ops Compare (fst (snd (ms ! i))) w = Some w' \<and> wr_sits w' (child_kvs ms j) (taken ms i j)"
proof -
  obtain w' where w': "wr_Seek ops w (fst (snd (ms ! i))) = Some w'" "wr_sits w' (child_kvs ms j) (taken ms i j)"
    using seek_entry [OF ms i w] by blast
  have "Compare (fst (snd (ms ! i))) (wr_key w') \<noteq> 0" if "wr_valid w'"
  proof -
    have lt: "taken ms i j < length (child_kvs ms j)" and k: "wr_key w' = fst (child_kvs ms j ! taken ms i j)"
      using w'(2) that by (simp_all add: wr_sits_def)
    obtain l where l: "l < length ms" "fst (ms ! l) = j" "snd (ms ! l) = child_kvs ms j ! taken ms i j" "i \<le> l"
      by (rule taken_nth [OF lt]) blast
    have "i < l" using l(2,4) j by (cases "i = l") auto
    from merge_okD(3) [OF ms this l(1)] show ?thesis by (simp add: k l(3))
  qed
  then show ?thesis using w' by (auto simp: put_after_def)
qed

lemma put_before_sits:
  assumes ms: "merge_ok valid Compare ms n" and i: "i < length ms" and w: "wr_sits w (child_kvs ms j) p"
  shows "\<exists>w'. put_before ops (fst (snd (ms ! i))) w = Some w' \<and> wr_sits w' (child_kvs ms j) (step_back ms i j)"
proof -
  obtain w' where w': "wr_Seek ops w (fst (snd (ms ! i))) = Some w'" "wr_sits w' (child_kvs ms j) (taken ms i j)"
    using seek_entry [OF ms i w] by blast
  show ?thesis
  proof (cases "wr_valid w'")
    case True
    then have "taken ms i j < length (child_kvs ms j)" using w'(2) by (simp add: wr_sits_def)
    from wr_moves(5) [OF w'(2) this] show ?thesis using w'(1) True by (simp add: put_before_def step_back_def)
  next
    case False
    then have "taken ms i j = length (child_kvs ms j)" using w'(2) taken_le [of ms i j] by (simp add: wr_sits_def)
    then have "step_back ms i j = length (child_kvs ms j) - 1" by (simp add: step_back_def)
    with wr_moves(2) [OF w'(2)] show ?thesis using w'(1) False by (simp add: put_before_def)
  qed
qed

lemma merge_sitsD:
  assumes "merge_sits m kvs i" "i < length kvs"
  obtains ms where "kvs = map snd ms" "merge_ok valid Compare ms (length (mi_children m))" "i < length ms"
    "mi_current m = Some (fst (ms ! i))" "fst (ms ! i) < length (mi_children m)"
    "\<And>j. j < length (mi_children m) \<Longrightarrow> wr_sits (mi_children m ! j) (child_kvs ms j)
       (if mi_direction m = kForward \<or> j = fst (ms ! i) then taken ms i j else step_back ms i j)"
proof -
  let ?p = "\<lambda>ms j. if mi_direction m = kForward \<or> j = fst (ms ! i) then taken ms i j else step_back ms i j"
  from assms(1) obtain ms where m0: "kvs = map snd ms" "merge_ok valid Compare ms (length (mi_children m))"
    "mi_current m = (if i < length ms then Some (fst (ms ! i)) else None)"
    "\<forall>j<length (mi_children m). \<exists>p. wr_sits (mi_children m ! j) (child_kvs ms j) p \<and> (i < length ms \<longrightarrow> p = ?p ms j)"
    unfolding merge_sits_def by blast
  have i: "i < length ms" using assms(2) m0(1) by simp
  have ms: "kvs = map snd ms" "merge_ok valid Compare ms (length (mi_children m))" "i < length ms"
    "mi_current m = Some (fst (ms ! i))"
    "\<And>j. j < length (mi_children m) \<Longrightarrow> wr_sits (mi_children m ! j) (child_kvs ms j) (?p ms j)"
    using m0 i by auto
  from that [OF ms(1-4) merge_okD(1) [OF ms(2,3)] ms(5)] show thesis .
qed

lemma mi_key_sits:
  assumes "merge_sits m kvs i" "i < length kvs"
  shows "mi_key m = fst (kvs ! i)" and "mi_value ops m = snd (kvs ! i)"
proof -
  obtain ms where ms: "kvs = map snd ms" "merge_ok valid Compare ms (length (mi_children m))" "i < length ms"
    "mi_current m = Some (fst (ms ! i))" "fst (ms ! i) < length (mi_children m)"
    "\<And>j. j < length (mi_children m) \<Longrightarrow> wr_sits (mi_children m ! j) (child_kvs ms j)
       (if mi_direction m = kForward \<or> j = fst (ms ! i) then taken ms i j else step_back ms i j)"
    by (rule merge_sitsD [OF assms]) blast
  have w: "wr_sits (mi_children m ! fst (ms ! i)) (child_kvs ms (fst (ms ! i))) (taken ms i (fst (ms ! i)))"
    using ms(6) [OF ms(5)] by simp
  note c = child_split [OF ms(3)]
  show "mi_key m = fst (kvs ! i)" using w c ms(1,3,4) by (simp add: mi_key_def wr_sits_def)
  obtain it where it: "wr_iter (mi_children m ! fst (ms ! i)) = Some it"
    "sits it (child_kvs ms (fst (ms ! i))) (taken ms i (fst (ms ! i)))" using w by (auto simp: wr_sits_def)
  show "mi_value ops m = snd (kvs ! i)"
    using sits_entry [OF it(2) c(2)] it(1) c(1) ms(1,3,4) by (simp add: mi_value_def wr_value_def) (metis snd_conv)
qed

lemma merge_Next:
  assumes "merge_sits m kvs i" "i < length kvs"
  shows "\<exists>m'. mi_Next ops Compare m = Some m' \<and> merge_sits m' kvs (Suc i)"
proof -
  obtain ms where ms: "kvs = map snd ms" "merge_ok valid Compare ms (length (mi_children m))" "i < length ms"
    "mi_current m = Some (fst (ms ! i))" "fst (ms ! i) < length (mi_children m)"
    "\<And>j. j < length (mi_children m) \<Longrightarrow> wr_sits (mi_children m ! j) (child_kvs ms j)
       (if mi_direction m = kForward \<or> j = fst (ms ! i) then taken ms i j else step_back ms i j)"
    by (rule merge_sitsD [OF assms]) blast
  let ?c = "fst (ms ! i)"
  have key: "mi_key m = fst (snd (ms ! i))" using mi_key_sits(1) [OF assms] ms(1,3) by simp
  have "\<exists>ws. (if mi_direction m \<noteq> kForward then others (put_after ops Compare (mi_key m)) ?c (mi_children m)
      else Some (mi_children m)) = Some ws \<and> length ws = length (mi_children m) \<and>
      (\<forall>j<length ws. wr_sits (ws ! j) (child_kvs ms j) (taken ms i j))"
  proof (cases "mi_direction m = kForward")
    case True
    then show ?thesis using ms(6) by auto
  next
    case False
    have "\<exists>ws. others (put_after ops Compare (fst (snd (ms ! i)))) ?c (mi_children m) = Some ws \<and>
      length ws = length (mi_children m) \<and> (\<forall>j<length ws. wr_sits (ws ! j) (child_kvs ms j) (taken ms i j))"
    proof (rule others_map [OF ms(5), of "\<lambda>j w. wr_sits w (child_kvs ms j) (taken ms i j)" "put_after ops Compare (fst (snd (ms ! i)))"])
      show "wr_sits (mi_children m ! ?c) (child_kvs ms ?c) (taken ms i ?c)" using ms(6) [OF ms(5)] by simp
      show "\<exists>w. put_after ops Compare (fst (snd (ms ! i))) (mi_children m ! j) = Some w \<and> wr_sits w (child_kvs ms j) (taken ms i j)"
        if "j < length (mi_children m)" "j \<noteq> ?c" for j by (rule put_after_sits [OF ms(2,3) ms(6) [OF that(1)] that(2)])
    qed
    then show ?thesis using False key by auto
  qed
  then obtain ws where ws: "(if mi_direction m \<noteq> kForward then others (put_after ops Compare (mi_key m)) ?c (mi_children m)
      else Some (mi_children m)) = Some ws" "length ws = length (mi_children m)"
    "\<And>j. j < length ws \<Longrightarrow> wr_sits (ws ! j) (child_kvs ms j) (taken ms i j)" by blast
  have c: "?c < length ws" using ms(5) ws(2) by simp
  obtain w where w: "wr_Next ops (ws ! ?c) = Some w" "wr_sits w (child_kvs ms ?c) (Suc (taken ms i ?c))"
    using wr_moves(4) [OF ws(3) [OF c] child_split(2) [OF ms(3)]] by blast
  have "merge_sits (m\<lparr>mi_children := ws[?c := w], mi_current := FindSmallest Compare (ws[?c := w]), mi_direction := kForward\<rparr>)
      (map snd ms) (Suc i)"
    by (rule forward_sits) (use ms(2,3) ws(2,3) w(2) taken_Suc [OF ms(3)] in \<open>auto simp: nth_list_update\<close>)
  then show ?thesis using ms(1,4) ws(1) w(1) by (simp add: mi_Next_def Let_def)
qed

lemma merge_Prev:
  assumes "merge_sits m kvs i" "i < length kvs"
  shows "\<exists>m'. mi_Prev ops Compare m = Some m' \<and> merge_sits m' kvs (if i = 0 then length kvs else i - 1)"
proof -
  obtain ms where ms: "kvs = map snd ms" "merge_ok valid Compare ms (length (mi_children m))" "i < length ms"
    "mi_current m = Some (fst (ms ! i))" "fst (ms ! i) < length (mi_children m)"
    "\<And>j. j < length (mi_children m) \<Longrightarrow> wr_sits (mi_children m ! j) (child_kvs ms j)
       (if mi_direction m = kForward \<or> j = fst (ms ! i) then taken ms i j else step_back ms i j)"
    by (rule merge_sitsD [OF assms]) blast
  let ?c = "fst (ms ! i)"
  let ?pos = "\<lambda>j. if j = ?c then taken ms i j else step_back ms i j"
  have key: "mi_key m = fst (snd (ms ! i))" using mi_key_sits(1) [OF assms] ms(1,3) by simp
  have "\<exists>ws. (if mi_direction m \<noteq> kReverse then others (put_before ops (mi_key m)) ?c (mi_children m)
      else Some (mi_children m)) = Some ws \<and> length ws = length (mi_children m) \<and>
      (\<forall>j<length ws. wr_sits (ws ! j) (child_kvs ms j) (?pos j))"
  proof (cases "mi_direction m = kReverse")
    case True
    then show ?thesis using ms(6) by auto
  next
    case False
    have "\<exists>ws. others (put_before ops (fst (snd (ms ! i)))) ?c (mi_children m) = Some ws \<and>
      length ws = length (mi_children m) \<and> (\<forall>j<length ws. wr_sits (ws ! j) (child_kvs ms j) (?pos j))"
    proof (rule others_map [OF ms(5), of "\<lambda>j w. wr_sits w (child_kvs ms j) (?pos j)" "put_before ops (fst (snd (ms ! i)))"])
      show "wr_sits (mi_children m ! ?c) (child_kvs ms ?c) (?pos ?c)" using ms(6) [OF ms(5)] by simp
      show "\<exists>w. put_before ops (fst (snd (ms ! i))) (mi_children m ! j) = Some w \<and> wr_sits w (child_kvs ms j) (?pos j)"
        if "j < length (mi_children m)" "j \<noteq> ?c" for j using put_before_sits [OF ms(2,3) ms(6) [OF that(1)]] that(2) by simp
    qed
    then show ?thesis using False key by auto
  qed
  then obtain ws where ws: "(if mi_direction m \<noteq> kReverse then others (put_before ops (mi_key m)) ?c (mi_children m)
      else Some (mi_children m)) = Some ws" "length ws = length (mi_children m)"
    "\<And>j. j < length ws \<Longrightarrow> wr_sits (ws ! j) (child_kvs ms j) (?pos j)" by blast
  have c: "?c < length ws" using ms(5) ws(2) by simp
  have "wr_sits (ws ! ?c) (child_kvs ms ?c) (taken ms i ?c)" using ws(3) [OF c] by simp
  from wr_moves(5) [OF this child_split(2) [OF ms(3)]] obtain w where
    w: "wr_Prev ops (ws ! ?c) = Some w" "wr_sits w (child_kvs ms ?c) (step_back ms i ?c)" unfolding step_back_def by blast
  have "merge_sits (m\<lparr>mi_children := ws[?c := w], mi_current := FindLargest Compare (ws[?c := w]), mi_direction := kReverse\<rparr>)
      (map snd ms) (if i = 0 then length ms else i - 1)"
  proof (rule backward_sits)
    show "wr_sits (ws[?c := w] ! j) (child_kvs ms j) (step_back ms i j)" if "j < length (ws[?c := w])" for j
      using that ws(3) [of j] w(2) by (cases "j = ?c") auto
  qed (use ms(2,3) ws(2) in simp_all)
  moreover have "mi_Prev ops Compare m =
      Some (m\<lparr>mi_children := ws[?c := w], mi_current := FindLargest Compare (ws[?c := w]), mi_direction := kReverse\<rparr>)"
    by (simp add: mi_Prev_def Let_def ms(4) ws(1) w(1))
  ultimately show ?thesis unfolding ms(1) length_map by blast
qed

lemma first_bad_ok: "(\<And>w. w \<in> set ws \<Longrightarrow> ok (wr_status ops w)) \<Longrightarrow> ok s \<Longrightarrow> ok (first_bad ops ws s)"
  by (induction ws arbitrary: s) (auto simp: Let_def)

text \<open>The merging iterator keeps the contract of its children.\<close>

lemma merging_sorted_iterator: "sorted_iterator valid Compare (Merging_Iter ops Compare) merge_sits"
proof (unfold_locales, goal_cases)
  case (1 m kvs i)
  then show ?case by (fastforce simp: merge_sits_def merge_ok_def sorted_wrt_map)
next
  case (2 m kvs i)
  have "ok (wr_status ops w)" if "w \<in> set (mi_children m)" for w
  proof -
    obtain j where "j < length (mi_children m)" "mi_children m ! j = w" using \<open>w \<in> set (mi_children m)\<close> by (auto simp: in_set_conv_nth)
    then obtain kvs' p where "wr_sits w kvs' p" using 2 unfolding merge_sits_def by blast
    then show ?thesis using sits_valid by (auto simp: wr_sits_def wr_status_def)
  qed
  then have "ok (mi_status ops m)" unfolding mi_status_def by (rule first_bad_ok) (simp_all add: ok_def Status_OK_def)
  with 2 show ?case by (auto simp: Merging_Iter_def merge_sits_def mi_Valid_def split: if_splits)
next
  case (3 m kvs i)
  then show ?case by (simp add: Merging_Iter_def mi_key_sits)
qed (unfold Merging_Iter_def IteratorOps.simps,
  (rule merge_SeekToFirst merge_SeekToLast merge_Seek merge_Next merge_Prev; assumption)+)

lemma MergingIterator_new_sits:
  assumes "merge_ok valid Compare ms (length its)" "\<And>j. j < length its \<Longrightarrow> \<exists>p. sits (its ! j) (child_kvs ms j) p"
  shows "merge_sits (MergingIterator_new ops its) (map snd ms) (length ms)"
  unfolding merge_sits_def
  by (intro exI [of _ ms]) (use assms in \<open>auto simp: MergingIterator_new_def intro: Wrapper_new_sits\<close>)

end

interpretation merged_blocks: sorted_iterator "\<lambda>k. 8 \<le> length k" icmp "Merging_Iter (Block_Iter icmp) icmp" internal_block.merge_sits
  by (rule internal_block.merging_sorted_iterator)

text \<open>Opening the iterators of the blocks.\<close>

lemma merged_block_sits:
  assumes "merge_ok (\<lambda>k. 8 \<le> length k) icmp ms (length its)" and "0 < interval"
    and "\<forall>j<length its. length (build_block interval (child_kvs ms j)) < 2 ^ 32 \<and>
      Block_NewIterator (Block_new (build_block interval (child_kvs ms j))) = Positioned (its ! j)"
  shows "internal_block.merge_sits (MergingIterator_new (Block_Iter icmp) its) (map snd ms) (length ms)"
proof (rule internal_block.MergingIterator_new_sits [OF assms(1)])
  fix j assume j: "j < length its"
  have "sorted_wrt (\<lambda>a b. icmp (fst a) (fst b) < 0) (child_kvs ms j)"
    using assms(1) by (auto simp: merge_ok_def child_kvs_def sorted_wrt_map intro: sorted_wrt_filter)
  moreover have "\<forall>kv\<in>set (child_kvs ms j). 8 \<le> length (fst kv)" using assms(1) by (fastforce simp: merge_ok_def child_kvs_def)
  ultimately have "sorted_keys (\<lambda>k. 8 \<le> length k) icmp (child_kvs ms j)" by (simp add: sorted_keys_def)
  from internal.built_block_sits [OF assms(2) _ this] assms(3) j
  show "\<exists>p. internal.bi_sits (its ! j) (child_kvs ms j) p" by (metis BlockIterator.inject(2))
qed

section \<open>Properties\<close>

text \<open>C11. Merging blocks of internal keys: after any sequence of seeks, steps forward and steps back, in
  any order, the merging iterator shows the entry that a cursor on the sorted merge of the blocks
  stands on, every move returns, and the status is good.\<close>

theorem merge_follows_cursor:
  assumes "2 \<le> length its" and "merge_ok (\<lambda>k. 8 \<le> length k) icmp ms (length its)" and "0 < interval"
    and "\<forall>j<length its. length (build_block interval (child_kvs ms j)) < 2 ^ 32 \<and>
      Block_NewIterator (Block_new (build_block interval (child_kvs ms j))) = Positioned (its ! j)"
    and "run_cursor icmp (map snd ms) mvs (length ms) = Some i" and "\<forall>t. SeekTo t \<in> set mvs \<longrightarrow> 8 \<le> length t"
  shows "\<exists>m m'. NewMergingIterator (Block_Iter icmp) its = Children m \<and>
    run_moves (Merging_Iter (Block_Iter icmp) icmp) mvs m = Some m' \<and> ok (mi_status (Block_Iter icmp) m') \<and>
    seen (Merging_Iter (Block_Iter icmp) icmp) m' = (if i < length ms then Some (snd (ms ! i)) else None)"
proof -
  have "internal_block.merge_sits (MergingIterator_new (Block_Iter icmp) its) (map snd ms) (length ms)"
    by (rule merged_block_sits [OF assms(2-4)])
  from merged_blocks.moves_follow [OF this assms(5)] assms(6)
  obtain m' where "run_moves (Merging_Iter (Block_Iter icmp) icmp) mvs (MergingIterator_new (Block_Iter icmp) its) = Some m'"
    "ok (itStatus (Merging_Iter (Block_Iter icmp) icmp) m')"
    "seen (Merging_Iter (Block_Iter icmp) icmp) m' = (if i < length (map snd ms) then Some (map snd ms ! i) else None)" by blast
  moreover have "NewMergingIterator (Block_Iter icmp) its = Children (MergingIterator_new (Block_Iter icmp) its)"
    using assms(1) by (cases its) (auto simp: NewMergingIterator_def)
  ultimately show ?thesis by (auto simp: Merging_Iter_def)
qed

theorem merge_follows_cursor_witness:
  "let k = (\<lambda>u. [u, 1, 0, 0, 0, 0, 0, 0, 0]); ms = [(0, k 1, [5]), (1, k 2, [6]), (0, k 3, [7])] in
    \<exists>its m m'. NewMergingIterator (Block_Iter icmp) its = Children m \<and>
      run_moves (Merging_Iter (Block_Iter icmp) icmp) [First, Forth, Back, Forth, Forth] m = Some m' \<and>
      seen (Merging_Iter (Block_Iter icmp) icmp) m' = Some (k 3, [7])"
proof -
  let ?k = "\<lambda>u. [u, 1, 0, 0, 0, 0, 0, 0, 0] :: bytes"
  let ?ms = "[(0, ?k 1, [5]), (1, ?k 2, [6]), (0, ?k 3, [7])] :: merge"
  have ok: "merge_ok (\<lambda>k. 8 \<le> length k) icmp ?ms 2"
    by code_simp
  have s: "sorted_keys (\<lambda>k. 8 \<le> length k) icmp (child_kvs ?ms j)" for j
    using ok by (auto simp: merge_ok_def child_kvs_def sorted_keys_def)
  have len: "length (build_block 2 (child_kvs ?ms j)) < 2 ^ 32" for j
    by (rule le_less_trans [OF build_block_length]) (simp_all add: child_kvs_def)
  obtain it0 where 0: "Block_NewIterator (Block_new (build_block 2 (child_kvs ?ms 0))) = Positioned it0"
    using internal.built_block_sits [OF _ len s, of 0] by auto
  obtain it1 where 1: "Block_NewIterator (Block_new (build_block 2 (child_kvs ?ms 1))) = Positioned it1"
    using internal.built_block_sits [OF _ len s, of 1] by auto
  have "\<exists>m m'. NewMergingIterator (Block_Iter icmp) [it0, it1] = Children m \<and>
    run_moves (Merging_Iter (Block_Iter icmp) icmp) [First, Forth, Back, Forth, Forth] m = Some m' \<and>
    ok (mi_status (Block_Iter icmp) m') \<and>
    seen (Merging_Iter (Block_Iter icmp) icmp) m' = (if 2 < length ?ms then Some (snd (?ms ! 2)) else None)"
  proof (rule merge_follows_cursor [where interval = 2])
    show "\<forall>j<length [it0, it1]. length (build_block 2 (child_kvs ?ms j)) < 2 ^ 32 \<and>
      Block_NewIterator (Block_new (build_block 2 (child_kvs ?ms j))) = Positioned ([it0, it1] ! j)"
      using 0 1 len by (auto simp: less_Suc_eq)
    show "merge_ok (\<lambda>k. 8 \<le> length k) icmp ?ms (length [it0, it1])" using ok by (simp add: numeral_2_eq_2)
  qed simp_all
  then show ?thesis unfolding Let_def by auto
qed

end
