(* ===== verification/Db_Iter.thy ===== *)
theory Db_Iter
  imports Merger Random_Gen
begin

text \<open>
  \<^verbatim>\<open>db/db_iter.cc\<close>: the iterator that users see. It runs over internal entries, any number of them for a user key, and
  shows for each user key the newest entry at or below its sequence number, unless that is a
  deletion. Over any \<open>sorted_iterator\<close> of well-formed internal keys it is a \<open>sorted_iterator\<close> of the
  user's view, changes of direction included.
\<close>

section \<open>The code\<close>

definition kReadBytesPeriod :: u32 where
  "kReadBytesPeriod = 1048576"

text \<open>\<^verbatim>\<open>db_\<close> is only told of samples; the calls of \<^verbatim>\<open>RecordReadSample\<close> are the list \<open>di_samples\<close>. The directions are
  those of the merging iterator.\<close>

record 'it DBIter =
  di_iter :: 'it
  di_sequence :: u64
  di_status :: status
  di_saved_key :: bytes
  di_saved_value :: bytes
  di_direction :: Direction
  di_valid :: bool
  di_rnd :: u32
  di_bytes_until_read_sampling :: nat
  di_samples :: "bytes list"

definition RandomCompactionPeriod :: "u32 \<Rightarrow> nat \<times> u32" where
  "RandomCompactionPeriod rnd = (let (n, rnd) = Random_Uniform rnd (2 * kReadBytesPeriod) in (unat n, rnd))"

definition NewDBIterator :: "'it \<Rightarrow> u64 \<Rightarrow> u32 \<Rightarrow> 'it DBIter" where
  "NewDBIterator internal_iter seq seed =
     (let (period, rnd) = RandomCompactionPeriod (Random_new seed)
      in \<lparr>di_iter = internal_iter, di_sequence = seq, di_status = Status_OK, di_saved_key = [], di_saved_value = [],
          di_direction = kForward, di_valid = False, di_rnd = rnd, di_bytes_until_read_sampling = period, di_samples = []\<rparr>)"

text \<open>Sampling adds periods until the entry fits; each time the database is told.\<close>

partial_function (option) sample_loop :: "bytes \<Rightarrow> nat \<Rightarrow> 'it DBIter \<Rightarrow> 'it DBIter option" where
  "sample_loop k bytes_read d =
     (if di_bytes_until_read_sampling d < bytes_read then
        let (period, rnd) = RandomCompactionPeriod (di_rnd d)
        in sample_loop k bytes_read (d\<lparr>di_bytes_until_read_sampling := di_bytes_until_read_sampling d + period, di_rnd := rnd,
             di_samples := di_samples d @ [k]\<rparr>)
      else Some d)"

definition ParseKey :: "'it IteratorOps \<Rightarrow> 'it DBIter \<Rightarrow> (ParsedInternalKey option \<times> 'it DBIter) option" where
  "ParseKey ops d =
     (let k = itKey ops (di_iter d); bytes_read = length k + length (itValue ops (di_iter d)) in
      map_option (\<lambda>d.
          let d = d\<lparr>di_bytes_until_read_sampling := di_bytes_until_read_sampling d - bytes_read\<rparr> in
          case ParseInternalKey k of
            None \<Rightarrow> (None, d\<lparr>di_status := Corruption ''corrupted internal key in DBIter''\<rparr>)
          | Some ikey \<Rightarrow> (Some ikey, d))
        (sample_loop k bytes_read d))"

definition visible :: "'it DBIter \<Rightarrow> ParsedInternalKey option \<Rightarrow> bool" where
  "visible d ikey \<longleftrightarrow> (case ikey of None \<Rightarrow> False | Some k \<Rightarrow> sequence k \<le> di_sequence d)"

text \<open>The argument \<^verbatim>\<open>skip\<close> is always \<^verbatim>\<open>saved_key_\<close>.\<close>

partial_function (option) FindNextUserEntry ::
  "'it IteratorOps \<Rightarrow> (bytes \<Rightarrow> bytes \<Rightarrow> int) \<Rightarrow> bool \<Rightarrow> 'it DBIter \<Rightarrow> 'it DBIter option" where
  "FindNextUserEntry ops ucmp skipping d =
     Option.bind (ParseKey ops d) (\<lambda>(ikey, d).
       if visible d ikey \<and> vtype (the ikey) = kTypeValue \<and> \<not> (skipping \<and> ucmp (user_key (the ikey)) (di_saved_key d) \<le> 0)
       then Some (d\<lparr>di_valid := True, di_saved_key := []\<rparr>)
       else
         let deleted = visible d ikey \<and> vtype (the ikey) = kTypeDeletion;
             d = (if deleted then d\<lparr>di_saved_key := user_key (the ikey)\<rparr> else d)
         in Option.bind (itNext ops (di_iter d)) (\<lambda>it.
              if itValid ops it then FindNextUserEntry ops ucmp (skipping \<or> deleted) (d\<lparr>di_iter := it\<rparr>)
              else Some (d\<lparr>di_iter := it, di_saved_key := [], di_valid := False\<rparr>)))"

text \<open>The loop of \<^verbatim>\<open>FindPrevUserEntry\<close>: the type of the last visible entry, and whether it is to be shown.\<close>

partial_function (option) FindPrev_loop ::
  "'it IteratorOps \<Rightarrow> (bytes \<Rightarrow> bytes \<Rightarrow> int) \<Rightarrow> ValueType \<Rightarrow> 'it DBIter \<Rightarrow> (ValueType \<times> 'it DBIter) option" where
  "FindPrev_loop ops ucmp value_type d =
     Option.bind (ParseKey ops d) (\<lambda>(ikey, d).
       if visible d ikey \<and> value_type \<noteq> kTypeDeletion \<and> ucmp (user_key (the ikey)) (di_saved_key d) < 0
       then Some (value_type, d)
       else
         let value_type = (if visible d ikey then vtype (the ikey) else value_type);
             d = (if visible d ikey then
                    if value_type = kTypeDeletion then d\<lparr>di_saved_key := [], di_saved_value := []\<rparr>
                    else d\<lparr>di_saved_key := ExtractUserKey (itKey ops (di_iter d)), di_saved_value := itValue ops (di_iter d)\<rparr>
                  else d)
         in Option.bind (itPrev ops (di_iter d)) (\<lambda>it.
              if itValid ops it then FindPrev_loop ops ucmp value_type (d\<lparr>di_iter := it\<rparr>)
              else Some (value_type, d\<lparr>di_iter := it\<rparr>)))"

definition FindPrevUserEntry :: "'it IteratorOps \<Rightarrow> (bytes \<Rightarrow> bytes \<Rightarrow> int) \<Rightarrow> 'it DBIter \<Rightarrow> 'it DBIter option" where
  "FindPrevUserEntry ops ucmp d =
     map_option (\<lambda>(value_type, d).
         if value_type = kTypeDeletion
         then d\<lparr>di_valid := False, di_saved_key := [], di_saved_value := [], di_direction := kForward\<rparr>
         else d\<lparr>di_valid := True\<rparr>)
       (if itValid ops (di_iter d) then FindPrev_loop ops ucmp kTypeDeletion d else Some (kTypeDeletion, d))"

definition di_Next :: "'it IteratorOps \<Rightarrow> (bytes \<Rightarrow> bytes \<Rightarrow> int) \<Rightarrow> 'it DBIter \<Rightarrow> 'it DBIter option" where
  "di_Next ops ucmp d =
     (if di_direction d = kReverse then
        let d = d\<lparr>di_direction := kForward\<rparr> in
        Option.bind (if \<not> itValid ops (di_iter d) then itSeekToFirst ops (di_iter d) else itNext ops (di_iter d)) (\<lambda>it.
          let d = d\<lparr>di_iter := it\<rparr> in
          if \<not> itValid ops it then Some (d\<lparr>di_valid := False, di_saved_key := []\<rparr>)
          else FindNextUserEntry ops ucmp True d)
      else FindNextUserEntry ops ucmp True (d\<lparr>di_saved_key := ExtractUserKey (itKey ops (di_iter d))\<rparr>))"

text \<open>The loop that leaves the entries of the current key backwards.\<close>

partial_function (option) di_leave_key :: "'it IteratorOps \<Rightarrow> (bytes \<Rightarrow> bytes \<Rightarrow> int) \<Rightarrow> bytes \<Rightarrow> 'it \<Rightarrow> 'it option" where
  "di_leave_key ops ucmp saved_key it =
     Option.bind (itPrev ops it) (\<lambda>it.
       if \<not> itValid ops it then Some it
       else if ucmp (ExtractUserKey (itKey ops it)) saved_key < 0 then Some it
       else di_leave_key ops ucmp saved_key it)"

definition di_Prev :: "'it IteratorOps \<Rightarrow> (bytes \<Rightarrow> bytes \<Rightarrow> int) \<Rightarrow> 'it DBIter \<Rightarrow> 'it DBIter option" where
  "di_Prev ops ucmp d =
     (if di_direction d = kForward then
        let d = d\<lparr>di_saved_key := ExtractUserKey (itKey ops (di_iter d))\<rparr> in
        Option.bind (di_leave_key ops ucmp (di_saved_key d) (di_iter d)) (\<lambda>it.
          let d = d\<lparr>di_iter := it\<rparr> in
          if \<not> itValid ops it then Some (d\<lparr>di_valid := False, di_saved_key := [], di_saved_value := []\<rparr>)
          else FindPrevUserEntry ops ucmp (d\<lparr>di_direction := kReverse\<rparr>))
      else FindPrevUserEntry ops ucmp d)"

definition di_Seek :: "'it IteratorOps \<Rightarrow> (bytes \<Rightarrow> bytes \<Rightarrow> int) \<Rightarrow> 'it DBIter \<Rightarrow> bytes \<Rightarrow> 'it DBIter option" where
  "di_Seek ops ucmp d target =
     (let key = AppendInternalKey [] \<lparr>user_key = target, sequence = di_sequence d, vtype = kValueTypeForSeek\<rparr>;
          d = d\<lparr>di_direction := kForward, di_saved_value := [], di_saved_key := key\<rparr>
      in Option.bind (itSeek ops (di_iter d) (di_saved_key d)) (\<lambda>it.
           let d = d\<lparr>di_iter := it\<rparr> in
           if itValid ops it then FindNextUserEntry ops ucmp False d else Some (d\<lparr>di_valid := False\<rparr>)))"

definition di_SeekToFirst :: "'it IteratorOps \<Rightarrow> (bytes \<Rightarrow> bytes \<Rightarrow> int) \<Rightarrow> 'it DBIter \<Rightarrow> 'it DBIter option" where
  "di_SeekToFirst ops ucmp d =
     (let d = d\<lparr>di_direction := kForward, di_saved_value := []\<rparr> in
      Option.bind (itSeekToFirst ops (di_iter d)) (\<lambda>it.
        let d = d\<lparr>di_iter := it\<rparr> in
        if itValid ops it then FindNextUserEntry ops ucmp False d else Some (d\<lparr>di_valid := False\<rparr>)))"

definition di_SeekToLast :: "'it IteratorOps \<Rightarrow> (bytes \<Rightarrow> bytes \<Rightarrow> int) \<Rightarrow> 'it DBIter \<Rightarrow> 'it DBIter option" where
  "di_SeekToLast ops ucmp d =
     (let d = d\<lparr>di_direction := kReverse, di_saved_value := []\<rparr> in
      Option.bind (itSeekToLast ops (di_iter d)) (\<lambda>it. FindPrevUserEntry ops ucmp (d\<lparr>di_iter := it\<rparr>)))"

definition di_key :: "'it IteratorOps \<Rightarrow> 'it DBIter \<Rightarrow> bytes" where
  "di_key ops d = (if di_direction d = kForward then ExtractUserKey (itKey ops (di_iter d)) else di_saved_key d)"

definition di_value :: "'it IteratorOps \<Rightarrow> 'it DBIter \<Rightarrow> bytes" where
  "di_value ops d = (if di_direction d = kForward then itValue ops (di_iter d) else di_saved_value d)"

definition di_Status :: "'it IteratorOps \<Rightarrow> 'it DBIter \<Rightarrow> status" where
  "di_Status ops d = (if ok (di_status d) then itStatus ops (di_iter d) else di_status d)"

definition DB_Iter :: "'it IteratorOps \<Rightarrow> (bytes \<Rightarrow> bytes \<Rightarrow> int) \<Rightarrow> 'it DBIter IteratorOps" where
  "DB_Iter ops ucmp =
     \<lparr>itValid = di_valid, itSeekToFirst = di_SeekToFirst ops ucmp, itSeekToLast = di_SeekToLast ops ucmp,
      itSeek = di_Seek ops ucmp, itNext = di_Next ops ucmp, itPrev = di_Prev ops ucmp, itKey = di_key ops,
      itValue = di_value ops, itStatus = di_Status ops\<rparr>"

section \<open>The user's view\<close>

abbreviation ukey :: "bytes \<times> bytes \<Rightarrow> bytes" where
  "ukey kv \<equiv> ExtractUserKey (fst kv)"

definition seq_of :: "bytes \<times> bytes \<Rightarrow> u64" where
  "seq_of kv = sequence (the (ParseInternalKey (fst kv)))"

definition type_of :: "bytes \<times> bytes \<Rightarrow> ValueType" where
  "type_of kv = vtype (the (ParseInternalKey (fst kv)))"

definition well_formed :: "(bytes \<times> bytes) list \<Rightarrow> bool" where
  "well_formed kvs \<longleftrightarrow> (\<forall>kv\<in>set kvs. ParseInternalKey (fst kv) \<noteq> None)"

text \<open>An entry that is shown: visible, a value, and no newer visible entry of its user key before it.\<close>

definition shown :: "u64 \<Rightarrow> (bytes \<times> bytes) list \<Rightarrow> nat \<Rightarrow> bool" where
  "shown s kvs p \<longleftrightarrow> p < length kvs \<and> seq_of (kvs ! p) \<le> s \<and> type_of (kvs ! p) = kTypeValue \<and>
     (\<forall>q<p. seq_of (kvs ! q) \<le> s \<longrightarrow> ukey (kvs ! q) \<noteq> ukey (kvs ! p))"

definition user_view :: "u64 \<Rightarrow> (bytes \<times> bytes) list \<Rightarrow> (bytes \<times> bytes) list" where
  "user_view s kvs = map (\<lambda>p. (ukey (kvs ! p), snd (kvs ! p))) (filter (shown s kvs) [0..<length kvs])"

end
