(* ===== verification/Internal_Keys.thy ===== *)
theory Internal_Keys
  imports Db_Format
begin

text \<open>
  Internal keys over the bytewise order: their order written out, and where the keys that searches
  start from stand in it.
\<close>

section \<open>Searches\<close>

lemma Parse_num:
  "ParseInternalKey k = Some pk \<Longrightarrow> 8 \<le> length k \<and> user_key pk = ExtractUserKey k \<and> sequence pk = drop_bit 8 (key_num k) \<and>
    unat (key_num k) \<le> unat (sequence pk) * 256 + 1"
proof -
  assume p: "ParseInternalKey k = Some pk"
  let ?n = "key_num k"
  have l: "8 \<le> length k" "(ucast (?n AND 0xff) :: byte) \<le> 1" "user_key pk = ExtractUserKey k" "sequence pk = drop_bit 8 ?n"
    using p by (auto simp: ParseInternalKey_def Let_def key_num_def ExtractUserKey_def split: if_splits)
  have "(ucast (?n AND 0xff) :: byte) = ucast ?n" by (rule and_255_byte)
  then have "unat (ucast ?n :: byte) \<le> 1" using l(2) by (simp add: word_le_nat_alt)
  moreover have "unat (ucast ?n :: byte) = unat ?n mod 256" by (simp add: unsigned_ucast_eq take_bit_nat_def)
  moreover have "unat (sequence pk) = unat ?n div 256" using l(4) by (simp add: unat_drop_bit_word)
  moreover have "unat ?n = unat ?n div 256 * 256 + unat ?n mod 256" by simp
  ultimately show ?thesis using l by linarith
qed

lemma below_seek_key:
  assumes "ParseInternalKey k = Some pk" "s \<le> kMaxSequenceNumber" "sequence pk \<le> s"
  shows "icmp k (InternalKey u s kTypeValue) < 0 \<longleftrightarrow> ExtractUserKey k < u"
proof -
  note n = Parse_num [OF assms(1)]
  moreover have "unat (sequence pk) \<le> unat s" using assms(3) by (simp add: word_le_nat_alt)
  ultimately have "unat (key_num k) \<le> unat s * 256 + 1" by linarith
  then have "\<not> PackSequenceAndType s kTypeValue < key_num k" using unat_Pack [OF assms(2), of kTypeValue] by (simp add: word_less_nat_alt)
  then show ?thesis by (auto simp: IKC_Compare_less Let_def)
qed

section \<open>The order\<close>

lemma icmp_less: "icmp a b < 0 \<longleftrightarrow> ExtractUserKey a < ExtractUserKey b \<or> ExtractUserKey a = ExtractUserKey b \<and> key_num b < key_num a"
  by (auto simp: IKC_Compare_less Let_def)

lemma icmp_le: "icmp a b \<le> 0 \<longleftrightarrow> ExtractUserKey a < ExtractUserKey b \<or> ExtractUserKey a = ExtractUserKey b \<and> key_num b \<le> key_num a"
  by (auto simp: IKC_Compare_le Let_def)

lemma icmp_greater: "0 < icmp a b \<longleftrightarrow> icmp b a < 0"
proof -
  have "\<not> 0 < icmp a b \<longleftrightarrow> icmp a b \<le> 0" by linarith
  then show ?thesis unfolding icmp_le icmp_less by (metis linorder_less_linear not_le order_less_asym)
qed

lemma icmp_less_trans: "icmp a b < 0 \<Longrightarrow> icmp b c < 0 \<Longrightarrow> icmp a c < 0"
  unfolding icmp_less by auto

lemma icmp_le_less_trans: "icmp a b \<le> 0 \<Longrightarrow> icmp b c < 0 \<Longrightarrow> icmp a c < 0"
  unfolding icmp_less icmp_le by auto

lemma icmp_less_le_trans: "icmp a b < 0 \<Longrightarrow> icmp b c \<le> 0 \<Longrightarrow> icmp a c < 0"
  unfolding icmp_less icmp_le by auto

lemma icmp_le_trans: "icmp a b \<le> 0 \<Longrightarrow> icmp b c \<le> 0 \<Longrightarrow> icmp a c \<le> 0"
  unfolding icmp_le by auto

lemma icmp_less_ukey: "icmp a b < 0 \<Longrightarrow> ExtractUserKey a \<le> ExtractUserKey b"
  unfolding icmp_less by auto

lemma icmp_le_ukey: "icmp a b \<le> 0 \<Longrightarrow> ExtractUserKey a \<le> ExtractUserKey b"
  unfolding icmp_le by auto

lemma icmp_irrefl [simp]: "icmp a a = 0"
  by (simp add: IKC_Compare_num)

text \<open>The first internal key of a user key.\<close>

lemma below_first:
  assumes "ParseInternalKey k \<noteq> None"
  shows "icmp k (InternalKey u kMaxSequenceNumber kTypeValue) < 0 \<longleftrightarrow> ExtractUserKey k < u"
proof -
  obtain pk where pk: "ParseInternalKey k = Some pk" using assms by blast
  have "unat (sequence pk) < 2 ^ 56"
  proof -
    have "unat (key_num k) < 2 ^ 56 * 256" using unsigned_less [of "key_num k", where 'a = nat] by simp
    then have "unat (key_num k) div 256 < 2 ^ 56" by (rule less_mult_imp_div_less)
    then show ?thesis using Parse_num [OF pk] by (simp add: unat_drop_bit_word)
  qed
  then have "sequence pk \<le> kMaxSequenceNumber" by (simp add: word_le_nat_alt kMaxSequenceNumber_def)
  then show ?thesis by (rule below_seek_key [OF pk order_refl])
qed

end
