(* ===== verification/Db_View.thy ===== *)
theory Db_View
  imports Db_Iter Internal_Keys
begin

text \<open>
  What the user-level iterator shows: over any iterator of well-formed internal keys it is a
  \<open>sorted_iterator\<close> on \<open>user_view\<close>, the newest visible values in the order of their user keys.
\<close>

section \<open>Positions in the view\<close>

lemma ukey_mono:
  "sorted_wrt (\<lambda>a b. icmp (fst a) (fst b) < 0) kvs \<Longrightarrow> i \<le> j \<Longrightarrow> j < length kvs \<Longrightarrow> ukey (kvs ! i) \<le> ukey (kvs ! j)"
  by (cases "i = j") (auto simp: sorted_wrt_iff_nth_less IKC_Compare_less Let_def le_less)

definition shown_before :: "u64 \<Rightarrow> (bytes \<times> bytes) list \<Rightarrow> nat \<Rightarrow> nat" where
  "shown_before s kvs p = length (filter (shown s kvs) [0..<p])"

lemma shown_before_Suc: "shown_before s kvs (Suc p) = (if shown s kvs p then Suc (shown_before s kvs p) else shown_before s kvs p)"
  by (simp add: shown_before_def)

lemma length_user_view: "length (user_view s kvs) = shown_before s kvs (length kvs)"
  by (simp add: user_view_def shown_before_def)

lemma shown_before_skip:
  "p \<le> r \<Longrightarrow> (\<And>q. p \<le> q \<Longrightarrow> q < r \<Longrightarrow> \<not> shown s kvs q) \<Longrightarrow> shown_before s kvs r = shown_before s kvs p"
  by (induction r) (auto simp: shown_before_Suc le_Suc_eq)

lemma shown_before_mono: "p \<le> q \<Longrightarrow> shown_before s kvs p \<le> shown_before s kvs q"
  by (induction q) (auto simp: shown_before_Suc le_Suc_eq)

lemma shown_less: "shown s kvs p \<Longrightarrow> shown_before s kvs p < length (user_view s kvs)"
  using shown_before_mono [of "Suc p" "length kvs" s kvs] by (simp add: length_user_view shown_before_Suc shown_def)

lemma user_view_nth:
  assumes "shown s kvs p"
  shows "user_view s kvs ! shown_before s kvs p = (ukey (kvs ! p), snd (kvs ! p))"
proof -
  have "p < length kvs" using assms by (simp add: shown_def)
  then have "[0..<length kvs] = [0..<p] @ p # [Suc p..<length kvs]" using upt_conv_Cons [of p "length kvs"] upt_add_eq_append [of 0 p "length kvs - p"] by simp
  then have "user_view s kvs = map (\<lambda>p. (ukey (kvs ! p), snd (kvs ! p))) (filter (shown s kvs) ([0..<p] @ p # [Suc p..<length kvs]))"
    by (simp add: user_view_def)
  then show ?thesis using assms by (simp add: nth_append shown_before_def)
qed

text \<open>Where a position of the view is shown.\<close>

lemma shown_at:
  assumes "i < length (user_view s kvs)"
  obtains p where "shown s kvs p" "shown_before s kvs p = i"
proof -
  have "i < shown_before s kvs n \<Longrightarrow> \<exists>p. shown s kvs p \<and> shown_before s kvs p = i" for n
    by (induction n) (auto simp: shown_before_Suc less_Suc_eq shown_before_def split: if_splits)
  from this [of "length kvs"] that assms show thesis by (auto simp: length_user_view)
qed

lemma shown_ukey_less:
  assumes "sorted_wrt (\<lambda>a b. icmp (fst a) (fst b) < 0) kvs" "shown s kvs p" "shown s kvs q" "p < q"
  shows "ukey (kvs ! p) < ukey (kvs ! q)"
  using assms ukey_mono [of kvs p q] by (auto simp: shown_def le_less)

lemma user_view_sorted:
  assumes "sorted_wrt (\<lambda>a b. icmp (fst a) (fst b) < 0) kvs"
  shows "sorted_wrt (\<lambda>a b. Bytewise_Compare (fst a) (fst b) < 0) (user_view s kvs)"
proof -
  have "sorted_wrt (<) (filter (shown s kvs) [0..<length kvs])" by (rule sorted_wrt_filter) (simp add: sorted_wrt_upt)
  then have "sorted_wrt (\<lambda>p q. ukey (kvs ! p) < ukey (kvs ! q)) (filter (shown s kvs) [0..<length kvs])"
    by (rule sorted_wrt_mono_rel [rotated]) (use shown_ukey_less [OF assms] in auto)
  then show ?thesis by (simp add: user_view_def sorted_wrt_map)
qed

section \<open>Sampling ends\<close>

definition samples_only :: "'it DBIter \<Rightarrow> 'it DBIter \<Rightarrow> bool" where
  "samples_only d d' \<longleftrightarrow> seed_ok (di_rnd d') \<and>
     d' = d\<lparr>di_rnd := di_rnd d', di_bytes_until_read_sampling := di_bytes_until_read_sampling d', di_samples := di_samples d'\<rparr>"

lemma samples_only_simps:
  "samples_only d d' \<Longrightarrow> di_iter d' = di_iter d \<and> di_sequence d' = di_sequence d \<and> di_status d' = di_status d \<and>
    di_saved_key d' = di_saved_key d \<and> di_saved_value d' = di_saved_value d \<and> di_direction d' = di_direction d \<and>
    di_valid d' = di_valid d \<and> seed_ok (di_rnd d')"
  unfolding samples_only_def by (cases d, cases d') auto

lemma period:
  assumes "seed_ok rnd"
  shows "RandomCompactionPeriod rnd = (unat (Random_Next rnd) mod 2097152, Random_Next rnd)"
  by (simp add: RandomCompactionPeriod_def Random_Uniform_def kReadBytesPeriod_def Let_def unat_mod_distrib)

text \<open>The loop ends although a period may be 0, because no two of them are in a row.\<close>

lemma sample_loop_ends:
  "seed_ok (di_rnd d) \<Longrightarrow> \<exists>d'. sample_loop k n d = Some d' \<and> samples_only d d' \<and> n \<le> di_bytes_until_read_sampling d'"
proof (induction "2 * (n - di_bytes_until_read_sampling d) + (if unat (di_rnd d) mod 2097152 = 0 then 0 else 1)" arbitrary: d rule: less_induct)
  case less
  show ?case
  proof (cases "di_bytes_until_read_sampling d < n")
    case False
    then show ?thesis using less.prems by (simp add: sample_loop.simps [of k n d] samples_only_def)
  next
    case True
    let ?r = "Random_Next (di_rnd d)"
    let ?d = "d\<lparr>di_bytes_until_read_sampling := di_bytes_until_read_sampling d + unat ?r mod 2097152, di_rnd := ?r, di_samples := di_samples d @ [k]\<rparr>"
    have r: "seed_ok (di_rnd ?d)" using Random_Next_ok [OF less.prems] by simp
    have "unat ?r mod 2097152 = 0 \<Longrightarrow> unat (di_rnd d) mod 2097152 \<noteq> 0" using Random_Next_not_both [OF less.prems] by metis
    then have "2 * (n - di_bytes_until_read_sampling ?d) + (if unat (di_rnd ?d) mod 2097152 = 0 then 0 else 1) <
      2 * (n - di_bytes_until_read_sampling d) + (if unat (di_rnd d) mod 2097152 = 0 then 0 else 1)" using True by auto
    from less.hyps [OF this r] obtain d' where "sample_loop k n ?d = Some d'" "samples_only ?d d'" "n \<le> di_bytes_until_read_sampling d'" by blast
    moreover have "sample_loop k n d = sample_loop k n ?d" using True by (simp add: sample_loop.simps [of k n d] period [OF less.prems])
    moreover have "samples_only d d'" using \<open>samples_only ?d d'\<close> unfolding samples_only_def by (cases d, cases d') auto
    ultimately show ?thesis by auto
  qed
qed

section \<open>The scans\<close>

text \<open>An iterator over internal keys.\<close>

locale internal_iterator = sorted_iterator "\<lambda>k. 8 \<le> length k" icmp ops sits
  for ops :: "'it IteratorOps" and sits :: "'it \<Rightarrow> (bytes \<times> bytes) list \<Rightarrow> nat \<Rightarrow> bool"
begin

text \<open>What every call keeps, besides the sequence number and the seed.\<close>

definition steady_iter :: "u64 \<Rightarrow> 'it DBIter \<Rightarrow> bool" where
  "steady_iter s d \<longleftrightarrow> di_sequence d = s \<and> ok (di_status d) \<and> seed_ok (di_rnd d)"

lemma ParseKey_ok:
  assumes "sits (di_iter d) kvs p" "p < length kvs" "well_formed kvs" "steady_iter s d"
  shows "\<exists>d' ik. ParseKey ops d = Some (Some ik, d') \<and> ParseInternalKey (fst (kvs ! p)) = Some ik \<and> samples_only d d' \<and> steady_iter s d'"
proof -
  let ?k = "itKey ops (di_iter d)" and ?v = "itValue ops (di_iter d)"
  have kv: "(?k, ?v) = kvs ! p" by (rule sits_entry [OF assms(1,2)])
  have "ParseInternalKey (fst (kvs ! p)) \<noteq> None" using assms(3) nth_mem [OF assms(2)] unfolding well_formed_def by blast
  then obtain ik where ik: "ParseInternalKey (fst (kvs ! p)) = Some ik" by blast
  have "seed_ok (di_rnd d)" using assms(4) by (simp add: steady_iter_def)
  from sample_loop_ends [OF this, of ?k "length ?k + length ?v"] obtain d1 where
    d1: "sample_loop ?k (length ?k + length ?v) d = Some d1" "samples_only d d1" by blast
  let ?d = "d1\<lparr>di_bytes_until_read_sampling := di_bytes_until_read_sampling d1 - (length ?k + length ?v)\<rparr>"
  have "samples_only d ?d" using d1(2) unfolding samples_only_def by (cases d, cases d1) auto
  moreover have "ParseKey ops d = Some (Some ik, ?d)" using ik d1(1) kv [symmetric] by (simp add: ParseKey_def Let_def)
  moreover have "steady_iter s ?d" using samples_only_simps [OF d1(2)] assms(4) by (simp add: steady_iter_def)
  ultimately show ?thesis using ik by blast
qed

subsection \<open>Forwards\<close>

definition next_inv :: "u64 \<Rightarrow> (bytes \<times> bytes) list \<Rightarrow> nat \<Rightarrow> bool \<Rightarrow> bytes \<Rightarrow> bool" where
  "next_inv s kvs p skipping skip \<longleftrightarrow>
     (if skipping then (\<forall>r<p. seq_of (kvs ! r) \<le> s \<longrightarrow> ukey (kvs ! r) \<le> skip) \<and>
        (\<forall>r. p \<le> r \<longrightarrow> r < length kvs \<longrightarrow> seq_of (kvs ! r) \<le> s \<longrightarrow> skip \<le> ukey (kvs ! r))
      else \<forall>r<p. seq_of (kvs ! r) \<le> s \<longrightarrow> (\<forall>r'. p \<le> r' \<longrightarrow> r' < length kvs \<longrightarrow> ukey (kvs ! r) \<noteq> ukey (kvs ! r')))"

definition next_at :: "u64 \<Rightarrow> (bytes \<times> bytes) list \<Rightarrow> nat \<Rightarrow> bool \<Rightarrow> bytes \<Rightarrow> nat \<Rightarrow> bool" where
  "next_at s kvs p skipping skip r \<longleftrightarrow> p \<le> r \<and> shown s kvs r \<and> (skipping \<longrightarrow> skip < ukey (kvs ! r))"

text \<open>The scan ends at the first position that is to be shown, or nowhere.\<close>

definition found_next :: "u64 \<Rightarrow> (bytes \<times> bytes) list \<Rightarrow> (nat \<Rightarrow> bool) \<Rightarrow> 'it DBIter \<Rightarrow> bool" where
  "found_next s kvs P d \<longleftrightarrow> steady_iter s d \<and>
     (if di_valid d then \<exists>r. P r \<and> (\<forall>q. P q \<longrightarrow> r \<le> q) \<and> sits (di_iter d) kvs r
      else (\<forall>r. \<not> P r) \<and> (\<exists>p. sits (di_iter d) kvs p))"

lemma shown_value: "ParseInternalKey (fst (kvs ! p)) = Some ik \<Longrightarrow>
    seq_of (kvs ! p) = sequence ik \<and> type_of (kvs ! p) = vtype ik \<and> ukey (kvs ! p) = user_key ik"
  using Parse_num [of "fst (kvs ! p)" ik] by (simp add: seq_of_def type_of_def)

lemma FindNextUserEntry_ok:
  assumes "sits (di_iter d) kvs p" "p < length kvs" "well_formed kvs" "steady_iter s d"
    and "next_inv s kvs p skipping (di_saved_key d)"
  shows "\<exists>d'. FindNextUserEntry ops Bytewise_Compare skipping d = Some d' \<and> di_direction d' = di_direction d \<and>
    found_next s kvs (next_at s kvs p skipping (di_saved_key d)) d'"
  using assms
proof (induction "length kvs - p" arbitrary: p d skipping rule: less_induct)
  case less
  note srt = conjunct1 [OF sits_sorted [OF less.prems(1)]]
  let ?skip = "di_saved_key d"
  obtain d1 ik where d1: "ParseKey ops d = Some (Some ik, d1)" "ParseInternalKey (fst (kvs ! p)) = Some ik" "samples_only d d1" "steady_iter s d1"
    using ParseKey_ok [OF less.prems(1-4)] by blast
  note same = samples_only_simps [OF d1(3)] and kv = shown_value [OF d1(2)]
  have vis: "visible d1 (Some ik) \<longleftrightarrow> seq_of (kvs ! p) \<le> s" using d1(4) kv by (simp add: visible_def steady_iter_def)
  show ?case
  proof (cases "seq_of (kvs ! p) \<le> s \<and> type_of (kvs ! p) = kTypeValue \<and> \<not> (skipping \<and> ukey (kvs ! p) \<le> ?skip)")
    case True
    then have f: "FindNextUserEntry ops Bytewise_Compare skipping d = Some (d1\<lparr>di_valid := True, di_saved_key := []\<rparr>)"
      using d1(1) vis kv same by (simp add: FindNextUserEntry.simps [of ops Bytewise_Compare skipping d])
    have "\<forall>q<p. seq_of (kvs ! q) \<le> s \<longrightarrow> ukey (kvs ! q) \<noteq> ukey (kvs ! p)"
      using less.prems(2,5) True unfolding next_inv_def by (cases skipping) fastforce+
    then have "next_at s kvs p skipping ?skip p" using True less.prems(2) by (auto simp: next_at_def shown_def)
    then have "found_next s kvs (next_at s kvs p skipping ?skip) (d1\<lparr>di_valid := True, di_saved_key := []\<rparr>)"
      using same less.prems(1) d1(4) by (auto simp: found_next_def next_at_def steady_iter_def)
    with f same show ?thesis by simp
  next
    case False
    let ?deleted = "seq_of (kvs ! p) \<le> s \<and> type_of (kvs ! p) = kTypeDeletion"
    let ?d = "if ?deleted then d1\<lparr>di_saved_key := ukey (kvs ! p)\<rparr> else d1"
    obtain it' where it': "itNext ops (di_iter d1) = Some it'" "sits it' kvs (Suc p)" using "next" [OF less.prems(1,2)] same by auto
    have f: "FindNextUserEntry ops Bytewise_Compare skipping d =
        (if itValid ops it' then FindNextUserEntry ops Bytewise_Compare (skipping \<or> ?deleted) (?d\<lparr>di_iter := it'\<rparr>)
         else Some (?d\<lparr>di_iter := it', di_saved_key := [], di_valid := False\<rparr>))"
      using False d1(1) vis kv same it'(1) by (auto simp: FindNextUserEntry.simps [of ops Bytewise_Compare skipping d] Let_def)
    have not_p: "\<not> next_at s kvs p skipping ?skip p"
      using False by (auto simp: next_at_def shown_def)
    have after: "\<not> shown s kvs r" if "?deleted" "p < r" "ukey (kvs ! r) = ukey (kvs ! p)" for r using that by (auto simp: shown_def)
    have eq: "next_at s kvs p skipping ?skip r \<longleftrightarrow> next_at s kvs (Suc p) (skipping \<or> ?deleted) (di_saved_key ?d) r" for r
    proof (cases "r \<le> p")
      case True
      then show ?thesis using not_p by (cases "r = p") (auto simp: next_at_def)
    next
      case rp: False
      show ?thesis
      proof (cases "?deleted \<and> shown s kvs r")
        case True
        then have r: "r < length kvs" "seq_of (kvs ! r) \<le> s" by (simp_all add: shown_def)
        have "ukey (kvs ! p) \<le> ukey (kvs ! r)" using ukey_mono [OF srt, of p r] rp r(1) by simp
        then have "ukey (kvs ! p) < ukey (kvs ! r)" using after [of r] True rp by (auto simp: le_less)
        moreover have "skipping \<Longrightarrow> ?skip \<le> ukey (kvs ! p)" using less.prems(2,5) True unfolding next_inv_def by simp
        ultimately show ?thesis using True rp by (auto simp: next_at_def)
      qed (use rp same in \<open>auto simp: next_at_def\<close>)
    qed
    show ?thesis
    proof (cases "Suc p < length kvs")
      case True
      have v: "itValid ops it'" using sits_valid [OF it'(2)] True by simp
      have inv: "next_inv s kvs (Suc p) (skipping \<or> ?deleted) (di_saved_key (?d\<lparr>di_iter := it'\<rparr>))"
      proof (cases "?deleted")
        case del: True
        have "ukey (kvs ! r) \<le> ukey (kvs ! p)" if "r < Suc p" for r using ukey_mono [OF srt, of r p] that less.prems(2) by simp
        moreover have "ukey (kvs ! p) \<le> ukey (kvs ! r)" if "Suc p \<le> r" "r < length kvs" for r using ukey_mono [OF srt, of p r] that by simp
        ultimately show ?thesis using del by (simp add: next_inv_def)
      next
        case nd: False
        show ?thesis
        proof (cases skipping)
          case sk: True
          have "ukey (kvs ! p) \<le> ?skip" if "seq_of (kvs ! p) \<le> s" using False nd sk that by (cases "type_of (kvs ! p)") auto
          then show ?thesis using less.prems(5) nd sk same unfolding next_inv_def by (auto simp: less_Suc_eq)
        next
          case ns: False
          have "\<not> seq_of (kvs ! p) \<le> s" using False nd ns by (cases "type_of (kvs ! p)") auto
          then show ?thesis using less.prems(5) nd ns unfolding next_inv_def by (auto simp: less_Suc_eq)
        qed
      qed
      have "\<exists>d'. FindNextUserEntry ops Bytewise_Compare (skipping \<or> ?deleted) (?d\<lparr>di_iter := it'\<rparr>) = Some d' \<and>
        di_direction d' = di_direction (?d\<lparr>di_iter := it'\<rparr>) \<and>
        found_next s kvs (next_at s kvs (Suc p) (skipping \<or> ?deleted) (di_saved_key (?d\<lparr>di_iter := it'\<rparr>))) d'"
        by (rule less.hyps [OF _ _ True less.prems(3) _ inv]) (use less.prems(2) it'(2) d1(4) in \<open>auto simp: steady_iter_def\<close>)
      then obtain d' where d': "FindNextUserEntry ops Bytewise_Compare (skipping \<or> ?deleted) (?d\<lparr>di_iter := it'\<rparr>) = Some d'"
        "di_direction d' = di_direction (?d\<lparr>di_iter := it'\<rparr>)"
        "found_next s kvs (next_at s kvs (Suc p) (skipping \<or> ?deleted) (di_saved_key (?d\<lparr>di_iter := it'\<rparr>))) d'" by blast
      have k: "di_saved_key (?d\<lparr>di_iter := it'\<rparr>) = di_saved_key ?d" by simp
      have "next_at s kvs p skipping ?skip = next_at s kvs (Suc p) (skipping \<or> ?deleted) (di_saved_key ?d)" by (rule ext) (rule eq)
      then have "found_next s kvs (next_at s kvs p skipping ?skip) d'" using d'(3) unfolding k by (simp only:)
      moreover have "di_direction d' = di_direction d" using d'(2) same by (cases ?deleted) simp_all
      moreover have "FindNextUserEntry ops Bytewise_Compare skipping d = Some d'" unfolding f if_P [OF v] by (rule d'(1))
      ultimately show ?thesis by blast
    next
      case stop: False
      then have v: "\<not> itValid ops it'" using sits_valid [OF it'(2)] by simp
      have "\<not> next_at s kvs (Suc p) (skipping \<or> ?deleted) (di_saved_key ?d) r" for r using stop by (auto simp: next_at_def shown_def)
      then have "\<not> next_at s kvs p skipping ?skip r" for r using eq by blast
      then show ?thesis using f v same it'(2) d1(4) by (auto simp: found_next_def steady_iter_def)
    qed
  qed
qed

subsection \<open>Backwards\<close>

text \<open>Below the candidate of a backward scan nothing is visible.\<close>

definition gap :: "u64 \<Rightarrow> (bytes \<times> bytes) list \<Rightarrow> nat \<Rightarrow> nat \<Rightarrow> bool" where
  "gap s kvs b q \<longleftrightarrow> b \<le> q \<and> (\<forall>r. b \<le> r \<longrightarrow> r < q \<longrightarrow> \<not> seq_of (kvs ! r) \<le> s)"

text \<open>The entries from \<open>b\<close> up to \<open>E\<close> are behind the scan; if it has a candidate, it is the only one of them that may be shown.\<close>

definition prev_inv :: "u64 \<Rightarrow> (bytes \<times> bytes) list \<Rightarrow> nat \<Rightarrow> nat \<Rightarrow> ValueType \<Rightarrow> bytes \<Rightarrow> bytes \<Rightarrow> bool" where
  "prev_inv s kvs b E vt k v \<longleftrightarrow>
     (if vt = kTypeDeletion then \<forall>r. b \<le> r \<longrightarrow> r < E \<longrightarrow> \<not> shown s kvs r
      else \<exists>q<E. gap s kvs b q \<and> q < length kvs \<and> seq_of (kvs ! q) \<le> s \<and> type_of (kvs ! q) = kTypeValue \<and> (k, v) = (ukey (kvs ! q), snd (kvs ! q)) \<and>
        (\<forall>r. b \<le> r \<longrightarrow> r < E \<longrightarrow> shown s kvs r \<longrightarrow> r = q))"

text \<open>The position that the scan has found, and where it leaves the internal iterator.\<close>

definition found_prev :: "u64 \<Rightarrow> (bytes \<times> bytes) list \<Rightarrow> nat \<Rightarrow> ValueType \<Rightarrow> 'it DBIter \<Rightarrow> bool" where
  "found_prev s kvs E vt d \<longleftrightarrow> steady_iter s d \<and>
     (if vt = kTypeDeletion then (\<forall>r<E. \<not> shown s kvs r) \<and> (\<exists>p. sits (di_iter d) kvs p)
      else \<exists>q<E. shown s kvs q \<and> (\<forall>r. q < r \<longrightarrow> r < E \<longrightarrow> \<not> shown s kvs r) \<and>
        (di_saved_key d, di_saved_value d) = (ukey (kvs ! q), snd (kvs ! q)) \<and>
        (sits (di_iter d) kvs (length kvs) \<and> gap s kvs 0 q \<or> (\<exists>p. sits (di_iter d) kvs p \<and> p < q \<and> gap s kvs (Suc p) q)))"

lemma gap_shown:
  assumes "sorted_wrt (\<lambda>a b. icmp (fst a) (fst b) < 0) kvs" "gap s kvs b q" "q < length kvs" "seq_of (kvs ! q) \<le> s" "type_of (kvs ! q) = kTypeValue"
    and "b = 0 \<or> ukey (kvs ! (b - 1)) < ukey (kvs ! q)"
  shows "shown s kvs q"
proof -
  have "ukey (kvs ! r) \<noteq> ukey (kvs ! q)" if "r < q" "seq_of (kvs ! r) \<le> s" for r
  proof -
    have "r < b" using assms(2) that by (auto simp: gap_def not_le [symmetric])
    then have "ukey (kvs ! r) \<le> ukey (kvs ! (b - 1))" "b \<noteq> 0" using ukey_mono [OF assms(1), of r "b - 1"] assms(2,3) by (auto simp: gap_def)
    then show ?thesis using assms(6) by auto
  qed
  then show ?thesis using assms(3-5) by (auto simp: shown_def)
qed

lemma prev_inv_found:
  assumes "sorted_wrt (\<lambda>a b. icmp (fst a) (fst b) < 0) kvs" "steady_iter s d" "prev_inv s kvs b E vt (di_saved_key d) (di_saved_value d)"
    and "b = 0 \<and> sits (di_iter d) kvs (length kvs) \<or> b = Suc p \<and> sits (di_iter d) kvs p \<and> vt \<noteq> kTypeDeletion \<and> ukey (kvs ! p) < di_saved_key d"
  shows "found_prev s kvs E vt d"
proof (cases "vt = kTypeDeletion")
  case True
  then show ?thesis using assms(2-4) by (auto simp: prev_inv_def found_prev_def)
next
  case False
  then obtain q where q: "q < E" "gap s kvs b q" "q < length kvs" "seq_of (kvs ! q) \<le> s" "type_of (kvs ! q) = kTypeValue"
      "(di_saved_key d, di_saved_value d) = (ukey (kvs ! q), snd (kvs ! q))" "\<forall>r. b \<le> r \<longrightarrow> r < E \<longrightarrow> shown s kvs r \<longrightarrow> r = q"
    using assms(3) by (auto simp: prev_inv_def)
  have "shown s kvs q" by (rule gap_shown [OF assms(1) q(2-5)]) (use assms(4) q(6) in auto)
  moreover have "\<not> shown s kvs r" if "q < r" "r < E" for r
    using q(7) [rule_format, of r] q(2) that unfolding gap_def by linarith
  moreover have "sits (di_iter d) kvs (length kvs) \<and> gap s kvs 0 q \<or> (\<exists>p. sits (di_iter d) kvs p \<and> p < q \<and> gap s kvs (Suc p) q)"
    using assms(4) q(2) by (auto simp: gap_def)
  ultimately have "q < E \<and> shown s kvs q \<and> (\<forall>r. q < r \<longrightarrow> r < E \<longrightarrow> \<not> shown s kvs r) \<and>
        (di_saved_key d, di_saved_value d) = (ukey (kvs ! q), snd (kvs ! q)) \<and>
        (sits (di_iter d) kvs (length kvs) \<and> gap s kvs 0 q \<or> (\<exists>p. sits (di_iter d) kvs p \<and> p < q \<and> gap s kvs (Suc p) q))"
    using q(1,6) by (intro conjI allI impI) simp_all
  then show ?thesis unfolding found_prev_def if_not_P [OF False] by (intro conjI assms(2)) (rule exI)
qed

lemma prev_inv_step:
  assumes "sorted_wrt (\<lambda>a b. icmp (fst a) (fst b) < 0) kvs" "prev_inv s kvs (Suc p) E vt k v" "p < length kvs" "p < E"
    and "\<not> (seq_of (kvs ! p) \<le> s \<and> vt \<noteq> kTypeDeletion \<and> ukey (kvs ! p) < k)"
  shows "seq_of (kvs ! p) \<le> s \<Longrightarrow> type_of (kvs ! p) = kTypeDeletion \<Longrightarrow> prev_inv s kvs p E kTypeDeletion k' v'"
    and "seq_of (kvs ! p) \<le> s \<Longrightarrow> type_of (kvs ! p) = kTypeValue \<Longrightarrow> prev_inv s kvs p E kTypeValue (ukey (kvs ! p)) (snd (kvs ! p))"
    and "\<not> seq_of (kvs ! p) \<le> s \<Longrightarrow> prev_inv s kvs p E vt k v"
proof -
  have none: "\<not> shown s kvs r" if vis: "seq_of (kvs ! p) \<le> s" and r: "p < r" "r < E" for r
  proof
    assume sh: "shown s kvs r"
    then have vt: "vt \<noteq> kTypeDeletion" using assms(2) r by (auto simp: prev_inv_def)
    then obtain q where "k = ukey (kvs ! q)" "\<forall>r. Suc p \<le> r \<longrightarrow> r < E \<longrightarrow> shown s kvs r \<longrightarrow> r = q" using assms(2) by (auto simp: prev_inv_def)
    then have k: "k = ukey (kvs ! r)" using r sh by (metis Suc_leI)
    have "ukey (kvs ! p) \<le> ukey (kvs ! r)" using ukey_mono [OF assms(1), of p r] r sh by (simp add: shown_def)
    then have "ukey (kvs ! p) = ukey (kvs ! r)" using assms(5) vis vt k by auto
    then show False using sh r vis by (auto simp: shown_def)
  qed
  show "seq_of (kvs ! p) \<le> s \<Longrightarrow> type_of (kvs ! p) = kTypeDeletion \<Longrightarrow> prev_inv s kvs p E kTypeDeletion k' v'"
    using none by (auto simp: prev_inv_def shown_def [of s kvs p] order.order_iff_strict)
  show "seq_of (kvs ! p) \<le> s \<Longrightarrow> type_of (kvs ! p) = kTypeValue \<Longrightarrow> prev_inv s kvs p E kTypeValue (ukey (kvs ! p)) (snd (kvs ! p))"
    using none assms(3,4) unfolding prev_inv_def by (intro if_not_P [THEN iffD2] exI [of _ p]) (auto simp: gap_def le_less)
  assume inv: "\<not> seq_of (kvs ! p) \<le> s"
  then have np: "\<not> shown s kvs p" by (simp add: shown_def)
  have shown_from: "(\<forall>r. p \<le> r \<longrightarrow> P r) \<longleftrightarrow> P p \<and> (\<forall>r. Suc p \<le> r \<longrightarrow> P r)" for P
    by (metis Suc_leD Suc_leI le_less)
  have "gap s kvs (Suc p) q \<Longrightarrow> gap s kvs p q" for q using inv unfolding gap_def shown_from by simp
  then show "prev_inv s kvs p E vt k v" using assms(2) np unfolding prev_inv_def shown_from by (simp split: if_splits) blast
qed

lemma FindPrev_loop_ok:
  assumes "sits (di_iter d) kvs p" "p < length kvs" "well_formed kvs" "steady_iter s d" "p < E"
    and "prev_inv s kvs (Suc p) E vt (di_saved_key d) (di_saved_value d)"
  shows "\<exists>vt' d'. FindPrev_loop ops Bytewise_Compare vt d = Some (vt', d') \<and> di_direction d' = di_direction d \<and> found_prev s kvs E vt' d'"
  using assms
proof (induction p arbitrary: d vt rule: less_induct)
  case (less p)
  note srt = conjunct1 [OF sits_sorted [OF less.prems(1)]]
  obtain d1 ik where d1: "ParseKey ops d = Some (Some ik, d1)" "ParseInternalKey (fst (kvs ! p)) = Some ik" "samples_only d d1" "steady_iter s d1"
    using ParseKey_ok [OF less.prems(1-4)] by blast
  note same = samples_only_simps [OF d1(3)] and kv = shown_value [OF d1(2)]
  have vis: "visible d1 (Some ik) \<longleftrightarrow> seq_of (kvs ! p) \<le> s" using d1(4) kv by (simp add: visible_def steady_iter_def)
  have entry: "(itKey ops (di_iter d1), itValue ops (di_iter d1)) = kvs ! p" using sits_entry [OF less.prems(1,2)] same by simp
  show ?case
  proof (cases "seq_of (kvs ! p) \<le> s \<and> vt \<noteq> kTypeDeletion \<and> ukey (kvs ! p) < di_saved_key d")
    case True
    then have "FindPrev_loop ops Bytewise_Compare vt d = Some (vt, d1)"
      using d1(1) vis kv same by (simp add: FindPrev_loop.simps [of ops Bytewise_Compare vt d])
    moreover have "found_prev s kvs E vt d1"
      by (rule prev_inv_found [OF srt d1(4), of "Suc p" _ _ p]) (use less.prems(1,6) same True in auto)
    ultimately show ?thesis using same by blast
  next
    case False
    let ?vt = "if seq_of (kvs ! p) \<le> s then type_of (kvs ! p) else vt"
    let ?d = "if seq_of (kvs ! p) \<le> s then
                if ?vt = kTypeDeletion then d1\<lparr>di_saved_key := [], di_saved_value := []\<rparr>
                else d1\<lparr>di_saved_key := ukey (kvs ! p), di_saved_value := snd (kvs ! p)\<rparr>
              else d1"
    obtain it' where it': "itPrev ops (di_iter d1) = Some it'" "sits it' kvs (if p = 0 then length kvs else p - 1)"
      using prev [OF less.prems(1,2)] same by auto
    have f: "FindPrev_loop ops Bytewise_Compare vt d =
        (if itValid ops it' then FindPrev_loop ops Bytewise_Compare ?vt (?d\<lparr>di_iter := it'\<rparr>) else Some (?vt, ?d\<lparr>di_iter := it'\<rparr>))"
      using False d1(1) vis kv same it'(1) entry [symmetric] by (auto simp: FindPrev_loop.simps [of ops Bytewise_Compare vt d] Let_def)
    have st: "steady_iter s (?d\<lparr>di_iter := it'\<rparr>)" "di_direction (?d\<lparr>di_iter := it'\<rparr>) = di_direction d"
      using d1(4) same by (auto simp: steady_iter_def)
    note step = prev_inv_step [OF srt less.prems(6,2,5) False]
    have inv: "prev_inv s kvs p E ?vt (di_saved_key (?d\<lparr>di_iter := it'\<rparr>)) (di_saved_value (?d\<lparr>di_iter := it'\<rparr>))"
      using step same by (cases "type_of (kvs ! p)") auto
    show ?thesis
    proof (cases p)
      case 0
      then have "\<not> itValid ops it'" using sits_valid [OF it'(2)] by simp
      then have "FindPrev_loop ops Bytewise_Compare vt d = Some (?vt, ?d\<lparr>di_iter := it'\<rparr>)" using f by (simp only: if_False)
      moreover have "found_prev s kvs E ?vt (?d\<lparr>di_iter := it'\<rparr>)" by (rule prev_inv_found [OF srt st(1) inv]) (use it'(2) 0 in simp)
      ultimately show ?thesis using st(2) by blast
    next
      case (Suc p')
      then have v: "itValid ops it'" "sits it' kvs p'" using sits_valid [OF it'(2)] less.prems(2) it'(2) by auto
      have "\<exists>vt' d'. FindPrev_loop ops Bytewise_Compare ?vt (?d\<lparr>di_iter := it'\<rparr>) = Some (vt', d') \<and>
          di_direction d' = di_direction (?d\<lparr>di_iter := it'\<rparr>) \<and> found_prev s kvs E vt' d'"
        by (rule less.IH [OF _ _ _ less.prems(3) st(1)]) (use Suc v(2) less.prems(2,5) inv in auto)
      then show ?thesis unfolding f if_P [OF v(1)] st(2) .
    qed
  qed
qed

subsection \<open>The iterator on the view\<close>

text \<open>Where the user's iterator stands. Going forwards the internal iterator is on the entry shown; going backwards it is before it, with the entry saved.\<close>

definition db_at :: "u64 \<Rightarrow> (bytes \<times> bytes) list \<Rightarrow> 'it DBIter \<Rightarrow> nat \<Rightarrow> bool" where
  "db_at s kvs d i \<longleftrightarrow> steady_iter s d \<and>
     (if di_valid d then
        if di_direction d = kForward then \<exists>p. sits (di_iter d) kvs p \<and> shown s kvs p \<and> shown_before s kvs p = i
        else \<exists>q. shown s kvs q \<and> shown_before s kvs q = i \<and> (di_saved_key d, di_saved_value d) = (ukey (kvs ! q), snd (kvs ! q)) \<and>
          (sits (di_iter d) kvs (length kvs) \<and> gap s kvs 0 q \<or> (\<exists>p. sits (di_iter d) kvs p \<and> p < q \<and> gap s kvs (Suc p) q))
      else i = length (user_view s kvs) \<and> (\<exists>p. sits (di_iter d) kvs p))"

definition db_sits :: "'it DBIter \<Rightarrow> (bytes \<times> bytes) list \<Rightarrow> nat \<Rightarrow> bool" where
  "db_sits d ukvs i \<longleftrightarrow> di_sequence d \<le> kMaxSequenceNumber \<and>
     (\<exists>kvs. well_formed kvs \<and> ukvs = user_view (di_sequence d) kvs \<and> db_at (di_sequence d) kvs d i)"

lemma db_at_sits: "db_at s kvs d i \<Longrightarrow> s \<le> kMaxSequenceNumber \<Longrightarrow> well_formed kvs \<Longrightarrow> db_sits d (user_view s kvs) i"
  by (auto simp: db_sits_def db_at_def steady_iter_def)

lemma db_sitsE:
  assumes "db_sits d ukvs i"
  obtains s kvs p where "s \<le> kMaxSequenceNumber" "well_formed kvs" "ukvs = user_view s kvs" "db_at s kvs d i" "steady_iter s d" "sits (di_iter d) kvs p"
proof -
  obtain kvs where k: "di_sequence d \<le> kMaxSequenceNumber" "well_formed kvs" "ukvs = user_view (di_sequence d) kvs" "db_at (di_sequence d) kvs d i"
    using assms unfolding db_sits_def by blast
  then have "steady_iter (di_sequence d) d" "\<exists>p. sits (di_iter d) kvs p" by (auto simp: db_at_def split: if_splits)
  with k that show thesis by blast
qed

lemma found_next_at:
  assumes "found_next s kvs P d" "di_direction d = kForward" "\<And>r. P r \<longleftrightarrow> b \<le> r \<and> shown s kvs r" "b \<le> length kvs"
  shows "db_at s kvs d (shown_before s kvs b)"
proof (cases "di_valid d")
  case True
  then obtain r where r: "P r" "\<forall>q. P q \<longrightarrow> r \<le> q" "sits (di_iter d) kvs r" using assms(1) by (auto simp: found_next_def)
  have "shown_before s kvs r = shown_before s kvs b" by (rule shown_before_skip) (use r(1,2) assms(3) in \<open>auto simp: not_le [symmetric]\<close>)
  then show ?thesis using True r assms(1-3) by (auto simp: db_at_def found_next_def)
next
  case False
  then have none: "\<forall>r. \<not> P r" "\<exists>p. sits (di_iter d) kvs p" using assms(1) by (auto simp: found_next_def)
  have "shown_before s kvs (length kvs) = shown_before s kvs b" by (rule shown_before_skip [OF assms(4)]) (use none(1) assms(3) in auto)
  then show ?thesis using False none(2) assms(1) by (simp add: db_at_def found_next_def length_user_view)
qed

text \<open>Skipping the key of the entry that is shown.\<close>

lemma skip_shown:
  assumes srt: "sorted_wrt (\<lambda>a b. icmp (fst a) (fst b) < 0) kvs" and "shown s kvs q" "gap s kvs b q"
  shows "next_inv s kvs b True (ukey (kvs ! q))"
    and "next_at s kvs b True (ukey (kvs ! q)) r \<longleftrightarrow> Suc q \<le> r \<and> shown s kvs r"
proof -
  have q: "q < length kvs" "b \<le> q" using assms by (auto simp: shown_def gap_def)
  have "ukey (kvs ! r) \<le> ukey (kvs ! q)" if "r < b" for r using ukey_mono [OF srt, of r q] that q by simp
  moreover have "ukey (kvs ! q) \<le> ukey (kvs ! r)" if "b \<le> r" "r < length kvs" "seq_of (kvs ! r) \<le> s" for r
  proof -
    have "q \<le> r" using assms(3) that unfolding gap_def by (metis not_le)
    then show ?thesis using ukey_mono [OF srt, of q r] that by simp
  qed
  ultimately show "next_inv s kvs b True (ukey (kvs ! q))" by (simp add: next_inv_def)
  show "next_at s kvs b True (ukey (kvs ! q)) r \<longleftrightarrow> Suc q \<le> r \<and> shown s kvs r"
  proof
    assume n: "next_at s kvs b True (ukey (kvs ! q)) r"
    then have "\<not> r \<le> q" using ukey_mono [OF srt, of r q] q by (auto simp: next_at_def)
    then show "Suc q \<le> r \<and> shown s kvs r" using n by (simp add: next_at_def)
  next
    assume "Suc q \<le> r \<and> shown s kvs r"
    then show "next_at s kvs b True (ukey (kvs ! q)) r" using shown_ukey_less [OF srt assms(2), of r] q by (auto simp: next_at_def)
  qed
qed

lemma FindNext_sits:
  assumes "sits (di_iter d) kvs p" "well_formed kvs" "steady_iter s d" "di_direction d = kForward" "p \<le> length kvs"
    and "\<And>r r'. r < p \<Longrightarrow> seq_of (kvs ! r) \<le> s \<Longrightarrow> p \<le> r' \<Longrightarrow> r' < length kvs \<Longrightarrow> ukey (kvs ! r) \<noteq> ukey (kvs ! r')"
  shows "\<exists>d'. (if itValid ops (di_iter d) then FindNextUserEntry ops Bytewise_Compare False d else Some (d\<lparr>di_valid := False\<rparr>)) = Some d' \<and>
    db_at s kvs d' (shown_before s kvs p)"
proof (cases "p < length kvs")
  case True
  have "next_inv s kvs p False (di_saved_key d)" using assms(6) by (auto simp: next_inv_def)
  from FindNextUserEntry_ok [OF assms(1) True assms(2,3) this] obtain d' where
    d': "FindNextUserEntry ops Bytewise_Compare False d = Some d'" "di_direction d' = di_direction d"
    "found_next s kvs (next_at s kvs p False (di_saved_key d)) d'" by blast
  have "db_at s kvs d' (shown_before s kvs p)"
    by (rule found_next_at [OF d'(3)]) (use d'(2) assms(4,5) in \<open>auto simp: next_at_def\<close>)
  then show ?thesis using d'(1) sits_valid [OF assms(1)] True by auto
next
  case False
  then have "shown_before s kvs p = length (user_view s kvs)" using assms(5) by (simp add: length_user_view)
  then show ?thesis using sits_valid [OF assms(1)] False assms(1,3) by (auto simp: db_at_def steady_iter_def)
qed

lemma FindNext_skip:
  assumes "sits (di_iter d) kvs b" "well_formed kvs" "steady_iter s d" "di_direction d = kForward" "shown s kvs q" "gap s kvs b q" "di_saved_key d = ukey (kvs ! q)"
  shows "\<exists>d'. FindNextUserEntry ops Bytewise_Compare True d = Some d' \<and> db_at s kvs d' (Suc (shown_before s kvs q))"
proof -
  note srt = conjunct1 [OF sits_sorted [OF assms(1)]]
  have b: "b < length kvs" "q < length kvs" using assms(5,6) by (auto simp: gap_def shown_def)
  note skip = skip_shown [OF srt assms(5,6)]
  from FindNextUserEntry_ok [OF assms(1) b(1) assms(2,3), of True] skip(1) assms(7) obtain d' where
    d': "FindNextUserEntry ops Bytewise_Compare True d = Some d'" "di_direction d' = di_direction d"
    "found_next s kvs (next_at s kvs b True (ukey (kvs ! q))) d'" by auto
  have "db_at s kvs d' (shown_before s kvs (Suc q))"
    by (rule found_next_at [OF d'(3) _ skip(2)]) (use d'(2) assms(4) b in auto)
  then show ?thesis using d'(1) assms(5) by (simp add: shown_before_Suc)
qed

lemma di_Next_ok:
  assumes "db_at s kvs d i" "well_formed kvs" "i < length (user_view s kvs)"
  shows "\<exists>d'. di_Next ops Bytewise_Compare d = Some d' \<and> db_at s kvs d' (Suc i)"
proof -
  have valid: "di_valid d" and st: "steady_iter s d" using assms(1,3) by (auto simp: db_at_def split: if_splits)
  show ?thesis
  proof (cases "di_direction d")
    case kForward
    then obtain p where p: "sits (di_iter d) kvs p" "shown s kvs p" "shown_before s kvs p = i" using assms(1) valid by (auto simp: db_at_def)
    have "itKey ops (di_iter d) = fst (kvs ! p)" using sits_entry [OF p(1)] p(2) by (auto simp: shown_def dest: arg_cong [of _ _ fst])
    moreover have "\<exists>d'. FindNextUserEntry ops Bytewise_Compare True (d\<lparr>di_saved_key := ukey (kvs ! p)\<rparr>) = Some d' \<and> db_at s kvs d' (Suc (shown_before s kvs p))"
      by (rule FindNext_skip [OF _ assms(2) _ _ p(2), of _ p]) (use p(1) st kForward in \<open>auto simp: steady_iter_def gap_def\<close>)
    ultimately show ?thesis using kForward p(3) by (simp add: di_Next_def)
  next
    case kReverse
    then obtain q where q: "shown s kvs q" "shown_before s kvs q = i" "di_saved_key d = ukey (kvs ! q)"
        "sits (di_iter d) kvs (length kvs) \<and> gap s kvs 0 q \<or> (\<exists>p. sits (di_iter d) kvs p \<and> p < q \<and> gap s kvs (Suc p) q)"
      using assms(1) valid by (auto simp: db_at_def)
    have "\<exists>it b. (if \<not> itValid ops (di_iter d) then itSeekToFirst ops (di_iter d) else itNext ops (di_iter d)) = Some it \<and>
        sits it kvs b \<and> gap s kvs b q"
      using q(4)
    proof
      assume a: "sits (di_iter d) kvs (length kvs) \<and> gap s kvs 0 q"
      then have "\<not> itValid ops (di_iter d)" using sits_valid by blast
      then show ?thesis using first [OF conjunct1 [OF a]] a by auto
    next
      assume "\<exists>p. sits (di_iter d) kvs p \<and> p < q \<and> gap s kvs (Suc p) q"
      then obtain p where p: "sits (di_iter d) kvs p" "p < q" "gap s kvs (Suc p) q" by blast
      then have l: "p < length kvs" using q(1) by (simp add: shown_def)
      then show ?thesis using sits_valid [OF p(1)] "next" [OF p(1) l] p(3) by auto
    qed
    then obtain it b where it: "(if \<not> itValid ops (di_iter d) then itSeekToFirst ops (di_iter d) else itNext ops (di_iter d)) = Some it"
      "sits it kvs b" "gap s kvs b q" by blast
    have v: "itValid ops it" using sits_valid [OF it(2)] it(3) q(1) by (auto simp: gap_def shown_def)
    have "\<exists>d'. FindNextUserEntry ops Bytewise_Compare True (d\<lparr>di_direction := kForward, di_iter := it\<rparr>) = Some d' \<and> db_at s kvs d' (Suc (shown_before s kvs q))"
      by (rule FindNext_skip [OF _ assms(2) _ _ q(1) it(3)]) (use it(2) st q(3) in \<open>auto simp: steady_iter_def\<close>)
    moreover have "di_Next ops Bytewise_Compare d = FindNextUserEntry ops Bytewise_Compare True (d\<lparr>di_direction := kForward, di_iter := it\<rparr>)"
      using kReverse v it(1) by (simp add: di_Next_def Let_def cong: if_cong)
    ultimately show ?thesis using q(2) by simp
  qed
qed

lemma found_prev_at:
  assumes "found_prev s kvs E vt d" "E \<le> length kvs" "di_direction d = kReverse"
    and "d' = (if vt = kTypeDeletion then d\<lparr>di_valid := False, di_saved_key := [], di_saved_value := [], di_direction := kForward\<rparr>
      else d\<lparr>di_valid := True\<rparr>)"
  shows "db_at s kvs d' (if shown_before s kvs E = 0 then length (user_view s kvs) else shown_before s kvs E - 1)"
proof (cases "vt = kTypeDeletion")
  case True
  then have none: "\<forall>r<E. \<not> shown s kvs r" "\<exists>p. sits (di_iter d) kvs p" using assms(1) by (simp_all add: found_prev_def)
  have "shown_before s kvs E = shown_before s kvs 0" by (rule shown_before_skip) (use none(1) in auto)
  then have "shown_before s kvs E = 0" by (simp add: shown_before_def)
  then show ?thesis using True none(2) assms(1,4) by (auto simp: db_at_def found_prev_def steady_iter_def)
next
  case False
  then obtain q where q: "q < E" "shown s kvs q" "\<forall>r. q < r \<longrightarrow> r < E \<longrightarrow> \<not> shown s kvs r"
      "(di_saved_key d, di_saved_value d) = (ukey (kvs ! q), snd (kvs ! q))"
      "sits (di_iter d) kvs (length kvs) \<and> gap s kvs 0 q \<or> (\<exists>p. sits (di_iter d) kvs p \<and> p < q \<and> gap s kvs (Suc p) q)"
    using assms(1) unfolding found_prev_def by auto
  have "shown_before s kvs E = shown_before s kvs (Suc q)" by (rule shown_before_skip) (use q(1,3) in auto)
  then have "shown_before s kvs E = Suc (shown_before s kvs q)" using q(2) by (simp add: shown_before_Suc)
  moreover have "db_at s kvs d' (shown_before s kvs q)" unfolding db_at_def
  proof -
    have d: "di_valid d'" "di_direction d' \<noteq> kForward" "steady_iter s d'" "di_iter d' = di_iter d"
        "di_saved_key d' = di_saved_key d" "di_saved_value d' = di_saved_value d"
      using False assms(1,3,4) by (simp_all add: found_prev_def steady_iter_def)
    show "steady_iter s d' \<and>
     (if di_valid d' then
        if di_direction d' = kForward then \<exists>p. sits (di_iter d') kvs p \<and> shown s kvs p \<and> shown_before s kvs p = shown_before s kvs q
        else \<exists>q'. shown s kvs q' \<and> shown_before s kvs q' = shown_before s kvs q \<and> (di_saved_key d', di_saved_value d') = (ukey (kvs ! q'), snd (kvs ! q')) \<and>
          (sits (di_iter d') kvs (length kvs) \<and> gap s kvs 0 q' \<or> (\<exists>p. sits (di_iter d') kvs p \<and> p < q' \<and> gap s kvs (Suc p) q'))
      else shown_before s kvs q = length (user_view s kvs) \<and> (\<exists>p. sits (di_iter d') kvs p))"
      unfolding if_P [OF d(1)] if_not_P [OF d(2)] d(4-6)
      by (intro conjI d(3) exI [of _ q] HOL.refl q(2,4,5))
  qed
  ultimately show ?thesis by simp
qed

lemma FindPrevUserEntry_ok:
  assumes "sits (di_iter d) kvs p" "well_formed kvs" "steady_iter s d" "di_direction d = kReverse"
  shows "\<exists>d'. FindPrevUserEntry ops Bytewise_Compare d = Some d' \<and>
    db_at s kvs d' (if p < length kvs \<and> shown_before s kvs (Suc p) \<noteq> 0 then shown_before s kvs (Suc p) - 1 else length (user_view s kvs))"
proof (cases "p < length kvs")
  case True
  have "prev_inv s kvs (Suc p) (Suc p) kTypeDeletion (di_saved_key d) (di_saved_value d)" by (simp add: prev_inv_def)
  from FindPrev_loop_ok [OF assms(1) True assms(2,3) lessI this] obtain vt d' where
    d': "FindPrev_loop ops Bytewise_Compare kTypeDeletion d = Some (vt, d')" "di_direction d' = di_direction d" "found_prev s kvs (Suc p) vt d'" by blast
  have "FindPrevUserEntry ops Bytewise_Compare d = Some (if vt = kTypeDeletion
      then d'\<lparr>di_valid := False, di_saved_key := [], di_saved_value := [], di_direction := kForward\<rparr> else d'\<lparr>di_valid := True\<rparr>)"
    using d'(1) sits_valid [OF assms(1)] True by (simp add: FindPrevUserEntry_def)
  with found_prev_at [OF d'(3) _ _ HOL.refl] d'(2) assms(4) True show ?thesis by (auto split: if_splits)
next
  case False
  then show ?thesis using sits_valid [OF assms(1)] assms by (auto simp: FindPrevUserEntry_def db_at_def steady_iter_def)
qed

text \<open>Leaving the entries of a key backwards.\<close>

lemma di_leave_key_ok:
  assumes "sits it kvs p" "p < length kvs" "p \<le> q" "ukey (kvs ! p) = k" "q < length kvs" "ukey (kvs ! q) = k"
  shows "\<exists>it' b. di_leave_key ops Bytewise_Compare k it = Some it' \<and> b \<le> q \<and>
    (\<forall>r. b \<le> r \<longrightarrow> r \<le> q \<longrightarrow> ukey (kvs ! r) = k) \<and> sits it' kvs (if b = 0 then length kvs else b - 1)"
  using assms
proof (induction p arbitrary: it)
  case 0
  obtain it' where it': "itPrev ops it = Some it'" "sits it' kvs (length kvs)" using prev [OF 0(1,2)] by auto
  have "di_leave_key ops Bytewise_Compare k it = Some it'" using it' sits_valid [OF it'(2)] by (simp add: di_leave_key.simps [of _ _ _ it])
  moreover have "ukey (kvs ! r) = k" if "r \<le> q" for r
    using ukey_mono [OF conjunct1 [OF sits_sorted [OF 0(1)]], of 0 r] ukey_mono [OF conjunct1 [OF sits_sorted [OF 0(1)]], of r q] 0 that by auto
  ultimately show ?case using it'(2) by auto
next
  case (Suc p)
  note mono = ukey_mono [OF conjunct1 [OF sits_sorted [OF Suc.prems(1)]]]
  obtain it' where it': "itPrev ops it = Some it'" "sits it' kvs p" using prev [OF Suc.prems(1,2)] by auto
  have v: "itValid ops it'" "itKey ops it' = fst (kvs ! p)"
    using sits_valid [OF it'(2)] sits_entry [OF it'(2)] Suc.prems(2) by (auto dest: arg_cong [of _ _ fst])
  show ?case
  proof (cases "ukey (kvs ! p) < k")
    case True
    have "ukey (kvs ! r) = k" if "Suc p \<le> r" "r \<le> q" for r using mono [of "Suc p" r] mono [of r q] Suc.prems that by auto
    moreover have "di_leave_key ops Bytewise_Compare k it = Some it'" using it'(1) v True by (simp add: di_leave_key.simps [of _ _ _ it])
    ultimately show ?thesis using it'(2) Suc.prems(3) by (intro exI [of _ it'] exI [of _ "Suc p"]) auto
  next
    case False
    then have k: "ukey (kvs ! p) = k" using mono [of p "Suc p"] Suc.prems by auto
    have "di_leave_key ops Bytewise_Compare k it = di_leave_key ops Bytewise_Compare k it'"
      using it'(1) v False by (simp add: di_leave_key.simps [of _ _ _ it])
    then show ?thesis using Suc.IH [OF it'(2) _ _ k] Suc.prems by auto
  qed
qed

lemma di_Prev_ok:
  assumes "db_at s kvs d i" "well_formed kvs" "i < length (user_view s kvs)"
  shows "\<exists>d'. di_Prev ops Bytewise_Compare d = Some d' \<and> db_at s kvs d' (if i = 0 then length (user_view s kvs) else i - 1)"
proof -
  have valid: "di_valid d" and st: "steady_iter s d" using assms(1,3) by (auto simp: db_at_def split: if_splits)
  show ?thesis
  proof (cases "di_direction d")
    case kForward
    then obtain p where p: "sits (di_iter d) kvs p" "shown s kvs p" "shown_before s kvs p = i" using assms(1) valid by (auto simp: db_at_def)
    then have l: "p < length kvs" by (simp add: shown_def)
    have k: "itKey ops (di_iter d) = fst (kvs ! p)" using sits_entry [OF p(1) l] by (auto dest: arg_cong [of _ _ fst])
    obtain it b where it: "di_leave_key ops Bytewise_Compare (ukey (kvs ! p)) (di_iter d) = Some it" "b \<le> p"
      "\<forall>r. b \<le> r \<longrightarrow> r \<le> p \<longrightarrow> ukey (kvs ! r) = ukey (kvs ! p)" "sits it kvs (if b = 0 then length kvs else b - 1)"
      using di_leave_key_ok [OF p(1) l order_refl HOL.refl l HOL.refl] by blast
    have "\<not> shown s kvs r" if "b \<le> r" "r < p" for r
    proof -
      have "ukey (kvs ! r) = ukey (kvs ! p)" using it(3) that less_imp_le by blast
      moreover have "\<forall>r<p. seq_of (kvs ! r) \<le> s \<longrightarrow> ukey (kvs ! r) \<noteq> ukey (kvs ! p)" using p(2) unfolding shown_def by blast
      ultimately show ?thesis using that(2) unfolding shown_def by blast
    qed
    then have i: "shown_before s kvs b = i" using shown_before_skip [OF it(2)] p(3) by metis
    let ?d = "d\<lparr>di_saved_key := ukey (kvs ! p), di_iter := it\<rparr>"
    show ?thesis
    proof (cases b)
      case 0
      then have "\<not> itValid ops it" using sits_valid [OF it(4)] by simp
      then have "di_Prev ops Bytewise_Compare d = Some (?d\<lparr>di_valid := False, di_saved_key := [], di_saved_value := []\<rparr>)"
        using kForward k it(1) by (simp add: di_Prev_def Let_def)
      moreover have "i = 0" using i 0 by (simp add: shown_before_def)
      ultimately show ?thesis using it(4) st by (auto simp: db_at_def steady_iter_def)
    next
      case (Suc b')
      then have it': "sits it kvs b'" "b' < length kvs" using it(2,4) l by simp_all
      then have "itValid ops it" using sits_valid by blast
      then have "di_Prev ops Bytewise_Compare d = FindPrevUserEntry ops Bytewise_Compare (?d\<lparr>di_direction := kReverse\<rparr>)"
        using kForward k it(1) by (simp add: di_Prev_def Let_def)
      moreover have "\<exists>d'. FindPrevUserEntry ops Bytewise_Compare (?d\<lparr>di_direction := kReverse\<rparr>) = Some d' \<and>
          db_at s kvs d' (if b' < length kvs \<and> shown_before s kvs (Suc b') \<noteq> 0 then shown_before s kvs (Suc b') - 1 else length (user_view s kvs))"
        by (rule FindPrevUserEntry_ok) (use it'(1) st assms(2) in \<open>simp_all add: steady_iter_def\<close>)
      ultimately show ?thesis using i Suc it'(2) by (auto split: if_splits)
    qed
  next
    case kReverse
    then obtain q where q: "shown s kvs q" "shown_before s kvs q = i"
        "sits (di_iter d) kvs (length kvs) \<and> gap s kvs 0 q \<or> (\<exists>p. sits (di_iter d) kvs p \<and> p < q \<and> gap s kvs (Suc p) q)"
      using assms(1) valid by (auto simp: db_at_def)
    have none: "shown_before s kvs b = i" if "gap s kvs b q" for b
    proof -
      have "shown_before s kvs q = shown_before s kvs b"
        by (rule shown_before_skip) (use that in \<open>auto simp: gap_def shown_def\<close>)
      then show ?thesis using q(2) by simp
    qed
    have e: "di_Prev ops Bytewise_Compare d = FindPrevUserEntry ops Bytewise_Compare d" using kReverse by (simp add: di_Prev_def)
    from q(3) show ?thesis
    proof
      assume a: "sits (di_iter d) kvs (length kvs) \<and> gap s kvs 0 q"
      then have "i = 0" using none [of 0] by (simp add: shown_before_def)
      with FindPrevUserEntry_ok [OF conjunct1 [OF a] assms(2) st kReverse] show ?thesis unfolding e by simp
    next
      assume "\<exists>p. sits (di_iter d) kvs p \<and> p < q \<and> gap s kvs (Suc p) q"
      then obtain p where p: "sits (di_iter d) kvs p" "p < q" "gap s kvs (Suc p) q" by blast
      then have "p < length kvs" using q(1) by (simp add: shown_def)
      with FindPrevUserEntry_ok [OF p(1) assms(2) st kReverse] none [OF p(3)] show ?thesis unfolding e by (auto split: if_splits)
    qed
  qed
qed

lemma view_seek:
  fixes u :: bytes
  assumes "sorted_wrt (\<lambda>a b. icmp (fst a) (fst b) < 0) kvs" "\<forall>kv\<in>set kvs. 8 \<le> length (fst kv)" "well_formed kvs" "s \<le> kMaxSequenceNumber"
  defines "n \<equiv> length (takeWhile (\<lambda>kv. icmp (fst kv) (InternalKey u s kTypeValue) < 0) kvs)"
  shows "shown_before s kvs n = length (takeWhile (\<lambda>kv. Bytewise_Compare (fst kv) u < 0) (user_view s kvs))"
    and "r < n \<Longrightarrow> seq_of (kvs ! r) \<le> s \<Longrightarrow> n \<le> r' \<Longrightarrow> r' < length kvs \<Longrightarrow> ukey (kvs ! r) \<noteq> ukey (kvs ! r')"
proof -
  have n: "n \<le> length kvs" unfolding n_def by (rule length_takeWhile_le)
  have before: "ukey (kvs ! r) < u" if "r < n" "seq_of (kvs ! r) \<le> s" for r
  proof -
    have l: "r < length kvs" using that n by simp
    then have "ParseInternalKey (fst (kvs ! r)) \<noteq> None" using assms(3) nth_mem [OF l] unfolding well_formed_def by blast
    then obtain pk where pk: "ParseInternalKey (fst (kvs ! r)) = Some pk" by blast
    have "icmp (fst (kvs ! r)) (InternalKey u s kTypeValue) < 0" using before_takeWhile [OF that(1) [unfolded n_def]] .
    then show ?thesis using below_seek_key [OF pk assms(4)] shown_value [OF pk] that(2) by simp
  qed
  have after: "u \<le> ukey (kvs ! r)" if "n \<le> r" "r < length kvs" for r
  proof -
    have "\<not> icmp (fst (kvs ! n)) (InternalKey u s kTypeValue) < 0"
      using nth_length_takeWhile [of "\<lambda>kv. icmp (fst kv) (InternalKey u s kTypeValue) < 0" kvs] that by (simp add: n_def)
    then have "u \<le> ukey (kvs ! n)" by (auto simp: IKC_Compare_less Let_def not_less [symmetric])
    then show ?thesis using ukey_mono [OF assms(1) that] by simp
  qed
  show "r < n \<Longrightarrow> seq_of (kvs ! r) \<le> s \<Longrightarrow> n \<le> r' \<Longrightarrow> r' < length kvs \<Longrightarrow> ukey (kvs ! r) \<noteq> ukey (kvs ! r')"
    using before [of r] after [of r'] by auto
  have "takeWhile (\<lambda>kv. Bytewise_Compare (fst kv) u < 0) (user_view s kvs) = take (shown_before s kvs n) (user_view s kvs)"
  proof (rule takeWhile_eq_take_P_nth)
    fix i assume i: "i < shown_before s kvs n" "i < length (user_view s kvs)"
    obtain p where p: "shown s kvs p" "shown_before s kvs p = i" by (rule shown_at [OF i(2)])
    then have "p < n" using i(1) shown_before_mono [of n p s kvs] by (simp add: not_le [symmetric] del: not_le) (meson not_le)
    with p before [of p] show "Bytewise_Compare (fst (user_view s kvs ! i)) u < 0" using user_view_nth [OF p(1)] by (simp add: shown_def)
  next
    assume i: "shown_before s kvs n < length (user_view s kvs)"
    obtain p where p: "shown s kvs p" "shown_before s kvs p = shown_before s kvs n" by (rule shown_at [OF i])
    have "n \<le> p"
    proof (rule ccontr)
      assume "\<not> n \<le> p"
      then have "shown_before s kvs (Suc p) \<le> shown_before s kvs n" by (intro shown_before_mono) simp
      then show False using p by (simp add: shown_before_Suc)
    qed
    then show "\<not> Bytewise_Compare (fst (user_view s kvs ! shown_before s kvs n)) u < 0"
      using user_view_nth [OF p(1)] p after [of p] by (simp add: shown_def not_less)
  qed
  moreover have "shown_before s kvs n \<le> length (user_view s kvs)" using shown_before_mono [OF n] by (simp add: length_user_view)
  ultimately show "shown_before s kvs n = length (takeWhile (\<lambda>kv. Bytewise_Compare (fst kv) u < 0) (user_view s kvs))" by simp
qed

lemma db_sorted_iterator: "sorted_iterator (\<lambda>_. True) Bytewise_Compare (DB_Iter ops Bytewise_Compare) db_sits"
proof (unfold_locales, goal_cases)
  case (1 d ukvs i)
  then obtain s kvs p where d: "s \<le> kMaxSequenceNumber" "well_formed kvs" "ukvs = user_view s kvs" "db_at s kvs d i" "steady_iter s d" "sits (di_iter d) kvs p"
    by (rule db_sitsE)
  have "i \<le> length ukvs" using d(3,4) shown_less [of s kvs] less_imp_le unfolding db_at_def by (auto split: if_splits)
  then show ?case using user_view_sorted [OF conjunct1 [OF sits_sorted [OF d(6)]]] d(3) by simp
next
  case (2 d ukvs i)
  then obtain s kvs p where d: "s \<le> kMaxSequenceNumber" "well_formed kvs" "ukvs = user_view s kvs" "db_at s kvs d i" "steady_iter s d" "sits (di_iter d) kvs p"
    by (rule db_sitsE)
  have "di_valid d \<longleftrightarrow> i < length ukvs" using d(3,4) shown_less [of s kvs] unfolding db_at_def by (auto split: if_splits)
  moreover have "ok (di_Status ops d)" using d(5) sits_valid [OF d(6)] by (simp add: di_Status_def steady_iter_def)
  ultimately show ?case by (simp add: DB_Iter_def)
next
  case (3 d ukvs i)
  then obtain s kvs p where d: "s \<le> kMaxSequenceNumber" "well_formed kvs" "ukvs = user_view s kvs" "db_at s kvs d i" "steady_iter s d" "sits (di_iter d) kvs p"
    by (metis db_sitsE)
  have valid: "di_valid d" using d(3,4) 3(2) unfolding db_at_def by (auto split: if_splits)
  show ?case
  proof (cases "di_direction d")
    case kForward
    then obtain p where p: "sits (di_iter d) kvs p" "shown s kvs p" "shown_before s kvs p = i" using d(4) valid unfolding db_at_def by auto
    have "(itKey ops (di_iter d), itValue ops (di_iter d)) = kvs ! p" using sits_entry [OF p(1)] p(2) by (simp add: shown_def)
    then show ?thesis using user_view_nth [OF p(2)] kForward d(3) p(3) by (auto simp: DB_Iter_def di_key_def di_value_def dest: sym)
  next
    case kReverse
    then show ?thesis using user_view_nth [of s kvs] d(3,4) valid unfolding db_at_def by (auto simp: DB_Iter_def di_key_def di_value_def)
  qed
next
  case (4 d ukvs i)
  then obtain s kvs p where d: "s \<le> kMaxSequenceNumber" "well_formed kvs" "ukvs = user_view s kvs" "db_at s kvs d i" "steady_iter s d" "sits (di_iter d) kvs p"
    by (rule db_sitsE)
  obtain it where it: "itSeekToFirst ops (di_iter d) = Some it" "sits it kvs 0" using first [OF d(6)] by blast
  let ?d = "d\<lparr>di_direction := kForward, di_saved_value := [], di_iter := it\<rparr>"
  have "\<exists>d'. (if itValid ops (di_iter ?d) then FindNextUserEntry ops Bytewise_Compare False ?d else Some (?d\<lparr>di_valid := False\<rparr>)) = Some d' \<and>
      db_at s kvs d' (shown_before s kvs 0)"
    by (rule FindNext_sits [OF _ d(2)]) (use it(2) d(5) in \<open>auto simp: steady_iter_def\<close>)
  then obtain d' where "di_SeekToFirst ops Bytewise_Compare d = Some d'" "db_at s kvs d' 0"
    using it(1) by (auto simp: di_SeekToFirst_def Let_def shown_before_def)
  then show ?case using db_at_sits [OF _ d(1,2)] d(3) by (auto simp: DB_Iter_def)
next
  case (5 d ukvs i)
  then obtain s kvs p where d: "s \<le> kMaxSequenceNumber" "well_formed kvs" "ukvs = user_view s kvs" "db_at s kvs d i" "steady_iter s d" "sits (di_iter d) kvs p"
    by (rule db_sitsE)
  obtain it where it: "itSeekToLast ops (di_iter d) = Some it" "sits it kvs (length kvs - 1)" using last [OF d(6)] by blast
  let ?d = "d\<lparr>di_direction := kReverse, di_saved_value := [], di_iter := it\<rparr>" and ?p = "length kvs - 1"
  have "\<exists>d'. FindPrevUserEntry ops Bytewise_Compare ?d = Some d' \<and>
      db_at s kvs d' (if ?p < length kvs \<and> shown_before s kvs (Suc ?p) \<noteq> 0 then shown_before s kvs (Suc ?p) - 1 else length (user_view s kvs))"
    by (rule FindPrevUserEntry_ok [OF _ d(2)]) (use it(2) d(5) in \<open>auto simp: steady_iter_def\<close>)
  moreover have "(if ?p < length kvs \<and> shown_before s kvs (Suc ?p) \<noteq> 0 then shown_before s kvs (Suc ?p) - 1 else length (user_view s kvs)) = length ukvs - 1"
    by (cases kvs) (auto simp: d(3) length_user_view shown_before_def)
  ultimately obtain d' where "di_SeekToLast ops Bytewise_Compare d = Some d'" "db_at s kvs d' (length ukvs - 1)"
    using it(1) by (auto simp: di_SeekToLast_def Let_def)
  then show ?case using db_at_sits [OF _ d(1,2)] d(3) by (auto simp: DB_Iter_def)
next
  case (6 d ukvs i t)
  then obtain s kvs p where d: "s \<le> kMaxSequenceNumber" "well_formed kvs" "ukvs = user_view s kvs" "db_at s kvs d i" "steady_iter s d" "sits (di_iter d) kvs p"
    by (metis db_sitsE)
  note srt = sits_sorted [OF d(6)]
  let ?key = "InternalKey t s kTypeValue" and ?n = "length (takeWhile (\<lambda>kv. icmp (fst kv) (InternalKey t s kTypeValue) < 0) kvs)"
  obtain it where it: "itSeek ops (di_iter d) ?key = Some it" "sits it kvs ?n" using seek [OF d(6), of ?key] by auto
  let ?d = "d\<lparr>di_direction := kForward, di_saved_value := [], di_saved_key := ?key, di_iter := it\<rparr>"
  note view = view_seek [OF conjunct1 [OF srt] conjunct1 [OF conjunct2 [OF srt]] d(2,1), where u = t]
  have "\<exists>d'. (if itValid ops (di_iter ?d) then FindNextUserEntry ops Bytewise_Compare False ?d else Some (?d\<lparr>di_valid := False\<rparr>)) = Some d' \<and>
      db_at s kvs d' (shown_before s kvs ?n)"
    by (rule FindNext_sits [OF _ d(2)]) (use it(2) d(5) view(2) length_takeWhile_le in \<open>auto simp: steady_iter_def\<close>)
  then obtain d' where d': "(if itValid ops it then FindNextUserEntry ops Bytewise_Compare False ?d else Some (?d\<lparr>di_valid := False\<rparr>)) = Some d'"
      "db_at s kvs d' (shown_before s kvs ?n)" by auto
  have "di_Seek ops Bytewise_Compare d t = Some d'"
    using it(1) d'(1) d(5) by (simp add: di_Seek_def InternalKey_def kValueTypeForSeek_def steady_iter_def Let_def cong: if_cong)
  then show ?case using db_at_sits [OF d'(2) d(1,2)] d(3) view(1) by (simp add: DB_Iter_def)
next
  case (7 d ukvs i)
  then obtain s kvs p where d: "s \<le> kMaxSequenceNumber" "well_formed kvs" "ukvs = user_view s kvs" "db_at s kvs d i" "steady_iter s d" "sits (di_iter d) kvs p"
    by (metis db_sitsE)
  show ?case using di_Next_ok [OF d(4,2)] 7(2) db_at_sits [OF _ d(1,2)] d(3) by (fastforce simp: DB_Iter_def)
next
  case (8 d ukvs i)
  then obtain s kvs p where d: "s \<le> kMaxSequenceNumber" "well_formed kvs" "ukvs = user_view s kvs" "db_at s kvs d i" "steady_iter s d" "sits (di_iter d) kvs p"
    by (metis db_sitsE)
  obtain d' where d': "di_Prev ops Bytewise_Compare d = Some d'" "db_at s kvs d' (if i = 0 then length ukvs else i - 1)"
    using di_Prev_ok [OF d(4,2)] 8(2) d(3) by auto
  then show ?case using db_at_sits [OF d'(2) d(1,2)] d(3) by (simp add: DB_Iter_def)
qed

lemma NewDBIterator_sits:
  assumes "sits it kvs p" "well_formed kvs" "s \<le> kMaxSequenceNumber"
  shows "db_sits (NewDBIterator it s seed) (user_view s kvs) (length (user_view s kvs))"
proof (rule db_at_sits [OF _ assms(3,2)])
  have "seed_ok (Random_new seed)" by (rule Random_new_ok)
  then have "steady_iter s (NewDBIterator it s seed)" "\<not> di_valid (NewDBIterator it s seed)" "di_iter (NewDBIterator it s seed) = it"
    by (simp_all add: NewDBIterator_def steady_iter_def period Random_Next_ok ok_def Status_OK_def)
  then show "db_at s kvs (NewDBIterator it s seed) (length (user_view s kvs))" using assms(1) by (auto simp: db_at_def)
qed

end

interpretation merged_internal: internal_iterator "Merging_Iter (Block_Iter icmp) icmp" internal_block.merge_sits ..

interpretation user_view: sorted_iterator "\<lambda>_. True" Bytewise_Compare "DB_Iter (Merging_Iter (Block_Iter icmp) icmp) Bytewise_Compare"
    merged_internal.db_sits
  by (rule merged_internal.db_sorted_iterator)

section \<open>Properties\<close>

text \<open>C1. What a user sees. The iterator of a snapshot over merged blocks of internal keys: after any sequence
  of seeks, steps forward and steps back, in any order, it shows the entry that a cursor on the user's view of
  the merge stands on: for each user key the newest entry at or below the snapshot's sequence number,
  unless that is a deletion. Every move returns, the sampling of reads included, and the status is good.\<close>

theorem user_iterator_follows_view:
  assumes "2 \<le> length its" and "merge_ok (\<lambda>k. 8 \<le> length k) icmp ms (length its)" and "0 < interval"
    and "\<forall>j<length its. length (build_block interval (child_kvs ms j)) < 2 ^ 32 \<and>
      Block_NewIterator (Block_new (build_block interval (child_kvs ms j))) = Positioned (its ! j)"
    and "well_formed (map snd ms)" and "s \<le> kMaxSequenceNumber" and "view = user_view s (map snd ms)"
    and "run_cursor Bytewise_Compare view mvs (length view) = Some i"
  shows "\<exists>m d. NewMergingIterator (Block_Iter icmp) its = Children m \<and>
    run_moves (DB_Iter (Merging_Iter (Block_Iter icmp) icmp) Bytewise_Compare) mvs (NewDBIterator m s seed) = Some d \<and>
    ok (di_Status (Merging_Iter (Block_Iter icmp) icmp) d) \<and>
    seen (DB_Iter (Merging_Iter (Block_Iter icmp) icmp) Bytewise_Compare) d = (if i < length view then Some (view ! i) else None)"
proof -
  let ?m = "MergingIterator_new (Block_Iter icmp) its"
  have "merged_internal.db_sits (NewDBIterator ?m s seed) view (length view)"
    unfolding assms(7) by (rule merged_internal.NewDBIterator_sits [OF merged_block_sits [OF assms(2-4)] assms(5,6)])
  from user_view.moves_follow [OF this assms(8)] obtain d where
    "run_moves (DB_Iter (Merging_Iter (Block_Iter icmp) icmp) Bytewise_Compare) mvs (NewDBIterator ?m s seed) = Some d"
    "ok (itStatus (DB_Iter (Merging_Iter (Block_Iter icmp) icmp) Bytewise_Compare) d)"
    "seen (DB_Iter (Merging_Iter (Block_Iter icmp) icmp) Bytewise_Compare) d = (if i < length view then Some (view ! i) else None)" by blast
  moreover have "NewMergingIterator (Block_Iter icmp) its = Children ?m"
    using assms(1) by (cases its) (auto simp: NewMergingIterator_def)
  ultimately show ?thesis by (auto simp: DB_Iter_def)
qed

theorem user_iterator_follows_view_witness:
  "let k = (\<lambda>u s t. [u, t, s, 0, 0, 0, 0, 0, 0]);
       ms = [(0, k 1 9 1, [5]), (1, k 1 4 1, [6]), (0, k 2 3 0, []), (1, k 2 2 1, [7]), (0, k 3 1 1, [8])] in
    \<exists>its m d. NewMergingIterator (Block_Iter icmp) its = Children m \<and>
      run_moves (DB_Iter (Merging_Iter (Block_Iter icmp) icmp) Bytewise_Compare) [SeekTo [2], Back] (NewDBIterator m 5 7) = Some d \<and>
      seen (DB_Iter (Merging_Iter (Block_Iter icmp) icmp) Bytewise_Compare) d = Some ([1], [6])"
proof -
  let ?k = "\<lambda>u s t. [u, t, s, 0, 0, 0, 0, 0, 0] :: bytes"
  let ?ms = "[(0, ?k 1 9 1, [5]), (1, ?k 1 4 1, [6]), (0, ?k 2 3 0, []), (1, ?k 2 2 1, [7]), (0, ?k 3 1 1, [8])] :: merge"
  have ok: "merge_ok (\<lambda>k. 8 \<le> length k) icmp ?ms 2" by code_simp
  have s: "sorted_keys (\<lambda>k. 8 \<le> length k) icmp (child_kvs ?ms j)" for j
    using ok by (auto simp: merge_ok_def child_kvs_def sorted_keys_def)
  have len: "length (build_block 2 (child_kvs ?ms j)) < 2 ^ 32" for j
    by (rule le_less_trans [OF build_block_length]) (simp_all add: child_kvs_def)
  obtain it0 where 0: "Block_NewIterator (Block_new (build_block 2 (child_kvs ?ms 0))) = Positioned it0"
    using internal.built_block_sits [OF _ len s, of 0] by auto
  obtain it1 where 1: "Block_NewIterator (Block_new (build_block 2 (child_kvs ?ms 1))) = Positioned it1"
    using internal.built_block_sits [OF _ len s, of 1] by auto
  have view: "user_view 5 (map snd ?ms) = [([1], [6]), ([3], [8])]" by code_simp
  have "\<exists>m d. NewMergingIterator (Block_Iter icmp) [it0, it1] = Children m \<and>
    run_moves (DB_Iter (Merging_Iter (Block_Iter icmp) icmp) Bytewise_Compare) [SeekTo [2], Back] (NewDBIterator m 5 7) = Some d \<and>
    ok (di_Status (Merging_Iter (Block_Iter icmp) icmp) d) \<and>
    seen (DB_Iter (Merging_Iter (Block_Iter icmp) icmp) Bytewise_Compare) d =
      (if 0 < length [([1::8 word], [6::8 word]), ([3], [8])] then Some ([([1], [6]), ([3], [8])] ! 0) else None)"
  proof (rule user_iterator_follows_view [where interval = 2])
    show "\<forall>j<length [it0, it1]. length (build_block 2 (child_kvs ?ms j)) < 2 ^ 32 \<and>
      Block_NewIterator (Block_new (build_block 2 (child_kvs ?ms j))) = Positioned ([it0, it1] ! j)"
      using 0 1 len by (auto simp: less_Suc_eq)
    show "merge_ok (\<lambda>k. 8 \<le> length k) icmp ?ms (length [it0, it1])" using ok by (simp add: numeral_2_eq_2)
    show "[([1], [6]), ([3], [8])] = user_view 5 (map snd ?ms)" by (rule view [symmetric])
    show "well_formed (map snd ?ms)" by code_simp
  qed (simp_all add: kMaxSequenceNumber_def)
  then show ?thesis unfolding Let_def by auto
qed

end
