(* ===== verification/Version_Files.thy ===== *)
theory Version_Files
  imports Version_Edit Iterators Options Internal_Keys Complex_Main
begin

text \<open>
  \<^verbatim>\<open>db/version_set.cc\<close>, the functions on lists of files: searching a sorted level, the files that overlap a range,
  boundary files, and the iterator over the files of a level. Files are shared between versions by
  pointer, so a list of files is a list of addresses in a store of \<^verbatim>\<open>FileMetaData\<close>.
\<close>

section \<open>The code\<close>

type_synonym FileStore = "nat \<Rightarrow> FileMetaData"

definition kL0_CompactionTrigger :: nat where
  "kL0_CompactionTrigger = 4"

definition kMaxMemCompactLevel :: nat where
  "kMaxMemCompactLevel = 2"

definition TargetFileSize :: "Options \<Rightarrow> nat" where
  "TargetFileSize options = opt_max_file_size options"

definition MaxGrandParentOverlapBytes :: "Options \<Rightarrow> int" where
  "MaxGrandParentOverlapBytes options = sint (of_nat (10 * TargetFileSize options) :: u64)"

definition ExpandedCompactionByteSizeLimit :: "Options \<Rightarrow> int" where
  "ExpandedCompactionByteSizeLimit options = sint (of_nat (25 * TargetFileSize options) :: u64)"

text \<open>The numbers are integers that a double holds exactly.\<close>

fun MaxBytes_loop :: "rat \<Rightarrow> nat \<Rightarrow> rat" where
  "MaxBytes_loop result level = (if 1 < level then MaxBytes_loop (result * 10) (level - 1) else result)"

declare MaxBytes_loop.simps [simp del]

definition MaxBytesForLevel :: "nat \<Rightarrow> rat" where
  "MaxBytesForLevel level = MaxBytes_loop (10 * 1048576) level"

definition MaxFileSizeForLevel :: "Options \<Rightarrow> nat \<Rightarrow> u64" where
  "MaxFileSizeForLevel options level = of_nat (TargetFileSize options)"

definition TotalFileSize :: "FileStore \<Rightarrow> nat list \<Rightarrow> int" where
  "TotalFileSize fs files = sint (foldl (\<lambda>sum f. sum + fm_file_size (fs f)) 0 files)"

partial_function (option) FindFile_loop ::
  "(bytes \<Rightarrow> bytes \<Rightarrow> int) \<Rightarrow> FileStore \<Rightarrow> nat list \<Rightarrow> bytes \<Rightarrow> u32 \<Rightarrow> u32 \<Rightarrow> u32 option" where
  "FindFile_loop icompare fs files key left right =
     (if left < right then
        let mid = (left + right) div 2 in
        if icompare (fm_largest (fs (files ! unat mid))) key < 0 then FindFile_loop icompare fs files key (mid + 1) right
        else FindFile_loop icompare fs files key left mid
      else Some right)"

definition FindFile :: "(bytes \<Rightarrow> bytes \<Rightarrow> int) \<Rightarrow> FileStore \<Rightarrow> nat list \<Rightarrow> bytes \<Rightarrow> nat option" where
  "FindFile icompare fs files key = map_option unat (FindFile_loop icompare fs files key 0 (of_nat (length files)))"

definition smallest_user_key :: "FileMetaData \<Rightarrow> bytes" where
  "smallest_user_key f = ExtractUserKey (fm_smallest f)"

definition largest_user_key :: "FileMetaData \<Rightarrow> bytes" where
  "largest_user_key f = ExtractUserKey (fm_largest f)"

definition AfterFile :: "(bytes \<Rightarrow> bytes \<Rightarrow> int) \<Rightarrow> bytes option \<Rightarrow> FileMetaData \<Rightarrow> bool" where
  "AfterFile ucmp key f \<longleftrightarrow> (case key of None \<Rightarrow> False | Some k \<Rightarrow> ucmp k (largest_user_key f) > 0)"

definition BeforeFile :: "(bytes \<Rightarrow> bytes \<Rightarrow> int) \<Rightarrow> bytes option \<Rightarrow> FileMetaData \<Rightarrow> bool" where
  "BeforeFile ucmp key f \<longleftrightarrow> (case key of None \<Rightarrow> False | Some k \<Rightarrow> ucmp k (smallest_user_key f) < 0)"

definition SomeFileOverlapsRange ::
  "(bytes \<Rightarrow> bytes \<Rightarrow> int) \<Rightarrow> bool \<Rightarrow> FileStore \<Rightarrow> nat list \<Rightarrow> bytes option \<Rightarrow> bytes option \<Rightarrow> bool option" where
  "SomeFileOverlapsRange ucmp disjoint_sorted_files fs files smallest largest =
     (if \<not> disjoint_sorted_files then
        Some (list_ex (\<lambda>f. \<not> (AfterFile ucmp smallest (fs f) \<or> BeforeFile ucmp largest (fs f))) files)
      else
        map_option (\<lambda>index.
            if index \<ge> length files then False else \<not> BeforeFile ucmp largest (fs (files ! index)))
          (case smallest of None \<Rightarrow> Some 0
           | Some k \<Rightarrow> FindFile (IKC_Compare ucmp) fs files (InternalKey k kMaxSequenceNumber kValueTypeForSeek)))"

subsection \<open>The iterator over the files of a level\<close>

record LevelFileNumIterator =
  lf_flist :: "nat list"
  lf_index :: u32

definition LevelFileNumIterator_new :: "nat list \<Rightarrow> LevelFileNumIterator" where
  "LevelFileNumIterator_new flist = \<lparr>lf_flist = flist, lf_index = of_nat (length flist)\<rparr>"

definition lf_Valid :: "LevelFileNumIterator \<Rightarrow> bool" where
  "lf_Valid it \<longleftrightarrow> unat (lf_index it) < length (lf_flist it)"

definition lf_Seek :: "(bytes \<Rightarrow> bytes \<Rightarrow> int) \<Rightarrow> FileStore \<Rightarrow> LevelFileNumIterator \<Rightarrow> bytes \<Rightarrow> LevelFileNumIterator option" where
  "lf_Seek icompare fs it target =
     map_option (\<lambda>i. it\<lparr>lf_index := of_nat i\<rparr>) (FindFile icompare fs (lf_flist it) target)"

definition lf_SeekToFirst :: "LevelFileNumIterator \<Rightarrow> LevelFileNumIterator" where
  "lf_SeekToFirst it = it\<lparr>lf_index := 0\<rparr>"

definition lf_SeekToLast :: "LevelFileNumIterator \<Rightarrow> LevelFileNumIterator" where
  "lf_SeekToLast it = it\<lparr>lf_index := (if lf_flist it = [] then 0 else of_nat (length (lf_flist it)) - 1)\<rparr>"

definition lf_Next :: "LevelFileNumIterator \<Rightarrow> LevelFileNumIterator" where
  "lf_Next it = it\<lparr>lf_index := lf_index it + 1\<rparr>"

definition lf_Prev :: "LevelFileNumIterator \<Rightarrow> LevelFileNumIterator" where
  "lf_Prev it = it\<lparr>lf_index := (if lf_index it = 0 then of_nat (length (lf_flist it)) else lf_index it - 1)\<rparr>"

definition lf_key :: "FileStore \<Rightarrow> LevelFileNumIterator \<Rightarrow> bytes" where
  "lf_key fs it = fm_largest (fs (lf_flist it ! unat (lf_index it)))"

definition lf_value :: "FileStore \<Rightarrow> LevelFileNumIterator \<Rightarrow> bytes" where
  "lf_value fs it =
     (let f = fs (lf_flist it ! unat (lf_index it)) in EncodeFixed64 (fm_number f) @ EncodeFixed64 (fm_file_size f))"

definition LevelFileNum_Iter :: "(bytes \<Rightarrow> bytes \<Rightarrow> int) \<Rightarrow> FileStore \<Rightarrow> LevelFileNumIterator IteratorOps" where
  "LevelFileNum_Iter icompare fs =
     \<lparr>itValid = lf_Valid, itSeekToFirst = \<lambda>it. Some (lf_SeekToFirst it), itSeekToLast = \<lambda>it. Some (lf_SeekToLast it),
      itSeek = lf_Seek icompare fs, itNext = \<lambda>it. Some (lf_Next it), itPrev = \<lambda>it. Some (lf_Prev it),
      itKey = lf_key fs, itValue = lf_value fs, itStatus = \<lambda>_. Status_OK\<rparr>"

subsection \<open>Files that overlap a range\<close>

text \<open>In level 0 the search restarts whenever a file extends the range.\<close>

partial_function (option) overlap_loop ::
  "(bytes \<Rightarrow> bytes \<Rightarrow> int) \<Rightarrow> FileStore \<Rightarrow> nat \<Rightarrow> nat list \<Rightarrow> bytes option \<times> bytes option \<Rightarrow> nat \<times> nat list \<Rightarrow> nat list option" where
  "overlap_loop ucmp fs level files bounds st =
     (case st of (i, inputs) \<Rightarrow> case bounds of (user_begin, user_end) \<Rightarrow>
      if i < length files then
        let f = files ! i; i = i + 1; file_start = smallest_user_key (fs f); file_limit = largest_user_key (fs f) in
        if user_begin \<noteq> None \<and> ucmp file_limit (the user_begin) < 0 then overlap_loop ucmp fs level files bounds (i, inputs)
        else if user_end \<noteq> None \<and> ucmp file_start (the user_end) > 0 then overlap_loop ucmp fs level files bounds (i, inputs)
        else
          let inputs = inputs @ [f] in
          if level = 0 \<and> user_begin \<noteq> None \<and> ucmp file_start (the user_begin) < 0
          then overlap_loop ucmp fs level files (Some file_start, user_end) (0, [])
          else if level = 0 \<and> user_end \<noteq> None \<and> ucmp file_limit (the user_end) > 0
          then overlap_loop ucmp fs level files (user_begin, Some file_limit) (0, [])
          else overlap_loop ucmp fs level files bounds (i, inputs)
      else Some inputs)"

definition GetOverlappingInputs ::
  "(bytes \<Rightarrow> bytes \<Rightarrow> int) \<Rightarrow> FileStore \<Rightarrow> nat list list \<Rightarrow> nat \<Rightarrow> bytes option \<Rightarrow> bytes option \<Rightarrow> nat list option" where
  "GetOverlappingInputs ucmp fs files level begin_key end_key =
     overlap_loop ucmp fs level (files ! level) (map_option ExtractUserKey begin_key, map_option ExtractUserKey end_key) (0, [])"

subsection \<open>Ranges and boundary files\<close>

fun range_loop :: "(bytes \<Rightarrow> bytes \<Rightarrow> int) \<Rightarrow> FileStore \<Rightarrow> nat list \<Rightarrow> bytes \<Rightarrow> bytes \<Rightarrow> bytes \<times> bytes" where
  "range_loop icompare fs [] smallest largest = (smallest, largest)"
| "range_loop icompare fs (f # files) smallest largest =
     range_loop icompare fs files
       (if icompare (fm_smallest (fs f)) smallest < 0 then fm_smallest (fs f) else smallest)
       (if icompare (fm_largest (fs f)) largest > 0 then fm_largest (fs f) else largest)"

fun GetRange :: "(bytes \<Rightarrow> bytes \<Rightarrow> int) \<Rightarrow> FileStore \<Rightarrow> nat list \<Rightarrow> bytes \<times> bytes" where
  "GetRange icompare fs [] = ([], [])"
| "GetRange icompare fs (f # files) = range_loop icompare fs files (fm_smallest (fs f)) (fm_largest (fs f))"

definition GetRange2 :: "(bytes \<Rightarrow> bytes \<Rightarrow> int) \<Rightarrow> FileStore \<Rightarrow> nat list \<Rightarrow> nat list \<Rightarrow> bytes \<times> bytes" where
  "GetRange2 icompare fs inputs1 inputs2 = GetRange icompare fs (inputs1 @ inputs2)"

fun FindLargestKey :: "(bytes \<Rightarrow> bytes \<Rightarrow> int) \<Rightarrow> FileStore \<Rightarrow> nat list \<Rightarrow> bytes option" where
  "FindLargestKey icompare fs [] = None"
| "FindLargestKey icompare fs (f # files) =
     Some (foldl (\<lambda>largest_key f. if icompare (fm_largest (fs f)) largest_key > 0 then fm_largest (fs f) else largest_key)
       (fm_largest (fs f)) files)"

definition FindSmallestBoundaryFile :: "(bytes \<Rightarrow> bytes \<Rightarrow> int) \<Rightarrow> FileStore \<Rightarrow> nat list \<Rightarrow> bytes \<Rightarrow> nat option" where
  "FindSmallestBoundaryFile ucmp fs level_files largest_key =
     foldl (\<lambda>smallest_boundary_file f.
         if IKC_Compare ucmp (fm_smallest (fs f)) largest_key > 0 \<and>
            ucmp (smallest_user_key (fs f)) (ExtractUserKey largest_key) = 0 \<and>
            (case smallest_boundary_file of None \<Rightarrow> True
             | Some b \<Rightarrow> IKC_Compare ucmp (fm_smallest (fs f)) (fm_smallest (fs b)) < 0)
         then Some f else smallest_boundary_file)
       None level_files"

partial_function (option) boundary_loop ::
  "(bytes \<Rightarrow> bytes \<Rightarrow> int) \<Rightarrow> FileStore \<Rightarrow> nat list \<Rightarrow> bytes \<Rightarrow> nat list \<Rightarrow> nat list option" where
  "boundary_loop ucmp fs level_files largest_key compaction_files =
     (case FindSmallestBoundaryFile ucmp fs level_files largest_key of
        None \<Rightarrow> Some compaction_files
      | Some f \<Rightarrow> boundary_loop ucmp fs level_files (fm_largest (fs f)) (compaction_files @ [f]))"

definition AddBoundaryInputs :: "(bytes \<Rightarrow> bytes \<Rightarrow> int) \<Rightarrow> FileStore \<Rightarrow> nat list \<Rightarrow> nat list \<Rightarrow> nat list option" where
  "AddBoundaryInputs ucmp fs level_files compaction_files =
     (case FindLargestKey (IKC_Compare ucmp) fs compaction_files of
        None \<Rightarrow> Some compaction_files
      | Some largest_key \<Rightarrow> boundary_loop ucmp fs level_files largest_key compaction_files)"

section \<open>Sorted levels\<close>

definition file_ok :: "FileMetaData \<Rightarrow> bool" where
  "file_ok f \<longleftrightarrow> ParseInternalKey (fm_smallest f) \<noteq> None \<and> ParseInternalKey (fm_largest f) \<noteq> None \<and> icmp (fm_smallest f) (fm_largest f) \<le> 0"

text \<open>A level above 0: the ranges of the files are disjoint and in order.\<close>

definition level_sorted :: "FileStore \<Rightarrow> nat list \<Rightarrow> bool" where
  "level_sorted fs files \<longleftrightarrow> (\<forall>f\<in>set files. file_ok (fs f)) \<and>
     sorted_wrt (\<lambda>f g. icmp (fm_largest (fs f)) (fm_smallest (fs g)) < 0) files"

lemma level_sorted_largest:
  assumes "level_sorted fs files" "i < j" "j < length files"
  shows "icmp (fm_largest (fs (files ! i))) (fm_largest (fs (files ! j))) < 0"
proof -
  have "icmp (fm_largest (fs (files ! i))) (fm_smallest (fs (files ! j))) < 0" using assms by (simp add: level_sorted_def sorted_wrt_iff_nth_less)
  moreover have "icmp (fm_smallest (fs (files ! j))) (fm_largest (fs (files ! j))) \<le> 0" using assms by (simp add: level_sorted_def file_ok_def)
  ultimately show ?thesis by (rule icmp_less_le_trans)
qed

lemma level_sorted_smallest:
  assumes "level_sorted fs files" "i \<le> j" "j < length files"
  shows "icmp (fm_smallest (fs (files ! i))) (fm_smallest (fs (files ! j))) \<le> 0"
proof (cases "i = j")
  case False
  then have "icmp (fm_largest (fs (files ! i))) (fm_smallest (fs (files ! j))) < 0" using assms by (simp add: level_sorted_def sorted_wrt_iff_nth_less)
  moreover have "icmp (fm_smallest (fs (files ! i))) (fm_largest (fs (files ! i))) \<le> 0" using assms by (simp add: level_sorted_def file_ok_def)
  ultimately have "icmp (fm_smallest (fs (files ! i))) (fm_smallest (fs (files ! j))) < 0" by (rule icmp_le_less_trans [rotated])
  then show ?thesis by simp
qed simp

subsection \<open>The binary search\<close>

lemma mid_down: "l \<le> r \<Longrightarrow> r < 2 ^ 31 \<Longrightarrow> (of_nat l + of_nat r) div 2 = (of_nat ((l + r) div 2) :: u32)"
proof -
  assume b: "l \<le> r" "r < 2 ^ 31"
  then have "unat (of_nat (l + r) :: u32) = l + r" by (intro u32_nat) simp
  moreover have "unat (of_nat ((l + r) div 2) :: u32) = (l + r) div 2" using b by (intro u32_nat) simp
  ultimately have "(of_nat (l + r) :: u32) div 2 = of_nat ((l + r) div 2)"
    by (simp add: word_unat_eq_iff unat_div del: of_nat_add)
  then show ?thesis by simp
qed

lemma FindFile_loop_ok:
  assumes "l \<le> r" "r \<le> length files" "length files < 2 ^ 31"
    and "\<And>i. i < l \<Longrightarrow> icompare (fm_largest (fs (files ! i))) key < 0"
    and "\<And>i. r \<le> i \<Longrightarrow> i < length files \<Longrightarrow> \<not> icompare (fm_largest (fs (files ! i))) key < 0"
    and "\<And>i j. i \<le> j \<Longrightarrow> j < length files \<Longrightarrow> icompare (fm_largest (fs (files ! j))) key < 0 \<Longrightarrow> icompare (fm_largest (fs (files ! i))) key < 0"
  shows "FindFile_loop icompare fs files key (of_nat l) (of_nat r) =
    Some (of_nat (length (takeWhile (\<lambda>f. icompare (fm_largest (fs f)) key < 0) files)))"
  using assms
proof (induction "r - l" arbitrary: l r rule: less_induct)
  case less
  let ?n = "length (takeWhile (\<lambda>f. icompare (fm_largest (fs f)) key < 0) files)" and ?m = "(l + r) div 2"
  have lt: "(of_nat l :: u32) < of_nat r \<longleftrightarrow> l < r" using less.prems(1-3) by (intro u32_less) simp_all
  have mid: "(of_nat l + of_nat r) div 2 = (of_nat ?m :: u32)" "unat (of_nat ?m :: u32) = ?m"
    using less.prems(1-3) by (auto intro!: mid_down u32_nat)
  show ?case
  proof (cases "l < r")
    case False
    then have lr: "l = r" using less.prems(1) by simp
    have "takeWhile (\<lambda>f. icompare (fm_largest (fs f)) key < 0) files = take r files"
      by (rule takeWhile_eq_take_P_nth) (use less.prems(4,5) lr in auto)
    then have "?n = r" using less.prems(2) by simp
    then show ?thesis using lr by (subst FindFile_loop.simps) simp
  next
    case True
    then have m: "?m < r" "l \<le> ?m" by auto
    have e: "FindFile_loop icompare fs files key (of_nat l) (of_nat r) =
        (if icompare (fm_largest (fs (files ! ?m))) key < 0 then FindFile_loop icompare fs files key (of_nat (?m + 1)) (of_nat r)
         else FindFile_loop icompare fs files key (of_nat l) (of_nat ?m))"
      using lt True by (subst FindFile_loop.simps) (simp add: mid Let_def add.commute)
    show ?thesis
    proof (cases "icompare (fm_largest (fs (files ! ?m))) key < 0")
      case before: True
      have "FindFile_loop icompare fs files key (of_nat (?m + 1)) (of_nat r) = Some (of_nat ?n)"
      proof (rule less.hyps [OF _ _ less.prems(2,3) _ less.prems(5,6)])
        show "icompare (fm_largest (fs (files ! i))) key < 0" if "i < ?m + 1" for i
          using less.prems(6) [OF _ _ before, of i] that m less.prems(2) by simp
      qed (use m in auto)
      then show ?thesis unfolding e if_P [OF before] .
    next
      case after: False
      have "FindFile_loop icompare fs files key (of_nat l) (of_nat ?m) = Some (of_nat ?n)"
      proof (rule less.hyps [OF _ _ _ less.prems(3,4) _ less.prems(6)])
        show "\<not> icompare (fm_largest (fs (files ! i))) key < 0" if "?m \<le> i" "i < length files" for i
          using less.prems(6) [OF that] after by blast
      qed (use m less.prems(2) in auto)
      then show ?thesis unfolding e if_not_P [OF after] .
    qed
  qed
qed

text \<open>The search finds the first file that does not end before the key.\<close>

lemma FindFile_ok:
  assumes "level_sorted fs files" "length files < 2 ^ 31"
  shows "FindFile icmp fs files key = Some (length (takeWhile (\<lambda>f. icmp (fm_largest (fs f)) key < 0) files))"
proof -
  let ?n = "length (takeWhile (\<lambda>f. icmp (fm_largest (fs f)) key < 0) files)"
  have mono: "icmp (fm_largest (fs (files ! i))) key < 0" if "i \<le> j" "j < length files" "icmp (fm_largest (fs (files ! j))) key < 0" for i j
    using that level_sorted_largest [OF assms(1), of i j] icmp_less_trans [of _ _ key] by (cases "i = j") auto
  have "FindFile_loop icmp fs files key (of_nat 0) (of_nat (length files)) = Some (of_nat ?n)"
    by (rule FindFile_loop_ok) (use assms(2) mono in auto)
  moreover have "?n < 2 ^ 32" using length_takeWhile_le [of "\<lambda>f. icmp (fm_largest (fs f)) key < 0" files] assms(2) by simp
  then have "unat (of_nat ?n :: u32) = ?n" by (rule u32_nat)
  ultimately show ?thesis by (simp add: FindFile_def)
qed

subsection \<open>Overlap\<close>

definition overlaps :: "bytes option \<Rightarrow> bytes option \<Rightarrow> FileMetaData \<Rightarrow> bool" where
  "overlaps b e f \<longleftrightarrow> \<not> AfterFile Bytewise_Compare b f \<and> \<not> BeforeFile Bytewise_Compare e f"

lemma overlaps_iff: "overlaps b e f \<longleftrightarrow> (\<forall>k. b = Some k \<longrightarrow> k \<le> largest_user_key f) \<and> (\<forall>k. e = Some k \<longrightarrow> smallest_user_key f \<le> k)"
  by (auto simp: overlaps_def AfterFile_def BeforeFile_def not_less split: option.splits)

lemma SomeFileOverlapsRange_ok:
  assumes "disjoint_sorted_files \<Longrightarrow> level_sorted fs files \<and> length files < 2 ^ 31"
  shows "SomeFileOverlapsRange Bytewise_Compare disjoint_sorted_files fs files b e = Some (\<exists>f\<in>set files. overlaps b e (fs f))"
proof (cases disjoint_sorted_files)
  case False
  then show ?thesis by (auto simp: SomeFileOverlapsRange_def overlaps_def list_ex_iff)
next
  case True
  note srt = assms [OF True, THEN conjunct1] and len = assms [OF True, THEN conjunct2]
  have ok: "ParseInternalKey (fm_largest (fs f)) \<noteq> None" if "f \<in> set files" for f using srt that by (auto simp: level_sorted_def file_ok_def)
  define n where "n = (case b of None \<Rightarrow> 0 | Some k \<Rightarrow> length (takeWhile (\<lambda>f. largest_user_key (fs f) < k) files))"
  have n: "(case b of None \<Rightarrow> Some 0 | Some k \<Rightarrow> FindFile icmp fs files (InternalKey k kMaxSequenceNumber kValueTypeForSeek)) = Some n"
  proof (cases b)
    case (Some k)
    have "takeWhile (\<lambda>f. icmp (fm_largest (fs f)) (InternalKey k kMaxSequenceNumber kTypeValue) < 0) files =
        takeWhile (\<lambda>f. largest_user_key (fs f) < k) files"
      by (rule takeWhile_cong) (simp_all add: below_first [OF ok] largest_user_key_def)
    then show ?thesis using FindFile_ok [OF srt len] Some by (simp add: n_def kValueTypeForSeek_def)
  qed (simp add: n_def)
  have after: "AfterFile Bytewise_Compare b (fs (files ! i))" if "i < n" for i
    using before_takeWhile [of i] that by (auto simp: n_def AfterFile_def split: option.splits)
  have not_after: "\<not> AfterFile Bytewise_Compare b (fs (files ! i))" if "n \<le> i" "i < length files" for i
  proof (cases b)
    case (Some k)
    then have "\<not> largest_user_key (fs (files ! n)) < k" using nth_length_takeWhile [of "\<lambda>f. largest_user_key (fs f) < k" files] that by (simp add: n_def)
    moreover have "largest_user_key (fs (files ! n)) \<le> largest_user_key (fs (files ! i))"
      using level_sorted_largest [OF srt, of n i] that icmp_less_ukey by (cases "n = i") (auto simp: largest_user_key_def)
    ultimately show ?thesis using Some by (auto simp: AfterFile_def)
  qed (simp add: AfterFile_def)
  have before: "BeforeFile Bytewise_Compare e (fs (files ! i))" if "n \<le> i" "i < length files" "BeforeFile Bytewise_Compare e (fs (files ! n))" for i
    using that icmp_le_ukey [OF level_sorted_smallest [OF srt that(1,2)]] by (auto simp: BeforeFile_def smallest_user_key_def split: option.splits)
  have "(if n \<ge> length files then False else \<not> BeforeFile Bytewise_Compare e (fs (files ! n))) \<longleftrightarrow> (\<exists>f\<in>set files. overlaps b e (fs f))"
  proof (cases "n < length files \<and> \<not> BeforeFile Bytewise_Compare e (fs (files ! n))")
    case True
    then have "overlaps b e (fs (files ! n))" using not_after [of n] by (simp add: overlaps_def)
    then show ?thesis using True by (auto intro: nth_mem)
  next
    case False
    have "\<not> overlaps b e (fs (files ! i))" if "i < length files" for i
      using after [of i] before [OF _ that] False that by (cases "i < n") (auto simp: overlaps_def)
    then have "\<not> (\<exists>f\<in>set files. overlaps b e (fs f))" by (auto simp: in_set_conv_nth)
    then show ?thesis using False by auto
  qed
  then show ?thesis using True n by (simp add: SomeFileOverlapsRange_def kValueTypeForSeek_def)
qed

text \<open>A file inside a range, and one range inside another.\<close>

definition inside :: "bytes option \<Rightarrow> bytes option \<Rightarrow> FileMetaData \<Rightarrow> bool" where
  "inside b e f \<longleftrightarrow> (\<forall>k. b = Some k \<longrightarrow> k \<le> smallest_user_key f) \<and> (\<forall>k. e = Some k \<longrightarrow> largest_user_key f \<le> k)"

definition wider :: "bytes option \<times> bytes option \<Rightarrow> bytes option \<times> bytes option \<Rightarrow> bool" where
  "wider R r \<longleftrightarrow> rel_option (\<le>) (fst R) (fst r) \<and> rel_option (\<le>) (snd r) (snd R)"

lemma wider_refl [simp]: "wider r r"
  by (simp add: wider_def option.rel_refl)

lemma wider_trans:
  assumes "wider R r" "wider r r'"
  shows "wider R r'"
proof -
  have "rel_option (\<le>) a c" if "rel_option (\<le>) a b" "rel_option (\<le>) b c" for a b c :: "bytes option"
    using that by (cases a; cases b; cases c) auto
  then show ?thesis using assms unfolding wider_def by blast
qed

lemma wider_overlaps: "wider (B, E) (b, e) \<Longrightarrow> overlaps b e f \<Longrightarrow> overlaps B E f"
  by (cases b; cases e; cases B; cases E) (auto simp: wider_def overlaps_iff intro: order_trans)

text \<open>A range is closed when the files of the level that overlap it lie inside it.\<close>

definition closed_range :: "FileStore \<Rightarrow> nat list \<Rightarrow> bytes option \<times> bytes option \<Rightarrow> bool" where
  "closed_range fs files r \<longleftrightarrow> (\<forall>f\<in>set files. overlaps (fst r) (snd r) (fs f) \<longrightarrow> inside (fst r) (snd r) (fs f))"

lemma overlap_loop_disjoint:
  "level \<noteq> 0 \<Longrightarrow> overlap_loop Bytewise_Compare fs level files (b, e) (i, inputs) =
    Some (inputs @ filter (\<lambda>f. overlaps b e (fs f)) (drop i files))"
proof (induction "length files - i" arbitrary: i inputs)
  case 0
  then show ?case by (subst overlap_loop.simps) simp
next
  case (Suc n)
  then have i: "i < length files" by simp
  have IH: "overlap_loop Bytewise_Compare fs level files (b, e) (Suc i, inputs) =
      Some (inputs @ filter (\<lambda>f. overlaps b e (fs f)) (drop (Suc i) files))" for inputs
    using Suc.hyps(1) [of "Suc i"] Suc.hyps(2) Suc.prems by simp
  have "overlap_loop Bytewise_Compare fs level files (b, e) (i, inputs) =
      overlap_loop Bytewise_Compare fs level files (b, e) (Suc i, inputs @ (if overlaps b e (fs (files ! i)) then [files ! i] else []))"
    using i Suc.prems by (subst overlap_loop.simps) (auto simp: Let_def overlaps_iff not_less)
  also have "\<dots> = Some ((inputs @ (if overlaps b e (fs (files ! i)) then [files ! i] else [])) @ filter (\<lambda>f. overlaps b e (fs f)) (drop (Suc i) files))"
    by (rule IH)
  finally show ?case using i by (simp add: Cons_nth_drop_Suc [symmetric])
qed

text \<open>In level 0 every restart takes the end of a file out of what sticks out of the range.\<close>

definition sticking_out :: "FileStore \<Rightarrow> nat list \<Rightarrow> bytes option \<times> bytes option \<Rightarrow> nat" where
  "sticking_out fs files r =
     card {f \<in> set files. \<exists>k. fst r = Some k \<and> smallest_user_key (fs f) < k} +
     card {f \<in> set files. \<exists>k. snd r = Some k \<and> k < largest_user_key (fs f)}"

lemma sticking_out_less:
  assumes "f \<in> set files"
  shows "smallest_user_key (fs f) < k \<Longrightarrow> sticking_out fs files (Some (smallest_user_key (fs f)), e) < sticking_out fs files (Some k, e)"
    and "k < largest_user_key (fs f) \<Longrightarrow> sticking_out fs files (b, Some (largest_user_key (fs f))) < sticking_out fs files (b, Some k)"
proof -
  assume k: "smallest_user_key (fs f) < k"
  have "{g \<in> set files. smallest_user_key (fs g) < smallest_user_key (fs f)} \<subset> {g \<in> set files. smallest_user_key (fs g) < k}"
    using assms k by (auto intro: less_trans)
  then have "card {g \<in> set files. smallest_user_key (fs g) < smallest_user_key (fs f)} < card {g \<in> set files. smallest_user_key (fs g) < k}"
    by (rule psubset_card_mono [rotated]) simp
  then show "sticking_out fs files (Some (smallest_user_key (fs f)), e) < sticking_out fs files (Some k, e)" by (simp add: sticking_out_def)
next
  assume k: "k < largest_user_key (fs f)"
  have "{g \<in> set files. largest_user_key (fs f) < largest_user_key (fs g)} \<subset> {g \<in> set files. k < largest_user_key (fs g)}"
    using assms k by (auto intro: less_trans)
  then have "card {g \<in> set files. largest_user_key (fs f) < largest_user_key (fs g)} < card {g \<in> set files. k < largest_user_key (fs g)}"
    by (rule psubset_card_mono [rotated]) simp
  then show "sticking_out fs files (b, Some (largest_user_key (fs f))) < sticking_out fs files (b, Some k)" by (simp add: sticking_out_def)
qed

lemma overlap_loop_closed:
  assumes "inputs = filter (\<lambda>f. overlaps (fst r) (snd r) (fs f)) (take i files)" "\<forall>f\<in>set inputs. inside (fst r) (snd r) (fs f)" "i \<le> length files"
  shows "\<exists>R inputs'. overlap_loop Bytewise_Compare fs 0 files r (i, inputs) = Some inputs' \<and>
    inputs' = filter (\<lambda>f. overlaps (fst R) (snd R) (fs f)) files \<and> closed_range fs files R \<and> wider R r \<and>
    (\<forall>R'. wider R' r \<longrightarrow> closed_range fs files R' \<longrightarrow> wider R' R)"
  using assms
proof (induction "(sticking_out fs files r, length files - i)" arbitrary: r i inputs rule: wf_induct_rule [OF wf_lex_prod [OF wf_less_than wf_less_than], case_names less])
  case less
  obtain b e where r: "r = (b, e)" by (cases r)
  let ?loop = "overlap_loop Bytewise_Compare fs 0 files"
  show ?case
  proof (cases "i < length files")
    case False
    then have "?loop r (i, inputs) = Some inputs" by (subst overlap_loop.simps) (simp add: r)
    then show ?thesis using less.prems False by (intro exI [of _ r] exI [of _ inputs]) (auto simp: closed_range_def)
  next
    case i: True
    let ?f = "files ! i"
    have f: "?f \<in> set files" using i by simp
    note take = take_Suc_conv_app_nth [OF i]
    have restart: ?thesis if w: "wider r' r" and l: "sticking_out fs files r' < sticking_out fs files r" and e: "?loop r (i, inputs) = ?loop r' (0, [])"
        and m: "\<And>R'. wider R' r \<Longrightarrow> closed_range fs files R' \<Longrightarrow> wider R' r'" for r'
    proof -
      obtain R inputs' where R: "?loop r' (0, []) = Some inputs'" "inputs' = filter (\<lambda>f. overlaps (fst R) (snd R) (fs f)) files"
          "closed_range fs files R" "wider R r'" "\<And>R'. wider R' r' \<Longrightarrow> closed_range fs files R' \<Longrightarrow> wider R' R"
        using less.hyps [of r' 0 "[]"] l by auto
      show ?thesis using e m R wider_trans [OF R(4) w] by (intro exI [of _ R] exI [of _ inputs']) simp
    qed
    have step: ?thesis if "?loop r (i, inputs) = ?loop r (Suc i, inputs')"
        "inputs' = filter (\<lambda>f. overlaps (fst r) (snd r) (fs f)) (take (Suc i) files)" "\<forall>f\<in>set inputs'. inside (fst r) (snd r) (fs f)" for inputs'
      using less.hyps [of r "Suc i" inputs', OF _ that(2,3)] i that(1) by auto
    show ?thesis
    proof (cases "overlaps b e (fs ?f)")
      case False
      have "?loop r (i, inputs) = ?loop r (Suc i, inputs)"
        using i False by (subst overlap_loop.simps) (auto simp: r Let_def overlaps_iff not_le)
      then show ?thesis by (rule step) (use less.prems False in \<open>auto simp: take r\<close>)
    next
      case True
      show ?thesis
      proof (cases "\<exists>k. b = Some k \<and> smallest_user_key (fs ?f) < k")
        case left: True
        then obtain k where k: "b = Some k" "smallest_user_key (fs ?f) < k" by blast
        show ?thesis
        proof (rule restart [of "(Some (smallest_user_key (fs ?f)), e)"])
          show "wider (Some (smallest_user_key (fs ?f)), e) r" using k by (simp add: wider_def r option.rel_refl)
          show "sticking_out fs files (Some (smallest_user_key (fs ?f)), e) < sticking_out fs files r"
            using sticking_out_less(1) [where fs = fs, OF f k(2)] k(1) by (simp add: r)
          show "?loop r (i, inputs) = ?loop (Some (smallest_user_key (fs ?f)), e) (0, [])"
            using i True k by (subst overlap_loop.simps) (auto simp: r Let_def overlaps_iff not_less)
          fix R' assume R': "wider R' r" "closed_range fs files R'"
          obtain B E where B: "R' = (B, E)" by (cases R')
          have "inside B E (fs ?f)" using R'(2) f wider_overlaps [OF R'(1) [unfolded B r] True] by (auto simp: closed_range_def B)
          then show "wider R' (Some (smallest_user_key (fs ?f)), e)" using R'(1) k by (auto simp: wider_def B r inside_def option_rel_Some2)
        qed
      next
        case nl: False
        show ?thesis
        proof (cases "\<exists>k. e = Some k \<and> k < largest_user_key (fs ?f)")
          case right: True
          then obtain k where k: "e = Some k" "k < largest_user_key (fs ?f)" by blast
          show ?thesis
          proof (rule restart [of "(b, Some (largest_user_key (fs ?f)))"])
            show "wider (b, Some (largest_user_key (fs ?f))) r" using k by (simp add: wider_def r option.rel_refl)
            show "sticking_out fs files (b, Some (largest_user_key (fs ?f))) < sticking_out fs files r"
              using sticking_out_less(2) [where fs = fs, OF f k(2)] k(1) by (simp add: r)
            show "?loop r (i, inputs) = ?loop (b, Some (largest_user_key (fs ?f))) (0, [])"
              using i True k nl by (subst overlap_loop.simps) (auto simp: r Let_def overlaps_iff not_less)
            fix R' assume R': "wider R' r" "closed_range fs files R'"
            obtain B E where B: "R' = (B, E)" by (cases R')
            have "inside B E (fs ?f)" using R'(2) f wider_overlaps [OF R'(1) [unfolded B r] True] by (auto simp: closed_range_def B)
            then show "wider R' (b, Some (largest_user_key (fs ?f)))" using R'(1) k by (auto simp: wider_def B r inside_def option_rel_Some2 option_rel_Some1)
          qed
        next
          case nr: False
          have "?loop r (i, inputs) = ?loop r (Suc i, inputs @ [?f])"
            using i True nl nr by (subst overlap_loop.simps) (auto simp: r Let_def overlaps_iff not_less)
          then show ?thesis
            by (rule step) (use less.prems True nl nr in \<open>auto simp: take r inside_def not_less\<close>)
        qed
      qed
    qed
  qed
qed

lemma overlapping_closed:
  "\<exists>inputs R. GetOverlappingInputs Bytewise_Compare fs files level begin_key end_key = Some inputs \<and>
    inputs = filter (\<lambda>f. overlaps (fst R) (snd R) (fs f)) (files ! level) \<and>
    (let r = (map_option ExtractUserKey begin_key, map_option ExtractUserKey end_key) in
     if level = 0 then closed_range fs (files ! 0) R \<and> wider R r \<and> (\<forall>R'. wider R' r \<longrightarrow> closed_range fs (files ! 0) R' \<longrightarrow> wider R' R)
     else R = r)"
proof (cases "level = 0")
  case True
  then show ?thesis
    using overlap_loop_closed [of "[]" "(map_option ExtractUserKey begin_key, map_option ExtractUserKey end_key)" fs 0 "files ! 0"]
    by (auto simp: GetOverlappingInputs_def Let_def)
next
  case False
  then show ?thesis by (auto simp: GetOverlappingInputs_def overlap_loop_disjoint)
qed

subsection \<open>Ranges\<close>

lemma range_loop_bounds:
  assumes "range_loop icmp fs files s l = (s', l')"
  shows "icmp s' s \<le> 0 \<and> icmp l l' \<le> 0 \<and> (\<forall>f\<in>set files. icmp s' (fm_smallest (fs f)) \<le> 0 \<and> icmp (fm_largest (fs f)) l' \<le> 0)"
  using assms
proof (induction files arbitrary: s l)
  case (Cons f files)
  let ?s = "if icmp (fm_smallest (fs f)) s < 0 then fm_smallest (fs f) else s"
    and ?l = "if icmp (fm_largest (fs f)) l > 0 then fm_largest (fs f) else l"
  have IH: "icmp s' ?s \<le> 0 \<and> icmp ?l l' \<le> 0 \<and> (\<forall>f\<in>set files. icmp s' (fm_smallest (fs f)) \<le> 0 \<and> icmp (fm_largest (fs f)) l' \<le> 0)"
    by (rule Cons.IH) (use Cons.prems in simp)
  have "icmp ?s s \<le> 0" "icmp ?s (fm_smallest (fs f)) \<le> 0" by (auto simp: icmp_le icmp_less)
  moreover have "icmp l ?l \<le> 0" "icmp (fm_largest (fs f)) ?l \<le> 0" unfolding icmp_greater by (auto simp: icmp_le icmp_less)
  ultimately have "icmp s' s \<le> 0" "icmp s' (fm_smallest (fs f)) \<le> 0" "icmp l l' \<le> 0" "icmp (fm_largest (fs f)) l' \<le> 0"
    using IH icmp_le_trans by blast+
  then show ?case using IH by simp
qed simp

text \<open>The range of some files covers each of them, and its ends are ends of files.\<close>

lemma GetRange_covers:
  assumes "GetRange icmp fs files = (s, l)" "f \<in> set files"
  shows "icmp s (fm_smallest (fs f)) \<le> 0 \<and> icmp (fm_largest (fs f)) l \<le> 0"
  using assms range_loop_bounds [of fs "tl files" "fm_smallest (fs (hd files))" "fm_largest (fs (hd files))" s l] by (cases files) auto

lemma range_loop_ends: "range_loop icompare fs files s l = (s', l') \<Longrightarrow> s' \<in> insert s (fm_smallest ` fs ` set files) \<and> l' \<in> insert l (fm_largest ` fs ` set files)"
proof (induction files arbitrary: s l)
  case (Cons f files)
  from Cons.IH [OF Cons.prems [unfolded range_loop.simps]] show ?case by (auto split: if_splits)
qed simp

lemma GetRange_ends: "GetRange icompare fs files = (s, l) \<Longrightarrow> files \<noteq> [] \<Longrightarrow> s \<in> fm_smallest ` fs ` set files \<and> l \<in> fm_largest ` fs ` set files"
  using range_loop_ends [of icompare fs "tl files" "fm_smallest (fs (hd files))" "fm_largest (fs (hd files))" s l] by (cases files) auto

subsection \<open>Boundary files\<close>

lemma FindLargestKey_ok:
  assumes "FindLargestKey icmp fs files = Some L"
  shows "L \<in> fm_largest ` fs ` set files \<and> (\<forall>f\<in>set files. icmp (fm_largest (fs f)) L \<le> 0)"
proof -
  let ?step = "\<lambda>largest_key f. if icmp (fm_largest (fs f)) largest_key > 0 then fm_largest (fs f) else largest_key"
  have loop: "foldl ?step k gs \<in> insert k (fm_largest ` fs ` set gs) \<and> icmp k (foldl ?step k gs) \<le> 0 \<and>
      (\<forall>f\<in>set gs. icmp (fm_largest (fs f)) (foldl ?step k gs) \<le> 0)" for k gs
  proof (induction gs arbitrary: k)
    case (Cons g gs)
    have "icmp k (?step k g) \<le> 0" "icmp (fm_largest (fs g)) (?step k g) \<le> 0" unfolding icmp_greater by (auto simp: icmp_le icmp_less)
    moreover note IH = Cons.IH [of "?step k g"]
    ultimately have "icmp k (foldl ?step k (g # gs)) \<le> 0" "icmp (fm_largest (fs g)) (foldl ?step k (g # gs)) \<le> 0"
      unfolding foldl.simps by (blast intro: icmp_le_trans)+
    moreover have "?step k g \<in> {k, fm_largest (fs g)}" by simp
    then have "foldl ?step k (g # gs) \<in> insert k (fm_largest ` fs ` set (g # gs))" using IH by auto
    ultimately show ?case using IH by simp
  qed simp
  obtain f gs where "files = f # gs" "L = foldl ?step (fm_largest (fs f)) gs" using assms by (cases files) auto
  then show ?thesis using loop [of "fm_largest (fs f)" gs] by auto
qed

definition is_boundary :: "FileStore \<Rightarrow> bytes \<Rightarrow> nat \<Rightarrow> bool" where
  "is_boundary fs L f \<longleftrightarrow> icmp L (fm_smallest (fs f)) < 0 \<and> smallest_user_key (fs f) = ExtractUserKey L"

lemma FindSmallestBoundaryFile_ok:
  "case FindSmallestBoundaryFile Bytewise_Compare fs files L of
     None \<Rightarrow> \<forall>f\<in>set files. \<not> is_boundary fs L f
   | Some b \<Rightarrow> b \<in> set files \<and> is_boundary fs L b \<and> (\<forall>f\<in>set files. is_boundary fs L f \<longrightarrow> icmp (fm_smallest (fs b)) (fm_smallest (fs f)) \<le> 0)"
proof (induction files rule: rev_induct)
  case Nil
  show ?case by (simp add: FindSmallestBoundaryFile_def)
next
  case (snoc f files)
  have b: "icmp (fm_smallest (fs f)) L > 0 \<and> Bytewise_Compare (smallest_user_key (fs f)) (ExtractUserKey L) = 0 \<longleftrightarrow> is_boundary fs L f"
    by (simp add: is_boundary_def icmp_greater)
  have e: "FindSmallestBoundaryFile Bytewise_Compare fs (files @ [f]) L =
      (if is_boundary fs L f \<and> (case FindSmallestBoundaryFile Bytewise_Compare fs files L of None \<Rightarrow> True | Some b \<Rightarrow> icmp (fm_smallest (fs f)) (fm_smallest (fs b)) < 0)
       then Some f else FindSmallestBoundaryFile Bytewise_Compare fs files L)"
    unfolding b [symmetric] by (simp add: FindSmallestBoundaryFile_def)
  have t: "icmp (fm_smallest (fs f)) (fm_smallest (fs b)) < 0 \<Longrightarrow> icmp (fm_smallest (fs b)) k \<le> 0 \<Longrightarrow> icmp (fm_smallest (fs f)) k \<le> 0" for b k
    using icmp_less_le_trans by fastforce
  have n: "\<not> icmp (fm_smallest (fs f)) (fm_smallest (fs b)) < 0 \<Longrightarrow> icmp (fm_smallest (fs b)) (fm_smallest (fs f)) \<le> 0" for b
    unfolding icmp_greater [symmetric] by simp
  show ?case using snoc.IH unfolding e by (auto split: option.splits if_splits intro: t n)
qed

text \<open>The search for boundary files ends, and leaves none: the upper end grows strictly.\<close>

lemma boundary_up:
  assumes "\<forall>f\<in>set level_files. icmp (fm_smallest (fs f)) (fm_largest (fs f)) \<le> 0" "b \<in> set level_files" "is_boundary fs L b"
  shows "icmp L (fm_largest (fs b)) < 0"
    and "card {f \<in> set level_files. icmp (fm_largest (fs b)) (fm_smallest (fs f)) < 0} < card {f \<in> set level_files. icmp L (fm_smallest (fs f)) < 0}"
proof -
  let ?L = "fm_largest (fs b)"
  show up: "icmp L ?L < 0" using assms by (auto simp: is_boundary_def intro: icmp_less_le_trans)
  have "icmp (fm_smallest (fs b)) ?L \<le> 0" using assms by blast
  then have "{f \<in> set level_files. icmp ?L (fm_smallest (fs f)) < 0} \<subseteq> {f \<in> set level_files. icmp L (fm_smallest (fs f)) < 0} - {b}"
    using up icmp_less_trans by (auto dest: icmp_le_less_trans)
  also have "\<dots> \<subset> {f \<in> set level_files. icmp L (fm_smallest (fs f)) < 0}" using assms(2,3) by (auto simp: is_boundary_def)
  finally show "card {f \<in> set level_files. icmp ?L (fm_smallest (fs f)) < 0} < card {f \<in> set level_files. icmp L (fm_smallest (fs f)) < 0}"
    by (rule psubset_card_mono [rotated]) simp
qed

lemma boundary_loop_ok:
  assumes "\<forall>f\<in>set level_files. icmp (fm_smallest (fs f)) (fm_largest (fs f)) \<le> 0" "\<forall>f\<in>set files. icmp (fm_largest (fs f)) L \<le> 0"
    and "L \<in> fm_largest ` fs ` set files"
  shows "\<exists>extra L'. boundary_loop Bytewise_Compare fs level_files L files = Some (files @ extra) \<and> set extra \<subseteq> set level_files \<and>
    L' \<in> fm_largest ` fs ` set (files @ extra) \<and> (\<forall>f\<in>set (files @ extra). icmp (fm_largest (fs f)) L' \<le> 0) \<and>
    (\<forall>f\<in>set level_files. \<not> is_boundary fs L' f) \<and> (\<forall>f\<in>set extra. smallest_user_key (fs f) \<in> (ExtractUserKey ` fm_largest ` fs ` set (files @ extra)))"
  using assms(2,3)
proof (induction "card {f \<in> set level_files. icmp L (fm_smallest (fs f)) < 0}" arbitrary: L files rule: less_induct)
  case less
  show ?case
  proof (cases "FindSmallestBoundaryFile Bytewise_Compare fs level_files L")
    case None
    then have "boundary_loop Bytewise_Compare fs level_files L files = Some files" by (simp add: boundary_loop.simps [of _ _ _ L])
    then show ?thesis using None FindSmallestBoundaryFile_ok [of level_files fs L] less.prems by (intro exI [of _ "[]"] exI [of _ L]) simp
  next
    case (Some b)
    then have b: "b \<in> set level_files" "is_boundary fs L b" using FindSmallestBoundaryFile_ok [of level_files fs L] by simp_all
    let ?L = "fm_largest (fs b)"
    note up = boundary_up(1) [OF assms(1) b] and down = boundary_up(2) [OF assms(1) b]
    have "\<forall>f\<in>set (files @ [b]). icmp (fm_largest (fs f)) ?L \<le> 0" using less.prems(1) up icmp_le_less_trans by fastforce
    then obtain extra L' where *: "boundary_loop Bytewise_Compare fs level_files ?L (files @ [b]) = Some ((files @ [b]) @ extra)"
        "set extra \<subseteq> set level_files" "L' \<in> fm_largest ` fs ` set ((files @ [b]) @ extra)"
        "\<forall>f\<in>set ((files @ [b]) @ extra). icmp (fm_largest (fs f)) L' \<le> 0" "\<forall>f\<in>set level_files. \<not> is_boundary fs L' f"
        "\<forall>f\<in>set extra. smallest_user_key (fs f) \<in> ExtractUserKey ` fm_largest ` fs ` set ((files @ [b]) @ extra)"
      using less.hyps [OF down, of "files @ [b]"] by auto
    have "smallest_user_key (fs b) = ExtractUserKey L" using b by (simp add: is_boundary_def)
    then have "\<forall>f\<in>set (b # extra). smallest_user_key (fs f) \<in> ExtractUserKey ` fm_largest ` fs ` set (files @ b # extra)"
      using *(6) less.prems(2) by auto
    moreover have "boundary_loop Bytewise_Compare fs level_files L files = Some (files @ b # extra)"
      using *(1) Some by (simp add: boundary_loop.simps [of _ _ _ L])
    ultimately show ?thesis using * b by (intro exI [of _ "b # extra"] exI [of _ L']) auto
  qed
qed

subsection \<open>The iterator over the files of a level is a sorted iterator\<close>

definition file_entry :: "FileMetaData \<Rightarrow> bytes \<times> bytes" where
  "file_entry f = (fm_largest f, EncodeFixed64 (fm_number f) @ EncodeFixed64 (fm_file_size f))"

definition lf_sits :: "FileStore \<Rightarrow> LevelFileNumIterator \<Rightarrow> (bytes \<times> bytes) list \<Rightarrow> nat \<Rightarrow> bool" where
  "lf_sits fs it kvs i \<longleftrightarrow> level_sorted fs (lf_flist it) \<and> length (lf_flist it) < 2 ^ 31 \<and> kvs = map (\<lambda>f. file_entry (fs f)) (lf_flist it) \<and>
     i \<le> length kvs \<and> lf_index it = of_nat i"

lemma lf_sits_at:
  "level_sorted fs (lf_flist it) \<Longrightarrow> length (lf_flist it) < 2 ^ 31 \<Longrightarrow> i \<le> length (lf_flist it) \<Longrightarrow>
    lf_sits fs (it\<lparr>lf_index := of_nat i\<rparr>) (map (\<lambda>f. file_entry (fs f)) (lf_flist it)) i"
  by (simp add: lf_sits_def)

interpretation level_files: sorted_iterator "\<lambda>k. 8 \<le> length k" icmp "LevelFileNum_Iter icmp fs" "lf_sits fs" for fs
proof (unfold_locales, goal_cases)
  case (1 it kvs i)
  then have s: "level_sorted fs (lf_flist it)" "kvs = map (\<lambda>f. file_entry (fs f)) (lf_flist it)" "i \<le> length kvs"
    unfolding lf_sits_def by blast+
  have "sorted_wrt (\<lambda>a b. icmp (fst a) (fst b) < 0) kvs"
    using level_sorted_largest [OF s(1)] by (auto simp: s(2) sorted_wrt_iff_nth_less file_entry_def)
  moreover have "8 \<le> length (fm_largest (fs f))" if f: "f \<in> set (lf_flist it)" for f
  proof -
    have "ParseInternalKey (fm_largest (fs f)) \<noteq> None" using s(1) f by (auto simp: level_sorted_def file_ok_def)
    then show ?thesis using Parse_num by blast
  qed
  ultimately show ?case using s by (auto simp: file_entry_def)
next
  case (2 it kvs i)
  then show ?case by (auto simp: lf_sits_def LevelFileNum_Iter_def lf_Valid_def u32_nat ok_def Status_OK_def)
next
  case (3 it kvs i)
  then show ?case by (auto simp: lf_sits_def LevelFileNum_Iter_def lf_key_def lf_value_def file_entry_def Let_def u32_nat)
next
  case (4 it kvs i)
  then show ?case using lf_sits_at [of fs it 0] by (auto simp: lf_sits_def LevelFileNum_Iter_def lf_SeekToFirst_def)
next
  case (5 it kvs i)
  then have s: "level_sorted fs (lf_flist it)" "length (lf_flist it) < 2 ^ 31" "kvs = map (\<lambda>f. file_entry (fs f)) (lf_flist it)" by (simp_all add: lf_sits_def)
  have "(if lf_flist it = [] then 0 else of_nat (length (lf_flist it)) - 1) = (of_nat (length (lf_flist it) - 1) :: u32)"
    by (cases "lf_flist it") simp_all
  then show ?case using lf_sits_at [OF s(1,2), of "length (lf_flist it) - 1"] by (simp add: LevelFileNum_Iter_def lf_SeekToLast_def s(3))
next
  case (6 it kvs i t)
  then have s: "level_sorted fs (lf_flist it)" "length (lf_flist it) < 2 ^ 31" "kvs = map (\<lambda>f. file_entry (fs f)) (lf_flist it)" by (simp_all add: lf_sits_def)
  let ?n = "length (takeWhile (\<lambda>f. icmp (fm_largest (fs f)) t < 0) (lf_flist it))"
  have n: "length (takeWhile (\<lambda>kv. icmp (fst kv) t < 0) kvs) = ?n" by (simp add: s(3) takeWhile_map o_def file_entry_def)
  show ?case using lf_sits_at [OF s(1,2) length_takeWhile_le] FindFile_ok [OF s(1,2), of t] unfolding s(3) n [unfolded s(3)]
    by (simp add: LevelFileNum_Iter_def lf_Seek_def)
next
  case (7 it kvs i)
  then have s: "level_sorted fs (lf_flist it)" "length (lf_flist it) < 2 ^ 31" "kvs = map (\<lambda>f. file_entry (fs f)) (lf_flist it)"
    "lf_index it = of_nat i" "i < length (lf_flist it)" by (simp_all add: lf_sits_def)
  show ?case using lf_sits_at [OF s(1,2), of "Suc i"] s(3-5) by (simp add: LevelFileNum_Iter_def lf_Next_def add.commute)
next
  case (8 it kvs i)
  then have s: "level_sorted fs (lf_flist it)" "length (lf_flist it) < 2 ^ 31" "kvs = map (\<lambda>f. file_entry (fs f)) (lf_flist it)"
    "lf_index it = of_nat i" "i < length (lf_flist it)" by (simp_all add: lf_sits_def)
  have "(of_nat i :: u32) = 0 \<longleftrightarrow> i = 0" using u32_nat [of i] s(2,5) by (auto simp: word_unat_eq_iff)
  moreover have "0 < i \<Longrightarrow> (of_nat i - 1 :: u32) = of_nat (i - 1)" by (cases i) simp_all
  ultimately show ?case using lf_sits_at [OF s(1,2), of "length (lf_flist it)"] lf_sits_at [OF s(1,2), of "i - 1"] s(3-5)
    by (auto simp: LevelFileNum_Iter_def lf_Prev_def)
qed

section \<open>Properties\<close>

text \<open>C29. The search for overlapping files returns. Above level 0 it gives the files that overlap the range;
  in level 0, where files overlap each other, it gives those that overlap the smallest range that holds the
  range asked for and every file it overlaps.\<close>

theorem overlapping_inputs:
  "\<exists>inputs R. GetOverlappingInputs Bytewise_Compare fs files level begin_key end_key = Some inputs \<and>
    inputs = filter (\<lambda>f. overlaps (fst R) (snd R) (fs f)) (files ! level) \<and>
    (let r = (map_option ExtractUserKey begin_key, map_option ExtractUserKey end_key) in
     if level = 0 then closed_range fs (files ! 0) R \<and> wider R r \<and> (\<forall>R'. wider R' r \<longrightarrow> closed_range fs (files ! 0) R' \<longrightarrow> wider R' R)
     else R = r)"
  by (rule overlapping_closed)

definition sample_files :: "(nat \<times> bytes \<times> bytes) list \<Rightarrow> FileStore" where
  "sample_files xs f = (case map_of xs f of None \<Rightarrow> FileMetaData_new 0
     | Some (a, b) \<Rightarrow> (FileMetaData_new (of_nat f))\<lparr>fm_smallest := InternalKey a 9 kTypeValue, fm_largest := InternalKey b 5 kTypeValue\<rparr>)"

lemma sample_file_keys:
  "map_of xs f = Some (a, b) \<Longrightarrow> smallest_user_key (sample_files xs f) = a \<and> largest_user_key (sample_files xs f) = b \<and>
    fm_smallest (sample_files xs f) = InternalKey a 9 kTypeValue \<and> fm_largest (sample_files xs f) = InternalKey b 5 kTypeValue"
  by (simp add: sample_files_def smallest_user_key_def largest_user_key_def)

theorem overlapping_inputs_witness:
  "let fs = sample_files [(4, [1], [3]), (2, [2], [5]), (3, [7], [8])]; k = Some (InternalKey [1] 9 kTypeValue) in
    GetOverlappingInputs Bytewise_Compare fs [[3, 2, 4]] 0 k k = Some [2, 4] \<and>
    GetOverlappingInputs Bytewise_Compare fs [[], [4, 3]] 1 k k = Some [4]"
proof -
  let ?fs = "sample_files [(4, [1], [3]), (2, [2], [5]), (3, [7], [8])]" and ?k = "Some (InternalKey [1] 9 kTypeValue)"
  let ?r = "(Some [1], Some [1]) :: bytes option \<times> bytes option" and ?R = "(Some [1], Some [5]) :: bytes option \<times> bytes option"
  note keys = sample_file_keys [of _ 4 "[1]" "[3]"] sample_file_keys [of _ 2 "[2]" "[5]"] sample_file_keys [of _ 3 "[7]" "[8]"]
  obtain inputs R where i: "GetOverlappingInputs Bytewise_Compare ?fs [[3, 2, 4]] 0 ?k ?k = Some inputs"
    "inputs = filter (\<lambda>f. overlaps (fst R) (snd R) (?fs f)) [3, 2, 4]" "closed_range ?fs [3, 2, 4] R" "wider R ?r"
    "\<And>R'. wider R' ?r \<Longrightarrow> closed_range ?fs [3, 2, 4] R' \<Longrightarrow> wider R' R"
    using overlapping_inputs [of ?fs "[[3, 2, 4]]" 0 ?k ?k] by (auto simp: Let_def)
  have "wider ?R R" by (rule i(5)) (auto simp: wider_def closed_range_def overlaps_iff inside_def keys)
  then obtain B E where R: "R = (Some B, Some E)" "B = [1]" "[1] \<le> E" "E \<le> [5]" using i(4)
    by (cases R) (auto simp: wider_def option_rel_Some1 option_rel_Some2)
  then have "[3] \<le> E" using i(3) by (auto simp: closed_range_def overlaps_iff inside_def keys)
  then have "[2] \<le> E" by (rule order_trans [rotated]) simp
  have "\<not> [7] \<le> E"
  proof
    assume "[7] \<le> E"
    with R(4) have "[7 :: byte] \<le> [5]" by (rule order_trans [rotated])
    then show False by simp
  qed
  then have "inputs = [2, 4]" unfolding i(2) R using R(3) \<open>[2] \<le> E\<close> by (simp add: overlaps_iff keys)
  moreover have "GetOverlappingInputs Bytewise_Compare ?fs [[], [4, 3]] 1 ?k ?k = Some [4]"
    using overlapping_inputs [of ?fs "[[], [4, 3]]" 1 ?k ?k] by (auto simp: Let_def overlaps_iff keys)
  ultimately show ?thesis using i(1) by (simp add: Let_def)
qed

text \<open>Completing a compaction with boundary files returns, and leaves no file of the level that starts behind the
  end of the compaction with the same user key: a newer entry of a key is never moved below an older one.\<close>

theorem boundary_inputs:
  assumes "\<forall>f\<in>set level_files. icmp (fm_smallest (fs f)) (fm_largest (fs f)) \<le> 0" and "files \<noteq> []"
  shows "\<exists>extra L. AddBoundaryInputs Bytewise_Compare fs level_files files = Some (files @ extra) \<and> set extra \<subseteq> set level_files \<and>
    L \<in> fm_largest ` fs ` set (files @ extra) \<and> (\<forall>f\<in>set (files @ extra). icmp (fm_largest (fs f)) L \<le> 0) \<and>
    (\<forall>f\<in>set level_files. \<not> (icmp L (fm_smallest (fs f)) < 0 \<and> smallest_user_key (fs f) = ExtractUserKey L))"
proof -
  obtain L where L: "FindLargestKey icmp fs files = Some L" using assms(2) by (cases files) auto
  from boundary_loop_ok [OF assms(1) conjunct2 [OF FindLargestKey_ok [OF L]] conjunct1 [OF FindLargestKey_ok [OF L]]]
  show ?thesis by (simp add: AddBoundaryInputs_def L is_boundary_def) blast
qed

theorem boundary_inputs_witness:
  "let fs = sample_files [(4, [1], [3]), (2, [4], [5])] in \<exists>extra. AddBoundaryInputs Bytewise_Compare fs [4, 2] [4] = Some ([4] @ extra) \<and> set extra \<subseteq> {4, 2}"
proof -
  let ?fs = "sample_files [(4, [1], [3]), (2, [4], [5])]"
  have "\<exists>extra L. AddBoundaryInputs Bytewise_Compare ?fs [4, 2] [4] = Some ([4] @ extra) \<and> set extra \<subseteq> set [4, 2] \<and>
    L \<in> fm_largest ` ?fs ` set ([4] @ extra) \<and> (\<forall>f\<in>set ([4] @ extra). icmp (fm_largest (?fs f)) L \<le> 0) \<and>
    (\<forall>f\<in>set [4, 2]. \<not> (icmp L (fm_smallest (?fs f)) < 0 \<and> smallest_user_key (?fs f) = ExtractUserKey L))"
    by (rule boundary_inputs) (auto simp: icmp_le sample_file_keys [of _ 4 "[1]" "[3]"] sample_file_keys [of _ 2 "[4]" "[5]"])
  then show ?thesis unfolding Let_def by auto
qed

text \<open>Looking for a file that overlaps a range gives the same answer by binary search in a sorted level as by looking at every file.\<close>

theorem range_search:
  assumes "disjoint_sorted_files \<longrightarrow> level_sorted fs files \<and> length files < 2 ^ 31"
  shows "SomeFileOverlapsRange Bytewise_Compare disjoint_sorted_files fs files b e =
    Some (\<exists>f\<in>set files. (\<forall>k. b = Some k \<longrightarrow> k \<le> largest_user_key (fs f)) \<and> (\<forall>k. e = Some k \<longrightarrow> smallest_user_key (fs f) \<le> k))"
  unfolding overlaps_iff [symmetric] by (rule SomeFileOverlapsRange_ok) (use assms in blast)

theorem range_search_witness:
  "let fs = sample_files [(4, [1], [3]), (2, [5], [6])] in
    SomeFileOverlapsRange Bytewise_Compare True fs [4, 2] (Some [4]) (Some [4]) = Some False \<and>
    SomeFileOverlapsRange Bytewise_Compare True fs [4, 2] (Some [4]) None = Some True"
proof -
  let ?fs = "sample_files [(4, [1], [3]), (2, [5], [6])]"
  note keys = sample_file_keys [of _ 4 "[1]" "[3]"] sample_file_keys [of _ 2 "[5]" "[6]"]
  have "level_sorted ?fs [4, 2]" by (auto simp: level_sorted_def file_ok_def keys icmp_less icmp_le ParseInternalKey_InternalKey kMaxSequenceNumber_def)
  then have s: "True \<longrightarrow> level_sorted ?fs [4, 2] \<and> length [4 :: nat, 2] < 2 ^ 31" by simp
  show ?thesis using range_search [OF s, of "Some [4]" "Some [4]"] range_search [OF s, of "Some [4]" None] by (simp add: Let_def keys)
qed

end
