(* ===== verification/Version_Set.thy ===== *)
theory Version_Set
  imports Version_Files
begin

text \<open>
  \<^verbatim>\<open>db/version_set.cc\<close>, the state: versions, the files they share by reference counts, the list of live versions,
  and the builder that applies edits to a version. A freed object is \<open>None\<close> in its store.
\<close>

section \<open>The code\<close>

subsection \<open>State\<close>

text \<open>The score is a double; it is kept as the number that the double stands for.\<close>

record Version =
  v_refs :: int
  v_files :: "nat list list"
  v_file_to_compact :: "nat option"
  v_file_to_compact_level :: int
  v_compaction_score :: rat
  v_compaction_level :: int

definition Version_init :: Version where
  "Version_init = \<lparr>v_refs = 0, v_files = replicate kNumLevels [], v_file_to_compact = None, v_file_to_compact_level = -1,
     v_compaction_score = -1, v_compaction_level = -1\<rparr>"

text \<open>The circular list of versions from \<^verbatim>\<open>dummy_versions_.next_\<close> on is the list \<open>vs_versions\<close>. The environment, the table
  cache and the open manifest are arguments of the operations that use them.\<close>

record VersionSet =
  vs_options :: Options
  vs_next_file_number :: u64
  vs_manifest_file_number :: u64
  vs_last_sequence :: u64
  vs_log_number :: u64
  vs_prev_log_number :: u64
  vs_versions :: "nat list"
  vs_current :: "nat option"
  vs_compact_pointer :: "bytes list"
  vs_version :: "nat \<rightharpoonup> Version"
  vs_file :: "nat \<rightharpoonup> FileMetaData"
  vs_limit :: nat

abbreviation vs_fs :: "VersionSet \<Rightarrow> FileStore" where
  "vs_fs s \<equiv> \<lambda>f. the (vs_file s f)"

abbreviation vs_files :: "VersionSet \<Rightarrow> nat \<Rightarrow> nat list list" where
  "vs_files s v \<equiv> v_files (the (vs_version s v))"

definition set_version :: "nat \<Rightarrow> Version \<Rightarrow> VersionSet \<Rightarrow> VersionSet" where
  "set_version v ver s = s\<lparr>vs_version := (vs_version s)(v \<mapsto> ver)\<rparr>"

definition set_file :: "nat \<Rightarrow> FileMetaData \<Rightarrow> VersionSet \<Rightarrow> VersionSet" where
  "set_file f m s = s\<lparr>vs_file := (vs_file s)(f \<mapsto> m)\<rparr>"

text \<open>Objects are allocated at fresh addresses.\<close>

definition Version_new :: "VersionSet \<Rightarrow> nat \<times> VersionSet" where
  "Version_new s = (let v = vs_limit s in (v, set_version v Version_init (s\<lparr>vs_limit := v + 1\<rparr>)))"

definition new_file :: "FileMetaData \<Rightarrow> VersionSet \<Rightarrow> nat \<times> VersionSet" where
  "new_file m s = (let f = vs_limit s in (f, set_file f m (s\<lparr>vs_limit := f + 1\<rparr>)))"

subsection \<open>Reference counts\<close>

text \<open>Dropping a reference to a file.\<close>

definition unref_file :: "nat \<Rightarrow> VersionSet \<Rightarrow> VersionSet" where
  "unref_file f s =
     (let m = the (vs_file s f); m = m\<lparr>fm_refs := fm_refs m - 1\<rparr>; s = set_file f m s
      in if fm_refs m \<le> 0 then s\<lparr>vs_file := (vs_file s)(f := None)\<rparr> else s)"

definition delete_Version :: "nat \<Rightarrow> VersionSet \<Rightarrow> VersionSet" where
  "delete_Version v s =
     (let files = vs_files s v; s = s\<lparr>vs_versions := remove1 v (vs_versions s)\<rparr>;
          s = fold unref_file (concat files) s
      in s\<lparr>vs_version := (vs_version s)(v := None)\<rparr>)"

definition Version_Ref :: "nat \<Rightarrow> VersionSet \<Rightarrow> VersionSet" where
  "Version_Ref v s = (let ver = the (vs_version s v) in set_version v (ver\<lparr>v_refs := v_refs ver + 1\<rparr>) s)"

definition Version_Unref :: "nat \<Rightarrow> VersionSet \<Rightarrow> VersionSet" where
  "Version_Unref v s =
     (let ver = the (vs_version s v); ver = ver\<lparr>v_refs := v_refs ver - 1\<rparr>; s = set_version v ver s
      in if v_refs ver = 0 then delete_Version v s else s)"

definition AppendVersion :: "nat \<Rightarrow> VersionSet \<Rightarrow> VersionSet" where
  "AppendVersion v s =
     (let s = (case vs_current s of None \<Rightarrow> s | Some c \<Rightarrow> Version_Unref c s);
          s = s\<lparr>vs_current := Some v\<rparr>;
          s = Version_Ref v s
      in s\<lparr>vs_versions := vs_versions s @ [v]\<rparr>)"

definition VersionSet_new :: "Options \<Rightarrow> VersionSet" where
  "VersionSet_new options =
     (let s = \<lparr>vs_options = options, vs_next_file_number = 2, vs_manifest_file_number = 0, vs_last_sequence = 0,
               vs_log_number = 0, vs_prev_log_number = 0, vs_versions = [], vs_current = None,
               vs_compact_pointer = replicate kNumLevels [], vs_version = Map.empty, vs_file = Map.empty, vs_limit = 1\<rparr>;
          (v, s) = Version_new s
      in AppendVersion v s)"

definition delete_VersionSet :: "VersionSet \<Rightarrow> VersionSet" where
  "delete_VersionSet s = Version_Unref (the (vs_current s)) s"

subsection \<open>The builder\<close>

text \<open>The sets are the lists of their elements in order.\<close>

record LevelState =
  deleted_files :: "u64 list"
  added_files :: "nat list"

record Builder =
  b_base :: nat
  b_levels :: "LevelState list"

definition BySmallestKey :: "(bytes \<Rightarrow> bytes \<Rightarrow> int) \<Rightarrow> FileStore \<Rightarrow> nat \<Rightarrow> nat \<Rightarrow> bool" where
  "BySmallestKey icompare fs f1 f2 =
     (let r = icompare (fm_smallest (fs f1)) (fm_smallest (fs f2)) in
      if r \<noteq> 0 then r < 0 else fm_number (fs f1) < fm_number (fs f2))"

text \<open>\<^verbatim>\<open>std::set::insert\<close> with an order.\<close>

fun set_insert :: "('a \<Rightarrow> 'a \<Rightarrow> bool) \<Rightarrow> 'a \<Rightarrow> 'a list \<Rightarrow> 'a list" where
  "set_insert lt x [] = [x]"
| "set_insert lt x (y # ys) = (if lt x y then x # y # ys else if lt y x then y # set_insert lt x ys else y # ys)"

definition Builder_new :: "nat \<Rightarrow> VersionSet \<Rightarrow> Builder \<times> VersionSet" where
  "Builder_new base s =
     (\<lparr>b_base = base, b_levels = replicate kNumLevels \<lparr>deleted_files = [], added_files = []\<rparr>\<rparr>, Version_Ref base s)"

definition delete_Builder :: "Builder \<Rightarrow> VersionSet \<Rightarrow> VersionSet" where
  "delete_Builder b s = Version_Unref (b_base b) (fold unref_file (concat (map added_files (b_levels b))) s)"

definition apply_compact_pointer :: "int \<times> bytes \<Rightarrow> VersionSet \<Rightarrow> VersionSet" where
  "apply_compact_pointer p s = s\<lparr>vs_compact_pointer := (vs_compact_pointer s)[nat (fst p) := snd p]\<rparr>"

definition apply_deleted_file :: "int \<times> u64 \<Rightarrow> Builder \<Rightarrow> Builder" where
  "apply_deleted_file p b =
     (let l = b_levels b ! nat (fst p)
      in b\<lparr>b_levels := (b_levels b)[nat (fst p) := l\<lparr>deleted_files := set_insert (<) (snd p) (deleted_files l)\<rparr>]\<rparr>)"

definition initial_seeks :: "u64 \<Rightarrow> int" where
  "initial_seeks file_size =
     (let allowed_seeks = sint (ucast (file_size div 16384) :: u32) in if allowed_seeks < 100 then 100 else allowed_seeks)"

definition apply_new_file :: "(bytes \<Rightarrow> bytes \<Rightarrow> int) \<Rightarrow> int \<times> FileMetaData \<Rightarrow> Builder \<times> VersionSet \<Rightarrow> Builder \<times> VersionSet" where
  "apply_new_file icompare p bs =
     (let (b, s) = bs;
          (f, s) = new_file ((snd p)\<lparr>fm_refs := 1, fm_allowed_seeks := initial_seeks (fm_file_size (snd p))\<rparr>) s;
          l = b_levels b ! nat (fst p);
          l = l\<lparr>deleted_files := remove1 (fm_number (vs_fs s f)) (deleted_files l),
                added_files := set_insert (BySmallestKey icompare (vs_fs s)) f (added_files l)\<rparr>
      in (b\<lparr>b_levels := (b_levels b)[nat (fst p) := l]\<rparr>, s))"

definition Builder_Apply :: "(bytes \<Rightarrow> bytes \<Rightarrow> int) \<Rightarrow> VersionEdit \<Rightarrow> Builder \<times> VersionSet \<Rightarrow> Builder \<times> VersionSet" where
  "Builder_Apply icompare edit bs =
     (let (b, s) = bs;
          s = fold apply_compact_pointer (ve_compact_pointers edit) s;
          b = fold apply_deleted_file (ve_deleted_files edit) b
      in fold (apply_new_file icompare) (ve_new_files edit) (b, s))"

definition MaybeAddFile :: "Builder \<Rightarrow> nat \<Rightarrow> nat \<Rightarrow> nat \<Rightarrow> VersionSet \<Rightarrow> VersionSet" where
  "MaybeAddFile b v level f s =
     (if fm_number (vs_fs s f) \<in> set (deleted_files (b_levels b ! level)) then s
      else
        let s = set_file f ((vs_fs s f)\<lparr>fm_refs := fm_refs (vs_fs s f) + 1\<rparr>) s;
            ver = the (vs_version s v)
        in set_version v (ver\<lparr>v_files := (v_files ver)[level := v_files ver ! level @ [f]]\<rparr>) s)"

text \<open>\<^verbatim>\<open>std::upper_bound\<close> gives the first base file that the added file is less than.\<close>

fun save_level :: "(bytes \<Rightarrow> bytes \<Rightarrow> int) \<Rightarrow> Builder \<Rightarrow> nat \<Rightarrow> nat \<Rightarrow> nat list \<Rightarrow> nat list \<Rightarrow> VersionSet \<Rightarrow> VersionSet" where
  "save_level icompare b v level base_files [] s = fold (MaybeAddFile b v level) base_files s"
| "save_level icompare b v level base_files (added # rest) s =
     (let smaller = takeWhile (\<lambda>base. \<not> BySmallestKey icompare (vs_fs s) added base) base_files;
          s = fold (MaybeAddFile b v level) smaller s;
          s = MaybeAddFile b v level added s
      in save_level icompare b v level (drop (length smaller) base_files) rest s)"

definition SaveTo :: "(bytes \<Rightarrow> bytes \<Rightarrow> int) \<Rightarrow> Builder \<Rightarrow> nat \<Rightarrow> VersionSet \<Rightarrow> VersionSet" where
  "SaveTo icompare b v s =
     fold (\<lambda>level s. save_level icompare b v level (vs_files s (b_base b) ! level) (added_files (b_levels b ! level)) s)
       [0..<kNumLevels] s"

subsection \<open>Statistics and sizes\<close>

record GetStats =
  seek_file :: "nat option"
  seek_file_level :: int

definition UpdateStats :: "nat \<Rightarrow> GetStats \<Rightarrow> VersionSet \<Rightarrow> bool \<times> VersionSet" where
  "UpdateStats v stats s =
     (case seek_file stats of
        None \<Rightarrow> (False, s)
      | Some f \<Rightarrow>
          let m = vs_fs s f; m = m\<lparr>fm_allowed_seeks := fm_allowed_seeks m - 1\<rparr>; s = set_file f m s; ver = the (vs_version s v) in
          if fm_allowed_seeks m \<le> 0 \<and> v_file_to_compact ver = None
          then (True, set_version v (ver\<lparr>v_file_to_compact := Some f, v_file_to_compact_level := seek_file_level stats\<rparr>) s)
          else (False, s))"

text \<open>The conversions to \<^verbatim>\<open>double\<close> and the quotients are rounded by \<open>round_double\<close>. The limits are exact: whole
  numbers of bytes, at most 10 to the 6 times 1 MB, below 2 to the 53.\<close>

definition level_score :: "(rat \<Rightarrow> rat) \<Rightarrow> FileStore \<Rightarrow> nat list list \<Rightarrow> nat \<Rightarrow> rat" where
  "level_score round_double fs files level =
     (if level = 0 then round_double (round_double (of_nat (length (files ! level))) / of_nat kL0_CompactionTrigger)
      else round_double (round_double (of_nat (unat (of_int (TotalFileSize fs (files ! level)) :: u64))) / MaxBytesForLevel level))"

fun best_level :: "(nat \<Rightarrow> rat) \<Rightarrow> nat list \<Rightarrow> int \<times> rat \<Rightarrow> int \<times> rat" where
  "best_level score [] best = best"
| "best_level score (level # levels) best =
     best_level score levels (if score level > snd best then (int level, score level) else best)"

definition Finalize :: "(rat \<Rightarrow> rat) \<Rightarrow> nat \<Rightarrow> VersionSet \<Rightarrow> VersionSet" where
  "Finalize round_double v s =
     (let ver = the (vs_version s v);
          (level, score) = best_level (level_score round_double (vs_fs s) (v_files ver)) [0..<kNumLevels - 1] (-1, -1)
      in set_version v (ver\<lparr>v_compaction_level := level, v_compaction_score := score\<rparr>) s)"

definition NeedsCompaction :: "VersionSet \<Rightarrow> bool" where
  "NeedsCompaction s \<longleftrightarrow> (let v = the (vs_version s (the (vs_current s))) in v_compaction_score v \<ge> 1 \<or> v_file_to_compact v \<noteq> None)"

definition NewFileNumber :: "VersionSet \<Rightarrow> u64 \<times> VersionSet" where
  "NewFileNumber s = (vs_next_file_number s, s\<lparr>vs_next_file_number := vs_next_file_number s + 1\<rparr>)"

definition ReuseFileNumber :: "u64 \<Rightarrow> VersionSet \<Rightarrow> VersionSet" where
  "ReuseFileNumber file_number s =
     (if vs_next_file_number s = file_number + 1 then s\<lparr>vs_next_file_number := file_number\<rparr> else s)"

definition MarkFileNumberUsed :: "u64 \<Rightarrow> VersionSet \<Rightarrow> VersionSet" where
  "MarkFileNumberUsed number s =
     (if vs_next_file_number s \<le> number then s\<lparr>vs_next_file_number := number + 1\<rparr> else s)"

definition NumLevelFiles :: "VersionSet \<Rightarrow> nat \<Rightarrow> nat" where
  "NumLevelFiles s level = length (vs_files s (the (vs_current s)) ! level)"

definition NumLevelBytes :: "VersionSet \<Rightarrow> nat \<Rightarrow> int" where
  "NumLevelBytes s level = TotalFileSize (vs_fs s) (vs_files s (the (vs_current s)) ! level)"

definition AddLiveFiles :: "VersionSet \<Rightarrow> u64 list \<Rightarrow> u64 list" where
  "AddLiveFiles s live =
     fold (\<lambda>v live. fold (\<lambda>f live. set_insert (<) (fm_number (vs_fs s f)) live) (concat (vs_files s v)) live) (vs_versions s) live"

definition MaxNextLevelOverlappingBytes :: "(bytes \<Rightarrow> bytes \<Rightarrow> int) \<Rightarrow> VersionSet \<Rightarrow> int option" where
  "MaxNextLevelOverlappingBytes ucmp s =
     (let files = vs_files s (the (vs_current s)); fs = vs_fs s in
      fold (\<lambda>(level, f) result. Option.bind result (\<lambda>result.
          map_option (\<lambda>overlaps. let sum = TotalFileSize fs overlaps in if sum > result then sum else result)
            (GetOverlappingInputs ucmp fs files (level + 1) (Some (fm_smallest (fs f))) (Some (fm_largest (fs f))))))
        (concat (map (\<lambda>level. map (Pair level) (files ! level)) [1..<kNumLevels - 1])) (Some 0))"

definition Version_DebugString :: "FileStore \<Rightarrow> nat list list \<Rightarrow> bytes" where
  "Version_DebugString fs files =
     concat (map (\<lambda>level. AppendNumberTo (str ''--- level '') (of_nat level) @ str '' ---'' @ [10] @
         concat (map (\<lambda>f. AppendNumberTo (AppendNumberTo (str '' '') (fm_number (fs f)) @ str '':'') (fm_file_size (fs f)) @
             str ''['' @ InternalKey_DebugString (fm_smallest (fs f)) @ str '' .. '' @
             InternalKey_DebugString (fm_largest (fs f)) @ str '']'' @ [10]) (files ! level)))
       [0..<kNumLevels])"

end
