(* ===== verification/Version_Builder.thy ===== *)
theory Version_Builder
  imports Version_Set
begin

text \<open>
  What a builder makes of a version and a sequence of edits: each level is the sorted list of the files that are
  left, and every file that the new version refers to has one more reference.
\<close>

section \<open>Saving a level\<close>

text \<open>What never changes in a file.\<close>

definition descr :: "FileMetaData \<Rightarrow> u64 \<times> u64 \<times> bytes \<times> bytes" where
  "descr m = (fm_number m, fm_file_size m, fm_smallest m, fm_largest m)"

lemma descr_eq: "descr m = descr m' \<longleftrightarrow> fm_number m = fm_number m' \<and> fm_file_size m = fm_file_size m' \<and> fm_smallest m = fm_smallest m' \<and> fm_largest m = fm_largest m'"
  by (auto simp: descr_def)

lemma descr_simps [simp]: "descr (m\<lparr>fm_refs := r\<rparr>) = descr m" "descr (m\<lparr>fm_allowed_seeks := a\<rparr>) = descr m"
  by (simp_all add: descr_def)

lemma BySmallestKey_cong:
  "(\<And>f. descr (fs' f) = descr (fs f)) \<Longrightarrow> BySmallestKey icompare fs' = BySmallestKey icompare fs"
  by (intro ext) (simp add: BySmallestKey_def descr_eq)

text \<open>Adding some files to a level of a version.\<close>

definition add_files :: "nat \<Rightarrow> nat \<Rightarrow> nat list \<Rightarrow> VersionSet \<Rightarrow> VersionSet" where
  "add_files v level xs s =
     s\<lparr>vs_version := (vs_version s)(v \<mapsto> (the (vs_version s v))\<lparr>v_files := (vs_files s v)[level := vs_files s v ! level @ xs]\<rparr>),
       vs_file := (\<lambda>f. if f \<in> set xs then Some ((vs_fs s f)\<lparr>fm_refs := fm_refs (vs_fs s f) + int (count_list xs f)\<rparr>) else vs_file s f)\<rparr>"

lemma add_files_Nil: "v \<in> dom (vs_version s) \<Longrightarrow> add_files v level [] s = s"
  by (auto simp: add_files_def fun_upd_idem)

lemma add_files_append:
  "level < length (vs_files s v) \<Longrightarrow> add_files v level ys (add_files v level xs s) = add_files v level (xs @ ys) s"
  by (auto simp: add_files_def fun_eq_iff count_notin)

lemma add_files_keeps:
  "descr (vs_fs (add_files v level xs s) f) = descr (vs_fs s f)" "vs_files (add_files v level xs s) v ! l =
    (if l = level \<and> l < length (vs_files s v) then vs_files s v ! l @ xs else vs_files s v ! l)"
  "length (vs_files (add_files v level xs s) v) = length (vs_files s v)"
  "v \<in> dom (vs_version (add_files v level xs s))" "w \<noteq> v \<Longrightarrow> vs_version (add_files v level xs s) w = vs_version s w"
  by (auto simp: add_files_def nth_list_update list_update_beyond not_less)

definition kept :: "Builder \<Rightarrow> nat \<Rightarrow> FileStore \<Rightarrow> nat \<Rightarrow> bool" where
  "kept b level fs f \<longleftrightarrow> fm_number (fs f) \<notin> set (deleted_files (b_levels b ! level))"

lemma kept_cong: "(\<And>f. descr (fs' f) = descr (fs f)) \<Longrightarrow> kept b level fs' = kept b level fs"
  by (intro ext) (simp add: kept_def descr_eq)

lemma fold_MaybeAddFile:
  assumes "v \<in> dom (vs_version s)" "level < length (vs_files s v)"
  shows "fold (MaybeAddFile b v level) xs s = add_files v level (filter (kept b level (vs_fs s)) xs) s"
  using assms
proof (induction xs arbitrary: s)
  case Nil
  then show ?case by (simp add: add_files_Nil)
next
  case (Cons f xs)
  show ?case
  proof (cases "kept b level (vs_fs s) f")
    case False
    then show ?thesis using Cons by (simp add: MaybeAddFile_def kept_def)
  next
    case True
    have m: "MaybeAddFile b v level f s = add_files v level [f] s"
      using True Cons.prems by (auto simp: MaybeAddFile_def kept_def add_files_def set_file_def set_version_def fun_eq_iff)
    have k: "kept b level (vs_fs (add_files v level [f] s)) = kept b level (vs_fs s)" by (rule kept_cong) (rule add_files_keeps)
    have "fold (MaybeAddFile b v level) (f # xs) s = fold (MaybeAddFile b v level) xs (add_files v level [f] s)" by (simp add: m)
    also have "\<dots> = add_files v level (filter (kept b level (vs_fs s)) xs) (add_files v level [f] s)"
      unfolding k [symmetric] by (rule Cons.IH) (use Cons.prems add_files_keeps in simp_all)
    also have "\<dots> = add_files v level (f # filter (kept b level (vs_fs s)) xs) s"
      using Cons.prems by (simp add: add_files_append)
    finally show ?thesis using True by simp
  qed
qed

fun merge_added :: "(nat \<Rightarrow> nat \<Rightarrow> bool) \<Rightarrow> nat list \<Rightarrow> nat list \<Rightarrow> nat list" where
  "merge_added lt base [] = base"
| "merge_added lt base (a # as) = takeWhile (\<lambda>x. \<not> lt a x) base @ a # merge_added lt (dropWhile (\<lambda>x. \<not> lt a x) base) as"

lemma save_level_ok:
  assumes "v \<in> dom (vs_version s)" "level < length (vs_files s v)"
  shows "save_level icompare b v level base added s =
    add_files v level (filter (kept b level (vs_fs s)) (merge_added (BySmallestKey icompare (vs_fs s)) base added)) s"
  using assms
proof (induction added arbitrary: base s)
  case Nil
  then show ?case by (simp add: fold_MaybeAddFile)
next
  case (Cons a added)
  let ?lt = "BySmallestKey icompare (vs_fs s)" and ?k = "kept b level (vs_fs s)"
  let ?xs = "takeWhile (\<lambda>x. \<not> ?lt a x) base" and ?rest = "dropWhile (\<lambda>x. \<not> ?lt a x) base"
  let ?s = "add_files v level (filter ?k (?xs @ [a])) s"
  have "MaybeAddFile b v level a (fold (MaybeAddFile b v level) ?xs s) = fold (MaybeAddFile b v level) (?xs @ [a]) s" by simp
  also have "\<dots> = ?s" by (rule fold_MaybeAddFile [OF Cons.prems])
  finally have "save_level icompare b v level base (a # added) s = save_level icompare b v level ?rest added ?s"
    by (simp add: Let_def dropWhile_eq_drop)
  also have "\<dots> = add_files v level (filter ?k (merge_added ?lt ?rest added)) ?s"
  proof -
    have d: "descr (vs_fs ?s f) = descr (vs_fs s f)" for f by (rule add_files_keeps)
    have "save_level icompare b v level ?rest added ?s =
        add_files v level (filter (kept b level (vs_fs ?s)) (merge_added (BySmallestKey icompare (vs_fs ?s)) ?rest added)) ?s"
      by (rule Cons.IH) (use Cons.prems in \<open>simp_all only: add_files_keeps\<close>)
    then show ?thesis unfolding kept_cong [OF d] BySmallestKey_cong [OF d] .
  qed
  finally show ?case using Cons.prems by (simp add: add_files_append)
qed

section \<open>Saving a version\<close>

definition saved_level :: "(bytes \<Rightarrow> bytes \<Rightarrow> int) \<Rightarrow> VersionSet \<Rightarrow> Builder \<Rightarrow> nat \<Rightarrow> nat list" where
  "saved_level icompare s b level =
     filter (kept b level (vs_fs s)) (merge_added (BySmallestKey icompare (vs_fs s)) (vs_files s (b_base b) ! level) (added_files (b_levels b ! level)))"

definition saved :: "(bytes \<Rightarrow> bytes \<Rightarrow> int) \<Rightarrow> VersionSet \<Rightarrow> Builder \<Rightarrow> nat list list" where
  "saved icompare s b = map (saved_level icompare s b) [0..<kNumLevels]"

text \<open>The new version gets the saved files, and every file a reference for each time it is listed.\<close>

lemma SaveTo_ok:
  assumes "vs_version s v = Some ver" "v_files ver = replicate kNumLevels []" "v \<noteq> b_base b"
  shows "\<exists>F. SaveTo icompare b v s = s\<lparr>vs_version := (vs_version s)(v \<mapsto> ver\<lparr>v_files := saved icompare s b\<rparr>), vs_file := F\<rparr> \<and>
    (\<forall>f. F f = (if f \<in> set (concat (saved icompare s b))
       then Some ((vs_fs s f)\<lparr>fm_refs := fm_refs (vs_fs s f) + int (count_list (concat (saved icompare s b)) f)\<rparr>) else vs_file s f))"
proof -
  let ?step = "\<lambda>level s. save_level icompare b v level (vs_files s (b_base b) ! level) (added_files (b_levels b ! level)) s"
  have "n \<le> kNumLevels \<Longrightarrow> \<exists>F. fold ?step [0..<n] s =
      s\<lparr>vs_version := (vs_version s)(v \<mapsto> ver\<lparr>v_files := map (saved_level icompare s b) [0..<n] @ replicate (kNumLevels - n) []\<rparr>), vs_file := F\<rparr> \<and>
      (\<forall>f. F f = (if f \<in> set (concat (map (saved_level icompare s b) [0..<n]))
         then Some ((vs_fs s f)\<lparr>fm_refs := fm_refs (vs_fs s f) + int (count_list (concat (map (saved_level icompare s b) [0..<n])) f)\<rparr>) else vs_file s f))" for n
  proof (induction n)
    case 0
    have "ver\<lparr>v_files := replicate kNumLevels []\<rparr> = ver" using assms(2) by simp
    then show ?case using assms(1) by (intro exI [of _ "vs_file s"]) (simp add: fun_upd_idem)
  next
    case (Suc n)
    let ?L = "concat (map (saved_level icompare s b) [0..<n])"
    obtain F where F: "fold ?step [0..<n] s =
        s\<lparr>vs_version := (vs_version s)(v \<mapsto> ver\<lparr>v_files := map (saved_level icompare s b) [0..<n] @ replicate (kNumLevels - n) []\<rparr>), vs_file := F\<rparr>"
      "\<And>f. F f = (if f \<in> set ?L then Some ((vs_fs s f)\<lparr>fm_refs := fm_refs (vs_fs s f) + int (count_list ?L f)\<rparr>) else vs_file s f)"
      using Suc.IH [OF Suc_leD [OF Suc.prems]] by (elim exE conjE) (rule that, assumption, erule spec)
    let ?s = "s\<lparr>vs_version := (vs_version s)(v \<mapsto> ver\<lparr>v_files := map (saved_level icompare s b) [0..<n] @ replicate (kNumLevels - n) []\<rparr>), vs_file := F\<rparr>"
    have d: "descr (vs_fs ?s f) = descr (vs_fs s f)" for f using F(2) [of f] by simp
    have base: "vs_files ?s (b_base b) = vs_files s (b_base b)" using assms(3) by simp
    have "?step n ?s = add_files v n (filter (kept b n (vs_fs ?s)) (merge_added (BySmallestKey icompare (vs_fs ?s)) (vs_files ?s (b_base b) ! n) (added_files (b_levels b ! n)))) ?s"
      by (rule save_level_ok) (use Suc.prems in simp_all)
    then have "?step n ?s = add_files v n (saved_level icompare s b n) ?s"
      unfolding kept_cong [OF d] BySmallestKey_cong [OF d] base saved_level_def .
    moreover have "\<dots> = s\<lparr>vs_version := (vs_version s)(v \<mapsto> ver\<lparr>v_files := map (saved_level icompare s b) [0..<Suc n] @ replicate (kNumLevels - Suc n) []\<rparr>),
        vs_file := \<lambda>f. if f \<in> set (saved_level icompare s b n) then Some ((the (F f))\<lparr>fm_refs := fm_refs (the (F f)) + int (count_list (saved_level icompare s b n) f)\<rparr>) else F f\<rparr>"
      using Suc.prems by (simp add: add_files_def nth_append list_update_append Suc_diff_Suc [symmetric] cong: if_cong)
    ultimately have "fold ?step [0..<Suc n] s = s\<lparr>vs_version := (vs_version s)(v \<mapsto> ver\<lparr>v_files := map (saved_level icompare s b) [0..<Suc n] @ replicate (kNumLevels - Suc n) []\<rparr>),
        vs_file := \<lambda>f. if f \<in> set (saved_level icompare s b n) then Some ((the (F f))\<lparr>fm_refs := fm_refs (the (F f)) + int (count_list (saved_level icompare s b n) f)\<rparr>) else F f\<rparr>"
      using F(1) by simp
    moreover have "(if f \<in> set (saved_level icompare s b n) then Some ((the (F f))\<lparr>fm_refs := fm_refs (the (F f)) + int (count_list (saved_level icompare s b n) f)\<rparr>) else F f) =
        (if f \<in> set (?L @ saved_level icompare s b n) then Some ((vs_fs s f)\<lparr>fm_refs := fm_refs (vs_fs s f) + int (count_list (?L @ saved_level icompare s b n) f)\<rparr>) else vs_file s f)" for f
      unfolding F(2) by (auto simp: count_notin)
    ultimately show ?case by (intro exI conjI) (assumption, simp)
  qed
  from this [OF order_refl] show ?thesis unfolding SaveTo_def saved_def diff_self_eq_0 replicate_0 append_Nil2 .
qed

section \<open>The order of files\<close>

lemma icmp_zero: "icmp a b = 0 \<longleftrightarrow> ExtractUserKey a = ExtractUserKey b \<and> key_num a = key_num b"
proof -
  have "icmp a b = 0 \<longleftrightarrow> \<not> icmp a b < 0 \<and> \<not> icmp b a < 0" using icmp_greater [of a b] by linarith
  then show ?thesis unfolding icmp_less by (metis linorder_neqE not_less_iff_gr_or_eq)
qed

lemma BySmallestKey_iff:
  "BySmallestKey icmp fs f g \<longleftrightarrow> icmp (fm_smallest (fs f)) (fm_smallest (fs g)) < 0 \<or>
    icmp (fm_smallest (fs f)) (fm_smallest (fs g)) = 0 \<and> fm_number (fs f) < fm_number (fs g)"
  by (auto simp: BySmallestKey_def Let_def)

lemma BySmallestKey_trans: "BySmallestKey icmp fs f g \<Longrightarrow> BySmallestKey icmp fs g h \<Longrightarrow> BySmallestKey icmp fs f h"
  unfolding BySmallestKey_iff icmp_less icmp_zero by auto

lemma BySmallestKey_irrefl [simp]: "\<not> BySmallestKey icmp fs f f"
  by (simp add: BySmallestKey_iff)

lemma BySmallestKey_total: "fm_number (fs f) \<noteq> fm_number (fs g) \<Longrightarrow> BySmallestKey icmp fs f g \<or> BySmallestKey icmp fs g f"
  unfolding BySmallestKey_iff icmp_less icmp_zero by auto

lemma set_insert_set:
  assumes "\<And>y. y \<in> set xs \<Longrightarrow> lt x y \<or> lt y x \<or> x = y"
  shows "set (set_insert lt x xs) = insert x (set xs)"
  using assms by (induction xs) auto

lemma set_insert_sorted:
  assumes "sorted_wrt lt xs" "\<And>a b c. lt a b \<Longrightarrow> lt b c \<Longrightarrow> lt a c"
  shows "sorted_wrt lt (set_insert lt x xs)"
proof -
  have "set (set_insert lt x xs) \<subseteq> insert x (set xs)" for xs by (induction xs) auto
  with assms show ?thesis by (induction xs) fastforce+
qed

lemma sorted_wrt_distinct: "sorted_wrt lt xs \<Longrightarrow> (\<And>x. \<not> lt x x) \<Longrightarrow> distinct xs"
  by (induction xs) auto

lemma merge_added_set: "set (merge_added lt base added) = set base \<union> set added"
proof (induction added arbitrary: base)
  case (Cons a added)
  have "set (takeWhile (\<lambda>x. \<not> lt a x) base) \<union> set (dropWhile (\<lambda>x. \<not> lt a x) base) = set base"
    by (metis set_append takeWhile_dropWhile_id)
  then show ?case using Cons.IH by auto
qed simp

lemma merge_added_sorted:
  assumes "sorted_wrt lt base" "sorted_wrt lt added" "\<And>a b c. lt a b \<Longrightarrow> lt b c \<Longrightarrow> lt a c"
    and "\<And>a b. a \<in> set added \<Longrightarrow> b \<in> set base \<Longrightarrow> lt a b \<or> lt b a"
  shows "sorted_wrt lt (merge_added lt base added)"
  using assms(1,2,4)
proof (induction added arbitrary: base)
  case (Cons a added)
  let ?xs = "takeWhile (\<lambda>x. \<not> lt a x) base" and ?ys = "dropWhile (\<lambda>x. \<not> lt a x) base"
  have "sorted_wrt lt (?xs @ ?ys)" using Cons.prems(1) by simp
  then have srt: "sorted_wrt lt ?xs" "sorted_wrt lt ?ys" "\<forall>x\<in>set ?xs. \<forall>y\<in>set ?ys. lt x y"
    unfolding sorted_wrt_append by blast+
  have ys: "lt a y" if "y \<in> set ?ys" for y
  proof (cases "?ys")
    case (Cons z zs)
    then have "lt a z" using hd_dropWhile [of "\<lambda>x. \<not> lt a x" base] by simp
    then show ?thesis using Cons that srt(2) assms(3) [of a z y] by auto
  next
    case Nil
    show ?thesis using that unfolding Nil by simp
  qed
  have xs: "lt x a" if "x \<in> set ?xs" for x using set_takeWhileD [OF that] Cons.prems(3) [of a x] by auto
  have M: "sorted_wrt lt (merge_added lt ?ys added)"
  proof (rule Cons.IH [OF srt(2)])
    show "sorted_wrt lt added" using Cons.prems(2) by simp
    show "lt x y \<or> lt y x" if "x \<in> set added" "y \<in> set ?ys" for x y
      using Cons.prems(3) [of x y] that(1) set_dropWhileD [OF that(2)] by simp
  qed
  have m: "lt a z" if "z \<in> set (merge_added lt ?ys added)" for z
  proof -
    from that consider "z \<in> set ?ys" | "z \<in> set added" unfolding merge_added_set by blast
    then show ?thesis
    proof cases
      case 1
      then show ?thesis by (rule ys)
    next
      case 2
      then show ?thesis using Cons.prems(2) by simp
    qed
  qed
  have x: "lt x z" if "x \<in> set ?xs" "z = a \<or> z \<in> set (merge_added lt ?ys added)" for x z
    using that(2) xs [OF that(1)] assms(3) [OF xs [OF that(1)] m] by (elim disjE) simp_all
  have "sorted_wrt lt (a # merge_added lt ?ys added)" unfolding sorted_wrt.simps using m M by blast
  moreover have "\<forall>y\<in>set ?xs. \<forall>z\<in>set (a # merge_added lt ?ys added). lt y z" using x by (intro ballI) (simp only: list.set insert_iff)
  ultimately show ?case unfolding merge_added.simps sorted_wrt_append using srt(1) by blast
qed simp

section \<open>The sets of files that edits make\<close>

type_synonym descriptor = "u64 \<times> u64 \<times> bytes \<times> bytes"

definition level_set :: "FileStore \<Rightarrow> nat list \<Rightarrow> descriptor set" where
  "level_set fs files = (\<lambda>f. descr (fs f)) ` set files"

text \<open>An edit first deletes files from a level and then adds files to it.\<close>

definition edit_level :: "VersionEdit \<Rightarrow> nat \<Rightarrow> descriptor set \<Rightarrow> descriptor set" where
  "edit_level e level D =
     {d \<in> D. (int level, fst d) \<notin> set (ve_deleted_files e)} \<union> {descr m |m. (int level, m) \<in> set (ve_new_files e)}"

definition new_numbers :: "VersionEdit \<Rightarrow> nat \<Rightarrow> u64 list" where
  "new_numbers e level = map (\<lambda>p. fm_number (snd p)) (filter (\<lambda>p. fst p = int level) (ve_new_files e))"

text \<open>What the code relies on: levels exist, and a level never gets the same file number twice.\<close>

definition edit_levels_ok :: "VersionEdit \<Rightarrow> bool" where
  "edit_levels_ok e \<longleftrightarrow> (\<forall>p\<in>set (ve_deleted_files e). 0 \<le> fst p \<and> fst p < int kNumLevels) \<and>
     (\<forall>p\<in>set (ve_new_files e). 0 \<le> fst p \<and> fst p < int kNumLevels)"

fun edits_fresh :: "(nat \<Rightarrow> u64 set) \<Rightarrow> VersionEdit list \<Rightarrow> bool" where
  "edits_fresh used [] \<longleftrightarrow> True"
| "edits_fresh used (e # es) \<longleftrightarrow> edit_levels_ok e \<and>
     (\<forall>level<kNumLevels. distinct (new_numbers e level) \<and> set (new_numbers e level) \<inter> used level = {}) \<and>
     edits_fresh (\<lambda>level. used level \<union> set (new_numbers e level)) es"

subsection \<open>What the builder keeps\<close>

definition builds_level :: "VersionSet \<Rightarrow> nat list \<Rightarrow> LevelState \<Rightarrow> u64 set \<Rightarrow> descriptor set \<Rightarrow> bool" where
  "builds_level s base l used D \<longleftrightarrow>
     sorted_wrt (BySmallestKey icmp (vs_fs s)) (added_files l) \<and> sorted_wrt (<) (deleted_files l) \<and>
     distinct (base @ added_files l) \<and> inj_on (\<lambda>f. fm_number (vs_fs s f)) (set (base @ added_files l)) \<and>
     (\<lambda>f. fm_number (vs_fs s f)) ` set (base @ added_files l) = used \<and>
     (\<forall>f\<in>set (base @ added_files l). f < vs_limit s) \<and>
     {d \<in> level_set (vs_fs s) (base @ added_files l). fst d \<notin> set (deleted_files l)} = D"

lemma builds_level_delete:
  "builds_level s base l used D \<Longrightarrow> builds_level s base (l\<lparr>deleted_files := set_insert (<) n (deleted_files l)\<rparr>) used {d \<in> D. fst d \<noteq> n}"
proof -
  have "set (set_insert (<) n xs) = insert n (set xs)" for xs :: "u64 list" by (rule set_insert_set) auto
  moreover have "sorted_wrt (<) xs \<Longrightarrow> sorted_wrt (<) (set_insert (<) n xs)" for xs :: "u64 list" by (rule set_insert_sorted) auto
  ultimately show "builds_level s base l used D \<Longrightarrow> ?thesis" unfolding builds_level_def by fastforce
qed

lemma builds_level_add:
  assumes "builds_level s base l used D" "fm_number m \<notin> used" "new_file m s = (f, s')"
  shows "builds_level s' base (l\<lparr>deleted_files := remove1 (fm_number m) (deleted_files l),
      added_files := set_insert (BySmallestKey icmp (vs_fs s')) f (added_files l)\<rparr>) (insert (fm_number m) used) (insert (descr m) D)"
proof -
  let ?F = "set (base @ added_files l)" and ?lt' = "BySmallestKey icmp (vs_fs s')"
  have s': "s' = s\<lparr>vs_file := (vs_file s)(f \<mapsto> m), vs_limit := f + 1\<rparr>" "f = vs_limit s"
    using assms(3) by (auto simp: new_file_def set_file_def Let_def)
  note b = assms(1) [unfolded builds_level_def]
  have new: "f \<notin> ?F" using b s'(2) by blast
  have old: "vs_fs s' g = vs_fs s g" if "g \<in> ?F" for g using new that by (auto simp: s'(1))
  have fm: "vs_fs s' f = m" by (simp add: s'(1))
  have used: "(\<lambda>f. fm_number (vs_fs s f)) ` ?F = used" using b by blast
  have num: "fm_number (vs_fs s g) \<noteq> fm_number m" if "g \<in> ?F" for g using imageI [OF that, of "\<lambda>f. fm_number (vs_fs s f)"] used assms(2) by auto
  have total: "?lt' f g \<or> ?lt' g f" if "g \<in> ?F" for g
    using BySmallestKey_total [of "vs_fs s'" f g] num [OF that] old [OF that] fm by auto
  have set': "set (set_insert ?lt' f (added_files l)) = insert f (set (added_files l))"
    by (rule set_insert_set) (use total in auto)
  have "sorted_wrt ?lt' (added_files l)"
  proof (rule sorted_wrt_mono_rel [rotated])
    show "sorted_wrt (BySmallestKey icmp (vs_fs s)) (added_files l)" using b by blast
    show "?lt' x y" if "x \<in> set (added_files l)" "y \<in> set (added_files l)" "BySmallestKey icmp (vs_fs s) x y" for x y
      using that old [of x] old [of y] by (simp add: BySmallestKey_iff)
  qed
  then have srt: "sorted_wrt ?lt' (set_insert ?lt' f (added_files l))" by (rule set_insert_sorted) (rule BySmallestKey_trans)
  have dist: "distinct (set_insert ?lt' f (added_files l))"
    by (rule sorted_wrt_distinct [OF srt]) simp
  have dd: "sorted_wrt (<) (remove1 (fm_number m) (deleted_files l))" "set (remove1 (fm_number m) (deleted_files l)) = set (deleted_files l) - {fm_number m}"
    using b by (auto simp: strict_sorted_iff sorted_remove1)
  have img: "(\<lambda>g. h (vs_fs s' g)) ` ?F = (\<lambda>g. h (vs_fs s g)) ` ?F" for h :: "FileMetaData \<Rightarrow> 'x" by (rule image_cong) (auto simp: old)
  let ?added = "set_insert ?lt' f (added_files l)"
  have F': "set (base @ ?added) = insert f ?F" using set' by auto
  have d1: "distinct (base @ ?added)" using b new dist set' by auto
  have d2: "inj_on (\<lambda>g. fm_number (vs_fs s' g)) (insert f ?F)"
  proof -
    have "inj_on (\<lambda>g. fm_number (vs_fs s g)) ?F" using b by blast
    then have "inj_on (\<lambda>g. fm_number (vs_fs s' g)) ?F" by (rule inj_on_cong [THEN iffD1, rotated]) (simp only: old)
    moreover have "fm_number m \<notin> (\<lambda>g. fm_number (vs_fs s' g)) ` ?F" unfolding img used by (rule assms(2))
    ultimately show ?thesis unfolding inj_on_insert fm by blast
  qed
  have d3: "(\<lambda>g. fm_number (vs_fs s' g)) ` insert f ?F = insert (fm_number m) used" unfolding image_insert img fm used ..
  have d4: "\<forall>g\<in>insert f ?F. g < vs_limit s'"
  proof -
    have "\<forall>g\<in>?F. g < vs_limit s" using b by blast
    then show ?thesis unfolding s' by (auto intro: less_SucI)
  qed
  have d5: "{d \<in> level_set (vs_fs s') (base @ ?added). fst d \<notin> set (remove1 (fm_number m) (deleted_files l))} = insert (descr m) D"
  proof -
    have D: "{d \<in> level_set (vs_fs s) (base @ added_files l). fst d \<notin> set (deleted_files l)} = D" using b by blast
    have L: "level_set (vs_fs s') (base @ ?added) = insert (descr m) (level_set (vs_fs s) (base @ added_files l))"
      unfolding level_set_def F' image_insert img fm ..
    have n: "fst d \<noteq> fm_number m" if "d \<in> level_set (vs_fs s) (base @ added_files l)" for d
      using that num by (auto simp: level_set_def descr_def)
    have "fst (descr m) = fm_number m" by (simp add: descr_def)
    then show ?thesis unfolding L dd(2) D [symmetric] using n by auto
  qed
  have sel: "added_files (l\<lparr>deleted_files := remove1 (fm_number m) (deleted_files l), added_files := ?added\<rparr>) = ?added"
      "deleted_files (l\<lparr>deleted_files := remove1 (fm_number m) (deleted_files l), added_files := ?added\<rparr>) = remove1 (fm_number m) (deleted_files l)"
    by simp_all
  show ?thesis unfolding builds_level_def sel F' by (intro conjI srt dd(1) d1 d2 d3 d4 d5)
qed

lemma builds_level_mono:
  assumes "builds_level s base l used D" "\<forall>f<vs_limit s. vs_file s' f = vs_file s f" "vs_limit s \<le> vs_limit s'"
  shows "builds_level s' base l used D"
proof -
  let ?F = "set (base @ added_files l)"
  note b = assms(1) [unfolded builds_level_def]
  have lim: "\<forall>f\<in>?F. f < vs_limit s" using b by blast
  then have old: "vs_fs s' f = vs_fs s f" if "f \<in> ?F" for f using assms(2) that by simp
  have img: "(\<lambda>f. h (vs_fs s' f)) ` ?F = (\<lambda>f. h (vs_fs s f)) ` ?F" for h :: "FileMetaData \<Rightarrow> 'x" by (rule image_cong) (simp_all only: old)
  have "sorted_wrt (BySmallestKey icmp (vs_fs s')) (added_files l)"
  proof (rule sorted_wrt_mono_rel [rotated])
    show "sorted_wrt (BySmallestKey icmp (vs_fs s)) (added_files l)" using b by blast
    show "BySmallestKey icmp (vs_fs s') x y" if "x \<in> set (added_files l)" "y \<in> set (added_files l)" "BySmallestKey icmp (vs_fs s) x y" for x y
      using that old [of x] old [of y] by (simp add: BySmallestKey_iff)
  qed
  moreover have "inj_on (\<lambda>f. fm_number (vs_fs s' f)) ?F = inj_on (\<lambda>f. fm_number (vs_fs s f)) ?F" by (rule inj_on_cong) (simp only: old)
  moreover have "level_set (vs_fs s') (base @ added_files l) = level_set (vs_fs s) (base @ added_files l)" unfolding level_set_def img ..
  moreover have "\<forall>f\<in>?F. f < vs_limit s'" using lim assms(3) less_le_trans by blast
  ultimately show ?thesis using b unfolding builds_level_def img by (simp only:)
qed

definition builds :: "VersionSet \<Rightarrow> Builder \<Rightarrow> (nat \<Rightarrow> u64 set) \<Rightarrow> (nat \<Rightarrow> descriptor set) \<Rightarrow> bool" where
  "builds s b used D \<longleftrightarrow> length (b_levels b) = kNumLevels \<and>
     (\<forall>l<kNumLevels. builds_level s (vs_files s (b_base b) ! l) (b_levels b ! l) (used l) (D l))"

text \<open>Applying an edit only allocates files and moves compaction pointers.\<close>

definition only_allocates :: "VersionSet \<Rightarrow> VersionSet \<Rightarrow> bool" where
  "only_allocates s s' \<longleftrightarrow>
     s' = s\<lparr>vs_compact_pointer := vs_compact_pointer s', vs_file := vs_file s', vs_limit := vs_limit s'\<rparr> \<and>
     (\<forall>f<vs_limit s. vs_file s' f = vs_file s f) \<and> vs_limit s \<le> vs_limit s'"

lemma only_allocates_refl: "only_allocates s s"
  by (simp add: only_allocates_def)

lemma only_allocates_trans: "only_allocates s s' \<Longrightarrow> only_allocates s' s'' \<Longrightarrow> only_allocates s s''"
  unfolding only_allocates_def by (cases s, cases s', cases s'') auto

lemma only_allocates_version: "only_allocates s s' \<Longrightarrow> vs_version s' = vs_version s \<and> vs_versions s' = vs_versions s \<and> vs_current s' = vs_current s"
  unfolding only_allocates_def by (cases s, cases s') auto

lemma builds_mono: "builds s b used D \<Longrightarrow> only_allocates s s' \<Longrightarrow> builds s' b used D"
  using only_allocates_version [of s s'] builds_level_mono by (auto simp: builds_def only_allocates_def)

lemma compact_pointers_only: "only_allocates s (fold apply_compact_pointer ps s)"
proof (induction ps arbitrary: s)
  case (Cons p ps)
  have "only_allocates s (apply_compact_pointer p s)" by (simp add: only_allocates_def apply_compact_pointer_def)
  then show ?case using only_allocates_trans [OF _ Cons.IH] by simp
qed (simp add: only_allocates_refl)

lemma deleted_files_build:
  assumes "builds s b used D" "\<forall>p\<in>set ps. 0 \<le> fst p \<and> fst p < int kNumLevels"
  shows "builds s (fold apply_deleted_file ps b) used (\<lambda>l. {d \<in> D l. (int l, fst d) \<notin> set ps}) \<and> b_base (fold apply_deleted_file ps b) = b_base b"
  using assms
proof (induction ps arbitrary: b D)
  case (Cons p ps)
  let ?n = "nat (fst p)" and ?b = "apply_deleted_file p b"
  have n: "?n < kNumLevels" "int ?n = fst p" using Cons.prems(2) by auto
  have base: "b_base ?b = b_base b" by (simp add: apply_deleted_file_def Let_def)
  have del: "builds s ?b used (\<lambda>l. if l = ?n then {d \<in> D l. fst d \<noteq> snd p} else D l)"
    using Cons.prems(1) n(1) builds_level_delete [of s _ "b_levels b ! ?n" "used ?n" "D ?n" "snd p"]
    by (auto simp: builds_def apply_deleted_file_def Let_def nth_list_update)
  have eq: "(\<lambda>l. {d \<in> if l = ?n then {d \<in> D l. fst d \<noteq> snd p} else D l. (int l, fst d) \<notin> set ps}) = (\<lambda>l. {d \<in> D l. (int l, fst d) \<notin> set (p # ps)})"
  proof
    fix l
    have "l = ?n \<longleftrightarrow> int l = fst p" using n(2) by linarith
    then show "{d \<in> if l = ?n then {d \<in> D l. fst d \<noteq> snd p} else D l. (int l, fst d) \<notin> set ps} = {d \<in> D l. (int l, fst d) \<notin> set (p # ps)}"
      by (cases p) auto
  qed
  have "\<forall>p\<in>set ps. 0 \<le> fst p \<and> fst p < int kNumLevels" using Cons.prems(2) by simp
  from Cons.IH [OF del this] show ?case unfolding eq base by simp
qed (simp add: fun_eq_iff)

lemma new_file_builds:
  assumes "builds s b used D" "0 \<le> fst p" "fst p < int kNumLevels" "fm_number (snd p) \<notin> used (nat (fst p))" "apply_new_file icmp p (b, s) = (b', s')"
  shows "builds s' b' (used(nat (fst p) := insert (fm_number (snd p)) (used (nat (fst p))))) (D(nat (fst p) := insert (descr (snd p)) (D (nat (fst p))))) \<and>
    b_base b' = b_base b \<and> only_allocates s s'"
proof -
  let ?n = "nat (fst p)" and ?m = "(snd p)\<lparr>fm_refs := 1, fm_allowed_seeks := initial_seeks (fm_file_size (snd p))\<rparr>"
  obtain f where f: "new_file ?m s = (f, s')"
    using assms(5) by (cases "new_file ?m s") (auto simp: apply_new_file_def Let_def)
  have s': "s' = s\<lparr>vs_file := (vs_file s)(vs_limit s \<mapsto> ?m), vs_limit := vs_limit s + 1\<rparr>" "f = vs_limit s"
    using f by (auto simp: new_file_def set_file_def Let_def)
  then have alloc: "only_allocates s s'" by (auto simp: only_allocates_def)
  have num: "fm_number (vs_fs s' f) = fm_number ?m" by (simp add: s')
  let ?l = "b_levels b ! ?n"
  let ?l' = "?l\<lparr>deleted_files := remove1 (fm_number ?m) (deleted_files ?l), added_files := set_insert (BySmallestKey icmp (vs_fs s')) f (added_files ?l)\<rparr>"
  have b': "b' = b\<lparr>b_levels := (b_levels b)[?n := ?l']\<rparr>"
    using assms(5) f num by (simp add: apply_new_file_def Let_def)
  have n: "?n < kNumLevels" "length (b_levels b) = kNumLevels" using assms(1-3) by (auto simp: builds_def)
  have base: "vs_files s' v = vs_files s v" for v by (simp add: s')
  have "builds_level s (vs_files s (b_base b) ! ?n) ?l (used ?n) (D ?n)" using assms(1) n by (simp add: builds_def)
  from builds_level_add [OF this _ f] assms(4)
  have "builds_level s' (vs_files s (b_base b) ! ?n) ?l' (insert (fm_number (snd p)) (used ?n)) (insert (descr (snd p)) (D ?n))" by simp
  moreover have "builds s' b used D" using assms(1) alloc by (rule builds_mono)
  ultimately show ?thesis using n alloc unfolding builds_def b' by (auto simp: base nth_list_update)
qed

lemma new_files_build:
  assumes "builds s b used D" "\<forall>p\<in>set ps. 0 \<le> fst p \<and> fst p < int kNumLevels"
    and "\<forall>l<kNumLevels. distinct (map (\<lambda>p. fm_number (snd p)) (filter (\<lambda>p. fst p = int l) ps)) \<and>
      set (map (\<lambda>p. fm_number (snd p)) (filter (\<lambda>p. fst p = int l) ps)) \<inter> used l = {}"
    and "fold (apply_new_file icmp) ps (b, s) = (b', s')"
  shows "builds s' b' (\<lambda>l. used l \<union> set (map (\<lambda>p. fm_number (snd p)) (filter (\<lambda>p. fst p = int l) ps))) (\<lambda>l. D l \<union> {descr m |m. (int l, m) \<in> set ps}) \<and>
    b_base b' = b_base b \<and> only_allocates s s'"
  using assms
proof (induction ps arbitrary: b s used D)
  case Nil
  then show ?case by (simp add: only_allocates_refl)
next
  case (Cons p ps)
  let ?n = "nat (fst p)"
  have n: "0 \<le> fst p" "fst p < int kNumLevels" "?n < kNumLevels" "int ?n = fst p" using Cons.prems(2) by auto
  obtain b1 s1 where 1: "apply_new_file icmp p (b, s) = (b1, s1)" by (cases "apply_new_file icmp p (b, s)")
  have "fm_number (snd p) \<notin> used ?n" using Cons.prems(3) [rule_format, OF n(3)] n(4) by auto
  note step = new_file_builds [OF Cons.prems(1) n(1,2) this 1]
  let ?used = "used(?n := insert (fm_number (snd p)) (used ?n))" and ?D = "D(?n := insert (descr (snd p)) (D ?n))"
  have "builds s' b' (\<lambda>l. ?used l \<union> set (map (\<lambda>p. fm_number (snd p)) (filter (\<lambda>p. fst p = int l) ps))) (\<lambda>l. ?D l \<union> {descr m |m. (int l, m) \<in> set ps}) \<and>
      b_base b' = b_base b1 \<and> only_allocates s1 s'"
  proof (rule Cons.IH)
    show "builds s1 b1 ?used ?D" using step by blast
    show "\<forall>p\<in>set ps. 0 \<le> fst p \<and> fst p < int kNumLevels" using Cons.prems(2) by simp
    show "fold (apply_new_file icmp) ps (b1, s1) = (b', s')" using Cons.prems(4) 1 by simp
    show "\<forall>l<kNumLevels. distinct (map (\<lambda>p. fm_number (snd p)) (filter (\<lambda>p. fst p = int l) ps)) \<and>
        set (map (\<lambda>p. fm_number (snd p)) (filter (\<lambda>p. fst p = int l) ps)) \<inter> ?used l = {}"
    proof (intro allI impI)
      fix l assume l: "l < kNumLevels"
      show "distinct (map (\<lambda>p. fm_number (snd p)) (filter (\<lambda>p. fst p = int l) ps)) \<and>
        set (map (\<lambda>p. fm_number (snd p)) (filter (\<lambda>p. fst p = int l) ps)) \<inter> ?used l = {}"
        using Cons.prems(3) [rule_format, OF l] n(4) by (cases "l = ?n") (auto split: if_splits)
    qed
  qed
  moreover have "(\<lambda>l. ?used l \<union> set (map (\<lambda>p. fm_number (snd p)) (filter (\<lambda>p. fst p = int l) ps))) =
      (\<lambda>l. used l \<union> set (map (\<lambda>p. fm_number (snd p)) (filter (\<lambda>p. fst p = int l) (p # ps))))"
  proof
    fix l
    have "l = ?n \<longleftrightarrow> fst p = int l" using n(4) by linarith
    then show "?used l \<union> set (map (\<lambda>p. fm_number (snd p)) (filter (\<lambda>p. fst p = int l) ps)) =
        used l \<union> set (map (\<lambda>p. fm_number (snd p)) (filter (\<lambda>p. fst p = int l) (p # ps)))" by auto
  qed
  moreover have "(\<lambda>l. ?D l \<union> {descr m |m. (int l, m) \<in> set ps}) = (\<lambda>l. D l \<union> {descr m |m. (int l, m) \<in> set (p # ps)})"
  proof
    fix l
    have "l = ?n \<longleftrightarrow> fst p = int l" using n(4) by linarith
    then show "?D l \<union> {descr m |m. (int l, m) \<in> set ps} = D l \<union> {descr m |m. (int l, m) \<in> set (p # ps)}" by (cases p) auto
  qed
  ultimately show ?case using step only_allocates_trans by auto
qed

lemma Apply_builds:
  assumes "builds s b used D" "edit_levels_ok e" "\<forall>l<kNumLevels. distinct (new_numbers e l) \<and> set (new_numbers e l) \<inter> used l = {}"
    and "Builder_Apply icmp e (b, s) = (b', s')"
  shows "builds s' b' (\<lambda>l. used l \<union> set (new_numbers e l)) (\<lambda>l. edit_level e l (D l)) \<and> b_base b' = b_base b \<and> only_allocates s s'"
proof -
  let ?s = "fold apply_compact_pointer (ve_compact_pointers e) s" and ?b = "fold apply_deleted_file (ve_deleted_files e) b"
  have c: "only_allocates s ?s" by (rule compact_pointers_only)
  have d: "builds ?s ?b used (\<lambda>l. {d \<in> D l. (int l, fst d) \<notin> set (ve_deleted_files e)}) \<and> b_base ?b = b_base b"
    by (rule deleted_files_build [OF builds_mono [OF assms(1) c]]) (use assms(2) in \<open>simp add: edit_levels_ok_def\<close>)
  have "fold (apply_new_file icmp) (ve_new_files e) (?b, ?s) = (b', s')" using assms(4) by (simp add: Builder_Apply_def Let_def)
  from new_files_build [OF conjunct1 [OF d] _ _ this] assms(2,3) d c only_allocates_trans
  show ?thesis unfolding new_numbers_def edit_level_def edit_levels_ok_def by auto
qed

lemma Apply_all_build:
  assumes "builds s b used D" "edits_fresh used es" "fold (Builder_Apply icmp) es (b, s) = (b', s')"
  shows "\<exists>used'. builds s' b' used' (\<lambda>l. fold (\<lambda>e. edit_level e l) es (D l)) \<and> b_base b' = b_base b \<and> only_allocates s s'"
  using assms
proof (induction es arbitrary: s b used D)
  case Nil
  then show ?case using only_allocates_refl by auto
next
  case (Cons e es)
  obtain b1 s1 where 1: "Builder_Apply icmp e (b, s) = (b1, s1)" by (cases "Builder_Apply icmp e (b, s)")
  have step: "builds s1 b1 (\<lambda>l. used l \<union> set (new_numbers e l)) (\<lambda>l. edit_level e l (D l)) \<and> b_base b1 = b_base b \<and> only_allocates s s1"
    by (rule Apply_builds [OF Cons.prems(1) _ _ 1]) (use Cons.prems(2) in simp_all)
  have "edits_fresh (\<lambda>l. used l \<union> set (new_numbers e l)) es" "fold (Builder_Apply icmp) es (b1, s1) = (b', s')"
    using Cons.prems(2,3) 1 by simp_all
  from Cons.IH [OF conjunct1 [OF step] this] step only_allocates_trans show ?case by auto
qed

text \<open>What is saved: each level in order, with the files that the edits leave.\<close>

lemma saved_level_ok:
  assumes "builds s b used D" "l < kNumLevels" "sorted_wrt (BySmallestKey icmp (vs_fs s)) (vs_files s (b_base b) ! l)"
  shows "sorted_wrt (BySmallestKey icmp (vs_fs s)) (saved_level icmp s b l)" "level_set (vs_fs s) (saved_level icmp s b l) = D l"
    and "distinct (saved_level icmp s b l)" "inj_on (\<lambda>f. fm_number (vs_fs s f)) (set (saved_level icmp s b l))"
proof -
  let ?base = "vs_files s (b_base b) ! l" and ?l = "b_levels b ! l" and ?lt = "BySmallestKey icmp (vs_fs s)"
  note bl = assms(1) [unfolded builds_def, THEN conjunct2, rule_format, OF assms(2), unfolded builds_level_def]
  have inj: "inj_on (\<lambda>f. fm_number (vs_fs s f)) (set (?base @ added_files ?l))" using bl by blast
  have disj: "distinct (?base @ added_files ?l)" using bl by blast
  have "sorted_wrt ?lt (merge_added ?lt ?base (added_files ?l))"
  proof (rule merge_added_sorted [OF assms(3)])
    show "sorted_wrt ?lt (added_files ?l)" using bl by blast
    show "?lt x z" if "?lt x y" "?lt y z" for x y z using that by (rule BySmallestKey_trans)
    fix x y assume xy: "x \<in> set (added_files ?l)" "y \<in> set ?base"
    then have "x \<noteq> y" using disj by auto
    then have "fm_number (vs_fs s x) \<noteq> fm_number (vs_fs s y)" using inj_onD [OF inj, of x y] xy by auto
    then show "?lt x y \<or> ?lt y x" by (rule BySmallestKey_total)
  qed
  then show srt: "sorted_wrt ?lt (saved_level icmp s b l)" unfolding saved_level_def by (rule sorted_wrt_filter)
  then show "distinct (saved_level icmp s b l)" by (rule sorted_wrt_distinct) simp
  have S: "set (saved_level icmp s b l) = {f \<in> set (?base @ added_files ?l). kept b l (vs_fs s) f}"
    by (auto simp: saved_level_def merge_added_set)
  show "inj_on (\<lambda>f. fm_number (vs_fs s f)) (set (saved_level icmp s b l))" by (rule inj_on_subset [OF inj]) (auto simp: S)
  have "level_set (vs_fs s) (saved_level icmp s b l) = {d \<in> level_set (vs_fs s) (?base @ added_files ?l). fst d \<notin> set (deleted_files ?l)}"
    unfolding level_set_def S kept_def by (auto simp: descr_def)
  then show "level_set (vs_fs s) (saved_level icmp s b l) = D l" using bl by blast
qed

section \<open>Properties\<close>

text \<open>A version whose levels are in order and list no file number twice.\<close>

definition version_sorted :: "VersionSet \<Rightarrow> nat \<Rightarrow> bool" where
  "version_sorted s v \<longleftrightarrow> length (vs_files s v) = kNumLevels \<and>
     (\<forall>l<kNumLevels. sorted_wrt (BySmallestKey icmp (vs_fs s)) (vs_files s v ! l) \<and>
        inj_on (\<lambda>f. fm_number (vs_fs s f)) (set (vs_files s v ! l)) \<and> (\<forall>f\<in>set (vs_files s v ! l). f < vs_limit s))"

lemma Builder_new_builds:
  assumes "version_sorted s base" "base \<in> dom (vs_version s)" "Builder_new base s = (b, s')"
  shows "builds s' b (\<lambda>l. (\<lambda>f. fm_number (vs_fs s f)) ` set (vs_files s base ! l)) (\<lambda>l. level_set (vs_fs s) (vs_files s base ! l))"
    and "b_base b = base" "vs_file s' = vs_file s" "vs_limit s' = vs_limit s" "vs_files s' v = vs_files s v" "dom (vs_version s') = dom (vs_version s)"
    and "v \<noteq> base \<Longrightarrow> vs_version s' v = vs_version s v"
proof -
  have b: "b = \<lparr>b_base = base, b_levels = replicate kNumLevels \<lparr>deleted_files = [], added_files = []\<rparr>\<rparr>" "s' = Version_Ref base s"
    using assms(3) by (simp_all add: Builder_new_def)
  show same: "b_base b = base" "vs_file s' = vs_file s" "vs_limit s' = vs_limit s" "vs_files s' v = vs_files s v" "dom (vs_version s') = dom (vs_version s)"
      "v \<noteq> base \<Longrightarrow> vs_version s' v = vs_version s v" for v
    using assms(2) by (auto simp: b Version_Ref_def set_version_def Let_def)
  show "builds s' b (\<lambda>l. (\<lambda>f. fm_number (vs_fs s f)) ` set (vs_files s base ! l)) (\<lambda>l. level_set (vs_fs s) (vs_files s base ! l))"
    using assms(1) sorted_wrt_distinct [of "BySmallestKey icmp (vs_fs s)"]
    unfolding builds_def builds_level_def same version_sorted_def by (auto simp: b(1))
qed

lemma SaveTo_builds:
  assumes b: "builds s b used D" and v: "vs_version s v = Some Version_init" "v \<noteq> b_base b"
    and base: "\<And>l. l < kNumLevels \<Longrightarrow> sorted_wrt (BySmallestKey icmp (vs_fs s)) (vs_files s (b_base b) ! l)"
  shows "version_sorted (SaveTo icmp b v s) v \<and> (\<forall>l<kNumLevels. level_set (vs_fs (SaveTo icmp b v s)) (vs_files (SaveTo icmp b v s) v ! l) = D l)"
proof -
  from SaveTo_ok [OF v(1) _ v(2), of icmp] obtain F where
    F: "SaveTo icmp b v s = s\<lparr>vs_version := (vs_version s)(v \<mapsto> Version_init\<lparr>v_files := saved icmp s b\<rparr>), vs_file := F\<rparr>"
      "\<forall>f. F f = (if f \<in> set (concat (saved icmp s b))
        then Some ((vs_fs s f)\<lparr>fm_refs := fm_refs (vs_fs s f) + int (count_list (concat (saved icmp s b)) f)\<rparr>) else vs_file s f)"
    by (auto simp: Version_init_def)
  let ?s = "SaveTo icmp b v s"
  have d: "descr (vs_fs ?s f) = descr (vs_fs s f)" for f using F(2) [rule_format, of f] by (simp add: F(1))
  then have lt: "BySmallestKey icmp (vs_fs ?s) = BySmallestKey icmp (vs_fs s)" by (rule BySmallestKey_cong)
  have num: "fm_number (vs_fs ?s f) = fm_number (vs_fs s f)" for f using d by (simp add: descr_eq)
  have files: "vs_files ?s v ! l = saved_level icmp s b l" if "l < kNumLevels" for l using that by (simp add: F(1) saved_def)
  note sl = saved_level_ok [OF b _ base]
  have "f < vs_limit s" if "f \<in> set (saved_level icmp s b l)" "l < kNumLevels" for f l
    using b that unfolding builds_def builds_level_def saved_level_def by (auto simp: merge_added_set)
  then have "version_sorted ?s v" unfolding version_sorted_def lt num using sl(1,4) files by (simp add: F(1) saved_def)
  moreover have "level_set (vs_fs ?s) (vs_files ?s v ! l) = D l" if "l < kNumLevels" for l
    unfolding level_set_def d files [OF that] using sl(2) [OF that that] by (simp add: level_set_def)
  ultimately show ?thesis by blast
qed

lemma builder_refines_edits_aux:
  assumes "version_sorted s base" "base \<in> dom (vs_version s)" and "vs_version s v = Some Version_init" "v \<noteq> base"
    and "edits_fresh (\<lambda>l. (\<lambda>f. fm_number (vs_fs s f)) ` set (vs_files s base ! l)) es"
    and "Builder_new base s = (b, s1)" "fold (Builder_Apply icmp) es (b, s1) = (b', s2)"
  shows "version_sorted (SaveTo icmp b' v s2) v \<and>
    (\<forall>l<kNumLevels. level_set (vs_fs (SaveTo icmp b' v s2)) (vs_files (SaveTo icmp b' v s2) v ! l) =
       fold (\<lambda>e. edit_level e l) es (level_set (vs_fs s) (vs_files s base ! l)))"
proof -
  note new = Builder_new_builds [OF assms(1,2,6)]
  obtain used where b': "builds s2 b' used (\<lambda>l. fold (\<lambda>e. edit_level e l) es (level_set (vs_fs s) (vs_files s base ! l)))" "b_base b' = base" "only_allocates s1 s2"
    using Apply_all_build [OF new(1) assms(5,7)] new(2) by auto
  have version: "vs_version s2 = vs_version s1" using only_allocates_version [OF b'(3)] by simp
  have old: "vs_fs s2 f = vs_fs s f" if "f < vs_limit s" for f using b'(3) that new(3,4) by (simp add: only_allocates_def)
  have base: "sorted_wrt (BySmallestKey icmp (vs_fs s2)) (vs_files s2 base ! l)" if "l < kNumLevels" for l
  proof (rule sorted_wrt_mono_rel [rotated])
    show "sorted_wrt (BySmallestKey icmp (vs_fs s)) (vs_files s2 base ! l)" using assms(1) that new(5) by (simp add: version_sorted_def version)
    fix x y assume "x \<in> set (vs_files s2 base ! l)" "y \<in> set (vs_files s2 base ! l)" and xy: "BySmallestKey icmp (vs_fs s) x y"
    then have "x < vs_limit s" "y < vs_limit s" using assms(1) that new(5) by (auto simp: version_sorted_def version)
    then show "BySmallestKey icmp (vs_fs s2) x y" using xy old by (simp add: BySmallestKey_iff)
  qed
  have v: "vs_version s2 v = Some Version_init" using version new(7) assms(3,4) by simp
  from SaveTo_builds [OF b'(1) v] base assms(4) b'(2) show ?thesis by simp
qed

text \<open>C26. A builder applies a whole sequence of edits at once. What it saves is what applying the edits one by one to the
  sets of files would give, first deleting files and then adding them, provided no level gets a file number
  twice; and each level is again in order, without a file number twice.\<close>

theorem builder_refines_edits:
  assumes "version_sorted s base" "base \<in> dom (vs_version s)" and "vs_version s v = Some Version_init" "v \<noteq> base"
    and "edits_fresh (\<lambda>l. (\<lambda>f. fm_number (vs_fs s f)) ` set (vs_files s base ! l)) es"
    and "Builder_new base s = (b, s1)" "fold (Builder_Apply icmp) es (b, s1) = (b', s2)"
  shows "version_sorted (SaveTo icmp b' v s2) v \<and>
    (\<forall>l<kNumLevels. level_set (vs_fs (SaveTo icmp b' v s2)) (vs_files (SaveTo icmp b' v s2) v ! l) =
       fold (\<lambda>e. edit_level e l) es (level_set (vs_fs s) (vs_files s base ! l)))"
  by (rule builder_refines_edits_aux [OF assms])

definition sample_edit :: VersionEdit where
  "sample_edit = AddFile (AddFile VersionEdit_new 1 5 100 (InternalKey [3] 9 kTypeValue) (InternalKey [4] 9 kTypeValue))
     1 6 100 (InternalKey [1] 9 kTypeValue) (InternalKey [2] 9 kTypeValue)"

lemma edit_level_list:
  "edit_level e l D = {d \<in> D. (int l, fst d) \<notin> set (ve_deleted_files e)} \<union> set (map (\<lambda>p. descr (snd p)) (filter (\<lambda>p. fst p = int l) (ve_new_files e)))"
  by (force simp: edit_level_def)

theorem builder_refines_edits_witness:
  "\<exists>s base v b s1 b' s2. vs_version s v = Some Version_init \<and> Builder_new base s = (b, s1) \<and>
    fold (Builder_Apply icmp) [sample_edit, VersionEdit_DeleteFile VersionEdit_new 1 5] (b, s1) = (b', s2) \<and>
    level_set (vs_fs (SaveTo icmp b' v s2)) (vs_files (SaveTo icmp b' v s2) v ! 1) = {(6, 100, InternalKey [1] 9 kTypeValue, InternalKey [2] 9 kTypeValue)}"
proof -
  obtain v s where s: "Version_new (VersionSet_new undefined) = (v, s)" by (cases "Version_new (VersionSet_new undefined)")
  have vs: "vs_version s = [1 \<mapsto> Version_init\<lparr>v_refs := 1\<rparr>, 2 \<mapsto> Version_init]" "vs_limit s = 3" "v = 2"
    using s by (auto simp: VersionSet_new_def Version_new_def AppendVersion_def Version_Ref_def set_version_def Let_def Version_init_def)
  have "vs_files s 1 = replicate kNumLevels []" by (simp add: vs Version_init_def)
  then have files: "vs_files s (Suc 0) = replicate kNumLevels []" by simp
  obtain b s1 where b: "Builder_new 1 s = (b, s1)" by (cases "Builder_new 1 s")
  obtain b' s2 where b': "fold (Builder_Apply icmp) [sample_edit, VersionEdit_DeleteFile VersionEdit_new 1 5] (b, s1) = (b', s2)"
    by (cases "fold (Builder_Apply icmp) [sample_edit, VersionEdit_DeleteFile VersionEdit_new 1 5] (b, s1)")
  note edit = sample_edit_def AddFile_def VersionEdit_new_def VersionEdit_Clear_def VersionEdit_DeleteFile_def FileMetaData_new_def Let_def
  have "version_sorted (SaveTo icmp b' v s2) v \<and>
    (\<forall>l<kNumLevels. level_set (vs_fs (SaveTo icmp b' v s2)) (vs_files (SaveTo icmp b' v s2) v ! l) =
       fold (\<lambda>e. edit_level e l) [sample_edit, VersionEdit_DeleteFile VersionEdit_new 1 5] (level_set (vs_fs s) (vs_files s 1 ! l)))"
  proof (rule builder_refines_edits [OF _ _ _ _ _ b b'])
    show "version_sorted s 1" by (simp add: version_sorted_def files)
    show "edits_fresh (\<lambda>l. (\<lambda>f. fm_number (vs_fs s f)) ` set (vs_files s 1 ! l)) [sample_edit, VersionEdit_DeleteFile VersionEdit_new 1 5]"
      by (auto simp: files edit edit_levels_ok_def new_numbers_def kNumLevels_def)
  qed (simp_all add: vs)
  then have "level_set (vs_fs (SaveTo icmp b' v s2)) (vs_files (SaveTo icmp b' v s2) v ! 1) =
      fold (\<lambda>e. edit_level e 1) [sample_edit, VersionEdit_DeleteFile VersionEdit_new 1 5] (level_set (vs_fs s) (vs_files s 1 ! 1))"
    by (simp add: kNumLevels_def)
  also have "\<dots> = {(6, 100, InternalKey [1] 9 kTypeValue, InternalKey [2] 9 kTypeValue)}"
    by (auto simp: files edit edit_level_list level_set_def kNumLevels_def descr_def)
  finally have "level_set (vs_fs (SaveTo icmp b' v s2)) (vs_files (SaveTo icmp b' v s2) v ! 1) = {(6, 100, InternalKey [1] 9 kTypeValue, InternalKey [2] 9 kTypeValue)}" .
  moreover have "vs_version s v = Some Version_init" by (simp add: vs)
  ultimately show ?thesis using b b' by (intro exI conjI)
qed

end
