(* ===== verification/Compaction.thy ===== *)
theory Compaction
  imports Version_Set
begin

text \<open>
  \<^verbatim>\<open>db/version_set.cc\<close>, compactions: choosing the input files, and the questions a running compaction asks about
  the levels below it. The messages to the info log are left out.
\<close>

section \<open>The code\<close>

text \<open>The two sets of inputs are two fields; the overlapped bytes are an \<^verbatim>\<open>int64_t\<close> to which unsigned sizes are added.\<close>

record Compaction =
  c_level :: nat
  c_max_output_file_size :: u64
  c_input_version :: "nat option"
  c_edit :: VersionEdit
  c_inputs0 :: "nat list"
  c_inputs1 :: "nat list"
  c_grandparents :: "nat list"
  c_grandparent_index :: nat
  c_seen_key :: bool
  c_overlapped_bytes :: u64
  c_level_ptrs :: "nat list"

definition Compaction_new :: "Options \<Rightarrow> nat \<Rightarrow> Compaction" where
  "Compaction_new options level =
     \<lparr>c_level = level, c_max_output_file_size = MaxFileSizeForLevel options level, c_input_version = None,
      c_edit = VersionEdit_new, c_inputs0 = [], c_inputs1 = [], c_grandparents = [], c_grandparent_index = 0,
      c_seen_key = False, c_overlapped_bytes = 0, c_level_ptrs = replicate kNumLevels 0\<rparr>"

definition delete_Compaction :: "Compaction \<Rightarrow> VersionSet \<Rightarrow> VersionSet" where
  "delete_Compaction c s = (case c_input_version c of None \<Rightarrow> s | Some v \<Rightarrow> Version_Unref v s)"

definition ReleaseInputs :: "Compaction \<Rightarrow> VersionSet \<Rightarrow> Compaction \<times> VersionSet" where
  "ReleaseInputs c s = (case c_input_version c of None \<Rightarrow> (c, s) | Some v \<Rightarrow> (c\<lparr>c_input_version := None\<rparr>, Version_Unref v s))"

definition IsTrivialMove :: "VersionSet \<Rightarrow> Compaction \<Rightarrow> bool" where
  "IsTrivialMove s c \<longleftrightarrow> length (c_inputs0 c) = 1 \<and> length (c_inputs1 c) = 0 \<and>
     TotalFileSize (vs_fs s) (c_grandparents c) \<le> MaxGrandParentOverlapBytes (vs_options s)"

definition AddInputDeletions :: "VersionSet \<Rightarrow> Compaction \<Rightarrow> VersionEdit \<Rightarrow> VersionEdit" where
  "AddInputDeletions s c edit =
     fold (\<lambda>(which, inputs) edit. fold (\<lambda>f edit. VersionEdit_DeleteFile edit (int (c_level c) + which) (fm_number (vs_fs s f))) inputs edit)
       [(0, c_inputs0 c), (1, c_inputs1 c)] edit"

subsection \<open>The levels below\<close>

text \<open>The scan of one level: whether a file holds the key, and the new position.\<close>

function level_scan :: "(bytes \<Rightarrow> bytes \<Rightarrow> int) \<Rightarrow> FileStore \<Rightarrow> nat list \<Rightarrow> bytes \<Rightarrow> nat \<Rightarrow> bool \<times> nat" where
  "level_scan ucmp fs files ukey i =
     (if i < length files then
        let f = files ! i in
        if ucmp ukey (largest_user_key (fs f)) \<le> 0 then (ucmp ukey (smallest_user_key (fs f)) \<ge> 0, i)
        else level_scan ucmp fs files ukey (i + 1)
      else (False, i))"
  by auto

termination by (relation "measure (\<lambda>(_, _, files, _, i). length files - i)") auto

declare level_scan.simps [simp del]

fun base_loop :: "(bytes \<Rightarrow> bytes \<Rightarrow> int) \<Rightarrow> FileStore \<Rightarrow> nat list list \<Rightarrow> bytes \<Rightarrow> nat list \<Rightarrow> nat list \<Rightarrow> bool \<times> nat list" where
  "base_loop ucmp fs files ukey [] level_ptrs = (True, level_ptrs)"
| "base_loop ucmp fs files ukey (lvl # levels) level_ptrs =
     (let (found, i) = level_scan ucmp fs (files ! lvl) ukey (level_ptrs ! lvl); level_ptrs = level_ptrs[lvl := i]
      in if found then (False, level_ptrs) else base_loop ucmp fs files ukey levels level_ptrs)"

definition IsBaseLevelForKey :: "(bytes \<Rightarrow> bytes \<Rightarrow> int) \<Rightarrow> VersionSet \<Rightarrow> bytes \<Rightarrow> Compaction \<Rightarrow> bool \<times> Compaction" where
  "IsBaseLevelForKey ucmp s ukey c =
     (let (base, level_ptrs) = base_loop ucmp (vs_fs s) (vs_files s (the (c_input_version c))) ukey [c_level c + 2..<kNumLevels] (c_level_ptrs c)
      in (base, c\<lparr>c_level_ptrs := level_ptrs\<rparr>))"

function grandparent_loop :: "(bytes \<Rightarrow> bytes \<Rightarrow> int) \<Rightarrow> FileStore \<Rightarrow> nat list \<Rightarrow> bool \<Rightarrow> bytes \<Rightarrow> nat \<times> u64 \<Rightarrow> nat \<times> u64" where
  "grandparent_loop icompare fs grandparents seen_key key (i, overlapped_bytes) =
     (if i < length grandparents \<and> icompare key (fm_largest (fs (grandparents ! i))) > 0
      then grandparent_loop icompare fs grandparents seen_key key
             (i + 1, if seen_key then overlapped_bytes + fm_file_size (fs (grandparents ! i)) else overlapped_bytes)
      else (i, overlapped_bytes))"
  by pat_completeness auto

termination by (relation "measure (\<lambda>(_, _, grandparents, _, _, i, _). length grandparents - i)") auto

declare grandparent_loop.simps [simp del]

definition ShouldStopBefore :: "(bytes \<Rightarrow> bytes \<Rightarrow> int) \<Rightarrow> VersionSet \<Rightarrow> bytes \<Rightarrow> Compaction \<Rightarrow> bool \<times> Compaction" where
  "ShouldStopBefore icompare s key c =
     (let (i, overlapped_bytes) = grandparent_loop icompare (vs_fs s) (c_grandparents c) (c_seen_key c) key
            (c_grandparent_index c, c_overlapped_bytes c);
          c = c\<lparr>c_grandparent_index := i, c_seen_key := True\<rparr>
      in if sint overlapped_bytes > MaxGrandParentOverlapBytes (vs_options s)
         then (True, c\<lparr>c_overlapped_bytes := 0\<rparr>)
         else (False, c\<lparr>c_overlapped_bytes := overlapped_bytes\<rparr>))"

subsection \<open>Choosing the inputs\<close>

text \<open>The two sets of inputs that \<^verbatim>\<open>SetupOtherInputs\<close> ends with, the range of the first and the range of both.\<close>

definition ExpandInputs ::
  "(bytes \<Rightarrow> bytes \<Rightarrow> int) \<Rightarrow> Options \<Rightarrow> FileStore \<Rightarrow> nat list list \<Rightarrow> nat \<Rightarrow> nat list \<Rightarrow> nat list \<Rightarrow> (nat list \<times> nat list) option" where
  "ExpandInputs ucmp options fs files level inputs0 inputs1 =
     (let icompare = IKC_Compare ucmp; (all_start, all_limit) = GetRange2 icompare fs inputs0 inputs1 in
      if inputs1 = [] then Some (inputs0, inputs1) else
      Option.bind (GetOverlappingInputs ucmp fs files level (Some all_start) (Some all_limit)) (\<lambda>expanded0.
      Option.bind (AddBoundaryInputs ucmp fs (files ! level) expanded0) (\<lambda>expanded0.
      let inputs1_size = TotalFileSize fs inputs1; expanded0_size = TotalFileSize fs expanded0 in
      if length expanded0 > length inputs0 \<and> inputs1_size + expanded0_size < ExpandedCompactionByteSizeLimit options then
        let (new_start, new_limit) = GetRange icompare fs expanded0 in
        map_option (\<lambda>expanded1. if length expanded1 = length inputs1 then (expanded0, expanded1) else (inputs0, inputs1))
          (GetOverlappingInputs ucmp fs files (level + 1) (Some new_start) (Some new_limit))
      else Some (inputs0, inputs1))))"

definition SetupOtherInputs :: "(bytes \<Rightarrow> bytes \<Rightarrow> int) \<Rightarrow> Compaction \<Rightarrow> VersionSet \<Rightarrow> (Compaction \<times> VersionSet) option" where
  "SetupOtherInputs ucmp c s =
     (let level = c_level c; fs = vs_fs s; files = vs_files s (the (vs_current s)); icompare = IKC_Compare ucmp in
      Option.bind (AddBoundaryInputs ucmp fs (files ! level) (c_inputs0 c)) (\<lambda>inputs0.
      let (smallest, largest) = GetRange icompare fs inputs0 in
      Option.bind (GetOverlappingInputs ucmp fs files (level + 1) (Some smallest) (Some largest)) (\<lambda>inputs1.
      Option.bind (ExpandInputs ucmp (vs_options s) fs files level inputs0 inputs1) (\<lambda>(inputs0, inputs1).
      let (smallest, largest) = GetRange icompare fs inputs0; (all_start, all_limit) = GetRange2 icompare fs inputs0 inputs1 in
      map_option (\<lambda>grandparents.
          (c\<lparr>c_inputs0 := inputs0, c_inputs1 := inputs1, c_grandparents := grandparents,
             c_edit := SetCompactPointer (c_edit c) (int level) largest\<rparr>,
           s\<lparr>vs_compact_pointer := (vs_compact_pointer s)[level := largest]\<rparr>))
        (if level + 2 < kNumLevels then GetOverlappingInputs ucmp fs files (level + 2) (Some all_start) (Some all_limit)
         else Some (c_grandparents c))))))"

definition first_input :: "(bytes \<Rightarrow> bytes \<Rightarrow> int) \<Rightarrow> FileStore \<Rightarrow> bytes \<Rightarrow> nat list \<Rightarrow> nat list" where
  "first_input icompare fs compact_pointer files =
     (case find (\<lambda>f. compact_pointer = [] \<or> icompare (fm_largest (fs f)) compact_pointer > 0) files of
        Some f \<Rightarrow> [f] | None \<Rightarrow> [files ! 0])"

definition PickCompaction :: "(bytes \<Rightarrow> bytes \<Rightarrow> int) \<Rightarrow> VersionSet \<Rightarrow> (Compaction option \<times> VersionSet) option" where
  "PickCompaction ucmp s =
     (let current = the (vs_current s); ver = the (vs_version s current); fs = vs_fs s; icompare = IKC_Compare ucmp;
          picked = (if v_compaction_score ver \<ge> 1 then
              let level = nat (v_compaction_level ver) in
              Some ((Compaction_new (vs_options s) level)\<lparr>c_inputs0 := first_input icompare fs (vs_compact_pointer s ! level) (v_files ver ! level)\<rparr>)
            else map_option (\<lambda>f. (Compaction_new (vs_options s) (nat (v_file_to_compact_level ver)))\<lparr>c_inputs0 := [f]\<rparr>) (v_file_to_compact ver))
      in case picked of
           None \<Rightarrow> Some (None, s)
         | Some c \<Rightarrow>
             let c = c\<lparr>c_input_version := Some current\<rparr>; s = Version_Ref current s in
             Option.bind
               (if c_level c = 0 then
                  let (smallest, largest) = GetRange icompare fs (c_inputs0 c) in
                  map_option (\<lambda>inputs. c\<lparr>c_inputs0 := inputs\<rparr>) (GetOverlappingInputs ucmp fs (v_files ver) 0 (Some smallest) (Some largest))
                else Some c)
               (\<lambda>c. map_option (\<lambda>(c, s). (Some c, s)) (SetupOtherInputs ucmp c s)))"

text \<open>The files up to the one with which their size reaches the limit.\<close>

fun trim_inputs :: "FileStore \<Rightarrow> u64 \<Rightarrow> u64 \<Rightarrow> nat list \<Rightarrow> nat list" where
  "trim_inputs fs limit sum_size [] = []"
| "trim_inputs fs limit sum_size (f # files) =
     (let sum_size = sum_size + fm_file_size (fs f) in if sum_size \<ge> limit then [f] else f # trim_inputs fs limit sum_size files)"

definition VersionSet_CompactRange ::
  "(bytes \<Rightarrow> bytes \<Rightarrow> int) \<Rightarrow> nat \<Rightarrow> bytes option \<Rightarrow> bytes option \<Rightarrow> VersionSet \<Rightarrow> (Compaction option \<times> VersionSet) option" where
  "VersionSet_CompactRange ucmp level begin_key end_key s =
     (let current = the (vs_current s); fs = vs_fs s in
      Option.bind (GetOverlappingInputs ucmp fs (vs_files s current) level begin_key end_key) (\<lambda>inputs.
      if inputs = [] then Some (None, s) else
      let inputs = (if level > 0 then trim_inputs fs (MaxFileSizeForLevel (vs_options s) level) 0 inputs else inputs);
          c = (Compaction_new (vs_options s) level)\<lparr>c_input_version := Some current, c_inputs0 := inputs\<rparr>;
          s = Version_Ref current s
      in map_option (\<lambda>(c, s). (Some c, s)) (SetupOtherInputs ucmp c s)))"

end
