(* ===== verification/Compaction_Inputs.thy ===== *)
theory Compaction_Inputs
  imports Compaction
begin

text \<open>
  The inputs of a compaction are complete: every file of the next level that they overlap is among them, and no file with
  older entries of one of their keys stays behind in their own level.
\<close>

section \<open>Complete inputs\<close>

definition shares :: "FileMetaData \<Rightarrow> FileMetaData \<Rightarrow> bool" where
  "shares f g \<longleftrightarrow> smallest_user_key f \<le> largest_user_key g \<and> smallest_user_key g \<le> largest_user_key f"

text \<open>A file of the level that is not compacted and shares user keys with an input comes before it, so that its entries are newer.\<close>

definition no_older_left :: "FileStore \<Rightarrow> nat \<Rightarrow> nat list \<Rightarrow> nat list \<Rightarrow> bool" where
  "no_older_left fs level files inputs \<longleftrightarrow>
     (\<forall>f\<in>set inputs. \<forall>g\<in>set files - set inputs. shares (fs f) (fs g) \<longrightarrow> level \<noteq> 0 \<and> icmp (fm_largest (fs g)) (fm_smallest (fs f)) < 0)"

text \<open>Files without a gap between them.\<close>

definition gap_free :: "FileStore \<Rightarrow> nat list \<Rightarrow> nat list \<Rightarrow> bool" where
  "gap_free fs files inputs \<longleftrightarrow> (\<forall>f\<in>set inputs. \<forall>h\<in>set inputs. \<forall>g\<in>set files.
     icmp (fm_largest (fs f)) (fm_smallest (fs g)) < 0 \<longrightarrow> icmp (fm_largest (fs g)) (fm_smallest (fs h)) < 0 \<longrightarrow> g \<in> set inputs)"

lemma file_order: "file_ok f \<Longrightarrow> icmp (fm_smallest f) (fm_largest f) \<le> 0"
  by (simp add: file_ok_def)

lemma file_ukeys: "file_ok f \<Longrightarrow> smallest_user_key f \<le> largest_user_key f"
  using icmp_le_ukey [OF file_order] by (simp add: smallest_user_key_def largest_user_key_def)

lemma level_sorted_file_ok: "level_sorted fs files \<Longrightarrow> f \<in> set files \<Longrightarrow> file_ok (fs f)"
  by (simp add: level_sorted_def)

lemma level_sorted_cases:
  assumes "level_sorted fs files" "f \<in> set files" "g \<in> set files"
  obtains "f = g" | "icmp (fm_largest (fs f)) (fm_smallest (fs g)) < 0" | "icmp (fm_largest (fs g)) (fm_smallest (fs f)) < 0"
proof -
  obtain i j where ij: "i < length files" "files ! i = f" "j < length files" "files ! j = g" using assms(2,3) by (auto simp: in_set_conv_nth)
  note srt = assms(1) [unfolded level_sorted_def, THEN conjunct2, unfolded sorted_wrt_iff_nth_less, rule_format]
  consider "i = j" | "i < j" | "j < i" by linarith
  then show thesis
  proof cases
    case 2
    from srt [OF 2 ij(3)] ij that(2) show thesis by simp
  next
    case 3
    from srt [OF 3 ij(1)] ij that(3) show thesis by simp
  qed (use ij that in simp)
qed

text \<open>Two files that follow each other and share a user key make a boundary.\<close>

lemma shares_boundary:
  assumes "icmp (fm_largest (fs f)) (fm_smallest (fs g)) < 0" "shares (fs f) (fs g)"
  shows "is_boundary fs (fm_largest (fs f)) g"
proof -
  have "largest_user_key (fs f) \<le> smallest_user_key (fs g)" using icmp_less_ukey [OF assms(1)] by (simp add: smallest_user_key_def largest_user_key_def)
  moreover have "smallest_user_key (fs g) \<le> largest_user_key (fs f)" using assms(2) by (simp add: shares_def)
  ultimately show ?thesis using assms(1) by (simp add: is_boundary_def smallest_user_key_def largest_user_key_def)
qed

lemma gap_free_no_older:
  assumes srt: "level_sorted fs files" and sub: "set inputs \<subseteq> set files" and gf: "gap_free fs files inputs" and level: "level \<noteq> 0"
    and L: "L \<in> fm_largest ` fs ` set inputs" "\<forall>f\<in>set inputs. icmp (fm_largest (fs f)) L \<le> 0"
    and nb: "\<forall>f\<in>set files. \<not> is_boundary fs L f"
  shows "no_older_left fs level files inputs"
  unfolding no_older_left_def
proof (intro ballI impI conjI level)
  fix f g assume f: "f \<in> set inputs" and g: "g \<in> set files - set inputs" and sh: "shares (fs f) (fs g)"
  obtain h where h: "h \<in> set inputs" "L = fm_largest (fs h)" using L(1) by blast
  have fg: "f \<in> set files" "g \<in> set files" "h \<in> set files" "f \<noteq> g" "g \<noteq> h" using f g h sub by auto
  show "icmp (fm_largest (fs g)) (fm_smallest (fs f)) < 0"
  proof (rule ccontr)
    assume "\<not> icmp (fm_largest (fs g)) (fm_smallest (fs f)) < 0"
    with level_sorted_cases [OF srt fg(1,2)] fg(4) have less: "icmp (fm_largest (fs f)) (fm_smallest (fs g)) < 0" by metis
    then have u: "smallest_user_key (fs g) = largest_user_key (fs f)" using shares_boundary [OF less sh] by (simp add: is_boundary_def largest_user_key_def)
    from srt fg(3,2) show False
    proof (cases rule: level_sorted_cases)
      case 1
      then show False using fg(5) by simp
    next
      case 2
      have "largest_user_key (fs f) \<le> largest_user_key (fs h)" using icmp_le_ukey L(2) f by (auto simp: h largest_user_key_def)
      moreover have "largest_user_key (fs h) \<le> smallest_user_key (fs g)" using icmp_less_ukey [OF 2] by (simp add: smallest_user_key_def largest_user_key_def)
      ultimately have "smallest_user_key (fs g) = largest_user_key (fs h)" using u by simp
      then have "is_boundary fs L g" using 2 by (simp add: is_boundary_def h largest_user_key_def)
      then show False using nb fg(2) by blast
    next
      case 3
      have "g \<in> set inputs" by (rule gf [unfolded gap_free_def, rule_format, OF f h(1) fg(2) less 3])
      then show False using g by blast
    qed
  qed
qed

subsection \<open>Boundary files leave no gap\<close>

lemma boundary_gap_free:
  assumes srt: "level_sorted fs files" and sub: "set inputs \<subseteq> set files" and gf: "gap_free fs files inputs"
    and L: "L \<in> fm_largest ` fs ` set inputs" "\<forall>f\<in>set inputs. icmp (fm_largest (fs f)) L \<le> 0"
    and b: "FindSmallestBoundaryFile Bytewise_Compare fs files L = Some b"
  shows "gap_free fs files (inputs @ [b])"
proof -
  obtain m where m: "m \<in> set inputs" "L = fm_largest (fs m)" using L(1) by blast
  have b: "b \<in> set files" "is_boundary fs L b" "\<And>f. f \<in> set files \<Longrightarrow> is_boundary fs L f \<Longrightarrow> icmp (fm_smallest (fs b)) (fm_smallest (fs f)) \<le> 0"
    using FindSmallestBoundaryFile_ok [of files fs L] b by simp_all
  have ord: "icmp (fm_smallest (fs f)) (fm_largest (fs f)) \<le> 0" if "f \<in> set files" for f
    using level_sorted_file_ok [OF srt that] by (rule file_order)
  have "g \<in> set (inputs @ [b])"
    if f: "f \<in> set (inputs @ [b])" and h: "h \<in> set (inputs @ [b])" and g: "g \<in> set files"
      and fg: "icmp (fm_largest (fs f)) (fm_smallest (fs g)) < 0" and gh: "icmp (fm_largest (fs g)) (fm_smallest (fs h)) < 0" for f g h
  proof -
    have fh: "f \<in> set files" "h \<in> set files" using f h sub b(1) by auto
    have less: "icmp (fm_largest (fs f)) (fm_largest (fs h)) < 0"
      by (rule icmp_less_trans [OF icmp_less_le_trans [OF fg ord [OF g]] icmp_less_le_trans [OF gh ord [OF fh(2)]]])
    show ?thesis
    proof (cases "f \<in> set inputs")
      case False
      then have [simp]: "f = b" using f by simp
      have Lf: "icmp L (fm_largest (fs f)) < 0" using icmp_less_le_trans [OF _ ord [OF b(1)]] b(2) by (simp add: is_boundary_def)
      then have "icmp L (fm_largest (fs h)) < 0" using less by (rule icmp_less_trans)
      then have "h \<notin> set inputs" using L(2) icmp_less_le_trans [of L "fm_largest (fs h)" L] by auto
      then have "h = f" using h by simp
      then show ?thesis using less by simp
    next
      case fi: True
      show ?thesis
      proof (cases "h \<in> set inputs")
        case True
        then show ?thesis using gf [unfolded gap_free_def, rule_format, OF fi True g fg gh] by simp
      next
        case False
        then have [simp]: "h = b" using h by simp
        from srt g subsetD [OF sub m(1)] show ?thesis
        proof (cases rule: level_sorted_cases)
          case 2
          then show ?thesis using gf [unfolded gap_free_def, rule_format, OF fi m(1) g fg] by simp
        next
          case 3
          have "icmp (fm_smallest (fs g)) (fm_smallest (fs b)) < 0" using icmp_le_less_trans [OF ord [OF g] gh] by simp
          then have "smallest_user_key (fs g) \<le> ExtractUserKey L" using icmp_less_ukey b(2) by (fastforce simp: is_boundary_def smallest_user_key_def)
          moreover have "ExtractUserKey L \<le> smallest_user_key (fs g)" using icmp_less_ukey [OF 3] by (simp add: m smallest_user_key_def)
          ultimately have "is_boundary fs L g" using 3 by (simp add: is_boundary_def m)
          from icmp_le_less_trans [OF b(3) [OF g this]] \<open>icmp (fm_smallest (fs g)) (fm_smallest (fs b)) < 0\<close> show ?thesis by fastforce
        qed (use m in simp)
      qed
    qed
  qed
  then show ?thesis unfolding gap_free_def by blast
qed

lemma boundary_loop_gap_free:
  assumes srt: "level_sorted fs files"
    and "set inputs \<subseteq> set files" "gap_free fs files inputs" "L \<in> fm_largest ` fs ` set inputs" "\<forall>f\<in>set inputs. icmp (fm_largest (fs f)) L \<le> 0"
    and "boundary_loop Bytewise_Compare fs files L inputs = Some inputs'"
  shows "gap_free fs files inputs'"
  using assms(2-)
proof (induction "card {f \<in> set files. icmp L (fm_smallest (fs f)) < 0}" arbitrary: L inputs rule: less_induct)
  case less
  show ?case
  proof (cases "FindSmallestBoundaryFile Bytewise_Compare fs files L")
    case None
    then show ?thesis using less.prems(2,5) by (simp add: boundary_loop.simps [of _ _ _ L])
  next
    case (Some b)
    have b: "b \<in> set files" "is_boundary fs L b" using FindSmallestBoundaryFile_ok [of files fs L] Some by simp_all
    have "\<forall>f\<in>set files. icmp (fm_smallest (fs f)) (fm_largest (fs f)) \<le> 0" using file_order [OF level_sorted_file_ok [OF srt]] by blast
    note up = boundary_up [OF this b]
    have loop: "boundary_loop Bytewise_Compare fs files (fm_largest (fs b)) (inputs @ [b]) = Some inputs'"
      using less.prems(5) Some by (simp add: boundary_loop.simps [of _ _ _ L])
    show ?thesis
    proof (rule less.hyps [OF up(2) _ boundary_gap_free [OF srt less.prems(1-4) Some] _ _ loop])
      show "\<forall>f\<in>set (inputs @ [b]). icmp (fm_largest (fs f)) (fm_largest (fs b)) \<le> 0"
        using less.prems(4) icmp_le_less_trans [OF _ up(1)] by fastforce
    qed (use less.prems(1) b(1) in auto)
  qed
qed

subsection \<open>From a choice of files to complete inputs\<close>

definition levels_ok :: "FileStore \<Rightarrow> nat list list \<Rightarrow> bool" where
  "levels_ok fs files \<longleftrightarrow> length files = kNumLevels \<and> (\<forall>f\<in>set (files ! 0). file_ok (fs f)) \<and>
     (\<forall>l<kNumLevels. 0 < l \<longrightarrow> level_sorted fs (files ! l))"

text \<open>Files that a compaction can start from: in level 0 all that overlap some range and lie in it, above files without a gap.\<close>

definition choice :: "FileStore \<Rightarrow> nat list list \<Rightarrow> nat \<Rightarrow> nat list \<Rightarrow> bool" where
  "choice fs files level inputs \<longleftrightarrow> inputs \<noteq> [] \<and> set inputs \<subseteq> set (files ! level) \<and>
     (if level = 0 then \<exists>R. set inputs = {f \<in> set (files ! 0). overlaps (fst R) (snd R) (fs f)} \<and> closed_range fs (files ! 0) R
      else gap_free fs (files ! level) inputs)"

lemma levels_ok_file: "levels_ok fs files \<Longrightarrow> level < kNumLevels \<Longrightarrow> f \<in> set (files ! level) \<Longrightarrow> file_ok (fs f)"
  by (cases "level = 0") (auto simp: levels_ok_def dest: level_sorted_file_ok)

lemma levels_ok_sorted: "levels_ok fs files \<Longrightarrow> level < kNumLevels \<Longrightarrow> level \<noteq> 0 \<Longrightarrow> level_sorted fs (files ! level)"
  by (simp add: levels_ok_def)

lemma inside_overlaps: "inside b e f \<Longrightarrow> file_ok f \<Longrightarrow> overlaps b e f"
  using file_ukeys [of f] by (auto simp: inside_def overlaps_iff)

lemma closed_no_older:
  assumes "levels_ok fs files" "set inputs = {f \<in> set (files ! 0). overlaps (fst R) (snd R) (fs f)}" "closed_range fs (files ! 0) R"
  shows "no_older_left fs 0 (files ! 0) inputs"
  unfolding no_older_left_def
proof (intro ballI impI)
  fix f g assume f: "f \<in> set inputs" and g: "g \<in> set (files ! 0) - set inputs" and sh: "shares (fs f) (fs g)"
  have "inside (fst R) (snd R) (fs f)" using f assms(2,3) by (simp add: closed_range_def)
  then have "overlaps (fst R) (snd R) (fs g)" using sh by (auto simp: inside_def overlaps_iff shares_def)
  then show "0 \<noteq> (0 :: nat) \<and> icmp (fm_largest (fs g)) (fm_smallest (fs f)) < 0" using g assms(2) by auto
qed

lemma choice_boundary:
  assumes ok: "levels_ok fs files" "level < kNumLevels" and ch: "choice fs files level inputs"
  shows "\<exists>inputs'. AddBoundaryInputs Bytewise_Compare fs (files ! level) inputs = Some inputs' \<and> choice fs files level inputs' \<and>
    set inputs \<subseteq> set inputs' \<and> no_older_left fs level (files ! level) inputs'"
proof -
  have ne: "inputs \<noteq> []" and sub: "set inputs \<subseteq> set (files ! level)" using ch by (simp_all add: choice_def)
  obtain L where L: "FindLargestKey icmp fs inputs = Some L" using ne by (cases inputs) auto
  note max = conjunct1 [OF FindLargestKey_ok [OF L]] conjunct2 [OF FindLargestKey_ok [OF L]]
  have ord: "\<forall>f\<in>set (files ! level). icmp (fm_smallest (fs f)) (fm_largest (fs f)) \<le> 0"
    using file_order [OF levels_ok_file [OF ok]] by blast
  from boundary_loop_ok [OF ord max(2,1)] obtain extra L' where loop:
    "boundary_loop Bytewise_Compare fs (files ! level) L inputs = Some (inputs @ extra)" "set extra \<subseteq> set (files ! level)"
    "L' \<in> fm_largest ` fs ` set (inputs @ extra)" "\<forall>f\<in>set (inputs @ extra). icmp (fm_largest (fs f)) L' \<le> 0"
    "\<forall>f\<in>set (files ! level). \<not> is_boundary fs L' f" by blast
  have add: "AddBoundaryInputs Bytewise_Compare fs (files ! level) inputs = boundary_loop Bytewise_Compare fs (files ! level) L inputs"
    by (simp add: AddBoundaryInputs_def L)
  show ?thesis
  proof (cases "level = 0")
    case False
    note srt = levels_ok_sorted [OF ok False]
    have gf: "gap_free fs (files ! level) inputs" using ch False by (simp add: choice_def)
    have gf': "gap_free fs (files ! level) (inputs @ extra)" by (rule boundary_loop_gap_free [OF srt sub gf max loop(1)])
    have sub': "set (inputs @ extra) \<subseteq> set (files ! level)" using sub loop(2) by simp
    have "no_older_left fs level (files ! level) (inputs @ extra)" by (rule gap_free_no_older [OF srt sub' gf' False loop(3-5)])
    then show ?thesis using gf' sub' ne False loop(1) by (simp add: add choice_def)
  next
    case True
    then obtain R where R: "set inputs = {f \<in> set (files ! 0). overlaps (fst R) (snd R) (fs f)}" "closed_range fs (files ! 0) R"
      using ch by (auto simp: choice_def)
    have "FindSmallestBoundaryFile Bytewise_Compare fs (files ! level) L = None"
    proof (rule ccontr)
      assume "FindSmallestBoundaryFile Bytewise_Compare fs (files ! level) L \<noteq> None"
      then obtain b where b: "b \<in> set (files ! level)" "is_boundary fs L b" using FindSmallestBoundaryFile_ok [of "files ! level" fs L] by auto
      obtain m where m: "m \<in> set inputs" "L = fm_largest (fs m)" using max(1) by blast
      have "shares (fs m) (fs b)"
        using b(2) file_ukeys [OF levels_ok_file [OF ok b(1)]] file_ukeys [OF levels_ok_file [OF ok subsetD [OF sub m(1)]]]
        by (simp add: is_boundary_def m(2) shares_def flip: largest_user_key_def)
      then have bi: "b \<in> set inputs" using closed_no_older [OF ok(1) R] b(1) m(1) True by (auto simp: no_older_left_def)
      have "icmp L (fm_largest (fs b)) < 0" by (rule boundary_up(1) [OF ord b])
      from icmp_less_le_trans [OF this max(2) [rule_format, OF bi]] show False by simp
    qed
    then have "AddBoundaryInputs Bytewise_Compare fs (files ! level) inputs = Some inputs" by (simp add: add boundary_loop.simps [of _ _ _ L])
    then show ?thesis using ch closed_no_older [OF ok(1) R] True by simp
  qed
qed

text \<open>The files that overlap a range.\<close>

lemma overlapping_choice:
  assumes ok: "levels_ok fs files" "level < kNumLevels"
    and inputs: "GetOverlappingInputs Bytewise_Compare fs files level begin_key end_key = Some inputs" "inputs \<noteq> []"
  shows "choice fs files level inputs"
proof -
  let ?r = "(map_option ExtractUserKey begin_key, map_option ExtractUserKey end_key)"
  obtain R where R: "inputs = filter (\<lambda>f. overlaps (fst R) (snd R) (fs f)) (files ! level)" "level = 0 \<Longrightarrow> closed_range fs (files ! 0) R"
    using overlapping_closed [of fs files level begin_key end_key] inputs(1) by (auto simp: Let_def split: if_splits)
  have "gap_free fs (files ! level) inputs" if level: "level \<noteq> 0"
    unfolding gap_free_def
  proof (intro ballI impI)
    fix f h g assume f: "f \<in> set inputs" "h \<in> set inputs" "g \<in> set (files ! level)"
      and o: "icmp (fm_largest (fs f)) (fm_smallest (fs g)) < 0" "icmp (fm_largest (fs g)) (fm_smallest (fs h)) < 0"
    have "largest_user_key (fs f) \<le> smallest_user_key (fs g)" "largest_user_key (fs g) \<le> smallest_user_key (fs h)"
      using o icmp_less_ukey by (simp_all add: smallest_user_key_def largest_user_key_def)
    then show "g \<in> set inputs" using f file_ukeys [OF levels_ok_file [OF ok f(3)]] by (auto simp: R(1) overlaps_iff)
  qed
  then show ?thesis using inputs(2) R by (auto simp: choice_def simp del: split_paired_Ex)
qed

lemma choice_overlapping:
  assumes ok: "levels_ok fs files" "level < kNumLevels" and inputs: "inputs \<noteq> []" "set inputs \<subseteq> set (files ! level)"
    and cover: "\<forall>f\<in>set inputs. icmp S (fm_smallest (fs f)) \<le> 0 \<and> icmp (fm_largest (fs f)) L \<le> 0"
  shows "\<exists>inputs'. GetOverlappingInputs Bytewise_Compare fs files level (Some S) (Some L) = Some inputs' \<and> choice fs files level inputs' \<and>
    set inputs \<subseteq> set inputs'"
proof -
  let ?r = "(Some (ExtractUserKey S), Some (ExtractUserKey L))"
  have over: "overlaps (fst ?r) (snd ?r) (fs f)" if f: "f \<in> set inputs" for f
  proof (rule inside_overlaps)
    show "file_ok (fs f)" using levels_ok_file [OF ok] inputs(2) f by blast
    show "inside (fst ?r) (snd ?r) (fs f)" using cover f icmp_le_ukey by (auto simp: inside_def smallest_user_key_def largest_user_key_def)
  qed
  obtain inputs' R where *: "GetOverlappingInputs Bytewise_Compare fs files level (Some S) (Some L) = Some inputs'"
    "inputs' = filter (\<lambda>f. overlaps (fst R) (snd R) (fs f)) (files ! level)" "level = 0 \<Longrightarrow> wider R ?r" "level \<noteq> 0 \<Longrightarrow> R = ?r"
    using overlapping_closed [of fs files level "Some S" "Some L"] by (auto simp: Let_def split: if_splits)
  have "overlaps (fst R) (snd R) (fs f)" if "f \<in> set inputs" for f
    using over [OF that] *(3,4) wider_overlaps [of "fst R" "snd R"] by (cases "level = 0") auto
  then have sub: "set inputs \<subseteq> set inputs'" using inputs(2) by (auto simp: *(2))
  then have ne: "inputs' \<noteq> []" using inputs(1) by (cases inputs') auto
  show ?thesis using *(1) overlapping_choice [OF ok *(1) ne] sub by blast
qed

subsection \<open>The inputs that a compaction gets\<close>

text \<open>The files of the next level are those that the range of the first inputs overlaps.\<close>

definition inputs_complete :: "FileStore \<Rightarrow> nat list list \<Rightarrow> nat \<Rightarrow> nat list \<Rightarrow> nat list \<Rightarrow> bool" where
  "inputs_complete fs files level inputs0 inputs1 \<longleftrightarrow> inputs0 \<noteq> [] \<and> set inputs0 \<subseteq> set (files ! level) \<and>
     no_older_left fs level (files ! level) inputs0 \<and>
     (let (S, L) = GetRange icmp fs inputs0
      in inputs1 = filter (\<lambda>f. overlaps (Some (ExtractUserKey S)) (Some (ExtractUserKey L)) (fs f)) (files ! (level + 1)))"

lemma next_level:
  "GetOverlappingInputs Bytewise_Compare fs files (level + 1) (Some S) (Some L) =
    Some (filter (\<lambda>f. overlaps (Some (ExtractUserKey S)) (Some (ExtractUserKey L)) (fs f)) (files ! (level + 1)))"
  using overlapping_closed [of fs files "level + 1" "Some S" "Some L"] by (auto simp: Let_def)

lemma overlapping_returns: "GetOverlappingInputs Bytewise_Compare fs files level b e \<noteq> None"
  using overlapping_closed [of fs files level b e] by auto

lemma ExpandInputs_ok:
  assumes ok: "levels_ok fs files" "level + 1 < kNumLevels" and ch: "choice fs files level inputs0"
    and complete: "inputs_complete fs files level inputs0 inputs1"
  shows "\<exists>inputs0' inputs1'. ExpandInputs Bytewise_Compare options fs files level inputs0 inputs1 = Some (inputs0', inputs1') \<and>
    inputs_complete fs files level inputs0' inputs1' \<and> set inputs0 \<subseteq> set inputs0'"
proof (cases "inputs1 = []")
  case True
  then show ?thesis using complete by (simp add: ExpandInputs_def Let_def split: prod.split)
next
  case False
  have level: "level < kNumLevels" using ok(2) by simp
  obtain S L where all: "GetRange2 icmp fs inputs0 inputs1 = (S, L)" by (cases "GetRange2 icmp fs inputs0 inputs1")
  have cover: "\<forall>f\<in>set inputs0. icmp S (fm_smallest (fs f)) \<le> 0 \<and> icmp (fm_largest (fs f)) L \<le> 0"
    using GetRange_covers [OF all [unfolded GetRange2_def]] by simp
  have ne: "inputs0 \<noteq> []" "set inputs0 \<subseteq> set (files ! level)" using ch by (simp_all add: choice_def)
  obtain e where e: "GetOverlappingInputs Bytewise_Compare fs files level (Some S) (Some L) = Some e" "choice fs files level e" "set inputs0 \<subseteq> set e"
    using choice_overlapping [OF ok(1) level ne cover] by blast
  obtain e0 where e0: "AddBoundaryInputs Bytewise_Compare fs (files ! level) e = Some e0" "choice fs files level e0" "set e \<subseteq> set e0"
    "no_older_left fs level (files ! level) e0" using choice_boundary [OF ok(1) level e(2)] by blast
  obtain S' L' where new: "GetRange icmp fs e0 = (S', L')" by (cases "GetRange icmp fs e0")
  have "inputs_complete fs files level e0 (filter (\<lambda>f. overlaps (Some (ExtractUserKey S')) (Some (ExtractUserKey L')) (fs f)) (files ! (level + 1)))"
    using e0(2,4) by (simp add: inputs_complete_def new choice_def)
  moreover have "set inputs0 \<subseteq> set e0" using e(3) e0(3) by blast
  ultimately show ?thesis using False complete by (simp add: ExpandInputs_def all e e0 new next_level [simplified] Let_def)
qed

lemma SetupOtherInputs_ok:
  assumes ok: "levels_ok (vs_fs s) (vs_files s (the (vs_current s)))" "c_level c + 1 < kNumLevels"
    and ch: "choice (vs_fs s) (vs_files s (the (vs_current s))) (c_level c) (c_inputs0 c)"
  shows "\<exists>c' s'. SetupOtherInputs Bytewise_Compare c s = Some (c', s') \<and>
    inputs_complete (vs_fs s) (vs_files s (the (vs_current s))) (c_level c) (c_inputs0 c') (c_inputs1 c') \<and> set (c_inputs0 c) \<subseteq> set (c_inputs0 c') \<and>
    (\<exists>gs L. c' = c\<lparr>c_inputs0 := c_inputs0 c', c_inputs1 := c_inputs1 c', c_grandparents := gs, c_edit := SetCompactPointer (c_edit c) (int (c_level c)) L\<rparr>) \<and>
    (\<exists>p. s' = s\<lparr>vs_compact_pointer := p\<rparr>)"
proof -
  let ?fs = "vs_fs s" and ?files = "vs_files s (the (vs_current s))" and ?level = "c_level c"
  have level: "?level < kNumLevels" using ok(2) by simp
  obtain i0 where i0: "AddBoundaryInputs Bytewise_Compare ?fs (?files ! ?level) (c_inputs0 c) = Some i0" "choice ?fs ?files ?level i0"
    "set (c_inputs0 c) \<subseteq> set i0" "no_older_left ?fs ?level (?files ! ?level) i0"
    using choice_boundary [OF ok(1) level ch] by blast
  obtain S L where r: "GetRange icmp ?fs i0 = (S, L)" by (cases "GetRange icmp ?fs i0")
  let ?i1 = "filter (\<lambda>f. overlaps (Some (ExtractUserKey S)) (Some (ExtractUserKey L)) (?fs f)) (?files ! (?level + 1))"
  have "inputs_complete ?fs ?files ?level i0 ?i1" using i0(2,4) by (simp add: inputs_complete_def r choice_def)
  from ExpandInputs_ok [OF ok i0(2) this] obtain e0 e1 where
    e: "ExpandInputs Bytewise_Compare (vs_options s) ?fs ?files ?level i0 ?i1 = Some (e0, e1)" "inputs_complete ?fs ?files ?level e0 e1" "set i0 \<subseteq> set e0"
    by blast
  obtain S' L' where r': "GetRange icmp ?fs e0 = (S', L')" by (cases "GetRange icmp ?fs e0")
  obtain A B where all: "GetRange2 icmp ?fs e0 e1 = (A, B)" by (cases "GetRange2 icmp ?fs e0 e1")
  obtain gs where gs: "(if ?level + 2 < kNumLevels then GetOverlappingInputs Bytewise_Compare ?fs ?files (?level + 2) (Some A) (Some B)
      else Some (c_grandparents c)) = Some gs" using overlapping_returns by (cases "?level + 2 < kNumLevels") fastforce+
  have "SetupOtherInputs Bytewise_Compare c s =
     Some (c\<lparr>c_inputs0 := e0, c_inputs1 := e1, c_grandparents := gs, c_edit := SetCompactPointer (c_edit c) (int ?level) L'\<rparr>,
       s\<lparr>vs_compact_pointer := (vs_compact_pointer s)[?level := L']\<rparr>)"
    unfolding SetupOtherInputs_def Let_def i0(1) bind.simps r case_prod_conv next_level e(1) r' all gs by simp
  then show ?thesis using e(2,3) i0(3) by auto
qed

subsection \<open>What a compaction starts from\<close>

text \<open>The current version asks for compactions of files it has, not in the last level.\<close>

definition pick_ok :: "VersionSet \<Rightarrow> bool" where
  "pick_ok s \<longleftrightarrow> (let ver = the (vs_version s (the (vs_current s))) in
     (v_compaction_score ver \<ge> 1 \<longrightarrow> nat (v_compaction_level ver) + 1 < kNumLevels \<and> v_files ver ! nat (v_compaction_level ver) \<noteq> []) \<and>
     (\<forall>f. v_file_to_compact ver = Some f \<longrightarrow> nat (v_file_to_compact_level ver) + 1 < kNumLevels \<and>
        f \<in> set (v_files ver ! nat (v_file_to_compact_level ver))))"

lemma gap_free_single: "file_ok (fs f) \<Longrightarrow> (\<And>g. g \<in> set files \<Longrightarrow> file_ok (fs g)) \<Longrightarrow> gap_free fs files [f]"
proof -
  assume f: "file_ok (fs f)" and ok: "\<And>g. g \<in> set files \<Longrightarrow> file_ok (fs g)"
  have "icmp (fm_largest (fs f)) (fm_largest (fs f)) < 0"
    if "g \<in> set files" "icmp (fm_largest (fs f)) (fm_smallest (fs g)) < 0" "icmp (fm_largest (fs g)) (fm_smallest (fs f)) < 0" for g
    by (rule icmp_less_trans [OF icmp_less_le_trans [OF that(2) file_order [OF ok [OF that(1)]]] icmp_less_le_trans [OF that(3) file_order [OF f]]])
  then show ?thesis by (auto simp: gap_free_def)
qed

lemma gap_free_prefix:
  assumes srt: "level_sorted fs (p @ r)" and gf: "gap_free fs files (p @ r)"
  shows "gap_free fs files p"
  unfolding gap_free_def
proof (intro ballI impI)
  fix f h g assume f: "f \<in> set p" "h \<in> set p" "g \<in> set files"
    and o: "icmp (fm_largest (fs f)) (fm_smallest (fs g)) < 0" "icmp (fm_largest (fs g)) (fm_smallest (fs h)) < 0"
  have "g \<in> set (p @ r)" by (rule gf [unfolded gap_free_def, rule_format, OF _ _ f(3) o]) (use f in auto)
  moreover have "g \<notin> set r"
  proof
    assume g: "g \<in> set r"
    then have 1: "icmp (fm_largest (fs h)) (fm_smallest (fs g)) < 0" using srt f(2) by (auto simp: level_sorted_def sorted_wrt_append)
    have ok: "file_ok (fs g)" "file_ok (fs h)" using srt f(2) g by (auto simp: level_sorted_def)
    have "icmp (fm_largest (fs h)) (fm_largest (fs h)) < 0"
      by (rule icmp_less_trans [OF icmp_less_le_trans [OF 1 file_order [OF ok(1)]] icmp_less_le_trans [OF o(2) file_order [OF ok(2)]]])
    then show False by simp
  qed
  ultimately show "g \<in> set p" by simp
qed

lemma trim_inputs_prefix: "\<exists>r. files = trim_inputs fs limit n files @ r"
  by (induction files arbitrary: n) (auto simp: Let_def)

lemma trim_inputs_nonempty: "files \<noteq> [] \<Longrightarrow> trim_inputs fs limit n files \<noteq> []"
  by (cases files) (auto simp: Let_def)

lemma first_input_ok: "files \<noteq> [] \<Longrightarrow> \<exists>f\<in>set files. first_input icompare fs p files = [f]"
  by (auto simp: first_input_def find_Some_iff in_set_conv_nth split: option.splits)

lemma choice_trim:
  assumes ok: "levels_ok fs files" "level < kNumLevels"
    and inputs: "GetOverlappingInputs Bytewise_Compare fs files level b e = Some inputs" "inputs \<noteq> []"
  shows "choice fs files level (if level > 0 then trim_inputs fs limit 0 inputs else inputs)"
proof (cases "level = 0")
  case True
  then show ?thesis using overlapping_choice [OF ok inputs] by simp
next
  case False
  obtain R where R: "inputs = filter (\<lambda>f. overlaps (fst R) (snd R) (fs f)) (files ! level)"
    using overlapping_closed [of fs files level b e] inputs(1) by auto
  have srt: "level_sorted fs inputs" using levels_ok_sorted [OF ok False] by (simp add: R level_sorted_def sorted_wrt_filter)
  obtain r where r: "inputs = trim_inputs fs limit 0 inputs @ r" using trim_inputs_prefix by blast
  have ch: "set inputs \<subseteq> set (files ! level)" "gap_free fs (files ! level) inputs"
    using overlapping_choice [OF ok inputs] False by (simp_all add: choice_def)
  have "gap_free fs (files ! level) (trim_inputs fs limit 0 inputs)"
    by (rule gap_free_prefix [of _ _ r]) (use r srt ch in simp_all)
  moreover have "set (trim_inputs fs limit 0 inputs) \<subseteq> set (files ! level)" using ch(1) r by (metis Un_subset_iff set_append)
  ultimately show ?thesis using False trim_inputs_nonempty [OF inputs(2)] by (simp add: choice_def)
qed

lemma Version_Ref_same:
  assumes "v \<in> dom (vs_version s)"
  shows "vs_file (Version_Ref v s) = vs_file s" "vs_files (Version_Ref v s) u = vs_files s u" "vs_current (Version_Ref v s) = vs_current s"
    "vs_options (Version_Ref v s) = vs_options s"
  using assms by (auto simp: Version_Ref_def set_version_def Let_def)

text \<open>A chosen compaction of the current version: new, but for what was chosen.\<close>

definition picked :: "VersionSet \<Rightarrow> nat \<Rightarrow> Compaction \<Rightarrow> VersionSet \<Rightarrow> bool" where
  "picked s cur c s' \<longleftrightarrow> c_level c + 1 < kNumLevels \<and> inputs_complete (vs_fs s) (vs_files s cur) (c_level c) (c_inputs0 c) (c_inputs1 c) \<and>
     (\<exists>gs L. c = (Compaction_new (vs_options s) (c_level c))\<lparr>c_input_version := Some cur, c_inputs0 := c_inputs0 c, c_inputs1 := c_inputs1 c,
        c_grandparents := gs, c_edit := SetCompactPointer VersionEdit_new (int (c_level c)) L\<rparr>) \<and>
     (\<exists>p. s' = (Version_Ref cur s)\<lparr>vs_compact_pointer := p\<rparr>)"

lemma picked_fields:
  assumes "picked s cur c s'"
  shows "c_input_version c = Some cur" "c_level_ptrs c = replicate kNumLevels 0" "c_max_output_file_size c = MaxFileSizeForLevel (vs_options s) (c_level c)"
    "\<exists>L. c_edit c = SetCompactPointer VersionEdit_new (int (c_level c)) L"
proof -
  obtain gs L where c: "c = (Compaction_new (vs_options s) (c_level c))\<lparr>c_input_version := Some cur, c_inputs0 := c_inputs0 c, c_inputs1 := c_inputs1 c,
        c_grandparents := gs, c_edit := SetCompactPointer VersionEdit_new (int (c_level c)) L\<rparr>" using assms by (auto simp: picked_def)
  show "c_input_version c = Some cur" "c_level_ptrs c = replicate kNumLevels 0" "c_max_output_file_size c = MaxFileSizeForLevel (vs_options s) (c_level c)"
    by (subst c, simp add: Compaction_new_def)+
  show "\<exists>L. c_edit c = SetCompactPointer VersionEdit_new (int (c_level c)) L" by (rule exI, subst c, simp add: Compaction_new_def)
qed

lemma SetupOtherInputs_picked:
  assumes "levels_ok (vs_fs s) (vs_files s cur)" "level + 1 < kNumLevels" "choice (vs_fs s) (vs_files s cur) level inputs"
    and cur: "vs_current s = Some cur" "cur \<in> dom (vs_version s)"
  shows "\<exists>c s'. SetupOtherInputs Bytewise_Compare ((Compaction_new (vs_options s) level)\<lparr>c_input_version := Some cur, c_inputs0 := inputs\<rparr>) (Version_Ref cur s) =
      Some (c, s') \<and> c_level c = level \<and> picked s cur c s' \<and> set inputs \<subseteq> set (c_inputs0 c)"
proof -
  let ?s = "Version_Ref cur s" and ?c = "(Compaction_new (vs_options s) level)\<lparr>c_input_version := Some cur, c_inputs0 := inputs\<rparr>"
  have lv: "c_level ?c = level" "c_inputs0 ?c = inputs" by (simp_all add: Compaction_new_def)
  obtain c s' where 1: "SetupOtherInputs Bytewise_Compare ?c ?s = Some (c, s')" "inputs_complete (vs_fs s) (vs_files s cur) level (c_inputs0 c) (c_inputs1 c)"
    "set inputs \<subseteq> set (c_inputs0 c)" "\<exists>p. s' = ?s\<lparr>vs_compact_pointer := p\<rparr>"
    and 2: "\<exists>gs L. c = ?c\<lparr>c_inputs0 := c_inputs0 c, c_inputs1 := c_inputs1 c, c_grandparents := gs, c_edit := SetCompactPointer (c_edit ?c) (int level) L\<rparr>"
    using SetupOtherInputs_ok [of ?s ?c] assms unfolding lv by (auto simp: Version_Ref_same [OF cur(2)] cur(1))
  obtain gs L where c: "c = ?c\<lparr>c_inputs0 := c_inputs0 c, c_inputs1 := c_inputs1 c, c_grandparents := gs, c_edit := SetCompactPointer (c_edit ?c) (int level) L\<rparr>"
    using 2 by blast
  have l: "c_level c = level" by (subst c) (simp add: Compaction_new_def)
  have "c = (Compaction_new (vs_options s) (c_level c))\<lparr>c_input_version := Some cur, c_inputs0 := c_inputs0 c, c_inputs1 := c_inputs1 c,
        c_grandparents := gs, c_edit := SetCompactPointer VersionEdit_new (int (c_level c)) L\<rparr>"
    unfolding l by (subst c) (simp add: Compaction_new_def)
  then show ?thesis using 1 l assms(2) unfolding picked_def by (intro exI [of _ c] exI [of _ s']) (simp, blast)
qed

lemma PickCompaction_ok:
  assumes ok: "levels_ok (vs_fs s) (vs_files s cur)" "pick_ok s" and cur: "vs_current s = Some cur" "cur \<in> dom (vs_version s)"
  shows "\<exists>r s'. PickCompaction Bytewise_Compare s = Some (r, s') \<and>
    (case r of None \<Rightarrow> \<not> NeedsCompaction s \<and> s' = s
     | Some c \<Rightarrow> NeedsCompaction s \<and> picked s cur c s' \<and> c_level c = nat (let ver = the (vs_version s cur) in
        if v_compaction_score ver \<ge> 1 then v_compaction_level ver else v_file_to_compact_level ver))"
proof -
  let ?ver = "the (vs_version s cur)" and ?s = "Version_Ref cur s"
  have start: "\<exists>inputs. (if level = 0 then let (S, L) = GetRange icmp (vs_fs s) [f] in
        map_option (\<lambda>inputs. c\<lparr>c_input_version := Some cur, c_inputs0 := inputs\<rparr>) (GetOverlappingInputs Bytewise_Compare (vs_fs s) (v_files ?ver) 0 (Some S) (Some L))
      else Some (c\<lparr>c_input_version := Some cur, c_inputs0 := [f]\<rparr>)) = Some (c\<lparr>c_input_version := Some cur, c_inputs0 := inputs\<rparr>) \<and>
      choice (vs_fs s) (v_files ?ver) level inputs"
    if level: "level + 1 < kNumLevels" and f: "f \<in> set (v_files ?ver ! level)" for f level c
  proof (cases "level = 0")
    case True
    then show ?thesis using choice_overlapping [OF ok(1), of level "[f]" "fm_smallest (vs_fs s f)" "fm_largest (vs_fs s f)"] f level by (auto simp: Let_def)
  next
    case False
    have "gap_free (vs_fs s) (v_files ?ver ! level) [f]"
      by (rule gap_free_single) (use levels_ok_file [OF ok(1), of level] f level in auto)
    then show ?thesis using False f by (intro exI [of _ "[f]"]) (simp add: choice_def)
  qed
  have chosen: "\<exists>c' s'. Option.bind
        (if l = 0 then let (S, L) = GetRange icmp (vs_fs s) [f] in
           map_option (\<lambda>inputs. (Compaction_new (vs_options s) l)\<lparr>c_input_version := Some cur, c_inputs0 := inputs\<rparr>)
             (GetOverlappingInputs Bytewise_Compare (vs_fs s) (v_files ?ver) 0 (Some S) (Some L))
         else Some ((Compaction_new (vs_options s) l)\<lparr>c_input_version := Some cur, c_inputs0 := [f]\<rparr>))
        (\<lambda>c. map_option (\<lambda>(c, s). (Some c, s)) (SetupOtherInputs Bytewise_Compare c ?s)) = Some (Some c', s') \<and> picked s cur c' s' \<and> c_level c' = l"
    if l: "l + 1 < kNumLevels" and f: "f \<in> set (v_files ?ver ! l)" for f l
  proof -
    obtain inputs where i: "(if l = 0 then let (S, L) = GetRange icmp (vs_fs s) [f] in
           map_option (\<lambda>inputs. (Compaction_new (vs_options s) l)\<lparr>c_input_version := Some cur, c_inputs0 := inputs\<rparr>)
             (GetOverlappingInputs Bytewise_Compare (vs_fs s) (v_files ?ver) 0 (Some S) (Some L))
         else Some ((Compaction_new (vs_options s) l)\<lparr>c_input_version := Some cur, c_inputs0 := [f]\<rparr>)) =
         Some ((Compaction_new (vs_options s) l)\<lparr>c_input_version := Some cur, c_inputs0 := inputs\<rparr>)"
      "choice (vs_fs s) (v_files ?ver) l inputs" using start [OF l f] by blast
    show ?thesis unfolding i(1) bind.simps using SetupOtherInputs_picked [OF ok(1) l i(2) cur] by auto
  qed
  have swap: "c\<lparr>c_inputs0 := i, c_input_version := v\<rparr> = c\<lparr>c_input_version := v, c_inputs0 := i\<rparr>" for c i v by simp
  have level': "c_level (Compaction_new options l) = l" for options l by (simp add: Compaction_new_def)
  let ?picked = "\<lambda>level f. let c = Compaction_new (vs_options s) level in Option.bind
        (if level = 0 then let (S, L) = GetRange icmp (vs_fs s) [f] in
           map_option (\<lambda>inputs. c\<lparr>c_input_version := Some cur, c_inputs0 := inputs\<rparr>)
             (GetOverlappingInputs Bytewise_Compare (vs_fs s) (v_files ?ver) 0 (Some S) (Some L))
         else Some (c\<lparr>c_input_version := Some cur, c_inputs0 := [f]\<rparr>))
        (\<lambda>c. map_option (\<lambda>(c, s). (Some c, s)) (SetupOtherInputs Bytewise_Compare c ?s))"
  show ?thesis
  proof (cases "v_compaction_score ?ver \<ge> 1")
    case True
    let ?level = "nat (v_compaction_level ?ver)"
    have level: "?level + 1 < kNumLevels" "v_files ?ver ! ?level \<noteq> []" using ok(2) True cur(1) by (simp_all add: pick_ok_def Let_def)
    obtain f where f: "f \<in> set (v_files ?ver ! ?level)" "first_input icmp (vs_fs s) (vs_compact_pointer s ! ?level) (v_files ?ver ! ?level) = [f]"
      using first_input_ok [OF level(2)] by blast
    obtain c' s' where *: "?picked ?level f = Some (Some c', s')" "picked s cur c' s'" "c_level c' = ?level" using chosen [OF level(1) f(1)] unfolding Let_def by blast
    have "PickCompaction Bytewise_Compare s = ?picked ?level f"
      using True by (simp add: PickCompaction_def Let_def cur(1) f(2) swap level' cong: if_cong)
    then show ?thesis using * True by (intro exI [of _ "Some c'"] exI [of _ s']) (simp add: NeedsCompaction_def Let_def cur(1))
  next
    case False
    show ?thesis
    proof (cases "v_file_to_compact ?ver")
      case None
      then show ?thesis using False by (simp add: PickCompaction_def Let_def cur(1) NeedsCompaction_def)
    next
      case (Some f)
      let ?level = "nat (v_file_to_compact_level ?ver)"
      have level: "?level + 1 < kNumLevels" "f \<in> set (v_files ?ver ! ?level)" using ok(2) Some cur(1) by (simp_all add: pick_ok_def Let_def)
      obtain c' s' where *: "?picked ?level f = Some (Some c', s')" "picked s cur c' s'" "c_level c' = ?level" using chosen [OF level] unfolding Let_def by blast
      have "PickCompaction Bytewise_Compare s = ?picked ?level f"
        using False Some by (simp add: PickCompaction_def Let_def cur(1) swap level' cong: if_cong)
      then show ?thesis using * Some False by (intro exI [of _ "Some c'"] exI [of _ s']) (simp add: NeedsCompaction_def Let_def cur(1))
    qed
  qed
qed

lemma CompactRange_ok:
  assumes ok: "levels_ok (vs_fs s) (vs_files s cur)" "level + 1 < kNumLevels" and cur: "vs_current s = Some cur" "cur \<in> dom (vs_version s)"
  shows "\<exists>r s'. VersionSet_CompactRange Bytewise_Compare level begin_key end_key s = Some (r, s') \<and>
    (case r of None \<Rightarrow> GetOverlappingInputs Bytewise_Compare (vs_fs s) (vs_files s cur) level begin_key end_key = Some [] \<and> s' = s
     | Some c \<Rightarrow> c_level c = level \<and> picked s cur c s')"
proof -
  obtain inputs where i: "GetOverlappingInputs Bytewise_Compare (vs_fs s) (vs_files s cur) level begin_key end_key = Some inputs"
    using overlapping_returns by blast
  show ?thesis
  proof (cases "inputs = []")
    case True
    then show ?thesis using i by (simp add: VersionSet_CompactRange_def Let_def cur(1))
  next
    case False
    let ?i = "if level > 0 then trim_inputs (vs_fs s) (MaxFileSizeForLevel (vs_options s) level) 0 inputs else inputs"
    have "choice (vs_fs s) (vs_files s cur) level ?i" by (rule choice_trim [OF ok(1) _ i False]) (use ok(2) in simp)
    from SetupOtherInputs_picked [OF ok this cur] obtain c s' where
      "SetupOtherInputs Bytewise_Compare ((Compaction_new (vs_options s) level)\<lparr>c_input_version := Some cur, c_inputs0 := ?i\<rparr>) (Version_Ref cur s) = Some (c, s')"
      "c_level c = level" "picked s cur c s'" by blast
    then show ?thesis using i False by (simp add: VersionSet_CompactRange_def Let_def cur(1))
  qed
qed

section \<open>The levels below a compaction\<close>

definition holds_key :: "FileMetaData \<Rightarrow> bytes \<Rightarrow> bool" where
  "holds_key f u \<longleftrightarrow> smallest_user_key f \<le> u \<and> u \<le> largest_user_key f"

text \<open>The files before a position end before the key.\<close>

definition scanned :: "FileStore \<Rightarrow> nat list \<Rightarrow> nat \<Rightarrow> bytes \<Rightarrow> bool" where
  "scanned fs files i u \<longleftrightarrow> i \<le> length files \<and> (\<forall>j<i. largest_user_key (fs (files ! j)) < u)"

lemma level_scan_ok:
  assumes "level_sorted fs files" "scanned fs files i u"
  shows "\<exists>j. level_scan Bytewise_Compare fs files u i = (\<exists>f\<in>set files. holds_key (fs f) u, j) \<and> scanned fs files j u"
  using assms(2)
proof (induction "length files - i" arbitrary: i)
  case 0
  then have i: "i = length files" by (simp add: scanned_def)
  have "\<not> holds_key (fs f) u" if "f \<in> set files" for f
    using 0(2) that by (auto simp: i scanned_def holds_key_def in_set_conv_nth dest: leD)
  then have "\<not> (\<exists>f\<in>set files. holds_key (fs f) u)" by blast
  then show ?case using 0(2) by (auto simp: i level_scan.simps [of _ _ _ _ "length files"])
next
  case (Suc n)
  then have i: "i < length files" by simp
  let ?f = "fs (files ! i)"
  show ?case
  proof (cases "u \<le> largest_user_key ?f")
    case False
    then have "scanned fs files (i + 1) u" using Suc.prems i by (auto simp: scanned_def less_Suc_eq)
    with Suc.hyps(1) [of "i + 1"] Suc.hyps(2) show ?thesis using False i by (subst level_scan.simps) (simp add: Let_def)
  next
    case True
    have "holds_key ?f u" if g: "g \<in> set files" "holds_key (fs g) u" for g
    proof -
      obtain j where j: "j < length files" "g = files ! j" using g(1) by (auto simp: in_set_conv_nth)
      have "\<not> j < i" using Suc.prems g(2) j by (auto simp: scanned_def holds_key_def)
      then have "smallest_user_key ?f \<le> smallest_user_key (fs g)"
        using icmp_le_ukey [OF level_sorted_smallest [OF assms(1), of i j]] j by (simp add: smallest_user_key_def)
      then show ?thesis using True g(2) by (auto simp: holds_key_def intro: order_trans)
    qed
    then have "(\<exists>f\<in>set files. holds_key (fs f) u) \<longleftrightarrow> smallest_user_key ?f \<le> u" using True i by (auto simp: holds_key_def)
    then show ?thesis using True i Suc.prems by (subst level_scan.simps) (auto simp: Let_def not_less)
  qed
qed

lemma base_loop_ok:
  assumes "\<forall>l\<in>set levels. level_sorted fs (files ! l)" "\<forall>l<kNumLevels. l \<in> L \<longrightarrow> scanned fs (files ! l) (ptrs ! l) u"
    and "set levels \<subseteq> L" "\<forall>l\<in>set levels. l < kNumLevels" "length ptrs = kNumLevels"
  shows "\<exists>ptrs'. base_loop Bytewise_Compare fs files u levels ptrs = (\<not> (\<exists>l\<in>set levels. \<exists>f\<in>set (files ! l). holds_key (fs f) u), ptrs') \<and>
    (\<forall>l<kNumLevels. l \<in> L \<longrightarrow> scanned fs (files ! l) (ptrs' ! l) u) \<and> length ptrs' = kNumLevels"
  using assms
proof (induction levels arbitrary: ptrs)
  case (Cons l levels)
  have l: "l < kNumLevels" "l \<in> L" "level_sorted fs (files ! l)" using Cons.prems by auto
  obtain j where j: "level_scan Bytewise_Compare fs (files ! l) u (ptrs ! l) = (\<exists>f\<in>set (files ! l). holds_key (fs f) u, j)" "scanned fs (files ! l) j u"
    using level_scan_ok [OF l(3)] Cons.prems(2) l(1,2) by blast
  have s: "\<forall>k<kNumLevels. k \<in> L \<longrightarrow> scanned fs (files ! k) (ptrs[l := j] ! k) u" using Cons.prems(2,5) j(2) l(1) by (auto simp: nth_list_update)
  show ?case
  proof (cases "\<exists>f\<in>set (files ! l). holds_key (fs f) u")
    case True
    then show ?thesis using s Cons.prems(5) by (simp add: j(1))
  next
    case False
    have "\<exists>ptrs'. base_loop Bytewise_Compare fs files u levels (ptrs[l := j]) = (\<not> (\<exists>l\<in>set levels. \<exists>f\<in>set (files ! l). holds_key (fs f) u), ptrs') \<and>
      (\<forall>l<kNumLevels. l \<in> L \<longrightarrow> scanned fs (files ! l) (ptrs' ! l) u) \<and> length ptrs' = kNumLevels"
      by (rule Cons.IH [OF _ s]) (use Cons.prems in auto)
    then show ?thesis using False by (simp add: j(1))
  qed
qed simp

text \<open>No file below the next level has the key in its range.\<close>

definition base_key :: "VersionSet \<Rightarrow> Compaction \<Rightarrow> bytes \<Rightarrow> bool" where
  "base_key s c u \<longleftrightarrow>
     \<not> (\<exists>l<kNumLevels. c_level c + 2 \<le> l \<and> (\<exists>f\<in>set (vs_files s (the (c_input_version c)) ! l). holds_key (vs_fs s f) u))"

text \<open>The positions of a compaction that has asked for smaller keys only.\<close>

definition asked :: "VersionSet \<Rightarrow> Compaction \<Rightarrow> bytes \<Rightarrow> bool" where
  "asked s c u \<longleftrightarrow> length (c_level_ptrs c) = kNumLevels \<and>
     (\<forall>l<kNumLevels. c_level c + 2 \<le> l \<longrightarrow> scanned (vs_fs s) (vs_files s (the (c_input_version c)) ! l) (c_level_ptrs c ! l) u)"

lemma asked_new: "c_level_ptrs c = replicate kNumLevels 0 \<Longrightarrow> asked s c u"
  by (simp add: asked_def scanned_def)

lemma asked_mono: "asked s c u \<Longrightarrow> u \<le> v \<Longrightarrow> asked s c v"
  unfolding asked_def scanned_def by (blast intro: less_le_trans)

lemma IsBaseLevelForKey_ok:
  assumes "levels_ok (vs_fs s) (vs_files s (the (c_input_version c)))" "asked s c u"
  shows "\<exists>p. IsBaseLevelForKey Bytewise_Compare s u c = (base_key s c u, c\<lparr>c_level_ptrs := p\<rparr>) \<and> asked s (c\<lparr>c_level_ptrs := p\<rparr>) u"
proof -
  let ?files = "vs_files s (the (c_input_version c))" and ?levels = "[c_level c + 2..<kNumLevels]"
  have srt: "\<forall>l\<in>set ?levels. level_sorted (vs_fs s) (?files ! l)" using assms(1) by (auto simp: levels_ok_def)
  have sc: "\<forall>l<kNumLevels. l \<in> {c_level c + 2..} \<longrightarrow> scanned (vs_fs s) (?files ! l) (c_level_ptrs c ! l) u"
    "length (c_level_ptrs c) = kNumLevels" using assms(2) by (simp_all add: asked_def)
  have lv: "set ?levels \<subseteq> {c_level c + 2..}" "\<forall>l\<in>set ?levels. l < kNumLevels" by auto
  obtain p where p: "base_loop Bytewise_Compare (vs_fs s) ?files u ?levels (c_level_ptrs c) =
      (\<not> (\<exists>l\<in>set ?levels. \<exists>f\<in>set (?files ! l). holds_key (vs_fs s f) u), p)"
    "\<forall>l<kNumLevels. l \<in> {c_level c + 2..} \<longrightarrow> scanned (vs_fs s) (?files ! l) (p ! l) u" "length p = kNumLevels"
    using base_loop_ok [OF srt sc(1) lv sc(2)] by blast
  have "IsBaseLevelForKey Bytewise_Compare s u c =
      (\<not> (\<exists>l\<in>set ?levels. \<exists>f\<in>set (?files ! l). holds_key (vs_fs s f) u), c\<lparr>c_level_ptrs := p\<rparr>)"
    by (simp only: IsBaseLevelForKey_def Let_def p(1) case_prod_conv)
  moreover have "(\<not> (\<exists>l\<in>set ?levels. \<exists>f\<in>set (?files ! l). holds_key (vs_fs s f) u)) = base_key s c u" by (auto simp: base_key_def)
  ultimately show ?thesis using p(2,3) by (auto simp: asked_def)
qed

text \<open>The answers to a run of questions.\<close>

fun base_answers :: "VersionSet \<Rightarrow> Compaction \<Rightarrow> bytes list \<Rightarrow> bool list" where
  "base_answers s c [] = []"
| "base_answers s c (u # us) = (let (base, c) = IsBaseLevelForKey Bytewise_Compare s u c in base # base_answers s c us)"

lemma base_answers_ok:
  assumes "levels_ok (vs_fs s) (vs_files s (the (c_input_version c)))" "sorted us" "\<forall>u\<in>set us. asked s c u"
  shows "base_answers s c us = map (base_key s c) us"
  using assms
proof (induction us arbitrary: c)
  case (Cons u us)
  obtain p where p: "IsBaseLevelForKey Bytewise_Compare s u c = (base_key s c u, c\<lparr>c_level_ptrs := p\<rparr>)" "asked s (c\<lparr>c_level_ptrs := p\<rparr>) u"
    using IsBaseLevelForKey_ok [of s c u] Cons.prems by auto
  have "base_answers s (c\<lparr>c_level_ptrs := p\<rparr>) us = map (base_key s (c\<lparr>c_level_ptrs := p\<rparr>)) us"
    using Cons.IH [of "c\<lparr>c_level_ptrs := p\<rparr>"] Cons.prems(1,2) asked_mono [OF p(2)] by simp
  then show ?case by (simp add: p(1)) (simp add: base_key_def)
qed simp

subsection \<open>The level that is compacted for its size has files\<close>

lemma best_level_ok:
  "best_level score levels best = (l, x) \<Longrightarrow> (l, x) = best \<or> (\<exists>level\<in>set levels. l = int level \<and> x = score level)"
proof (induction levels arbitrary: best)
  case (Cons level levels)
  from Cons.IH [OF Cons.prems [unfolded best_level.simps]] show ?case by (auto split: if_splits)
qed simp

lemma empty_level_score: "round_double 0 = 0 \<Longrightarrow> files ! level = [] \<Longrightarrow> level_score round_double fs files level = 0"
  by (cases "level = 0") (simp_all add: level_score_def TotalFileSize_def)

lemma Finalize_pick:
  assumes "round_double 0 = 0" and "ver = the (vs_version (Finalize round_double v s) v)" "v_compaction_score ver \<ge> 1"
  shows "nat (v_compaction_level ver) + 1 < kNumLevels \<and> v_files ver ! nat (v_compaction_level ver) \<noteq> []"
proof -
  let ?score = "level_score round_double (vs_fs s) (vs_files s v)"
  obtain l x where b: "best_level ?score [0..<kNumLevels - 1] (-1, -1) = (l, x)" by (cases "best_level ?score [0..<kNumLevels - 1] (-1, -1)")
  then have ver: "v_compaction_level ver = l" "v_compaction_score ver = x" "v_files ver = vs_files s v"
    using assms(2) by (simp_all add: Finalize_def Let_def set_version_def)
  then obtain level where l: "level \<in> set [0..<kNumLevels - 1]" "l = int level" "x = ?score level"
    using best_level_ok [OF b] assms(3) by auto
  have "vs_files s v ! level \<noteq> []"
  proof
    assume "vs_files s v ! level = []"
    then have "x = 0" using l(3) empty_level_score [where round_double = round_double, OF assms(1)] by simp
    then show False using assms(3) ver(2) by simp
  qed
  then show ?thesis using l(1) by (auto simp: ver l(2) kNumLevels_def)
qed

section \<open>Properties\<close>

text \<open>C25. Choosing a compaction returns, by itself or for a range of keys, and its inputs are complete. The inputs of the next
  level are all the files there that their range overlaps; a file of their own level that stays behind shares no
  user key with an input, except above level 0 a file in front of it, whose entries are newer. A compaction is
  chosen exactly when one is needed.\<close>

theorem compaction_inputs:
  assumes "levels_ok (vs_fs s) (vs_files s cur)" "pick_ok s" "level + 1 < kNumLevels" and "vs_current s = Some cur" "cur \<in> dom (vs_version s)"
  shows "(\<exists>r s'. PickCompaction Bytewise_Compare s = Some (r, s') \<and>
      (case r of None \<Rightarrow> \<not> NeedsCompaction s \<and> s' = s
       | Some c \<Rightarrow> NeedsCompaction s \<and> inputs_complete (vs_fs s) (vs_files s cur) (c_level c) (c_inputs0 c) (c_inputs1 c))) \<and>
    (\<exists>r s'. VersionSet_CompactRange Bytewise_Compare level begin_key end_key s = Some (r, s') \<and>
      (case r of None \<Rightarrow> GetOverlappingInputs Bytewise_Compare (vs_fs s) (vs_files s cur) level begin_key end_key = Some [] \<and> s' = s
       | Some c \<Rightarrow> c_level c = level \<and> inputs_complete (vs_fs s) (vs_files s cur) level (c_inputs0 c) (c_inputs1 c)))"
  using PickCompaction_ok [OF assms(1,2,4,5)] CompactRange_ok [OF assms(1,3-5), of begin_key end_key] by (auto simp: picked_def split: option.splits)

definition sample_levels :: "nat list list" where
  "sample_levels = [[], [4, 2], [3], [], [], [], []]"

definition sample_set :: VersionSet where
  "sample_set = (VersionSet_new undefined)\<lparr>vs_version := [7 \<mapsto> Version_init\<lparr>v_files := sample_levels, v_compaction_score := 1, v_compaction_level := 1\<rparr>],
     vs_file := (\<lambda>f. Some (sample_files [(4, [1], [3]), (2, [4], [5]), (3, [2], [6])] f)), vs_current := Some 7\<rparr>"

lemma sample_levels_at: "l < kNumLevels \<Longrightarrow> sample_levels ! l = (if l = 1 then [4, 2] else if l = 2 then [3] else [])"
proof -
  assume "l < kNumLevels"
  then have "l \<in> {0, 1, 2, 3, 4, 5, 6}" by (auto simp: kNumLevels_def)
  then show ?thesis by (auto simp: sample_levels_def)
qed

lemma sample_levels_ok: "levels_ok (sample_files [(4, [1], [3]), (2, [4], [5]), (3, [2], [6])]) sample_levels"
proof -
  let ?xs = "[(4, [1], [3]), (2, [4], [5]), (3, [2], [6])] :: (nat \<times> bytes \<times> bytes) list"
  note keys = sample_file_keys [of ?xs 4 "[1]" "[3]"] sample_file_keys [of ?xs 2 "[4]" "[5]"] sample_file_keys [of ?xs 3 "[2]" "[6]"]
  have "level_sorted (sample_files ?xs) (sample_levels ! l)" if "l < kNumLevels" "0 < l" for l
  proof -
    consider "l = 1" | "l = 2" | "l \<noteq> 1" "l \<noteq> 2" by blast
    then show ?thesis unfolding sample_levels_at [OF that(1)]
      by cases (auto simp: level_sorted_def file_ok_def keys icmp_less icmp_le ParseInternalKey_InternalKey kMaxSequenceNumber_def)
  qed
  then show ?thesis by (simp add: levels_ok_def sample_levels_def kNumLevels_def)
qed

theorem compaction_inputs_witness:
  "(\<exists>c s'. PickCompaction Bytewise_Compare sample_set = Some (Some c, s')) \<and>
   (\<exists>c s'. VersionSet_CompactRange Bytewise_Compare 1 (Some (InternalKey [5] 9 kTypeValue)) None sample_set = Some (Some c, s') \<and> c_inputs1 c = [3])"
proof -
  let ?xs = "[(4, [1], [3]), (2, [4], [5]), (3, [2], [6])] :: (nat \<times> bytes \<times> bytes) list"
  note keys = sample_file_keys [of ?xs 4 "[1]" "[3]"] sample_file_keys [of ?xs 2 "[4]" "[5]"] sample_file_keys [of ?xs 3 "[2]" "[6]"]
  have f: "vs_files sample_set 7 = sample_levels" "vs_fs sample_set = sample_files ?xs" "vs_current sample_set = Some 7" "7 \<in> dom (vs_version sample_set)"
    by (simp_all add: sample_set_def)
  have ver: "v_compaction_score (the (vs_version sample_set 7)) = 1" "v_compaction_level (the (vs_version sample_set 7)) = 1"
    "v_file_to_compact (the (vs_version sample_set 7)) = None" by (simp_all add: sample_set_def Version_init_def)
  have pick: "pick_ok sample_set" "NeedsCompaction sample_set" by (simp_all add: pick_ok_def NeedsCompaction_def Let_def f ver sample_levels_at kNumLevels_def)
  have level: "(1::nat) + 1 < kNumLevels" by (simp add: kNumLevels_def)
  let ?b = "Some (InternalKey [5] 9 kTypeValue)"
  have over: "GetOverlappingInputs Bytewise_Compare (vs_fs sample_set) (vs_files sample_set 7) 1 ?b None = Some [2]"
    using overlapping_closed [of "sample_files ?xs" sample_levels 1 ?b None] unfolding f
    by (simp add: Let_def sample_levels_def overlaps_iff keys)
  from compaction_inputs [OF sample_levels_ok [folded f(1,2)] pick(1) level f(3,4), of ?b None]
  obtain r s' q t where 1: "PickCompaction Bytewise_Compare sample_set = Some (r, s')" "r \<noteq> None"
    and 2: "VersionSet_CompactRange Bytewise_Compare 1 ?b None sample_set = Some (q, t)"
      "case q of None \<Rightarrow> GetOverlappingInputs Bytewise_Compare (vs_fs sample_set) (vs_files sample_set 7) 1 ?b None = Some [] \<and> t = sample_set
       | Some c \<Rightarrow> c_level c = 1 \<and> inputs_complete (vs_fs sample_set) (vs_files sample_set 7) 1 (c_inputs0 c) (c_inputs1 c)"
    using pick(2) by (cases "fst (the (PickCompaction Bytewise_Compare sample_set))") (auto simp del: One_nat_def)
  from 2(2) obtain c where c: "q = Some c" "inputs_complete (sample_files ?xs) sample_levels 1 (c_inputs0 c) (c_inputs1 c)"
    unfolding over by (cases q) (auto simp: f)
  obtain S L where r: "GetRange icmp (sample_files ?xs) (c_inputs0 c) = (S, L)" by (cases "GetRange icmp (sample_files ?xs) (c_inputs0 c)")
  obtain g where g: "g \<in> set (c_inputs0 c)" "g \<in> {4, 2}" using c(2) by (cases "c_inputs0 c") (auto simp: inputs_complete_def sample_levels_def)
  have "overlaps (Some (ExtractUserKey S)) (Some (ExtractUserKey L)) (sample_files ?xs 3)"
  proof -
    have "ExtractUserKey S \<le> smallest_user_key (sample_files ?xs g)" "largest_user_key (sample_files ?xs g) \<le> ExtractUserKey L"
      using GetRange_covers [OF r g(1)] icmp_le_ukey by (simp_all add: smallest_user_key_def largest_user_key_def)
    moreover have "smallest_user_key (sample_files ?xs g) \<le> [6]" "[2] \<le> largest_user_key (sample_files ?xs g)" using g(2) by (auto simp: keys)
    ultimately have "ExtractUserKey S \<le> [6]" "[2] \<le> ExtractUserKey L" by (blast intro: order_trans)+
    then show ?thesis by (simp add: overlaps_iff keys)
  qed
  then have "c_inputs1 c = [3]" using c(2) by (simp add: inputs_complete_def r sample_levels_def)
  then show ?thesis using 1 2(1) c(1) by auto
qed

text \<open>C28. A compaction asks, for rising user keys, whether its level is the last one with the key. Each answer is right: yes exactly when
  no file below the next level has the key in its range, though every file is looked at once in the whole run.\<close>

theorem base_level_answers:
  assumes "levels_ok (vs_fs s) (vs_files s (the (c_input_version c)))" "sorted us" "c_level_ptrs c = replicate kNumLevels 0"
  shows "base_answers s c us =
    map (\<lambda>u. \<not> (\<exists>l<kNumLevels. c_level c + 2 \<le> l \<and>
      (\<exists>f\<in>set (vs_files s (the (c_input_version c)) ! l). smallest_user_key (vs_fs s f) \<le> u \<and> u \<le> largest_user_key (vs_fs s f)))) us"
  using base_answers_ok [OF assms(1,2)] asked_new [OF assms(3)] by (simp add: base_key_def [abs_def] holds_key_def)

theorem base_level_answers_witness:
  "base_answers sample_set ((Compaction_new undefined 0)\<lparr>c_input_version := Some 7\<rparr>) [[1], [4], [7]] = [True, False, True]"
proof -
  let ?xs = "[(4, [1], [3]), (2, [4], [5]), (3, [2], [6])] :: (nat \<times> bytes \<times> bytes) list"
  note keys = sample_file_keys [of ?xs 4 "[1]" "[3]"] sample_file_keys [of ?xs 2 "[4]" "[5]"] sample_file_keys [of ?xs 3 "[2]" "[6]"]
  let ?c = "(Compaction_new undefined 0)\<lparr>c_input_version := Some 7\<rparr>"
  have f: "vs_files sample_set 7 = sample_levels" "vs_fs sample_set = sample_files ?xs" by (simp_all add: sample_set_def)
  have e: "(\<exists>l<kNumLevels. 0 + 2 \<le> l \<and> (\<exists>f\<in>set (sample_levels ! l). P f)) \<longleftrightarrow> P 3" for P
  proof -
    have "(\<exists>l<kNumLevels. 0 + 2 \<le> l \<and> (\<exists>f\<in>set (sample_levels ! l). P f)) \<longleftrightarrow> (\<exists>l<kNumLevels. 2 \<le> l \<and> l = 2 \<and> P 3)"
      by (auto simp: sample_levels_at split: if_splits)
    then show ?thesis by (auto simp: kNumLevels_def)
  qed
  have c: "c_input_version ?c = Some 7" "c_level ?c = 0" "c_level_ptrs ?c = replicate kNumLevels 0" by (simp_all add: Compaction_new_def)
  have "the (vs_file sample_set f) = sample_files ?xs f" for f by (simp add: sample_set_def)
  then have *: "base_answers sample_set ?c [[1], [4], [7]] =
      map (\<lambda>u. \<not> (\<exists>l<kNumLevels. 0 + 2 \<le> l \<and> (\<exists>f\<in>set (sample_levels ! l). smallest_user_key (sample_files ?xs f) \<le> u \<and> u \<le> largest_user_key (sample_files ?xs f))))
        [[1], [4], [7]]"
    using base_level_answers [of sample_set ?c "[[1], [4], [7]]"] unfolding c option.sel f(1) by (simp add: f(2) sample_levels_ok c del: base_answers.simps)
  show ?thesis unfolding * e by (simp add: keys)
qed

end
