(* ===== verification/Version_Get.thy ===== *)
theory Version_Get
  imports Version_Set Table_Properties
begin

text \<open>
  \<^verbatim>\<open>db/version_set.cc\<close>, reading a version: the lookup of a key through the levels, the statistics that lookups and iterators
  give back, and the level for a new table. The table cache is the operation \<open>table_get\<close> on its own state.
\<close>

section \<open>The code\<close>

subsection \<open>The callback of a table lookup\<close>

text \<open>The names of the states are \<^verbatim>\<open>kNotFound\<close> and so on in the code.\<close>

datatype SaverState = sNotFound | sFound | sDeleted | sCorrupt

record Saver =
  sv_state :: SaverState
  sv_user_key :: bytes
  sv_value :: bytes

definition SaveValue :: "(bytes \<Rightarrow> bytes \<Rightarrow> int) \<Rightarrow> Saver \<Rightarrow> bytes \<Rightarrow> bytes \<Rightarrow> Saver" where
  "SaveValue ucmp s ikey v =
     (case ParseInternalKey ikey of
        None \<Rightarrow> s\<lparr>sv_state := sCorrupt\<rparr>
      | Some parsed_key \<Rightarrow>
          if ucmp (user_key parsed_key) (sv_user_key s) = 0 then
            let s = s\<lparr>sv_state := (if vtype parsed_key = kTypeValue then sFound else sDeleted)\<rparr>
            in if sv_state s = sFound then s\<lparr>sv_value := v\<rparr> else s
          else s)"

subsection \<open>The files that may have a key\<close>

text \<open>The numbers of files differ, so a sort by descending number is \<^verbatim>\<open>std::sort\<close> with \<^verbatim>\<open>NewestFirst\<close>.\<close>

definition NewestFirst :: "FileStore \<Rightarrow> nat \<Rightarrow> nat \<Rightarrow> bool" where
  "NewestFirst fs a b \<longleftrightarrow> fm_number (fs a) > fm_number (fs b)"

fun sort_insert :: "('a \<Rightarrow> 'a \<Rightarrow> bool) \<Rightarrow> 'a \<Rightarrow> 'a list \<Rightarrow> 'a list" where
  "sort_insert lt x [] = [x]"
| "sort_insert lt x (y # ys) = (if lt y x then y # sort_insert lt x ys else x # y # ys)"

definition std_sort :: "('a \<Rightarrow> 'a \<Rightarrow> bool) \<Rightarrow> 'a list \<Rightarrow> 'a list" where
  "std_sort lt xs = foldr (sort_insert lt) xs []"

definition level0_files :: "(bytes \<Rightarrow> bytes \<Rightarrow> int) \<Rightarrow> FileStore \<Rightarrow> nat list \<Rightarrow> bytes \<Rightarrow> nat list" where
  "level0_files ucmp fs files ukey =
     std_sort (NewestFirst fs)
       (filter (\<lambda>f. ucmp ukey (smallest_user_key (fs f)) \<ge> 0 \<and> ucmp ukey (largest_user_key (fs f)) \<le> 0) files)"

definition level_file :: "(bytes \<Rightarrow> bytes \<Rightarrow> int) \<Rightarrow> FileStore \<Rightarrow> nat list \<Rightarrow> bytes \<Rightarrow> bytes \<Rightarrow> nat list option" where
  "level_file ucmp fs files ukey ikey =
     map_option (\<lambda>index.
         if index \<ge> length files then []
         else let f = files ! index in if ucmp ukey (smallest_user_key (fs f)) < 0 then [] else [f])
       (FindFile (IKC_Compare ucmp) fs files ikey)"

definition files_to_search :: "(bytes \<Rightarrow> bytes \<Rightarrow> int) \<Rightarrow> FileStore \<Rightarrow> nat list list \<Rightarrow> bytes \<Rightarrow> bytes \<Rightarrow> nat \<Rightarrow> nat list option" where
  "files_to_search ucmp fs files ukey ikey level =
     (if files ! level = [] then Some []
      else if level = 0 then Some (level0_files ucmp fs (files ! 0) ukey)
      else level_file ucmp fs (files ! level) ukey ikey)"

text \<open>\<open>func\<close> is the callback with its argument as a state; it says whether to go on.\<close>

fun call_while :: "('a \<Rightarrow> int \<Rightarrow> nat \<Rightarrow> bool \<times> 'a) \<Rightarrow> int \<Rightarrow> nat list \<Rightarrow> 'a \<Rightarrow> bool \<times> 'a" where
  "call_while func level [] arg = (True, arg)"
| "call_while func level (f # files) arg =
     (let (go_on, arg) = func arg level f in if go_on then call_while func level files arg else (False, arg))"

fun ForEachOverlapping_levels ::
  "(bytes \<Rightarrow> bytes \<Rightarrow> int) \<Rightarrow> FileStore \<Rightarrow> nat list list \<Rightarrow> bytes \<Rightarrow> bytes \<Rightarrow> ('a \<Rightarrow> int \<Rightarrow> nat \<Rightarrow> bool \<times> 'a) \<Rightarrow> nat list \<Rightarrow> 'a \<Rightarrow> 'a option" where
  "ForEachOverlapping_levels ucmp fs files ukey ikey func [] arg = Some arg"
| "ForEachOverlapping_levels ucmp fs files ukey ikey func (level # levels) arg =
     Option.bind (files_to_search ucmp fs files ukey ikey level) (\<lambda>fl.
       let (go_on, arg) = call_while func (int level) fl arg
       in if go_on then ForEachOverlapping_levels ucmp fs files ukey ikey func levels arg else Some arg)"

definition ForEachOverlapping ::
  "(bytes \<Rightarrow> bytes \<Rightarrow> int) \<Rightarrow> FileStore \<Rightarrow> nat list list \<Rightarrow> bytes \<Rightarrow> bytes \<Rightarrow> ('a \<Rightarrow> int \<Rightarrow> nat \<Rightarrow> bool \<times> 'a) \<Rightarrow> 'a \<Rightarrow> 'a option" where
  "ForEachOverlapping ucmp fs files ukey ikey func arg = ForEachOverlapping_levels ucmp fs files ukey ikey func [0..<kNumLevels] arg"

subsection \<open>\<^verbatim>\<open>Version::Get\<close>\<close>

text \<open>The variables that live across the levels, with the state of the table cache.\<close>

record 'w GetState =
  gs_last_file_read :: "nat option"
  gs_last_file_read_level :: int
  gs_stats :: GetStats
  gs_value :: bytes
  gs_cache :: 'w

definition search_file ::
  "('w \<Rightarrow> u64 \<Rightarrow> u64 \<Rightarrow> bytes \<Rightarrow> (status \<times> (bytes \<times> bytes) option \<times> 'w) option) \<Rightarrow> (bytes \<Rightarrow> bytes \<Rightarrow> int) \<Rightarrow> FileStore \<Rightarrow>
     bytes \<Rightarrow> bytes \<Rightarrow> int \<Rightarrow> nat \<Rightarrow> 'w GetState \<Rightarrow> (status option \<times> 'w GetState) option" where
  "search_file table_get ucmp fs ukey ikey level f g =
     (let g = (case gs_last_file_read g of
                 None \<Rightarrow> g
               | Some last_file \<Rightarrow>
                   if seek_file (gs_stats g) = None
                   then g\<lparr>gs_stats := \<lparr>seek_file = Some last_file, seek_file_level = gs_last_file_read_level g\<rparr>\<rparr> else g);
          g = g\<lparr>gs_last_file_read := Some f, gs_last_file_read_level := level\<rparr>;
          saver = \<lparr>sv_state = sNotFound, sv_user_key = ukey, sv_value = gs_value g\<rparr>
      in map_option (\<lambda>(s, call, w).
           let saver = (case call of None \<Rightarrow> saver | Some (k, v) \<Rightarrow> SaveValue ucmp saver k v);
               g = g\<lparr>gs_value := sv_value saver, gs_cache := w\<rparr>
           in if \<not> ok s then (Some s, g)
              else (case sv_state saver of
                      sNotFound \<Rightarrow> None
                    | sFound \<Rightarrow> Some s
                    | sDeleted \<Rightarrow> Some (NotFound [])
                    | sCorrupt \<Rightarrow> Some (Status_new kCorruption (str ''corrupted key for '') ukey), g))
         (table_get (gs_cache g) (fm_number (fs f)) (fm_file_size (fs f)) ikey))"

fun search_files ::
  "('w \<Rightarrow> u64 \<Rightarrow> u64 \<Rightarrow> bytes \<Rightarrow> (status \<times> (bytes \<times> bytes) option \<times> 'w) option) \<Rightarrow> (bytes \<Rightarrow> bytes \<Rightarrow> int) \<Rightarrow> FileStore \<Rightarrow>
     bytes \<Rightarrow> bytes \<Rightarrow> int \<Rightarrow> nat list \<Rightarrow> 'w GetState \<Rightarrow> (status option \<times> 'w GetState) option" where
  "search_files table_get ucmp fs ukey ikey level [] g = Some (None, g)"
| "search_files table_get ucmp fs ukey ikey level (f # files) g =
     Option.bind (search_file table_get ucmp fs ukey ikey level f g) (\<lambda>(r, g).
       case r of Some s \<Rightarrow> Some (Some s, g) | None \<Rightarrow> search_files table_get ucmp fs ukey ikey level files g)"

fun search_levels ::
  "('w \<Rightarrow> u64 \<Rightarrow> u64 \<Rightarrow> bytes \<Rightarrow> (status \<times> (bytes \<times> bytes) option \<times> 'w) option) \<Rightarrow> (bytes \<Rightarrow> bytes \<Rightarrow> int) \<Rightarrow> FileStore \<Rightarrow>
     nat list list \<Rightarrow> bytes \<Rightarrow> bytes \<Rightarrow> nat list \<Rightarrow> 'w GetState \<Rightarrow> (status option \<times> 'w GetState) option" where
  "search_levels table_get ucmp fs files ukey ikey [] g = Some (None, g)"
| "search_levels table_get ucmp fs files ukey ikey (level # levels) g =
     Option.bind (files_to_search ucmp fs files ukey ikey level) (\<lambda>fl.
     Option.bind (search_files table_get ucmp fs ukey ikey (int level) fl g) (\<lambda>(r, g).
       case r of Some s \<Rightarrow> Some (Some s, g) | None \<Rightarrow> search_levels table_get ucmp fs files ukey ikey levels g))"

text \<open>The status, \<^verbatim>\<open>*value\<close>, \<^verbatim>\<open>*stats\<close> and the table cache afterwards.\<close>

definition Version_Get ::
  "('w \<Rightarrow> u64 \<Rightarrow> u64 \<Rightarrow> bytes \<Rightarrow> (status \<times> (bytes \<times> bytes) option \<times> 'w) option) \<Rightarrow> (bytes \<Rightarrow> bytes \<Rightarrow> int) \<Rightarrow> FileStore \<Rightarrow>
     nat list list \<Rightarrow> LookupKey \<Rightarrow> bytes \<Rightarrow> 'w \<Rightarrow> (status \<times> bytes \<times> GetStats \<times> 'w) option" where
  "Version_Get table_get ucmp fs files k val w =
     (let ikey = internal_key k; ukey = lookup_user_key k;
          g = \<lparr>gs_last_file_read = None, gs_last_file_read_level = -1, gs_stats = \<lparr>seek_file = None, seek_file_level = -1\<rparr>,
               gs_value = val, gs_cache = w\<rparr>
      in map_option (\<lambda>(r, g). (case r of Some s \<Rightarrow> s | None \<Rightarrow> NotFound [], gs_value g, gs_stats g, gs_cache g))
           (search_levels table_get ucmp fs files ukey ikey [0..<kNumLevels] g))"

subsection \<open>Samples of reads\<close>

record SampleState =
  ss_stats :: GetStats
  ss_matches :: int

definition Match :: "SampleState \<Rightarrow> int \<Rightarrow> nat \<Rightarrow> bool \<times> SampleState" where
  "Match st level f =
     (let st = st\<lparr>ss_matches := ss_matches st + 1\<rparr>;
          st = (if ss_matches st = 1 then st\<lparr>ss_stats := \<lparr>seek_file = Some f, seek_file_level = level\<rparr>\<rparr> else st)
      in (ss_matches st < 2, st))"

text \<open>The statistics of a state without a match are not set in the code, and not used.\<close>

definition RecordReadSample :: "(bytes \<Rightarrow> bytes \<Rightarrow> int) \<Rightarrow> nat \<Rightarrow> bytes \<Rightarrow> VersionSet \<Rightarrow> (bool \<times> VersionSet) option" where
  "RecordReadSample ucmp v ikey s =
     (case ParseInternalKey ikey of
        None \<Rightarrow> Some (False, s)
      | Some k \<Rightarrow>
          map_option (\<lambda>st. if ss_matches st \<ge> 2 then UpdateStats v (ss_stats st) s else (False, s))
            (ForEachOverlapping ucmp (vs_fs s) (vs_files s v) (user_key k) ikey Match
              \<lparr>ss_stats = \<lparr>seek_file = None, seek_file_level = -1\<rparr>, ss_matches = 0\<rparr>))"

subsection \<open>The level of a new table\<close>

definition OverlapInLevel ::
  "(bytes \<Rightarrow> bytes \<Rightarrow> int) \<Rightarrow> FileStore \<Rightarrow> nat list list \<Rightarrow> nat \<Rightarrow> bytes option \<Rightarrow> bytes option \<Rightarrow> bool option" where
  "OverlapInLevel ucmp fs files level smallest largest = SomeFileOverlapsRange ucmp (level > 0) fs (files ! level) smallest largest"

text \<open>\<open>start\<close> and \<open>limit\<close> are internal keys; the loop counts the level up.\<close>

function push_level ::
  "(bytes \<Rightarrow> bytes \<Rightarrow> int) \<Rightarrow> Options \<Rightarrow> FileStore \<Rightarrow> nat list list \<Rightarrow> bytes \<Rightarrow> bytes \<Rightarrow> nat \<Rightarrow> nat option" where
  "push_level ucmp options fs files smallest largest level =
     (if level < kMaxMemCompactLevel then
        Option.bind (OverlapInLevel ucmp fs files (level + 1) (Some smallest) (Some largest)) (\<lambda>overlap.
        if overlap then Some level
        else if level + 2 < kNumLevels then
          Option.bind (GetOverlappingInputs ucmp fs files (level + 2) (Some (InternalKey smallest kMaxSequenceNumber kValueTypeForSeek))
              (Some (InternalKey largest 0 kTypeDeletion))) (\<lambda>overlaps.
          if TotalFileSize fs overlaps > MaxGrandParentOverlapBytes options then Some level
          else push_level ucmp options fs files smallest largest (level + 1))
        else push_level ucmp options fs files smallest largest (level + 1))
      else Some level)"
  by auto

termination by (relation "measure (\<lambda>(_, _, _, _, _, _, level). kMaxMemCompactLevel - level)") auto

declare push_level.simps [simp del]

definition PickLevelForMemTableOutput ::
  "(bytes \<Rightarrow> bytes \<Rightarrow> int) \<Rightarrow> Options \<Rightarrow> FileStore \<Rightarrow> nat list list \<Rightarrow> bytes \<Rightarrow> bytes \<Rightarrow> nat option" where
  "PickLevelForMemTableOutput ucmp options fs files smallest largest =
     Option.bind (OverlapInLevel ucmp fs files 0 (Some smallest) (Some largest)) (\<lambda>overlap.
       if overlap then Some 0 else push_level ucmp options fs files smallest largest 0)"

end
