(* ===== verification/Version_Lookup.thy ===== *)
theory Version_Lookup
  imports Version_Get Db_View Compaction_Inputs
begin

text \<open>
  A lookup in a version gives the newest visible entry of a key in all its files: files of level 0 are searched from new to old,
  of every other level one file, and nothing in a lower level is newer than what is above it. The
  locale \<open>table_store\<close> is what the lookup relies on of the table cache.
\<close>

section \<open>One file\<close>

lemma seek_below:
  assumes "ParseInternalKey k = Some pk" "s \<le> kMaxSequenceNumber"
  shows "icmp k (InternalKey u s kTypeValue) < 0 \<longleftrightarrow> ExtractUserKey k < u \<or> ExtractUserKey k = u \<and> s < sequence pk"
proof (cases "sequence pk \<le> s")
  case True
  then have "\<not> s < sequence pk" by simp
  then show ?thesis unfolding below_seek_key [OF assms True] by simp
next
  case False
  then have "Suc (unat s) \<le> unat (sequence pk)" by (simp add: word_less_nat_alt not_le)
  moreover have "unat (sequence pk) = unat (key_num k) div 256" using Parse_num [OF assms(1)] by (simp add: unat_drop_bit_word)
  ultimately have "Suc (unat s) * 256 \<le> unat (key_num k) div 256 * 256" by (simp only: mult_le_mono1)
  also have "\<dots> \<le> unat (key_num k)" by (rule div_times_less_eq_dividend)
  finally have "unat s * 256 + 1 < unat (key_num k)" by simp
  then have "PackSequenceAndType s kTypeValue < key_num k" using unat_Pack [OF assms(2), of kTypeValue] by (simp add: word_less_nat_alt)
  then show ?thesis using False by (auto simp: icmp_less)
qed

text \<open>The newest visible entry of a key is the first one in a sorted list.\<close>

definition visible_at :: "bytes \<Rightarrow> u64 \<Rightarrow> bytes \<times> bytes \<Rightarrow> bool" where
  "visible_at u s e \<longleftrightarrow> ukey e = u \<and> seq_of e \<le> s"

definition newest_in :: "kvs \<Rightarrow> bytes \<Rightarrow> u64 \<Rightarrow> (bytes \<times> bytes) option" where
  "newest_in kvs u s = find (visible_at u s) kvs"

definition sorted_entries :: "kvs \<Rightarrow> bool" where
  "sorted_entries kvs \<longleftrightarrow> sorted_wrt (\<lambda>a b. icmp (fst a) (fst b) < 0) kvs \<and> well_formed kvs"

lemma entry_below:
  assumes "well_formed kvs" "e \<in> set kvs" "s \<le> kMaxSequenceNumber"
  shows "icmp (fst e) (InternalKey u s kTypeValue) < 0 \<longleftrightarrow> ukey e < u \<or> ukey e = u \<and> s < seq_of e"
proof -
  obtain pk where "ParseInternalKey (fst e) = Some pk" using assms(1,2) by (auto simp: well_formed_def)
  then show ?thesis using seek_below [OF _ assms(3)] by (simp add: seq_of_def)
qed

lemma entry_order:
  assumes "ParseInternalKey (fst a) \<noteq> None" "ParseInternalKey (fst b) \<noteq> None" "icmp (fst a) (fst b) \<le> 0" "ukey a = ukey b"
  shows "seq_of b \<le> seq_of a"
proof -
  obtain p q where p: "ParseInternalKey (fst a) = Some p" "ParseInternalKey (fst b) = Some q" using assms(1,2) by blast
  have "key_num (fst b) \<le> key_num (fst a)" using assms(3,4) by (auto simp: icmp_le)
  then have "unat (key_num (fst b)) div 256 \<le> unat (key_num (fst a)) div 256" by (intro div_le_mono) (simp add: word_le_nat_alt)
  then show ?thesis using Parse_num [OF p(1)] Parse_num [OF p(2)] by (simp add: seq_of_def p word_le_nat_alt unat_drop_bit_word)
qed

lemma newest_in_max:
  assumes "sorted_entries kvs" "newest_in kvs u s = Some e" "e' \<in> set kvs" "visible_at u s e'"
  shows "seq_of e' \<le> seq_of e"
proof -
  obtain i where i: "i < length kvs" "visible_at u s (kvs ! i)" "e = kvs ! i" "\<forall>j<i. \<not> visible_at u s (kvs ! j)"
    using assms(2) by (auto simp: newest_in_def find_Some_iff)
  obtain j where j: "j < length kvs" "e' = kvs ! j" using assms(3) by (auto simp: in_set_conv_nth)
  have "i \<le> j" using i(4) j(2) assms(4) by (metis not_le)
  then have "icmp (fst e) (fst e') \<le> 0" using assms(1) i(1,3) j
    by (cases "i = j") (auto simp: sorted_entries_def sorted_wrt_iff_nth_less intro: less_imp_le)
  moreover have "ParseInternalKey (fst e) \<noteq> None" "ParseInternalKey (fst e') \<noteq> None" using assms(1) i(1,3) j by (auto simp: sorted_entries_def well_formed_def)
  moreover have "ukey e = ukey e'" using i(2,3) assms(4) by (simp add: visible_at_def)
  ultimately show ?thesis by (intro entry_order)
qed

lemma newest_in_visible: "newest_in kvs u s = Some e \<Longrightarrow> e \<in> set kvs \<and> visible_at u s e"
  by (auto simp: newest_in_def find_Some_iff)

lemma newest_in_None: "newest_in kvs u s = None \<longleftrightarrow> (\<forall>e\<in>set kvs. \<not> visible_at u s e)"
  by (auto simp: newest_in_def find_None_iff)

text \<open>What a table lookup finds is the newest visible entry, if there is one.\<close>

lemma lookup_newest:
  assumes srt: "sorted_entries kvs" and s: "s \<le> kMaxSequenceNumber" and a: "lookup_answer kvs (InternalKey u s kTypeValue) r"
  shows "fst r = Status_OK \<and> (case newest_in kvs u s of Some e \<Rightarrow> snd r = Some e
    | None \<Rightarrow> (\<forall>e. snd r = Some e \<longrightarrow> ParseInternalKey (fst e) \<noteq> None \<and> ukey e \<noteq> u))"
proof -
  let ?k = "InternalKey u s kTypeValue" and ?at = "\<lambda>kv. 0 \<le> icmp (fst kv) (InternalKey u s kTypeValue)"
  have wf: "well_formed kvs" using srt by (simp add: sorted_entries_def)
  have at: "?at e \<longleftrightarrow> u < ukey e \<or> visible_at u s e" if "e \<in> set kvs" for e
    using entry_below [OF wf that s, of u] by (auto simp: visible_at_def not_less [symmetric, of "0 :: int"])
  show ?thesis
  proof (cases "find ?at kvs")
    case None
    then have "newest_in kvs u s = None" using at by (auto simp: newest_in_None find_None_iff)
    then show ?thesis using a None by (simp add: lookup_answer_def)
  next
    case (Some e)
    then obtain i where i: "i < length kvs" "?at (kvs ! i)" "e = kvs ! i" "\<forall>j<i. \<not> ?at (kvs ! j)" by (auto simp: find_Some_iff)
    have p: "ParseInternalKey (fst e) \<noteq> None" using wf i(1,3) by (auto simp: well_formed_def)
    show ?thesis
    proof (cases "ukey e = u")
      case True
      then have "visible_at u s (kvs ! i)" using at [of "kvs ! i"] i(1-3) by auto
      moreover have "\<not> visible_at u s (kvs ! j)" if "j < i" for j using at [of "kvs ! j"] i(1,4) that by auto
      ultimately have "newest_in kvs u s = Some e" using i(1,3) unfolding newest_in_def find_Some_iff by blast
      then show ?thesis using a Some True by (auto simp: lookup_answer_def)
    next
      case False
      then have u: "u < ukey e" using at [of e] i(1-3) by (auto simp: visible_at_def)
      have "\<not> visible_at u s (kvs ! j)" if j: "j < length kvs" for j
      proof (cases "j < i")
        case True
        then show ?thesis using at [of "kvs ! j"] i(4) j by auto
      next
        case False
        then have "ukey e \<le> ukey (kvs ! j)" using ukey_mono [of kvs i j] srt i(3) j by (simp add: sorted_entries_def)
        then show ?thesis using u by (auto simp: visible_at_def)
      qed
      then have "newest_in kvs u s = None" unfolding newest_in_None by (metis in_set_conv_nth)
      then show ?thesis using a Some False p by (auto simp: lookup_answer_def)
    qed
  qed
qed

section \<open>One level\<close>

text \<open>\<open>C\<close> gives the entries of each file.\<close>

definition file_holds :: "FileStore \<Rightarrow> (nat \<Rightarrow> kvs) \<Rightarrow> nat \<Rightarrow> bool" where
  "file_holds fs C f \<longleftrightarrow> sorted_entries (C f) \<and> C f \<noteq> [] \<and> fm_smallest (fs f) = fst (hd (C f)) \<and> fm_largest (fs f) = fst (last (C f))"

lemma file_holds_range:
  assumes "file_holds fs C f" "e \<in> set (C f)"
  shows "icmp (fm_smallest (fs f)) (fst e) \<le> 0" "icmp (fst e) (fm_largest (fs f)) \<le> 0"
    and "smallest_user_key (fs f) \<le> ukey e" "ukey e \<le> largest_user_key (fs f)"
proof -
  have srt: "sorted_wrt (\<lambda>a b. icmp (fst a) (fst b) < 0) (C f)" and ne: "C f \<noteq> []" using assms(1) by (auto simp: file_holds_def sorted_entries_def)
  obtain i where i: "i < length (C f)" "e = C f ! i" using assms(2) by (auto simp: in_set_conv_nth)
  have le: "icmp (fst (C f ! j)) (fst (C f ! k)) \<le> 0" if "j \<le> k" "k < length (C f)" for j k
    using srt that by (cases "j = k") (auto simp: sorted_wrt_iff_nth_less intro: less_imp_le)
  show s: "icmp (fm_smallest (fs f)) (fst e) \<le> 0" using le [of 0 i] assms(1) i ne by (simp add: file_holds_def hd_conv_nth)
  show l: "icmp (fst e) (fm_largest (fs f)) \<le> 0" using le [of i "length (C f) - 1"] assms(1) i ne by (simp add: file_holds_def last_conv_nth)
  show "smallest_user_key (fs f) \<le> ukey e" "ukey e \<le> largest_user_key (fs f)"
    using icmp_le_ukey [OF s] icmp_le_ukey [OF l] by (simp_all add: smallest_user_key_def largest_user_key_def)
qed

text \<open>The first of the searched files with a visible entry has the newest one of the level.\<close>

definition has_visible :: "(nat \<Rightarrow> kvs) \<Rightarrow> bytes \<Rightarrow> u64 \<Rightarrow> nat \<Rightarrow> bool" where
  "has_visible C u s f \<longleftrightarrow> newest_in (C f) u s \<noteq> None"

definition level_best :: "(nat \<Rightarrow> kvs) \<Rightarrow> bytes \<Rightarrow> u64 \<Rightarrow> nat list \<Rightarrow> nat list \<Rightarrow> bool" where
  "level_best C u s fl files \<longleftrightarrow> set fl \<subseteq> set files \<and>
     (case find (has_visible C u s) fl of
        None \<Rightarrow> \<forall>g\<in>set files. \<not> has_visible C u s g
      | Some f \<Rightarrow> \<forall>g\<in>set files. \<forall>e\<in>set (C g). visible_at u s e \<longrightarrow> seq_of e \<le> seq_of (the (newest_in (C f) u s)))"

lemma has_visibleE:
  assumes "has_visible C u s f"
  obtains e where "e \<in> set (C f)" "visible_at u s e"
  using assms newest_in_visible by (fastforce simp: has_visible_def)

lemma set_sort_insert [simp]: "set (sort_insert lt x xs) = insert x (set xs)"
  by (induction xs) auto

lemma set_std_sort [simp]: "set (std_sort lt xs) = set xs"
  by (induction xs) (simp_all add: std_sort_def)

lemma length_std_sort [simp]: "length (std_sort lt xs) = length xs"
proof -
  have "length (sort_insert lt x ys) = Suc (length ys)" for x ys by (induction ys) auto
  then show ?thesis by (induction xs) (simp_all add: std_sort_def)
qed

lemma sort_insert_sorted:
  "sorted_wrt (\<lambda>a b. \<not> NewestFirst fs b a) xs \<Longrightarrow> sorted_wrt (\<lambda>a b. \<not> NewestFirst fs b a) (sort_insert (NewestFirst fs) x xs)"
  by (induction xs) (auto simp: NewestFirst_def)

lemma std_sort_sorted: "sorted_wrt (\<lambda>a b. \<not> NewestFirst fs b a) (std_sort (NewestFirst fs) xs)"
  by (induction xs) (simp_all add: std_sort_def sort_insert_sorted)

lemma level0_best:
  assumes holds: "\<forall>f\<in>set files. file_holds fs C f" and inj: "inj_on (\<lambda>f. fm_number (fs f)) (set files)"
    and newer: "\<forall>f\<in>set files. \<forall>g\<in>set files. fm_number (fs g) < fm_number (fs f) \<longrightarrow>
      (\<forall>a\<in>set (C f). \<forall>b\<in>set (C g). ukey a = ukey b \<longrightarrow> seq_of b \<le> seq_of a)"
  shows "level_best C u s (level0_files Bytewise_Compare fs files u) files"
proof -
  let ?fl = "level0_files Bytewise_Compare fs files u"
  have fl: "set ?fl = {f \<in> set files. smallest_user_key (fs f) \<le> u \<and> u \<le> largest_user_key (fs f)}"
    by (auto simp: level0_files_def not_less [symmetric])
  have here: "g \<in> set ?fl" if g: "g \<in> set files" "has_visible C u s g" for g
  proof -
    obtain e where e: "e \<in> set (C g)" "visible_at u s e" using g(2) by (rule has_visibleE)
    then show ?thesis using file_holds_range(3,4) [where C = C, OF _ e(1)] holds g(1) by (auto simp: fl visible_at_def)
  qed
  show ?thesis
  proof (cases "find (has_visible C u s) ?fl")
    case None
    then have "\<forall>g\<in>set files. \<not> has_visible C u s g" using here by (auto simp: find_None_iff)
    then show ?thesis using None fl by (simp add: level_best_def)
  next
    case (Some f)
    then obtain i where i: "i < length ?fl" "f = ?fl ! i" "has_visible C u s f" "\<forall>j<i. \<not> has_visible C u s (?fl ! j)" by (auto simp: find_Some_iff)
    have f: "f \<in> set ?fl" using i(1,2) by simp
    obtain a where a: "newest_in (C f) u s = Some a" using i(3) by (auto simp: has_visible_def)
    have "seq_of e \<le> seq_of a" if g: "g \<in> set files" and e: "e \<in> set (C g)" "visible_at u s e" for g e
    proof -
      have "has_visible C u s g" using e newest_in_None by (auto simp: has_visible_def)
      then obtain j where j: "j < length ?fl" "g = ?fl ! j" "i \<le> j" using here [OF g] i(4) by (metis in_set_conv_nth not_le)
      show ?thesis
      proof (cases "i = j")
        case True
        then show ?thesis using newest_in_max [OF _ a] e holds g i(2) j(2) by (auto simp: file_holds_def)
      next
        case False
        then have "\<not> NewestFirst fs g f" using std_sort_sorted i(1,2) j unfolding level0_files_def by (auto simp: sorted_wrt_iff_nth_less)
        then have le: "fm_number (fs g) \<le> fm_number (fs f)" by (simp add: NewestFirst_def)
        show ?thesis
        proof (cases "f = g")
          case True
          then show ?thesis using newest_in_max [OF _ a] e holds g by (auto simp: file_holds_def)
        next
          case False
          then have "fm_number (fs g) < fm_number (fs f)" using inj_onD [OF inj, of f g] le f g fl by force
          then show ?thesis using newer f g fl newest_in_visible [OF a] e by (auto simp: visible_at_def)
        qed
      qed
    qed
    then show ?thesis using Some a fl by (auto simp: level_best_def)
  qed
qed

lemma level_file_best:
  assumes srt: "level_sorted fs files" and len: "length files < 2 ^ 31" and holds: "\<forall>f\<in>set files. file_holds fs C f"
    and s: "s \<le> kMaxSequenceNumber"
  shows "\<exists>fl. level_file Bytewise_Compare fs files u (InternalKey u s kTypeValue) = Some fl \<and> level_best C u s fl files \<and> length fl \<le> 1"
proof -
  let ?k = "InternalKey u s kTypeValue"
  let ?n = "length (takeWhile (\<lambda>f. icmp (fm_largest (fs f)) ?k < 0) files)"
  define fl where "fl = (if ?n \<ge> length files then [] else if u < smallest_user_key (fs (files ! ?n)) then [] else [files ! ?n])"
  have r: "level_file Bytewise_Compare fs files u ?k = Some fl"
    using FindFile_ok [OF srt len, of ?k] by (simp add: level_file_def Let_def fl_def)
  have wf: "well_formed (C f)" if "f \<in> set files" for f using holds that by (simp add: file_holds_def sorted_entries_def)
  have ge: "\<not> icmp (fst e) ?k < 0" if "f \<in> set files" "e \<in> set (C f)" "visible_at u s e" for f e
    unfolding entry_below [OF wf [OF that(1)] that(2) s] using that(3) by (auto simp: visible_at_def)
  have late: "?n \<le> i" if i: "i < length files" "e \<in> set (C (files ! i))" "visible_at u s e" for i e
  proof (rule ccontr)
    assume "\<not> ?n \<le> i"
    then have "i < ?n" by simp
    then have "icmp (fm_largest (fs (files ! i))) ?k < 0" by (rule before_takeWhile)
    moreover have "file_holds fs C (files ! i)" using holds i(1) by simp
    ultimately have "icmp (fst e) ?k < 0" using icmp_le_less_trans [OF file_holds_range(2) [where C = C, OF _ i(2)]] by blast
    then show False using ge [OF nth_mem [OF i(1)] i(2,3)] by blast
  qed
  have first: "fl = [files ! ?n] \<and> has_visible C u s (files ! ?n) \<and> seq_of e \<le> seq_of (the (newest_in (C (files ! ?n)) u s))"
    if g: "i < length files" "e \<in> set (C (files ! i))" "visible_at u s e" for i e
  proof -
    let ?f = "files ! ?n"
    have n: "?n \<le> i" "?n < length files" using late [OF g] g(1) by simp_all
    have f: "?f \<in> set files" "file_holds fs C ?f" using n(2) holds by simp_all
    have reach: "\<not> icmp (fm_largest (fs ?f)) ?k < 0" using nth_length_takeWhile [OF n(2)] .
    have e_ge: "smallest_user_key (fs ?f) \<le> u"
    proof -
      have "smallest_user_key (fs ?f) \<le> smallest_user_key (fs (files ! i))"
        using icmp_le_ukey [OF level_sorted_smallest [OF srt n(1) g(1)]] by (simp add: smallest_user_key_def)
      also have "\<dots> \<le> ukey e" using file_holds_range(3) [where C = C, OF _ g(2)] holds g(1) by simp
      finally show ?thesis using g(3) by (simp add: visible_at_def)
    qed
    have "\<exists>a\<in>set (C ?f). visible_at u s a \<and> seq_of e \<le> seq_of a"
    proof (cases "?n = i")
      case True
      then show ?thesis using g(2,3) by auto
    next
      case False
      then have lt: "icmp (fm_largest (fs ?f)) (fm_smallest (fs (files ! i))) < 0" using srt n(1) g(1) by (simp add: level_sorted_def sorted_wrt_iff_nth_less)
      let ?a = "last (C ?f)"
      have a: "?a \<in> set (C ?f)" "fst ?a = fm_largest (fs ?f)" using f(2) by (simp_all add: file_holds_def)
      have e1: "icmp (fm_smallest (fs (files ! i))) (fst e) \<le> 0" using file_holds_range(1) [where C = C, OF _ g(2)] holds g(1) by simp
      have ae: "icmp (fst ?a) (fst e) < 0" using icmp_less_le_trans [OF lt e1] a(2) by simp
      then have "ukey ?a \<le> u" using icmp_less_ukey g(3) by (auto simp: visible_at_def)
      moreover have "\<not> (ukey ?a < u \<or> ukey ?a = u \<and> s < seq_of ?a)" using reach unfolding a(2) [symmetric] entry_below [OF wf [OF f(1)] a(1) s] .
      ultimately have vis: "visible_at u s ?a" by (auto simp: visible_at_def not_less)
      have "ParseInternalKey (fst ?a) \<noteq> None" "ParseInternalKey (fst e) \<noteq> None" using wf [OF f(1)] wf [of "files ! i"] a(1) g by (auto simp: well_formed_def)
      then have "seq_of e \<le> seq_of ?a" using entry_order [of ?a e] ae vis g(3) by (simp add: visible_at_def)
      then show ?thesis using a(1) vis by blast
    qed
    then obtain a where a: "a \<in> set (C ?f)" "visible_at u s a" "seq_of e \<le> seq_of a" by blast
    then obtain b where b: "newest_in (C ?f) u s = Some b" using newest_in_None [of "C ?f" u s] by fastforce
    have "seq_of a \<le> seq_of b" using newest_in_max [OF _ b a(1,2)] f(2) by (simp add: file_holds_def)
    moreover have "fl = [?f]" using n(2) e_ge by (simp add: fl_def)
    ultimately show ?thesis using a(3) b by (simp add: has_visible_def)
  qed
  have sub: "set fl \<subseteq> set files" "length fl \<le> 1" by (auto simp: fl_def)
  have "level_best C u s fl files"
  proof (cases "\<exists>g\<in>set files. has_visible C u s g")
    case False
    then have "find (has_visible C u s) fl = None" using sub(1) by (auto simp: find_None_iff)
    then show ?thesis using False sub(1) by (simp add: level_best_def)
  next
    case True
    then obtain g e where "g \<in> set files" "e \<in> set (C g)" "visible_at u s e" by (blast elim: has_visibleE)
    then obtain i where "i < length files" "e \<in> set (C (files ! i))" "visible_at u s e" by (auto simp: in_set_conv_nth)
    from first [OF this] have "find (has_visible C u s) fl = Some (files ! ?n)" by simp
    moreover have "seq_of e \<le> seq_of (the (newest_in (C (files ! ?n)) u s))" if "g \<in> set files" "e \<in> set (C g)" "visible_at u s e" for g e
      using first that by (metis in_set_conv_nth)
    ultimately show ?thesis using sub(1) by (simp add: level_best_def)
  qed
  then show ?thesis using r sub(2) by blast
qed

section \<open>All levels\<close>

text \<open>A version whose files have the entries \<open>C\<close>, with newer entries above older ones.\<close>

definition version_holds :: "FileStore \<Rightarrow> (nat \<Rightarrow> kvs) \<Rightarrow> nat list list \<Rightarrow> bool" where
  "version_holds fs C files \<longleftrightarrow> levels_ok fs files \<and>
     (\<forall>l<kNumLevels. length (files ! l) < 2 ^ 31 \<and> (\<forall>f\<in>set (files ! l). file_holds fs C f)) \<and>
     inj_on (\<lambda>f. fm_number (fs f)) (set (files ! 0)) \<and>
     (\<forall>f\<in>set (files ! 0). \<forall>g\<in>set (files ! 0). fm_number (fs g) < fm_number (fs f) \<longrightarrow>
        (\<forall>a\<in>set (C f). \<forall>b\<in>set (C g). ukey a = ukey b \<longrightarrow> seq_of b \<le> seq_of a)) \<and>
     (\<forall>i j. i < j \<longrightarrow> j < kNumLevels \<longrightarrow> (\<forall>f\<in>set (files ! i). \<forall>g\<in>set (files ! j).
        \<forall>a\<in>set (C f). \<forall>b\<in>set (C g). ukey a = ukey b \<longrightarrow> seq_of b \<le> seq_of a))"

definition entries_from :: "(nat \<Rightarrow> kvs) \<Rightarrow> nat list list \<Rightarrow> nat \<Rightarrow> (bytes \<times> bytes) set" where
  "entries_from C files k = {e. \<exists>l f. k \<le> l \<and> l < kNumLevels \<and> f \<in> set (files ! l) \<and> e \<in> set (C f)}"

text \<open>What a lookup answers from an entry, and from a set of entries.\<close>

definition entry_answer :: "(bytes \<times> bytes) option \<Rightarrow> bytes \<Rightarrow> status option \<times> bytes" where
  "entry_answer r v =
     (case r of None \<Rightarrow> (None, v)
      | Some e \<Rightarrow> (case type_of e of kTypeValue \<Rightarrow> (Some Status_OK, snd e) | kTypeDeletion \<Rightarrow> (Some (NotFound []), v)))"

definition newest_answer :: "(bytes \<times> bytes) set \<Rightarrow> bytes \<Rightarrow> u64 \<Rightarrow> bytes \<Rightarrow> status option \<times> bytes \<Rightarrow> bool" where
  "newest_answer E u s v r \<longleftrightarrow>
     (if \<exists>e\<in>E. visible_at u s e then \<exists>e\<in>E. visible_at u s e \<and> (\<forall>e'\<in>E. visible_at u s e' \<longrightarrow> seq_of e' \<le> seq_of e) \<and> r = entry_answer (Some e) v
      else r = entry_answer None v)"

text \<open>The file that is charged for a second read, and the file read last.\<close>

definition charged :: "nat list list \<Rightarrow> GetStats \<Rightarrow> bool" where
  "charged files st \<longleftrightarrow> (\<forall>f. seek_file st = Some f \<longrightarrow> (\<exists>l. seek_file_level st = int l \<and> l + 1 < kNumLevels \<and> f \<in> set (files ! l)))"

definition last_below :: "nat list list \<Rightarrow> 'w GetState \<Rightarrow> nat \<Rightarrow> bool" where
  "last_below files g n \<longleftrightarrow> (\<forall>f. gs_last_file_read g = Some f \<longrightarrow>
     (\<exists>l. gs_last_file_read_level g = int l \<and> l < n \<and> f \<in> set (files ! l)))"

lemma last_below_mono: "last_below files g n \<Longrightarrow> n \<le> m \<Longrightarrow> last_below files g m"
  unfolding last_below_def by (meson less_le_trans)

text \<open>\<open>wok w n\<close>: the table cache is sound for \<open>n\<close> more lookups; numbers that it gives out may not be used up.\<close>

locale table_store =
  fixes table_get :: "'w \<Rightarrow> u64 \<Rightarrow> u64 \<Rightarrow> bytes \<Rightarrow> (status \<times> (bytes \<times> bytes) option \<times> 'w) option"
    and wok :: "'w \<Rightarrow> nat \<Rightarrow> bool" and stored :: "u64 \<Rightarrow> u64 \<Rightarrow> kvs \<Rightarrow> bool"
  assumes get_ok: "wok w (Suc m) \<Longrightarrow> stored n sz kvs \<Longrightarrow> 8 \<le> length k \<Longrightarrow>
    \<exists>r w'. table_get w n sz k = Some (fst r, snd r, w') \<and> lookup_answer kvs k r \<and> wok w' m"
    and fewer: "wok w j \<Longrightarrow> m \<le> j \<Longrightarrow> wok w m"
begin

definition stores :: "FileStore \<Rightarrow> (nat \<Rightarrow> kvs) \<Rightarrow> nat list list \<Rightarrow> bool" where
  "stores fs C files \<longleftrightarrow> (\<forall>l<kNumLevels. \<forall>f\<in>set (files ! l). stored (fm_number (fs f)) (fm_file_size (fs f)) (C f))"

lemma search_file_ok:
  assumes f: "file_holds fs C f" "stored (fm_number (fs f)) (fm_file_size (fs f)) (C f)" "f \<in> set (files ! level)"
    and s: "s \<le> kMaxSequenceNumber" and w: "wok (gs_cache g) (Suc m)"
    and st: "charged files (gs_stats g)" "last_below files g n" "n + 1 \<le> kNumLevels"
  shows "\<exists>r g'. search_file table_get Bytewise_Compare fs u (InternalKey u s kTypeValue) (int level) f g = Some (r, g') \<and>
    wok (gs_cache g') m \<and> charged files (gs_stats g') \<and> last_below files g' (Suc level) \<and>
    (r, gs_value g') = entry_answer (newest_in (C f) u s) (gs_value g)"
proof -
  let ?k = "InternalKey u s kTypeValue"
  have "8 \<le> length ?k" by simp
  from get_ok [OF w f(2) this] obtain r w' where r: "table_get (gs_cache g) (fm_number (fs f)) (fm_file_size (fs f)) ?k = Some (fst r, snd r, w')"
    "lookup_answer (C f) ?k r" "wok w' m" by blast
  have srt: "sorted_entries (C f)" using f(1) by (simp add: file_holds_def)
  note a = lookup_newest [OF srt s r(2)]
  define st' where "st' = (case gs_last_file_read g of None \<Rightarrow> gs_stats g
    | Some last_file \<Rightarrow> if seek_file (gs_stats g) = None then \<lparr>seek_file = Some last_file, seek_file_level = gs_last_file_read_level g\<rparr> else gs_stats g)"
  have st': "charged files st'" using st by (auto simp: st'_def charged_def last_below_def split: option.split)
  define v' where "v' = snd (entry_answer (newest_in (C f) u s) (gs_value g))"
  have *: "search_file table_get Bytewise_Compare fs u ?k (int level) f g =
    Some (fst (entry_answer (newest_in (C f) u s) (gs_value g)),
      g\<lparr>gs_stats := st', gs_last_file_read := Some f, gs_last_file_read_level := int level, gs_value := v', gs_cache := w'\<rparr>)"
  proof (cases "newest_in (C f) u s")
    case None
    have "SaveValue Bytewise_Compare sv (fst e) (snd e) = sv" if "snd r = Some e" "sv_user_key sv = u" for sv e
    proof -
      obtain pk where "ParseInternalKey (fst e) = Some pk" "ukey e \<noteq> u" using a None \<open>snd r = Some e\<close> by auto
      then show ?thesis using that(2) Parse_num [of "fst e" pk] by (simp add: SaveValue_def)
    qed
    then show ?thesis using a None r(1)
      by (auto simp: search_file_def Let_def st'_def v'_def entry_answer_def ok_def Status_OK_def split: option.splits)
  next
    case (Some e)
    then have e: "snd r = Some e" "fst r = Status_OK" using a by simp_all
    have "e \<in> set (C f)" "ukey e = u" using newest_in_visible [OF Some] by (simp_all add: visible_at_def)
    then obtain pk where pk: "ParseInternalKey (fst e) = Some pk" using srt by (auto simp: sorted_entries_def well_formed_def)
    then have "user_key pk = u" using Parse_num [OF pk] \<open>ukey e = u\<close> by simp
    then have sv: "SaveValue Bytewise_Compare \<lparr>sv_state = sNotFound, sv_user_key = u, sv_value = x\<rparr> (fst e) (snd e) =
        \<lparr>sv_state = (if vtype pk = kTypeValue then sFound else sDeleted), sv_user_key = u, sv_value = (if vtype pk = kTypeValue then snd e else x)\<rparr>" for x
      using pk by (simp add: SaveValue_def)
    show ?thesis using r(1) unfolding e search_file_def Let_def
      by (cases "vtype pk"; cases "gs_last_file_read g"; cases "seek_file (gs_stats g)")
        (simp_all add: st'_def v'_def entry_answer_def ok_def Status_OK_def type_of_def pk Some sv case_prod_beta)
  qed
  then show ?thesis using r(3) st' f(3) by (simp add: v'_def last_below_def)
qed

lemma search_files_ok:
  assumes "\<forall>f\<in>set fl. file_holds fs C f \<and> stored (fm_number (fs f)) (fm_file_size (fs f)) (C f) \<and> f \<in> set (files ! level)"
    and "s \<le> kMaxSequenceNumber" "wok (gs_cache g) (m + length fl)"
    and "charged files (gs_stats g)" "last_below files g n" "n + 1 \<le> kNumLevels" "n \<le> Suc level" "length fl \<le> 1 \<or> Suc level \<le> n"
  shows "\<exists>r g'. search_files table_get Bytewise_Compare fs u (InternalKey u s kTypeValue) (int level) fl g = Some (r, g') \<and>
    wok (gs_cache g') m \<and> charged files (gs_stats g') \<and> last_below files g' (Suc level) \<and>
    (r, gs_value g') = entry_answer (Option.bind (find (has_visible C u s) fl) (\<lambda>f. newest_in (C f) u s)) (gs_value g)"
  using assms(1,3-)
proof (induction fl arbitrary: g n)
  case Nil
  then show ?case using last_below_mono by (auto simp: entry_answer_def)
next
  case (Cons f fl)
  have "file_holds fs C f" "stored (fm_number (fs f)) (fm_file_size (fs f)) (C f)" "f \<in> set (files ! level)" using Cons.prems(1) by simp_all
  from search_file_ok [OF this assms(2) Cons.prems(2) [simplified] Cons.prems(3-5), of u] obtain r g' where
    *: "search_file table_get Bytewise_Compare fs u (InternalKey u s kTypeValue) (int level) f g = Some (r, g')" "wok (gs_cache g') (m + length fl)"
      "charged files (gs_stats g')" "last_below files g' (Suc level)" "(r, gs_value g') = entry_answer (newest_in (C f) u s) (gs_value g)" by blast
  show ?case
  proof (cases "newest_in (C f) u s")
    case None
    then have r: "r = None" "gs_value g' = gs_value g" using *(5) by (simp_all add: entry_answer_def)
    have rest: "Suc level + 1 \<le> kNumLevels \<or> fl = []" using Cons.prems(5,7) by auto
    show ?thesis
    proof (cases "fl = []")
      case True
      then show ?thesis using * r None by (simp add: entry_answer_def has_visible_def)
    next
      case False
      then have n: "Suc level + 1 \<le> kNumLevels" using rest by simp
      from Cons.IH [OF _ *(2-4) n] Cons.prems(1) show ?thesis using *(1) r None by (simp add: has_visible_def)
    qed
  next
    case (Some e)
    then have "r \<noteq> None" using *(5) by (auto simp: entry_answer_def split: ValueType.splits)
    moreover have "wok (gs_cache g') m" using fewer [OF *(2)] by simp
    ultimately show ?thesis using * Some by (auto simp: has_visible_def)
  qed
qed

lemma search_levels_ok:
  assumes v: "version_holds fs C files" "stores fs C files" and s: "s \<le> kMaxSequenceNumber"
    and "k \<le> kNumLevels" "wok (gs_cache g) (m + sum_list (map (\<lambda>l. length (files ! l)) [k..<kNumLevels]))" "charged files (gs_stats g)" "last_below files g k"
  shows "\<exists>r g'. search_levels table_get Bytewise_Compare fs files u (InternalKey u s kTypeValue) [k..<kNumLevels] g = Some (r, g') \<and>
    wok (gs_cache g') m \<and> charged files (gs_stats g') \<and> newest_answer (entries_from C files k) u s (gs_value g) (r, gs_value g')"
  using assms(4-)
proof (induction "kNumLevels - k" arbitrary: k g)
  case 0
  then have "entries_from C files k = {}" by (auto simp: entries_from_def)
  then show ?case using 0 by (simp add: newest_answer_def entry_answer_def)
next
  case (Suc n)
  then have k: "k < kNumLevels" by simp
  then have up: "[k..<kNumLevels] = k # [Suc k..<kNumLevels]" by (rule upt_conv_Cons)
  let ?ikey = "InternalKey u s kTypeValue" and ?files = "files ! k"
  have holds: "\<forall>f\<in>set ?files. file_holds fs C f" "length ?files < 2 ^ 31" using v(1) k by (auto simp: version_holds_def)
  obtain fl where fl: "files_to_search Bytewise_Compare fs files u ?ikey k = Some fl" "level_best C u s fl ?files" "k \<noteq> 0 \<Longrightarrow> length fl \<le> 1"
    "length fl \<le> length ?files"
  proof (cases "?files = []")
    case True
    show thesis by (rule that [of "[]"]) (use True in \<open>simp_all add: files_to_search_def level_best_def\<close>)
  next
    case ne: False
    show thesis
    proof (cases "k = 0")
      case True
      have "level_best C u s (level0_files Bytewise_Compare fs (files ! 0) u) (files ! 0)"
        using v(1) k True by (intro level0_best) (auto simp: version_holds_def)
      moreover have "length (level0_files Bytewise_Compare fs (files ! 0) u) \<le> length (files ! 0)" by (simp add: level0_files_def)
      ultimately show thesis using ne True by (intro that [of "level0_files Bytewise_Compare fs (files ! 0) u"]) (simp_all add: files_to_search_def)
    next
      case False
      then have "level_sorted fs ?files" using v(1) k by (simp add: version_holds_def levels_ok_def)
      from level_file_best [OF this holds(2,1) s, of u] obtain fl where
        "level_file Bytewise_Compare fs ?files u ?ikey = Some fl" "level_best C u s fl ?files" "length fl \<le> 1" by blast
      moreover have "1 \<le> length ?files" using ne by (cases ?files) auto
      ultimately show thesis using ne False by (intro that [of fl]) (simp_all add: files_to_search_def)
    qed
  qed
  have sub: "set fl \<subseteq> set ?files" using fl(2) by (simp add: level_best_def)
  have fls: "\<forall>f\<in>set fl. file_holds fs C f \<and> stored (fm_number (fs f)) (fm_file_size (fs f)) (C f) \<and> f \<in> set ?files"
    using holds(1) sub v(2) k by (auto simp: stores_def)
  let ?n = "if k = 0 then 1 else k"
  have n: "?n + 1 \<le> kNumLevels" "?n \<le> Suc k" "length fl \<le> 1 \<or> Suc k \<le> ?n" using k fl(3) by (auto simp: kNumLevels_def)
  have lb: "last_below files g ?n" using Suc.prems(4) last_below_mono by fastforce
  let ?m = "m + sum_list (map (\<lambda>l. length (files ! l)) [Suc k..<kNumLevels])"
  have wk: "wok (gs_cache g) (?m + length fl)" by (rule fewer [OF Suc.prems(2)]) (use fl(4) in \<open>simp add: up\<close>)
  from search_files_ok [OF fls s wk Suc.prems(3) lb n, of u] obtain r g' where
    *: "search_files table_get Bytewise_Compare fs u ?ikey (int k) fl g = Some (r, g')" "wok (gs_cache g') ?m" "charged files (gs_stats g')"
      "last_below files g' (Suc k)" "(r, gs_value g') = entry_answer (Option.bind (find (has_visible C u s) fl) (\<lambda>f. newest_in (C f) u s)) (gs_value g)" by blast
  have E: "entries_from C files k = {e. \<exists>f\<in>set ?files. e \<in> set (C f)} \<union> entries_from C files (Suc k)"
  proof -
    have "entries_from C files (Suc k) \<subseteq> entries_from C files k" unfolding entries_from_def by (blast dest: Suc_leD)
    moreover have "{e. \<exists>f\<in>set ?files. e \<in> set (C f)} \<subseteq> entries_from C files k" unfolding entries_from_def using k by blast
    moreover have "e \<in> {e. \<exists>f\<in>set ?files. e \<in> set (C f)} \<union> entries_from C files (Suc k)" if e: "e \<in> entries_from C files k" for e
    proof -
      obtain l f where l: "k \<le> l" "l < kNumLevels" "f \<in> set (files ! l)" "e \<in> set (C f)" using e by (auto simp: entries_from_def)
      show ?thesis
      proof (cases "l = k")
        case False
        then have "Suc k \<le> l" using l(1) by simp
        then show ?thesis using l by (auto simp: entries_from_def)
      qed (use l in blast)
    qed
    ultimately show ?thesis by blast
  qed
  show ?case
  proof (cases "find (has_visible C u s) fl")
    case None
    then have "\<forall>f\<in>set ?files. \<not> has_visible C u s f" using fl(2) by (simp add: level_best_def)
    then have none: "\<not> visible_at u s e" if "f \<in> set ?files" "e \<in> set (C f)" for f e using that newest_in_None by (auto simp: has_visible_def)
    have r: "r = None" "gs_value g' = gs_value g" using *(5) None by (simp_all add: entry_answer_def)
    have "n = kNumLevels - Suc k" "Suc k \<le> kNumLevels" using Suc.hyps(2) k by simp_all
    from Suc.hyps(1) [OF this *(2-4)] obtain r1 g1 where
      1: "search_levels table_get Bytewise_Compare fs files u ?ikey [Suc k..<kNumLevels] g' = Some (r1, g1)" "wok (gs_cache g1) m" "charged files (gs_stats g1)"
        "newest_answer (entries_from C files (Suc k)) u s (gs_value g') (r1, gs_value g1)" by blast
    have "newest_answer (entries_from C files k) u s (gs_value g) (r1, gs_value g1)"
      using 1(4) none unfolding E newest_answer_def r by (auto split: if_splits)
    then show ?thesis using 1 * r fl(1) by (simp add: up)
  next
    case (Some f)
    then have f: "f \<in> set fl" "has_visible C u s f" by (auto simp: find_Some_iff)
    then obtain e where e: "newest_in (C f) u s = Some e" by (auto simp: has_visible_def)
    note ev = newest_in_visible [OF e]
    have "seq_of e' \<le> seq_of e" if e': "e' \<in> entries_from C files k" "visible_at u s e'" for e'
    proof -
      have same: "ukey e = ukey e'" using ev e'(2) by (simp add: visible_at_def)
      obtain l h where l: "k \<le> l" "l < kNumLevels" "h \<in> set (files ! l)" "e' \<in> set (C h)" using e'(1) by (auto simp: entries_from_def)
      show ?thesis
      proof (cases "k = l")
        case True
        then show ?thesis using fl(2) Some e l(3,4) e'(2) by (simp add: level_best_def)
      next
        case False
        then have "k < l" using l(1) by simp
        then show ?thesis using v(1) [unfolded version_holds_def] l(2-4) ev f(1) sub same by blast
      qed
    qed
    moreover have "e \<in> entries_from C files k" unfolding E using ev f(1) sub by blast
    moreover have r: "(r, gs_value g') = entry_answer (Some e) (gs_value g)" using *(5) Some e by simp
    ultimately have "newest_answer (entries_from C files k) u s (gs_value g) (r, gs_value g')"
      unfolding newest_answer_def using ev by auto
    moreover have "r \<noteq> None" using r by (auto simp: entry_answer_def split: ValueType.splits)
    moreover have "wok (gs_cache g') m" using fewer [OF *(2)] by simp
    ultimately show ?thesis using * fl(1) by (auto simp: up)
  qed
qed

lemma Version_Get_ok:
  assumes "version_holds fs C files" "stores fs C files" "s \<le> kMaxSequenceNumber" "wok w (m + length (concat files))"
  shows "\<exists>r st v stats w'. Version_Get table_get Bytewise_Compare fs files (LookupKey_new u s) val w = Some (st, v, stats, w') \<and>
    newest_answer (entries_from C files 0) u s val (r, v) \<and> st = (case r of Some x \<Rightarrow> x | None \<Rightarrow> NotFound []) \<and> charged files stats \<and> wok w' m"
proof -
  let ?g = "\<lparr>gs_last_file_read = None, gs_last_file_read_level = -1, gs_stats = \<lparr>seek_file = None, seek_file_level = -1\<rparr>, gs_value = val, gs_cache = w\<rparr>"
  have "length files = kNumLevels" using assms(1) by (simp add: version_holds_def levels_ok_def)
  then have "map (\<lambda>l. length (files ! l)) [0..<kNumLevels] = map length files" by (intro nth_equalityI) simp_all
  then have "wok (gs_cache ?g) (m + sum_list (map (\<lambda>l. length (files ! l)) [0..<kNumLevels]))" using assms(4) by (simp add: length_concat)
  moreover have "charged files (gs_stats ?g)" "last_below files ?g 0" by (simp_all add: charged_def last_below_def)
  ultimately show ?thesis using search_levels_ok [OF assms(1-3), of 0 ?g m u]
    by (fastforce simp: Version_Get_def Let_def kValueTypeForSeek_def)
qed

end

end
