(* ===== verification/Table_Cache.thy ===== *)
theory Table_Cache
  imports Table_Properties Filename Posix_Env
begin

text \<open>
  \<^verbatim>\<open>db/table_cache.cc\<close>: open tables, kept in a cache of their own under the numbers of their files. Random access files come from
  the part of the environment that is the record \<open>RandomEnv\<close>. A table that the cache drops frees its memory and closes its file;
  that is not followed here: the caches log which values they delete.
\<close>

section \<open>The environment\<close>

record ('e, 'r) RandomEnv =
  reNewRandomAccessFile :: "'e \<Rightarrow> bytes \<Rightarrow> status \<times> 'r option \<times> 'e"
  reDelete :: "'e \<Rightarrow> 'r \<Rightarrow> 'e"

definition Posix_RandomEnv :: "(nat \<Rightarrow> bytes) \<Rightarrow> (Posix_Env.World, RandomFile) RandomEnv" where
  "Posix_RandomEnv strerror = \<lparr>reNewRandomAccessFile = NewRandomAccessFile strerror, reDelete = delete_RandomAccessFile\<rparr>"

text \<open>\<open>eok\<close> says that the environment answers, \<open>files\<close> what the named files hold.\<close>

locale random_env =
  fixes E :: "('e, 'r) RandomEnv" and eok :: "'e \<Rightarrow> bool" and files :: "'e \<Rightarrow> bytes \<rightharpoonup> bytes"
    and contents :: "'r \<Rightarrow> bytes" and steady :: "'r \<Rightarrow> bool"
  assumes opens: "eok e \<Longrightarrow> files e n = Some d \<Longrightarrow> d \<noteq> [] \<Longrightarrow> length d < 2 ^ 64 \<Longrightarrow>
      \<exists>f e'. reNewRandomAccessFile E e n = (Status_OK, Some f, e') \<and> contents f = d \<and> steady f \<and> eok e' \<and> files e' = files e"
    and missing: "eok e \<Longrightarrow> files e n = None \<Longrightarrow>
      \<exists>s e'. reNewRandomAccessFile E e n = (s, None, e') \<and> \<not> ok s \<and> eok e' \<and> files e' = files e"

section \<open>The code\<close>

record TableAndFile =
  tf_file :: nat
  tf_table :: Table

text \<open>The name of the database and the options do not change; open files and the block cache are the world of the tables, an open file
  has an address in it.\<close>

record TableCache =
  tc_dbname :: bytes
  tc_options :: Options

record ('e, 'r, 'c, 'tc) TableCacheState =
  tc_env :: 'e
  tc_world :: "('r, 'c) Table.World"
  tc_limit :: nat
  tc_cache :: 'tc

definition TableCache_new :: "bytes \<Rightarrow> Options \<Rightarrow> int \<Rightarrow> 'e \<Rightarrow> ('r, 'c) Table.World \<Rightarrow> nat \<Rightarrow>
    TableCache \<times> ('e, 'r, 'c, TableAndFile ShardedLRUCache) TableCacheState" where
  "TableCache_new dbname options entries env w limit =
     (\<lparr>tc_dbname = dbname, tc_options = options\<rparr>,
      \<lparr>tc_env = env, tc_world = w, tc_limit = limit, tc_cache = ShardedLRUCache_new (of_int entries)\<rparr>)"

text \<open>The operations of what a table cache is built on.\<close>

record ('e, 'r, 'c, 'h, 'tc, 'th) TableCacheOps =
  to_env :: "('e, 'r) RandomEnv"
  to_file :: "'r RandomAccessFile"
  to_blocks :: "('c, 'h, Block) Cache"
  to_tables :: "('tc, 'th, TableAndFile) Cache"

definition open_table_file :: "('e, 'r) RandomEnv \<Rightarrow> 'e \<Rightarrow> bytes \<Rightarrow> u64 \<Rightarrow> status \<times> 'r option \<times> 'e" where
  "open_table_file E env dbname file_number =
     (let (s, file, env) = reNewRandomAccessFile E env (TableFileName dbname file_number) in
      if ok s then (s, file, env)
      else
        let (s', file, env) = reNewRandomAccessFile E env (SSTTableFileName dbname file_number)
        in (if ok s' then Status_OK else s, file, env))"

definition FindTable ::
  "('e, 'r, 'c, 'h, 'tc, 'th) TableCacheOps \<Rightarrow> TableCache \<Rightarrow> ('e, 'r, 'c, 'tc) TableCacheState \<Rightarrow> u64 \<Rightarrow> u64 \<Rightarrow>
     (status \<times> 'th option \<times> ('e, 'r, 'c, 'tc) TableCacheState) option" where
  "FindTable ops tc st file_number file_size =
     (let key = EncodeFixed64 file_number; (handle, cache) = caLookup (to_tables ops) (tc_cache st) key; st = st\<lparr>tc_cache := cache\<rparr> in
      case handle of
        Some h \<Rightarrow> Some (Status_OK, Some h, st)
      | None \<Rightarrow>
          let (s, file, env) = open_table_file (to_env ops) (tc_env st) (tc_dbname tc) file_number; st = st\<lparr>tc_env := env\<rparr> in
          if \<not> ok s then
            Some (s, None, st\<lparr>tc_env := (case file of None \<Rightarrow> tc_env st | Some f \<Rightarrow> reDelete (to_env ops) (tc_env st) f)\<rparr>)
          else
            let f = tc_limit st; w = (tc_world st)\<lparr>w_file := (w_file (tc_world st))(f := the file)\<rparr>; st = st\<lparr>tc_limit := f + 1\<rparr> in
            Option.bind (Table_Open (to_file ops) (to_blocks ops) w (tc_options tc) f file_size) (\<lambda>(s, table, w).
              let st = st\<lparr>tc_world := w\<rparr> in
              if \<not> ok s then Some (s, None, st\<lparr>tc_env := reDelete (to_env ops) (tc_env st) (w_file w f)\<rparr>)
              else
                map_option (\<lambda>(h, cache). (s, Some h, st\<lparr>tc_cache := cache\<rparr>))
                  (caInsert (to_tables ops) (tc_cache st) key \<lparr>tf_file = f, tf_table = the table\<rparr> 1)))"

definition TableCache_Get ::
  "('e, 'r, 'c, 'h, 'tc, 'th) TableCacheOps \<Rightarrow> TableCache \<Rightarrow> ReadOptions \<Rightarrow> ('e, 'r, 'c, 'tc) TableCacheState \<Rightarrow> u64 \<Rightarrow> u64 \<Rightarrow> bytes \<Rightarrow>
     (status \<times> (bytes \<times> bytes) option \<times> ('e, 'r, 'c, 'tc) TableCacheState) option" where
  "TableCache_Get ops tc options st file_number file_size k =
     Option.bind (FindTable ops tc st file_number file_size) (\<lambda>(s, handle, st).
       if ok s then
         let t = tf_table (caValue (to_tables ops) (tc_cache st) (the handle)) in
         map_option (\<lambda>(s, call, w). (s, call, st\<lparr>tc_world := w, tc_cache := caRelease (to_tables ops) (tc_cache st) (the handle)\<rparr>))
           (InternalGet (to_file ops) (to_blocks ops) (tc_world st) t options k)
       else Some (s, None, st))"

text \<open>An iterator over a table holds the handle of the table and gives it back when it is deleted.\<close>

datatype ('h, 'th) TableIterator = TableError status | TableIterator "(BlockIterator, 'h OwnedIterator) TwoLevelIterator" Table 'th

definition TableCache_NewIterator ::
  "('e, 'r, 'c, 'h, 'tc, 'th) TableCacheOps \<Rightarrow> TableCache \<Rightarrow> ReadOptions \<Rightarrow> ('e, 'r, 'c, 'tc) TableCacheState \<Rightarrow> u64 \<Rightarrow> u64 \<Rightarrow>
     (('h, 'th) TableIterator \<times> ('e, 'r, 'c, 'tc) TableCacheState) option" where
  "TableCache_NewIterator ops tc options st file_number file_size =
     map_option (\<lambda>(s, handle, st).
         if \<not> ok s then (TableError (NewErrorIterator s), st)
         else
           let t = tf_table (caValue (to_tables ops) (tc_cache st) (the handle))
           in (TableIterator (Table_NewIterator (to_file ops) (to_blocks ops) t options) t (the handle), st))
       (FindTable ops tc st file_number file_size)"

definition UnrefEntry :: "('e, 'r, 'c, 'h, 'tc, 'th) TableCacheOps \<Rightarrow> 'th \<Rightarrow> ('e, 'r, 'c, 'tc) TableCacheState \<Rightarrow> ('e, 'r, 'c, 'tc) TableCacheState" where
  "UnrefEntry ops h st = st\<lparr>tc_cache := caRelease (to_tables ops) (tc_cache st) h\<rparr>"

definition delete_TableIterator ::
  "('e, 'r, 'c, 'h, 'tc, 'th) TableCacheOps \<Rightarrow> ReadOptions \<Rightarrow> ('h, 'th) TableIterator \<Rightarrow> ('e, 'r, 'c, 'tc) TableCacheState \<Rightarrow>
     ('e, 'r, 'c, 'tc) TableCacheState" where
  "delete_TableIterator ops options it st =
     (case it of
        TableError s \<Rightarrow> st
      | TableIterator i t h \<Rightarrow>
          UnrefEntry ops h (st\<lparr>tc_world := TwoLevel_delete (Table_fns (to_file ops) (to_blocks ops) t options) i (tc_world st)\<rparr>))"

definition Evict :: "('e, 'r, 'c, 'h, 'tc, 'th) TableCacheOps \<Rightarrow> ('e, 'r, 'c, 'tc) TableCacheState \<Rightarrow> u64 \<Rightarrow> ('e, 'r, 'c, 'tc) TableCacheState" where
  "Evict ops st file_number = st\<lparr>tc_cache := caErase (to_tables ops) (tc_cache st) (EncodeFixed64 file_number)\<rparr>"

section \<open>POSIX files\<close>

text \<open>An environment whose coming calls all succeed.\<close>

definition posix_answers :: "Posix_Env.World \<Rightarrow> bool" where
  "posix_answers w \<longleftrightarrow> (\<forall>e. Errno e \<notin> set (w_answers w))"

lemma world_call_answers:
  assumes "posix_answers w"
  obtains w' where "world_call w = (None, w')" "posix_answers w'" "w_files w' = w_files w"
proof -
  have "set (tl (w_answers w)) \<subseteq> set (w_answers w)" by (cases "w_answers w") auto
  then have "world_call w = (None, w\<lparr>w_answers := tl (w_answers w)\<rparr>)" "posix_answers (w\<lparr>w_answers := tl (w_answers w)\<rparr>)"
    using assms by (auto simp: world_call_def posix_answers_def split: list.splits outcome.splits)
  then show thesis using that by simp
qed

lemma sys_close_answers: "posix_answers w \<Longrightarrow> posix_answers (sys_close w n) \<and> w_files (sys_close w n) = w_files w"
  by (rule world_call_answers [of w]) (auto simp: sys_close_def posix_answers_def)

interpretation posix_random_env: random_env "Posix_RandomEnv se" posix_answers w_files random_contents random_steady for se
proof (unfold_locales, goal_cases)
  case (2 e n)
  obtain w' where w': "world_call e = (None, w')" "posix_answers w'" "w_files w' = w_files e" using world_call_answers [OF 2(1)] .
  then have "world_call_on e n = (Some ENOENT, w')" using 2(2) by (simp add: world_call_on_def)
  then show ?case using w' by (simp add: Posix_RandomEnv_def NewRandomAccessFile_def PosixError_def IOError_def NotFound_def Status_new_def ok_def Let_def)
next
  case (1 e n d)
  obtain w where w: "world_call e = (None, w)" "posix_answers w" "w_files w = w_files e" using world_call_answers [OF 1(1)] .
  then have on: "world_call_on e n = (None, w)" using 1(2) by (simp add: world_call_on_def)
  obtain acquired l where l: "Limiter_Acquire (w_mmap_limiter w) = (acquired, l)" by fastforce
  let ?w = "w\<lparr>w_mmap_limiter := l\<rparr>"
  have wl: "posix_answers ?w" "w_files ?w = w_files e" using w by (simp_all add: posix_answers_def)
  show ?case
  proof (cases acquired)
    case False
    obtain p k where k: "Limiter_Acquire (w_fd_limiter ?w) = (p, k)" by fastforce
    have "posix_answers (?w\<lparr>w_fd_limiter := k\<rparr>)" "w_files (?w\<lparr>w_fd_limiter := k\<rparr>) = w_files e" using wl by (simp_all add: posix_answers_def)
    then show ?thesis using on l False k wl 1(2) sys_close_answers [of "?w\<lparr>w_fd_limiter := k\<rparr>" n]
      by (auto simp: Posix_RandomEnv_def NewRandomAccessFile_def PosixRandomAccessFile_new_def open_fd_def random_contents_def random_steady_def
          posix_answers_def Let_def)
  next
    case True
    obtain w2 where w2: "world_call ?w = (None, w2)" "posix_answers w2" "w_files w2 = w_files e" using world_call_answers [OF wl(1)] wl(2) by metis
    obtain w3 where w3: "world_call w2 = (None, w3)" "posix_answers w3" "w_files w3 = w_files e" using world_call_answers [OF w2(2)] w2(3) by metis
    have sz: "GetFileSize se ?w n = (Status_OK, of_nat (length d), w2)" using w2 wl 1(2) by (simp add: GetFileSize_def world_call_on_def)
    have len: "unat (of_nat (length d) :: u64) = length d" using 1(4) by (simp add: unat_of_nat_lt)
    then have ne: "(of_nat (length d) :: u64) \<noteq> 0" using 1(3) by (auto simp: word_unat_eq_iff)
    show ?thesis using on l True sz w3 ne len 1(2) sys_close_answers [OF w3(2), of n]
      by (auto simp: Posix_RandomEnv_def NewRandomAccessFile_def random_contents_def random_steady_def ok_Status_OK Let_def)
  qed
qed

end
