(* ===== verification/Version_Read.thy ===== *)
theory Version_Read
  imports Version_Lookup Table_Cache
begin

text \<open>
  The table cache on POSIX files interprets \<open>table_store\<close>: whatever was opened or dropped before, a lookup in a table file answers
  from its entries. So a lookup in a version, through the table cache, the block cache and the files, gives the newest
  visible entry.
\<close>

section \<open>Cache ids\<close>

text \<open>Only opening a table takes a new id from the block cache.\<close>

definition same_id :: "('r, 'v ShardedLRUCache) World \<Rightarrow> ('r, 'v ShardedLRUCache) World \<Rightarrow> bool" where
  "same_id w w' \<longleftrightarrow> map_option sc_last_id (w_block_cache w') = map_option sc_last_id (w_block_cache w)"

lemma same_id_refl [simp]: "same_id w w"
  by (simp add: same_id_def)

lemma sc_ids [simp]:
  "sc_last_id (snd (sc_Lookup c k)) = sc_last_id c" "sc_Insert c k v n = Some (h, c') \<Longrightarrow> sc_last_id c' = sc_last_id c"
  "sc_last_id (sc_Release c h) = sc_last_id c"
  by (auto simp: sc_Lookup_def sc_Insert_def sc_Release_def Let_def split: prod.splits)

lemma w_ReadBlock_id: "w_ReadBlock rops w f v h = (s, b, w') \<Longrightarrow> w_block_cache w' = w_block_cache w"
  by (auto simp: w_ReadBlock_def split: prod.splits)

lemma w_Read_id: "w_Read rops w f off n = (s, d, w') \<Longrightarrow> w_block_cache w' = w_block_cache w"
  by (auto simp: w_Read_def split: prod.splits)

lemma ReadFilter_id: "ReadFilter rops w t v = (t', w') \<Longrightarrow> w_block_cache w' = w_block_cache w \<and> tab_cache_id t' = tab_cache_id t"
  by (auto simp: ReadFilter_def Let_def split: prod.splits if_splits dest: w_ReadBlock_id)

lemma ReadMeta_id: "ReadMeta rops w t ft = Some (t', w') \<Longrightarrow> w_block_cache w' = w_block_cache w \<and> tab_cache_id t' = tab_cache_id t"
  by (auto simp: ReadMeta_def Let_def split: prod.splits if_splits option.splits dest!: w_ReadBlock_id ReadFilter_id)

lemma Table_Open_id:
  assumes "Table_Open rops ShardedLRU w opts f sz = Some (s, Some t, w')" "w_block_cache w = Some c"
  shows "tab_cache_id t = sc_last_id c + 1 \<and> (\<exists>c'. w_block_cache w' = Some c' \<and> sc_last_id c' = sc_last_id c + 1)"
  using assms by (auto simp: Table_Open_def Let_def ShardedLRU_def sc_NewId_def split: prod.splits if_splits dest!: w_Read_id w_ReadBlock_id ReadMeta_id)

lemma find_block_id: "find_block rops ShardedLRU w t options h = Some (s, b, ch, w') \<Longrightarrow> same_id w w'"
proof -
  assume a: "find_block rops ShardedLRU w t options h = Some (s, b, ch, w')"
  have block: "w_block_cache w2 = w_block_cache w1" if "block_of rops w1 t options h = (x, y, w2)" for w1 w2 x y
    using that by (auto simp: block_of_def Let_def split: prod.splits dest: w_ReadBlock_id)
  show ?thesis
  proof (cases "w_block_cache w")
    case None
    then show ?thesis using a by (auto simp: find_block_def same_id_def split: prod.splits dest: block)
  next
    case (Some c)
    obtain r c1 where l: "sc_Lookup c (cache_key (tab_cache_id t) (bh_offset h)) = (r, c1)" by fastforce
    then have id1: "sc_last_id c1 = sc_last_id c" using sc_ids(1) [of c] by (metis snd_conv)
    obtain x y w2 where bo: "block_of rops (w\<lparr>w_block_cache := Some c1\<rparr>) t options h = (x, y, w2)" by (cases "block_of rops (w\<lparr>w_block_cache := Some c1\<rparr>) t options h")
    have "w_block_cache w2 = Some c1" using block [OF bo] by simp
    then show ?thesis using a Some l id1 bo
      by (auto simp: find_block_def same_id_def ShardedLRU_def Let_def split: option.splits if_splits dest: sc_ids(2))
  qed
qed

lemma BlockReader_id: "BlockReader rops ShardedLRU t options w v = Some (it, w') \<Longrightarrow> same_id w w'"
  by (auto simp: BlockReader_def Let_def split: prod.splits if_splits dest!: find_block_id)

lemma run_cleanup_id: "same_id w (run_cleanup ShardedLRU w f)"
  by (cases "w_block_cache w") (auto simp: run_cleanup_def same_id_def ShardedLRU_def split: Cleanup.splits)

lemma delete_owned_id: "same_id w (delete_owned ShardedLRU it w)"
proof -
  have "same_id w (foldl (run_cleanup ShardedLRU) w fs)" for fs
  proof (induction fs arbitrary: w)
    case (Cons f fs)
    then show ?case using run_cleanup_id [of w f] by (simp add: same_id_def)
  qed (simp add: same_id_def)
  then show ?thesis by (simp add: delete_owned_def Iterator_destroy_def)
qed

lemma owned_seek_id: "itSeek (owned_ops cmp) (it, w) k = Some (it', w') \<Longrightarrow> w' = w"
  by (auto simp: owned_ops_def Let_def)

lemma InternalGet_id:
  assumes "InternalGet rops ShardedLRU w t options k = Some (s, call, w')"
  shows "same_id w w'"
proof -
  obtain i where i: "itSeek (block_ops (tab_cmp t)) (Block_NewIterator (tab_index_block t)) k = Some i"
    using assms by (auto simp: InternalGet_def Let_def bind_eq_Some_conv)
  have "same_id w w'" if b: "BlockReader rops ShardedLRU t options w v = Some p" "itSeek (owned_ops (tab_cmp t)) p k = Some (it, w2)"
    "w' = delete_owned ShardedLRU it w2" for v p it w2
  proof -
    obtain it0 w1 where p: "p = (it0, w1)" by fastforce
    have "same_id w w1" using BlockReader_id b(1) unfolding p .
    moreover have "w2 = w1" using owned_seek_id b(2) unfolding p by fast
    ultimately     show ?thesis using delete_owned_id [of w2 it] b(3) by (simp add: same_id_def)
  qed
  moreover have "same_id w w" by (simp add: same_id_def)
  ultimately show ?thesis using assms i
    by (auto simp: InternalGet_def Let_def bind_eq_Some_conv split: prod.splits if_splits)
qed

section \<open>The table cache\<close>

definition posix_ops :: "(nat \<Rightarrow> bytes) \<Rightarrow> (Posix_Env.World, RandomFile, Block ShardedLRUCache, nat \<times> nat, TableAndFile ShardedLRUCache, nat \<times> nat) TableCacheOps" where
  "posix_ops se = \<lparr>to_env = Posix_RandomEnv se, to_file = Posix_RandomAccessFile se, to_blocks = ShardedLRU, to_tables = ShardedLRU\<rparr>"

text \<open>\<open>B\<close> are the blocks of the tables by file number, \<open>D\<close> the files by name; an old table may have its old name.\<close>

definition table_file_in :: "(bytes \<rightharpoonup> bytes) \<Rightarrow> bytes \<Rightarrow> u64 \<Rightarrow> bytes option" where
  "table_file_in D dbname n = (case D (TableFileName dbname n) of Some d \<Rightarrow> Some d | None \<Rightarrow> D (SSTTableFileName dbname n))"

definition tables_on_disk :: "TableCache \<Rightarrow> (bytes \<rightharpoonup> bytes) \<Rightarrow> (u64 \<rightharpoonup> kvs list) \<Rightarrow> bool" where
  "tables_on_disk tc D B \<longleftrightarrow>
     (\<exists>bits. (opt_filter_policy (tc_options tc) = None \<or> opt_filter_policy (tc_options tc) = Some (InternalFilterPolicy (NewBloomFilterPolicy bits))) \<and>
       (\<forall>n bs. B n = Some bs \<longrightarrow> internal.good_table (tc_options tc) bs \<and> length (concat bs) * bits < 2 ^ 64 - 7 \<and>
          table_file_in D (tc_dbname tc) n = Some (table_image (tc_options tc) bs)))"

definition cache_holds :: "(nat \<rightharpoonup> bytes) \<Rightarrow> (u64 \<rightharpoonup> (u64 \<rightharpoonup> bytes)) \<Rightarrow> TableCache \<Rightarrow> (u64 \<rightharpoonup> kvs list) \<Rightarrow> bytes \<Rightarrow> TableAndFile \<Rightarrow> bool" where
  "cache_holds S T tc B key v \<longleftrightarrow> (\<forall>n bs. key = EncodeFixed64 n \<longrightarrow> B n = Some bs \<longrightarrow> posix_table.serves S T (tc_options tc) bs (tf_table v))"

type_synonym posix_cache = "(Posix_Env.World, RandomFile, Block ShardedLRUCache, TableAndFile ShardedLRUCache) TableCacheState"

definition tc_rep :: "TableCache \<Rightarrow> (bytes \<rightharpoonup> bytes) \<Rightarrow> (u64 \<rightharpoonup> kvs list) \<Rightarrow> (nat \<rightharpoonup> bytes) \<Rightarrow> (u64 \<rightharpoonup> (u64 \<rightharpoonup> bytes)) \<Rightarrow>
    (nat \<times> nat) multiset \<Rightarrow> posix_cache \<Rightarrow> nat \<Rightarrow> bool" where
  "tc_rep tc D B S T H st m \<longleftrightarrow> posix_table.world_ok S T (tc_world st) {#} \<and> sc_ok (cache_holds S T tc B) (tc_cache st) H \<and>
     (\<forall>f\<ge>tc_limit st. S f = None) \<and>
     (\<exists>c. w_block_cache (tc_world st) = Some c \<and> (\<forall>i. T i \<noteq> None \<longrightarrow> i \<le> sc_last_id c) \<and> unat (sc_last_id c) + m < 2 ^ 64) \<and>
     posix_answers (tc_env st) \<and> w_files (tc_env st) = D"

lemma EncodeFixed64_inj: "EncodeFixed64 n = EncodeFixed64 n' \<Longrightarrow> n = n'"
  by (metis DecodeFixed64_Encode')

lemma serves_mono:
  "posix_table.serves S T opts bs t \<Longrightarrow> (\<And>f d. S f = Some d \<Longrightarrow> S' f = Some d) \<Longrightarrow> (\<And>i d. T i = Some d \<Longrightarrow> T' i = Some d) \<Longrightarrow>
    posix_table.serves S' T' opts bs t"
  by (simp add: posix_table.serves_def)

lemma good_table_image:
  assumes "internal.good_table opts bs"
  shows "table_image opts bs \<noteq> []" "length (table_image opts bs) < 2 ^ 64"
proof -
  show "table_image opts bs \<noteq> []" by (simp add: table_image_def flip: length_0_conv)
  show "length (table_image opts bs) < 2 ^ 64" using assms by (simp add: internal.good_table_def)
qed

lemma open_table_file_ok:
  assumes "posix_answers env" "table_file_in (w_files env) dbname n = Some d" "d \<noteq> []" "length d < 2 ^ 64"
  shows "\<exists>f env'. open_table_file (Posix_RandomEnv se) env dbname n = (Status_OK, Some f, env') \<and> random_contents f = d \<and> random_steady f \<and>
    posix_answers env' \<and> w_files env' = w_files env"
proof (cases "w_files env (TableFileName dbname n)")
  case (Some d')
  then have "d' = d" using assms(2) by (simp add: table_file_in_def)
  with posix_random_env.opens [OF assms(1) Some, of se] assms(3,4) show ?thesis by (auto simp: open_table_file_def ok_Status_OK)
next
  case None
  then have d: "w_files env (SSTTableFileName dbname n) = Some d" using assms(2) by (simp add: table_file_in_def)
  obtain s env1 where 1: "reNewRandomAccessFile (Posix_RandomEnv se) env (TableFileName dbname n) = (s, None, env1)" "\<not> ok s" "posix_answers env1"
    "w_files env1 = w_files env" using posix_random_env.missing [OF assms(1) None, of se] by blast
  from posix_random_env.opens [OF 1(3) _ assms(3,4), of "SSTTableFileName dbname n" se] d 1(4) obtain f env2 where
    "reNewRandomAccessFile (Posix_RandomEnv se) env1 (SSTTableFileName dbname n) = (Status_OK, Some f, env2)" "random_contents f = d" "random_steady f"
    "posix_answers env2" "w_files env2 = w_files env1" by auto
  with 1 show ?thesis by (simp add: open_table_file_def ok_Status_OK)
qed

lemma unat_next: "unat (i :: u64) + 1 < 2 ^ 64 \<Longrightarrow> unat (i + 1) = Suc (unat i)"
  by (simp add: unat_word_ariths)

lemma FindTable_ok:
  assumes disk: "tables_on_disk tc D B" and rep: "tc_rep tc D B S T {#} st (Suc m)" and B: "B n = Some bs"
  shows "\<exists>h st' S' T'. FindTable (posix_ops se) tc st n (of_nat (length (table_image (tc_options tc) bs))) = Some (Status_OK, Some h, st') \<and>
    tc_rep tc D B S' T' {#h#} st' m \<and> posix_table.serves S' T' (tc_options tc) bs (tf_table (sc_Value (tc_cache st') h))"
proof -
  let ?opts = "tc_options tc" and ?key = "EncodeFixed64 n" and ?P = "cache_holds S T tc B" and ?img = "table_image (tc_options tc) bs"
  have g: "internal.good_table ?opts bs" and img: "table_file_in D (tc_dbname tc) n = Some ?img" using disk B by (auto simp: tables_on_disk_def)
  obtain c where c: "w_block_cache (tc_world st) = Some c" "\<And>i. T i \<noteq> None \<Longrightarrow> i \<le> sc_last_id c" "unat (sc_last_id c) + Suc m < 2 ^ 64"
    using rep by (auto simp: tc_rep_def)
  have w: "posix_table.world_ok S T (tc_world st) {#}" and tok: "sc_ok ?P (tc_cache st) {#}" and S: "\<And>f. tc_limit st \<le> f \<Longrightarrow> S f = None"
    and env: "posix_answers (tc_env st)" "w_files (tc_env st) = D" using rep by (simp_all add: tc_rep_def)
  obtain r tcc where l: "sc_Lookup (tc_cache st) ?key = (r, tcc)" by fastforce
  show ?thesis
  proof (cases r)
    case (Some h)
    from sc_Lookup_ok [OF tok l] Some have h: "sc_ok ?P tcc {#h#}" "?P ?key (sc_Value tcc h)" by simp_all
    let ?st = "st\<lparr>tc_cache := tcc\<rparr>"
    have "FindTable (posix_ops se) tc st n (of_nat (length ?img)) = Some (Status_OK, Some h, ?st)"
      using l Some by (simp add: FindTable_def posix_ops_def ShardedLRU_def)
    moreover have "tc_rep tc D B S T {#h#} ?st m" using w h(1) S c env by (auto simp: tc_rep_def)
    moreover have "posix_table.serves S T ?opts bs (tf_table (sc_Value tcc h))" using h(2) B by (simp add: cache_holds_def)
    ultimately show ?thesis by (intro exI [of _ h] exI [of _ ?st] exI [of _ S] exI [of _ T]) simp
  next
    case None
    from sc_Lookup_ok [OF tok l] None have tcc: "sc_ok ?P tcc {#}" by simp
    from open_table_file_ok [OF env(1) _ good_table_image [OF g], of "tc_dbname tc" n se] img env(2) obtain f env' where
      f: "open_table_file (Posix_RandomEnv se) (tc_env st) (tc_dbname tc) n = (Status_OK, Some f, env')" "random_contents f = ?img" "random_steady f"
        "posix_answers env'" "w_files env' = D" by auto
    let ?a = "tc_limit st"
    let ?S = "S(?a \<mapsto> ?img)" and ?w = "(tc_world st)\<lparr>w_file := (w_file (tc_world st))(?a := f)\<rparr>"
    have w': "posix_table.world_ok ?S T ?w {#}" using w f(2,3) by (auto simp: posix_table.world_ok_def)
    have fresh: "T (fst (caNewId ShardedLRU c')) = None" if "w_block_cache ?w = Some c'" for c'
    proof (rule ccontr)
      assume "T (fst (caNewId ShardedLRU c')) \<noteq> None"
      then have "sc_last_id c + 1 \<le> sc_last_id c" using that c(1,2) by (simp add: ShardedLRU_def sc_NewId_def Let_def)
      moreover have "unat (sc_last_id c + 1) = Suc (unat (sc_last_id c))" using c(3) by (intro unat_next) simp
      ultimately show False by (simp add: word_le_nat_alt)
    qed
    have "w_block_cache ?w = None \<Longrightarrow> T 0 = None" using c(1) by simp
    from posix_table.Table_Open_ok [OF w' _ g fresh this, of ?a se] obtain t w2 where
      t: "Table_Open (Posix_RandomAccessFile se) ShardedLRU ?w ?opts ?a (of_nat (length ?img)) = Some (Status_OK, Some t, w2)" "T (tab_cache_id t) = None"
        "posix_table.serves ?S (T(tab_cache_id t \<mapsto> image_blocks (opt_block_restart_interval ?opts) bs)) ?opts bs t"
        "posix_table.world_ok ?S (T(tab_cache_id t \<mapsto> image_blocks (opt_block_restart_interval ?opts) bs)) w2 {#}" by auto
    let ?T = "T(tab_cache_id t \<mapsto> image_blocks (opt_block_restart_interval ?opts) bs)"
    have "w_block_cache ?w = Some c" using c(1) by simp
    from Table_Open_id [OF t(1) this] obtain c2 where c2: "tab_cache_id t = sc_last_id c + 1" "w_block_cache w2 = Some c2" "sc_last_id c2 = sc_last_id c + 1" by blast
    have id: "unat (sc_last_id c + 1) = Suc (unat (sc_last_id c))" using c(3) by (intro unat_next) simp
    have ids: "i \<le> sc_last_id c2" if "?T i \<noteq> None" for i
    proof (cases "i = tab_cache_id t")
      case False
      then have "i \<le> sc_last_id c" using that c(2) by simp
      then show ?thesis using id by (simp add: c2(3) word_le_nat_alt)
    qed (simp add: c2)
    let ?Q = "cache_holds ?S ?T tc B" and ?v = "\<lparr>tf_file = ?a, tf_table = t\<rparr>"
    have mono: "posix_table.serves S T ?opts bs' t' \<Longrightarrow> posix_table.serves ?S ?T ?opts bs' t'" for bs' t'
      by (erule serves_mono) (use S [of ?a] t(2) in auto)
    have q1: "sc_ok ?Q tcc {#}" by (rule sharded_lru.weaken [OF tcc]) (use mono in \<open>auto simp: cache_holds_def\<close>)
    have q2: "?Q ?key ?v" unfolding cache_holds_def
    proof (intro allI impI)
      fix n' bs' assume "?key = EncodeFixed64 n'" "B n' = Some bs'"
      then have "bs' = bs" using EncodeFixed64_inj [of n n'] B by simp
      then show "posix_table.serves ?S ?T ?opts bs' (tf_table ?v)" using t(3) by simp
    qed
    from sc_Insert_ok [OF q1 q2, of 1] obtain h tc2 where
      i: "sc_Insert tcc ?key ?v 1 = Some (h, tc2)" "sc_ok ?Q tc2 {#h#}" "sc_Value tc2 h = ?v" by blast
    let ?st = "\<lparr>tc_env = env', tc_world = w2, tc_limit = ?a + 1, tc_cache = tc2\<rparr>"
    have "FindTable (posix_ops se) tc st n (of_nat (length ?img)) = Some (Status_OK, Some h, ?st)"
      using l None f(1) t(1) i(1) by (simp add: FindTable_def posix_ops_def ShardedLRU_def [symmetric] ok_Status_OK Let_def) (simp add: ShardedLRU_def)
    moreover have "tc_rep tc D B ?S ?T {#h#} ?st m"
      using t(4) i(2) S c2 ids f(4,5) c(3) id by (auto simp: tc_rep_def)
    ultimately show ?thesis using t(3) i(3) by (intro exI [of _ h] exI [of _ ?st] exI [of _ ?S] exI [of _ ?T]) simp
  qed
qed

text \<open>The table cache is ready for \<open>m\<close> lookups, with nothing held.\<close>

definition tc_ready :: "TableCache \<Rightarrow> (bytes \<rightharpoonup> bytes) \<Rightarrow> (u64 \<rightharpoonup> kvs list) \<Rightarrow> posix_cache \<Rightarrow> nat \<Rightarrow> bool" where
  "tc_ready tc D B st m \<longleftrightarrow> tables_on_disk tc D B \<and> (\<exists>S T. tc_rep tc D B S T {#} st m)"

definition table_stored :: "TableCache \<Rightarrow> (u64 \<rightharpoonup> kvs list) \<Rightarrow> u64 \<Rightarrow> u64 \<Rightarrow> kvs \<Rightarrow> bool" where
  "table_stored tc B n sz kvs \<longleftrightarrow> (\<exists>bs. B n = Some bs \<and> kvs = concat bs \<and> sz = of_nat (length (table_image (tc_options tc) bs)))"

lemma TableCache_Get_ok:
  assumes r: "tc_ready tc D B st (Suc m)" and sd: "table_stored tc B n sz kvs" and k: "8 \<le> length k"
  shows "\<exists>r st'. TableCache_Get (posix_ops se) tc options st n sz k = Some (fst r, snd r, st') \<and> lookup_answer kvs k r \<and> tc_ready tc D B st' m"
proof -
  obtain S T where disk: "tables_on_disk tc D B" and rep: "tc_rep tc D B S T {#} st (Suc m)" using r by (auto simp: tc_ready_def)
  obtain bs where bs: "B n = Some bs" "kvs = concat bs" "sz = of_nat (length (table_image (tc_options tc) bs))" using sd by (auto simp: table_stored_def)
  from FindTable_ok [OF disk rep bs(1), of se] obtain h st1 S1 T1 where
    f: "FindTable (posix_ops se) tc st n sz = Some (Status_OK, Some h, st1)" "tc_rep tc D B S1 T1 {#h#} st1 m"
      "posix_table.serves S1 T1 (tc_options tc) bs (tf_table (sc_Value (tc_cache st1) h))" unfolding bs(3) by blast
  have w: "posix_table.world_ok S1 T1 (tc_world st1) {#}" and tok: "sc_ok (cache_holds S1 T1 tc B) (tc_cache st1) {#h#}" using f(2) by (simp_all add: tc_rep_def)
  obtain bits where p: "opt_filter_policy (tc_options tc) = None \<or> opt_filter_policy (tc_options tc) = Some (InternalFilterPolicy (NewBloomFilterPolicy bits))"
    "length (concat bs) * bits < 2 ^ 64 - 7" using disk bs(1) by (auto simp: tables_on_disk_def)
  from InternalGet_answer [OF f(3) w k p, of se options] obtain r w' where
    g: "InternalGet (Posix_RandomAccessFile se) ShardedLRU (tc_world st1) (tf_table (sc_Value (tc_cache st1) h)) options k = Some (fst r, snd r, w')"
      "lookup_answer (concat bs) k r" "posix_table.world_ok S1 T1 w' {#}" by blast
  let ?st = "st1\<lparr>tc_world := w', tc_cache := sc_Release (tc_cache st1) h\<rparr>"
  have get: "TableCache_Get (posix_ops se) tc options st n sz k = Some (fst r, snd r, ?st)"
    using f(1) g(1) by (simp add: TableCache_Get_def posix_ops_def ShardedLRU_def [symmetric] ok_Status_OK Let_def) (simp add: ShardedLRU_def)
  have "sc_ok (cache_holds S1 T1 tc B) (sc_Release (tc_cache st1) h) {#}" by (rule sc_Release_ok [OF tok])
  moreover obtain c' where "w_block_cache w' = Some c'" "Some (sc_last_id c') = map_option sc_last_id (w_block_cache (tc_world st1))"
    using InternalGet_id [OF g(1)] f(2) by (auto simp: same_id_def tc_rep_def)
  ultimately have rep': "tc_rep tc D B S1 T1 {#} ?st m" using f(2) g(3) by (auto simp: tc_rep_def)
  then have "tc_ready tc D B ?st m" using disk unfolding tc_ready_def by blast
  then show ?thesis using get g(2) bs(2) by blast
qed

interpretation posix_tables: table_store "TableCache_Get (posix_ops se) tc options" "tc_ready tc D B" "table_stored tc B" for se tc options D B
proof (unfold_locales, goal_cases)
  case (1 w m n sz kvs k)
  then show ?case by (rule TableCache_Get_ok)
next
  case (2 w j m)
  then show ?case by (fastforce simp: tc_ready_def tc_rep_def)
qed

section \<open>Properties\<close>

text \<open>C2. A lookup of a user key at a snapshot in a version, through the table cache, the block cache and POSIX files: it returns, and
  answers from the newest visible entry of the key among all entries of all files of the version, its value or
  \<^verbatim>\<open>NotFound\<close> for a deletion or when there is none. The file that it charges for a second read is in a level that can be
  compacted, and the caches are ready for the next lookup.\<close>

theorem version_get_newest:
  assumes "version_holds fs C files" and "\<forall>l<kNumLevels. \<forall>f\<in>set (files ! l). table_stored tc B (fm_number (fs f)) (fm_file_size (fs f)) (C f)"
    and "tc_ready tc D B st (m + length (concat files))" "s \<le> kMaxSequenceNumber"
  shows "\<exists>r sr v stats st'. Version_Get (TableCache_Get (posix_ops se) tc options) Bytewise_Compare fs files (LookupKey_new u s) val st = Some (sr, v, stats, st') \<and>
    newest_answer (entries_from C files 0) u s val (r, v) \<and> sr = (case r of Some x \<Rightarrow> x | None \<Rightarrow> NotFound []) \<and> charged files stats \<and> tc_ready tc D B st' m"
  using posix_tables.Version_Get_ok [OF assms(1) _ assms(4,3), of se options u val] assms(2) by (simp add: posix_tables.stores_def)

text \<open>A database directory with one table, in level 1.\<close>

abbreviation sample_image :: bytes where
  "sample_image \<equiv> table_image sample_options [[sample_kv]]"

definition sample_cache_env :: Posix_Env.World where
  "sample_cache_env = \<lparr>w_files = [TableFileName [] 5 \<mapsto> sample_image], w_dirs = {}, w_answers = [], w_locks = {},
     w_fcntl = {}, w_mmap_limiter = 2, w_fd_limiter = 2\<rparr>"

definition sample_read_cache :: posix_cache where
  "sample_read_cache = \<lparr>tc_env = sample_cache_env, tc_world = \<lparr>w_file = (\<lambda>_. Mmap [] []), w_block_cache = Some (ShardedLRUCache_new 100)\<rparr>,
     tc_limit = 0, tc_cache = ShardedLRUCache_new 10\<rparr>"

definition sample_file :: FileMetaData where
  "sample_file = (FileMetaData_new 5)\<lparr>fm_file_size := of_nat (length sample_image), fm_smallest := fst sample_kv, fm_largest := fst sample_kv\<rparr>"

lemma sample_good: "internal.good_table sample_options [[sample_kv]]"
proof -
  have "length (cmp_FindShortSuccessor icmp_comparator (fst sample_kv)) \<le> 9"
    by (simp add: IKC_FindShortSuccessor_def Let_def Bytewise_FindShortSuccessor_def PutFixed64_def)
  then have "length sample_image < 2 ^ 32" using image_length_one [of sample_options "fst sample_kv" "[98]"] by (simp add: Options_new_def)
  then show ?thesis by (simp add: internal.good_table_def sorted_keys_def Options_new_def)
qed

lemma sample_cache_ready: "tc_ready \<lparr>tc_dbname = [], tc_options = sample_options\<rparr> (w_files sample_cache_env) [5 \<mapsto> [[sample_kv]]] sample_read_cache 1"
proof -
  have "tables_on_disk \<lparr>tc_dbname = [], tc_options = sample_options\<rparr> (w_files sample_cache_env) [5 \<mapsto> [[sample_kv]]]"
    using sample_good by (auto simp: tables_on_disk_def table_file_in_def sample_cache_env_def Options_new_def intro!: exI [of _ 0])
  moreover have "tc_rep \<lparr>tc_dbname = [], tc_options = sample_options\<rparr> (w_files sample_cache_env) [5 \<mapsto> [[sample_kv]]] Map.empty Map.empty {#} sample_read_cache 1"
  proof -
    have "sc_last_id (ShardedLRUCache_new 100 :: Block ShardedLRUCache) = 0" by (simp add: ShardedLRUCache_new_def Let_def)
    then show ?thesis by (simp add: tc_rep_def sample_read_cache_def posix_table.world_ok_def sc_ok_new posix_answers_def sample_cache_env_def)
  qed
  ultimately show ?thesis unfolding tc_ready_def by blast
qed

theorem version_get_newest_witness:
  "\<exists>stats st'. Version_Get (TableCache_Get (posix_ops (\<lambda>_. [])) \<lparr>tc_dbname = [], tc_options = sample_options\<rparr> ReadOptions_new) Bytewise_Compare
     (\<lambda>_. sample_file) [[], [0], [], [], [], [], []] (LookupKey_new [97] 9) [] sample_read_cache = Some (Status_OK, [98], stats, st')"
proof -
  let ?files = "[[], [0], [], [], [], [], []] :: nat list list" and ?C = "\<lambda>_. [sample_kv]" and ?tc = "\<lparr>tc_dbname = [], tc_options = sample_options\<rparr>"
  let ?fs = "\<lambda>_::nat. sample_file"
  have at: "?files ! l = (if l = 1 then [0] else [])" if "l < kNumLevels" for l
  proof -
    have "l \<in> {0, 1, 2, 3, 4, 5, 6}" using that by (auto simp: kNumLevels_def)
    then show ?thesis by auto
  qed
  have key: "ParseInternalKey (fst sample_kv) = Some \<lparr>user_key = [97], sequence = 5, vtype = kTypeValue\<rparr>"
    by (simp add: ParseInternalKey_InternalKey kMaxSequenceNumber_def)
  have f: "file_ok sample_file" using key by (simp add: sample_file_def file_ok_def)
  have holds: "file_holds ?fs ?C 0" using key by (simp add: file_holds_def sorted_entries_def well_formed_def sample_file_def)
  have "level_sorted ?fs (?files ! l)" if "l < kNumLevels" for l using f by (simp add: level_sorted_def at [OF that])
  moreover have "length ?files = kNumLevels" "?files ! 0 = []" by (simp_all add: kNumLevels_def)
  ultimately have "levels_ok ?fs ?files" unfolding levels_ok_def by (simp del: nth_Cons_pos)
  then have v: "version_holds ?fs ?C ?files" using holds by (auto simp: version_holds_def at split: if_splits)
  have st: "\<forall>l<kNumLevels. \<forall>f\<in>set (?files ! l). table_stored ?tc [5 \<mapsto> [[sample_kv]]] (fm_number (?fs f)) (fm_file_size (?fs f)) (?C f)"
    by (auto simp: at table_stored_def sample_file_def FileMetaData_new_def)
  have E: "entries_from ?C ?files 0 = {sample_kv}"
  proof -
    have "1 < kNumLevels" by (simp add: kNumLevels_def)
    then have "sample_kv \<in> entries_from ?C ?files 0" unfolding entries_from_def by (intro CollectI exI [of _ 1] exI [of _ 0]) simp
    then show ?thesis by (auto simp: entries_from_def)
  qed
  have vis: "visible_at [97] 9 sample_kv" "type_of sample_kv = kTypeValue" using key by (simp_all add: visible_at_def seq_of_def type_of_def)
  from version_get_newest [OF v st, of "w_files sample_cache_env" sample_read_cache 0 9 "\<lambda>_. []" ReadOptions_new "[97]" "[]"] sample_cache_ready
  obtain r sr v stats st' where
    "Version_Get (TableCache_Get (posix_ops (\<lambda>_. [])) ?tc ReadOptions_new) Bytewise_Compare ?fs ?files (LookupKey_new [97] 9) [] sample_read_cache = Some (sr, v, stats, st')"
    "newest_answer {sample_kv} [97] 9 [] (r, v)" "sr = (case r of Some x \<Rightarrow> x | None \<Rightarrow> NotFound [])" by (auto simp: E kMaxSequenceNumber_def)
  then show ?thesis using vis by (auto simp: newest_answer_def entry_answer_def)
qed

end
