(* ===== verification/Manifest.thy ===== *)
theory Manifest
  imports Version_Set Filename Log_Reader Posix_Env
begin

text \<open>
  \<^verbatim>\<open>db/version_set.cc\<close>, the manifest: \<^verbatim>\<open>LogAndApply\<close> logs an edit and installs the version it leads to, \<^verbatim>\<open>Recover\<close> reads the
  log back. The mutex is released while the log is written; what other threads do to the version set in that time is a
  list of actions. The messages to the info log are left out.
\<close>

section \<open>The environment\<close>

text \<open>\<^verbatim>\<open>Env\<close> with the two calls that only the manifest needs.\<close>

record ('w, 'f, 's) DbEnv =
  de_env :: "('w, 'f, 's) Env"
  de_NewAppendableFile :: "'w \<Rightarrow> bytes \<Rightarrow> status \<times> 'f option \<times> 'w"
  de_GetFileSize :: "'w \<Rightarrow> bytes \<Rightarrow> status \<times> u64 \<times> 'w"

definition Posix_DbEnv :: "(nat \<Rightarrow> bytes) \<Rightarrow> (World, PosixWritable, bytes \<times> Fd) DbEnv" where
  "Posix_DbEnv strerror =
     \<lparr>de_env = PosixEnv strerror, de_NewAppendableFile = NewAppendableFile strerror, de_GetFileSize = GetFileSize strerror\<rparr>"

section \<open>The code\<close>

text \<open>The open manifest: \<^verbatim>\<open>descriptor_log_\<close>, with \<^verbatim>\<open>descriptor_file_\<close> as its destination. Both are null or none is.\<close>

record ('w, 'f) ManifestState =
  ms_set :: VersionSet
  ms_world :: 'w
  ms_log :: "'f Writer option"

subsection \<open>Other threads\<close>

text \<open>Readers refer to the current version and let go of versions, and count their seeks; writers take file and sequence numbers,
  and give back a file number they did not use.\<close>

datatype Meanwhile = RefCurrent | UnrefVersion nat | CountSeek nat GetStats | TakeFileNumber | GiveBackFileNumber u64 | SetSequence u64

fun other_step :: "Meanwhile \<Rightarrow> VersionSet \<Rightarrow> VersionSet" where
  "other_step RefCurrent s = Version_Ref (the (vs_current s)) s"
| "other_step (UnrefVersion v) s = Version_Unref v s"
| "other_step (CountSeek v stats) s = snd (UpdateStats v stats s)"
| "other_step TakeFileNumber s = snd (NewFileNumber s)"
| "other_step (GiveBackFileNumber n) s = ReuseFileNumber n s"
| "other_step (SetSequence n) s = s\<lparr>vs_last_sequence := n\<rparr>"

definition run_others :: "Meanwhile list \<Rightarrow> VersionSet \<Rightarrow> VersionSet" where
  "run_others = fold other_step"

subsection \<open>Logging an edit\<close>

text \<open>What \<^verbatim>\<open>LogAndApply\<close> asserts of an edit that comes with a log number; an edit that violates it stops the program.\<close>

definition log_number_ok :: "VersionSet \<Rightarrow> VersionEdit \<Rightarrow> bool" where
  "log_number_ok s edit \<longleftrightarrow>
     (ve_has_log_number edit \<longrightarrow> vs_log_number s \<le> ve_log_number edit \<and> ve_log_number edit < vs_next_file_number s)"

definition complete_edit :: "VersionSet \<Rightarrow> VersionEdit \<Rightarrow> VersionEdit" where
  "complete_edit s edit =
     (let edit = (if ve_has_log_number edit then edit else SetLogNumber edit (vs_log_number s));
          edit = (if ve_has_prev_log_number edit then edit else SetPrevLogNumber edit (vs_prev_log_number s))
      in SetLastSequence (SetNextFile edit (vs_next_file_number s)) (vs_last_sequence s))"

text \<open>The version that an edit leads to.\<close>

definition build_version :: "(bytes \<Rightarrow> bytes \<Rightarrow> int) \<Rightarrow> (rat \<Rightarrow> rat) \<Rightarrow> VersionEdit \<Rightarrow> VersionSet \<Rightarrow> nat \<times> VersionSet" where
  "build_version icompare round_double edit s =
     (let (v, s) = Version_new s;
          (builder, s) = Builder_new (the (vs_current s)) s;
          (builder, s) = Builder_Apply icompare edit (builder, s);
          s = SaveTo icompare builder v s;
          s = delete_Builder builder s
      in (v, Finalize round_double v s))"

definition snapshot_edit :: "bytes \<Rightarrow> VersionSet \<Rightarrow> VersionEdit" where
  "snapshot_edit comparator_name s =
     (let edit = SetComparatorName VersionEdit_new comparator_name;
          edit = fold (\<lambda>level edit. if vs_compact_pointer s ! level \<noteq> [] then SetCompactPointer edit (int level) (vs_compact_pointer s ! level) else edit)
                   [0..<kNumLevels] edit
      in fold (\<lambda>level edit. fold (\<lambda>f edit. AddFile edit (int level) (fm_number (vs_fs s f)) (fm_file_size (vs_fs s f))
                                              (fm_smallest (vs_fs s f)) (fm_largest (vs_fs s f)))
                   (vs_files s (the (vs_current s)) ! level) edit)
           [0..<kNumLevels] edit)"

definition WriteSnapshot :: "'f WritableFile \<Rightarrow> bytes \<Rightarrow> VersionSet \<Rightarrow> 'f Writer \<Rightarrow> status \<times> 'f Writer" where
  "WriteSnapshot ops comparator_name s dlog = AddRecord ops dlog (VersionEdit_EncodeTo (snapshot_edit comparator_name s) [])"

definition new_manifest :: "('w, 'f, 's) Env \<Rightarrow> bytes \<Rightarrow> bytes \<Rightarrow> VersionSet \<Rightarrow> 'w \<Rightarrow> status \<times> 'f Writer option \<times> 'w" where
  "new_manifest E comparator_name fname s w =
     (let (st, file, w) = eNewWritableFile E w fname in
      if ok st then
        let (st, dlog) = WriteSnapshot (eWritable E) comparator_name s (Writer_new (the file)) in (st, Some dlog, w)
      else (st, None, w))"

definition log_edit :: "'f WritableFile \<Rightarrow> VersionEdit \<Rightarrow> 'f Writer \<Rightarrow> status \<times> 'f Writer" where
  "log_edit ops edit dlog =
     (let (st, dlog) = AddRecord ops dlog (VersionEdit_EncodeTo edit []) in
      if ok st then let (st, file) = wSync ops (lw_dest dlog) in (st, dlog\<lparr>lw_dest := file\<rparr>) else (st, dlog))"

text \<open>Its precondition is \<open>log_number_ok\<close>.\<close>

definition LogAndApply ::
  "('w, 'f, 's) DbEnv \<Rightarrow> Comparator \<Rightarrow> (rat \<Rightarrow> rat) \<Rightarrow> bytes \<Rightarrow> Meanwhile list \<Rightarrow> VersionEdit \<Rightarrow> ('w, 'f) ManifestState \<Rightarrow>
     status \<times> VersionEdit \<times> ('w, 'f) ManifestState" where
  "LogAndApply D ucmp round_double dbname others edit st =
     (let E = de_env D; s = ms_set st; w = ms_world st; number = vs_manifest_file_number s;
          edit = complete_edit s edit;
          (v, s) = build_version (IKC_Compare (cmp_Compare ucmp)) round_double edit s;
          fresh = (ms_log st = None);
          manifest = DescriptorFileName dbname number;
          edit = (if fresh then SetNextFile edit (vs_next_file_number s) else edit);
          (r, dlog, w) = (if fresh then new_manifest E (cmp_Name ucmp) manifest s w else (Status_OK, ms_log st, w));
          (r, dlog) = (if ok r then let (r, dlog) = log_edit (eWritable E) edit (the dlog) in (r, Some dlog) else (r, dlog));
          (r, w) = (if ok r \<and> fresh then SetCurrentFile E w dbname number else (r, w));
          s = run_others others s
      in if ok r then
           let s = AppendVersion v s
           in (r, edit, \<lparr>ms_set = s\<lparr>vs_log_number := ve_log_number edit, vs_prev_log_number := ve_prev_log_number edit\<rparr>, ms_world = w, ms_log = dlog\<rparr>)
         else
           let s = delete_Version v s in
           if fresh then
             let w = (case dlog of None \<Rightarrow> w | Some dlog \<Rightarrow> eDeleteWritable E w (lw_dest dlog))
             in (r, edit, \<lparr>ms_set = s, ms_world = snd (eDeleteFile E w manifest), ms_log = None\<rparr>)
           else (r, edit, \<lparr>ms_set = s, ms_world = w, ms_log = dlog\<rparr>))"

subsection \<open>Recovery\<close>

text \<open>The last value of each field, if there was one.\<close>

record Recovered =
  rc_log_number :: "u64 option"
  rc_prev_log_number :: "u64 option"
  rc_next_file :: "u64 option"
  rc_last_sequence :: "u64 option"

text \<open>\<^verbatim>\<open>LogReporter\<close> keeps the first error.\<close>

definition reported :: "status \<Rightarrow> (nat \<times> status) list \<Rightarrow> status" where
  "reported s reports = fold (\<lambda>(n, reason) s. if ok s then reason else s) reports s"

definition recover_edit :: "Comparator \<Rightarrow> bytes \<Rightarrow> (Builder \<times> VersionSet) \<times> Recovered \<Rightarrow> status \<times> (Builder \<times> VersionSet) \<times> Recovered" where
  "recover_edit ucmp rec st =
     (let (bs, rc) = st;
          (s, edit) = VersionEdit_DecodeFrom VersionEdit_new rec;
          s = (if ok s \<and> ve_has_comparator edit \<and> ve_comparator edit \<noteq> cmp_Name ucmp
               then InvalidArgument (ve_comparator edit @ str '' does not match existing comparator '') (cmp_Name ucmp) else s);
          bs = (if ok s then Builder_Apply (IKC_Compare (cmp_Compare ucmp)) edit bs else bs);
          rc = (if ve_has_log_number edit then rc\<lparr>rc_log_number := Some (ve_log_number edit)\<rparr> else rc);
          rc = (if ve_has_prev_log_number edit then rc\<lparr>rc_prev_log_number := Some (ve_prev_log_number edit)\<rparr> else rc);
          rc = (if ve_has_next_file_number edit then rc\<lparr>rc_next_file := Some (ve_next_file_number edit)\<rparr> else rc);
          rc = (if ve_has_last_sequence edit then rc\<lparr>rc_last_sequence := Some (ve_last_sequence edit)\<rparr> else rc)
      in (s, bs, rc))"

partial_function (option) recover_loop ::
  "'s SequentialFile \<Rightarrow> Comparator \<Rightarrow> bytes \<times> bytes \<Rightarrow> 's Reader \<Rightarrow> status \<Rightarrow> (Builder \<times> VersionSet) \<times> Recovered \<Rightarrow>
     (status \<times> ((Builder \<times> VersionSet) \<times> Recovered) \<times> 's Reader) option" where
  "recover_loop ops ucmp bufs reader s st =
     Option.bind (ReadRecord ops reader (fst bufs) (snd bufs)) (\<lambda>(found, rec, scratch, reader').
       let s = reported s (drop (length (lr_reports reader)) (lr_reports reader')) in
       if found \<and> ok s then let (s, st) = recover_edit ucmp rec st in recover_loop ops ucmp (rec, scratch) reader' s st
       else Some (s, st, reader'))"

definition missing_field :: "Recovered \<Rightarrow> status" where
  "missing_field rc =
     (if rc_next_file rc = None then Corruption ''no meta-nextfile entry in descriptor''
      else if rc_log_number rc = None then Corruption ''no meta-lognumber entry in descriptor''
      else if rc_last_sequence rc = None then Corruption ''no last-sequence-number entry in descriptor''
      else Status_OK)"

definition number_or_0 :: "u64 option \<Rightarrow> u64" where
  "number_or_0 n = (case n of None \<Rightarrow> 0 | Some n \<Rightarrow> n)"

definition ReuseManifest :: "('w, 'f, 's) DbEnv \<Rightarrow> bytes \<Rightarrow> bytes \<Rightarrow> ('w, 'f) ManifestState \<Rightarrow> bool \<times> ('w, 'f) ManifestState" where
  "ReuseManifest D dscname dscbase st =
     (if \<not> opt_reuse_logs (vs_options (ms_set st)) then (False, st)
      else
        case ParseFileName dscbase of
          None \<Rightarrow> (False, st)
        | Some (manifest_number, manifest_type) \<Rightarrow>
            if manifest_type \<noteq> kDescriptorFile then (False, st)
            else
              let (s, manifest_size, w) = de_GetFileSize D (ms_world st) dscname; st = st\<lparr>ms_world := w\<rparr> in
              if \<not> ok s \<or> unat manifest_size \<ge> TargetFileSize (vs_options (ms_set st)) then (False, st)
              else
                let (r, file, w) = de_NewAppendableFile D (ms_world st) dscname; st = st\<lparr>ms_world := w\<rparr> in
                if \<not> ok r then (False, st)
                else (True, st\<lparr>ms_log := Some (Writer_resume (the file) manifest_size),
                               ms_set := (ms_set st)\<lparr>vs_manifest_file_number := manifest_number\<rparr>\<rparr>))"

text \<open>Installing what was read.\<close>

definition install_recovered ::
  "('w, 'f, 's) DbEnv \<Rightarrow> Comparator \<Rightarrow> (rat \<Rightarrow> rat) \<Rightarrow> bytes \<Rightarrow> bytes \<Rightarrow> Builder \<Rightarrow> Recovered \<Rightarrow> bool \<Rightarrow> ('w, 'f) ManifestState \<Rightarrow>
     bool \<times> ('w, 'f) ManifestState" where
  "install_recovered D ucmp round_double dscname current builder rc save_manifest st =
     (let (v, s) = Version_new (ms_set st);
          s = SaveTo (IKC_Compare (cmp_Compare ucmp)) builder v s;
          s = Finalize round_double v s;
          s = AppendVersion v s;
          s = s\<lparr>vs_manifest_file_number := the (rc_next_file rc), vs_next_file_number := the (rc_next_file rc) + 1,
                vs_last_sequence := the (rc_last_sequence rc), vs_log_number := the (rc_log_number rc),
                vs_prev_log_number := number_or_0 (rc_prev_log_number rc)\<rparr>;
          (reused, st) = ReuseManifest D dscname current (st\<lparr>ms_set := s\<rparr>)
      in (if reused then save_manifest else True, st))"

definition Recover ::
  "('w, 'f, 's) DbEnv \<Rightarrow> Comparator \<Rightarrow> (rat \<Rightarrow> rat) \<Rightarrow> bytes \<Rightarrow> bool \<Rightarrow> ('w, 'f) ManifestState \<Rightarrow>
     (status \<times> bool \<times> ('w, 'f) ManifestState) option" where
  "Recover D ucmp round_double dbname save_manifest st =
     (let E = de_env D in
      Option.bind (ReadFileToString E (ms_world st) (CurrentFileName dbname)) (\<lambda>(s, current, w).
      let st = st\<lparr>ms_world := w\<rparr> in
      if \<not> ok s then Some (s, save_manifest, st)
      else if current = [] \<or> last current \<noteq> 10 then Some (Corruption ''CURRENT file does not end with newline'', save_manifest, st)
      else
        let current = butlast current; dscname = dbname @ str ''/'' @ current; (s, file, w) = eNewSequentialFile E (ms_world st) dscname;
            st = st\<lparr>ms_world := w\<rparr> in
        if \<not> ok s then
          Some (if IsNotFound s then Status_new kCorruption (str ''CURRENT points to a non-existent file'') (ToString s) else s, save_manifest, st)
        else
          let bs = Builder_new (the (vs_current (ms_set st))) (ms_set st); rc = \<lparr>rc_log_number = None, rc_prev_log_number = None, rc_next_file = None, rc_last_sequence = None\<rparr> in
          map_option (\<lambda>(s, ((builder, set), rc), reader).
              let st = st\<lparr>ms_set := set, ms_world := eDeleteSequential E (ms_world st) (lr_file reader)\<rparr>;
                  (s, st) = (if ok s then
                       (missing_field rc, st\<lparr>ms_set := MarkFileNumberUsed (number_or_0 (rc_log_number rc)) (MarkFileNumberUsed (number_or_0 (rc_prev_log_number rc)) (ms_set st))\<rparr>)
                     else (s, st));
                  (save_manifest, st) = (if ok s then install_recovered D ucmp round_double dscname current builder rc save_manifest st else (save_manifest, st))
              in (s, save_manifest, st\<lparr>ms_set := delete_Builder builder (ms_set st)\<rparr>))
            (recover_loop (eSequential E) ucmp ([], []) (Reader_new (the file) True True 0) s (bs, rc))))"

end
