(* ===== verification/Version_Refs.thy ===== *)
theory Version_Refs
  imports Version_Builder
begin

text \<open>
  Reference counts of \<^verbatim>\<open>db/version_set.cc\<close>: a file has as many references as live versions list it and builders hold
  it, a version as many as it has holders, and both are freed with their last reference. The lemmas say how each
  operation moves references; theory \<open>Manifest\<close> puts them together.
\<close>

section \<open>Counting\<close>

text \<open>An object with \<open>n\<close> references; without any it is freed.\<close>

definition has_refs :: "('a \<Rightarrow> int) \<Rightarrow> nat \<Rightarrow> 'a option \<Rightarrow> bool" where
  "has_refs refs n x \<longleftrightarrow> (case x of None \<Rightarrow> n = 0 | Some m \<Rightarrow> n \<noteq> 0 \<and> refs m = int n)"

lemma has_refs_simps [simp]: "has_refs refs n None \<longleftrightarrow> n = 0" "has_refs refs n (Some m) \<longleftrightarrow> n \<noteq> 0 \<and> refs m = int n"
  by (simp_all add: has_refs_def)

lemma has_refs_pos: "has_refs refs n x \<Longrightarrow> 0 < n \<Longrightarrow> \<exists>m. x = Some m \<and> refs m = int n"
  by (cases x) auto

text \<open>How often the live versions list a file.\<close>

definition listed :: "VersionSet \<Rightarrow> nat \<Rightarrow> nat" where
  "listed s f = (\<Sum>v\<in>dom (vs_version s). count_list (concat (vs_files s v)) f)"

text \<open>\<open>X\<close> counts the references to files that are held outside of versions.\<close>

definition files_counted :: "VersionSet \<Rightarrow> (nat \<Rightarrow> nat) \<Rightarrow> bool" where
  "files_counted s X \<longleftrightarrow> finite (dom (vs_version s)) \<and> (\<forall>f. has_refs fm_refs (listed s f + X f) (vs_file s f))"

text \<open>\<open>Y\<close> counts the references to versions that are held outside of the version set; the versions in \<open>U\<close> are being built.\<close>

definition version_count :: "VersionSet \<Rightarrow> (nat \<Rightarrow> nat) \<Rightarrow> nat \<Rightarrow> nat" where
  "version_count s Y v = (if vs_current s = Some v then 1 else 0) + Y v"

definition versions_counted :: "VersionSet \<Rightarrow> (nat \<Rightarrow> nat) \<Rightarrow> nat set \<Rightarrow> bool" where
  "versions_counted s Y U \<longleftrightarrow>
     (\<forall>v. v \<notin> U \<longrightarrow> has_refs v_refs (version_count s Y v) (vs_version s v)) \<and>
     (\<forall>v\<in>U. version_count s Y v = 0 \<and> (\<exists>ver. vs_version s v = Some ver \<and> v_refs ver = 0)) \<and> distinct (vs_versions s) \<and> set (vs_versions s) = dom (vs_version s) - U"

definition addresses_fresh :: "VersionSet \<Rightarrow> bool" where
  "addresses_fresh s \<longleftrightarrow> (\<forall>n\<ge>vs_limit s. vs_file s n = None \<and> vs_version s n = None)"

definition counted :: "VersionSet \<Rightarrow> (nat \<Rightarrow> nat) \<Rightarrow> (nat \<Rightarrow> nat) \<Rightarrow> nat set \<Rightarrow> bool" where
  "counted s X Y U \<longleftrightarrow> files_counted s X \<and> versions_counted s Y U \<and> addresses_fresh s"

text \<open>Nothing dangles: the files of a live version are live.\<close>

lemma listed_ge: "finite (dom (vs_version s)) \<Longrightarrow> v \<in> dom (vs_version s) \<Longrightarrow> count_list (concat (vs_files s v)) f \<le> listed s f"
  unfolding listed_def by (rule member_le_sum) auto

lemma files_counted_live:
  assumes "files_counted s X"
  shows "v \<in> dom (vs_version s) \<Longrightarrow> f \<in> set (concat (vs_files s v)) \<Longrightarrow> f \<in> dom (vs_file s)"
    and "0 < X f \<Longrightarrow> f \<in> dom (vs_file s)"
proof -
  have *: "0 < listed s f + X f \<Longrightarrow> f \<in> dom (vs_file s)"
    using assms has_refs_pos [of fm_refs "listed s f + X f" "vs_file s f"] by (auto simp: files_counted_def)
  show "0 < X f \<Longrightarrow> f \<in> dom (vs_file s)" using * by simp
  assume "v \<in> dom (vs_version s)" "f \<in> set (concat (vs_files s v))"
  moreover from this(2) have "0 < count_list (concat (vs_files s v)) f" by (metis count_list_0_iff not_gr_zero)
  moreover have "finite (dom (vs_version s))" using assms by (simp add: files_counted_def)
  ultimately show "f \<in> dom (vs_file s)" using listed_ge [of s v f] * by simp
qed

lemma counted_live: "counted s X Y U \<Longrightarrow> v \<in> dom (vs_version s) \<Longrightarrow> f \<in> set (concat (vs_files s v)) \<Longrightarrow> f \<in> dom (vs_file s)"
  using files_counted_live(1) [of s X v f] by (simp add: counted_def)

lemma counted_holder:
  assumes "counted s X Y U" "0 < version_count s Y v"
  shows "v \<in> dom (vs_version s)" "v \<notin> U" "v \<in> set (vs_versions s)" "v_refs (the (vs_version s v)) = int (version_count s Y v)"
proof -
  have c: "versions_counted s Y U" using assms(1) by (simp add: counted_def)
  show u: "v \<notin> U" using c assms(2) by (auto simp: versions_counted_def)
  then obtain ver where ver: "vs_version s v = Some ver" "v_refs ver = int (version_count s Y v)"
    using c assms(2) has_refs_pos [of v_refs "version_count s Y v" "vs_version s v"] by (auto simp: versions_counted_def)
  then show "v \<in> dom (vs_version s)" "v_refs (the (vs_version s v)) = int (version_count s Y v)" by auto
  then show "v \<in> set (vs_versions s)" using c u by (auto simp: versions_counted_def)
qed

lemma counted_current: "counted s X Y U \<Longrightarrow> vs_current s = Some v \<Longrightarrow> 0 < version_count s Y v"
  by (simp add: version_count_def)

text \<open>Only these fields matter.\<close>

lemma listed_cong: "vs_version s' = vs_version s \<Longrightarrow> listed s' = listed s"
  by (intro ext) (simp add: listed_def)

lemma counted_cong:
  assumes "counted s X Y U" "vs_version s' = vs_version s" "vs_file s' = vs_file s" "vs_current s' = vs_current s"
    "vs_versions s' = vs_versions s" "vs_limit s' = vs_limit s"
  shows "counted s' X Y U"
  using assms by (simp add: counted_def files_counted_def versions_counted_def version_count_def addresses_fresh_def listed_cong [OF assms(2)])

text \<open>Changes to an object that leave its references alone.\<close>

lemma listed_set_version:
  assumes "v \<in> dom (vs_version s)" "v_files ver = vs_files s v"
  shows "listed (set_version v ver s) = listed s"
proof -
  have d: "dom (vs_version (set_version v ver s)) = dom (vs_version s)" using assms(1) by (auto simp: set_version_def)
  show ?thesis using assms(2) by (intro ext) (simp only: listed_def d, intro sum.cong refl, auto simp: set_version_def)
qed

lemma counted_set_version:
  assumes "counted s X Y U" "vs_version s v = Some ver" "v_files ver' = v_files ver" "v_refs ver' = v_refs ver"
  shows "counted (set_version v ver' s) X Y U"
proof -
  let ?s = "set_version v ver' s"
  have l: "listed ?s = listed s" by (rule listed_set_version) (use assms in auto)
  have d: "dom (vs_version ?s) = dom (vs_version s)" using assms(2) by (auto simp: set_version_def)
  have c: "version_count ?s Y = version_count s Y" by (intro ext) (simp add: version_count_def set_version_def)
  have h: "has_refs v_refs n (vs_version ?s w) \<longleftrightarrow> has_refs v_refs n (vs_version s w)" for n w using assms(2,4) by (simp add: set_version_def)
  have "(\<exists>x. vs_version ?s w = Some x \<and> v_refs x = 0) \<longleftrightarrow> (\<exists>x. vs_version s w = Some x \<and> v_refs x = 0)" for w using assms(2,4) by (simp add: set_version_def)
  then have "versions_counted ?s Y U" using assms(1) unfolding counted_def versions_counted_def c h d by (simp add: set_version_def)
  then show ?thesis using assms(1,2) l d by (auto simp: counted_def files_counted_def addresses_fresh_def set_version_def)
qed

lemma counted_set_file:
  assumes "counted s X Y U" "vs_file s f = Some m" "fm_refs m' = fm_refs m"
  shows "counted (set_file f m' s) X Y U"
proof -
  have l: "listed (set_file f m' s) = listed s" by (rule listed_cong) (simp add: set_file_def)
  have "files_counted (set_file f m' s) X" using assms by (auto simp: counted_def files_counted_def l) (auto simp: set_file_def dest: spec [of _ f])
  then show ?thesis using assms by (auto simp: counted_def versions_counted_def version_count_def addresses_fresh_def set_file_def)
qed

section \<open>Files\<close>

lemma unref_file_only [simp]:
  "vs_version (unref_file f s) = vs_version s" "vs_current (unref_file f s) = vs_current s" "vs_versions (unref_file f s) = vs_versions s"
  "vs_limit (unref_file f s) = vs_limit s" "vs_options (unref_file f s) = vs_options s"
  "vs_compact_pointer (unref_file f s) = vs_compact_pointer s" "vs_next_file_number (unref_file f s) = vs_next_file_number s"
  "vs_manifest_file_number (unref_file f s) = vs_manifest_file_number s" "vs_last_sequence (unref_file f s) = vs_last_sequence s"
  "vs_log_number (unref_file f s) = vs_log_number s" "vs_prev_log_number (unref_file f s) = vs_prev_log_number s"
  by (simp_all add: unref_file_def Let_def set_file_def)

lemma unref_files_only [simp]:
  "vs_version (fold unref_file fs s) = vs_version s" "vs_current (fold unref_file fs s) = vs_current s" "vs_versions (fold unref_file fs s) = vs_versions s"
  "vs_limit (fold unref_file fs s) = vs_limit s" "vs_options (fold unref_file fs s) = vs_options s"
  "vs_compact_pointer (fold unref_file fs s) = vs_compact_pointer s" "vs_next_file_number (fold unref_file fs s) = vs_next_file_number s"
  "vs_manifest_file_number (fold unref_file fs s) = vs_manifest_file_number s" "vs_last_sequence (fold unref_file fs s) = vs_last_sequence s"
  "vs_log_number (fold unref_file fs s) = vs_log_number s" "vs_prev_log_number (fold unref_file fs s) = vs_prev_log_number s"
  by (induction fs arbitrary: s) simp_all

text \<open>A dropped reference frees a file or leaves all of it but the count.\<close>

definition keeps_files :: "VersionSet \<Rightarrow> VersionSet \<Rightarrow> bool" where
  "keeps_files s s' \<longleftrightarrow> (\<forall>f\<in>dom (vs_file s'). f \<in> dom (vs_file s) \<and> descr (vs_fs s' f) = descr (vs_fs s f))"

lemma keeps_files_refl [simp]: "keeps_files s s"
  by (simp add: keeps_files_def)

lemma keeps_files_None: "keeps_files s s' \<Longrightarrow> vs_file s f = None \<Longrightarrow> vs_file s' f = None"
  by (cases "vs_file s' f") (auto simp: keeps_files_def)

lemma keeps_files_trans: "keeps_files s s' \<Longrightarrow> keeps_files s' s'' \<Longrightarrow> keeps_files s s''"
  by (simp add: keeps_files_def)

lemma unref_file_counted:
  assumes "files_counted s X" "0 < X f"
  shows "files_counted (unref_file f s) (X(f := X f - 1)) \<and> keeps_files s (unref_file f s)"
proof -
  have l: "listed (unref_file f s) = listed s" by (rule listed_cong) simp
  have c: "has_refs fm_refs (listed s g + X g) (vs_file s g)" for g using assms(1) by (simp add: files_counted_def)
  obtain m where m: "vs_file s f = Some m" "fm_refs m = int (listed s f + X f)" using has_refs_pos [OF c [of f]] assms(2) by auto
  let ?m = "m\<lparr>fm_refs := fm_refs m - 1\<rparr>"
  have u: "vs_file (unref_file f s) = (vs_file s)(f := if listed s f + X f = 1 then None else Some ?m)"
    using m assms(2) by (auto simp: unref_file_def Let_def set_file_def)
  have "files_counted (unref_file f s) (X(f := X f - 1))"
    using assms m c by (auto simp: files_counted_def l u)
  moreover have "keeps_files s (unref_file f s)" by (auto simp: keeps_files_def u m split: if_splits)
  ultimately show ?thesis ..
qed

lemma unref_files_counted:
  assumes "files_counted s X" "\<And>f. count_list fs f \<le> X f"
  shows "files_counted (fold unref_file fs s) (\<lambda>f. X f - count_list fs f) \<and> keeps_files s (fold unref_file fs s)"
  using assms
proof (induction fs arbitrary: s X)
  case (Cons f fs)
  have "0 < X f" using Cons.prems(2) [of f] by simp
  note 1 = unref_file_counted [OF Cons.prems(1) this]
  have "count_list fs g \<le> (X(f := X f - 1)) g" for g using Cons.prems(2) [of g] Cons.prems(2) [of f] by (auto split: if_splits)
  from Cons.IH [OF conjunct1 [OF 1] this]
  have 2: "files_counted (fold unref_file fs (unref_file f s)) (\<lambda>g. (X(f := X f - 1)) g - count_list fs g)"
    "keeps_files (unref_file f s) (fold unref_file fs (unref_file f s))" by simp_all
  have "(\<lambda>g. (X(f := X f - 1)) g - count_list fs g) = (\<lambda>g. X g - count_list (f # fs) g)" by auto
  then show ?case using 2 keeps_files_trans [OF conjunct2 [OF 1]] by simp
qed simp

lemma new_file_counted:
  assumes "counted s X Y U" "new_file m s = (f, s')" "fm_refs m = 1"
  shows "counted s' (X(f := 1)) Y U" "X f = 0" "f = vs_limit s" "vs_file s' = (vs_file s)(f \<mapsto> m)" "vs_version s' = vs_version s"
    "vs_current s' = vs_current s" "vs_limit s' = vs_limit s + 1" "vs_versions s' = vs_versions s"
proof -
  show r: "f = vs_limit s" "vs_file s' = (vs_file s)(f \<mapsto> m)" "vs_version s' = vs_version s" "vs_current s' = vs_current s"
    "vs_limit s' = vs_limit s + 1" "vs_versions s' = vs_versions s"
    using assms(2) by (auto simp: new_file_def Let_def set_file_def)
  have "vs_file s f = None" using assms(1) by (simp add: r counted_def addresses_fresh_def)
  moreover have "has_refs fm_refs (listed s f + X f) (vs_file s f)" using assms(1) by (simp add: counted_def files_counted_def)
  ultimately have z: "listed s f + X f = 0" by simp
  then show "X f = 0" by simp
  have l: "listed s' = listed s" by (rule listed_cong) (rule r(3))
  have "files_counted s' (X(f := 1))" unfolding files_counted_def l
    using assms(1,3) z r by (auto simp: counted_def files_counted_def)
  then show "counted s' (X(f := 1)) Y U" using assms(1) r
    by (auto simp: counted_def versions_counted_def version_count_def addresses_fresh_def)
qed

section \<open>Versions\<close>

lemma Version_new_counted:
  assumes "counted s X Y U" "Version_new s = (v, s')"
  shows "counted s' X Y (insert v U)" "v \<notin> U" "version_count s Y v = 0" "v \<notin> dom (vs_version s)" "vs_version s' = (vs_version s)(v \<mapsto> Version_init)"
    "vs_file s' = vs_file s" "vs_current s' = vs_current s" "vs_limit s' = vs_limit s + 1" "v = vs_limit s"
proof -
  have r: "v = vs_limit s" "vs_version s' = (vs_version s)(v \<mapsto> Version_init)" "vs_file s' = vs_file s" "vs_current s' = vs_current s"
    "vs_limit s' = vs_limit s + 1" "vs_versions s' = vs_versions s"
    using assms(2) by (auto simp: Version_new_def Let_def set_version_def)
  have "vs_version s v = None" using assms(1) by (simp add: r counted_def addresses_fresh_def)
  then have n: "v \<notin> dom (vs_version s)" "v \<notin> U" "version_count s Y v = 0"
    using assms(1) counted_holder(1) [OF assms(1), of v] by (auto simp: counted_def versions_counted_def)
  have "listed s' f = listed s f" for f
  proof -
    have "listed s' f = count_list (concat (vs_files s' v)) f + (\<Sum>w\<in>dom (vs_version s). count_list (concat (vs_files s' w)) f)"
      using assms(1) n(1) by (simp add: listed_def r(2) counted_def files_counted_def)
    moreover have "(\<Sum>w\<in>dom (vs_version s). count_list (concat (vs_files s' w)) f) = listed s f"
      unfolding listed_def using n(1) by (intro sum.cong refl) (auto simp: r(2))
    moreover have "concat (vs_files s' v) = []" by (simp add: r(2) Version_init_def)
    ultimately show ?thesis by simp
  qed
  then have f: "files_counted s' X" using assms(1) r(2,3) by (simp add: counted_def files_counted_def)
  have "versions_counted s' Y (insert v U)" using assms(1) n r
    by (auto simp: counted_def versions_counted_def version_count_def Version_init_def)
  then show "counted s' X Y (insert v U)" using f assms(1) r by (auto simp: counted_def addresses_fresh_def)
  show "v \<notin> U" "version_count s Y v = 0" "v \<notin> dom (vs_version s)" "vs_version s' = (vs_version s)(v \<mapsto> Version_init)"
    "vs_file s' = vs_file s" "vs_current s' = vs_current s" "vs_limit s' = vs_limit s + 1" "v = vs_limit s" using n r by simp_all
qed

lemma Version_Ref_counted:
  assumes "counted s X Y U" "v \<in> dom (vs_version s)" "v \<notin> U"
  shows "counted (Version_Ref v s) X (Y(v := Y v + 1)) U"
proof -
  obtain ver where ver: "vs_version s v = Some ver" using assms(2) by blast
  let ?s = "Version_Ref v s"
  have l: "listed ?s = listed s" unfolding Version_Ref_def Let_def by (rule listed_set_version) (use ver in auto)
  have d: "dom (vs_version ?s) = dom (vs_version s)" using ver by (auto simp: Version_Ref_def set_version_def)
  have "has_refs v_refs (version_count s Y v) (vs_version s v)" using assms(1,3) by (simp add: counted_def versions_counted_def)
  then have r: "v_refs ver = int (version_count s Y v)" by (simp add: ver)
  have "versions_counted ?s (Y(v := Y v + 1)) U" using assms(1,3) r ver d
    by (auto simp: counted_def versions_counted_def version_count_def Version_Ref_def set_version_def Let_def)
  then show ?thesis using assms(1,2) l d by (auto simp: counted_def files_counted_def addresses_fresh_def Version_Ref_def set_version_def Let_def)
qed

text \<open>Freeing a version gives up the references it has to files.\<close>

lemma unref_files_version: "fold unref_file fs (s\<lparr>vs_version := V\<rparr>) = (fold unref_file fs s)\<lparr>vs_version := V\<rparr>"
proof (induction fs arbitrary: s)
  case (Cons f fs)
  have "unref_file f (s\<lparr>vs_version := V\<rparr>) = (unref_file f s)\<lparr>vs_version := V\<rparr>" by (simp add: unref_file_def Let_def set_file_def)
  then show ?case using Cons.IH by simp
qed simp

lemma delete_Version_counted:
  assumes "counted s X Y (insert v U)" "v \<notin> U"
  shows "counted (delete_Version v s) X Y U \<and> keeps_files s (delete_Version v s) \<and> vs_version (delete_Version v s) = (vs_version s)(v := None) \<and>
    vs_current (delete_Version v s) = vs_current s \<and> vs_limit (delete_Version v s) = vs_limit s"
proof -
  let ?fs = "concat (vs_files s v)" and ?s0 = "s\<lparr>vs_version := (vs_version s)(v := None)\<rparr>"
  have v: "v \<in> dom (vs_version s)" "v \<notin> set (vs_versions s)" "version_count s Y v = 0"
    using assms(1) by (auto simp: counted_def versions_counted_def)
  then have e: "delete_Version v s = fold unref_file ?fs ?s0"
    by (simp add: delete_Version_def Let_def unref_files_version remove1_idem)
  have l: "listed s f = listed ?s0 f + count_list ?fs f" for f
  proof -
    have fin: "finite (dom (vs_version s))" using assms(1) by (simp add: counted_def files_counted_def)
    have "listed s f = count_list ?fs f + (\<Sum>w\<in>dom (vs_version s) - {v}. count_list (concat (vs_files s w)) f)"
      unfolding listed_def using v(1) fin by (simp add: sum.remove)
    moreover have "(\<Sum>w\<in>dom (vs_version s) - {v}. count_list (concat (vs_files s w)) f) = listed ?s0 f"
      unfolding listed_def by (intro sum.cong) auto
    ultimately show ?thesis by simp
  qed
  have "files_counted ?s0 (\<lambda>f. X f + count_list ?fs f)"
    using assms(1) l by (simp add: counted_def files_counted_def ac_simps)
  from unref_files_counted [OF this, of ?fs]
  have f: "files_counted (delete_Version v s) X" "keeps_files s (delete_Version v s)" by (simp_all add: e keeps_files_def)
  have ver: "vs_version (delete_Version v s) = (vs_version s)(v := None)" by (simp add: e)
  have "versions_counted (delete_Version v s) Y U"
    using assms v by (auto simp: counted_def versions_counted_def version_count_def e)
  moreover have "addresses_fresh (delete_Version v s)"
    using assms(1) keeps_files_None [OF f(2)] by (auto simp: counted_def addresses_fresh_def ver) (simp_all add: e)
  ultimately show ?thesis using f ver by (simp add: counted_def e)
qed

lemma delete_Version_remove1:
  "distinct (vs_versions s) \<Longrightarrow> delete_Version v (s\<lparr>vs_versions := remove1 v (vs_versions s)\<rparr>) = delete_Version v s"
  by (simp add: delete_Version_def Let_def remove1_idem)

lemma version_refs_zero:
  assumes "counted s X Y U" "version_count s Y' v = 0" "\<And>w. w \<noteq> v \<Longrightarrow> version_count s Y' w = version_count s Y w" "v \<in> dom (vs_version s)" "v \<notin> U"
    and "ver = (the (vs_version s v))\<lparr>v_refs := 0\<rparr>"
  shows "counted (set_version v ver s\<lparr>vs_versions := remove1 v (vs_versions s)\<rparr>) X Y' (insert v U)"
proof -
  let ?s = "set_version v ver s\<lparr>vs_versions := remove1 v (vs_versions s)\<rparr>"
  have l: "listed ?s = listed s" using listed_set_version [OF assms(4), of ver] assms(6)
listed_cong [of ?s "set_version v ver s"] by simp
  have d: "dom (vs_version ?s) = dom (vs_version s)" using assms(4) by (auto simp: set_version_def)
  have c: "version_count ?s Y' = version_count s Y'" by (intro ext) (simp add: version_count_def set_version_def)
  have y: "has_refs v_refs (version_count s Y w) (vs_version s w)" if "w \<notin> U" for w using assms(1) that by (simp add: counted_def versions_counted_def)
  have "\<forall>w. w \<notin> insert v U \<longrightarrow> has_refs v_refs (version_count s Y' w) (vs_version ?s w)"
    using y assms(3) by (simp add: set_version_def)
  moreover have "\<forall>w\<in>insert v U. version_count s Y' w = 0 \<and> (\<exists>x. vs_version ?s w = Some x \<and> v_refs x = 0)"
    using assms by (auto simp: counted_def versions_counted_def set_version_def)
  moreover have "distinct (vs_versions ?s) \<and> set (vs_versions ?s) = dom (vs_version ?s) - insert v U"
    unfolding d using assms(1) by (auto simp: counted_def versions_counted_def set_version_def)
  ultimately have "versions_counted ?s Y' (insert v U)" unfolding versions_counted_def c by blast
  moreover have "files_counted ?s X" using assms(1) unfolding counted_def files_counted_def l d by (simp add: set_version_def)
  moreover have "addresses_fresh ?s" using assms(1,4) by (auto simp: counted_def addresses_fresh_def set_version_def)
  ultimately show ?thesis by (simp add: counted_def)
qed

text \<open>A version goes with its last reference; the other versions stay as they are.\<close>

definition keeps_versions :: "nat set \<Rightarrow> VersionSet \<Rightarrow> VersionSet \<Rightarrow> bool" where
  "keeps_versions V s s' \<longleftrightarrow> (\<forall>v\<in>V. map_option v_files (vs_version s' v) = map_option v_files (vs_version s v))"

lemma drop_reference:
  assumes "counted s X Y U" "0 < version_count s Y v" "version_count s Y' v = version_count s Y v - 1"
    and "\<And>w. w \<noteq> v \<Longrightarrow> version_count s Y' w = version_count s Y w"
  shows "counted (Version_Unref v s) X Y' U \<and> keeps_files s (Version_Unref v s) \<and> vs_current (Version_Unref v s) = vs_current s \<and>
    (\<forall>w. w \<noteq> v \<longrightarrow> vs_version (Version_Unref v s) w = vs_version s w) \<and>
    (0 < version_count s Y' v \<longrightarrow> vs_file (Version_Unref v s) = vs_file s \<and> vs_version (Version_Unref v s) v \<noteq> None \<and>
       vs_files (Version_Unref v s) v = vs_files s v) \<and> vs_limit (Version_Unref v s) = vs_limit s"
proof -
  note v = counted_holder [OF assms(1,2)]
  define ver where "ver = the (vs_version s v)"
  have ver: "vs_version s v = Some ver" "v_refs ver = int (version_count s Y v)" using v by (auto simp: ver_def)
  show ?thesis
  proof (cases "version_count s Y' v = 0")
    case True
    let ?s = "set_version v (ver\<lparr>v_refs := 0\<rparr>) s"
    have "v_refs ver - 1 = 0" using ver(2) assms(2,3) True by simp
    then have e: "Version_Unref v s = delete_Version v ?s" by (simp add: Version_Unref_def Let_def ver(1))
    have ds: "distinct (vs_versions ?s)" using assms(1) by (simp add: counted_def versions_counted_def set_version_def)
    have "counted (?s\<lparr>vs_versions := remove1 v (vs_versions s)\<rparr>) X Y' (insert v U)"
      by (rule version_refs_zero [OF assms(1) True assms(4) v(1,2)]) (simp_all add: ver_def)
    from delete_Version_counted [OF this v(2)] have
      "counted (Version_Unref v s) X Y' U \<and> keeps_files (?s\<lparr>vs_versions := remove1 v (vs_versions s)\<rparr>) (Version_Unref v s) \<and>
        vs_version (Version_Unref v s) = (vs_version ?s)(v := None) \<and> vs_current (Version_Unref v s) = vs_current s \<and> vs_limit (Version_Unref v s) = vs_limit s"
      using delete_Version_remove1 [OF ds, of v] by (simp add: e set_version_def)
    then show ?thesis using True by (simp add: keeps_files_def set_version_def)
  next
    case False
    let ?ver = "ver\<lparr>v_refs := v_refs ver - 1\<rparr>" and ?s = "set_version v (ver\<lparr>v_refs := v_refs ver - 1\<rparr>) s"
    have "v_refs ver - 1 \<noteq> 0" using ver(2) assms(2,3) False by simp
    then have e: "Version_Unref v s = ?s" by (simp add: Version_Unref_def Let_def ver(1))
    have l: "listed ?s = listed s" by (rule listed_set_version) (auto simp: ver(1))
    have d: "dom (vs_version ?s) = dom (vs_version s)" using ver(1) by (auto simp: set_version_def)
    have c: "version_count ?s Y' = version_count s Y'" by (intro ext) (simp add: version_count_def set_version_def)
    have "has_refs v_refs (version_count s Y w) (vs_version s w)" if "w \<notin> U" for w using assms(1) that by (simp add: counted_def versions_counted_def)
    then have "\<forall>w. w \<notin> U \<longrightarrow> has_refs v_refs (version_count s Y' w) (vs_version ?s w)"
      using assms(2-4) False ver(2) by (simp add: set_version_def of_nat_diff)
    moreover have "\<forall>w\<in>U. version_count s Y' w = 0 \<and> (\<exists>x. vs_version ?s w = Some x \<and> v_refs x = 0)"
      using assms(1,4) v(2) by (auto simp: counted_def versions_counted_def set_version_def)
    ultimately have "versions_counted ?s Y' U" unfolding versions_counted_def c d using assms(1)
      by (simp add: counted_def versions_counted_def set_version_def)
    then have "counted ?s X Y' U" using assms(1) ver(1) by (auto simp: counted_def files_counted_def l d addresses_fresh_def) (auto simp: set_version_def)
    then show ?thesis unfolding e using ver(1) by (simp add: set_version_def keeps_files_def)
  qed
qed

lemma Version_Unref_counted:
  assumes "counted s X Y U" "0 < Y v"
  shows "counted (Version_Unref v s) X (Y(v := Y v - 1)) U \<and> keeps_files s (Version_Unref v s) \<and> vs_current (Version_Unref v s) = vs_current s \<and>
    (\<forall>w. w \<noteq> v \<longrightarrow> vs_version (Version_Unref v s) w = vs_version s w) \<and>
    (1 < version_count s Y v \<longrightarrow> vs_file (Version_Unref v s) = vs_file s \<and> vs_version (Version_Unref v s) v \<noteq> None \<and>
       vs_files (Version_Unref v s) v = vs_files s v) \<and> vs_limit (Version_Unref v s) = vs_limit s"
proof -
  have "version_count s (Y(v := Y v - 1)) v = version_count s Y v - 1" using assms(2) by (simp add: version_count_def)
  from drop_reference [OF assms(1) _ this] show ?thesis using assms(2) by (simp add: version_count_def)
qed

text \<open>Installing a version makes it the current one and gives up the old one.\<close>

lemma Unref_current: "Version_Unref c (s\<lparr>vs_current := x\<rparr>) = (Version_Unref c s)\<lparr>vs_current := x\<rparr>"
proof -
  have u: "unref_file f (s\<lparr>vs_current := x\<rparr>) = (unref_file f s)\<lparr>vs_current := x\<rparr>" for f s by (simp add: unref_file_def Let_def set_file_def)
  have us: "fold unref_file fs (s\<lparr>vs_current := x\<rparr>) = (fold unref_file fs s)\<lparr>vs_current := x\<rparr>" for fs s
    by (induction fs arbitrary: s) (simp_all add: u)
  have "s\<lparr>vs_current := x, vs_version := V, vs_versions := W\<rparr> = s\<lparr>vs_version := V, vs_versions := W\<rparr>\<lparr>vs_current := x\<rparr>" for s :: VersionSet and V W by simp
  note com = this
  have "fold unref_file fs (s\<lparr>vs_current := x, vs_version := V, vs_versions := W\<rparr>) =
      (fold unref_file fs (s\<lparr>vs_version := V, vs_versions := W\<rparr>))\<lparr>vs_current := x\<rparr>" for fs s V W by (simp only: com us)
  then show ?thesis by (simp add: Version_Unref_def delete_Version_def Let_def set_version_def)
qed

lemma make_current:
  assumes "counted s X Y (insert v U)" "v \<notin> U" "vs_current s = None"
  shows "counted ((Version_Ref v (s\<lparr>vs_current := Some v\<rparr>))\<lparr>vs_versions := vs_versions s @ [v]\<rparr>) X Y U"
proof -
  let ?s = "(Version_Ref v (s\<lparr>vs_current := Some v\<rparr>))\<lparr>vs_versions := vs_versions s @ [v]\<rparr>"
  obtain ver where ver: "vs_version s v = Some ver" "v_refs ver = 0" "version_count s Y v = 0"
    using assms(1) by (auto simp: counted_def versions_counted_def)
  have lt: "v < vs_limit s" using assms(1) ver(1) by (metis counted_def addresses_fresh_def not_le option.distinct(1))
  have vv: "vs_version ?s = (vs_version s)(v \<mapsto> ver\<lparr>v_refs := 1\<rparr>)" using ver by (simp add: Version_Ref_def Let_def set_version_def)
  have l: "listed ?s = listed s"
    using listed_set_version [of v s "ver\<lparr>v_refs := 1\<rparr>"] ver(1) listed_cong [of ?s "set_version v (ver\<lparr>v_refs := 1\<rparr>) s"]
    by (auto simp: vv set_version_def)
  have d: "dom (vs_version ?s) = dom (vs_version s)" using ver(1) by (auto simp: vv)
  have c: "version_count ?s Y w = (if w = v then 1 else version_count s Y w)" for w
    using assms(3) ver(3) by (simp add: version_count_def Version_Ref_def Let_def set_version_def)
  have "versions_counted ?s Y U" unfolding versions_counted_def d c vv
    using assms by (auto simp: counted_def versions_counted_def Version_Ref_def Let_def set_version_def)
  then show ?thesis using assms(1) lt unfolding counted_def files_counted_def l d addresses_fresh_def vv
    by (auto simp: Version_Ref_def Let_def set_version_def)
qed

lemma AppendVersion_counted:
  assumes "counted s X Y (insert v U)" "v \<notin> U"
  shows "counted (AppendVersion v s) X Y U \<and> keeps_files s (AppendVersion v s) \<and> vs_current (AppendVersion v s) = Some v \<and>
    vs_files (AppendVersion v s) v = vs_files s v \<and> vs_limit (AppendVersion v s) = vs_limit s \<and>
    (\<forall>w. w \<noteq> v \<longrightarrow> Some w \<noteq> vs_current s \<longrightarrow> vs_version (AppendVersion v s) w = vs_version s w)"
proof -
  have v: "version_count s Y v = 0" using assms(1) by (auto simp: counted_def versions_counted_def)
  let ?s1 = "case vs_current s of None \<Rightarrow> s | Some c \<Rightarrow> Version_Unref c s"
  have 1: "counted (?s1\<lparr>vs_current := None\<rparr>) X Y (insert v U) \<and> keeps_files s ?s1 \<and> vs_version ?s1 v = vs_version s v \<and> vs_limit ?s1 = vs_limit s \<and>
      (\<forall>w. Some w \<noteq> vs_current s \<longrightarrow> vs_version ?s1 w = vs_version s w)"
  proof (cases "vs_current s")
    case None
    then have e: "s\<lparr>vs_current := None\<rparr> = s" by simp
    show ?thesis unfolding None option.case e using assms(1) by simp
  next
    case (Some c)
    let ?s = "s\<lparr>vs_current := None\<rparr>" and ?Y = "Y(c := Y c + 1)"
    have eq: "version_count ?s ?Y = version_count s Y" by (intro ext) (auto simp: version_count_def Some)
    have "counted ?s X ?Y (insert v U)" using assms(1)
      unfolding counted_def versions_counted_def eq files_counted_def addresses_fresh_def listed_cong [of ?s s, simplified] by simp
    from Version_Unref_counted [OF this, of c] have "counted (Version_Unref c ?s) X Y (insert v U)" "keeps_files ?s (Version_Unref c ?s)"
      "\<forall>w. w \<noteq> c \<longrightarrow> vs_version (Version_Unref c ?s) w = vs_version s w" "vs_limit (Version_Unref c ?s) = vs_limit s" by simp_all
    moreover have "c \<noteq> v" using v Some by (auto simp: version_count_def)
    ultimately show ?thesis unfolding Unref_current by (simp add: Some keeps_files_def)
  qed
  have e: "AppendVersion v s = (Version_Ref v (?s1\<lparr>vs_current := None, vs_current := Some v\<rparr>))\<lparr>vs_versions := vs_versions (?s1\<lparr>vs_current := None\<rparr>) @ [v]\<rparr>"
    by (simp add: AppendVersion_def Let_def Version_Ref_def set_version_def cong: option.case_cong)
  have "counted (AppendVersion v s) X Y U" unfolding e by (rule make_current [OF conjunct1 [OF 1] assms(2)]) simp
  moreover have "vs_files (AppendVersion v s) v = vs_files s v" "vs_current (AppendVersion v s) = Some v" "vs_file (AppendVersion v s) = vs_file ?s1"
    "vs_limit (AppendVersion v s) = vs_limit ?s1" "w \<noteq> v \<Longrightarrow> vs_version (AppendVersion v s) w = vs_version ?s1 w" for w
    using 1 by (simp_all add: e Version_Ref_def Let_def set_version_def)
  ultimately show ?thesis using 1 by (auto simp: keeps_files_def)
qed

section \<open>The builder\<close>

text \<open>A builder holds a reference to each file it adds. A file whose place in the set is taken stays allocated.\<close>

definition held :: "Builder \<Rightarrow> nat \<Rightarrow> nat" where
  "held b f = count_list (concat (map added_files (b_levels b))) f"

lemma count_list_update:
  "n < length xs \<Longrightarrow> count_list (concat (map g (xs[n := y]))) f + count_list (g (xs ! n)) f = count_list (concat (map g xs)) f + count_list (g y) f"
proof (induction xs arbitrary: n)
  case (Cons x xs)
  then show ?case by (cases n) auto
qed simp

lemma held_update:
  "n < length (b_levels b) \<Longrightarrow> held (b\<lparr>b_levels := (b_levels b)[n := l]\<rparr>) f + count_list (added_files (b_levels b ! n)) f = held b f + count_list (added_files l) f"
  unfolding held_def by (simp add: count_list_update)

lemma set_insert_cases: "set_insert lt x xs = xs \<or> (\<forall>f. count_list (set_insert lt x xs) f = count_list xs f + (if f = x then 1 else 0))"
  by (induction xs) auto

lemma set_insert_count: "x \<notin> set xs \<Longrightarrow> x \<in> set (set_insert lt x xs) \<Longrightarrow> count_list (set_insert lt x xs) f = count_list xs f + (if f = x then 1 else 0)"
  using set_insert_cases [of lt x xs] by auto

lemma held_pos: "0 < held b f \<longleftrightarrow> (\<exists>l\<in>set (b_levels b). f \<in> set (added_files l))"
  by (auto simp: held_def count_list_0_iff simp flip: neq0_conv)

lemma deleted_files_held:
  assumes "length (b_levels b) = kNumLevels"
  shows "held (fold apply_deleted_file ps b) = held b \<and> b_base (fold apply_deleted_file ps b) = b_base b \<and>
    length (b_levels (fold apply_deleted_file ps b)) = kNumLevels"
  using assms
proof (induction ps arbitrary: b)
  case (Cons p ps)
  have "held (apply_deleted_file p b) = held b"
  proof
    fix f
    show "held (apply_deleted_file p b) f = held b f"
    proof (cases "nat (fst p) < length (b_levels b)")
      case True
      from held_update [OF this, of "(b_levels b ! nat (fst p))\<lparr>deleted_files := set_insert (<) (snd p) (deleted_files (b_levels b ! nat (fst p)))\<rparr>" f]
      show ?thesis by (simp add: apply_deleted_file_def Let_def)
    qed (simp add: apply_deleted_file_def Let_def held_def list_update_beyond)
  qed
  then show ?case using Cons by (simp add: apply_deleted_file_def Let_def)
qed simp

lemma apply_new_file_counted:
  assumes "counted s (\<lambda>f. X f + held b f) Y U" "nat (fst p) < length (b_levels b)" "apply_new_file icompare p (b, s) = (b', s')"
  shows "\<exists>L. (\<forall>f. X f \<le> L f) \<and> counted s' (\<lambda>f. L f + held b' f) Y U \<and>
    ((\<forall>g\<in>set (added_files (b_levels b ! nat (fst p))). fm_number (vs_fs s g) \<noteq> fm_number (snd p)) \<and> icompare = icmp \<longrightarrow> L = X)"
    and "b_base b' = b_base b" "length (b_levels b') = length (b_levels b)" "only_allocates s s'"
proof -
  let ?m = "(snd p)\<lparr>fm_refs := 1, fm_allowed_seeks := initial_seeks (fm_file_size (snd p))\<rparr>" and ?n = "nat (fst p)"
  obtain f s1 where n: "new_file ?m s = (f, s1)" by fastforce
  note c = new_file_counted [OF assms(1) n, simplified]
  let ?l = "b_levels b ! ?n" and ?xs = "set_insert (BySmallestKey icompare (vs_fs s1)) f (added_files (b_levels b ! nat (fst p)))"
  have e: "b' = b\<lparr>b_levels := (b_levels b)[?n := ?l\<lparr>deleted_files := remove1 (fm_number (vs_fs s1 f)) (deleted_files ?l), added_files := ?xs\<rparr>]\<rparr>" "s' = s1"
    using assms(3) n by (auto simp: apply_new_file_def Let_def)
  show "b_base b' = b_base b" "length (b_levels b') = length (b_levels b)" by (simp_all add: e)
  show "only_allocates s s'" using n
    by (auto simp: only_allocates_def new_file_def Let_def set_file_def e(2))
  have z: "X f = 0" "held b f = 0" using c(2) by simp_all
  have out: "f \<notin> set (added_files ?l)" using z(2) assms(2) held_pos [of b f] by auto
  have h: "held b' g + count_list (added_files ?l) g = held b g + count_list ?xs g" for g
    using held_update [OF assms(2)] by (simp add: e)
  define L where "L = (if f \<in> set ?xs then X else X(f := 1))"
  have "(\<lambda>g. X g + held b g)(f := 1) = (\<lambda>g. L g + held b' g)"
  proof
    fix g
    show "((\<lambda>g. X g + held b g)(f := 1)) g = L g + held b' g"
    proof (cases "f \<in> set ?xs")
      case True
      from set_insert_count [OF out True] h [of g] z show ?thesis by (simp add: L_def True)
    next
      case False
      then have "count_list ?xs f \<noteq> count_list (added_files ?l) f + (if f = f then 1 else 0)" by (simp add: count_list_0_iff)
      then have "?xs = added_files ?l" using set_insert_cases [of "BySmallestKey icompare (vs_fs s1)" f "added_files ?l"] by blast
      then show ?thesis using h [of g] z False by (simp add: L_def)
    qed
  qed
  then have "counted s' (\<lambda>g. L g + held b' g) Y U" using c(1) by (simp add: e)
  moreover have "\<forall>g. X g \<le> L g" using z by (simp add: L_def)
  moreover have "L = X" if "\<forall>g\<in>set (added_files ?l). fm_number (vs_fs s g) \<noteq> fm_number (snd p)" "icompare = icmp"
  proof -
    have "set ?xs = insert f (set (added_files ?l))"
    proof (rule set_insert_set)
      fix g assume g: "g \<in> set (added_files ?l)"
      then have "g \<noteq> f" using out by blast
      then have "fm_number (vs_fs s1 g) = fm_number (vs_fs s g)" "fm_number (vs_fs s1 f) = fm_number (snd p)" by (simp_all add: c(4))
      then show "BySmallestKey icompare (vs_fs s1) f g \<or> BySmallestKey icompare (vs_fs s1) g f \<or> f = g"
        using that(1) g BySmallestKey_total [of "vs_fs s1" f g] unfolding that(2) by auto
    qed
    then show ?thesis by (simp add: L_def)
  qed
  ultimately show "\<exists>L. (\<forall>f. X f \<le> L f) \<and> counted s' (\<lambda>f. L f + held b' f) Y U \<and>
    ((\<forall>g\<in>set (added_files (b_levels b ! nat (fst p))). fm_number (vs_fs s g) \<noteq> fm_number (snd p)) \<and> icompare = icmp \<longrightarrow> L = X)"
    by (intro exI [of _ L]) simp
qed

text \<open>Files whose numbers are new are never left out of a set.\<close>

fun fresh_adds :: "(nat \<Rightarrow> u64 set) \<Rightarrow> (int \<times> FileMetaData) list \<Rightarrow> bool" where
  "fresh_adds used [] \<longleftrightarrow> True"
| "fresh_adds used (p # ps) \<longleftrightarrow> fm_number (snd p) \<notin> used (nat (fst p)) \<and>
     fresh_adds (used(nat (fst p) := insert (fm_number (snd p)) (used (nat (fst p))))) ps"

lemma fresh_addsI:
  assumes "\<forall>p\<in>set ps. 0 \<le> fst p \<and> fst p < int kNumLevels"
    and "\<forall>l<kNumLevels. distinct (map (\<lambda>p. fm_number (snd p)) (filter (\<lambda>p. fst p = int l) ps)) \<and>
      set (map (\<lambda>p. fm_number (snd p)) (filter (\<lambda>p. fst p = int l) ps)) \<inter> used l = {}"
  shows "fresh_adds used ps"
  using assms
proof (induction ps arbitrary: used)
  case (Cons p ps)
  let ?n = "nat (fst p)"
  have n: "?n < kNumLevels" "int ?n = fst p" using Cons.prems(1) by auto
  have "fresh_adds (used(?n := insert (fm_number (snd p)) (used ?n))) ps"
  proof (rule Cons.IH)
    show "\<forall>p\<in>set ps. 0 \<le> fst p \<and> fst p < int kNumLevels" using Cons.prems(1) by simp
    show "\<forall>l<kNumLevels. distinct (map (\<lambda>p. fm_number (snd p)) (filter (\<lambda>p. fst p = int l) ps)) \<and>
        set (map (\<lambda>p. fm_number (snd p)) (filter (\<lambda>p. fst p = int l) ps)) \<inter> (used(?n := insert (fm_number (snd p)) (used ?n))) l = {}"
    proof (intro allI impI)
      fix l assume l: "l < kNumLevels"
      show "distinct (map (\<lambda>p. fm_number (snd p)) (filter (\<lambda>p. fst p = int l) ps)) \<and>
        set (map (\<lambda>p. fm_number (snd p)) (filter (\<lambda>p. fst p = int l) ps)) \<inter> (used(?n := insert (fm_number (snd p)) (used ?n))) l = {}"
        using Cons.prems(2) [rule_format, OF l] n(2) by (cases "l = ?n") (auto split: if_splits)
    qed
  qed
  moreover have "fm_number (snd p) \<notin> used ?n" using Cons.prems(2) [rule_format, OF n(1)] n(2) by auto
  ultimately show ?case by simp
qed simp

lemma new_files_counted:
  assumes "counted s (\<lambda>f. X f + held b f) Y U" "length (b_levels b) = kNumLevels" "\<forall>p\<in>set ps. 0 \<le> fst p \<and> fst p < int kNumLevels"
    and "fold (apply_new_file icompare) ps (b, s) = (b', s')"
  shows "(\<exists>L. (\<forall>f. X f \<le> L f) \<and> counted s' (\<lambda>f. L f + held b' f) Y U \<and>
      (icompare = icmp \<and> (\<exists>used D. builds s b used D \<and> fresh_adds used ps) \<longrightarrow> L = X)) \<and>
    b_base b' = b_base b \<and> length (b_levels b') = kNumLevels \<and> only_allocates s s'"
  using assms
proof (induction ps arbitrary: b s X)
  case Nil
  then show ?case by (auto simp: only_allocates_refl)
next
  case (Cons p ps)
  let ?n = "nat (fst p)"
  obtain b1 s1 where 1: "apply_new_file icompare p (b, s) = (b1, s1)" by (cases "apply_new_file icompare p (b, s)")
  have n: "?n < length (b_levels b)" "0 \<le> fst p" "fst p < int kNumLevels" using Cons.prems(2,3) by auto
  note step = apply_new_file_counted [OF Cons.prems(1) n(1) 1]
  obtain L1 where L1: "\<forall>f. X f \<le> L1 f" "counted s1 (\<lambda>f. L1 f + held b1 f) Y U"
    "(\<forall>g\<in>set (added_files (b_levels b ! ?n)). fm_number (vs_fs s g) \<noteq> fm_number (snd p)) \<and> icompare = icmp \<Longrightarrow> L1 = X"
    using step(1) by blast
  have len: "length (b_levels b1) = kNumLevels" using step(3) Cons.prems(2) by simp
  have lev: "\<forall>p\<in>set ps. 0 \<le> fst p \<and> fst p < int kNumLevels" and f: "fold (apply_new_file icompare) ps (b1, s1) = (b', s')"
    using Cons.prems(3,4) 1 by simp_all
  note rest = Cons.IH [OF L1(2) len lev f]
  obtain L where L: "\<forall>f. L1 f \<le> L f" "counted s' (\<lambda>f. L f + held b' f) Y U"
    "icompare = icmp \<and> (\<exists>used D. builds s1 b1 used D \<and> fresh_adds used ps) \<Longrightarrow> L = L1"
    using conjunct1 [OF rest] by blast
  have "L = X" if ex: "icompare = icmp" "builds s b used D" "fresh_adds used (p # ps)" for used D
  proof -
    have out: "fm_number (snd p) \<notin> used ?n" using ex(3) by simp
    from new_file_builds [OF ex(2) n(2,3) out] 1 ex(1)
    have "builds s1 b1 (used(?n := insert (fm_number (snd p)) (used ?n))) (D(?n := insert (descr (snd p)) (D ?n)))" by blast
    then have "L = L1" using L(3) ex(1,3) by auto
    moreover have "builds_level s (vs_files s (b_base b) ! ?n) (b_levels b ! ?n) (used ?n) (D ?n)"
      using ex(2) n(1) by (simp add: builds_def)
    then have "(\<lambda>f. fm_number (vs_fs s f)) ` set (vs_files s (b_base b) ! ?n @ added_files (b_levels b ! ?n)) = used ?n"
      by (simp only: builds_level_def)
    then have "(\<lambda>f. fm_number (vs_fs s f)) ` set (added_files (b_levels b ! ?n)) \<subseteq> used ?n" by auto
    then have "\<forall>g\<in>set (added_files (b_levels b ! ?n)). fm_number (vs_fs s g) \<noteq> fm_number (snd p)" using out by (metis image_subset_iff)
    ultimately show ?thesis using L1(3) ex(1) by simp
  qed
  moreover have "\<forall>f. X f \<le> L f" using L1(1) L(1) le_trans by blast
  ultimately have "\<exists>L. (\<forall>f. X f \<le> L f) \<and> counted s' (\<lambda>f. L f + held b' f) Y U \<and>
      (icompare = icmp \<and> (\<exists>used D. builds s b used D \<and> fresh_adds used (p # ps)) \<longrightarrow> L = X)" using L(2) by (intro exI [of _ L]) blast
  then show ?case using rest step(2,4) only_allocates_trans [OF step(4)] by auto
qed

lemma Builder_Apply_counted:
  assumes "counted s (\<lambda>f. X f + held b f) Y U" "length (b_levels b) = kNumLevels" "edit_levels_ok e" "Builder_Apply icompare e (b, s) = (b', s')"
  shows "\<exists>L. (\<forall>f. X f \<le> L f) \<and> counted s' (\<lambda>f. L f + held b' f) Y U \<and>
    (icompare = icmp \<and> (\<exists>used D. builds s b used D \<and> (\<forall>l<kNumLevels. distinct (new_numbers e l) \<and> set (new_numbers e l) \<inter> used l = {})) \<longrightarrow> L = X)"
    and "b_base b' = b_base b" "length (b_levels b') = kNumLevels" "only_allocates s s'"
proof -
  let ?s = "fold apply_compact_pointer (ve_compact_pointers e) s" and ?b = "fold apply_deleted_file (ve_deleted_files e) b"
  have only: "only_allocates s ?s" by (rule compact_pointers_only)
  have "vs_file (fold apply_compact_pointer ps s) = vs_file s \<and> vs_limit (fold apply_compact_pointer ps s) = vs_limit s" for ps s
    by (induction ps arbitrary: s) (simp_all add: apply_compact_pointer_def)
  then have c: "counted ?s (\<lambda>f. X f + held b f) Y U" using counted_cong [OF assms(1)] only_allocates_version [OF only] by simp
  have d: "held ?b = held b" "b_base ?b = b_base b" "length (b_levels ?b) = kNumLevels" using deleted_files_held [OF assms(2)] by simp_all
  have f: "fold (apply_new_file icompare) (ve_new_files e) (?b, ?s) = (b', s')" using assms(4) by (simp add: Builder_Apply_def Let_def)
  have lev: "\<forall>p\<in>set (ve_new_files e). 0 \<le> fst p \<and> fst p < int kNumLevels" "\<forall>p\<in>set (ve_deleted_files e). 0 \<le> fst p \<and> fst p < int kNumLevels"
    using assms(3) by (simp_all add: edit_levels_ok_def)
  note n = new_files_counted [OF c [folded d(1)] d(3) lev(1) f]
  show "b_base b' = b_base b" "length (b_levels b') = kNumLevels" "only_allocates s s'"
    using n d(2) only_allocates_trans [OF only] by simp_all
  have "\<exists>used D. builds ?s ?b used D \<and> fresh_adds used (ve_new_files e)"
    if "builds s b used D" "\<forall>l<kNumLevels. distinct (new_numbers e l) \<and> set (new_numbers e l) \<inter> used l = {}" for used D
    using deleted_files_build [OF builds_mono [OF that(1) only] lev(2)] fresh_addsI [OF lev(1), of used] that(2) unfolding new_numbers_def by blast
  then show "\<exists>L. (\<forall>f. X f \<le> L f) \<and> counted s' (\<lambda>f. L f + held b' f) Y U \<and>
    (icompare = icmp \<and> (\<exists>used D. builds s b used D \<and> (\<forall>l<kNumLevels. distinct (new_numbers e l) \<and> set (new_numbers e l) \<inter> used l = {})) \<longrightarrow> L = X)"
    using conjunct1 [OF n] by blast
qed

lemma Builder_Apply_all_counted:
  assumes "counted s (\<lambda>f. X f + held b f) Y U" "length (b_levels b) = kNumLevels" "\<forall>e\<in>set es. edit_levels_ok e"
    and "fold (Builder_Apply icompare) es (b, s) = (b', s')"
  shows "(\<exists>L. (\<forall>f. X f \<le> L f) \<and> counted s' (\<lambda>f. L f + held b' f) Y U \<and>
      (icompare = icmp \<and> (\<exists>used D. builds s b used D \<and> edits_fresh used es) \<longrightarrow> L = X)) \<and>
    b_base b' = b_base b \<and> length (b_levels b') = kNumLevels \<and> only_allocates s s'"
  using assms
proof (induction es arbitrary: b s X)
  case Nil
  then show ?case by (auto simp: only_allocates_refl)
next
  case (Cons e es)
  obtain b1 s1 where 1: "Builder_Apply icompare e (b, s) = (b1, s1)" by (cases "Builder_Apply icompare e (b, s)")
  have ok: "edit_levels_ok e" and lev: "\<forall>e\<in>set es. edit_levels_ok e" using Cons.prems(3) by simp_all
  note step = Builder_Apply_counted [OF Cons.prems(1,2) ok 1]
  obtain L1 where L1: "\<forall>f. X f \<le> L1 f" "counted s1 (\<lambda>f. L1 f + held b1 f) Y U"
    "icompare = icmp \<and> (\<exists>used D. builds s b used D \<and> (\<forall>l<kNumLevels. distinct (new_numbers e l) \<and> set (new_numbers e l) \<inter> used l = {})) \<Longrightarrow> L1 = X"
    using step(1) by blast
  have f: "fold (Builder_Apply icompare) es (b1, s1) = (b', s')" using Cons.prems(4) 1 by simp
  note rest = Cons.IH [OF L1(2) step(3) lev f]
  obtain L where L: "\<forall>f. L1 f \<le> L f" "counted s' (\<lambda>f. L f + held b' f) Y U"
    "icompare = icmp \<and> (\<exists>used D. builds s1 b1 used D \<and> edits_fresh used es) \<Longrightarrow> L = L1"
    using conjunct1 [OF rest] by blast
  have "L = X" if ex: "icompare = icmp" "builds s b used D" "edits_fresh used (e # es)" for used D
    using L(3) L1(3) Apply_builds [OF ex(2) ok _ 1 [unfolded ex(1)]] ex by auto
  moreover have "\<forall>f. X f \<le> L f" using L1(1) L(1) le_trans by blast
  ultimately have "\<exists>L. (\<forall>f. X f \<le> L f) \<and> counted s' (\<lambda>f. L f + held b' f) Y U \<and>
      (icompare = icmp \<and> (\<exists>used D. builds s b used D \<and> edits_fresh used (e # es)) \<longrightarrow> L = X)" using L(2) by (intro exI [of _ L]) blast
  then show ?case using rest step(2,4) only_allocates_trans [OF step(4)] by auto
qed

lemma Builder_new_counted:
  assumes "counted s X Y U" "base \<in> dom (vs_version s)" "base \<notin> U" "Builder_new base s = (b, s')"
  shows "counted s' (\<lambda>f. X f + held b f) (Y(base := Y base + 1)) U" "b_base b = base" "length (b_levels b) = kNumLevels"
proof -
  have e: "s' = Version_Ref base s" "b = \<lparr>b_base = base, b_levels = replicate kNumLevels \<lparr>deleted_files = [], added_files = []\<rparr>\<rparr>"
    using assms(4) by (simp_all add: Builder_new_def)
  have "held b = (\<lambda>_. 0)" by (intro ext) (simp add: e(2) held_def count_list_0_iff)
  then show "counted s' (\<lambda>f. X f + held b f) (Y(base := Y base + 1)) U" using Version_Ref_counted [OF assms(1-3)] by (simp add: e(1))
  show "b_base b = base" "length (b_levels b) = kNumLevels" by (simp_all add: e(2))
qed

lemma SaveTo_counted:
  assumes "counted s (\<lambda>f. X f + held b f) Y U" "v \<in> U" "vs_version s v = Some ver" "v_files ver = replicate kNumLevels []" "v \<noteq> b_base b"
    and "b_base b \<in> dom (vs_version s)" "length (vs_files s (b_base b)) = kNumLevels" "length (b_levels b) = kNumLevels"
  shows "counted (SaveTo icompare b v s) (\<lambda>f. X f + held b f) Y U \<and> vs_files (SaveTo icompare b v s) v = saved icompare s b \<and>
    (\<forall>f. descr (vs_fs (SaveTo icompare b v s) f) = descr (vs_fs s f)) \<and> vs_current (SaveTo icompare b v s) = vs_current s \<and>
    (\<forall>w. w \<noteq> v \<longrightarrow> vs_version (SaveTo icompare b v s) w = vs_version s w) \<and> vs_limit (SaveTo icompare b v s) = vs_limit s \<and>
    set (concat (saved icompare s b)) \<subseteq> dom (vs_file s) \<and> dom (vs_file (SaveTo icompare b v s)) = dom (vs_file s)"
proof -
  let ?S = "concat (saved icompare s b)" and ?s = "SaveTo icompare b v s"
  from SaveTo_ok [OF assms(3-5), of icompare] obtain F where
    F: "?s = s\<lparr>vs_version := (vs_version s)(v \<mapsto> ver\<lparr>v_files := saved icompare s b\<rparr>), vs_file := F\<rparr>"
      "\<And>f. F f = (if f \<in> set ?S then Some ((vs_fs s f)\<lparr>fm_refs := fm_refs (vs_fs s f) + int (count_list ?S f)\<rparr>) else vs_file s f)" by auto
  have fc: "files_counted s (\<lambda>f. X f + held b f)" and vc: "versions_counted s Y U" and af: "addresses_fresh s" using assms(1) by (simp_all add: counted_def)
  have sub: "set ?S \<subseteq> dom (vs_file s)"
  proof
    fix f assume "f \<in> set ?S"
    then obtain l where l: "l < kNumLevels" "f \<in> set (vs_files s (b_base b) ! l) \<or> f \<in> set (added_files (b_levels b ! l))"
      by (auto simp: saved_def saved_level_def merge_added_set)
    from l(2) show "f \<in> dom (vs_file s)"
    proof
      assume "f \<in> set (vs_files s (b_base b) ! l)"
      then have "f \<in> set (concat (vs_files s (b_base b)))" using l(1) assms(7) nth_mem [of l "vs_files s (b_base b)"] by auto
      then show ?thesis by (rule files_counted_live(1) [OF fc assms(6)])
    next
      assume "f \<in> set (added_files (b_levels b ! l))"
      then have "0 < held b f" using l(1) assms(8) nth_mem unfolding held_pos by metis
      then show ?thesis by (intro files_counted_live(2) [OF fc]) simp
    qed
  qed
  have d: "dom (vs_version ?s) = dom (vs_version s)" using assms(3) by (auto simp: F(1))
  have l: "listed ?s f = listed s f + count_list ?S f" for f
  proof -
    have fin: "finite (dom (vs_version s))" "v \<in> dom (vs_version s)" using fc assms(3) by (auto simp: files_counted_def)
    have "listed ?s f = count_list ?S f + (\<Sum>w\<in>dom (vs_version s) - {v}. count_list (concat (vs_files ?s w)) f)"
      unfolding listed_def d using fin by (simp add: sum.remove F(1))
    moreover have "listed s f = 0 + (\<Sum>w\<in>dom (vs_version s) - {v}. count_list (concat (vs_files s w)) f)"
      unfolding listed_def using fin assms(3,4) by (simp add: sum.remove)
    moreover have "(\<Sum>w\<in>dom (vs_version s) - {v}. count_list (concat (vs_files ?s w)) f) = (\<Sum>w\<in>dom (vs_version s) - {v}. count_list (concat (vs_files s w)) f)"
      by (intro sum.cong refl) (simp add: F(1))
    ultimately show ?thesis by simp
  qed
  have dF: "dom F = dom (vs_file s)"
  proof (rule set_eqI)
    fix f show "f \<in> dom F \<longleftrightarrow> f \<in> dom (vs_file s)" using subsetD [OF sub, of f] by (cases "f \<in> set ?S") (auto simp: F(2) domIff)
  qed
  have "has_refs fm_refs (listed ?s f + (X f + held b f)) (F f)" for f
  proof -
    have h: "has_refs fm_refs (listed s f + (X f + held b f)) (vs_file s f)" using fc by (simp add: files_counted_def)
    show ?thesis using h sub by (cases "f \<in> set ?S") (auto simp: F(2) l)
  qed
  then have "files_counted ?s (\<lambda>f. X f + held b f)" using fc by (simp add: files_counted_def d) (simp add: F(1))
  moreover have "versions_counted ?s Y U" unfolding versions_counted_def d using vc assms(2,3)
    by (auto simp: versions_counted_def version_count_def F(1))
  moreover have "F f = None" if "f \<ge> vs_limit s" for f using af that sub by (auto simp: F(2) addresses_fresh_def)
  then have "addresses_fresh ?s" using af assms(3) by (auto simp: addresses_fresh_def F(1))
  moreover have "descr (vs_fs ?s f) = descr (vs_fs s f)" for f by (simp add: F)
  ultimately show ?thesis using sub dF by (simp add: counted_def F(1))
qed

lemma delete_Builder_counted:
  assumes "counted s (\<lambda>f. X f + held b f) Y U" "0 < Y (b_base b)"
  shows "counted (delete_Builder b s) X (Y(b_base b := Y (b_base b) - 1)) U \<and> keeps_files s (delete_Builder b s) \<and>
    vs_current (delete_Builder b s) = vs_current s \<and> (\<forall>w. w \<noteq> b_base b \<longrightarrow> vs_version (delete_Builder b s) w = vs_version s w) \<and>
    (1 < version_count s Y (b_base b) \<longrightarrow> vs_version (delete_Builder b s) (b_base b) \<noteq> None \<and>
       vs_files (delete_Builder b s) (b_base b) = vs_files s (b_base b)) \<and> vs_limit (delete_Builder b s) = vs_limit s"
proof -
  let ?fs = "concat (map added_files (b_levels b))"
  from unref_files_counted [of s "\<lambda>f. X f + held b f" ?fs] assms(1)
  have u: "files_counted (fold unref_file ?fs s) X" "keeps_files s (fold unref_file ?fs s)" by (simp_all add: counted_def held_def)
  have "versions_counted (fold unref_file ?fs s) Y U" using assms(1) by (simp add: counted_def versions_counted_def version_count_def)
  moreover have "addresses_fresh (fold unref_file ?fs s)"
    using assms(1) keeps_files_None [OF u(2)] by (simp add: counted_def addresses_fresh_def)
  ultimately have "counted (fold unref_file ?fs s) X Y U" using u by (simp add: counted_def)
  from Version_Unref_counted [OF this assms(2)] show ?thesis
    using keeps_files_trans [OF u(2)] by (auto simp: delete_Builder_def version_count_def)
qed

lemma Finalize_counted:
  assumes "counted s X Y U" "v \<in> dom (vs_version s)"
  shows "counted (Finalize round_double v s) X Y U"
  using assms counted_set_version [OF assms(1)] by (fastforce simp: Finalize_def Let_def split: prod.splits)

end
