(* ===== verification/Manifest_Log.thy ===== *)
theory Manifest_Log
  imports Manifest Version_Refs
begin

text \<open>
  The version that an edit leads to is installed with its files, whatever other threads do to the version set in the
  meantime; references stay exact.
\<close>

section \<open>One version, in two states\<close>

definition same_version :: "VersionSet \<Rightarrow> VersionSet \<Rightarrow> nat \<Rightarrow> bool" where
  "same_version s s' v \<longleftrightarrow> vs_files s' v = vs_files s v \<and>
     (\<forall>f\<in>set (concat (vs_files s v)). descr (vs_fs s' f) = descr (vs_fs s f)) \<and> vs_limit s \<le> vs_limit s'"

definition version_levels :: "VersionSet \<Rightarrow> nat \<Rightarrow> nat \<Rightarrow> descriptor set" where
  "version_levels s v l = level_set (vs_fs s) (vs_files s v ! l)"

lemma same_version_refl [simp]: "same_version s s v"
  by (simp add: same_version_def)

lemma same_version_trans: "same_version s s' v \<Longrightarrow> same_version s' s'' v \<Longrightarrow> same_version s s'' v"
  by (simp add: same_version_def)

lemma same_version_levels:
  assumes "same_version s s' v" "version_sorted s v"
  shows "version_sorted s' v" "l < kNumLevels \<Longrightarrow> version_levels s' v l = version_levels s v l"
proof -
  have d: "descr (vs_fs s' f) = descr (vs_fs s f)" if "f \<in> set (vs_files s v ! l)" "l < kNumLevels" for f l
    using assms that nth_mem [of l "vs_files s v"] by (auto simp: same_version_def version_sorted_def)
  have num: "fm_number (vs_fs s' f) = fm_number (vs_fs s f)" if "f \<in> set (vs_files s v ! l)" "l < kNumLevels" for f l
    using d [OF that] by (simp add: descr_eq)
  show "version_sorted s' v" unfolding version_sorted_def
  proof (intro conjI allI impI)
    show "length (vs_files s' v) = kNumLevels" using assms by (simp add: same_version_def version_sorted_def)
    fix l assume l: "l < kNumLevels"
    have f: "vs_files s' v ! l = vs_files s v ! l" using assms(1) by (simp add: same_version_def)
    have srt: "sorted_wrt (BySmallestKey icmp (vs_fs s)) (vs_files s v ! l)" "inj_on (\<lambda>f. fm_number (vs_fs s f)) (set (vs_files s v ! l))"
      "\<forall>f\<in>set (vs_files s v ! l). f < vs_limit s" using assms(2) l by (simp_all add: version_sorted_def)
    show "sorted_wrt (BySmallestKey icmp (vs_fs s')) (vs_files s' v ! l)" unfolding f
    proof (rule sorted_wrt_mono_rel [OF _ srt(1)])
      fix x y assume "x \<in> set (vs_files s v ! l)" "y \<in> set (vs_files s v ! l)" "BySmallestKey icmp (vs_fs s) x y"
      then show "BySmallestKey icmp (vs_fs s') x y" using d [OF _ l, of x] d [OF _ l, of y] by (simp add: BySmallestKey_iff descr_eq)
    qed
    show "inj_on (\<lambda>f. fm_number (vs_fs s' f)) (set (vs_files s' v ! l))" unfolding f
      using srt(2) num [OF _ l] by (simp add: inj_on_def)
    show "\<forall>f\<in>set (vs_files s' v ! l). f < vs_limit s'" unfolding f using srt(3) assms(1) by (auto simp: same_version_def)
  qed
  show "version_levels s' v l = version_levels s v l" if l: "l < kNumLevels"
    using d [OF _ l] assms(1) by (simp add: version_levels_def level_set_def same_version_def cong: image_cong_simp)
qed

text \<open>Dropping references keeps the versions that are still there.\<close>

lemma keeps_same_version:
  assumes "counted s' X Y U" "keeps_files s s'" "v \<in> dom (vs_version s')" "vs_files s' v = vs_files s v" "vs_limit s \<le> vs_limit s'"
  shows "same_version s s' v"
  using assms counted_live [OF assms(1,3)] by (simp add: same_version_def keeps_files_def)

section \<open>The edit\<close>

text \<open>The fields of the version set that the objects in it do not concern.\<close>

definition same_numbers :: "VersionSet \<Rightarrow> VersionSet \<Rightarrow> bool" where
  "same_numbers s s' \<longleftrightarrow> vs_options s' = vs_options s \<and> vs_next_file_number s' = vs_next_file_number s \<and>
     vs_manifest_file_number s' = vs_manifest_file_number s \<and> vs_last_sequence s' = vs_last_sequence s \<and>
     vs_log_number s' = vs_log_number s \<and> vs_prev_log_number s' = vs_prev_log_number s"

lemma same_numbers_trans: "same_numbers s s' \<Longrightarrow> same_numbers s' s'' \<Longrightarrow> same_numbers s s''"
  by (simp add: same_numbers_def)

lemma same_numbers_simps [simp]:
  "same_numbers s s" "same_numbers s (Version_Ref v s)" "same_numbers s (set_version v ver s)"
  by (simp_all add: same_numbers_def Version_Ref_def set_version_def Let_def)

lemma same_numbers_Unref: "same_numbers s (Version_Unref v s)"
  by (simp add: same_numbers_def Version_Unref_def delete_Version_def set_version_def Let_def)

lemma same_numbers_new: "Version_new s = (v, s') \<Longrightarrow> same_numbers s s'" "Builder_new c s = (b, s') \<Longrightarrow> same_numbers s s'"
  by (auto simp: same_numbers_def Version_new_def set_version_def Builder_new_def Version_Ref_def Let_def)

lemma same_numbers_only: "only_allocates s s' \<Longrightarrow> same_numbers s s'"
  by (cases s; cases s') (simp add: only_allocates_def same_numbers_def)

lemma same_numbers_SaveTo:
  assumes "vs_version s v = Some ver" "v_files ver = replicate kNumLevels []" "v \<noteq> b_base b"
  shows "same_numbers s (SaveTo icompare b v s)"
  using SaveTo_ok [OF assms, of icompare] by (auto simp: same_numbers_def)

lemma same_numbers_end: "same_numbers s (delete_Builder b s)" "same_numbers s (Finalize r v s)" "same_numbers s (AppendVersion v s)"
proof -
  have "same_numbers s (fold unref_file fs s)" for fs by (simp add: same_numbers_def)
  then show "same_numbers s (delete_Builder b s)" unfolding delete_Builder_def by (rule same_numbers_trans [OF _ same_numbers_Unref])
  show "same_numbers s (Finalize r v s)" by (simp add: Finalize_def Let_def split: prod.splits)
  have "same_numbers s (case vs_current s of None \<Rightarrow> s | Some c \<Rightarrow> Version_Unref c s)" by (auto intro: same_numbers_Unref split: option.splits)
  then show "same_numbers s (AppendVersion v s)"
    by (simp add: AppendVersion_def Let_def same_numbers_def Version_Ref_def set_version_def)
qed

definition edit_fresh :: "VersionSet \<Rightarrow> nat \<Rightarrow> VersionEdit \<Rightarrow> bool" where
  "edit_fresh s c e \<longleftrightarrow> edit_levels_ok e \<and>
     (\<forall>l<kNumLevels. distinct (new_numbers e l) \<and> set (new_numbers e l) \<inter> (\<lambda>f. fm_number (vs_fs s f)) ` set (vs_files s c ! l) = {})"

text \<open>The builder works on a version that nobody else sees yet.\<close>

lemma build_version_ok:
  assumes c: "counted s X Y {}" and cur: "vs_current s = Some c" and srt: "version_sorted s c" and fr: "edit_fresh s c e"
    and b: "build_version icmp rd e s = (v, s')"
  shows "counted s' X Y {v} \<and> same_version s s' c \<and> version_sorted s' v \<and> v \<noteq> c \<and> vs_current s' = Some c \<and> same_numbers s s' \<and>
    (\<forall>l<kNumLevels. version_levels s' v l = edit_level e l (version_levels s c l)) \<and> vs_version s' v \<noteq> None"
proof -
  have cd: "c \<in> dom (vs_version s)" using counted_holder(1) [OF c counted_current [OF c cur]] .
  obtain s1 where 1: "Version_new s = (v, s1)" using b by (auto simp: build_version_def Let_def split: prod.splits)
  note n1 = Version_new_counted [OF c 1]
  have cv: "c \<noteq> v" using cd n1(4) by blast
  have cur1: "vs_current s1 = Some c" using n1(7) cur by simp
  obtain bb s2 where 2: "Builder_new c s1 = (bb, s2)" by (cases "Builder_new c s1")
  have c1: "counted s1 X Y {v}" using n1(1) by simp
  have cd1: "c \<in> dom (vs_version s1)" "c \<notin> {v}" using cd cv n1(5) by auto
  note n2 = Builder_new_counted [OF c1 cd1 2]
  obtain b3 s3 where 3: "Builder_Apply icmp e (bb, s2) = (b3, s3)" by (cases "Builder_Apply icmp e (bb, s2)")
  have srt1: "version_sorted s1 c" using srt cv n1(5,6,8) by (simp add: version_sorted_def less_Suc_eq)
  note nb = Builder_new_builds [OF srt1 cd1(1) 2]
  have used: "(\<lambda>f. fm_number (vs_fs s1 f)) ` set (vs_files s1 c ! l) = (\<lambda>f. fm_number (vs_fs s f)) ` set (vs_files s c ! l)" for l
    using cv n1(5,6) by simp
  have elo: "edit_levels_ok e" and num: "\<forall>l<kNumLevels. distinct (new_numbers e l) \<and>
      set (new_numbers e l) \<inter> (\<lambda>f. fm_number (vs_fs s1 f)) ` set (vs_files s1 c ! l) = {}"
    using fr by (simp_all add: edit_fresh_def used)
  note n3 = Builder_Apply_counted [OF n2(1,3) elo 3]
  then have c3: "counted s3 (\<lambda>f. X f + held b3 f) (Y(c := Y c + 1)) {v}" using nb(1) num by blast
  have ver: "vs_version s3 = vs_version s2" "vs_current s3 = vs_current s2" using only_allocates_version [OF n3(4)] by simp_all
  have cur2: "vs_current s2 = Some c" "vs_version s2 = (vs_version s1)(c \<mapsto> (the (vs_version s1 c))\<lparr>v_refs := v_refs (the (vs_version s1 c)) + 1\<rparr>)" "vs_file s2 = vs_file s1"
    using 2 cur1 by (auto simp: Builder_new_def Version_Ref_def Let_def set_version_def)
  have v3: "vs_version s3 v = Some Version_init" using ver cur2(2) n1(5) cv by auto
  have base: "b_base b3 = c" using n3(2) n2(2) by simp
  have f3: "vs_files s3 c = vs_files s c" "c \<in> dom (vs_version s3)" using ver cur2(2) n1(5) cv by auto
  have vb: "v \<noteq> b_base b3" using base cv by simp
  have len: "length (vs_files s3 (b_base b3)) = kNumLevels" using f3(1) srt base by (simp add: version_sorted_def)
  have bd: "b_base b3 \<in> dom (vs_version s3)" using f3(2) base by simp
  let ?s4 = "SaveTo icmp b3 v s3"
  have n4: "counted ?s4 (\<lambda>f. X f + held b3 f) (Y(c := Y c + 1)) {v} \<and> vs_files ?s4 v = saved icmp s3 b3 \<and>
      (\<forall>f. descr (vs_fs ?s4 f) = descr (vs_fs s3 f)) \<and> vs_current ?s4 = vs_current s3 \<and>
      (\<forall>w. w \<noteq> v \<longrightarrow> vs_version ?s4 w = vs_version s3 w) \<and> vs_limit ?s4 = vs_limit s3"
    using SaveTo_counted [OF c3 _ v3 _ vb bd len n3(3), of icmp] by (simp add: Version_init_def)
  have ref: "version_sorted ?s4 v \<and> (\<forall>l<kNumLevels. level_set (vs_fs ?s4) (vs_files ?s4 v ! l) = fold (\<lambda>e. edit_level e l) [e] (level_set (vs_fs s1) (vs_files s1 c ! l)))"
  proof (rule builder_refines_edits_aux [OF srt1 cd1(1) _ cv [symmetric] _ 2])
    show "vs_version s1 v = Some Version_init" using n1(5) by simp
    show "edits_fresh (\<lambda>l. (\<lambda>f. fm_number (vs_fs s1 f)) ` set (vs_files s1 c ! l)) [e]" using elo num by simp
    show "fold (Builder_Apply icmp) [e] (bb, s2) = (b3, s3)" using 3 by simp
  qed
  have y: "0 < (Y(c := Y c + 1)) (b_base b3)" by (simp add: base)
  let ?s5 = "delete_Builder b3 ?s4"
  have "1 < version_count ?s4 (Y(c := Y c + 1)) (b_base b3)" using n4 ver(2) cur2(1) by (simp add: version_count_def base)
  moreover have yc: "(Y(c := Y c + 1))(c := (Y(c := Y c + 1)) c - 1) = Y" by auto
  ultimately have n5: "counted ?s5 X Y {v}" "keeps_files ?s4 ?s5" "vs_current ?s5 = vs_current ?s4" "\<forall>w. w \<noteq> c \<longrightarrow> vs_version ?s5 w = vs_version ?s4 w"
    "vs_version ?s5 c \<noteq> None" "vs_files ?s5 c = vs_files ?s4 c" "vs_limit ?s5 = vs_limit ?s4"
    using delete_Builder_counted [OF conjunct1 [OF n4] y, unfolded base yc] unfolding base by blast+
  have v4: "vs_version ?s4 v \<noteq> None" using n4 by (auto simp: counted_def versions_counted_def)
  have v5: "vs_version ?s5 v = vs_version ?s4 v" using n5(4) cv by simp
  have sv: "same_version ?s4 ?s5 v" by (rule keeps_same_version [OF n5(1,2)]) (use v4 v5 n5(7) in auto)
  have sc: "same_version ?s4 ?s5 c" by (rule keeps_same_version [OF n5(1,2)]) (use n5 in auto)
  let ?s6 = "Finalize rd v ?s5"
  have e: "s' = ?s6" using b by (simp add: build_version_def 1 cur1 2 3)
  have fin: "vs_file ?s6 = vs_file ?s5" "vs_limit ?s6 = vs_limit ?s5" "vs_current ?s6 = vs_current ?s5" "vs_files ?s6 w = vs_files ?s5 w"
    "vs_version ?s6 v \<noteq> None" for w
    by (simp_all add: Finalize_def Let_def set_version_def split: prod.splits)
  have c6: "counted ?s6 X Y {v}" by (rule Finalize_counted [OF n5(1)]) (use v4 v5 in auto)
  have s56: "same_version ?s5 ?s6 w" for w using fin by (simp add: same_version_def)
  have sv6: "same_version ?s4 ?s6 v" by (rule same_version_trans [OF sv s56])
  have "same_version s ?s4 c"
  proof -
    have "vs_files ?s4 c = vs_files s c" using n4 f3(1) cv by simp
    moreover have "descr (vs_fs ?s4 f) = descr (vs_fs s f)" if "f \<in> set (concat (vs_files s c))" for f
    proof -
      have "f \<in> dom (vs_file s)" using counted_live [OF c cd that] .
      then have "f < vs_limit s1" using c n1(8) unfolding counted_def addresses_fresh_def by (metis domIff less_Suc_eq not_less Suc_eq_plus1)
      moreover have "vs_limit s2 = vs_limit s1" using 2 by (auto simp: Builder_new_def Version_Ref_def Let_def set_version_def)
      ultimately have "vs_file s3 f = vs_file s2 f" using n3(4) by (simp add: only_allocates_def)
      then show ?thesis using n4 cur2(3) n1(6) by simp
    qed
    moreover have "vs_limit s \<le> vs_limit ?s4" using n4 n3(4) 2 n1(8) by (auto simp: only_allocates_def Builder_new_def Version_Ref_def Let_def set_version_def)
    ultimately show ?thesis by (simp add: same_version_def)
  qed
  then have 7: "same_version s ?s6 c" using same_version_trans [OF _ same_version_trans [OF sc s56]] by blast
  have 8: "version_sorted ?s6 v" by (rule same_version_levels(1) [OF sv6 conjunct1 [OF ref]])
  have 9: "version_levels ?s6 v l = edit_level e l (version_levels s c l)" if l: "l < kNumLevels" for l
    using same_version_levels(2) [OF sv6 conjunct1 [OF ref] l] ref l cv n1(5,6) by (simp add: version_levels_def)
  have "same_numbers s s1" "same_numbers s1 s2" "same_numbers s2 s3" using same_numbers_new(1) [OF 1] same_numbers_new(2) [OF 2] same_numbers_only [OF n3(4)] by simp_all
  moreover have "same_numbers s3 ?s4" by (rule same_numbers_SaveTo [OF v3 _ vb]) (simp add: Version_init_def)
  ultimately have 10: "same_numbers s ?s6" using same_numbers_end(1) [of ?s4 b3] same_numbers_end(2) [of ?s5 rd v] same_numbers_trans by blast
  show ?thesis unfolding e using c6 7 8 9 10 cv fin(3,5) n5(3) n4 ver(2) cur2(1) by simp
qed

section \<open>Other threads\<close>

text \<open>Other threads let go only of what they hold.\<close>

fun others_ok :: "Meanwhile list \<Rightarrow> VersionSet \<Rightarrow> (nat \<Rightarrow> nat) \<Rightarrow> bool" where
  "others_ok [] s Y \<longleftrightarrow> True"
| "others_ok (RefCurrent # as) s Y \<longleftrightarrow>
     others_ok as (other_step RefCurrent s) (Y(the (vs_current s) := Y (the (vs_current s)) + 1))"
| "others_ok (UnrefVersion v # as) s Y \<longleftrightarrow> 0 < Y v \<and> others_ok as (other_step (UnrefVersion v) s) (Y(v := Y v - 1))"
| "others_ok (CountSeek v stats # as) s Y \<longleftrightarrow> 0 < Y v \<and> (\<forall>f. seek_file stats = Some f \<longrightarrow> f \<in> set (concat (vs_files s v))) \<and>
     others_ok as (other_step (CountSeek v stats) s) Y"
| "others_ok (a # as) s Y \<longleftrightarrow> others_ok as (other_step a s) Y"

text \<open>Who holds which version after them.\<close>

fun held_after :: "nat \<Rightarrow> Meanwhile list \<Rightarrow> (nat \<Rightarrow> nat) \<Rightarrow> (nat \<Rightarrow> nat)" where
  "held_after c [] Y = Y"
| "held_after c (RefCurrent # as) Y = held_after c as (Y(c := Y c + 1))"
| "held_after c (UnrefVersion v # as) Y = held_after c as (Y(v := Y v - 1))"
| "held_after c (a # as) Y = held_after c as Y"

lemma UpdateStats_counted:
  assumes c: "counted s X Y U" and v: "v \<in> dom (vs_version s)" and f: "\<forall>f. seek_file stats = Some f \<longrightarrow> f \<in> dom (vs_file s)"
    and u: "UpdateStats v stats s = (b, s')"
  shows "counted s' X Y U \<and> vs_current s' = vs_current s \<and> (\<forall>w. map_option v_files (vs_version s' w) = map_option v_files (vs_version s w)) \<and>
    (\<forall>g. descr (vs_fs s' g) = descr (vs_fs s g)) \<and> vs_limit s' = vs_limit s"
proof (cases "seek_file stats")
  case None
  then show ?thesis using c u by (simp add: UpdateStats_def)
next
  case (Some g)
  then obtain m where m: "vs_file s g = Some m" using f by blast
  obtain ver where ver: "vs_version s v = Some ver" using v by blast
  let ?m = "m\<lparr>fm_allowed_seeks := fm_allowed_seeks m - 1\<rparr>" let ?s = "set_file g ?m s"
  let ?ver = "ver\<lparr>v_file_to_compact := Some g, v_file_to_compact_level := seek_file_level stats\<rparr>"
  have 1: "counted ?s X Y U" by (rule counted_set_file [OF c m]) simp
  have "vs_version ?s v = Some ver" using ver by (simp add: set_file_def)
  then have 2: "counted (set_version v ?ver ?s) X Y U" by (rule counted_set_version [OF 1]) simp_all
  have "s' = ?s \<or> s' = set_version v ?ver ?s"
    using u by (auto simp: UpdateStats_def Some m ver Let_def set_file_def split: if_splits)
  then show ?thesis using 1 2 m ver by (auto simp: set_file_def set_version_def)
qed

lemma run_others_ok:
  assumes "counted s X Y U" "vs_current s = Some c" "others_ok as s Y"
  shows "counted (run_others as s) X (held_after c as Y) U \<and> vs_current (run_others as s) = Some c \<and>
    (\<forall>v. v \<in> U \<or> v = c \<longrightarrow> same_version s (run_others as s) v)"
  using assms
proof (induction as arbitrary: s Y)
  case Nil
  then show ?case by (auto simp: run_others_def)
next
  case (Cons a as)
  have c: "c \<in> dom (vs_version s)" "c \<notin> U" using counted_holder [OF Cons.prems(1) counted_current [OF Cons.prems(1,2)]] by blast+
  obtain Y1 where 1: "counted (other_step a s) X Y1 U" "vs_current (other_step a s) = Some c" "others_ok as (other_step a s) Y1"
    "\<forall>v. v \<in> U \<or> v = c \<longrightarrow> same_version s (other_step a s) v" "held_after c (a # as) Y = held_after c as Y1"
  proof (cases a)
    case RefCurrent
    have "same_version s (Version_Ref c s) v" for v by (simp add: same_version_def Version_Ref_def Let_def set_version_def)
    then show ?thesis using that [of "Y(c := Y c + 1)"] Version_Ref_counted [OF Cons.prems(1) c] Cons.prems(2,3) RefCurrent
      by (simp add: Version_Ref_def set_version_def Let_def)
  next
    case (UnrefVersion v)
    have y: "0 < Y v" using Cons.prems(3) by (simp add: UnrefVersion)
    note u = Version_Unref_counted [OF Cons.prems(1) y]
    have "same_version s (Version_Unref v s) w" if w: "w \<in> U \<or> w = c" for w
    proof (rule keeps_same_version [OF conjunct1 [OF u]])
      have wd: "w \<in> dom (vs_version s)" using w c(1) Cons.prems(1) by (auto simp: counted_def versions_counted_def)
      have "w = v \<Longrightarrow> w = c" using w y Cons.prems(1) by (auto simp: counted_def versions_counted_def version_count_def)
      moreover have "1 < version_count s Y c" if "v = c" using that y Cons.prems(2) by (simp add: version_count_def)
      ultimately show "w \<in> dom (vs_version (Version_Unref v s))" "vs_files (Version_Unref v s) w = vs_files s w"
        using u wd by (cases "w = v"; auto)+
    qed (use u in simp_all)
    then show ?thesis using that [of "Y(v := Y v - 1)"] u Cons.prems(2,3) UnrefVersion by simp
  next
    case (CountSeek v stats)
    have y: "0 < Y v" and f: "\<forall>f. seek_file stats = Some f \<longrightarrow> f \<in> set (concat (vs_files s v))" using Cons.prems(3) by (simp_all add: CountSeek)
    have v: "v \<in> dom (vs_version s)" using counted_holder(1) [OF Cons.prems(1), of v] y by (simp add: version_count_def)
    obtain b s' where u: "UpdateStats v stats s = (b, s')" by (cases "UpdateStats v stats s")
    have fd: "\<forall>f. seek_file stats = Some f \<longrightarrow> f \<in> dom (vs_file s)" using f counted_live [OF Cons.prems(1) v] by blast
    note us = UpdateStats_counted [OF Cons.prems(1) v fd u]
    have "vs_files s' w = vs_files s w" if "w \<in> U \<or> w = c" for w
    proof -
      have "w \<in> dom (vs_version s)" using that c(1) Cons.prems(1) by (auto simp: counted_def versions_counted_def)
      then show ?thesis using us by (metis domIff option.map_sel option.map_disc_iff)
    qed
    then have "same_version s s' w" if "w \<in> U \<or> w = c" for w using us that by (simp add: same_version_def)
    then show ?thesis using that [of Y] us u Cons.prems(2,3) CountSeek by simp
  next
    case TakeFileNumber
    then show ?thesis using that [of Y] Cons.prems counted_cong [OF Cons.prems(1), of "snd (NewFileNumber s)"]
      by (simp add: NewFileNumber_def same_version_def)
  next
    case (GiveBackFileNumber n)
    then show ?thesis using that [of Y] Cons.prems counted_cong [OF Cons.prems(1), of "ReuseFileNumber n s"]
      by (simp add: ReuseFileNumber_def same_version_def)
  next
    case (SetSequence n)
    then show ?thesis using that [of Y] Cons.prems counted_cong [OF Cons.prems(1), of "s\<lparr>vs_last_sequence := n\<rparr>"]
      by (simp add: same_version_def)
  qed
  from Cons.IH [OF 1(1-3)] 1(4,5) show ?case by (auto simp: run_others_def intro: same_version_trans)
qed

lemma run_others_numbers:
  "vs_options (run_others as s) = vs_options s \<and> vs_manifest_file_number (run_others as s) = vs_manifest_file_number s \<and>
   vs_log_number (run_others as s) = vs_log_number s \<and> vs_prev_log_number (run_others as s) = vs_prev_log_number s"
proof (induction as arbitrary: s)
  case (Cons a as)
  have "vs_options (other_step a s) = vs_options s \<and> vs_manifest_file_number (other_step a s) = vs_manifest_file_number s \<and>
      vs_log_number (other_step a s) = vs_log_number s \<and> vs_prev_log_number (other_step a s) = vs_prev_log_number s"
    using same_numbers_Unref [of s "case a of UnrefVersion v \<Rightarrow> v | _ \<Rightarrow> undefined"]
    by (cases a) (auto simp: same_numbers_def Version_Ref_def UpdateStats_def NewFileNumber_def ReuseFileNumber_def set_version_def set_file_def Let_def split: option.splits)
  then show ?case using Cons.IH by (simp add: run_others_def)
qed (simp add: run_others_def)

section \<open>LogAndApply and the version set\<close>

lemma complete_edit_simps [simp]:
  "edit_level (complete_edit s e) l = edit_level e l" "new_numbers (complete_edit s e) l = new_numbers e l"
  "edit_levels_ok (complete_edit s e) = edit_levels_ok e" "edit_fresh s' c (complete_edit s e) = edit_fresh s' c e"
  "ve_has_comparator (complete_edit s e) = ve_has_comparator e" "ve_comparator (complete_edit s e) = ve_comparator e"
  "ve_log_number (complete_edit s e) = (if ve_has_log_number e then ve_log_number e else vs_log_number s)"
  "ve_prev_log_number (complete_edit s e) = (if ve_has_prev_log_number e then ve_prev_log_number e else vs_prev_log_number s)"
  "ve_next_file_number (complete_edit s e) = vs_next_file_number s" "ve_last_sequence (complete_edit s e) = vs_last_sequence s"
  "ve_has_log_number (complete_edit s e)" "ve_has_prev_log_number (complete_edit s e)" "ve_has_next_file_number (complete_edit s e)"
  "ve_has_last_sequence (complete_edit s e)"
  by (simp_all add: complete_edit_def Let_def SetLogNumber_def SetPrevLogNumber_def SetNextFile_def SetLastSequence_def edit_fresh_def
      edit_level_def [abs_def] new_numbers_def edit_levels_ok_def)

lemma SetNextFile_same: "ve_has_next_file_number e \<Longrightarrow> SetNextFile e (ve_next_file_number e) = e"
  by (simp add: SetNextFile_def)

lemma same_version_log_numbers: "same_version s s' v \<Longrightarrow> same_version s (s'\<lparr>vs_log_number := a, vs_prev_log_number := b\<rparr>) v"
  by (simp add: same_version_def)

text \<open>The outcome is decided by the status alone: the other calls concern the files.\<close>

definition applied :: "VersionSet \<Rightarrow> nat \<Rightarrow> VersionEdit \<Rightarrow> status \<Rightarrow> VersionSet \<Rightarrow> bool" where
  "applied s c edit r s' \<longleftrightarrow>
     (if ok r then \<exists>v. vs_current s' = Some v \<and> version_sorted s' v \<and>
          (\<forall>l<kNumLevels. version_levels s' v l = edit_level edit l (version_levels s c l)) \<and>
          vs_log_number s' = (if ve_has_log_number edit then ve_log_number edit else vs_log_number s) \<and>
          vs_prev_log_number s' = (if ve_has_prev_log_number edit then ve_prev_log_number edit else vs_prev_log_number s)
      else vs_current s' = Some c \<and> same_version s s' c \<and> vs_log_number s' = vs_log_number s \<and> vs_prev_log_number s' = vs_prev_log_number s)"

lemma LogAndApply_set:
  assumes "LogAndApply D BytewiseComparator rd dbname others edit st = (r, e, st')"
    and "build_version icmp rd (complete_edit (ms_set st) edit) (ms_set st) = (v, s1)" "same_numbers (ms_set st) s1"
  shows "e = complete_edit (ms_set st) edit \<and>
    ms_set st' = (if ok r then (AppendVersion v (run_others others s1))\<lparr>vs_log_number := ve_log_number e, vs_prev_log_number := ve_prev_log_number e\<rparr>
      else delete_Version v (run_others others s1))"
proof -
  have "SetNextFile (complete_edit (ms_set st) edit) (vs_next_file_number s1) = complete_edit (ms_set st) edit"
    using assms(3) SetNextFile_same [of "complete_edit (ms_set st) edit"] by (simp add: same_numbers_def)
  then have n: "(if b then SetNextFile (complete_edit (ms_set st) edit) (vs_next_file_number s1) else complete_edit (ms_set st) edit) = complete_edit (ms_set st) edit" for b
    by simp
  have cmp: "cmp_Compare BytewiseComparator = Bytewise_Compare" by (simp add: BytewiseComparator_def)
  show ?thesis using assms(1) unfolding LogAndApply_def Let_def cmp assms(2) prod.case n
    by (auto split: prod.splits if_splits)
qed

lemma log_and_apply_installs:
  assumes "LogAndApply D BytewiseComparator rd dbname others edit st = (r, e, st')"
    and "counted (ms_set st) X Y {}" "vs_current (ms_set st) = Some c" "version_sorted (ms_set st) c" "edit_fresh (ms_set st) c edit"
    and "others_ok others (snd (build_version icmp rd (complete_edit (ms_set st) edit) (ms_set st))) Y"
  shows "counted (ms_set st') X (held_after c others Y) {} \<and> applied (ms_set st) c edit r (ms_set st')"
proof -
  obtain v s1 where b: "build_version icmp rd (complete_edit (ms_set st) edit) (ms_set st) = (v, s1)" by fastforce
  have fr: "edit_fresh (ms_set st) c (complete_edit (ms_set st) edit)" using assms(5) by simp
  have s1: "counted s1 X Y {v}" "same_version (ms_set st) s1 c" "version_sorted s1 v" "v \<noteq> c" "vs_current s1 = Some c" "same_numbers (ms_set st) s1"
    "\<forall>l<kNumLevels. version_levels s1 v l = edit_level edit l (version_levels (ms_set st) c l)" "vs_version s1 v \<noteq> None"
    using build_version_ok [OF assms(2-4) fr b] by simp_all
  let ?Y = "held_after c others Y"
  have "others_ok others s1 Y" using assms(6) b by simp
  from run_others_ok [OF s1(1,5) this] have
    o: "counted (run_others others s1) X ?Y {v}" "vs_current (run_others others s1) = Some c"
      "same_version s1 (run_others others s1) v" "same_version s1 (run_others others s1) c" by auto
  let ?s2 = "run_others others s1"
  have sort2: "version_sorted ?s2 v" by (rule same_version_levels(1) [OF o(3) s1(3)])
  have lev2: "version_levels ?s2 v l = edit_level edit l (version_levels (ms_set st) c l)" if "l < kNumLevels" for l
    using same_version_levels(2) [OF o(3) s1(3) that] s1(7) that by simp
  have o1: "counted ?s2 X ?Y (insert v {})" using o(1) by simp
  note r = LogAndApply_set [OF assms(1) b s1(6)]
  show ?thesis
  proof (cases "ok r")
    case True
    note a = AppendVersion_counted [OF o1, simplified]
    have s': "ms_set st' = (AppendVersion v ?s2)\<lparr>vs_log_number := ve_log_number e, vs_prev_log_number := ve_prev_log_number e\<rparr>" using r True by simp
    have "counted (ms_set st') X ?Y {}" unfolding s' by (rule counted_cong [of "AppendVersion v ?s2"]) (use a in simp_all)
    moreover have "same_version ?s2 (AppendVersion v ?s2) v"
      by (rule keeps_same_version [of _ X ?Y "{}"]) (use a counted_holder(1) [OF conjunct1 [OF a] counted_current [OF conjunct1 [OF a]], of v] in simp_all)
    then have "same_version ?s2 (ms_set st') v" unfolding s' by (rule same_version_log_numbers)
    note sv = same_version_levels [OF this sort2]
    have "applied (ms_set st) c edit r (ms_set st')" unfolding applied_def using True sv lev2 r a by (auto simp: s')
    ultimately show ?thesis by blast
  next
    case False
    note d = delete_Version_counted [OF o1, simplified]
    have s': "ms_set st' = delete_Version v ?s2" using r False by simp
    have cv: "vs_version (delete_Version v ?s2) c = vs_version ?s2 c" using d s1(4) by simp
    have "c \<in> dom (vs_version ?s2)" using counted_holder(1) [OF o1 counted_current [OF o1 o(2)]] .
    then have "same_version ?s2 (delete_Version v ?s2) c" by (intro keeps_same_version [OF conjunct1 [OF d]]) (use d cv in auto)
    then have "same_version (ms_set st) (ms_set st') c" unfolding s' using same_version_trans s1(2) o(4) by blast
    moreover have "same_numbers (ms_set st) s1" by (rule s1(6))
    ultimately have "applied (ms_set st) c edit r (ms_set st')" unfolding applied_def using False d o(2) run_others_numbers [of others s1] s1(6)
      by (simp add: s' same_numbers_def delete_Version_def Let_def)
    then show ?thesis using d s' by auto
  qed
qed

end
