(* ===== verification/Manifest_Recovery.thy ===== *)
theory Manifest_Recovery
  imports Manifest_Log Log_Recovery
begin

text \<open>
  The manifest as a log: what \<^verbatim>\<open>LogAndApply\<close> has logged is what \<^verbatim>\<open>Recover\<close> finds, whenever the log is cut off.
\<close>

section \<open>What a sequence of edits says\<close>

abbreviation encode_edit :: "VersionEdit \<Rightarrow> bytes" where
  "encode_edit e \<equiv> VersionEdit_EncodeTo e []"

abbreviation manifest_image :: "VersionEdit list \<Rightarrow> bytes" where
  "manifest_image es \<equiv> log_image 0 (map encode_edit es)"

definition edits_levels :: "VersionEdit list \<Rightarrow> nat \<Rightarrow> descriptor set" where
  "edits_levels es l = fold (\<lambda>e. edit_level e l) es {}"

definition note_fields :: "VersionEdit \<Rightarrow> Recovered \<Rightarrow> Recovered" where
  "note_fields e rc =
     \<lparr>rc_log_number = (if ve_has_log_number e then Some (ve_log_number e) else rc_log_number rc),
      rc_prev_log_number = (if ve_has_prev_log_number e then Some (ve_prev_log_number e) else rc_prev_log_number rc),
      rc_next_file = (if ve_has_next_file_number e then Some (ve_next_file_number e) else rc_next_file rc),
      rc_last_sequence = (if ve_has_last_sequence e then Some (ve_last_sequence e) else rc_last_sequence rc)\<rparr>"

abbreviation no_fields :: Recovered where
  "no_fields \<equiv> \<lparr>rc_log_number = None, rc_prev_log_number = None, rc_next_file = None, rc_last_sequence = None\<rparr>"

definition edits_fields :: "VersionEdit list \<Rightarrow> Recovered" where
  "edits_fields es = fold note_fields es no_fields"

definition logged_ok :: "Comparator \<Rightarrow> VersionEdit \<Rightarrow> bool" where
  "logged_ok ucmp e \<longleftrightarrow> edit_ok e \<and> (ve_has_comparator e \<longrightarrow> ve_comparator e = cmp_Name ucmp)"

lemma recover_encoded:
  assumes "logged_ok ucmp e"
  shows "recover_edit ucmp (encode_edit e) (bs, rc) = (Status_OK, Builder_Apply (IKC_Compare (cmp_Compare ucmp)) e bs, note_fields e rc)"
proof -
  have "VersionEdit_DecodeFrom VersionEdit_new (encode_edit e) = (Status_OK, e)"
    using decode_encode [of e VersionEdit_new] assms by (simp add: logged_ok_def VersionEdit_new_def VersionEdit_Clear_def)
  then show ?thesis using assms by (cases rc) (auto simp: recover_edit_def logged_ok_def note_fields_def Let_def)
qed

section \<open>Reading the log\<close>

context sequential_file
begin

lemma recover_loop_reads:
  "between r o1 (take n (log_image o1 (map encode_edit es))) p \<Longrightarrow> o1 \<le> kBlockSize \<Longrightarrow> \<forall>e\<in>set es. logged_ok ucmp e \<Longrightarrow>
    \<exists>r' m. recover_loop ops ucmp bufs r Status_OK (bs, rc) = Some (Status_OK,
        (fold (Builder_Apply (IKC_Compare (cmp_Compare ucmp))) (take m es) bs, fold note_fields (take m es) rc), r') \<and>
      map fst (complete p o1 (map encode_edit es) n) = map encode_edit (take m es)"
proof (induction es arbitrary: r p n o1 bufs bs rc)
  case Nil
  have "strict_prefix [] (frag_image o1 (frags o1 True []))" by (simp add: frags.simps phys_def strict_prefix_def)
  from loop_reads_truncated [OF Nil(1) [simplified] this Nil(2), of "[]" "[]" 0]
  show ?case using ReadRecord_from_start [OF Nil(1)] by (auto simp: recover_loop.simps [of ops ucmp bufs r] reported_def)
next
  case (Cons e es)
  let ?d = "encode_edit e"
  show ?case
  proof (cases "n < length (record_image o1 ?d)")
    case True
    then have tk: "take n (log_image o1 (map encode_edit (e # es))) = take n (record_image o1 ?d)" by simp
    have "strict_prefix (take n (record_image o1 ?d)) (frag_image o1 (frags o1 True ?d))"
      using True by (auto simp: strict_prefix_def take_is_prefix record_image_def)
    from loop_reads_truncated [OF Cons.prems(1) [unfolded tk] this Cons.prems(2), of "[]" "[]" 0]
    show ?thesis
      using ReadRecord_from_start [OF Cons.prems(1)] True
      by (auto simp: recover_loop.simps [of ops ucmp bufs r] reported_def intro: exI [of _ 0])
  next
    case False
    let ?m = "n - length (record_image o1 ?d)"
    let ?X = "take ?m (log_image (record_end o1 ?d) (map encode_edit es))"
    have tk: "take n (log_image o1 (map encode_edit (e # es))) = frag_image o1 (frags o1 True ?d) @ ?X"
      using False by (simp add: record_image_def)
    from loop_reads_record [OF Cons.prems(1) [unfolded tk] Cons.prems(2), of "[]" "[]" 0]
    obtain r' sc' where r': "ReadRecord_loop ops r [] [] False 0 =
          Some (True, ?d, sc', r'\<lparr>lr_last_record_offset := of_nat (p + length (pad o1))\<rparr>)"
        "between r' (record_end o1 ?d) ?X (p + length (record_image o1 ?d))" "lr_reports r' = lr_reports r"
      by (auto simp: record_end_def record_image_def)
    let ?r = "r'\<lparr>lr_last_record_offset := of_nat (p + length (pad o1))\<rparr>"
    have good: "logged_ok ucmp e" "\<forall>e\<in>set es. logged_ok ucmp e" using Cons.prems(3) by simp_all
    let ?bs = "Builder_Apply (IKC_Compare (cmp_Compare ucmp)) e bs"
    have step: "recover_loop ops ucmp bufs r Status_OK (bs, rc) = recover_loop ops ucmp (?d, sc') ?r Status_OK (?bs, note_fields e rc)"
      using ReadRecord_from_start [OF Cons.prems(1)] r' recover_encoded [OF good(1)]
      by (simp add: recover_loop.simps [of ops ucmp bufs r] reported_def)
    from Cons.IH [OF between_last [OF r'(2)] record_end_bound [OF Cons.prems(2)] good(2), where bufs = "(?d, sc')" and bs = ?bs and rc = "note_fields e rc"]
    obtain r2 m where "recover_loop ops ucmp (?d, sc') ?r Status_OK (?bs, note_fields e rc) = Some (Status_OK,
          (fold (Builder_Apply (IKC_Compare (cmp_Compare ucmp))) (take m es) ?bs, fold note_fields (take m es) (note_fields e rc)), r2)"
        "map fst (complete (p + length (record_image o1 ?d)) (record_end o1 ?d) (map encode_edit es) ?m) = map encode_edit (take m es)" by blast
    then show ?thesis using step False by (intro exI [of _ r2] exI [of _ "Suc m"]) simp
  qed
qed

end

section \<open>Recovery\<close>

text \<open>\<open>calm w\<close>: the coming calls on the files of \<open>w\<close> will succeed.\<close>

locale reading_env = sequential_file "eSequential E" rest reliable
  for E :: "('w, 'f, 's) Env" and rest :: "'s \<Rightarrow> bytes" and reliable :: "'s \<Rightarrow> bool" +
  fixes files :: "'w \<Rightarrow> bytes \<rightharpoonup> bytes" and calm :: "'w \<Rightarrow> bool"
  assumes opens: "calm w \<Longrightarrow> files w n = Some d \<Longrightarrow>
      \<exists>f w'. eNewSequentialFile E w n = (Status_OK, Some f, w') \<and> rest f = d \<and> reliable f \<and> files w' = files w \<and> calm w'"
    and closes: "calm w \<Longrightarrow> reliable f \<Longrightarrow> calm (eDeleteSequential E w f) \<and> files (eDeleteSequential E w f) = files w"
begin

lemma read_whole:
  assumes "calm w" "files w n = Some d"
  shows "\<exists>w'. ReadFileToString E w n = Some (Status_OK, d, w') \<and> calm w' \<and> files w' = files w"
proof -
  obtain f w1 where 1: "eNewSequentialFile E w n = (Status_OK, Some f, w1)" "rest f = d" "reliable f" "files w1 = files w" "calm w1"
    using opens [OF assms] by blast
  obtain s f' where 2: "read_all (eSequential E) f [] = Some (s, d, f')" "ok s" "reliable f'"
    using read_all_reliable [OF 1(3), of "[]"] 1(2) by auto
  from 2(2) have "s = Status_OK" by (simp add: ok_def Status_OK_def)
  then show ?thesis using 1 2 closes [OF 1(5) 2(3)] by (simp add: ReadFileToString_def)
qed

end

text \<open>What a version set looks like that was recovered from edits.\<close>

definition recovered_from :: "VersionSet \<Rightarrow> VersionEdit list \<Rightarrow> bool" where
  "recovered_from s es \<longleftrightarrow>
     (\<exists>v. vs_current s = Some v \<and> version_sorted s v \<and> (\<forall>l<kNumLevels. version_levels s v l = edits_levels es l)) \<and>
     (let rc = edits_fields es in
      vs_log_number s = the (rc_log_number rc) \<and> vs_prev_log_number s = number_or_0 (rc_prev_log_number rc) \<and>
      vs_last_sequence s = the (rc_last_sequence rc) \<and> vs_next_file_number s = the (rc_next_file rc) + 1)"

lemma MarkFileNumberUsed_only:
  "vs_file (MarkFileNumberUsed n s) = vs_file s" "vs_version (MarkFileNumberUsed n s) = vs_version s" "vs_current (MarkFileNumberUsed n s) = vs_current s"
  "vs_versions (MarkFileNumberUsed n s) = vs_versions s" "vs_limit (MarkFileNumberUsed n s) = vs_limit s"
  by (simp_all add: MarkFileNumberUsed_def)

lemma ReuseManifest_only:
  "ReuseManifest D dscname dscbase st = (b, st') \<Longrightarrow> \<exists>n. ms_set st' = (ms_set st)\<lparr>vs_manifest_file_number := n\<rparr>"
  by (auto simp: ReuseManifest_def Let_def split: if_splits option.splits prod.splits)
    (metis VersionSet.select_convs(3) VersionSet.surjective VersionSet.update_convs(3))+

text \<open>A builder that was given the edits, and what \<^verbatim>\<open>Recover\<close> does with it.\<close>

lemma install_recovered_ok:
  assumes c: "counted (ms_set st) (\<lambda>f. X f + held b f) (Y(c := Y c + 1)) {}" and cur: "vs_current (ms_set st) = Some c" and base: "b_base b = c"
    and empty: "vs_files (ms_set st) c = replicate kNumLevels []" and b: "builds (ms_set st) b used D" and rc: "missing_field rc = Status_OK"
    and i: "install_recovered E BytewiseComparator rd dscname current b rc sm st = (sm', st')"
  shows "\<exists>v. counted (delete_Builder b (ms_set st')) X Y {} \<and> vs_current (delete_Builder b (ms_set st')) = Some v \<and>
    version_sorted (delete_Builder b (ms_set st')) v \<and> (\<forall>l<kNumLevels. version_levels (delete_Builder b (ms_set st')) v l = D l) \<and>
    vs_log_number (delete_Builder b (ms_set st')) = the (rc_log_number rc) \<and>
    vs_prev_log_number (delete_Builder b (ms_set st')) = number_or_0 (rc_prev_log_number rc) \<and>
    vs_last_sequence (delete_Builder b (ms_set st')) = the (rc_last_sequence rc) \<and>
    vs_next_file_number (delete_Builder b (ms_set st')) = the (rc_next_file rc) + 1"
proof -
  let ?s = "ms_set st"
  have cmp: "IKC_Compare (cmp_Compare BytewiseComparator) = icmp" by (simp add: BytewiseComparator_def)
  obtain v s1 where 1: "Version_new ?s = (v, s1)" by (cases "Version_new ?s")
  note n1 = Version_new_counted [OF c 1]
  have cd: "c \<in> dom (vs_version ?s)" using counted_holder(1) [OF c counted_current [OF c cur]] .
  have cv: "c \<noteq> v" using cd n1(4) by blast
  have b1: "builds s1 b used D"
  proof -
    have "builds_level s1 (vs_files ?s c ! l) (b_levels b ! l) (used l) (D l)" if "l < kNumLevels" for l
      by (rule builds_level_mono [where s = ?s]) (use b that base n1(6,8) in \<open>simp_all add: builds_def\<close>)
    then show ?thesis using b cv n1(5) by (simp add: builds_def base)
  qed
  have f1: "vs_files s1 c = replicate kNumLevels []" "c \<in> dom (vs_version s1)" using empty cd cv n1(5) by auto
  let ?s2 = "SaveTo icmp b v s1"
  have v1: "vs_version s1 v = Some Version_init" "v \<noteq> b_base b" using n1(5) base cv by auto
  have saved: "version_sorted ?s2 v \<and> (\<forall>l<kNumLevels. level_set (vs_fs ?s2) (vs_files ?s2 v ! l) = D l)"
    by (rule SaveTo_builds [OF b1 v1]) (simp add: base f1(1))
  have len: "length (vs_files s1 (b_base b)) = kNumLevels" "length (b_levels b) = kNumLevels" "b_base b \<in> dom (vs_version s1)"
    using f1 base b by (simp_all add: builds_def)
  have "counted ?s2 (\<lambda>f. X f + held b f) (Y(c := Y c + 1)) {v} \<and> (\<forall>w. w \<noteq> v \<longrightarrow> vs_version ?s2 w = vs_version s1 w) \<and>
      vs_current ?s2 = vs_current s1"
    using SaveTo_counted [OF n1(1) _ v1(1) _ v1(2) len(3,1,2), of icmp] by (simp add: Version_init_def)
  then have 2: "counted ?s2 (\<lambda>f. X f + held b f) (Y(c := Y c + 1)) {v}" "vs_version ?s2 c = vs_version s1 c" "vs_current ?s2 = Some c"
    using cv n1(7) cur by simp_all
  let ?s3 = "Finalize rd v ?s2"
  have v2: "v \<in> dom (vs_version ?s2)" using 2(1) by (auto simp: counted_def versions_counted_def)
  have 3: "counted ?s3 (\<lambda>f. X f + held b f) (Y(c := Y c + 1)) (insert v {})" using Finalize_counted [OF 2(1) v2] by simp
  have sv3: "same_version ?s2 ?s3 v" "vs_current ?s3 = Some c" "vs_version ?s3 c = vs_version ?s2 c"
    using 2(3) cv by (simp_all add: same_version_def Finalize_def Let_def set_version_def split: prod.splits)
  let ?s4 = "AppendVersion v ?s3"
  have "v \<notin> {}" by simp
  note a = AppendVersion_counted [OF 3 this]
  have v4: "v \<in> dom (vs_version ?s4)" "c \<in> dom (vs_version ?s4)"
    using a counted_holder(1) [OF conjunct1 [OF a], of v] counted_holder(1) [OF conjunct1 [OF a], of c] by (simp_all add: version_count_def)
  have sv4: "same_version ?s3 ?s4 v" by (rule keeps_same_version [OF conjunct1 [OF a]]) (use a v4 in simp_all)
  define s5 where "s5 = ms_set st'"
  have 5: "\<exists>n. s5 = ?s4\<lparr>vs_next_file_number := the (rc_next_file rc) + 1, vs_last_sequence := the (rc_last_sequence rc),
      vs_log_number := the (rc_log_number rc), vs_prev_log_number := number_or_0 (rc_prev_log_number rc), vs_manifest_file_number := n\<rparr>"
  proof -
    let ?s5 = "?s4\<lparr>vs_manifest_file_number := the (rc_next_file rc), vs_next_file_number := the (rc_next_file rc) + 1,
      vs_last_sequence := the (rc_last_sequence rc), vs_log_number := the (rc_log_number rc), vs_prev_log_number := number_or_0 (rc_prev_log_number rc)\<rparr>"
    obtain reused st2 where ru: "ReuseManifest E dscname current (st\<lparr>ms_set := ?s5\<rparr>) = (reused, st2)" by fastforce
    then have "st2 = st'" using i by (simp add: install_recovered_def cmp 1 Let_def)
    with ReuseManifest_only [OF ru] show ?thesis by (auto simp: s5_def intro!: exI)
  qed
  then have s5: "vs_version s5 = vs_version ?s4" "vs_file s5 = vs_file ?s4" "vs_current s5 = Some v" "vs_versions s5 = vs_versions ?s4" "vs_limit s5 = vs_limit ?s4"
    "vs_log_number s5 = the (rc_log_number rc)" "vs_prev_log_number s5 = number_or_0 (rc_prev_log_number rc)"
    "vs_last_sequence s5 = the (rc_last_sequence rc)" "vs_next_file_number s5 = the (rc_next_file rc) + 1" using a by auto
  have c5: "counted s5 (\<lambda>f. X f + held b f) (Y(c := Y c + 1)) {}" by (rule counted_cong [OF conjunct1 [OF a]]) (use s5 a in simp_all)
  have y: "0 < (Y(c := Y c + 1)) (b_base b)" by (simp add: base)
  have yc: "(Y(c := Y c + 1))(c := (Y(c := Y c + 1)) c - 1) = Y" by auto
  have 6: "counted (delete_Builder b s5) X Y {} \<and> keeps_files s5 (delete_Builder b s5) \<and> vs_current (delete_Builder b s5) = Some v \<and>
      vs_version (delete_Builder b s5) v = vs_version s5 v \<and> vs_limit (delete_Builder b s5) = vs_limit s5"
    using delete_Builder_counted [OF c5 y, unfolded base yc] cv s5(3) by simp
  have "same_version s5 (delete_Builder b s5) v" by (rule keeps_same_version [OF conjunct1 [OF 6]]) (use 6 v4(1) s5(1) in auto)
  moreover have "same_version ?s4 s5 v" using s5 by (simp add: same_version_def)
  ultimately have sv: "same_version ?s2 (delete_Builder b s5) v" using sv3(1) sv4 same_version_trans by blast
  note lv = same_version_levels [OF sv conjunct1 [OF saved]]
  show ?thesis using 6 lv saved same_numbers_end(1) [of s5 b] s5(6-9)
    by (intro exI [of _ v]) (simp add: s5_def [symmetric] version_levels_def same_numbers_def)
qed

text \<open>Reading the manifest gives what its complete records say.\<close>

context reading_env
begin

lemma Recover_ok:
  assumes E: "de_env D = E" "calm (ms_world st)" and cf: "files (ms_world st) (CurrentFileName db) = Some (base @ [10])"
    and mf: "files (ms_world st) (db @ str ''/'' @ base) = Some (take n (manifest_image es))"
    and es: "\<forall>e\<in>set es. logged_ok BytewiseComparator e" "edits_fresh (\<lambda>_. {}) es"
    and c: "counted (ms_set st) X Y {}" "vs_current (ms_set st) = Some c" "vs_files (ms_set st) c = replicate kNumLevels []"
  shows "\<exists>m r sm' st'. Recover D BytewiseComparator rd db sm st = Some (r, sm', st') \<and>
    map fst (complete 0 0 (map encode_edit es) n) = map encode_edit (take m es) \<and> r = missing_field (edits_fields (take m es)) \<and>
    counted (ms_set st') X Y {} \<and> (ok r \<longrightarrow> recovered_from (ms_set st') (take m es))"
proof -
  have cmp: "IKC_Compare (cmp_Compare BytewiseComparator) = icmp" by (simp add: BytewiseComparator_def)
  obtain w1 where 1: "ReadFileToString E (ms_world st) (CurrentFileName db) = Some (Status_OK, base @ [10], w1)" "calm w1" "files w1 = files (ms_world st)"
    using read_whole [OF E(2) cf] by blast
  obtain f w2 where 2: "eNewSequentialFile E w1 (db @ str ''/'' @ base) = (Status_OK, Some f, w2)" "rest f = take n (manifest_image es)" "reliable f"
    using opens [OF 1(2), of "db @ str ''/'' @ base"] mf 1(3) by auto
  obtain b0 s0 where 3: "Builder_new c (ms_set st) = (b0, s0)" by (cases "Builder_new c (ms_set st)")
  have "between (Reader_new f True True 0) 0 (take n (manifest_image es)) 0" using between_new [OF 2(3)] 2(2) by simp
  from recover_loop_reads [OF this _ es(1), where bufs = "([], [])" and bs = "(b0, s0)" and rc = no_fields]
  obtain r' m where 4: "recover_loop (eSequential E) BytewiseComparator ([], []) (Reader_new f True True 0) Status_OK ((b0, s0), no_fields) =
      Some (Status_OK, (fold (Builder_Apply icmp) (take m es) (b0, s0), edits_fields (take m es)), r')"
    "map fst (complete 0 0 (map encode_edit es) n) = map encode_edit (take m es)" by (auto simp: cmp edits_fields_def)
  obtain b s1 where 5: "fold (Builder_Apply icmp) (take m es) (b0, s0) = (b, s1)" by fastforce
  have cd: "c \<in> dom (vs_version (ms_set st))" using counted_holder(1) [OF c(1) counted_current [OF c(1,2)]] .
  have "c \<notin> {}" by simp
  note nb = Builder_new_counted [OF c(1) cd this 3]
  have srt: "version_sorted (ms_set st) c" using c(3) by (simp add: version_sorted_def)
  note bb = Builder_new_builds [OF srt cd 3]
  have empty: "vs_files (ms_set st) c ! l = []" if "l < kNumLevels" for l using c(3) that by simp
  have "edits_fresh (\<lambda>_. {}) (take m es)"
  proof -
    have "edits_fresh used es \<Longrightarrow> edits_fresh used (take m es)" for used
      by (induction es arbitrary: used m) (simp, case_tac m, simp_all)
    then show ?thesis using es(2) .
  qed
  moreover have "builds s0 b0 (\<lambda>_. {}) (\<lambda>_. {})"
    using bb(1) empty by (simp add: builds_def level_set_def)
  ultimately have ex: "\<exists>used D. builds s0 b0 used D \<and> edits_fresh used (take m es)" and
    bD: "\<exists>used. builds s1 b used (\<lambda>l. edits_levels (take m es) l)"
    using Apply_all_build [OF _ _ 5, of "\<lambda>_. {}" "\<lambda>_. {}"] unfolding edits_levels_def by blast+
  have lev: "\<forall>e\<in>set (take m es). edit_levels_ok e"
  proof -
    have "edits_fresh used es \<Longrightarrow> \<forall>e\<in>set es. edit_levels_ok e" for used es by (induction es arbitrary: used) auto
    then show ?thesis using \<open>edits_fresh (\<lambda>_. {}) (take m es)\<close> .
  qed
  have 6: "counted s1 (\<lambda>f. X f + held b f) (Y(c := Y c + 1)) {} \<and> b_base b = c \<and> length (b_levels b) = kNumLevels \<and> only_allocates s0 s1"
    using Builder_Apply_all_counted [OF nb(1,3) lev 5] ex nb(2) by blast
  have cur: "vs_current s1 = Some c" "vs_files s1 c = replicate kNumLevels []"
    using 6 3 c only_allocates_version [of s0 s1] by (auto simp: Builder_new_def Version_Ref_def set_version_def Let_def)
  let ?rc = "edits_fields (take m es)"
  let ?w = "eDeleteSequential E w2 (lr_file r')"
  let ?st = "st\<lparr>ms_world := ?w, ms_set := MarkFileNumberUsed (number_or_0 (rc_log_number ?rc)) (MarkFileNumberUsed (number_or_0 (rc_prev_log_number ?rc)) s1)\<rparr>"
  obtain sm2 st2 where 7: "(if ok (missing_field ?rc) then install_recovered D BytewiseComparator rd (db @ str ''/'' @ base) base b ?rc sm ?st else (sm, ?st)) = (sm2, st2)"
    by fastforce
  have R: "Recover D BytewiseComparator rd db sm st = Some (missing_field ?rc, sm2, st2\<lparr>ms_set := delete_Builder b (ms_set st2)\<rparr>)"
    using 7 by (simp add: Recover_def E(1) 1 2 c(2) 3 4 5 Let_def)
  have cst: "counted (ms_set ?st) (\<lambda>f. X f + held b f) (Y(c := Y c + 1)) {}"
    by (rule counted_cong [OF conjunct1 [OF 6]]) (simp_all add: MarkFileNumberUsed_only)
  have base: "b_base b = c" using 6 by simp
  have y: "0 < (Y(c := Y c + 1)) (b_base b)" by (simp add: base)
  have yc: "(Y(c := Y c + 1))(c := (Y(c := Y c + 1)) c - 1) = Y" by auto
  have fin: "counted (delete_Builder b (ms_set st2)) X Y {} \<and> (ok (missing_field ?rc) \<longrightarrow> recovered_from (delete_Builder b (ms_set st2)) (take m es))"
  proof (cases "ok (missing_field ?rc)")
    case False
    then have "st2 = ?st" using 7 by simp
    then show ?thesis using delete_Builder_counted [OF cst y, unfolded base yc] False by simp
  next
    case True
    then have mf: "missing_field ?rc = Status_OK" by (simp add: ok_def Status_OK_def)
    have i: "install_recovered D BytewiseComparator rd (db @ str ''/'' @ base) base b ?rc sm ?st = (sm2, st2)" using 7 True by simp
    obtain used where "builds s1 b used (\<lambda>l. edits_levels (take m es) l)" using bD by blast
    then have bst: "builds (ms_set ?st) b used (\<lambda>l. edits_levels (take m es) l)"
      by (simp add: builds_def builds_level_def MarkFileNumberUsed_only)
    have "vs_current (ms_set ?st) = Some c" "vs_files (ms_set ?st) c = replicate kNumLevels []" using cur by (simp_all add: MarkFileNumberUsed_only)
    from install_recovered_ok [OF cst this(1) _ this(2) bst mf i] 6 show ?thesis
      unfolding recovered_from_def Let_def by blast
  qed
  show ?thesis by (rule exI [of _ m], rule exI, rule exI, rule exI, rule conjI [OF R]) (use 4(2) fin in simp)
qed

end

end
