(* ===== verification/Manifest_Durable.thy ===== *)
theory Manifest_Durable
  imports Manifest_Recovery
begin

text \<open>
  \<^verbatim>\<open>LogAndApply\<close> and \<^verbatim>\<open>Recover\<close> on POSIX files: an edit is in the database from the moment it is logged, whenever the machine stops.
\<close>

section \<open>The log of edits\<close>

text \<open>\<open>synced\<close> is how much of the file is on the disk for certain.\<close>

locale manifest_file = writable_file ops written durable clean
  for ops :: "'f WritableFile" and written :: "'f \<Rightarrow> bytes" and durable :: "'f \<Rightarrow> bytes" and clean :: "'f \<Rightarrow> bool" +
  fixes synced :: "'f \<Rightarrow> nat"
  assumes sync: "wSync ops f = (s, f') \<Longrightarrow> clean f \<Longrightarrow>
      prefix (durable f) (durable f') \<and> prefix (durable f') (written f) \<and>
      (ok s \<longrightarrow> written f' = written f \<and> clean f' \<and> synced f' = length (written f))"
    and sync_kept: "wSync ops f = (s, f') \<Longrightarrow> clean f \<Longrightarrow> synced f \<le> length (durable f) \<Longrightarrow>
      synced f \<le> synced f' \<and> synced f' \<le> length (durable f')"
    and append_synced: "wAppend ops f d = (s, f') \<Longrightarrow> synced f' = synced f"
    and flush_synced: "wFlush ops f = (s, f') \<Longrightarrow> synced f' = synced f"
begin

text \<open>The log of the edits is written, and, between two calls, synced.\<close>

definition writes_log :: "'f Writer \<Rightarrow> VersionEdit list \<Rightarrow> bool" where
  "writes_log wr es \<longleftrightarrow> writer_ready wr \<and> clean (lw_dest wr) \<and> written (lw_dest wr) = manifest_image es \<and>
     lw_block_offset wr = log_end 0 (map encode_edit es) \<and> synced (lw_dest wr) \<le> length (manifest_image es)"

definition holds_log :: "'f Writer \<Rightarrow> VersionEdit list \<Rightarrow> bool" where
  "holds_log wr es \<longleftrightarrow> writes_log wr es \<and> synced (lw_dest wr) = length (manifest_image es)"

lemma image_snoc: "manifest_image (es @ [e]) = manifest_image es @ record_image (log_end 0 (map encode_edit es)) (encode_edit e)"
  by (simp add: log_image_append)

lemma end_snoc: "log_end 0 (map encode_edit (es @ [e])) = record_end (log_end 0 (map encode_edit es)) (encode_edit e)"
  by (simp add: log_end_append)

lemma AddRecord_synced: "AddRecord ops w d = (s, w') \<Longrightarrow> synced (lw_dest w') = synced (lw_dest w)"
  by (erule AddRecord_keeps [where P = "\<lambda>f. synced f = synced (lw_dest w)"]) (use append_synced flush_synced in simp_all)

lemma add_edit:
  assumes "writes_log wr es" "AddRecord ops wr (encode_edit e) = (s, wr')"
  shows "(ok s \<longrightarrow> writes_log wr' (es @ [e])) \<and> prefix (manifest_image es) (durable (lw_dest wr')) \<and>
    prefix (durable (lw_dest wr')) (manifest_image (es @ [e])) \<and> synced (lw_dest wr') = synced (lw_dest wr)"
proof -
  have h: "writer_ready wr" "clean (lw_dest wr)" "written (lw_dest wr) = manifest_image es" "lw_block_offset wr = log_end 0 (map encode_edit es)"
    "synced (lw_dest wr) \<le> length (manifest_image es)"
    using assms(1) by (simp_all add: writes_log_def)
  note a = AddRecord_writes [OF assms(2) h(1,2)] and y = AddRecord_synced [OF assms(2)]
  have "durable (lw_dest wr) = manifest_image es" using clean_durable [OF h(2)] h(3) by simp
  then show ?thesis using a h y by (auto simp: writes_log_def image_snoc end_snoc simp del: map_append)
qed

lemma log_edit_ok:
  assumes "writes_log wr es" "log_edit ops e wr = (s, wr')"
  shows "(ok s \<longrightarrow> holds_log wr' (es @ [e])) \<and> prefix (manifest_image es) (durable (lw_dest wr')) \<and>
    prefix (durable (lw_dest wr')) (manifest_image (es @ [e])) \<and> synced (lw_dest wr) \<le> synced (lw_dest wr')"
proof -
  obtain s1 w1 where a: "AddRecord ops wr (encode_edit e) = (s1, w1)" by fastforce
  note ae = add_edit [OF assms(1) a]
  show ?thesis
  proof (cases "ok s1")
    case False
    then show ?thesis using assms(2) a ae by (simp add: log_edit_def)
  next
    case True
    obtain s2 f where y: "wSync ops (lw_dest w1) = (s2, f)" by fastforce
    have e: "s = s2" "wr' = w1\<lparr>lw_dest := f\<rparr>" using assms(2) a True y by (simp_all add: log_edit_def)
    have h: "writes_log w1 (es @ [e])" using ae True by simp
    then have c: "clean (lw_dest w1)" by (simp add: writes_log_def)
    have "synced (lw_dest w1) \<le> length (durable (lw_dest w1))" using h clean_durable [OF c] by (simp add: writes_log_def)
    note k = sync_kept [OF y c this]
    from sync [OF y c] h ae k show ?thesis
      by (auto simp: e holds_log_def writes_log_def writer_ready_def intro: prefix_order.trans)
  qed
qed

end

lemma pw_Sync_durable:
  assumes "pw_Sync se f = (s, f')" "pw_buf f = []"
  shows "fd_data (pw_fd f') = fd_data (pw_fd f) \<and> pw_buf f' = [] \<and> (ok s \<longrightarrow> fd_synced (pw_fd f') = length (fd_data (pw_fd f))) \<and>
    (fd_synced (pw_fd f) \<le> length (fd_data (pw_fd f)) \<longrightarrow> fd_synced (pw_fd f) \<le> fd_synced (pw_fd f') \<and> fd_synced (pw_fd f') \<le> length (fd_data (pw_fd f)))"
proof -
  obtain s1 f1 where d: "SyncDirIfManifest se f = (s1, f1)" by fastforce
  obtain s2 f2 where fl: "FlushBuffer se f1 = (s2, f2)" by fastforce
  obtain s3 fd where y: "SyncFd se (pw_fd f2) (pw_filename f2) = (s3, fd)" by fastforce
  have e: "(s, f') = (if \<not> ok s1 then (s1, f1) else if \<not> ok s2 then (s2, f2) else (s3, f2\<lparr>pw_fd := fd\<rparr>))"
    using assms(1) by (simp add: pw_Sync_def d fl y cong: if_cong)
  have 1: "fd_data (pw_fd f1) = fd_data (pw_fd f)" "pw_buf f1 = []" "fd_synced (pw_fd f1) = fd_synced (pw_fd f)"
    using SyncDirIfManifest_kept [OF d] assms(2) by simp_all
  have "fd_data (pw_fd f2) = fd_data (pw_fd f1)" "pw_buf f2 = []" "fd_synced (pw_fd f2) = fd_synced (pw_fd f1)"
    using FlushBuffer_spec(1,2,4) [OF fl] 1(2) writable_synced(2) [OF fl] by (simp_all add: prefix_order.antisym)
  then show ?thesis using e 1 SyncFd_spec [OF y] by (auto split: if_splits)
qed

interpretation posix_manifest: manifest_file "PosixWritableFile se" pw_contents "\<lambda>f. fd_data (pw_fd f)" "\<lambda>f. pw_buf f = []"
  "\<lambda>f. fd_synced (pw_fd f)" for se
proof
  fix f s f' assume s: "wSync (PosixWritableFile se) f = (s, f')" and b: "pw_buf f = []"
  from s have "pw_Sync se f = (s, f')" by (simp add: PosixWritableFile_def)
  note d = pw_Sync_durable [OF this b]
  from d b show "prefix (fd_data (pw_fd f)) (fd_data (pw_fd f')) \<and> prefix (fd_data (pw_fd f')) (pw_contents f) \<and>
      (ok s \<longrightarrow> pw_contents f' = pw_contents f \<and> pw_buf f' = [] \<and> fd_synced (pw_fd f') = length (pw_contents f))"
    by (simp add: pw_contents_def)
  show "fd_synced (pw_fd f) \<le> length (fd_data (pw_fd f)) \<Longrightarrow> fd_synced (pw_fd f) \<le> fd_synced (pw_fd f') \<and> fd_synced (pw_fd f') \<le> length (fd_data (pw_fd f'))"
    using d by simp
qed (auto simp: PosixWritableFile_def dest: writable_synced)

interpretation posix_reading: reading_env "PosixEnv se" "\<lambda>(fn, fd). drop (fd_pos fd) (fd_data fd)" "\<lambda>(fn, fd). fd_answers fd = []"
    w_files "\<lambda>w. w_answers w = []" for se
proof (unfold_locales, goal_cases)
  case (1 f n s d f')
  then show ?case
    by (cases f; cases f') (auto simp: PosixEnv_def seq_file_ops_def seq_Read.simps [of se] sys_read_def Let_def drop_drop min_def ac_simps)
next
  case (2 f m s f')
  then show ?case
    by (cases f; cases f') (auto simp: PosixEnv_def seq_file_ops_def seq_Skip_def sys_call_def Let_def drop_drop ac_simps)
next
  case (3 w n d)
  then show ?case
    by (auto simp: PosixEnv_def NewSequentialFile_def world_call_on_def world_call_def open_fd_def)
next
  case (4 w f)
  then show ?case
    by (cases f) (simp add: PosixEnv_def delete_SequentialFile_def sys_close_def world_call_def)
qed

section \<open>Edits and snapshots\<close>

lemma edits_fresh_last:
  assumes "edits_fresh used (es @ [e])" "\<And>l. l < kNumLevels \<Longrightarrow> fst ` D l \<subseteq> used l"
  shows "edits_fresh used es \<and> edit_levels_ok e \<and> (\<forall>l<kNumLevels. distinct (new_numbers e l) \<and>
    set (new_numbers e l) \<inter> fst ` fold (\<lambda>e. edit_level e l) es (D l) = {})"
  using assms
proof (induction es arbitrary: used D)
  case Nil
  then show ?case by fastforce
next
  case (Cons e' es)
  have "fst ` edit_level e' l (D l) \<subseteq> used l \<union> set (new_numbers e' l)" if "l < kNumLevels" for l
    using Cons.prems(2) [OF that] by (force simp: edit_level_def new_numbers_def descr_def)
  then show ?case using Cons.IH [of "\<lambda>l. used l \<union> set (new_numbers e' l)" "\<lambda>l. edit_level e' l (D l)"] Cons.prems(1) by auto
qed

lemma numbers_of_levels: "(\<lambda>f. fm_number (vs_fs s f)) ` set (vs_files s c ! l) = fst ` version_levels s c l"
  by (simp add: version_levels_def level_set_def image_image descr_def)

lemma snapshot_files:
  "ve_new_files (fold (\<lambda>level edit. fold (\<lambda>f edit. AddFile edit (int level) (fm_number (fs f)) (fm_file_size (fs f)) (fm_smallest (fs f)) (fm_largest (fs f)))
      (files ! level) edit) levels edit) =
    ve_new_files edit @ concat (map (\<lambda>level. map (\<lambda>f. (int level, (FileMetaData_new (fm_number (fs f)))
      \<lparr>fm_file_size := fm_file_size (fs f), fm_smallest := fm_smallest (fs f), fm_largest := fm_largest (fs f)\<rparr>)) (files ! level)) levels)"
proof (induction levels arbitrary: edit)
  case (Cons level levels)
  have "ve_new_files (fold (\<lambda>f edit. AddFile edit (int level) (fm_number (fs f)) (fm_file_size (fs f)) (fm_smallest (fs f)) (fm_largest (fs f))) xs edit) =
      ve_new_files edit @ map (\<lambda>f. (int level, (FileMetaData_new (fm_number (fs f)))
        \<lparr>fm_file_size := fm_file_size (fs f), fm_smallest := fm_smallest (fs f), fm_largest := fm_largest (fs f)\<rparr>)) xs" for xs
    by (induction xs arbitrary: edit) (simp_all add: AddFile_def Let_def)
  then show ?case using Cons by simp
qed simp

text \<open>Keys that fit the 32-bit lengths of the encoding.\<close>

definition keys_fit :: "VersionSet \<Rightarrow> nat \<Rightarrow> bool" where
  "keys_fit s c \<longleftrightarrow> (\<forall>l<kNumLevels. length (vs_compact_pointer s ! l) < 2 ^ 32 \<and>
     (\<forall>f\<in>set (vs_files s c ! l). length (fm_smallest (vs_fs s f)) < 2 ^ 32 \<and> length (fm_largest (vs_fs s f)) < 2 ^ 32))"

lemma snapshot_logged:
  assumes "vs_current s = Some c" "keys_fit s c" "length (cmp_Name ucmp) < 2 ^ 32"
  shows "logged_ok ucmp (snapshot_edit (cmp_Name ucmp) s)"
proof -
  let ?P = "\<lambda>e. logged_ok ucmp e"
  have lev: "l \<in> set [0..<kNumLevels] \<Longrightarrow> l < kNumLevels \<and> level_ok (int l)" for l by (auto simp: level_ok_def)
  have 0: "?P (SetComparatorName VersionEdit_new (cmp_Name ucmp))"
    using assms(3) by (auto simp: logged_ok_def intro: inv_intro) (simp_all add: SetComparatorName_def)
  have 1: "?P (fold (\<lambda>level edit. if vs_compact_pointer s ! level \<noteq> [] then SetCompactPointer edit (int level) (vs_compact_pointer s ! level) else edit)
      [0..<kNumLevels] (SetComparatorName VersionEdit_new (cmp_Name ucmp)))"
  proof (rule fold_invariant [where Q = "\<lambda>l. l < kNumLevels \<and> level_ok (int l)" and P = "logged_ok ucmp", OF lev 0])
    fix l e assume "l < kNumLevels \<and> level_ok (int l)" "?P e"
    then show "?P (if vs_compact_pointer s ! l \<noteq> [] then SetCompactPointer e (int l) (vs_compact_pointer s ! l) else e)"
      using assms(2) by (auto simp: logged_ok_def keys_fit_def intro: inv_intro) (simp_all add: SetCompactPointer_def)
  qed
  show ?thesis unfolding snapshot_edit_def Let_def
  proof (rule fold_invariant [where Q = "\<lambda>l. l < kNumLevels \<and> level_ok (int l)" and P = "logged_ok ucmp", OF lev 1])
    fix l e assume l: "l < kNumLevels \<and> level_ok (int l)" and e: "?P e"
    show "?P (fold (\<lambda>f edit. AddFile edit (int l) (fm_number (vs_fs s f)) (fm_file_size (vs_fs s f)) (fm_smallest (vs_fs s f)) (fm_largest (vs_fs s f)))
        (vs_files s (the (vs_current s)) ! l) e)"
    proof (rule fold_invariant [where Q = "\<lambda>f. f \<in> set (vs_files s c ! l)" and P = "logged_ok ucmp"])
      fix f e assume "f \<in> set (vs_files s c ! l)" "?P e"
      then show "?P (AddFile e (int l) (fm_number (vs_fs s f)) (fm_file_size (vs_fs s f)) (fm_smallest (vs_fs s f)) (fm_largest (vs_fs s f)))"
        using l assms(2) by (auto simp: logged_ok_def keys_fit_def intro: inv_intro) (simp_all add: AddFile_def)
    qed (use e assms(1) in simp_all)
  qed
qed

lemma snapshot_levels:
  assumes "vs_current s = Some c" "l < kNumLevels"
  shows "edits_levels [snapshot_edit name s] l = version_levels s c l"
proof -
  have n: "ve_new_files (snapshot_edit name s) = concat (map (\<lambda>level. map (\<lambda>f. (int level, (FileMetaData_new (fm_number (vs_fs s f)))
      \<lparr>fm_file_size := fm_file_size (vs_fs s f), fm_smallest := fm_smallest (vs_fs s f), fm_largest := fm_largest (vs_fs s f)\<rparr>)) (vs_files s c ! level)) [0..<kNumLevels])"
  proof -
    have "ve_new_files (fold (\<lambda>level edit. if vs_compact_pointer s ! level \<noteq> [] then SetCompactPointer edit (int level) (vs_compact_pointer s ! level) else edit) ls e) = ve_new_files e" for ls e
      by (induction ls arbitrary: e) (simp_all add: SetCompactPointer_def)
    moreover have "ve_new_files (SetComparatorName VersionEdit_new name) = []" by (simp add: SetComparatorName_def VersionEdit_new_def VersionEdit_Clear_def)
    ultimately show ?thesis by (simp add: snapshot_edit_def Let_def snapshot_files assms(1))
  qed
  let ?m = "\<lambda>f. (FileMetaData_new (fm_number (vs_fs s f)))
      \<lparr>fm_file_size := fm_file_size (vs_fs s f), fm_smallest := fm_smallest (vs_fs s f), fm_largest := fm_largest (vs_fs s f)\<rparr>"
  have m: "(int l, m) \<in> set (ve_new_files (snapshot_edit name s)) \<longleftrightarrow> m \<in> ?m ` set (vs_files s c ! l)" for m
    using assms(2) by (auto simp: n)
  have "descr (?m f) = descr (vs_fs s f)" for f by (simp add: descr_def FileMetaData_new_def)
  then show ?thesis by (simp add: edits_levels_def edit_level_def m version_levels_def level_set_def setcompr_eq_image image_image del: image_iff)
qed

section \<open>Logging\<close>

text \<open>The edits that the log holds before an edit is added: a new log starts with a snapshot.\<close>

definition logged_before :: "('w, 'f) ManifestState \<Rightarrow> VersionSet \<Rightarrow> VersionEdit list \<Rightarrow> VersionEdit list" where
  "logged_before st s1 es = (if ms_log st = None then [snapshot_edit (cmp_Name BytewiseComparator) s1] else es)"

text \<open>What holds between two calls: the open manifest says what the current version is.\<close>

definition manifest_state :: "bytes \<Rightarrow> (World, PosixWritable) ManifestState \<Rightarrow> VersionEdit list \<Rightarrow> bool" where
  "manifest_state db st es \<longleftrightarrow>
     (\<exists>c. vs_current (ms_set st) = Some c \<and> version_sorted (ms_set st) c \<and>
       (\<forall>wr. ms_log st = Some wr \<longrightarrow> posix_manifest.holds_log wr es \<and> (\<forall>e\<in>set es. logged_ok BytewiseComparator e) \<and>
          missing_field (edits_fields es) = Status_OK \<and> (\<forall>l<kNumLevels. version_levels (ms_set st) c l = edits_levels es l) \<and>
          w_files (ms_world st) (CurrentFileName db) = Some (str ''MANIFEST-'' @ pad6 (vs_manifest_file_number (ms_set st)) @ [10])))"

lemma LogAndApply_log:
  assumes l: "LogAndApply (Posix_DbEnv se) BytewiseComparator rd db others edit st = (r, e, st')"
    and b: "build_version icmp rd (complete_edit (ms_set st) edit) (ms_set st) = (v, s1)" "same_numbers (ms_set st) s1"
  shows "ms_log st = Some wr \<Longrightarrow> \<exists>wr'. log_edit (PosixWritableFile se) e wr = (r, wr') \<and> ms_log st' = Some wr' \<and> ms_world st' = ms_world st"
    and "ms_log st = None \<Longrightarrow> \<not> ok r \<Longrightarrow> ms_log st' = None"
    and "ms_log st = None \<Longrightarrow> ok r \<Longrightarrow> \<exists>f w1 wr wr2. eNewWritableFile (PosixEnv se) (ms_world st) (DescriptorFileName db (vs_manifest_file_number (ms_set st))) =
        (Status_OK, Some f, w1) \<and> AddRecord (PosixWritableFile se) (Writer_new f) (encode_edit (snapshot_edit (cmp_Name BytewiseComparator) s1)) = (Status_OK, wr) \<and>
        log_edit (PosixWritableFile se) e wr = (Status_OK, wr2) \<and> ms_log st' = Some wr2 \<and>
        SetCurrentFile (PosixEnv se) w1 db (vs_manifest_file_number (ms_set st)) = (r, ms_world st')"
proof -
  have "SetNextFile (complete_edit (ms_set st) edit) (vs_next_file_number s1) = complete_edit (ms_set st) edit"
    using b(2) SetNextFile_same [of "complete_edit (ms_set st) edit"] by (simp add: same_numbers_def)
  then have n: "(if b then SetNextFile (complete_edit (ms_set st) edit) (vs_next_file_number s1) else complete_edit (ms_set st) edit) = complete_edit (ms_set st) edit" for b
    by simp
  have cmp: "cmp_Compare BytewiseComparator = Bytewise_Compare" by (simp add: BytewiseComparator_def)
  have D: "de_env (Posix_DbEnv se) = PosixEnv se" "eWritable (PosixEnv se) = PosixWritableFile se" by (simp_all add: Posix_DbEnv_def PosixEnv_def)
  note u = l [unfolded LogAndApply_def Let_def cmp b(1) prod.case n D]
  show "\<exists>wr'. log_edit (PosixWritableFile se) e wr = (r, wr') \<and> ms_log st' = Some wr' \<and> ms_world st' = ms_world st" if "ms_log st = Some wr"
    using u that by (auto split: prod.splits if_splits)
  show "ms_log st' = None" if "ms_log st = None" "\<not> ok r" using u that by (auto split: prod.splits if_splits)
  show "\<exists>f w1 wr wr2. eNewWritableFile (PosixEnv se) (ms_world st) (DescriptorFileName db (vs_manifest_file_number (ms_set st))) =
        (Status_OK, Some f, w1) \<and> AddRecord (PosixWritableFile se) (Writer_new f) (encode_edit (snapshot_edit (cmp_Name BytewiseComparator) s1)) = (Status_OK, wr) \<and>
        log_edit (PosixWritableFile se) e wr = (Status_OK, wr2) \<and> ms_log st' = Some wr2 \<and>
        SetCurrentFile (PosixEnv se) w1 db (vs_manifest_file_number (ms_set st)) = (r, ms_world st')"
    if a: "ms_log st = None" "ok r"
  proof -
    let ?man = "DescriptorFileName db (vs_manifest_file_number (ms_set st))"
    obtain r1 wo w1 where 1: "new_manifest (PosixEnv se) (cmp_Name BytewiseComparator) ?man s1 (ms_world st) = (r1, wo, w1)" by (metis prod_cases3)
    have k1: "ok r1" using u a by (auto simp: 1 split: prod.splits if_splits)
    obtain f wr where 2: "eNewWritableFile (PosixEnv se) (ms_world st) ?man = (Status_OK, Some f, w1)" "wo = Some wr"
      "AddRecord (PosixWritableFile se) (Writer_new f) (encode_edit (snapshot_edit (cmp_Name BytewiseComparator) s1)) = (Status_OK, wr)"
    proof -
      obtain r0 fo w0 where 0: "eNewWritableFile (PosixEnv se) (ms_world st) ?man = (r0, fo, w0)" by (metis prod_cases3)
      obtain r2 wr2 where w: "AddRecord (PosixWritableFile se) (Writer_new (the fo)) (encode_edit (snapshot_edit (cmp_Name BytewiseComparator) s1)) = (r2, wr2)" by fastforce
      have o: "ok r0" using 1 k1 by (auto simp: new_manifest_def 0 split: if_splits prod.splits)
      then have "r1 = r2" "wo = Some wr2" "w1 = w0" using 1 by (auto simp: new_manifest_def 0 WriteSnapshot_def w D)
      moreover obtain f where "fo = Some f" using posix_env.new_writable [OF 0] o by auto
      ultimately show ?thesis using that [of f wr2] 0 w o k1 by (auto simp: ok_def Status_OK_def)
    qed
    obtain r3 wr2 where 3: "log_edit (PosixWritableFile se) (complete_edit (ms_set st) edit) wr = (r3, wr2)" by fastforce
    have k3: "ok r3" using u a k1 by (auto simp: 1 2(2) 3 split: prod.splits if_splits)
    obtain r4 w4 where 4: "SetCurrentFile (PosixEnv se) w1 db (vs_manifest_file_number (ms_set st)) = (r4, w4)" by fastforce
    have k4: "ok r4" using u a k1 k3 by (auto simp: 1 2(2) 3 4 split: prod.splits if_splits)
    have "ms_log st' = Some wr2" "ms_world st' = w4" "r = r4" "e = complete_edit (ms_set st) edit"
      using u a k1 k3 k4 by (auto simp: 1 2(2) 3 4)
    then show ?thesis using 2 3 4 k3 by (auto simp: ok_def Status_OK_def)
  qed
qed

lemma complete_edit_logged:
  assumes "edit_ok e" "\<not> ve_has_comparator e"
  shows "logged_ok ucmp (complete_edit s e)"
  using assms by (auto simp: logged_ok_def complete_edit_def Let_def intro!: inv_intro) (simp_all add: SetLogNumber_def SetPrevLogNumber_def SetNextFile_def SetLastSequence_def)

lemma complete_edit_edits_fresh: "edits_fresh used (es @ [complete_edit s e]) \<longleftrightarrow> edits_fresh used (es @ [e])"
  by (induction es arbitrary: used) simp_all

lemma edits_fields_snoc: "edits_fields (es @ [e]) = note_fields e (edits_fields es)"
  by (simp add: edits_fields_def)

lemma complete_edit_fields: "missing_field (edits_fields (es @ [complete_edit s e])) = Status_OK"
  by (simp add: edits_fields_snoc note_fields_def missing_field_def)

lemma edits_levels_snoc: "edits_levels (es @ [e]) l = edit_level e l (edits_levels es l)"
  by (simp add: edits_levels_def)

text \<open>What is left of a log of edits after it was cut off inside the last edit, or behind it.\<close>

lemma cut_log:
  assumes "prefix d (manifest_image (es @ [e]))" "length (manifest_image es) \<le> length d"
    and "map fst (complete 0 0 (map encode_edit (es @ [e])) (length d)) = map encode_edit (take m (es @ [e]))"
  shows "d = take (length d) (manifest_image (es @ [e]))" "take m (es @ [e]) = es \<or> take m (es @ [e]) = es @ [e]"
    "d = manifest_image (es @ [e]) \<Longrightarrow> take m (es @ [e]) = es @ [e]"
proof -
  show "d = take (length d) (manifest_image (es @ [e]))" using assms(1) by (auto elim: prefixE)
  have "prefix (map encode_edit es) (map fst (complete 0 0 (map encode_edit es @ [encode_edit e]) (length d)))"
    by (rule complete_at_least [OF assms(2)])
  then have "prefix (map encode_edit es) (map encode_edit (take m (es @ [e])))" using assms(3) by simp
  then have "length es \<le> length (take m (es @ [e]))" using prefix_length_le by fastforce
  then have "length es \<le> m" by simp
  then have "m = length es \<or> length (es @ [e]) \<le> m" by auto
  then show "take m (es @ [e]) = es \<or> take m (es @ [e]) = es @ [e]" by auto
  assume "d = manifest_image (es @ [e])"
  then have "map encode_edit (es @ [e]) = map encode_edit (take m (es @ [e]))" using assms(3) complete_all [of 0 "map encode_edit (es @ [e])" "length d" 0] by simp
  then have "length (es @ [e]) = length (take m (es @ [e]))" by (metis length_map)
  then show "take m (es @ [e]) = es @ [e]" by simp
qed

lemma VersionSet_new_counted:
  "counted (VersionSet_new opts) (\<lambda>_. 0) (\<lambda>_. 0) {} \<and> (\<exists>c. vs_current (VersionSet_new opts) = Some c \<and> vs_files (VersionSet_new opts) c = replicate kNumLevels [])"
proof -
  let ?s = "\<lparr>vs_options = opts, vs_next_file_number = 2, vs_manifest_file_number = 0, vs_last_sequence = 0,
     vs_log_number = 0, vs_prev_log_number = 0, vs_versions = [], vs_current = None,
     vs_compact_pointer = replicate kNumLevels [], vs_version = Map.empty, vs_file = Map.empty, vs_limit = 1\<rparr>"
  have 0: "counted ?s (\<lambda>_. 0) (\<lambda>_. 0) {}"
    by (simp add: counted_def files_counted_def versions_counted_def version_count_def addresses_fresh_def listed_def)
  obtain v s where 1: "Version_new ?s = (v, s)" by (cases "Version_new ?s")
  note n = Version_new_counted [OF 0 1]
  have "v \<notin> {}" by simp
  note a = AppendVersion_counted [OF n(1) this]
  have e: "VersionSet_new opts = AppendVersion v s" using 1 by (simp add: VersionSet_new_def)
  have "vs_files s v = replicate kNumLevels []" using n(5) by (simp add: Version_init_def)
  then show ?thesis unfolding e using a by auto
qed

lemma new_writable_unsynced:
  "eNewWritableFile (PosixEnv se) w n = (s, Some f, w') \<Longrightarrow> fd_synced (pw_fd f) = 0"
  by (auto simp: PosixEnv_def NewWritableFile_def PosixWritable_new_def open_fd_def split: prod.splits option.splits)

text \<open>The files that the call has nothing to do with.\<close>

lemma delete_manifest_files:
  assumes "pw_filename f = man" "n \<noteq> man"
  shows "w_files (snd (eDeleteFile (PosixEnv se) (eDeleteWritable (PosixEnv se) w f) man)) n = w_files w n"
proof -
  obtain s w' where d: "eDeleteFile (PosixEnv se) (eDeleteWritable (PosixEnv se) w f) man = (s, w')" by fastforce
  obtain x where "w_files (eDeleteWritable (PosixEnv se) w f) = (w_files w)(pw_filename f \<mapsto> x)" using posix_env.delete_writable by blast
  then show ?thesis using posix_env.delete_file [OF d] assms by (simp add: d)
qed

lemma AddRecord_filename: "AddRecord (PosixWritableFile se) w d = (s, w') \<Longrightarrow> pw_filename (lw_dest w') = pw_filename (lw_dest w)"
  by (erule AddRecord_keeps [where P = "\<lambda>f. pw_filename f = pw_filename (lw_dest w)"])
    (auto simp: PosixWritableFile_def dest: pw_Append_filename pw_filename_kept)

lemma log_edit_filename: "log_edit (PosixWritableFile se) e wr = (s, wr') \<Longrightarrow> pw_filename (lw_dest wr') = pw_filename (lw_dest wr)"
proof -
  assume a: "log_edit (PosixWritableFile se) e wr = (s, wr')"
  obtain s1 w1 where 1: "AddRecord (PosixWritableFile se) wr (encode_edit e) = (s1, w1)" by fastforce
  obtain s2 f where 2: "pw_Sync se (lw_dest w1) = (s2, f)" by fastforce
  have "wSync (PosixWritableFile se) = pw_Sync se" by (simp add: PosixWritableFile_def)
  then show ?thesis using a AddRecord_filename [OF 1] pw_Sync_spec [OF 2] by (auto simp: log_edit_def 1 2 split: if_splits)
qed

lemma LogAndApply_files:
  assumes l: "LogAndApply (Posix_DbEnv se) BytewiseComparator rd db others edit st = (r, e, st')"
    and n: "n \<noteq> DescriptorFileName db (vs_manifest_file_number (ms_set st))" "n \<noteq> TempFileName db (vs_manifest_file_number (ms_set st))"
      "n = CurrentFileName db \<Longrightarrow> \<not> ok r"
  shows "w_files (ms_world st') n = w_files (ms_world st) n"
proof -
  have D: "de_env (Posix_DbEnv se) = PosixEnv se" "eWritable (PosixEnv se) = PosixWritableFile se" by (simp_all add: Posix_DbEnv_def PosixEnv_def)
  let ?man = "DescriptorFileName db (vs_manifest_file_number (ms_set st))"
  obtain v s1 where b: "build_version (IKC_Compare (cmp_Compare BytewiseComparator)) rd (complete_edit (ms_set st) edit) (ms_set st) = (v, s1)" by fastforce
  note u = l [unfolded LogAndApply_def Let_def b prod.case D]
  show ?thesis
  proof (cases "ms_log st")
    case (Some wr)
    obtain r1 wr1 where 1: "log_edit (PosixWritableFile se) (complete_edit (ms_set st) edit) wr = (r1, wr1)" by fastforce
    then show ?thesis using u by (auto simp: Some 1 split: if_splits)
  next
    case None
    let ?e = "SetNextFile (complete_edit (ms_set st) edit) (vs_next_file_number s1)"
    obtain r0 fo w0 where 0: "eNewWritableFile (PosixEnv se) (ms_world st) ?man = (r0, fo, w0)" by (metis prod_cases3)
    have w0: "w_files w0 n = w_files (ms_world st) n" using posix_env.new_writable [OF 0] n(1) by (auto split: if_splits)
    show ?thesis
    proof (cases "ok r0")
      case False
      then have "new_manifest (PosixEnv se) (cmp_Name BytewiseComparator) ?man s1 (ms_world st) = (r0, None, w0)"
        by (simp add: new_manifest_def 0)
      then have "ms_world st' = snd (eDeleteFile (PosixEnv se) w0 ?man)" using u False by (auto simp: None)
      moreover obtain s w where d: "eDeleteFile (PosixEnv se) w0 ?man = (s, w)" by fastforce
      ultimately show ?thesis using posix_env.delete_file [OF d] w0 n(1) by simp
    next
      case True
      then obtain f where f: "fo = Some f" "pw_filename f = ?man" using posix_env.new_writable [OF 0] by auto
      obtain r2 wr2 where 2: "AddRecord (PosixWritableFile se) (Writer_new f) (encode_edit (snapshot_edit (cmp_Name BytewiseComparator) s1)) = (r2, wr2)" by fastforce
      have p2: "pw_filename (lw_dest wr2) = ?man" using AddRecord_filename [OF 2] f(2) by (simp add: Writer_new_def)
      have m: "new_manifest (PosixEnv se) (cmp_Name BytewiseComparator) ?man s1 (ms_world st) = (r2, Some wr2, w0)"
        using True by (simp add: new_manifest_def 0 f(1) WriteSnapshot_def D 2)
      obtain r3 wr3 where 3: "log_edit (PosixWritableFile se) ?e wr2 = (r3, wr3)" by fastforce
      have p3: "pw_filename (lw_dest wr3) = ?man" using log_edit_filename [OF 3] p2 by simp
      obtain r4 w4 where 4: "SetCurrentFile (PosixEnv se) w0 db (vs_manifest_file_number (ms_set st)) = (r4, w4)" by fastforce
      note at = posix_env.SetCurrentFile_atomic [OF 4]
      have w4: "n \<noteq> CurrentFileName db \<or> \<not> ok r4 \<Longrightarrow> w_files w4 n = w_files (ms_world st) n"
        using at n(2) w0 by (cases "n = CurrentFileName db") auto
      let ?del = "\<lambda>w f. snd (eDeleteFile (PosixEnv se) (eDeleteWritable (PosixEnv se) w f) ?man)"
      consider "ms_world st' = ?del w0 (lw_dest wr2)" | "ms_world st' = ?del w0 (lw_dest wr3)" | "ms_world st' = ?del w4 (lw_dest wr3)" "\<not> ok r4"
        | "ms_world st' = w4" "ok r4" "ok r"
        using u by (cases "ok r2"; cases "ok r3"; cases "ok r4") (auto simp: None m 3 4)
      then show ?thesis
      proof cases
        case 1 then show ?thesis using delete_manifest_files [OF p2 n(1)] w0 by simp
      next
        case 2 then show ?thesis using delete_manifest_files [OF p3 n(1)] w0 by simp
      next
        case 3 then show ?thesis using delete_manifest_files [OF p3 n(1)] w4 by simp
      next
        case 4 then show ?thesis using w4 n(3) by auto
      qed
    qed
  qed
qed

lemma manifest_recovers_aux:
  assumes l: "LogAndApply (Posix_DbEnv se) BytewiseComparator rd db others edit st = (r, e, st')"
    and ms: "manifest_state db st es" and c: "counted (ms_set st) X Y {}"
    and b: "build_version icmp rd (complete_edit (ms_set st) edit) (ms_set st) = (v, s1)" and o: "others_ok others s1 Y"
    and ed: "edit_ok edit" "\<not> ve_has_comparator edit" "edits_fresh (\<lambda>_. {}) (logged_before st s1 es @ [edit])"
    and fr: "edit_fresh (ms_set st) (the (vs_current (ms_set st))) edit"
    and fit: "ms_log st = None \<Longrightarrow> keys_fit s1 (the (vs_current (ms_set st)))"
  shows "e = complete_edit (ms_set st) edit \<and> (\<forall>e\<in>set (logged_before st s1 es @ [e]). logged_ok BytewiseComparator e) \<and>
    edits_fresh (\<lambda>_. {}) (logged_before st s1 es @ [e]) \<and> (ok r \<longrightarrow> manifest_state db st' (logged_before st s1 es @ [e])) \<and>
    (ok r \<longrightarrow> (\<exists>wr. ms_log st' = Some wr \<and> fd_synced (pw_fd (lw_dest wr)) = length (fd_data (pw_fd (lw_dest wr))))) \<and>
    (ms_log st \<noteq> None \<or> ok r \<longrightarrow> w_files (ms_world st') (CurrentFileName db) = Some (str ''MANIFEST-'' @ pad6 (vs_manifest_file_number (ms_set st)) @ [10])) \<and>
    (\<forall>wr. ms_log st' = Some wr \<longrightarrow> (ms_log st \<noteq> None \<or> ok r) \<and> prefix (manifest_image (logged_before st s1 es)) (fd_data (pw_fd (lw_dest wr))) \<and>
       prefix (fd_data (pw_fd (lw_dest wr))) (manifest_image (logged_before st s1 es @ [e])) \<and>
       (ok r \<longrightarrow> fd_data (pw_fd (lw_dest wr)) = manifest_image (logged_before st s1 es @ [e])) \<and>
       length (manifest_image (if ok r then logged_before st s1 es @ [e] else logged_before st s1 es)) \<le> fd_synced (pw_fd (lw_dest wr)))"
proof -
  let ?es = "logged_before st s1 es"
  obtain c' where cur: "vs_current (ms_set st) = Some c'" "version_sorted (ms_set st) c'"
    "\<And>wr. ms_log st = Some wr \<Longrightarrow> posix_manifest.holds_log wr es \<and> (\<forall>e\<in>set es. logged_ok BytewiseComparator e) \<and>
          missing_field (edits_fields es) = Status_OK \<and> (\<forall>l<kNumLevels. version_levels (ms_set st) c' l = edits_levels es l) \<and>
          w_files (ms_world st) (CurrentFileName db) = Some (str ''MANIFEST-'' @ pad6 (vs_manifest_file_number (ms_set st)) @ [10])"
    using ms by (auto simp: manifest_state_def)
  let ?n = "vs_manifest_file_number (ms_set st)" and ?e = "complete_edit (ms_set st) edit"
  have fr': "edit_fresh (ms_set st) c' edit" using fr cur(1) by simp
  then have "edit_fresh (ms_set st) c' ?e" by simp
  note bv = build_version_ok [OF c cur(1,2) this b]
  then have s1: "vs_current s1 = Some c'" "same_version (ms_set st) s1 c'" "same_numbers (ms_set st) s1" by simp_all
  note setr = LogAndApply_set [OF l b s1(3)] and logr = LogAndApply_log [OF l b s1(3)]
  have e: "e = ?e" using setr by simp
  have levels: "edits_levels ?es k = version_levels (ms_set st) c' k" if "k < kNumLevels" for k
  proof (cases "ms_log st")
    case None
    then show ?thesis using snapshot_levels [OF s1(1) that] same_version_levels(2) [OF s1(2) cur(2) that] by (simp add: logged_before_def)
  next
    case (Some wr)
    then show ?thesis using cur(3) [OF Some] that by (simp add: logged_before_def)
  qed
  have good: "\<forall>e\<in>set (?es @ [e]). logged_ok BytewiseComparator e"
  proof -
    have "logged_ok BytewiseComparator (snapshot_edit (cmp_Name BytewiseComparator) s1)" if "ms_log st = None"
      by (rule snapshot_logged [OF s1(1)]) (use fit [OF that] cur(1) in \<open>simp_all add: BytewiseComparator_def str_def\<close>)
    then show ?thesis using cur(3) complete_edit_logged [OF ed(1,2)] by (cases "ms_log st") (auto simp: logged_before_def e)
  qed
  have logs: "(\<forall>wr. ms_log st' = Some wr \<longrightarrow> (ms_log st \<noteq> None \<or> ok r) \<and> (ok r \<longrightarrow> posix_manifest.holds_log wr (?es @ [e])) \<and>
      prefix (manifest_image ?es) (fd_data (pw_fd (lw_dest wr))) \<and> prefix (fd_data (pw_fd (lw_dest wr))) (manifest_image (?es @ [e])) \<and>
      length (manifest_image (if ok r then ?es @ [e] else ?es)) \<le> fd_synced (pw_fd (lw_dest wr))) \<and>
    (ms_log st \<noteq> None \<or> ok r \<longrightarrow> w_files (ms_world st') (CurrentFileName db) = Some (str ''MANIFEST-'' @ pad6 ?n @ [10]))"
  proof (cases "ms_log st")
    case (Some wr)
    from logr(1) [OF Some] obtain wr' where w: "log_edit (PosixWritableFile se) e wr = (r, wr')" "ms_log st' = Some wr'" "ms_world st' = ms_world st" by blast
    have h: "posix_manifest.holds_log wr es" using cur(3) [OF Some] by simp
    then have "posix_manifest.writes_log wr es" by (simp add: posix_manifest.holds_log_def)
    from posix_manifest.log_edit_ok [OF this w(1)] w cur(3) [OF Some] h show ?thesis
      by (auto simp: Some logged_before_def posix_manifest.holds_log_def)
  next
    case None
    show ?thesis
    proof (cases "ok r")
      case False
      then show ?thesis using logr(2) [OF None] by (simp add: None)
    next
      case True
      from logr(3) [OF None True] obtain f w1 wr wr2 where w: "eNewWritableFile (PosixEnv se) (ms_world st) (DescriptorFileName db ?n) = (Status_OK, Some f, w1)"
        "AddRecord (PosixWritableFile se) (Writer_new f) (encode_edit (snapshot_edit (cmp_Name BytewiseComparator) s1)) = (Status_OK, wr)"
        "log_edit (PosixWritableFile se) e wr = (Status_OK, wr2)" "ms_log st' = Some wr2" "SetCurrentFile (PosixEnv se) w1 db ?n = (r, ms_world st')" by (elim exE conjE) (rule that)
      have "pw_contents f = []" "fd_synced (pw_fd f) = 0" using posix_env.new_writable [OF w(1)] new_writable_unsynced [OF w(1)] by simp_all
      then have "posix_manifest.writes_log (Writer_new f) []"
        by (simp add: posix_manifest.writes_log_def writer_ready_new) (simp add: Writer_new_def pw_contents_def)
      from posix_manifest.add_edit [OF this w(2)] have "posix_manifest.writes_log wr ?es" by (simp add: logged_before_def None)
      from posix_manifest.log_edit_ok [OF this w(3)] posix_env.SetCurrentFile_atomic [OF w(5)] True w(4) show ?thesis
        by (simp add: posix_manifest.holds_log_def)
    qed
  qed
  have data: "posix_manifest.holds_log wr es' \<Longrightarrow> fd_data (pw_fd (lw_dest wr)) = manifest_image es' \<and>
      fd_synced (pw_fd (lw_dest wr)) = length (manifest_image es')" for wr es'
    by (auto simp: posix_manifest.holds_log_def posix_manifest.writes_log_def pw_contents_def)
  have open_log: "\<exists>wr. ms_log st' = Some wr" if "ok r"
    using logr(1) logr(3) [OF _ that] by (cases "ms_log st") blast+
  then have synced: "\<exists>wr. ms_log st' = Some wr \<and> fd_synced (pw_fd (lw_dest wr)) = length (fd_data (pw_fd (lw_dest wr)))" if "ok r"
    using logs data that by fastforce
  have "manifest_state db st' (?es @ [e])" if k: "ok r"
  proof -
    have o': "others_ok others (snd (build_version icmp rd ?e (ms_set st))) Y" using o b by simp
    from log_and_apply_installs [OF l c cur(1,2) fr' o'] k obtain v' where
      v': "vs_current (ms_set st') = Some v'" "version_sorted (ms_set st') v'"
        "\<forall>l<kNumLevels. version_levels (ms_set st') v' l = edit_level edit l (version_levels (ms_set st) c' l)"
      by (auto simp: applied_def)
    have num: "vs_manifest_file_number (ms_set st') = ?n"
      using setr k same_numbers_end(3) [of "run_others others s1" v] run_others_numbers [of others s1] s1(3) by (simp add: same_numbers_def)
    have "version_levels (ms_set st') v' l = edits_levels (?es @ [e]) l" if "l < kNumLevels" for l
      using v'(3) levels [OF that] that by (simp add: edits_levels_snoc e)
    moreover have "missing_field (edits_fields (?es @ [e])) = Status_OK" unfolding e by (rule complete_edit_fields)
    moreover have "w_files (ms_world st') (CurrentFileName db) = Some (str ''MANIFEST-'' @ pad6 (vs_manifest_file_number (ms_set st')) @ [10])"
      using logs k num by simp
    moreover have "posix_manifest.holds_log wr (?es @ [e])" if "ms_log st' = Some wr" for wr using logs that k by blast
    ultimately show ?thesis unfolding manifest_state_def using v'(1,2) good by blast
  qed
  then show ?thesis using logs data synced good e ed(3) complete_edit_edits_fresh by blast
qed

section \<open>When the kernel answers every call\<close>

lemma calm_write_loop: "write_loop se fn fd d = (s, fd') \<Longrightarrow> fd_answers fd = [] \<Longrightarrow> ok s \<and> fd_answers fd' = []"
proof (induction se fn fd d arbitrary: s fd' rule: write_loop.induct)
  case (1 se fn fd d)
  show ?case
  proof (cases "d = []")
    case True
    then show ?thesis using "1.prems" by (simp add: write_loop.simps [of se fn fd])
  next
    case False
    have w: "sys_write fd d = (Transfer (length d), fd\<lparr>fd_data := fd_data fd @ d\<rparr>)" using "1.prems"(2) by (simp add: sys_write_def)
    from "1.prems" False w show ?thesis by (auto simp: write_loop.simps [of se fn fd d] write_loop.simps [of se fn _ "[]"])
  qed
qed

definition calm_file :: "PosixWritable \<Rightarrow> bool" where
  "calm_file f \<longleftrightarrow> fd_answers (pw_fd f) = []"

lemma calm_Flush: "FlushBuffer se f = (s, f') \<Longrightarrow> calm_file f \<Longrightarrow> ok s \<and> calm_file f'"
  by (auto simp: FlushBuffer_def WriteUnbuffered_def Let_def calm_file_def dest: calm_write_loop split: prod.splits)

lemma calm_Unbuffered: "WriteUnbuffered se f d = (s, f') \<Longrightarrow> calm_file f \<Longrightarrow> ok s \<and> calm_file f'"
  by (auto simp: WriteUnbuffered_def Let_def calm_file_def dest: calm_write_loop split: prod.splits)

lemma calm_call: "sys_call fd = (e, fd') \<Longrightarrow> fd_answers fd = [] \<Longrightarrow> e = None \<and> fd_answers fd' = []"
  by (auto simp: sys_call_def)

lemma calm_SyncFd: "SyncFd se fd p = (s, fd') \<Longrightarrow> fd_answers fd = [] \<Longrightarrow> ok s \<and> fd_answers fd' = []"
  by (auto simp: SyncFd_def sys_sync_def sys_call_def Let_def split: prod.splits option.splits)

lemma calm_SyncDir: "SyncDirIfManifest se f = (s, f') \<Longrightarrow> calm_file f \<Longrightarrow> ok s \<and> calm_file f'"
  by (auto simp: SyncDirIfManifest_def SyncFd_def sys_sync_def sys_call_def Let_def calm_file_def split: prod.splits if_splits)

lemma calm_Append: "pw_Append se f d = (s, f') \<Longrightarrow> calm_file f \<Longrightarrow> ok s \<and> calm_file f'"
proof -
  assume a: "pw_Append se f d = (s, f')" "calm_file f"
  have b: "calm_file (f\<lparr>pw_buf := x\<rparr>)" for x using a(2) by (simp add: calm_file_def)
  from a(1) show ?thesis
  proof (cases rule: pw_Append_cases)
    case buffered
    then show ?thesis using b by simp
  next
    case (failed n)
    then show ?thesis using calm_Flush [OF failed(1) b] by simp
  next
    case (small f1 n st)
    then show ?thesis using calm_Flush [OF small(1) b] by (simp add: calm_file_def)
  next
    case (large f1 n st)
    then show ?thesis using calm_Flush [OF large(1) b] calm_Unbuffered by blast
  qed
qed

lemma calm_Sync: "pw_Sync se f = (s, f') \<Longrightarrow> calm_file f \<Longrightarrow> ok s \<and> calm_file f'"
proof -
  assume a: "pw_Sync se f = (s, f')" "calm_file f"
  obtain s1 f1 where 1: "SyncDirIfManifest se f = (s1, f1)" by fastforce
  obtain s2 f2 where 2: "FlushBuffer se f1 = (s2, f2)" by fastforce
  obtain s3 fd where 3: "SyncFd se (pw_fd f2) (pw_filename f2) = (s3, fd)" by fastforce
  note c1 = calm_SyncDir [OF 1 a(2)]
  note c2 = calm_Flush [OF 2 conjunct2 [OF c1]]
  from a(1) c1 c2 calm_SyncFd [OF 3] show ?thesis by (auto simp: pw_Sync_def 1 2 3 calm_file_def)
qed

lemma calm_Emit: "EmitPhysicalRecord (PosixWritableFile se) w t p = (s, w') \<Longrightarrow> calm_file (lw_dest w) \<Longrightarrow> ok s \<and> calm_file (lw_dest w')"
proof -
  assume a: "EmitPhysicalRecord (PosixWritableFile se) w t p = (s, w')" "calm_file (lw_dest w)"
  let ?buf = "EncodeFixed32 (Mask (Extend 0 (lw_type_crc w ! rt_num t) p)) @ [of_nat (length p mod 256), of_nat (length p div 256), of_nat (rt_num t)]"
  obtain s1 f1 where 1: "pw_Append se (lw_dest w) ?buf = (s1, f1)" by fastforce
  obtain s2 f2 where 2: "pw_Append se f1 p = (s2, f2)" by fastforce
  obtain s3 f3 where 3: "FlushBuffer se f2 = (s3, f3)" by fastforce
  have 4: "ok s1" "calm_file f1" using calm_Append [OF 1 a(2)] by simp_all
  have 5: "ok s2" "calm_file f2" using calm_Append [OF 2 4(2)] by simp_all
  have "ok s3 \<and> calm_file f3" by (rule calm_Flush [OF 3 5(2)])
  moreover have "wAppend (PosixWritableFile se) = pw_Append se" "wFlush (PosixWritableFile se) = FlushBuffer se" by (simp_all add: PosixWritableFile_def)
  ultimately show ?thesis using a(1) 4(1) 5(1) by (auto simp: EmitPhysicalRecord_def Let_def 1 [simplified] 2 3)
qed

lemma calm_AddRecord_loop:
  "AddRecord_loop ops w b d = (s, w') \<Longrightarrow> ops = PosixWritableFile se \<Longrightarrow> calm_file (lw_dest w) \<Longrightarrow> ok s \<and> calm_file (lw_dest w')"
proof (induction ops w b d arbitrary: s w' rule: AddRecord_loop.induct)
  case (1 ops w b p)
  let ?w1 = "StartBlock ops w"
  define n where "n = (if length p < kBlockSize - lw_block_offset ?w1 - kHeaderSize then length p else kBlockSize - lw_block_offset ?w1 - kHeaderSize)"
  obtain s2 w2 where e: "EmitPhysicalRecord ops ?w1 (fragment_type b (length p = n)) (take n p) = (s2, w2)" by fastforce
  have "calm_file (lw_dest ?w1)"
    using "1.prems"(2,3) calm_Append [OF prod.collapse [symmetric]] by (auto simp: StartBlock_def Let_def PosixWritableFile_def)
  from calm_Emit [OF e [unfolded "1.prems"(2)] this [unfolded "1.prems"(2)]] have k: "ok s2" "calm_file (lw_dest w2)" by simp_all
  have loop: "AddRecord_loop ops w b p = (if ok s2 \<and> length (drop n p) > 0 then AddRecord_loop ops w2 False (drop n p) else (s2, w2))"
    by (subst AddRecord_loop.simps) (simp only: Let_def n_def [symmetric] e prod.case)
  show ?case
  proof (cases "length (drop n p) > 0")
    case False
    then show ?thesis using loop k "1.prems"(1) by (simp split: if_splits)
  next
    case True
    have "AddRecord_loop ops w2 False (drop n p) = (s, w')" using loop k(1) True "1.prems"(1) by simp
    then show ?thesis
      by (rule "1.IH" [OF refl refl refl n_def refl refl e [symmetric] refl conjI [OF k(1) True] _ "1.prems"(2) k(2)])
  qed
qed

lemma calm_AddRecord: "AddRecord (PosixWritableFile se) w d = (s, w') \<Longrightarrow> calm_file (lw_dest w) \<Longrightarrow> ok s \<and> calm_file (lw_dest w')"
  unfolding AddRecord_def by (rule calm_AddRecord_loop [OF _ refl])

lemma calm_log_edit: "log_edit (PosixWritableFile se) e wr = (s, wr') \<Longrightarrow> calm_file (lw_dest wr) \<Longrightarrow> ok s \<and> calm_file (lw_dest wr')"
proof -
  assume a: "log_edit (PosixWritableFile se) e wr = (s, wr')" "calm_file (lw_dest wr)"
  obtain s1 w1 where 1: "AddRecord (PosixWritableFile se) wr (encode_edit e) = (s1, w1)" by fastforce
  obtain s2 f where 2: "pw_Sync se (lw_dest w1) = (s2, f)" by fastforce
  note c = calm_AddRecord [OF 1 a(2)]
  have y: "wSync (PosixWritableFile se) = pw_Sync se" by (simp add: PosixWritableFile_def)
  from calm_Sync [OF 2 conjunct2 [OF c]] a(1) c show ?thesis
    by (auto simp: log_edit_def 1 y 2)
qed

lemma calm_SetCurrentFile:
  assumes "SetCurrentFile (PosixEnv se) w db n = (s, w')" "w_answers w = []"
  shows "ok s"
proof -
  define d where "d = drop (length db + 1) (DescriptorFileName db n) @ [10]"
  let ?tmp = "TempFileName db n"
  have P: "wAppend (eWritable (PosixEnv se)) = pw_Append se" "wSync (eWritable (PosixEnv se)) = pw_Sync se" "wClose (eWritable (PosixEnv se)) = pw_Close se"
    "eDeleteWritable (PosixEnv se) = delete_WritableFile se" "eRenameFile (PosixEnv se) = RenameFile se" by (simp_all add: PosixEnv_def PosixWritableFile_def)
  obtain f w1 where 1: "eNewWritableFile (PosixEnv se) w ?tmp = (Status_OK, Some f, w1)" "calm_file f"
    using assms(2) by (simp add: PosixEnv_def NewWritableFile_def world_call_def calm_file_def PosixWritable_new_def open_fd_def)
  obtain s1 f1 where 2: "pw_Append se f d = (s1, f1)" by fastforce
  obtain s2 f2 where 3: "pw_Sync se f1 = (s2, f2)" by fastforce
  obtain s3 f3 where 4: "pw_Close se f2 = (s3, f3)" by fastforce
  have c1: "ok s1" "calm_file f1" using calm_Append [OF 2 1(2)] by simp_all
  have c2: "ok s2" "calm_file f2" using calm_Sync [OF 3 c1(2)] by simp_all
  have c3: "ok s3 \<and> calm_file f3 \<and> \<not> pw_open f3"
    using 4 c2(2) calm_Flush [of se f2] by (auto simp: pw_Close_def sys_call_def calm_file_def Let_def split: prod.splits)
  let ?w = "delete_WritableFile se w1 f3"
  have D: "DoWriteStringToFile (PosixEnv se) w d ?tmp True = (s3, ?w)"
    using c1(1) c2(1) c3 by (simp add: DoWriteStringToFile_def 1(1) P 2 3 4 Let_def)
  have path: "pw_filename f3 = ?tmp"
    using posix_env.new_writable [OF 1(1)] pw_Append_filename [OF 2] pw_Sync_spec [OF 3] pw_Close_spec(1) [OF 4] by simp
  have "w_answers ?w = []" "w_files ?w ?tmp \<noteq> None" using c3 path by (simp_all add: delete_WritableFile_def calm_file_def)
  then have "ok (fst (RenameFile se ?w ?tmp (CurrentFileName db)))" by (auto simp: RenameFile_def world_call_on_def world_call_def)
  then show ?thesis using assms(1) c3
    unfolding SetCurrentFile_def WriteStringToFileSync_def Let_def d_def [symmetric] D prod.case P
    by (auto split: prod.splits if_splits)
qed

lemma LogAndApply_calm:
  assumes l: "LogAndApply (Posix_DbEnv se) BytewiseComparator rd db others edit st = (r, e, st')"
    and w: "w_answers (ms_world st) = []" "\<And>wr. ms_log st = Some wr \<Longrightarrow> calm_file (lw_dest wr)"
  shows "ok r"
proof -
  have D: "de_env (Posix_DbEnv se) = PosixEnv se" "eWritable (PosixEnv se) = PosixWritableFile se" by (simp_all add: Posix_DbEnv_def PosixEnv_def)
  obtain v s1 where b: "build_version (IKC_Compare (cmp_Compare BytewiseComparator)) rd (complete_edit (ms_set st) edit) (ms_set st) = (v, s1)" by fastforce
  note u = l [unfolded LogAndApply_def Let_def b prod.case D]
  show ?thesis
  proof (cases "ms_log st")
    case (Some wr)
    obtain r1 wr1 where 1: "log_edit (PosixWritableFile se) (complete_edit (ms_set st) edit) wr = (r1, wr1)" by fastforce
    have "ok r1" using calm_log_edit [OF 1 w(2) [OF Some]] by simp
    then show ?thesis using u by (auto simp: Some 1)
  next
    case None
    let ?man = "DescriptorFileName db (vs_manifest_file_number (ms_set st))" and ?e = "SetNextFile (complete_edit (ms_set st) edit) (vs_next_file_number s1)"
    obtain f w1 where 1: "eNewWritableFile (PosixEnv se) (ms_world st) ?man = (Status_OK, Some f, w1)" "calm_file f" "w_answers w1 = []"
      using w(1) by (simp add: PosixEnv_def NewWritableFile_def world_call_def calm_file_def PosixWritable_new_def open_fd_def)
    obtain r2 wr where 2: "AddRecord (PosixWritableFile se) (Writer_new f) (encode_edit (snapshot_edit (cmp_Name BytewiseComparator) s1)) = (r2, wr)" by fastforce
    have c2: "ok r2" "calm_file (lw_dest wr)" using calm_AddRecord [OF 2] 1(2) by (simp_all add: Writer_new_def)
    have n: "new_manifest (PosixEnv se) (cmp_Name BytewiseComparator) ?man s1 (ms_world st) = (r2, Some wr, w1)"
      by (simp add: new_manifest_def 1(1) WriteSnapshot_def D 2)
    obtain r3 wr3 where 3: "log_edit (PosixWritableFile se) ?e wr = (r3, wr3)" by fastforce
    have c3: "ok r3" using calm_log_edit [OF 3 c2(2)] by simp
    obtain r4 w4 where 4: "SetCurrentFile (PosixEnv se) w1 db (vs_manifest_file_number (ms_set st)) = (r4, w4)" by fastforce
    have "ok r4" by (rule calm_SetCurrentFile [OF 4 1(3)])
    then show ?thesis using u c2(1) c3 by (auto simp: None n 3 4)
  qed
qed

section \<open>Compaction pointers\<close>

lemma build_version_pointers:
  assumes "build_version icompare rd e s = (v, s1)" "vs_current s = Some c" "vs_version s c = Some ver" "c < vs_limit s"
  shows "vs_compact_pointer s1 = vs_compact_pointer (fold apply_compact_pointer (ve_compact_pointers e) s)"
proof -
  obtain s2 where 1: "Version_new s = (v, s2)" using assms(1) by (auto simp: build_version_def Let_def split: prod.splits)
  then have s2: "vs_compact_pointer s2 = vs_compact_pointer s" "vs_current s2 = Some c" "v = vs_limit s" "vs_version s2 v = Some Version_init"
    using assms(2) by (auto simp: Version_new_def set_version_def Let_def)
  obtain b s3 where 2: "Builder_new c s2 = (b, s3)" by (cases "Builder_new c s2")
  obtain b4 s4 where 3: "Builder_Apply icompare e (b, s3) = (b4, s4)" by (cases "Builder_Apply icompare e (b, s3)")
  have p: "vs_compact_pointer (fold apply_compact_pointer ps s) = fold (\<lambda>p xs. xs[nat (fst p) := snd p]) ps (vs_compact_pointer s)" for ps s
    by (induction ps arbitrary: s) (simp_all add: apply_compact_pointer_def)
  have f: "fold (apply_new_file icompare) ps (b, s) = (b', s') \<Longrightarrow> vs_compact_pointer s' = vs_compact_pointer s \<and> vs_version s' = vs_version s \<and> b_base b' = b_base b" for ps b s b' s'
  proof (induction ps arbitrary: b s)
    case (Cons q ps)
    obtain b1 s1 where 1: "apply_new_file icompare q (b, s) = (b1, s1)" by (cases "apply_new_file icompare q (b, s)")
    then have "vs_compact_pointer s1 = vs_compact_pointer s \<and> vs_version s1 = vs_version s \<and> b_base b1 = b_base b"
      by (auto simp: apply_new_file_def new_file_def set_file_def Let_def)
    then show ?case using Cons.IH [of b1 s1] Cons.prems 1 by simp
  qed simp
  have d: "b_base (fold apply_deleted_file ps b) = b_base b" for ps b by (induction ps arbitrary: b) (simp_all add: apply_deleted_file_def Let_def)
  have v: "vs_version (fold apply_compact_pointer ps s) = vs_version s" for ps s by (induction ps arbitrary: s) (simp_all add: apply_compact_pointer_def)
  have s3: "vs_compact_pointer s3 = vs_compact_pointer s2" "b_base b = c" "vs_version s3 v = Some Version_init"
    using 2 s2 assms(4) by (auto simp: Builder_new_def Version_Ref_def set_version_def Let_def)
  have s4: "vs_compact_pointer s4 = vs_compact_pointer (fold apply_compact_pointer (ve_compact_pointers e) s)"
    "b_base b4 = c" "vs_version s4 v = Some Version_init"
    using f [of "ve_new_files e" "fold apply_deleted_file (ve_deleted_files e) b" "fold apply_compact_pointer (ve_compact_pointers e) s3" b4 s4] 3 s3 s2(1) d v
    by (simp_all add: Builder_Apply_def Let_def p)
  have "v \<noteq> b_base b4" using s4(2) s2(3) assms(4) by simp
  with SaveTo_ok [OF s4(3) _ this, of icompare] have "vs_compact_pointer (SaveTo icompare b4 v s4) = vs_compact_pointer s4" by (auto simp: Version_init_def)
  then show ?thesis using assms(1) s4(1) s2(2)
    by (auto simp: build_version_def 1 2 3 delete_Builder_def Version_Unref_def delete_Version_def Finalize_def set_version_def Let_def split: prod.splits)
qed

section \<open>Properties\<close>

text \<open>C24. Reference counts: whatever the environment answers and whatever other threads do to the version set while the manifest
  is written, \<^verbatim>\<open>LogAndApply\<close> leaves every file with as many references as live versions list it, and every version with exactly
  the references that its holders have, those of before and those the other threads took and gave back: the reference to the version
  that was current is dropped when another takes its place, nothing is freed too early and nothing is lost. On success the current
  version is what the edit makes of the old one, on failure it is the old one. An edit with a log number must pass the assertions.\<close>

theorem log_and_apply_references:
  assumes "LogAndApply D BytewiseComparator rd dbname others edit st = (r, e, st')" and "log_number_ok (ms_set st) edit"
    and "counted (ms_set st) X Y {}" "vs_current (ms_set st) = Some c" "version_sorted (ms_set st) c" "edit_fresh (ms_set st) c edit"
    and "others_ok others (snd (build_version icmp rd (complete_edit (ms_set st) edit) (ms_set st))) Y"
  shows "counted (ms_set st') X (held_after c others Y) {} \<and> applied (ms_set st) c edit r (ms_set st')"
  by (rule log_and_apply_installs [OF assms(1,3-)])

text \<open>C3. The manifest on POSIX files. When \<^verbatim>\<open>LogAndApply\<close> succeeds, the open manifest is synced in full and \<^verbatim>\<open>CURRENT\<close> names it.
  When it succeeds, and also when it fails on a manifest that was open, and the machine then stops and leaves of the manifest
  any prefix that holds the synced bytes, \<^verbatim>\<open>Recover\<close> in a new process, if it finds \<^verbatim>\<open>CURRENT\<close> to name the manifest, returns
  with a good status and the state that the logged edits lead to: with the new edit if \<^verbatim>\<open>LogAndApply\<close> succeeded, otherwise with
  or without it, never anything else. A new manifest starts with a snapshot. Apart from it, the temporary file and, on success,
  \<^verbatim>\<open>CURRENT\<close>, no file is touched: when the call fails, or when the renaming of \<^verbatim>\<open>CURRENT\<close>, which the code does not
  sync, is undone by the stop, \<^verbatim>\<open>CURRENT\<close> and the manifest it named are those of before the call. It succeeds when the kernel
  answers every call.\<close>

theorem manifest_recovers:
  assumes "LogAndApply (Posix_DbEnv se) BytewiseComparator rd db others edit st = (r, e, st')" and "log_number_ok (ms_set st) edit"
    and "manifest_state db st es" and "counted (ms_set st) X Y {}"
    and "build_version icmp rd (complete_edit (ms_set st) edit) (ms_set st) = (v, s1)" and "others_ok others s1 Y"
    and "edit_ok edit" "\<not> ve_has_comparator edit" "edits_fresh (\<lambda>_. {}) (logged_before st s1 es @ [edit])"
    and "edit_fresh (ms_set st) (the (vs_current (ms_set st))) edit"
    and "ms_log st = None \<Longrightarrow> keys_fit s1 (the (vs_current (ms_set st)))"
  shows "(ok r \<longrightarrow> manifest_state db st' (logged_before st s1 es @ [e]) \<and>
      w_files (ms_world st') (CurrentFileName db) = Some (str ''MANIFEST-'' @ pad6 (vs_manifest_file_number (ms_set st)) @ [10]) \<and>
      (\<exists>wr. ms_log st' = Some wr \<and> fd_synced (pw_fd (lw_dest wr)) = length (fd_data (pw_fd (lw_dest wr))))) \<and>
    (\<forall>wr w n opts. ms_log st' = Some wr \<longrightarrow> w_answers w = [] \<longrightarrow>
      w_files w (CurrentFileName db) = Some (str ''MANIFEST-'' @ pad6 (vs_manifest_file_number (ms_set st)) @ [10]) \<longrightarrow>
      w_files w (DescriptorFileName db (vs_manifest_file_number (ms_set st))) = Some (take n (fd_data (pw_fd (lw_dest wr)))) \<longrightarrow>
      fd_synced (pw_fd (lw_dest wr)) \<le> n \<longrightarrow>
      (\<exists>save st2. Recover (Posix_DbEnv se) BytewiseComparator rd db False \<lparr>ms_set = VersionSet_new opts, ms_world = w, ms_log = None\<rparr> =
          Some (Status_OK, save, st2) \<and> counted (ms_set st2) (\<lambda>_. 0) (\<lambda>_. 0) {} \<and>
        (if ok r then recovered_from (ms_set st2) (logged_before st s1 es @ [e])
         else recovered_from (ms_set st2) es \<or> recovered_from (ms_set st2) (es @ [e])))) \<and>
    (\<forall>n. n \<noteq> DescriptorFileName db (vs_manifest_file_number (ms_set st)) \<longrightarrow> n \<noteq> TempFileName db (vs_manifest_file_number (ms_set st)) \<longrightarrow>
      (n = CurrentFileName db \<longrightarrow> \<not> ok r) \<longrightarrow> w_files (ms_world st') n = w_files (ms_world st) n) \<and>
    (w_answers (ms_world st) = [] \<longrightarrow> (\<forall>wr. ms_log st = Some wr \<longrightarrow> calm_file (lw_dest wr)) \<longrightarrow> ok r)"
proof (intro conjI allI impI)
  let ?es = "logged_before st s1 es" and ?base = "str ''MANIFEST-'' @ pad6 (vs_manifest_file_number (ms_set st))"
  note aux = manifest_recovers_aux [OF assms(1,3-)]
  note files = LogAndApply_files [OF assms(1)]
  show "w_answers (ms_world st) = [] \<Longrightarrow> \<forall>wr. ms_log st = Some wr \<longrightarrow> calm_file (lw_dest wr) \<Longrightarrow> ok r"
    using LogAndApply_calm [OF assms(1)] by blast
  show "w_files (ms_world st') n = w_files (ms_world st) n" if "n \<noteq> DescriptorFileName db (vs_manifest_file_number (ms_set st))"
    "n \<noteq> TempFileName db (vs_manifest_file_number (ms_set st))" "n = CurrentFileName db \<longrightarrow> \<not> ok r" for n
    using files that by blast
  show "ok r \<Longrightarrow> manifest_state db st' (?es @ [e])" using aux by blast
  show "ok r \<Longrightarrow> w_files (ms_world st') (CurrentFileName db) = Some (str ''MANIFEST-'' @ pad6 (vs_manifest_file_number (ms_set st)) @ [10])"
    using aux by simp
  show "\<exists>wr. ms_log st' = Some wr \<and> fd_synced (pw_fd (lw_dest wr)) = length (fd_data (pw_fd (lw_dest wr)))" if k: "ok r"
    using aux k by blast
  fix wr n opts and w :: World
  assume wr: "ms_log st' = Some wr" and w: "w_answers w = []" and cur: "w_files w (CurrentFileName db) = Some (str ''MANIFEST-'' @ pad6 (vs_manifest_file_number (ms_set st)) @ [10])"
    and man: "w_files w (DescriptorFileName db (vs_manifest_file_number (ms_set st))) = Some (take n (fd_data (pw_fd (lw_dest wr))))"
    and y: "fd_synced (pw_fd (lw_dest wr)) \<le> n"
  let ?data = "fd_data (pw_fd (lw_dest wr))" and ?st = "\<lparr>ms_set = VersionSet_new opts, ms_world = w, ms_log = None\<rparr> :: (World, PosixWritable) ManifestState"
  have a: "ms_log st \<noteq> None \<or> ok r" "prefix (manifest_image ?es) ?data" "prefix ?data (manifest_image (?es @ [e]))"
    "ok r \<Longrightarrow> ?data = manifest_image (?es @ [e])"
    "length (manifest_image (if ok r then ?es @ [e] else ?es)) \<le> fd_synced (pw_fd (lw_dest wr))" using aux wr by blast+
  have es: "?es = es" if "ms_log st \<noteq> None" using that by (cases "ms_log st") (simp_all add: logged_before_def)
  have n: "(if ok r then length ?data else length (manifest_image es)) \<le> n"
    using a(1,4,5) y es by (cases "ok r") auto
  have fn: "DescriptorFileName db k = db @ str ''/'' @ str ''MANIFEST-'' @ pad6 k" for k
    using pad6_digits(4) [of k] by (simp add: DescriptorFileName_def str_Cons)
  let ?d = "take n ?data"
  have d2: "length (manifest_image ?es) \<le> length ?d"
    using n a(1,2) es prefix_length_le [OF a(2)] by (auto split: if_splits)
  have pd: "prefix ?d (manifest_image (?es @ [e]))" using a(3) take_is_prefix prefix_order.trans by blast
  then have d1: "take (length ?d) (manifest_image (?es @ [e])) = ?d" by (metis append_eq_conv_conj prefix_def)
  obtain c where c: "counted (VersionSet_new opts) (\<lambda>_. 0) (\<lambda>_. 0) {}" "vs_current (VersionSet_new opts) = Some c"
    "vs_files (VersionSet_new opts) c = replicate kNumLevels []" using VersionSet_new_counted by blast
  have D: "de_env (Posix_DbEnv se) = PosixEnv se" by (simp add: Posix_DbEnv_def)
  have mf: "w_files w (db @ str ''/'' @ ?base) = Some (take (length ?d) (manifest_image (?es @ [e])))" unfolding d1 using man fn by simp
  have good: "\<forall>e\<in>set (?es @ [e]). logged_ok BytewiseComparator e" "edits_fresh (\<lambda>_. {}) (?es @ [e])" using aux by blast+
  obtain m r2 sm2 st2 where R: "Recover (Posix_DbEnv se) BytewiseComparator rd db False ?st = Some (r2, sm2, st2)"
    "map fst (complete 0 0 (map encode_edit (?es @ [e])) (length ?d)) = map encode_edit (take m (?es @ [e]))"
    "r2 = missing_field (edits_fields (take m (?es @ [e])))" "counted (ms_set st2) (\<lambda>_. 0) (\<lambda>_. 0) {}"
    "ok r2 \<longrightarrow> recovered_from (ms_set st2) (take m (?es @ [e]))"
    using posix_reading.Recover_ok [of "Posix_DbEnv se" se ?st db ?base "length ?d" "?es @ [e]" "\<lambda>_. 0" "\<lambda>_. 0" c rd False] D w cur mf good c by auto
  note cut = cut_log [OF pd d2 R(2)]
  have full: "take m (?es @ [e]) = ?es @ [e]" if "ok r" using cut(3) a(4) [OF that] n that by simp
  have last_ok: "missing_field (edits_fields (?es @ [e])) = Status_OK" using aux complete_edit_fields by metis
  have old_ok: "missing_field (edits_fields es) = Status_OK" if "ms_log st \<noteq> None" using assms(3) that by (auto simp: manifest_state_def)
  have "r2 = Status_OK" using R(3) cut(2) full last_ok old_ok a(1) es by auto
  moreover from this have "recovered_from (ms_set st2) (take m (?es @ [e]))" using R(5) by simp
  ultimately show "\<exists>save st2. Recover (Posix_DbEnv se) BytewiseComparator rd db False ?st = Some (Status_OK, save, st2) \<and>
      counted (ms_set st2) (\<lambda>_. 0) (\<lambda>_. 0) {} \<and>
      (if ok r then recovered_from (ms_set st2) (?es @ [e]) else recovered_from (ms_set st2) es \<or> recovered_from (ms_set st2) (es @ [e]))"
    using R(1,4) cut(2) full a(1) es by (auto split: if_splits)
qed

text \<open>A new database: nothing but the edit.\<close>

definition new_database :: "(World, PosixWritable) ManifestState" where
  "new_database = \<lparr>ms_set = VersionSet_new Options_new, ms_world = calm_world, ms_log = None\<rparr>"

lemma sample_edit_ok: "edit_ok sample_edit" "\<not> ve_has_comparator sample_edit" "edit_levels_ok sample_edit"
    "l < kNumLevels \<Longrightarrow> distinct (new_numbers sample_edit l)" "ve_compact_pointers sample_edit = []"
proof -
  show "edit_ok sample_edit" unfolding sample_edit_def by (intro inv_intro; simp add: level_ok_def kNumLevels_def length_InternalKey)
  show "\<not> ve_has_comparator sample_edit" "edit_levels_ok sample_edit" "ve_compact_pointers sample_edit = []"
    by (simp_all add: sample_edit_def AddFile_def VersionEdit_new_def VersionEdit_Clear_def edit_levels_ok_def kNumLevels_def)
  show "distinct (new_numbers sample_edit l)"
    by (cases "l = 1") (auto simp: sample_edit_def AddFile_def VersionEdit_new_def VersionEdit_Clear_def new_numbers_def FileMetaData_new_def)
qed

lemma sample_edit_log_number: "log_number_ok s sample_edit"
  by (simp add: log_number_ok_def sample_edit_def AddFile_def VersionEdit_new_def VersionEdit_Clear_def)

lemma new_database_ready:
  assumes "build_version icmp id (complete_edit (ms_set new_database) sample_edit) (ms_set new_database) = (v, s1)"
  shows "\<exists>c. counted (ms_set new_database) (\<lambda>_. 0) (\<lambda>_. 0) {} \<and> vs_current (ms_set new_database) = Some c \<and> version_sorted (ms_set new_database) c \<and>
    edit_fresh (ms_set new_database) c sample_edit \<and> keys_fit s1 c \<and> edits_fresh (\<lambda>_. {}) [snapshot_edit (cmp_Name BytewiseComparator) s1, sample_edit]"
proof -
  let ?s = "VersionSet_new Options_new"
  obtain c where c: "counted ?s (\<lambda>_. 0) (\<lambda>_. 0) {}" "vs_current ?s = Some c" "vs_files ?s c = replicate kNumLevels []"
    using VersionSet_new_counted by blast
  have srt: "version_sorted ?s c" using c(3) by (simp add: version_sorted_def)
  have fr: "edit_fresh ?s c sample_edit" using sample_edit_ok c(3) by (simp add: edit_fresh_def)
  then have "edit_fresh ?s c (complete_edit ?s sample_edit)" by simp
  from build_version_ok [OF c(1,2) srt this] assms have s1: "same_version ?s s1 c" "vs_current s1 = Some c" by (simp_all add: new_database_def)
  have cd: "c \<in> dom (vs_version ?s)" using counted_holder(1) [OF c(1) counted_current [OF c(1,2)]] .
  then obtain ver where ver: "vs_version ?s c = Some ver" by blast
  have lim: "c < vs_limit ?s" using c(1) cd by (auto simp: counted_def addresses_fresh_def not_le [symmetric])
  have "ve_compact_pointers (complete_edit ?s sample_edit) = []"
    by (simp add: complete_edit_def Let_def SetLogNumber_def SetPrevLogNumber_def SetNextFile_def SetLastSequence_def sample_edit_ok)
  with build_version_pointers [OF assms [unfolded new_database_def ManifestState.simps] c(2) ver lim]
  have p: "vs_compact_pointer s1 = replicate kNumLevels []"
    by (simp add: VersionSet_new_def Version_new_def AppendVersion_def Version_Ref_def set_version_def Let_def)
  have f: "vs_files s1 c ! l = []" if "l < kNumLevels" for l using s1(1) c(3) that by (simp add: same_version_def)
  have fold: "(\<And>l. l < kNumLevels \<Longrightarrow> g l = id) \<Longrightarrow> fold g [0..<kNumLevels] e = e" for g :: "nat \<Rightarrow> VersionEdit \<Rightarrow> VersionEdit" and e
    using fold_invariant [where P = "\<lambda>x. x = e" and Q = "\<lambda>l. l < kNumLevels" and f = g and xs = "[0..<kNumLevels]" and s = e] by simp
  have "snapshot_edit name s1 = SetComparatorName VersionEdit_new name" for name
    unfolding snapshot_edit_def Let_def s1(2) option.sel by (subst fold, simp add: f id_def, subst fold, simp add: p id_def, rule refl)
  then have "edits_fresh (\<lambda>_. {}) [snapshot_edit (cmp_Name BytewiseComparator) s1, sample_edit]"
    using sample_edit_ok by (simp add: edit_levels_ok_def new_numbers_def SetComparatorName_def VersionEdit_new_def VersionEdit_Clear_def)
  moreover have "keys_fit s1 c" by (simp add: keys_fit_def p f)
  ultimately show ?thesis using c srt fr by (auto simp: new_database_def)
qed

theorem log_and_apply_references_witness:
  "let (r, e, st') = LogAndApply (Posix_DbEnv (\<lambda>_. [])) BytewiseComparator id [100] [RefCurrent, TakeFileNumber] sample_edit new_database
   in \<exists>c. vs_current (ms_set new_database) = Some c \<and> counted (ms_set st') (\<lambda>_. 0) ((\<lambda>_. 0)(c := 1)) {} \<and> applied (ms_set new_database) c sample_edit r (ms_set st')"
proof -
  obtain r e st' where l: "LogAndApply (Posix_DbEnv (\<lambda>_. [])) BytewiseComparator id [100] [RefCurrent, TakeFileNumber] sample_edit new_database = (r, e, st')"
    by (metis prod_cases3)
  obtain v s1 where b: "build_version icmp id (complete_edit (ms_set new_database) sample_edit) (ms_set new_database) = (v, s1)" by fastforce
  obtain c where c: "counted (ms_set new_database) (\<lambda>_. 0) (\<lambda>_. 0) {}" "vs_current (ms_set new_database) = Some c"
    "version_sorted (ms_set new_database) c" "edit_fresh (ms_set new_database) c sample_edit" using new_database_ready [OF b] by blast
  from log_and_apply_references [OF l sample_edit_log_number c] c(2) show ?thesis by (auto simp: l)
qed

theorem manifest_recovers_witness:
  "\<exists>r e st' wr. LogAndApply (Posix_DbEnv (\<lambda>_. [])) BytewiseComparator id [100] [RefCurrent, TakeFileNumber] sample_edit new_database = (r, e, st') \<and>
    ok r \<and> ms_log st' = Some wr \<and>
    (\<exists>save st2 es. Recover (Posix_DbEnv (\<lambda>_. [])) BytewiseComparator id [100] False
        \<lparr>ms_set = VersionSet_new Options_new,
         ms_world = (ms_world st')\<lparr>w_answers := [], w_files := (w_files (ms_world st'))(DescriptorFileName [100] 0 \<mapsto> fd_data (pw_fd (lw_dest wr)))\<rparr>, ms_log = None\<rparr> =
      Some (Status_OK, save, st2) \<and> recovered_from (ms_set st2) (es @ [e]))"
proof -
  obtain r e st' where l: "LogAndApply (Posix_DbEnv (\<lambda>_. [])) BytewiseComparator id [100] [RefCurrent, TakeFileNumber] sample_edit new_database = (r, e, st')"
    by (metis prod_cases3)
  obtain v s1 where b: "build_version icmp id (complete_edit (ms_set new_database) sample_edit) (ms_set new_database) = (v, s1)" by fastforce
  obtain c where c: "counted (ms_set new_database) (\<lambda>_. 0) (\<lambda>_. 0) {}" "vs_current (ms_set new_database) = Some c"
    "version_sorted (ms_set new_database) c" "edit_fresh (ms_set new_database) c sample_edit" "keys_fit s1 c"
    "edits_fresh (\<lambda>_. {}) [snapshot_edit (cmp_Name BytewiseComparator) s1, sample_edit]" using new_database_ready [OF b] by blast
  have n: "ms_log new_database = None" "ms_world new_database = calm_world" "vs_manifest_file_number (ms_set new_database) = 0"
    by (simp_all add: new_database_def VersionSet_new_def Version_new_def AppendVersion_def Version_Ref_def set_version_def Let_def)
  have ms: "manifest_state [100] new_database []" using c(2,3) n(1) by (simp add: manifest_state_def)
  have o: "others_ok [RefCurrent, TakeFileNumber] s1 (\<lambda>_. 0)" by simp
  have fr: "edits_fresh (\<lambda>_. {}) (logged_before new_database s1 [] @ [sample_edit])" using c(6) n(1) by (simp add: logged_before_def)
  note R = manifest_recovers [OF l sample_edit_log_number ms c(1) b o sample_edit_ok(1,2) fr, unfolded c(2) option.sel, OF c(4) c(5)]
  have k: "ok r" using conjunct2 [OF conjunct2 [OF conjunct2 [OF R]]] n by (simp add: calm_world_def)
  obtain wr where wr: "ms_log st' = Some wr" "fd_synced (pw_fd (lw_dest wr)) = length (fd_data (pw_fd (lw_dest wr)))"
    "w_files (ms_world st') (CurrentFileName [100]) = Some (str ''MANIFEST-'' @ pad6 0 @ [10])"
    using conjunct1 [OF R] k n(3) by auto
  have ne: "DescriptorFileName [100] 0 \<noteq> CurrentFileName [100]" using pad6_digits(4) [of 0] by (simp add: DescriptorFileName_def CurrentFileName_def str_Cons)
  let ?w = "(ms_world st')\<lparr>w_answers := [], w_files := (w_files (ms_world st'))(DescriptorFileName [100] 0 \<mapsto> fd_data (pw_fd (lw_dest wr)))\<rparr>"
  have "\<exists>save st2. Recover (Posix_DbEnv (\<lambda>_. [])) BytewiseComparator id [100] False \<lparr>ms_set = VersionSet_new Options_new, ms_world = ?w, ms_log = None\<rparr> =
      Some (Status_OK, save, st2) \<and> recovered_from (ms_set st2) (logged_before new_database s1 [] @ [e])"
    using conjunct1 [OF conjunct2 [OF R], rule_format, of wr ?w "length (fd_data (pw_fd (lw_dest wr)))" Options_new] wr n(3) ne k by simp blast
  then show ?thesis using l k wr(1) by blast
qed

end
