(* ===== verification/Compaction_Drop.thy ===== *)
theory Compaction_Drop
  imports Version_Lookup
begin

text \<open>
  \<^verbatim>\<open>db/db_impl.cc\<close>, the rule by which a compaction drops entries, and what it means for readers: whoever reads at a
  snapshot that is still needed gets the answer he got before. For entries of the levels below, the rule relies on
  \<^verbatim>\<open>IsBaseLevelForKey\<close>, and for the next level on the choice of the inputs.
\<close>

section \<open>The code\<close>

text \<open>\<^verbatim>\<open>has_current_user_key\<close> is whether there is a current user key.\<close>

record DropState =
  ds_current_user_key :: "bytes option"
  ds_last_sequence :: u64

definition DropState_new :: DropState where
  "DropState_new = \<lparr>ds_current_user_key = None, ds_last_sequence = kMaxSequenceNumber\<rparr>"

definition drop_entry :: "(bytes \<Rightarrow> bytes \<Rightarrow> int) \<Rightarrow> VersionSet \<Rightarrow> u64 \<Rightarrow> bytes \<Rightarrow> DropState \<times> Compaction \<Rightarrow> bool \<times> DropState \<times> Compaction" where
  "drop_entry ucmp s smallest_snapshot key dc =
     (let (d, c) = dc in
      case ParseInternalKey key of
        None \<Rightarrow> (False, DropState_new, c)
      | Some ikey \<Rightarrow>
          let d = (if ds_current_user_key d = None \<or> ucmp (user_key ikey) (the (ds_current_user_key d)) \<noteq> 0
                   then \<lparr>ds_current_user_key = Some (user_key ikey), ds_last_sequence = kMaxSequenceNumber\<rparr> else d);
              (dropped, c) =
                (if ds_last_sequence d \<le> smallest_snapshot then (True, c)
                 else if vtype ikey = kTypeDeletion \<and> sequence ikey \<le> smallest_snapshot then IsBaseLevelForKey ucmp s (user_key ikey) c
                 else (False, c))
          in (dropped, d\<lparr>ds_last_sequence := sequence ikey\<rparr>, c))"

text \<open>The entries that a run over all inputs keeps.\<close>

fun kept_entries :: "(bytes \<Rightarrow> bytes \<Rightarrow> int) \<Rightarrow> VersionSet \<Rightarrow> u64 \<Rightarrow> kvs \<Rightarrow> DropState \<times> Compaction \<Rightarrow> kvs" where
  "kept_entries ucmp s smallest_snapshot [] dc = []"
| "kept_entries ucmp s smallest_snapshot (e # es) dc =
     (let (dropped, dc) = drop_entry ucmp s smallest_snapshot (fst e) dc
      in if dropped then kept_entries ucmp s smallest_snapshot es dc else e # kept_entries ucmp s smallest_snapshot es dc)"

section \<open>Which entries are dropped\<close>

text \<open>Entries of a key from new to old.\<close>

definition strict_entries :: "kvs \<Rightarrow> bool" where
  "strict_entries kvs \<longleftrightarrow> well_formed kvs \<and> sorted_wrt (\<lambda>a b. ukey a < ukey b \<or> ukey a = ukey b \<and> seq_of b < seq_of a) kvs"

text \<open>An entry is hidden by a newer one that every reader sees; a deletion is obsolete when nothing below has its key.\<close>

definition hidden :: "kvs \<Rightarrow> u64 \<Rightarrow> bytes \<times> bytes \<Rightarrow> bool" where
  "hidden kvs smallest e \<longleftrightarrow> (\<exists>e'\<in>set kvs. ukey e' = ukey e \<and> seq_of e < seq_of e' \<and> seq_of e' \<le> smallest)"

definition obsolete :: "VersionSet \<Rightarrow> Compaction \<Rightarrow> u64 \<Rightarrow> bytes \<times> bytes \<Rightarrow> bool" where
  "obsolete s c smallest e \<longleftrightarrow> type_of e = kTypeDeletion \<and> seq_of e \<le> smallest \<and> base_key s c (ukey e)"

text \<open>The state behind some entries.\<close>

definition drop_state :: "kvs \<Rightarrow> DropState" where
  "drop_state pre = (if pre = [] then DropState_new else \<lparr>ds_current_user_key = Some (ukey (last pre)), ds_last_sequence = seq_of (last pre)\<rparr>)"

lemma hidden_last:
  assumes "strict_entries (pre @ e # post)"
  shows "hidden (pre @ e # post) L e \<longleftrightarrow> pre \<noteq> [] \<and> ukey (last pre) = ukey e \<and> seq_of (last pre) \<le> L"
proof -
  have srt: "\<And>a. a \<in> set pre \<Longrightarrow> ukey a < ukey e \<or> ukey a = ukey e \<and> seq_of e < seq_of a"
    "\<And>b. b \<in> set post \<Longrightarrow> ukey e < ukey b \<or> ukey e = ukey b \<and> seq_of b < seq_of e"
    using assms by (auto simp: strict_entries_def sorted_wrt_append)
  have l: "a = last pre \<or> ukey a < ukey (last pre) \<or> ukey a = ukey (last pre) \<and> seq_of (last pre) < seq_of a" if "a \<in> set pre" for a
    using that assms by (cases pre rule: rev_cases) (auto simp: strict_entries_def sorted_wrt_append)
  show ?thesis
  proof
    assume "hidden (pre @ e # post) L e"
    then obtain e' where e': "e' \<in> set pre" "ukey e' = ukey e" "seq_of e' \<le> L" using srt(2) by (fastforce simp: hidden_def)
    then have ne: "pre \<noteq> []" by auto
    then have lp: "last pre \<in> set pre" by simp
    have "ukey (last pre) \<le> ukey e" using srt(1) [OF lp] by auto
    moreover have "ukey e \<le> ukey (last pre)" "ukey (last pre) = ukey e \<Longrightarrow> seq_of (last pre) \<le> seq_of e'" using l [OF e'(1)] e'(2) by auto
    ultimately show "pre \<noteq> [] \<and> ukey (last pre) = ukey e \<and> seq_of (last pre) \<le> L" using ne e'(3) by auto
  next
    assume *: "pre \<noteq> [] \<and> ukey (last pre) = ukey e \<and> seq_of (last pre) \<le> L"
    then show "hidden (pre @ e # post) L e" using srt(1) [of "last pre"] by (auto simp: hidden_def intro!: bexI [of _ "last pre"])
  qed
qed

lemma drop_entry_ok:
  assumes srt: "strict_entries (pre @ e # post)" and L: "L < kMaxSequenceNumber"
    and ok: "levels_ok (vs_fs s) (vs_files s (the (c_input_version c)))" "asked s c (ukey e)"
  shows "\<exists>p. drop_entry Bytewise_Compare s L (fst e) (drop_state pre, c) =
      (hidden (pre @ e # post) L e \<or> obsolete s c L e, drop_state (pre @ [e]), c\<lparr>c_level_ptrs := p\<rparr>) \<and> asked s (c\<lparr>c_level_ptrs := p\<rparr>) (ukey e)"
proof -
  obtain ik where ik: "ParseInternalKey (fst e) = Some ik" using srt by (auto simp: strict_entries_def well_formed_def)
  have e: "user_key ik = ukey e" "sequence ik = seq_of e" "vtype ik = type_of e" using ik Parse_num [OF ik] by (simp_all add: seq_of_def type_of_def)
  let ?same = "pre \<noteq> [] \<and> ukey (last pre) = ukey e"
  let ?d = "if ds_current_user_key (drop_state pre) = None \<or> Bytewise_Compare (ukey e) (the (ds_current_user_key (drop_state pre))) \<noteq> 0
    then \<lparr>ds_current_user_key = Some (ukey e), ds_last_sequence = kMaxSequenceNumber\<rparr> else drop_state pre"
  have d: "ds_current_user_key ?d = Some (ukey e)" "ds_last_sequence ?d \<le> L \<longleftrightarrow> hidden (pre @ e # post) L e"
    using L by (auto simp: drop_state_def DropState_new_def hidden_last [OF srt])
  have ds: "?d\<lparr>ds_last_sequence := seq_of e\<rparr> = drop_state (pre @ [e])" using d(1) by (simp add: drop_state_def)
  obtain p where p: "IsBaseLevelForKey Bytewise_Compare s (ukey e) c = (base_key s c (ukey e), c\<lparr>c_level_ptrs := p\<rparr>)" "asked s (c\<lparr>c_level_ptrs := p\<rparr>) (ukey e)"
    using IsBaseLevelForKey_ok [OF ok] by blast
  have "drop_entry Bytewise_Compare s L (fst e) (drop_state pre, c) =
      (let (dropped, c) = (if ds_last_sequence ?d \<le> L then (True, c)
          else if type_of e = kTypeDeletion \<and> seq_of e \<le> L then IsBaseLevelForKey Bytewise_Compare s (ukey e) c else (False, c))
       in (dropped, ?d\<lparr>ds_last_sequence := seq_of e\<rparr>, c))"
    by (simp only: drop_entry_def Let_def case_prod_conv ik option.case e)
  also have "\<dots> = (hidden (pre @ e # post) L e \<or> obsolete s c L e, drop_state (pre @ [e]),
      if \<not> hidden (pre @ e # post) L e \<and> type_of e = kTypeDeletion \<and> seq_of e \<le> L then c\<lparr>c_level_ptrs := p\<rparr> else c\<lparr>c_level_ptrs := c_level_ptrs c\<rparr>)"
    unfolding d(2) ds by (auto simp: obsolete_def p(1))
  finally have fin: "drop_entry Bytewise_Compare s L (fst e) (drop_state pre, c) = \<dots>" .
  show ?thesis
  proof (cases "\<not> hidden (pre @ e # post) L e \<and> type_of e = kTypeDeletion \<and> seq_of e \<le> L")
    case True
    then show ?thesis using p(2) unfolding fin by auto
  next
    case False
    then show ?thesis using ok(2) unfolding fin by (intro exI [of _ "c_level_ptrs c"]) (simp only: if_False, simp)
  qed
qed

lemma kept_entries_ok:
  assumes "strict_entries (pre @ post)" "L < kMaxSequenceNumber" "levels_ok (vs_fs s) (vs_files s (the (c_input_version c)))"
    and "\<forall>e\<in>set post. asked s c (ukey e)"
  shows "kept_entries Bytewise_Compare s L post (drop_state pre, c) = filter (\<lambda>e. \<not> hidden (pre @ post) L e \<and> \<not> obsolete s c L e) post"
  using assms
proof (induction post arbitrary: pre c)
  case (Cons e post)
  obtain p where p: "drop_entry Bytewise_Compare s L (fst e) (drop_state pre, c) =
      (hidden (pre @ e # post) L e \<or> obsolete s c L e, drop_state (pre @ [e]), c\<lparr>c_level_ptrs := p\<rparr>)" "asked s (c\<lparr>c_level_ptrs := p\<rparr>) (ukey e)"
    using drop_entry_ok [OF Cons.prems(1-3)] Cons.prems(4) by auto
  have "\<forall>b\<in>set post. ukey e \<le> ukey b" using Cons.prems(1) by (auto simp: strict_entries_def sorted_wrt_append)
  then have a: "\<forall>b\<in>set post. asked s (c\<lparr>c_level_ptrs := p\<rparr>) (ukey b)" using asked_mono [OF p(2)] by blast
  have o: "obsolete s (c\<lparr>c_level_ptrs := p\<rparr>) L = obsolete s c L" by (simp add: obsolete_def base_key_def fun_eq_iff)
  show ?case using Cons.IH [of "pre @ [e]" "c\<lparr>c_level_ptrs := p\<rparr>"] Cons.prems(1-3) a by (simp add: p(1) o)
qed simp

section \<open>Readers\<close>

definition unique_seqs :: "(nat \<Rightarrow> kvs) \<Rightarrow> nat list list \<Rightarrow> bool" where
  "unique_seqs C files \<longleftrightarrow> (\<forall>f\<in>set (concat files). \<forall>g\<in>set (concat files). \<forall>a\<in>set (C f). \<forall>b\<in>set (C g).
     ukey a = ukey b \<longrightarrow> seq_of a = seq_of b \<longrightarrow> f = g \<and> a = b)"

text \<open>A lookup turns no answer into not found.\<close>

definition read_result :: "status option \<times> bytes \<Rightarrow> status \<times> bytes" where
  "read_result r = (case fst r of None \<Rightarrow> NotFound [] | Some x \<Rightarrow> x, snd r)"

definition entries_in :: "(nat \<Rightarrow> kvs) \<Rightarrow> nat set \<Rightarrow> (bytes \<times> bytes) set" where
  "entries_in C F = (\<Union>f\<in>F. set (C f))"

lemma in_levels: "length files = kNumLevels \<Longrightarrow> f \<in> set (concat files) \<longleftrightarrow> (\<exists>l<kNumLevels. f \<in> set (files ! l))"
  by (auto simp: in_set_conv_nth [of _ files]) (metis nth_mem)

lemma entries_in_levels: "length files = kNumLevels \<Longrightarrow> entries_from C files 0 = entries_in C (set (concat files))"
  unfolding entries_from_def entries_in_def by (fastforce simp: in_levels simp del: set_concat)

lemma entries_in_mono: "F \<subseteq> G \<Longrightarrow> entries_in C F \<subseteq> entries_in C G"
  by (auto simp: entries_in_def)

text \<open>A file in front of another one of its level holds the newer entries.\<close>

lemma before_newer:
  assumes "file_holds fs C f" "file_holds fs C g" "icmp (fm_largest (fs g)) (fm_smallest (fs f)) < 0" "a \<in> set (C f)" "b \<in> set (C g)" "ukey a = ukey b"
  shows "seq_of a \<le> seq_of b"
proof -
  have "icmp (fst b) (fst a) \<le> 0"
    using icmp_le_less_trans [OF file_holds_range(2) [OF assms(2,5)] assms(3)] file_holds_range(1) [OF assms(1,4)] icmp_less_le_trans by fastforce
  then show ?thesis using assms by (intro entry_order) (auto simp: file_holds_def sorted_entries_def well_formed_def)
qed

text \<open>What the inputs of a compaction must be: nothing in their levels, outside of them, is older than an entry of theirs.\<close>

definition inputs_closed :: "FileStore \<Rightarrow> nat list list \<Rightarrow> Compaction \<Rightarrow> bool" where
  "inputs_closed fs files c \<longleftrightarrow> c_level c + 1 < kNumLevels \<and> inputs_complete fs files (c_level c) (c_inputs0 c) (c_inputs1 c) \<and>
     no_older_left fs (c_level c + 1) (files ! (c_level c + 1)) (c_inputs1 c)"

lemma inputs_are_files:
  assumes "length files = kNumLevels" "inputs_closed fs files c"
  shows "set (c_inputs0 c) \<union> set (c_inputs1 c) \<subseteq> set (concat files)"
proof -
  have "set (c_inputs0 c) \<subseteq> set (files ! c_level c)" "set (c_inputs1 c) \<subseteq> set (files ! (c_level c + 1))" "c_level c + 1 < kNumLevels"
    using assms(2) by (auto simp: inputs_closed_def inputs_complete_def Let_def split: prod.splits)
  then show ?thesis unfolding subset_iff Un_iff in_levels [OF assms(1)] by (meson add_lessD1)
qed

lemma older_is_below:
  assumes v: "version_holds fs C files" and un: "unique_seqs C files" and cl: "inputs_closed fs files c"
    and f: "f \<in> set (c_inputs0 c) \<union> set (c_inputs1 c)" "a \<in> set (C f)"
    and g: "g \<in> set (concat files) - (set (c_inputs0 c) \<union> set (c_inputs1 c))" "b \<in> set (C g)" and ab: "ukey a = ukey b" "seq_of b \<le> seq_of a"
  shows "\<exists>l<kNumLevels. c_level c + 2 \<le> l \<and> g \<in> set (files ! l)"
proof (rule ccontr)
  assume no: "\<not> ?thesis"
  let ?l = "c_level c"
  have len: "length files = kNumLevels" using v by (simp add: version_holds_def levels_ok_def)
  have l: "?l + 1 < kNumLevels" "?l < kNumLevels" using cl by (simp_all add: inputs_closed_def)
  obtain S T where r: "GetRange icmp fs (c_inputs0 c) = (S, T)" by (cases "GetRange icmp fs (c_inputs0 c)")
  have in1: "set (c_inputs1 c) = {g \<in> set (files ! (?l + 1)). overlaps (Some (ExtractUserKey S)) (Some (ExtractUserKey T)) (fs g)}"
    and in0: "set (c_inputs0 c) \<subseteq> set (files ! ?l)" "no_older_left fs ?l (files ! ?l) (c_inputs0 c)"
    using cl by (auto simp: inputs_closed_def inputs_complete_def r)
  obtain k where k: "k < kNumLevels" "g \<in> set (files ! k)" using g(1) in_levels [OF len] by auto
  have k2: "k < ?l + 2" using no k by (meson not_le)
  have fl: "f \<in> set (concat files)" using f(1) in0(1) in1 l in_levels [OF len] by fastforce
  have holds: "file_holds fs C h" if "h \<in> set (concat files)" for h using that v in_levels [OF len] by (auto simp: version_holds_def)
  have strict: "\<not> seq_of a \<le> seq_of b"
  proof
    assume "seq_of a \<le> seq_of b"
    then have "f = g" using un fl g f(2) ab unfolding unique_seqs_def by (metis Diff_iff order_antisym)
    then show False using f(1) g(1) by simp
  qed
  have up: False if "i < j" "j < kNumLevels" "g \<in> set (files ! i)" "f \<in> set (files ! j)" for i j
    using v that f(2) g(2) ab strict unfolding version_holds_def by metis
  have sh: "shares (fs f) (fs g)"
    using file_holds_range(3,4) [OF holds [OF fl] f(2)] file_holds_range(3,4) [where f = g, OF holds g(2)] g(1) ab(1)
    by (auto simp: shares_def intro: order_trans)
  have same: False if "no_older_left fs i (files ! i) inputs" "f \<in> set inputs" "g \<in> set (files ! i) - set inputs" for i inputs
    using that sh before_newer [OF holds [OF fl] holds, of g a b] f(2) g ab strict by (auto simp: no_older_left_def)
  consider "f \<in> set (c_inputs0 c)" | "f \<in> set (c_inputs1 c)" using f(1) by blast
  then show False
  proof cases
    case 1
    have "k \<noteq> ?l" using same [OF in0(2) 1] k(2) g(1) by auto
    moreover have "\<not> k < ?l" using up [of k ?l] k 1 in0(1) l by auto
    moreover have "k \<noteq> ?l + 1"
    proof
      assume kl: "k = ?l + 1"
      have "icmp S (fm_smallest (fs f)) \<le> 0" "icmp (fm_largest (fs f)) T \<le> 0" using GetRange_covers [OF r 1] by simp_all
      then have "ExtractUserKey S \<le> smallest_user_key (fs f)" "largest_user_key (fs f) \<le> ExtractUserKey T"
        using icmp_le_ukey by (auto simp: smallest_user_key_def largest_user_key_def)
      then have "overlaps (Some (ExtractUserKey S)) (Some (ExtractUserKey T)) (fs g)"
        using sh by (auto simp: overlaps_iff shares_def intro: order_trans)
      then show False using in1 k(2) kl g(1) by auto
    qed
    ultimately show False using k2 by simp
  next
    case 2
    have "k \<noteq> ?l + 1" using same [of "?l + 1" "c_inputs1 c"] 2 cl k(2) g(1) by (auto simp: inputs_closed_def)
    moreover have "\<not> k < ?l + 1" using up [of k "?l + 1"] k 2 in1 l by auto
    ultimately show False using k2 by simp
  qed
qed

lemma unique_entry:
  assumes "unique_seqs C files" "a \<in> entries_in C (set (concat files))" "b \<in> entries_in C (set (concat files))" "ukey a = ukey b" "seq_of a = seq_of b"
  shows "a = b"
  using assms unfolding entries_in_def unique_seqs_def by blast

lemma strict_merge:
  assumes "sorted_entries kvs" "set kvs \<subseteq> entries_in C (set (concat files))" "unique_seqs C files"
  shows "strict_entries kvs"
proof -
  have "ukey a < ukey b \<or> ukey a = ukey b \<and> seq_of b < seq_of a" if ab: "a \<in> set kvs" "b \<in> set kvs" "icmp (fst a) (fst b) < 0" for a b
  proof -
    have "seq_of b \<le> seq_of a" if "ukey a = ukey b"
      using entry_order [of a b] that ab assms(1) by (auto simp: sorted_entries_def well_formed_def)
    moreover have "seq_of b \<noteq> seq_of a" if "ukey a = ukey b"
    proof
      assume "seq_of b = seq_of a"
      then have "a = b" using unique_entry [OF assms(3)] subsetD [OF assms(2)] ab(1,2) that by metis
      then show False using ab(3) by simp
    qed
    ultimately show ?thesis using icmp_less_ukey [OF ab(3)] by (auto simp: order_less_le)
  qed
  from sorted_wrt_mono_rel [OF this, of kvs] show ?thesis using assms(1) by (simp add: strict_entries_def sorted_entries_def)
qed

lemma newest_answerI:
  assumes "e \<in> E" "visible_at u s e" "\<And>e'. e' \<in> E \<Longrightarrow> visible_at u s e' \<Longrightarrow> seq_of e' \<le> seq_of e"
  shows "newest_answer E u s v (entry_answer (Some e) v)"
proof -
  have "\<exists>e\<in>E. visible_at u s e" using assms(1,2) by blast
  then show ?thesis using assms unfolding newest_answer_def by (subst if_P) blast+
qed

text \<open>The entries after a compaction: those of the files that stay and those that it keeps.\<close>

definition after_compaction :: "(nat \<Rightarrow> kvs) \<Rightarrow> nat list list \<Rightarrow> Compaction \<Rightarrow> kvs \<Rightarrow> (bytes \<times> bytes) set" where
  "after_compaction C files c kept = entries_in C (set (concat files) - (set (c_inputs0 c) \<union> set (c_inputs1 c))) \<union> set kept"

lemma compaction_keeps_reads:
  assumes v: "version_holds fs C files" and un: "unique_seqs C files" and cl: "inputs_closed fs files c"
    and files: "files = vs_files s (the (c_input_version c))" "fs = vs_fs s" and ptrs: "c_level_ptrs c = replicate kNumLevels 0"
    and kvs: "sorted_entries kvs" "set kvs = entries_in C (set (c_inputs0 c) \<union> set (c_inputs1 c))"
    and L: "L < kMaxSequenceNumber" "L \<le> sn"
    and r: "newest_answer (entries_in C (set (concat files))) u sn val r"
  shows "\<exists>r'. newest_answer (after_compaction C files c (kept_entries Bytewise_Compare s L kvs (DropState_new, c))) u sn val r' \<and> read_result r' = read_result r"
proof -
  let ?I = "set (c_inputs0 c) \<union> set (c_inputs1 c)" and ?E = "entries_in C (set (concat files))"
  let ?K = "filter (\<lambda>e. \<not> hidden kvs L e \<and> \<not> obsolete s c L e) kvs"
  have len: "length files = kNumLevels" using v by (simp add: version_holds_def levels_ok_def)
  have sub: "?I \<subseteq> set (concat files)"
    using inputs_are_files [OF len cl] .
  then have IE: "set kvs \<subseteq> ?E" unfolding kvs(2) by (rule entries_in_mono)
  have strict: "strict_entries kvs" by (rule strict_merge [OF kvs(1) IE un])
  have K: "kept_entries Bytewise_Compare s L kvs (DropState_new, c) = ?K"
    using kept_entries_ok [of "[]" kvs L s c] strict L(1) v files asked_new [OF ptrs] by (simp add: drop_state_def version_holds_def)
  let ?E' = "after_compaction C files c ?K"
  have EE: "?E' \<subseteq> ?E" using IE unfolding after_compaction_def by (intro Un_least entries_in_mono) auto
  have stays: "e \<in> ?E'" if "e \<in> ?E" "e \<in> set kvs \<Longrightarrow> \<not> hidden kvs L e \<and> \<not> obsolete s c L e" for e
    using that kvs(2) unfolding after_compaction_def entries_in_def by (cases "e \<in> set kvs") (auto simp del: set_concat)
  show ?thesis unfolding K
  proof (cases "\<exists>e\<in>?E. visible_at u sn e")
    case False
    then have "\<not> (\<exists>e\<in>?E'. visible_at u sn e)" using EE by blast
    then show "\<exists>r'. newest_answer ?E' u sn val r' \<and> read_result r' = read_result r" using r False by (auto simp: newest_answer_def)
  next
    case True
    then obtain e where e: "e \<in> ?E" "visible_at u sn e" "\<And>e'. e' \<in> ?E \<Longrightarrow> visible_at u sn e' \<Longrightarrow> seq_of e' \<le> seq_of e" "r = entry_answer (Some e) val"
      using r by (auto simp: newest_answer_def)
    show "\<exists>r'. newest_answer ?E' u sn val r' \<and> read_result r' = read_result r"
    proof (cases "e \<in> ?E'")
      case True
      then have "newest_answer ?E' u sn val r" unfolding e(4) using EE e(2,3) by (intro newest_answerI) blast+
      then show ?thesis by blast
    next
      case gone: False
      have seen: "\<not> hidden kvs L e"
      proof
        assume "hidden kvs L e"
        then obtain e' where e': "e' \<in> set kvs" "ukey e' = ukey e" "seq_of e < seq_of e'" "seq_of e' \<le> L" by (auto simp: hidden_def)
        then have "visible_at u sn e'" using e(2) L(2) by (auto simp: visible_at_def)
        then show False using e(3) e' IE by (meson subsetD not_le)
      qed
      then have ek: "e \<in> set kvs" "obsolete s c L e" using stays [OF e(1)] gone by blast+
      obtain f where f: "f \<in> ?I" "e \<in> set (C f)" using ek(1) kvs(2) by (auto simp: entries_in_def)
      have "\<not> visible_at u sn b" if b: "b \<in> ?E'" for b
      proof
        assume vb: "visible_at u sn b"
        have bE: "b \<in> ?E" using b EE by blast
        have le: "seq_of b \<le> seq_of e" "ukey e = ukey b" using e(3) [OF bE vb] e(2) vb by (simp_all add: visible_at_def)
        show False
        proof (cases "b \<in> set ?K")
          case True
          then have "b \<noteq> e" "\<not> hidden kvs L b" using ek by auto
          moreover have "seq_of b \<noteq> seq_of e" using unique_entry [OF un bE e(1)] \<open>b \<noteq> e\<close> le(2) by metis
          ultimately show False using ek le by (auto simp: hidden_def obsolete_def order_less_le)
        next
          case False
          then obtain g where g: "g \<in> set (concat files) - ?I" "b \<in> set (C g)" using b by (auto simp: after_compaction_def entries_in_def)
          obtain l where l: "l < kNumLevels" "c_level c + 2 \<le> l" "g \<in> set (files ! l)" using older_is_below [OF v un cl f g le(2,1)] by blast
          then have "file_holds fs C g" using v by (auto simp: version_holds_def)
          from file_holds_range(3,4) [OF this g(2)] have "holds_key (fs g) (ukey e)" using le(2) by (simp add: holds_key_def)
          then show False using ek(2) l by (auto simp: obsolete_def base_key_def files)
        qed
      qed
      then have "newest_answer ?E' u sn val (None, val)" by (auto simp: newest_answer_def entry_answer_def)
      moreover have "read_result r = (NotFound [], val)" using e(4) ek(2) by (simp add: entry_answer_def obsolete_def read_result_def)
      ultimately show ?thesis by (auto simp: read_result_def)
    qed
  qed
qed

section \<open>A deleted key comes back\<close>

text \<open>Level 1 has one file. Level 2 has a deletion of the key 3 at the end of its first file and an older value of the key at the
  start of its second file: a snapshot between them, no longer in use, once kept the value.\<close>

definition split_contents :: "nat \<Rightarrow> kvs" where
  "split_contents f =
     (if f = 1 then [(InternalKey [1] 9 kTypeValue, [5])]
      else if f = 2 then [(InternalKey [1] 6 kTypeValue, [6]), (InternalKey [3] 5 kTypeDeletion, [])]
      else [(InternalKey [3] 4 kTypeValue, [7])])"

definition split_levels :: "nat list list" where
  "split_levels = [[], [1], [2, 3], [], [], [], []]"

definition split_file :: FileStore where
  "split_file f = (FileMetaData_new (of_nat f))\<lparr>fm_smallest := fst (hd (split_contents f)), fm_largest := fst (last (split_contents f))\<rparr>"

definition split_set :: VersionSet where
  "split_set = (VersionSet_new Options_new)\<lparr>vs_version := [7 \<mapsto> Version_init\<lparr>v_files := split_levels, v_compaction_score := 1, v_compaction_level := 1\<rparr>],
     vs_file := (\<lambda>f. Some (split_file f)), vs_current := Some 7\<rparr>"

definition split_entries :: kvs where
  "split_entries = [(InternalKey [1] 9 kTypeValue, [5]), (InternalKey [1] 6 kTypeValue, [6]), (InternalKey [3] 5 kTypeDeletion, [])]"

lemma split_levels_at: "l < kNumLevels \<Longrightarrow> split_levels ! l = (if l = 1 then [1] else if l = 2 then [2, 3] else [])"
proof -
  assume "l < kNumLevels"
  then have "l \<in> {0, 1, 2, 3, 4, 5, 6}" by (auto simp: kNumLevels_def)
  then show ?thesis by (auto simp: split_levels_def)
qed

lemma split_parse: "s \<le> kMaxSequenceNumber \<Longrightarrow> seq_of (InternalKey u s t, v) = s \<and> type_of (InternalKey u s t, v) = t"
  by (simp add: seq_of_def type_of_def ParseInternalKey_InternalKey)

lemma split_holds: "file_holds split_file split_contents f"
  by (auto simp: file_holds_def split_file_def split_contents_def sorted_entries_def well_formed_def icmp_less ParseInternalKey_InternalKey kMaxSequenceNumber_def)

lemma split_keys:
  "smallest_user_key (split_file 1) = [1]" "largest_user_key (split_file 1) = [1]" "smallest_user_key (split_file 2) = [1]"
  "largest_user_key (split_file 2) = [3]" "smallest_user_key (split_file 3) = [3]" "largest_user_key (split_file 3) = [3]"
  by (simp_all add: smallest_user_key_def largest_user_key_def split_file_def split_contents_def)

lemma split_levels_ok: "levels_ok split_file split_levels"
proof -
  have "file_ok (split_file f)" for f
    by (auto simp: file_ok_def split_file_def split_contents_def icmp_le ParseInternalKey_InternalKey kMaxSequenceNumber_def)
  then have "level_sorted split_file (split_levels ! l)" if "l < kNumLevels" for l
    unfolding split_levels_at [OF that] by (auto simp: level_sorted_def split_file_def split_contents_def icmp_less PackSequenceAndType_def)
  moreover have "split_levels ! 0 = []" "length split_levels = kNumLevels" by (simp_all add: split_levels_def kNumLevels_def)
  ultimately show ?thesis by (simp add: levels_ok_def)
qed

lemma split_version: "version_holds split_file split_contents split_levels" "unique_seqs split_contents split_levels"
proof -
  have at0: "split_levels ! 0 = []" by (simp add: split_levels_at kNumLevels_def)
  have "seq_of b \<le> seq_of a" if "i < j" "j < kNumLevels" "f \<in> set (split_levels ! i)" "g \<in> set (split_levels ! j)"
      "a \<in> set (split_contents f)" "b \<in> set (split_contents g)" "ukey a = ukey b" for i j f g a b
  proof -
    have "f = 1" using that(1-4) split_levels_at [of i] split_levels_at [of j] by (auto split: if_splits)
    then have "seq_of a = 9" using that(5) by (auto simp: split_contents_def split_parse kMaxSequenceNumber_def)
    moreover have "seq_of b \<le> 9" using that(6) by (auto simp: split_contents_def split_parse kMaxSequenceNumber_def split: if_splits)
    ultimately show ?thesis by simp
  qed
  moreover have "length (split_levels ! l) < 2 ^ 31" if "l < kNumLevels" for l using split_levels_at [OF that] by simp
  ultimately show "version_holds split_file split_contents split_levels" using split_levels_ok split_holds by (simp add: version_holds_def at0)
  show "unique_seqs split_contents split_levels"
    by (auto simp: unique_seqs_def split_levels_def split_contents_def split_parse kMaxSequenceNumber_def)
qed

lemma split_picked:
  "\<exists>c s'. PickCompaction Bytewise_Compare split_set = Some (Some c, s') \<and> picked split_set 7 c s' \<and> set (c_inputs0 c) = {1} \<and> c_inputs1 c = [2] \<and> c_level c = 1"
proof -
  have f: "vs_files split_set 7 = split_levels" "vs_fs split_set = split_file" "vs_current split_set = Some 7" "7 \<in> dom (vs_version split_set)"
    by (simp_all add: split_set_def)
  have ver: "v_compaction_score (the (vs_version split_set 7)) = 1" "v_compaction_level (the (vs_version split_set 7)) = 1"
    "v_file_to_compact (the (vs_version split_set 7)) = None" by (simp_all add: split_set_def Version_init_def)
  have pick: "pick_ok split_set" "NeedsCompaction split_set" by (simp_all add: pick_ok_def NeedsCompaction_def Let_def f ver split_levels_at kNumLevels_def)
  obtain c s' where c: "PickCompaction Bytewise_Compare split_set = Some (Some c, s')" "picked split_set 7 c s'" and lv: "c_level c = 1"
    using PickCompaction_ok [OF split_levels_ok [folded f(1,2)] pick(1) f(3,4)] pick(2) by (auto simp: ver Let_def split: option.splits)
  have cpl: "inputs_complete split_file split_levels 1 (c_inputs0 c) (c_inputs1 c)" using c(2) by (simp add: picked_def f lv)
  then have ne: "c_inputs0 c \<noteq> []" "set (c_inputs0 c) \<subseteq> {1}" by (simp_all add: inputs_complete_def split_levels_def)
  then have i0: "set (c_inputs0 c) = {1}" by (cases "c_inputs0 c") auto
  obtain S L where r: "GetRange icmp split_file (c_inputs0 c) = (S, L)" by (cases "GetRange icmp split_file (c_inputs0 c)")
  from GetRange_ends [OF r ne(1)] have "ExtractUserKey S = [1]" "ExtractUserKey L = [1]"
    using split_keys(1,2) by (simp_all add: i0 smallest_user_key_def largest_user_key_def)
  then have "c_inputs1 c = [2]" using cpl by (simp add: inputs_complete_def r split_levels_def overlaps_iff split_keys)
  then show ?thesis using c i0 lv by blast
qed

text \<open>C27. A defect of the choice of inputs. The boundary files of the next level are not added, as those of the compacted level
  are. So a deletion can be compacted away although an older value of its key stays behind in the next file of the
  same level: the version is sound, the automatic compaction picks its inputs, and a lookup that found nothing finds the old
  value afterwards.\<close>

theorem compaction_resurrects:
  "version_holds split_file split_contents split_levels \<and> unique_seqs split_contents split_levels \<and>
   (\<exists>c s'. PickCompaction Bytewise_Compare split_set = Some (Some c, s') \<and> vs_files split_set 7 = split_levels \<and> vs_fs split_set = split_file \<and>
     sorted_entries split_entries \<and> set split_entries = entries_in split_contents (set (c_inputs0 c) \<union> set (c_inputs1 c)) \<and>
     newest_answer (entries_in split_contents (set (concat split_levels))) [3] 9 [] (Some (NotFound []), []) \<and>
     newest_answer (after_compaction split_contents split_levels c (kept_entries Bytewise_Compare s' 9 split_entries (DropState_new, c))) [3] 9 []
       (Some Status_OK, [7]))"
proof -
  have f: "vs_files split_set 7 = split_levels" "vs_fs split_set = split_file" "vs_current split_set = Some 7" "7 \<in> dom (vs_version split_set)"
    by (simp_all add: split_set_def)
  obtain c s' where c: "PickCompaction Bytewise_Compare split_set = Some (Some c, s')" "picked split_set 7 c s'" "set (c_inputs0 c) = {1}" "c_inputs1 c = [2]"
    and lv: "c_level c = 1" using split_picked by blast
  have s': "vs_fs s' = split_file" "vs_files s' 7 = split_levels" using c(2) Version_Ref_same(1,2) [OF f(4)] by (auto simp: picked_def f)
  have iv: "c_input_version c = Some 7" "c_level_ptrs c = replicate kNumLevels 0"
    using picked_fields [OF c(2)] by blast+
  have parse: "seq_of (InternalKey u n t, v) = n" "type_of (InternalKey u n t, v) = t" if "n \<in> {4, 5, 6, 9}" for u n t v
    using split_parse [of n] that by (auto simp: kMaxSequenceNumber_def)
  have kvs: "sorted_entries split_entries"
    by (auto simp: split_entries_def sorted_entries_def well_formed_def icmp_less ParseInternalKey_InternalKey kMaxSequenceNumber_def PackSequenceAndType_def)
  have all: "set split_entries = entries_in split_contents (set (c_inputs0 c) \<union> set (c_inputs1 c))"
    by (auto simp: c(3,4) entries_in_def split_entries_def split_contents_def)
  have strict: "strict_entries split_entries"
    using kvs by (auto simp: strict_entries_def sorted_entries_def split_entries_def parse)
  have base: "base_key s' c [3]"
    by (auto simp: base_key_def iv s' lv split_levels_at)
  have "kept_entries Bytewise_Compare s' 9 split_entries (DropState_new, c) = filter (\<lambda>e. \<not> hidden split_entries 9 e \<and> \<not> obsolete s' c 9 e) split_entries"
    using kept_entries_ok [of "[]" split_entries 9 s' c] strict split_levels_ok asked_new [OF iv(2)] by (simp add: drop_state_def iv s' kMaxSequenceNumber_def)
  then have kept: "set (kept_entries Bytewise_Compare s' 9 split_entries (DropState_new, c)) \<subseteq> {(InternalKey [1] 9 kTypeValue, [5]), (InternalKey [1] 6 kTypeValue, [6])}"
    using base by (auto simp: split_entries_def obsolete_def parse)
  let ?E' = "after_compaction split_contents split_levels c (kept_entries Bytewise_Compare s' 9 split_entries (DropState_new, c))"
  have mem: "(InternalKey [3] 4 kTypeValue, [7]) \<in> ?E'" by (auto simp: after_compaction_def entries_in_def split_levels_def c(3,4) split_contents_def)
  have only: "e = (InternalKey [3] 4 kTypeValue, [7])" if "e \<in> ?E'" "visible_at [3] 9 e" for e
    using that kept by (auto simp: after_compaction_def entries_in_def split_levels_def c(3,4) split_contents_def visible_at_def)
  have "visible_at [3] 9 (InternalKey [3] 4 kTypeValue, [7])" by (simp add: visible_at_def parse)
  from newest_answerI [OF mem this] only have "newest_answer ?E' [3] 9 [] (entry_answer (Some (InternalKey [3] 4 kTypeValue, [7])) [])" by blast
  then have after: "newest_answer ?E' [3] 9 [] (Some Status_OK, [7])" by (simp add: entry_answer_def parse)
  have "newest_answer (entries_in split_contents (set (concat split_levels))) [3] 9 [] (entry_answer (Some (InternalKey [3] 5 kTypeDeletion, [])) [])"
    by (rule newest_answerI) (auto simp: entries_in_def split_levels_def split_contents_def visible_at_def parse)
  then have before: "newest_answer (entries_in split_contents (set (concat split_levels))) [3] 9 [] (Some (NotFound []), [])" by (simp add: entry_answer_def parse)
  show ?thesis using split_version c(1) f(1,2) kvs all before after by blast
qed

end
