(* ===== verification/Spec2Isabelle.thy ===== *)
theory Spec2Isabelle
  imports Log_Recovery Write_Batch Hash Bloom Block_Reader Block_Safety Version_Edit Filename Lru_Properties
    Arena Table_Properties Db_View Version_Builder Compaction_Inputs Version_Read Manifest_Durable Compaction_Drop
begin

text \<open>
  \<^bold>\<open>What this is.\<close> iChat is a chat application for iOS. Its own code is Swift that calls the Firebase and
  Realm libraries; the C++ of the repository is in the libraries below \<^verbatim>\<open>IChat/Pods\<close>. Firebase keeps
  its local copy of the data in LevelDB (\<^verbatim>\<open>Pods/leveldb-library\<close>), a complete storage engine, and
  that is the program verified here, from its bytes upwards. Paths below are relative to it.

  \<^bold>\<open>How the engine works.\<close> A batch of updates is a byte string. It is appended to a log file and then
  applied to a table in memory, a skip list of internal keys; on opening, the log is read back and
  replayed. Full memory tables are written to table files: sorted blocks of entries with shared
  prefixes, a block of Bloom filters, an index and a footer. A manifest file, itself a log, records the edits
  of the set of files, and the file \<^verbatim>\<open>CURRENT\<close> names the manifest. Blocks that were read are kept in
  an LRU cache; a read merges the iterators of all tables.

  \<^bold>\<open>Theories.\<close> Each theory names the file it models; functions keep the names of the code, with a
  prefix when a name is used twice or taken.

  \<^item> \<open>Prelude\<close>: machine types as words, byte strings as lists, shared lemmas and collections.
  \<^item> \<open>Coding\<close> (\<^verbatim>\<open>util/coding\<close>), \<open>Crc32c\<close> (\<^verbatim>\<open>util/crc32c\<close>), \<open>Logging\<close> (\<^verbatim>\<open>util/logging\<close>), \<open>Hash\<close>
    (\<^verbatim>\<open>util/hash\<close>), \<open>Status\<close> (\<^verbatim>\<open>util/status\<close>), \<open>Arena\<close> (\<^verbatim>\<open>util/arena\<close>): encodings and their round trips,
    the checksum against its bitwise definition, statuses, and the allocator whose regions never overlap.
  \<^item> \<open>Comparator\<close> (\<^verbatim>\<open>util/comparator\<close>) and \<open>Db_Format\<close> (\<^verbatim>\<open>db/dbformat\<close>): the locales \<open>comparison\<close> and
    \<open>comparator\<close> state what the engine needs of an order; the bytewise order and the order of
    internal keys are their interpretations.
  \<^item> \<open>Bloom\<close> (\<^verbatim>\<open>util/bloom\<close>) and \<open>Filter_Block\<close> (\<^verbatim>\<open>table/filter_block\<close>): the locale \<open>filter_policy\<close>; no key
    is ever hidden by a filter.
  \<^item> \<open>Lru_Cache\<close>, \<open>Lru_Table\<close>, \<open>Lru_Invariant\<close>, \<open>Lru_Properties\<close> (\<^verbatim>\<open>util/cache\<close>): the code over entries by
    address, its circular lists and hash table against sequences and sets, the invariant that every
    call keeps, and what follows for clients.
  \<^item> \<open>File_Api\<close>, \<open>Env_Api\<close> (\<^verbatim>\<open>include/leveldb/env.h\<close>, \<^verbatim>\<open>util/env\<close>) and \<open>Env_Posix\<close>, \<open>Posix_Env\<close>
    (\<^verbatim>\<open>util/env_posix\<close>): the file interfaces as records of their methods with locales for their contracts,
    and the POSIX classes as interpretations. The kernel is a parameter: a list of answers, each a
    transfer of some bytes or an error, that the calls consume; the limiter, the lock table and the
    background thread are step relations over their interleavings.
  \<^item> \<open>Log_Writer\<close>, \<open>Log_Reader\<close>, \<open>Log_Recovery\<close> (\<^verbatim>\<open>db/log_writer\<close>, \<^verbatim>\<open>db/log_reader\<close>): what reaches the file under
    any answers of the kernel, and that a reader gets exactly the complete records of any prefix of it.
  \<^item> \<open>Skip_List\<close> (\<^verbatim>\<open>db/skiplist.h\<close>), \<open>Mem_Table\<close> (\<^verbatim>\<open>db/memtable\<close>), \<open>Write_Batch\<close> (\<^verbatim>\<open>db/write_batch\<close>): the skip list
    refines a sorted set (locale \<open>ordered_table\<close>), a lookup in the memory table gives the newest
    update of a key, and a batch applied to it does what its updates say.
  \<^item> \<open>Iterators\<close> (\<^verbatim>\<open>include/leveldb/iterator.h\<close>, \<^verbatim>\<open>table/iterator_wrapper.h\<close>): an iterator class is the record of
    its methods; the locale \<open>sorted_iterator\<close> says that it is a cursor on a sorted list, and proves that any
    sequence of moves shows what the cursor stands on.
  \<^item> \<open>Block_Builder\<close>, \<open>Block\<close>, \<open>Block_Reader\<close>, \<open>Block_Safety\<close> (\<^verbatim>\<open>table/block_builder\<close>, \<^verbatim>\<open>table/block\<close>): blocks
    of entries with shared prefixes; the iterator of a built block is a \<open>sorted_iterator\<close>, and on
    arbitrary bytes every move returns.
  \<^item> \<open>Merger\<close> (\<^verbatim>\<open>table/merger\<close>): the merge of sorted iterators is a \<open>sorted_iterator\<close> again, direction changes included.
  \<^item> \<open>Random_Gen\<close> (\<^verbatim>\<open>util/random.h\<close>), \<open>Db_Iter\<close>, \<open>Db_View\<close> (\<^verbatim>\<open>db/db_iter\<close>): the iterator that users see. Over any iterator of
    internal keys it is a \<open>sorted_iterator\<close> on the user's view at a sequence number; its sampling of reads ends
    because the generator never draws two empty periods in a row.
  \<^item> \<open>Table_Format\<close> (\<^verbatim>\<open>table/format\<close>): handles, footers, and reading a stored block, with the locale
    \<open>random_file\<close> interpreted by the two POSIX classes.
  \<^item> \<open>Options\<close> (\<^verbatim>\<open>include/leveldb/options.h\<close>), \<open>Cache_Api\<close> (\<^verbatim>\<open>include/leveldb/cache.h\<close>): the records that are passed by
    pointer; the locale \<open>shared_cache\<close>, interpreted by the sharded LRU cache, says what its clients rely on.
  \<^item> \<open>Two_Level\<close> (\<^verbatim>\<open>table/two_level_iterator\<close>): the iterator over an index of blocks. Blocks are opened in a world of files and
    caches; \<open>world_iterator\<close> is \<open>sorted_iterator\<close> in a world that counts what is held.
  \<^item> \<open>Table_Builder\<close> (\<^verbatim>\<open>table/table_builder\<close>), \<open>Table\<close>, \<open>Table_Reader\<close>, \<open>Table_Properties\<close> (\<^verbatim>\<open>table/table\<close>): the bytes that a
    finished table has; opening it, iterating over it and looking keys up gives back what was added,
    whether blocks come from the file or the cache, and no handle stays held.
  \<^item> \<open>Version_Edit\<close> (\<^verbatim>\<open>db/version_edit\<close>) and \<open>Filename\<close> (\<^verbatim>\<open>db/filename\<close>): edits of the file set and their encoding,
    file names and their parser, and the switch of \<^verbatim>\<open>CURRENT\<close>.

  \<^item> \<open>Internal_Keys\<close>, \<open>Version_Files\<close> (\<^verbatim>\<open>db/version_set\<close>): files as addresses in a store; searching a level, the files that
    overlap a range, boundary files, and the iterator over the files of a level, a \<open>sorted_iterator\<close>. \<open>Version_Set\<close>,
    \<open>Version_Builder\<close> (\<^verbatim>\<open>db/version_set\<close>): versions that share files by reference counts, and the builder against the
    edits of sets of files, one by one. \<open>Compaction\<close>, \<open>Compaction_Inputs\<close> (\<^verbatim>\<open>db/version_set\<close>): choosing the inputs of a
    compaction, which are complete, and what a running compaction asks about the levels below. \<open>Version_Get\<close>,
    \<open>Version_Lookup\<close> (\<^verbatim>\<open>db/version_set\<close>), \<open>Table_Cache\<close> (\<^verbatim>\<open>db/table_cache\<close>), \<open>Version_Read\<close>: a lookup through the levels. What it relies on
    is the locale \<open>table_store\<close>, and the cache of open tables over POSIX files interprets it.
  \<^item> \<open>Version_Refs\<close> (\<^verbatim>\<open>db/version_set\<close>): the invariant of reference counts: a file has one reference for every live version that
    lists it, a version one for every holder. \<open>Manifest\<close>: logging an edit, with what other threads do while the mutex is
    released, and recovery. \<open>Manifest_Log\<close>: logging keeps the invariant. \<open>Manifest_Recovery\<close>: recovery from the complete
    records of a log (locale \<open>reading_env\<close>). \<open>Manifest_Durable\<close>: both on POSIX files, which interpret the locales; what
    was logged survives a crash.

  \<^item> \<open>Compaction_Drop\<close> (\<^verbatim>\<open>db/db_impl\<close>): the rule by which a compaction drops entries, and a version for which it
    brings a deleted value back, because the inputs leave out a boundary file of the next level.

  \<^bold>\<open>Crashes.\<close> A file knows how many of its bytes are synced; the calls that sync it move that mark, and a
  stop of the machine may leave any prefix that holds the synced bytes. Renaming \<^verbatim>\<open>CURRENT\<close> is not synced by the
  code, so which of its two contents a stop leaves is open, and recovery is stated for the one that names the manifest.

  \<^bold>\<open>Bounds.\<close> What the code counts in 32 bits without a check is bounded where it matters: the handles and entries of
  a cache (\<open>lru_within\<close>), the keys of a filter, the length of a block, whose entries must in addition not wrap the length check of
  \<^verbatim>\<open>DecodeEntry\<close> (\<open>block_inside\<close>). Charges and memory usage are sums in \<^verbatim>\<open>size_t\<close> arithmetic.

  \<^bold>\<open>Conventions.\<close> A pointer into a buffer with a limit is the list of the bytes from it to the limit;
  a null result is \<open>None\<close>. Integers keep their width wherever the code can wrap them. A loop that
  follows data which may be corrupt is a partial function into \<open>option\<close>, with \<open>None\<close> for not
  returning, and that it returns is a theorem; no fuel is used. Assertions are preconditions of the lemmas.
  Memory that is never freed while in use is not modelled beyond what the arena and the cache do.

  \<^bold>\<open>Not modelled.\<close> Of the database class (\<^verbatim>\<open>db/db_impl\<close>) only the rule that drops entries: the scheduling of writers and
  compactions by condition variables is concurrency on top of the parts verified here. \<^verbatim>\<open>db/builder\<close>, \<^verbatim>\<open>db/repair\<close> and
  \<^verbatim>\<open>db/dumpfile\<close> put the same parts together; of \<^verbatim>\<open>db/version_set\<close> the iterators over whole versions and approximate offsets are
  left out. The histogram and the C binding of LevelDB, loggers and test support; the Realm
  core, whose sources are not in the repository, and the object store that is written against it; nanopb and the Objective-C and
  Swift libraries, which are clients of services or user interfaces; the application, which is input and output.
\<close>

end
